(* ===== verification/Zarrs_Prelude.thy ===== *)
theory Zarrs_Prelude
  imports Main
begin

text \<open>
  Shared types, arithmetic and list lemmas of the development.

  \<^item> \<open>u64\<close> values are natural numbers below \<open>M64 = 2 ^ 64\<close>.  Rust's \<open>+\<close>, \<open>*\<close> and
    \<open>-\<close> on \<open>u64\<close> are \<open>wadd\<close>, \<open>wmul\<close> and \<open>wsub\<close>: they wrap, as in the release profile
    of the workspace (which sets no \<open>overflow-checks\<close>).  In the debug profile the same
    operations panic exactly where a wrapped value differs from the exact one, so a theorem whose
    hypotheses exclude overflow holds for both profiles.
  \<^item> \<open>saturating_sub\<close> is subtraction on \<open>nat\<close>; \<open>checked_add\<close> and \<open>checked_mul\<close> return an
    option; \<open>usize\<close> is taken to have 64 bits, so conversions between \<open>u64\<close> and \<open>usize\<close> never
    fail.  A \<open>NonZeroU64\<close> is a \<open>u64\<close> with a well-formedness condition \<open>0 < n\<close>.
  \<^item> \<open>Result<T, E>\<close> is a sum \<open>'e + 'a\<close> (\<open>Inl\<close> the error), \<open>Option<T>\<close> is \<open>'a option\<close>;
    \<open>collect_opt\<close> and \<open>collect_res\<close> are \<open>collect::<Option<Vec<_>>>\<close> and
    \<open>collect::<Result<Vec<_>, _>>\<close>.
\<close>

named_theorems u64_simps \<open>wrapping arithmetic without overflow\<close>

type_synonym u64 = nat
type_synonym usize = nat
type_synonym array_indices = "u64 list"
type_synonym array_shape = "u64 list"
type_synonym chunk_shape = "u64 list"

subsection \<open>Machine arithmetic\<close>

definition M64 :: nat where
  "M64 = 2 ^ 64"

definition wadd :: "u64 \<Rightarrow> u64 \<Rightarrow> u64" where
  "wadd a b = (a + b) mod M64"

definition wmul :: "u64 \<Rightarrow> u64 \<Rightarrow> u64" where
  "wmul a b = (a * b) mod M64"

definition wsub :: "u64 \<Rightarrow> u64 \<Rightarrow> u64" where
  "wsub a b = (a + M64 - b) mod M64"

definition saturating_sub :: "u64 \<Rightarrow> u64 \<Rightarrow> u64" where
  "saturating_sub a b = a - b"

definition saturating_add :: "u64 \<Rightarrow> u64 \<Rightarrow> u64" where
  "saturating_add a b = min (a + b) (M64 - 1)"

definition checked_add :: "u64 \<Rightarrow> u64 \<Rightarrow> u64 option" where
  "checked_add a b = (if a + b < M64 then Some (a + b) else None)"

definition checked_mul :: "u64 \<Rightarrow> u64 \<Rightarrow> u64 option" where
  "checked_mul a b = (if a * b < M64 then Some (a * b) else None)"

definition div_ceil :: "u64 \<Rightarrow> u64 \<Rightarrow> u64" where
  "div_ceil a b = (if 0 < a mod b then a div b + 1 else a div b)"

text \<open>\<open>iter().product::<u64>()\<close> and \<open>iter().sum::<u64>()\<close>.\<close>

definition wprod :: "u64 list \<Rightarrow> u64" where
  "wprod xs = foldl wmul 1 xs"

definition wsum :: "u64 list \<Rightarrow> u64" where
  "wsum xs = foldl wadd 0 xs"

lemma M64_pos [simp]: "0 < M64"
  by (simp add: M64_def)

lemma M64_gt1 [simp]: "Suc 0 < M64"
  by (simp add: M64_def)

lemma wadd_eq [u64_simps]: "a + b < M64 \<Longrightarrow> wadd a b = a + b"
  by (simp add: wadd_def)

lemma wmul_eq [u64_simps]: "a * b < M64 \<Longrightarrow> wmul a b = a * b"
  by (simp add: wmul_def)

lemma wsub_eq [u64_simps]: "b \<le> a \<Longrightarrow> a < M64 \<Longrightarrow> wsub a b = a - b"
proof -
  assume "b \<le> a" and lt: "a < M64"
  then obtain c where "a = b + c" using le_Suc_ex by blast
  with lt show ?thesis by (simp add: wsub_def add.assoc)
qed

lemma wadd_less [simp]: "wadd a b < M64"
  by (simp add: wadd_def)

lemma wmul_less [simp]: "wmul a b < M64"
  by (simp add: wmul_def)

lemma div_ceil_0 [simp]: "div_ceil 0 b = 0"
  by (simp add: div_ceil_def)

lemma div_ceil_bounds:
  assumes "0 < b"
  shows "a \<le> div_ceil a b * b" and "div_ceil a b * b < a + b"
proof -
  define q r where "q = a div b" and "r = a mod b"
  have a: "a = q * b + r" and r: "r < b"
    using assms by (simp_all add: q_def r_def)
  have d: "div_ceil a b = (if 0 < r then q + 1 else q)"
    by (simp add: div_ceil_def q_def r_def)
  have "a \<le> div_ceil a b * b \<and> div_ceil a b * b < a + b"
    unfolding d using r by (simp add: a)
  then show "a \<le> div_ceil a b * b" and "div_ceil a b * b < a + b" by blast+
qed

lemma less_div_ceil_iff:
  assumes "0 < b"
  shows "i < div_ceil a b \<longleftrightarrow> i * b < a"
proof
  assume "i < div_ceil a b"
  then have "Suc i * b \<le> div_ceil a b * b" by (intro mult_le_mono1) simp
  also have "\<dots> < a + b" using div_ceil_bounds(2)[OF assms] .
  finally show "i * b < a" by simp
next
  assume "i * b < a"
  also have "a \<le> div_ceil a b * b" using div_ceil_bounds(1)[OF assms] .
  finally show "i < div_ceil a b" using assms by simp
qed

lemma div_less_div_ceil: "0 < b \<Longrightarrow> i < a \<Longrightarrow> i div b < div_ceil a b"
  by (metis div_times_less_eq_dividend less_div_ceil_iff order_le_less_trans)

lemma foldl_wmul: "foldl wmul a xs mod M64 = a * prod_list xs mod M64"
  by (induction xs arbitrary: a)
    (simp_all add: wmul_def mod_mult_left_eq mult.assoc)

lemma wprod_mod: "wprod xs mod M64 = prod_list xs mod M64"
  by (simp add: wprod_def foldl_wmul)

lemma wprod_less [simp]: "wprod xs < M64"
  unfolding wprod_def by (induction xs rule: rev_induct) simp_all

lemma wprod_eq [u64_simps]: "prod_list xs < M64 \<Longrightarrow> wprod xs = prod_list xs"
  by (metis mod_less wprod_less wprod_mod)

lemma wprod_eq_mod: "wprod xs = prod_list xs mod M64"
  by (metis mod_less wprod_less wprod_mod)

lemma foldl_wadd: "foldl wadd a xs mod M64 = (a + sum_list xs) mod M64"
  by (induction xs arbitrary: a) (simp_all add: wadd_def mod_add_left_eq add.assoc)

lemma wsum_less [simp]: "wsum xs < M64"
  unfolding wsum_def by (induction xs rule: rev_induct) simp_all

lemma wsum_eq [u64_simps]: "sum_list xs < M64 \<Longrightarrow> wsum xs = sum_list xs"
  using foldl_wadd[of 0 xs] wsum_less[of xs] by (simp add: wsum_def)

lemma prod_list_eq_0: "prod_list (xs :: nat list) = 0 \<longleftrightarrow> 0 \<in> set xs"
  by (induction xs) auto

lemma prod_list_pos: "0 \<notin> set (xs :: nat list) \<Longrightarrow> 0 < prod_list xs"
  using prod_list_eq_0[of xs] by simp

text \<open>A product with a zero factor is zero, and a product of dimensions bounds each of its tails.\<close>

lemma wprod_zero: "0 \<in> set xs \<Longrightarrow> wprod xs = 0"
  by (simp add: wprod_eq_mod iffD2[OF prod_list_eq_0])

lemma prod_list_tl_le: "0 < (s::nat) \<Longrightarrow> prod_list ss \<le> prod_list (s # ss)"
  by simp

subsection \<open>Collecting options and results\<close>

fun collect_opt :: "'a option list \<Rightarrow> 'a list option" where
  "collect_opt [] = Some []"
| "collect_opt (None # xs) = None"
| "collect_opt (Some x # xs) = map_option ((#) x) (collect_opt xs)"

fun collect_res :: "('e + 'a) list \<Rightarrow> 'e + 'a list" where
  "collect_res [] = Inr []"
| "collect_res (Inl e # xs) = Inl e"
| "collect_res (Inr x # xs) = (case collect_res xs of Inl e \<Rightarrow> Inl e | Inr ys \<Rightarrow> Inr (x # ys))"

definition bind_res :: "'e + 'a \<Rightarrow> ('a \<Rightarrow> 'e + 'b) \<Rightarrow> 'e + 'b" where
  "bind_res m f = (case m of Inl e \<Rightarrow> Inl e | Inr x \<Rightarrow> f x)"

text \<open>\<open>slice::last\<close> and \<open>Vec::pop\<close>.\<close>

definition last_opt :: "'a list \<Rightarrow> 'a option" where
  "last_opt xs = (if xs = [] then None else Some (last xs))"

lemma bind_res_simps [simp]: "bind_res (Inl e) f = Inl e" "bind_res (Inr x) f = f x"
  by (simp_all add: bind_res_def)

definition map_err :: "('e \<Rightarrow> 'f) \<Rightarrow> 'e + 'a \<Rightarrow> 'f + 'a" where
  "map_err f r = (case r of Inl e \<Rightarrow> Inl (f e) | Inr x \<Rightarrow> Inr x)"

lemma map_err_simps [simp]: "map_err f (Inl e) = Inl (f e)" "map_err f (Inr x) = Inr x"
  by (simp_all add: map_err_def)

lemma bind_res_Inr: "bind_res m f = Inr y \<longleftrightarrow> (\<exists>x. m = Inr x \<and> f x = Inr y)"
  by (simp add: bind_res_def split: sum.splits)

lemma collect_opt_map_Some [simp]: "collect_opt (map (\<lambda>x. Some (f x)) xs) = Some (map f xs)"
  by (induction xs) simp_all

lemma collect_opt_Some_iff: "collect_opt xs = Some ys \<longleftrightarrow> xs = map Some ys"
  by (induction xs arbitrary: ys rule: collect_opt.induct) (auto split: option.splits)

lemma collect_opt_None_iff: "collect_opt xs = None \<longleftrightarrow> None \<in> set xs"
  by (induction xs rule: collect_opt.induct) auto

lemma collect_opt_eqI: "xs = map Some ys \<Longrightarrow> collect_opt xs = Some ys"
  by (simp add: collect_opt_Some_iff)

lemma collect_res_Inr_iff: "collect_res xs = Inr ys \<longleftrightarrow> xs = map Inr ys"
proof (induction xs arbitrary: ys rule: collect_res.induct)
  case (3 x xs)
  show ?case
  proof (cases ys)
    case Nil
    then show ?thesis by (simp split: sum.splits)
  next
    case (Cons y ys')
    then show ?thesis using "3"[of ys'] by (auto split: sum.splits)
  qed
qed auto

lemma collect_res_map_Inr [simp]: "collect_res (map (\<lambda>x. Inr (f x)) xs) = Inr (map f xs)"
  by (induction xs) simp_all

lemma collect_res_Inl: "collect_res xs = Inl e \<Longrightarrow> Inl e \<in> set xs"
  by (induction xs rule: collect_res.induct) (auto split: sum.splits)

subsection \<open>Pointwise relations on equally long lists\<close>

text \<open>\<open>inb i s\<close>: the multi-dimensional index \<open>i\<close> is inside the shape \<open>s\<close>.\<close>

definition inb :: "nat list \<Rightarrow> nat list \<Rightarrow> bool" where
  "inb i s = list_all2 (<) i s"

lemma inb_length: "inb i s \<Longrightarrow> length i = length s"
  by (simp add: inb_def list_all2_lengthD)

lemma inb_Nil [simp]: "inb [] s \<longleftrightarrow> s = []" "inb i [] \<longleftrightarrow> i = []"
  by (simp_all add: inb_def)

lemma inb_Cons [simp]: "inb (i # is) (s # ss) \<longleftrightarrow> i < s \<and> inb is ss"
  by (simp add: inb_def)

lemma inb_nth: "inb i s \<longleftrightarrow> length i = length s \<and> (\<forall>k < length s. i ! k < s ! k)"
  by (auto simp: inb_def list_all2_conv_all_nth)

lemma inb_pos: "inb i s \<Longrightarrow> 0 \<notin> set s"
  by (auto simp: inb_nth in_set_conv_nth)

lemma inb_Cons2: "inb is (s # ss) \<longleftrightarrow> (\<exists>j js. is = j # js \<and> j < s \<and> inb js ss)"
  by (cases "is") auto

lemma list_eq_nth: "length xs = length ys \<Longrightarrow> (\<And>k. k < length ys \<Longrightarrow> xs ! k = ys ! k) \<Longrightarrow> xs = ys"
  by (simp add: nth_equalityI)

lemma all_zip_nth:
  "length xs = length ys \<Longrightarrow>
    (\<forall>(x, y) \<in> set (zip xs ys). P x y) \<longleftrightarrow> (\<forall>k < length ys. P (xs ! k) (ys ! k))"
  by (auto simp: set_zip)

lemma list_ex_zip_nth:
  "length xs = length ys \<Longrightarrow>
    list_ex (\<lambda>(x, y). P x y) (zip xs ys) \<longleftrightarrow> (\<exists>k < length ys. P (xs ! k) (ys ! k))"
  by (auto simp: list_ex_iff set_zip)

lemma list_all_zip_nth:
  "length xs = length ys \<Longrightarrow>
    list_all (\<lambda>(x, y). P x y) (zip xs ys) \<longleftrightarrow> (\<forall>k < length ys. P (xs ! k) (ys ! k))"
  by (auto simp: list_all_iff set_zip)

lemma list_all_zip_inb:
  "length i = length s \<Longrightarrow> list_all (\<lambda>(a, b). a < b) (zip i s) \<longleftrightarrow> inb i s"
  by (auto simp: list_all_iff inb_nth set_zip)

text \<open>Zipped lists as functions of the position.\<close>

lemma map_zip_upt:
  "length xs = n \<Longrightarrow> length ys = n \<Longrightarrow> map f (zip xs ys) = map (\<lambda>k. f (xs ! k, ys ! k)) [0..<n]"
  by (auto intro: nth_equalityI)

lemma map_zip3_upt:
  "length xs = n \<Longrightarrow> length ys = n \<Longrightarrow> length zs = n \<Longrightarrow>
     map f (zip (zip xs ys) zs) = map (\<lambda>k. f ((xs ! k, ys ! k), zs ! k)) [0..<n]"
  by (auto intro: nth_equalityI)

lemma collect_opt_upt:
  "(\<And>k. k < n \<Longrightarrow> f k = Some (g k)) \<Longrightarrow> collect_opt (map f [0..<n]) = Some (map g [0..<n])"
  by (rule collect_opt_eqI) simp

lemma replicate_two: "replicate 2 x = [x, x]"
  by (simp add: numeral_2_eq_2)

lemma map_upt_cong: "(\<And>k. k < n \<Longrightarrow> f k = g k) \<Longrightarrow> map f [0..<n] = map g [0..<n]"
  by simp

end
