(* ===== verification/Array_Subset.thy ===== *)
theory Array_Subset
  imports Zarrs_Prelude
begin

text \<open>
  Array subsets: \<open>zarrs_chunk_grid/src/array_subset.rs\<close> and \<open>array_subset_traits.rs\<close>.
  The record \<open>array_subset\<close> is the struct \<open>ArraySubset\<close>; each method is a function of the same
  name.  \<open>elements\<close> is the abstract meaning of a subset, the set of indices it covers; the
  lemmas show that the methods compute the corresponding operations on sets.
\<close>

record array_subset =
  sub_start :: array_indices
  sub_shape :: array_shape

datatype array_subset_error =
    IncompatibleDimensionality usize usize
  | IncompatibleStartShape array_indices array_shape
  | IncompatibleStartEnd array_indices array_indices bool
  | IncompatibleOffset "u64 list" "u64 list"

text \<open>A Rust \<open>Range<u64>\<close> is a pair of its start and its exclusive end.\<close>

type_synonym range64 = "u64 \<times> u64"

subsection \<open>Constructors\<close>

definition new_empty :: "usize \<Rightarrow> array_subset" where
  "new_empty d = \<lparr>sub_start = replicate d 0, sub_shape = replicate d 0\<rparr>"

definition from_ranges :: "range64 list \<Rightarrow> array_subset" where
  "from_ranges rs =
     \<lparr>sub_start = map fst rs, sub_shape = map (\<lambda>r. saturating_sub (snd r) (fst r)) rs\<rparr>"

definition new_with_ranges :: "range64 list \<Rightarrow> array_subset" where
  "new_with_ranges rs =
     \<lparr>sub_start = map fst rs, sub_shape = map (\<lambda>r. saturating_sub (snd r) (fst r)) rs\<rparr>"

definition new_with_shape :: "array_shape \<Rightarrow> array_subset" where
  "new_with_shape s = \<lparr>sub_start = replicate (length s) 0, sub_shape = s\<rparr>"

definition new_with_start_shape ::
    "array_indices \<Rightarrow> array_shape \<Rightarrow> array_subset_error + array_subset" where
  "new_with_start_shape st sh =
     (if length st = length sh then Inr \<lparr>sub_start = st, sub_shape = sh\<rparr>
      else Inl (IncompatibleStartShape st sh))"

definition new_with_start_end_inc ::
    "array_indices \<Rightarrow> array_indices \<Rightarrow> array_subset_error + array_subset" where
  "new_with_start_end_inc st en =
     (if length st \<noteq> length en \<or> list_ex (\<lambda>(s, e). e < s) (zip st en)
      then Inl (IncompatibleStartEnd st en True)
      else Inr \<lparr>sub_start = st,
                sub_shape = map (\<lambda>(s, e). wadd (saturating_sub e s) 1) (zip st en)\<rparr>)"

definition new_with_start_end_exc ::
    "array_indices \<Rightarrow> array_indices \<Rightarrow> array_subset_error + array_subset" where
  "new_with_start_end_exc st en =
     (if length st \<noteq> length en \<or> list_ex (\<lambda>(s, e). e < s) (zip st en)
      then Inl (IncompatibleStartEnd st en False)
      else Inr \<lparr>sub_start = st, sub_shape = map (\<lambda>(s, e). saturating_sub e s) (zip st en)\<rparr>)"

subsection \<open>Queries\<close>

definition dimensionality :: "array_subset \<Rightarrow> usize" where
  "dimensionality s = length (sub_start s)"

definition is_empty :: "array_subset \<Rightarrow> bool" where
  "is_empty s = list_ex (\<lambda>n. n = 0) (sub_shape s)"

definition chunk_shape_of :: "array_subset \<Rightarrow> chunk_shape option" where
  "chunk_shape_of s = collect_opt (map (\<lambda>n. if n = 0 then None else Some n) (sub_shape s))"

definition num_elements :: "array_subset \<Rightarrow> u64" where
  "num_elements s = wprod (sub_shape s)"

definition end_exc :: "array_subset \<Rightarrow> array_indices" where
  "end_exc s = map (\<lambda>(o1, n). wadd o1 n) (zip (sub_start s) (sub_shape s))"

definition end_inc :: "array_subset \<Rightarrow> array_indices option" where
  "end_inc s =
     (if 0 \<in> set (sub_shape s) then None
      else Some (map (\<lambda>(o1, n). wsub (wadd o1 n) 1) (zip (sub_start s) (sub_shape s))))"

definition to_ranges :: "array_subset \<Rightarrow> range64 list" where
  "to_ranges s = map (\<lambda>(o1, n). (o1, wadd o1 n)) (zip (sub_start s) (sub_shape s))"

definition contains :: "array_subset \<Rightarrow> u64 list \<Rightarrow> bool" where
  "contains s i =
     list_all (\<lambda>(i1, o1, n). o1 \<le> i1 \<and> i1 < wadd o1 n) (zip i (zip (sub_start s) (sub_shape s)))"

definition inbounds_shape :: "array_subset \<Rightarrow> u64 list \<Rightarrow> bool" where
  "inbounds_shape s a =
     (if length (sub_start s) \<noteq> length a \<or> length (sub_shape s) \<noteq> length a then False
      else list_all (\<lambda>(o1, n, b). wadd o1 n \<le> b) (zip (sub_start s) (zip (sub_shape s) a)))"

definition inbounds :: "array_subset \<Rightarrow> array_subset \<Rightarrow> bool" where
  "inbounds s t =
     (if length (sub_start s) \<noteq> length (sub_start t) \<or> length (sub_shape s) \<noteq> length (sub_shape t)
      then False
      else list_all (\<lambda>((o1, n1), (o2, n2)). o2 \<le> o1 \<and> wadd o1 n1 \<le> wadd o2 n2)
             (zip (zip (sub_start s) (sub_shape s)) (zip (sub_start t) (sub_shape t))))"

subsection \<open>Operations that build a new subset\<close>

definition bound :: "array_subset \<Rightarrow> u64 list \<Rightarrow> array_subset_error + array_subset" where
  "bound s en =
     (if length en = length (sub_start s)
      then let st = map (\<lambda>(a, b). min a b) (zip (sub_start s) en);
               ee = map (\<lambda>(o1, n). wadd o1 n) (zip (sub_start s) (sub_shape s));
               en' = map (\<lambda>(a, b). min a b) (zip ee en)
           in new_with_start_end_exc st en'
      else Inl (IncompatibleStartEnd (sub_start s) en False))"

definition overlap :: "array_subset \<Rightarrow> array_subset \<Rightarrow> array_subset_error + array_subset" where
  "overlap s t =
     (if length (sub_start t) = length (sub_start s) \<and> length (sub_shape t) = length (sub_shape s)
      then Inr (from_ranges
             (map (\<lambda>((o1, n1), (o2, n2)). (max o1 o2, min (wadd o1 n1) (wadd o2 n2)))
                (zip (zip (sub_start s) (sub_shape s)) (zip (sub_start t) (sub_shape t)))))
      else Inl (IncompatibleDimensionality (length (sub_start t)) (length (sub_start s))))"

definition relative_to :: "array_subset \<Rightarrow> u64 list \<Rightarrow> array_subset_error + array_subset" where
  "relative_to s off =
     (if length off \<noteq> length (sub_start s) \<or> list_ex (\<lambda>(a, b). a < b) (zip (sub_start s) off)
      then Inl (IncompatibleOffset (sub_start s) off)
      else new_with_start_shape (map (\<lambda>(a, b). wsub a b) (zip (sub_start s) off)) (sub_shape s))"

definition offset :: "array_subset \<Rightarrow> u64 list \<Rightarrow> array_subset_error + array_subset" where
  "offset s off =
     (if length off = length (sub_start s)
      then new_with_start_shape (map (\<lambda>(a, b). wadd a b) (zip (sub_start s) off)) (sub_shape s)
      else Inl (IncompatibleOffset (sub_start s) off))"

text \<open>
  The implementations of \<open>ArraySubsetTraits\<close> for \<open>[Range<u64>; N]\<close>, \<open>&[Range<u64>]\<close> and
  \<open>Vec<Range<u64>>\<close>: \<open>start()\<close>, \<open>shape()\<close> and the default \<open>to_array_subset\<close>, whose
  \<open>expect\<close> cannot fail because both lists have the length of the list of ranges.
\<close>

definition ranges_start :: "range64 list \<Rightarrow> array_indices" where
  "ranges_start rs = map fst rs"

definition ranges_shape :: "range64 list \<Rightarrow> array_shape" where
  "ranges_shape rs = map (\<lambda>r. saturating_sub (snd r) (fst r)) rs"

definition ranges_to_array_subset :: "range64 list \<Rightarrow> array_subset_error + array_subset" where
  "ranges_to_array_subset rs = new_with_start_shape (ranges_start rs) (ranges_shape rs)"

subsection \<open>Well-formedness and the abstract meaning\<close>

text \<open>
  \<open>wf_subset\<close>: start and shape have the same length (kept by every constructor) and no end index
  overflows.  \<open>elements\<close> is the set of indices inside the hyper-rectangle.
\<close>

definition wf_subset :: "array_subset \<Rightarrow> bool" where
  "wf_subset s \<longleftrightarrow> length (sub_start s) = length (sub_shape s) \<and>
     list_all (\<lambda>(o1, n). o1 + n < M64) (zip (sub_start s) (sub_shape s))"

definition elements :: "array_subset \<Rightarrow> u64 list set" where
  "elements s = {i. length i = length (sub_start s) \<and>
     (\<forall>k < length i. sub_start s ! k \<le> i ! k \<and> i ! k < sub_start s ! k + sub_shape s ! k)}"

lemma wf_subset_nth:
  "wf_subset s \<longleftrightarrow> length (sub_start s) = length (sub_shape s) \<and>
     (\<forall>k < length (sub_shape s). sub_start s ! k + sub_shape s ! k < M64)"
  by (auto simp: wf_subset_def list_all_length)

lemma wf_subset_length: "wf_subset s \<Longrightarrow> length (sub_shape s) = length (sub_start s)"
  by (simp add: wf_subset_def)

lemma wf_subset_wadd [u64_simps]:
  "wf_subset s \<Longrightarrow> k < length (sub_start s) \<Longrightarrow>
     wadd (sub_start s ! k) (sub_shape s ! k) = sub_start s ! k + sub_shape s ! k"
  by (simp add: wf_subset_nth wadd_eq)

lemma mem_elements:
  "i \<in> elements s \<longleftrightarrow> length i = length (sub_start s) \<and>
     (\<forall>k < length i. sub_start s ! k \<le> i ! k \<and> i ! k < sub_start s ! k + sub_shape s ! k)"
  by (simp add: elements_def)

lemma contains_iff_elements:
  assumes "wf_subset s" and "length i = length (sub_start s)"
  shows "contains s i \<longleftrightarrow> i \<in> elements s"
  using assms
  by (auto simp: contains_def list_all_length mem_elements wf_subset_length u64_simps)

lemma elements_start:
  assumes "wf_subset s" and "\<not> is_empty s"
  shows "sub_start s \<in> elements s"
  using assms by (auto simp: mem_elements is_empty_def list_ex_length wf_subset_length)

lemma elements_empty_iff:
  assumes "wf_subset s"
  shows "elements s = {} \<longleftrightarrow> is_empty s"
proof
  assume "is_empty s"
  then obtain k where "k < length (sub_shape s)" "sub_shape s ! k = 0"
    by (auto simp: is_empty_def list_ex_length)
  with assms show "elements s = {}"
    by (auto simp: mem_elements wf_subset_length dest!: spec[of _ k])
qed (use elements_start[OF assms] in blast)

lemma end_exc_nth:
  "wf_subset s \<Longrightarrow> k < length (sub_start s) \<Longrightarrow> end_exc s ! k = sub_start s ! k + sub_shape s ! k"
  by (simp add: end_exc_def wf_subset_length u64_simps)

lemma length_end_exc: "wf_subset s \<Longrightarrow> length (end_exc s) = length (sub_start s)"
  by (simp add: end_exc_def wf_subset_length)

lemma end_inc_Some:
  assumes "wf_subset s" and "end_inc s = Some e"
  shows "length e = length (sub_start s)"
    and "k < length (sub_start s) \<Longrightarrow> e ! k = sub_start s ! k + sub_shape s ! k - 1 \<and> 0 < sub_shape s ! k"
proof -
  from assms(2) have z: "0 \<notin> set (sub_shape s)"
    and e: "e = map (\<lambda>(o1, n). wsub (wadd o1 n) 1) (zip (sub_start s) (sub_shape s))"
    by (auto simp: end_inc_def split: if_splits)
  from assms(1) e show "length e = length (sub_start s)" by (simp add: wf_subset_length)
  assume k: "k < length (sub_start s)"
  then have pos: "0 < sub_shape s ! k"
    using z assms(1) by (metis gr0I nth_mem wf_subset_length)
  have lt: "sub_start s ! k + sub_shape s ! k < M64"
    using assms(1) k by (simp add: wf_subset_nth)
  have "e ! k = wsub (sub_start s ! k + sub_shape s ! k) 1"
    using e k assms(1) by (simp add: wf_subset_length u64_simps)
  then show "e ! k = sub_start s ! k + sub_shape s ! k - 1 \<and> 0 < sub_shape s ! k"
    using pos lt by (simp add: wsub_eq)
qed

lemma end_inc_elements:
  assumes "wf_subset s" and "end_inc s = Some e"
  shows "e \<in> elements s"
  using end_inc_Some[OF assms] by (fastforce simp: mem_elements)

lemma mem_elements_end_inc:
  assumes "wf_subset s" and "end_inc s = Some e"
  shows "i \<in> elements s \<longleftrightarrow> length i = length (sub_start s) \<and>
     (\<forall>k < length (sub_start s). sub_start s ! k \<le> i ! k \<and> i ! k \<le> e ! k)"
proof -
  have "i ! k \<le> e ! k \<longleftrightarrow> i ! k < sub_start s ! k + sub_shape s ! k" if "k < length (sub_start s)" for k
    using end_inc_Some(2)[OF assms that] by linarith
  then show ?thesis by (auto simp: mem_elements)
qed

lemma end_inc_le:
  assumes "wf_subset s" and "end_inc s = Some e" and "k < length (sub_start s)"
  shows "sub_start s ! k \<le> e ! k"
  using end_inc_Some(2)[OF assms] by linarith

lemma end_inc_None_iff: "end_inc s = None \<longleftrightarrow> is_empty s"
  by (auto simp: end_inc_def is_empty_def list_ex_iff)

subsection \<open>The operations on the meaning\<close>

lemma from_ranges_to_ranges: "wf_subset s \<Longrightarrow> from_ranges (to_ranges s) = s"
  by (rule array_subset.equality)
    (auto simp: from_ranges_def to_ranges_def saturating_sub_def wf_subset_length u64_simps
      intro!: nth_equalityI)

lemma ranges_to_array_subset_eq: "ranges_to_array_subset rs = Inr (from_ranges rs)"
  by (simp add: ranges_to_array_subset_def new_with_start_shape_def ranges_start_def
      ranges_shape_def from_ranges_def)

lemma elements_from_ranges:
  "i \<in> elements (from_ranges rs) \<longleftrightarrow>
     length i = length rs \<and> (\<forall>k < length i. fst (rs ! k) \<le> i ! k \<and> i ! k < snd (rs ! k))"
  by (auto simp: mem_elements from_ranges_def saturating_sub_def)

lemma wf_from_ranges:
  "wf_subset (from_ranges rs) \<longleftrightarrow> (\<forall>k < length rs. max (fst (rs ! k)) (snd (rs ! k)) < M64)"
  by (auto simp: wf_subset_nth from_ranges_def saturating_sub_def)

lemma from_ranges_upt:
  "(\<And>k. k < n \<Longrightarrow> f k = (lo k, hi k)) \<Longrightarrow>
     from_ranges (map f [0..<n]) = \<lparr>sub_start = map lo [0..<n], sub_shape = map (\<lambda>k. hi k - lo k) [0..<n]\<rparr>"
  by (simp add: from_ranges_def saturating_sub_def)

lemma new_with_ranges_eq: "new_with_ranges rs = from_ranges rs"
  by (simp add: new_with_ranges_def from_ranges_def)

lemma new_with_start_end_exc_ok:
  assumes "length st = length en" and "\<And>k. k < length en \<Longrightarrow> st ! k \<le> en ! k"
  shows "new_with_start_end_exc st en =
     Inr \<lparr>sub_start = st, sub_shape = map (\<lambda>(s, e). saturating_sub e s) (zip st en)\<rparr>"
  using assms by (auto simp: new_with_start_end_exc_def list_ex_zip_nth leD)

lemma overlap_inter:
  assumes "wf_subset s" and "wf_subset t"
  shows "if length (sub_start t) = length (sub_start s)
         then \<exists>r. overlap s t = Inr r \<and> wf_subset r \<and> elements r = elements s \<inter> elements t
         else overlap s t = Inl (IncompatibleDimensionality (length (sub_start t)) (length (sub_start s)))"
proof (cases "length (sub_start t) = length (sub_start s)")
  case True
  define rs where "rs = map (\<lambda>((o1, n1), (o2, n2)). (max o1 o2, min (wadd o1 n1) (wadd o2 n2)))
    (zip (zip (sub_start s) (sub_shape s)) (zip (sub_start t) (sub_shape t)))"
  have len: "length rs = length (sub_start s)"
    using assms True by (simp add: rs_def wf_subset_length)
  have nth: "rs ! k = (max (sub_start s ! k) (sub_start t ! k),
      min (sub_start s ! k + sub_shape s ! k) (sub_start t ! k + sub_shape t ! k))"
    if "k < length (sub_start s)" for k
    using that assms True by (simp add: rs_def wf_subset_length u64_simps)
  have "overlap s t = Inr (from_ranges rs)"
    using assms True by (simp add: overlap_def rs_def wf_subset_length)
  moreover have "wf_subset (from_ranges rs)"
    unfolding wf_from_ranges len
  proof (intro allI impI)
    fix k assume k: "k < length (sub_start s)"
    then have "sub_start s ! k + sub_shape s ! k < M64" "sub_start t ! k + sub_shape t ! k < M64"
      using assms True by (simp_all add: wf_subset_nth)
    then show "max (fst (rs ! k)) (snd (rs ! k)) < M64" by (auto simp: nth[OF k])
  qed
  moreover have "elements (from_ranges rs) = elements s \<inter> elements t"
    using True by (auto simp: elements_from_ranges len nth mem_elements[of _ s] mem_elements[of _ t])
  ultimately show ?thesis using True by auto
next
  case False
  then show ?thesis by (simp add: overlap_def)
qed

text \<open>
  \<open>overlap\<close> of two well-formed subsets of the same dimensionality never fails and
  returns a well-formed subset whose elements are exactly the common elements of both; on
  subsets of different dimensionality it returns \<open>IncompatibleDimensionality\<close>.
\<close>

theorem overlap_is_intersection:
  assumes "wf_subset s" and "wf_subset t"
  shows "if length (sub_start t) = length (sub_start s)
         then \<exists>r. overlap s t = Inr r \<and> wf_subset r \<and> elements r = elements s \<inter> elements t
         else overlap s t = Inl (IncompatibleDimensionality (length (sub_start t)) (length (sub_start s)))"
  using overlap_inter[OF assms] .

theorem overlap_is_intersection_witness:
  "\<exists>r. overlap \<lparr>sub_start = [1, 2], sub_shape = [3, 4]\<rparr> \<lparr>sub_start = [2, 0], sub_shape = [5, 3]\<rparr> = Inr r \<and>
     wf_subset r \<and> elements r = elements \<lparr>sub_start = [1, 2], sub_shape = [3, 4]\<rparr> \<inter>
       elements \<lparr>sub_start = [2, 0], sub_shape = [5, 3]\<rparr>"
proof -
  have w: "wf_subset \<lparr>sub_start = [1, 2], sub_shape = [3, 4]\<rparr>"
    "wf_subset \<lparr>sub_start = [2, 0], sub_shape = [5, 3]\<rparr>"
    by (simp_all add: wf_subset_def M64_def)
  show ?thesis using overlap_is_intersection[OF w] by simp
qed

lemma clip_interval:
  "(min a e \<le> i \<and> i < min a e + (min (a + n) e - min a e)) \<longleftrightarrow> (a \<le> i \<and> i < a + n \<and> i < (e::nat))"
  by linarith

text \<open>
  \<open>bound\<close> by an exclusive end of the right length never fails and keeps exactly the
  elements below the end in every dimension.
\<close>

theorem bound_clips:
  assumes "wf_subset s" and "length en = length (sub_start s)"
  shows "\<exists>r. bound s en = Inr r \<and> wf_subset r \<and>
           elements r = {i \<in> elements s. \<forall>k < length i. i ! k < en ! k}"
proof -
  define st where "st = map (\<lambda>(a, b). min a b) (zip (sub_start s) en)"
  define e where "e = map (\<lambda>(a, b). min a b)
    (zip (map (\<lambda>(o1, n). wadd o1 n) (zip (sub_start s) (sub_shape s))) en)"
  have len: "length st = length (sub_start s)" "length e = length (sub_start s)"
    using assms by (simp_all add: st_def e_def wf_subset_length)
  have nth: "st ! k = min (sub_start s ! k) (en ! k)"
    "e ! k = min (sub_start s ! k + sub_shape s ! k) (en ! k)"
    if "k < length (sub_start s)" for k
    using that assms by (simp_all add: st_def e_def wf_subset_length u64_simps)
  let ?r = "\<lparr>sub_start = st, sub_shape = map (\<lambda>(s, e). saturating_sub e s) (zip st e)\<rparr>"
  have "bound s en = new_with_start_end_exc st e"
    using assms by (simp add: bound_def st_def e_def)
  also have "\<dots> = Inr ?r"
    by (rule new_with_start_end_exc_ok) (simp_all add: len nth)
  finally have "bound s en = Inr ?r" .
  moreover have "wf_subset ?r"
    using assms(1) by (auto simp: wf_subset_nth len nth saturating_sub_def)
  moreover have "elements ?r = {i \<in> elements s. \<forall>k < length i. i ! k < en ! k}"
    by (fastforce simp: mem_elements len nth saturating_sub_def clip_interval min_le_iff_disj)
  ultimately show ?thesis by blast
qed

theorem bound_clips_witness:
  "\<exists>r. bound \<lparr>sub_start = [1, 2], sub_shape = [3, 4]\<rparr> [3, 10] = Inr r \<and> wf_subset r \<and>
     elements r = {i \<in> elements \<lparr>sub_start = [1, 2], sub_shape = [3, 4]\<rparr>. \<forall>k < length i. i ! k < [3, 10] ! k}"
  by (rule bound_clips) (simp_all add: wf_subset_def M64_def)

text \<open>
  \<open>inbounds\<close> is sound and, for a non-empty subset, complete for inclusion: a subset
  in bounds of another only has elements of the other, and a non-empty subset whose elements all
  belong to the other is in bounds.
\<close>

theorem inbounds_iff_subset:
  assumes "wf_subset s" and "wf_subset t" and "length (sub_start s) = length (sub_start t)"
    and "\<not> is_empty s"
  shows "inbounds s t \<longleftrightarrow> elements s \<subseteq> elements t"
proof
  assume "inbounds s t"
  then have "\<forall>k < length (sub_start s). sub_start t ! k \<le> sub_start s ! k \<and>
      sub_start s ! k + sub_shape s ! k \<le> sub_start t ! k + sub_shape t ! k"
    using assms by (auto simp: inbounds_def list_all_length wf_subset_length u64_simps)
  with assms(3) show "elements s \<subseteq> elements t"
    by (fastforce simp: mem_elements)
next
  assume sub: "elements s \<subseteq> elements t"
  obtain e where e: "end_inc s = Some e"
    using assms(4) end_inc_None_iff[of s] by fastforce
  have "sub_start s \<in> elements t" "e \<in> elements t"
    using sub elements_start[OF assms(1,4)] end_inc_elements[OF assms(1) e] by blast+
  then have "sub_start t ! k \<le> sub_start s ! k \<and>
      sub_start s ! k + sub_shape s ! k \<le> sub_start t ! k + sub_shape t ! k"
    if "k < length (sub_start s)" for k
    using that end_inc_Some[OF assms(1) e] by (fastforce simp: mem_elements)
  then show "inbounds s t"
    using assms by (auto simp: inbounds_def list_all_length wf_subset_length u64_simps)
qed

theorem inbounds_iff_subset_witness:
  "inbounds \<lparr>sub_start = [1, 2], sub_shape = [1, 1]\<rparr> \<lparr>sub_start = [0, 2], sub_shape = [2, 5]\<rparr> \<longleftrightarrow>
     elements \<lparr>sub_start = [1, 2], sub_shape = [1, 1]\<rparr> \<subseteq> elements \<lparr>sub_start = [0, 2], sub_shape = [2, 5]\<rparr>"
  by (rule inbounds_iff_subset) (simp_all add: wf_subset_def M64_def is_empty_def)

text \<open>
  \<open>offset\<close> inverts \<open>relative_to\<close>: whenever \<open>relative_to\<close> succeeds on a
  well-formed subset, shifting the result back by the same offset gives the original subset, and
  the relative subset has the elements of the original shifted down by the offset.
\<close>

theorem relative_to_offset_inverse:
  assumes "wf_subset s" and "relative_to s off = Inr r"
  shows "offset r off = Inr s \<and> wf_subset r \<and>
     elements s = (\<lambda>i. map (\<lambda>(a, b). a + b) (zip i off)) ` elements r"
proof -
  from assms(2) have len: "length off = length (sub_start s)"
    and le: "\<And>k. k < length (sub_start s) \<Longrightarrow> off ! k \<le> sub_start s ! k"
    and r: "r = \<lparr>sub_start = map (\<lambda>(a, b). wsub a b) (zip (sub_start s) off), sub_shape = sub_shape s\<rparr>"
    by (auto simp: relative_to_def new_with_start_shape_def list_ex_zip_nth split: if_splits)
  have lt: "sub_start s ! k < M64" if "k < length (sub_start s)" for k
    using assms(1) that by (metis add_lessD1 wf_subset_length wf_subset_nth)
  have nth: "sub_start r ! k = sub_start s ! k - off ! k" if "k < length (sub_start s)" for k
    using that len le lt by (simp add: r wsub_eq)
  have lenr: "length (sub_start r) = length (sub_start s)" "sub_shape r = sub_shape s"
    using len by (simp_all add: r)
  have "map (\<lambda>(a, b). wadd a b) (zip (sub_start r) off) = sub_start s"
    by (rule nth_equalityI) (simp_all add: lenr len nth le lt wadd_eq)
  then have "offset r off = Inr s"
    using assms(1) by (simp add: offset_def new_with_start_shape_def lenr len wf_subset_length)
  moreover have "wf_subset r"
    using assms(1) lenr nth by (auto simp: wf_subset_nth)
  moreover have "elements s = (\<lambda>i. map (\<lambda>(a, b). a + b) (zip i off)) ` elements r" (is "_ = ?f ` _")
  proof (intro equalityI subsetI)
    fix i assume i: "i \<in> elements s"
    have li: "length i = length (sub_start s)" using i by (simp add: mem_elements)
    have ile: "off ! k \<le> i ! k" if "k < length (sub_start s)" for k
      using i le[OF that] that by (auto simp: mem_elements intro: le_trans)
    have "i = ?f (map (\<lambda>(a, b). a - b) (zip i off))"
      using ile li len by (intro nth_equalityI) auto
    moreover have "map (\<lambda>(a, b). a - b) (zip i off) \<in> elements r"
      using i le ile len by (auto simp: mem_elements lenr nth diff_le_mono less_diff_conv2)
    ultimately show "i \<in> ?f ` elements r" by blast
  qed (use le len in \<open>fastforce simp: mem_elements lenr nth\<close>)
  ultimately show ?thesis by blast
qed

theorem relative_to_offset_inverse_witness:
  "\<exists>r. relative_to \<lparr>sub_start = [5, 2], sub_shape = [3, 4]\<rparr> [4, 2] = Inr r \<and>
     offset r [4, 2] = Inr \<lparr>sub_start = [5, 2], sub_shape = [3, 4]\<rparr>"
proof -
  let ?s = "\<lparr>sub_start = [5, 2], sub_shape = [3, 4]\<rparr>"
  have w: "wf_subset ?s" by (simp add: wf_subset_def M64_def)
  have r: "relative_to ?s [4, 2] = Inr \<lparr>sub_start = [1, 0], sub_shape = [3, 4]\<rparr>"
    by (simp add: relative_to_def new_with_start_shape_def wsub_def M64_def)
  show ?thesis using relative_to_offset_inverse[OF w r] r by blast
qed

end
