(* ===== verification/Row_Major.thy ===== *)
theory Row_Major
  imports Array_Subset
begin

text \<open>
  Raveling and unraveling of indices: \<open>ravel_indices\<close> and \<open>unravel_index\<close> of
  \<open>zarrs_chunk_grid/src/lib.rs\<close>, with the mathematics of C order they are measured against:
  \<open>lin\<close> (the linear index of a multi-dimensional one), \<open>unlin\<close> (its inverse) and \<open>box\<close> (the
  indices of a hyper-rectangle listed in C order, last dimension fastest).
\<close>

subsection \<open>The code\<close>

text \<open>The loop of \<open>ravel_indices\<close> over \<open>zip(indices, shape).rev()\<close>.\<close>

fun ravel_loop :: "(u64 \<times> u64) list \<Rightarrow> u64 \<Rightarrow> u64 \<Rightarrow> u64 option" where
  "ravel_loop [] index cnt = Some index"
| "ravel_loop ((i, s) # xs) index cnt =
     (if s \<le> i then None else ravel_loop xs (wadd index (wmul i cnt)) (wmul cnt s))"

definition ravel_indices :: "u64 list \<Rightarrow> u64 list \<Rightarrow> u64 option" where
  "ravel_indices ind shp = ravel_loop (rev (zip ind shp)) 0 1"

text \<open>\<open>shape.iter().try_fold(1u64, |acc, &dim| acc.checked_mul(dim))\<close>.\<close>

fun try_product :: "u64 \<Rightarrow> u64 list \<Rightarrow> u64 option" where
  "try_product acc [] = Some acc"
| "try_product acc (d # ds) =
     (case checked_mul acc d of None \<Rightarrow> None | Some acc' \<Rightarrow> try_product acc' ds)"

text \<open>The loop of the general branch, which fills the indices from the last dimension.\<close>

fun unravel_loop :: "u64 \<Rightarrow> u64 list \<Rightarrow> u64 list" where
  "unravel_loop index [] = []"
| "unravel_loop index (s # ss) = index mod s # unravel_loop (index div s) ss"

definition unravel_index :: "u64 \<Rightarrow> u64 list \<Rightarrow> u64 list option" where
  "unravel_index index shp =
     (case try_product 1 shp of
        None \<Rightarrow> None
      | Some total_size \<Rightarrow>
          if total_size \<le> index then None
          else case shp of
            [] \<Rightarrow> Some []
          | [s0] \<Rightarrow> Some [index mod s0]
          | [s0, s1] \<Rightarrow>
              (let i1 = index mod s1; index = index div s1; i0 = index mod s0 in Some [i0, i1])
          | [s0, s1, s2] \<Rightarrow>
              (let i2 = index mod s2; index = index div s2;
                   i1 = index mod s1; index = index div s1; i0 = index mod s0
               in Some [i0, i1, i2])
          | [s0, s1, s2, s3] \<Rightarrow>
              (let i3 = index mod s3; index = index div s3;
                   i2 = index mod s2; index = index div s2;
                   i1 = index mod s1; index = index div s1; i0 = index mod s0
               in Some [i0, i1, i2, i3])
          | _ \<Rightarrow> Some (rev (unravel_loop index (rev shp))))"

subsection \<open>C order\<close>

fun lin :: "nat list \<Rightarrow> nat list \<Rightarrow> nat" where
  "lin (s # ss) (i # is) = i * prod_list ss + lin ss is"
| "lin _ _ = 0"

fun unlin :: "nat list \<Rightarrow> nat \<Rightarrow> nat list" where
  "unlin [] n = []"
| "unlin (s # ss) n = (n div prod_list ss) mod s # unlin ss n"

fun box :: "nat list \<Rightarrow> nat list \<Rightarrow> nat list list" where
  "box (o1 # os) (n # ns) = concat (map (\<lambda>i. map ((#) i) (box os ns)) [o1..<o1 + n])"
| "box _ _ = [[]]"

lemma lin_Nil [simp]: "lin [] i = 0" "lin s [] = 0"
  by (cases s; simp)+

lemma length_unlin [simp]: "length (unlin s n) = length s"
  by (induction s) simp_all

lemma lin_less: "inb i s \<Longrightarrow> lin s i < prod_list s"
proof (induction s arbitrary: i)
  case (Cons s ss)
  then obtain j js where i: "i = j # js" and j: "j < s" and js: "inb js ss"
    by (auto simp: inb_Cons2)
  have "j * prod_list ss + lin ss js < Suc j * prod_list ss"
    using Cons.IH[OF js] by simp
  also have "\<dots> \<le> s * prod_list ss" using j by (intro mult_le_mono1) simp
  finally show ?case by (simp add: i)
qed simp

lemma unlin_mod: "unlin s (n mod prod_list s) = unlin s n"
proof (induction s arbitrary: n)
  case (Cons s ss)
  have "unlin ss (n mod (s * prod_list ss)) = unlin ss n"
    by (metis Cons.IH mod_mod_cancel dvd_triv_right)
  moreover have "(n mod (s * prod_list ss)) div prod_list ss mod s = n div prod_list ss mod s"
    by (simp add: mult.commute[of s] mod_mult2_eq mod_mod_trivial div_mult2_eq[symmetric])
      (cases "prod_list ss = 0"; simp)
  ultimately show ?case by simp
qed simp

lemma unlin_add: "unlin s (k * prod_list s + n) = unlin s n"
  by (metis mod_mult_self3 unlin_mod)

lemma unlin_lin: "inb i s \<Longrightarrow> unlin s (lin s i) = i"
proof (induction s arbitrary: i)
  case (Cons s ss)
  then obtain j js where i: "i = j # js" and j: "j < s" and js: "inb js ss"
    by (auto simp: inb_Cons2)
  have "lin ss js < prod_list ss" using lin_less[OF js] .
  then show ?case using Cons.IH[OF js] j by (simp add: i unlin_add)
qed simp

lemma lin_unlin: "n < prod_list s \<Longrightarrow> lin s (unlin s n) = n"
proof (induction s arbitrary: n)
  case (Cons s ss)
  then have "0 < prod_list ss" by (cases "prod_list ss") auto
  moreover from this have "lin ss (unlin ss n) = n mod prod_list ss"
    using Cons.IH[of "n mod prod_list ss"] by (simp add: unlin_mod)
  moreover have "n div prod_list ss < s"
    using Cons.prems by (simp add: less_mult_imp_div_less)
  ultimately show ?case by simp
qed simp

lemma inb_unlin: "n < prod_list s \<Longrightarrow> inb (unlin s n) s"
proof (induction s arbitrary: n)
  case (Cons s ss)
  then have pos: "0 < s" "0 < prod_list ss" by (auto intro: gr0I)
  have "inb (unlin ss (n mod prod_list ss)) ss"
    by (rule Cons.IH) (simp add: pos)
  then show ?case using pos by (simp add: unlin_mod)
qed simp

subsection \<open>The code computes C order\<close>

lemma ravel_loop_append:
  "ravel_loop (xs @ ys) ix ct =
     (case ravel_loop xs ix ct of None \<Rightarrow> None
      | Some ix' \<Rightarrow> ravel_loop ys ix' (foldl wmul ct (map snd xs)))"
  by (induction xs ix ct rule: ravel_loop.induct) (auto split: option.splits)

lemma foldl_wmul_less: "ct < M64 \<Longrightarrow> foldl wmul ct xs < M64"
  by (induction xs rule: rev_induct) simp_all

lemma foldl_wmul_eq: "ct < M64 \<Longrightarrow> foldl wmul ct xs = ct * prod_list xs mod M64"
  by (metis foldl_wmul foldl_wmul_less mod_less)

lemma prod_list_rev [simp]: "prod_list (rev xs) = prod_list (xs :: nat list)"
  by (induction xs) (simp_all add: mult.commute)

lemma foldl_wmul_rev_zip:
  "length i = length s \<Longrightarrow> foldl wmul 1 (map snd (rev (zip i s))) = wprod s"
  by (simp add: foldl_wmul_eq wprod_eq_mod rev_map[symmetric])

lemma ravel_loop_lin:
  assumes "length i = length s" and "prod_list s < M64"
  shows "ravel_loop (rev (zip i s)) 0 1 = (if inb i s then Some (lin s i) else None)"
  using assms
proof (induction s arbitrary: i)
  case (Cons s ss)
  then obtain j js where i: "i = j # js" and len: "length js = length ss" by (cases i) auto
  show ?case
  proof (cases "s = 0")
    case True
    then show ?thesis by (simp add: i ravel_loop_append split: option.splits)
  next
    case False
    then have lt: "prod_list ss < M64"
      using Cons.prems(2) prod_list_tl_le[of s ss] by (metis gr0I le_less_trans)
    have IH: "ravel_loop (rev (zip js ss)) 0 1 = (if inb js ss then Some (lin ss js) else None)"
      by (rule Cons.IH[OF len lt])
    have "ravel_loop (rev (zip i (s # ss))) 0 1 =
        (if inb js ss \<and> j < s then Some (wadd (lin ss js) (wmul j (prod_list ss))) else None)"
      unfolding i zip_Cons_Cons rev.simps ravel_loop_append IH foldl_wmul_rev_zip[OF len]
      using lt by (auto simp: wprod_eq)
    moreover have "wadd (lin ss js) (wmul j (prod_list ss)) = lin (s # ss) i"
      if "inb js ss" and "j < s"
    proof -
      have "lin (s # ss) (j # js) < prod_list (s # ss)"
        by (rule lin_less) (simp add: that)
      then have "j * prod_list ss + lin ss js < M64" using Cons.prems(2) by simp
      then show ?thesis by (simp add: i wadd_eq wmul_eq add.commute)
    qed
    ultimately show ?thesis by (auto simp: i)
  qed
qed simp

lemma ravel_indices_eq:
  "length i = length s \<Longrightarrow> prod_list s < M64 \<Longrightarrow>
     ravel_indices i s = (if inb i s then Some (lin s i) else None)"
  unfolding ravel_indices_def by (rule ravel_loop_lin)

lemma try_product_eq:
  "0 \<notin> set ds \<Longrightarrow> acc * prod_list ds < M64 \<Longrightarrow> try_product acc ds = Some (acc * prod_list ds)"
proof (induction ds arbitrary: acc)
  case (Cons d ds)
  have "acc * d * prod_list ds < M64" using Cons.prems by (simp add: mult.assoc)
  moreover from this have "acc * d < M64"
    using Cons.prems(1) prod_list_pos[of ds]
    by (metis le_less_trans list.set_intros(2) mult.commute mult_1_right mult_le_mono2
        Suc_leI One_nat_def)
  ultimately show ?case using Cons by (simp add: checked_mul_def mult.assoc)
qed simp

lemma try_product_Some:
  "try_product acc ds = Some p \<Longrightarrow> p = acc * prod_list ds"
proof (induction ds arbitrary: acc)
  case (Cons d ds)
  then have "try_product (acc * d) ds = Some p"
    by (auto simp: checked_mul_def split: if_splits)
  then show ?case using Cons.IH by (fastforce simp: mult.assoc)
qed simp

lemma unravel_loop_append:
  "unravel_loop n (xs @ ys) = unravel_loop n xs @ unravel_loop (n div prod_list xs) ys"
  by (induction xs arbitrary: n) (simp_all add: div_mult2_eq)

lemma rev_unravel_loop: "rev (unravel_loop n (rev s)) = unlin s n"
  by (induction s) (simp_all add: unravel_loop_append)

text \<open>
  Every specialised branch of \<open>unravel_index\<close> agrees with the general loop, and the loop with the
  inverse of C order.
\<close>

lemma unravel_index_eq:
  "unravel_index n s =
     (case try_product 1 s of None \<Rightarrow> None
      | Some t \<Rightarrow> if t \<le> n then None else Some (unlin s n))"
  unfolding unravel_index_def rev_unravel_loop
  by (auto simp: Let_def div_mult2_eq[symmetric] ac_simps split: option.splits list.splits)

lemma unravel_index_Some:
  assumes "n < prod_list s" and "prod_list s < M64"
  shows "unravel_index n s = Some (unlin s n)"
proof -
  have "0 \<notin> set s" using assms(1) prod_list_eq_0[of s] by auto
  then show ?thesis using assms try_product_eq[of s 1] by (simp add: unravel_index_eq)
qed

subsection \<open>Listing a hyper-rectangle\<close>

lemma length_box: "length os = length ns \<Longrightarrow> length (box os ns) = prod_list ns"
  by (induction os ns rule: list_induct2) (simp_all add: length_concat comp_def sum_list_triv)

lemma mem_box_Cons:
  "i \<in> set (box (o1 # os) (n # ns)) \<longleftrightarrow>
     (\<exists>j js. i = j # js \<and> o1 \<le> j \<and> j < o1 + n \<and> js \<in> set (box os ns))"
  by auto

lemma mem_box:
  "length os = length ns \<Longrightarrow> i \<in> set (box os ns) \<longleftrightarrow>
     length i = length os \<and> (\<forall>k < length os. os ! k \<le> i ! k \<and> i ! k < os ! k + ns ! k)"
proof (induction os ns arbitrary: i rule: list_induct2)
  case (Cons o1 os n ns)
  show ?case
    by (cases i) (auto simp add: mem_box_Cons Cons.IH All_less_Suc2 simp del: box.simps)
qed simp

lemma set_box: "wf_subset s \<Longrightarrow> set (box (sub_start s) (sub_shape s)) = elements s"
  by (auto simp: mem_box wf_subset_length mem_elements)

lemma distinct_box: "length os = length ns \<Longrightarrow> distinct (box os ns)"
proof (induction os ns rule: list_induct2)
  case (Cons o1 os n ns)
  have "distinct (concat (map (\<lambda>i. map ((#) i) (box os ns)) is))" if "distinct is" for "is"
    using that Cons.IH by (induction "is") (auto simp: distinct_map inj_on_def)
  then show ?case by simp
qed simp

lemma concat_map_upt_mult:
  "concat (map (\<lambda>i. [i * p..<i * p + p]) [a..<b]) = [a * p..<b * p]" for p :: nat
proof (induction b)
  case (Suc b)
  show ?case
  proof (cases "a \<le> b")
    case True
    then have "[a * p..<b * p] @ [b * p..<b * p + p] = [a * p..<b * p + p]"
      by (metis le_iff_add mult_le_mono1 upt_add_eq_append)
    then show ?thesis using Suc True by (simp add: add.commute)
  next
    case False
    then have "Suc b * p \<le> a * p" by (intro mult_le_mono1) simp
    with False show ?thesis by simp
  qed
qed simp

lemma map_plus_upt: "map (\<lambda>x. x + n) [0..<m] = [n..<n + m]" for n :: nat
  by (induction m) simp_all

lemma map_plus_left_upt: "map (\<lambda>x. c + x) [n..<m] = [c + n..<c + m]" for n :: nat
  by (induction m) simp_all

lemma box_unlin:
  "box (replicate (length s) 0) s = map (unlin s) [0..<prod_list s]"
proof (induction s)
  case (Cons s ss)
  define p where "p = prod_list ss"
  have "map ((#) i) (map (unlin ss) [0..<p]) = map (unlin (s # ss)) [i * p..<i * p + p]"
    if "i < s" for i
  proof -
    have "(x + i * p) div p = i" if "x < p" for x using that by simp
    moreover have "unlin ss (x + i * p) = unlin ss x" for x
      using unlin_add[of ss i x] by (simp add: p_def add.commute)
    ultimately show ?thesis using that
      by (subst map_plus_upt[symmetric]) (simp add: p_def)
  qed
  then have eq: "map (\<lambda>i. map ((#) i) (map (unlin ss) [0..<p])) [0..<s] =
      map (\<lambda>i. map (unlin (s # ss)) [i * p..<i * p + p]) [0..<s]"
    by (intro map_cong[OF refl]) auto
  have "box (replicate (length (s # ss)) 0) (s # ss) =
      concat (map (\<lambda>i. map (unlin (s # ss)) [i * p..<i * p + p]) [0..<s])"
    unfolding eq[symmetric] by (simp add: Cons p_def)
  also have "\<dots> = map (unlin (s # ss)) [0..<s * p]"
    using arg_cong[OF concat_map_upt_mult[of p 0 s], of "map (unlin (s # ss))"]
    by (simp add: map_concat comp_def del: unlin.simps)
  finally show ?case by (simp add: p_def)
qed simp

lemma box_shift:
  "length os = length ns \<Longrightarrow>
     box os ns = map (\<lambda>i. map (\<lambda>(a, b). a + b) (zip i os)) (box (replicate (length ns) 0) ns)"
proof (induction os ns rule: list_induct2)
  case (Cons o1 os n ns)
  show ?case
    by (simp add: Cons.IH map_plus_upt[of o1 n, symmetric] map_concat comp_def)
qed simp

text \<open>
  Property C34.  \<open>ravel_indices\<close> and \<open>unravel_index\<close> are inverse bijections between the in-bounds
  indices of a shape with fewer than \<open>2 ^ 64\<close> elements and the linear indices below its number of
  elements; both return \<open>None\<close> exactly out of bounds.
\<close>

theorem ravel_unravel_inverse:
  assumes "prod_list shp < M64"
  shows "(\<forall>n < prod_list shp.
            \<exists>i. unravel_index n shp = Some i \<and> inb i shp \<and> ravel_indices i shp = Some n) \<and>
         (\<forall>i. inb i shp \<longrightarrow>
            (\<exists>n. ravel_indices i shp = Some n \<and> n < prod_list shp \<and> unravel_index n shp = Some i)) \<and>
         (\<forall>i. length i = length shp \<and> \<not> inb i shp \<longrightarrow> ravel_indices i shp = None) \<and>
         (\<forall>n \<ge> prod_list shp. unravel_index n shp = None)"
proof (intro conjI allI impI)
  fix n assume "n < prod_list shp"
  then show "\<exists>i. unravel_index n shp = Some i \<and> inb i shp \<and> ravel_indices i shp = Some n"
    using assms by (simp add: unravel_index_Some inb_unlin ravel_indices_eq lin_unlin)
next
  fix i assume "inb i shp"
  then show "\<exists>n. ravel_indices i shp = Some n \<and> n < prod_list shp \<and> unravel_index n shp = Some i"
    using assms by (simp add: ravel_indices_eq lin_less unravel_index_Some unlin_lin inb_length)
next
  fix i assume "length i = length shp \<and> \<not> inb i shp"
  then show "ravel_indices i shp = None" using assms by (simp add: ravel_indices_eq)
next
  fix n assume "prod_list shp \<le> n"
  then show "unravel_index n shp = None"
    by (auto simp: unravel_index_eq dest!: try_product_Some split: option.splits)
qed

theorem ravel_unravel_inverse_witness:
  "\<exists>i. unravel_index 7 [2, 3, 4] = Some i \<and> inb i [2, 3, 4] \<and> ravel_indices i [2, 3, 4] = Some 7"
proof -
  have "prod_list [2, 3, 4] < M64" by (simp add: M64_def)
  from ravel_unravel_inverse[OF this] show ?thesis by simp
qed

end
