(* ===== verification/Index_Iterators.thy ===== *)
theory Index_Iterators
  imports Row_Major
begin

text \<open>
  The iterators of \<open>zarrs_chunk_grid/src/iterators/\<close>: \<open>Indices\<close>, \<open>LinearisedIndices\<close>,
  \<open>ContiguousIndices\<close> and \<open>ContiguousLinearisedIndices\<close>.  An iterator is its struct, \<open>next\<close> and
  \<open>next_back\<close> return the item and the advanced struct, and draining an iterator with \<open>next\<close> is
  the function \<open>*_collect\<close>.  The lemmas show that the iterators list the elements of a subset in
  C order, and that the contiguous iterators cover exactly the linearised indices.
\<close>

subsection \<open>Indices\<close>

text \<open>\<open>Indices\<close>, \<open>IndicesIterator\<close> and \<open>IndicesIntoIterator\<close> have the same two fields.\<close>

record indices =
  ind_subset :: array_subset
  rng_start :: usize
  rng_end :: usize

datatype bound64 = Included usize | Excluded usize | Unbounded

definition indices_new :: "array_subset \<Rightarrow> indices" where
  "indices_new s = \<lparr>ind_subset = s, rng_start = 0, rng_end = num_elements s\<rparr>"

definition indices_new_with_start_end :: "array_subset \<Rightarrow> bound64 \<Rightarrow> bound64 \<Rightarrow> indices" where
  "indices_new_with_start_end s lo hi =
     \<lparr>ind_subset = s,
      rng_start = (case lo of Included a \<Rightarrow> a | Excluded a \<Rightarrow> saturating_add a 1 | Unbounded \<Rightarrow> 0),
      rng_end = (case hi of
          Excluded b \<Rightarrow> min b (num_elements s)
        | Included b \<Rightarrow> min (saturating_add b 1) (num_elements s)
        | Unbounded \<Rightarrow> num_elements s)\<rparr>"

definition indices_len :: "indices \<Rightarrow> usize" where
  "indices_len it = saturating_sub (rng_end it) (rng_start it)"

definition indices_is_empty :: "indices \<Rightarrow> bool" where
  "indices_is_empty it = (indices_len it = 0)"

definition unravel_index_1d :: "u64 \<Rightarrow> u64 list \<Rightarrow> u64 list \<Rightarrow> u64 list" where
  "unravel_index_1d index shp st = [wadd (st ! 0) (index mod (shp ! 0))]"

definition unravel_index_2d :: "u64 \<Rightarrow> u64 list \<Rightarrow> u64 list \<Rightarrow> u64 list" where
  "unravel_index_2d index shp st =
     (let i1 = wadd (st ! 1) (index mod (shp ! 1)); index = index div (shp ! 1);
          i0 = wadd (st ! 0) (index mod (shp ! 0))
      in [i0, i1])"

definition unravel_index_3d :: "u64 \<Rightarrow> u64 list \<Rightarrow> u64 list \<Rightarrow> u64 list" where
  "unravel_index_3d index shp st =
     (let i2 = wadd (st ! 2) (index mod (shp ! 2)); index = index div (shp ! 2);
          i1 = wadd (st ! 1) (index mod (shp ! 1)); index = index div (shp ! 1);
          i0 = wadd (st ! 0) (index mod (shp ! 0))
      in [i0, i1, i2])"

definition unravel_index_4d :: "u64 \<Rightarrow> u64 list \<Rightarrow> u64 list \<Rightarrow> u64 list" where
  "unravel_index_4d index shp st =
     (let i3 = wadd (st ! 3) (index mod (shp ! 3)); index = index div (shp ! 3);
          i2 = wadd (st ! 2) (index mod (shp ! 2)); index = index div (shp ! 2);
          i1 = wadd (st ! 1) (index mod (shp ! 1)); index = index div (shp ! 1);
          i0 = wadd (st ! 0) (index mod (shp ! 0))
      in [i0, i1, i2, i3])"

definition unravel_index_nd :: "u64 \<Rightarrow> u64 list \<Rightarrow> u64 list \<Rightarrow> u64 list option" where
  "unravel_index_nd index shp st =
     (case unravel_index index shp of
        None \<Rightarrow> None
      | Some ind \<Rightarrow> Some (map (\<lambda>(i, s). wadd i s) (zip ind st)))"

text \<open>The item for a linear index, the \<open>match shape.len()\<close> of \<open>next\<close> and \<open>next_back\<close>.\<close>

definition indices_item :: "array_subset \<Rightarrow> u64 \<Rightarrow> u64 list option" where
  "indices_item s index =
     (let shp = sub_shape s; st = sub_start s in
      if length shp = 0 then Some []
      else if length shp = 1 then Some (unravel_index_1d index shp st)
      else if length shp = 2 then Some (unravel_index_2d index shp st)
      else if length shp = 3 then Some (unravel_index_3d index shp st)
      else if length shp = 4 then Some (unravel_index_4d index shp st)
      else unravel_index_nd index shp st)"

definition indices_next :: "indices \<Rightarrow> u64 list option \<times> indices" where
  "indices_next it =
     (if rng_end it \<le> rng_start it then (None, it)
      else (indices_item (ind_subset it) (rng_start it), it\<lparr>rng_start := wadd (rng_start it) 1\<rparr>))"

definition indices_next_back :: "indices \<Rightarrow> u64 list option \<times> indices" where
  "indices_next_back it =
     (if rng_start it < rng_end it
      then let e = rng_end it - 1 in (indices_item (ind_subset it) e, it\<lparr>rng_end := e\<rparr>)
      else (None, it))"

text \<open>Draining from the front; at most \<open>rng_end - rng_start\<close> items are produced.\<close>

fun indices_take :: "nat \<Rightarrow> indices \<Rightarrow> u64 list list" where
  "indices_take 0 it = []"
| "indices_take (Suc n) it =
     (case indices_next it of (None, _) \<Rightarrow> [] | (Some x, it') \<Rightarrow> x # indices_take n it')"

fun indices_take_back :: "nat \<Rightarrow> indices \<Rightarrow> u64 list list" where
  "indices_take_back 0 it = []"
| "indices_take_back (Suc n) it =
     (case indices_next_back it of (None, _) \<Rightarrow> [] | (Some x, it') \<Rightarrow> x # indices_take_back n it')"

definition indices_collect :: "indices \<Rightarrow> u64 list list" where
  "indices_collect it = indices_take (Suc (indices_len it)) it"

text \<open>\<open>Producer::split_at\<close> of the parallel iterators.\<close>

definition indices_split_at :: "indices \<Rightarrow> usize \<Rightarrow> indices \<times> indices" where
  "indices_split_at it n =
     (it\<lparr>rng_end := wadd (rng_start it) n\<rparr>, it\<lparr>rng_start := wadd (rng_start it) n\<rparr>)"

text \<open>
  The invariant of an iterator: a well-formed subset with fewer than \<open>2 ^ 64\<close> elements, and a range
  that ends within them.  Under it no dimension is zero where \<open>next\<close> divides.
\<close>

definition wf_indices :: "indices \<Rightarrow> bool" where
  "wf_indices it \<longleftrightarrow> wf_subset (ind_subset it) \<and> prod_list (sub_shape (ind_subset it)) < M64 \<and>
     rng_end it \<le> prod_list (sub_shape (ind_subset it))"

lemma wf_indices_new: "wf_subset s \<Longrightarrow> prod_list (sub_shape s) < M64 \<Longrightarrow> wf_indices (indices_new s)"
  by (simp add: wf_indices_def indices_new_def num_elements_def wprod_eq)

lemma wf_indices_new_with_start_end:
  "wf_subset s \<Longrightarrow> prod_list (sub_shape s) < M64 \<Longrightarrow> wf_indices (indices_new_with_start_end s lo hi)"
  by (cases hi) (simp_all add: wf_indices_def indices_new_with_start_end_def num_elements_def wprod_eq)

lemma wf_indices_no_zero_dimension:
  "wf_indices it \<Longrightarrow> rng_start it < rng_end it \<Longrightarrow> 0 \<notin> set (sub_shape (ind_subset it))"
  using prod_list_eq_0[of "sub_shape (ind_subset it)"] by (auto simp: wf_indices_def)

definition elem_at :: "array_subset \<Rightarrow> nat \<Rightarrow> u64 list" where
  "elem_at s n = map (\<lambda>(a, b). a + b) (zip (unlin (sub_shape s) n) (sub_start s))"

lemma wadd_start_unlin:
  assumes "wf_subset s" and "n < prod_list (sub_shape s)" and "k < length (sub_shape s)"
  shows "wadd (sub_start s ! k) (unlin (sub_shape s) n ! k) = sub_start s ! k + unlin (sub_shape s) n ! k"
proof -
  have "unlin (sub_shape s) n ! k < sub_shape s ! k"
    using inb_unlin[OF assms(2)] assms(3) by (simp add: inb_nth)
  moreover have "sub_start s ! k + sub_shape s ! k < M64"
    using assms by (simp add: wf_subset_nth)
  ultimately show ?thesis by (intro wadd_eq) linarith
qed

lemma map_wadd_unlin:
  assumes "wf_subset s" and "n < prod_list (sub_shape s)"
  shows "map (\<lambda>(i, s). wadd i s) (zip (unlin (sub_shape s) n) (sub_start s)) = elem_at s n"
  using wadd_start_unlin[OF assms]
  by (intro nth_equalityI)
    (auto simp: elem_at_def wf_subset_length[OF assms(1)] wadd_def add.commute)

lemma elem_at_eq_map2:
  assumes "wf_subset s" and "n < prod_list (sub_shape s)"
  shows "elem_at s n = map (\<lambda>k. wadd (sub_start s ! k) (unlin (sub_shape s) n ! k)) [0..<length (sub_shape s)]"
  using wadd_start_unlin[OF assms]
  by (intro nth_equalityI) (auto simp: elem_at_def wf_subset_length[OF assms(1)] add.commute)

lemmas upt_small = upt_rec[of 0] upt_rec[of "Suc 0"] upt_rec[of "Suc (Suc 0)"]
  upt_rec[of "Suc (Suc (Suc 0))"] upt_rec[of "Suc (Suc (Suc (Suc 0)))"]

text \<open>All the unrolled branches agree with the general one.\<close>

lemma indices_item_eq:
  assumes "wf_subset s" and "prod_list (sub_shape s) < M64" and n: "n < prod_list (sub_shape s)"
  shows "indices_item s n = Some (elem_at s n)"
proof -
  note el = elem_at_eq_map2[OF assms(1) n]
  consider "length (sub_shape s) = 0" | "length (sub_shape s) = 1" | "length (sub_shape s) = 2"
    | "length (sub_shape s) = 3" | "length (sub_shape s) = 4" | "length (sub_shape s) > 4"
    by linarith
  then show ?thesis
  proof cases
    case 6
    then have "indices_item s n = unravel_index_nd n (sub_shape s) (sub_start s)"
      by (auto simp: indices_item_def Let_def)
    also have "\<dots> = Some (elem_at s n)"
      using assms by (simp add: unravel_index_nd_def unravel_index_Some map_wadd_unlin)
    finally show ?thesis .
  qed (auto simp: indices_item_def el unravel_index_1d_def unravel_index_2d_def unravel_index_3d_def
      unravel_index_4d_def Let_def length_Suc_conv upt_small numeral_eq_Suc
      div_mult2_eq[symmetric] ac_simps)
qed

lemma indices_take_eq:
  assumes "wf_indices it" and "rng_end it - rng_start it \<le> m"
  shows "indices_take m it =
    map (elem_at (ind_subset it)) [rng_start it..<rng_end it]"
  using assms
proof (induction m arbitrary: it)
  case (Suc m)
  show ?case
  proof (cases "rng_start it < rng_end it")
    case True
    let ?it = "it\<lparr>rng_start := Suc (rng_start it)\<rparr>"
    have item: "indices_item (ind_subset it) (rng_start it) = Some (elem_at (ind_subset it) (rng_start it))"
      using True Suc.prems(1) by (intro indices_item_eq) (auto simp: wf_indices_def)
    have "Suc (rng_start it) < M64" using True Suc.prems(1) by (auto simp: wf_indices_def)
    then have nxt: "indices_next it = (Some (elem_at (ind_subset it) (rng_start it)), ?it)"
      using True item by (simp add: indices_next_def wadd_eq)
    have "indices_take m ?it = map (elem_at (ind_subset it)) [Suc (rng_start it)..<rng_end it]"
      using Suc.IH[of ?it] Suc.prems by (simp add: wf_indices_def)
    then show ?thesis using True by (simp add: nxt upt_conv_Cons)
  qed (simp add: indices_next_def)
qed simp

lemma indices_take_back_eq:
  assumes "wf_indices it" and "rng_end it - rng_start it \<le> m"
  shows "indices_take_back m it =
    rev (map (elem_at (ind_subset it)) [rng_start it..<rng_end it])"
  using assms
proof (induction m arbitrary: it)
  case (Suc m)
  show ?case
  proof (cases "rng_start it < rng_end it")
    case True
    let ?it = "it\<lparr>rng_end := rng_end it - 1\<rparr>"
    have "indices_item (ind_subset it) (rng_end it - 1) = Some (elem_at (ind_subset it) (rng_end it - 1))"
      using True Suc.prems(1) by (intro indices_item_eq) (auto simp: wf_indices_def)
    then have nxt: "indices_next_back it = (Some (elem_at (ind_subset it) (rng_end it - 1)), ?it)"
      using True by (simp add: indices_next_back_def Let_def)
    have "indices_take_back m ?it =
        rev (map (elem_at (ind_subset it)) [rng_start it..<rng_end it - 1])"
      using Suc.IH[of ?it] Suc.prems le_trans[OF diff_le_self, of "rng_end it" _ 1]
      by (simp add: wf_indices_def)
    moreover have "[rng_start it..<rng_end it] = [rng_start it..<rng_end it - 1] @ [rng_end it - 1]"
      using True by (metis Suc_diff_1 Suc_leI le_Suc_eq less_nat_zero_code linorder_neqE_nat
          not_less_eq_eq upt_Suc)
    ultimately show ?thesis by (simp add: nxt)
  qed (simp add: indices_next_back_def)
qed simp

lemma indices_collect_eq:
  "wf_indices it \<Longrightarrow> indices_collect it = map (elem_at (ind_subset it)) [rng_start it..<rng_end it]"
  by (simp add: indices_collect_def indices_take_eq indices_len_def saturating_sub_def del: indices_take.simps)

lemma map_elem_at_box:
  assumes "wf_subset s"
  shows "map (elem_at s) [0..<prod_list (sub_shape s)] = box (sub_start s) (sub_shape s)"
  using box_shift[of "sub_start s" "sub_shape s"] wf_subset_length[OF assms]
    box_unlin[of "sub_shape s"]
  by (simp add: elem_at_def comp_def)

lemma indices_collect_new:
  assumes "wf_subset s" and "prod_list (sub_shape s) < M64"
  shows "indices_collect (indices_new s) = box (sub_start s) (sub_shape s)"
  using indices_collect_eq[OF wf_indices_new[OF assms]] map_elem_at_box[OF assms(1)] assms(2)
  by (simp add: indices_new_def num_elements_def wprod_eq)

text \<open>
  Draining \<open>Indices::new(subset)\<close> yields every element of the subset exactly once:
  the items are distinct, their set is the set of elements of the subset, there are
  \<open>num_elements\<close> of them, they come in C order (\<open>box\<close>), and draining from the back with
  \<open>next_back\<close> yields the reverse.
\<close>

theorem indices_enumerate_elements:
  assumes "wf_subset s" and "prod_list (sub_shape s) < M64"
  shows "indices_collect (indices_new s) = box (sub_start s) (sub_shape s) \<and>
         set (indices_collect (indices_new s)) = elements s \<and>
         distinct (indices_collect (indices_new s)) \<and>
         length (indices_collect (indices_new s)) = num_elements s \<and>
         indices_take_back (num_elements s) (indices_new s) = rev (box (sub_start s) (sub_shape s))"
proof -
  have "indices_take_back (num_elements s) (indices_new s) = rev (box (sub_start s) (sub_shape s))"
    using indices_take_back_eq[OF wf_indices_new[OF assms]] map_elem_at_box[OF assms(1)] assms(2)
    by (simp add: indices_new_def num_elements_def wprod_eq)
  then show ?thesis
    using assms by (simp add: indices_collect_new set_box distinct_box length_box num_elements_def
        wprod_eq wf_subset_length)
qed

theorem indices_enumerate_elements_witness:
  "indices_collect (indices_new \<lparr>sub_start = [1, 1], sub_shape = [2, 2]\<rparr>) = box [1, 1] [2, 2] \<and>
     box [1, 1] [2, 2] = [[1, 1], [1, 2], [2, 1], [2, 2]]"
proof -
  have "wf_subset \<lparr>sub_start = [1, 1], sub_shape = [2, 2]\<rparr>"
    "prod_list (sub_shape \<lparr>sub_start = [1, 1], sub_shape = [2, 2]\<rparr>) < M64"
    by (simp_all add: wf_subset_def M64_def)
  from indices_enumerate_elements[OF this] show ?thesis by (simp add: upt_rec)
qed

text \<open>
  Splitting a parallel iterator at any position inside its range loses and repeats
  nothing: the items of the left part followed by the items of the right part are the items of the
  whole.
\<close>

theorem indices_split_at_partition:
  assumes "wf_indices it" and "rng_start it + n \<le> rng_end it"
  shows "indices_collect (fst (indices_split_at it n)) @ indices_collect (snd (indices_split_at it n)) =
     indices_collect it"
proof -
  have lt: "rng_start it + n < M64" using assms by (simp add: wf_indices_def)
  have "wf_indices (it\<lparr>rng_end := rng_start it + n\<rparr>)" "wf_indices (it\<lparr>rng_start := rng_start it + n\<rparr>)"
    using assms by (simp_all add: wf_indices_def)
  moreover have "[rng_start it..<rng_end it] =
      [rng_start it..<rng_start it + n] @ [rng_start it + n..<rng_end it]"
    using assms(2) by (metis le_iff_add upt_add_eq_append le_add1)
  ultimately show ?thesis
    using lt assms(1) by (simp add: indices_split_at_def wadd_eq indices_collect_eq)
qed

theorem indices_split_at_partition_witness:
  "indices_collect (fst (indices_split_at (indices_new \<lparr>sub_start = [1], sub_shape = [5]\<rparr>) 2)) @
     indices_collect (snd (indices_split_at (indices_new \<lparr>sub_start = [1], sub_shape = [5]\<rparr>) 2)) =
     indices_collect (indices_new \<lparr>sub_start = [1], sub_shape = [5]\<rparr>)"
  by (rule indices_split_at_partition)
    (simp_all add: wf_indices_def wf_subset_def M64_def indices_new_def num_elements_def wprod_def wmul_def)

end
