(* ===== verification/Chunk_Grid.thy ===== *)
theory Chunk_Grid
  imports Index_Iterators
begin

text \<open>
  The \<open>ChunkGridTraits\<close> trait of \<open>zarrs_chunk_grid/src/lib.rs\<close>.  A trait object is the record
  \<open>chunk_grid\<close> of its methods; the provided methods of the trait are functions of that record.
  The locale \<open>chunk_grid_family\<close> is the contract the array code relies on: in every dimension the
  chunks are consecutive intervals between increasing boundaries that cover the array.  Its lemmas
  derive, once for all grids, that every element is in exactly one chunk and that the chunks
  computed for a region are exactly those that intersect it.
\<close>

datatype dimensionality_error = IncompatibleDimensionalityError usize usize
datatype dimension_error = IncompatibleDimensionError usize usize

record chunk_grid =
  cg_dimensionality :: usize
  cg_array_shape :: array_shape
  cg_grid_shape :: array_shape
  cg_chunk_edge_lengths :: "usize \<Rightarrow> dimension_error + u64 list"
  cg_chunk_shape :: "u64 list \<Rightarrow> dimensionality_error + chunk_shape option"
  cg_chunk_shape_u64 :: "u64 list \<Rightarrow> dimensionality_error + array_shape option"
  cg_chunk_origin :: "u64 list \<Rightarrow> dimensionality_error + array_indices option"
  cg_chunk_indices :: "u64 list \<Rightarrow> dimensionality_error + array_indices option"
  cg_chunk_element_indices :: "u64 list \<Rightarrow> dimensionality_error + array_indices option"
  cg_subset :: "u64 list \<Rightarrow> dimensionality_error + array_subset option"
  cg_array_indices_inbounds :: "u64 list \<Rightarrow> bool"

subsection \<open>Provided methods\<close>

definition default_subset ::
    "(u64 list \<Rightarrow> dimensionality_error + array_indices option) \<Rightarrow>
     (u64 list \<Rightarrow> dimensionality_error + chunk_shape option) \<Rightarrow>
     u64 list \<Rightarrow> dimensionality_error + array_subset option" where
  "default_subset origin shp c =
     bind_res (origin c) (\<lambda>chunk_origin. bind_res (shp c) (\<lambda>chunk_shape.
       case (chunk_origin, chunk_shape) of
         (Some os, Some ss) \<Rightarrow> Inr (Some (from_ranges (map (\<lambda>(o1, s). (o1, wadd o1 s)) (zip os ss))))
       | _ \<Rightarrow> Inr None))"

definition default_array_indices_inbounds :: "usize \<Rightarrow> array_shape \<Rightarrow> u64 list \<Rightarrow> bool" where
  "default_array_indices_inbounds d a i \<longleftrightarrow> length i = d \<and> list_all (\<lambda>(index, n). index < n) (zip i a)"

definition chunk_indices_inbounds :: "chunk_grid \<Rightarrow> u64 list \<Rightarrow> bool" where
  "chunk_indices_inbounds G c \<longleftrightarrow>
     length c = cg_dimensionality G \<and> list_all (\<lambda>(index, n). index < n) (zip c (cg_grid_shape G))"

definition chunks_subset ::
    "chunk_grid \<Rightarrow> array_subset \<Rightarrow> dimensionality_error + array_subset option" where
  "chunks_subset G chunks =
     (if dimensionality chunks \<noteq> cg_dimensionality G
      then Inl (IncompatibleDimensionalityError (dimensionality chunks) (cg_dimensionality G))
      else case end_inc chunks of
        Some e \<Rightarrow>
          bind_res (cg_subset G (sub_start chunks)) (\<lambda>chunk0.
          bind_res (cg_subset G e) (\<lambda>chunk1.
            case (chunk0, chunk1) of
              (Some c0, Some c1) \<Rightarrow> Inr (Some (new_with_ranges (zip (sub_start c0) (end_exc c1))))
            | _ \<Rightarrow> Inr None))
      | None \<Rightarrow> Inr (Some (new_empty (dimensionality chunks))))"

definition chunks_in_array_subset ::
    "chunk_grid \<Rightarrow> array_subset \<Rightarrow> dimensionality_error + array_subset option" where
  "chunks_in_array_subset G region =
     (case end_inc region of
        Some e \<Rightarrow>
          bind_res (cg_chunk_indices G (sub_start region)) (\<lambda>chunks_start.
          bind_res (cg_chunk_indices G e) (\<lambda>chunks_end.
            Inr (case (chunks_start, chunks_end) of
                (Some cs, Some ce) \<Rightarrow>
                  Some (new_with_ranges (map (\<lambda>(s, e). (s, wadd e 1)) (zip cs ce)))
              | _ \<Rightarrow> None)))
      | None \<Rightarrow> Inr (Some (new_empty (cg_dimensionality G))))"

definition iter_chunk_indices :: "chunk_grid \<Rightarrow> indices" where
  "iter_chunk_indices G =
     \<lparr>ind_subset = new_with_shape (cg_grid_shape G), rng_start = 0, rng_end = wprod (cg_grid_shape G)\<rparr>"

text \<open>
  \<open>iter_chunk_indices_and_subsets\<close>, collected; the two \<open>expect\<close> calls panic (\<open>None\<close>) on an
  error or a missing subset.
\<close>

definition iter_chunk_indices_and_subsets :: "chunk_grid \<Rightarrow> (u64 list \<times> array_subset) list option" where
  "iter_chunk_indices_and_subsets G =
     collect_opt (map (\<lambda>c. case cg_subset G c of Inr (Some s) \<Rightarrow> Some (c, s) | _ \<Rightarrow> None)
       (indices_collect (iter_chunk_indices G)))"

subsection \<open>What the array code needs of a grid\<close>

text \<open>
  \<open>chunk_partition\<close>: every in-bounds element has one chunk, found by \<open>chunk_indices\<close>, whose subset
  contains it, and \<open>chunk_element_indices\<close> is its position relative to the origin of that chunk.
\<close>

definition chunk_partition :: "chunk_grid \<Rightarrow> bool" where
  "chunk_partition G \<longleftrightarrow>
     (\<forall>i. inb i (cg_array_shape G) \<longrightarrow>
        (\<exists>c s. cg_chunk_indices G i = Inr (Some c) \<and> inb c (cg_grid_shape G) \<and>
           cg_subset G c = Inr (Some s) \<and> i \<in> elements s \<and>
           cg_chunk_element_indices G i = Inr (Some (map (\<lambda>(a, b). a - b) (zip i (sub_start s)))) \<and>
           (\<forall>c' s'. inb c' (cg_grid_shape G) \<and> cg_subset G c' = Inr (Some s') \<and> i \<in> elements s' \<longrightarrow> c' = c)))"

text \<open>
  \<open>region_chunks_exact\<close>: for a non-empty region within the array, \<open>chunks_in_array_subset\<close> returns
  exactly the chunks that have an element of the region.
\<close>

definition region_chunks_exact :: "chunk_grid \<Rightarrow> bool" where
  "region_chunks_exact G \<longleftrightarrow>
     (\<forall>r. wf_subset r \<and> inbounds_shape r (cg_array_shape G) \<and> \<not> is_empty r \<longrightarrow>
        (\<exists>cs. chunks_in_array_subset G r = Inr (Some cs) \<and> wf_subset cs \<and>
           (\<forall>c. c \<in> elements cs \<longleftrightarrow>
              inb c (cg_grid_shape G) \<and>
              (\<exists>s. cg_subset G c = Inr (Some s) \<and> elements s \<inter> elements r \<noteq> {}))))"

lemma inbounds_elements_inb:
  assumes "wf_subset cs" and "inbounds_shape cs n" and "c \<in> elements cs"
  shows "inb c n"
proof -
  have "sub_start cs ! k + sub_shape cs ! k \<le> n ! k" if "k < length n" for k
    using assms(1,2) that by (auto simp: inbounds_shape_def list_all_length u64_simps split: if_splits)
  then show ?thesis
    using assms unfolding inb_nth mem_elements
    by (metis inbounds_shape_def less_le_trans wf_subset_length)
qed

lemma default_subset_upt:
  assumes "origin c = Inr (Some (map f [0..<n]))" and "shp c = Inr (Some (map h [0..<n]))"
    and "\<And>k. k < n \<Longrightarrow> f k + h k < M64"
  shows "default_subset origin shp c = Inr (Some \<lparr>sub_start = map f [0..<n], sub_shape = map h [0..<n]\<rparr>)"
  using assms
  by (simp add: default_subset_def map_zip_upt[where n = n] wadd_eq from_ranges_def saturating_sub_def)

text \<open>
  \<open>chunks_union_exact\<close>: \<open>chunks_subset\<close> of a non-empty box of chunks is the union of their subsets.
\<close>

definition chunks_union_exact :: "chunk_grid \<Rightarrow> bool" where
  "chunks_union_exact G \<longleftrightarrow>
     (\<forall>cs. 0 \<notin> set (cg_array_shape G) \<and> wf_subset cs \<and> \<not> is_empty cs \<and> inbounds_shape cs (cg_grid_shape G) \<longrightarrow>
        (\<exists>s. chunks_subset G cs = Inr (Some s) \<and> wf_subset s \<and>
           (\<forall>i. i \<in> elements s \<longleftrightarrow>
              (\<exists>c t. c \<in> elements cs \<and> cg_subset G c = Inr (Some t) \<and> i \<in> elements t))))"

definition grid_lawful :: "chunk_grid \<Rightarrow> bool" where
  "grid_lawful G \<longleftrightarrow> chunk_partition G \<and> region_chunks_exact G \<and> chunks_union_exact G"

lemma ex_boundary_between:
  fixes f :: "nat \<Rightarrow> nat"
  assumes "a < b" and "f a \<le> x" and "x < f b"
  shows "\<exists>j. a \<le> j \<and> j < b \<and> f j \<le> x \<and> x < f (Suc j)"
  using assms
proof (induction "b - a" arbitrary: b)
  case (Suc m)
  show ?case
  proof (cases "f (b - 1) \<le> x")
    case True
    then show ?thesis using Suc.prems by (intro exI[of _ "b - 1"]) auto
  next
    case False
    then have "a < b - 1" using Suc.prems by (metis Suc_diff_1 le_0_eq less_Suc_eq linorder_neqE_nat not_less_zero)
    moreover have "m = b - 1 - a" using Suc.hyps(2) by simp
    ultimately show ?thesis using Suc.hyps(1)[of "b - 1"] Suc.prems False by fastforce
  qed
qed simp

subsection \<open>The contract\<close>

text \<open>
  \<open>vt\<close> is the trait object of a grid, \<open>wf\<close> the well-formedness of its struct, and \<open>bnd g k j\<close>
  the ghost boundary: the origin of chunk \<open>j\<close> along dimension \<open>k\<close>.
\<close>

locale chunk_grid_family =
  fixes wf :: "'g \<Rightarrow> bool"
    and vt :: "'g \<Rightarrow> chunk_grid"
    and bnd :: "'g \<Rightarrow> nat \<Rightarrow> nat \<Rightarrow> nat"
  assumes dims: "wf g \<Longrightarrow> length (cg_array_shape (vt g)) = cg_dimensionality (vt g) \<and>
            length (cg_grid_shape (vt g)) = cg_dimensionality (vt g)"
    and bnd_0: "wf g \<Longrightarrow> k < cg_dimensionality (vt g) \<Longrightarrow> bnd g k 0 = 0"
    and bnd_step: "wf g \<Longrightarrow> k < cg_dimensionality (vt g) \<Longrightarrow> 0 \<notin> set (cg_array_shape (vt g)) \<Longrightarrow>
            j < cg_grid_shape (vt g) ! k \<Longrightarrow> bnd g k j < bnd g k (Suc j)"
    and bnd_cover: "wf g \<Longrightarrow> k < cg_dimensionality (vt g) \<Longrightarrow>
            cg_array_shape (vt g) ! k \<le> bnd g k (cg_grid_shape (vt g) ! k)"
    and bnd_fits: "wf g \<Longrightarrow> k < cg_dimensionality (vt g) \<Longrightarrow> 0 \<notin> set (cg_array_shape (vt g)) \<Longrightarrow>
            bnd g k (cg_grid_shape (vt g) ! k) < M64"
    and grid_fits: "wf g \<Longrightarrow> k < cg_dimensionality (vt g) \<Longrightarrow> cg_grid_shape (vt g) ! k < M64"
    and origin: "wf g \<Longrightarrow> 0 \<notin> set (cg_array_shape (vt g)) \<Longrightarrow> inb c (cg_grid_shape (vt g)) \<Longrightarrow>
            cg_chunk_origin (vt g) c =
              Inr (Some (map (\<lambda>k. bnd g k (c ! k)) [0..<cg_dimensionality (vt g)]))"
    and shp: "wf g \<Longrightarrow> 0 \<notin> set (cg_array_shape (vt g)) \<Longrightarrow> inb c (cg_grid_shape (vt g)) \<Longrightarrow>
            cg_chunk_shape (vt g) c =
              Inr (Some (map (\<lambda>k. bnd g k (Suc (c ! k)) - bnd g k (c ! k)) [0..<cg_dimensionality (vt g)]))"
    and shp_u64: "wf g \<Longrightarrow> cg_chunk_shape_u64 (vt g) c = cg_chunk_shape (vt g) c"
    and sub: "wf g \<Longrightarrow> 0 \<notin> set (cg_array_shape (vt g)) \<Longrightarrow> inb c (cg_grid_shape (vt g)) \<Longrightarrow>
            cg_subset (vt g) c =
              Inr (Some \<lparr>sub_start = map (\<lambda>k. bnd g k (c ! k)) [0..<cg_dimensionality (vt g)],
                         sub_shape = map (\<lambda>k. bnd g k (Suc (c ! k)) - bnd g k (c ! k))
                                       [0..<cg_dimensionality (vt g)]\<rparr>)"
    and ind: "wf g \<Longrightarrow> inb i (cg_array_shape (vt g)) \<Longrightarrow>
            \<exists>c. cg_chunk_indices (vt g) i = Inr (Some c) \<and> inb c (cg_grid_shape (vt g)) \<and>
              (\<forall>k < cg_dimensionality (vt g). bnd g k (c ! k) \<le> i ! k \<and> i ! k < bnd g k (Suc (c ! k)))"
    and elem: "wf g \<Longrightarrow> inb i (cg_array_shape (vt g)) \<Longrightarrow> cg_chunk_indices (vt g) i = Inr (Some c) \<Longrightarrow>
            cg_chunk_element_indices (vt g) i =
              Inr (Some (map (\<lambda>k. i ! k - bnd g k (c ! k)) [0..<cg_dimensionality (vt g)]))"
    and edges: "wf g \<Longrightarrow> k < cg_dimensionality (vt g) \<Longrightarrow> 0 < cg_array_shape (vt g) ! k \<Longrightarrow>
            0 \<notin> set (cg_array_shape (vt g)) \<Longrightarrow>
            cg_chunk_edge_lengths (vt g) k =
              Inr (map (\<lambda>j. bnd g k (Suc j) - bnd g k j) [0..<cg_grid_shape (vt g) ! k])"
    and inbd: "wf g \<Longrightarrow> cg_array_indices_inbounds (vt g) i \<longleftrightarrow> inb i (cg_array_shape (vt g))"
    and mismatch: "wf g \<Longrightarrow> 0 \<notin> set (cg_array_shape (vt g)) \<Longrightarrow> length i \<noteq> cg_dimensionality (vt g) \<Longrightarrow>
            cg_chunk_origin (vt g) i = Inl (IncompatibleDimensionalityError (length i) (cg_dimensionality (vt g))) \<and>
            cg_chunk_indices (vt g) i = Inl (IncompatibleDimensionalityError (length i) (cg_dimensionality (vt g)))"
begin

lemma len_array: "wf g \<Longrightarrow> length (cg_array_shape (vt g)) = cg_dimensionality (vt g)"
  and len_grid: "wf g \<Longrightarrow> length (cg_grid_shape (vt g)) = cg_dimensionality (vt g)"
  using dims by blast+

lemma bnd_mono:
  assumes "wf g" and "k < cg_dimensionality (vt g)" and "0 \<notin> set (cg_array_shape (vt g))"
    and "j \<le> j'" and "j' \<le> cg_grid_shape (vt g) ! k"
  shows "bnd g k j \<le> bnd g k j'"
  using assms(4,5)
proof (induction j' rule: dec_induct)
  case (step n)
  then show ?case using bnd_step[OF assms(1-3), of n] by simp
qed simp

lemma bnd_interval_unique:
  assumes "wf g" and "k < cg_dimensionality (vt g)" and "0 \<notin> set (cg_array_shape (vt g))"
    and "j < cg_grid_shape (vt g) ! k" and "j' < cg_grid_shape (vt g) ! k"
    and "bnd g k j \<le> x" "x < bnd g k (Suc j)" "bnd g k j' \<le> x" "x < bnd g k (Suc j')"
  shows "j = j'"
proof (rule linorder_cases[of j j'])
  assume "j < j'"
  then have "bnd g k (Suc j) \<le> bnd g k j'" using bnd_mono[OF assms(1-3), of "Suc j" j'] assms(5) by simp
  then show ?thesis using assms(7,8) by simp
next
  assume "j' < j"
  then have "bnd g k (Suc j') \<le> bnd g k j" using bnd_mono[OF assms(1-3), of "Suc j'" j] assms(4) by simp
  then show ?thesis using assms(6,9) by simp
qed

text \<open>The elements of the subset of a chunk are the indices between its boundaries.\<close>

definition chunk_box :: "'g \<Rightarrow> u64 list \<Rightarrow> array_subset" where
  "chunk_box g c = \<lparr>sub_start = map (\<lambda>k. bnd g k (c ! k)) [0..<cg_dimensionality (vt g)],
     sub_shape = map (\<lambda>k. bnd g k (Suc (c ! k)) - bnd g k (c ! k)) [0..<cg_dimensionality (vt g)]\<rparr>"

lemma subset_eq_box:
  "wf g \<Longrightarrow> 0 \<notin> set (cg_array_shape (vt g)) \<Longrightarrow> inb c (cg_grid_shape (vt g)) \<Longrightarrow>
     cg_subset (vt g) c = Inr (Some (chunk_box g c))"
  by (simp add: sub chunk_box_def)

lemma bnd_le_Suc:
  assumes "wf g" and "0 \<notin> set (cg_array_shape (vt g))" and "inb c (cg_grid_shape (vt g))"
    and "k < cg_dimensionality (vt g)"
  shows "bnd g k (c ! k) < bnd g k (Suc (c ! k))" and "bnd g k (Suc (c ! k)) < M64"
proof -
  have c: "c ! k < cg_grid_shape (vt g) ! k" using assms len_grid by (simp add: inb_nth)
  show "bnd g k (c ! k) < bnd g k (Suc (c ! k))" using bnd_step[OF assms(1,4,2) c] .
  have "bnd g k (Suc (c ! k)) \<le> bnd g k (cg_grid_shape (vt g) ! k)"
    using bnd_mono[OF assms(1,4,2)] c by simp
  then show "bnd g k (Suc (c ! k)) < M64" using bnd_fits[OF assms(1,4,2)] by simp
qed

lemma mem_chunk_box:
  assumes "wf g" and "0 \<notin> set (cg_array_shape (vt g))" and "inb c (cg_grid_shape (vt g))"
  shows "i \<in> elements (chunk_box g c) \<longleftrightarrow> length i = cg_dimensionality (vt g) \<and>
     (\<forall>k < cg_dimensionality (vt g). bnd g k (c ! k) \<le> i ! k \<and> i ! k < bnd g k (Suc (c ! k)))"
  using bnd_le_Suc(1)[OF assms] by (fastforce simp: mem_elements chunk_box_def)

lemma wf_chunk_box:
  assumes "wf g" and "0 \<notin> set (cg_array_shape (vt g))" and "inb c (cg_grid_shape (vt g))"
  shows "wf_subset (chunk_box g c)"
  using bnd_le_Suc[OF assms] by (simp add: wf_subset_nth chunk_box_def less_imp_le)

lemma chunk_box_unique:
  assumes "wf g" and "0 \<notin> set (cg_array_shape (vt g))"
    and "inb c (cg_grid_shape (vt g))" and "inb c' (cg_grid_shape (vt g))"
    and "i \<in> elements (chunk_box g c)" and "i \<in> elements (chunk_box g c')"
  shows "c = c'"
proof (rule nth_equalityI)
  show len: "length c = length c'" using assms(3,4) by (simp add: inb_nth)
  fix k assume "k < length c"
  then have k: "k < cg_dimensionality (vt g)" using assms(1,3) len_grid by (simp add: inb_nth)
  show "c ! k = c' ! k"
    by (rule bnd_interval_unique[OF assms(1) k assms(2), where x = "i ! k"])
      (use assms k len_grid in \<open>auto simp: mem_chunk_box inb_nth\<close>)
qed

lemma grid_chunk_partition: "wf g \<Longrightarrow> chunk_partition (vt g)"
  unfolding chunk_partition_def
proof (intro allI impI)
  fix i assume wf: "wf g" and i: "inb i (cg_array_shape (vt g))"
  have nz: "0 \<notin> set (cg_array_shape (vt g))" using i by (rule inb_pos)
  obtain c where c: "cg_chunk_indices (vt g) i = Inr (Some c)" and ic: "inb c (cg_grid_shape (vt g))"
    and b: "\<forall>k < cg_dimensionality (vt g). bnd g k (c ! k) \<le> i ! k \<and> i ! k < bnd g k (Suc (c ! k))"
    using ind[OF wf i] by blast
  have len: "length i = cg_dimensionality (vt g)" using i len_array[OF wf] by (simp add: inb_nth)
  have mem: "i \<in> elements (chunk_box g c)" using b len by (simp add: mem_chunk_box[OF wf nz ic])
  have "map (\<lambda>k. i ! k - bnd g k (c ! k)) [0..<cg_dimensionality (vt g)] =
      map (\<lambda>(a, b). a - b) (zip i (sub_start (chunk_box g c)))"
    by (intro nth_equalityI) (simp_all add: chunk_box_def len)
  then have el: "cg_chunk_element_indices (vt g) i =
      Inr (Some (map (\<lambda>(a, b). a - b) (zip i (sub_start (chunk_box g c)))))"
    using elem[OF wf i c] by simp
  have "c' = c" if "inb c' (cg_grid_shape (vt g))" "cg_subset (vt g) c' = Inr (Some s')" "i \<in> elements s'" for c' s'
    using that subset_eq_box[OF wf nz that(1)] chunk_box_unique[OF wf nz that(1) ic _ mem] by auto
  then show "\<exists>c s. cg_chunk_indices (vt g) i = Inr (Some c) \<and> inb c (cg_grid_shape (vt g)) \<and>
      cg_subset (vt g) c = Inr (Some s) \<and> i \<in> elements s \<and>
      cg_chunk_element_indices (vt g) i = Inr (Some (map (\<lambda>(a, b). a - b) (zip i (sub_start s)))) \<and>
      (\<forall>c' s'. inb c' (cg_grid_shape (vt g)) \<and> cg_subset (vt g) c' = Inr (Some s') \<and> i \<in> elements s' \<longrightarrow> c' = c)"
    using c ic mem el subset_eq_box[OF wf nz ic] by blast
qed

lemma interval_meets:
  assumes "wf g" and "k < cg_dimensionality (vt g)" and "0 \<notin> set (cg_array_shape (vt g))"
    and "c < cg_grid_shape (vt g) ! k" and "c0 < cg_grid_shape (vt g) ! k" and "c1 < cg_grid_shape (vt g) ! k"
    and "bnd g k c0 \<le> lo" "lo < bnd g k (Suc c0)" "bnd g k c1 \<le> hi" "hi < bnd g k (Suc c1)"
  shows "(bnd g k c \<le> hi \<and> lo < bnd g k (Suc c)) \<longleftrightarrow> c0 \<le> c \<and> c \<le> c1"
proof -
  note mono = bnd_mono[OF assms(1-3)]
  have "c0 \<le> c" if "lo < bnd g k (Suc c)"
  proof (rule ccontr)
    assume "\<not> c0 \<le> c"
    then have "bnd g k (Suc c) \<le> bnd g k c0" using assms(5) by (intro mono) auto
    then show False using that assms(7) by simp
  qed
  moreover have "c \<le> c1" if "bnd g k c \<le> hi"
  proof (rule ccontr)
    assume "\<not> c \<le> c1"
    then have "bnd g k (Suc c1) \<le> bnd g k c" using assms(4) by (intro mono) auto
    then show False using that assms(10) by simp
  qed
  moreover have "bnd g k c \<le> hi" if "c \<le> c1"
    using mono[OF that] assms(6,9) by simp
  moreover have "lo < bnd g k (Suc c)" if "c0 \<le> c"
    using mono[of "Suc c0" "Suc c"] that assms(4,8) by simp
  ultimately show ?thesis by blast
qed

text \<open>A chunk meets a region iff it does so in every dimension.\<close>

lemma box_meets_region:
  assumes "wf g" and "0 \<notin> set (cg_array_shape (vt g))" and "inb c (cg_grid_shape (vt g))"
    and "wf_subset r" and "length (sub_start r) = cg_dimensionality (vt g)" and e: "end_inc r = Some e"
  shows "elements (chunk_box g c) \<inter> elements r \<noteq> {} \<longleftrightarrow>
     (\<forall>k < cg_dimensionality (vt g). bnd g k (c ! k) \<le> e ! k \<and> sub_start r ! k < bnd g k (Suc (c ! k)))"
    (is "_ \<longleftrightarrow> (\<forall>k < ?d. ?P k)")
proof
  assume "elements (chunk_box g c) \<inter> elements r \<noteq> {}"
  then obtain i where "i \<in> elements (chunk_box g c)" "i \<in> elements r" by blast
  then show "\<forall>k < ?d. ?P k"
    unfolding mem_chunk_box[OF assms(1-3)] mem_elements_end_inc[OF assms(4) e] assms(5)
    by (meson le_less_trans less_imp_le le_trans)
next
  assume P: "\<forall>k < ?d. ?P k"
  let ?i = "map (\<lambda>k. max (bnd g k (c ! k)) (sub_start r ! k)) [0..<?d]"
  have "?i \<in> elements (chunk_box g c)"
    using P bnd_le_Suc(1)[OF assms(1-3)] by (simp add: mem_chunk_box[OF assms(1-3)])
  moreover have "?i \<in> elements r"
    using P end_inc_le[OF assms(4) e] assms(5) by (simp add: mem_elements_end_inc[OF assms(4) e])
  ultimately show "elements (chunk_box g c) \<inter> elements r \<noteq> {}" by blast
qed

lemma region_end_inb:
  assumes "wf_subset r" and "inbounds_shape r a" and "end_inc r = Some e"
  shows "inb e a" and "inb (sub_start r) a" and "length (sub_start r) = length a"
proof -
  have len: "length (sub_start r) = length a" "length (sub_shape r) = length a"
    and le: "\<And>k. k < length a \<Longrightarrow> sub_start r ! k + sub_shape r ! k \<le> a ! k"
    using assms(1,2) by (auto simp: inbounds_shape_def list_all_length u64_simps split: if_splits)
  show "length (sub_start r) = length a" by (rule len)
  show "inb e a" "inb (sub_start r) a"
    using end_inc_Some[OF assms(1,3)] le len by (fastforce simp: inb_nth)+
qed

lemma grid_region_chunks_exact: "wf g \<Longrightarrow> region_chunks_exact (vt g)"
  unfolding region_chunks_exact_def
proof (intro allI impI, elim conjE)
  fix r assume wf: "wf g" and r: "wf_subset r" "inbounds_shape r (cg_array_shape (vt g))" "\<not> is_empty r"
  let ?d = "cg_dimensionality (vt g)" and ?n = "cg_grid_shape (vt g)"
  obtain e where e: "end_inc r = Some e" using r(3) end_inc_None_iff[of r] by fastforce
  note inb = region_end_inb[OF r(1,2) e]
  have nz: "0 \<notin> set (cg_array_shape (vt g))" using inb(1) by (rule inb_pos)
  have lenr: "length (sub_start r) = ?d" using inb(3) len_array[OF wf] by simp
  obtain c0 where c0: "cg_chunk_indices (vt g) (sub_start r) = Inr (Some c0)" "inb c0 ?n"
    "\<forall>k < ?d. bnd g k (c0 ! k) \<le> sub_start r ! k \<and> sub_start r ! k < bnd g k (Suc (c0 ! k))"
    using ind[OF wf inb(2)] by blast
  obtain c1 where c1: "cg_chunk_indices (vt g) e = Inr (Some c1)" "inb c1 ?n"
    "\<forall>k < ?d. bnd g k (c1 ! k) \<le> e ! k \<and> e ! k < bnd g k (Suc (c1 ! k))"
    using ind[OF wf inb(1)] by blast
  have len: "length c0 = ?d" "length c1 = ?d" using c0(2) c1(2) len_grid[OF wf] by (simp_all add: inb_nth)
  have lt: "c0 ! k < ?n ! k" "c1 ! k < ?n ! k" "?n ! k < M64" if "k < ?d" for k
    using that c0(2) c1(2) len_grid[OF wf] grid_fits[OF wf that] by (simp_all add: inb_nth)
  have wc: "wadd (c1 ! k) 1 = Suc (c1 ! k)" if "k < ?d" for k
    using lt[OF that] by (simp add: wadd_eq)
  define rs where "rs = map (\<lambda>(s, e). (s, wadd e 1)) (zip c0 c1)"
  have lrs: "length rs = ?d" by (simp add: rs_def len)
  have nth: "rs ! k = (c0 ! k, Suc (c1 ! k))" if "k < ?d" for k
    using that wc[OF that] len by (simp add: rs_def)
  have res: "chunks_in_array_subset (vt g) r = Inr (Some (from_ranges rs))"
    by (simp add: chunks_in_array_subset_def e c0(1) c1(1) new_with_ranges_def from_ranges_def rs_def)
  have wfcs: "wf_subset (from_ranges rs)"
    unfolding wf_from_ranges lrs
  proof (intro allI impI)
    fix k assume k: "k < ?d"
    show "max (fst (rs ! k)) (snd (rs ! k)) < M64" using lt[OF k] by (simp add: nth[OF k])
  qed
  have mem: "c \<in> elements (from_ranges rs) \<longleftrightarrow>
      length c = ?d \<and> (\<forall>k < ?d. c0 ! k \<le> c ! k \<and> c ! k \<le> c1 ! k)" for c
    by (auto simp: elements_from_ranges less_Suc_eq_le lrs nth)
  have "c \<in> elements (from_ranges rs) \<longleftrightarrow>
      inb c ?n \<and> elements (chunk_box g c) \<inter> elements r \<noteq> {}" for c
  proof (cases "inb c ?n")
    case True
    have "(bnd g k (c ! k) \<le> e ! k \<and> sub_start r ! k < bnd g k (Suc (c ! k))) \<longleftrightarrow>
        c0 ! k \<le> c ! k \<and> c ! k \<le> c1 ! k" if "k < ?d" for k
      using that c0(3) c1(3) lt True len_grid[OF wf]
      by (intro interval_meets[OF wf that nz]) (auto simp: inb_nth)
    moreover have "length c = ?d" using True len_grid[OF wf] by (simp add: inb_nth)
    ultimately show ?thesis
      using True by (simp add: mem box_meets_region[OF wf nz True r(1) lenr e])
  next
    case False
    then show ?thesis using lt len_grid[OF wf] unfolding mem inb_nth by (metis le_less_trans)
  qed
  then show "\<exists>cs. chunks_in_array_subset (vt g) r = Inr (Some cs) \<and> wf_subset cs \<and>
      (\<forall>c. c \<in> elements cs \<longleftrightarrow> inb c ?n \<and>
        (\<exists>s. cg_subset (vt g) c = Inr (Some s) \<and> elements s \<inter> elements r \<noteq> {}))"
    using res wfcs subset_eq_box[OF wf nz] by (intro exI[of _ "from_ranges rs"]) auto
qed

lemma grid_chunks_subset:
  assumes wf: "wf g" and nz: "0 \<notin> set (cg_array_shape (vt g))" and cs: "wf_subset cs" "\<not> is_empty cs"
    and inb: "inbounds_shape cs (cg_grid_shape (vt g))"
  shows "\<exists>s. chunks_subset (vt g) cs = Inr (Some s) \<and> wf_subset s \<and>
     elements s = (\<Union>c \<in> elements cs. elements (chunk_box g c))"
proof -
  let ?d = "cg_dimensionality (vt g)" and ?n = "cg_grid_shape (vt g)"
  obtain e where e: "end_inc cs = Some e" using cs(2) end_inc_None_iff[of cs] by fastforce
  note ie = region_end_inb[OF cs(1) inb e]
  have len: "length (sub_start cs) = ?d" "length e = ?d"
    using ie len_grid[OF wf] by (simp_all add: inb_nth)
  define rs where "rs = zip (sub_start (chunk_box g (sub_start cs))) (end_exc (chunk_box g e))"
  have lrs: "length rs = ?d" by (simp add: rs_def chunk_box_def end_exc_def)
  have nth: "rs ! k = (bnd g k (sub_start cs ! k), bnd g k (Suc (e ! k)))" if "k < ?d" for k
    using that bnd_le_Suc(1)[OF wf nz ie(1) that] end_exc_nth[OF wf_chunk_box[OF wf nz ie(1)], of k]
    by (simp add: rs_def chunk_box_def end_exc_def)
  have res: "chunks_subset (vt g) cs = Inr (Some (from_ranges rs))"
    using len subset_eq_box[OF wf nz ie(2)] subset_eq_box[OF wf nz ie(1)]
    by (simp add: chunks_subset_def dimensionality_def e new_with_ranges_def from_ranges_def rs_def)
  have lt: "sub_start cs ! k < ?n ! k" "e ! k < ?n ! k" "sub_start cs ! k \<le> e ! k" if "k < ?d" for k
    using that ie len_grid[OF wf] end_inc_le[OF cs(1) e] len by (auto simp: inb_nth)
  have wfs: "wf_subset (from_ranges rs)"
    unfolding wf_from_ranges lrs
    using nth bnd_le_Suc(2)[OF wf nz ie(1)] bnd_le_Suc[OF wf nz ie(2)]
    by (auto simp: nth intro: less_trans)
  have "i \<in> elements (from_ranges rs) \<longleftrightarrow> (\<exists>c \<in> elements cs. i \<in> elements (chunk_box g c))" for i
  proof
    assume i: "i \<in> elements (from_ranges rs)"
    then have li: "length i = ?d" and
      b: "\<And>k. k < ?d \<Longrightarrow> bnd g k (sub_start cs ! k) \<le> i ! k \<and> i ! k < bnd g k (Suc (e ! k))"
      by (auto simp: elements_from_ranges lrs nth)
    have "\<exists>j. sub_start cs ! k \<le> j \<and> j \<le> e ! k \<and> bnd g k j \<le> i ! k \<and> i ! k < bnd g k (Suc j)" if "k < ?d" for k
      using ex_boundary_between[of "sub_start cs ! k" "Suc (e ! k)" "bnd g k" "i ! k"] b[OF that] lt(3)[OF that]
      by (auto simp: less_Suc_eq_le)
    then obtain f where f: "\<And>k. k < ?d \<Longrightarrow> sub_start cs ! k \<le> f k \<and> f k \<le> e ! k \<and>
        bnd g k (f k) \<le> i ! k \<and> i ! k < bnd g k (Suc (f k))" by metis
    let ?c = "map f [0..<?d]"
    have "?c \<in> elements cs"
      using f len by (simp add: mem_elements_end_inc[OF cs(1) e])
    moreover have "inb ?c ?n" using f lt(2) len_grid[OF wf] by (fastforce simp: inb_nth)
    ultimately show "\<exists>c \<in> elements cs. i \<in> elements (chunk_box g c)"
      using f li by (intro bexI[of _ ?c]) (simp_all add: mem_chunk_box[OF wf nz])
  next
    assume "\<exists>c \<in> elements cs. i \<in> elements (chunk_box g c)"
    then obtain c where c: "c \<in> elements cs" "i \<in> elements (chunk_box g c)" by blast
    have ce: "sub_start cs ! k \<le> c ! k \<and> c ! k \<le> e ! k" if "k < ?d" for k
      using c(1) that len by (simp add: mem_elements_end_inc[OF cs(1) e])
    have ic: "inb c ?n" using ce lt(2) c(1) len len_grid[OF wf] by (fastforce simp: inb_nth mem_elements)
    have "bnd g k (sub_start cs ! k) \<le> bnd g k (c ! k)" "bnd g k (Suc (c ! k)) \<le> bnd g k (Suc (e ! k))"
      if "k < ?d" for k
      using that ce[OF that] lt[OF that] by (auto intro!: bnd_mono[OF wf that nz])
    then show "i \<in> elements (from_ranges rs)"
      using c(2) by (fastforce simp: mem_chunk_box[OF wf nz ic] elements_from_ranges lrs nth)
  qed
  then show ?thesis using res wfs by (intro exI[of _ "from_ranges rs"]) auto
qed

lemma grid_is_lawful:
  assumes wf: "wf g"
  shows "grid_lawful (vt g)"
  unfolding grid_lawful_def
proof (intro conjI)
  show "chunk_partition (vt g)" using wf by (rule grid_chunk_partition)
  show "region_chunks_exact (vt g)" using wf by (rule grid_region_chunks_exact)
  show "chunks_union_exact (vt g)"
    unfolding chunks_union_exact_def
  proof (intro allI impI, elim conjE)
    fix cs assume nz: "0 \<notin> set (cg_array_shape (vt g))"
      and cs: "wf_subset cs" "\<not> is_empty cs" and inb: "inbounds_shape cs (cg_grid_shape (vt g))"
    obtain s where s: "chunks_subset (vt g) cs = Inr (Some s)" "wf_subset s"
      "elements s = (\<Union>c \<in> elements cs. elements (chunk_box g c))"
      using grid_chunks_subset[OF wf nz cs inb] by blast
    have "cg_subset (vt g) c = Inr (Some (chunk_box g c))" if "c \<in> elements cs" for c
      using inbounds_elements_inb[OF cs(1) inb that] by (rule subset_eq_box[OF wf nz])
    then show "\<exists>s. chunks_subset (vt g) cs = Inr (Some s) \<and> wf_subset s \<and>
        (\<forall>i. i \<in> elements s \<longleftrightarrow> (\<exists>c t. c \<in> elements cs \<and> cg_subset (vt g) c = Inr (Some t) \<and> i \<in> elements t))"
      using s by (intro exI[of _ s]) auto
  qed
qed

end

end
