(* ===== verification/Regular_Grids.thy ===== *)
theory Regular_Grids
  imports Chunk_Grid
begin

text \<open>
  The \<open>regular\<close> and \<open>regular_bounded\<close> chunk grids
  (\<open>zarrs/src/array/chunk_grid/regular.rs\<close>, \<open>regular_bounded.rs\<close>), one definition per method of
  their \<open>ChunkGridTraits\<close> implementations.  Both satisfy the contract \<open>chunk_grid_family\<close>; the
  boundaries of a regular grid are the multiples of the chunk shape, those of a bounded grid are
  clipped to the array.  \<open>metadata\<close> parsing (\<open>create\<close>, \<open>configuration\<close>) is not modelled.
\<close>

subsection \<open>The regular grid\<close>

record regular_chunk_grid =
  rg_array_shape :: array_shape
  rg_grid_shape :: array_shape
  rg_chunk_shape :: chunk_shape

datatype regular_create_error = RegularChunkGridCreateError array_shape chunk_shape

definition regular_new :: "array_shape \<Rightarrow> chunk_shape \<Rightarrow> regular_create_error + regular_chunk_grid" where
  "regular_new a s =
     (if length a \<noteq> length s then Inl (RegularChunkGridCreateError a s)
      else Inr \<lparr>rg_array_shape = a, rg_grid_shape = map (\<lambda>(x, y). div_ceil x y) (zip a s),
                rg_chunk_shape = s\<rparr>)"

fun regular_error_dimensionality :: "regular_create_error \<Rightarrow> dimensionality_error" where
  "regular_error_dimensionality (RegularChunkGridCreateError a s) =
     IncompatibleDimensionalityError (length s) (length a)"

definition regular_dimensionality :: "regular_chunk_grid \<Rightarrow> usize" where
  "regular_dimensionality g = length (rg_chunk_shape g)"

definition regular_chunk_edge_lengths :: "regular_chunk_grid \<Rightarrow> usize \<Rightarrow> dimension_error + u64 list" where
  "regular_chunk_edge_lengths g d =
     (if regular_dimensionality g \<le> d then Inl (IncompatibleDimensionError d (regular_dimensionality g))
      else if rg_array_shape g ! d = 0 then Inr []
      else Inr (replicate (rg_grid_shape g ! d) (rg_chunk_shape g ! d)))"

definition regular_subset :: "regular_chunk_grid \<Rightarrow> u64 list \<Rightarrow> dimensionality_error + array_subset option" where
  "regular_subset g c =
     (if 0 \<in> set (rg_array_shape g) then Inr None
      else if length c = regular_dimensionality g
      then Inr (Some (from_ranges
        (map (\<lambda>(i, s). let start = wmul i s in (start, wadd start s)) (zip c (rg_chunk_shape g)))))
      else Inl (IncompatibleDimensionalityError (length c) (regular_dimensionality g)))"

definition regular_chunk_shape :: "regular_chunk_grid \<Rightarrow> u64 list \<Rightarrow> dimensionality_error + chunk_shape option" where
  "regular_chunk_shape g c =
     (if length c = regular_dimensionality g
      then if 0 \<in> set (rg_array_shape g) then Inr None else Inr (Some (rg_chunk_shape g))
      else Inl (IncompatibleDimensionalityError (length c) (regular_dimensionality g)))"

definition regular_chunk_shape_u64 ::
    "regular_chunk_grid \<Rightarrow> u64 list \<Rightarrow> dimensionality_error + array_shape option" where
  "regular_chunk_shape_u64 g c =
     (if length c = regular_dimensionality g
      then if 0 \<in> set (rg_array_shape g) then Inr None else Inr (Some (rg_chunk_shape g))
      else Inl (IncompatibleDimensionalityError (length c) (regular_dimensionality g)))"

definition regular_chunk_origin ::
    "regular_chunk_grid \<Rightarrow> u64 list \<Rightarrow> dimensionality_error + array_indices option" where
  "regular_chunk_origin g c =
     (if 0 \<in> set (rg_array_shape g) then Inr None
      else if length c = regular_dimensionality g
      then Inr (Some (map (\<lambda>(i, s). wmul i s) (zip c (rg_chunk_shape g))))
      else Inl (IncompatibleDimensionalityError (length c) (regular_dimensionality g)))"

definition regular_chunk_indices ::
    "regular_chunk_grid \<Rightarrow> u64 list \<Rightarrow> dimensionality_error + array_indices option" where
  "regular_chunk_indices g i =
     (if 0 \<in> set (rg_array_shape g) then Inr None
      else if length i = regular_dimensionality g
      then Inr (Some (map (\<lambda>(i, s). i div s) (zip i (rg_chunk_shape g))))
      else Inl (IncompatibleDimensionalityError (length i) (regular_dimensionality g)))"

definition regular_chunk_element_indices ::
    "regular_chunk_grid \<Rightarrow> u64 list \<Rightarrow> dimensionality_error + array_indices option" where
  "regular_chunk_element_indices g i =
     (if length i = regular_dimensionality g
      then if 0 \<in> set (rg_array_shape g) then Inr None
           else Inr (Some (map (\<lambda>(i, s). i mod s) (zip i (rg_chunk_shape g))))
      else Inl (IncompatibleDimensionalityError (length i) (regular_dimensionality g)))"

definition regular_grid :: "regular_chunk_grid \<Rightarrow> chunk_grid" where
  "regular_grid g =
     \<lparr>cg_dimensionality = regular_dimensionality g,
      cg_array_shape = rg_array_shape g,
      cg_grid_shape = rg_grid_shape g,
      cg_chunk_edge_lengths = regular_chunk_edge_lengths g,
      cg_chunk_shape = regular_chunk_shape g,
      cg_chunk_shape_u64 = regular_chunk_shape_u64 g,
      cg_chunk_origin = regular_chunk_origin g,
      cg_chunk_indices = regular_chunk_indices g,
      cg_chunk_element_indices = regular_chunk_element_indices g,
      cg_subset = regular_subset g,
      cg_array_indices_inbounds = default_array_indices_inbounds (regular_dimensionality g) (rg_array_shape g)\<rparr>"

subsection \<open>The bounded regular grid\<close>

record regular_bounded_chunk_grid =
  rb_array_shape :: array_shape
  rb_grid_shape :: array_shape
  rb_chunk_shape :: chunk_shape

definition bounded_new :: "array_shape \<Rightarrow> chunk_shape \<Rightarrow> dimensionality_error + regular_bounded_chunk_grid" where
  "bounded_new a s =
     (if length a \<noteq> length s then Inl (IncompatibleDimensionalityError (length s) (length a))
      else Inr \<lparr>rb_array_shape = a, rb_grid_shape = map (\<lambda>(x, y). div_ceil x y) (zip a s),
                rb_chunk_shape = s\<rparr>)"

definition bounded_dimensionality :: "regular_bounded_chunk_grid \<Rightarrow> usize" where
  "bounded_dimensionality g = length (rb_chunk_shape g)"

definition bounded_chunk_edge_lengths ::
    "regular_bounded_chunk_grid \<Rightarrow> usize \<Rightarrow> dimension_error + u64 list" where
  "bounded_chunk_edge_lengths g d =
     (if bounded_dimensionality g \<le> d then Inl (IncompatibleDimensionError d (bounded_dimensionality g))
      else if rb_array_shape g ! d = 0 then Inr []
      else let chunk_size = rb_chunk_shape g ! d;
               n_chunks = rb_grid_shape g ! d;
               last_edge = wsub (rb_array_shape g ! d) (wmul (wsub n_chunks 1) chunk_size)
           in Inr (replicate (wsub n_chunks 1) chunk_size @ [last_edge]))"

definition clip_start :: "u64 \<Rightarrow> u64 \<Rightarrow> u64 \<Rightarrow> u64" where
  "clip_start s a c = min (wmul c s) a"

definition clip_end :: "u64 \<Rightarrow> u64 \<Rightarrow> u64 \<Rightarrow> u64" where
  "clip_end s a c = min (wadd (clip_start s a c) s) a"

definition bounded_chunk_shape ::
    "regular_bounded_chunk_grid \<Rightarrow> u64 list \<Rightarrow> dimensionality_error + chunk_shape option" where
  "bounded_chunk_shape g c =
     (if length c = bounded_dimensionality g
      then Inr (collect_opt (map (\<lambda>((s, a), i).
             let n = saturating_sub (clip_end s a i) (clip_start s a i) in if n = 0 then None else Some n)
           (zip (zip (rb_chunk_shape g) (rb_array_shape g)) c)))
      else Inl (IncompatibleDimensionalityError (length c) (bounded_dimensionality g)))"

definition bounded_chunk_shape_u64 ::
    "regular_bounded_chunk_grid \<Rightarrow> u64 list \<Rightarrow> dimensionality_error + array_shape option" where
  "bounded_chunk_shape_u64 g c =
     (if length c = bounded_dimensionality g
      then Inr (collect_opt (map (\<lambda>((s, a), i).
             if clip_start s a i < clip_end s a i then Some (wsub (clip_end s a i) (clip_start s a i)) else None)
           (zip (zip (rb_chunk_shape g) (rb_array_shape g)) c)))
      else Inl (IncompatibleDimensionalityError (length c) (bounded_dimensionality g)))"

definition bounded_chunk_origin ::
    "regular_bounded_chunk_grid \<Rightarrow> u64 list \<Rightarrow> dimensionality_error + array_indices option" where
  "bounded_chunk_origin g c =
     (if length c = bounded_dimensionality g
      then Inr (collect_opt (map (\<lambda>((i, s), a). let start = wmul i s in if start < a then Some start else None)
           (zip (zip c (rb_chunk_shape g)) (rb_array_shape g))))
      else Inl (IncompatibleDimensionalityError (length c) (bounded_dimensionality g)))"

definition bounded_chunk_indices ::
    "regular_bounded_chunk_grid \<Rightarrow> u64 list \<Rightarrow> dimensionality_error + array_indices option" where
  "bounded_chunk_indices g i =
     (if length i = bounded_dimensionality g
      then Inr (collect_opt (map (\<lambda>((i, s), a). if i < a then Some (i div s) else None)
           (zip (zip i (rb_chunk_shape g)) (rb_array_shape g))))
      else Inl (IncompatibleDimensionalityError (length i) (bounded_dimensionality g)))"

definition bounded_chunk_element_indices ::
    "regular_bounded_chunk_grid \<Rightarrow> u64 list \<Rightarrow> dimensionality_error + array_indices option" where
  "bounded_chunk_element_indices g i =
     (if length i = bounded_dimensionality g
      then Inr (collect_opt (map (\<lambda>((i, s), a). if i < a then Some (i mod s) else None)
           (zip (zip i (rb_chunk_shape g)) (rb_array_shape g))))
      else Inl (IncompatibleDimensionalityError (length i) (bounded_dimensionality g)))"

definition bounded_subset ::
    "regular_bounded_chunk_grid \<Rightarrow> u64 list \<Rightarrow> dimensionality_error + array_subset option" where
  "bounded_subset g c =
     (if length c = bounded_dimensionality g
      then Inr (map_option new_with_ranges (collect_opt (map (\<lambda>((s, a), i).
             if clip_start s a i < clip_end s a i then Some (clip_start s a i, clip_end s a i) else None)
           (zip (zip (rb_chunk_shape g) (rb_array_shape g)) c))))
      else Inl (IncompatibleDimensionalityError (length c) (bounded_dimensionality g)))"

definition bounded_grid :: "regular_bounded_chunk_grid \<Rightarrow> chunk_grid" where
  "bounded_grid g =
     \<lparr>cg_dimensionality = bounded_dimensionality g,
      cg_array_shape = rb_array_shape g,
      cg_grid_shape = rb_grid_shape g,
      cg_chunk_edge_lengths = bounded_chunk_edge_lengths g,
      cg_chunk_shape = bounded_chunk_shape g,
      cg_chunk_shape_u64 = bounded_chunk_shape_u64 g,
      cg_chunk_origin = bounded_chunk_origin g,
      cg_chunk_indices = bounded_chunk_indices g,
      cg_chunk_element_indices = bounded_chunk_element_indices g,
      cg_subset = bounded_subset g,
      cg_array_indices_inbounds = default_array_indices_inbounds (bounded_dimensionality g) (rb_array_shape g)\<rparr>"

subsection \<open>Well-formedness\<close>

text \<open>
  What \<open>new\<close> establishes, together with the range of the types (\<open>NonZeroU64\<close> edges), and that the
  array shape rounded up to whole chunks is a \<open>u64\<close>.
\<close>

definition fits_chunks :: "array_shape \<Rightarrow> chunk_shape \<Rightarrow> bool" where
  "fits_chunks a s \<longleftrightarrow> list_all2 (\<lambda>x y. 0 < y \<and> x + y \<le> M64) a s"

definition wf_regular :: "regular_chunk_grid \<Rightarrow> bool" where
  "wf_regular g \<longleftrightarrow> fits_chunks (rg_array_shape g) (rg_chunk_shape g) \<and>
     regular_new (rg_array_shape g) (rg_chunk_shape g) = Inr g"

definition wf_bounded :: "regular_bounded_chunk_grid \<Rightarrow> bool" where
  "wf_bounded g \<longleftrightarrow> fits_chunks (rb_array_shape g) (rb_chunk_shape g) \<and>
     bounded_new (rb_array_shape g) (rb_chunk_shape g) = Inr g"

subsection \<open>The contract for the regular grid\<close>

definition regular_bnd :: "regular_chunk_grid \<Rightarrow> nat \<Rightarrow> nat \<Rightarrow> nat" where
  "regular_bnd g k j = j * rg_chunk_shape g ! k"

lemma regular_grid_sel [simp]:
  "cg_dimensionality (regular_grid g) = regular_dimensionality g"
  "cg_array_shape (regular_grid g) = rg_array_shape g"
  "cg_grid_shape (regular_grid g) = rg_grid_shape g"
  "cg_chunk_edge_lengths (regular_grid g) = regular_chunk_edge_lengths g"
  "cg_chunk_shape (regular_grid g) = regular_chunk_shape g"
  "cg_chunk_shape_u64 (regular_grid g) = regular_chunk_shape_u64 g"
  "cg_chunk_origin (regular_grid g) = regular_chunk_origin g"
  "cg_chunk_indices (regular_grid g) = regular_chunk_indices g"
  "cg_chunk_element_indices (regular_grid g) = regular_chunk_element_indices g"
  "cg_subset (regular_grid g) = regular_subset g"
  "cg_array_indices_inbounds (regular_grid g) =
     default_array_indices_inbounds (regular_dimensionality g) (rg_array_shape g)"
  by (simp_all add: regular_grid_def)

lemma wf_regular_dims:
  assumes "wf_regular g"
  shows "length (rg_array_shape g) = regular_dimensionality g"
    and "length (rg_grid_shape g) = regular_dimensionality g"
    and "length (rg_chunk_shape g) = regular_dimensionality g"
proof -
  have len: "length (rg_array_shape g) = length (rg_chunk_shape g)"
    and gs: "rg_grid_shape g = map (\<lambda>(x, y). div_ceil x y) (zip (rg_array_shape g) (rg_chunk_shape g))"
    using assms by (auto simp: wf_regular_def fits_chunks_def regular_new_def list_all2_lengthD
        split: if_splits dest!: arg_cong[where f = rg_grid_shape and y = g])
  show "length (rg_array_shape g) = regular_dimensionality g"
    "length (rg_grid_shape g) = regular_dimensionality g"
    "length (rg_chunk_shape g) = regular_dimensionality g"
    by (simp_all add: regular_dimensionality_def len gs)
qed

lemma wf_regular_nth:
  assumes "wf_regular g" and "k < regular_dimensionality g"
  shows "0 < rg_chunk_shape g ! k" and "rg_array_shape g ! k + rg_chunk_shape g ! k \<le> M64"
    and "rg_grid_shape g ! k = div_ceil (rg_array_shape g ! k) (rg_chunk_shape g ! k)"
proof -
  note dims = wf_regular_dims[OF assms(1)]
  show "0 < rg_chunk_shape g ! k" "rg_array_shape g ! k + rg_chunk_shape g ! k \<le> M64"
    using assms dims by (auto simp: wf_regular_def fits_chunks_def list_all2_conv_all_nth)
  have "rg_grid_shape g = map (\<lambda>(x, y). div_ceil x y) (zip (rg_array_shape g) (rg_chunk_shape g))"
    using assms(1) by (auto simp: wf_regular_def regular_new_def split: if_splits
        dest!: arg_cong[where f = rg_grid_shape and y = g])
  then show "rg_grid_shape g ! k = div_ceil (rg_array_shape g ! k) (rg_chunk_shape g ! k)"
    using assms(2) dims by simp
qed

text \<open>An in-bounds chunk index does not overflow when it is scaled to its boundaries.\<close>

lemma regular_bnd_fits:
  assumes "wf_regular g" and "k < regular_dimensionality g" and "j \<le> rg_grid_shape g ! k"
  shows "j * rg_chunk_shape g ! k < M64"
proof -
  have "j * rg_chunk_shape g ! k \<le> rg_grid_shape g ! k * rg_chunk_shape g ! k"
    using assms(3) by simp
  also have "\<dots> < rg_array_shape g ! k + rg_chunk_shape g ! k"
    using wf_regular_nth[OF assms(1,2)] by (simp add: div_ceil_bounds)
  finally show ?thesis using wf_regular_nth(2)[OF assms(1,2)] by simp
qed

lemma regular_start:
  assumes "wf_regular g" and "k < regular_dimensionality g" and "j < rg_grid_shape g ! k"
  shows "wmul j (rg_chunk_shape g ! k) = j * rg_chunk_shape g ! k"
    and "wadd (j * rg_chunk_shape g ! k) (rg_chunk_shape g ! k) = Suc j * rg_chunk_shape g ! k"
  using regular_bnd_fits[OF assms(1,2), of j] regular_bnd_fits[OF assms(1,2), of "Suc j"] assms(3)
  by (simp_all add: wmul_eq wadd_eq add.commute)

interpretation regular: chunk_grid_family wf_regular regular_grid regular_bnd
proof (unfold_locales, goal_cases)
  case (1 g)
  then show ?case by (simp add: wf_regular_dims)
next
  case (2 g k)
  then show ?case by (simp add: regular_bnd_def)
next
  case (3 g k j)
  then show ?case using wf_regular_nth(1)[of g k] by (simp add: regular_bnd_def)
next
  case (4 g k)
  then show ?case using wf_regular_nth[of g k] div_ceil_bounds(1) by (simp add: regular_bnd_def)
next
  case (5 g k)
  then show ?case by (simp add: regular_bnd_def regular_bnd_fits)
next
  case (6 g k)
  have "rg_grid_shape g ! k \<le> rg_grid_shape g ! k * rg_chunk_shape g ! k"
    using wf_regular_nth(1)[of g k] 6 by simp
  from le_less_trans[OF this regular_bnd_fits] 6 show ?case by simp
next
  case (7 g c)
  then show ?case
    using wf_regular_dims[of g] regular_start(1)[of g]
    by (simp add: regular_chunk_origin_def inb_nth map_zip_upt[where n = "regular_dimensionality g"]
        regular_bnd_def)
next
  case (8 g c)
  then show ?case
    using wf_regular_dims[of g]
    by (simp add: regular_chunk_shape_def inb_nth regular_bnd_def list_eq_iff_nth_eq)
next
  case (9 g c)
  then show ?case by (simp add: regular_chunk_shape_def regular_chunk_shape_u64_def)
next
  case (10 g c)
  then show ?case
    using wf_regular_dims[of g] regular_start[of g]
    by (simp add: regular_subset_def inb_nth map_zip_upt[where n = "regular_dimensionality g"]
        from_ranges_upt[where lo = "\<lambda>k. regular_bnd g k (c ! k)" and hi = "\<lambda>k. regular_bnd g k (Suc (c ! k))"]
        regular_bnd_def Let_def)
next
  case (11 g i)
  note dims = wf_regular_dims[OF 11(1)]
  have c: "regular_chunk_indices g i =
      Inr (Some (map (\<lambda>k. i ! k div rg_chunk_shape g ! k) [0..<regular_dimensionality g]))"
    using 11 inb_pos[OF 11(2)] dims
    by (simp add: regular_chunk_indices_def inb_nth map_zip_upt[where n = "regular_dimensionality g"])
  have "i ! k div rg_chunk_shape g ! k < rg_grid_shape g ! k" if "k < regular_dimensionality g" for k
    using 11 that dims wf_regular_nth[OF 11(1) that] by (simp add: inb_nth div_less_div_ceil)
  moreover have "i ! k < Suc (i ! k div rg_chunk_shape g ! k) * rg_chunk_shape g ! k"
    if "k < regular_dimensionality g" for k
    using wf_regular_nth(1)[OF 11(1) that] dividend_less_times_div[of "rg_chunk_shape g ! k" "i ! k"]
    by (simp add: mult.commute)
  ultimately show ?case
    using c dims by (simp add: regular_bnd_def inb_nth)
next
  case (12 g i c)
  note dims = wf_regular_dims[OF 12(1)]
  have "c = map (\<lambda>k. i ! k div rg_chunk_shape g ! k) [0..<regular_dimensionality g]"
    using 12 inb_pos[OF 12(2)] dims
    by (simp add: regular_chunk_indices_def inb_nth map_zip_upt[where n = "regular_dimensionality g"])
  then show ?case
    using 12 inb_pos[OF 12(2)] dims
    by (simp add: regular_chunk_element_indices_def inb_nth regular_bnd_def minus_div_mult_eq_mod
        map_zip_upt[where n = "regular_dimensionality g"])
next
  case (13 g k)
  then show ?case
    by (simp add: regular_chunk_edge_lengths_def regular_bnd_def list_eq_iff_nth_eq)
next
  case (14 g i)
  then show ?case
    using wf_regular_dims[of g] list_all_zip_inb[of i "rg_array_shape g"]
    by (auto simp: default_array_indices_inbounds_def inb_length)
next
  case (15 g i)
  then show ?case by (simp add: regular_chunk_origin_def regular_chunk_indices_def)
qed


subsection \<open>The contract for the bounded regular grid\<close>

definition bounded_bnd :: "regular_bounded_chunk_grid \<Rightarrow> nat \<Rightarrow> nat \<Rightarrow> nat" where
  "bounded_bnd g k j = min (j * rb_chunk_shape g ! k) (rb_array_shape g ! k)"

lemma bounded_grid_sel [simp]:
  "cg_dimensionality (bounded_grid g) = bounded_dimensionality g"
  "cg_array_shape (bounded_grid g) = rb_array_shape g"
  "cg_grid_shape (bounded_grid g) = rb_grid_shape g"
  "cg_chunk_edge_lengths (bounded_grid g) = bounded_chunk_edge_lengths g"
  "cg_chunk_shape (bounded_grid g) = bounded_chunk_shape g"
  "cg_chunk_shape_u64 (bounded_grid g) = bounded_chunk_shape_u64 g"
  "cg_chunk_origin (bounded_grid g) = bounded_chunk_origin g"
  "cg_chunk_indices (bounded_grid g) = bounded_chunk_indices g"
  "cg_chunk_element_indices (bounded_grid g) = bounded_chunk_element_indices g"
  "cg_subset (bounded_grid g) = bounded_subset g"
  "cg_array_indices_inbounds (bounded_grid g) =
     default_array_indices_inbounds (bounded_dimensionality g) (rb_array_shape g)"
  by (simp_all add: bounded_grid_def)

lemma wf_bounded_dims:
  assumes "wf_bounded g"
  shows "length (rb_array_shape g) = bounded_dimensionality g"
    and "length (rb_grid_shape g) = bounded_dimensionality g"
    and "length (rb_chunk_shape g) = bounded_dimensionality g"
    and "rb_grid_shape g = map (\<lambda>(x, y). div_ceil x y) (zip (rb_array_shape g) (rb_chunk_shape g))"
proof -
  have len: "length (rb_array_shape g) = length (rb_chunk_shape g)"
    and gs: "rb_grid_shape g = map (\<lambda>(x, y). div_ceil x y) (zip (rb_array_shape g) (rb_chunk_shape g))"
    using assms by (auto simp: wf_bounded_def fits_chunks_def bounded_new_def list_all2_lengthD
        split: if_splits dest!: arg_cong[where f = rb_grid_shape and y = g])
  show "length (rb_array_shape g) = bounded_dimensionality g"
    "length (rb_grid_shape g) = bounded_dimensionality g"
    "length (rb_chunk_shape g) = bounded_dimensionality g"
    "rb_grid_shape g = map (\<lambda>(x, y). div_ceil x y) (zip (rb_array_shape g) (rb_chunk_shape g))"
    using gs by (simp_all add: bounded_dimensionality_def len)
qed

lemma wf_bounded_nth:
  assumes "wf_bounded g" and "k < bounded_dimensionality g"
  shows "0 < rb_chunk_shape g ! k" and "rb_array_shape g ! k + rb_chunk_shape g ! k \<le> M64"
    and "j < rb_grid_shape g ! k \<longleftrightarrow> j * rb_chunk_shape g ! k < rb_array_shape g ! k"
    and "rb_array_shape g ! k \<le> rb_grid_shape g ! k * rb_chunk_shape g ! k"
proof -
  note dims = wf_bounded_dims[OF assms(1)]
  show pos: "0 < rb_chunk_shape g ! k" and "rb_array_shape g ! k + rb_chunk_shape g ! k \<le> M64"
    using assms dims by (auto simp: wf_bounded_def fits_chunks_def list_all2_conv_all_nth)
  have n: "rb_grid_shape g ! k = div_ceil (rb_array_shape g ! k) (rb_chunk_shape g ! k)"
    using assms(2) dims(1-3) by (simp add: dims(4))
  show "j < rb_grid_shape g ! k \<longleftrightarrow> j * rb_chunk_shape g ! k < rb_array_shape g ! k"
    "rb_array_shape g ! k \<le> rb_grid_shape g ! k * rb_chunk_shape g ! k"
    by (simp_all add: n less_div_ceil_iff[OF pos] div_ceil_bounds[OF pos])
qed

text \<open>The clipped start and end of an in-bounds chunk are its boundaries.\<close>

lemma bounded_clip:
  assumes "wf_bounded g" and "k < bounded_dimensionality g" and "j < rb_grid_shape g ! k"
  shows "clip_start (rb_chunk_shape g ! k) (rb_array_shape g ! k) j = bounded_bnd g k j"
    and "clip_end (rb_chunk_shape g ! k) (rb_array_shape g ! k) j = bounded_bnd g k (Suc j)"
    and "bounded_bnd g k j < bounded_bnd g k (Suc j)"
    and "wmul j (rb_chunk_shape g ! k) = bounded_bnd g k j"
    and "bounded_bnd g k j = j * rb_chunk_shape g ! k" and "bounded_bnd g k j < rb_array_shape g ! k"
    and "bounded_bnd g k (Suc j) < M64"
  using wf_bounded_nth(1,2)[OF assms(1,2)] assms(3)
  by (auto simp: wf_bounded_nth(3)[OF assms(1,2)] clip_start_def clip_end_def bounded_bnd_def
      wmul_eq wadd_eq add.commute min_def)

interpretation bounded: chunk_grid_family wf_bounded bounded_grid bounded_bnd
proof (unfold_locales, goal_cases)
  case (1 g)
  then show ?case by (simp add: wf_bounded_dims)
next
  case (2 g k)
  then show ?case by (simp add: bounded_bnd_def)
next
  case (3 g k j)
  then show ?case by (simp add: bounded_clip(3))
next
  case (4 g k)
  then show ?case using wf_bounded_nth(4)[of g k] by (simp add: bounded_bnd_def)
next
  case (5 g k)
  then show ?case using wf_bounded_nth(1,2)[of g k] by (auto simp: bounded_bnd_def min_def)
next
  case (6 g k)
  have "rb_grid_shape g ! k \<le> rb_array_shape g ! k"
  proof (rule ccontr)
    assume "\<not> rb_grid_shape g ! k \<le> rb_array_shape g ! k"
    then have "rb_array_shape g ! k * rb_chunk_shape g ! k < rb_array_shape g ! k"
      using 6 wf_bounded_nth(3)[of g k "rb_array_shape g ! k"] by simp
    then show False using 6 wf_bounded_nth(1)[of g k] by simp
  qed
  then show ?case using 6 wf_bounded_nth(1,2)[of g k] by simp
next
  case (7 g c)
  note dims = wf_bounded_dims[OF 7(1)]
  have "c ! k < rb_grid_shape g ! k" if "k < bounded_dimensionality g" for k
    using that 7 dims(1-3) by (simp add: inb_nth)
  with 7 dims(1-3) bounded_clip[OF 7(1)] show ?case
    by (simp add: bounded_chunk_origin_def inb_nth map_zip3_upt[where n = "bounded_dimensionality g"]
        collect_opt_upt[where g = "\<lambda>k. bounded_bnd g k (c ! k)"])
next
  case (8 g c)
  note dims = wf_bounded_dims[OF 8(1)]
  have "c ! k < rb_grid_shape g ! k" if "k < bounded_dimensionality g" for k
    using that 8 dims(1-3) by (simp add: inb_nth)
  with 8 dims(1-3) bounded_clip(1-3)[OF 8(1)] show ?case
    by (simp add: bounded_chunk_shape_def inb_nth map_zip3_upt[where n = "bounded_dimensionality g"]
        saturating_sub_def not_le collect_opt_upt[where g = "\<lambda>k. bounded_bnd g k (Suc (c ! k)) - bounded_bnd g k (c ! k)"])
next
  case (9 g c)
  show ?case
  proof (cases "length c = bounded_dimensionality g")
    case True
    note dims = wf_bounded_dims[OF 9]
    have "wsub (clip_end s a i) (clip_start s a i) = clip_end s a i - clip_start s a i"
      if "k < bounded_dimensionality g" "s = rb_chunk_shape g ! k" "a = rb_array_shape g ! k"
        "clip_start s a i < clip_end s a i" for k s a i
      using that wf_bounded_nth(1,2)[OF 9 that(1)] by (intro wsub_eq) (auto simp: clip_end_def)
    then have "map (\<lambda>((s, a), i). if clip_start s a i < clip_end s a i
          then Some (wsub (clip_end s a i) (clip_start s a i)) else None)
        (zip (zip (rb_chunk_shape g) (rb_array_shape g)) c) =
      map (\<lambda>((s, a), i). let n = saturating_sub (clip_end s a i) (clip_start s a i) in if n = 0 then None else Some n)
        (zip (zip (rb_chunk_shape g) (rb_array_shape g)) c)"
      unfolding map_zip3_upt[OF dims(3,1) True] by (intro map_upt_cong) (simp add: saturating_sub_def Let_def)
    from arg_cong[OF this, of collect_opt] show ?thesis
      by (simp only: bounded_chunk_shape_def bounded_chunk_shape_u64_def True bounded_grid_sel if_True)
  qed (simp add: bounded_chunk_shape_def bounded_chunk_shape_u64_def)
next
  case (10 g c)
  note dims = wf_bounded_dims[OF 10(1)]
  have "c ! k < rb_grid_shape g ! k" if "k < bounded_dimensionality g" for k
    using that 10 dims(1-3) by (simp add: inb_nth)
  with 10 dims(1-3) bounded_clip(1-3)[OF 10(1)] show ?case
    by (simp add: bounded_subset_def inb_nth map_zip3_upt[where n = "bounded_dimensionality g"] new_with_ranges_eq
        collect_opt_upt[where g = "\<lambda>k. (bounded_bnd g k (c ! k), bounded_bnd g k (Suc (c ! k)))"]
        from_ranges_upt[where lo = "\<lambda>k. bounded_bnd g k (c ! k)" and hi = "\<lambda>k. bounded_bnd g k (Suc (c ! k))"])
next
  case (11 g i)
  note dims = wf_bounded_dims[OF 11(1)]
  have c: "bounded_chunk_indices g i =
      Inr (Some (map (\<lambda>k. i ! k div rb_chunk_shape g ! k) [0..<bounded_dimensionality g]))"
    using 11 dims(1-3)
    by (simp add: bounded_chunk_indices_def inb_nth map_zip3_upt[where n = "bounded_dimensionality g"]
        collect_opt_upt[where g = "\<lambda>k. i ! k div rb_chunk_shape g ! k"])
  have "i ! k div rb_chunk_shape g ! k < rb_grid_shape g ! k" if "k < bounded_dimensionality g" for k
    using 11 that dims(1-3) by (simp add: inb_nth wf_bounded_nth(3)[OF 11(1) that])
      (meson div_times_less_eq_dividend le_less_trans)
  moreover have "i ! k < Suc (i ! k div rb_chunk_shape g ! k) * rb_chunk_shape g ! k"
    if "k < bounded_dimensionality g" for k
    using wf_bounded_nth(1)[OF 11(1) that] dividend_less_times_div[of "rb_chunk_shape g ! k" "i ! k"]
    by (simp add: mult.commute)
  ultimately show ?case
    using c 11 dims(1-3) by (simp add: bounded_bnd_def inb_nth min.coboundedI1)
next
  case (12 g i c)
  note dims = wf_bounded_dims[OF 12(1)]
  have c: "c = map (\<lambda>k. i ! k div rb_chunk_shape g ! k) [0..<bounded_dimensionality g]"
    using 12 dims(1-3)
    by (simp add: bounded_chunk_indices_def inb_nth map_zip3_upt[where n = "bounded_dimensionality g"]
        collect_opt_upt[where g = "\<lambda>k. i ! k div rb_chunk_shape g ! k"])
  have "i ! k div rb_chunk_shape g ! k * rb_chunk_shape g ! k \<le> rb_array_shape g ! k"
    if "k < bounded_dimensionality g" for k
    using 12 that dims(1-3) by (simp add: inb_nth) (meson div_times_less_eq_dividend le_less_trans less_imp_le)
  then have "i ! k - bounded_bnd g k (c ! k) = i ! k mod rb_chunk_shape g ! k"
    if "k < bounded_dimensionality g" for k
    using that by (simp add: c bounded_bnd_def minus_div_mult_eq_mod min_absorb1)
  then show ?case
    using 12 dims(1-3)
    by (simp add: bounded_chunk_element_indices_def inb_nth map_zip3_upt[where n = "bounded_dimensionality g"]
        collect_opt_upt[where g = "\<lambda>k. i ! k mod rb_chunk_shape g ! k"])
next
  case (13 g k)
  note nth = wf_bounded_nth[OF 13(1)] and clip = bounded_clip[OF 13(1)]
  have k: "k < bounded_dimensionality g" using 13 by simp
  define n where "n = rb_grid_shape g ! k"
  have "0 < n" using 13 nth(3)[OF k, of 0] by (simp add: n_def)
  then obtain m where m: "n = Suc m" using gr0_conv_Suc by blast
  have "m \<le> m * rb_chunk_shape g ! k" using nth(1)[OF k] by simp
  then have mM: "m < M64"
    using clip(5,6)[OF k, of m] m n_def nth(2)[OF k] by linarith
  have w: "wsub n 1 = m" using mM m by (simp add: wsub_def M64_def)
  have last: "wsub (rb_array_shape g ! k) (wmul m (rb_chunk_shape g ! k)) =
      bounded_bnd g k (Suc m) - bounded_bnd g k m"
  proof -
    have "bounded_bnd g k (Suc m) = rb_array_shape g ! k"
      using nth(4)[OF k] m by (simp add: bounded_bnd_def n_def)
    moreover have "wsub (rb_array_shape g ! k) (bounded_bnd g k m) = rb_array_shape g ! k - bounded_bnd g k m"
      using clip(6,7)[OF k, of m] nth(1,2)[OF k] m n_def by (intro wsub_eq) auto
    ultimately show ?thesis using clip(4)[OF k, of m] m n_def by simp
  qed
  have front: "replicate m (rb_chunk_shape g ! k) =
      map (\<lambda>j. bounded_bnd g k (Suc j) - bounded_bnd g k j) [0..<m]"
    using clip(5)[OF k] m n_def by (simp add: list_eq_iff_nth_eq)
  show ?case
    using 13 k w last front m
    by (simp add: bounded_chunk_edge_lengths_def Let_def n_def[symmetric])
next
  case (14 g i)
  then show ?case
    using wf_bounded_dims[of g] list_all_zip_inb[of i "rb_array_shape g"]
    by (auto simp: default_array_indices_inbounds_def inb_length)
next
  case (15 g i)
  then show ?case by (simp add: bounded_chunk_origin_def bounded_chunk_indices_def)
qed


subsection \<open>The properties of the grids\<close>

text \<open>
  Property C29.  A regular chunk grid created by \<open>new\<close> is lawful: every in-bounds element
  is in the subset of exactly one chunk of the grid, the one \<open>chunk_indices\<close> returns, at the
  position \<open>chunk_element_indices\<close> returns; \<open>chunks_in_array_subset\<close> returns, for every non-empty
  region within the array, exactly the chunks that have an element of the region; and
  \<open>chunks_subset\<close> is the union of the subsets of the chunks.  The hypothesis
  says that the edges are non-zero and that the array shape plus a chunk fits a \<open>u64\<close>.
\<close>

theorem regular_grid_partitions:
  assumes "fits_chunks a s" and "regular_new a s = Inr g"
  shows "grid_lawful (regular_grid g)"
proof -
  have "wf_regular g" using assms by (auto simp: wf_regular_def regular_new_def split: if_splits)
  then show ?thesis by (rule regular.grid_is_lawful)
qed

theorem regular_grid_partitions_witness:
  "regular_new [10, 7] [4, 7] = Inr \<lparr>rg_array_shape = [10, 7], rg_grid_shape = [3, 1], rg_chunk_shape = [4, 7]\<rparr> \<and>
   grid_lawful (regular_grid \<lparr>rg_array_shape = [10, 7], rg_grid_shape = [3, 1], rg_chunk_shape = [4, 7]\<rparr>)"
proof (rule conjI)
  show new: "regular_new [10, 7] [4, 7] =
      Inr \<lparr>rg_array_shape = [10, 7], rg_grid_shape = [3, 1], rg_chunk_shape = [4, 7]\<rparr>"
    by (simp add: regular_new_def div_ceil_def)
  show "grid_lawful (regular_grid \<lparr>rg_array_shape = [10, 7], rg_grid_shape = [3, 1], rg_chunk_shape = [4, 7]\<rparr>)"
    by (rule regular_grid_partitions[OF _ new]) (simp add: fits_chunks_def M64_def)
qed

text \<open>
  The bounded regular grid, whose last chunks are clipped to the array, is lawful,
  and its chunks stay inside the array: the subset of a chunk of the grid is in bounds.
\<close>

theorem bounded_grid_partitions:
  assumes "fits_chunks a s" and "bounded_new a s = Inr g"
  shows "grid_lawful (bounded_grid g) \<and>
     (\<forall>c t. 0 \<notin> set a \<longrightarrow> inb c (rb_grid_shape g) \<longrightarrow> bounded_subset g c = Inr (Some t) \<longrightarrow> inbounds_shape t a)"
proof (intro conjI allI impI)
  have wf: "wf_bounded g" and a: "rb_array_shape g = a"
    using assms by (auto simp: wf_bounded_def bounded_new_def split: if_splits)
  show "grid_lawful (bounded_grid g)" using wf by (rule bounded.grid_is_lawful)
  fix c t assume nz: "0 \<notin> set a" and c: "inb c (rb_grid_shape g)" and t: "bounded_subset g c = Inr (Some t)"
  note dims = wf_bounded_dims(1-3)[OF wf]
  have "t = \<lparr>sub_start = map (\<lambda>k. bounded_bnd g k (c ! k)) [0..<bounded_dimensionality g],
      sub_shape = map (\<lambda>k. bounded_bnd g k (Suc (c ! k)) - bounded_bnd g k (c ! k)) [0..<bounded_dimensionality g]\<rparr>"
    using bounded.sub[OF wf, of c] nz a c t by simp
  moreover have "wadd (bounded_bnd g k (c ! k)) (bounded_bnd g k (Suc (c ! k)) - bounded_bnd g k (c ! k)) \<le> a ! k"
    if "k < bounded_dimensionality g" for k
    using bounded_clip(3,7)[OF wf that, of "c ! k"] c that dims a
    by (simp add: inb_nth wadd_eq) (simp add: bounded_bnd_def)
  ultimately show "inbounds_shape t a"
    using dims a by (simp add: inbounds_shape_def list_all_length)
qed

theorem bounded_grid_partitions_witness:
  "bounded_new [10] [4] = Inr \<lparr>rb_array_shape = [10], rb_grid_shape = [3], rb_chunk_shape = [4]\<rparr> \<and>
   bounded_subset \<lparr>rb_array_shape = [10], rb_grid_shape = [3], rb_chunk_shape = [4]\<rparr> [2] =
     Inr (Some \<lparr>sub_start = [8], sub_shape = [2]\<rparr>) \<and>
   grid_lawful (bounded_grid \<lparr>rb_array_shape = [10], rb_grid_shape = [3], rb_chunk_shape = [4]\<rparr>) \<and>
   inbounds_shape \<lparr>sub_start = [8], sub_shape = [2]\<rparr> [10]"
proof -
  have new: "bounded_new [10] [4] = Inr \<lparr>rb_array_shape = [10], rb_grid_shape = [3], rb_chunk_shape = [4]\<rparr>"
    by (simp add: bounded_new_def div_ceil_def)
  have sub: "bounded_subset \<lparr>rb_array_shape = [10], rb_grid_shape = [3], rb_chunk_shape = [4]\<rparr> [2] =
      Inr (Some \<lparr>sub_start = [8], sub_shape = [2]\<rparr>)"
    by (simp add: bounded_subset_def bounded_dimensionality_def clip_start_def clip_end_def wmul_def wadd_def
        M64_def new_with_ranges_def saturating_sub_def)
  have "fits_chunks [10] [4]" by (simp add: fits_chunks_def M64_def)
  from bounded_grid_partitions[OF this new] new sub show ?thesis by (auto dest!: spec[of _ "[2]"])
qed

end
