(* ===== verification/Varying_Grids.thy ===== *)
theory Varying_Grids
  imports Regular_Grids
begin

text \<open>
  The \<open>rectangular\<close> and \<open>rectilinear\<close> chunk grids
  (\<open>zarrs/src/array/chunk_grid/rectangular.rs\<close>, \<open>rectilinear.rs\<close>) and the run-length encoded edge
  lengths of the latter (\<open>zarrs_metadata_ext/src/chunk_grid/rectilinear.rs\<close>).  The two source files
  declare the same private types \<open>OffsetSize\<close> and \<open>Fixed\<close>/\<open>Varying\<close> dimension; they are one type
  here, and the closures the two files apply per dimension are named functions of it.
  \<open>slice::partition_point\<close> is \<open>length (takeWhile p xs)\<close>, its documented result on a slice partitioned
  by \<open>p\<close>.
\<close>

record offset_size =
  os_offset :: u64
  os_size :: u64

datatype grid_dimension = FixedDim u64 | VaryingDim "offset_size list"

subsection \<open>Run-length encoded edge lengths\<close>

datatype run_length_element = Repeated u64 u64 | Single u64
datatype chunk_edge_lengths = EdgeScalar u64 | EdgeVarying "run_length_element list"

fun rle_decode :: "run_length_element list \<Rightarrow> u64 list" where
  "rle_decode [] = []"
| "rle_decode (Single v # es) = v # rle_decode es"
| "rle_decode (Repeated v n # es) = replicate n v @ rle_decode es"

text \<open>\<open>NonZeroU64::new(count).unwrap()\<close> panics (\<open>None\<close>) on a zero count.\<close>

definition push_run_length :: "run_length_element list \<Rightarrow> u64 \<Rightarrow> u64 \<Rightarrow> run_length_element list option" where
  "push_run_length result value count =
     (if count = 1 then Some (result @ [Single value])
      else if count = 0 then None
      else Some (result @ [Repeated value count]))"

fun compress_loop ::
    "u64 list \<Rightarrow> run_length_element list \<Rightarrow> u64 \<Rightarrow> u64 \<Rightarrow> run_length_element list option" where
  "compress_loop [] result current count = push_run_length result current count"
| "compress_loop (sz # sizes) result current count =
     (if sz = current then compress_loop sizes result current (wadd count 1)
      else Option.bind (push_run_length result current count) (\<lambda>result. compress_loop sizes result sz 1))"

fun compress_run_length :: "u64 list \<Rightarrow> run_length_element list option" where
  "compress_run_length [] = Some []"
| "compress_run_length (sz # sizes) = compress_loop (sz # sizes) [] sz 0"

fun rle_encode :: "u64 list \<Rightarrow> chunk_edge_lengths option" where
  "rle_encode [] = map_option EdgeVarying (compress_run_length [])"
| "rle_encode (first # rest) =
     (if list_all (\<lambda>e. e = first) (first # rest) then Some (EdgeScalar first)
      else map_option EdgeVarying (compress_run_length (first # rest)))"

subsection \<open>The per-dimension closures\<close>

fun scan_offsets :: "u64 \<Rightarrow> u64 list \<Rightarrow> offset_size list" where
  "scan_offsets off [] = []"
| "scan_offsets off (sz # sizes) =
     \<lparr>os_offset = off, os_size = sz\<rparr> # scan_offsets (wadd off sz) sizes"

definition os_end :: "offset_size \<Rightarrow> u64" where
  "os_end l = wadd (os_offset l) (os_size l)"

definition last_default :: offset_size where
  "last_default = \<lparr>os_offset = 0, os_size = 1\<rparr>"

definition partition_point :: "('a \<Rightarrow> bool) \<Rightarrow> 'a list \<Rightarrow> usize" where
  "partition_point p xs = length (takeWhile p xs)"

fun dim_chunk_shape :: "u64 \<Rightarrow> grid_dimension \<Rightarrow> u64 option" where
  "dim_chunk_shape c (FixedDim s) = Some s"
| "dim_chunk_shape c (VaryingDim os) = (if c < length os then Some (os_size (os ! c)) else None)"

fun dim_chunk_origin :: "u64 \<Rightarrow> grid_dimension \<Rightarrow> u64 option" where
  "dim_chunk_origin c (FixedDim s) = Some (wmul c s)"
| "dim_chunk_origin c (VaryingDim os) = (if c < length os then Some (os_offset (os ! c)) else None)"

fun rectangular_dim_index :: "u64 \<Rightarrow> grid_dimension \<Rightarrow> u64 option" where
  "rectangular_dim_index i (FixedDim s) = Some (i div s)"
| "rectangular_dim_index i (VaryingDim os) =
     (let l = (case last_opt os of Some l \<Rightarrow> l | None \<Rightarrow> last_default) in
      if i < os_end l
      then let partition = partition_point (\<lambda>x. os_offset x \<le> i) os in
           if partition \<le> length os then Some (max partition 1 - 1) else None
      else None)"

fun rectilinear_dim_index :: "u64 \<Rightarrow> grid_dimension \<Rightarrow> u64 option" where
  "rectilinear_dim_index i (FixedDim s) = Some (i div s)"
| "rectilinear_dim_index i (VaryingDim os) =
     Option.bind (last_opt os) (\<lambda>l.
       if i < os_end l
       then let partition = partition_point (\<lambda>x. os_offset x \<le> i) os in
            if partition = 0 then None else Some (partition - 1)
       else None)"

fun rectilinear_dim_element :: "u64 \<Rightarrow> grid_dimension \<Rightarrow> u64 option" where
  "rectilinear_dim_element i (FixedDim s) = (let chunk_offset = wmul (i div s) s in Some (wsub i chunk_offset))"
| "rectilinear_dim_element i (VaryingDim os) =
     Option.bind (last_opt os) (\<lambda>l.
       if i < os_end l
       then let partition = partition_point (\<lambda>x. os_offset x \<le> i) os in
            if partition = 0 then None
            else let chunk_offset = os_offset (os ! (partition - 1)) in Some (wsub i chunk_offset)
       else None)"

fun dim_index_inbounds :: "u64 \<Rightarrow> u64 \<Rightarrow> grid_dimension \<Rightarrow> bool" where
  "dim_index_inbounds i a (FixedDim s) \<longleftrightarrow> i < a"
| "dim_index_inbounds i a (VaryingDim os) \<longleftrightarrow>
     i < a \<and> (case last_opt os of Some l \<Rightarrow> i < os_end l | None \<Rightarrow> False)"

subsection \<open>The rectangular grid\<close>

datatype rectangular_dim_config = ConfigFixed u64 | ConfigVarying chunk_shape

record rectangular_chunk_grid =
  rc_array_shape :: array_shape
  rc_chunks :: "grid_dimension list"
  rc_grid_shape :: array_shape

datatype rectangular_create_error =
  RectangularChunkGridCreateError array_shape "rectangular_dim_config list"

fun rectangular_dimension :: "rectangular_dim_config \<Rightarrow> grid_dimension" where
  "rectangular_dimension (ConfigFixed f) = FixedDim f"
| "rectangular_dimension (ConfigVarying chunk_sizes) = VaryingDim (scan_offsets 0 chunk_sizes)"

fun rectangular_grid_size :: "u64 \<Rightarrow> grid_dimension \<Rightarrow> u64 option" where
  "rectangular_grid_size a (FixedDim s) = Some (div_ceil a s)"
| "rectangular_grid_size a (VaryingDim os) =
     (let l = (case last_opt os of Some l \<Rightarrow> l | None \<Rightarrow> last_default) in
      if a = os_end l then Some (length os) else None)"

definition rectangular_new ::
    "array_shape \<Rightarrow> rectangular_dim_config list \<Rightarrow> rectangular_create_error + rectangular_chunk_grid" where
  "rectangular_new a cfg =
     (if length a \<noteq> length cfg then Inl (RectangularChunkGridCreateError a cfg)
      else let chunks = map rectangular_dimension cfg in
        case collect_opt (map (\<lambda>(x, d). rectangular_grid_size x d) (zip a chunks)) of
          None \<Rightarrow> Inl (RectangularChunkGridCreateError a cfg)
        | Some n \<Rightarrow> Inr \<lparr>rc_array_shape = a, rc_chunks = chunks, rc_grid_shape = n\<rparr>)"

fun rectangular_dim_configuration :: "grid_dimension \<Rightarrow> rectangular_dim_config" where
  "rectangular_dim_configuration (FixedDim s) = ConfigFixed s"
| "rectangular_dim_configuration (VaryingDim os) = ConfigVarying (map os_size os)"

definition rectangular_configuration :: "rectangular_chunk_grid \<Rightarrow> rectangular_dim_config list" where
  "rectangular_configuration g = map rectangular_dim_configuration (rc_chunks g)"

definition rectangular_dimensionality :: "rectangular_chunk_grid \<Rightarrow> usize" where
  "rectangular_dimensionality g = length (rc_chunks g)"

definition rectangular_chunk_edge_lengths :: "rectangular_chunk_grid \<Rightarrow> usize \<Rightarrow> dimension_error + u64 list" where
  "rectangular_chunk_edge_lengths g d =
     (if rectangular_dimensionality g \<le> d then Inl (IncompatibleDimensionError d (rectangular_dimensionality g))
      else if rc_array_shape g ! d = 0 then Inr []
      else case rc_chunks g ! d of
          FixedDim sz \<Rightarrow> Inr (replicate (rc_grid_shape g ! d) sz)
        | VaryingDim os \<Rightarrow> Inr (map os_size os))"

definition rectangular_chunk_shape ::
    "rectangular_chunk_grid \<Rightarrow> u64 list \<Rightarrow> dimensionality_error + chunk_shape option" where
  "rectangular_chunk_shape g c =
     (if length c = rectangular_dimensionality g
      then if 0 \<in> set (rc_array_shape g) then Inr None
           else Inr (collect_opt (map (\<lambda>(i, d). dim_chunk_shape i d) (zip c (rc_chunks g))))
      else Inl (IncompatibleDimensionalityError (length c) (rectangular_dimensionality g)))"

definition rectangular_chunk_shape_u64 ::
    "rectangular_chunk_grid \<Rightarrow> u64 list \<Rightarrow> dimensionality_error + array_shape option" where
  "rectangular_chunk_shape_u64 g c =
     (if length c = rectangular_dimensionality g
      then if 0 \<in> set (rc_array_shape g) then Inr None
           else Inr (collect_opt (map (\<lambda>(i, d). dim_chunk_shape i d) (zip c (rc_chunks g))))
      else Inl (IncompatibleDimensionalityError (length c) (rectangular_dimensionality g)))"

definition rectangular_chunk_origin ::
    "rectangular_chunk_grid \<Rightarrow> u64 list \<Rightarrow> dimensionality_error + array_indices option" where
  "rectangular_chunk_origin g c =
     (if length c = rectangular_dimensionality g
      then if 0 \<in> set (rc_array_shape g) then Inr None
           else Inr (collect_opt (map (\<lambda>(i, d). dim_chunk_origin i d) (zip c (rc_chunks g))))
      else Inl (IncompatibleDimensionalityError (length c) (rectangular_dimensionality g)))"

definition rectangular_chunk_indices ::
    "rectangular_chunk_grid \<Rightarrow> u64 list \<Rightarrow> dimensionality_error + array_indices option" where
  "rectangular_chunk_indices g i =
     (if length i = rectangular_dimensionality g
      then if 0 \<in> set (rc_array_shape g) then Inr None
           else Inr (collect_opt (map (\<lambda>(i, d). rectangular_dim_index i d) (zip i (rc_chunks g))))
      else Inl (IncompatibleDimensionalityError (length i) (rectangular_dimensionality g)))"

text \<open>
  The \<open>expect\<close> on \<open>chunk_origin\<close> cannot fail, since the chunk indices have the length of the grid;
  the model passes the error on.
\<close>

definition rectangular_chunk_element_indices ::
    "rectangular_chunk_grid \<Rightarrow> u64 list \<Rightarrow> dimensionality_error + array_indices option" where
  "rectangular_chunk_element_indices g i =
     bind_res (rectangular_chunk_indices g i) (\<lambda>chunk_indices.
       case chunk_indices of
         None \<Rightarrow> Inr None
       | Some c \<Rightarrow> bind_res (rectangular_chunk_origin g c) (\<lambda>chunk_start.
           Inr (map_option (\<lambda>start. map (\<lambda>(i, s). wsub i s) (zip i start)) chunk_start)))"

definition rectangular_array_indices_inbounds :: "rectangular_chunk_grid \<Rightarrow> u64 list \<Rightarrow> bool" where
  "rectangular_array_indices_inbounds g i \<longleftrightarrow>
     length i = rectangular_dimensionality g \<and>
     list_all (\<lambda>((i, a), d). dim_index_inbounds i a d) (zip (zip i (rc_array_shape g)) (rc_chunks g))"

definition rectangular_grid :: "rectangular_chunk_grid \<Rightarrow> chunk_grid" where
  "rectangular_grid g =
     \<lparr>cg_dimensionality = rectangular_dimensionality g,
      cg_array_shape = rc_array_shape g,
      cg_grid_shape = rc_grid_shape g,
      cg_chunk_edge_lengths = rectangular_chunk_edge_lengths g,
      cg_chunk_shape = rectangular_chunk_shape g,
      cg_chunk_shape_u64 = rectangular_chunk_shape_u64 g,
      cg_chunk_origin = rectangular_chunk_origin g,
      cg_chunk_indices = rectangular_chunk_indices g,
      cg_chunk_element_indices = rectangular_chunk_element_indices g,
      cg_subset = default_subset (rectangular_chunk_origin g) (rectangular_chunk_shape g),
      cg_array_indices_inbounds = rectangular_array_indices_inbounds g\<rparr>"

subsection \<open>The rectilinear grid\<close>

record rectilinear_chunk_grid =
  rl_array_shape :: array_shape
  rl_chunks :: "grid_dimension list"
  rl_grid_shape :: array_shape

datatype rectilinear_create_error = RectilinearChunkGridCreateError array_shape "chunk_edge_lengths list"

fun rectilinear_dimension :: "chunk_edge_lengths \<Rightarrow> grid_dimension" where
  "rectilinear_dimension (EdgeScalar s) = FixedDim s"
| "rectilinear_dimension (EdgeVarying es) = VaryingDim (scan_offsets 0 (rle_decode es))"

fun rectilinear_grid_size :: "u64 \<Rightarrow> grid_dimension \<Rightarrow> u64 option" where
  "rectilinear_grid_size a (FixedDim s) = (if a = 0 then Some 0 else Some (div_ceil a s))"
| "rectilinear_grid_size a (VaryingDim os) =
     Option.bind (last_opt os) (\<lambda>l. if a \<le> os_end l then Some (length os) else None)"

definition rectilinear_new ::
    "array_shape \<Rightarrow> chunk_edge_lengths list \<Rightarrow> rectilinear_create_error + rectilinear_chunk_grid" where
  "rectilinear_new a cfg =
     (if length a \<noteq> length cfg then Inl (RectilinearChunkGridCreateError a cfg)
      else let chunks = map rectilinear_dimension cfg in
        case collect_opt (map (\<lambda>(x, d). rectilinear_grid_size x d) (zip a chunks)) of
          None \<Rightarrow> Inl (RectilinearChunkGridCreateError a cfg)
        | Some n \<Rightarrow> Inr \<lparr>rl_array_shape = a, rl_chunks = chunks, rl_grid_shape = n\<rparr>)"

fun rectilinear_dimension_configuration :: "grid_dimension \<Rightarrow> chunk_edge_lengths option" where
  "rectilinear_dimension_configuration (FixedDim s) = Some (EdgeScalar s)"
| "rectilinear_dimension_configuration (VaryingDim os) = rle_encode (map os_size os)"

definition rectilinear_configuration :: "rectilinear_chunk_grid \<Rightarrow> chunk_edge_lengths list option" where
  "rectilinear_configuration g = collect_opt (map rectilinear_dimension_configuration (rl_chunks g))"

definition rectilinear_dimensionality :: "rectilinear_chunk_grid \<Rightarrow> usize" where
  "rectilinear_dimensionality g = length (rl_chunks g)"

definition rectilinear_chunk_edge_lengths :: "rectilinear_chunk_grid \<Rightarrow> usize \<Rightarrow> dimension_error + u64 list" where
  "rectilinear_chunk_edge_lengths g d =
     (if rectilinear_dimensionality g \<le> d then Inl (IncompatibleDimensionError d (rectilinear_dimensionality g))
      else if rl_array_shape g ! d = 0 then Inr []
      else case rl_chunks g ! d of
          FixedDim sz \<Rightarrow> Inr (replicate (rl_grid_shape g ! d) sz)
        | VaryingDim os \<Rightarrow> Inr (map os_size os))"

text \<open>The dimensionality check and zero-size check that open every query of the rectilinear grid.\<close>

definition rectilinear_query ::
    "rectilinear_chunk_grid \<Rightarrow> u64 list \<Rightarrow> (u64 \<Rightarrow> grid_dimension \<Rightarrow> u64 option) \<Rightarrow>
     dimensionality_error + u64 list option" where
  "rectilinear_query g i f =
     (if length i \<noteq> rectilinear_dimensionality g
      then Inl (IncompatibleDimensionalityError (length i) (rectilinear_dimensionality g))
      else if 0 \<in> set (rl_array_shape g) then Inr None
      else Inr (collect_opt (map (\<lambda>(i, d). f i d) (zip i (rl_chunks g)))))"

definition rectilinear_chunk_shape ::
    "rectilinear_chunk_grid \<Rightarrow> u64 list \<Rightarrow> dimensionality_error + chunk_shape option" where
  "rectilinear_chunk_shape g c = rectilinear_query g c dim_chunk_shape"

definition rectilinear_chunk_shape_u64 ::
    "rectilinear_chunk_grid \<Rightarrow> u64 list \<Rightarrow> dimensionality_error + array_shape option" where
  "rectilinear_chunk_shape_u64 g c = rectilinear_query g c dim_chunk_shape"

definition rectilinear_chunk_origin ::
    "rectilinear_chunk_grid \<Rightarrow> u64 list \<Rightarrow> dimensionality_error + array_indices option" where
  "rectilinear_chunk_origin g c = rectilinear_query g c dim_chunk_origin"

definition rectilinear_chunk_indices ::
    "rectilinear_chunk_grid \<Rightarrow> u64 list \<Rightarrow> dimensionality_error + array_indices option" where
  "rectilinear_chunk_indices g i = rectilinear_query g i rectilinear_dim_index"

definition rectilinear_chunk_element_indices ::
    "rectilinear_chunk_grid \<Rightarrow> u64 list \<Rightarrow> dimensionality_error + array_indices option" where
  "rectilinear_chunk_element_indices g i = rectilinear_query g i rectilinear_dim_element"

definition rectilinear_array_indices_inbounds :: "rectilinear_chunk_grid \<Rightarrow> u64 list \<Rightarrow> bool" where
  "rectilinear_array_indices_inbounds g i \<longleftrightarrow>
     length i = rectilinear_dimensionality g \<and>
     list_all (\<lambda>((i, a), d). dim_index_inbounds i a d) (zip (zip i (rl_array_shape g)) (rl_chunks g))"

definition rectilinear_grid :: "rectilinear_chunk_grid \<Rightarrow> chunk_grid" where
  "rectilinear_grid g =
     \<lparr>cg_dimensionality = rectilinear_dimensionality g,
      cg_array_shape = rl_array_shape g,
      cg_grid_shape = rl_grid_shape g,
      cg_chunk_edge_lengths = rectilinear_chunk_edge_lengths g,
      cg_chunk_shape = rectilinear_chunk_shape g,
      cg_chunk_shape_u64 = rectilinear_chunk_shape_u64 g,
      cg_chunk_origin = rectilinear_chunk_origin g,
      cg_chunk_indices = rectilinear_chunk_indices g,
      cg_chunk_element_indices = rectilinear_chunk_element_indices g,
      cg_subset = default_subset (rectilinear_chunk_origin g) (rectilinear_chunk_shape g),
      cg_array_indices_inbounds = rectilinear_array_indices_inbounds g\<rparr>"

subsection \<open>One dimension\<close>

text \<open>
  \<open>wf_dim a n d\<close>: dimension \<open>d\<close> has \<open>n\<close> non-empty chunks that cover an array of size \<open>a\<close>, and its
  boundaries \<open>dim_bnd d\<close> are \<open>u64\<close> values.
\<close>

fun dim_bnd :: "grid_dimension \<Rightarrow> nat \<Rightarrow> nat" where
  "dim_bnd (FixedDim s) j = j * s"
| "dim_bnd (VaryingDim os) j = sum_list (take j (map os_size os))"

fun wf_dim :: "u64 \<Rightarrow> u64 \<Rightarrow> grid_dimension \<Rightarrow> bool" where
  "wf_dim a n (FixedDim s) \<longleftrightarrow> 0 < s \<and> a + s \<le> M64 \<and> n = div_ceil a s"
| "wf_dim a n (VaryingDim os) \<longleftrightarrow> os \<noteq> [] \<and> os = scan_offsets 0 (map os_size os) \<and>
     0 \<notin> set (map os_size os) \<and> sum_list (map os_size os) < M64 \<and>
     a \<le> sum_list (map os_size os) \<and> n = length os"

lemma length_scan_offsets [simp]: "length (scan_offsets off ss) = length ss"
  by (induction ss arbitrary: off) simp_all

lemma map_size_scan_offsets [simp]: "map os_size (scan_offsets off ss) = ss"
  by (induction ss arbitrary: off) simp_all

lemma scan_offsets_nth:
  "off + sum_list ss < M64 \<Longrightarrow> j < length ss \<Longrightarrow>
     scan_offsets off ss ! j = \<lparr>os_offset = off + sum_list (take j ss), os_size = ss ! j\<rparr>"
proof (induction ss arbitrary: off j)
  case (Cons s ss)
  then show ?case by (cases j) (simp_all add: wadd_eq add.assoc)
qed simp

lemma varying_nth:
  assumes "wf_dim a n (VaryingDim os)" and "j < length os"
  shows "os_offset (os ! j) = dim_bnd (VaryingDim os) j"
    and "dim_bnd (VaryingDim os) (Suc j) = dim_bnd (VaryingDim os) j + os_size (os ! j)"
    and "0 < os_size (os ! j)"
proof -
  have "os ! j = \<lparr>os_offset = sum_list (take j (map os_size os)), os_size = map os_size os ! j\<rparr>"
    using scan_offsets_nth[of 0 "map os_size os" j] assms by simp
  then show "os_offset (os ! j) = dim_bnd (VaryingDim os) j" by (simp add: take_map)
  show "dim_bnd (VaryingDim os) (Suc j) = dim_bnd (VaryingDim os) j + os_size (os ! j)"
    using assms(2) by (simp add: take_Suc_conv_app_nth take_map)
  show "0 < os_size (os ! j)" using assms by (metis gr0I image_eqI nth_mem set_map wf_dim.simps(2))
qed

lemma varying_end:
  assumes "wf_dim a n (VaryingDim os)"
  shows "last_opt os = Some (last os)" and "os_end (last os) = sum_list (map os_size os)"
proof -
  have ne: "os \<noteq> []" and fits: "sum_list (map os_size os) < M64" using assms by auto
  show "last_opt os = Some (last os)" using ne by (simp add: last_opt_def)
  have l: "length os - 1 < length os" using ne by simp
  have "dim_bnd (VaryingDim os) (length os) =
      os_offset (os ! (length os - 1)) + os_size (os ! (length os - 1))"
    using varying_nth[OF assms l] ne by simp
  then show "os_end (last os) = sum_list (map os_size os)"
    using fits ne by (simp add: os_end_def last_conv_nth wadd_eq)
qed

lemma dim_bnd_laws:
  assumes "wf_dim a n d"
  shows "dim_bnd d 0 = 0" and "j < n \<Longrightarrow> dim_bnd d j < dim_bnd d (Suc j)"
    and "a \<le> dim_bnd d n" and "dim_bnd d n < M64" and "n < M64"
proof -
  show "dim_bnd d 0 = 0" by (cases d) simp_all
  show step: "dim_bnd d j < dim_bnd d (Suc j)" if "j < n" for j
    using assms that varying_nth(2,3)[of a n _ j] by (cases d) (simp, fastforce)
  show "a \<le> dim_bnd d n" using assms by (cases d) (simp_all add: div_ceil_bounds)
  show fits: "dim_bnd d n < M64"
    using assms by (cases d) (auto intro: less_le_trans[OF div_ceil_bounds(2)])
  have "j \<le> dim_bnd d j" if "j \<le> n" for j
    using that
  proof (induction j)
    case (Suc j)
    then show ?case using step[of j] by simp
  qed simp
  from le_less_trans[OF this[OF order_refl] fits] show "n < M64" .
qed

lemma dim_bnd_mono:
  assumes "wf_dim a n d" and "j \<le> j'" and "j' \<le> n"
  shows "dim_bnd d j \<le> dim_bnd d j'"
  using assms(2,3)
proof (induction j' rule: dec_induct)
  case (step m)
  then show ?case using dim_bnd_laws(2)[OF assms(1), of m] by simp
qed simp

lemma dim_chunk_ok:
  assumes "wf_dim a n d" and "j < n"
  shows "dim_chunk_shape j d = Some (dim_bnd d (Suc j) - dim_bnd d j)"
    and "dim_chunk_origin j d = Some (dim_bnd d j)"
proof -
  have "dim_bnd d j < M64"
    using dim_bnd_mono[OF assms(1), of j n] dim_bnd_laws(4)[OF assms(1)] assms(2) by simp
  then show "dim_chunk_shape j d = Some (dim_bnd d (Suc j) - dim_bnd d j)"
    "dim_chunk_origin j d = Some (dim_bnd d j)"
    using assms varying_nth[of a n _ j] by (cases d; fastforce simp: wmul_eq)+
qed

lemma partition_point_offsets:
  assumes wf: "wf_dim a n (VaryingDim os)" and "j < n"
    and "dim_bnd (VaryingDim os) j \<le> i" and "i < dim_bnd (VaryingDim os) (Suc j)"
  shows "partition_point (\<lambda>x. os_offset x \<le> i) os = Suc j"
proof -
  have n: "n = length os" using wf by simp
  have "takeWhile (\<lambda>x. os_offset x \<le> i) os = take (Suc j) os"
  proof (rule takeWhile_eq_take_P_nth)
    fix m assume m: "m < Suc j" "m < length os"
    show "os_offset (os ! m) \<le> i"
      using varying_nth(1)[OF wf m(2)] dim_bnd_mono[OF wf, of m j] assms(2,3) m by simp
  next
    assume "Suc j < length os"
    then show "\<not> os_offset (os ! Suc j) \<le> i" using varying_nth(1)[OF wf] assms(4) by simp
  qed
  then show ?thesis using assms(2) n by (simp add: partition_point_def)
qed

lemma dim_index_ok:
  assumes wf: "wf_dim a n d" and "i < a"
  shows "\<exists>j < n. dim_bnd d j \<le> i \<and> i < dim_bnd d (Suc j) \<and> rectangular_dim_index i d = Some j \<and>
     rectilinear_dim_index i d = Some j \<and> rectilinear_dim_element i d = Some (i - dim_bnd d j)"
proof -
  have lt: "i < dim_bnd d n" using dim_bnd_laws(3)[OF wf] assms(2) by simp
  have n: "0 < n" using lt dim_bnd_laws(1)[OF wf] by (cases n) auto
  have iM: "i < M64" using lt dim_bnd_laws(4)[OF wf] by simp
  obtain j where j: "j < n" "dim_bnd d j \<le> i" "i < dim_bnd d (Suc j)"
    using ex_boundary_between[of 0 n "dim_bnd d" i] n lt dim_bnd_laws(1)[OF wf] by auto
  show ?thesis
  proof (cases d)
    case (FixedDim s)
    have "i div s = j" using j FixedDim by (simp add: div_nat_eqI mult.commute)
    moreover have "j * s < M64" using j(2) iM FixedDim by simp
    ultimately show ?thesis
      using j iM FixedDim by (intro exI[of _ j]) (auto simp: wmul_eq wsub_eq)
  next
    case (VaryingDim os)
    note wfv = wf[unfolded VaryingDim]
    have p: "partition_point (\<lambda>x. os_offset x \<le> i) os = Suc j"
      using partition_point_offsets[OF wfv j(1)] j VaryingDim by simp
    have l: "i < os_end (last os)"
      using lt varying_end(2)[OF wfv] wfv VaryingDim by simp
    have jl: "j < length os" using j(1) wfv by simp
    have "os_offset (os ! j) = dim_bnd d j" using varying_nth(1)[OF wfv jl] VaryingDim by simp
    then show ?thesis
      using p l j jl iM varying_end(1)[OF wfv] VaryingDim
      by (intro exI[of _ j]) (simp add: Let_def wsub_eq)
  qed
qed

lemma dim_inbounds_ok: "wf_dim a n d \<Longrightarrow> dim_index_inbounds i a d \<longleftrightarrow> i < a"
  using varying_end by (cases d) (auto simp: less_le_trans)

subsection \<open>The contract for both grids\<close>

definition wf_dims :: "array_shape \<Rightarrow> array_shape \<Rightarrow> grid_dimension list \<Rightarrow> bool" where
  "wf_dims a n ds \<longleftrightarrow> length a = length ds \<and> length n = length ds \<and>
     (\<forall>k < length ds. wf_dim (a ! k) (n ! k) (ds ! k))"

lemma dim_bnd_fits:
  assumes "wf_dim a n d" and "j < n"
  shows "dim_bnd d (Suc j) < M64" and "dim_bnd d j + (dim_bnd d (Suc j) - dim_bnd d j) < M64"
  using dim_bnd_mono[OF assms(1), of "Suc j" n] dim_bnd_laws(4)[OF assms(1)]
    dim_bnd_laws(2)[OF assms] assms(2) by simp_all

lemma dim_edges:
  assumes "wf_dim a n d"
  shows "(case d of FixedDim s \<Rightarrow> replicate n s | VaryingDim os \<Rightarrow> map os_size os) =
     map (\<lambda>j. dim_bnd d (Suc j) - dim_bnd d j) [0..<n]"
proof (cases d)
  case (FixedDim s)
  then show ?thesis by (simp add: list_eq_iff_nth_eq)
next
  case (VaryingDim os)
  then have n: "n = length os" using assms by simp
  have "dim_bnd d (Suc j) - dim_bnd d j = os_size (os ! j)" if "j < length os" for j
    using varying_nth(2)[OF assms[unfolded VaryingDim] that] VaryingDim by (simp del: dim_bnd.simps)
  then have "map os_size os = map (\<lambda>j. dim_bnd d (Suc j) - dim_bnd d j) [0..<length os]"
    by (intro nth_equalityI) simp_all
  then show ?thesis by (simp only: VaryingDim grid_dimension.case n)
qed

lemma collect_dims:
  assumes "length i = n" and "length ds = n" and "\<And>k. k < n \<Longrightarrow> f (i ! k) (ds ! k) = Some (h k)"
  shows "collect_opt (map (\<lambda>(i, d). f i d) (zip i ds)) = Some (map h [0..<n])"
  using assms by (simp add: map_zip_upt[where n = n] collect_opt_upt)

definition rectangular_bnd :: "rectangular_chunk_grid \<Rightarrow> nat \<Rightarrow> nat \<Rightarrow> nat" where
  "rectangular_bnd g k j = dim_bnd (rc_chunks g ! k) j"

definition wf_rectangular :: "rectangular_chunk_grid \<Rightarrow> bool" where
  "wf_rectangular g \<longleftrightarrow> wf_dims (rc_array_shape g) (rc_grid_shape g) (rc_chunks g)"

lemma rectangular_grid_sel [simp]:
  "cg_dimensionality (rectangular_grid g) = rectangular_dimensionality g"
  "cg_array_shape (rectangular_grid g) = rc_array_shape g"
  "cg_grid_shape (rectangular_grid g) = rc_grid_shape g"
  "cg_chunk_edge_lengths (rectangular_grid g) = rectangular_chunk_edge_lengths g"
  "cg_chunk_shape (rectangular_grid g) = rectangular_chunk_shape g"
  "cg_chunk_shape_u64 (rectangular_grid g) = rectangular_chunk_shape_u64 g"
  "cg_chunk_origin (rectangular_grid g) = rectangular_chunk_origin g"
  "cg_chunk_indices (rectangular_grid g) = rectangular_chunk_indices g"
  "cg_chunk_element_indices (rectangular_grid g) = rectangular_chunk_element_indices g"
  "cg_subset (rectangular_grid g) = default_subset (rectangular_chunk_origin g) (rectangular_chunk_shape g)"
  "cg_array_indices_inbounds (rectangular_grid g) = rectangular_array_indices_inbounds g"
  by (simp_all add: rectangular_grid_def)

lemmas rectangular_queries = rectangular_chunk_origin_def rectangular_chunk_shape_def rectangular_chunk_shape_u64_def
  rectangular_chunk_indices_def

lemma wf_rectangularD:
  assumes "wf_rectangular g"
  shows "length (rc_array_shape g) = rectangular_dimensionality g" "length (rc_grid_shape g) = rectangular_dimensionality g"
    "length (rc_chunks g) = rectangular_dimensionality g"
    "k < rectangular_dimensionality g \<Longrightarrow> wf_dim (rc_array_shape g ! k) (rc_grid_shape g ! k) (rc_chunks g ! k)"
  using assms by (simp_all add: wf_rectangular_def wf_dims_def rectangular_dimensionality_def)

lemma rectangular_chunk_ok:
  assumes "wf_rectangular g" and "0 \<notin> set (rc_array_shape g)" and "inb c (rc_grid_shape g)"
  shows "rectangular_chunk_origin g c = Inr (Some (map (\<lambda>k. rectangular_bnd g k (c ! k)) [0..<rectangular_dimensionality g]))"
    and "rectangular_chunk_shape g c =
      Inr (Some (map (\<lambda>k. rectangular_bnd g k (Suc (c ! k)) - rectangular_bnd g k (c ! k)) [0..<rectangular_dimensionality g]))"
proof -
  note D = wf_rectangularD[OF assms(1)]
  have c: "length c = rectangular_dimensionality g" "\<And>k. k < rectangular_dimensionality g \<Longrightarrow> c ! k < rc_grid_shape g ! k"
    using assms(3) D(1-3) by (simp_all add: inb_nth)
  note ok = dim_chunk_ok[OF D(4) c(2)]
  show "rectangular_chunk_origin g c = Inr (Some (map (\<lambda>k. rectangular_bnd g k (c ! k)) [0..<rectangular_dimensionality g]))"
    using assms(2) c(1) ok
    by (simp add: rectangular_queries rectangular_bnd_def collect_dims[OF c(1) D(3)])
  show "rectangular_chunk_shape g c =
      Inr (Some (map (\<lambda>k. rectangular_bnd g k (Suc (c ! k)) - rectangular_bnd g k (c ! k)) [0..<rectangular_dimensionality g]))"
    using assms(2) c(1) ok
    by (simp add: rectangular_queries rectangular_bnd_def collect_dims[OF c(1) D(3)])
qed

lemma rectangular_index_ok:
  assumes "wf_rectangular g" and "inb i (rc_array_shape g)"
  shows "\<exists>c. rectangular_chunk_indices g i = Inr (Some c) \<and> inb c (rc_grid_shape g) \<and>
     (\<forall>k < rectangular_dimensionality g. rectangular_bnd g k (c ! k) \<le> i ! k \<and> i ! k < rectangular_bnd g k (Suc (c ! k))) \<and>
     rectangular_chunk_element_indices g i =
       Inr (Some (map (\<lambda>k. i ! k - rectangular_bnd g k (c ! k)) [0..<rectangular_dimensionality g]))"
proof -
  note D = wf_rectangularD[OF assms(1)]
  have i: "length i = rectangular_dimensionality g" "\<And>k. k < rectangular_dimensionality g \<Longrightarrow> i ! k < rc_array_shape g ! k"
    using assms(2) D(1-3) by (simp_all add: inb_nth)
  obtain f where f: "\<And>k. k < rectangular_dimensionality g \<Longrightarrow> f k < rc_grid_shape g ! k \<and>
      dim_bnd (rc_chunks g ! k) (f k) \<le> i ! k \<and> i ! k < dim_bnd (rc_chunks g ! k) (Suc (f k)) \<and>
      rectangular_dim_index (i ! k) (rc_chunks g ! k) = Some (f k) \<and>
      rectilinear_dim_index (i ! k) (rc_chunks g ! k) = Some (f k) \<and>
      rectilinear_dim_element (i ! k) (rc_chunks g ! k) = Some (i ! k - dim_bnd (rc_chunks g ! k) (f k))"
    using dim_index_ok[OF D(4) i(2)] by metis
  let ?c = "map f [0..<rectangular_dimensionality g]"
  have nz: "0 \<notin> set (rc_array_shape g)" using assms(2) by (rule inb_pos)
  have ind: "rectangular_chunk_indices g i = Inr (Some ?c)"
    using nz i(1) f by (simp add: rectangular_queries collect_dims[OF i(1) D(3)])
  have inb: "inb ?c (rc_grid_shape g)" using f D(2) by (simp add: inb_nth)
  have "rectangular_chunk_origin g ?c =
      Inr (Some (map (\<lambda>k. rectangular_bnd g k (?c ! k)) [0..<rectangular_dimensionality g]))"
    by (rule rectangular_chunk_ok[OF assms(1) nz inb])
  moreover have "wsub (i ! k) (rectangular_bnd g k (f k)) = i ! k - rectangular_bnd g k (f k)"
    if "k < rectangular_dimensionality g" for k
  proof -
    have "dim_bnd (rc_chunks g ! k) (Suc (f k)) < M64"
      using dim_bnd_fits[OF D(4)[OF that]] f[OF that] by simp
    then show ?thesis using f[OF that] by (intro wsub_eq) (simp_all add: rectangular_bnd_def)
  qed
  ultimately have elem: "rectangular_chunk_element_indices g i =
      Inr (Some (map (\<lambda>k. i ! k - rectangular_bnd g k (?c ! k)) [0..<rectangular_dimensionality g]))"
    using i(1) by (simp add: rectangular_chunk_element_indices_def ind
        map_zip_upt[where n = "rectangular_dimensionality g"])
  show ?thesis using ind inb f elem by (intro exI[of _ ?c]) (simp add: rectangular_bnd_def)
qed

interpretation rectangular: chunk_grid_family wf_rectangular rectangular_grid rectangular_bnd
proof (unfold_locales, goal_cases)
  case (1 g)
  then show ?case by (simp add: wf_rectangularD)
next
  case (2 g k)
  then show ?case using dim_bnd_laws(1)[OF wf_rectangularD(4)] by (simp add: rectangular_bnd_def)
next
  case (3 g k j)
  then show ?case using dim_bnd_laws(2)[OF wf_rectangularD(4)] by (simp add: rectangular_bnd_def)
next
  case (4 g k)
  then show ?case using dim_bnd_laws(3)[OF wf_rectangularD(4)] by (simp add: rectangular_bnd_def)
next
  case (5 g k)
  then show ?case using dim_bnd_laws(4)[OF wf_rectangularD(4)] by (simp add: rectangular_bnd_def)
next
  case (6 g k)
  then show ?case using dim_bnd_laws(5)[OF wf_rectangularD(4)] by simp
next
  case (7 g c)
  then show ?case by (simp add: rectangular_chunk_ok)
next
  case (8 g c)
  then show ?case by (simp add: rectangular_chunk_ok)
next
  case (9 g c)
  then show ?case by (simp add: rectangular_queries)
next
  case (10 g c)
  have c: "c ! k < rc_grid_shape g ! k" if "k < rectangular_dimensionality g" for k
    using 10 that wf_rectangularD(2)[of g] by (simp add: inb_nth)
  have fit: "rectangular_bnd g k (c ! k) + (rectangular_bnd g k (Suc (c ! k)) - rectangular_bnd g k (c ! k)) < M64"
    if "k < rectangular_dimensionality g" for k
    using dim_bnd_fits[OF wf_rectangularD(4)[OF 10(1) that] c[OF that]] by (simp add: rectangular_bnd_def)
  show ?case
    unfolding rectangular_grid_sel
    by (rule default_subset_upt[OF _ _ fit]) (use 10 in \<open>simp_all add: rectangular_chunk_ok\<close>)
next
  case (11 g i)
  then show ?case using rectangular_index_ok[of g i] by auto
next
  case (12 g i c)
  then show ?case using rectangular_index_ok[of g i] by auto
next
  case (13 g k)
  then have "k < rectangular_dimensionality g" by simp
  with dim_edges[OF wf_rectangularD(4)[OF 13(1) this]] 13 show ?case
    by (cases "rc_chunks g ! k") (simp_all add: rectangular_chunk_edge_lengths_def rectangular_bnd_def del: dim_bnd.simps)
next
  case (14 g i)
  note D = wf_rectangularD[OF 14]
  show ?case
    using dim_inbounds_ok[OF D(4)] D(1-3)
    by (auto simp: rectangular_array_indices_inbounds_def inb_nth list_all_length)
next
  case (15 g i)
  then show ?case by (simp add: rectangular_queries)
qed

definition rectilinear_bnd :: "rectilinear_chunk_grid \<Rightarrow> nat \<Rightarrow> nat \<Rightarrow> nat" where
  "rectilinear_bnd g k j = dim_bnd (rl_chunks g ! k) j"

definition wf_rectilinear :: "rectilinear_chunk_grid \<Rightarrow> bool" where
  "wf_rectilinear g \<longleftrightarrow> wf_dims (rl_array_shape g) (rl_grid_shape g) (rl_chunks g)"

lemma rectilinear_grid_sel [simp]:
  "cg_dimensionality (rectilinear_grid g) = rectilinear_dimensionality g"
  "cg_array_shape (rectilinear_grid g) = rl_array_shape g"
  "cg_grid_shape (rectilinear_grid g) = rl_grid_shape g"
  "cg_chunk_edge_lengths (rectilinear_grid g) = rectilinear_chunk_edge_lengths g"
  "cg_chunk_shape (rectilinear_grid g) = rectilinear_chunk_shape g"
  "cg_chunk_shape_u64 (rectilinear_grid g) = rectilinear_chunk_shape_u64 g"
  "cg_chunk_origin (rectilinear_grid g) = rectilinear_chunk_origin g"
  "cg_chunk_indices (rectilinear_grid g) = rectilinear_chunk_indices g"
  "cg_chunk_element_indices (rectilinear_grid g) = rectilinear_chunk_element_indices g"
  "cg_subset (rectilinear_grid g) = default_subset (rectilinear_chunk_origin g) (rectilinear_chunk_shape g)"
  "cg_array_indices_inbounds (rectilinear_grid g) = rectilinear_array_indices_inbounds g"
  by (simp_all add: rectilinear_grid_def)

lemmas rectilinear_queries = rectilinear_chunk_origin_def rectilinear_chunk_shape_def rectilinear_chunk_shape_u64_def
  rectilinear_chunk_indices_def rectilinear_chunk_element_indices_def rectilinear_query_def

lemma wf_rectilinearD:
  assumes "wf_rectilinear g"
  shows "length (rl_array_shape g) = rectilinear_dimensionality g" "length (rl_grid_shape g) = rectilinear_dimensionality g"
    "length (rl_chunks g) = rectilinear_dimensionality g"
    "k < rectilinear_dimensionality g \<Longrightarrow> wf_dim (rl_array_shape g ! k) (rl_grid_shape g ! k) (rl_chunks g ! k)"
  using assms by (simp_all add: wf_rectilinear_def wf_dims_def rectilinear_dimensionality_def)

lemma rectilinear_chunk_ok:
  assumes "wf_rectilinear g" and "0 \<notin> set (rl_array_shape g)" and "inb c (rl_grid_shape g)"
  shows "rectilinear_chunk_origin g c = Inr (Some (map (\<lambda>k. rectilinear_bnd g k (c ! k)) [0..<rectilinear_dimensionality g]))"
    and "rectilinear_chunk_shape g c =
      Inr (Some (map (\<lambda>k. rectilinear_bnd g k (Suc (c ! k)) - rectilinear_bnd g k (c ! k)) [0..<rectilinear_dimensionality g]))"
proof -
  note D = wf_rectilinearD[OF assms(1)]
  have c: "length c = rectilinear_dimensionality g" "\<And>k. k < rectilinear_dimensionality g \<Longrightarrow> c ! k < rl_grid_shape g ! k"
    using assms(3) D(1-3) by (simp_all add: inb_nth)
  note ok = dim_chunk_ok[OF D(4) c(2)]
  show "rectilinear_chunk_origin g c = Inr (Some (map (\<lambda>k. rectilinear_bnd g k (c ! k)) [0..<rectilinear_dimensionality g]))"
    using assms(2) c(1) ok
    by (simp add: rectilinear_queries rectilinear_bnd_def collect_dims[OF c(1) D(3)])
  show "rectilinear_chunk_shape g c =
      Inr (Some (map (\<lambda>k. rectilinear_bnd g k (Suc (c ! k)) - rectilinear_bnd g k (c ! k)) [0..<rectilinear_dimensionality g]))"
    using assms(2) c(1) ok
    by (simp add: rectilinear_queries rectilinear_bnd_def collect_dims[OF c(1) D(3)])
qed

lemma rectilinear_index_ok:
  assumes "wf_rectilinear g" and "inb i (rl_array_shape g)"
  shows "\<exists>c. rectilinear_chunk_indices g i = Inr (Some c) \<and> inb c (rl_grid_shape g) \<and>
     (\<forall>k < rectilinear_dimensionality g. rectilinear_bnd g k (c ! k) \<le> i ! k \<and> i ! k < rectilinear_bnd g k (Suc (c ! k))) \<and>
     rectilinear_chunk_element_indices g i =
       Inr (Some (map (\<lambda>k. i ! k - rectilinear_bnd g k (c ! k)) [0..<rectilinear_dimensionality g]))"
proof -
  note D = wf_rectilinearD[OF assms(1)]
  have i: "length i = rectilinear_dimensionality g" "\<And>k. k < rectilinear_dimensionality g \<Longrightarrow> i ! k < rl_array_shape g ! k"
    using assms(2) D(1-3) by (simp_all add: inb_nth)
  obtain f where f: "\<And>k. k < rectilinear_dimensionality g \<Longrightarrow> f k < rl_grid_shape g ! k \<and>
      dim_bnd (rl_chunks g ! k) (f k) \<le> i ! k \<and> i ! k < dim_bnd (rl_chunks g ! k) (Suc (f k)) \<and>
      rectangular_dim_index (i ! k) (rl_chunks g ! k) = Some (f k) \<and>
      rectilinear_dim_index (i ! k) (rl_chunks g ! k) = Some (f k) \<and>
      rectilinear_dim_element (i ! k) (rl_chunks g ! k) = Some (i ! k - dim_bnd (rl_chunks g ! k) (f k))"
    using dim_index_ok[OF D(4) i(2)] by metis
  let ?c = "map f [0..<rectilinear_dimensionality g]"
  have nz: "0 \<notin> set (rl_array_shape g)" using assms(2) by (rule inb_pos)
  have ind: "rectilinear_chunk_indices g i = Inr (Some ?c)"
    using nz i(1) f by (simp add: rectilinear_queries collect_dims[OF i(1) D(3)])
  have inb: "inb ?c (rl_grid_shape g)" using f D(2) by (simp add: inb_nth)
  have elem: "rectilinear_chunk_element_indices g i =
      Inr (Some (map (\<lambda>k. i ! k - rectilinear_bnd g k (?c ! k)) [0..<rectilinear_dimensionality g]))"
    using nz i(1) f by (simp add: rectilinear_queries rectilinear_bnd_def collect_dims[OF i(1) D(3)])
  show ?thesis using ind inb f elem by (intro exI[of _ ?c]) (simp add: rectilinear_bnd_def)
qed

interpretation rectilinear: chunk_grid_family wf_rectilinear rectilinear_grid rectilinear_bnd
proof (unfold_locales, goal_cases)
  case (1 g)
  then show ?case by (simp add: wf_rectilinearD)
next
  case (2 g k)
  then show ?case using dim_bnd_laws(1)[OF wf_rectilinearD(4)] by (simp add: rectilinear_bnd_def)
next
  case (3 g k j)
  then show ?case using dim_bnd_laws(2)[OF wf_rectilinearD(4)] by (simp add: rectilinear_bnd_def)
next
  case (4 g k)
  then show ?case using dim_bnd_laws(3)[OF wf_rectilinearD(4)] by (simp add: rectilinear_bnd_def)
next
  case (5 g k)
  then show ?case using dim_bnd_laws(4)[OF wf_rectilinearD(4)] by (simp add: rectilinear_bnd_def)
next
  case (6 g k)
  then show ?case using dim_bnd_laws(5)[OF wf_rectilinearD(4)] by simp
next
  case (7 g c)
  then show ?case by (simp add: rectilinear_chunk_ok)
next
  case (8 g c)
  then show ?case by (simp add: rectilinear_chunk_ok)
next
  case (9 g c)
  then show ?case by (simp add: rectilinear_queries)
next
  case (10 g c)
  have c: "c ! k < rl_grid_shape g ! k" if "k < rectilinear_dimensionality g" for k
    using 10 that wf_rectilinearD(2)[of g] by (simp add: inb_nth)
  have fit: "rectilinear_bnd g k (c ! k) + (rectilinear_bnd g k (Suc (c ! k)) - rectilinear_bnd g k (c ! k)) < M64"
    if "k < rectilinear_dimensionality g" for k
    using dim_bnd_fits[OF wf_rectilinearD(4)[OF 10(1) that] c[OF that]] by (simp add: rectilinear_bnd_def)
  show ?case
    unfolding rectilinear_grid_sel
    by (rule default_subset_upt[OF _ _ fit]) (use 10 in \<open>simp_all add: rectilinear_chunk_ok\<close>)
next
  case (11 g i)
  then show ?case using rectilinear_index_ok[of g i] by auto
next
  case (12 g i c)
  then show ?case using rectilinear_index_ok[of g i] by auto
next
  case (13 g k)
  then have "k < rectilinear_dimensionality g" by simp
  with dim_edges[OF wf_rectilinearD(4)[OF 13(1) this]] 13 show ?case
    by (cases "rl_chunks g ! k") (simp_all add: rectilinear_chunk_edge_lengths_def rectilinear_bnd_def del: dim_bnd.simps)
next
  case (14 g i)
  note D = wf_rectilinearD[OF 14]
  show ?case
    using dim_inbounds_ok[OF D(4)] D(1-3)
    by (auto simp: rectilinear_array_indices_inbounds_def inb_nth list_all_length)
next
  case (15 g i)
  then show ?case by (simp add: rectilinear_queries)
qed

subsection \<open>Run-length round trip\<close>

lemma rle_decode_append [simp]: "rle_decode (xs @ ys) = rle_decode xs @ rle_decode ys"
  by (induction xs rule: rle_decode.induct) simp_all

lemma push_run_length_ok:
  "0 < count \<Longrightarrow> \<exists>es. push_run_length result value count = Some es \<and>
     rle_decode es = rle_decode result @ replicate count value"
  by (auto simp: push_run_length_def)

lemma compress_loop_ok:
  "count + length sizes < M64 \<Longrightarrow> 0 < count \<or> (\<exists>rest. sizes = current # rest) \<Longrightarrow>
     \<exists>es. compress_loop sizes result current count = Some es \<and>
       rle_decode es = rle_decode result @ replicate count current @ sizes"
proof (induction sizes arbitrary: result current count)
  case Nil
  then show ?case using push_run_length_ok by auto
next
  case (Cons sz sizes)
  show ?case
  proof (cases "sz = current")
    case True
    then have "wadd count 1 = Suc count" using Cons.prems(1) by (simp add: wadd_eq)
    with True Cons.IH[of "Suc count" current result] Cons.prems(1) show ?thesis
      by (auto simp: replicate_app_Cons_same)
  next
    case False
    then have "0 < count" using Cons.prems(2) by auto
    then obtain r where r: "push_run_length result current count = Some r"
      "rle_decode r = rle_decode result @ replicate count current"
      using push_run_length_ok by blast
    with False Cons.IH[of 1 sz r] Cons.prems(1) \<open>0 < count\<close> show ?thesis by auto
  qed
qed

lemma compress_run_length_ok:
  assumes "length sizes < M64"
  shows "\<exists>es. compress_run_length sizes = Some es \<and> rle_decode es = sizes"
proof (cases sizes)
  case (Cons sz rest)
  then show ?thesis using compress_loop_ok[of 0 sizes sz "[]"] assms by auto
qed simp

text \<open>
  \<open>ChunkEdgeLengths::encode\<close> never panics, and what it returns stands for the encoded
  edge lengths: a scalar only when all edges equal it, otherwise run-length elements that
  \<open>decode\<close> expands to the edges.
\<close>

theorem edge_lengths_roundtrip:
  assumes "length edges < M64"
  shows "\<exists>e. rle_encode edges = Some e \<and>
     (case e of EdgeScalar v \<Rightarrow> edges \<noteq> [] \<and> edges = replicate (length edges) v
              | EdgeVarying es \<Rightarrow> rle_decode es = edges)"
proof (cases edges)
  case (Cons first rest)
  show ?thesis
  proof (cases "list_all (\<lambda>e. e = first) edges")
    case True
    then have "edges = replicate (length edges) first"
      by (simp add: list_all_iff replicate_length_same)
    then show ?thesis using True Cons by auto
  next
    case False
    then show ?thesis using compress_run_length_ok[OF assms] Cons by auto
  qed
qed simp

theorem edge_lengths_roundtrip_witness:
  "rle_encode [5, 5, 15, 15, 20] = Some (EdgeVarying [Repeated 5 2, Repeated 15 2, Single 20]) \<and>
   rle_decode [Repeated 5 2, Repeated 15 2, Single 20] = [5, 5, 15, 15, 20]"
proof -
  have enc: "rle_encode [5, 5, 15, 15, 20] = Some (EdgeVarying [Repeated 5 2, Repeated 15 2, Single 20])"
    by (simp add: push_run_length_def wadd_def M64_def)
  have "length [5, 5, 15, 15, 20::nat] < M64" by (simp add: M64_def)
  from edge_lengths_roundtrip[OF this] enc show ?thesis by (simp del: rle_encode.simps rle_decode.simps)
qed

subsection \<open>The properties of the grids\<close>

text \<open>
  What a configuration must satisfy: edges are non-zero and the extents are \<open>u64\<close> values.  A varying
  dimension of the rectangular grid must be non-empty; \<open>RectilinearChunkGrid::new\<close> checks that itself.
\<close>

fun rectangular_config_ok :: "u64 \<Rightarrow> rectangular_dim_config \<Rightarrow> bool" where
  "rectangular_config_ok a (ConfigFixed s) \<longleftrightarrow> 0 < s \<and> a + s \<le> M64"
| "rectangular_config_ok a (ConfigVarying ss) \<longleftrightarrow> ss \<noteq> [] \<and> 0 \<notin> set ss \<and> sum_list ss < M64"

fun edge_lengths_ok :: "u64 \<Rightarrow> chunk_edge_lengths \<Rightarrow> bool" where
  "edge_lengths_ok a (EdgeScalar s) \<longleftrightarrow> 0 < s \<and> a + s \<le> M64"
| "edge_lengths_ok a (EdgeVarying es) \<longleftrightarrow> 0 \<notin> set (rle_decode es) \<and> sum_list (rle_decode es) < M64"

lemma scan_offsets_ne [simp]: "scan_offsets off ss = [] \<longleftrightarrow> ss = []"
  by (cases ss) simp_all

lemma scan_offsets_wf:
  assumes "ss \<noteq> []" and "0 \<notin> set ss" and "sum_list ss < M64"
  shows "a \<le> sum_list ss \<Longrightarrow> wf_dim a (length ss) (VaryingDim (scan_offsets 0 ss))"
    and "os_end (last (scan_offsets 0 ss)) = sum_list ss"
proof -
  have wf: "wf_dim a (length ss) (VaryingDim (scan_offsets 0 ss))" if "a \<le> sum_list ss" for a
    using assms that by simp
  then show "a \<le> sum_list ss \<Longrightarrow> wf_dim a (length ss) (VaryingDim (scan_offsets 0 ss))" .
  show "os_end (last (scan_offsets 0 ss)) = sum_list ss"
    using varying_end(2)[OF wf[of 0]] by simp
qed

lemma rectangular_grid_size_wf:
  assumes "rectangular_config_ok a cfg" and "rectangular_grid_size a (rectangular_dimension cfg) = Some n"
  shows "wf_dim a n (rectangular_dimension cfg)"
proof (cases cfg)
  case (ConfigVarying ss)
  have "a = sum_list ss \<and> n = length ss"
    using assms ConfigVarying scan_offsets_wf(2)[of ss] by (auto simp: last_opt_def split: if_splits)
  then show ?thesis using assms(1) ConfigVarying scan_offsets_wf(1)[of ss a] by (simp del: wf_dim.simps)
qed (use assms in simp)

lemma rectilinear_grid_size_wf:
  assumes "edge_lengths_ok a e" and "rectilinear_grid_size a (rectilinear_dimension e) = Some n"
  shows "wf_dim a n (rectilinear_dimension e)"
proof (cases e)
  case (EdgeScalar s)
  then show ?thesis using assms by (auto split: if_splits)
next
  case (EdgeVarying es)
  have ne: "rle_decode es \<noteq> []" using assms(2) EdgeVarying by (auto simp: last_opt_def)
  then have "a \<le> sum_list (rle_decode es) \<and> n = length (rle_decode es)"
    using assms EdgeVarying scan_offsets_wf(2)[of "rle_decode es"]
    by (auto simp: last_opt_def split: if_splits)
  then show ?thesis
    using assms(1) EdgeVarying ne scan_offsets_wf(1)[of "rle_decode es" a] by (simp del: wf_dim.simps)
qed

lemma collect_zip_nth:
  assumes "collect_opt (map (\<lambda>(x, y). f x y) (zip xs ys)) = Some zs" and "length xs = length ys"
  shows "length zs = length ys" and "k < length ys \<Longrightarrow> f (xs ! k) (ys ! k) = Some (zs ! k)"
proof -
  have eq: "map (\<lambda>(x, y). f x y) (zip xs ys) = map Some zs" using assms(1) by (simp add: collect_opt_Some_iff)
  from arg_cong[OF eq, of length] assms(2) show len: "length zs = length ys" by simp
  assume "k < length ys"
  with arg_cong[OF eq, of "\<lambda>l. l ! k"] assms(2) len show "f (xs ! k) (ys ! k) = Some (zs ! k)" by simp
qed

lemma rectangular_new_wf:
  assumes "rectangular_new a cfg = Inr g" and "list_all2 rectangular_config_ok a cfg"
  shows "wf_rectangular g" and "rectangular_configuration g = cfg"
proof -
  obtain n where len: "length a = length cfg"
    and n: "collect_opt (map (\<lambda>(x, d). rectangular_grid_size x d) (zip a (map rectangular_dimension cfg))) = Some n"
    and g: "g = \<lparr>rc_array_shape = a, rc_chunks = map rectangular_dimension cfg, rc_grid_shape = n\<rparr>"
    using assms(1) by (auto simp: rectangular_new_def Let_def split: if_splits option.splits)
  note nth = collect_zip_nth[OF n]
  show "wf_rectangular g"
    using assms(2) nth len
    by (auto simp: wf_rectangular_def wf_dims_def g list_all2_conv_all_nth intro!: rectangular_grid_size_wf)
  have "rectangular_dim_configuration (rectangular_dimension c) = c" for c
    by (cases c) simp_all
  then show "rectangular_configuration g = cfg" by (simp add: rectangular_configuration_def g map_idI)
qed

lemma rectilinear_new_wf:
  assumes "rectilinear_new a cfg = Inr g" and "list_all2 edge_lengths_ok a cfg"
  shows "wf_rectilinear g"
proof -
  obtain n where len: "length a = length cfg"
    and n: "collect_opt (map (\<lambda>(x, d). rectilinear_grid_size x d) (zip a (map rectilinear_dimension cfg))) = Some n"
    and g: "g = \<lparr>rl_array_shape = a, rl_chunks = map rectilinear_dimension cfg, rl_grid_shape = n\<rparr>"
    using assms(1) by (auto simp: rectilinear_new_def Let_def split: if_splits option.splits)
  note nth = collect_zip_nth[OF n]
  show ?thesis
    using assms(2) nth len
    by (auto simp: wf_rectilinear_def wf_dims_def g list_all2_conv_all_nth intro!: rectilinear_grid_size_wf)
qed



text \<open>
  Property C31.  A rectilinear grid that \<open>new\<close> accepts is lawful, whether a dimension is given by a
  scalar edge or by run-length encoded edges that reach beyond the array.
\<close>

theorem rectilinear_grid_partitions:
  assumes "list_all2 edge_lengths_ok a cfg" and "rectilinear_new a cfg = Inr g"
  shows "grid_lawful (rectilinear_grid g)"
  using rectilinear_new_wf[OF assms(2,1)] rectilinear.grid_is_lawful by blast

theorem rectilinear_grid_partitions_witness:
  "grid_lawful (rectilinear_grid \<lparr>rl_array_shape = [6],
      rl_chunks = [VaryingDim [\<lparr>os_offset = 0, os_size = 3\<rparr>, \<lparr>os_offset = 3, os_size = 3\<rparr>, \<lparr>os_offset = 6, os_size = 5\<rparr>]],
      rl_grid_shape = [3]\<rparr>)"
  by (rule rectilinear_grid_partitions[of "[6]" "[EdgeVarying [Repeated 3 2, Single 5]]"])
    (simp_all add: rectilinear_new_def last_opt_def os_end_def wadd_def M64_def replicate_two)

text \<open>
  The configuration of a rectilinear grid does not always recreate it: equal varying edges that reach
  beyond the array are written as a scalar, and the grid created from it has fewer chunks.
\<close>

lemma rectilinear_configuration_loses_chunks:
  "\<exists>g g' cfg. rectilinear_new [3] [EdgeVarying [Repeated 4 2]] = Inr g \<and>
     rectilinear_configuration g = Some cfg \<and> rectilinear_new [3] cfg = Inr g' \<and>
     rl_grid_shape g = [2] \<and> rl_grid_shape g' = [1]"
  by (simp add: rectilinear_new_def rectilinear_configuration_def last_opt_def os_end_def wadd_def M64_def
      replicate_two div_ceil_def)

end
