(* ===== verification/Repeat_Grid.thy ===== *)
theory Repeat_Grid
  imports Varying_Grids
begin

text \<open>
  The \<open>RepeatChunkGrid\<close> of \<open>zarrs/src/array/chunk_grid/repeat.rs\<close>: a tile, itself a chunk grid behind
  a trait object, repeated along every dimension.  A repeat grid over any inner grid that satisfies
  the contract \<open>chunk_grid_family\<close> satisfies it again.
\<close>

record repeat_chunk_grid =
  rp_shape :: array_shape
  rp_repeats :: array_shape
  rp_array_shape :: array_shape
  rp_grid_shape :: array_shape
  rp_inner :: chunk_grid

datatype repeat_create_error =
  RepeatIncompatibleDimensionality usize usize
| ZeroRepeat usize
| ShapeOverflow
| InnerChunkEdgeLengthsMismatch usize u64 u64 u64 u64
| RepeatIncompatibleDimension usize usize

fun position :: "('a \<Rightarrow> bool) \<Rightarrow> 'a list \<Rightarrow> usize option" where
  "position p [] = None"
| "position p (x # xs) = (if p x then Some 0 else map_option Suc (position p xs))"

fun checked_sum :: "u64 \<Rightarrow> u64 list \<Rightarrow> u64 option" where
  "checked_sum acc [] = Some acc"
| "checked_sum acc (x # xs) = Option.bind (checked_add acc x) (\<lambda>acc. checked_sum acc xs)"

text \<open>The body of the loop over the dimensions in \<open>new\<close>; \<open>None\<close> when the dimension passes.\<close>

definition repeat_check_dimension :: "array_shape \<Rightarrow> chunk_grid \<Rightarrow> usize \<Rightarrow> repeat_create_error option" where
  "repeat_check_dimension shp inner d =
     (case cg_chunk_edge_lengths inner d of
        Inl _ \<Rightarrow> Some (RepeatIncompatibleDimension d (length shp))
      | Inr edges \<Rightarrow>
          (case checked_sum 0 edges of
             None \<Rightarrow> Some ShapeOverflow
           | Some edge_sum \<Rightarrow>
               if length edges \<noteq> cg_grid_shape inner ! d \<or> edge_sum \<noteq> shp ! d
               then Some (InnerChunkEdgeLengthsMismatch d (length edges) edge_sum
                      (cg_grid_shape inner ! d) (shp ! d))
               else None))"

fun repeat_check_dimensions :: "array_shape \<Rightarrow> chunk_grid \<Rightarrow> usize list \<Rightarrow> repeat_create_error option" where
  "repeat_check_dimensions shp inner [] = None"
| "repeat_check_dimensions shp inner (d # ds) =
     (case repeat_check_dimension shp inner d of
        Some e \<Rightarrow> Some e
      | None \<Rightarrow> repeat_check_dimensions shp inner ds)"

definition repeat_new :: "array_shape \<Rightarrow> chunk_grid \<Rightarrow> repeat_create_error + repeat_chunk_grid" where
  "repeat_new repeats inner =
     (let shp = cg_array_shape inner in
      if cg_dimensionality inner \<noteq> length shp
      then Inl (RepeatIncompatibleDimensionality (cg_dimensionality inner) (length shp))
      else if length shp \<noteq> length repeats
      then Inl (RepeatIncompatibleDimensionality (length repeats) (length shp))
      else case position (\<lambda>r. r = 0) repeats of
        Some d \<Rightarrow> Inl (ZeroRepeat d)
      | None \<Rightarrow>
      case collect_opt (map (\<lambda>(x, r). checked_mul x r) (zip shp repeats)) of
        None \<Rightarrow> Inl ShapeOverflow
      | Some array_shape \<Rightarrow>
      case collect_opt (map (\<lambda>(x, r). checked_mul x r) (zip (cg_grid_shape inner) repeats)) of
        None \<Rightarrow> Inl ShapeOverflow
      | Some grid_shape \<Rightarrow>
      case repeat_check_dimensions shp inner [0..<length shp] of
        Some e \<Rightarrow> Inl e
      | None \<Rightarrow> Inr \<lparr>rp_shape = shp, rp_repeats = repeats, rp_array_shape = array_shape,
                      rp_grid_shape = grid_shape, rp_inner = inner\<rparr>)"

definition repeat_dimensionality :: "repeat_chunk_grid \<Rightarrow> usize" where
  "repeat_dimensionality g = length (rp_shape g)"

definition repeat_check_dimensionality :: "repeat_chunk_grid \<Rightarrow> usize \<Rightarrow> dimensionality_error + unit" where
  "repeat_check_dimensionality g d =
     (if d = repeat_dimensionality g then Inr ()
      else Inl (IncompatibleDimensionalityError d (repeat_dimensionality g)))"

definition has_zero_sized_dimension :: "repeat_chunk_grid \<Rightarrow> bool" where
  "has_zero_sized_dimension g \<longleftrightarrow> 0 \<in> set (rp_array_shape g)"

text \<open>The provided \<open>chunk_indices_inbounds\<close> at a repeat grid.\<close>

definition repeat_chunk_indices_inbounds :: "repeat_chunk_grid \<Rightarrow> u64 list \<Rightarrow> bool" where
  "repeat_chunk_indices_inbounds g c \<longleftrightarrow>
     length c = repeat_dimensionality g \<and> list_all (\<lambda>(index, n). index < n) (zip c (rp_grid_shape g))"

definition div_mod_split :: "u64 list \<Rightarrow> u64 list \<Rightarrow> (u64 list \<times> u64 list) option" where
  "div_mod_split is ns =
     map_option (\<lambda>ps. (map fst ps, map snd ps))
       (collect_opt (map (\<lambda>(i, n). if n = 0 then None else Some (i div n, i mod n)) (zip is ns)))"

definition repeat_inner_chunk_indices :: "repeat_chunk_grid \<Rightarrow> u64 list \<Rightarrow> (u64 list \<times> u64 list) option" where
  "repeat_inner_chunk_indices g c =
     (if has_zero_sized_dimension g \<or> \<not> repeat_chunk_indices_inbounds g c then None
      else div_mod_split c (cg_grid_shape (rp_inner g)))"

definition local_array_indices :: "repeat_chunk_grid \<Rightarrow> u64 list \<Rightarrow> (u64 list \<times> u64 list) option" where
  "local_array_indices g i =
     (if has_zero_sized_dimension g \<or>
         \<not> default_array_indices_inbounds (repeat_dimensionality g) (rp_array_shape g) i then None
      else div_mod_split i (rp_shape g))"

definition offset_origin :: "repeat_chunk_grid \<Rightarrow> u64 list \<Rightarrow> u64 list \<Rightarrow> u64 list" where
  "offset_origin g repeat_indices inner_origin =
     map (\<lambda>((r, s), o1). wadd (wmul r s) o1) (zip (zip repeat_indices (rp_shape g)) inner_origin)"

definition repeat_chunk_edge_lengths :: "repeat_chunk_grid \<Rightarrow> usize \<Rightarrow> dimension_error + u64 list" where
  "repeat_chunk_edge_lengths g d =
     (if repeat_dimensionality g \<le> d then Inl (IncompatibleDimensionError d (repeat_dimensionality g))
      else bind_res (cg_chunk_edge_lengths (rp_inner g) d) (\<lambda>inner.
        Inr (concat (replicate (rp_repeats g ! d) inner))))"

definition repeat_chunk_shape ::
    "repeat_chunk_grid \<Rightarrow> u64 list \<Rightarrow> dimensionality_error + chunk_shape option" where
  "repeat_chunk_shape g c =
     bind_res (repeat_check_dimensionality g (length c)) (\<lambda>_.
       case repeat_inner_chunk_indices g c of
         None \<Rightarrow> Inr None
       | Some (_, inner_chunk_indices) \<Rightarrow> cg_chunk_shape (rp_inner g) inner_chunk_indices)"

definition repeat_chunk_shape_u64 ::
    "repeat_chunk_grid \<Rightarrow> u64 list \<Rightarrow> dimensionality_error + array_shape option" where
  "repeat_chunk_shape_u64 g c =
     bind_res (repeat_check_dimensionality g (length c)) (\<lambda>_.
       case repeat_inner_chunk_indices g c of
         None \<Rightarrow> Inr None
       | Some (_, inner_chunk_indices) \<Rightarrow> cg_chunk_shape_u64 (rp_inner g) inner_chunk_indices)"

definition repeat_chunk_origin ::
    "repeat_chunk_grid \<Rightarrow> u64 list \<Rightarrow> dimensionality_error + array_indices option" where
  "repeat_chunk_origin g c =
     bind_res (repeat_check_dimensionality g (length c)) (\<lambda>_.
       case repeat_inner_chunk_indices g c of
         None \<Rightarrow> Inr None
       | Some (repeat_indices, inner_chunk_indices) \<Rightarrow>
           bind_res (cg_chunk_origin (rp_inner g) inner_chunk_indices) (\<lambda>inner_origin.
             Inr (map_option (offset_origin g repeat_indices) inner_origin)))"

definition repeat_chunk_indices ::
    "repeat_chunk_grid \<Rightarrow> u64 list \<Rightarrow> dimensionality_error + array_indices option" where
  "repeat_chunk_indices g i =
     bind_res (repeat_check_dimensionality g (length i)) (\<lambda>_.
       case local_array_indices g i of
         None \<Rightarrow> Inr None
       | Some (repeat_indices, local) \<Rightarrow>
           bind_res (cg_chunk_indices (rp_inner g) local) (\<lambda>inner.
             case inner of
               None \<Rightarrow> Inr None
             | Some c \<Rightarrow> Inr (Some (map (\<lambda>((r, ci), n). wadd (wmul r n) ci)
                 (zip (zip repeat_indices c) (cg_grid_shape (rp_inner g)))))))"

definition repeat_chunk_element_indices ::
    "repeat_chunk_grid \<Rightarrow> u64 list \<Rightarrow> dimensionality_error + array_indices option" where
  "repeat_chunk_element_indices g i =
     bind_res (repeat_check_dimensionality g (length i)) (\<lambda>_.
       case local_array_indices g i of
         None \<Rightarrow> Inr None
       | Some (_, local) \<Rightarrow> cg_chunk_element_indices (rp_inner g) local)"

definition repeat_grid :: "repeat_chunk_grid \<Rightarrow> chunk_grid" where
  "repeat_grid g =
     \<lparr>cg_dimensionality = repeat_dimensionality g,
      cg_array_shape = rp_array_shape g,
      cg_grid_shape = rp_grid_shape g,
      cg_chunk_edge_lengths = repeat_chunk_edge_lengths g,
      cg_chunk_shape = repeat_chunk_shape g,
      cg_chunk_shape_u64 = repeat_chunk_shape_u64 g,
      cg_chunk_origin = repeat_chunk_origin g,
      cg_chunk_indices = repeat_chunk_indices g,
      cg_chunk_element_indices = repeat_chunk_element_indices g,
      cg_subset = default_subset (repeat_chunk_origin g) (repeat_chunk_shape g),
      cg_array_indices_inbounds = default_array_indices_inbounds (repeat_dimensionality g) (rp_array_shape g)\<rparr>"

subsection \<open>The contract\<close>

text \<open>
  The boundaries \<open>off\<close> of the inner grid are a ghost component: \<open>wf_repeat (g, off)\<close> says that the
  inner grid satisfies the contract with them and that \<open>g\<close> is what \<open>new\<close> returns.
\<close>

type_synonym ghost_repeat_grid = "repeat_chunk_grid \<times> (nat \<Rightarrow> nat \<Rightarrow> nat)"

definition lawful_inner :: "chunk_grid \<Rightarrow> (nat \<Rightarrow> nat \<Rightarrow> nat) \<Rightarrow> bool" where
  "lawful_inner G off \<longleftrightarrow> chunk_grid_family (\<lambda>x. x = G) (\<lambda>x. x) (\<lambda>_. off)"

definition wf_repeat :: "ghost_repeat_grid \<Rightarrow> bool" where
  "wf_repeat p \<longleftrightarrow> lawful_inner (rp_inner (fst p)) (snd p) \<and>
     repeat_new (rp_repeats (fst p)) (rp_inner (fst p)) = Inr (fst p)"

definition repeat_bnd :: "ghost_repeat_grid \<Rightarrow> nat \<Rightarrow> nat \<Rightarrow> nat" where
  "repeat_bnd p k j =
     (let n = cg_grid_shape (rp_inner (fst p)) ! k
      in j div n * rp_shape (fst p) ! k + snd p k (j mod n))"

lemma position_None: "position p xs = None \<longleftrightarrow> (\<forall>x \<in> set xs. \<not> p x)"
  by (induction xs) auto

lemma checked_sum_eq: "checked_sum acc xs = Some s \<Longrightarrow> s = acc + sum_list xs"
proof (induction xs arbitrary: acc)
  case (Cons x xs)
  then have "checked_sum (acc + x) xs = Some s"
    by (auto simp: checked_add_def bind_eq_Some_conv split: if_splits)
  from Cons.IH[OF this] show ?case by simp
qed simp

lemma repeat_check_dimensions_None:
  "repeat_check_dimensions shp inner ds = None \<longleftrightarrow> (\<forall>d \<in> set ds. repeat_check_dimension shp inner d = None)"
  by (induction ds) (auto split: option.splits)

lemma sum_list_telescope:
  fixes f :: "nat \<Rightarrow> nat"
  assumes "\<And>j. j < n \<Longrightarrow> f j \<le> f (Suc j)"
  shows "sum_list (map (\<lambda>j. f (Suc j) - f j) [0..<n]) + f 0 = f n"
  using assms
proof (induction n)
  case (Suc n)
  have "sum_list (map (\<lambda>j. f (Suc j) - f j) [0..<n]) + f 0 = f n" by (rule Suc.IH) (simp add: Suc.prems)
  then show ?case using Suc.prems[of n] by simp
qed simp

lemma checked_mul_nth:
  assumes "collect_opt (map (\<lambda>(x, r). checked_mul x r) (zip xs rs)) = Some ys"
    and "length xs = length rs"
  shows "length ys = length rs" and "k < length rs \<Longrightarrow> ys ! k = xs ! k * rs ! k \<and> xs ! k * rs ! k < M64"
proof -
  show "length ys = length rs" using collect_zip_nth(1)[OF assms] .
  assume "k < length rs"
  from collect_zip_nth(2)[OF assms this] show "ys ! k = xs ! k * rs ! k \<and> xs ! k * rs ! k < M64"
    by (auto simp: checked_mul_def split: if_splits)
qed

lemma wf_repeatD:
  assumes "wf_repeat (g, off)"
  shows "lawful_inner (rp_inner g) off" "rp_shape g = cg_array_shape (rp_inner g)"
    "cg_dimensionality (rp_inner g) = repeat_dimensionality g"
    "length (rp_shape g) = repeat_dimensionality g" "length (rp_repeats g) = repeat_dimensionality g"
    "length (rp_array_shape g) = repeat_dimensionality g" "length (rp_grid_shape g) = repeat_dimensionality g"
    "length (cg_grid_shape (rp_inner g)) = repeat_dimensionality g"
    "k < repeat_dimensionality g \<Longrightarrow> 0 < rp_repeats g ! k"
    "k < repeat_dimensionality g \<Longrightarrow> rp_array_shape g ! k = rp_shape g ! k * rp_repeats g ! k \<and>
       rp_shape g ! k * rp_repeats g ! k < M64"
    "k < repeat_dimensionality g \<Longrightarrow> rp_grid_shape g ! k = cg_grid_shape (rp_inner g) ! k * rp_repeats g ! k \<and>
       cg_grid_shape (rp_inner g) ! k * rp_repeats g ! k < M64"
    "k < repeat_dimensionality g \<Longrightarrow> repeat_check_dimension (rp_shape g) (rp_inner g) k = None"
proof -
  show inner: "lawful_inner (rp_inner g) off" using assms by (simp add: wf_repeat_def)
  let ?shp = "cg_array_shape (rp_inner g)"
  from assms obtain a n where d: "cg_dimensionality (rp_inner g) = length ?shp" "length ?shp = length (rp_repeats g)"
    and pos: "position (\<lambda>r. r = 0) (rp_repeats g) = None"
    and a: "collect_opt (map (\<lambda>(x, r). checked_mul x r) (zip ?shp (rp_repeats g))) = Some a"
    and n: "collect_opt (map (\<lambda>(x, r). checked_mul x r) (zip (cg_grid_shape (rp_inner g)) (rp_repeats g))) = Some n"
    and chk: "repeat_check_dimensions ?shp (rp_inner g) [0..<length ?shp] = None"
    and e: "\<lparr>rp_shape = ?shp, rp_repeats = rp_repeats g, rp_array_shape = a, rp_grid_shape = n,
              rp_inner = rp_inner g\<rparr> = g"
    by (auto simp: wf_repeat_def repeat_new_def Let_def split: if_splits option.splits)
  have g: "rp_shape g = ?shp" "rp_array_shape g = a" "rp_grid_shape g = n"
    using arg_cong[OF e, of rp_shape] arg_cong[OF e, of rp_array_shape] arg_cong[OF e, of rp_grid_shape]
    by simp_all
  have ln: "length (cg_grid_shape (rp_inner g)) = length (rp_repeats g)"
    using chunk_grid_family.dims[OF inner[unfolded lawful_inner_def]] d by simp
  note A = checked_mul_nth[OF a d(2)] and N = checked_mul_nth[OF n ln]
  show "rp_shape g = ?shp" "cg_dimensionality (rp_inner g) = repeat_dimensionality g"
    "length (rp_shape g) = repeat_dimensionality g" "length (rp_repeats g) = repeat_dimensionality g"
    "length (rp_array_shape g) = repeat_dimensionality g" "length (rp_grid_shape g) = repeat_dimensionality g"
    "length (cg_grid_shape (rp_inner g)) = repeat_dimensionality g"
    using d g A(1) N(1) ln by (simp_all add: repeat_dimensionality_def)
  assume "k < repeat_dimensionality g"
  then have k: "k < length (rp_repeats g)" using d g by (simp add: repeat_dimensionality_def)
  show "0 < rp_repeats g ! k" using pos k by (simp add: position_None all_set_conv_all_nth)
  show "rp_array_shape g ! k = rp_shape g ! k * rp_repeats g ! k \<and> rp_shape g ! k * rp_repeats g ! k < M64"
    "rp_grid_shape g ! k = cg_grid_shape (rp_inner g) ! k * rp_repeats g ! k \<and>
       cg_grid_shape (rp_inner g) ! k * rp_repeats g ! k < M64"
    "repeat_check_dimension (rp_shape g) (rp_inner g) k = None"
    using A(2)[OF k] N(2)[OF k] g chk k d(2) by (simp_all add: repeat_check_dimensions_None)
qed

text \<open>The check of the edge lengths makes the tile end at a chunk boundary.\<close>

lemma inner_bnd_end:
  assumes wf: "wf_repeat (g, off)" and k: "k < repeat_dimensionality g" and nz: "0 \<notin> set (rp_shape g)"
  shows "off k (cg_grid_shape (rp_inner g) ! k) = rp_shape g ! k"
proof -
  note D = wf_repeatD[OF wf]
  note inner = D(1)[unfolded lawful_inner_def]
  let ?n = "cg_grid_shape (rp_inner g) ! k"
  have kd: "k < cg_dimensionality (rp_inner g)" using k D(3) by simp
  have pos: "0 < cg_array_shape (rp_inner g) ! k"
    using nz k D(2,4) by (metis gr0I nth_mem)
  have nz': "0 \<notin> set (cg_array_shape (rp_inner g))" using nz D(2) by simp
  have edges: "cg_chunk_edge_lengths (rp_inner g) k = Inr (map (\<lambda>j. off k (Suc j) - off k j) [0..<?n])"
    using chunk_grid_family.edges[OF inner refl kd pos nz'] .
  have "sum_list (map (\<lambda>j. off k (Suc j) - off k j) [0..<?n]) = rp_shape g ! k"
    using D(12)[OF k] checked_sum_eq[of 0]
    by (auto simp: repeat_check_dimension_def edges split: option.splits if_splits)
  moreover have "off k j \<le> off k (Suc j)" if "j < ?n" for j
    using chunk_grid_family.bnd_step[OF inner refl kd nz' that] by simp
  ultimately show ?thesis
    using sum_list_telescope[of ?n "off k"] chunk_grid_family.bnd_0[OF inner refl kd] by simp
qed

text \<open>The boundaries of the repeated grid: a chunk of a tile, shifted by whole tiles.\<close>

lemma repeat_bnd_Suc:
  assumes wf: "wf_repeat (g, off)" and k: "k < repeat_dimensionality g" and nz: "0 \<notin> set (rp_shape g)"
    and n: "0 < cg_grid_shape (rp_inner g) ! k"
  shows "repeat_bnd (g, off) k (Suc j) =
     j div (cg_grid_shape (rp_inner g) ! k) * rp_shape g ! k + off k (Suc (j mod (cg_grid_shape (rp_inner g) ! k)))"
proof (cases "Suc (j mod (cg_grid_shape (rp_inner g) ! k)) = cg_grid_shape (rp_inner g) ! k")
  case True
  note inner = wf_repeatD(1)[OF wf, unfolded lawful_inner_def]
  have "off k 0 = 0" using chunk_grid_family.bnd_0[OF inner refl] k wf_repeatD(3)[OF wf] by simp
  then show ?thesis
    using True inner_bnd_end[OF wf k nz] by (simp add: repeat_bnd_def Let_def div_Suc mod_Suc)
next
  case False
  then show ?thesis by (simp add: repeat_bnd_def Let_def div_Suc mod_Suc)
qed

lemma repeat_nz:
  assumes "wf_repeat (g, off)" and "0 \<notin> set (rp_array_shape g)"
  shows "0 \<notin> set (rp_shape g)"
  using assms(2) wf_repeatD(4,6,10)[OF assms(1)] by (fastforce simp: in_set_conv_nth)

lemma repeat_grid_pos:
  assumes wf: "wf_repeat (g, off)" and k: "k < repeat_dimensionality g" and nz: "0 \<notin> set (rp_shape g)"
  shows "0 < cg_grid_shape (rp_inner g) ! k"
proof (rule ccontr)
  note D = wf_repeatD[OF wf]
  assume "\<not> 0 < cg_grid_shape (rp_inner g) ! k"
  then have "rp_shape g ! k = 0"
    using inner_bnd_end[OF wf k nz] chunk_grid_family.bnd_0[OF D(1)[unfolded lawful_inner_def] refl] k D(3) by simp
  then show False using nz k D(4) by (metis nth_mem)
qed

lemma div_mod_split_ok:
  assumes "length is = n" and "length ns = n" and "\<And>k. k < n \<Longrightarrow> 0 < ns ! k"
  shows "div_mod_split is ns = Some (map (\<lambda>k. is ! k div ns ! k) [0..<n], map (\<lambda>k. is ! k mod ns ! k) [0..<n])"
  using assms
  by (simp add: div_mod_split_def map_zip_upt[where n = n]
      collect_opt_upt[where g = "\<lambda>k. (is ! k div ns ! k, is ! k mod ns ! k)"])

lemma repeat_inner_ok:
  assumes wf: "wf_repeat (g, off)" and nz: "0 \<notin> set (rp_array_shape g)" and c: "inb c (rp_grid_shape g)"
  shows "repeat_inner_chunk_indices g c =
      Some (map (\<lambda>k. c ! k div cg_grid_shape (rp_inner g) ! k) [0..<repeat_dimensionality g],
            map (\<lambda>k. c ! k mod cg_grid_shape (rp_inner g) ! k) [0..<repeat_dimensionality g])"
    and "inb (map (\<lambda>k. c ! k mod cg_grid_shape (rp_inner g) ! k) [0..<repeat_dimensionality g])
      (cg_grid_shape (rp_inner g))"
proof -
  note D = wf_repeatD[OF wf] and pos = repeat_grid_pos[OF wf _ repeat_nz[OF wf nz]]
  have len: "length c = repeat_dimensionality g" using c D(7) by (simp add: inb_nth)
  have "repeat_chunk_indices_inbounds g c"
    using c D(7) len by (simp add: repeat_chunk_indices_inbounds_def list_all_zip_inb)
  then show "repeat_inner_chunk_indices g c =
      Some (map (\<lambda>k. c ! k div cg_grid_shape (rp_inner g) ! k) [0..<repeat_dimensionality g],
            map (\<lambda>k. c ! k mod cg_grid_shape (rp_inner g) ! k) [0..<repeat_dimensionality g])"
    using nz div_mod_split_ok[OF len D(8) pos]
    by (simp add: repeat_inner_chunk_indices_def has_zero_sized_dimension_def)
  show "inb (map (\<lambda>k. c ! k mod cg_grid_shape (rp_inner g) ! k) [0..<repeat_dimensionality g])
      (cg_grid_shape (rp_inner g))"
    using pos D(8) by (simp add: inb_nth)
qed

lemma repeat_local_ok:
  assumes wf: "wf_repeat (g, off)" and i: "inb i (rp_array_shape g)"
  shows "local_array_indices g i =
      Some (map (\<lambda>k. i ! k div rp_shape g ! k) [0..<repeat_dimensionality g],
            map (\<lambda>k. i ! k mod rp_shape g ! k) [0..<repeat_dimensionality g])"
    and "inb (map (\<lambda>k. i ! k mod rp_shape g ! k) [0..<repeat_dimensionality g]) (cg_array_shape (rp_inner g))"
proof -
  note D = wf_repeatD[OF wf]
  have nz: "0 \<notin> set (rp_array_shape g)" using i by (rule inb_pos)
  have pos: "0 < rp_shape g ! k" if "k < repeat_dimensionality g" for k
    using repeat_nz[OF wf nz] that D(4) by (metis gr0I nth_mem)
  have len: "length i = repeat_dimensionality g" using i D(6) by (simp add: inb_nth)
  have "default_array_indices_inbounds (repeat_dimensionality g) (rp_array_shape g) i"
    using i D(6) len by (simp add: default_array_indices_inbounds_def list_all_zip_inb)
  then show "local_array_indices g i =
      Some (map (\<lambda>k. i ! k div rp_shape g ! k) [0..<repeat_dimensionality g],
            map (\<lambda>k. i ! k mod rp_shape g ! k) [0..<repeat_dimensionality g])"
    using nz div_mod_split_ok[OF len D(4) pos]
    by (simp add: local_array_indices_def has_zero_sized_dimension_def)
  show "inb (map (\<lambda>k. i ! k mod rp_shape g ! k) [0..<repeat_dimensionality g]) (cg_array_shape (rp_inner g))"
    using pos D(2,4) by (simp add: inb_nth)
qed

text \<open>The boundaries are increasing and fit a \<open>u64\<close>.\<close>

lemma repeat_bnd_laws:
  assumes wf: "wf_repeat (g, off)" and k: "k < repeat_dimensionality g"
  shows "repeat_bnd (g, off) k 0 = 0"
    and "0 \<notin> set (rp_array_shape g) \<Longrightarrow> repeat_bnd (g, off) k j < repeat_bnd (g, off) k (Suc j)"
    and "rp_array_shape g ! k \<le> repeat_bnd (g, off) k (rp_grid_shape g ! k)"
    and "0 \<notin> set (rp_array_shape g) \<Longrightarrow> repeat_bnd (g, off) k (rp_grid_shape g ! k) = rp_array_shape g ! k"
proof -
  note D = wf_repeatD[OF wf]
  note inner = D(1)[unfolded lawful_inner_def]
  let ?n = "cg_grid_shape (rp_inner g) ! k"
  have kd: "k < cg_dimensionality (rp_inner g)" using k D(3) by simp
  have off0: "off k 0 = 0" using chunk_grid_family.bnd_0[OF inner refl kd] .
  show "repeat_bnd (g, off) k 0 = 0" by (simp add: repeat_bnd_def Let_def off0)
  show "repeat_bnd (g, off) k j < repeat_bnd (g, off) k (Suc j)" if nz: "0 \<notin> set (rp_array_shape g)"
  proof -
    note nz' = repeat_nz[OF wf nz]
    have n: "0 < ?n" by (rule repeat_grid_pos[OF wf k nz'])
    have "off k (j mod ?n) < off k (Suc (j mod ?n))"
      using chunk_grid_family.bnd_step[OF inner refl kd, of "j mod ?n"] nz' D(2) n by simp
    then show ?thesis unfolding repeat_bnd_Suc[OF wf k nz' n] by (simp add: repeat_bnd_def Let_def)
  qed
  have eq: "repeat_bnd (g, off) k (rp_grid_shape g ! k) = rp_array_shape g ! k" if "0 < ?n"
    using that D(10,11)[OF k] by (simp add: repeat_bnd_def Let_def off0)
  show "rp_array_shape g ! k \<le> repeat_bnd (g, off) k (rp_grid_shape g ! k)"
  proof (cases "0 < ?n")
    case False
    then have "rp_shape g ! k = 0"
      using chunk_grid_family.bnd_cover[OF inner refl kd] off0 D(2) by simp
    then show ?thesis using D(10)[OF k] by simp
  qed (simp add: eq)
  show "repeat_bnd (g, off) k (rp_grid_shape g ! k) = rp_array_shape g ! k" if nz: "0 \<notin> set (rp_array_shape g)"
    by (rule eq[OF repeat_grid_pos[OF wf k repeat_nz[OF wf nz]]])
qed

lemma repeat_bnd_fits:
  assumes wf: "wf_repeat (g, off)" and k: "k < repeat_dimensionality g" and nz: "0 \<notin> set (rp_array_shape g)"
    and "j \<le> rp_grid_shape g ! k"
  shows "repeat_bnd (g, off) k j < M64"
proof -
  have "repeat_bnd (g, off) k j \<le> repeat_bnd (g, off) k (rp_grid_shape g ! k)"
    by (rule lift_Suc_mono_le[of "repeat_bnd (g, off) k", OF _ assms(4)])
      (simp add: less_imp_le repeat_bnd_laws(2)[OF wf k nz])
  then show ?thesis using repeat_bnd_laws(4)[OF wf k nz] wf_repeatD(10)[OF wf k] by simp
qed

lemma concat_replicate_upt:
  assumes "0 < n"
  shows "concat (replicate r (map f [0..<n])) = map (\<lambda>j. f (j mod n)) [0..<n * r]"
proof (induction r)
  case (Suc r)
  have "map (\<lambda>j. f (j mod n)) [0..<n * Suc r] = map (\<lambda>j. f (j mod n)) ([0..<n * r] @ [n * r..<n * r + n])"
    using upt_add_eq_append[of 0 "n * r" n] by (simp add: add.commute)
  moreover have "map (\<lambda>j. f (j mod n)) [n * r..<n * r + n] = map f [0..<n]"
    by (intro nth_equalityI) simp_all
  moreover have "replicate (Suc r) x = replicate r x @ [x]" for x :: "'a list"
    by (simp add: replicate_append_same)
  ultimately show ?case using Suc.IH by (simp del: replicate.simps)
qed simp

lemma repeat_grid_sel [simp]:
  "cg_dimensionality (repeat_grid g) = repeat_dimensionality g"
  "cg_array_shape (repeat_grid g) = rp_array_shape g"
  "cg_grid_shape (repeat_grid g) = rp_grid_shape g"
  "cg_chunk_edge_lengths (repeat_grid g) = repeat_chunk_edge_lengths g"
  "cg_chunk_shape (repeat_grid g) = repeat_chunk_shape g"
  "cg_chunk_shape_u64 (repeat_grid g) = repeat_chunk_shape_u64 g"
  "cg_chunk_origin (repeat_grid g) = repeat_chunk_origin g"
  "cg_chunk_indices (repeat_grid g) = repeat_chunk_indices g"
  "cg_chunk_element_indices (repeat_grid g) = repeat_chunk_element_indices g"
  "cg_subset (repeat_grid g) = default_subset (repeat_chunk_origin g) (repeat_chunk_shape g)"
  "cg_array_indices_inbounds (repeat_grid g) =
     default_array_indices_inbounds (repeat_dimensionality g) (rp_array_shape g)"
  by (simp_all add: repeat_grid_def)

lemma repeat_chunk_ok:
  assumes wf: "wf_repeat (g, off)" and nz: "0 \<notin> set (rp_array_shape g)" and c: "inb c (rp_grid_shape g)"
  shows "repeat_chunk_origin g c =
      Inr (Some (map (\<lambda>k. repeat_bnd (g, off) k (c ! k)) [0..<repeat_dimensionality g]))"
    and "repeat_chunk_shape g c =
      Inr (Some (map (\<lambda>k. repeat_bnd (g, off) k (Suc (c ! k)) - repeat_bnd (g, off) k (c ! k)) [0..<repeat_dimensionality g]))"
proof -
  note D = wf_repeatD[OF wf] and inner_c = repeat_inner_ok[OF wf nz c]
  note inner = D(1)[unfolded lawful_inner_def]
  let ?d = "repeat_dimensionality g" and ?n = "\<lambda>k. cg_grid_shape (rp_inner g) ! k"
  have chk: "repeat_check_dimensionality g (length c) = Inr ()"
    using c D(7) by (simp add: repeat_check_dimensionality_def inb_nth)
  have nz': "0 \<notin> set (cg_array_shape (rp_inner g))" using repeat_nz[OF wf nz] D(2) by simp
  have ck: "c ! k < rp_grid_shape g ! k" if "k < ?d" for k using c D(7) that by (simp add: inb_nth)
  have w: "wadd (wmul (c ! k div ?n k) (rp_shape g ! k)) (off k (c ! k mod ?n k)) = repeat_bnd (g, off) k (c ! k)"
    if "k < ?d" for k
    using repeat_bnd_fits[OF wf that nz, of "c ! k"] ck[OF that]
    by (simp add: repeat_bnd_def Let_def wadd_eq wmul_eq)
  show "repeat_chunk_origin g c = Inr (Some (map (\<lambda>k. repeat_bnd (g, off) k (c ! k)) [0..<?d]))"
    using chunk_grid_family.origin[OF inner refl nz' inner_c(2)] w D(3,4)
    by (simp add: repeat_chunk_origin_def chk inner_c(1) offset_origin_def map_zip3_upt[where n = ?d])
  have "repeat_bnd (g, off) k (Suc (c ! k)) - repeat_bnd (g, off) k (c ! k) =
      off k (Suc (c ! k mod ?n k)) - off k (c ! k mod ?n k)" if "k < ?d" for k
    using repeat_bnd_Suc[OF wf that repeat_nz[OF wf nz] repeat_grid_pos[OF wf that repeat_nz[OF wf nz]]]
    by (simp add: repeat_bnd_def Let_def)
  then show "repeat_chunk_shape g c =
      Inr (Some (map (\<lambda>k. repeat_bnd (g, off) k (Suc (c ! k)) - repeat_bnd (g, off) k (c ! k)) [0..<?d]))"
    using chunk_grid_family.shp[OF inner refl nz' inner_c(2)] D(3)
    by (simp add: repeat_chunk_shape_def chk inner_c(1))
qed

lemma repeat_index_ok:
  assumes wf: "wf_repeat (g, off)" and i: "inb i (rp_array_shape g)"
  shows "\<exists>c. repeat_chunk_indices g i = Inr (Some c) \<and> inb c (rp_grid_shape g) \<and>
     (\<forall>k < repeat_dimensionality g.
        repeat_bnd (g, off) k (c ! k) \<le> i ! k \<and> i ! k < repeat_bnd (g, off) k (Suc (c ! k))) \<and>
     repeat_chunk_element_indices g i =
       Inr (Some (map (\<lambda>k. i ! k - repeat_bnd (g, off) k (c ! k)) [0..<repeat_dimensionality g]))"
proof -
  note D = wf_repeatD[OF wf] and loc = repeat_local_ok[OF wf i]
  note inner = D(1)[unfolded lawful_inner_def]
  let ?d = "repeat_dimensionality g" and ?n = "\<lambda>k. cg_grid_shape (rp_inner g) ! k"
  have nz: "0 \<notin> set (rp_array_shape g)" using i by (rule inb_pos)
  note nz' = repeat_nz[OF wf nz] and npos = repeat_grid_pos[OF wf _ repeat_nz[OF wf nz]]
  have chk: "repeat_check_dimensionality g (length i) = Inr ()"
    using i D(6) by (simp add: repeat_check_dimensionality_def inb_nth)
  let ?loc = "map (\<lambda>k. i ! k mod rp_shape g ! k) [0..<?d]"
  obtain b where b: "cg_chunk_indices (rp_inner g) ?loc = Inr (Some b)" "inb b (cg_grid_shape (rp_inner g))"
    "\<forall>k < ?d. off k (b ! k) \<le> i ! k mod rp_shape g ! k \<and> i ! k mod rp_shape g ! k < off k (Suc (b ! k))"
    using chunk_grid_family.ind[OF inner refl loc(2)] D(3) by auto
  have bn: "b ! k < ?n k" if "k < ?d" for k using b(2) that D(8) by (simp add: inb_nth)
  have lb: "length b = ?d" using b(2) D(8) by (simp add: inb_nth)
  define c where "c = map (\<lambda>k. i ! k div rp_shape g ! k * ?n k + b ! k) [0..<?d]"
  have dm: "c ! k div ?n k = i ! k div rp_shape g ! k" "c ! k mod ?n k = b ! k" if "k < ?d" for k
    using bn[OF that] that by (simp_all add: c_def)
  have q: "i ! k div rp_shape g ! k < rp_repeats g ! k" if "k < ?d" for k
  proof -
    have "i ! k < rp_array_shape g ! k" using i that D(6) by (simp add: inb_nth)
    then have "i ! k < rp_repeats g ! k * rp_shape g ! k" using D(10)[OF that] by (simp add: mult.commute)
    then show ?thesis by (rule less_mult_imp_div_less)
  qed
  have cn: "c ! k < rp_grid_shape g ! k" if "k < ?d" for k
  proof -
    have "c ! k < Suc (i ! k div rp_shape g ! k) * ?n k" using bn[OF that] that by (simp add: c_def)
    also have "\<dots> \<le> rp_repeats g ! k * ?n k" using q[OF that] by (intro mult_le_mono1) simp
    finally show ?thesis using D(11)[OF that] by (simp add: mult.commute)
  qed
  have ic: "inb c (rp_grid_shape g)" using cn D(7) by (simp add: inb_nth c_def)
  have w: "wadd (wmul (i ! k div rp_shape g ! k) (?n k)) (b ! k) = c ! k" if "k < ?d" for k
  proof -
    have "c ! k < M64" using cn[OF that] D(11)[OF that] by simp
    then show ?thesis using that by (simp add: c_def wadd_eq wmul_eq)
  qed
  have ind: "repeat_chunk_indices g i = Inr (Some c)"
    using b(1) lb D(8) w
    by (auto simp: repeat_chunk_indices_def chk loc(1) map_zip3_upt[where n = ?d] c_def)
  have bnd: "repeat_bnd (g, off) k (c ! k) = i ! k div rp_shape g ! k * rp_shape g ! k + off k (b ! k)"
    "repeat_bnd (g, off) k (Suc (c ! k)) = i ! k div rp_shape g ! k * rp_shape g ! k + off k (Suc (b ! k))"
    if "k < ?d" for k
    using dm[OF that] repeat_bnd_Suc[OF wf that nz' npos[OF that]] by (simp_all add: repeat_bnd_def Let_def)
  have between: "repeat_bnd (g, off) k (c ! k) \<le> i ! k \<and> i ! k < repeat_bnd (g, off) k (Suc (c ! k)) \<and>
      i ! k - repeat_bnd (g, off) k (c ! k) = i ! k mod rp_shape g ! k - off k (b ! k)" if "k < ?d" for k
    using b(3) that bnd[OF that] div_mult_mod_eq[of "i ! k" "rp_shape g ! k"] by fastforce
  have "repeat_chunk_element_indices g i =
      Inr (Some (map (\<lambda>k. i ! k - repeat_bnd (g, off) k (c ! k)) [0..<?d]))"
    using chunk_grid_family.elem[OF inner refl loc(2) b(1)] D(3) between
    by (simp add: repeat_chunk_element_indices_def chk loc(1))
  then show ?thesis using ind ic between by blast
qed

lemma repeat_edges_ok:
  assumes wf: "wf_repeat (g, off)" and k: "k < repeat_dimensionality g" and nz: "0 \<notin> set (rp_array_shape g)"
  shows "repeat_chunk_edge_lengths g k =
     Inr (map (\<lambda>j. repeat_bnd (g, off) k (Suc j) - repeat_bnd (g, off) k j) [0..<rp_grid_shape g ! k])"
proof -
  note D = wf_repeatD[OF wf] and nz' = repeat_nz[OF wf nz]
  note inner = D(1)[unfolded lawful_inner_def] and n = repeat_grid_pos[OF wf k nz']
  let ?n = "cg_grid_shape (rp_inner g) ! k"
  have pos: "0 < cg_array_shape (rp_inner g) ! k" using nz' k D(2,4) by (metis gr0I nth_mem)
  have "cg_chunk_edge_lengths (rp_inner g) k = Inr (map (\<lambda>j. off k (Suc j) - off k j) [0..<?n])"
    using chunk_grid_family.edges[OF inner refl _ pos] nz' k D(2,3) by simp
  moreover have "repeat_bnd (g, off) k (Suc j) - repeat_bnd (g, off) k j =
      off k (Suc (j mod ?n)) - off k (j mod ?n)" for j
    unfolding repeat_bnd_Suc[OF wf k nz' n] by (simp add: repeat_bnd_def Let_def)
  ultimately show ?thesis
    using k D(11)[OF k] by (simp add: repeat_chunk_edge_lengths_def concat_replicate_upt[OF n])
qed

interpretation repeat: chunk_grid_family wf_repeat "\<lambda>p. repeat_grid (fst p)" repeat_bnd
proof (unfold_locales, goal_cases)
  case (1 p)
  then show ?case by (cases p) (simp add: wf_repeatD)
next
  case (2 p k)
  then show ?case by (cases p) (simp add: repeat_bnd_laws)
next
  case (3 p k j)
  then show ?case by (cases p) (simp add: repeat_bnd_laws)
next
  case (4 p k)
  then show ?case by (cases p) (simp add: repeat_bnd_laws)
next
  case (5 p k)
  then show ?case by (cases p) (simp add: repeat_bnd_fits)
next
  case (6 p k)
  then show ?case using wf_repeatD(11)[of "fst p" "snd p" k] by simp
next
  case (7 p c)
  then show ?case by (cases p) (simp add: repeat_chunk_ok)
next
  case (8 p c)
  then show ?case by (cases p) (simp add: repeat_chunk_ok)
next
  case (9 p c)
  then have "lawful_inner (rp_inner (fst p)) (snd p)" by (simp add: wf_repeat_def)
  from chunk_grid_family.shp_u64[OF this[unfolded lawful_inner_def] refl]
  have "cg_chunk_shape_u64 (rp_inner (fst p)) = cg_chunk_shape (rp_inner (fst p))" by (intro ext)
  then show ?case unfolding repeat_grid_sel repeat_chunk_shape_def repeat_chunk_shape_u64_def by (rule ssubst) (rule refl)
next
  case (10 p c)
  obtain g off where p: "p = (g, off)" by (cases p)
  note wf = 10(1)[unfolded p] and D = wf_repeatD[OF 10(1)[unfolded p]]
  have nz: "0 \<notin> set (rp_array_shape g)" and c: "inb c (rp_grid_shape g)" using 10 by (simp_all add: p)
  have fit: "repeat_bnd (g, off) k (c ! k) + (repeat_bnd (g, off) k (Suc (c ! k)) - repeat_bnd (g, off) k (c ! k)) < M64"
    if "k < repeat_dimensionality g" for k
    using repeat_bnd_laws(2)[OF wf that nz, of "c ! k"] repeat_bnd_fits[OF wf that nz, of "Suc (c ! k)"] c D(7) that
    by (simp add: inb_nth Suc_le_eq)
  show ?case
    unfolding p fst_conv repeat_grid_sel
    by (rule default_subset_upt[OF _ _ fit]) (simp_all add: repeat_chunk_ok[OF wf nz c])
next
  case (11 p i)
  then show ?case using repeat_index_ok[of "fst p" "snd p" i] by auto
next
  case (12 p i c)
  then show ?case using repeat_index_ok[of "fst p" "snd p" i] by auto
next
  case (13 p k)
  then show ?case by (cases p) (simp add: repeat_edges_ok)
next
  case (14 p i)
  then show ?case
    using wf_repeatD(6)[of "fst p" "snd p"] list_all_zip_inb[of i "rp_array_shape (fst p)"]
    by (auto simp: default_array_indices_inbounds_def inb_length)
next
  case (15 p i)
  then show ?case by (simp add: repeat_chunk_origin_def repeat_chunk_indices_def repeat_check_dimensionality_def)
qed

subsection \<open>Inner grids\<close>

text \<open>A well-formed member of any family that satisfies the contract is a lawful inner grid.\<close>

lemma lawful_innerI:
  assumes "chunk_grid_family valid vt bnd" and "valid g"
  shows "lawful_inner (vt g) (bnd g)"
  unfolding lawful_inner_def
  using chunk_grid_family.dims[OF assms] chunk_grid_family.bnd_0[OF assms] chunk_grid_family.bnd_step[OF assms]
    chunk_grid_family.bnd_cover[OF assms] chunk_grid_family.bnd_fits[OF assms] chunk_grid_family.grid_fits[OF assms]
    chunk_grid_family.origin[OF assms] chunk_grid_family.shp[OF assms] chunk_grid_family.shp_u64[OF assms]
    chunk_grid_family.sub[OF assms] chunk_grid_family.ind[OF assms] chunk_grid_family.elem[OF assms]
    chunk_grid_family.edges[OF assms] chunk_grid_family.inbd[OF assms] chunk_grid_family.mismatch[OF assms]
  by unfold_locales simp_all

lemmas lawful_inner_regular = lawful_innerI[OF regular.chunk_grid_family_axioms]
  and lawful_inner_bounded = lawful_innerI[OF bounded.chunk_grid_family_axioms]
  and lawful_inner_rectangular = lawful_innerI[OF rectangular.chunk_grid_family_axioms]
  and lawful_inner_rectilinear = lawful_innerI[OF rectilinear.chunk_grid_family_axioms]
  and lawful_inner_repeat = lawful_innerI[OF repeat.chunk_grid_family_axioms]

text \<open>
  Property C32.  A repeat grid that \<open>new\<close> accepts over a lawful inner grid (a regular, bounded,
  rectangular, rectilinear or again a repeat grid) is lawful: the tiles partition the array into
  shifted copies of the inner chunks, and regions are mapped to exactly the chunks they meet.
\<close>

theorem repeat_grid_partitions:
  assumes "lawful_inner G off" and "repeat_new reps G = Inr g"
  shows "grid_lawful (repeat_grid g)"
proof -
  have "rp_repeats g = reps \<and> rp_inner g = G"
    using assms(2) by (auto simp: repeat_new_def Let_def split: if_splits option.splits)
  then have "wf_repeat (g, off)" using assms by (simp add: wf_repeat_def)
  from repeat.grid_is_lawful[OF this] show ?thesis by simp
qed

theorem repeat_grid_partitions_witness:
  "\<exists>g. repeat_new [3] (bounded_grid \<lparr>rb_array_shape = [6], rb_grid_shape = [2], rb_chunk_shape = [4]\<rparr>) = Inr g \<and>
     rp_array_shape g = [18] \<and> rp_grid_shape g = [6] \<and> grid_lawful (repeat_grid g)"
proof -
  let ?b = "\<lparr>rb_array_shape = [6], rb_grid_shape = [2], rb_chunk_shape = [4]\<rparr>"
  have "wf_bounded ?b" by (simp add: wf_bounded_def bounded_new_def fits_chunks_def div_ceil_def M64_def)
  from lawful_inner_bounded[OF this] have l: "lawful_inner (bounded_grid ?b) (bounded_bnd ?b)" .
  have new: "repeat_new [3] (bounded_grid ?b) =
      Inr \<lparr>rp_shape = [6], rp_repeats = [3], rp_array_shape = [18], rp_grid_shape = [6], rp_inner = bounded_grid ?b\<rparr>"
    by (simp add: repeat_new_def repeat_check_dimension_def bounded_chunk_edge_lengths_def bounded_dimensionality_def
        checked_mul_def checked_add_def wsub_def wmul_def M64_def Let_def)
  from repeat_grid_partitions[OF l new] new show ?thesis by (intro exI) auto
qed

end
