(* ===== verification/Byte_Range.thy ===== *)
theory Byte_Range
  imports Zarrs_Prelude "HOL-Library.Option_ord" "HOL-Library.Word"
begin

text \<open>
  Byte ranges (\<open>zarrs_storage/src/byte_range.rs\<close>): the enum, its order, its conversion from
  \<open>RangeBounds\<close>, and the three functions that extract ranges from a value.  Bytes are \<open>8 word\<close>; a
  slice \<open>bytes[start..end]\<close> that Rust refuses is the failure \<open>SlicePanic\<close>.  The reader of
  \<open>extract_byte_ranges_read_seek\<close> is a \<open>std::io::Cursor\<close> over the bytes.
\<close>

type_synonym u8 = "8 word"
type_synonym bytes = "u8 list"

datatype byte_range = FromStart u64 "u64 option" | Suffix u64

datatype range_bound = Included u64 | Excluded u64 | Unbounded

datatype ordering = Less | Equal | Greater

definition u64_cmp :: "u64 \<Rightarrow> u64 \<Rightarrow> ordering" where
  "u64_cmp a b = (if a < b then Less else if a = b then Equal else Greater)"

fun option_cmp :: "u64 option \<Rightarrow> u64 option \<Rightarrow> ordering" where
  "option_cmp None None = Equal"
| "option_cmp None (Some _) = Less"
| "option_cmp (Some _) None = Greater"
| "option_cmp (Some a) (Some b) = u64_cmp a b"

definition then_with :: "ordering \<Rightarrow> ordering \<Rightarrow> ordering" where
  "then_with a b = (if a = Equal then b else a)"

fun byte_range_cmp :: "byte_range \<Rightarrow> byte_range \<Rightarrow> ordering" where
  "byte_range_cmp (FromStart offset1 length1) (FromStart offset2 length2) =
     then_with (u64_cmp offset1 offset2) (option_cmp length1 length2)"
| "byte_range_cmp (FromStart _ _) (Suffix _) = Less"
| "byte_range_cmp (Suffix _) (FromStart _ _) = Greater"
| "byte_range_cmp (Suffix length1) (Suffix length2) = u64_cmp length1 length2"

fun byte_range_new :: "range_bound \<Rightarrow> range_bound \<Rightarrow> byte_range" where
  "byte_range_new (Included s) (Included e) = FromStart s (Some (wadd (wsub e s) 1))"
| "byte_range_new (Included s) (Excluded e) = FromStart s (Some (wsub e s))"
| "byte_range_new (Included s) Unbounded = FromStart s None"
| "byte_range_new (Excluded s) (Included e) = FromStart (wadd s 1) (Some (wsub e s))"
| "byte_range_new (Excluded s) (Excluded e) = FromStart (wadd s 1) (Some (wsub (wsub e s) 1))"
| "byte_range_new (Excluded s) Unbounded = FromStart (wadd s 1) None"
| "byte_range_new Unbounded (Included n) = FromStart 0 (Some (wadd n 1))"
| "byte_range_new Unbounded (Excluded n) = FromStart 0 (Some n)"
| "byte_range_new Unbounded Unbounded = FromStart 0 None"

fun br_start :: "byte_range \<Rightarrow> u64 \<Rightarrow> u64" where
  "br_start (FromStart off _) sz = off"
| "br_start (Suffix n) sz = wsub sz n"

fun br_end :: "byte_range \<Rightarrow> u64 \<Rightarrow> u64" where
  "br_end (FromStart off n) sz = (case n of None \<Rightarrow> sz | Some n \<Rightarrow> wadd off n)"
| "br_end (Suffix _) sz = sz"

fun br_length :: "byte_range \<Rightarrow> u64 \<Rightarrow> u64" where
  "br_length (FromStart off None) sz = wsub sz off"
| "br_length (FromStart _ (Some n)) sz = n"
| "br_length (Suffix n) sz = n"

definition br_to_range :: "byte_range \<Rightarrow> u64 \<Rightarrow> u64 \<times> u64" where
  "br_to_range r sz = (br_start r sz, br_end r sz)"

definition br_to_range_usize :: "byte_range \<Rightarrow> u64 \<Rightarrow> usize \<times> usize" where
  "br_to_range_usize r sz = (br_start r sz, br_end r sz)"

fun br_is_valid :: "byte_range \<Rightarrow> u64 \<Rightarrow> bool" where
  "br_is_valid (FromStart off n) len \<longleftrightarrow> wadd off (case n of None \<Rightarrow> 0 | Some n \<Rightarrow> n) \<le> len"
| "br_is_valid (Suffix n) len \<longleftrightarrow> n \<le> len"

subsection \<open>Extraction\<close>

datatype byte_range_failure = InvalidByteRangeError byte_range u64 | SlicePanic

text \<open>\<open>bytes[start..end]\<close>\<close>

definition slice :: "'a list \<Rightarrow> usize \<Rightarrow> usize \<Rightarrow> 'a list option" where
  "slice xs s e = (if s \<le> e \<and> e \<le> length xs then Some (take (e - s) (drop s xs)) else None)"

definition extract_byte_range :: "bytes \<Rightarrow> byte_range \<Rightarrow> byte_range_failure + bytes" where
  "extract_byte_range bytes r =
     (let bytes_len = length bytes in
      if \<not> br_is_valid r bytes_len then Inl (InvalidByteRangeError r bytes_len)
      else case slice bytes (br_start r bytes_len) (br_end r bytes_len) of
             None \<Rightarrow> Inl SlicePanic
           | Some b \<Rightarrow> Inr b)"

definition extract_byte_ranges :: "bytes \<Rightarrow> byte_range list \<Rightarrow> byte_range_failure + bytes list" where
  "extract_byte_ranges bytes rs = collect_res (map (extract_byte_range bytes) rs)"

definition length_and_start :: "bytes \<Rightarrow> byte_range \<Rightarrow> byte_range_failure + (u64 \<times> u64)" where
  "length_and_start bytes r =
     (let bytes_len = length bytes in
      if \<not> br_is_valid r bytes_len then Inl (InvalidByteRangeError r bytes_len)
      else Inr (br_length r bytes_len, br_start r bytes_len))"

text \<open>
  The loop that copies each range to its place in the output; a write outside the output buffer is
  the failure \<open>SlicePanic\<close> as well.
\<close>

fun concat_loop :: "bytes \<Rightarrow> (u64 \<times> u64) list \<Rightarrow> bytes \<Rightarrow> usize \<Rightarrow> byte_range_failure + bytes" where
  "concat_loop bytes [] out off = Inr out"
| "concat_loop bytes ((n, start) # ls) out off =
     (case slice bytes start (wadd start n) of
        None \<Rightarrow> Inl SlicePanic
      | Some b \<Rightarrow>
          if off + n \<le> length out
          then concat_loop bytes ls (take off out @ b @ drop (off + n) out) (wadd off n)
          else Inl SlicePanic)"

definition extract_byte_ranges_concat :: "bytes \<Rightarrow> byte_range list \<Rightarrow> byte_range_failure + bytes" where
  "extract_byte_ranges_concat bytes rs =
     bind_res (collect_res (map (length_and_start bytes) rs)) (\<lambda>lengths_and_starts.
       let out_size = wsum (map fst lengths_and_starts) in
       if out_size = 0 then Inr []
       else concat_loop bytes lengths_and_starts (replicate out_size 0) 0)"

text \<open>
  \<open>extract_byte_ranges_read_seek\<close>: \<open>seek\<close> to an absolute position always succeeds, \<open>read_exact\<close> fails
  when fewer bytes remain (but not for an empty buffer), \<open>seek\<close> from the end fails before the start,
  and \<open>i64::try_from\<close> panics on a suffix of \<open>2 ^ 63\<close> bytes or more.
\<close>

datatype io_failure = UnexpectedEof | InvalidSeek | ConversionPanic

definition read_exact :: "bytes \<Rightarrow> u64 \<Rightarrow> usize \<Rightarrow> io_failure + bytes" where
  "read_exact bytes pos n =
     (if n \<le> length bytes - pos then Inr (take n (drop pos bytes)) else Inl UnexpectedEof)"

fun read_seek_range :: "bytes \<Rightarrow> byte_range \<Rightarrow> io_failure + bytes" where
  "read_seek_range bytes (FromStart off None) = read_exact bytes off (length bytes)"
| "read_seek_range bytes (FromStart off (Some n)) = read_exact bytes off n"
| "read_seek_range bytes (Suffix n) =
     (if 2 ^ 63 \<le> n then Inl ConversionPanic
      else if length bytes < n then Inl InvalidSeek
      else read_exact bytes (length bytes - n) n)"

definition extract_byte_ranges_read_seek :: "bytes \<Rightarrow> byte_range list \<Rightarrow> io_failure + bytes list" where
  "extract_byte_ranges_read_seek bytes rs = collect_res (map (read_seek_range bytes) rs)"

subsection \<open>The order of byte ranges\<close>

lemma byte_range_cmp_Equal: "byte_range_cmp a b = Equal \<longleftrightarrow> a = b"
proof -
  have "option_cmp x y = Equal \<longleftrightarrow> x = y" for x y
    by (cases x; cases y) (auto simp: u64_cmp_def)
  then show ?thesis by (cases a; cases b) (auto simp: then_with_def u64_cmp_def)
qed

instantiation byte_range :: linorder
begin

definition less_eq_byte_range :: "byte_range \<Rightarrow> byte_range \<Rightarrow> bool" where
  "less_eq_byte_range a b \<longleftrightarrow> byte_range_cmp a b \<noteq> Greater"

definition less_byte_range :: "byte_range \<Rightarrow> byte_range \<Rightarrow> bool" where
  "less_byte_range a b \<longleftrightarrow> byte_range_cmp a b = Less"

lemma option_cmp_le: "option_cmp x y \<noteq> Greater \<longleftrightarrow> x \<le> y" "option_cmp x y = Less \<longleftrightarrow> x < y"
  by (cases x; cases y; auto simp: u64_cmp_def)+

lemma byte_range_le_simps [simp]:
  "FromStart a x \<le> FromStart b y \<longleftrightarrow> a < b \<or> a = b \<and> x \<le> y"
  "FromStart a x \<le> Suffix c" "\<not> Suffix c \<le> FromStart a x" "Suffix c \<le> Suffix d \<longleftrightarrow> c \<le> d"
  using option_cmp_le by (auto simp: less_eq_byte_range_def then_with_def u64_cmp_def split: if_splits)

lemma byte_range_less_simps [simp]:
  "FromStart a x < FromStart b y \<longleftrightarrow> a < b \<or> a = b \<and> x < y"
  "FromStart a x < Suffix c" "\<not> Suffix c < FromStart a x" "Suffix c < Suffix d \<longleftrightarrow> c < d"
  using option_cmp_le by (auto simp: less_byte_range_def then_with_def u64_cmp_def split: if_splits)

instance
proof
  fix a b c :: byte_range
  show "a < b \<longleftrightarrow> a \<le> b \<and> \<not> b \<le> a" by (cases a; cases b) auto
  show "a \<le> a" by (cases a) auto
  show "a \<le> c" if "a \<le> b" "b \<le> c" using that by (cases a; cases b; cases c) auto
  show "a = b" if "a \<le> b" "b \<le> a" using that by (cases a; cases b) auto
  show "a \<le> b \<or> b \<le> a" by (cases a; cases b) auto
qed

end

subsection \<open>What the functions extract\<close>

text \<open>
  \<open>br_in_range\<close> is validity without wrap-around, \<open>br_selected\<close> the bytes a range stands for, and
  \<open>br_fits\<close> says that the end of a range is a \<open>u64\<close>.
\<close>

fun br_in_range :: "byte_range \<Rightarrow> nat \<Rightarrow> bool" where
  "br_in_range (FromStart off None) len \<longleftrightarrow> off \<le> len"
| "br_in_range (FromStart off (Some n)) len \<longleftrightarrow> off + n \<le> len"
| "br_in_range (Suffix n) len \<longleftrightarrow> n \<le> len"

fun br_selected :: "byte_range \<Rightarrow> 'a list \<Rightarrow> 'a list" where
  "br_selected (FromStart off None) bytes = drop off bytes"
| "br_selected (FromStart off (Some n)) bytes = take n (drop off bytes)"
| "br_selected (Suffix n) bytes = drop (length bytes - n) bytes"

fun br_fits :: "byte_range \<Rightarrow> bool" where
  "br_fits (FromStart off None) \<longleftrightarrow> off < M64"
| "br_fits (FromStart off (Some n)) \<longleftrightarrow> off + n < M64"
| "br_fits (Suffix n) \<longleftrightarrow> n < M64"

lemma br_is_valid_iff: "br_fits r \<Longrightarrow> br_is_valid r len \<longleftrightarrow> br_in_range r len"
  by (cases "(r, len)" rule: br_in_range.cases) (simp_all add: wadd_eq)

lemma br_bounds:
  assumes "br_fits r" and "len < M64" and "br_in_range r len"
  shows "br_start r len \<le> br_end r len" and "br_end r len \<le> len"
    and "br_length r len = br_end r len - br_start r len"
  using assms by (cases "(r, len)" rule: br_in_range.cases; simp add: wadd_eq wsub_eq)+

lemma slice_selected:
  assumes "br_fits r" and "length bytes < M64" and "br_in_range r (length bytes)"
  shows "slice bytes (br_start r (length bytes)) (br_end r (length bytes)) = Some (br_selected r bytes)"
  using assms by (cases "(r, bytes)" rule: br_selected.cases) (simp_all add: slice_def wadd_eq wsub_eq)

lemma length_br_selected:
  assumes "br_fits r" and "length bytes < M64" and "br_in_range r (length bytes)"
  shows "length (br_selected r bytes) = br_length r (length bytes)"
  using assms by (cases "(r, bytes)" rule: br_selected.cases) (simp_all add: wsub_eq)

lemma extract_byte_range_eq:
  assumes "br_fits r" and "length bytes < M64"
  shows "extract_byte_range bytes r =
     (if br_in_range r (length bytes) then Inr (br_selected r bytes) else Inl (InvalidByteRangeError r (length bytes)))"
  using slice_selected[OF assms] by (simp add: extract_byte_range_def br_is_valid_iff[OF assms(1)] Let_def)

lemma length_and_start_eq:
  assumes "br_fits r" and "length bytes < M64"
  shows "length_and_start bytes r =
     (if br_in_range r (length bytes) then Inr (length (br_selected r bytes), br_start r (length bytes))
      else Inl (InvalidByteRangeError r (length bytes)))"
  using length_br_selected[OF assms] by (simp add: length_and_start_def br_is_valid_iff[OF assms(1)] Let_def)

lemma collect_res_find:
  "collect_res (map (\<lambda>x. if p x then Inr (f x) else Inl (h x)) xs) =
     (case find (\<lambda>x. \<not> p x) xs of None \<Rightarrow> Inr (map f xs) | Some x \<Rightarrow> Inl (h x))"
  by (induction xs) (auto split: option.splits)

lemma extract_byte_ranges_eq:
  assumes "list_all br_fits rs" and "length bytes < M64"
  shows "extract_byte_ranges bytes rs =
     (case find (\<lambda>r. \<not> br_in_range r (length bytes)) rs of
        None \<Rightarrow> Inr (map (\<lambda>r. br_selected r bytes) rs)
      | Some r \<Rightarrow> Inl (InvalidByteRangeError r (length bytes)))"
proof -
  have "map (extract_byte_range bytes) rs = map (\<lambda>r. if br_in_range r (length bytes)
      then Inr (br_selected r bytes) else Inl (InvalidByteRangeError r (length bytes))) rs"
    using assms by (intro map_cong refl extract_byte_range_eq) (auto simp: list_all_iff)
  then show ?thesis by (simp only: extract_byte_ranges_def collect_res_find)
qed

text \<open>The copying loop appends the selected bytes to what is already written.\<close>

lemma concat_loop_ok:
  assumes "length bytes < M64" and "list_all br_fits rs" and "list_all (\<lambda>r. br_in_range r (length bytes)) rs"
    and "length done + sum_list (map (\<lambda>r. length (br_selected r bytes)) rs) < M64"
    and "length rest = sum_list (map (\<lambda>r. length (br_selected r bytes)) rs)"
  shows "concat_loop bytes (map (\<lambda>r. (length (br_selected r bytes), br_start r (length bytes))) rs) (done @ rest) (length done) =
     Inr (done @ concat (map (\<lambda>r. br_selected r bytes) rs))"
  using assms(2-)
proof (induction rs arbitrary: "done" rest)
  case (Cons r rs)
  let ?n = "length (br_selected r bytes)"
  have r: "br_fits r" "br_in_range r (length bytes)" using Cons.prems by simp_all
  note b = br_bounds[OF r(1) assms(1) r(2)] and len = length_br_selected[OF r(1) assms(1) r(2)]
  have "wadd (br_start r (length bytes)) ?n = br_end r (length bytes)"
    using b len assms(1) by (simp add: wadd_eq)
  then have s: "slice bytes (br_start r (length bytes)) (wadd (br_start r (length bytes)) ?n) = Some (br_selected r bytes)"
    using slice_selected[OF r(1) assms(1) r(2)] by simp
  have w: "wadd (length done) ?n = length done + ?n" using Cons.prems(3) by (simp add: wadd_eq)
  have "concat_loop bytes (map (\<lambda>r. (length (br_selected r bytes), br_start r (length bytes))) rs)
      ((done @ br_selected r bytes) @ drop ?n rest) (length (done @ br_selected r bytes)) =
      Inr ((done @ br_selected r bytes) @ concat (map (\<lambda>r. br_selected r bytes) rs))"
    using Cons.prems by (intro Cons.IH) simp_all
  then show ?case using s w Cons.prems(4) by simp
qed simp

lemma extract_concat_eq:
  assumes "list_all br_fits rs" and "length bytes < M64"
    and "sum_list (map (\<lambda>r. length (br_selected r bytes)) rs) < M64"
  shows "extract_byte_ranges_concat bytes rs = bind_res (extract_byte_ranges bytes rs) (\<lambda>bs. Inr (concat bs))"
proof -
  have ls: "map (length_and_start bytes) rs = map (\<lambda>r. if br_in_range r (length bytes)
      then Inr (length (br_selected r bytes), br_start r (length bytes))
      else Inl (InvalidByteRangeError r (length bytes))) rs"
    using assms by (intro map_cong refl length_and_start_eq) (auto simp: list_all_iff)
  show ?thesis
  proof (cases "find (\<lambda>r. \<not> br_in_range r (length bytes)) rs")
    case None
    let ?out = "sum_list (map (\<lambda>r. length (br_selected r bytes)) rs)"
    have all: "list_all (\<lambda>r. br_in_range r (length bytes)) rs"
      using None by (auto simp: find_None_iff list_all_iff)
    have "length (concat (map (\<lambda>r. br_selected r bytes) rs)) = ?out"
      by (simp add: length_concat comp_def)
    then have "?out = 0 \<Longrightarrow> concat (map (\<lambda>r. br_selected r bytes) rs) = []" by simp
    then show ?thesis
      using concat_loop_ok[OF assms(2,1) all, of "[]" "replicate ?out 0"] assms None
      by (simp add: extract_byte_ranges_concat_def ls collect_res_find extract_byte_ranges_eq comp_def wsum_eq Let_def)
  next
    case (Some r)
    then show ?thesis
      by (simp add: extract_byte_ranges_concat_def ls collect_res_find extract_byte_ranges_eq[OF assms(1,2)])
  qed
qed

text \<open>
  \<open>extract_byte_ranges\<close> returns the selected bytes of every range, or the error of the
  first range that reaches beyond the value, and never panics; \<open>extract_byte_ranges_concat\<close> returns
  the concatenation of the same bytes or the same error.  The ends of the ranges and the total
  length are \<open>u64\<close> values.
\<close>

theorem extract_byte_ranges_correct:
  assumes "list_all br_fits rs" and "length bytes < M64"
    and "sum_list (map (\<lambda>r. length (br_selected r bytes)) rs) < M64"
  shows "extract_byte_ranges bytes rs =
      (case find (\<lambda>r. \<not> br_in_range r (length bytes)) rs of
         None \<Rightarrow> Inr (map (\<lambda>r. br_selected r bytes) rs)
       | Some r \<Rightarrow> Inl (InvalidByteRangeError r (length bytes))) \<and>
    extract_byte_ranges_concat bytes rs = bind_res (extract_byte_ranges bytes rs) (\<lambda>bs. Inr (concat bs))"
  using extract_byte_ranges_eq[OF assms(1,2)] extract_concat_eq[OF assms] by blast

theorem extract_byte_ranges_correct_witness:
  "extract_byte_ranges [1, 2, 3, 4, 5] [FromStart 1 (Some 2), Suffix 1, FromStart 3 None] = Inr [[2, 3], [5], [4, 5]] \<and>
   extract_byte_ranges_concat [1, 2, 3, 4, 5] [FromStart 1 (Some 2), Suffix 1, FromStart 3 None] = Inr [2, 3, 5, 4, 5]"
  using extract_byte_ranges_correct[of "[FromStart 1 (Some 2), Suffix 1, FromStart 3 None]" "[1, 2, 3, 4, 5]"]
  by (simp add: M64_def)

subsection \<open>Reading through a cursor\<close>

text \<open>
  Reading through a cursor agrees with extraction from the slice, except for a range from a positive
  offset to the end: the code asks \<open>read_exact\<close> for the whole length of the value there.
\<close>

fun br_reads_whole_from_offset :: "byte_range \<Rightarrow> bool" where
  "br_reads_whole_from_offset (FromStart off None) \<longleftrightarrow> 0 < off"
| "br_reads_whole_from_offset _ \<longleftrightarrow> False"

lemma read_seek_range_ok:
  assumes "br_in_range r (length bytes)" and "length bytes < 2 ^ 63" and "\<not> br_reads_whole_from_offset r"
  shows "read_seek_range bytes r = Inr (br_selected r bytes)"
  using assms by (cases "(bytes, r)" rule: read_seek_range.cases) (auto simp: read_exact_def)

lemma read_seek_offset_to_end_fails:
  "0 < off \<Longrightarrow> bytes \<noteq> [] \<Longrightarrow> read_seek_range bytes (FromStart off None) = Inl UnexpectedEof"
  by (cases bytes) (auto simp: read_exact_def)

text \<open>
  \<open>extract_byte_ranges_read_seek\<close> reads the same bytes as \<open>extract_byte_ranges\<close> when
  every range is within the value and no range goes from a positive offset to the end; such a
  range within a non-empty value fails although the bytes are there.
\<close>

theorem read_seek_agrees:
  assumes "list_all (\<lambda>r. br_in_range r (length bytes)) rs" and "length bytes < 2 ^ 63"
  shows "(list_all (\<lambda>r. \<not> br_reads_whole_from_offset r) rs \<longrightarrow>
       extract_byte_ranges_read_seek bytes rs = Inr (map (\<lambda>r. br_selected r bytes) rs)) \<and>
     (0 < off \<and> bytes \<noteq> [] \<longrightarrow>
       extract_byte_ranges_read_seek bytes (FromStart off None # rs) = Inl UnexpectedEof)"
proof (intro conjI impI)
  assume "list_all (\<lambda>r. \<not> br_reads_whole_from_offset r) rs"
  with assms have "map (read_seek_range bytes) rs = map (\<lambda>r. Inr (br_selected r bytes)) rs"
    by (auto simp: list_all_iff intro!: read_seek_range_ok)
  then show "extract_byte_ranges_read_seek bytes rs = Inr (map (\<lambda>r. br_selected r bytes) rs)"
    by (simp add: extract_byte_ranges_read_seek_def del: map_eq_conv)
next
  assume "0 < off \<and> bytes \<noteq> []"
  then show "extract_byte_ranges_read_seek bytes (FromStart off None # rs) = Inl UnexpectedEof"
    by (simp add: extract_byte_ranges_read_seek_def read_seek_offset_to_end_fails del: read_seek_range.simps)
qed

theorem read_seek_agrees_witness:
  "extract_byte_ranges_read_seek [7, 8, 9] [FromStart 0 None, Suffix 2] = Inr [[7, 8, 9], [8, 9]] \<and>
   extract_byte_ranges_read_seek [7, 8, 9] [FromStart 1 None, FromStart 0 None, Suffix 2] = Inl UnexpectedEof"
  using read_seek_agrees[of "[7, 8, 9]" "[FromStart 0 None, Suffix 2]" 1] by simp

subsection \<open>Construction and order\<close>

text \<open>The elements of the range bounds a byte range is created from.\<close>

fun bounds_mem :: "range_bound \<Rightarrow> range_bound \<Rightarrow> nat \<Rightarrow> bool" where
  "bounds_mem lo hi i \<longleftrightarrow>
     (case lo of Included s \<Rightarrow> s \<le> i | Excluded s \<Rightarrow> s < i | Unbounded \<Rightarrow> True) \<and>
     (case hi of Included e \<Rightarrow> i \<le> e | Excluded e \<Rightarrow> i < e | Unbounded \<Rightarrow> True)"

text \<open>
  The conversion is defined for bounds that are not inverted and whose ends are \<open>u64\<close> values
  (otherwise the subtraction in \<open>new\<close> underflows).
\<close>

fun bounds_ok :: "range_bound \<Rightarrow> range_bound \<Rightarrow> bool" where
  "bounds_ok (Included s) (Included e) \<longleftrightarrow> s \<le> e \<and> e + 1 < M64"
| "bounds_ok (Included s) (Excluded e) \<longleftrightarrow> s \<le> e \<and> e < M64"
| "bounds_ok (Excluded s) (Included e) \<longleftrightarrow> s \<le> e \<and> e + 1 < M64"
| "bounds_ok (Excluded s) (Excluded e) \<longleftrightarrow> s < e \<and> e < M64"
| "bounds_ok (Excluded s) Unbounded \<longleftrightarrow> s + 1 < M64"
| "bounds_ok Unbounded (Included e) \<longleftrightarrow> e + 1 < M64"
| "bounds_ok Unbounded (Excluded e) \<longleftrightarrow> e < M64"
| "bounds_ok _ _ \<longleftrightarrow> True"

text \<open>
  The byte range created from range bounds selects exactly the positions the bounds
  contain: position \<open>i\<close> of a value is between its start and its end iff it satisfies the bounds.
\<close>

theorem byte_range_new_correct:
  assumes "bounds_ok lo hi" and "i < len"
  shows "br_start (byte_range_new lo hi) len \<le> i \<and> i < br_end (byte_range_new lo hi) len \<longleftrightarrow> bounds_mem lo hi i"
  using assms by (cases "(lo, hi)" rule: byte_range_new.cases) (auto simp: wadd_eq wsub_eq)

theorem byte_range_new_correct_witness:
  "byte_range_new (Excluded 2) (Included 4) = FromStart 3 (Some 2) \<and>
   (br_start (byte_range_new (Excluded 2) (Included 4)) 9 \<le> 4 \<and> 4 < br_end (byte_range_new (Excluded 2) (Included 4)) 9 \<longleftrightarrow>
    bounds_mem (Excluded 2) (Included 4) 4)"
proof (rule conjI)
  show "byte_range_new (Excluded 2) (Included 4) = FromStart 3 (Some 2)"
    by (simp add: wadd_def wsub_def M64_def)
  show "br_start (byte_range_new (Excluded 2) (Included 4)) 9 \<le> 4 \<and> 4 < br_end (byte_range_new (Excluded 2) (Included 4)) 9 \<longleftrightarrow>
    bounds_mem (Excluded 2) (Included 4) 4"
    by (rule byte_range_new_correct) (simp_all add: wadd_def wsub_def M64_def)
qed

end
