(* ===== verification/Store_Key.thy ===== *)
theory Store_Key
  imports Zarrs_Prelude "HOL-Library.List_Lexorder" "HOL-Library.Char_ord"
begin

text \<open>
  Store keys and prefixes (\<open>zarrs_storage/src/store_key.rs\<close>, \<open>store_prefix.rs\<close>).  A \<open>String\<close> is the
  list of its bytes; the order of keys is the lexicographic order of bytes, as \<open>String\<close>'s.  The
  newtypes \<open>StoreKey\<close> and \<open>StorePrefix\<close> are strings, \<open>validate_key\<close> and \<open>validate_prefix\<close> their
  invariants.  \<open>StorePrefix::parent\<close> goes through \<open>std::path::Path\<close> and is not modelled.
\<close>

type_synonym store_key = string
type_synonym store_prefix = string

subsection \<open>Strings\<close>

abbreviation slash :: char where
  "slash \<equiv> CHR ''/''"

definition starts_with :: "string \<Rightarrow> string \<Rightarrow> bool" where
  "starts_with s p \<longleftrightarrow> take (length p) s = p"

definition ends_with :: "string \<Rightarrow> string \<Rightarrow> bool" where
  "ends_with s p \<longleftrightarrow> starts_with (rev s) (rev p)"

fun str_contains :: "string \<Rightarrow> string \<Rightarrow> bool" where
  "str_contains [] p \<longleftrightarrow> p = []"
| "str_contains (c # cs) p \<longleftrightarrow> starts_with (c # cs) p \<or> str_contains cs p"

definition strip_prefix :: "string \<Rightarrow> string \<Rightarrow> string option" where
  "strip_prefix s p = (if starts_with s p then Some (drop (length p) s) else None)"

definition strip_suffix :: "string \<Rightarrow> string \<Rightarrow> string option" where
  "strip_suffix s p = (if ends_with s p then Some (take (length s - length p) s) else None)"

text \<open>\<open>str::split\<close> on a character and \<open>join\<close>\<close>

fun split_on :: "char \<Rightarrow> string \<Rightarrow> string list" where
  "split_on c [] = [[]]"
| "split_on c (x # xs) =
     (if x = c then [] # split_on c xs
      else case split_on c xs of [] \<Rightarrow> [[x]] | y # ys \<Rightarrow> (x # y) # ys)"

fun join :: "string \<Rightarrow> string list \<Rightarrow> string" where
  "join sep [] = []"
| "join sep [x] = x"
| "join sep (x # y # ys) = x @ sep @ join sep (y # ys)"

subsection \<open>Store keys\<close>

datatype store_key_error = StoreKeyError string
datatype store_prefix_error = StorePrefixError string

definition key_root :: store_key where
  "key_root = []"

definition validate_key :: "string \<Rightarrow> bool" where
  "validate_key key \<longleftrightarrow> \<not> starts_with key [slash] \<and> \<not> ends_with key [slash] \<and> \<not> str_contains key [slash, slash]"

definition key_new :: "string \<Rightarrow> store_key_error + store_key" where
  "key_new key = (if validate_key key then Inr key else Inl (StoreKeyError key))"

definition has_prefix :: "store_key \<Rightarrow> store_prefix \<Rightarrow> bool" where
  "has_prefix key p \<longleftrightarrow> starts_with key p"

definition key_to_prefix :: "store_key \<Rightarrow> store_prefix" where
  "key_to_prefix key = (if key = [] then [] else key @ [slash])"

definition key_parent :: "store_key \<Rightarrow> store_prefix" where
  "key_parent key =
     (let key_split = split_on slash key;
          parent = join [slash] (take (length key_split - 1) key_split)
      in if parent \<noteq> [] then parent @ [slash] else parent)"

subsection \<open>Store prefixes\<close>

definition validate_prefix :: "string \<Rightarrow> bool" where
  "validate_prefix p \<longleftrightarrow> p = [] \<or> (ends_with p [slash] \<and> \<not> starts_with p [slash])"

definition prefix_new :: "string \<Rightarrow> store_prefix_error + store_prefix" where
  "prefix_new p = (if validate_prefix p then Inr p else Inl (StorePrefixError p))"

definition prefix_root :: store_prefix where
  "prefix_root = []"

definition key_of_prefix :: "store_prefix \<Rightarrow> store_key" where
  "key_of_prefix p = (case strip_suffix p [slash] of Some k \<Rightarrow> k | None \<Rightarrow> p)"

subsection \<open>Lemmas on strings\<close>

lemma starts_with_iff: "starts_with s p \<longleftrightarrow> (\<exists>r. s = p @ r)"
  by (metis append_eq_conv_conj append_take_drop_id starts_with_def)

lemma ends_with_iff: "ends_with s p \<longleftrightarrow> (\<exists>r. s = r @ p)"
  unfolding ends_with_def starts_with_iff by (metis rev_append rev_rev_ident)

lemma starts_with_simps [simp]:
  "starts_with s []" "starts_with [] (c # p) = False" "starts_with (d # s) (c # p) \<longleftrightarrow> d = c \<and> starts_with s p"
  by (auto simp: starts_with_def)

lemma ends_with_snoc [simp]: "ends_with (s @ [d]) [c] \<longleftrightarrow> d = c" "\<not> ends_with [] [c]"
  by (auto simp: ends_with_iff)

lemma str_contains_append: "str_contains (u @ p @ v) p"
proof (induction u)
  case Nil
  have "starts_with (p @ v) p" by (auto simp: starts_with_iff)
  then show ?case by (cases "p @ v") auto
qed simp

lemma str_contains_iff: "str_contains s p \<longleftrightarrow> (\<exists>u v. s = u @ p @ v)"
proof
  show "str_contains s p \<Longrightarrow> \<exists>u v. s = u @ p @ v"
  proof (induction s)
    case (Cons c s)
    then consider "starts_with (c # s) p" | "str_contains s p" by auto
    then show ?case
    proof cases
      case 1
      then show ?thesis by (metis append_Nil starts_with_iff)
    next
      case 2
      then show ?thesis using Cons.IH by (metis append_Cons)
    qed
  qed simp
qed (use str_contains_append in blast)

lemma split_on_ne [simp]: "split_on c s \<noteq> []"
  by (induction s) (auto split: list.splits)

lemma split_on_no_sep: "x \<in> set (split_on c s) \<Longrightarrow> c \<notin> set x"
proof (induction s arbitrary: x)
  case (Cons d s)
  then show ?case by (cases "split_on c s") (auto split: if_splits)
qed simp

lemma join_Cons: "ys \<noteq> [] \<Longrightarrow> join sep (x # ys) = x @ sep @ join sep ys"
  by (cases ys) simp_all

lemma join_split [simp]: "join [c] (split_on c s) = s"
proof (induction s)
  case (Cons d s)
  show ?case
  proof (cases "d = c")
    case True
    then show ?thesis using Cons by (simp add: join_Cons)
  next
    case False
    obtain y ys where "split_on c s = y # ys" by (cases "split_on c s") auto
    then show ?thesis using Cons False by (cases ys) auto
  qed
qed simp

lemma split_on_no: "c \<notin> set x \<Longrightarrow> split_on c x = [x]"
  by (induction x) auto

lemma split_on_first:
  assumes "c \<notin> set x"
  shows "split_on c (x @ c # y) = x # split_on c y"
  using assms by (induction x) auto

lemma join_snoc: "xs \<noteq> [] \<Longrightarrow> join sep (xs @ [x]) = join sep xs @ sep @ x"
  by (induction sep xs rule: join.induct) simp_all

lemma split_on_last:
  assumes "c \<notin> set y"
  shows "split_on c (x @ c # y) = split_on c x @ [y]"
proof (induction x)
  case Nil
  then show ?case using assms by (simp add: split_on_no)
next
  case (Cons d x)
  then show ?case by (cases "split_on c x") auto
qed

lemma takeWhile_sep:
  "c \<notin> set u \<Longrightarrow> takeWhile (\<lambda>d. d \<noteq> c) (u @ c # v) = u"
  "c \<notin> set u \<Longrightarrow> dropWhile (\<lambda>d. d \<noteq> c) (u @ c # v) = c # v"
  by (induction u) auto

text \<open>The last component of a string: what follows its last separator.\<close>

lemma split_last_component:
  "\<exists>u n. c \<notin> set n \<and> ((c \<notin> set s \<and> s = n) \<or> s = u @ c # n)"
  by (cases "c \<in> set s") (use split_list_last in fastforce)+

subsection \<open>Keys and prefixes\<close>

lemma key_parent_no_slash: "slash \<notin> set k \<Longrightarrow> key_parent k = []"
  by (simp add: key_parent_def split_on_no)

lemma key_parent_slash:
  "slash \<notin> set n \<Longrightarrow> key_parent (u @ slash # n) = (if u = [] then [] else u @ [slash])"
  by (simp add: key_parent_def split_on_last Let_def)

lemma validate_key_iff:
  "validate_key k \<longleftrightarrow> (\<nexists>r. k = slash # r) \<and> (\<nexists>r. k = r @ [slash]) \<and> (\<nexists>u v. k = u @ slash # slash # v)"
  by (simp add: validate_key_def starts_with_iff ends_with_iff str_contains_iff)

lemma validate_prefix_snoc: "u \<noteq> [] \<Longrightarrow> validate_prefix (u @ [slash]) \<longleftrightarrow> hd u \<noteq> slash"
proof -
  assume "u \<noteq> []"
  then obtain a v where "u = a # v" by (cases u) auto
  then show ?thesis using ends_with_snoc(1)[of u slash slash] by (simp add: validate_prefix_def)
qed

lemma validate_key_hd: "validate_key k \<Longrightarrow> k \<noteq> [] \<Longrightarrow> hd k \<noteq> slash"
  by (cases k) (auto simp: validate_key_iff)

text \<open>The parent of a valid key is a key prefix that ends in a slash; the rest is a single component.\<close>

lemma key_parent_split:
  assumes "validate_key k"
  obtains n where "k = key_parent k @ n" "slash \<notin> set n" "validate_prefix (key_parent k)"
    "validate_key (key_of_prefix (key_parent k))" "k \<noteq> [] \<Longrightarrow> n \<noteq> []"
proof -
  obtain u n where n: "slash \<notin> set n" and k: "slash \<notin> set k \<and> k = n \<or> k = u @ slash # n"
    using split_last_component[of slash k] by blast
  from k show thesis
  proof
    assume *: "slash \<notin> set k \<and> k = n"
    have "key_of_prefix [] = []" by (simp add: key_of_prefix_def strip_suffix_def)
    then show thesis
      using * n that[of n] by (simp add: key_parent_no_slash validate_prefix_def validate_key_iff)
  next
    assume ku: "k = u @ slash # n"
    have u: "u \<noteq> []" "hd u \<noteq> slash"
      using validate_key_hd[OF assms] ku by (cases u; simp)+
    have ne: "n \<noteq> []" using assms ku by (auto simp: validate_key_iff)
    have "validate_key u"
      unfolding validate_key_iff
    proof (intro conjI notI; elim exE)
      fix r assume "u = slash # r" then show False using u by simp
    next
      fix r assume "u = r @ [slash]"
      then have "k = r @ slash # slash # n" using ku by simp
      then show False using assms unfolding validate_key_iff by blast
    next
      fix x y assume "u = x @ slash # slash # y"
      then have "k = x @ slash # slash # y @ slash # n" using ku by simp
      then show False using assms unfolding validate_key_iff by blast
    qed
    moreover have "key_of_prefix (u @ [slash]) = u" by (simp add: key_of_prefix_def strip_suffix_def)
    ultimately show thesis
      using that[of n] ku n u ne by (simp add: key_parent_slash validate_prefix_snoc)
  qed
qed

lemma key_prefix_inverse: "key_of_prefix (key_to_prefix k) = k"
  by (simp add: key_of_prefix_def key_to_prefix_def strip_suffix_def)

lemma key_to_prefix_valid: "validate_key k \<Longrightarrow> validate_prefix (key_to_prefix k)"
  by (cases "k = []") (simp_all add: key_to_prefix_def validate_prefix_snoc validate_key_hd validate_prefix_def[of "[]"])

text \<open>
  A valid key is its parent followed by one component without a slash (non-empty unless
  the key is the root); the parent and the prefix of a valid key are valid prefixes, the key of the
  parent is a valid key again, and \<open>From<&StorePrefix>\<close> inverts \<open>to_prefix\<close>.
\<close>

theorem store_key_structure:
  assumes "validate_key k"
  shows "(\<exists>n. k = key_parent k @ n \<and> slash \<notin> set n \<and> (k = [] \<or> n \<noteq> [])) \<and>
     has_prefix k (key_parent k) \<and> validate_prefix (key_parent k) \<and>
     validate_key (key_of_prefix (key_parent k)) \<and>
     validate_prefix (key_to_prefix k) \<and> key_of_prefix (key_to_prefix k) = k"
proof -
  obtain n where n: "k = key_parent k @ n" "slash \<notin> set n" "validate_prefix (key_parent k)"
    "validate_key (key_of_prefix (key_parent k))" "k \<noteq> [] \<Longrightarrow> n \<noteq> []"
    using key_parent_split[OF assms] by blast
  have "has_prefix k (key_parent k)" unfolding has_prefix_def starts_with_iff using n(1) by blast
  then show ?thesis using n key_to_prefix_valid[OF assms] key_prefix_inverse by blast
qed

theorem store_key_structure_witness:
  "key_parent ''a/b/c'' = ''a/b/'' \<and> validate_prefix (key_parent ''a/b/c'') \<and>
   validate_key (key_of_prefix (key_parent ''a/b/c'')) \<and> key_of_prefix (key_to_prefix ''a/b/c'') = ''a/b/c''"
proof -
  have "validate_key ''a/b/c''" by (simp add: validate_key_def ends_with_def)
  from store_key_structure[OF this] show ?thesis by (simp add: key_parent_def)
qed

end
