(* ===== verification/Memory_Store.thy ===== *)
theory Memory_Store
  imports Byte_Range Store_Key
begin

text \<open>
  The storage traits (\<open>zarrs_storage/src/storage_sync.rs\<close>) and the in-memory store
  (\<open>zarrs_storage/src/store/memory_store.rs\<close>).  The store's state is the \<open>BTreeMap\<close> behind its mutex,
  here the association list of its entries in the order of the keys; every operation holds the
  lock for its whole body, so operations are state transformers.  The locale
  \<open>key_value_store\<close> is the contract the array code relies on, a finite map from keys to
  values; the provided methods of the traits are functions of the required ones.  \<open>StoragePanic\<close> is
  the value of a panic.
\<close>

datatype storage_error =
  ReadOnly
| IOError io_failure
| InvalidMetadata store_key string
| MissingMetadata store_prefix
| StorageStorePrefixError store_prefix_error
| InvalidStoreKey store_key_error
| StorageInvalidByteRange byte_range u64
| Unsupported string
| UnknownKeySize store_key
| OtherError string
| StoragePanic

type_synonym 's setter = "'s \<Rightarrow> store_key \<Rightarrow> bytes \<Rightarrow> storage_error + 's"
type_synonym 's getter = "'s \<Rightarrow> store_key \<Rightarrow> storage_error + bytes option"
type_synonym 's partial_getter =
  "'s \<Rightarrow> store_key \<Rightarrow> byte_range list \<Rightarrow> storage_error + (storage_error + bytes) list option"
type_synonym 's partial_setter = "'s \<Rightarrow> store_key \<Rightarrow> (u64 \<times> bytes) list \<Rightarrow> storage_error + 's"
type_synonym 's eraser = "'s \<Rightarrow> store_key \<Rightarrow> storage_error + 's"

record store_keys_prefixes =
  skp_keys :: "store_key list"
  skp_prefixes :: "store_prefix list"

subsection \<open>Provided methods of the storage traits\<close>

definition default_get_partial ::
    "'s partial_getter \<Rightarrow> 's \<Rightarrow> store_key \<Rightarrow> byte_range \<Rightarrow> storage_error + bytes option" where
  "default_get_partial get_partial_many s key r =
     bind_res (get_partial_many s key [r]) (\<lambda>bytes.
       case bytes of
         None \<Rightarrow> Inr None
       | Some (output # _) \<Rightarrow> bind_res output (\<lambda>b. Inr (Some b))
       | Some [] \<Rightarrow> Inl StoragePanic)"

definition default_get :: "'s partial_getter \<Rightarrow> 's getter" where
  "default_get get_partial_many s key = default_get_partial get_partial_many s key (FromStart 0 None)"

definition default_set_partial ::
    "'s partial_setter \<Rightarrow> 's \<Rightarrow> store_key \<Rightarrow> u64 \<Rightarrow> bytes \<Rightarrow> storage_error + 's" where
  "default_set_partial set_partial_many s key off v = set_partial_many s key [(off, v)]"

fun default_erase_many :: "'s eraser \<Rightarrow> 's \<Rightarrow> store_key list \<Rightarrow> storage_error + 's" where
  "default_erase_many erase s [] = Inr s"
| "default_erase_many erase s (key # ks) = bind_res (erase s key) (\<lambda>s. default_erase_many erase s ks)"

definition resize :: "bytes \<Rightarrow> usize \<Rightarrow> bytes" where
  "resize b n = take n b @ replicate (n - length b) 0"

definition copy_into :: "bytes \<Rightarrow> usize \<Rightarrow> bytes \<Rightarrow> bytes option" where
  "copy_into b off v =
     (let e = wadd off (length v) in
      if off \<le> e \<and> e \<le> length b then Some (take off b @ v @ drop e b) else None)"

fun partial_many_loop :: "bytes \<Rightarrow> (u64 \<times> bytes) list \<Rightarrow> bytes option" where
  "partial_many_loop bytes_out [] = Some bytes_out"
| "partial_many_loop bytes_out ((off, v) # ovs) =
     (let bytes_out = (if length bytes_out < wadd off (length v) then resize bytes_out (wadd off (length v))
                       else bytes_out)
      in Option.bind (copy_into bytes_out off v) (\<lambda>bytes_out. partial_many_loop bytes_out ovs))"

definition store_set_partial_many :: "'s getter \<Rightarrow> 's setter \<Rightarrow> 's partial_setter" where
  "store_set_partial_many get set_op s key ovs =
     bind_res (get s key) (\<lambda>b.
       case partial_many_loop (case b of None \<Rightarrow> [] | Some b \<Rightarrow> b) ovs of
         None \<Rightarrow> Inl StoragePanic
       | Some bytes_out \<Rightarrow> set_op s key bytes_out)"

definition discover_children ::
    "('s \<Rightarrow> store_prefix \<Rightarrow> storage_error + store_keys_prefixes) \<Rightarrow> 's \<Rightarrow> store_prefix \<Rightarrow>
     storage_error + store_prefix list" where
  "discover_children list_dir s p =
     bind_res (list_dir s p) (\<lambda>kp.
       collect_res (map (\<lambda>v. case prefix_new v of Inl e \<Rightarrow> Inl (StorageStorePrefixError e) | Inr p \<Rightarrow> Inr p)
         (filter (\<lambda>v. \<not> starts_with v ''__'') (skp_prefixes kp))))"

subsection \<open>The memory store\<close>

type_synonym memory_store = "(store_key \<times> bytes) list"

fun btree_insert :: "('k::linorder) \<Rightarrow> 'v \<Rightarrow> ('k \<times> 'v) list \<Rightarrow> ('k \<times> 'v) list" where
  "btree_insert k v [] = [(k, v)]"
| "btree_insert k v ((k', v') # m) =
     (if k < k' then (k, v) # (k', v') # m
      else if k = k' then (k, v) # m
      else (k', v') # btree_insert k v m)"

definition btree_remove :: "'k \<Rightarrow> ('k \<times> 'v) list \<Rightarrow> ('k \<times> 'v) list" where
  "btree_remove k m = filter (\<lambda>(k', _). k' \<noteq> k) m"

definition memory_new :: memory_store where
  "memory_new = []"

definition memory_set_impl :: "memory_store \<Rightarrow> store_key \<Rightarrow> bytes \<Rightarrow> u64 \<Rightarrow> bool \<Rightarrow> storage_error + memory_store" where
  "memory_set_impl m key v off trunc =
     (let entry = (case map_of m key of None \<Rightarrow> [] | Some b \<Rightarrow> b) in
      if off = 0 \<and> entry = [] then Inr (btree_insert key v m)
      else
        let n = wadd off (length v);
            data = (if length entry < n then resize entry n else if trunc then take n entry else entry)
        in case copy_into data off v of
             None \<Rightarrow> Inl StoragePanic
           | Some data \<Rightarrow> Inr (btree_insert key data m))"

definition memory_get :: "memory_store getter" where
  "memory_get m key = Inr (map_of m key)"

definition memory_get_range :: "bytes \<Rightarrow> byte_range \<Rightarrow> storage_error + bytes" where
  "memory_get_range data r =
     (let s = br_start r (length data); e = br_end r (length data) in
      if length data < e then Inl (StorageInvalidByteRange r (length data))
      else case slice data s e of None \<Rightarrow> Inl StoragePanic | Some b \<Rightarrow> Inr b)"

definition memory_get_partial_many :: "memory_store partial_getter" where
  "memory_get_partial_many m key rs =
     (case map_of m key of
        None \<Rightarrow> Inr None
      | Some data \<Rightarrow> Inr (Some (map (memory_get_range data) rs)))"

definition memory_size_key :: "memory_store \<Rightarrow> store_key \<Rightarrow> storage_error + u64 option" where
  "memory_size_key m key = Inr (map_option length (map_of m key))"

definition memory_set :: "memory_store setter" where
  "memory_set m key v = memory_set_impl m key v 0 True"

fun memory_set_partial_many :: "memory_store partial_setter" where
  "memory_set_partial_many m key [] = Inr m"
| "memory_set_partial_many m key ((off, v) # ovs) =
     bind_res (memory_set_impl m key v off False) (\<lambda>m. memory_set_partial_many m key ovs)"

definition memory_erase :: "memory_store eraser" where
  "memory_erase m key = Inr (btree_remove key m)"

definition memory_erase_prefix :: "memory_store \<Rightarrow> store_prefix \<Rightarrow> storage_error + memory_store" where
  "memory_erase_prefix m p =
     Inr (foldl (\<lambda>m key. if has_prefix key p then btree_remove key m else m) m (map fst m))"

definition memory_list :: "memory_store \<Rightarrow> storage_error + store_key list" where
  "memory_list m = Inr (map fst m)"

definition memory_list_prefix :: "memory_store \<Rightarrow> store_prefix \<Rightarrow> storage_error + store_key list" where
  "memory_list_prefix m p = Inr (filter (\<lambda>key. has_prefix key p) (map fst m))"

text \<open>A \<open>BTreeSet\<close> is the sorted list of its elements.\<close>

fun btree_set_insert :: "('k::linorder) \<Rightarrow> 'k list \<Rightarrow> 'k list" where
  "btree_set_insert k [] = [k]"
| "btree_set_insert k (x # xs) =
     (if k < x then k # x # xs else if k = x then x # xs else x # btree_set_insert k xs)"

definition list_dir_step ::
    "store_prefix \<Rightarrow> store_key list \<times> store_prefix list \<Rightarrow> store_key \<Rightarrow>
     storage_error + store_key list \<times> store_prefix list" where
  "list_dir_step p acc key =
     (let (keys, prefixes) = acc in
      if has_prefix key p then
        let key_strip = drop (length p) key;
            key_strip = (case strip_prefix key_strip [slash] of None \<Rightarrow> key_strip | Some k \<Rightarrow> k);
            components = split_on slash key_strip
        in if 1 < length components then
             (case prefix_new (p @ components ! 0 @ [slash]) of
                Inl e \<Rightarrow> Inl (StorageStorePrefixError e)
              | Inr q \<Rightarrow> Inr (keys, btree_set_insert q prefixes))
           else if key_parent key = p then Inr (keys @ [key], prefixes)
           else Inr (keys, prefixes)
      else Inr (keys, prefixes))"

fun list_dir_loop ::
    "store_prefix \<Rightarrow> store_key list \<times> store_prefix list \<Rightarrow> store_key list \<Rightarrow>
     storage_error + store_key list \<times> store_prefix list" where
  "list_dir_loop p acc [] = Inr acc"
| "list_dir_loop p acc (key # ks) = bind_res (list_dir_step p acc key) (\<lambda>acc. list_dir_loop p acc ks)"

definition memory_list_dir :: "memory_store \<Rightarrow> store_prefix \<Rightarrow> storage_error + store_keys_prefixes" where
  "memory_list_dir m p =
     bind_res (list_dir_loop p ([], []) (map fst m)) (\<lambda>(keys, prefixes).
       Inr \<lparr>skp_keys = keys, skp_prefixes = prefixes\<rparr>)"

fun size_prefix_loop :: "memory_store \<Rightarrow> u64 \<Rightarrow> store_key list \<Rightarrow> storage_error + u64" where
  "size_prefix_loop m sz [] = Inr sz"
| "size_prefix_loop m sz (key # ks) =
     bind_res (memory_size_key m key) (\<lambda>n.
       size_prefix_loop m (case n of None \<Rightarrow> sz | Some n \<Rightarrow> wadd sz n) ks)"

definition memory_size_prefix :: "memory_store \<Rightarrow> store_prefix \<Rightarrow> storage_error + u64" where
  "memory_size_prefix m p = bind_res (memory_list_prefix m p) (size_prefix_loop m 0)"

definition memory_size :: "memory_store \<Rightarrow> storage_error + u64" where
  "memory_size m = memory_size_prefix m prefix_root"

subsection \<open>Partial writes\<close>

text \<open>
  The meaning of a partial write: the old bytes, extended with zeros up to the end of the write,
  with the written bytes at their offset.
\<close>

definition overlay :: "bytes \<Rightarrow> u64 \<times> bytes \<Rightarrow> bytes" where
  "overlay b ov = (let (off, v) = ov; b' = b @ replicate (off + length v - length b) 0
     in take off b' @ v @ drop (off + length v) b')"

definition write_fits :: "u64 \<times> bytes \<Rightarrow> bool" where
  "write_fits ov \<longleftrightarrow> fst ov + length (snd ov) < M64"

lemma length_overlay: "length (overlay b (off, v)) = max (length b) (off + length v)"
  by (simp add: overlay_def)

lemma copy_into_overlay:
  assumes "off + length v < M64"
  shows "copy_into (if length b < wadd off (length v) then resize b (wadd off (length v)) else b) off v =
     Some (overlay b (off, v))"
  using assms by (auto simp: copy_into_def overlay_def resize_def wadd_eq Let_def)

lemma partial_many_loop_eq:
  "list_all write_fits ovs \<Longrightarrow> partial_many_loop b ovs = Some (foldl overlay b ovs)"
proof (induction ovs arbitrary: b)
  case (Cons ov ovs)
  obtain off v where ov: "ov = (off, v)" by (cases ov)
  then have "off + length v < M64" using Cons.prems by (simp add: write_fits_def)
  from copy_into_overlay[OF this, of b] show ?case using Cons ov by (simp add: Let_def)
qed simp

lemma length_foldl_overlay:
  "length b < M64 \<Longrightarrow> list_all write_fits ovs \<Longrightarrow> length (foldl overlay b ovs) < M64"
proof (induction ovs arbitrary: b)
  case (Cons ov ovs)
  have "length (overlay b ov) < M64"
    using Cons.prems by (cases ov) (simp add: length_overlay write_fits_def)
  then show ?case using Cons by simp
qed simp

text \<open>The bytes of a partial write are read back, and the bytes outside it are kept.\<close>

lemma overlay_read_back: "take (length v) (drop off (overlay b (off, v))) = v"
  by (simp add: overlay_def Let_def)

lemma overlay_frame:
  assumes "i < length b" and "i < off \<or> off + length v \<le> i"
  shows "overlay b (off, v) ! i = b ! i"
  using assms by (auto simp: overlay_def Let_def nth_append min_def)

subsection \<open>The contract of a store\<close>

text \<open>
  \<open>contents s\<close> is the finite map a store stands for; \<open>ok\<close> its invariant.  Values are shorter than
  \<open>2 ^ 64\<close> bytes.
\<close>

locale key_value_store =
  fixes ok :: "'s \<Rightarrow> bool"
    and contents :: "'s \<Rightarrow> store_key \<Rightarrow> bytes option"
    and get :: "'s getter"
    and set_op :: "'s setter"
    and erase :: "'s eraser"
    and get_partial_many :: "'s partial_getter"
  assumes value_fits: "ok s \<Longrightarrow> contents s k = Some b \<Longrightarrow> length b < M64"
    and get_ok: "ok s \<Longrightarrow> get s k = Inr (contents s k)"
    and set_ok: "ok s \<Longrightarrow> length v < M64 \<Longrightarrow>
      \<exists>s'. set_op s k v = Inr s' \<and> ok s' \<and> contents s' = (contents s)(k \<mapsto> v)"
    and erase_ok: "ok s \<Longrightarrow> \<exists>s'. erase s k = Inr s' \<and> ok s' \<and> contents s' = (contents s)(k := None)"
    and partial_none: "ok s \<Longrightarrow> contents s k = None \<Longrightarrow> get_partial_many s k rs = Inr None"
    and partial_some: "ok s \<Longrightarrow> contents s k = Some b \<Longrightarrow>
      list_all (\<lambda>r. br_fits r \<and> br_in_range r (length b)) rs \<Longrightarrow>
      get_partial_many s k rs = Inr (Some (map (\<lambda>r. Inr (br_selected r b)) rs))"
begin

text \<open>\<open>store_set_partial_many\<close> overlays the writes in order, and creates the key.\<close>

lemma set_partial_many_spec:
  assumes "ok s" and "list_all write_fits ovs"
  shows "\<exists>s'. store_set_partial_many get set_op s k ovs = Inr s' \<and> ok s' \<and>
     contents s' = (contents s)(k \<mapsto> foldl overlay (case contents s k of None \<Rightarrow> [] | Some b \<Rightarrow> b) ovs)"
proof -
  let ?b = "case contents s k of None \<Rightarrow> [] | Some b \<Rightarrow> b"
  have "length ?b < M64" using value_fits[OF assms(1)] by (auto split: option.splits)
  then have "length (foldl overlay ?b ovs) < M64" using assms(2) by (rule length_foldl_overlay)
  from set_ok[OF assms(1) this] show ?thesis
    by (simp add: store_set_partial_many_def get_ok[OF assms(1)] partial_many_loop_eq[OF assms(2)])
qed

lemma erase_many_spec:
  "ok s \<Longrightarrow> \<exists>s'. default_erase_many erase s ks = Inr s' \<and> ok s' \<and>
     contents s' = (\<lambda>k. if k \<in> set ks then None else contents s k)"
proof (induction ks arbitrary: s)
  case (Cons k ks)
  obtain s1 where s1: "erase s k = Inr s1" "ok s1" "contents s1 = (contents s)(k := None)"
    using erase_ok[OF Cons.prems] by blast
  from Cons.IH[OF s1(2)] show ?case using s1 by (auto simp: fun_eq_iff)
qed simp

text \<open>\<open>get_partial\<close> and the provided \<open>get\<close> read what \<open>get\<close> reads.\<close>

lemma get_partial_spec:
  assumes "ok s" and "\<And>b. contents s k = Some b \<Longrightarrow> br_fits r \<and> br_in_range r (length b)"
  shows "default_get_partial get_partial_many s k r = Inr (map_option (br_selected r) (contents s k))"
  using assms partial_none[OF assms(1)] partial_some[OF assms(1)]
  by (cases "contents s k") (simp_all add: default_get_partial_def)

lemma default_get_spec: "ok s \<Longrightarrow> default_get get_partial_many s k = get s k"
  using get_partial_spec[of s k "FromStart 0 None"] get_ok[of s k]
  by (cases "contents s k") (simp_all add: default_get_def)

lemma read_back_partial_write:
  assumes "ok s" and "write_fits (off, v)"
  shows "\<exists>s'. store_set_partial_many get set_op s k [(off, v)] = Inr s' \<and>
     default_get_partial get_partial_many s' k (FromStart off (Some (length v))) = Inr (Some v)"
proof -
  obtain s' where s': "store_set_partial_many get set_op s k [(off, v)] = Inr s'" "ok s'"
    "contents s' = (contents s)(k \<mapsto> overlay (case contents s k of None \<Rightarrow> [] | Some b \<Rightarrow> b) (off, v))"
    using set_partial_many_spec[OF assms(1), of "[(off, v)]" k] assms(2) by auto
  then show ?thesis
    using get_partial_spec[OF s'(2), of k "FromStart off (Some (length v))"] assms(2)
    by (simp add: write_fits_def length_overlay overlay_read_back)
qed

end

subsection \<open>The memory store satisfies the contract\<close>

definition memory_inv :: "memory_store \<Rightarrow> bool" where
  "memory_inv m \<longleftrightarrow> sorted_wrt (<) (map fst m) \<and> list_all (\<lambda>(_, b). length b < M64) m"

lemma map_of_btree_insert [simp]: "map_of (btree_insert k v m) = (map_of m)(k \<mapsto> v)"
  by (induction k v m rule: btree_insert.induct) (auto simp: fun_eq_iff)

lemma map_of_btree_remove [simp]: "map_of (btree_remove k m) = (map_of m)(k := None)"
  by (induction m) (auto simp: btree_remove_def fun_eq_iff)

lemma keys_btree_insert: "fst ` set (btree_insert k v m) = insert k (fst ` set m)"
  by (induction k v m rule: btree_insert.induct) auto

lemma sorted_btree_insert: "sorted_wrt (<) (map fst m) \<Longrightarrow> sorted_wrt (<) (map fst (btree_insert k v m))"
proof (induction k v m rule: btree_insert.induct)
  case (2 k v k' v' m)
  have "fst ` set (btree_insert k v m) = insert k (fst ` set m)" by (rule keys_btree_insert)
  then have "\<forall>x \<in> set (btree_insert k v m). fst x = k \<or> fst x \<in> fst ` set m" by auto
  then show ?case using 2 by fastforce
qed simp

lemma set_btree_insert: "set (btree_insert k v m) \<subseteq> insert (k, v) (set m)"
  by (induction k v m rule: btree_insert.induct) auto

lemma memory_inv_insert: "memory_inv m \<Longrightarrow> length v < M64 \<Longrightarrow> memory_inv (btree_insert k v m)"
  using set_btree_insert[of k v m] sorted_btree_insert[of m k v]
  by (fastforce simp: memory_inv_def list_all_iff)

lemma memory_inv_remove: "memory_inv m \<Longrightarrow> memory_inv (btree_remove k m)"
  by (auto simp: memory_inv_def btree_remove_def list_all_iff sorted_wrt_map intro: sorted_wrt_filter)

lemma memory_set_eq:
  assumes "length v < M64"
  shows "memory_set m k v = Inr (btree_insert k v m)"
  using assms
  by (auto simp: memory_set_def memory_set_impl_def copy_into_def resize_def wadd_eq Let_def)

lemma memory_get_range_ok:
  assumes "br_fits r" and "br_in_range r (length b)" and "length b < M64"
  shows "memory_get_range b r = Inr (br_selected r b)"
  using br_bounds[OF assms(1,3,2)] slice_selected[OF assms(1,3,2)] by (simp add: memory_get_range_def Let_def)

lemma memory_value_fits: "memory_inv m \<Longrightarrow> map_of m k = Some b \<Longrightarrow> length b < M64"
  by (auto simp: memory_inv_def list_all_iff dest!: map_of_SomeD)

interpretation memory: key_value_store memory_inv map_of memory_get memory_set memory_erase memory_get_partial_many
proof (unfold_locales, goal_cases)
  case (6 m k b rs)
  then show ?case
    using memory_value_fits by (auto simp: memory_get_partial_many_def list_all_iff intro!: memory_get_range_ok)
qed (auto simp: memory_get_def memory_set_eq memory_inv_insert memory_erase_def memory_inv_remove
    memory_get_partial_many_def memory_value_fits)

subsection \<open>Properties of the memory store\<close>

lemma memory_set_impl_overlay:
  assumes "off + length v < M64"
  shows "memory_set_impl m k v off False =
     Inr (btree_insert k (overlay (case map_of m k of None \<Rightarrow> [] | Some b \<Rightarrow> b) (off, v)) m)"
proof -
  define b where "b = (case map_of m k of None \<Rightarrow> [] | Some b \<Rightarrow> b)"
  have "overlay [] (0, v) = v" by (simp add: overlay_def)
  then show ?thesis
    using copy_into_overlay[OF assms, of b]
    by (auto simp: memory_set_impl_def Let_def b_def[symmetric] split: if_splits)
qed

lemma btree_insert_twice: "btree_insert k v' (btree_insert k v m) = btree_insert k v' m"
  by (induction k v m rule: btree_insert.induct) auto

lemma memory_set_partial_many_eq:
  "list_all write_fits ovs \<Longrightarrow> ovs \<noteq> [] \<Longrightarrow> memory_set_partial_many m k ovs =
     Inr (btree_insert k (foldl overlay (case map_of m k of None \<Rightarrow> [] | Some b \<Rightarrow> b) ovs) m)"
proof (induction ovs arbitrary: m)
  case (Cons ov ovs)
  obtain off v where ov: "ov = (off, v)" by (cases ov)
  let ?b = "overlay (case map_of m k of None \<Rightarrow> [] | Some b \<Rightarrow> b) (off, v)"
  have s: "memory_set_impl m k v off False = Inr (btree_insert k ?b m)"
    using Cons.prems(1) ov by (intro memory_set_impl_overlay) (simp add: write_fits_def)
  show ?case
  proof (cases "ovs = []")
    case True
    then show ?thesis using s ov by simp
  next
    case False
    then show ?thesis
      using Cons.IH[of "btree_insert k ?b m"] Cons.prems(1) s ov by (simp add: btree_insert_twice)
  qed
qed simp

lemma erase_prefix_loop:
  "memory_inv m \<Longrightarrow> memory_inv (foldl (\<lambda>m key. if has_prefix key p then btree_remove key m else m) m ks) \<and>
     map_of (foldl (\<lambda>m key. if has_prefix key p then btree_remove key m else m) m ks) =
       (\<lambda>k. if k \<in> set ks \<and> has_prefix k p then None else map_of m k)"
proof (induction ks arbitrary: m)
  case (Cons k ks)
  from Cons.IH[of "if has_prefix k p then btree_remove k m else m"] Cons.prems show ?case
    by (auto simp: memory_inv_remove fun_eq_iff)
qed simp

text \<open>
  Property C33.  The memory store is a finite map: \<open>set\<close> binds one key, \<open>erase\<close> unbinds one key,
  \<open>erase_prefix\<close> unbinds exactly the keys with the prefix, all keep the order of the tree, and
  \<open>get\<close> reads the binding.
\<close>

theorem memory_store_is_map:
  assumes "memory_inv m" and "length v < M64"
  shows "(\<exists>m'. memory_set m k v = Inr m' \<and> memory_inv m' \<and>
        (\<forall>k'. memory_get m' k' = Inr (if k' = k then Some v else map_of m k'))) \<and>
     (\<exists>m'. memory_erase m k = Inr m' \<and> memory_inv m' \<and>
        (\<forall>k'. memory_get m' k' = Inr (if k' = k then None else map_of m k'))) \<and>
     (\<exists>m'. memory_erase_prefix m p = Inr m' \<and> memory_inv m' \<and>
        (\<forall>k'. memory_get m' k' = Inr (if has_prefix k' p then None else map_of m k')))"
proof (intro conjI)
  show "\<exists>m'. memory_set m k v = Inr m' \<and> memory_inv m' \<and>
      (\<forall>k'. memory_get m' k' = Inr (if k' = k then Some v else map_of m k'))"
    using memory.set_ok[OF assms, of k] by (auto simp: memory_get_def)
  show "\<exists>m'. memory_erase m k = Inr m' \<and> memory_inv m' \<and>
      (\<forall>k'. memory_get m' k' = Inr (if k' = k then None else map_of m k'))"
    using memory.erase_ok[OF assms(1), of k] by (auto simp: memory_get_def)
  have "map_of m k' = None" if "k' \<notin> set (map fst m)" for k' using that by (simp add: map_of_eq_None_iff)
  then show "\<exists>m'. memory_erase_prefix m p = Inr m' \<and> memory_inv m' \<and>
      (\<forall>k'. memory_get m' k' = Inr (if has_prefix k' p then None else map_of m k'))"
    using erase_prefix_loop[OF assms(1), of p "map fst m"]
    by (auto simp: memory_erase_prefix_def memory_get_def)
qed

theorem memory_store_is_map_witness:
  "\<exists>m'. memory_set [(''a/b'', [1])] ''a/c'' [2, 3] = Inr m' \<and> memory_inv m' \<and>
     memory_get m' ''a/c'' = Inr (Some [2, 3]) \<and> memory_get m' ''a/b'' = Inr (Some [1])"
proof -
  have "memory_inv [(''a/b'', [1])]" by (simp add: memory_inv_def M64_def)
  then obtain m' where m': "memory_set [(''a/b'', [1])] ''a/c'' [2, 3] = Inr m'" "memory_inv m'"
    and g: "\<forall>k'. memory_get m' k' = Inr (if k' = ''a/c'' then Some [2, 3] else map_of [(''a/b'', [1])] k')"
    using memory_store_is_map[of "[(''a/b'', [1])]" "[2, 3]" "''a/c''" "[]"] by (auto simp: M64_def)
  show ?thesis using m' spec[OF g, of "''a/c''"] spec[OF g, of "''a/b''"] by auto
qed

text \<open>
  The memory store's own \<open>set_partial_many\<close> and the generic
  \<open>store_set_partial_many\<close> (read, patch, write back) leave the same store for a non-empty sequence of
  writes: the value is the old one overlaid with the writes in order.  For an empty sequence they
  differ on a missing key, which only the generic function creates.
\<close>

theorem partial_writes_agree:
  assumes "memory_inv m" and "list_all write_fits ovs"
  shows "(ovs \<noteq> [] \<longrightarrow>
        memory_set_partial_many m k ovs = store_set_partial_many memory_get memory_set m k ovs \<and>
        memory_set_partial_many m k ovs =
          Inr (btree_insert k (foldl overlay (case map_of m k of None \<Rightarrow> [] | Some b \<Rightarrow> b) ovs) m)) \<and>
     (map_of m k = None \<longrightarrow> memory_set_partial_many m k [] = Inr m \<and>
        store_set_partial_many memory_get memory_set m k [] = Inr (btree_insert k [] m))"
proof -
  let ?b = "case map_of m k of None \<Rightarrow> [] | Some b \<Rightarrow> b"
  have "length ?b < M64" using memory_value_fits[OF assms(1)] by (auto split: option.splits)
  then have "length (foldl overlay ?b ovs) < M64" using assms(2) by (rule length_foldl_overlay)
  then have "store_set_partial_many memory_get memory_set m k ovs = Inr (btree_insert k (foldl overlay ?b ovs) m)"
    by (simp add: store_set_partial_many_def memory_get_def partial_many_loop_eq[OF assms(2)] memory_set_eq)
  then show ?thesis
    using memory_set_partial_many_eq[OF assms(2)]
    by (simp add: store_set_partial_many_def memory_get_def memory_set_eq)
qed

theorem partial_writes_agree_witness:
  "memory_set_partial_many [] ''k'' [(2, [7, 8]), (0, [1])] =
     store_set_partial_many memory_get memory_set [] ''k'' [(2, [7, 8]), (0, [1])] \<and>
   memory_set_partial_many [] ''k'' [(2, [7, 8]), (0, [1])] = Inr [(''k'', [1, 0, 7, 8])]"
proof -
  have "memory_inv []" by (simp add: memory_inv_def)
  moreover have "list_all write_fits [(2, [7, 8]), (0, [1])]" by (simp add: write_fits_def M64_def)
  moreover have "foldl overlay [] [(2, [7, 8]), (0, [1])] = [1, 0, 7, 8]"
    by (simp add: overlay_def numeral_eq_Suc)
  ultimately show ?thesis
    using partial_writes_agree[of "[]" "[(2, [7, 8]), (0, [1])]" "''k''"]
    by (auto simp del: memory_set_partial_many.simps foldl_Cons)
qed

text \<open>
  Reading back a partial write returns the written bytes, whatever was stored before,
  and the bytes of the old value outside the write are kept.
\<close>

theorem partial_write_read_back:
  assumes "memory_inv m" and "write_fits (off, v)"
  shows "\<exists>m' b. store_set_partial_many memory_get memory_set m k [(off, v)] = Inr m' \<and>
     default_get_partial memory_get_partial_many m' k (FromStart off (Some (length v))) = Inr (Some v) \<and>
     memory_get m' k = Inr (Some b) \<and>
     (\<forall>old i. map_of m k = Some old \<and> i < length old \<and> (i < off \<or> off + length v \<le> i) \<longrightarrow> b ! i = old ! i)"
proof -
  obtain m' where m': "store_set_partial_many memory_get memory_set m k [(off, v)] = Inr m'" "memory_inv m'"
    "map_of m' = (map_of m)(k \<mapsto> overlay (case map_of m k of None \<Rightarrow> [] | Some b \<Rightarrow> b) (off, v))"
    using memory.set_partial_many_spec[OF assms(1), of "[(off, v)]" k] assms(2) by auto
  moreover have "default_get_partial memory_get_partial_many m' k (FromStart off (Some (length v))) = Inr (Some v)"
    using memory.read_back_partial_write[OF assms, of k] m'(1) by auto
  ultimately show ?thesis by (auto simp: memory_get_def overlay_frame)
qed

theorem partial_write_read_back_witness:
  "\<exists>m' b. store_set_partial_many memory_get memory_set [(''k'', [5, 6, 7])] ''k'' [(1, [9])] = Inr m' \<and>
     default_get_partial memory_get_partial_many m' ''k'' (FromStart 1 (Some 1)) = Inr (Some [9]) \<and>
     memory_get m' ''k'' = Inr (Some b) \<and> b ! 0 = 5 \<and> b ! 2 = 7"
proof -
  have "memory_inv [(''k'', [5, 6, 7])]" "write_fits (1, [9])"
    by (simp_all add: memory_inv_def write_fits_def M64_def)
  moreover have l: "length [9::u8] = 1" by simp
  ultimately obtain m' b where
    m': "store_set_partial_many memory_get memory_set [(''k'', [5, 6, 7])] ''k'' [(1, [9])] = Inr m'"
      "default_get_partial memory_get_partial_many m' ''k'' (FromStart 1 (Some 1)) = Inr (Some [9])"
      "memory_get m' ''k'' = Inr (Some b)"
    and fr: "\<forall>old i. map_of [(''k'', [5, 6, 7])] ''k'' = Some old \<and> i < length old \<and>
        (i < 1 \<or> 1 + 1 \<le> i) \<longrightarrow> b ! i = old ! i"
    using partial_write_read_back[of "[(''k'', [5, 6, 7])]" 1 "[9]" "''k''", unfolded l] by blast
  have "b ! 0 = 5" "b ! 2 = 7" using fr by (auto dest: spec[of _ "[5, 6, 7]"])
  then show ?thesis using m' by blast
qed

end
