(* ===== verification/Store_Listing.thy ===== *)
theory Store_Listing
  imports Memory_Store
begin

text \<open>
  Listing: what \<open>list_dir\<close>, \<open>list_prefix\<close>, \<open>size_prefix\<close> and \<open>discover_children\<close> return on a memory
  store whose keys are valid.
\<close>

subsection \<open>Directory listing\<close>

text \<open>The prefix a key contributes to the listing of \<open>p\<close>: its next component below \<open>p\<close>, if any.\<close>

definition child_prefix :: "store_prefix \<Rightarrow> store_key \<Rightarrow> store_prefix option" where
  "child_prefix p k =
     (if has_prefix k p \<and> slash \<in> set (drop (length p) k)
      then Some (p @ takeWhile (\<lambda>c. c \<noteq> slash) (drop (length p) k) @ [slash])
      else None)"

lemma btree_set_insert_set [simp]: "set (btree_set_insert k xs) = insert k (set xs)"
  by (induction k xs rule: btree_set_insert.induct) auto

lemma sorted_btree_set_insert: "sorted_wrt (<) xs \<Longrightarrow> sorted_wrt (<) (btree_set_insert k xs)"
  by (induction k xs rule: btree_set_insert.induct) auto

lemma below_prefix_no_slash:
  assumes "validate_key k" and "validate_prefix p" and "k = p @ r"
  shows "\<not> starts_with r [slash]"
proof
  assume "starts_with r [slash]"
  then obtain r' where r: "r = slash # r'" by (auto simp: starts_with_iff)
  show False
  proof (cases "p = []")
    case True
    then show False using assms(1,3) r by (simp add: validate_key_iff)
  next
    case False
    then obtain q where "p = q @ [slash]" using assms(2) by (auto simp: validate_prefix_def ends_with_iff)
    then have "k = q @ slash # slash # r'" using assms(3) r by simp
    then show False using assms(1) unfolding validate_key_iff by blast
  qed
qed

lemma split_on_Cons_iff:
  "split_on c s = (if c \<in> set s
     then takeWhile (\<lambda>d. d \<noteq> c) s # split_on c (tl (dropWhile (\<lambda>d. d \<noteq> c) s)) else [s])"
proof (cases "c \<in> set s")
  case True
  then obtain u v where s: "s = u @ c # v" and u: "c \<notin> set u" using split_list_first by fastforce
  then have "takeWhile (\<lambda>d. d \<noteq> c) s = u" "dropWhile (\<lambda>d. d \<noteq> c) s = c # v"
    by (simp_all add: takeWhile_sep)
  then show ?thesis using split_on_first[OF u, of v] s by simp
qed (simp add: split_on_no)

lemma key_parent_below:
  assumes "validate_key k" and "validate_prefix p" and "k = p @ r" and "slash \<notin> set r"
  shows "key_parent k = p"
proof (cases "p = []")
  case True
  then show ?thesis using assms(3,4) by (simp add: key_parent_no_slash)
next
  case False
  then obtain q where q: "p = q @ [slash]" using assms(2) by (auto simp: validate_prefix_def ends_with_iff)
  have "q \<noteq> []" using assms(2) q False by (auto simp: validate_prefix_def)
  then show ?thesis using key_parent_slash[OF assms(4), of q] assms(3) q by simp
qed

lemma key_parent_iff:
  assumes "validate_key k" and "validate_prefix p"
  shows "key_parent k = p \<longleftrightarrow> has_prefix k p \<and> slash \<notin> set (drop (length p) k)"
proof
  assume p: "key_parent k = p"
  obtain n where n: "k = key_parent k @ n" "slash \<notin> set n" by (rule key_parent_split[OF assms(1)])
  have "k = p @ n" using n(1) unfolding p .
  then show "has_prefix k p \<and> slash \<notin> set (drop (length p) k)"
    using n(2) by (auto simp: has_prefix_def starts_with_iff)
next
  assume "has_prefix k p \<and> slash \<notin> set (drop (length p) k)"
  then obtain r where "k = p @ r" "slash \<notin> set r" by (auto simp: has_prefix_def starts_with_iff)
  then show "key_parent k = p" using key_parent_below[OF assms] by blast
qed

lemma child_prefix_valid:
  assumes "validate_key k" and "validate_prefix p" and "child_prefix p k = Some q"
  shows "prefix_new q = Inr q"
proof -
  from assms(3) obtain r where k: "k = p @ r" and sl: "slash \<in> set r"
    and q: "q = p @ takeWhile (\<lambda>c. c \<noteq> slash) r @ [slash]"
    by (auto simp: child_prefix_def has_prefix_def starts_with_iff split: if_splits)
  have ns: "\<not> starts_with r [slash]" by (rule below_prefix_no_slash[OF assms(1,2) k])
  let ?c = "takeWhile (\<lambda>c. c \<noteq> slash) r"
  have ne: "p @ ?c \<noteq> []" using ns sl by (cases r) auto
  have "hd (p @ ?c) \<noteq> slash"
    using assms(2) ns sl by (cases p; cases r) (auto simp: validate_prefix_def)
  then show ?thesis using validate_prefix_snoc[OF ne] q by (simp add: prefix_new_def)
qed

lemma list_dir_step_eq:
  assumes "validate_key k" and "validate_prefix p"
  shows "list_dir_step p (keys, ps) k =
     Inr (if key_parent k = p then keys @ [k] else keys,
          case child_prefix p k of None \<Rightarrow> ps | Some q \<Rightarrow> btree_set_insert q ps)"
proof (cases "has_prefix k p")
  case False
  then show ?thesis by (simp add: list_dir_step_def child_prefix_def key_parent_iff[OF assms])
next
  case True
  then obtain r where k: "k = p @ r" by (auto simp: has_prefix_def starts_with_iff)
  have strip: "strip_prefix r [slash] = None"
    using below_prefix_no_slash[OF assms k] by (simp add: strip_prefix_def)
  show ?thesis
  proof (cases "slash \<in> set r")
    case True
    let ?q = "p @ takeWhile (\<lambda>c. c \<noteq> slash) r @ [slash]"
    have cp: "child_prefix p k = Some ?q"
      using True \<open>has_prefix k p\<close> k by (simp add: child_prefix_def)
    have new: "prefix_new ?q = Inr ?q" by (rule child_prefix_valid[OF assms cp])
    obtain y ys where "split_on slash (tl (dropWhile (\<lambda>c. c \<noteq> slash) r)) = y # ys"
      by (meson list.exhaust split_on_ne)
    then have "split_on slash r = takeWhile (\<lambda>c. c \<noteq> slash) r # y # ys"
      using split_on_Cons_iff[of slash r] True by simp
    moreover have "key_parent k \<noteq> p" using True k key_parent_iff[OF assms] by simp
    ultimately show ?thesis
      using \<open>has_prefix k p\<close> k strip cp new by (simp add: list_dir_step_def)
  next
    case False
    then show ?thesis
      using \<open>has_prefix k p\<close> k strip split_on_no[OF False] key_parent_below[OF assms k False]
      by (simp add: list_dir_step_def child_prefix_def)
  qed
qed

lemma list_dir_loop_ok:
  assumes "validate_prefix p" and "list_all validate_key ks"
  shows "sorted_wrt (<) ps \<Longrightarrow> \<exists>ps'. list_dir_loop p (keys, ps) ks = Inr (keys @ filter (\<lambda>k. key_parent k = p) ks, ps') \<and>
     sorted_wrt (<) ps' \<and> set ps' = set ps \<union> {q. \<exists>k \<in> set ks. child_prefix p k = Some q}"
  using assms(2)
proof (induction ks arbitrary: keys ps)
  case (Cons k ks)
  let ?keys = "if key_parent k = p then keys @ [k] else keys"
  let ?ps = "case child_prefix p k of None \<Rightarrow> ps | Some q \<Rightarrow> btree_set_insert q ps"
  have step: "list_dir_step p (keys, ps) k = Inr (?keys, ?ps)"
    using list_dir_step_eq[OF _ assms(1)] Cons.prems(2) by simp
  have "sorted_wrt (<) ?ps" using Cons.prems(1) sorted_btree_set_insert by (auto split: option.splits)
  from Cons.IH[OF this, of ?keys] Cons.prems(2) obtain ps' where
    ps': "list_dir_loop p (?keys, ?ps) ks = Inr (?keys @ filter (\<lambda>k. key_parent k = p) ks, ps')"
      "sorted_wrt (<) ps'" "set ps' = set ?ps \<union> {q. \<exists>k \<in> set ks. child_prefix p k = Some q}" by auto
  moreover have "set ?ps = set ps \<union> {q. child_prefix p k = Some q}" by (auto split: option.splits)
  ultimately show ?case using step by (intro exI[of _ ps']) auto
qed simp

lemma child_prefix_Some_iff:
  "child_prefix p k = Some q \<longleftrightarrow> (\<exists>c r. slash \<notin> set c \<and> k = p @ c @ slash # r \<and> q = p @ c @ [slash])"
proof
  assume "child_prefix p k = Some q"
  then obtain s where k: "k = p @ s" and sl: "slash \<in> set s" and q: "q = p @ takeWhile (\<lambda>c. c \<noteq> slash) s @ [slash]"
    by (auto simp: child_prefix_def has_prefix_def starts_with_iff split: if_splits)
  obtain c r where s: "s = c @ slash # r" "slash \<notin> set c" using sl split_list_first by fastforce
  then have "takeWhile (\<lambda>c. c \<noteq> slash) s = c" by (simp add: takeWhile_sep)
  then show "\<exists>c r. slash \<notin> set c \<and> k = p @ c @ slash # r \<and> q = p @ c @ [slash]" using k q s by auto
next
  assume "\<exists>c r. slash \<notin> set c \<and> k = p @ c @ slash # r \<and> q = p @ c @ [slash]"
  then obtain c r where c: "slash \<notin> set c" "k = p @ c @ slash # r" "q = p @ c @ [slash]" by blast
  then have "takeWhile (\<lambda>c. c \<noteq> slash) (c @ slash # r) = c" by (simp add: takeWhile_sep)
  then show "child_prefix p k = Some q"
    using c by (auto simp: child_prefix_def has_prefix_def starts_with_iff)
qed

definition memory_keys_valid :: "memory_store \<Rightarrow> bool" where
  "memory_keys_valid m \<longleftrightarrow> list_all (\<lambda>(k, _). validate_key k) m"

lemma memory_list_dir_ok:
  assumes "memory_keys_valid m" and "validate_prefix p"
  shows "\<exists>kp. memory_list_dir m p = Inr kp \<and>
     skp_keys kp = filter (\<lambda>k. key_parent k = p) (map fst m) \<and>
     sorted_wrt (<) (skp_prefixes kp) \<and>
     set (skp_prefixes kp) = {p @ c @ [slash] | c r. slash \<notin> set c \<and> p @ c @ slash # r \<in> fst ` set m}"
proof -
  have "list_all validate_key (map fst m)" using assms(1) by (auto simp: memory_keys_valid_def list_all_iff)
  from list_dir_loop_ok[OF assms(2) this, of "[]" "[]"] obtain ps where
    ps: "list_dir_loop p ([], []) (map fst m) = Inr (filter (\<lambda>k. key_parent k = p) (map fst m), ps)"
      "sorted_wrt (<) ps" "set ps = {q. \<exists>k \<in> set (map fst m). child_prefix p k = Some q}" by auto
  have "set ps = {p @ c @ [slash] | c r. slash \<notin> set c \<and> p @ c @ slash # r \<in> fst ` set m}"
    unfolding ps(3) child_prefix_Some_iff by force
  then show ?thesis using ps by (simp add: memory_list_dir_def)
qed

text \<open>
  Property C35.  \<open>list_dir\<close> of a valid prefix on a store with valid keys succeeds and returns exactly
  the keys whose parent is the prefix, in order, and exactly the prefixes of the next level that
  have a key below them, in order and without duplicates.
\<close>

theorem list_dir_correct:
  assumes "memory_keys_valid m" and "validate_prefix p"
  shows "\<exists>kp. memory_list_dir m p = Inr kp \<and>
     skp_keys kp = filter (\<lambda>k. key_parent k = p) (map fst m) \<and>
     sorted_wrt (<) (skp_prefixes kp) \<and>
     set (skp_prefixes kp) = {p @ c @ [slash] | c r. slash \<notin> set c \<and> p @ c @ slash # r \<in> fst ` set m}"
  by (rule memory_list_dir_ok[OF assms])

theorem list_dir_correct_witness:
  "\<exists>kp. memory_list_dir [(''a/b'', [1]), (''a/c/d'', [2]), (''a/c/e'', [3]), (''f'', [4])] ''a/'' = Inr kp \<and>
     skp_keys kp = [''a/b'']"
proof -
  have "memory_keys_valid [(''a/b'', [1]), (''a/c/d'', [2]), (''a/c/e'', [3]), (''f'', [4])]"
    by (simp add: memory_keys_valid_def validate_key_def ends_with_def)
  moreover have "validate_prefix ''a/''" by (simp add: validate_prefix_def ends_with_def)
  ultimately obtain kp where
    "memory_list_dir [(''a/b'', [1]), (''a/c/d'', [2]), (''a/c/e'', [3]), (''f'', [4])] ''a/'' = Inr kp"
    "skp_keys kp = filter (\<lambda>k. key_parent k = ''a/'')
       (map fst [(''a/b'', [1::u8]), (''a/c/d'', [2]), (''a/c/e'', [3]), (''f'', [4])])"
    using list_dir_correct by blast
  then show ?thesis by (intro exI[of _ kp]) (simp add: key_parent_def)
qed

subsection \<open>Sizes and children\<close>

lemma size_prefix_loop_eq:
  assumes "sz + sum_list (map (\<lambda>k. length (the (map_of m k))) ks) < M64" and "set ks \<subseteq> dom (map_of m)"
  shows "size_prefix_loop m sz ks = Inr (sz + sum_list (map (\<lambda>k. length (the (map_of m k))) ks))"
  using assms
proof (induction ks arbitrary: sz)
  case (Cons k ks)
  obtain b where b: "map_of m k = Some b" using Cons.prems(2) by auto
  have "wadd sz (length b) = sz + length b" using Cons.prems(1) b by (simp add: wadd_eq)
  then show ?case
    using Cons.IH[of "sz + length b"] Cons.prems b by (simp add: memory_size_key_def add.assoc)
qed simp

lemma size_prefix_eq:
  assumes "memory_inv m" and "sum_list (map (\<lambda>(k, b). if has_prefix k p then length b else 0) m) < M64"
  shows "memory_size_prefix m p = Inr (sum_list (map (\<lambda>(k, b). if has_prefix k p then length b else 0) m))"
proof -
  have d: "distinct (map fst m)" using assms(1) by (simp add: memory_inv_def strict_sorted_iff)
  have eq: "sum_list (map (\<lambda>k. length (the (map_of m k))) (filter (\<lambda>k. has_prefix k p) (map fst m))) =
      sum_list (map (\<lambda>(k, b). if has_prefix k p then length b else 0) m)"
  proof -
    have "sum_list (map (\<lambda>k. length (the (map_of m k))) (filter (\<lambda>k. has_prefix k p) (map fst m))) =
        sum_list (map (\<lambda>k. if has_prefix k p then length (the (map_of m k)) else 0) (map fst m))"
      by (simp add: sum_list_map_filter')
    also have "\<dots> = sum_list (map (\<lambda>(k, b). if has_prefix k p then length b else 0) m)"
      using d by (auto intro!: arg_cong[where f = sum_list] simp: map_of_is_SomeI)
    finally show ?thesis .
  qed
  have "set (filter (\<lambda>k. has_prefix k p) (map fst m)) \<subseteq> dom (map_of m)"
    by (auto simp: dom_map_of_conv_image_fst)
  then show ?thesis
    using size_prefix_loop_eq[of 0 m "filter (\<lambda>k. has_prefix k p) (map fst m)"] assms(2) eq
    by (simp add: memory_size_prefix_def memory_list_prefix_def)
qed

text \<open>
  \<open>discover_children\<close> hides a child whose name starts with two underscores only at the root: below a
  group the filter is applied to the whole prefix.
\<close>

lemma discover_children_hides_only_at_root:
  "discover_children memory_list_dir [(''__c/x'', [])] [] = Inr []"
  "discover_children memory_list_dir [(''g/__c/x'', [])] ''g/'' = Inr [''g/__c/'']"
  by (simp_all add: discover_children_def memory_list_dir_def list_dir_step_def has_prefix_def starts_with_def
      strip_prefix_def prefix_new_def validate_prefix_def ends_with_def)

text \<open>A range that starts beyond the end of a stored value panics instead of returning an error.\<close>

lemma memory_get_range_panics:
  "memory_get_range [1, 2, 3] (FromStart 5 None) = Inl StoragePanic"
  "memory_get_range [1, 2, 3] (Suffix 4) = Inl StoragePanic"
  by (simp_all add: memory_get_range_def slice_def wsub_def M64_def)

end
