(* ===== verification/Node_Path.thy ===== *)
theory Node_Path
  imports Store_Key
begin

text \<open>
  Node names and paths (\<open>zarrs/src/node/node_name.rs\<close>, \<open>node_path.rs\<close>), the keys of a node's metadata
  and chunks (\<open>zarrs/src/node/key.rs\<close>) and the chunk key encodings
  (\<open>zarrs/src/array/chunk_key_encoding\<close>).  A \<open>NodePath\<close> is its string; \<open>Utf8PathBuf::from\<close> keeps it
  as it is.
\<close>

type_synonym node_path = string

datatype node_path_error = NodePathError string
datatype node_name_error = NodeNameError string

subsection \<open>Names and paths\<close>

definition validate_name :: "string \<Rightarrow> bool" where
  "validate_name name \<longleftrightarrow>
     name = [] \<or>
     (slash \<notin> set name \<and> \<not> starts_with name ''__'' \<and> filter (\<lambda>c. c \<noteq> CHR ''.'') name \<noteq> [])"

definition name_new :: "string \<Rightarrow> node_name_error + string" where
  "name_new name = (if validate_name name then Inr name else Inl (NodeNameError name))"

definition validate_component :: "string \<Rightarrow> bool" where
  "validate_component c \<longleftrightarrow> \<not> (c = [] \<or> \<not> validate_name c)"

definition validate_path :: "string \<Rightarrow> bool" where
  "validate_path path \<longleftrightarrow>
     (if path = ''/'' then True
      else if \<not> starts_with path [slash] \<or> ends_with path [slash] then False
      else list_all validate_component (split_on slash (drop 1 path)))"

definition path_new :: "string \<Rightarrow> node_path_error + node_path" where
  "path_new path = (if validate_path path then Inr path else Inl (NodePathError path))"

definition path_root :: node_path where
  "path_root = ''/''"

definition path_is_root :: "node_path \<Rightarrow> bool" where
  "path_is_root path \<longleftrightarrow> path = ''/''"

text \<open>\<open>str::rsplit_once\<close>\<close>

definition rsplit_once :: "char \<Rightarrow> string \<Rightarrow> (string \<times> string) option" where
  "rsplit_once c s =
     (if c \<in> set s
      then let n = length (takeWhile (\<lambda>d. d \<noteq> c) (rev s))
           in Some (take (length s - n - 1) s, drop (length s - n) s)
      else None)"

definition path_parent :: "node_path \<Rightarrow> node_path option" where
  "path_parent s =
     (case rsplit_once slash s of
        None \<Rightarrow> None
      | Some (parent, child) \<Rightarrow>
          if child = [] then None
          else if parent = [] then Some path_root
          else (case path_new parent of Inl _ \<Rightarrow> None | Inr p \<Rightarrow> Some p))"

definition join_error :: "string \<Rightarrow> string \<Rightarrow> string" where
  "join_error c relative =
     ''invalid node name `'' @ c @ ''` in '' @ [CHR 0x27] @ relative @ [CHR 0x27]"

definition path_join :: "node_path \<Rightarrow> string \<Rightarrow> node_path_error + node_path" where
  "path_join self rel =
     (let relative = (case strip_prefix rel [slash] of None \<Rightarrow> rel | Some r \<Rightarrow> r) in
      if relative = [] then Inr self
      else case find (\<lambda>c. \<not> validate_component c) (split_on slash relative) of
          Some c \<Rightarrow> Inl (NodePathError (join_error c relative))
        | None \<Rightarrow>
            path_new (if path_is_root self then slash # relative else self @ slash # relative))"

text \<open>\<open>TryFrom<&StorePrefix>\<close>; the \<open>unwrap\<close> panics (\<open>None\<close>) on the root prefix.\<close>

definition path_of_prefix :: "store_prefix \<Rightarrow> (node_path_error + node_path) option" where
  "path_of_prefix p = map_option (\<lambda>s. path_new (slash # s)) (strip_suffix p [slash])"

definition path_to_prefix :: "node_path \<Rightarrow> store_prefix_error + store_prefix" where
  "path_to_prefix path =
     (if path = ''/'' then prefix_new []
      else prefix_new ((case strip_prefix path [slash] of None \<Rightarrow> path | Some s \<Rightarrow> s) @ [slash]))"

subsection \<open>Keys of a node\<close>

definition meta_key_any :: "node_path \<Rightarrow> string \<Rightarrow> store_key" where
  "meta_key_any path file =
     (if path = ''/'' then file
      else (case strip_prefix path [slash] of None \<Rightarrow> path | Some p \<Rightarrow> p) @ slash # file)"

definition meta_key_v3 :: "node_path \<Rightarrow> store_key" where
  "meta_key_v3 path = meta_key_any path ''zarr.json''"

definition meta_key :: "node_path \<Rightarrow> store_key" where
  "meta_key path = meta_key_v3 path"

definition meta_key_v2_array :: "node_path \<Rightarrow> store_key" where
  "meta_key_v2_array path = meta_key_any path ''.zarray''"

definition meta_key_v2_group :: "node_path \<Rightarrow> store_key" where
  "meta_key_v2_group path = meta_key_any path ''.zgroup''"

definition meta_key_v2_attributes :: "node_path \<Rightarrow> store_key" where
  "meta_key_v2_attributes path = meta_key_any path ''.zattrs''"

definition data_key :: "node_path \<Rightarrow> store_key \<Rightarrow> store_key" where
  "data_key path chunk_key =
     (let path = (case strip_prefix path [slash] of None \<Rightarrow> path | Some p \<Rightarrow> p)
      in if path = [] then chunk_key else path @ slash # chunk_key)"

subsection \<open>Chunk key encodings\<close>

datatype chunk_key_separator = SepSlash | SepDot

fun separator_char :: "chunk_key_separator \<Rightarrow> char" where
  "separator_char SepSlash = CHR ''/''"
| "separator_char SepDot = CHR ''.''"

text \<open>The decimal digits of a number.\<close>

definition digit_char :: "nat \<Rightarrow> char" where
  "digit_char d = char_of (48 + d)"

fun decimal :: "nat \<Rightarrow> string" where
  "decimal n = (if n < 10 then [digit_char n] else decimal (n div 10) @ [digit_char (n mod 10)])"

declare decimal.simps [simp del]

text \<open>The parameter \<open>itoa\<close> is the crate that prints a number in decimal.\<close>

definition default_encode :: "(u64 \<Rightarrow> string) \<Rightarrow> chunk_key_separator \<Rightarrow> u64 list \<Rightarrow> store_key" where
  "default_encode itoa sep idx =
     (if idx = [] then ''c'' else join [separator_char sep] (''c'' # map itoa idx))"

definition v2_encode :: "(u64 \<Rightarrow> string) \<Rightarrow> chunk_key_separator \<Rightarrow> u64 list \<Rightarrow> store_key" where
  "v2_encode itoa sep idx =
     (if idx = [] then ''0'' else join [separator_char sep] (map itoa idx))"

definition default_suffix_encode ::
    "(u64 \<Rightarrow> string) \<Rightarrow> chunk_key_separator \<Rightarrow> string \<Rightarrow> u64 list \<Rightarrow> store_key" where
  "default_suffix_encode itoa sep sfx idx =
     (if idx = [] then ''c'' @ sfx
      else join [separator_char sep] (''c'' # map itoa idx) @ sfx)"

subsection \<open>Paths and prefixes\<close>

lemma split_on_append: "split_on c (x @ c # y) = split_on c x @ split_on c y"
proof (induction x)
  case (Cons d x)
  then show ?case by (cases "split_on c x") auto
qed simp

lemma component_hd: "validate_component c \<Longrightarrow> c \<noteq> [] \<and> slash \<notin> set c"
  by (auto simp: validate_component_def validate_name_def)

lemma split_components_hd:
  assumes "list_all validate_component (split_on slash r)"
  shows "r \<noteq> []" and "hd r \<noteq> slash"
proof -
  show "r \<noteq> []" using assms by (auto simp: validate_component_def)
  then show "hd r \<noteq> slash"
    using assms by (cases r) (auto simp: validate_component_def)
qed

lemma split_components_last:
  assumes "list_all validate_component (split_on slash r)"
  shows "last r \<noteq> slash"
proof
  assume "last r = slash"
  moreover have "r \<noteq> []" using assms by (rule split_components_hd)
  ultimately obtain u where "r = u @ slash # []" by (metis append_butlast_last_id)
  then show False using assms by (auto simp: split_on_append validate_component_def)
qed

text \<open>A valid path is the root or a slash followed by valid components.\<close>

lemma validate_path_iff:
  "validate_path p \<longleftrightarrow> p = ''/'' \<or> (\<exists>r. p = slash # r \<and> list_all validate_component (split_on slash r))"
proof
  assume "validate_path p"
  then show "p = ''/'' \<or> (\<exists>r. p = slash # r \<and> list_all validate_component (split_on slash r))"
    by (auto simp: validate_path_def starts_with_iff split: if_splits)
next
  assume "p = ''/'' \<or> (\<exists>r. p = slash # r \<and> list_all validate_component (split_on slash r))"
  then consider "p = ''/''" | r where "p = slash # r" "list_all validate_component (split_on slash r)" by blast
  then show "validate_path p"
  proof cases
    case 2
    have "\<not> ends_with p [slash]"
      using split_components_last[OF 2(2)] split_components_hd[OF 2(2)] 2(1)
      by (auto simp: ends_with_iff Cons_eq_append_conv)
    then show ?thesis using 2 by (simp add: validate_path_def)
  qed (simp add: validate_path_def)
qed

lemma path_prefix_roundtrip:
  assumes "validate_path p" and "p \<noteq> ''/''"
  shows "\<exists>q. path_to_prefix p = Inr q \<and> validate_prefix q \<and> path_of_prefix q = Some (Inr p)"
proof -
  obtain r where r: "p = slash # r" "list_all validate_component (split_on slash r)"
    using assms by (auto simp: validate_path_iff)
  note hd = split_components_hd[OF r(2)]
  have v: "validate_prefix (r @ [slash])" using validate_prefix_snoc[OF hd(1)] hd(2) by simp
  have "strip_suffix (r @ [slash]) [slash] = Some r" by (simp add: strip_suffix_def)
  then show ?thesis
    using r assms v by (simp add: path_to_prefix_def path_of_prefix_def strip_prefix_def prefix_new_def path_new_def)
qed

lemma rsplit_once_eq: "c \<notin> set n \<Longrightarrow> rsplit_once c (u @ c # n) = Some (u, n)"
proof -
  assume "c \<notin> set n"
  then have "takeWhile (\<lambda>d. d \<noteq> c) (rev (u @ c # n)) = rev n"
    using takeWhile_sep(1)[of c "rev n" "rev u"] by simp
  then show ?thesis by (simp add: rsplit_once_def)
qed

text \<open>Joining valid components to a valid path is a valid path.\<close>

lemma path_join_valid:
  assumes "validate_path p" and "list_all validate_component (split_on slash rel)"
  shows "path_join p rel = Inr (if p = ''/'' then slash # rel else p @ slash # rel)"
    and "validate_path (if p = ''/'' then slash # rel else p @ slash # rel)"
proof -
  note hd = split_components_hd[OF assms(2)]
  have strip: "strip_prefix rel [slash] = None"
    using hd by (cases rel) (auto simp: strip_prefix_def)
  have find: "find (\<lambda>c. \<not> validate_component c) (split_on slash rel) = None"
    using assms(2) by (auto simp: find_None_iff list_all_iff)
  show v: "validate_path (if p = ''/'' then slash # rel else p @ slash # rel)"
    using assms by (auto simp: validate_path_iff split_on_append)
  show "path_join p rel = Inr (if p = ''/'' then slash # rel else p @ slash # rel)"
    using v hd by (simp add: path_join_def strip find path_is_root_def path_new_def)
qed

text \<open>
  Node paths form a tree: a valid path other than the root has a parent, which is a
  valid path, and joining its last component to the parent gives it back; and its store prefix is
  valid and converts back to it.
\<close>

theorem node_path_tree:
  assumes "validate_path p" and "p \<noteq> ''/''"
  shows "(\<exists>q n. path_parent p = Some q \<and> validate_path q \<and> validate_component n \<and> path_join q n = Inr p) \<and>
     (\<exists>s. path_to_prefix p = Inr s \<and> validate_prefix s \<and> path_of_prefix s = Some (Inr p))"
proof (rule conjI)
  obtain r where r: "p = slash # r" "list_all validate_component (split_on slash r)"
    using assms by (auto simp: validate_path_iff)
  obtain u n where n: "slash \<notin> set n" and "(slash \<notin> set r \<and> r = n) \<or> r = u @ slash # n"
    using split_last_component[of slash r] by blast
  then show "\<exists>q n. path_parent p = Some q \<and> validate_path q \<and> validate_component n \<and> path_join q n = Inr p"
  proof (elim disjE conjE)
    assume rn: "r = n"
    then have vn: "list_all validate_component (split_on slash n)" using r(2) by simp
    have "path_parent p = Some path_root"
      using rsplit_once_eq[OF n, of "[]"] r(1) rn split_components_hd(1)[OF vn] by (simp add: path_parent_def)
    then show ?thesis
      using path_join_valid[of path_root n] vn n r(1) rn
      by (auto simp: path_root_def validate_path_def split_on_no)
  next
    assume ru: "r = u @ slash # n"
    then have vu: "list_all validate_component (split_on slash u)" and vn: "validate_component n"
      using r(2) n by (simp_all add: split_on_append split_on_no)
    have vp: "validate_path (slash # u)" using vu by (auto simp: validate_path_iff)
    moreover have "path_parent p = Some (slash # u)"
      using rsplit_once_eq[OF n, of "slash # u"] r(1) ru component_hd[OF vn] vp
      by (simp add: path_parent_def path_new_def)
    moreover have "path_join (slash # u) n = Inr p"
      using path_join_valid(1)[OF vp, of n] vn n r(1) ru split_components_hd(1)[OF vu] by (simp add: split_on_no)
    ultimately show ?thesis using vn by blast
  qed
  show "\<exists>s. path_to_prefix p = Inr s \<and> validate_prefix s \<and> path_of_prefix s = Some (Inr p)"
    by (rule path_prefix_roundtrip[OF assms])
qed

theorem node_path_tree_witness:
  "(\<exists>q n. path_parent ''/a/b'' = Some q \<and> validate_path q \<and> validate_component n \<and> path_join q n = Inr ''/a/b'') \<and>
   (\<exists>s. path_to_prefix ''/a/b'' = Inr s \<and> validate_prefix s \<and> path_of_prefix s = Some (Inr ''/a/b''))"
  by (rule node_path_tree) (simp_all add: validate_path_def ends_with_def validate_component_def validate_name_def)

text \<open>The root prefix, which is the prefix of the root path, makes the conversion back panic.\<close>

lemma path_of_root_prefix_panics:
  "path_to_prefix path_root = Inr prefix_root" "path_of_prefix prefix_root = None"
  by (simp_all add: path_to_prefix_def path_root_def prefix_root_def prefix_new_def validate_prefix_def
      path_of_prefix_def strip_suffix_def)

subsection \<open>Chunk keys\<close>

lemma of_digit_char: "d < 10 \<Longrightarrow> of_char (digit_char d) = 48 + d"
  by (simp add: digit_char_def)

definition decimal_value :: "string \<Rightarrow> nat" where
  "decimal_value s = foldl (\<lambda>n c. 10 * n + (of_char c - 48)) 0 s"

lemma decimal_value_decimal: "decimal_value (decimal n) = n"
proof (induction n rule: decimal.induct)
  case (1 n)
  show ?case
  proof (cases "n < 10")
    case True
    then show ?thesis by (simp add: decimal.simps decimal_value_def of_digit_char)
  next
    case False
    then have "decimal_value (decimal (n div 10)) = n div 10" using 1 by simp
    then show ?thesis
      using False by (simp add: decimal.simps[of n] decimal_value_def of_digit_char)
  qed
qed

lemma decimal_inj: "decimal m = decimal n \<longleftrightarrow> m = n"
  by (metis decimal_value_decimal)

lemma decimal_digits: "c \<in> set (decimal n) \<Longrightarrow> 48 \<le> (of_char c :: nat) \<and> (of_char c :: nat) < 58"
proof (induction n rule: decimal.induct)
  case (1 n)
  show ?case
  proof (cases "n < 10")
    case True
    then show ?thesis using 1(2) by (simp add: decimal.simps of_digit_char)
  next
    case False
    then have "c \<in> set (decimal (n div 10)) \<or> c = digit_char (n mod 10)"
      using 1(2) by (auto simp: decimal.simps[of n])
    then show ?thesis using 1(1)[OF False] of_digit_char[of "n mod 10"] by auto
  qed
qed

lemma decimal_ne: "decimal n \<noteq> []"
  by (subst decimal.simps) simp

lemma separator_not_in_decimal: "separator_char sep \<notin> set (decimal n)" "slash \<notin> set (decimal n)"
  "CHR ''.'' \<notin> set (decimal n)"
  using decimal_digits[of "separator_char sep" n] decimal_digits[of slash n] decimal_digits[of "CHR ''.''" n]
  by (cases sep; auto)+

lemma split_join:
  "xs \<noteq> [] \<Longrightarrow> (\<And>x. x \<in> set xs \<Longrightarrow> c \<notin> set x) \<Longrightarrow> split_on c (join [c] xs) = xs"
proof (induction xs rule: induct_list012)
  case (2 x)
  then show ?case by (simp add: split_on_no)
next
  case (3 x y zs)
  then show ?case using split_on_first[of c x "join [c] (y # zs)"] by simp
qed simp

lemma join_Cons_if: "join sep (x # ys) = x @ (if ys = [] then [] else sep @ join sep ys)"
  by (cases ys) simp_all

lemma default_encode_join: "default_encode decimal sep idx = join [separator_char sep] (''c'' # map decimal idx)"
  by (simp add: default_encode_def)

lemma split_default_encode: "split_on (separator_char sep) (default_encode decimal sep idx) = ''c'' # map decimal idx"
  unfolding default_encode_join
  by (rule split_join) (cases sep; auto simp: separator_not_in_decimal)+

lemma split_v2_encode:
  "idx \<noteq> [] \<Longrightarrow> split_on (separator_char sep) (v2_encode decimal sep idx) = map decimal idx"
  unfolding v2_encode_def by (simp, rule split_join) (auto simp: separator_not_in_decimal)

lemma map_decimal_inj: "map decimal xs = map decimal ys \<longleftrightarrow> xs = ys"
  by (simp add: inj_map_eq_map inj_def decimal_inj)

text \<open>A key without empty components is valid.\<close>

lemma validate_key_components:
  assumes "\<And>x. x \<in> set (split_on slash k) \<Longrightarrow> x \<noteq> []"
  shows "validate_key k"
  unfolding validate_key_iff
proof (intro conjI notI; elim exE)
  fix r assume "k = slash # r" then show False using assms[of "[]"] by simp
next
  fix r assume "k = r @ [slash]" then show False using assms[of "[]"] by (simp add: split_on_append)
next
  fix u v assume "k = u @ slash # slash # v" then show False using assms[of "[]"] by (simp add: split_on_append)
qed

lemma no_slash_in_join:
  "slash \<noteq> c \<Longrightarrow> (\<And>x. x \<in> set xs \<Longrightarrow> slash \<notin> set x) \<Longrightarrow> slash \<notin> set (join [c] xs)"
  by (induction xs rule: induct_list012) auto

lemma encode_components:
  assumes "\<And>x. x \<in> set xs \<Longrightarrow> x \<noteq> [] \<and> separator_char sep \<notin> set x \<and> slash \<notin> set x" and "xs \<noteq> []"
    and "x \<in> set (split_on slash (join [separator_char sep] xs))"
  shows "x \<noteq> []"
proof (cases sep)
  case SepSlash
  then show ?thesis using assms split_join[of xs slash] by auto
next
  case SepDot
  have "slash \<notin> set (join [separator_char sep] xs)"
    using assms(1) SepDot by (intro no_slash_in_join) auto
  then have "x = join [separator_char sep] xs" using assms(3) by (simp add: split_on_no)
  then show ?thesis using assms(1,2) by (cases xs) (auto simp: SepDot join_Cons_if)
qed

lemma data_key_split:
  assumes "validate_path p" and "x \<in> set (split_on slash (data_key p k))"
  shows "x \<noteq> [] \<or> x \<in> set (split_on slash k)"
proof -
  consider "p = ''/''" | r where "p = slash # r" "list_all validate_component (split_on slash r)"
    using assms(1) by (auto simp: validate_path_iff)
  then show ?thesis
  proof cases
    case 1
    then show ?thesis using assms(2) by (simp add: data_key_def strip_prefix_def)
  next
    case 2
    then show ?thesis
      using assms(2) split_components_hd(1)[OF 2(2)]
      by (auto simp: data_key_def strip_prefix_def split_on_append list_all_iff validate_component_def)
  qed
qed

lemma data_key_eq_iff: "data_key p k = data_key p k' \<longleftrightarrow> k = k'"
  by (simp add: data_key_def Let_def)

lemma data_key_meta: "validate_path p \<Longrightarrow> data_key p k = meta_key_any p f \<longleftrightarrow> k = f"
  by (auto simp: validate_path_iff data_key_def meta_key_any_def strip_prefix_def validate_component_def)

lemma hd_decimal: "of_char (hd (decimal n)) < (58::nat)" "48 \<le> (of_char (hd (decimal n)) :: nat)"
  using decimal_digits[of "hd (decimal n)" n] decimal_ne[of n] by simp_all

lemma hd_join: "xs \<noteq> [] \<Longrightarrow> hd xs \<noteq> [] \<Longrightarrow> hd (join sep xs) = hd (hd xs) \<and> join sep xs \<noteq> []"
  by (cases xs) (auto simp: join_Cons_if)

lemma hd_v2_encode: "v2_encode decimal sep idx \<noteq> [] \<and> hd (v2_encode decimal sep idx) \<noteq> CHR ''.'' \<and> hd (v2_encode decimal sep idx) \<noteq> CHR ''z''"
proof (cases idx)
  case (Cons i js)
  have "hd (v2_encode decimal sep idx) = hd (decimal i) \<and> v2_encode decimal sep idx \<noteq> []"
    using hd_join[of "map decimal idx"] Cons decimal_ne[of i] by (simp add: v2_encode_def)
  then show ?thesis using hd_decimal[of i] by auto
qed (simp add: v2_encode_def)

lemma hd_default_encode: "hd (default_encode decimal sep idx) = CHR ''c''"
  using hd_join[of "''c'' # map decimal idx"] by (simp add: default_encode_join)

lemma default_chunk_keys_decimal:
  assumes "validate_path p"
  shows "validate_key (data_key p (default_encode decimal sep idx)) \<and>
     (data_key p (default_encode decimal sep idx) = data_key p (default_encode decimal sep idx') \<longleftrightarrow> idx = idx') \<and>
     data_key p (default_encode decimal sep idx) \<notin>
       {meta_key_v3 p, meta_key_v2_array p, meta_key_v2_group p, meta_key_v2_attributes p}"
proof (intro conjI)
  have "x \<noteq> []" if "x \<in> set (split_on slash (default_encode decimal sep idx))" for x
  proof (rule encode_components[of "''c'' # map decimal idx" sep])
    fix y assume "y \<in> set (''c'' # map decimal idx)"
    then show "y \<noteq> [] \<and> separator_char sep \<notin> set y \<and> slash \<notin> set y"
      using decimal_ne separator_not_in_decimal by (cases sep) auto
  qed (use that in \<open>simp_all only: default_encode_join list.simps not_False_eq_True\<close>)
  then show "validate_key (data_key p (default_encode decimal sep idx))"
    using data_key_split[OF assms] by (intro validate_key_components) blast
  have "default_encode decimal sep idx = default_encode decimal sep idx' \<longleftrightarrow> idx = idx'"
    using split_default_encode[of sep] map_decimal_inj by (metis list.inject)
  then show "data_key p (default_encode decimal sep idx) = data_key p (default_encode decimal sep idx') \<longleftrightarrow> idx = idx'"
    by (simp add: data_key_eq_iff)
  show "data_key p (default_encode decimal sep idx) \<notin>
      {meta_key_v3 p, meta_key_v2_array p, meta_key_v2_group p, meta_key_v2_attributes p}"
    using hd_default_encode[of sep idx]
    by (auto simp: meta_key_v3_def meta_key_v2_array_def meta_key_v2_group_def meta_key_v2_attributes_def
        data_key_meta[OF assms])
qed

text \<open>
  The chunk keys of an array under the default encoding are valid store keys, distinct
  chunks have distinct keys, and no chunk key is the key of a metadata document of the array.
\<close>

theorem default_chunk_keys:
  assumes "validate_path p" and "\<forall>n. itoa n = decimal n"
  shows "validate_key (data_key p (default_encode itoa sep idx)) \<and>
     (data_key p (default_encode itoa sep idx) = data_key p (default_encode itoa sep idx') \<longleftrightarrow> idx = idx') \<and>
     data_key p (default_encode itoa sep idx) \<notin>
       {meta_key_v3 p, meta_key_v2_array p, meta_key_v2_group p, meta_key_v2_attributes p}"
proof -
  have "itoa = decimal" using assms(2) by blast
  then show ?thesis using default_chunk_keys_decimal[OF assms(1)] by simp
qed

theorem default_chunk_keys_witness:
  "validate_key (data_key ''/a'' (default_encode decimal SepSlash [1, 23])) \<and>
   (data_key ''/a'' (default_encode decimal SepSlash [1, 23]) = data_key ''/a'' (default_encode decimal SepSlash [12, 3]) \<longleftrightarrow>
     [1, 23] = [12, 3::nat]) \<and>
   data_key ''/a'' (default_encode decimal SepSlash [1, 23]) \<notin>
     {meta_key_v3 ''/a'', meta_key_v2_array ''/a'', meta_key_v2_group ''/a'', meta_key_v2_attributes ''/a''}"
  by (rule default_chunk_keys[where itoa = decimal]) (simp_all add: validate_path_def ends_with_def validate_component_def validate_name_def)

lemma v2_chunk_keys_decimal:
  assumes "validate_path p" and "length idx = length idx'"
  shows "validate_key (data_key p (v2_encode decimal sep idx)) \<and>
     (data_key p (v2_encode decimal sep idx) = data_key p (v2_encode decimal sep idx') \<longleftrightarrow> idx = idx') \<and>
     data_key p (v2_encode decimal sep idx) \<notin>
       {meta_key_v3 p, meta_key_v2_array p, meta_key_v2_group p, meta_key_v2_attributes p} \<and>
     v2_encode decimal sep [] = v2_encode decimal sep [0]"
proof (intro conjI)
  have "x \<noteq> []" if "x \<in> set (split_on slash (v2_encode decimal sep idx))" for x
  proof (cases "idx = []")
    case False
    show ?thesis
      by (rule encode_components[of "map decimal idx" sep])
        (use that False decimal_ne separator_not_in_decimal in \<open>auto simp: v2_encode_def\<close>)
  qed (use that in \<open>simp add: v2_encode_def\<close>)
  then show "validate_key (data_key p (v2_encode decimal sep idx))"
    using data_key_split[OF assms(1)] by (intro validate_key_components) blast
  have "v2_encode decimal sep idx = v2_encode decimal sep idx' \<longleftrightarrow> idx = idx'"
  proof (cases "idx = []")
    case False
    then have "idx' \<noteq> []" using assms(2) by auto
    then show ?thesis
      using split_v2_encode[OF False, of sep] split_v2_encode[of idx' sep] map_decimal_inj by metis
  qed (use assms(2) in simp)
  then show "data_key p (v2_encode decimal sep idx) = data_key p (v2_encode decimal sep idx') \<longleftrightarrow> idx = idx'"
    by (simp add: data_key_eq_iff)
  show "data_key p (v2_encode decimal sep idx) \<notin>
      {meta_key_v3 p, meta_key_v2_array p, meta_key_v2_group p, meta_key_v2_attributes p}"
    using hd_v2_encode[of sep idx]
    by (auto simp: meta_key_v3_def meta_key_v2_array_def meta_key_v2_group_def meta_key_v2_attributes_def
        data_key_meta[OF assms(1)])
  have "char_of (of_char (CHR ''0'') :: nat) = CHR ''0''" by (rule char_of_char)
  then show "v2_encode decimal sep [] = v2_encode decimal sep [0]"
    by (simp add: v2_encode_def decimal.simps digit_char_def)
qed

text \<open>
  The chunk keys under the V2 encoding are valid, distinct for distinct chunks of one
  grid (indices of the same non-zero length), and are no metadata keys.  (An empty index and
  the index \<open>[0]\<close> share the key \<open>0\<close>.)
\<close>

theorem v2_chunk_keys:
  assumes "validate_path p" and "\<forall>n. itoa n = decimal n" and "length idx = length idx'"
  shows "validate_key (data_key p (v2_encode itoa sep idx)) \<and>
     (data_key p (v2_encode itoa sep idx) = data_key p (v2_encode itoa sep idx') \<longleftrightarrow> idx = idx') \<and>
     data_key p (v2_encode itoa sep idx) \<notin>
       {meta_key_v3 p, meta_key_v2_array p, meta_key_v2_group p, meta_key_v2_attributes p} \<and>
     v2_encode itoa sep [] = v2_encode itoa sep [0]"
proof -
  have "itoa = decimal" using assms(2) by blast
  then show ?thesis using v2_chunk_keys_decimal[OF assms(1,3)] by simp
qed

theorem v2_chunk_keys_witness:
  "validate_key (data_key ''/'' (v2_encode decimal SepDot [1, 23])) \<and>
   (data_key ''/'' (v2_encode decimal SepDot [1, 23]) = data_key ''/'' (v2_encode decimal SepDot [12, 3]) \<longleftrightarrow>
     [1, 23] = [12, 3::nat]) \<and>
   data_key ''/'' (v2_encode decimal SepDot [1, 23]) \<notin>
     {meta_key_v3 ''/'', meta_key_v2_array ''/'', meta_key_v2_group ''/'', meta_key_v2_attributes ''/''} \<and>
   v2_encode decimal SepDot [] = v2_encode decimal SepDot [0]"
  by (rule v2_chunk_keys[where itoa = decimal]) (simp_all add: validate_path_def)

end
