(* ===== verification/Node_Meta.thy ===== *)
theory Node_Meta
  imports Memory_Store Node_Path
begin

text \<open>
  The metadata of nodes (\<open>zarrs_metadata/src\<close>) and reading it from a store (\<open>zarrs/src/node.rs\<close>).  The type \<open>'j\<close> stands for
  \<open>serde_json::Value\<close>, and for the parts of a document that are kept as JSON; the parameter \<open>serde\<close>
  holds the parsers and printers that the \<open>serde_json\<close> crate provides for the structures, with the text of the error on the left.
\<close>

subsection \<open>Documents\<close>

type_synonym 'j attributes = "(string \<times> 'j) list"

record 'j additional_field =
  af_field :: 'j
  af_must_understand :: bool

type_synonym 'j additional_fields = "(string \<times> 'j additional_field) list"

record 'j array_metadata_v3 =
  am3_shape :: "u64 list"
  am3_data_type :: 'j
  am3_chunk_grid :: 'j
  am3_chunk_key_encoding :: 'j
  am3_fill_value :: 'j
  am3_codecs :: "'j list"
  am3_attributes :: "'j attributes"
  am3_storage_transformers :: "'j list"
  am3_dimension_names :: "string option list option"
  am3_additional_fields :: "'j additional_fields"

record 'j array_metadata_v2 =
  am2_shape :: "u64 list"
  am2_chunks :: "u64 list"
  am2_dtype :: 'j
  am2_compressor :: "'j option"
  am2_fill_value :: 'j
  am2_order :: 'j
  am2_filters :: "'j list option"
  am2_dimension_separator :: chunk_key_separator
  am2_attributes :: "'j attributes"

record 'j group_metadata_v3 =
  gm3_attributes :: "'j attributes"
  gm3_additional_fields :: "'j additional_fields"

record 'j group_metadata_v2 =
  gm2_attributes :: "'j attributes"

datatype 'j array_metadata = AMV3 "'j array_metadata_v3" | AMV2 "'j array_metadata_v2"
datatype 'j group_metadata = GMV3 "'j group_metadata_v3" | GMV2 "'j group_metadata_v2"
datatype 'j node_metadata = NMArray "'j array_metadata" | NMGroup "'j group_metadata"

text \<open>The map of consolidated metadata is a hash map: its entries, in the order in which they are iterated.\<close>

type_synonym 'j consolidated_metadata = "(string \<times> 'j node_metadata) list"

definition hash_insert :: "'k \<Rightarrow> 'v \<Rightarrow> ('k \<times> 'v) list \<Rightarrow> ('k \<times> 'v) list" where
  "hash_insert k v m = filter (\<lambda>(k', _). k' \<noteq> k) m @ [(k, v)]"

record 'j serde =
  de_node_metadata :: "bytes \<Rightarrow> string + 'j node_metadata"
  de_array_metadata_v2 :: "bytes \<Rightarrow> string + 'j array_metadata_v2"
  de_group_metadata_v3 :: "bytes \<Rightarrow> string + 'j group_metadata_v3"
  de_group_metadata_v2 :: "bytes \<Rightarrow> string + 'j group_metadata_v2"
  de_attributes :: "bytes \<Rightarrow> string + 'j attributes"
  de_consolidated_metadata :: "'j \<Rightarrow> string + 'j consolidated_metadata"
  ser_group_metadata_v3 :: "'j group_metadata_v3 \<Rightarrow> string + bytes"
  ser_group_metadata_v2 :: "'j group_metadata_v2 \<Rightarrow> string + bytes"
  ser_attributes :: "'j attributes \<Rightarrow> string + bytes"
  ser_consolidated_metadata :: "'j consolidated_metadata \<Rightarrow> 'j"

subsection \<open>Configuration\<close>

datatype metadata_retrieve_version = RetrieveDefault | RetrieveV3 | RetrieveV2
datatype metadata_convert_version = ConvertDefault | ConvertV3
datatype metadata_erase_version = EraseDefault | EraseAll | EraseV3 | EraseV2
datatype use_consolidated_metadata = ConsolidatedAuto | ConsolidatedMust | ConsolidatedNever

definition retrieves_v3 :: "metadata_retrieve_version \<Rightarrow> bool" where
  "retrieves_v3 version \<longleftrightarrow> version = RetrieveDefault \<or> version = RetrieveV3"

definition retrieves_v2 :: "metadata_retrieve_version \<Rightarrow> bool" where
  "retrieves_v2 version \<longleftrightarrow> version = RetrieveDefault \<or> version = RetrieveV2"

subsection \<open>Reading metadata\<close>

datatype node_create_error =
  NodeNodePathError node_path_error
| NodeStorePrefixError store_prefix_error
| NodeStorageError storage_error
| MetadataVersionMismatch
| NodeMissingMetadata string
| NodePanic

fun node_path_error_text :: "node_path_error \<Rightarrow> string" where
  "node_path_error_text (NodePathError s) = ''invalid node path '' @ s"

definition storage_get :: "'s getter \<Rightarrow> 's \<Rightarrow> store_key \<Rightarrow> node_create_error + bytes option" where
  "storage_get get st key = map_err NodeStorageError (get st key)"

definition parse_metadata :: "(bytes \<Rightarrow> string + 'a) \<Rightarrow> store_key \<Rightarrow> bytes \<Rightarrow> node_create_error + 'a" where
  "parse_metadata parse key b = map_err (\<lambda>err. NodeStorageError (InvalidMetadata key err)) (parse b)"

definition get_metadata_v3 ::
    "'j serde \<Rightarrow> 's getter \<Rightarrow> 's \<Rightarrow> node_path \<Rightarrow> node_create_error + 'j node_metadata option" where
  "get_metadata_v3 sd get st path =
     (let key_v3 = meta_key_v3 path in
      bind_res (storage_get get st key_v3) (\<lambda>b.
        case b of
          None \<Rightarrow> Inr None
        | Some b \<Rightarrow> bind_res (parse_metadata (de_node_metadata sd) key_v3 b) (\<lambda>metadata.
            case metadata of
              NMArray (AMV3 _) \<Rightarrow> Inr (Some metadata)
            | NMGroup (GMV3 _) \<Rightarrow> Inr (Some metadata)
            | _ \<Rightarrow> Inl MetadataVersionMismatch)))"

text \<open>The attributes of a V2 document: those of the \<open>.zattrs\<close> document replace its own.\<close>

definition get_attributes_v2 ::
    "'j serde \<Rightarrow> 's getter \<Rightarrow> 's \<Rightarrow> node_path \<Rightarrow> 'j attributes \<Rightarrow> node_create_error + 'j attributes" where
  "get_attributes_v2 sd get st path own =
     (let attributes_key = meta_key_v2_attributes path in
      bind_res (storage_get get st attributes_key) (\<lambda>a.
        case a of None \<Rightarrow> Inr own | Some a \<Rightarrow> parse_metadata (de_attributes sd) attributes_key a))"

definition get_metadata_v2 ::
    "'j serde \<Rightarrow> 's getter \<Rightarrow> 's \<Rightarrow> node_path \<Rightarrow> node_create_error + 'j node_metadata option" where
  "get_metadata_v2 sd get st path =
     (let array_key = meta_key_v2_array path; group_key = meta_key_v2_group path in
      bind_res (storage_get get st array_key) (\<lambda>b.
        case b of
          Some b \<Rightarrow> bind_res (parse_metadata (de_array_metadata_v2 sd) array_key b) (\<lambda>metadata.
            bind_res (get_attributes_v2 sd get st path (am2_attributes metadata)) (\<lambda>a.
              Inr (Some (NMArray (AMV2 (metadata\<lparr>am2_attributes := a\<rparr>))))))
        | None \<Rightarrow>
            bind_res (storage_get get st group_key) (\<lambda>b.
              case b of
                None \<Rightarrow> Inr None
              | Some b \<Rightarrow> bind_res (parse_metadata (de_group_metadata_v2 sd) group_key b) (\<lambda>metadata.
                  bind_res (get_attributes_v2 sd get st path (gm2_attributes metadata)) (\<lambda>a.
                    Inr (Some (NMGroup (GMV2 (metadata\<lparr>gm2_attributes := a\<rparr>)))))))))"

definition get_metadata ::
    "'j serde \<Rightarrow> 's getter \<Rightarrow> 's \<Rightarrow> node_path \<Rightarrow> metadata_retrieve_version \<Rightarrow> node_create_error + 'j node_metadata" where
  "get_metadata sd get st path version =
     bind_res (if retrieves_v3 version then get_metadata_v3 sd get st path else Inr None) (\<lambda>m.
       case m of
         Some metadata \<Rightarrow> Inr metadata
       | None \<Rightarrow> bind_res (if retrieves_v2 version then get_metadata_v2 sd get st path else Inr None) (\<lambda>m.
           case m of Some metadata \<Rightarrow> Inr metadata | None \<Rightarrow> Inl (NodeMissingMetadata path)))"

subsection \<open>Existence of nodes\<close>

definition node_exists :: "'s getter \<Rightarrow> 's \<Rightarrow> node_path \<Rightarrow> storage_error + bool" where
  "node_exists get st path =
     bind_res (get st (meta_key_v3 path)) (\<lambda>b. if b \<noteq> None then Inr True else
     bind_res (get st (meta_key_v2_array path)) (\<lambda>b. if b \<noteq> None then Inr True else
     bind_res (get st (meta_key_v2_group path)) (\<lambda>b. Inr (b \<noteq> None))))"

definition node_exists_listable ::
    "('s \<Rightarrow> store_prefix \<Rightarrow> storage_error + store_key list) \<Rightarrow> 's \<Rightarrow> node_path \<Rightarrow> storage_error + bool" where
  "node_exists_listable list_prefix st path =
     bind_res (map_err StorageStorePrefixError (path_to_prefix path)) (\<lambda>p.
     bind_res (list_prefix st p) (\<lambda>keys.
       Inr (meta_key_v3 path \<in> set keys \<or> meta_key_v2_array path \<in> set keys \<or> meta_key_v2_group path \<in> set keys)))"

end
