(* ===== verification/Node_Tree.thy ===== *)
theory Node_Tree
  imports Node_Meta
begin

text \<open>
  Nodes and hierarchies (\<open>zarrs/src/node.rs\<close>, \<open>zarrs/src/node/node_sync.rs\<close>, \<open>zarrs/src/hierarchy.rs\<close>): finding the nodes below a path by
  listing the store or in consolidated metadata, as a tree or as a flat map.

  The recursion over the store has no bound in the code; here it has fuel, and \<open>None\<close> is the result of a call that has run out of it.
\<close>

subsection \<open>Paths as keys of maps\<close>

text \<open>\<open>NodePath\<close> is ordered as a path: by its components, not by its characters.\<close>

datatype node_key = NodeKey (key_path: node_path)

instantiation node_key :: linorder
begin

definition less_eq_node_key :: "node_key \<Rightarrow> node_key \<Rightarrow> bool" where
  "less_eq_node_key p q \<longleftrightarrow> split_on slash (key_path p) \<le> split_on slash (key_path q)"

definition less_node_key :: "node_key \<Rightarrow> node_key \<Rightarrow> bool" where
  "less_node_key p q \<longleftrightarrow> split_on slash (key_path p) < split_on slash (key_path q)"

instance
proof
  fix p q :: node_key
  assume "p \<le> q" and "q \<le> p"
  then have "join [slash] (split_on slash (key_path p)) = join [slash] (split_on slash (key_path q))"
    by (simp add: less_eq_node_key_def)
  then show "p = q" by (simp add: node_key.expand)
qed (auto simp: less_eq_node_key_def less_node_key_def)

end

subsection \<open>Nodes\<close>

datatype 'j node = Node (nd_path: node_path) (nd_metadata: "'j node_metadata") (nd_children: "'j node list")

fun is_group :: "'j node_metadata \<Rightarrow> bool" where
  "is_group (NMGroup _) = True"
| "is_group (NMArray _) = False"

definition node_name :: "'j node \<Rightarrow> string" where
  "node_name n = last (split_on slash (nd_path n))"

subsection \<open>Listing\<close>

type_synonym 's dir_lister = "'s \<Rightarrow> store_prefix \<Rightarrow> storage_error + store_keys_prefixes"

fun child_nodes_loop ::
    "(node_path \<Rightarrow> (node_create_error + 'j node list) option) \<Rightarrow> (node_path \<Rightarrow> node_create_error + 'j node_metadata) \<Rightarrow>
     bool \<Rightarrow> store_prefix list \<Rightarrow> 'j node list \<Rightarrow> (node_create_error + 'j node list) option" where
  "child_nodes_loop rec meta recursive [] nodes = Some (Inr nodes)"
| "child_nodes_loop rec meta recursive (prefix # prefixes) nodes =
     (case path_of_prefix prefix of
        None \<Rightarrow> Some (Inl NodePanic)
      | Some (Inl err) \<Rightarrow> Some (Inl (NodeStorageError (OtherError (node_path_error_text err))))
      | Some (Inr path) \<Rightarrow>
          (case meta path of
             Inl (NodeMissingMetadata _) \<Rightarrow> child_nodes_loop rec meta recursive prefixes nodes
           | Inl e \<Rightarrow> Some (Inl e)
           | Inr child_metadata \<Rightarrow>
               (case (if recursive \<and> is_group child_metadata then rec path else Some (Inr [])) of
                  None \<Rightarrow> None
                | Some (Inl e) \<Rightarrow> Some (Inl e)
                | Some (Inr children) \<Rightarrow>
                    child_nodes_loop rec meta recursive prefixes (nodes @ [Node path child_metadata children]))))"

fun get_child_nodes_opt ::
    "nat \<Rightarrow> 'j serde \<Rightarrow> 's getter \<Rightarrow> 's dir_lister \<Rightarrow> 's \<Rightarrow> node_path \<Rightarrow> bool \<Rightarrow> metadata_retrieve_version \<Rightarrow>
     (node_create_error + 'j node list) option" where
  "get_child_nodes_opt 0 sd get list_dir st path recursive version = None"
| "get_child_nodes_opt (Suc fuel) sd get list_dir st path recursive version =
     (case path_to_prefix path of
        Inl e \<Rightarrow> Some (Inl (NodeStorePrefixError e))
      | Inr prefix \<Rightarrow>
          (case discover_children list_dir st prefix of
             Inl e \<Rightarrow> Some (Inl (NodeStorageError e))
           | Inr prefixes \<Rightarrow>
               child_nodes_loop (\<lambda>path. get_child_nodes_opt fuel sd get list_dir st path True version)
                 (\<lambda>path. get_metadata sd get st path version) recursive prefixes []))"

definition get_child_nodes ::
    "nat \<Rightarrow> 'j serde \<Rightarrow> 's getter \<Rightarrow> 's dir_lister \<Rightarrow> 's \<Rightarrow> node_path \<Rightarrow> bool \<Rightarrow> (node_create_error + 'j node list) option" where
  "get_child_nodes fuel sd get list_dir st path recursive =
     get_child_nodes_opt fuel sd get list_dir st path recursive RetrieveDefault"

fun all_nodes_loop ::
    "(node_path \<Rightarrow> (node_create_error + (node_path \<times> 'j node_metadata) list) option) \<Rightarrow> 'j node list \<Rightarrow>
     (node_path \<times> 'j node_metadata) list \<Rightarrow> (node_create_error + (node_path \<times> 'j node_metadata) list) option" where
  "all_nodes_loop rec [] nodes = Some (Inr nodes)"
| "all_nodes_loop rec (child # children) nodes =
     (case (if is_group (nd_metadata child) then rec (nd_path child) else Some (Inr [])) of
        None \<Rightarrow> None
      | Some (Inl e) \<Rightarrow> Some (Inl e)
      | Some (Inr below) \<Rightarrow> all_nodes_loop rec children (nodes @ below @ [(nd_path child, nd_metadata child)]))"

fun get_all_nodes_of ::
    "nat \<Rightarrow> 'j serde \<Rightarrow> 's getter \<Rightarrow> 's dir_lister \<Rightarrow> 's \<Rightarrow> node_path \<Rightarrow> metadata_retrieve_version \<Rightarrow>
     (node_create_error + (node_path \<times> 'j node_metadata) list) option" where
  "get_all_nodes_of 0 sd get list_dir st path version = None"
| "get_all_nodes_of (Suc fuel) sd get list_dir st path version =
     (case get_child_nodes_opt (Suc fuel) sd get list_dir st path False version of
        None \<Rightarrow> None
      | Some (Inl e) \<Rightarrow> Some (Inl e)
      | Some (Inr children) \<Rightarrow>
          all_nodes_loop (\<lambda>path. get_all_nodes_of fuel sd get list_dir st path version) children [])"

subsection \<open>Consolidated metadata\<close>

fun expand_loop ::
    "node_path \<Rightarrow> 'j consolidated_metadata \<Rightarrow> (node_path \<times> 'j node_metadata) list \<Rightarrow>
     node_create_error + (node_path \<times> 'j node_metadata) list" where
  "expand_loop base_path [] out = Inr out"
| "expand_loop base_path ((rel, md) # c) out =
     (case path_join base_path rel of
        Inl e \<Rightarrow> Inl (NodeNodePathError e)
      | Inr path \<Rightarrow> if path = base_path then expand_loop base_path c out else expand_loop base_path c (out @ [(path, md)]))"

definition expand_consolidated_metadata ::
    "node_path \<Rightarrow> 'j consolidated_metadata \<Rightarrow> node_create_error + (node_path \<times> 'j node_metadata) list" where
  "expand_consolidated_metadata base_path consolidated = expand_loop base_path consolidated []"

type_synonym 'j entry_map = "(node_key \<times> 'j node_metadata) list"
type_synonym 'j parent_map = "(node_key \<times> 'j entry_map) list"

fun collect_loop ::
    "(node_path \<Rightarrow> 'j parent_map \<Rightarrow> ('j node list \<times> 'j parent_map) option) \<Rightarrow> 'j entry_map \<Rightarrow> 'j parent_map \<Rightarrow>
     ('j node list \<times> 'j parent_map) option" where
  "collect_loop rec [] by_parent = Some ([], by_parent)"
| "collect_loop rec ((path, md) # entries) by_parent =
     Option.bind (if is_group md then rec (key_path path) by_parent else Some ([], by_parent)) (\<lambda>(children, by_parent).
     Option.bind (collect_loop rec entries by_parent) (\<lambda>(nodes, by_parent).
       Some (Node (key_path path) md children # nodes, by_parent)))"

fun collect_children_from_map ::
    "nat \<Rightarrow> node_path \<Rightarrow> 'j parent_map \<Rightarrow> ('j node list \<times> 'j parent_map) option" where
  "collect_children_from_map 0 parent by_parent = None"
| "collect_children_from_map (Suc fuel) parent by_parent =
     (case map_of by_parent (NodeKey parent) of
        None \<Rightarrow> Some ([], by_parent)
      | Some entries \<Rightarrow>
          collect_loop (collect_children_from_map fuel) entries (btree_remove (NodeKey parent) by_parent))"

definition parent_insert :: "'j parent_map \<Rightarrow> node_path \<times> 'j node_metadata \<Rightarrow> 'j parent_map" where
  "parent_insert by_parent e =
     (case path_parent (fst e) of
        None \<Rightarrow> by_parent
      | Some parent \<Rightarrow>
          let entries = (case map_of by_parent (NodeKey parent) of None \<Rightarrow> [] | Some es \<Rightarrow> es)
          in btree_insert (NodeKey parent) (btree_insert (NodeKey (fst e)) (snd e) entries) by_parent)"

text \<open>Every call removes an entry from the map, so the number of entries bounds the depth of the recursion.\<close>

definition build_node_tree :: "node_path \<Rightarrow> (node_path \<times> 'j node_metadata) list \<Rightarrow> 'j node list option" where
  "build_node_tree base_path flat =
     (let by_parent = foldl parent_insert [] flat
      in map_option fst (collect_children_from_map (Suc (length by_parent)) base_path by_parent))"

definition direct_children_from_flat :: "node_path \<Rightarrow> (node_path \<times> 'j node_metadata) list \<Rightarrow> 'j node list" where
  "direct_children_from_flat base_path flat =
     sort_key (\<lambda>n. NodeKey (nd_path n))
       (map (\<lambda>(p, m). Node p m []) (filter (\<lambda>(p, _). path_parent p = Some base_path) flat))"

definition resolve_consolidated_policy ::
    "node_path \<Rightarrow> 'j consolidated_metadata option \<Rightarrow> use_consolidated_metadata \<Rightarrow>
     node_create_error + 'j consolidated_metadata option" where
  "resolve_consolidated_policy path consolidated policy =
     (if policy = ConsolidatedNever then Inr None
      else case consolidated of
          Some c \<Rightarrow> Inr (Some c)
        | None \<Rightarrow>
            if policy = ConsolidatedMust
            then Inl (NodeMissingMetadata (''Consolidated metadata required but missing on group '' @ path))
            else Inr None)"

text \<open>The consolidated metadata in the additional fields of a V3 group.\<close>

definition consolidated_field :: "'j serde \<Rightarrow> 'j additional_fields \<Rightarrow> 'j consolidated_metadata option" where
  "consolidated_field sd additional =
     Option.bind (map_of additional ''consolidated_metadata'') (\<lambda>f.
       case de_consolidated_metadata sd (af_field f) of Inl _ \<Rightarrow> None | Inr c \<Rightarrow> Some c)"

definition consolidated_metadata_for_open ::
    "'j serde \<Rightarrow> node_path \<Rightarrow> 'j node_metadata \<Rightarrow> use_consolidated_metadata \<Rightarrow>
     node_create_error + 'j consolidated_metadata option" where
  "consolidated_metadata_for_open sd path metadata policy =
     (let consolidated =
        (case metadata of
           NMGroup (GMV3 group_metadata) \<Rightarrow> consolidated_field sd (gm3_additional_fields group_metadata)
         | NMGroup (GMV2 _) \<Rightarrow> None
         | NMArray _ \<Rightarrow> None)
      in resolve_consolidated_policy path consolidated policy)"

text \<open>\<open>None\<close> is the panic of the code on a child whose path does not start with that of the node.\<close>

fun update_consolidated_metadata :: "node_path \<Rightarrow> 'j consolidated_metadata \<Rightarrow> 'j node list \<Rightarrow> 'j consolidated_metadata option" where
  "update_consolidated_metadata path c [] = Some c"
| "update_consolidated_metadata path c (Node child md children # nodes) =
     Option.bind (strip_prefix child path) (\<lambda>relative_path.
       let relative_path = (case strip_prefix relative_path [slash] of None \<Rightarrow> relative_path | Some r \<Rightarrow> r) in
       Option.bind (update_consolidated_metadata path (hash_insert relative_path md c) children) (\<lambda>c.
         update_consolidated_metadata path c nodes))"

text \<open>For an array the result is \<open>Some None\<close>.\<close>

definition consolidate_metadata :: "'j node \<Rightarrow> 'j consolidated_metadata option option" where
  "consolidate_metadata n =
     (if \<not> is_group (nd_metadata n) then Some None
      else map_option Some (update_consolidated_metadata (nd_path n) [] (nd_children n)))"

subsection \<open>Opening a node\<close>

definition node_open_opt ::
    "nat \<Rightarrow> 'j serde \<Rightarrow> 's getter \<Rightarrow> 's dir_lister \<Rightarrow> 's \<Rightarrow> string \<Rightarrow> metadata_retrieve_version \<Rightarrow>
     use_consolidated_metadata \<Rightarrow> (node_create_error + 'j node) option" where
  "node_open_opt fuel sd get list_dir st path version policy =
     (case path_new path of
        Inl e \<Rightarrow> Some (Inl (NodeNodePathError e))
      | Inr path \<Rightarrow>
          (case get_metadata sd get st path version of
             Inl e \<Rightarrow> Some (Inl e)
           | Inr metadata \<Rightarrow>
               map_option (\<lambda>r. bind_res r (\<lambda>children. Inr (Node path metadata children)))
                 (if \<not> is_group metadata then Some (Inr [])
                  else case consolidated_metadata_for_open sd path metadata policy of
                      Inl e \<Rightarrow> Some (Inl e)
                    | Inr (Some consolidated) \<Rightarrow>
                        (case expand_consolidated_metadata path consolidated of
                           Inl e \<Rightarrow> Some (Inl e)
                         | Inr flat \<Rightarrow> map_option Inr (build_node_tree path flat))
                    | Inr None \<Rightarrow> get_child_nodes_opt fuel sd get list_dir st path True version)))"

subsection \<open>Hierarchies\<close>

type_synonym 'j hierarchy = "(node_key \<times> 'j node_metadata) list"

definition hierarchy_extend :: "'j hierarchy \<Rightarrow> (node_path \<times> 'j node_metadata) list \<Rightarrow> 'j hierarchy" where
  "hierarchy_extend h nodes = foldl (\<lambda>h (p, md). btree_insert (NodeKey p) md h) h nodes"

definition hierarchy_open_opt ::
    "nat \<Rightarrow> 'j serde \<Rightarrow> 's getter \<Rightarrow> 's dir_lister \<Rightarrow> 's \<Rightarrow> string \<Rightarrow> metadata_retrieve_version \<Rightarrow>
     use_consolidated_metadata \<Rightarrow> (node_create_error + 'j hierarchy) option" where
  "hierarchy_open_opt fuel sd get list_dir st path version policy =
     (case path_new path of
        Inl e \<Rightarrow> Some (Inl (NodeNodePathError e))
      | Inr node_path \<Rightarrow>
          (case get_metadata sd get st node_path version of
             Inl e \<Rightarrow> Some (Inl e)
           | Inr node_metadata \<Rightarrow>
               map_option (\<lambda>r. bind_res r (\<lambda>nodes.
                   Inr (hierarchy_extend (btree_insert (NodeKey node_path) node_metadata []) nodes)))
                 (if \<not> is_group node_metadata then Some (Inr [])
                  else case consolidated_metadata_for_open sd node_path node_metadata policy of
                      Inl e \<Rightarrow> Some (Inl e)
                    | Inr (Some consolidated) \<Rightarrow> Some (expand_consolidated_metadata node_path consolidated)
                    | Inr None \<Rightarrow> get_all_nodes_of fuel sd get list_dir st node_path version)))"

subsection \<open>Trees as text\<close>

text \<open>
  \<open>show_v3\<close> prints a V3 data type and \<open>show_v2\<close> a V2 data type; a vector is printed as by \<open>Debug\<close>.
\<close>

definition show_shape :: "u64 list \<Rightarrow> string" where
  "show_shape s = ''['' @ join '', '' (map decimal s) @ '']''"

fun print_metadata :: "('j \<Rightarrow> string) \<Rightarrow> ('j \<Rightarrow> string) \<Rightarrow> string \<Rightarrow> string \<Rightarrow> 'j node_metadata \<Rightarrow> string" where
  "print_metadata show_v3 show_v2 name text (NMArray (AMV3 m)) =
     text @ name @ '' '' @ show_shape (am3_shape m) @ '' '' @ show_v3 (am3_data_type m) @ [CHR 0x0A]"
| "print_metadata show_v3 show_v2 name text (NMArray (AMV2 m)) =
     text @ name @ '' '' @ show_shape (am2_shape m) @ '' '' @ show_v2 (am2_dtype m) @ [CHR 0x0A]"
| "print_metadata show_v3 show_v2 name text (NMGroup _) = text @ name @ [CHR 0x0A]"

definition indent :: "nat \<Rightarrow> string" where
  "indent depth = replicate (depth * 2) CHR '' ''"

fun update_tree :: "('j \<Rightarrow> string) \<Rightarrow> ('j \<Rightarrow> string) \<Rightarrow> string \<Rightarrow> 'j node list \<Rightarrow> nat \<Rightarrow> string" where
  "update_tree show_v3 show_v2 text [] depth = text"
| "update_tree show_v3 show_v2 text (Node p md cs # children) depth =
     update_tree show_v3 show_v2
       (update_tree show_v3 show_v2
         (print_metadata show_v3 show_v2 (node_name (Node p md cs)) (text @ indent depth) md) cs (depth + 1))
       children depth"

definition node_hierarchy_tree :: "('j \<Rightarrow> string) \<Rightarrow> ('j \<Rightarrow> string) \<Rightarrow> 'j node \<Rightarrow> string" where
  "node_hierarchy_tree show_v3 show_v2 n =
     update_tree show_v3 show_v2 (print_metadata show_v3 show_v2 ''/'' [] (nd_metadata n)) (nd_children n) 1"

text \<open>The number of components of a path: its root and its names.\<close>

definition path_components :: "node_path \<Rightarrow> nat" where
  "path_components p = 1 + length (filter (\<lambda>c. c \<noteq> []) (split_on slash p))"

definition tree_of :: "('j \<Rightarrow> string) \<Rightarrow> ('j \<Rightarrow> string) \<Rightarrow> 'j hierarchy \<Rightarrow> node_path \<Rightarrow> string" where
  "tree_of show_v3 show_v2 h path =
     foldl (\<lambda>s (p, md).
         print_metadata show_v3 show_v2 (node_name (Node (key_path p) md []))
           (s @ indent (path_components (key_path p) - path_components path)) md)
       (path @ [CHR 0x0A])
       (filter (\<lambda>(p, _). starts_with (key_path p) path \<and> key_path p \<noteq> path) h)"

definition hierarchy_tree :: "('j \<Rightarrow> string) \<Rightarrow> ('j \<Rightarrow> string) \<Rightarrow> 'j hierarchy \<Rightarrow> string" where
  "hierarchy_tree show_v3 show_v2 h = tree_of show_v3 show_v2 h path_root"

end
