(* ===== verification/Node_Names.thy ===== *)
theory Node_Names
  imports Node_Tree Store_Listing
begin

text \<open>
  Paths as lists of names: the path, the prefix and the keys of the node with given names, and how the operations on paths act on
  names.
\<close>

definition path_of_names :: "string list \<Rightarrow> node_path" where
  "path_of_names cs = slash # join [slash] cs"

definition prefix_of_names :: "string list \<Rightarrow> store_prefix" where
  "prefix_of_names cs = concat (map (\<lambda>c. c @ [slash]) cs)"

abbreviation names_ok :: "string list \<Rightarrow> bool" where
  "names_ok \<equiv> list_all validate_component"

lemma prefix_of_names_simps [simp]:
  "prefix_of_names [] = []" "prefix_of_names (c # cs) = c @ slash # prefix_of_names cs"
  "prefix_of_names (cs @ ds) = prefix_of_names cs @ prefix_of_names ds"
  by (simp_all add: prefix_of_names_def)

lemma prefix_of_names_join: "cs \<noteq> [] \<Longrightarrow> prefix_of_names cs = join [slash] cs @ [slash]"
  by (induction cs rule: induct_list012) simp_all

lemma names_ok_no_slash: "names_ok cs \<Longrightarrow> c \<in> set cs \<Longrightarrow> slash \<notin> set c \<and> c \<noteq> []"
  using component_hd by (auto simp: list_all_iff)

lemma split_names: "names_ok cs \<Longrightarrow> cs \<noteq> [] \<Longrightarrow> split_on slash (join [slash] cs) = cs"
  by (rule split_join) (auto dest: names_ok_no_slash)

lemma split_path_of_names: "names_ok cs \<Longrightarrow> split_on slash (path_of_names cs) = [] # (if cs = [] then [[]] else cs)"
  using split_names[of cs] by (simp add: path_of_names_def)

lemma path_of_names_inj: "names_ok cs \<Longrightarrow> names_ok ds \<Longrightarrow> path_of_names cs = path_of_names ds \<longleftrightarrow> cs = ds"
proof
  assume ok: "names_ok cs" "names_ok ds" and eq: "path_of_names cs = path_of_names ds"
  have "(if cs = [] then [[]] else cs) = (if ds = [] then [[]] else ds)"
    using split_path_of_names[OF ok(1)] split_path_of_names[OF ok(2)] eq by simp
  then show "cs = ds"
    using names_ok_no_slash[OF ok(1), of "[]"] names_ok_no_slash[OF ok(2), of "[]"] by (auto split: if_splits)
qed simp

lemma path_of_names_Nil: "path_of_names [] = ''/''"
  by (simp add: path_of_names_def)

lemma path_of_names_root_iff: "names_ok cs \<Longrightarrow> path_of_names cs = ''/'' \<longleftrightarrow> cs = []"
  using path_of_names_inj[of cs "[]"] by (simp add: path_of_names_Nil)

lemma validate_path_names: "validate_path p \<longleftrightarrow> (\<exists>cs. names_ok cs \<and> p = path_of_names cs)"
proof
  assume "validate_path p"
  then consider "p = ''/''" | r where "p = slash # r" "names_ok (split_on slash r)"
    by (auto simp: validate_path_iff)
  then show "\<exists>cs. names_ok cs \<and> p = path_of_names cs"
  proof cases
    case 1
    then show ?thesis by (intro exI[of _ "[]"]) (simp add: path_of_names_Nil)
  next
    case 2
    then show ?thesis by (intro exI[of _ "split_on slash r"]) (simp add: path_of_names_def)
  qed
next
  assume "\<exists>cs. names_ok cs \<and> p = path_of_names cs"
  then obtain cs where cs: "names_ok cs" "p = path_of_names cs" by blast
  show "validate_path p"
  proof (cases "cs = []")
    case True
    then show ?thesis using cs by (simp add: path_of_names_def validate_path_def)
  next
    case False
    then show ?thesis using cs split_names by (auto simp: path_of_names_def validate_path_iff)
  qed
qed

lemma path_new_names: "names_ok cs \<Longrightarrow> path_new (path_of_names cs) = Inr (path_of_names cs)"
  using validate_path_names by (auto simp: path_new_def)

lemma join_append: "cs \<noteq> [] \<Longrightarrow> ds \<noteq> [] \<Longrightarrow> join [slash] (cs @ ds) = join [slash] cs @ slash # join [slash] ds"
  by (induction cs rule: induct_list012) (auto simp: join_Cons)

text \<open>Joining names, and the parent.\<close>

lemma path_join_names:
  assumes "names_ok cs" and "names_ok ds" and "ds \<noteq> []"
  shows "path_join (path_of_names cs) (join [slash] ds) = Inr (path_of_names (cs @ ds))"
proof -
  have v: "validate_path (path_of_names cs)" using assms(1) validate_path_names by blast
  have "names_ok (split_on slash (join [slash] ds))" using split_names assms(2,3) by simp
  from path_join_valid(1)[OF v this] show ?thesis
    using assms(3) join_append[of cs ds] path_of_names_root_iff[OF assms(1)]
    by (cases "cs = []") (simp_all add: path_of_names_def)
qed

lemma path_join_name:
  assumes "names_ok cs" and "validate_component c"
  shows "path_join (path_of_names cs) c = Inr (path_of_names (cs @ [c]))"
  using path_join_names[OF assms(1), of "[c]"] assms(2) by simp

lemma path_parent_names:
  assumes "names_ok cs" and "validate_component c"
  shows "path_parent (path_of_names (cs @ [c])) = Some (path_of_names cs)"
proof -
  have c: "slash \<notin> set c" "c \<noteq> []" using component_hd[OF assms(2)] by auto
  show ?thesis
  proof (cases "cs = []")
    case True
    then show ?thesis
      using rsplit_once_eq[OF c(1), of "[]"] c(2) by (simp add: path_parent_def path_of_names_def path_root_def)
  next
    case False
    then have "path_of_names (cs @ [c]) = path_of_names cs @ slash # c" by (simp add: path_of_names_def join_snoc)
    then show ?thesis
      using rsplit_once_eq[OF c(1), of "path_of_names cs"] c(2) path_new_names[OF assms(1)]
      by (simp add: path_parent_def) (simp add: path_of_names_def)
  qed
qed

lemma path_parent_root: "path_parent (path_of_names []) = None"
  by (simp add: path_parent_def path_of_names_def rsplit_once_def)

text \<open>Prefixes and keys.\<close>

lemma validate_prefix_names: "names_ok cs \<Longrightarrow> validate_prefix (prefix_of_names cs)"
proof (cases cs)
  case (Cons c ds)
  assume "names_ok cs"
  then have "slash \<notin> set c" "c \<noteq> []" using component_hd[of c] Cons by simp_all
  then have "hd (join [slash] cs) \<noteq> slash" "join [slash] cs \<noteq> []"
    using Cons hd_join[of cs "[slash]"] by (cases c; auto)+
  then show ?thesis using prefix_of_names_join[of cs] validate_prefix_snoc Cons by (metis list.distinct(1))
qed (simp add: validate_prefix_def)

lemma path_to_prefix_names: "names_ok cs \<Longrightarrow> path_to_prefix (path_of_names cs) = Inr (prefix_of_names cs)"
proof (cases "cs = []")
  case True
  then show ?thesis by (simp add: path_to_prefix_def path_of_names_def prefix_new_def validate_prefix_def)
next
  case False
  assume "names_ok cs"
  then show ?thesis
    using False path_of_names_root_iff[of cs] validate_prefix_names[of cs] prefix_of_names_join[OF False]
    by (simp add: path_to_prefix_def prefix_new_def) (simp add: path_of_names_def strip_prefix_def)
qed

lemma path_of_prefix_names: "path_of_prefix (prefix_of_names (cs @ [c])) = Some (path_new (path_of_names (cs @ [c])))"
proof -
  have "prefix_of_names (cs @ [c]) = join [slash] (cs @ [c]) @ [slash]" by (rule prefix_of_names_join) simp
  then show ?thesis by (simp add: path_of_prefix_def strip_suffix_def path_of_names_def del: prefix_of_names_simps)
qed

lemma path_new_name:
  assumes "names_ok cs" and "slash \<notin> set c" and "c \<noteq> []"
  shows "path_new (path_of_names (cs @ [c])) =
     (if validate_component c then Inr (path_of_names (cs @ [c])) else Inl (NodePathError (path_of_names (cs @ [c]))))"
proof -
  have sp: "split_on slash (join [slash] (cs @ [c])) = cs @ [c]"
    by (rule split_join) (use assms names_ok_no_slash in auto)
  have "path_of_names (cs @ [c]) \<noteq> ''/''"
    using assms(3) hd_join[of "cs @ [c]" "[slash]"] names_ok_no_slash[OF assms(1)]
    by (cases cs) (auto simp: path_of_names_def)
  then show ?thesis
    using assms(1) sp by (auto simp: path_new_def validate_path_iff path_of_names_def)
qed

lemma meta_key_names: "names_ok cs \<Longrightarrow> meta_key_any (path_of_names cs) f = prefix_of_names cs @ f"
proof (cases "cs = []")
  case False
  assume "names_ok cs"
  then show ?thesis
    using False path_of_names_root_iff[of cs] prefix_of_names_join[OF False]
    by (simp add: meta_key_any_def) (simp add: path_of_names_def strip_prefix_def)
qed (simp add: meta_key_any_def path_of_names_def)

lemma prefix_of_names_inj:
  assumes "slash \<notin> set c" and "slash \<notin> set d"
  shows "prefix_of_names (cs @ [c]) = prefix_of_names (cs @ [d]) \<longleftrightarrow> c = d"
  by simp

end
