(* ===== verification/Node_Listing.thy ===== *)
theory Node_Listing
  imports Node_Names
begin

text \<open>
  The nodes that listing finds: the recursion over the store ends, the tree and the flat list of nodes agree, and they hold exactly the
  nodes that are reached from the path through groups.
\<close>

subsection \<open>Trees and flat lists\<close>

text \<open>The nodes of a forest, each after the nodes below it.\<close>

fun postorder :: "'j node list \<Rightarrow> (node_path \<times> 'j node_metadata) list" where
  "postorder [] = []"
| "postorder (Node p md cs # ns) = postorder cs @ (p, md) # postorder ns"

lemma postorder_append [simp]: "postorder (ms @ ns) = postorder ms @ postorder ns"
  by (induction ms rule: postorder.induct) simp_all

definition shift_nodes :: "'a list \<Rightarrow> ('e + 'a list) option \<Rightarrow> ('e + 'a list) option" where
  "shift_nodes nodes = map_option (map_sum id ((@) nodes))"

lemma shift_nodes_simps [simp]:
  "shift_nodes nodes None = None" "shift_nodes nodes (Some (Inl e)) = Some (Inl e)"
  "shift_nodes nodes (Some (Inr ns)) = Some (Inr (nodes @ ns))"
  by (simp_all add: shift_nodes_def)

lemma shift_nodes_Inr: "shift_nodes nodes r = Some (Inr ns) \<longleftrightarrow> (\<exists>ms. r = Some (Inr ms) \<and> ns = nodes @ ms)"
  by (cases r rule: option.exhaust[case_product sum.exhaust]; cases r)
    (auto simp: shift_nodes_def map_sum_def split: sum.splits)

lemma shift_nodes_None: "shift_nodes nodes r = None \<longleftrightarrow> r = None"
  by (simp add: shift_nodes_def)

lemma child_nodes_loop_append:
  "child_nodes_loop rec meta b ps (ms @ nodes) = shift_nodes ms (child_nodes_loop rec meta b ps nodes)"
proof (induction ps arbitrary: nodes)
  case (Cons q ps)
  show ?case
    using Cons.IH[of "nodes @ [n]" for n] Cons.IH[of nodes]
    by (cases b) (auto split: option.splits sum.splits node_create_error.splits)
qed simp

lemma all_nodes_loop_append: "all_nodes_loop rec ns (out @ nodes) = shift_nodes out (all_nodes_loop rec ns nodes)"
proof (induction ns arbitrary: nodes)
  case (Cons n ns)
  show ?case
    by (auto simp: Cons.IH[of "nodes @ x @ [y]" for x y] Cons.IH[of "nodes @ [y]" for y] split: option.splits sum.splits)
qed simp

lemmas child_nodes_loop_acc = child_nodes_loop_append[where nodes = "[]", unfolded append_Nil2]
lemmas all_nodes_loop_acc = all_nodes_loop_append[where nodes = "[]", unfolded append_Nil2]

text \<open>One step of the loops, from an empty accumulator.\<close>

lemma child_nodes_step:
  assumes "path_of_prefix q = Some (Inr p)"
  shows "child_nodes_loop rec meta b (q # ps) [] =
     (case meta p of
        Inl (NodeMissingMetadata _) \<Rightarrow> child_nodes_loop rec meta b ps []
      | Inl e \<Rightarrow> Some (Inl e)
      | Inr md \<Rightarrow>
          (case (if b \<and> is_group md then rec p else Some (Inr [])) of
             None \<Rightarrow> None
           | Some (Inl e) \<Rightarrow> Some (Inl e)
           | Some (Inr cs) \<Rightarrow> shift_nodes [Node p md cs] (child_nodes_loop rec meta b ps [])))"
  using assms by (auto simp: child_nodes_loop_acc[where ms = "[n]" for n] split: option.splits sum.splits node_create_error.splits)

lemma all_nodes_step:
  "all_nodes_loop rec (n # ns) [] =
     (case (if is_group (nd_metadata n) then rec (nd_path n) else Some (Inr [])) of
        None \<Rightarrow> None
      | Some (Inl e) \<Rightarrow> Some (Inl e)
      | Some (Inr below) \<Rightarrow> shift_nodes (below @ [(nd_path n, nd_metadata n)]) (all_nodes_loop rec ns []))"
  by (auto simp: all_nodes_loop_acc[of rec ns "x @ [y]" for x y] all_nodes_loop_acc[of rec ns "[y]" for y]
      split: option.splits sum.splits)

text \<open>Listing as a tree and as a flat list succeed on the same stores, and find the same nodes.\<close>

lemma loops_agree:
  assumes "\<And>p fl. rec_all p = Some (Inr fl) \<longleftrightarrow> (\<exists>cs. rec p = Some (Inr cs) \<and> fl = postorder cs)"
  shows "(\<exists>ns0. child_nodes_loop rec meta False ps [] = Some (Inr ns0) \<and> all_nodes_loop rec_all ns0 [] = Some (Inr fl)) \<longleftrightarrow>
     (\<exists>ns. child_nodes_loop rec meta True ps [] = Some (Inr ns) \<and> fl = postorder ns)"
proof (induction ps arbitrary: fl)
  case (Cons q ps)
  show ?case
  proof (cases "path_of_prefix q")
    case (Some r)
    show ?thesis
    proof (cases r)
      case (Inr p)
      then have step: "path_of_prefix q = Some (Inr p)" using Some by simp
      show ?thesis
      proof (cases "meta p")
        case (Inl e)
        then show ?thesis
          using Cons.IH by (cases e) (simp_all add: child_nodes_step[OF step] del: child_nodes_loop.simps)
      next
        case md: (Inr md)
        have "(\<exists>ns0. child_nodes_loop rec meta False (q # ps) [] = Some (Inr ns0) \<and>
              all_nodes_loop rec_all ns0 [] = Some (Inr fl)) \<longleftrightarrow>
            (\<exists>below rest. (if is_group md then rec_all p else Some (Inr [])) = Some (Inr below) \<and>
              fl = below @ (p, md) # rest \<and>
              (\<exists>ns0. child_nodes_loop rec meta False ps [] = Some (Inr ns0) \<and> all_nodes_loop rec_all ns0 [] = Some (Inr rest)))"
          by (auto simp: child_nodes_step[OF step] md shift_nodes_Inr all_nodes_step
              split: option.splits sum.splits simp del: child_nodes_loop.simps all_nodes_loop.simps)
        also have "\<dots> \<longleftrightarrow> (\<exists>cs rest. (if is_group md then rec p else Some (Inr [])) = Some (Inr cs) \<and>
              fl = postorder cs @ (p, md) # rest \<and>
              (\<exists>ns. child_nodes_loop rec meta True ps [] = Some (Inr ns) \<and> rest = postorder ns))"
          unfolding Cons.IH using assms by (cases "is_group md") auto
        also have "\<dots> \<longleftrightarrow> (\<exists>ns. child_nodes_loop rec meta True (q # ps) [] = Some (Inr ns) \<and> fl = postorder ns)"
          by (auto simp: child_nodes_step[OF step] md shift_nodes_Inr
              split: option.splits sum.splits simp del: child_nodes_loop.simps)
        finally show ?thesis .
      qed
    qed (simp add: Some)
  qed simp
qed auto

lemma tree_and_flat_agree:
  "get_all_nodes_of n sd get list_dir st p version = Some (Inr fl) \<longleftrightarrow>
     (\<exists>ns. get_child_nodes_opt n sd get list_dir st p True version = Some (Inr ns) \<and> fl = postorder ns)"
proof (induction n arbitrary: p fl)
  case (Suc n)
  show ?case
  proof (cases "path_to_prefix p")
    case (Inr prefix)
    show ?thesis
    proof (cases "discover_children list_dir st prefix")
      case children: (Inr ps)
      have "get_all_nodes_of (Suc n) sd get list_dir st p version = Some (Inr fl) \<longleftrightarrow>
          (\<exists>ns0. child_nodes_loop (\<lambda>p. get_child_nodes_opt n sd get list_dir st p True version)
              (\<lambda>p. get_metadata sd get st p version) False ps [] = Some (Inr ns0) \<and>
            all_nodes_loop (\<lambda>p. get_all_nodes_of n sd get list_dir st p version) ns0 [] = Some (Inr fl))"
        by (simp add: \<open>path_to_prefix p = Inr prefix\<close> children split: option.split sum.split)
      then show ?thesis
        unfolding loops_agree[of "\<lambda>p. get_all_nodes_of n sd get list_dir st p version"
            "\<lambda>p. get_child_nodes_opt n sd get list_dir st p True version", OF Suc.IH]
        by (simp add: \<open>path_to_prefix p = Inr prefix\<close> children)
    qed (simp add: \<open>path_to_prefix p = Inr prefix\<close>)
  qed simp
qed simp

end
