(* ===== verification/Node_Laws.thy ===== *)
theory Node_Laws
  imports Node_Listing
begin

text \<open>
  The nodes that listing finds: over any store that is a finite map whose directories list what is below them, the recursion
  ends, whatever the documents are, and what it finds are exactly the nodes that are reached through groups.
\<close>

text \<open>\<open>node_below meta p q md\<close>: a node \<open>q\<close> with metadata \<open>md\<close> is reached from \<open>p\<close> through groups.\<close>

inductive node_below :: "(node_path \<Rightarrow> node_create_error + 'j node_metadata) \<Rightarrow> node_path \<Rightarrow> node_path \<Rightarrow> 'j node_metadata \<Rightarrow> bool"
  for meta where
  child: "validate_component c \<Longrightarrow> path_join p c = Inr q \<Longrightarrow> meta q = Inr md \<Longrightarrow> node_below meta p q md"
| below: "validate_component c \<Longrightarrow> path_join p c = Inr g \<Longrightarrow> meta g = Inr (NMGroup gm) \<Longrightarrow> node_below meta g q md \<Longrightarrow>
    node_below meta p q md"

text \<open>Between \<open>cs\<close> and the names below it, every node on the way is a group.\<close>

lemma node_below_names:
  assumes "node_below meta p q md" and "p = path_of_names cs" and "names_ok cs"
  shows "\<exists>c ds. names_ok (c # ds) \<and> q = path_of_names (cs @ c # ds) \<and> meta q = Inr md"
  using assms
proof (induction arbitrary: cs rule: node_below.induct)
  case (child c p q md)
  then show ?case using path_join_name[of cs c] by (intro exI[of _ c] exI[of _ "[]"]) simp
next
  case (below c p g gm q md)
  then have g: "g = path_of_names (cs @ [c])" using path_join_name[of cs c] by simp
  from below.IH[OF this] obtain d ds where
    "names_ok (d # ds)" "q = path_of_names ((cs @ [c]) @ d # ds)" "meta q = Inr md"
    using below.prems below.hyps(1) by auto
  then show ?case using below.hyps(1) by (intro exI[of _ c] exI[of _ "d # ds"]) simp
qed

lemma is_group_iff: "is_group md \<longleftrightarrow> (\<exists>gm. md = NMGroup gm)"
  by (cases md) simp_all

lemma set_postorder: "set (postorder ns) = (\<Union>n\<in>set ns. insert (nd_path n, nd_metadata n) (set (postorder (nd_children n))))"
  by (induction ns rule: postorder.induct) auto

text \<open>What the loop over the children yields.\<close>

lemma child_nodes_loop_Inr:
  assumes "child_nodes_loop rec meta b ps [] = Some (Inr ns)"
  shows "\<forall>q\<in>set ps. \<exists>p. path_of_prefix q = Some (Inr p)"
    and "map nd_path ns = filter (\<lambda>p. \<exists>md. meta p = Inr md) (map (\<lambda>q. projr (the (path_of_prefix q))) ps)"
    and "\<forall>n\<in>set ns. meta (nd_path n) = Inr (nd_metadata n) \<and>
      (if b \<and> is_group (nd_metadata n) then rec (nd_path n) = Some (Inr (nd_children n)) else nd_children n = [])"
proof -
  have "(\<forall>q\<in>set ps. \<exists>p. path_of_prefix q = Some (Inr p)) \<and>
      map nd_path ns = filter (\<lambda>p. \<exists>md. meta p = Inr md) (map (\<lambda>q. projr (the (path_of_prefix q))) ps) \<and>
      (\<forall>n\<in>set ns. meta (nd_path n) = Inr (nd_metadata n) \<and>
        (if b \<and> is_group (nd_metadata n) then rec (nd_path n) = Some (Inr (nd_children n)) else nd_children n = []))"
    using assms
  proof (induction ps arbitrary: ns)
    case (Cons q ps)
    obtain p where p: "path_of_prefix q = Some (Inr p)"
      using Cons.prems by (auto split: option.splits sum.splits)
    note step = Cons.prems[unfolded child_nodes_step[OF p]]
    show ?case
    proof (cases "meta p")
      case (Inl e)
      then show ?thesis using step Cons.IH[of ns] p by (cases e) simp_all
    next
      case (Inr md)
      obtain cs ms where "(if b \<and> is_group md then rec p else Some (Inr [])) = Some (Inr cs)"
        "child_nodes_loop rec meta b ps [] = Some (Inr ms)" "ns = Node p md cs # ms"
        using step Inr by (auto simp: shift_nodes_Inr split: option.splits sum.splits)
      then show ?thesis using Cons.IH[of ms] p Inr by (auto split: if_splits)
    qed
  qed simp
  then show "\<forall>q\<in>set ps. \<exists>p. path_of_prefix q = Some (Inr p)"
    "map nd_path ns = filter (\<lambda>p. \<exists>md. meta p = Inr md) (map (\<lambda>q. projr (the (path_of_prefix q))) ps)"
    "\<forall>n\<in>set ns. meta (nd_path n) = Inr (nd_metadata n) \<and>
      (if b \<and> is_group (nd_metadata n) then rec (nd_path n) = Some (Inr (nd_children n)) else nd_children n = [])"
    by blast+
qed

text \<open>The filter on reserved names does not hide a valid path.\<close>

lemma names_not_hidden: "names_ok cs \<Longrightarrow> cs \<noteq> [] \<Longrightarrow> \<not> starts_with (prefix_of_names cs) ''__''"
proof (cases cs)
  case (Cons c ds)
  assume "names_ok cs"
  then have c: "validate_component c" using Cons by simp
  then have "\<not> starts_with c ''__''" "c \<noteq> []" by (auto simp: validate_component_def validate_name_def)
  then show ?thesis
    using Cons by (cases c; cases "tl c") auto
qed simp

subsection \<open>Listable stores\<close>

locale listable_store =
  fixes ok :: "'s \<Rightarrow> bool"
    and contents :: "'s \<Rightarrow> store_key \<Rightarrow> bytes option"
    and get :: "'s getter"
    and list_dir :: "'s dir_lister"
  assumes key_valid: "ok s \<Longrightarrow> contents s k \<noteq> None \<Longrightarrow> validate_key k"
    and get_ok: "ok s \<Longrightarrow> get s k = Inr (contents s k)"
    and list_dir_ok: "ok s \<Longrightarrow> validate_prefix p \<Longrightarrow> \<exists>kp. list_dir s p = Inr kp \<and> distinct (skp_prefixes kp) \<and>
      set (skp_prefixes kp) = {p @ c @ [slash] | c r. slash \<notin> set c \<and> contents s (p @ c @ slash # r) \<noteq> None}"
begin

text \<open>The names that are listed below a path.\<close>

definition listed :: "'s \<Rightarrow> string list \<Rightarrow> string \<Rightarrow> bool" where
  "listed s cs c \<longleftrightarrow> slash \<notin> set c \<and> (\<exists>r. contents s (prefix_of_names (cs @ [c]) @ r) \<noteq> None) \<and>
     \<not> starts_with (prefix_of_names (cs @ [c])) ''__''"

lemma below_key_nonempty:
  assumes "ok s" and "names_ok cs" and "contents s (prefix_of_names (cs @ [c]) @ r) \<noteq> None"
  shows "c \<noteq> []" and "validate_prefix (prefix_of_names (cs @ [c]))"
proof -
  let ?k = "prefix_of_names cs @ c @ slash # r"
  have v: "validate_key ?k" using key_valid[OF assms(1)] assms(3) by simp
  show ne: "c \<noteq> []"
    using below_prefix_no_slash[OF v validate_prefix_names[OF assms(2)], of "c @ slash # r"]
    by (auto simp: starts_with_iff)
  let ?u = "prefix_of_names cs @ c"
  have "?u \<noteq> []" using ne by simp
  then have "hd ?u = hd ?k" by (metis append_assoc hd_append2)
  then have "hd ?u \<noteq> slash" using validate_key_hd[OF v] by simp
  then have "validate_prefix (?u @ [slash])" using validate_prefix_snoc[of ?u] ne by simp
  then show "validate_prefix (prefix_of_names (cs @ [c]))" by simp
qed

lemma discover_children_names:
  assumes "ok s" and "names_ok cs"
  shows "\<exists>names. discover_children list_dir s (prefix_of_names cs) = Inr (map (\<lambda>c. prefix_of_names (cs @ [c])) names) \<and>
     distinct names \<and> set names = {c. listed s cs c}"
proof -
  obtain kp where kp: "list_dir s (prefix_of_names cs) = Inr kp" "distinct (skp_prefixes kp)"
    and set: "set (skp_prefixes kp) =
      {prefix_of_names cs @ c @ [slash] | c r. slash \<notin> set c \<and> contents s (prefix_of_names cs @ c @ slash # r) \<noteq> None}"
    using list_dir_ok[OF assms(1) validate_prefix_names[OF assms(2)]] by blast
  define pre where "pre c = prefix_of_names (cs @ [c])" for c
  have inj: "inj_on pre A" for A by (simp add: inj_on_def pre_def)
  let ?vs = "filter (\<lambda>v. \<not> starts_with v ''__'') (skp_prefixes kp)"
  have vs: "set ?vs = pre ` {c. listed s cs c}"
    unfolding set_filter set by (auto simp: listed_def pre_def image_iff)
  then have "\<exists>names. ?vs = map pre names" unfolding ex_map_conv by auto
  then obtain names where names: "?vs = map pre names" by blast
  have "set names = {c. listed s cs c}"
    using vs inj[of UNIV] by (simp add: names inj_image_eq_iff)
  moreover have "distinct (map pre names)" using kp(2) unfolding names[symmetric] by simp
  then have "distinct names" by (simp add: distinct_map)
  moreover have "prefix_new (pre c) = Inr (pre c)" if "c \<in> set names" for c
    using below_key_nonempty(2)[OF assms, of c] that \<open>set names = _\<close>
    by (auto simp: listed_def prefix_new_def pre_def)
  then have "map (\<lambda>v. case prefix_new v of Inl e \<Rightarrow> Inl (StorageStorePrefixError e) | Inr p \<Rightarrow> Inr p) (map pre names) =
      map Inr (map pre names)" by simp
  ultimately show ?thesis
    using kp(1) names by (intro exI[of _ names]) (simp add: discover_children_def collect_res_Inr_iff pre_def)
qed

subsection \<open>Termination\<close>

text \<open>No key below \<open>cs\<close> goes more than \<open>n\<close> levels deeper.\<close>

definition shallow :: "'s \<Rightarrow> string list \<Rightarrow> nat \<Rightarrow> bool" where
  "shallow s cs n \<longleftrightarrow> (\<forall>r. contents s (prefix_of_names cs @ r) \<noteq> None \<longrightarrow> count_list r slash \<le> n)"

lemma shallow_child:
  assumes "shallow s cs n" and "listed s cs c"
  shows "\<exists>m. n = Suc m \<and> shallow s (cs @ [c]) m"
proof -
  have c: "contents s (prefix_of_names cs @ c @ slash # r) \<noteq> None \<Longrightarrow> Suc (count_list r slash) \<le> n" for r
    using assms(1)[unfolded shallow_def, rule_format, of "c @ slash # r"] by simp
  moreover obtain r where "contents s (prefix_of_names cs @ c @ slash # r) \<noteq> None"
    using assms(2) by (auto simp: listed_def)
  ultimately obtain m where "n = Suc m" by (cases n) auto
  then show ?thesis using c by (auto simp: shallow_def)
qed

lemma child_loop_returns:
  assumes "\<And>q p. q \<in> set ps \<Longrightarrow> path_of_prefix q = Some (Inr p) \<Longrightarrow> \<exists>r. rec p = Some r"
  shows "\<exists>r. child_nodes_loop rec meta b ps nodes = Some r"
  using assms
proof (induction ps arbitrary: nodes)
  case (Cons q ps)
  have IH: "\<exists>r. child_nodes_loop rec meta b ps nodes = Some r" for nodes
    by (rule Cons.IH) (rule Cons.prems[OF list.set_intros(2)])
  show ?case
    using Cons.prems[of q] IH by (fastforce split: option.splits sum.splits node_create_error.splits)
qed simp

lemma all_loop_returns:
  assumes "\<And>n. n \<in> set ns \<Longrightarrow> \<exists>r. rec (nd_path n) = Some r"
  shows "\<exists>r. all_nodes_loop rec ns out = Some r"
  using assms
proof (induction ns arbitrary: out)
  case (Cons n ns)
  have IH: "\<exists>r. all_nodes_loop rec ns out = Some r" for out
    by (rule Cons.IH) (rule Cons.prems[OF list.set_intros(2)])
  show ?case using Cons.prems[of n] IH by (fastforce split: option.splits sum.splits)
qed simp

lemma path_of_listed:
  assumes "ok s" and "names_ok cs" and "listed s cs c"
  shows "path_of_prefix (prefix_of_names (cs @ [c])) =
     Some (if validate_component c then Inr (path_of_names (cs @ [c])) else Inl (NodePathError (path_of_names (cs @ [c]))))"
proof -
  have c: "slash \<notin> set c" "c \<noteq> []"
    using below_key_nonempty(1)[OF assms(1,2)] assms(3) by (auto simp: listed_def)
  show ?thesis using path_new_name[OF assms(2) c] by (simp only: path_of_prefix_names)
qed

lemma listed_children:
  assumes "ok s" and "names_ok cs"
    and "get_child_nodes_opt (Suc n) sd get list_dir s (path_of_names cs) b version = Some (Inr ns)" and "k \<in> set ns"
  shows "\<exists>c. listed s cs c \<and> validate_component c \<and> nd_path k = path_of_names (cs @ [c])"
proof -
  obtain names where d: "discover_children list_dir s (prefix_of_names cs) = Inr (map (\<lambda>c. prefix_of_names (cs @ [c])) names)"
    "set names = {c. listed s cs c}" using discover_children_names[OF assms(1,2)] by blast
  note loop = child_nodes_loop_Inr[OF assms(3)[unfolded get_child_nodes_opt.simps path_to_prefix_names[OF assms(2)] d(1) sum.case]]
  have "nd_path k \<in> set (map nd_path ns)" using assms(4) by simp
  then obtain c where c: "listed s cs c" "nd_path k = projr (the (path_of_prefix (prefix_of_names (cs @ [c]))))"
    "\<exists>p. path_of_prefix (prefix_of_names (cs @ [c])) = Some (Inr p)"
    unfolding loop(2) using d(2) loop(1) by (auto simp del: prefix_of_names_simps)
  then show ?thesis
    using path_of_listed[OF assms(1,2) c(1)] by (auto split: if_splits simp del: prefix_of_names_simps)
qed

lemma listing_returns:
  assumes "ok s" and "names_ok cs" and "shallow s cs n"
  shows "\<exists>r. get_child_nodes_opt (Suc n) sd get list_dir s (path_of_names cs) b version = Some r"
  using assms
proof (induction n arbitrary: cs b rule: less_induct)
  case (less n)
  obtain names where d: "discover_children list_dir s (prefix_of_names cs) = Inr (map (\<lambda>c. prefix_of_names (cs @ [c])) names)"
    "set names = {c. listed s cs c}" using discover_children_names[OF less.prems(1,2)] by blast
  have "\<exists>r. get_child_nodes_opt n sd get list_dir s p True version = Some r"
    if c: "listed s cs c" and p: "path_of_prefix (prefix_of_names (cs @ [c])) = Some (Inr p)" for c p
  proof -
    have vc: "validate_component c" "p = path_of_names (cs @ [c])"
      using p path_of_listed[OF less.prems(1,2) c] by (simp_all split: if_splits)
    obtain m where m: "n = Suc m" "shallow s (cs @ [c]) m" using shallow_child[OF less.prems(3) c] by blast
    show ?thesis using less.IH[of m "cs @ [c]" True] m vc less.prems by simp
  qed
  then show ?case
    using d path_to_prefix_names[OF less.prems(2)] by (auto intro!: child_loop_returns simp del: prefix_of_names_simps)
qed

lemma all_nodes_returns:
  assumes "ok s" and "names_ok cs" and "shallow s cs n"
  shows "\<exists>r. get_all_nodes_of (Suc n) sd get list_dir s (path_of_names cs) version = Some r"
  using assms
proof (induction n arbitrary: cs rule: less_induct)
  case (less n)
  have "\<exists>r. all_nodes_loop (\<lambda>p. get_all_nodes_of n sd get list_dir s p version) ns [] = Some r"
    if ns: "get_child_nodes_opt (Suc n) sd get list_dir s (path_of_names cs) False version = Some (Inr ns)" for ns
  proof (rule all_loop_returns)
    fix k assume k: "k \<in> set ns"
    obtain c where c: "listed s cs c" "validate_component c" "nd_path k = path_of_names (cs @ [c])"
      using listed_children[OF less.prems(1,2) ns] k by blast
    obtain m where m: "n = Suc m" "shallow s (cs @ [c]) m" using shallow_child[OF less.prems(3) c(1)] by blast
    show "\<exists>r. get_all_nodes_of n sd get list_dir s (nd_path k) version = Some r"
      using less.IH[of m "cs @ [c]"] m c less.prems by simp
  qed
  then show ?case
    using listing_returns[OF less.prems, of sd False version] by (auto split: sum.split)
qed

subsection \<open>What is found\<close>

lemma metadata_listed:
  assumes "ok s" and "names_ok (cs @ [c])" and "get_metadata sd get s (path_of_names (cs @ [c])) version = Inr md"
  shows "listed s cs c"
proof -
  have "\<exists>f. contents s (meta_key_any (path_of_names (cs @ [c])) f) \<noteq> None"
  proof (rule ccontr)
    assume "\<nexists>f. contents s (meta_key_any (path_of_names (cs @ [c])) f) \<noteq> None"
    then have "contents s (meta_key_any (path_of_names (cs @ [c])) f) = None" for f by blast
    then have "get_metadata sd get s (path_of_names (cs @ [c])) version = Inl (NodeMissingMetadata (path_of_names (cs @ [c])))"
      by (simp add: get_metadata_def get_metadata_v3_def get_metadata_v2_def storage_get_def get_ok[OF assms(1)]
          meta_key_v3_def meta_key_v2_array_def meta_key_v2_group_def)
    then show False using assms(3) by simp
  qed
  then obtain f where "contents s (prefix_of_names (cs @ [c]) @ f) \<noteq> None"
    using meta_key_names[OF assms(2)] by auto
  moreover have "\<not> starts_with (prefix_of_names (cs @ [c])) ''__''" by (rule names_not_hidden[OF assms(2)]) simp
  moreover have "slash \<notin> set c" using assms(2) component_hd by simp
  ultimately show ?thesis unfolding listed_def by blast
qed

text \<open>The children of a path: the names below it that have metadata.\<close>

lemma children_found:
  assumes "ok s" and "names_ok cs"
    and "get_child_nodes_opt (Suc n) sd get list_dir s (path_of_names cs) b version = Some (Inr ns)"
  shows "distinct (map nd_path ns)"
    and "nd_path ` set ns = {path_of_names (cs @ [c]) | c. validate_component c \<and>
      (\<exists>md. get_metadata sd get s (path_of_names (cs @ [c])) version = Inr md)}"
proof -
  obtain names where d: "discover_children list_dir s (prefix_of_names cs) = Inr (map (\<lambda>c. prefix_of_names (cs @ [c])) names)"
    "distinct names" "set names = {c. listed s cs c}" using discover_children_names[OF assms(1,2)] by blast
  note loop = child_nodes_loop_Inr[OF assms(3)[unfolded get_child_nodes_opt.simps path_to_prefix_names[OF assms(2)] d(1) sum.case]]
  have vc: "validate_component c" if "c \<in> set names" for c
    using loop(1) that path_of_listed[OF assms(1,2), of c] d(3) by (auto split: if_splits simp del: prefix_of_names_simps)
  have paths: "map (\<lambda>q. projr (the (path_of_prefix q))) (map (\<lambda>c. prefix_of_names (cs @ [c])) names) =
      map (\<lambda>c. path_of_names (cs @ [c])) names"
    using vc path_of_listed[OF assms(1,2)] d(3) by (simp del: prefix_of_names_simps)
  have "inj_on (\<lambda>c. path_of_names (cs @ [c])) (set names)"
    using vc assms(2) path_of_names_inj[of "cs @ [c]" "cs @ [d]" for c d] by (auto simp: inj_on_def)
  then show "distinct (map nd_path ns)"
    using d(2) unfolding loop(2) paths by (intro distinct_filter) (simp add: distinct_map)
  have listed: "listed s cs c"
    if "validate_component c" "get_metadata sd get s (path_of_names (cs @ [c])) version = Inr md" for c md
    using metadata_listed[OF assms(1) _ that(2)] that(1) assms(2) by simp
  have "nd_path ` set ns = set (map nd_path ns)" by simp
  also have "\<dots> = {path_of_names (cs @ [c]) | c. validate_component c \<and>
      (\<exists>md. get_metadata sd get s (path_of_names (cs @ [c])) version = Inr md)}"
    unfolding loop(2) paths using vc d(3) listed by (auto simp: image_iff)
  finally show "nd_path ` set ns = \<dots>" .
qed

lemma children_metadata:
  assumes "get_child_nodes_opt (Suc n) sd get list_dir s p b version = Some (Inr ns)" and "k \<in> set ns"
  shows "get_metadata sd get s (nd_path k) version = Inr (nd_metadata k)"
    and "if b \<and> is_group (nd_metadata k) then get_child_nodes_opt n sd get list_dir s (nd_path k) True version = Some (Inr (nd_children k))
      else nd_children k = []"
  using assms child_nodes_loop_Inr(3) by (fastforce split: sum.splits)+

lemma found_iff_below:
  assumes "ok s" and "names_ok cs"
    and "get_child_nodes_opt n sd get list_dir s (path_of_names cs) True version = Some (Inr ns)"
  shows "(q, md) \<in> set (postorder ns) \<longleftrightarrow> node_below (\<lambda>p. get_metadata sd get s p version) (path_of_names cs) q md"
  using assms(2,3)
proof (induction n arbitrary: cs ns)
  case (Suc n)
  let ?meta = "\<lambda>p. get_metadata sd get s p version"
  note found = children_found[OF assms(1) Suc.prems] and cm = children_metadata[OF Suc.prems(2)]
  have IH: "(q, md) \<in> set (postorder (nd_children k)) \<longleftrightarrow> is_group (nd_metadata k) \<and> node_below ?meta (nd_path k) q md"
    if k: "k \<in> set ns" for k
  proof (cases "is_group (nd_metadata k)")
    case True
    obtain c where "validate_component c" "nd_path k = path_of_names (cs @ [c])" using found(2) k by blast
    then show ?thesis using Suc.IH[of "cs @ [c]" "nd_children k"] cm[OF k] True Suc.prems(1) by simp
  qed (use cm[OF k] in simp)
  have "(q, md) \<in> set (postorder ns) \<longleftrightarrow>
      (\<exists>k\<in>set ns. (nd_path k = q \<and> nd_metadata k = md) \<or> is_group (nd_metadata k) \<and> node_below ?meta (nd_path k) q md)"
    unfolding set_postorder[of ns] using IH by auto
  also have "\<dots> \<longleftrightarrow> (\<exists>c g gmd. validate_component c \<and> g = path_of_names (cs @ [c]) \<and> ?meta g = Inr gmd \<and>
      (g = q \<and> gmd = md \<or> is_group gmd \<and> node_below ?meta g q md))" (is "?l \<longleftrightarrow> ?r")
  proof
    assume ?l
    then obtain k where k: "k \<in> set ns"
      "(nd_path k = q \<and> nd_metadata k = md) \<or> is_group (nd_metadata k) \<and> node_below ?meta (nd_path k) q md" by blast
    obtain c where "validate_component c" "nd_path k = path_of_names (cs @ [c])" using found(2) k(1) by blast
    then show ?r using cm(1)[OF k(1)] k(2) by blast
  next
    assume ?r
    then obtain c g gmd where c: "validate_component c" "g = path_of_names (cs @ [c])" "?meta g = Inr gmd"
      "g = q \<and> gmd = md \<or> is_group gmd \<and> node_below ?meta g q md" by blast
    then have "g \<in> nd_path ` set ns" unfolding found(2) by blast
    then obtain k where k: "k \<in> set ns" "nd_path k = g" by blast
    then have "nd_metadata k = gmd" using cm(1)[OF k(1)] c(3) by simp
    then show ?l using k c(4) by blast
  qed
  also have "\<dots> \<longleftrightarrow> node_below ?meta (path_of_names cs) q md"
    unfolding node_below.simps[of ?meta "path_of_names cs"] is_group_iff using path_join_name[OF Suc.prems(1)] by fastforce
  finally show ?case .
qed simp

end

subsection \<open>Enough fuel\<close>

text \<open>More fuel does not change a result.\<close>

lemma child_loop_mono:
  assumes "\<And>p r. rec p = Some r \<Longrightarrow> rec' p = Some r"
  shows "child_nodes_loop rec meta b ps nodes = Some r \<Longrightarrow> child_nodes_loop rec' meta b ps nodes = Some r"
proof (induction ps arbitrary: nodes)
  case (Cons q ps)
  then show ?case
    by (cases b) (auto split: option.splits sum.splits node_create_error.splits if_splits dest: assms)
qed simp

lemma listing_mono:
  "get_child_nodes_opt n sd get list_dir s p b version = Some r \<Longrightarrow> n \<le> m \<Longrightarrow>
     get_child_nodes_opt m sd get list_dir s p b version = Some r"
proof (induction n arbitrary: m p b r)
  case (Suc n)
  obtain k where m: "m = Suc k" "n \<le> k" using Suc.prems(2) by (cases m) auto
  have rec: "get_child_nodes_opt k sd get list_dir s p True version = Some r"
    if "get_child_nodes_opt n sd get list_dir s p True version = Some r" for p r
    by (rule Suc.IH[OF that m(2)])
  show ?case
  proof (cases "path_to_prefix p")
    case prefix: (Inr prefix)
    show ?thesis
    proof (cases "discover_children list_dir s prefix")
      case (Inr ps)
      have "child_nodes_loop (\<lambda>p. get_child_nodes_opt k sd get list_dir s p True version)
          (\<lambda>p. get_metadata sd get s p version) b ps [] = Some r"
        by (rule child_loop_mono[OF rec]) (use Suc.prems(1) prefix Inr in simp_all)
      then show ?thesis using m(1) prefix Inr by simp
    qed (use Suc.prems(1) m(1) prefix in simp)
  qed (use Suc.prems(1) m(1) in simp)
qed simp

lemma all_loop_mono:
  assumes "\<And>p r. rec p = Some r \<Longrightarrow> rec' p = Some r"
  shows "all_nodes_loop rec ns out = Some r \<Longrightarrow> all_nodes_loop rec' ns out = Some r"
proof (induction ns arbitrary: out)
  case (Cons n ns)
  then show ?case
    by (cases "is_group (nd_metadata n)") (auto split: option.splits sum.splits dest: assms)
qed simp

lemma all_nodes_mono:
  "get_all_nodes_of n sd get list_dir s p version = Some r \<Longrightarrow> n \<le> m \<Longrightarrow>
     get_all_nodes_of m sd get list_dir s p version = Some r"
proof (induction n arbitrary: m p r)
  case (Suc n)
  obtain k where m: "m = Suc k" "n \<le> k" using Suc.prems(2) by (cases m) auto
  obtain c where c: "get_child_nodes_opt (Suc n) sd get list_dir s p False version = Some c"
    using Suc.prems(1) by (auto split: option.splits)
  then have "get_child_nodes_opt (Suc k) sd get list_dir s p False version = Some c"
    by (rule listing_mono) (use m in simp)
  note c' = this
  have rec: "get_all_nodes_of k sd get list_dir s p version = Some r"
    if "get_all_nodes_of n sd get list_dir s p version = Some r" for p r
    by (rule Suc.IH[OF that m(2)])
  show ?case
  proof (cases c)
    case (Inr ns)
    have "all_nodes_loop (\<lambda>p. get_all_nodes_of k sd get list_dir s p version) ns [] = Some r"
      by (rule all_loop_mono[OF rec]) (use Suc.prems(1) c Inr in \<open>simp_all del: get_child_nodes_opt.simps\<close>)
    then show ?thesis using m(1) c' Inr by (simp del: get_child_nodes_opt.simps)
  qed (use Suc.prems(1) m(1) c c' in \<open>simp del: get_child_nodes_opt.simps\<close>)
qed simp

end
