(* ===== verification/Node_Consolidated.thy ===== *)
theory Node_Consolidated
  imports Node_Laws "HOL-Library.Multiset"
begin

text \<open>
  Consolidated metadata: consolidating a tree of nodes and building the tree again from the entries, in any order, gives the tree with the
  children of every node in the order of their paths.
\<close>

subsection \<open>Forests\<close>

text \<open>\<open>node_ok cs n\<close>: the paths in the tree \<open>n\<close> fit the names \<open>cs\<close> of its parent, siblings differ, and only groups have children.\<close>

fun node_ok :: "string list \<Rightarrow> 'j node \<Rightarrow> bool" where
  "node_ok cs (Node p md ks) \<longleftrightarrow>
     (\<exists>c. validate_component c \<and> p = path_of_names (cs @ [c]) \<and> (is_group md \<or> ks = []) \<and> distinct (map nd_path ks) \<and>
       (\<forall>k\<in>set ks. node_ok (cs @ [c]) k))"

definition forest_ok :: "string list \<Rightarrow> 'j node list \<Rightarrow> bool" where
  "forest_ok cs ns \<longleftrightarrow> names_ok cs \<and> distinct (map nd_path ns) \<and> (\<forall>n\<in>set ns. node_ok cs n)"

definition key_of :: "'j node \<Rightarrow> node_key" where
  "key_of n = NodeKey (nd_path n)"

definition entry_of :: "'j node \<Rightarrow> node_key \<times> 'j node_metadata" where
  "entry_of n = (key_of n, nd_metadata n)"

text \<open>The tree with the children of every node in order.\<close>

fun sort_node :: "'j node \<Rightarrow> 'j node" where
  "sort_node (Node p md ks) = Node p md (sort_key key_of (map sort_node ks))"

definition sort_forest :: "'j node list \<Rightarrow> 'j node list" where
  "sort_forest ns = sort_key key_of (map sort_node ns)"

lemma sort_node_eq: "sort_node n = Node (nd_path n) (nd_metadata n) (sort_forest (nd_children n))"
  by (cases n) (simp add: sort_forest_def)

lemma key_sort_node [simp]: "key_of (sort_node n) = key_of n"
  by (cases n) (simp add: key_of_def)

lemma insort_key_map: "(\<And>x. f (g x) = f x) \<Longrightarrow> insort_key f (g x) (map g xs) = map g (insort_key f x xs)"
  by (induction xs) simp_all

lemma sort_forest_map: "sort_forest ns = map sort_node (sort_key key_of ns)"
proof -
  have "sort_key key_of (map sort_node ns) = map sort_node (sort_key key_of ns)"
    by (induction ns) (simp_all add: insort_key_map)
  then show ?thesis by (simp add: sort_forest_def)
qed

lemma forest_ok_Nil [simp]: "forest_ok cs [] \<longleftrightarrow> names_ok cs"
  by (simp add: forest_ok_def)

lemma forest_ok_child:
  assumes "forest_ok cs ns" and "n \<in> set ns"
  obtains c where "validate_component c" "nd_path n = path_of_names (cs @ [c])" "forest_ok (cs @ [c]) (nd_children n)"
    "is_group (nd_metadata n) \<or> nd_children n = []"
  using assms by (cases n) (fastforce simp: forest_ok_def)

lemma forest_ok_tail: "forest_ok cs (n # ns) \<Longrightarrow> forest_ok cs ns"
  by (simp add: forest_ok_def)

lemma forest_ok_perm: "forest_ok cs ns \<Longrightarrow> mset ms = mset ns \<Longrightarrow> forest_ok cs ms"
  unfolding forest_ok_def using mset_eq_setD[of ms ns] mset_eq_imp_distinct_iff[of "map nd_path ms" "map nd_path ns"]
  by simp

text \<open>Where the nodes of a forest are.\<close>

lemma postorder_names:
  "forest_ok cs ns \<Longrightarrow> (q, md) \<in> set (postorder ns) \<Longrightarrow>
     \<exists>n\<in>set ns. \<exists>c ds. nd_path n = path_of_names (cs @ [c]) \<and> names_ok (c # ds) \<and> q = path_of_names (cs @ c # ds)"
proof (induction ns arbitrary: cs rule: postorder.induct)
  case (2 p m ks ns)
  obtain c where c: "validate_component c" "p = path_of_names (cs @ [c])" "forest_ok (cs @ [c]) ks"
    using forest_ok_child[OF 2(3), of "Node p m ks"] by auto
  from 2(4) consider "(q, md) \<in> set (postorder ks)" | "q = p" | "(q, md) \<in> set (postorder ns)" by auto
  then show ?case
  proof cases
    case 1
    from 2(1)[OF c(3) this] obtain d ds where "names_ok (d # ds)" "q = path_of_names ((cs @ [c]) @ d # ds)" by blast
    then show ?thesis using c
      by (intro bexI[of _ "Node p m ks"] exI[of _ c] exI[of _ "d # ds"]) simp_all
  next
    case 2
    then show ?thesis using c by (intro bexI[of _ "Node p m ks"] exI[of _ c] exI[of _ "[]"]) simp_all
  next
    case 3
    then show ?thesis using 2(2)[OF forest_ok_tail[OF 2(3)]] by fastforce
  qed
qed simp

lemma postorder_below_child:
  assumes "forest_ok cs ns" and "n \<in> set ns" and "nd_path n = path_of_names (cs @ [c])" and "validate_component c"
    and "names_ok ds"
  shows "(path_of_names (cs @ c # ds), md) \<in> set (postorder ns) \<longleftrightarrow>
     (if ds = [] then nd_metadata n = md else (path_of_names (cs @ c # ds), md) \<in> set (postorder (nd_children n)))"
proof -
  have ok: "names_ok (cs @ c # ds)" using assms by (simp add: forest_ok_def)
  have here: "m = n" if m: "m \<in> set ns" and q: "(path_of_names (cs @ c # ds), md) \<in> insert (nd_path m, nd_metadata m) (set (postorder (nd_children m)))" for m
  proof -
    obtain d where d: "validate_component d" "nd_path m = path_of_names (cs @ [d])" "forest_ok (cs @ [d]) (nd_children m)"
      using forest_ok_child[OF assms(1) m] by blast
    have "\<exists>es. names_ok (d # es) \<and> path_of_names (cs @ c # ds) = path_of_names (cs @ d # es)"
    proof (cases "(path_of_names (cs @ c # ds), md) \<in> set (postorder (nd_children m))")
      case True
      from postorder_names[OF d(3) this] d(1) show ?thesis by (metis append.assoc append_Cons append_Nil list.pred_inject(2))
    next
      case False
      then show ?thesis using q d by (intro exI[of _ "[]"]) simp
    qed
    then obtain es where "names_ok (d # es)" "path_of_names (cs @ c # ds) = path_of_names (cs @ d # es)" by blast
    then have "c # ds = d # es" using path_of_names_inj[OF ok, of "cs @ d # es"] assms(1) by (simp add: forest_ok_def)
    then have "nd_path m = nd_path n" using d(2) assms(3) by simp
    then show ?thesis using assms(1,2) m by (auto simp: forest_ok_def distinct_map inj_on_def)
  qed
  have "(path_of_names (cs @ c # ds), md) \<in> set (postorder ns) \<longleftrightarrow>
      (path_of_names (cs @ c # ds), md) \<in> insert (nd_path n, nd_metadata n) (set (postorder (nd_children n)))"
    unfolding set_postorder[of ns] using here assms(2) by blast
  moreover have "path_of_names (cs @ c # ds) = nd_path n \<longleftrightarrow> ds = []"
    using path_of_names_inj[OF ok, of "cs @ [c]"] ok assms(3) by simp
  moreover have "ds = [] \<Longrightarrow> (path_of_names (cs @ c # ds), md) \<notin> set (postorder (nd_children n))"
  proof
    assume "ds = []" and *: "(path_of_names (cs @ c # ds), md) \<in> set (postorder (nd_children n))"
    obtain d where d: "validate_component d" "nd_path n = path_of_names (cs @ [d])" "forest_ok (cs @ [d]) (nd_children n)"
      using forest_ok_child[OF assms(1,2)] by blast
    then have "c = d" using assms(3,4) path_of_names_inj[of "cs @ [c]" "cs @ [d]"] assms(1) by (simp add: forest_ok_def)
    then obtain e es where "names_ok (e # es)" "path_of_names (cs @ [c]) = path_of_names ((cs @ [c]) @ e # es)"
      using postorder_names[OF d(3) *] \<open>ds = []\<close> by auto
    then show False using path_of_names_inj[of "cs @ [c]" "(cs @ [c]) @ e # es"] ok by simp
  qed
  ultimately show ?thesis by auto
qed

lemma distinct_postorder: "forest_ok cs ns \<Longrightarrow> distinct (map fst (postorder ns))"
proof (induction ns arbitrary: cs rule: postorder.induct)
  case (2 p m ks ns)
  obtain c where c: "validate_component c" "p = path_of_names (cs @ [c])" "forest_ok (cs @ [c]) ks"
    using forest_ok_child[OF 2(3), of "Node p m ks"] by auto
  have ok: "names_ok cs" using 2(3) by (simp add: forest_ok_def)
  have a: "\<exists>d ds. q = path_of_names (cs @ c # d # ds) \<and> names_ok (d # ds)" if "q \<in> fst ` set (postorder ks)" for q
    using that postorder_names[OF c(3)] by fastforce
  have b: "\<exists>d ds. q = path_of_names (cs @ d # ds) \<and> names_ok (d # ds) \<and> d \<noteq> c" if q: "q \<in> fst ` set (postorder ns)" for q
  proof -
    obtain n d ds where n: "n \<in> set ns" "nd_path n = path_of_names (cs @ [d])" "names_ok (d # ds)" "q = path_of_names (cs @ d # ds)"
      using q postorder_names[OF forest_ok_tail[OF 2(3)]] by fastforce
    have "p \<notin> nd_path ` set ns" using 2(3) by (simp add: forest_ok_def)
    then have "nd_path n \<noteq> p" using n(1) by blast
    then show ?thesis using n c(2) by blast
  qed
  have inj: "path_of_names (cs @ xs) = path_of_names (cs @ ys) \<longleftrightarrow> xs = ys" if "names_ok xs" "names_ok ys" for xs ys
    using path_of_names_inj[of "cs @ xs" "cs @ ys"] ok that by simp
  have "p \<notin> fst ` set (postorder ks)"
  proof
    assume "p \<in> fst ` set (postorder ks)"
    from a[OF this] obtain d ds where "p = path_of_names (cs @ c # d # ds)" "names_ok (d # ds)" by blast
    then show False using c(1,2) inj[of "[c]" "c # d # ds"] by simp
  qed
  moreover have "p \<notin> fst ` set (postorder ns)"
  proof
    assume "p \<in> fst ` set (postorder ns)"
    from b[OF this] obtain d ds where "p = path_of_names (cs @ d # ds)" "names_ok (d # ds)" "d \<noteq> c" by blast
    then show False using c(1,2) inj[of "[c]" "d # ds"] by simp
  qed
  moreover have False if q: "q \<in> fst ` set (postorder ks)" "q \<in> fst ` set (postorder ns)" for q
  proof -
    from a[OF q(1)] obtain e es where "q = path_of_names (cs @ c # e # es)" "names_ok (e # es)" by blast
    moreover from b[OF q(2)] obtain d ds where "q = path_of_names (cs @ d # ds)" "names_ok (d # ds)" "d \<noteq> c" by blast
    ultimately show False using c(1) inj[of "c # e # es" "d # ds"] by simp
  qed
  then have "fst ` set (postorder ks) \<inter> fst ` set (postorder ns) = {}" by blast
  ultimately show ?case
    using 2(1)[OF c(3)] 2(2)[OF forest_ok_tail[OF 2(3)]] by simp
qed simp

subsection \<open>The map from parents to entries\<close>

text \<open>What the map has for the parent \<open>q\<close>: the entries of the nodes of \<open>F\<close> with this parent, in order.\<close>

definition parent_entry :: "(node_path \<times> 'j node_metadata) set \<Rightarrow> node_path \<Rightarrow> 'j entry_map option \<Rightarrow> bool" where
  "parent_entry F q r \<longleftrightarrow>
     (case r of
        None \<Rightarrow> {e \<in> F. path_parent (fst e) = Some q} = {}
      | Some es \<Rightarrow> sorted_wrt (<) (map fst es) \<and>
          (\<lambda>(k, md). (key_path k, md)) ` set es = {e \<in> F. path_parent (fst e) = Some q})"

lemma set_btree_insert_new: "k \<notin> fst ` set m \<Longrightarrow> set (btree_insert k v m) = insert (k, v) (set m)"
  by (induction k v m rule: btree_insert.induct) auto

lemma parent_insert_entry:
  assumes "\<And>q. parent_entry F q (map_of by_parent (NodeKey q))" and "p \<notin> fst ` F"
  shows "parent_entry (insert (p, md) F) q (map_of (parent_insert by_parent (p, md)) (NodeKey q))"
proof (cases "path_parent p = Some q")
  case False
  then have "{e \<in> insert (p, md) F. path_parent (fst e) = Some q} = {e \<in> F. path_parent (fst e) = Some q}" by auto
  then show ?thesis
    using assms(1)[of q] False by (auto simp: parent_entry_def parent_insert_def Let_def split: option.splits)
next
  case True
  define es where "es = (case map_of by_parent (NodeKey q) of None \<Rightarrow> [] | Some es \<Rightarrow> es)"
  have es: "sorted_wrt (<) (map fst es)"
    "(\<lambda>(k, md). (key_path k, md)) ` set es = {e \<in> F. path_parent (fst e) = Some q}"
    using assms(1)[of q] by (auto simp: parent_entry_def es_def split: option.splits)
  have "NodeKey p \<notin> fst ` set es"
  proof
    assume "NodeKey p \<in> fst ` set es"
    then obtain md' where "(NodeKey p, md') \<in> set es" by auto
    then have "(p, md') \<in> (\<lambda>(k, md). (key_path k, md)) ` set es" by force
    then show False using assms(2) unfolding es(2) by force
  qed
  then have "set (btree_insert (NodeKey p) md es) = insert (NodeKey p, md) (set es)" by (rule set_btree_insert_new)
  moreover have "{e \<in> insert (p, md) F. path_parent (fst e) = Some q} = insert (p, md) {e \<in> F. path_parent (fst e) = Some q}"
    using True by auto
  ultimately show ?thesis
    using True es sorted_btree_insert[OF es(1), of "NodeKey p" md]
    by (simp add: parent_entry_def parent_insert_def es_def[symmetric])
qed

lemma parent_map_entries:
  "distinct (map fst flat) \<Longrightarrow> parent_entry (set flat) q (map_of (foldl parent_insert [] flat) (NodeKey q))"
proof (induction flat arbitrary: q rule: rev_induct)
  case (snoc e flat)
  then show ?case
    using parent_insert_entry[of "set flat" "foldl parent_insert [] flat" "fst e" "snd e" q] by simp
qed (simp add: parent_entry_def)

text \<open>A sorted map is determined by its entries.\<close>

lemma sorted_entries_unique:
  assumes "sorted_wrt (<) (map fst es)" and "set es = entry_of ` set ns" and "distinct (map nd_path ns)"
  shows "es = map entry_of (sort_key key_of ns)"
proof (rule map_sorted_distinct_set_unique[of fst])
  have fst: "map fst (map entry_of ms) = map key_of ms" for ms :: "'a node list" by (simp add: entry_of_def)
  show "sorted (map fst es)" "distinct (map fst es)" using assms(1) by (simp_all add: strict_sorted_iff)
  show "sorted (map fst (map entry_of (sort_key key_of ns)))" unfolding fst by (rule sorted_sort_key)
  have d: "distinct (map key_of ns)" using assms(3) by (auto simp: distinct_map inj_on_def key_of_def)
  then have "distinct (map key_of (sort_key key_of ns))"
    using mset_eq_imp_distinct_iff[of "map key_of (sort_key key_of ns)" "map key_of ns"] by simp
  then show "distinct (map fst (map entry_of (sort_key key_of ns)))" unfolding fst .
  show sets: "set es = set (map entry_of (sort_key key_of ns))" using assms(2) by simp
  have "inj_on fst (set es)" using assms(1) by (simp add: strict_sorted_iff distinct_map)
  then show "inj_on fst (set es \<union> set (map entry_of (sort_key key_of ns)))" unfolding sets by simp
qed

subsection \<open>Building the tree\<close>

text \<open>The map has the entries of \<open>F\<close> for every parent at or below the names \<open>cs\<close>.\<close>

definition has_entries :: "(node_path \<times> 'j node_metadata) set \<Rightarrow> string list \<Rightarrow> 'j parent_map \<Rightarrow> bool" where
  "has_entries F cs by_parent \<longleftrightarrow>
     (\<forall>ds. names_ok ds \<longrightarrow> parent_entry F (path_of_names (cs @ ds)) (map_of by_parent (NodeKey (path_of_names (cs @ ds)))))"

text \<open>Strictly below the names \<open>cs\<close>, the nodes of \<open>F\<close> are those of a forest.\<close>

definition same_below :: "(node_path \<times> 'j node_metadata) set \<Rightarrow> string list \<Rightarrow> 'j node list \<Rightarrow> bool" where
  "same_below F cs ns \<longleftrightarrow>
     (\<forall>c ds md. names_ok (c # ds) \<longrightarrow>
       ((path_of_names (cs @ c # ds), md) \<in> F \<longleftrightarrow> (path_of_names (cs @ c # ds), md) \<in> set (postorder ns)))"

lemma same_below_child:
  assumes "same_below F cs ns" and "forest_ok cs ns" and "n \<in> set ns" and "nd_path n = path_of_names (cs @ [c])"
    and "validate_component c"
  shows "same_below F (cs @ [c]) (nd_children n)"
  unfolding same_below_def
proof (intro allI impI)
  fix d ds md assume "names_ok (d # ds)"
  then show "(path_of_names ((cs @ [c]) @ d # ds), md) \<in> F \<longleftrightarrow>
      (path_of_names ((cs @ [c]) @ d # ds), md) \<in> set (postorder (nd_children n))"
    using assms(1)[unfolded same_below_def, rule_format, of c "d # ds" md]
      postorder_below_child[OF assms(2-5), of "d # ds" md] assms(5) by simp
qed

text \<open>The nodes whose parent is the root of a forest are its trees.\<close>

lemma path_parent_iff:
  assumes "names_ok cs" and "path_parent p = Some (path_of_names cs)" and "validate_path p"
  shows "\<exists>c. validate_component c \<and> p = path_of_names (cs @ [c])"
proof -
  obtain es where es: "names_ok es" "p = path_of_names es" using assms(3) validate_path_names by blast
  have "es \<noteq> []" using assms(2) path_parent_root by (auto simp: es(2))
  then obtain fs c where f: "es = fs @ [c]" by (cases es rule: rev_cases) auto
  then have "path_of_names fs = path_of_names cs" using assms(2) path_parent_names[of fs c] es by simp
  then show ?thesis using path_of_names_inj[of fs cs] f es assms(1) by auto
qed

lemma entries_at_root:
  assumes "same_below F cs ns" and "forest_ok cs ns" and "\<forall>e\<in>F. validate_path (fst e)"
  shows "{e \<in> F. path_parent (fst e) = Some (path_of_names cs)} = (\<lambda>n. (nd_path n, nd_metadata n)) ` set ns"
proof (intro equalityI subsetI)
  have ok: "names_ok cs" using assms(2) by (simp add: forest_ok_def)
  fix e assume e: "e \<in> {e \<in> F. path_parent (fst e) = Some (path_of_names cs)}"
  obtain c where c: "validate_component c" "fst e = path_of_names (cs @ [c])"
    using path_parent_iff[OF ok, of "fst e"] assms(3) e by auto
  then have in_ns: "(path_of_names (cs @ [c]), snd e) \<in> set (postorder ns)"
    using assms(1)[unfolded same_below_def, rule_format, of c "[]" "snd e"] e by (metis (no_types, lifting) list.pred_inject mem_Collect_eq prod.collapse)
  obtain n d ds where n: "n \<in> set ns" "nd_path n = path_of_names (cs @ [d])" "names_ok (d # ds)"
    "path_of_names (cs @ [c]) = path_of_names (cs @ d # ds)"
    using postorder_names[OF assms(2) in_ns] by blast
  then have "c = d" "ds = []" using path_of_names_inj[of "cs @ [c]" "cs @ d # ds"] ok c(1) by auto
  then have "nd_metadata n = snd e"
    using postorder_below_child[OF assms(2) n(1), of c "[]" "snd e"] n c(1) in_ns by simp
  then show "e \<in> (\<lambda>n. (nd_path n, nd_metadata n)) ` set ns"
    using n(1,2) c(2) \<open>c = d\<close> by (intro image_eqI[of _ _ n]) (simp_all add: prod_eq_iff)
next
  have ok: "names_ok cs" using assms(2) by (simp add: forest_ok_def)
  fix e assume "e \<in> (\<lambda>n. (nd_path n, nd_metadata n)) ` set ns"
  then obtain n where n: "n \<in> set ns" "e = (nd_path n, nd_metadata n)" by blast
  obtain c where c: "validate_component c" "nd_path n = path_of_names (cs @ [c])"
    using forest_ok_child[OF assms(2) n(1)] by blast
  have "(path_of_names (cs @ [c]), nd_metadata n) \<in> set (postorder ns)"
    using postorder_below_child[OF assms(2) n(1) c(2,1), of "[]" "nd_metadata n"] by simp
  then have "e \<in> F" using assms(1)[unfolded same_below_def, rule_format, of c "[]" "nd_metadata n"] c n(2) by simp
  then show "e \<in> {e \<in> F. path_parent (fst e) = Some (path_of_names cs)}"
    using path_parent_names[OF ok c(1)] n(2) c(2) by simp
qed

text \<open>What the recursion over the map does for one forest: it makes the sorted forest, and keeps the entries of parents elsewhere.\<close>

definition at_or_below :: "string list \<Rightarrow> node_path \<Rightarrow> bool" where
  "at_or_below cs q \<longleftrightarrow> (\<exists>ds. names_ok ds \<and> q = path_of_names (cs @ ds))"

definition collects :: "'j parent_map \<Rightarrow> 'j node list \<Rightarrow> (node_path \<Rightarrow> bool) \<Rightarrow> ('j node list \<times> 'j parent_map) option \<Rightarrow> bool" where
  "collects by_parent ns inside r \<longleftrightarrow>
     (\<exists>by'. r = Some (ns, by') \<and> length by' \<le> length by_parent \<and>
       (\<forall>q. \<not> inside q \<longrightarrow> map_of by' (NodeKey q) = map_of by_parent (NodeKey q)))"

lemma has_entries_frame:
  assumes "has_entries F cs by_parent"
    and "\<And>q. at_or_below cs q \<Longrightarrow> map_of by' (NodeKey q) = map_of by_parent (NodeKey q)"
  shows "has_entries F cs by'"
  unfolding has_entries_def
proof (intro allI impI)
  fix ds assume ds: "names_ok ds"
  then have "map_of by' (NodeKey (path_of_names (cs @ ds))) = map_of by_parent (NodeKey (path_of_names (cs @ ds)))"
    by (intro assms(2)) (auto simp: at_or_below_def)
  then show "parent_entry F (path_of_names (cs @ ds)) (map_of by' (NodeKey (path_of_names (cs @ ds))))"
    using assms(1) ds by (simp add: has_entries_def)
qed

lemma at_or_below_child: "validate_component c \<Longrightarrow> at_or_below (cs @ [c]) q \<Longrightarrow> at_or_below cs q"
  unfolding at_or_below_def by (metis append.assoc append_Cons append_Nil list.pred_inject(2))

lemma at_or_below_sibling:
  assumes "names_ok (cs @ [c])" and "names_ok (cs @ [d])" and "at_or_below (cs @ [c]) q" and "at_or_below (cs @ [d]) q"
  shows "c = d"
proof -
  obtain ds es where "names_ok ds" "names_ok es" "q = path_of_names (cs @ c # ds)" "q = path_of_names (cs @ d # es)"
    using assms(3,4) by (auto simp: at_or_below_def)
  then show ?thesis using path_of_names_inj[of "cs @ c # ds" "cs @ d # es"] assms(1,2) by simp
qed

lemma collect_loop_ok:
  assumes "\<And>n c by_parent. n \<in> set ks \<Longrightarrow> is_group (nd_metadata n) \<Longrightarrow> nd_path n = path_of_names (cs @ [c]) \<Longrightarrow>
      validate_component c \<Longrightarrow> length by_parent < m \<Longrightarrow> has_entries F (cs @ [c]) by_parent \<Longrightarrow>
      collects by_parent (sort_forest (nd_children n)) (at_or_below (cs @ [c])) (rec (nd_path n) by_parent)"
    and "forest_ok cs ks" and "length by_parent < m"
    and "\<And>n c. n \<in> set ks \<Longrightarrow> nd_path n = path_of_names (cs @ [c]) \<Longrightarrow> validate_component c \<Longrightarrow> has_entries F (cs @ [c]) by_parent"
  shows "collects by_parent (map sort_node ks) (at_or_below cs) (collect_loop rec (map entry_of ks) by_parent)"
  using assms
proof (induction ks arbitrary: by_parent)
  case (Cons n ks)
  have ok: "names_ok cs" using Cons.prems(2) by (simp add: forest_ok_def)
  obtain c where c: "validate_component c" "nd_path n = path_of_names (cs @ [c])"
    "is_group (nd_metadata n) \<or> nd_children n = []" using forest_ok_child[OF Cons.prems(2), of n] by auto
  have n: "n \<in> set (n # ks)" by simp
  have "collects by_parent (sort_forest (nd_children n)) (at_or_below (cs @ [c]))
      (if is_group (nd_metadata n) then rec (nd_path n) by_parent else Some ([], by_parent))"
    using Cons.prems(1)[OF n _ c(2,1) Cons.prems(3) Cons.prems(4)[OF n c(2,1)]] c(3)
    by (auto simp: collects_def sort_forest_def)
  then obtain by1 where by1: "(if is_group (nd_metadata n) then rec (nd_path n) by_parent else Some ([], by_parent)) =
      Some (sort_forest (nd_children n), by1)" "length by1 \<le> length by_parent"
    and keep1: "\<And>q. \<not> at_or_below (cs @ [c]) q \<Longrightarrow> map_of by1 (NodeKey q) = map_of by_parent (NodeKey q)"
    unfolding collects_def by blast
  have "collects by1 (map sort_node ks) (at_or_below cs) (collect_loop rec (map entry_of ks) by1)"
  proof (rule Cons.IH)
    show "forest_ok cs ks" using Cons.prems(2) by (rule forest_ok_tail)
    show "length by1 < m" using by1(2) Cons.prems(3) by simp
  next
    fix k d assume k: "k \<in> set ks" "nd_path k = path_of_names (cs @ [d])" "validate_component d"
    have "nd_path n \<notin> nd_path ` set ks" using Cons.prems(2) by (simp add: forest_ok_def)
    then have "nd_path k \<noteq> nd_path n" using k(1) by (metis imageI)
    then have "d \<noteq> c" using k(2) c(2) by auto
    then have "\<not> at_or_below (cs @ [c]) q" if "at_or_below (cs @ [d]) q" for q
      using at_or_below_sibling[of cs c d q] that ok c(1) k(3) by auto
    then show "has_entries F (cs @ [d]) by1"
      using has_entries_frame[OF Cons.prems(4)[of k d]] keep1 k by simp
  qed (rule Cons.prems(1); simp)
  then obtain by2 where by2: "collect_loop rec (map entry_of ks) by1 = Some (map sort_node ks, by2)" "length by2 \<le> length by1"
    and keep2: "\<And>q. \<not> at_or_below cs q \<Longrightarrow> map_of by2 (NodeKey q) = map_of by1 (NodeKey q)"
    unfolding collects_def by blast
  have "map_of by2 (NodeKey q) = map_of by_parent (NodeKey q)" if "\<not> at_or_below cs q" for q
    using keep2[OF that] keep1[of q] at_or_below_child[OF c(1)] that by auto
  moreover have "collect_loop rec (map entry_of (n # ks)) by_parent = Some (map sort_node (n # ks), by2)"
    using by1(1) by2(1) by (cases "is_group (nd_metadata n)") (simp_all add: entry_of_def key_of_def sort_node_eq)
  ultimately show ?case using by1(2) by2(2) by (auto simp: collects_def)
qed (simp add: collects_def)

lemma length_btree_remove_less: "map_of m k \<noteq> None \<Longrightarrow> length (btree_remove k m) < length m"
  unfolding btree_remove_def by (rule length_filter_less[of "(k, the (map_of m k))"]) (auto dest: map_of_SomeD)

lemma collect_ok:
  assumes "length by_parent < m" and "forest_ok cs ns" and "same_below F cs ns" and "\<forall>e\<in>F. validate_path (fst e)"
    and "has_entries F cs by_parent"
  shows "collects by_parent (sort_forest ns) (at_or_below cs) (collect_children_from_map m (path_of_names cs) by_parent)"
  using assms(1-3,5)
proof (induction m arbitrary: by_parent cs ns)
  case (Suc m)
  have ok: "names_ok cs" using Suc.prems(2) by (simp add: forest_ok_def)
  let ?key = "NodeKey (path_of_names cs)"
  note root = entries_at_root[OF Suc.prems(3,2) assms(4)]
  have entry: "parent_entry F (path_of_names cs) (map_of by_parent ?key)"
    using Suc.prems(4)[unfolded has_entries_def, rule_format, of "[]"] by simp
  show ?case
  proof (cases "map_of by_parent ?key")
    case None
    then have "ns = []" using entry root by (simp add: parent_entry_def)
    then show ?thesis using None by (simp add: collects_def sort_forest_def)
  next
    case (Some es)
    let ?by = "btree_remove ?key by_parent"
    have es: "sorted_wrt (<) (map fst es)"
      "(\<lambda>(k, md). (key_path k, md)) ` set es = (\<lambda>n. (nd_path n, nd_metadata n)) ` set ns"
      using entry root Some by (simp_all add: parent_entry_def)
    have "(\<lambda>(p, md). (NodeKey p, md)) ` (\<lambda>(k, md). (key_path k, md)) ` set es = entry_of ` set ns"
      unfolding es(2) by (auto simp: entry_of_def key_of_def image_iff)
    then have "set es = entry_of ` set ns" by (simp add: image_image case_prod_unfold)
    then have eq: "es = map entry_of (sort_key key_of ns)"
      using sorted_entries_unique[OF es(1)] Suc.prems(2) by (simp add: forest_ok_def)
    let ?ks = "sort_key key_of ns"
    have ks: "forest_ok cs ?ks" by (rule forest_ok_perm[OF Suc.prems(2)]) simp
    have less: "length ?by < m"
      using length_btree_remove_less[of by_parent ?key] Some Suc.prems(1) by simp
    have below: "has_entries F (cs @ [c]) ?by" if c: "validate_component c" for c
      unfolding has_entries_def
    proof (intro allI impI)
      fix ds assume ds: "names_ok ds"
      then have "path_of_names (cs @ c # ds) \<noteq> path_of_names cs"
        using path_of_names_inj[of "cs @ c # ds" cs] ok c by simp
      then show "parent_entry F (path_of_names ((cs @ [c]) @ ds)) (map_of ?by (NodeKey (path_of_names ((cs @ [c]) @ ds))))"
        using Suc.prems(4)[unfolded has_entries_def, rule_format, of "c # ds"] ds c by simp
    qed
    have "collects ?by (map sort_node ?ks) (at_or_below cs)
        (collect_loop (collect_children_from_map m) (map entry_of ?ks) ?by)"
    proof (rule collect_loop_ok[OF _ ks less])
      fix n c and bp :: "'a parent_map"
      assume n: "n \<in> set ?ks" "nd_path n = path_of_names (cs @ [c])" "validate_component c"
        "length bp < m" "has_entries F (cs @ [c]) bp"
      obtain d where d: "validate_component d" "nd_path n = path_of_names (cs @ [d])" "forest_ok (cs @ [d]) (nd_children n)"
        using forest_ok_child[OF ks n(1)] by blast
      then have "c = d" using n(2,3) path_of_names_inj[of "cs @ [c]" "cs @ [d]"] ok by simp
      then show "collects bp (sort_forest (nd_children n)) (at_or_below (cs @ [c])) (collect_children_from_map m (nd_path n) bp)"
        using Suc.IH[OF n(4) d(3)] same_below_child[OF Suc.prems(3,2) _ n(2,3)] n by simp
    qed (use below in blast)
    then obtain by2 where by2: "collect_loop (collect_children_from_map m) (map entry_of ?ks) ?by = Some (map sort_node ?ks, by2)"
      "length by2 \<le> length ?by" and keep: "\<And>q. \<not> at_or_below cs q \<Longrightarrow> map_of by2 (NodeKey q) = map_of ?by (NodeKey q)"
      unfolding collects_def by blast
    have "map_of ?by (NodeKey q) = map_of by_parent (NodeKey q)" if "\<not> at_or_below cs q" for q
    proof -
      have "at_or_below cs (path_of_names cs)" unfolding at_or_below_def by (rule exI[of _ "[]"]) simp
      then have "q \<noteq> path_of_names cs" using that by blast
      then show ?thesis by simp
    qed
    moreover have "length by2 \<le> length by_parent"
      using by2(2) length_btree_remove_less[of by_parent ?key] Some by simp
    ultimately show ?thesis
      using by2(1) keep Some eq by (simp add: collects_def sort_forest_map)
  qed
qed simp

text \<open>Building the tree from the nodes of a forest, in any order, gives the sorted forest.\<close>

lemma build_node_tree_ok:
  assumes "forest_ok cs ns" and "distinct (map fst flat)" and "set flat = set (postorder ns)"
  shows "build_node_tree (path_of_names cs) flat = Some (sort_forest ns)"
proof -
  let ?by = "foldl parent_insert [] flat"
  have ok: "names_ok cs" using assms(1) by (simp add: forest_ok_def)
  have "same_below (set flat) cs ns" by (simp add: same_below_def assms(3))
  moreover have "\<forall>e\<in>set flat. validate_path (fst e)"
  proof
    fix e assume "e \<in> set flat"
    then have "(fst e, snd e) \<in> set (postorder ns)" using assms(3) by simp
    from postorder_names[OF assms(1) this] obtain c ds where "names_ok (c # ds)" "fst e = path_of_names (cs @ c # ds)" by blast
    then show "validate_path (fst e)" unfolding validate_path_names using ok by (intro exI[of _ "cs @ c # ds"]) simp
  qed
  moreover have "has_entries (set flat) cs ?by"
    unfolding has_entries_def using parent_map_entries[OF assms(2)] by blast
  ultimately have "collects ?by (sort_forest ns) (at_or_below cs)
      (collect_children_from_map (Suc (length ?by)) (path_of_names cs) ?by)"
    by (intro collect_ok[OF _ assms(1)]) simp_all
  then show ?thesis by (auto simp: collects_def build_node_tree_def Let_def)
qed

subsection \<open>Consolidating\<close>

text \<open>The relative path of a node below the node at \<open>cs\<close>: its further names.\<close>

lemma relative_path_names:
  assumes "names_ok (cs @ ds)" and "ds \<noteq> []"
  shows "\<exists>r. strip_prefix (path_of_names (cs @ ds)) (path_of_names cs) = Some r \<and>
     (case strip_prefix r [slash] of None \<Rightarrow> r | Some r \<Rightarrow> r) = join [slash] ds"
proof -
  have hd: "strip_prefix (join [slash] ds) [slash] = None"
    using hd_join[of ds "[slash]"] assms names_ok_no_slash[of ds "hd ds"]
    by (cases ds) (auto simp: strip_prefix_def starts_with_iff)
  show ?thesis
  proof (cases "cs = []")
    case True
    then show ?thesis using hd by (simp add: path_of_names_def strip_prefix_def)
  next
    case False
    then show ?thesis by (simp add: path_of_names_def join_append[OF False assms(2)] strip_prefix_def starts_with_iff)
  qed
qed

text \<open>The key of a node in the consolidated metadata of the node at \<open>cs\<close>.\<close>

definition relative_key :: "string list \<Rightarrow> node_path \<Rightarrow> string" where
  "relative_key cs q =
     (let r = the (strip_prefix q (path_of_names cs)) in case strip_prefix r [slash] of None \<Rightarrow> r | Some r \<Rightarrow> r)"

lemma relative_key_names: "names_ok (cs @ ds) \<Longrightarrow> ds \<noteq> [] \<Longrightarrow> relative_key cs (path_of_names (cs @ ds)) = join [slash] ds"
proof -
  assume "names_ok (cs @ ds)" "ds \<noteq> []"
  from relative_path_names[OF this] obtain r where r: "strip_prefix (path_of_names (cs @ ds)) (path_of_names cs) = Some r"
    "(case strip_prefix r [slash] of None \<Rightarrow> r | Some r \<Rightarrow> r) = join [slash] ds" by blast
  show ?thesis unfolding relative_key_def Let_def r(1) option.sel by (rule r(2))
qed

lemma set_hash_insert_new: "k \<notin> fst ` set m \<Longrightarrow> hash_insert k v m = m @ [(k, v)]"
  by (force simp: hash_insert_def filter_id_conv)

lemma update_consolidated_ok:
  assumes "\<And>q md. (q, md) \<in> set (postorder ns) \<Longrightarrow> \<exists>ds. ds \<noteq> [] \<and> names_ok (cs @ ds) \<and> q = path_of_names (cs @ ds)"
    and "distinct (map fst (postorder ns))"
    and "distinct (map fst c)" and "fst ` set c \<inter> relative_key cs ` fst ` set (postorder ns) = {}"
  shows "\<exists>c'. update_consolidated_metadata (path_of_names cs) c ns = Some c' \<and> distinct (map fst c') \<and>
     set c' = set c \<union> (\<lambda>(q, md). (relative_key cs q, md)) ` set (postorder ns)"
  using assms
proof (induction "path_of_names cs" c ns rule: update_consolidated_metadata.induct)
  case (2 c p md ks ns)
  let ?r = "relative_key cs p"
  obtain ds where ds: "ds \<noteq> []" "names_ok (cs @ ds)" "p = path_of_names (cs @ ds)"
    using "2.prems"(1)[of p md] by auto
  obtain r where r: "strip_prefix p (path_of_names cs) = Some r"
    "(case strip_prefix r [slash] of None \<Rightarrow> r | Some r \<Rightarrow> r) = ?r"
    using relative_path_names[OF ds(2,1)] relative_key_names[OF ds(2,1)] ds(3) by auto
  have inj: "relative_key cs q = relative_key cs q' \<longleftrightarrow> q = q'"
    if q: "q \<in> fst ` set (postorder (Node p md ks # ns))" "q' \<in> fst ` set (postorder (Node p md ks # ns))" for q q'
  proof -
    obtain es es' where es: "es \<noteq> []" "names_ok (cs @ es)" "q = path_of_names (cs @ es)"
      "es' \<noteq> []" "names_ok (cs @ es')" "q' = path_of_names (cs @ es')"
      using q "2.prems"(1) by (metis (no_types, lifting) imageE prod.collapse)
    then have "relative_key cs q = relative_key cs q' \<longleftrightarrow> es = es'"
      using relative_key_names split_names[of es] split_names[of es'] by (metis list_all_append)
    then show ?thesis using path_of_names_inj[OF es(2,5)] es by simp
  qed
  have mem: "p \<in> fst ` set (postorder (Node p md ks # ns))"
    "q \<in> fst ` set (postorder ks) \<Longrightarrow> q \<in> fst ` set (postorder (Node p md ks # ns))"
    "q \<in> fst ` set (postorder ns) \<Longrightarrow> q \<in> fst ` set (postorder (Node p md ks # ns))" for q by auto
  have new: "?r \<notin> fst ` set c" using "2.prems"(4) by auto
  have keys: "relative_key cs ` fst ` set (postorder (Node p md ks # ns)) =
      insert ?r (relative_key cs ` fst ` set (postorder ks) \<union> relative_key cs ` fst ` set (postorder ns))"
    by (simp add: image_Un)
  have old: "fst ` set c \<inter> relative_key cs ` fst ` set (postorder ks) = {}"
    "fst ` set c \<inter> relative_key cs ` fst ` set (postorder ns) = {}" using "2.prems"(4) unfolding keys by blast+
  from new have ins: "hash_insert ?r md c = c @ [(?r, md)]" by (rule set_hash_insert_new)
  have fresh: "p \<notin> fst ` set (postorder ks)" "p \<notin> fst ` set (postorder ns)"
    "fst ` set (postorder ks) \<inter> fst ` set (postorder ns) = {}" using "2.prems"(2) by auto
  have prem: "\<exists>ds. ds \<noteq> [] \<and> names_ok (cs @ ds) \<and> q = path_of_names (cs @ ds)"
    if "(q, m) \<in> set (postorder ks) \<or> (q, m) \<in> set (postorder ns)" for q m
    using "2.prems"(1)[of q m] that by auto
  have "\<exists>c1. update_consolidated_metadata (path_of_names cs) (hash_insert ?r md c) ks = Some c1 \<and> distinct (map fst c1) \<and>
      set c1 = set (hash_insert ?r md c) \<union> (\<lambda>(q, md). (relative_key cs q, md)) ` set (postorder ks)"
  proof (rule "2.hyps"(1)[OF r(1), of "?r", OF r(2)[symmetric]])
    have "?r \<notin> relative_key cs ` fst ` set (postorder ks)"
    proof
      assume "?r \<in> relative_key cs ` fst ` set (postorder ks)"
      then obtain q where q: "q \<in> fst ` set (postorder ks)" "?r = relative_key cs q" by blast
      then have "p = q" using inj[OF mem(1) mem(2)[OF q(1)]] by blast
      then show False using q(1) fresh(1) by blast
    qed
    then show "fst ` set (hash_insert ?r md c) \<inter> relative_key cs ` fst ` set (postorder ks) = {}"
      using old(1) unfolding ins by simp
    show "distinct (map fst (hash_insert ?r md c))" using "2.prems"(3) new unfolding ins by simp
    show "distinct (map fst (postorder ks))" using "2.prems"(2) by simp
  qed (use prem in blast)
  then obtain c1 where c1: "update_consolidated_metadata (path_of_names cs) (hash_insert ?r md c) ks = Some c1"
    "distinct (map fst c1)" "set c1 = set (hash_insert ?r md c) \<union> (\<lambda>(q, md). (relative_key cs q, md)) ` set (postorder ks)"
    by blast
  have "\<exists>c'. update_consolidated_metadata (path_of_names cs) c1 ns = Some c' \<and> distinct (map fst c') \<and>
      set c' = set c1 \<union> (\<lambda>(q, md). (relative_key cs q, md)) ` set (postorder ns)"
  proof (rule "2.hyps"(2)[OF r(1), of "?r", OF r(2)[symmetric]])
    have "fst ` set c1 = insert ?r (fst ` set c) \<union> relative_key cs ` fst ` set (postorder ks)"
      unfolding c1(3) ins by force
    moreover have "?r \<notin> relative_key cs ` fst ` set (postorder ns)"
    proof
      assume "?r \<in> relative_key cs ` fst ` set (postorder ns)"
      then obtain q where q: "q \<in> fst ` set (postorder ns)" "?r = relative_key cs q" by blast
      then have "p = q" by (intro iffD1[OF inj[OF mem(1) mem(3)[OF q(1)]]])
      then show False using q(1) fresh(2) by blast
    qed
    moreover have "relative_key cs ` fst ` set (postorder ks) \<inter> relative_key cs ` fst ` set (postorder ns) = {}"
    proof (rule equals0I, elim IntE)
      fix x assume x: "x \<in> relative_key cs ` fst ` set (postorder ks)" "x \<in> relative_key cs ` fst ` set (postorder ns)"
      from x(1) obtain q where q1: "x = relative_key cs q" "q \<in> fst ` set (postorder ks)" by (rule imageE)
      from x(2) obtain q' where q2: "x = relative_key cs q'" "q' \<in> fst ` set (postorder ns)" by (rule imageE)
      note q = q1(2) q2(2)
      have "relative_key cs q = relative_key cs q'" by (rule trans[OF q1(1)[symmetric] q2(1)])
      then have "q = q'" by (rule iffD1[OF inj[OF mem(2)[OF q(1)] mem(3)[OF q(2)]]])
      then show False using q(1,2) fresh(3) by blast
    qed
    ultimately show "fst ` set c1 \<inter> relative_key cs ` fst ` set (postorder ns) = {}"
      using old(2) by (simp add: Int_Un_distrib2)
    show "distinct (map fst (postorder ns))" using "2.prems"(2) by simp
  qed (rule c1(1), rule prem[OF disjI2], assumption, rule c1(2))
  then show ?case using c1 r ins by (auto simp: Let_def)
qed simp

subsection \<open>Expanding\<close>

lemma expand_loop_ok:
  assumes "names_ok cs" and "\<forall>e\<in>set c. \<exists>ds. ds \<noteq> [] \<and> names_ok ds \<and> fst e = join [slash] ds"
  shows "expand_loop (path_of_names cs) c out = Inr (out @ map (\<lambda>(r, md). (path_of_names (cs @ split_on slash r), md)) c)"
  using assms(2)
proof (induction c arbitrary: out)
  case (Cons e c)
  obtain r md where e: "e = (r, md)" by (cases e)
  obtain ds where ds: "ds \<noteq> []" "names_ok ds" "r = join [slash] ds" using Cons.prems e by auto
  have "path_of_names (cs @ ds) \<noteq> path_of_names cs" using path_of_names_inj[of "cs @ ds" cs] assms(1) ds by simp
  then show ?case
    using Cons.IH Cons.prems path_join_names[OF assms(1) ds(2,1)] split_names[OF ds(2,1)] by (simp add: e ds(3))
qed simp

text \<open>Consolidating a tree and expanding the entries, in any order, gives its nodes, and building the tree gives it sorted.\<close>

lemma consolidate_expand:
  assumes "forest_ok cs ns" and "is_group md"
  shows "\<exists>c. consolidate_metadata (Node (path_of_names cs) md ns) = Some (Some c) \<and> distinct (map fst c) \<and>
     (\<forall>c'. distinct (map fst c') \<and> set c' = set c \<longrightarrow>
       (\<exists>flat. expand_consolidated_metadata (path_of_names cs) c' = Inr flat \<and> distinct (map fst flat) \<and>
         set flat = set (postorder ns) \<and> build_node_tree (path_of_names cs) flat = Some (sort_forest ns)))"
proof -
  have ok: "names_ok cs" using assms(1) by (simp add: forest_ok_def)
  have below: "\<exists>ds. ds \<noteq> [] \<and> names_ok (cs @ ds) \<and> q = path_of_names (cs @ ds)" if "(q, m) \<in> set (postorder ns)" for q m
    using postorder_names[OF assms(1) that] ok by fastforce
  obtain c where c: "update_consolidated_metadata (path_of_names cs) [] ns = Some c" "distinct (map fst c)"
    "set c = (\<lambda>(q, md). (relative_key cs q, md)) ` set (postorder ns)"
    using update_consolidated_ok[of ns cs "[]", OF _ distinct_postorder[OF assms(1)]] below by auto
  have names_back: "relative_key cs q = join [slash] ds \<and> split_on slash (relative_key cs q) = ds"
    if "ds \<noteq> []" "names_ok (cs @ ds)" "q = path_of_names (cs @ ds)" for q ds
    using that relative_key_names[of cs ds] split_names[of ds] by simp
  have "\<exists>flat. expand_consolidated_metadata (path_of_names cs) c' = Inr flat \<and> distinct (map fst flat) \<and>
      set flat = set (postorder ns) \<and> build_node_tree (path_of_names cs) flat = Some (sort_forest ns)"
    if c': "distinct (map fst c')" "set c' = set c" for c'
  proof -
    define flat where "flat = map (\<lambda>(r, md). (path_of_names (cs @ split_on slash r), md)) c'"
    have names: "\<exists>ds. ds \<noteq> [] \<and> names_ok ds \<and> fst e = join [slash] ds" if e: "e \<in> set c'" for e
    proof -
      obtain q m where q: "(q, m) \<in> set (postorder ns)" "e = (relative_key cs q, m)" using e c'(2) c(3) by auto
      obtain ds where ds: "ds \<noteq> []" "names_ok (cs @ ds)" "q = path_of_names (cs @ ds)" using below[OF q(1)] by blast
      then show ?thesis using names_back[OF ds] q(2) by (intro exI[of _ ds]) simp
    qed
    have expand: "expand_consolidated_metadata (path_of_names cs) c' = Inr flat"
      using expand_loop_ok[OF ok, of c' "[]"] names by (simp add: expand_consolidated_metadata_def flat_def)
    have key: "(path_of_names (cs @ split_on slash (relative_key cs q)), m) = (q, m)" if "(q, m) \<in> set (postorder ns)" for q m
    proof -
      obtain ds where ds: "ds \<noteq> []" "names_ok (cs @ ds)" "q = path_of_names (cs @ ds)" using below[OF \<open>(q, m) \<in> _\<close>] by blast
      have "split_on slash (relative_key cs q) = ds" using names_back[OF ds] by blast
      then show ?thesis unfolding ds(3)[symmetric] by (simp add: ds(3))
    qed
    have "set flat = (\<lambda>(q, m). (path_of_names (cs @ split_on slash (relative_key cs q)), m)) ` set (postorder ns)"
      unfolding flat_def set_map c'(2) c(3) image_image by (rule image_cong) auto
    also have "\<dots> = (\<lambda>e. e) ` set (postorder ns)" by (rule image_cong) (use key in auto)
    finally have sets: "set flat = set (postorder ns)" by simp
    have key_names: "\<exists>ds. ds \<noteq> [] \<and> names_ok ds \<and> r = join [slash] ds" if r: "r \<in> set (map fst c')" for r
    proof -
      obtain e where "e \<in> set c'" "r = fst e" using r by auto
      then show ?thesis using names[of e] by simp
    qed
    have "distinct (map fst flat)"
    proof -
      have "map fst flat = map (\<lambda>r. path_of_names (cs @ split_on slash r)) (map fst c')"
        unfolding flat_def map_map by (rule map_cong) auto
      moreover have "inj_on (\<lambda>r. path_of_names (cs @ split_on slash r)) (set (map fst c'))"
      proof (rule inj_onI)
        fix r r' assume r: "r \<in> set (map fst c')" "r' \<in> set (map fst c')"
          "path_of_names (cs @ split_on slash r) = path_of_names (cs @ split_on slash r')"
        obtain ds where ds: "ds \<noteq> []" "names_ok ds" "r = join [slash] ds" using key_names[OF r(1)] by blast
        obtain ds' where ds': "ds' \<noteq> []" "names_ok ds'" "r' = join [slash] ds'" using key_names[OF r(2)] by blast
        have "path_of_names (cs @ ds) = path_of_names (cs @ ds')"
          using r(3) unfolding ds(3) ds'(3) split_names[OF ds(2,1)] split_names[OF ds'(2,1)] .
        then have "ds = ds'" using path_of_names_inj[of "cs @ ds" "cs @ ds'"] ok ds(2) ds'(2) by simp
        then show "r = r'" using ds(3) ds'(3) by simp
      qed
      ultimately show ?thesis using c'(1) by (simp add: distinct_map comp_inj_on)
    qed
    then show ?thesis using expand sets build_node_tree_ok[OF assms(1) _ sets] by blast
  qed
  moreover have "consolidate_metadata (Node (path_of_names cs) md ns) = Some (Some c)"
    using c(1) assms(2) by (simp add: consolidate_metadata_def)
  ultimately show ?thesis using c(2) by blast
qed

subsection \<open>Listed forests\<close>

context listable_store
begin

text \<open>What listing finds is a forest.\<close>

lemma listed_forest:
  assumes "ok s" and "names_ok cs"
    and "get_child_nodes_opt n sd get list_dir s (path_of_names cs) True version = Some (Inr ns)"
  shows "forest_ok cs ns"
  using assms(2,3)
proof (induction n arbitrary: cs ns)
  case (Suc n)
  note found = children_found[OF assms(1) Suc.prems]
  have "node_ok cs k" if k: "k \<in> set ns" for k
  proof -
    obtain c where c: "validate_component c" "nd_path k = path_of_names (cs @ [c])" using found(2) k by blast
    note cm = children_metadata[OF Suc.prems(2) k]
    have "forest_ok (cs @ [c]) (nd_children k)"
    proof (cases "is_group (nd_metadata k)")
      case True
      then show ?thesis using Suc.IH[of "cs @ [c]" "nd_children k"] cm(2) c Suc.prems(1) by simp
    qed (use cm(2) c Suc.prems(1) in simp)
    then show ?thesis using c cm(2) by (cases k) (auto simp: forest_ok_def split: if_splits)
  qed
  then show ?case using found(1) Suc.prems(1) by (simp add: forest_ok_def)
qed simp

end

end
