(* ===== verification/Node_Groups.thy ===== *)
theory Node_Groups
  imports Node_Tree
begin

text \<open>
  Groups (\<open>zarrs/src/group.rs\<close>): opening a group, its children, and storing and erasing its metadata.  The storage of a group is the state
  that its operations take.
\<close>

record group_open_options =
  goo_version :: metadata_retrieve_version
  goo_use_consolidated_metadata :: use_consolidated_metadata
  goo_metadata_options :: metadata_convert_version
  goo_metadata_erase_version :: metadata_erase_version

record 'j group =
  gr_path :: node_path
  gr_metadata :: "'j group_metadata"
  gr_metadata_options :: metadata_convert_version
  gr_metadata_erase_version :: metadata_erase_version
  gr_use_consolidated_metadata :: use_consolidated_metadata

datatype 'j group_create_error =
  GroupNodePathError node_path_error
| AdditionalFieldUnsupportedError string 'j
| GroupStorageError storage_error
| GroupMissingMetadata
| GroupPanic

text \<open>\<open>From<NodeCreateError>\<close>: what is not a storage error becomes the text of the error.\<close>

fun store_prefix_error_text :: "store_prefix_error \<Rightarrow> string" where
  "store_prefix_error_text (StorePrefixError p) = ''invalid store prefix '' @ p"

fun group_error_of_node_error :: "node_create_error \<Rightarrow> 'j group_create_error" where
  "group_error_of_node_error (NodeNodePathError e) = GroupStorageError (OtherError (node_path_error_text e))"
| "group_error_of_node_error (NodeStorePrefixError e) = GroupStorageError (OtherError (store_prefix_error_text e))"
| "group_error_of_node_error (NodeStorageError e) = GroupStorageError e"
| "group_error_of_node_error MetadataVersionMismatch =
     GroupStorageError (OtherError ''Found V2 metadata in V3 key or vice-versa'')"
| "group_error_of_node_error (NodeMissingMetadata s) = GroupStorageError (OtherError (''Metadata is missing for '' @ s))"
| "group_error_of_node_error NodePanic = GroupPanic"

subsection \<open>Metadata\<close>

definition group_new_with_metadata_opt ::
    "string \<Rightarrow> 'j group_metadata \<Rightarrow> group_open_options \<Rightarrow> 'j group_create_error + 'j group" where
  "group_new_with_metadata_opt path metadata opts =
     bind_res (map_err GroupNodePathError (path_new path)) (\<lambda>path.
       Inr \<lparr>gr_path = path, gr_metadata = metadata,
            gr_metadata_options = goo_metadata_options opts,
            gr_metadata_erase_version = goo_metadata_erase_version opts,
            gr_use_consolidated_metadata = goo_use_consolidated_metadata opts\<rparr>)"

fun group_attributes :: "'j group_metadata \<Rightarrow> 'j attributes" where
  "group_attributes (GMV3 metadata) = gm3_attributes metadata"
| "group_attributes (GMV2 metadata) = gm2_attributes metadata"

definition group_metadata_v2_to_v3 :: "'j group_metadata_v2 \<Rightarrow> 'j group_metadata_v3" where
  "group_metadata_v2_to_v3 m = \<lparr>gm3_attributes = gm2_attributes m, gm3_additional_fields = []\<rparr>"

fun group_metadata_opt :: "'j group_metadata \<Rightarrow> metadata_convert_version \<Rightarrow> 'j group_metadata" where
  "group_metadata_opt (GMV3 metadata) _ = GMV3 metadata"
| "group_metadata_opt (GMV2 metadata) ConvertDefault = GMV2 metadata"
| "group_metadata_opt (GMV2 metadata) ConvertV3 = GMV3 (group_metadata_v2_to_v3 metadata)"

fun group_consolidated_metadata :: "'j serde \<Rightarrow> 'j group_metadata \<Rightarrow> 'j consolidated_metadata option" where
  "group_consolidated_metadata sd (GMV3 metadata) = consolidated_field sd (gm3_additional_fields metadata)"
| "group_consolidated_metadata sd (GMV2 metadata) = None"

fun set_consolidated_metadata ::
    "'j serde \<Rightarrow> 'j consolidated_metadata option \<Rightarrow> 'j group_metadata \<Rightarrow> 'j group_metadata" where
  "set_consolidated_metadata sd (Some c) (GMV3 metadata) =
     GMV3 (metadata\<lparr>gm3_additional_fields :=
       btree_insert ''consolidated_metadata''
         \<lparr>af_field = ser_consolidated_metadata sd c, af_must_understand = False\<rparr> (gm3_additional_fields metadata)\<rparr>)"
| "set_consolidated_metadata sd None (GMV3 metadata) =
     GMV3 (metadata\<lparr>gm3_additional_fields := btree_remove ''consolidated_metadata'' (gm3_additional_fields metadata)\<rparr>)"
| "set_consolidated_metadata sd _ (GMV2 metadata) = GMV2 metadata"

definition group_to_v3 :: "'j group \<Rightarrow> 'j group" where
  "group_to_v3 g =
     (case gr_metadata g of
        GMV2 metadata \<Rightarrow> g\<lparr>gr_metadata := GMV3 (group_metadata_v2_to_v3 metadata)\<rparr>
      | GMV3 _ \<Rightarrow> g)"

fun validate_additional_fields :: "'j additional_fields \<Rightarrow> 'j group_create_error + unit" where
  "validate_additional_fields [] = Inr ()"
| "validate_additional_fields ((name, field) # additional) =
     (if af_must_understand field then Inl (AdditionalFieldUnsupportedError name (af_field field))
      else validate_additional_fields additional)"

fun group_validate_metadata :: "'j group_metadata \<Rightarrow> 'j group_create_error + unit" where
  "group_validate_metadata (GMV2 _) = Inr ()"
| "group_validate_metadata (GMV3 metadata) = validate_additional_fields (gm3_additional_fields metadata)"

subsection \<open>Opening\<close>

definition group_open_metadata ::
    "'j serde \<Rightarrow> 's getter \<Rightarrow> 's \<Rightarrow> string \<Rightarrow> metadata_retrieve_version \<Rightarrow> 'j group_create_error + 'j group_metadata" where
  "group_open_metadata sd get st path version =
     bind_res (map_err GroupNodePathError (path_new path)) (\<lambda>node_path.
     bind_res (if \<not> retrieves_v3 version then Inr None
               else let key_v3 = meta_key_v3 node_path in
                 bind_res (map_err GroupStorageError (get st key_v3)) (\<lambda>b.
                   case b of
                     None \<Rightarrow> Inr None
                   | Some b \<Rightarrow> map_err group_error_of_node_error
                       (bind_res (parse_metadata (de_group_metadata_v3 sd) key_v3 b) (\<lambda>m. Inr (Some (GMV3 m)))))) (\<lambda>m.
       case m of
         Some metadata \<Rightarrow> Inr metadata
       | None \<Rightarrow>
           if \<not> retrieves_v2 version then Inl GroupMissingMetadata
           else let key_v2 = meta_key_v2_group node_path in
             bind_res (map_err GroupStorageError (get st key_v2)) (\<lambda>b.
               case b of
                 None \<Rightarrow> Inl GroupMissingMetadata
               | Some b \<Rightarrow> map_err group_error_of_node_error
                   (bind_res (parse_metadata (de_group_metadata_v2 sd) key_v2 b) (\<lambda>metadata.
                    bind_res (get_attributes_v2 sd get st node_path (gm2_attributes metadata)) (\<lambda>a.
                      Inr (GMV2 (metadata\<lparr>gm2_attributes := a\<rparr>))))))))"

definition group_open_opt ::
    "'j serde \<Rightarrow> 's getter \<Rightarrow> 's \<Rightarrow> string \<Rightarrow> group_open_options \<Rightarrow> 'j group_create_error + 'j group" where
  "group_open_opt sd get st path opts =
     bind_res (group_open_metadata sd get st path (goo_version opts)) (\<lambda>metadata.
     bind_res (group_validate_metadata metadata) (\<lambda>_. group_new_with_metadata_opt path metadata opts))"

subsection \<open>Children\<close>

definition group_children ::
    "nat \<Rightarrow> 'j serde \<Rightarrow> 's getter \<Rightarrow> 's dir_lister \<Rightarrow> 's \<Rightarrow> 'j group \<Rightarrow> bool \<Rightarrow> (node_create_error + 'j node list) option" where
  "group_children fuel sd get list_dir st g recursive =
     (case resolve_consolidated_policy (gr_path g) (group_consolidated_metadata sd (gr_metadata g))
             (gr_use_consolidated_metadata g) of
        Inl e \<Rightarrow> Some (Inl e)
      | Inr (Some consolidated) \<Rightarrow>
          (case expand_consolidated_metadata (gr_path g) consolidated of
             Inl e \<Rightarrow> Some (Inl e)
           | Inr flat \<Rightarrow>
               if recursive then map_option Inr (build_node_tree (gr_path g) flat)
               else Some (Inr (direct_children_from_flat (gr_path g) flat)))
      | Inr None \<Rightarrow> get_child_nodes fuel sd get list_dir st (gr_path g) recursive)"

definition group_traverse ::
    "nat \<Rightarrow> 'j serde \<Rightarrow> 's getter \<Rightarrow> 's dir_lister \<Rightarrow> 's \<Rightarrow> 'j group \<Rightarrow>
     (node_create_error + (node_path \<times> 'j node_metadata) list) option" where
  "group_traverse fuel sd get list_dir st g =
     (case resolve_consolidated_policy (gr_path g) (group_consolidated_metadata sd (gr_metadata g))
             (gr_use_consolidated_metadata g) of
        Inl e \<Rightarrow> Some (Inl e)
      | Inr (Some consolidated) \<Rightarrow> Some (expand_consolidated_metadata (gr_path g) consolidated)
      | Inr None \<Rightarrow> get_all_nodes_of fuel sd get list_dir st (gr_path g) RetrieveDefault)"

text \<open>\<open>opts\<close> are the options of the global configuration, which the groups below are made with.\<close>

definition child_groups ::
    "nat \<Rightarrow> 'j serde \<Rightarrow> 's getter \<Rightarrow> 's dir_lister \<Rightarrow> group_open_options \<Rightarrow> 's \<Rightarrow> 'j group \<Rightarrow>
     ('j group_create_error + 'j group list) option" where
  "child_groups fuel sd get list_dir opts st g =
     map_option (\<lambda>r. bind_res (map_err group_error_of_node_error r) (\<lambda>nodes.
         collect_res (List.map_filter (\<lambda>node.
           case nd_metadata node of
             NMGroup metadata \<Rightarrow> Some (group_new_with_metadata_opt (nd_path node) metadata opts)
           | NMArray _ \<Rightarrow> None) nodes)))
       (group_children fuel sd get list_dir st g False)"

definition child_paths ::
    "nat \<Rightarrow> 'j serde \<Rightarrow> 's getter \<Rightarrow> 's dir_lister \<Rightarrow> 's \<Rightarrow> 'j group \<Rightarrow> (node_create_error + node_path list) option" where
  "child_paths fuel sd get list_dir st g =
     map_option (\<lambda>r. bind_res r (\<lambda>nodes. Inr (map nd_path nodes))) (group_children fuel sd get list_dir st g False)"

definition child_group_paths ::
    "nat \<Rightarrow> 'j serde \<Rightarrow> 's getter \<Rightarrow> 's dir_lister \<Rightarrow> 's \<Rightarrow> 'j group \<Rightarrow> (node_create_error + node_path list) option" where
  "child_group_paths fuel sd get list_dir st g =
     map_option (\<lambda>r. bind_res r (\<lambda>nodes. Inr (map nd_path (filter (\<lambda>n. is_group (nd_metadata n)) nodes))))
       (group_children fuel sd get list_dir st g False)"

definition child_array_paths ::
    "nat \<Rightarrow> 'j serde \<Rightarrow> 's getter \<Rightarrow> 's dir_lister \<Rightarrow> 's \<Rightarrow> 'j group \<Rightarrow> (node_create_error + node_path list) option" where
  "child_array_paths fuel sd get list_dir st g =
     map_option (\<lambda>r. bind_res r (\<lambda>nodes. Inr (map nd_path (filter (\<lambda>n. \<not> is_group (nd_metadata n)) nodes))))
       (group_children fuel sd get list_dir st g False)"

subsection \<open>Storing and erasing metadata\<close>

definition print_document :: "('a \<Rightarrow> string + bytes) \<Rightarrow> store_key \<Rightarrow> 'a \<Rightarrow> storage_error + bytes" where
  "print_document print key x = map_err (InvalidMetadata key) (print x)"

definition group_store_metadata_opt ::
    "'j serde \<Rightarrow> 's setter \<Rightarrow> 'j group \<Rightarrow> metadata_convert_version \<Rightarrow> 's \<Rightarrow> storage_error + 's" where
  "group_store_metadata_opt sd set_op g convert st =
     (let path = gr_path g in
      case group_metadata_opt (gr_metadata g) convert of
        GMV3 metadata \<Rightarrow>
          (let key = meta_key_v3 path in
           bind_res (print_document (ser_group_metadata_v3 sd) key metadata) (\<lambda>json. set_op st key json))
      | GMV2 metadata \<Rightarrow>
          bind_res (if gm2_attributes metadata = [] then Inr (metadata, st)
                    else let key = meta_key_v2_attributes path in
                      bind_res (print_document (ser_attributes sd) key (gm2_attributes metadata)) (\<lambda>json.
                      bind_res (set_op st key json) (\<lambda>st. Inr (metadata\<lparr>gm2_attributes := []\<rparr>, st)))) (\<lambda>(metadata, st).
            let key = meta_key_v2_group path in
            bind_res (print_document (ser_group_metadata_v2 sd) key metadata) (\<lambda>json. set_op st key json)))"

definition group_store_metadata :: "'j serde \<Rightarrow> 's setter \<Rightarrow> 'j group \<Rightarrow> 's \<Rightarrow> storage_error + 's" where
  "group_store_metadata sd set_op g st = group_store_metadata_opt sd set_op g (gr_metadata_options g) st"

fun erased_keys :: "metadata_erase_version \<Rightarrow> 'j group_metadata \<Rightarrow> node_path \<Rightarrow> store_key list" where
  "erased_keys EraseDefault (GMV3 _) path = [meta_key_v3 path]"
| "erased_keys EraseDefault (GMV2 _) path = [meta_key_v2_group path, meta_key_v2_attributes path]"
| "erased_keys EraseAll _ path = [meta_key_v3 path, meta_key_v2_group path, meta_key_v2_attributes path]"
| "erased_keys EraseV3 _ path = [meta_key_v3 path]"
| "erased_keys EraseV2 _ path = [meta_key_v2_group path, meta_key_v2_attributes path]"

definition group_erase_metadata_opt :: "'s eraser \<Rightarrow> 'j group \<Rightarrow> metadata_erase_version \<Rightarrow> 's \<Rightarrow> storage_error + 's" where
  "group_erase_metadata_opt erase g version st =
     default_erase_many erase st (erased_keys version (gr_metadata g) (gr_path g))"

definition group_erase_metadata :: "'s eraser \<Rightarrow> 'j group \<Rightarrow> 's \<Rightarrow> storage_error + 's" where
  "group_erase_metadata erase g st = group_erase_metadata_opt erase g (gr_metadata_erase_version g) st"

end
