(* ===== verification/Node_Properties.thy ===== *)
theory Node_Properties
  imports Node_Consolidated Node_Groups
begin

text \<open>
  The properties of nodes, hierarchies and groups on the memory store: listing ends and finds exactly the nodes that are reached
  through groups, consolidated metadata gives the same nodes, and the metadata of a group is read back as it was stored.
\<close>

interpretation memory_listing: listable_store
  "\<lambda>m. memory_inv m \<and> memory_keys_valid m" map_of memory_get memory_list_dir
proof (unfold_locales, goal_cases)
  case (1 m k)
  then obtain b where "(k, b) \<in> set m" by (auto dest: map_of_SomeD)
  then show ?case using 1(1) by (auto simp: memory_keys_valid_def list_all_iff)
next
  case (3 m p)
  have dom: "k \<in> fst ` set m \<longleftrightarrow> map_of m k \<noteq> None" for k by (simp add: map_of_eq_None_iff)
  from 3 obtain kp where kp: "memory_list_dir m p = Inr kp" "sorted_wrt (<) (skp_prefixes kp)"
    "set (skp_prefixes kp) = {p @ c @ [slash] | c r. slash \<notin> set c \<and> p @ c @ slash # r \<in> fst ` set m}"
    using memory_list_dir_ok[of m p] by auto
  show ?case
    using kp(1,2) kp(3)[unfolded dom] by (intro exI[of _ kp]) (simp add: strict_sorted_iff)
qed (simp add: memory_get_def)

text \<open>The levels of the store bound the recursion.\<close>

lemma memory_shallow:
  assumes "\<forall>k\<in>fst ` set m. count_list k slash < fuel"
  shows "memory_listing.shallow m cs (fuel - 1)"
  unfolding memory_listing.shallow_def
proof (intro allI impI)
  fix r assume "map_of m (prefix_of_names cs @ r) \<noteq> None"
  then have "prefix_of_names cs @ r \<in> fst ` set m" by (simp add: map_of_eq_None_iff)
  then have "count_list (prefix_of_names cs @ r) slash < fuel" using assms by blast
  then show "count_list r slash \<le> fuel - 1" by simp
qed

lemma collect_loop_returns:
  assumes "\<And>p bp. length bp \<le> n \<Longrightarrow> \<exists>ns bp'. rec p bp = Some (ns, bp') \<and> length bp' \<le> length bp"
  shows "length bp \<le> n \<Longrightarrow> \<exists>ns bp'. collect_loop rec es bp = Some (ns, bp') \<and> length bp' \<le> length bp"
proof (induction es arbitrary: bp)
  case (Cons e es)
  obtain k md where e: "e = (k, md)" by (cases e)
  obtain cs bp1 where 1: "(if is_group md then rec (key_path k) bp else Some ([], bp)) = Some (cs, bp1)" "length bp1 \<le> length bp"
    using assms[of bp "key_path k"] Cons.prems by (cases "is_group md") auto
  obtain ns bp2 where 2: "collect_loop rec es bp1 = Some (ns, bp2)" "length bp2 \<le> length bp1"
    using Cons.IH[of bp1] 1(2) Cons.prems by auto
  have "collect_loop rec (e # es) bp = Some (Node (key_path k) md cs # ns, bp2)"
    unfolding e collect_loop.simps 1(1) using 2(1) by simp
  then show ?case using 1(2) 2(2) by auto
qed simp

lemma collect_returns:
  "length bp < n \<Longrightarrow> \<exists>ns bp'. collect_children_from_map n p bp = Some (ns, bp') \<and> length bp' \<le> length bp"
proof (induction n arbitrary: p bp)
  case (Suc n)
  show ?case
  proof (cases "map_of bp (NodeKey p)")
    case (Some es)
    let ?bp = "btree_remove (NodeKey p) bp"
    have less: "length ?bp < length bp" using length_btree_remove_less[of bp "NodeKey p"] Some by simp
    have "\<exists>ns bp'. collect_loop (collect_children_from_map n) es ?bp = Some (ns, bp') \<and> length bp' \<le> length ?bp"
      by (rule collect_loop_returns[where n = "length ?bp"]) (use Suc.IH less Suc.prems in auto)
    then show ?thesis using Some less by auto
  qed simp
qed simp

lemma build_node_tree_returns: "\<exists>ns. build_node_tree p flat = Some ns"
  using collect_returns[of "foldl parent_insert [] flat" "Suc (length (foldl parent_insert [] flat))" p]
  by (auto simp: build_node_tree_def Let_def)

text \<open>
  Property C20.  Finding nodes ends on every store in memory, whatever its documents say: with fuel above the number of slashes of its
  keys, listing children, listing all nodes, opening a node and opening a hierarchy all return, with any version and policy
  (so that also the recursion over consolidated metadata, whatever its entries are, ends); and more fuel does not change what is listed.
\<close>

theorem finding_nodes_ends:
  assumes "memory_inv m" and "memory_keys_valid m" and "validate_path p"
    and "\<forall>k\<in>fst ` set m. count_list k slash < fuel" and "0 < fuel"
  shows "\<exists>children nodes. get_child_nodes_opt fuel sd memory_get memory_list_dir m p recursive version = Some children \<and>
     get_all_nodes_of fuel sd memory_get memory_list_dir m p version = Some nodes \<and>
     (\<forall>more. get_child_nodes_opt (fuel + more) sd memory_get memory_list_dir m p recursive version = Some children \<and>
       get_all_nodes_of (fuel + more) sd memory_get memory_list_dir m p version = Some nodes) \<and>
     (\<exists>n. node_open_opt fuel sd memory_get memory_list_dir m p version policy = Some n) \<and>
     (\<exists>h. hierarchy_open_opt fuel sd memory_get memory_list_dir m p version policy = Some h)"
proof -
  obtain cs where cs: "names_ok cs" "p = path_of_names cs" using assms(3) validate_path_names by blast
  have ok: "memory_inv m \<and> memory_keys_valid m" using assms(1,2) by simp
  have fuel: "Suc (fuel - 1) = fuel" using assms(5) by simp
  note ret = memory_listing.listing_returns[OF ok cs(1) memory_shallow[OF assms(4)], unfolded fuel, folded cs(2)]
    memory_listing.all_nodes_returns[OF ok cs(1) memory_shallow[OF assms(4)], unfolded fuel, folded cs(2)]
  obtain children nodes where r: "get_child_nodes_opt fuel sd memory_get memory_list_dir m p recursive version = Some children"
    "get_all_nodes_of fuel sd memory_get memory_list_dir m p version = Some nodes" using ret by metis
  obtain t where t: "get_child_nodes_opt fuel sd memory_get memory_list_dir m p True version = Some t" using ret(1) by blast
  have new: "path_new p = Inr p" using assms(3) by (simp add: path_new_def)
  have "build_node_tree q flat \<noteq> None" for q and flat :: "(node_path \<times> 'a node_metadata) list"
    using build_node_tree_returns[of q flat] by auto
  then have "node_open_opt fuel sd memory_get memory_list_dir m p version policy \<noteq> None"
    by (auto simp: node_open_opt_def new t split: sum.split option.split)
  then have "\<exists>n. node_open_opt fuel sd memory_get memory_list_dir m p version policy = Some n" by blast
  moreover have "\<exists>h. hierarchy_open_opt fuel sd memory_get memory_list_dir m p version policy = Some h"
    using r(2) by (auto simp: hierarchy_open_opt_def new split: sum.split option.split)
  ultimately show ?thesis
    using r listing_mono[OF r(1)] all_nodes_mono[OF r(2)] by (intro exI[of _ children] exI[of _ nodes]) simp
qed

text \<open>Documents for the witnesses: \<open>[1]\<close> is a group, \<open>[2]\<close> an array, \<open>[5]\<close> the group with consolidated metadata, and \<open>1\<close> the consolidated metadata of a group with an array \<open>a\<close>.\<close>

definition example_group :: "nat group_metadata_v3" where
  "example_group = \<lparr>gm3_attributes = [], gm3_additional_fields = []\<rparr>"

definition example_consolidated :: "nat group_metadata_v3" where
  "example_consolidated = \<lparr>gm3_attributes = [],
     gm3_additional_fields = [(''consolidated_metadata'', \<lparr>af_field = 1, af_must_understand = False\<rparr>)]\<rparr>"

definition example_array :: "nat array_metadata_v3" where
  "example_array = \<lparr>am3_shape = [2], am3_data_type = 0, am3_chunk_grid = 0, am3_chunk_key_encoding = 0, am3_fill_value = 0,
     am3_codecs = [], am3_attributes = [], am3_storage_transformers = [], am3_dimension_names = None,
     am3_additional_fields = []\<rparr>"

definition example_serde :: "nat serde" where
  "example_serde = \<lparr>
     de_node_metadata = (\<lambda>b. if b = [1] then Inr (NMGroup (GMV3 example_group))
       else if b = [2] then Inr (NMArray (AMV3 example_array))
       else if b = [5] then Inr (NMGroup (GMV3 example_consolidated)) else Inl ''unknown''),
     de_array_metadata_v2 = (\<lambda>b. Inl ''unknown''),
     de_group_metadata_v3 = (\<lambda>b. if b = [1] then Inr example_group else Inl ''unknown''),
     de_group_metadata_v2 = (\<lambda>b. if b = [3] then Inr \<lparr>gm2_attributes = []\<rparr> else Inl ''unknown''),
     de_attributes = (\<lambda>b. if b = [4] then Inr [(''x'', 0)] else Inl ''unknown''),
     de_consolidated_metadata = (\<lambda>j. if j = 1 then Inr [(''a'', NMArray (AMV3 example_array))] else Inl ''unknown''),
     ser_group_metadata_v3 = (\<lambda>m. Inr [1]),
     ser_group_metadata_v2 = (\<lambda>m. Inr [3]),
     ser_attributes = (\<lambda>a. Inr [4]),
     ser_consolidated_metadata = (\<lambda>c. 1)\<rparr>"

definition example_store :: memory_store where
  "example_store = [(''g/a/zarr.json'', [2]), (''g/zarr.json'', [1])]"

lemma example_store_valid:
  "memory_inv example_store" "memory_keys_valid example_store" "validate_path ''/g''"
  by (simp_all add: example_store_def memory_inv_def memory_keys_valid_def M64_def validate_key_def ends_with_def
      validate_path_def validate_component_def validate_name_def)

theorem finding_nodes_ends_witness:
  "\<exists>children. get_child_nodes_opt 3 example_serde memory_get memory_list_dir example_store ''/g'' True RetrieveDefault = Some children \<and>
     (\<forall>more. get_child_nodes_opt (3 + more) example_serde memory_get memory_list_dir example_store ''/g'' True RetrieveDefault =
       Some children)"
proof -
  have "\<forall>k\<in>fst ` set example_store. count_list k slash < 3" by (simp add: example_store_def)
  from finding_nodes_ends[OF example_store_valid this, of example_serde True RetrieveDefault ConsolidatedAuto]
  show ?thesis by auto
qed

subsection \<open>What is found\<close>

lemma sorted_hierarchy_extend:
  "sorted_wrt (<) (map fst h) \<Longrightarrow> sorted_wrt (<) (map fst (hierarchy_extend h nodes))"
  unfolding hierarchy_extend_def by (induction nodes arbitrary: h) (auto simp: sorted_btree_insert)

lemma map_of_hierarchy_extend:
  assumes "distinct (map fst nodes)"
  shows "map_of (hierarchy_extend h nodes) (NodeKey q) = Some md \<longleftrightarrow>
     (q, md) \<in> set nodes \<or> q \<notin> fst ` set nodes \<and> map_of h (NodeKey q) = Some md"
  using assms unfolding hierarchy_extend_def
proof (induction nodes rule: rev_induct)
  case (snoc e nodes)
  obtain p m where e: "e = (p, m)" by (cases e)
  have "p \<notin> fst ` set nodes" using snoc.prems e by simp
  then show ?case using snoc e by (cases "p = q") force+
qed simp

lemma node_below_other: "node_below meta p q md \<Longrightarrow> validate_path p \<Longrightarrow> q \<noteq> p"
  using node_below_names validate_path_names path_of_names_inj by (metis append_self_conv list.distinct(1) list_all_append)

text \<open>
  Property C21.  What listing finds: the flat list of all nodes below a group has no duplicates and holds exactly the nodes that
  are reached from the group through groups, each with the metadata that the store has for it; the tree of nodes has the same nodes;
  and the hierarchy that is opened without consolidated metadata maps exactly these paths, and the path of the group, to
  their metadata, in the order of paths.
\<close>

theorem listing_finds_reachable:
  assumes "memory_inv m" and "memory_keys_valid m" and "validate_path p"
    and "get_metadata sd memory_get m p version = Inr (NMGroup gm)"
    and "get_all_nodes_of fuel sd memory_get memory_list_dir m p version = Some (Inr nodes)"
  shows "distinct (map fst nodes) \<and>
     (\<forall>q md. (q, md) \<in> set nodes \<longleftrightarrow> node_below (\<lambda>p. get_metadata sd memory_get m p version) p q md) \<and>
     (\<exists>ns. node_open_opt fuel sd memory_get memory_list_dir m p version ConsolidatedNever = Some (Inr (Node p (NMGroup gm) ns)) \<and>
       nodes = postorder ns) \<and>
     (\<exists>h. hierarchy_open_opt fuel sd memory_get memory_list_dir m p version ConsolidatedNever = Some (Inr h) \<and>
       sorted_wrt (<) (map fst h) \<and>
       (\<forall>q md. map_of h (NodeKey q) = Some md \<longleftrightarrow>
         q = p \<and> md = NMGroup gm \<or> node_below (\<lambda>p. get_metadata sd memory_get m p version) p q md))"
proof -
  have ok: "memory_inv m \<and> memory_keys_valid m" using assms(1,2) by simp
  have new: "path_new p = Inr p" using assms(3) by (simp add: path_new_def)
  obtain cs where cs: "names_ok cs" "p = path_of_names cs" using assms(3) validate_path_names by blast
  obtain ns where ns: "get_child_nodes_opt fuel sd memory_get memory_list_dir m p True version = Some (Inr ns)" "nodes = postorder ns"
    using iffD1[OF tree_and_flat_agree assms(5)] by blast
  have forest: "forest_ok cs ns" using memory_listing.listed_forest[OF ok cs(1)] ns(1) cs(2) by simp
  have below: "(q, md) \<in> set nodes \<longleftrightarrow> node_below (\<lambda>p. get_metadata sd memory_get m p version) p q md" for q md
    using memory_listing.found_iff_below[OF ok cs(1)] ns cs(2) by simp
  have distinct: "distinct (map fst nodes)" unfolding ns(2) by (rule distinct_postorder[OF forest])
  define h where "h = hierarchy_extend (btree_insert (NodeKey p) (NMGroup gm) []) nodes"
  have never: "consolidated_metadata_for_open sd p md ConsolidatedNever = Inr None" for md
    by (simp add: consolidated_metadata_for_open_def resolve_consolidated_policy_def)
  have "hierarchy_open_opt fuel sd memory_get memory_list_dir m p version ConsolidatedNever = Some (Inr h)"
    by (simp add: hierarchy_open_opt_def new assms(4,5) never h_def)
  moreover have "sorted_wrt (<) (map fst h)" unfolding h_def by (rule sorted_hierarchy_extend) simp
  moreover have "p \<notin> fst ` set nodes" using node_below_other[OF _ assms(3)] below by force
  then have "map_of h (NodeKey q) = Some md \<longleftrightarrow>
      q = p \<and> md = NMGroup gm \<or> node_below (\<lambda>p. get_metadata sd memory_get m p version) p q md" for q md
    unfolding h_def map_of_hierarchy_extend[OF distinct] below by auto
  moreover have "node_open_opt fuel sd memory_get memory_list_dir m p version ConsolidatedNever = Some (Inr (Node p (NMGroup gm) ns))"
    by (simp add: node_open_opt_def new assms(4) never ns(1))
  ultimately show ?thesis using distinct below ns(2) by blast
qed

lemma example_listing:
  "get_metadata example_serde memory_get example_store ''/g'' RetrieveDefault = Inr (NMGroup (GMV3 example_group))"
  "get_all_nodes_of 3 example_serde memory_get memory_list_dir example_store ''/g'' RetrieveDefault =
     Some (Inr [(''/g/a'', NMArray (AMV3 example_array))])"
proof -
  note path_defs = path_to_prefix_def path_of_prefix_def path_new_def validate_path_def validate_component_def validate_name_def
    strip_prefix_def strip_suffix_def starts_with_def ends_with_def prefix_new_def validate_prefix_def meta_key_any_def meta_key_v3_def
    meta_key_v2_array_def meta_key_v2_group_def
  have meta: "get_metadata example_serde memory_get example_store ''/g'' RetrieveDefault = Inr (NMGroup (GMV3 example_group))"
    "get_metadata example_serde memory_get example_store ''/g/a'' RetrieveDefault = Inr (NMArray (AMV3 example_array))"
    by (simp_all add: get_metadata_def get_metadata_v3_def storage_get_def parse_metadata_def memory_get_def example_store_def
        example_serde_def retrieves_v3_def path_defs)
  show "get_metadata example_serde memory_get example_store ''/g'' RetrieveDefault = Inr (NMGroup (GMV3 example_group))" by (rule meta(1))
  have children: "discover_children memory_list_dir example_store ''g/'' = Inr [''g/a/'']"
    by (simp add: discover_children_def memory_list_dir_def list_dir_step_def has_prefix_def example_store_def key_parent_def path_defs)
  show "get_all_nodes_of 3 example_serde memory_get memory_list_dir example_store ''/g'' RetrieveDefault =
      Some (Inr [(''/g/a'', NMArray (AMV3 example_array))])"
    by (simp add: eval_nat_numeral children meta path_defs)
qed

theorem listing_finds_reachable_witness:
  "node_below (\<lambda>p. get_metadata example_serde memory_get example_store p RetrieveDefault) ''/g'' ''/g/a'' (NMArray (AMV3 example_array))"
  by (rule iffD1[OF spec[OF spec[OF conjunct1[OF conjunct2[OF listing_finds_reachable[OF example_store_valid example_listing]]]]]])
    simp

subsection \<open>Consolidated metadata\<close>

text \<open>
  Property C22.  Consolidated metadata is faithful: consolidating the tree that listing a group finds never panics; and on any
  store that has the group's document with this consolidated metadata, read back in any order of its hash map, whatever else the
  store has, opening the node by consolidated metadata gives the tree that was listed, with the children of every node in the order of their paths, and opening the
  hierarchy gives the map that listing gave, except for the document of the group itself.
\<close>

theorem consolidated_open_agrees:
  assumes "memory_inv m" and "memory_keys_valid m" and "validate_path p"
    and "get_metadata sd memory_get m p version = Inr (NMGroup (GMV3 gm))"
    and "node_open_opt fuel sd memory_get memory_list_dir m p version ConsolidatedNever = Some (Inr n)"
    and "hierarchy_open_opt fuel sd memory_get memory_list_dir m p version ConsolidatedNever = Some (Inr h)"
  shows "\<exists>c. consolidate_metadata n = Some (Some c) \<and>
     (\<forall>c' get' list_dir' st' fuel' policy.
       de_consolidated_metadata sd (ser_consolidated_metadata sd c) = Inr c' \<and> distinct (map fst c') \<and> set c' = set c \<and>
       get_metadata sd get' st' p version = Inr (NMGroup (set_consolidated_metadata sd (Some c) (GMV3 gm))) \<and>
       policy \<noteq> ConsolidatedNever \<longrightarrow>
       node_open_opt fuel' sd get' list_dir' st' p version policy =
         Some (Inr (Node p (NMGroup (set_consolidated_metadata sd (Some c) (GMV3 gm))) (sort_forest (nd_children n)))) \<and>
       (\<exists>h'. hierarchy_open_opt fuel' sd get' list_dir' st' p version policy = Some (Inr h') \<and>
         (\<forall>q. q \<noteq> p \<longrightarrow> map_of h' (NodeKey q) = map_of h (NodeKey q))))"
proof -
  have ok: "memory_inv m \<and> memory_keys_valid m" using assms(1,2) by simp
  have new: "path_new p = Inr p" using assms(3) by (simp add: path_new_def)
  obtain cs where cs: "names_ok cs" "p = path_of_names cs" using assms(3) validate_path_names by blast
  have never: "consolidated_metadata_for_open sd p md ConsolidatedNever = Inr None" for md
    by (simp add: consolidated_metadata_for_open_def resolve_consolidated_policy_def)
  obtain ns where ns: "get_child_nodes_opt fuel sd memory_get memory_list_dir m p True version = Some (Inr ns)"
    "n = Node p (NMGroup (GMV3 gm)) ns"
    using assms(5) by (auto simp: node_open_opt_def new assms(4) never bind_res_Inr)
  have forest: "forest_ok cs ns" using memory_listing.listed_forest[OF ok cs(1)] ns(1) cs(2) by simp
  have flat: "get_all_nodes_of fuel sd memory_get memory_list_dir m p version = Some (Inr (postorder ns))"
    by (rule iffD2[OF tree_and_flat_agree]) (rule exI[of _ ns], simp only: ns(1))
  have h: "h = hierarchy_extend (btree_insert (NodeKey p) (NMGroup (GMV3 gm)) []) (postorder ns)"
    using assms(6) by (simp add: hierarchy_open_opt_def new assms(4) never flat)
  have group: "is_group (NMGroup (GMV3 gm))" by simp
  obtain c where all: "consolidate_metadata n = Some (Some c) \<and> distinct (map fst c) \<and>
      (\<forall>c'. distinct (map fst c') \<and> set c' = set c \<longrightarrow>
        (\<exists>flat. expand_consolidated_metadata p c' = Inr flat \<and> distinct (map fst flat) \<and>
          set flat = set (postorder ns) \<and> build_node_tree p flat = Some (sort_forest ns)))"
    using consolidate_expand[OF forest group, folded cs(2), folded ns(2)] by (rule exE)
  note c = conjunct1[OF all] and expand = conjunct2[OF conjunct2[OF all], rule_format, OF conjI]
  show ?thesis
  proof (intro exI[of _ c] conjI allI impI; (elim conjE)?)
    show "consolidate_metadata n = Some (Some c)" by (rule c)
  next
    fix c' :: "(string \<times> 'a node_metadata) list" and get' :: "'b getter" and list_dir' :: "'b dir_lister"
      and st' :: 'b and fuel' :: nat and policy
    let ?gm = "NMGroup (set_consolidated_metadata sd (Some c) (GMV3 gm))"
    assume c': "de_consolidated_metadata sd (ser_consolidated_metadata sd c) = Inr c'" "distinct (map fst c')" "set c' = set c"
      and meta: "get_metadata sd get' st' p version = Inr ?gm" and policy: "policy \<noteq> ConsolidatedNever"
    have found: "consolidated_metadata_for_open sd p ?gm policy = Inr (Some c')"
      using c'(1) policy by (simp add: consolidated_metadata_for_open_def resolve_consolidated_policy_def consolidated_field_def)
    obtain fl where fl: "expand_consolidated_metadata p c' = Inr fl" "distinct (map fst fl)"
      "set fl = set (postorder ns)" "build_node_tree p fl = Some (sort_forest ns)" using expand[OF c'(2,3)] by blast
    have group: "is_group ?gm" by simp
    show "node_open_opt fuel' sd get' list_dir' st' p version policy =
        Some (Inr (Node p ?gm (sort_forest (nd_children n))))"
      unfolding node_open_opt_def new sum.case meta found using group fl(1,4) ns(2) by simp
    have "hierarchy_open_opt fuel' sd get' list_dir' st' p version policy =
        Some (Inr (hierarchy_extend (btree_insert (NodeKey p) ?gm []) fl))"
      unfolding hierarchy_open_opt_def new sum.case meta found using group fl(1) by simp
    moreover have "map_of (hierarchy_extend (btree_insert (NodeKey p) ?gm []) fl) (NodeKey q) = map_of h (NodeKey q)"
      if "q \<noteq> p" for q
    proof -
      have "map_of (hierarchy_extend (btree_insert (NodeKey p) ?gm []) fl) (NodeKey q) = Some md \<longleftrightarrow>
          map_of h (NodeKey q) = Some md" for md
        unfolding h map_of_hierarchy_extend[OF fl(2)] map_of_hierarchy_extend[OF distinct_postorder[OF forest]] fl(3)
        using that by simp
      then show ?thesis by (metis option.exhaust)
    qed
    ultimately show "\<exists>h'. hierarchy_open_opt fuel' sd get' list_dir' st' p version policy = Some (Inr h') \<and>
        (\<forall>q. q \<noteq> p \<longrightarrow> map_of h' (NodeKey q) = map_of h (NodeKey q))" by blast
  qed
qed

lemma example_open:
  "node_open_opt 3 example_serde memory_get memory_list_dir example_store ''/g'' RetrieveDefault ConsolidatedNever =
     Some (Inr (Node ''/g'' (NMGroup (GMV3 example_group)) [Node ''/g/a'' (NMArray (AMV3 example_array)) []]))"
  "\<exists>h. hierarchy_open_opt 3 example_serde memory_get memory_list_dir example_store ''/g'' RetrieveDefault ConsolidatedNever =
     Some (Inr h)"
proof -
  obtain ns where ns: "get_child_nodes_opt 3 example_serde memory_get memory_list_dir example_store ''/g'' True RetrieveDefault =
      Some (Inr ns)" "[(''/g/a'', NMArray (AMV3 example_array))] = postorder ns"
    using iffD1[OF tree_and_flat_agree example_listing(2)] by blast
  have n: "ns = [Node ''/g/a'' (NMArray (AMV3 example_array)) []]"
  proof (cases ns rule: postorder.cases)
    case (2 p md ks ms)
    have "forest_ok [''g''] ns"
      by (rule memory_listing.listed_forest[OF conjI[OF example_store_valid(1,2)]])
        (use ns(1) in \<open>simp_all add: validate_component_def validate_name_def path_of_names_def\<close>)
    then have "is_group md \<or> ks = []" using 2 by (auto simp: forest_ok_def)
    then show ?thesis using ns(2) 2 by (cases ks rule: postorder.cases; cases ms rule: postorder.cases) auto
  qed (use ns(2) in simp)
  have never: "consolidated_metadata_for_open example_serde p md ConsolidatedNever = Inr None" for p md
    by (simp add: consolidated_metadata_for_open_def resolve_consolidated_policy_def)
  have new: "path_new ''/g'' = Inr ''/g''" using example_store_valid(3) by (simp add: path_new_def)
  show "node_open_opt 3 example_serde memory_get memory_list_dir example_store ''/g'' RetrieveDefault ConsolidatedNever =
     Some (Inr (Node ''/g'' (NMGroup (GMV3 example_group)) [Node ''/g/a'' (NMArray (AMV3 example_array)) []]))"
    by (simp add: node_open_opt_def new example_listing(1) never ns(1) n)
  show "\<exists>h. hierarchy_open_opt 3 example_serde memory_get memory_list_dir example_store ''/g'' RetrieveDefault ConsolidatedNever =
     Some (Inr h)"
    by (simp add: hierarchy_open_opt_def new example_listing never)
qed

theorem consolidated_open_agrees_witness:
  "node_open_opt 0 example_serde memory_get memory_list_dir [(''g/zarr.json'', [5])] ''/g'' RetrieveDefault ConsolidatedMust =
     Some (Inr (Node ''/g'' (NMGroup (GMV3 example_consolidated)) [Node ''/g/a'' (NMArray (AMV3 example_array)) []]))"
proof -
  let ?n = "Node ''/g'' (NMGroup (GMV3 example_group)) [Node ''/g/a'' (NMArray (AMV3 example_array)) []]"
  let ?c = "[(''a'', NMArray (AMV3 example_array))]"
  obtain h where h: "hierarchy_open_opt 3 example_serde memory_get memory_list_dir example_store ''/g'' RetrieveDefault
      ConsolidatedNever = Some (Inr h)" using example_open(2) by blast
  have c: "consolidate_metadata ?n = Some (Some ?c)"
    by (simp add: consolidate_metadata_def strip_prefix_def starts_with_def hash_insert_def)
  have set: "set_consolidated_metadata example_serde (Some ?c) (GMV3 example_group) = GMV3 example_consolidated"
    by (simp add: example_group_def example_consolidated_def example_serde_def)
  have meta: "get_metadata example_serde memory_get [(''g/zarr.json'', [5])] ''/g'' RetrieveDefault =
      Inr (NMGroup (GMV3 example_consolidated))"
    by (simp add: get_metadata_def get_metadata_v3_def storage_get_def parse_metadata_def memory_get_def
        example_serde_def retrieves_v3_def meta_key_v3_def meta_key_any_def strip_prefix_def starts_with_def)
  have de: "de_consolidated_metadata example_serde (ser_consolidated_metadata example_serde ?c) = Inr ?c"
    by (simp add: example_serde_def)
  from consolidated_open_agrees[OF example_store_valid example_listing(1) example_open(1) h] obtain c where
    "consolidate_metadata ?n = Some (Some c)" and
    all: "\<forall>c' get' list_dir' (st' :: memory_store) fuel' policy.
       de_consolidated_metadata example_serde (ser_consolidated_metadata example_serde c) = Inr c' \<and> distinct (map fst c') \<and> set c' = set c \<and>
       get_metadata example_serde get' st' ''/g'' RetrieveDefault = Inr (NMGroup (set_consolidated_metadata example_serde (Some c) (GMV3 example_group))) \<and>
       policy \<noteq> ConsolidatedNever \<longrightarrow>
       node_open_opt fuel' example_serde get' list_dir' st' ''/g'' RetrieveDefault policy =
         Some (Inr (Node ''/g'' (NMGroup (set_consolidated_metadata example_serde (Some c) (GMV3 example_group))) (sort_forest (nd_children ?n)))) \<and>
       (\<exists>h'. hierarchy_open_opt fuel' example_serde get' list_dir' st' ''/g'' RetrieveDefault policy = Some (Inr h') \<and>
         (\<forall>q. q \<noteq> ''/g'' \<longrightarrow> map_of h' (NodeKey q) = map_of h (NodeKey q)))" by (elim exE conjE)
  then have "c = ?c" using c by simp
  from all[unfolded this, rule_format, of ?c memory_get "[(''g/zarr.json'', [5])]" ConsolidatedMust 0 memory_list_dir]
  show ?thesis using de meta set by (simp add: sort_forest_def)
qed

subsection \<open>Groups\<close>

text \<open>A document that is read back as it was printed.\<close>

definition doc_roundtrip :: "('a \<Rightarrow> string + bytes) \<Rightarrow> (bytes \<Rightarrow> string + 'a) \<Rightarrow> 'a \<Rightarrow> bool" where
  "doc_roundtrip print parse x \<longleftrightarrow> (\<exists>b. print x = Inr b \<and> parse b = Inr x \<and> length b < M64)"

text \<open>What storing a group needs: its documents are read back, and no other document of the node hides them.\<close>

definition group_storable :: "'j serde \<Rightarrow> memory_store \<Rightarrow> node_path \<Rightarrow> 'j group_metadata \<Rightarrow> bool" where
  "group_storable sd m p stored \<longleftrightarrow>
     (case stored of
        GMV3 g \<Rightarrow> doc_roundtrip (ser_group_metadata_v3 sd) (de_group_metadata_v3 sd) g
      | GMV2 g \<Rightarrow> doc_roundtrip (ser_group_metadata_v2 sd) (de_group_metadata_v2 sd) (g\<lparr>gm2_attributes := []\<rparr>) \<and>
          map_of m (meta_key_v3 p) = None \<and>
          (if gm2_attributes g = [] then map_of m (meta_key_v2_attributes p) = None
           else doc_roundtrip (ser_attributes sd) (de_attributes sd) (gm2_attributes g)))"

lemmas meta_keys_distinct = meta_key_v3_def meta_key_v2_group_def meta_key_v2_attributes_def meta_key_any_def

lemma group_keys_differ:
  "meta_key_v3 p \<noteq> meta_key_v2_group p" "meta_key_v3 p \<noteq> meta_key_v2_attributes p"
  "meta_key_v2_group p \<noteq> meta_key_v2_attributes p"
  by (simp_all add: meta_keys_distinct)


definition example_v2_group :: "nat group" where
  "example_v2_group = \<lparr>gr_path = ''/g'', gr_metadata = GMV2 \<lparr>gm2_attributes = [(''x'', 0)]\<rparr>, gr_metadata_options = ConvertDefault,
     gr_metadata_erase_version = EraseDefault, gr_use_consolidated_metadata = ConsolidatedAuto\<rparr>"


subsection \<open>What the code does not do\<close>

text \<open>
  A V2 group whose attributes are cleared and that is stored again does not lose them: the document of the old attributes stays in
  the store, and opening the group reads it.
\<close>

lemma cleared_attributes_come_back:
  assumes "group_store_metadata_opt example_serde memory_set example_v2_group ConvertDefault [] = Inr m"
  shows "\<exists>m'. group_store_metadata_opt example_serde memory_set
      (example_v2_group\<lparr>gr_metadata := GMV2 \<lparr>gm2_attributes = []\<rparr>\<rparr>) ConvertDefault m = Inr m' \<and>
     group_open_metadata example_serde memory_get m' ''/g'' RetrieveDefault = Inr (GMV2 \<lparr>gm2_attributes = [(''x'', 0)]\<rparr>)"
proof -
  have new: "path_new ''/g'' = Inr ''/g''" using example_store_valid(3) by (simp add: path_new_def)
  note keys = group_keys_differ[of "''/g''"] group_keys_differ[of "''/g''", symmetric]
  have len: "length [3::u8] < M64" "length [4::u8] < M64" by (simp_all add: M64_def)
  have m: "m = btree_insert (meta_key_v2_group ''/g'') [3] (btree_insert (meta_key_v2_attributes ''/g'') [4] [])"
    using assms by (simp add: group_store_metadata_opt_def example_v2_group_def example_serde_def print_document_def
        memory_set_eq[OF len(1)] memory_set_eq[OF len(2)] Let_def)
  show ?thesis
    by (simp add: group_store_metadata_opt_def example_v2_group_def example_serde_def print_document_def memory_set_eq[OF len(1)]
        Let_def group_open_metadata_def new retrieves_v3_def retrieves_v2_def memory_get_def parse_metadata_def get_attributes_v2_def
        storage_get_def m keys)
qed

text \<open>A child whose name is reserved makes listing a group fail, while at the root it is hidden.\<close>

lemma reserved_child_fails:
  "get_child_nodes 2 example_serde memory_get memory_list_dir [(''g/__c/x'', [])] ''/g'' True =
     Some (Inl (NodeStorageError (OtherError ''invalid node path /g/__c'')))"
  "get_child_nodes 2 example_serde memory_get memory_list_dir [(''__c/x'', [])] ''/'' True = Some (Inr [])"
proof -
  note path_defs = path_to_prefix_def path_of_prefix_def path_new_def validate_path_def validate_component_def validate_name_def
    strip_prefix_def strip_suffix_def ends_with_def prefix_new_def validate_prefix_def
  show "get_child_nodes 2 example_serde memory_get memory_list_dir [(''g/__c/x'', [])] ''/g'' True =
     Some (Inl (NodeStorageError (OtherError ''invalid node path /g/__c'')))"
    by (simp add: get_child_nodes_def eval_nat_numeral discover_children_hides_only_at_root path_defs)
  show "get_child_nodes 2 example_serde memory_get memory_list_dir [(''__c/x'', [])] ''/'' True = Some (Inr [])"
    by (simp add: get_child_nodes_def eval_nat_numeral discover_children_hides_only_at_root path_defs)
qed

text \<open>The text of the tree of a node also shows its siblings whose names begin with its name.\<close>

lemma tree_of_shows_siblings:
  "tree_of show_v3 show_v2 [(NodeKey ''/a'', NMGroup g), (NodeKey ''/ab'', NMGroup g)] ''/a'' =
     ''/a'' @ [CHR 0x0A] @ ''ab'' @ [CHR 0x0A]"
  by (simp add: tree_of_def starts_with_def node_name_def indent_def path_components_def)

text \<open>Listing orders siblings by their prefixes, and consolidated metadata by their names: \<open>a-b\<close> comes before \<open>a\<close> in one and after it in the other.\<close>

lemma sibling_orders_differ:
  "''/a-b/'' < ''/a/''" "NodeKey ''/a'' < NodeKey ''/a-b''"
  by (simp_all add: less_node_key_def less_char_def)

end
