(* ===== verification/Contiguous_Iterators.thy ===== *)
theory Contiguous_Iterators
  imports Index_Iterators
begin

text \<open>
  The linearised and contiguous iterators of \<open>zarrs_chunk_grid/src/iterators/\<close> and the byte ranges
  of the \<open>Indexer\<close> trait (\<open>indexer.rs\<close>).  A step of an iterator whose body calls
  \<open>expect("inbounds indices")\<close> can panic, which is a value of \<open>pulled\<close>; the collected result is
  then \<open>None\<close>.
\<close>

datatype indexer_error =
    IndexerIncompatibleDimensionality usize usize
  | OutOfBounds array_indices array_shape
  | IncompatibleLength u64 u64

datatype 'a pulled = Exhausted | Yielded 'a | Panicked

subsection \<open>LinearisedIndices\<close>

record linearised_indices =
  li_subset :: array_subset
  li_array_shape :: array_shape

record linearised_iterator =
  lit_inner :: indices
  lit_array_shape :: array_shape

definition linearised_new :: "array_subset \<Rightarrow> array_shape \<Rightarrow> indexer_error + linearised_indices" where
  "linearised_new s a =
     (if dimensionality s \<noteq> length a
      then Inl (IndexerIncompatibleDimensionality (dimensionality s) (length a))
      else if list_ex (\<lambda>(e, n). n < e) (zip (end_exc s) a)
      then Inl (OutOfBounds (end_exc s) a)
      else Inr \<lparr>li_subset = s, li_array_shape = a\<rparr>)"

definition linearised_iter :: "linearised_indices \<Rightarrow> linearised_iterator" where
  "linearised_iter l =
     \<lparr>lit_inner = \<lparr>ind_subset = li_subset l, rng_start = 0, rng_end = num_elements (li_subset l)\<rparr>,
      lit_array_shape = li_array_shape l\<rparr>"

definition linearised_next :: "linearised_iterator \<Rightarrow> u64 pulled \<times> linearised_iterator" where
  "linearised_next it =
     (case indices_next (lit_inner it) of
        (None, inner') \<Rightarrow> (Exhausted, it\<lparr>lit_inner := inner'\<rparr>)
      | (Some i, inner') \<Rightarrow>
          (case ravel_indices i (lit_array_shape it) of
             None \<Rightarrow> (Panicked, it\<lparr>lit_inner := inner'\<rparr>)
           | Some n \<Rightarrow> (Yielded n, it\<lparr>lit_inner := inner'\<rparr>)))"

fun linearised_take :: "nat \<Rightarrow> linearised_iterator \<Rightarrow> u64 list option" where
  "linearised_take 0 it = Some []"
| "linearised_take (Suc m) it =
     (case linearised_next it of
        (Exhausted, _) \<Rightarrow> Some []
      | (Panicked, _) \<Rightarrow> None
      | (Yielded n, it') \<Rightarrow> map_option ((#) n) (linearised_take m it'))"

definition linearised_collect :: "linearised_indices \<Rightarrow> u64 list option" where
  "linearised_collect l = linearised_take (Suc (num_elements (li_subset l))) (linearised_iter l)"

subsection \<open>ContiguousIndices\<close>

record contiguous_indices =
  ci_start :: array_subset
  ci_elements :: u64

text \<open>
  The loop of \<open>ContiguousIndices::new\<close> over the reversed dimensions: it returns \<open>shape_out\<close> (in
  the order of the loop) and the number of contiguous elements.
\<close>

fun contiguous_loop :: "(u64 \<times> u64 \<times> u64) list \<Rightarrow> bool \<Rightarrow> u64 \<Rightarrow> u64 list \<times> u64" where
  "contiguous_loop [] contiguous n = ([], n)"
| "contiguous_loop ((st, sz, asz) # ds) contiguous n =
     (if contiguous
      then let (out, n') = contiguous_loop ds (st = 0 \<and> sz = asz) (wmul n sz) in (1 # out, n')
      else let (out, n') = contiguous_loop ds contiguous n in (sz # out, n'))"

definition contiguous_new :: "array_subset \<Rightarrow> array_shape \<Rightarrow> indexer_error + contiguous_indices" where
  "contiguous_new s a =
     (if dimensionality s \<noteq> length a
      then Inl (IndexerIncompatibleDimensionality (dimensionality s) (length a))
      else if list_ex (\<lambda>(e, n). n < e) (zip (end_exc s) a)
      then Inl (OutOfBounds (end_exc s) a)
      else if is_empty s
      then if list_ex (\<lambda>(st, n). n \<le> st) (zip (sub_start s) a)
           then Inl (OutOfBounds (sub_start s) a)
           else Inr \<lparr>ci_start = s, ci_elements = 0\<rparr>
      else let (out, n) = contiguous_loop
                 (zip (rev (sub_start s)) (zip (rev (sub_shape s)) (rev a))) True 1;
               shape_out = rev out
           in Inr \<lparr>ci_start = from_ranges (map (\<lambda>(st, sh). (st, wadd st sh)) (zip (sub_start s) shape_out)),
                   ci_elements = n\<rparr>)"

record contiguous_iterator =
  cit_inner :: indices
  cit_elements :: u64

definition contiguous_iter :: "contiguous_indices \<Rightarrow> contiguous_iterator" where
  "contiguous_iter c =
     \<lparr>cit_inner = \<lparr>ind_subset = ci_start c, rng_start = 0, rng_end = num_elements (ci_start c)\<rparr>,
      cit_elements = ci_elements c\<rparr>"

definition contiguous_next ::
    "contiguous_iterator \<Rightarrow> (u64 list \<times> u64) option \<times> contiguous_iterator" where
  "contiguous_next it =
     (case indices_next (cit_inner it) of
        (None, inner') \<Rightarrow> (None, it\<lparr>cit_inner := inner'\<rparr>)
      | (Some i, inner') \<Rightarrow> (Some (i, cit_elements it), it\<lparr>cit_inner := inner'\<rparr>))"

subsection \<open>ContiguousLinearisedIndices\<close>

record contiguous_linearised =
  cl_inner :: contiguous_indices
  cl_array_shape :: array_shape

record contiguous_linearised_iterator =
  clit_inner :: contiguous_iterator
  clit_array_shape :: array_shape

definition contiguous_linearised_new ::
    "array_subset \<Rightarrow> array_shape \<Rightarrow> indexer_error + contiguous_linearised" where
  "contiguous_linearised_new s a =
     bind_res (contiguous_new s a) (\<lambda>inner. Inr \<lparr>cl_inner = inner, cl_array_shape = a\<rparr>)"

definition contiguous_linearised_iter :: "contiguous_linearised \<Rightarrow> contiguous_linearised_iterator" where
  "contiguous_linearised_iter c =
     \<lparr>clit_inner = contiguous_iter (cl_inner c), clit_array_shape = cl_array_shape c\<rparr>"

definition contiguous_linearised_next ::
    "contiguous_linearised_iterator \<Rightarrow> (u64 \<times> u64) pulled \<times> contiguous_linearised_iterator" where
  "contiguous_linearised_next it =
     (case contiguous_next (clit_inner it) of
        (None, inner') \<Rightarrow> (Exhausted, it\<lparr>clit_inner := inner'\<rparr>)
      | (Some (i, m), inner') \<Rightarrow>
          (case ravel_indices i (clit_array_shape it) of
             None \<Rightarrow> (Panicked, it\<lparr>clit_inner := inner'\<rparr>)
           | Some n \<Rightarrow> (Yielded (n, m), it\<lparr>clit_inner := inner'\<rparr>)))"

fun contiguous_linearised_take ::
    "nat \<Rightarrow> contiguous_linearised_iterator \<Rightarrow> (u64 \<times> u64) list option" where
  "contiguous_linearised_take 0 it = Some []"
| "contiguous_linearised_take (Suc m) it =
     (case contiguous_linearised_next it of
        (Exhausted, _) \<Rightarrow> Some []
      | (Panicked, _) \<Rightarrow> None
      | (Yielded x, it') \<Rightarrow> map_option ((#) x) (contiguous_linearised_take m it'))"

definition contiguous_linearised_collect :: "contiguous_linearised \<Rightarrow> (u64 \<times> u64) list option" where
  "contiguous_linearised_collect c =
     contiguous_linearised_take (Suc (num_elements (ci_start (cl_inner c)))) (contiguous_linearised_iter c)"

text \<open>
  \<open>Indexer::iter_contiguous_byte_ranges\<close> of an \<open>ArraySubset\<close>, collected: the byte range of each
  contiguous run, for elements of a fixed size.
\<close>

definition byte_range_of_run :: "u64 \<Rightarrow> u64 \<times> u64 \<Rightarrow> range64" where
  "byte_range_of_run element_size run =
     (case run of (array_index, contiguous_elements) \<Rightarrow>
        let byte_index = wmul array_index element_size
        in (byte_index, wadd byte_index (wmul contiguous_elements element_size)))"

definition iter_contiguous_byte_ranges ::
    "array_subset \<Rightarrow> array_shape \<Rightarrow> usize \<Rightarrow> indexer_error + range64 list option" where
  "iter_contiguous_byte_ranges s a element_size =
     bind_res (contiguous_linearised_new s a) (\<lambda>c.
       Inr (map_option (map (byte_range_of_run element_size)) (contiguous_linearised_collect c)))"

subsection \<open>Draining is mapping\<close>

lemma linearised_take_eq:
  "linearised_take m it = collect_opt (map (\<lambda>i. ravel_indices i (lit_array_shape it)) (indices_take m (lit_inner it)))"
proof (induction m arbitrary: it)
  case (Suc m)
  show ?case
    by (auto simp: linearised_next_def Suc.IH split: prod.splits option.splits)
qed simp

lemma contiguous_linearised_take_eq:
  "contiguous_linearised_take m it =
     map_option (map (\<lambda>n. (n, cit_elements (clit_inner it))))
       (collect_opt (map (\<lambda>i. ravel_indices i (clit_array_shape it)) (indices_take m (cit_inner (clit_inner it)))))"
proof (induction m arbitrary: it)
  case (Suc m)
  show ?case
    by (auto simp: contiguous_linearised_next_def contiguous_next_def Suc.IH option.map_comp comp_def
        split: prod.splits option.splits)
qed simp

text \<open>\<open>fits\<close>: the subset lies within the array shape.\<close>

definition fits :: "array_subset \<Rightarrow> array_shape \<Rightarrow> bool" where
  "fits s a \<longleftrightarrow> wf_subset s \<and> length a = length (sub_start s) \<and>
     (\<forall>k < length a. sub_start s ! k + sub_shape s ! k \<le> a ! k)"

lemma fits_wf: "fits s a \<Longrightarrow> wf_subset s"
  by (simp add: fits_def)

lemma fits_inb: "fits s a \<Longrightarrow> i \<in> set (box (sub_start s) (sub_shape s)) \<Longrightarrow> inb i a"
  by (fastforce simp: fits_def mem_box wf_subset_length inb_nth)

lemma prod_list_mono: "list_all2 (\<le>) xs ys \<Longrightarrow> prod_list xs \<le> prod_list (ys :: nat list)"
  by (induction rule: list_all2_induct) (simp_all add: mult_le_mono)

lemma fits_prod: "fits s a \<Longrightarrow> prod_list (sub_shape s) \<le> prod_list a"
  by (intro prod_list_mono) (auto simp: fits_def list_all2_conv_all_nth wf_subset_length dest: add_leD2)

lemma oob_check_iff:
  "wf_subset s \<Longrightarrow> length a = length (sub_start s) \<Longrightarrow>
     \<not> list_ex (\<lambda>(e, n). n < e) (zip (end_exc s) a) \<longleftrightarrow> fits s a"
  by (simp add: list_ex_zip_nth length_end_exc fits_def) (metis end_exc_nth linorder_not_less)

lemma ravel_box:
  assumes "fits s a" and "prod_list a < M64"
  shows "collect_opt (map (\<lambda>i. ravel_indices i a) (box (sub_start s) (sub_shape s))) =
     Some (map (lin a) (box (sub_start s) (sub_shape s)))"
  using assms fits_inb[OF assms(1)]
  by (intro collect_opt_eqI) (auto simp: ravel_indices_eq inb_length)

lemma linearised_collect_eq:
  assumes "fits s a" and "prod_list a < M64"
  shows "linearised_collect \<lparr>li_subset = s, li_array_shape = a\<rparr> = Some (map (lin a) (box (sub_start s) (sub_shape s)))"
proof -
  have lt: "prod_list (sub_shape s) < M64" using fits_prod[OF assms(1)] assms(2) by simp
  have "indices_take (Suc (num_elements s)) (indices_new s) = box (sub_start s) (sub_shape s)"
    using indices_collect_new[OF fits_wf[OF assms(1)] lt]
    by (simp add: indices_collect_def indices_len_def indices_new_def saturating_sub_def)
  then show ?thesis
    using ravel_box[OF assms]
    by (simp add: linearised_collect_def linearised_take_eq linearised_iter_def indices_new_def
        del: linearised_take.simps indices_take.simps)
qed

subsection \<open>The contiguous runs\<close>

abbreviation full_dim :: "u64 \<times> u64 \<times> u64 \<Rightarrow> bool" where
  "full_dim d \<equiv> (case d of (st, sz, asz) \<Rightarrow> st = 0 \<and> sz = asz)"

lemma contiguous_loop_append:
  "contiguous_loop (xs @ [(st, sz, asz)]) c n =
     (let (out, n') = contiguous_loop xs c n
      in if c \<and> list_all full_dim xs then (out @ [1], wmul n' sz) else (out @ [sz], n'))"
  by (induction xs c n rule: contiguous_loop.induct) (auto split: prod.splits)

lemma lin_zeros: "lin a (replicate (length a) 0) = 0"
  by (induction a) simp_all

lemma box_zeros_ones: "box (replicate n 0) (replicate n 1) = [replicate n 0]"
  by (induction n) simp_all

lemma map_lin_box_zeros: "map (lin a) (box (replicate (length a) 0) a) = [0..<prod_list a]"
  by (simp add: box_unlin comp_def lin_unlin cong: map_cong) (auto intro!: map_idI simp: lin_unlin)

text \<open>
  What the loop computes for the dimensions already visited: the shape of the start positions, the
  run length, and that the runs concatenate to the linearised indices.
\<close>

definition runs_cover :: "u64 list \<Rightarrow> u64 list \<Rightarrow> u64 list \<Rightarrow> u64 list \<Rightarrow> u64 \<Rightarrow> bool" where
  "runs_cover st sh a out n \<longleftrightarrow>
     list_all2 (\<lambda>x y. 1 \<le> x \<and> x \<le> y) out sh \<and> n \<le> prod_list sh \<and>
     (list_all full_dim (zip st (zip sh a)) \<longrightarrow> out = replicate (length a) 1 \<and> n = prod_list a) \<and>
     concat (map (\<lambda>i. [lin a i..<lin a i + n]) (box st out)) = map (lin a) (box st sh)"

lemma full_dims_eq:
  "length st = length sh \<Longrightarrow> length sh = length a \<Longrightarrow>
     list_all full_dim (zip st (zip sh a)) \<longleftrightarrow> st = replicate (length a) 0 \<and> sh = a"
  by (induction st sh a rule: list_induct3) auto

lemma concat_map_concat: "concat (map f (concat xss)) = concat (map (\<lambda>xs. concat (map f xs)) xss)"
  by (induction xss) simp_all

lemma runs_cover_extend:
  assumes "runs_cover st sh a out n" and "length st = length sh" and "length sh = length a"
    and "\<not> list_all full_dim (zip st (zip sh a))" and "0 < s1"
  shows "runs_cover (o1 # st) (s1 # sh) (a1 # a) (s1 # out) n"
proof -
  let ?f = "\<lambda>i. [lin (a1 # a) i..<lin (a1 # a) i + n]"
  have shift: "concat (map (\<lambda>x. [c + lin a x..<c + lin a x + n]) xs) =
      map (\<lambda>x. c + x) (concat (map (\<lambda>i. [lin a i..<lin a i + n]) xs))" for c xs
    by (induction xs) (simp_all add: map_plus_left_upt add.assoc)
  have row: "concat (map ?f (map ((#) i) (box st out))) = map (lin (a1 # a)) (map ((#) i) (box st sh))" for i
    using assms(1) shift[of "i * prod_list a" "box st out"]
    by (simp add: runs_cover_def comp_def)
  have "concat (map ?f (box (o1 # st) (s1 # out))) =
      concat (map (\<lambda>i. concat (map ?f (map ((#) i) (box st out)))) [o1..<o1 + s1])"
    unfolding box.simps concat_map_concat by (simp only: map_map comp_def)
  also have "\<dots> = map (lin (a1 # a)) (box (o1 # st) (s1 # sh))"
    unfolding row box.simps map_concat by (simp only: map_map comp_def)
  finally have "concat (map ?f (box (o1 # st) (s1 # out))) = map (lin (a1 # a)) (box (o1 # st) (s1 # sh))" .
  moreover have "n \<le> s1 * prod_list sh"
    using assms(1,5) by (simp add: runs_cover_def) (metis le_trans mult.commute mult_le_mono2 Suc_leI mult_1_right One_nat_def)
  ultimately show ?thesis using assms by (auto simp: runs_cover_def)
qed

lemma ones_le: "0 \<notin> set a \<Longrightarrow> list_all2 (\<lambda>x y. 1 \<le> x \<and> x \<le> y) (replicate (length a) 1) (a :: nat list)"
  by (induction a) auto

lemma runs_cover_full:
  assumes "st = replicate (length a) 0" and "0 < s1" and "0 \<notin> set a"
  shows "runs_cover (o1 # st) (s1 # a) (a1 # a) (1 # replicate (length a) 1) (prod_list a * s1)"
proof -
  have "map (lin (a1 # a)) (box (o1 # st) (s1 # a)) =
      concat (map (\<lambda>i. map (\<lambda>x. i * prod_list a + x) (map (lin a) (box st a))) [o1..<o1 + s1])"
    by (simp add: map_concat comp_def)
  also have "\<dots> = concat (map (\<lambda>i. [i * prod_list a..<i * prod_list a + prod_list a]) [o1..<o1 + s1])"
    by (simp add: assms(1) map_lin_box_zeros map_plus_left_upt)
  also have "\<dots> = [o1 * prod_list a..<(o1 + s1) * prod_list a]"
    by (rule concat_map_upt_mult)
  finally have rhs: "map (lin (a1 # a)) (box (o1 # st) (s1 # a)) =
      [o1 * prod_list a..<o1 * prod_list a + prod_list a * s1]"
    by (simp add: algebra_simps)
  have "box (o1 # st) (1 # replicate (length a) 1) = [o1 # replicate (length a) 0]"
    using box_zeros_ones[of "length a"] by (simp add: assms(1))
  then have "concat (map (\<lambda>i. [lin (a1 # a) i..<lin (a1 # a) i + prod_list a * s1])
      (box (o1 # st) (1 # replicate (length a) 1))) =
      [o1 * prod_list a..<o1 * prod_list a + prod_list a * s1]"
    by (simp add: lin_zeros del: box.simps)
  moreover have "list_all2 (\<lambda>x y. 1 \<le> x \<and> x \<le> y) (1 # replicate (length a) 1) (s1 # a)"
    using assms(2) ones_le[OF assms(3)] by simp
  ultimately show ?thesis
    unfolding runs_cover_def rhs by (simp add: mult.commute)
qed

lemma contiguous_loop_runs:
  assumes "length st = length sh" and "length sh = length a" and "0 \<notin> set sh"
    and "prod_list sh < M64"
  shows "\<exists>out n. contiguous_loop (rev (zip st (zip sh a))) True 1 = (rev out, n) \<and>
     runs_cover st sh a out n"
  using assms
proof (induction st sh a rule: list_induct3)
  case Nil
  then show ?case by (simp add: runs_cover_def)
next
  case (Cons o1 st s1 sh a1 a)
  have pos: "0 < s1" "0 \<notin> set sh" "0 < prod_list sh" using Cons.prems(1) by (auto simp: prod_list_pos)
  have lt: "prod_list sh < M64"
    using Cons.prems(2) prod_list_tl_le[OF pos(1), of sh] by (metis le_less_trans)
  obtain out n where loop: "contiguous_loop (rev (zip st (zip sh a))) True 1 = (rev out, n)"
    and cov: "runs_cover st sh a out n"
    using Cons.IH[OF pos(2) lt] by blast
  let ?full = "list_all full_dim (zip st (zip sh a))"
  have step: "contiguous_loop (rev (zip (o1 # st) (zip (s1 # sh) (a1 # a)))) True 1 =
      (if ?full then (rev (1 # out), wmul n s1) else (rev (s1 # out), n))"
    using loop by (simp add: contiguous_loop_append list_all_rev)
  show ?case
  proof (cases ?full)
    case True
    then have eq: "st = replicate (length a) 0" "sh = a"
      using full_dims_eq[OF Cons.hyps] by blast+
    have o: "out = replicate (length a) 1" "n = prod_list a"
      using cov True unfolding runs_cover_def by blast+
    have "wmul n s1 = prod_list a * s1"
      using Cons.prems(2) by (simp add: o eq wmul_eq mult.commute)
    moreover have "runs_cover (o1 # st) (s1 # a) (a1 # a) (1 # replicate (length a) 1) (prod_list a * s1)"
      by (rule runs_cover_full) (use eq pos in auto)
    ultimately show ?thesis
      using step True eq o by (intro exI[of _ "1 # out"] exI[of _ "wmul n s1"]) simp
  next
    case False
    then show ?thesis
      using step runs_cover_extend[OF cov Cons.hyps False pos(1)]
      by (intro exI[of _ "s1 # out"] exI[of _ n]) simp
  qed
qed

lemma contiguous_new_runs:
  assumes "fits s a" and "prod_list a < M64" and "\<not> is_empty s"
  shows "\<exists>out n. contiguous_new s a = Inr \<lparr>ci_start = \<lparr>sub_start = sub_start s, sub_shape = out\<rparr>, ci_elements = n\<rparr> \<and>
     runs_cover (sub_start s) (sub_shape s) a out n"
proof -
  have wf: "wf_subset s" and len: "length a = length (sub_start s)" "length (sub_shape s) = length (sub_start s)"
    using assms(1) by (auto simp: fits_def wf_subset_length)
  have "0 \<notin> set (sub_shape s)" using assms(3) by (auto simp: is_empty_def list_ex_iff)
  then obtain out n where
    loop: "contiguous_loop (rev (zip (sub_start s) (zip (sub_shape s) a))) True 1 = (rev out, n)"
    and cov: "runs_cover (sub_start s) (sub_shape s) a out n"
    using contiguous_loop_runs[of "sub_start s" "sub_shape s" a] len fits_prod[OF assms(1)] assms(2) by auto
  have lo: "length out = length (sub_start s)"
    and le: "\<And>k. k < length (sub_start s) \<Longrightarrow> out ! k \<le> sub_shape s ! k"
    using cov len by (auto simp: runs_cover_def list_all2_conv_all_nth)
  have "wadd (sub_start s ! k) (out ! k) = sub_start s ! k + out ! k" if "k < length (sub_start s)" for k
    using wf le[OF that] that len by (intro wadd_eq) (auto simp: wf_subset_nth dest!: spec[of _ k])
  then have "from_ranges (map (\<lambda>(st, sh). (st, wadd st sh)) (zip (sub_start s) out)) =
      \<lparr>sub_start = sub_start s, sub_shape = out\<rparr>"
    using lo by (auto simp: from_ranges_def saturating_sub_def intro!: nth_equalityI)
  then show ?thesis
    using assms(3) cov loop oob_check_iff[OF wf len(1)] assms(1) len
    by (auto simp: contiguous_new_def dimensionality_def zip_rev[symmetric])
qed

lemma contiguous_linearised_collect_eq:
  assumes "fits s a" and "prod_list a < M64"
  shows "contiguous_linearised_collect \<lparr>cl_inner = \<lparr>ci_start = s, ci_elements = n\<rparr>, cl_array_shape = a\<rparr> =
     Some (map (\<lambda>i. (lin a i, n)) (box (sub_start s) (sub_shape s)))"
proof -
  have lt: "prod_list (sub_shape s) < M64" using fits_prod[OF assms(1)] assms(2) by simp
  have "indices_take (Suc (num_elements s)) (indices_new s) = box (sub_start s) (sub_shape s)"
    using indices_collect_new[OF fits_wf[OF assms(1)] lt]
    by (simp add: indices_collect_def indices_len_def indices_new_def saturating_sub_def)
  then show ?thesis
    using ravel_box[OF assms]
    by (simp add: contiguous_linearised_collect_def contiguous_linearised_take_eq contiguous_linearised_iter_def
        contiguous_iter_def indices_new_def comp_def
        del: contiguous_linearised_take.simps indices_take.simps)
qed

lemma fits_shrink:
  assumes "fits s a" and "list_all2 (\<le>) out (sub_shape s)"
  shows "fits \<lparr>sub_start = sub_start s, sub_shape = out\<rparr> a"
proof -
  have len: "length out = length (sub_shape s)" using assms(2) by (rule list_all2_lengthD)
  have "out ! k \<le> sub_shape s ! k" if "k < length (sub_shape s)" for k
    using assms(2) that by (simp add: list_all2_conv_all_nth)
  then show ?thesis
    using assms(1) len by (fastforce simp: fits_def wf_subset_nth)
qed

lemma contiguous_linearised_runs:
  assumes "fits s a" and "prod_list a < M64" and "\<not> is_empty s"
  shows "\<exists>c out n. contiguous_linearised_new s a = Inr c \<and>
     contiguous_linearised_collect c = Some (map (\<lambda>i. (lin a i, n)) (box (sub_start s) out)) \<and>
     runs_cover (sub_start s) (sub_shape s) a out n"
proof -
  obtain out n where new: "contiguous_new s a = Inr \<lparr>ci_start = \<lparr>sub_start = sub_start s, sub_shape = out\<rparr>, ci_elements = n\<rparr>"
    and cov: "runs_cover (sub_start s) (sub_shape s) a out n"
    using contiguous_new_runs[OF assms] by blast
  have "fits \<lparr>sub_start = sub_start s, sub_shape = out\<rparr> a"
    by (rule fits_shrink[OF assms(1)]) (use cov in \<open>auto simp: runs_cover_def elim: list_all2_mono\<close>)
  then show ?thesis
    using new cov contiguous_linearised_collect_eq[OF _ assms(2)]
    by (auto simp: contiguous_linearised_new_def)
qed

lemma concat_map_Pair: "concat (map (\<lambda>(i, m). f i m) (map (\<lambda>i. (g i, n)) xs)) = concat (map (\<lambda>i. f (g i) n) xs)"
  by (simp add: comp_def)

lemma sorted_concat_blocks:
  fixes p :: nat
  assumes "sorted_wrt (<) xs" and "\<And>x. x \<in> set xs \<Longrightarrow> x < p"
  shows "sorted_wrt (<) (concat (map (\<lambda>i. map (\<lambda>x. i * p + x) xs) [a..<b]))"
proof (induction b)
  case (Suc b)
  have below: "y < b * p" if y: "y \<in> set (concat (map (\<lambda>i. map (\<lambda>x. i * p + x) xs) [a..<b]))" for y
  proof -
    obtain i x where "i < b" "x \<in> set xs" "y = i * p + x" using y by auto
    then have "y < Suc i * p" using assms(2) by simp
    also have "\<dots> \<le> b * p" using \<open>i < b\<close> by (intro mult_le_mono1) simp
    finally show ?thesis .
  qed
  have "sorted_wrt (<) (map (\<lambda>x. b * p + x) xs)"
    using assms(1) by (simp add: sorted_wrt_map)
  moreover have "y < b * p + x" if "y \<in> set (concat (map (\<lambda>i. map (\<lambda>x. i * p + x) xs) [a..<b]))" for x y
    using below[OF that] by simp
  ultimately show ?case using Suc
    by (cases "a \<le> b") (simp_all add: sorted_wrt_append)
qed simp

lemma sorted_lin_box:
  "length st = length sh \<Longrightarrow> length sh = length a \<Longrightarrow> (\<And>k. k < length a \<Longrightarrow> st ! k + sh ! k \<le> a ! k) \<Longrightarrow>
     sorted_wrt (<) (map (lin a) (box st sh))"
proof (induction st sh a rule: list_induct3)
  case (Cons o1 st s1 sh a1 a)
  have le: "st ! k + sh ! k \<le> a ! k" if "k < length a" for k
    using Cons.prems[of "Suc k"] that by simp
  have "lin a i < prod_list a" if "i \<in> set (box st sh)" for i
  proof (rule lin_less)
    show "inb i a" using that le Cons.hyps by (fastforce simp: mem_box inb_nth)
  qed
  then have "sorted_wrt (<) (concat (map (\<lambda>i. map (\<lambda>x. i * prod_list a + x) (map (lin a) (box st sh))) [o1..<o1 + s1]))"
    using Cons.IH[OF le] by (intro sorted_concat_blocks) auto
  then show ?case by (simp add: map_concat comp_def)
qed simp

text \<open>
  Property C26.  \<open>LinearisedIndices::new\<close> accepts a well-formed subset exactly when it lies within
  the array shape, and otherwise reports the dimensionality or the out-of-bounds end.  An accepted
  iterator never panics: it yields the C-order linear index of every element of the subset, in
  strictly increasing order and below the number of elements of the array.
\<close>

theorem linearised_indices_correct:
  assumes "wf_subset s" and "prod_list a < M64"
  shows "(if length a \<noteq> length (sub_start s)
          then linearised_new s a = Inl (IndexerIncompatibleDimensionality (length (sub_start s)) (length a))
          else if fits s a
          then \<exists>l xs. linearised_new s a = Inr l \<and> linearised_collect l = Some xs \<and>
                 xs = map (lin a) (box (sub_start s) (sub_shape s)) \<and>
                 sorted_wrt (<) xs \<and> (\<forall>n \<in> set xs. n < prod_list a)
          else linearised_new s a = Inl (OutOfBounds (end_exc s) a))"
proof (cases "length a = length (sub_start s) \<and> fits s a")
  case True
  have "linearised_new s a = Inr \<lparr>li_subset = s, li_array_shape = a\<rparr>"
    using True oob_check_iff[OF assms(1), of a] by (simp add: linearised_new_def dimensionality_def)
  moreover have "sorted_wrt (<) (map (lin a) (box (sub_start s) (sub_shape s)))"
    using True by (intro sorted_lin_box) (auto simp: fits_def wf_subset_length)
  moreover have "\<forall>n \<in> set (map (lin a) (box (sub_start s) (sub_shape s))). n < prod_list a"
    using fits_inb[of s a] True by (auto intro: lin_less)
  ultimately show ?thesis
    using True linearised_collect_eq[of s a] assms(2) by auto
next
  case False
  then show ?thesis
    using oob_check_iff[OF assms(1), of a] by (auto simp: linearised_new_def dimensionality_def)
qed

theorem linearised_indices_correct_witness:
  "\<exists>l. linearised_new \<lparr>sub_start = [2, 1], sub_shape = [2, 2]\<rparr> [4, 3] = Inr l \<and>
     linearised_collect l = Some [7, 8, 10, 11]"
proof -
  let ?s = "\<lparr>sub_start = [2, 1], sub_shape = [2, 2]\<rparr>"
  have w: "wf_subset ?s" "prod_list [4, 3] < M64" by (simp_all add: wf_subset_def M64_def)
  have "fits ?s [4, 3]" using w by (simp add: fits_def All_less_Suc2)
  then show ?thesis using linearised_indices_correct[OF w] by (simp add: upt_rec)
qed

text \<open>
  Property C27.  The contiguous iterator is an exact run-length form of the linearised one: for a
  non-empty subset within an array of fewer than \<open>2 ^ 64\<close> elements it is created, never panics, and
  its runs \<open>(start, length)\<close>, expanded and concatenated, are the linearised indices of the subset,
  the same ones in the same order.
\<close>

theorem contiguous_runs_are_linearised:
  assumes "fits s a" and "prod_list a < M64" and "\<not> is_empty s"
  shows "\<exists>c runs l. contiguous_linearised_new s a = Inr c \<and> contiguous_linearised_collect c = Some runs \<and>
     linearised_new s a = Inr l \<and>
     linearised_collect l = Some (concat (map (\<lambda>(i, n). [i..<i + n]) runs)) \<and>
     (\<forall>(i, n) \<in> set runs. n = ci_elements (cl_inner c))"
proof -
  obtain c out n where c: "contiguous_linearised_new s a = Inr c"
    and runs: "contiguous_linearised_collect c = Some (map (\<lambda>i. (lin a i, n)) (box (sub_start s) out))"
    and cov: "runs_cover (sub_start s) (sub_shape s) a out n"
    using contiguous_linearised_runs[OF assms] by blast
  have n: "ci_elements (cl_inner c) = n"
    if "box (sub_start s) out \<noteq> []"
    using runs that
    by (cases "box (sub_start s) out")
      (auto simp: contiguous_linearised_collect_def contiguous_linearised_take_eq
        contiguous_linearised_iter_def contiguous_iter_def simp del: contiguous_linearised_take.simps)
  have "linearised_new s a = Inr \<lparr>li_subset = s, li_array_shape = a\<rparr>"
    using assms(1) oob_check_iff[OF fits_wf[OF assms(1)], of a]
    by (auto simp: linearised_new_def dimensionality_def fits_def)
  moreover have "linearised_collect \<lparr>li_subset = s, li_array_shape = a\<rparr> =
      Some (concat (map (\<lambda>(i, n). [i..<i + n]) (map (\<lambda>i. (lin a i, n)) (box (sub_start s) out))))"
    using cov linearised_collect_eq[OF assms(1,2)] by (simp add: runs_cover_def comp_def)
  ultimately show ?thesis using c runs n by fastforce
qed

theorem contiguous_runs_are_linearised_witness:
  "\<exists>c runs l. contiguous_linearised_new \<lparr>sub_start = [2, 1], sub_shape = [2, 2]\<rparr> [4, 3] = Inr c \<and>
     contiguous_linearised_collect c = Some runs \<and>
     linearised_new \<lparr>sub_start = [2, 1], sub_shape = [2, 2]\<rparr> [4, 3] = Inr l \<and>
     linearised_collect l = Some (concat (map (\<lambda>(i, n). [i..<i + n]) runs)) \<and>
     (\<forall>(i, n) \<in> set runs. n = ci_elements (cl_inner c))"
  by (rule contiguous_runs_are_linearised)
    (simp_all add: fits_def wf_subset_def M64_def is_empty_def All_less_Suc2)

lemma runs_cover_bound:
  assumes "fits s a" and "runs_cover (sub_start s) (sub_shape s) a out n"
    and "i \<in> set (box (sub_start s) out)"
  shows "lin a i + n \<le> prod_list a"
proof -
  have "fits \<lparr>sub_start = sub_start s, sub_shape = out\<rparr> a"
    by (rule fits_shrink[OF assms(1)]) (use assms(2) in \<open>auto simp: runs_cover_def elim: list_all2_mono\<close>)
  from fits_inb[OF this] have lt: "lin a i < prod_list a" using assms(3) by (auto intro: lin_less)
  have sub: "set [lin a i..<lin a i + n] \<subseteq> lin a ` set (box (sub_start s) (sub_shape s))"
  proof -
    have "set (concat (map (\<lambda>i. [lin a i..<lin a i + n]) (box (sub_start s) out))) =
        set (map (lin a) (box (sub_start s) (sub_shape s)))"
      using assms(2) by (simp only: runs_cover_def)
    then show ?thesis using assms(3) by fastforce
  qed
  show ?thesis
  proof (cases n)
    case (Suc m)
    then have "lin a i + m \<in> lin a ` set (box (sub_start s) (sub_shape s))" using sub by auto
    then have "lin a i + m < prod_list a" using lin_less[OF fits_inb[OF assms(1)]] by (metis imageE)
    then show ?thesis using Suc by simp
  qed (use lt in simp)
qed

lemma take_drop_run:
  "take (n * z) (drop (i * z) xs) = concat (map (\<lambda>j. take z (drop (j * z) xs)) [i..<i + n])"
proof (induction n arbitrary: i)
  case (Suc n)
  have "take (Suc n * z) (drop (i * z) xs) =
      take z (drop (i * z) xs) @ take (n * z) (drop (Suc i * z) xs)"
    by (simp add: take_add add.commute)
  then show ?case using Suc.IH[of "Suc i"] by (simp add: upt_conv_Cons del: upt_Suc mult_Suc)
qed simp

text \<open>
  Property C28.  The byte ranges of \<open>iter_contiguous_byte_ranges\<close> select exactly the bytes of the
  subset: for a non-empty subset of an array whose byte size is below \<open>2 ^ 64\<close>, the iterator is
  created and does not panic, every range is within the array's bytes, and the ranges read in order
  from any byte string give the bytes of the elements of the subset in C order.
\<close>

theorem byte_ranges_select_elements:
  assumes "fits s a" and "prod_list a < M64" and "prod_list a * z < M64" and "\<not> is_empty s"
  shows "\<exists>rs. iter_contiguous_byte_ranges s a z = Inr (Some rs) \<and>
     (\<forall>(b, e) \<in> set rs. b \<le> e \<and> e \<le> prod_list a * z) \<and>
     (\<forall>bytes. concat (map (\<lambda>(b, e). take (e - b) (drop b bytes)) rs) =
        concat (map (\<lambda>i. take z (drop (lin a i * z) bytes)) (box (sub_start s) (sub_shape s))))"
proof -
  obtain c out n where c: "contiguous_linearised_new s a = Inr c"
    and runs: "contiguous_linearised_collect c = Some (map (\<lambda>i. (lin a i, n)) (box (sub_start s) out))"
    and cov: "runs_cover (sub_start s) (sub_shape s) a out n"
    using contiguous_linearised_runs[OF assms(1,2,4)] by blast
  let ?B = "box (sub_start s) out"
  have bound: "lin a i * z + n * z \<le> prod_list a * z" if "i \<in> set ?B" for i
    using runs_cover_bound[OF assms(1) cov that] by (metis add_mult_distrib mult_le_mono1)
  have run: "byte_range_of_run z (lin a i, n) = (lin a i * z, lin a i * z + n * z)" if "i \<in> set ?B" for i
    using bound[OF that] assms(3) by (simp add: byte_range_of_run_def wmul_eq wadd_eq Let_def)
  let ?rs = "map (\<lambda>i. (lin a i * z, lin a i * z + n * z)) ?B"
  have "iter_contiguous_byte_ranges s a z = Inr (Some ?rs)"
    using c runs run by (simp add: iter_contiguous_byte_ranges_def)
  moreover have "\<forall>(b, e) \<in> set ?rs. b \<le> e \<and> e \<le> prod_list a * z"
    using bound by auto
  moreover have "concat (map (\<lambda>(b, e). take (e - b) (drop b bytes)) ?rs) =
      concat (map (\<lambda>i. take z (drop (lin a i * z) bytes)) (box (sub_start s) (sub_shape s)))" for bytes :: "'b list"
  proof -
    let ?g = "\<lambda>j. take z (drop (j * z) bytes)"
    have "concat (map (\<lambda>(b, e). take (e - b) (drop b bytes)) ?rs) =
        concat (map ?g (concat (map (\<lambda>i. [lin a i..<lin a i + n]) ?B)))"
      by (simp add: concat_map_concat comp_def take_drop_run)
    also have "\<dots> = concat (map ?g (map (lin a) (box (sub_start s) (sub_shape s))))"
      using cov by (simp add: runs_cover_def)
    finally show ?thesis by (simp add: comp_def)
  qed
  ultimately show ?thesis by blast
qed

theorem byte_ranges_select_elements_witness:
  "\<exists>rs. iter_contiguous_byte_ranges \<lparr>sub_start = [2, 1], sub_shape = [2, 2]\<rparr> [4, 3] 2 = Inr (Some rs) \<and>
     (\<forall>(b, e) \<in> set rs. b \<le> e \<and> e \<le> prod_list [4, 3] * 2) \<and>
     (\<forall>bytes :: nat list. concat (map (\<lambda>(b, e). take (e - b) (drop b bytes)) rs) =
        concat (map (\<lambda>i. take 2 (drop (lin [4, 3] i * 2) bytes))
          (box (sub_start \<lparr>sub_start = [2, 1], sub_shape = [2, 2]\<rparr>) (sub_shape \<lparr>sub_start = [2, 1], sub_shape = [2, 2]\<rparr>))))"
  by (rule byte_ranges_select_elements)
    (simp_all add: fits_def wf_subset_def M64_def is_empty_def All_less_Suc2)

end
