(* ===== verification/Codec_Base.thy ===== *)
theory Codec_Base
  imports Memory_Store Contiguous_Iterators Chunk_Grid
begin

text \<open>
  What the codecs share (\<open>zarrs_codec/src\<close>): the error type, the bytes representation, the partial
  decoders and encoders over bytes (\<open>codec_traits/bytes_partial_sync.rs\<close>), and the default partial
  codec of a bytes-to-bytes codec (\<open>codec_partial_default.rs\<close>), which decodes the whole value.

  A bytes partial decoder is a trait object: here the function \<open>partial_decode_many\<close> at the present
  state of the value behind it.  \<open>CodecPanic\<close> is the value of a panic.  A bytes-to-bytes codec is the record
  \<open>bytes_codec\<close> of its methods; the contract is the locale \<open>bytes_to_bytes_codec\<close>.
\<close>

datatype codec_error =
  CodecDimensionality dimensionality_error
| CodecIOError io_failure
| CodecInvalidByteRange byte_range u64
| IncompatibleIndexer indexer_error
| UnexpectedChunkDecodedSize usize u64
| InvalidChecksum
| CodecStorageError storage_error
| CodecUnsupportedDataType string string
| InvalidOffsets
| CodecOther string
| InvalidVariableSizedArrayOffsets
| ExpectedFixedLengthBytes
| ExpectedVariableLengthBytes
| ExpectedOptionalBytes
| InvalidArrayShape "u64 list" usize
| InvalidNumberOfElements u64 u64
| SubsetOutOfBounds array_subset array_subset
| RawBytesOffsetsCreate
| RawBytesOffsetsOutOfBounds usize usize
| CodecDataTypeFillValue string
| CodecArraySubset array_subset_error
| CodecCreate string
| CodecPanic

datatype bytes_representation = FixedSize u64 | BoundedSize u64 | UnboundedSize

fun bytes_representation_size :: "bytes_representation \<Rightarrow> u64 option" where
  "bytes_representation_size (FixedSize n) = Some n"
| "bytes_representation_size (BoundedSize n) = Some n"
| "bytes_representation_size UnboundedSize = None"

subsection \<open>Partial decoders of bytes\<close>

type_synonym bytes_decoder = "byte_range list \<Rightarrow> codec_error + bytes list option"

definition partial_decode :: "bytes_decoder \<Rightarrow> byte_range \<Rightarrow> codec_error + bytes option" where
  "partial_decode d r =
     bind_res (d [r]) (\<lambda>v.
       case v of
         None \<Rightarrow> Inr None
       | Some v \<Rightarrow> (case last_opt v of None \<Rightarrow> Inl CodecPanic | Some b \<Rightarrow> Inr (Some b)))"

definition decode_all :: "bytes_decoder \<Rightarrow> codec_error + bytes option" where
  "decode_all d = partial_decode d (FromStart 0 None)"

definition range_failure :: "byte_range_failure \<Rightarrow> codec_error" where
  "range_failure f = (case f of InvalidByteRangeError r n \<Rightarrow> CodecInvalidByteRange r n | SlicePanic \<Rightarrow> CodecPanic)"

definition extract_ranges :: "bytes \<Rightarrow> bytes_decoder" where
  "extract_ranges b rs =
     (case extract_byte_ranges b rs of Inl f \<Rightarrow> Inl (range_failure f) | Inr bs \<Rightarrow> Inr (Some bs))"

text \<open>\<open>Vec<u8>\<close> and \<open>Cow<[u8]>\<close>\<close>

definition vec_decoder :: "bytes \<Rightarrow> bytes_decoder" where
  "vec_decoder b = extract_ranges b"

text \<open>\<open>Mutex<Option<Vec<u8>>>\<close>\<close>

definition mutex_range :: "bytes \<Rightarrow> byte_range \<Rightarrow> codec_error + bytes" where
  "mutex_range input r =
     (let n = length input in
      if br_end r n \<le> n
      then (case slice input (fst (br_to_range_usize r n)) (snd (br_to_range_usize r n)) of
              None \<Rightarrow> Inl CodecPanic
            | Some b \<Rightarrow> Inr b)
      else Inl (CodecInvalidByteRange r n))"

definition mutex_decoder :: "bytes option \<Rightarrow> bytes_decoder" where
  "mutex_decoder v rs =
     (case v of
        None \<Rightarrow> Inr None
      | Some input \<Rightarrow> bind_res (collect_res (map (mutex_range input) rs)) (\<lambda>bs. Inr (Some bs)))"

text \<open>\<open>(TStorage, StoreKey)\<close>\<close>

definition store_decoder :: "'s partial_getter \<Rightarrow> 's \<Rightarrow> store_key \<Rightarrow> bytes_decoder" where
  "store_decoder get_partial_many s key rs =
     (case get_partial_many s key rs of
        Inl e \<Rightarrow> Inl (CodecStorageError e)
      | Inr None \<Rightarrow> Inr None
      | Inr (Some results) \<Rightarrow>
          (case collect_res results of Inl e \<Rightarrow> Inl (CodecStorageError e) | Inr bs \<Rightarrow> Inr (Some bs)))"

subsection \<open>Partial encoders of bytes\<close>

text \<open>An encoder is a decoder whose value can be erased and patched; here it is the state of the value.\<close>

type_synonym bytes_value = "bytes option"

definition mutex_erase :: "bytes_value \<Rightarrow> codec_error + bytes_value" where
  "mutex_erase v = Inr None"

definition mutex_partial_encode_many :: "bytes_value \<Rightarrow> (u64 \<times> bytes) list \<Rightarrow> codec_error + bytes_value" where
  "mutex_partial_encode_many v ovs =
     (case partial_many_loop (case v of None \<Rightarrow> [] | Some b \<Rightarrow> b) ovs of
        None \<Rightarrow> Inl CodecPanic
      | Some b \<Rightarrow> Inr (Some b))"

subsection \<open>Bytes-to-bytes codecs\<close>

text \<open>
  A recommended concurrency is the pair of its minimum and its maximum, both at least 1;
  \<open>recommended_new\<close> is \<open>RecommendedConcurrency::new(start..end)\<close>.
\<close>

type_synonym recommended_concurrency = "usize \<times> usize"

definition recommended_new :: "usize \<Rightarrow> usize \<Rightarrow> recommended_concurrency" where
  "recommended_new range_start range_end = (max range_start 1, max range_end 1)"

record partial_decoder_capability =
  can_partial_read :: bool
  can_partial_decode :: bool

text \<open>The first argument of \<open>bb_decode\<close> is the option \<open>validate_checksums\<close>.\<close>

record bytes_codec =
  bb_encode :: "bytes \<Rightarrow> codec_error + bytes"
  bb_decode :: "bool \<Rightarrow> bytes_representation \<Rightarrow> bytes \<Rightarrow> codec_error + bytes"
  bb_partial_decoder :: "bool \<Rightarrow> bytes_representation \<Rightarrow> bytes_decoder \<Rightarrow> bytes_decoder"
  bb_encoded_representation :: "bytes_representation \<Rightarrow> bytes_representation"
  bb_capability :: partial_decoder_capability
  bb_recommended_concurrency :: "bytes_representation \<Rightarrow> codec_error + recommended_concurrency"

definition default_partial_decoder ::
    "(bool \<Rightarrow> bytes_representation \<Rightarrow> bytes \<Rightarrow> codec_error + bytes) \<Rightarrow>
     bool \<Rightarrow> bytes_representation \<Rightarrow> bytes_decoder \<Rightarrow> bytes_decoder" where
  "default_partial_decoder dec validate repr handle rs =
     bind_res (decode_all handle) (\<lambda>encoded_value.
       case encoded_value of
         None \<Rightarrow> Inr None
       | Some e \<Rightarrow> bind_res (dec validate repr e) (\<lambda>decoded_value. extract_ranges decoded_value rs))"

text \<open>
  \<open>BytesToBytesCodecPartialDefault::partial_encode_many\<close> on a handle that reads and writes the whole
  value: decode, patch, encode, and write the encoded bytes at offset 0 of the handle.
\<close>

definition default_partial_encode_many ::
    "bytes_codec \<Rightarrow> bool \<Rightarrow> bytes_representation \<Rightarrow> bytes_value \<Rightarrow> (u64 \<times> bytes) list \<Rightarrow>
     codec_error + bytes_value" where
  "default_partial_encode_many C validate repr v ovs =
     bind_res (decode_all (mutex_decoder v)) (\<lambda>encoded_value.
     bind_res (case encoded_value of None \<Rightarrow> Inr [] | Some e \<Rightarrow> bb_decode C validate repr e) (\<lambda>decoded_value.
       case partial_many_loop decoded_value ovs of
         None \<Rightarrow> Inl CodecPanic
       | Some decoded_value \<Rightarrow>
           bind_res (bb_encode C decoded_value) (\<lambda>bytes_encoded.
             mutex_partial_encode_many v [(0, bytes_encoded)])))"

subsection \<open>Lemmas on decoders\<close>

definition ranges_ok :: "bytes \<Rightarrow> byte_range list \<Rightarrow> bool" where
  "ranges_ok b rs \<longleftrightarrow> list_all (\<lambda>r. br_fits r \<and> br_in_range r (length b)) rs"

lemma vec_decoder_ok:
  assumes "ranges_ok b rs" and "length b < M64"
  shows "vec_decoder b rs = Inr (Some (map (\<lambda>r. br_selected r b) rs))"
proof -
  have "list_all br_fits rs" and "find (\<lambda>r. \<not> br_in_range r (length b)) rs = None"
    using assms(1) by (auto simp: ranges_ok_def list_all_iff find_None_iff)
  then show ?thesis
    by (simp add: vec_decoder_def extract_ranges_def extract_byte_ranges_eq[OF _ assms(2)])
qed

lemma partial_decode_single: "d [r] = Inr (Some [b]) \<Longrightarrow> partial_decode d r = Inr (Some b)"
  by (simp add: partial_decode_def last_opt_def)

lemma decode_all_vec: "length b < M64 \<Longrightarrow> decode_all (vec_decoder b) = Inr (Some b)"
  unfolding decode_all_def
  by (rule partial_decode_single) (simp add: vec_decoder_ok ranges_ok_def)

lemma mutex_decoder_ok:
  assumes "ranges_ok b rs" and "length b < M64"
  shows "mutex_decoder (Some b) rs = Inr (Some (map (\<lambda>r. br_selected r b) rs))"
proof -
  have "mutex_range b r = Inr (br_selected r b)" if "br_fits r" "br_in_range r (length b)" for r
    using br_bounds[OF that(1) assms(2) that(2)] slice_selected[OF that(1) assms(2) that(2)]
    by (simp add: mutex_range_def br_to_range_usize_def Let_def)
  then have "map (mutex_range b) rs = map (\<lambda>r. Inr (br_selected r b)) rs"
    using assms(1) by (auto simp: ranges_ok_def list_all_iff)
  then show ?thesis by (simp add: mutex_decoder_def del: map_eq_conv)
qed

lemma decode_all_mutex:
  "length b < M64 \<Longrightarrow> decode_all (mutex_decoder (Some b)) = Inr (Some b)"
  "decode_all (mutex_decoder None) = Inr None"
proof -
  show "length b < M64 \<Longrightarrow> decode_all (mutex_decoder (Some b)) = Inr (Some b)"
    unfolding decode_all_def by (rule partial_decode_single) (simp add: mutex_decoder_ok ranges_ok_def)
  show "decode_all (mutex_decoder None) = Inr None"
    by (simp add: decode_all_def partial_decode_def mutex_decoder_def)
qed

subsection \<open>What a decoder reads\<close>

text \<open>
  A decoder reads a value when it returns the ranges of the value; the value is absent when it returns nothing for the ranges
  within a value of size \<open>n\<close>.  Not every decoder does so for every range: \<open>R\<close> are the ranges in question.  The decoder that
  strips a suffix gets ranges from the end wrong, and a byte interval the open ranges that do not begin at its start.
\<close>

fun from_start_range :: "byte_range \<Rightarrow> bool" where
  "from_start_range (FromStart _ _) \<longleftrightarrow> True"
| "from_start_range (Suffix _) \<longleftrightarrow> False"

fun interval_range :: "byte_range \<Rightarrow> bool" where
  "interval_range (FromStart st None) \<longleftrightarrow> st = 0"
| "interval_range (FromStart _ (Some _)) \<longleftrightarrow> True"
| "interval_range (Suffix _) \<longleftrightarrow> False"

lemma interval_from_start: "interval_range r \<Longrightarrow> from_start_range r"
  by (cases r) simp_all

definition ranges_on :: "(byte_range \<Rightarrow> bool) \<Rightarrow> nat \<Rightarrow> byte_range list \<Rightarrow> bool" where
  "ranges_on R n rs \<longleftrightarrow> list_all (\<lambda>r. br_fits r \<and> br_in_range r n \<and> R r) rs"

definition reads_on :: "(byte_range \<Rightarrow> bool) \<Rightarrow> bytes_decoder \<Rightarrow> bytes \<Rightarrow> bool" where
  "reads_on R d e \<longleftrightarrow> length e < M64 \<and>
     (\<forall>rs. ranges_on R (length e) rs \<longrightarrow> d rs = Inr (Some (map (\<lambda>r. br_selected r e) rs)))"

definition absent_on :: "(byte_range \<Rightarrow> bool) \<Rightarrow> bytes_decoder \<Rightarrow> nat \<Rightarrow> bool" where
  "absent_on R d n \<longleftrightarrow> (\<forall>rs. ranges_on R n rs \<longrightarrow> d rs = Inr None \<or> rs = [] \<and> d rs = Inr (Some []))"

lemma ranges_on_ok: "ranges_on R (length b) rs \<Longrightarrow> ranges_ok b rs"
  by (auto simp: ranges_on_def ranges_ok_def list_all_iff)

lemma ranges_on_single: "ranges_on R n [r] \<longleftrightarrow> br_fits r \<and> br_in_range r n \<and> R r"
  by (simp add: ranges_on_def)

lemma ranges_on_mono: "ranges_on R n rs \<Longrightarrow> (\<And>r. R r \<Longrightarrow> R' r) \<Longrightarrow> ranges_on R' n rs"
  by (auto simp: ranges_on_def list_all_iff)

lemma reads_on_mono: "reads_on R' d e \<Longrightarrow> (\<And>r. R r \<Longrightarrow> R' r) \<Longrightarrow> reads_on R d e"
  using ranges_on_mono[of R _ _ R'] by (auto simp: reads_on_def)

lemma absent_on_mono: "absent_on R' d n \<Longrightarrow> (\<And>r. R r \<Longrightarrow> R' r) \<Longrightarrow> absent_on R d n"
  using ranges_on_mono[of R _ _ R'] by (auto simp: absent_on_def)

lemma ranges_on_all: "R (FromStart 0 None) \<Longrightarrow> ranges_on R n [FromStart 0 None]"
  by (simp add: ranges_on_def)

lemma reads_partial_decode: "reads_on R d e \<Longrightarrow> ranges_on R (length e) [r] \<Longrightarrow> partial_decode d r = Inr (Some (br_selected r e))"
  by (rule partial_decode_single) (simp add: reads_on_def)

lemma reads_decode_all: "reads_on R d e \<Longrightarrow> R (FromStart 0 None) \<Longrightarrow> decode_all d = Inr (Some e)"
  unfolding decode_all_def using reads_partial_decode[OF _ ranges_on_all] by simp

lemma absent_partial_decode: "absent_on R d n \<Longrightarrow> ranges_on R n [r] \<Longrightarrow> partial_decode d r = Inr None"
  by (auto simp: absent_on_def partial_decode_def)

lemma absent_decode_all: "absent_on R d n \<Longrightarrow> R (FromStart 0 None) \<Longrightarrow> decode_all d = Inr None"
  unfolding decode_all_def by (rule absent_partial_decode[OF _ ranges_on_all])

lemma reads_vec: "length e < M64 \<Longrightarrow> reads_on R (vec_decoder e) e"
  by (simp add: reads_on_def vec_decoder_ok ranges_on_ok)

lemma reads_mutex: "length e < M64 \<Longrightarrow> reads_on R (mutex_decoder (Some e)) e"
  by (simp add: reads_on_def mutex_decoder_ok ranges_on_ok)

lemma absent_mutex: "absent_on R (mutex_decoder None) n"
  by (simp add: absent_on_def mutex_decoder_def)

subsection \<open>The contract of a bytes-to-bytes codec\<close>

text \<open>
  \<open>accepts\<close> is the set of values the codec can encode.  Decoding inverts encoding, with and without
  checksum validation and whatever the representation; the encoded representation of a fixed size is the size
  of the encoded value; and the partial decoder over a decoder that reads the encoded bytes reads the value, and reads nothing
  over one that reads nothing, on the ranges \<open>R\<close>, among them the whole value.
\<close>

locale bytes_to_bytes_codec =
  fixes C :: bytes_codec
    and accepts :: "bytes \<Rightarrow> bool"
    and R :: "byte_range \<Rightarrow> bool"
  assumes whole: "R (FromStart 0 None)"
    and roundtrip: "accepts b \<Longrightarrow> \<exists>e. bb_encode C b = Inr e \<and> length b < M64 \<and> length e < M64 \<and>
      (\<forall>validate r. bb_decode C validate r e = Inr b)"
    and encoded_size: "accepts b \<Longrightarrow> bb_encode C b = Inr e \<Longrightarrow>
      bb_encoded_representation C (FixedSize (length b)) = FixedSize n \<Longrightarrow> length e = n"
    and partial: "accepts b \<Longrightarrow> bb_encode C b = Inr e \<Longrightarrow> reads_on R d e \<Longrightarrow> reads_on R (bb_partial_decoder C validate r d) b"
    and partial_absent: "accepts b \<Longrightarrow> bb_encode C b = Inr e \<Longrightarrow> absent_on R d (length e) \<Longrightarrow>
      absent_on R (bb_partial_decoder C validate r d) (length b)"
    and concurrency: "\<exists>rc. bb_recommended_concurrency C r = Inr rc"
begin

text \<open>Over the encoded bytes in memory.\<close>

lemma partial_vec:
  assumes "accepts b" and "bb_encode C b = Inr e" and "ranges_ok b rs" and "list_all R rs"
  shows "bb_partial_decoder C validate r (vec_decoder e) rs = Inr (Some (map (\<lambda>r. br_selected r b) rs))"
proof -
  have "length e < M64" using roundtrip[OF assms(1)] assms(2) by auto
  from partial[OF assms(1,2) reads_vec[OF this]] show ?thesis using assms(3,4) by (auto simp: reads_on_def ranges_on_def ranges_ok_def list_all_iff)
qed

text \<open>
  The default partial encoder patches the decoded value.  The handle then holds the new encoded bytes,
  followed by what the old encoded bytes had beyond their length.
\<close>

lemma default_partial_encode_Some:
  assumes "accepts b" and "bb_encode C b = Inr e" and "list_all write_fits ovs"
    and "accepts (foldl overlay b ovs)" and "bb_encode C (foldl overlay b ovs) = Inr e'"
  shows "default_partial_encode_many C validate r (Some e) ovs = Inr (Some (e' @ drop (length e') e))"
proof -
  have e: "length e < M64" "bb_decode C validate r e = Inr b" using roundtrip[OF assms(1)] assms(2) by auto
  have e': "length e' < M64" using roundtrip[OF assms(4)] assms(5) by auto
  have "write_fits (0, e')" using e' by (simp add: write_fits_def)
  moreover have "overlay e (0, e') = e' @ drop (length e') e" by (simp add: overlay_def Let_def)
  ultimately show ?thesis
    using e assms(5) partial_many_loop_eq[of "[(0, e')]" e] partial_many_loop_eq[OF assms(3), of b]
    by (simp add: default_partial_encode_many_def decode_all_mutex mutex_partial_encode_many_def)
qed

lemma default_partial_encode_None:
  assumes "list_all write_fits ovs" and "accepts (foldl overlay [] ovs)"
    and "bb_encode C (foldl overlay [] ovs) = Inr e'"
  shows "default_partial_encode_many C validate r None ovs = Inr (Some e')"
proof -
  have "write_fits (0, e')" using roundtrip[OF assms(2)] assms(3) by (auto simp: write_fits_def)
  moreover have "overlay [] (0, e') = e'" by (simp add: overlay_def Let_def)
  ultimately show ?thesis
    using assms(3) partial_many_loop_eq[of "[(0, e')]" "[]"] partial_many_loop_eq[OF assms(1), of "[]"]
    by (simp add: default_partial_encode_many_def decode_all_mutex mutex_partial_encode_many_def)
qed

text \<open>When the encoded value does not shrink, the patched value is read back.\<close>

lemma default_partial_encode_read_back:
  assumes "accepts b" and "bb_encode C b = Inr e" and "list_all write_fits ovs"
    and "accepts (foldl overlay b ovs)" and "bb_encode C (foldl overlay b ovs) = Inr e'" and "length e \<le> length e'"
  shows "\<exists>e1. default_partial_encode_many C validate r (Some e) ovs = Inr (Some e1) \<and>
     bb_decode C validate' r' e1 = Inr (foldl overlay b ovs)"
  using default_partial_encode_Some[OF assms(1-5)] roundtrip[OF assms(4)] assms(5,6) by auto

end

text \<open>The trait's default partial decoder satisfies the partial laws.\<close>

lemma default_partial_decoder_ok:
  assumes "reads_on R d e" and "R (FromStart 0 None)" and "dec validate r e = Inr b" and "length b < M64"
  shows "reads_on R' (default_partial_decoder dec validate r d) b"
  using assms(3,4) reads_decode_all[OF assms(1,2)] vec_decoder_ok[of b]
  by (simp add: reads_on_def default_partial_decoder_def vec_decoder_def ranges_on_ok)

lemma default_partial_decoder_absent:
  "absent_on R d n \<Longrightarrow> R (FromStart 0 None) \<Longrightarrow> absent_on R' (default_partial_decoder dec validate r d) m"
  using absent_decode_all[of R d n] by (simp add: absent_on_def[of R'] default_partial_decoder_def)

end
