(* ===== verification/Checksum_Codecs.thy ===== *)
theory Checksum_Codecs
  imports Codec_Base
begin

unbundle bit_operations_syntax

text \<open>
  The checksum codecs \<open>fletcher32\<close>, \<open>crc32c\<close> and \<open>adler32\<close>
  (\<open>zarrs/src/array/codec/bytes_to_bytes\<close>) and the partial decoders that strip a prefix or a suffix.
  The Fletcher checksum is the code's own loop, with \<open>u32\<close> sums that wrap; the CRC and Adler checksums
  come from third-party crates and are a parameter, a function from bytes to a 32-bit word.
\<close>

definition CHECKSUM_SIZE :: usize where
  "CHECKSUM_SIZE = 4"

definition to_le_bytes :: "32 word \<Rightarrow> bytes" where
  "to_le_bytes w = [ucast w, ucast (drop_bit 8 w), ucast (drop_bit 16 w), ucast (drop_bit 24 w)]"

fun checksum_representation :: "bytes_representation \<Rightarrow> bytes_representation" where
  "checksum_representation (FixedSize n) = FixedSize (wadd n CHECKSUM_SIZE)"
| "checksum_representation (BoundedSize n) = BoundedSize (wadd n CHECKSUM_SIZE)"
| "checksum_representation UnboundedSize = UnboundedSize"

subsection \<open>Partial decoders that strip a prefix or a suffix\<close>

definition strip_prefix_range :: "usize \<Rightarrow> byte_range \<Rightarrow> codec_error + byte_range" where
  "strip_prefix_range n r =
     (case r of
        FromStart off len \<Rightarrow> (case checked_add off n of None \<Rightarrow> Inl CodecPanic | Some off \<Rightarrow> Inr (FromStart off len))
      | Suffix len \<Rightarrow> Inr (Suffix len))"

definition strip_prefix_decoder :: "usize \<Rightarrow> bytes_decoder \<Rightarrow> bytes_decoder" where
  "strip_prefix_decoder n input_handle rs = bind_res (collect_res (map (strip_prefix_range n) rs)) input_handle"

fun collect_res_opt :: "('e + 'a option) list \<Rightarrow> 'e + 'a list option" where
  "collect_res_opt [] = Inr (Some [])"
| "collect_res_opt (Inl e # xs) = Inl e"
| "collect_res_opt (Inr None # xs) = Inr None"
| "collect_res_opt (Inr (Some x) # xs) =
     (case collect_res_opt xs of Inl e \<Rightarrow> Inl e | Inr ys \<Rightarrow> Inr (map_option ((#) x) ys))"

definition strip_suffix_item :: "usize \<Rightarrow> bytes_decoder \<Rightarrow> byte_range \<Rightarrow> codec_error + bytes option" where
  "strip_suffix_item n input_handle r =
     bind_res (partial_decode input_handle r) (\<lambda>b.
       Inr (map_option (\<lambda>b.
         case r of
           FromStart _ (Some _) \<Rightarrow> b
         | FromStart _ None \<Rightarrow> take (wsub (length b) n) b
         | Suffix _ \<Rightarrow> take (wsub (length b) n) b) b))"

definition strip_suffix_decoder :: "usize \<Rightarrow> bytes_decoder \<Rightarrow> bytes_decoder" where
  "strip_suffix_decoder n input_handle rs = collect_res_opt (map (strip_suffix_item n input_handle) rs)"

subsection \<open>Fletcher-32\<close>

definition wadd32 :: "nat \<Rightarrow> nat \<Rightarrow> nat" where
  "wadd32 a b = (a + b) mod 2 ^ 32"

text \<open>\<open>(u16::from(data[i]) << 8) | u16::from(data[i + 1])\<close>\<close>

definition be_pair :: "u8 \<Rightarrow> u8 \<Rightarrow> nat" where
  "be_pair a b = push_bit 8 (unat a) OR unat b"

text \<open>\<open>(s & 0xffff) + (s >> 16)\<close>\<close>

definition fold16 :: "nat \<Rightarrow> nat" where
  "fold16 s = wadd32 (s AND 0xFFFF) (drop_bit 16 s)"

fun fletcher_block :: "bytes \<Rightarrow> nat \<Rightarrow> nat \<times> nat \<times> nat \<Rightarrow> nat \<times> nat \<times> nat" where
  "fletcher_block data 0 (data_idx, sum1, sum2) = (data_idx, sum1, sum2)"
| "fletcher_block data (Suc tlen) (data_idx, sum1, sum2) =
     (let sum1 = wadd32 sum1 (be_pair (data ! data_idx) (data ! (data_idx + 1)));
          data_idx = data_idx + 2;
          sum2 = wadd32 sum2 sum1
      in fletcher_block data tlen (data_idx, sum1, sum2))"

function fletcher_loop :: "bytes \<Rightarrow> nat \<Rightarrow> nat \<times> nat \<times> nat \<Rightarrow> nat \<times> nat \<times> nat \<times> nat" where
  "fletcher_loop data len st =
     (if 0 < len then
        let tlen = min len 360;
            len = len - tlen;
            (data_idx, sum1, sum2) = fletcher_block data tlen st
        in fletcher_loop data len (data_idx, fold16 sum1, fold16 sum2)
      else (len, st))"
  by pat_completeness auto
termination by (relation "measure (\<lambda>(_, len, _). len)") auto

declare fletcher_loop.simps [simp del]

definition h5_checksum_fletcher32 :: "bytes \<Rightarrow> nat" where
  "h5_checksum_fletcher32 data =
     (let (len, data_idx, sum1, sum2) = fletcher_loop data (length data div 2) (0, 0, 0);
          (sum1, sum2) =
            (if len mod 2 = 1 then
               let sum1 = wadd32 sum1 (push_bit 8 (unat (data ! data_idx)));
                   sum2 = wadd32 sum2 sum1
               in (fold16 sum1, fold16 sum2)
             else (sum1, sum2));
          sum1 = fold16 sum1;
          sum2 = fold16 sum2
      in (push_bit 16 sum2 mod 2 ^ 32) OR sum1)"

definition fletcher32_checksum :: "bytes \<Rightarrow> bytes" where
  "fletcher32_checksum data = to_le_bytes (word_of_nat (h5_checksum_fletcher32 data))"

definition fletcher32_encode :: "bytes \<Rightarrow> codec_error + bytes" where
  "fletcher32_encode decoded_value = Inr (decoded_value @ fletcher32_checksum decoded_value)"

definition fletcher32_decode :: "bool \<Rightarrow> bytes \<Rightarrow> codec_error + bytes" where
  "fletcher32_decode validate_checksums encoded_value =
     (if CHECKSUM_SIZE \<le> length encoded_value then
        let n = length encoded_value - CHECKSUM_SIZE in
        if validate_checksums \<and> fletcher32_checksum (take n encoded_value) \<noteq> drop n encoded_value
        then Inl InvalidChecksum
        else Inr (take n encoded_value)
      else Inl (CodecOther ''fletcher32 decoder expects a 32 bit input''))"

definition fletcher32_codec :: bytes_codec where
  "fletcher32_codec =
     \<lparr>bb_encode = fletcher32_encode,
      bb_decode = (\<lambda>validate _. fletcher32_decode validate),
      bb_partial_decoder = (\<lambda>_ _. strip_suffix_decoder CHECKSUM_SIZE),
      bb_encoded_representation = checksum_representation,
      bb_capability = \<lparr>can_partial_read = False, can_partial_decode = False\<rparr>,
      bb_recommended_concurrency = (\<lambda>_. Inr (recommended_new 0 1))\<rparr>"

subsection \<open>CRC-32C and Adler-32\<close>

datatype checksum_location = LocationStart | LocationEnd

definition crc32c_encode :: "(bytes \<Rightarrow> 32 word) \<Rightarrow> checksum_location \<Rightarrow> bytes \<Rightarrow> codec_error + bytes" where
  "crc32c_encode crc32c location decoded_value =
     (let checksum = to_le_bytes (crc32c decoded_value) in
      Inr (case location of
             LocationEnd \<Rightarrow> decoded_value @ checksum
           | LocationStart \<Rightarrow> checksum @ decoded_value))"

definition crc32c_decode ::
    "(bytes \<Rightarrow> 32 word) \<Rightarrow> checksum_location \<Rightarrow> bool \<Rightarrow> bytes \<Rightarrow> codec_error + bytes" where
  "crc32c_decode crc32c location validate_checksums encoded_value =
     (if CHECKSUM_SIZE \<le> length encoded_value then
        let (data, checksum_stored) =
          (case location of
             LocationEnd \<Rightarrow> (take (length encoded_value - CHECKSUM_SIZE) encoded_value,
                              drop (length encoded_value - CHECKSUM_SIZE) encoded_value)
           | LocationStart \<Rightarrow> (drop CHECKSUM_SIZE encoded_value, take CHECKSUM_SIZE encoded_value))
        in if validate_checksums \<and> to_le_bytes (crc32c data) \<noteq> checksum_stored
           then Inl InvalidChecksum
           else Inr data
      else Inl (CodecOther ''crc32c decoder expects a 32 bit input''))"

definition crc32c_codec :: "(bytes \<Rightarrow> 32 word) \<Rightarrow> checksum_location \<Rightarrow> bytes_codec" where
  "crc32c_codec crc32c location =
     \<lparr>bb_encode = crc32c_encode crc32c location,
      bb_decode = (\<lambda>validate _. crc32c_decode crc32c location validate),
      bb_partial_decoder = (\<lambda>_ _. case location of
          LocationEnd \<Rightarrow> strip_suffix_decoder CHECKSUM_SIZE
        | LocationStart \<Rightarrow> strip_prefix_decoder CHECKSUM_SIZE),
      bb_encoded_representation = checksum_representation,
      bb_capability = \<lparr>can_partial_read = False, can_partial_decode = False\<rparr>,
      bb_recommended_concurrency = (\<lambda>_. Inr (recommended_new 0 1))\<rparr>"

definition adler32_encode :: "(bytes \<Rightarrow> 32 word) \<Rightarrow> checksum_location \<Rightarrow> bytes \<Rightarrow> codec_error + bytes" where
  "adler32_encode adler32 location decoded_value =
     (let checksum = to_le_bytes (adler32 decoded_value) in
      Inr (case location of
             LocationStart \<Rightarrow> checksum @ decoded_value
           | LocationEnd \<Rightarrow> decoded_value @ checksum))"

definition adler32_decode ::
    "(bytes \<Rightarrow> 32 word) \<Rightarrow> checksum_location \<Rightarrow> bool \<Rightarrow> bytes \<Rightarrow> codec_error + bytes" where
  "adler32_decode adler32 location validate_checksums encoded_value =
     (if CHECKSUM_SIZE \<le> length encoded_value then
        let (decoded_value, checksum) =
          (case location of
             LocationStart \<Rightarrow> (drop CHECKSUM_SIZE encoded_value, take CHECKSUM_SIZE encoded_value)
           | LocationEnd \<Rightarrow>
               (let checksum_start = length encoded_value - CHECKSUM_SIZE
                in (take checksum_start encoded_value, drop checksum_start encoded_value)))
        in if validate_checksums \<and> to_le_bytes (adler32 decoded_value) \<noteq> checksum
           then Inl InvalidChecksum
           else Inr decoded_value
      else Inl (CodecOther ''adler32 decoder expects a 32 bit input''))"

definition adler32_codec :: "(bytes \<Rightarrow> 32 word) \<Rightarrow> checksum_location \<Rightarrow> bytes_codec" where
  "adler32_codec adler32 location =
     \<lparr>bb_encode = adler32_encode adler32 location,
      bb_decode = (\<lambda>validate _. adler32_decode adler32 location validate),
      bb_partial_decoder = (\<lambda>_ _. case location of
          LocationStart \<Rightarrow> strip_prefix_decoder CHECKSUM_SIZE
        | LocationEnd \<Rightarrow> strip_suffix_decoder CHECKSUM_SIZE),
      bb_encoded_representation = checksum_representation,
      bb_capability = \<lparr>can_partial_read = False, can_partial_decode = False\<rparr>,
      bb_recommended_concurrency = (\<lambda>_. Inr (recommended_new 0 1))\<rparr>"

subsection \<open>The strip decoders over a value\<close>

definition checksum_accepts :: "bytes \<Rightarrow> bool" where
  "checksum_accepts b \<longleftrightarrow> length b + CHECKSUM_SIZE < M64"

lemma length_to_le_bytes [simp]: "length (to_le_bytes w) = CHECKSUM_SIZE"
  by (simp add: to_le_bytes_def CHECKSUM_SIZE_def)

lemma length_fletcher32_checksum [simp]: "length (fletcher32_checksum b) = CHECKSUM_SIZE"
  by (simp add: fletcher32_checksum_def)

lemma collect_res_opt_Some [simp]: "collect_res_opt (map (\<lambda>x. Inr (Some (f x))) xs) = Inr (Some (map f xs))"
  by (induction xs) simp_all

lemma strip_suffix_item_ok:
  assumes "reads_on R d (b @ c)" and "ranges_on R (length b) [r]" and "from_start_range r"
  shows "strip_suffix_item (length c) d r = Inr (Some (br_selected r b))"
proof -
  have "length b + length c < M64" using assms(1) by (simp add: reads_on_def)
  moreover have "partial_decode d r = Inr (Some (br_selected r (b @ c)))"
    by (rule reads_partial_decode[OF assms(1)])
      (use assms(2,3) in \<open>cases "(r, length b)" rule: br_in_range.cases; simp add: ranges_on_single\<close>)
  ultimately show ?thesis
    using assms(2,3) by (cases "(r, length b)" rule: br_in_range.cases)
      (auto simp: strip_suffix_item_def ranges_on_single wsub_eq)
qed

lemma strip_suffix_ok:
  assumes "reads_on R d (b @ c)" and "\<And>r. R r \<Longrightarrow> from_start_range r"
  shows "reads_on R (strip_suffix_decoder (length c) d) b"
proof -
  have "map (strip_suffix_item (length c) d) rs = map (\<lambda>r. Inr (Some (br_selected r b))) rs" if "ranges_on R (length b) rs" for rs
    using that strip_suffix_item_ok[OF assms(1)] assms(2) by (auto simp: ranges_on_def list_all_iff)
  then show ?thesis using assms(1) by (simp add: reads_on_def strip_suffix_decoder_def del: map_eq_conv)
qed

lemma strip_suffix_absent:
  assumes "absent_on R d (m + n)" and "\<And>r. R r \<Longrightarrow> from_start_range r"
  shows "absent_on R (strip_suffix_decoder n d) m"
proof -
  have "strip_suffix_item n d r = Inr None" if "ranges_on R m [r]" for r
  proof -
    have "ranges_on R (m + n) [r]"
      using that assms(2)[of r] by (cases "(r, m)" rule: br_in_range.cases) (simp_all add: ranges_on_single)
    then show ?thesis using absent_partial_decode[OF assms(1)] by (simp add: strip_suffix_item_def)
  qed
  then have "rs \<noteq> [] \<Longrightarrow> ranges_on R m rs \<Longrightarrow> collect_res_opt (map (strip_suffix_item n d) rs) = Inr None" for rs
    by (cases rs) (simp_all add: ranges_on_def)
  then show ?thesis
    unfolding absent_on_def strip_suffix_decoder_def by (metis collect_res_opt.simps(1) list.simps(8))
qed

lemma strip_prefix_range_ok:
  assumes "length c + n < M64" and "ranges_on from_start_range n [r]"
  shows "\<exists>r'. strip_prefix_range (length c) r = Inr r' \<and> ranges_on from_start_range (length c + n) [r'] \<and>
     (\<forall>b. length b = n \<longrightarrow> br_selected r' (c @ b) = br_selected r b)"
  using assms
  by (cases "(r, n)" rule: br_in_range.cases) (auto simp: strip_prefix_range_def checked_add_def ranges_on_single)

lemma strip_prefix_ranges_ok:
  assumes "length c + n < M64" and "ranges_on from_start_range n rs"
  obtains rs' where "collect_res (map (strip_prefix_range (length c)) rs) = Inr rs'"
    and "ranges_on from_start_range (length c + n) rs'" and "rs' = [] \<longleftrightarrow> rs = []"
    and "\<And>b. length b = n \<Longrightarrow> map (\<lambda>r. br_selected r (c @ b)) rs' = map (\<lambda>r. br_selected r b) rs"
proof -
  have "\<exists>f. \<forall>r \<in> set rs. strip_prefix_range (length c) r = Inr (f r) \<and> ranges_on from_start_range (length c + n) [f r] \<and>
      (\<forall>b. length b = n \<longrightarrow> br_selected (f r) (c @ b) = br_selected r b)"
    using strip_prefix_range_ok[OF assms(1)] assms(2) by (intro bchoice) (auto simp: ranges_on_def list_all_iff)
  then obtain f where f: "\<And>r. r \<in> set rs \<Longrightarrow> strip_prefix_range (length c) r = Inr (f r) \<and>
      ranges_on from_start_range (length c + n) [f r] \<and> (\<forall>b. length b = n \<longrightarrow> br_selected (f r) (c @ b) = br_selected r b)" by blast
  have "map (strip_prefix_range (length c)) rs = map (\<lambda>r. Inr (f r)) rs" using f by simp
  then have "collect_res (map (strip_prefix_range (length c)) rs) = Inr (map f rs)" by (simp del: map_eq_conv)
  moreover have "ranges_on from_start_range (length c + n) (map f rs)" using f by (auto simp: ranges_on_def list_all_iff)
  ultimately show ?thesis using that f by simp
qed

lemma strip_prefix_ok:
  assumes "reads_on from_start_range d (c @ b)"
  shows "reads_on from_start_range (strip_prefix_decoder (length c) d) b"
proof -
  have len: "length c + length b < M64" using assms by (simp add: reads_on_def)
  have "strip_prefix_decoder (length c) d rs = Inr (Some (map (\<lambda>r. br_selected r b) rs))"
    if rs: "ranges_on from_start_range (length b) rs" for rs
    by (rule strip_prefix_ranges_ok[OF len rs]) (use assms in \<open>simp add: strip_prefix_decoder_def reads_on_def\<close>)
  then show ?thesis using len by (simp add: reads_on_def)
qed

lemma strip_prefix_absent:
  assumes "absent_on from_start_range d (length c + n)" and "length c + n < M64"
  shows "absent_on from_start_range (strip_prefix_decoder (length c) d) n"
  unfolding absent_on_def[of _ _ n]
proof (intro allI impI)
  fix rs assume rs: "ranges_on from_start_range n rs"
  show "strip_prefix_decoder (length c) d rs = Inr None \<or> rs = [] \<and> strip_prefix_decoder (length c) d rs = Inr (Some [])"
    by (rule strip_prefix_ranges_ok[OF assms(2) rs]) (use assms(1) in \<open>auto simp: strip_prefix_decoder_def absent_on_def\<close>)
qed

text \<open>
  The suffix decoder does not extend a suffix range by the stripped suffix: of \<open>k\<close> requested bytes, the
  last \<open>k\<close> of the encoded value are read and cut, so the last \<open>k - n\<close> of the value remain.
\<close>

lemma strip_suffix_short:
  assumes "length b + length c < M64" and "length c \<le> k" and "k \<le> length b"
  shows "strip_suffix_decoder (length c) (vec_decoder (b @ c)) [Suffix k] =
     Inr (Some [br_selected (Suffix (k - length c)) b])"
proof -
  have "partial_decode (vec_decoder (b @ c)) (Suffix k) = Inr (Some (drop (length (b @ c) - k) (b @ c)))"
    by (rule partial_decode_single) (use assms in \<open>simp add: vec_decoder_ok ranges_ok_def\<close>)
  then show ?thesis using assms by (simp add: strip_suffix_decoder_def strip_suffix_item_def wsub_eq)
qed

subsection \<open>The contract for the checksum codecs\<close>

text \<open>
  A checksum at the end is stripped from any ranges that are given from the start.  One at the start turns the open range of the
  whole value into an open range behind the checksum, so that its decoder has to support these.
\<close>

definition strippable :: "(byte_range \<Rightarrow> bool) \<Rightarrow> checksum_location \<Rightarrow> bool" where
  "strippable R location \<longleftrightarrow>
     (case location of LocationStart \<Rightarrow> R = from_start_range | LocationEnd \<Rightarrow> R = from_start_range \<or> R = interval_range)"

lemma strippableD: "strippable R location \<Longrightarrow> R r \<Longrightarrow> from_start_range r"
  "strippable R location \<Longrightarrow> R (FromStart 0 None)" "strippable R LocationStart \<Longrightarrow> R = from_start_range"
  using interval_from_start by (auto simp: strippable_def split: checksum_location.splits)

lemma fletcher32_lawful:
  assumes "strippable R LocationEnd"
  shows "bytes_to_bytes_codec fletcher32_codec checksum_accepts R"
proof (unfold_locales, goal_cases)
  case 1
  show ?case by (rule strippableD(2)[OF assms])
next
  case (2 b)
  then show ?case
    by (simp add: fletcher32_codec_def fletcher32_encode_def fletcher32_decode_def checksum_accepts_def)
next
  case (3 b e n)
  then show ?case
    by (auto simp: fletcher32_codec_def fletcher32_encode_def checksum_accepts_def wadd_eq)
next
  case (4 b e d validate r)
  then show ?case
    using strip_suffix_ok[of R d b "fletcher32_checksum b"] strippableD(1)[OF assms]
    by (auto simp: fletcher32_codec_def fletcher32_encode_def)
next
  case (5 b e d validate r)
  then show ?case
    using strip_suffix_absent[of R d "length b" CHECKSUM_SIZE] strippableD(1)[OF assms]
    by (auto simp: fletcher32_codec_def fletcher32_encode_def)
next
  case (6 r)
  then show ?case by (simp add: fletcher32_codec_def)
qed

interpretation fletcher32: bytes_to_bytes_codec fletcher32_codec checksum_accepts from_start_range
  by (rule fletcher32_lawful) (simp add: strippable_def)

lemma crc32c_lawful:
  assumes "strippable R location"
  shows "bytes_to_bytes_codec (crc32c_codec crc location) checksum_accepts R"
proof (unfold_locales, goal_cases)
  case 1
  show ?case by (rule strippableD(2)[OF assms])
next
  case (2 b)
  then show ?case
    by (cases location) (simp_all add: crc32c_codec_def crc32c_encode_def crc32c_decode_def checksum_accepts_def Let_def)
next
  case (3 b e n)
  then show ?case
    by (cases location) (auto simp: crc32c_codec_def crc32c_encode_def checksum_accepts_def wadd_eq)
next
  case (4 b e d validate r)
  then show ?case
    using strip_suffix_ok[of R d b "to_le_bytes (crc b)"] strip_prefix_ok[of d "to_le_bytes (crc b)" b]
      strippableD(1)[OF assms] strippableD(3)[of R] assms
    by (cases location) (auto simp: crc32c_codec_def crc32c_encode_def)
next
  case (5 b e d validate r)
  then show ?case
    using strip_suffix_absent[of R d "length b" CHECKSUM_SIZE] strip_prefix_absent[of d "to_le_bytes (crc b)" "length b"]
      strippableD(1)[OF assms] strippableD(3)[of R] assms
    by (cases location) (auto simp: crc32c_codec_def crc32c_encode_def checksum_accepts_def add.commute)
next
  case (6 r)
  then show ?case by (simp add: crc32c_codec_def)
qed

interpretation crc32c: bytes_to_bytes_codec "crc32c_codec crc location" checksum_accepts from_start_range for crc location
  by (rule crc32c_lawful) (simp add: strippable_def split: checksum_location.splits)

lemma adler32_lawful:
  assumes "strippable R location"
  shows "bytes_to_bytes_codec (adler32_codec adler location) checksum_accepts R"
proof (unfold_locales, goal_cases)
  case 1
  show ?case by (rule strippableD(2)[OF assms])
next
  case (2 b)
  then show ?case
    by (cases location) (simp_all add: adler32_codec_def adler32_encode_def adler32_decode_def checksum_accepts_def Let_def)
next
  case (3 b e n)
  then show ?case
    by (cases location) (auto simp: adler32_codec_def adler32_encode_def checksum_accepts_def wadd_eq)
next
  case (4 b e d validate r)
  then show ?case
    using strip_suffix_ok[of R d b "to_le_bytes (adler b)"] strip_prefix_ok[of d "to_le_bytes (adler b)" b]
      strippableD(1)[OF assms] strippableD(3)[of R] assms
    by (cases location) (auto simp: adler32_codec_def adler32_encode_def)
next
  case (5 b e d validate r)
  then show ?case
    using strip_suffix_absent[of R d "length b" CHECKSUM_SIZE] strip_prefix_absent[of d "to_le_bytes (adler b)" "length b"]
      strippableD(1)[OF assms] strippableD(3)[of R] assms
    by (cases location) (auto simp: adler32_codec_def adler32_encode_def checksum_accepts_def add.commute)
next
  case (6 r)
  then show ?case by (simp add: adler32_codec_def)
qed

interpretation adler32: bytes_to_bytes_codec "adler32_codec adler location" checksum_accepts from_start_range for adler location
  by (rule adler32_lawful) (simp add: strippable_def split: checksum_location.splits)

end
