(* ===== verification/Fletcher_Checksum.thy ===== *)
theory Fletcher_Checksum
  imports Checksum_Codecs
begin

unbundle bit_operations_syntax

text \<open>
  What the Fletcher-32 loop of \<open>fletcher32_codec.rs\<close> computes: its \<open>u32\<close> sums never wrap, since a block
  has at most 360 words, and they are the two Fletcher sums modulo 65535.  Which changes of the data
  the checksum detects follows, and the properties of the three checksum codecs.
\<close>

subsection \<open>The Fletcher sums\<close>

text \<open>
  The 16-bit words of the data, big endian, an odd last byte dropped.  The sums of the checksum are the
  sum of the words and the sum of its prefix sums, modulo 65535; \<open>fl_exact\<close> computes them without reduction.
\<close>

fun fl_words :: "bytes \<Rightarrow> nat list" where
  "fl_words (a # b # bs) = (256 * unat a + unat b) # fl_words bs"
| "fl_words _ = []"

definition fl_sum1 :: "nat list \<Rightarrow> nat" where
  "fl_sum1 ws = sum_list ws"

definition fl_sum2 :: "nat list \<Rightarrow> nat" where
  "fl_sum2 ws = (\<Sum>i < length ws. (length ws - i) * ws ! i)"

fun fl_exact :: "bytes \<Rightarrow> nat \<Rightarrow> nat \<Rightarrow> nat \<times> nat \<Rightarrow> nat \<times> nat" where
  "fl_exact data i 0 st = st"
| "fl_exact data i (Suc t) (s1, s2) =
     (let s1 = s1 + be_pair (data ! i) (data ! (i + 1)) in fl_exact data (i + 2) t (s1, s2 + s1))"

lemma unat_u8: "unat (a :: u8) < 256"
  using unsigned_less[of a] by simp

lemma or_disjoint: "(y :: nat) < 2 ^ n \<Longrightarrow> push_bit n x OR y = push_bit n x + y"
proof -
  assume y: "y < 2 ^ n"
  have "\<not> bit (push_bit n x) i \<or> \<not> bit y i" for i
  proof (cases "i < n")
    case False
    then have "take_bit n y = y" "n \<le> i" using y by (simp_all add: take_bit_nat_eq_self)
    then have "\<not> bit y i" by (metis bit_take_bit_iff leD)
    then show ?thesis ..
  qed (simp add: bit_push_bit_iff)
  then show ?thesis by (simp add: disjunctive_add)
qed

lemma be_pair_eq: "be_pair a b = 256 * unat a + unat b"
  using or_disjoint[of "unat b" 8 "unat a"] unat_u8[of b] by (simp add: be_pair_def push_bit_eq_mult)

lemma be_pair_le: "be_pair a b \<le> 65535"
  using unat_u8[of a] unat_u8[of b] by (simp add: be_pair_eq)

lemma fold16_eq: "s < 2 ^ 32 \<Longrightarrow> fold16 s = s mod 65536 + s div 65536"
proof -
  assume s: "s < 2 ^ 32"
  have "s AND 0xFFFF = s AND mask 16" by (simp add: mask_eq_exp_minus_1)
  also have "\<dots> = s mod 65536" by (simp flip: take_bit_eq_mask add: take_bit_eq_mod)
  finally have "s AND 0xFFFF = s mod 65536" .
  moreover have "drop_bit 16 s = s div 65536" by (simp add: drop_bit_eq_div)
  moreover have "s mod 65536 + s div 65536 < 2 ^ 32" using s by (simp add: less_mult_imp_div_less) 
  ultimately show ?thesis by (simp add: fold16_def wadd32_def)
qed

lemma fold16_mod: "s < 2 ^ 32 \<Longrightarrow> fold16 s mod 65535 = s mod 65535"
proof -
  assume s: "s < 2 ^ 32"
  have "s = 65536 * (s div 65536) + s mod 65536" by simp
  also have "\<dots> = 65535 * (s div 65536) + (s mod 65536 + s div 65536)" by simp
  finally show ?thesis using fold16_eq[OF s] by (metis mod_mult_self4)
qed

lemma fl_exact_Suc:
  "fl_exact data i (Suc t) (a, b) = fl_exact data (i + 2) t
     (a + be_pair (data ! i) (data ! (i + 1)), b + (a + be_pair (data ! i) (data ! (i + 1))))"
  by (simp add: Let_def)

lemma fletcher_block_eq:
  "s1 + t * 65535 < 2 ^ 32 \<Longrightarrow> 2 * s2 + 2 * t * s1 + 65535 * t * (t + 1) < 2 ^ 33 \<Longrightarrow>
     fletcher_block data t (i, s1, s2) = (i + 2 * t, fl_exact data i t (s1, s2)) \<and>
     fst (fl_exact data i t (s1, s2)) \<le> s1 + t * 65535 \<and>
     2 * snd (fl_exact data i t (s1, s2)) \<le> 2 * s2 + 2 * t * s1 + 65535 * t * (t + 1)"
proof (induction t arbitrary: i s1 s2)
  case (Suc t)
  define w where "w = be_pair (data ! i) (data ! (i + 1))"
  have w: "w \<le> 65535" by (simp add: w_def be_pair_le)
  have 1: "s1 + w + t * 65535 \<le> s1 + Suc t * 65535" using w by simp
  define x where "x = t * w"
  have x: "x \<le> 65535 * t" unfolding x_def using w by (simp add: mult.commute)
  have "2 * (s2 + (s1 + w)) + 2 * t * (s1 + w) + 65535 * t * (t + 1) =
      2 * s2 + 2 * s1 + 2 * w + 2 * (t * s1) + 2 * x + 65535 * t * (t + 1)" by (simp add: x_def algebra_simps)
  moreover have "2 * s2 + 2 * Suc t * s1 + 65535 * Suc t * (Suc t + 1) =
      2 * s2 + 2 * s1 + 2 * (t * s1) + 65535 * t * (t + 1) + 131070 * t + 131070" by (simp add: algebra_simps)
  ultimately have 2: "2 * (s2 + (s1 + w)) + 2 * t * (s1 + w) + 65535 * t * (t + 1) \<le>
      2 * s2 + 2 * Suc t * s1 + 65535 * Suc t * (Suc t + 1)"
    using w x by linarith
  have "2 * (s2 + (s1 + w)) < 2 ^ 33" using 2 Suc.prems(2) by linarith
  then have s: "wadd32 s1 w = s1 + w" "wadd32 s2 (s1 + w) = s2 + (s1 + w)"
    using 1 Suc.prems(1) by (simp_all add: wadd32_def)
  have stepB: "fletcher_block data (Suc t) (i, s1, s2) = fletcher_block data t (i + 2, s1 + w, s2 + (s1 + w))"
    using s by (simp add: Let_def w_def)
  have stepE: "fl_exact data i (Suc t) (s1, s2) = fl_exact data (i + 2) t (s1 + w, s2 + (s1 + w))"
    unfolding fl_exact_Suc w_def ..
  from Suc.IH[of "s1 + w" "s2 + (s1 + w)" "i + 2"] 1 2 Suc.prems
  show ?case unfolding stepB stepE by (intro conjI) (linarith | simp)+
qed simp

lemma fl_exact_add: "fl_exact data i (m + n) st = fl_exact data (i + 2 * m) n (fl_exact data i m st)"
  by (induction data i m st rule: fl_exact.induct) (simp_all add: Let_def)

lemma fl_exact_cong:
  "a mod 65535 = a' mod 65535 \<Longrightarrow> b mod 65535 = b' mod 65535 \<Longrightarrow>
     fst (fl_exact data i t (a, b)) mod 65535 = fst (fl_exact data i t (a', b')) mod 65535 \<and>
     snd (fl_exact data i t (a, b)) mod 65535 = snd (fl_exact data i t (a', b')) mod 65535"
proof (induction t arbitrary: i a b a' b')
  case (Suc t)
  show ?case
    unfolding fl_exact_Suc
    by (rule Suc.IH) (intro mod_add_cong Suc.prems refl)+
qed simp

text \<open>The bounds the loop keeps on its two sums, and their values modulo 65535.\<close>

definition sums_bounded :: "nat \<Rightarrow> nat \<Rightarrow> bool" where
  "sums_bounded s1 s2 \<longleftrightarrow> s1 \<le> 65895 \<and> s2 \<le> 131070"

lemma fold16_bound: "s < 2 ^ 32 \<Longrightarrow> fold16 s \<le> 65535 + s div 65536"
  using fold16_eq[of s] by simp

lemma fletcher_block_bounded:
  assumes "sums_bounded s1 s2" and "t \<le> 360"
  obtains a b where "fletcher_block data t (i, s1, s2) = (i + 2 * t, a, b)" and "(a, b) = fl_exact data i t (s1, s2)"
    and "a < 2 ^ 32" and "b < 2 ^ 32" and "sums_bounded (fold16 a) (fold16 b)"
proof -
  obtain a b where ab: "fl_exact data i t (s1, s2) = (a, b)" by fastforce
  have s: "s1 \<le> 65895" "s2 \<le> 131070" using assms(1) by (simp_all add: sums_bounded_def)
  have t1: "t * s1 \<le> 360 * 65895" using s assms(2) by (intro mult_le_mono)
  have t2: "t * (t + 1) \<le> 360 * 361" using assms(2) by (intro mult_le_mono) simp_all
  have 1: "s1 + t * 65535 \<le> 65895 + 360 * 65535" using s assms(2) by simp
  have 2: "2 * s2 + 2 * t * s1 + 65535 * t * (t + 1) \<le> 2 * 131070 + 2 * (360 * 65895) + 65535 * (360 * 361)"
    using s t1 t2 unfolding mult.assoc by linarith
  have "s1 + t * 65535 < 2 ^ 32" "2 * s2 + 2 * t * s1 + 65535 * t * (t + 1) < 2 ^ 33" using 1 2 by simp_all
  from fletcher_block_eq[OF this, of data i] ab
  have blk: "fletcher_block data t (i, s1, s2) = (i + 2 * t, a, b)"
    and a: "a \<le> 65895 + 360 * 65535" and b: "2 * b \<le> 2 * 131070 + 2 * (360 * 65895) + 65535 * (360 * 361)"
    using 1 2 by simp_all
  have lt: "a < 2 ^ 32" "b < 2 ^ 32" using a b by simp_all
  have "a div 65536 \<le> (65895 + 360 * 65535) div 65536" using a by (rule div_le_mono)
  moreover have "b \<le> 4282317570" using b by simp
  then have "b div 65536 \<le> 4282317570 div 65536" by (rule div_le_mono)
  ultimately have "sums_bounded (fold16 a) (fold16 b)"
    using fold16_bound[OF lt(1)] fold16_bound[OF lt(2)] by (simp add: sums_bounded_def)
  then show thesis using that[OF blk _ lt] ab by simp
qed

lemma fletcher_loop_eq:
  "sums_bounded s1 s2 \<Longrightarrow>
     \<exists>a b. fletcher_loop data len (i, s1, s2) = (0, i + 2 * len, a, b) \<and> sums_bounded a b \<and>
       a mod 65535 = fst (fl_exact data i len (s1, s2)) mod 65535 \<and>
       b mod 65535 = snd (fl_exact data i len (s1, s2)) mod 65535"
proof (induction len arbitrary: i s1 s2 rule: less_induct)
  case (less len)
  show ?case
  proof (cases "len = 0")
    case True
    then show ?thesis using less.prems by (simp add: fletcher_loop.simps)
  next
    case False
    define t where "t = min len 360"
    obtain a b where ab: "fletcher_block data t (i, s1, s2) = (i + 2 * t, a, b)" "(a, b) = fl_exact data i t (s1, s2)"
        "a < 2 ^ 32" "b < 2 ^ 32" "sums_bounded (fold16 a) (fold16 b)"
      using fletcher_block_bounded[OF less.prems, of t data i] by (auto simp: t_def)
    have len: "len - t < len" "t \<le> len" using False by (simp_all add: t_def)
    have "fl_exact data i len (s1, s2) = fl_exact data (i + 2 * t) (len - t) (a, b)"
      using fl_exact_add[of data i t "len - t" "(s1, s2)"] ab(2) len(2) by simp
    moreover have "fletcher_loop data len (i, s1, s2) = fletcher_loop data (len - t) (i + 2 * t, fold16 a, fold16 b)"
      using False ab(1) by (subst fletcher_loop.simps) (simp add: Let_def flip: t_def)
    moreover have end_idx: "i + 2 * t + 2 * (len - t) = i + 2 * len" using len(2) by simp
    ultimately show ?thesis
      using less.IH[OF len(1) ab(5), of "i + 2 * t", unfolded end_idx]
        fl_exact_cong[OF fold16_mod[OF ab(3)] fold16_mod[OF ab(4)], of data "i + 2 * t" "len - t"] by simp
  qed
qed

lemma fl_exact_words:
  "2 * t \<le> length data - i \<Longrightarrow> i \<le> length data \<Longrightarrow> t = length (fl_words (drop i data)) \<Longrightarrow>
     fl_exact data i t (s1, s2) =
       (s1 + fl_sum1 (fl_words (drop i data)), s2 + t * s1 + fl_sum2 (fl_words (drop i data)))"
proof (induction t arbitrary: i s1 s2)
  case 0
  then show ?case by (simp add: fl_sum1_def fl_sum2_def)
next
  case (Suc t)
  then have lt: "Suc i < length data" by simp
  then have d: "drop i data = data ! i # data ! Suc i # drop (i + 2) data"
    by (simp add: Cons_nth_drop_Suc)
  define w where "w = be_pair (data ! i) (data ! (i + 1))"
  define ws where "ws = fl_words (drop (i + 2) data)"
  have ws: "fl_words (drop i data) = w # ws" by (simp add: d w_def ws_def be_pair_eq)
  have t: "t = length ws" using Suc.prems(3) by (simp add: ws)
  have sum2: "fl_sum2 (w # ws) = Suc t * w + fl_sum2 ws"
    by (simp add: fl_sum2_def t sum.lessThan_Suc_shift del: sum.lessThan_Suc)
  have "fl_exact data i (Suc t) (s1, s2) = fl_exact data (i + 2) t (s1 + w, s2 + (s1 + w))"
    unfolding fl_exact_Suc w_def ..
  also have "\<dots> = (s1 + w + fl_sum1 ws, s2 + (s1 + w) + t * (s1 + w) + fl_sum2 ws)"
    unfolding ws_def by (rule Suc.IH) (use Suc.prems lt t in \<open>simp_all add: ws_def\<close>)
  also have "\<dots> = (s1 + fl_sum1 (w # ws), s2 + Suc t * s1 + fl_sum2 (w # ws))"
    using sum2 by (simp add: fl_sum1_def algebra_simps)
  finally show ?case unfolding ws .
qed

lemma length_fl_words: "length (fl_words b) = length b div 2"
  by (induction b rule: fl_words.induct) simp_all

lemma fold16_small: "s \<le> 131070 \<Longrightarrow> fold16 s < 65536"
  using fold16_eq[of s] mod_less_divisor[of 65536 s] by (cases "s < 65536") (simp_all add: le_mod_geq le_div_geq)

lemma h5_checksum_sums:
  "\<exists>a b. h5_checksum_fletcher32 data = 65536 * b + a \<and> a < 65536 \<and> b < 65536 \<and>
     a mod 65535 = fl_sum1 (fl_words data) mod 65535 \<and> b mod 65535 = fl_sum2 (fl_words data) mod 65535"
proof -
  obtain a b where ab: "fletcher_loop data (length data div 2) (0, 0, 0) = (0, 2 * (length data div 2), a, b)"
      "sums_bounded a b" "a mod 65535 = fst (fl_exact data 0 (length data div 2) (0, 0)) mod 65535"
      "b mod 65535 = snd (fl_exact data 0 (length data div 2) (0, 0)) mod 65535"
    using fletcher_loop_eq[of 0 0 data "length data div 2" 0] by (auto simp: sums_bounded_def)
  have bd: "a \<le> 131070" "b \<le> 131070" using ab(2) by (simp_all add: sums_bounded_def)
  have "h5_checksum_fletcher32 data = (push_bit 16 (fold16 b) mod 2 ^ 32) OR fold16 a"
    by (simp add: h5_checksum_fletcher32_def ab(1))
  also have "push_bit 16 (fold16 b) mod 2 ^ 32 = push_bit 16 (fold16 b)"
    using fold16_small[OF bd(2)] by (simp add: push_bit_eq_mult)
  also have "push_bit 16 (fold16 b) OR fold16 a = 65536 * fold16 b + fold16 a"
    using or_disjoint[of "fold16 a" 16 "fold16 b"] fold16_small[OF bd(1)] by (simp add: push_bit_eq_mult)
  finally have h: "h5_checksum_fletcher32 data = 65536 * fold16 b + fold16 a" .
  have "fl_exact data 0 (length data div 2) (0, 0) = (fl_sum1 (fl_words data), fl_sum2 (fl_words data))"
  proof -
    have "2 * (length data div 2) \<le> length data - 0" by simp
    moreover have "length data div 2 = length (fl_words (drop 0 data))" by (simp only: drop_0 length_fl_words)
    ultimately show ?thesis by (subst fl_exact_words[OF _ le0]) (simp_all only: drop_0 mult_0_right add_0)
  qed
  from ab(3,4)[unfolded this fst_conv snd_conv]
  have "a mod 65535 = fl_sum1 (fl_words data) mod 65535" "b mod 65535 = fl_sum2 (fl_words data) mod 65535" .
  moreover have "a < 2 ^ 32" "b < 2 ^ 32" using bd by simp_all
  ultimately show ?thesis
    using h fold16_small[OF bd(1)] fold16_small[OF bd(2)] fold16_mod[of a] fold16_mod[of b]
    by (intro exI[of _ "fold16 a"] exI[of _ "fold16 b"] conjI) (simp_all only:)
qed

subsection \<open>Detection of changes\<close>

lemma h5_checksum_less: "h5_checksum_fletcher32 data < 2 ^ 32"
  using h5_checksum_sums[of data] by auto

lemma to_le_bytes_inj: "to_le_bytes v = to_le_bytes w \<longleftrightarrow> v = w"
proof
  assume eq: "to_le_bytes v = to_le_bytes w"
  have "bit v i = bit w i" if "i < 32" for i
  proof -
    have "i div 8 \<in> {0, 1, 2, 3}" using that by auto
    have "bit (ucast (drop_bit (8 * (i div 8)) v) :: u8) (i mod 8) = bit (ucast (drop_bit (8 * (i div 8)) w) :: u8) (i mod 8)"
      using eq \<open>i div 8 \<in> {0, 1, 2, 3}\<close> by (auto simp: to_le_bytes_def)
    then show ?thesis by (simp add: bit_simps)
  qed
  then show "v = w" by (intro bit_word_eqI) simp
qed simp

lemma fletcher32_checksum_eq:
  "fletcher32_checksum a = fletcher32_checksum b \<longleftrightarrow> h5_checksum_fletcher32 a = h5_checksum_fletcher32 b"
proof -
  have "word_of_nat x = (word_of_nat y :: 32 word) \<longleftrightarrow> x = y" if "x < 2 ^ 32" "y < 2 ^ 32" for x y
    using that by (auto simp: word_of_nat_eq_iff take_bit_nat_eq_self)
  then show ?thesis using h5_checksum_less by (simp add: fletcher32_checksum_def to_le_bytes_inj)
qed

lemma fl_words_update:
  "2 * k + 1 < length data \<Longrightarrow> fl_words (data[2 * k := a, 2 * k + 1 := b]) = (fl_words data)[k := be_pair a b]"
proof (induction data arbitrary: k rule: fl_words.induct)
  case (1 x y data)
  then show ?case by (cases k) (simp_all add: be_pair_eq)
qed simp_all

lemma fl_words_nth: "2 * k + 1 < length data \<Longrightarrow> fl_words data ! k = be_pair (data ! (2 * k)) (data ! (2 * k + 1))"
proof (induction data arbitrary: k rule: fl_words.induct)
  case (1 x y data)
  then show ?case by (cases k) (simp_all add: be_pair_eq)
qed simp_all

lemma fl_sum1_update: "k < length ws \<Longrightarrow> fl_sum1 (ws[k := v]) + ws ! k = fl_sum1 ws + v"
  using elem_le_sum_list[of k ws] by (simp add: fl_sum1_def sum_list_update)

lemma fletcher_block_prefix:
  "i + 2 * t \<le> length data \<Longrightarrow> fletcher_block (data @ x) t (i, s1, s2) = fletcher_block data t (i, s1, s2)"
  by (induction t arbitrary: i s1 s2) (simp_all add: nth_append Let_def)

lemma fst_fletcher_block: "fst (fletcher_block data t (i, s1, s2)) = i + 2 * t"
  by (induction t arbitrary: i s1 s2) (simp_all add: Let_def)

lemma fletcher_loop_prefix:
  "i + 2 * len \<le> length data \<Longrightarrow> fletcher_loop (data @ x) len (i, s1, s2) = fletcher_loop data len (i, s1, s2)"
proof (induction len arbitrary: i s1 s2 rule: less_induct)
  case (less len)
  define t where "t = min len 360"
  obtain j a b where ab: "fletcher_block data t (i, s1, s2) = (j, a, b)" by (metis prod.exhaust)
  have j: "j = i + 2 * t" using fst_fletcher_block[of data t i s1 s2] ab by simp
  show ?case
  proof (cases "len = 0")
    case False
    have "len - t < len" and tl: "t \<le> len" using False by (simp_all add: t_def)
    then have "fletcher_loop (data @ x) (len - t) (j, fold16 a, fold16 b) = fletcher_loop data (len - t) (j, fold16 a, fold16 b)"
      using less.prems j by (intro less.IH) simp_all
    moreover have "fletcher_block (data @ x) t (i, s1, s2) = (j, a, b)"
      using fletcher_block_prefix[of i t data x] less.prems tl ab by simp
    ultimately show ?thesis
      using False ab by (subst (1 2) fletcher_loop.simps) (simp add: Let_def flip: t_def)
  qed (simp add: fletcher_loop.simps)
qed

lemma fst_fletcher_loop: "fst (fletcher_loop data len st) = 0"
proof (induction data len st rule: fletcher_loop.induct)
  case (1 data len st)
  then show ?case by (subst fletcher_loop.simps) (auto simp: Let_def split: prod.split)
qed

lemma h5_checksum_odd_byte:
  assumes "even (length data)"
  shows "h5_checksum_fletcher32 (data @ [b]) = h5_checksum_fletcher32 data"
proof -
  have "Suc (length data) div 2 = length data div 2" using assms by (rule even_Suc_div_two)
  moreover have "fletcher_loop (data @ [b]) (length data div 2) (0, 0, 0) = fletcher_loop data (length data div 2) (0, 0, 0)"
    by (rule fletcher_loop_prefix) simp
  moreover obtain j a b where "fletcher_loop data (length data div 2) (0, 0, 0) = (0, j, a, b)"
    using fst_fletcher_loop[of data "length data div 2" "(0, 0, 0)"] by (metis prod.exhaust fst_conv)
  ultimately show ?thesis
    unfolding h5_checksum_fletcher32_def by simp
qed

lemma h5_checksum_sum1: "h5_checksum_fletcher32 data mod 65536 mod 65535 = fl_sum1 (fl_words data) mod 65535"
  using h5_checksum_sums[of data] by auto

text \<open>
  For any data, however long, the Fletcher-32 loop over \<open>u32\<close> sums computes the checksum it
  is meant to: the result is two 16-bit halves, congruent modulo 65535 to the sum of the big-endian
  16-bit words of the data and to the sum of the prefix sums of these words; nothing wraps.
\<close>

theorem fletcher32_computes_fletcher_sums:
  "h5_checksum_fletcher32 data < 2 ^ 32 \<and>
   h5_checksum_fletcher32 data mod 65536 mod 65535 = fl_sum1 (fl_words data) mod 65535 \<and>
   h5_checksum_fletcher32 data div 65536 mod 65535 = fl_sum2 (fl_words data) mod 65535"
  using h5_checksum_sums[of data] h5_checksum_less[of data] by auto

text \<open>
  What validation protects: a 16-bit word that was replaced by one of another residue modulo 65535 is rejected (a word of
  the same residue, 0x0000 for 0xFFFF, passes).  An odd last byte is not protected at all: data in which it was replaced is accepted, although
  the source means to add it to the sums (its comment says: check for odd number of bytes).
\<close>

theorem fletcher32_detects_changed_word:
  assumes "2 * k + 1 < length data" and "be_pair a b mod 65535 \<noteq> be_pair (data ! (2 * k)) (data ! (2 * k + 1)) mod 65535"
    and "even (length data0)"
  shows "fletcher32_decode True (data[2 * k := a, 2 * k + 1 := b] @ fletcher32_checksum data) = Inl InvalidChecksum \<and>
     fletcher32_decode True (data0 @ [y] @ fletcher32_checksum (data0 @ [x])) = Inr (data0 @ [y])"
proof -
  have kw: "k < length (fl_words data)" using assms(1) by (simp add: length_fl_words)
  let ?d = "data[2 * k := a, 2 * k + 1 := b]"
  have "h5_checksum_fletcher32 ?d \<noteq> h5_checksum_fletcher32 data"
  proof
    assume "h5_checksum_fletcher32 ?d = h5_checksum_fletcher32 data"
    then have "fl_sum1 (fl_words ?d) mod 65535 = fl_sum1 (fl_words data) mod 65535"
      using h5_checksum_sum1[of data] h5_checksum_sum1[of ?d] by (simp only:)
    then have "(fl_sum1 ((fl_words data)[k := be_pair a b]) + fl_words data ! k) mod 65535 =
        (fl_sum1 (fl_words data) + fl_words data ! k) mod 65535"
      unfolding fl_words_update[OF assms(1)] by (rule mod_add_cong) simp
    then have "(fl_sum1 (fl_words data) + be_pair a b) mod 65535 = (fl_sum1 (fl_words data) + fl_words data ! k) mod 65535"
      unfolding fl_sum1_update[OF kw] .
    then have "be_pair a b mod 65535 = fl_words data ! k mod 65535" by (simp add: nat_mod_eq_iff)
    then show False using assms(2) fl_words_nth[OF assms(1)] by simp
  qed
  moreover have "h5_checksum_fletcher32 (data0 @ [x]) = h5_checksum_fletcher32 (data0 @ [y])"
    using h5_checksum_odd_byte[OF assms(3)] by simp
  ultimately show ?thesis by (simp add: fletcher32_decode_def fletcher32_checksum_eq Let_def)
qed

theorem fletcher32_detects_changed_word_witness:
  "fletcher32_decode True ([9, 2, 3] @ fletcher32_checksum [1, 2, 3]) = Inl InvalidChecksum \<and>
   fletcher32_decode True ([1, 2] @ [9] @ fletcher32_checksum ([1, 2] @ [3])) = Inr [1, 2, 9]"
proof -
  have "2 * 0 + 1 < length [1, 2, 3 :: u8]" "even (length [1, 2 :: u8])"
    "be_pair 9 2 mod 65535 \<noteq> be_pair ([1, 2, 3] ! (2 * 0)) ([1, 2, 3] ! (2 * 0 + 1)) mod 65535"
    by (simp_all add: be_pair_eq)
  from fletcher32_detects_changed_word[OF this(1) this(3) this(2), of 9 3] show ?thesis by simp
qed

text \<open>
  Property C37.  Each checksum codec encodes every value that fits a \<open>usize\<close>, to a value of the size its
  encoded representation announces; decoding, with and without validation, returns the value, and the
  partial decoder returns its ranges that are given from the start.
\<close>

theorem checksum_codecs_roundtrip:
  assumes "length b + 4 < M64" and "ranges_ok b rs" and "list_all from_start_range rs"
    and "C \<in> {fletcher32_codec, crc32c_codec crc location, adler32_codec adler location}"
  shows "\<exists>e. bb_encode C b = Inr e \<and> bb_encoded_representation C (FixedSize (length b)) = FixedSize (length e) \<and>
     (\<forall>validate r. bb_decode C validate r e = Inr b \<and>
        bb_partial_decoder C validate r (vec_decoder e) rs = Inr (Some (map (\<lambda>r. br_selected r b) rs)))"
proof -
  have acc: "checksum_accepts b" using assms(1) by (simp add: checksum_accepts_def CHECKSUM_SIZE_def)
  have C: "bytes_to_bytes_codec C checksum_accepts from_start_range"
    using assms(4) fletcher32.bytes_to_bytes_codec_axioms crc32c.bytes_to_bytes_codec_axioms
      adler32.bytes_to_bytes_codec_axioms by blast
  from bytes_to_bytes_codec.roundtrip[OF C acc] obtain e where
    e: "bb_encode C b = Inr e" "\<And>validate r. bb_decode C validate r e = Inr b" by blast
  obtain n where n: "bb_encoded_representation C (FixedSize (length b)) = FixedSize n"
    using assms(4) by (auto simp: fletcher32_codec_def crc32c_codec_def adler32_codec_def)
  with bytes_to_bytes_codec.encoded_size[OF C acc e(1) n] e bytes_to_bytes_codec.partial_vec[OF C acc e(1) assms(2,3)]
  show ?thesis by blast
qed

theorem checksum_codecs_roundtrip_witness:
  "\<exists>e. bb_encode fletcher32_codec [1, 2, 3] = Inr e \<and>
     bb_encoded_representation fletcher32_codec (FixedSize (length [1, 2, 3 :: u8])) = FixedSize (length e) \<and>
     (\<forall>validate r. bb_decode fletcher32_codec validate r e = Inr [1, 2, 3] \<and>
        bb_partial_decoder fletcher32_codec validate r (vec_decoder e) [FromStart 1 (Some 1)] = Inr (Some [[2]]))"
proof -
  have "length [1, 2, 3 :: u8] + 4 < M64" "ranges_ok [1, 2, 3] [FromStart 1 (Some 1)]"
      "list_all from_start_range [FromStart 1 (Some 1)]"
      "fletcher32_codec \<in> {fletcher32_codec, crc32c_codec undefined LocationEnd, adler32_codec undefined LocationEnd}"
    by (simp_all add: M64_def ranges_ok_def)
  from checksum_codecs_roundtrip[OF this] show ?thesis by simp
qed

end
