(* ===== verification/Indexers.thy ===== *)
theory Indexers
  imports Contiguous_Iterators
begin

text \<open>
  The \<open>Indexer\<close> trait and its implementations (\<open>zarrs_chunk_grid/src/indexer.rs\<close>, and \<open>array_subset.rs\<close>
  for \<open>ArraySubset\<close>).  A trait object is one of the constructors of \<open>indexer\<close>; the implementations for
  references, slices, vectors and arrays of one item type are the same, but for \<open>is_empty\<close> of vectors and arrays of indexers and
  \<open>as_array_subset\<close> of arrays of ranges: a \<open>RangesIndexer\<close> is a slice or a vector of ranges, which is not seen as a subset; an array
  of ranges gives itself, as a \<open>SubsetIndexer\<close> does, and is not among the constructors.  Iterators are the lists of
  their items; \<open>None\<close> stands for a panic of a step.
\<close>

datatype indexer =
    SubsetIndexer array_subset
  | RangesIndexer "range64 list"
  | IndicesIndexer "array_indices list"
  | SliceIndexer "indexer list"

fun ix_dimensionality :: "indexer \<Rightarrow> usize" where
  "ix_dimensionality (SubsetIndexer s) = length (sub_start s)"
| "ix_dimensionality (RangesIndexer rs) = length rs"
| "ix_dimensionality (IndicesIndexer ids) = (case ids of [] \<Rightarrow> 0 | i # _ \<Rightarrow> length i)"
| "ix_dimensionality (SliceIndexer []) = 0"
| "ix_dimensionality (SliceIndexer (x # xs)) = ix_dimensionality x"

fun ix_len :: "indexer \<Rightarrow> u64" where
  "ix_len (SubsetIndexer s) = wprod (sub_shape s)"
| "ix_len (RangesIndexer rs) = wprod (ranges_shape rs)"
| "ix_len (IndicesIndexer ids) = length ids"
| "ix_len (SliceIndexer xs) = wsum (map ix_len xs)"

text \<open>
  \<open>is_empty\<close>: the provided method, which slices of indexers inherit and lists of indices implement to the same effect;
  a \<open>Vec\<close> or an array of indexers says whether it has no items instead.
\<close>

definition ix_is_empty :: "indexer \<Rightarrow> bool" where
  "ix_is_empty x \<longleftrightarrow> ix_len x = 0"

definition items_is_empty :: "indexer list \<Rightarrow> bool" where
  "items_is_empty xs \<longleftrightarrow> xs = []"

lemma items_is_empty_differs:
  "items_is_empty xs \<Longrightarrow> ix_is_empty (SliceIndexer xs)"
  "ix_is_empty (SliceIndexer [IndicesIndexer []]) \<and> \<not> items_is_empty [IndicesIndexer []]"
  by (simp_all add: items_is_empty_def ix_is_empty_def wsum_def wadd_def)

fun ix_output_shape :: "indexer \<Rightarrow> u64 list" where
  "ix_output_shape (SubsetIndexer s) = sub_shape s"
| "ix_output_shape (RangesIndexer rs) = map (\<lambda>r. saturating_sub (snd r) (fst r)) rs"
| "ix_output_shape (IndicesIndexer ids) = [length ids]"
| "ix_output_shape (SliceIndexer xs) = [ix_len (SliceIndexer xs)]"

fun ix_indices :: "indexer \<Rightarrow> array_indices list option" where
  "ix_indices (SubsetIndexer s) = Some (indices_collect (indices_new s))"
| "ix_indices (RangesIndexer rs) =
     (case ranges_to_array_subset rs of Inl _ \<Rightarrow> None | Inr s \<Rightarrow> Some (indices_collect (indices_new s)))"
| "ix_indices (IndicesIndexer ids) = Some ids"
| "ix_indices (SliceIndexer xs) = map_option concat (collect_opt (map ix_indices xs))"

definition ravel_item :: "usize \<Rightarrow> array_shape \<Rightarrow> array_indices \<Rightarrow> indexer_error + u64" where
  "ravel_item dims a i =
     (if length i = length a
      then (case ravel_indices i a of None \<Rightarrow> Inl (OutOfBounds i a) | Some n \<Rightarrow> Inr n)
      else Inl (IndexerIncompatibleDimensionality dims (length a)))"

definition subset_linearised :: "array_subset \<Rightarrow> array_shape \<Rightarrow> indexer_error + u64 list option" where
  "subset_linearised s a = bind_res (linearised_new s a) (\<lambda>l. Inr (linearised_collect l))"

definition subset_contiguous :: "array_subset \<Rightarrow> array_shape \<Rightarrow> indexer_error + (u64 \<times> u64) list option" where
  "subset_contiguous s a = bind_res (contiguous_linearised_new s a) (\<lambda>c. Inr (contiguous_linearised_collect c))"

fun ix_linearised :: "indexer \<Rightarrow> array_shape \<Rightarrow> indexer_error + u64 list option" where
  "ix_linearised (SubsetIndexer s) a = subset_linearised s a"
| "ix_linearised (RangesIndexer rs) a =
     (case ranges_to_array_subset rs of Inl _ \<Rightarrow> Inr None | Inr s \<Rightarrow> subset_linearised s a)"
| "ix_linearised (IndicesIndexer ids) a =
     bind_res (collect_res (map (ravel_item (ix_dimensionality (IndicesIndexer ids)) a) ids)) (\<lambda>ns. Inr (Some ns))"
| "ix_linearised (SliceIndexer xs) a =
     bind_res (collect_res (map (\<lambda>x. ix_linearised x a) xs)) (\<lambda>its. Inr (map_option concat (collect_opt its)))"

fun ix_contiguous :: "indexer \<Rightarrow> array_shape \<Rightarrow> indexer_error + (u64 \<times> u64) list option" where
  "ix_contiguous (SubsetIndexer s) a = subset_contiguous s a"
| "ix_contiguous (RangesIndexer rs) a =
     (case ranges_to_array_subset rs of Inl _ \<Rightarrow> Inr None | Inr s \<Rightarrow> subset_contiguous s a)"
| "ix_contiguous (IndicesIndexer ids) a =
     bind_res (collect_res (map (\<lambda>i. bind_res (ravel_item (ix_dimensionality (IndicesIndexer ids)) a i) (\<lambda>n. Inr (n, 1))) ids))
       (\<lambda>ns. Inr (Some ns))"
| "ix_contiguous (SliceIndexer xs) a =
     bind_res (collect_res (map (\<lambda>x. ix_contiguous x a) xs)) (\<lambda>its. Inr (map_option concat (collect_opt its)))"

definition ix_byte_ranges :: "indexer \<Rightarrow> array_shape \<Rightarrow> usize \<Rightarrow> indexer_error + range64 list option" where
  "ix_byte_ranges x a element_size =
     bind_res (ix_contiguous x a) (\<lambda>runs. Inr (map_option (map (byte_range_of_run element_size)) runs))"

fun ix_as_array_subset :: "indexer \<Rightarrow> array_subset option" where
  "ix_as_array_subset (SubsetIndexer s) = Some s"
| "ix_as_array_subset _ = None"

subsection \<open>Indexers within a shape\<close>

text \<open>
  \<open>covers\<close>: every index is within the shape; an empty subset starts within it (\<open>ContiguousIndices\<close> rejects
  one that starts at its end).
\<close>

definition subset_covered :: "array_subset \<Rightarrow> array_shape \<Rightarrow> bool" where
  "subset_covered s a \<longleftrightarrow> fits s a \<and> (\<not> is_empty s \<or> inb (sub_start s) a)"

fun covers :: "array_shape \<Rightarrow> indexer \<Rightarrow> bool" where
  "covers a (SubsetIndexer s) \<longleftrightarrow> subset_covered s a"
| "covers a (RangesIndexer rs) \<longleftrightarrow> subset_covered (from_ranges rs) a"
| "covers a (IndicesIndexer ids) \<longleftrightarrow> list_all (\<lambda>i. inb i a) ids"
| "covers a (SliceIndexer xs) \<longleftrightarrow> list_all (covers a) xs"

text \<open>The linear indices an indexer stands for.\<close>

fun ix_elements :: "array_shape \<Rightarrow> indexer \<Rightarrow> nat list" where
  "ix_elements a (SubsetIndexer s) = map (lin a) (box (sub_start s) (sub_shape s))"
| "ix_elements a (RangesIndexer rs) = map (lin a) (box (sub_start (from_ranges rs)) (sub_shape (from_ranges rs)))"
| "ix_elements a (IndicesIndexer ids) = map (lin a) ids"
| "ix_elements a (SliceIndexer xs) = concat (map (ix_elements a) xs)"

lemma box_empty: "0 \<in> set ns \<Longrightarrow> length os = length ns \<Longrightarrow> box os ns = []"
  by (metis length_box length_0_conv prod_list_eq_0)

lemma subset_linearised_eq:
  assumes "fits s a" and "prod_list a < M64"
  shows "subset_linearised s a = Inr (Some (map (lin a) (box (sub_start s) (sub_shape s))))"
proof -
  have "linearised_new s a = Inr \<lparr>li_subset = s, li_array_shape = a\<rparr>"
    using assms(1) oob_check_iff[OF fits_wf[OF assms(1)], of a]
    by (auto simp: linearised_new_def dimensionality_def fits_def)
  then show ?thesis by (simp add: subset_linearised_def linearised_collect_eq[OF assms])
qed

definition runs_of :: "nat \<Rightarrow> (nat \<times> nat) list \<Rightarrow> nat list \<Rightarrow> bool" where
  "runs_of p runs ns \<longleftrightarrow> concat (map (\<lambda>(i, n). [i..<i + n]) runs) = ns \<and> (\<forall>(i, n) \<in> set runs. i + n \<le> p)"

lemma contiguous_new_covered:
  assumes "subset_covered s a" and "prod_list a < M64"
  shows "\<exists>ci runs. contiguous_new s a = Inr ci \<and>
     contiguous_linearised_collect \<lparr>cl_inner = ci, cl_array_shape = a\<rparr> = Some runs \<and>
     runs_of (prod_list a) runs (map (lin a) (box (sub_start s) (sub_shape s))) \<and>
     (\<forall>(i, n) \<in> set runs. n = ci_elements ci)"
proof (cases "is_empty s")
  case False
  have f: "fits s a" using assms(1) by (simp add: subset_covered_def)
  obtain out n where new: "contiguous_new s a = Inr \<lparr>ci_start = \<lparr>sub_start = sub_start s, sub_shape = out\<rparr>, ci_elements = n\<rparr>"
    and cov: "runs_cover (sub_start s) (sub_shape s) a out n"
    using contiguous_new_runs[OF f assms(2) False] by blast
  have "fits \<lparr>sub_start = sub_start s, sub_shape = out\<rparr> a"
    by (rule fits_shrink[OF f]) (use cov in \<open>auto simp: runs_cover_def elim: list_all2_mono\<close>)
  moreover have "lin a i + n \<le> prod_list a" if "i \<in> set (box (sub_start s) out)" for i
    using runs_cover_bound[OF f cov that] .
  ultimately show ?thesis
    using new cov contiguous_linearised_collect_eq[OF _ assms(2)] by (auto simp: runs_of_def runs_cover_def comp_def)
next
  case True
  have f: "fits s a" and st: "inb (sub_start s) a" using assms(1) True by (auto simp: subset_covered_def)
  have z: "0 \<in> set (sub_shape s)" using True by (auto simp: is_empty_def list_ex_iff)
  have b: "box (sub_start s) (sub_shape s) = []"
    using z wf_subset_length[OF fits_wf[OF f]] by (intro box_empty) simp_all
  have "\<not> list_ex (\<lambda>(st, n). n \<le> st) (zip (sub_start s) a)"
    using st inb_length[OF st] by (auto simp: list_ex_zip_nth inb_nth not_le)
  then have "contiguous_new s a = Inr \<lparr>ci_start = s, ci_elements = 0\<rparr>"
    using True f oob_check_iff[OF fits_wf[OF f], of a] by (auto simp: contiguous_new_def dimensionality_def fits_def)
  then show ?thesis
    using contiguous_linearised_collect_eq[OF f assms(2), of 0] b by (simp add: runs_of_def)
qed

lemma subset_contiguous_eq:
  assumes "subset_covered s a" and "prod_list a < M64"
  shows "\<exists>runs. subset_contiguous s a = Inr (Some runs) \<and>
     runs_of (prod_list a) runs (map (lin a) (box (sub_start s) (sub_shape s)))"
  using contiguous_new_covered[OF assms] by (auto simp: subset_contiguous_def contiguous_linearised_new_def)

lemma ravel_item_eq: "inb i a \<Longrightarrow> prod_list a < M64 \<Longrightarrow> ravel_item d a i = Inr (lin a i)"
  by (simp add: ravel_item_def ravel_indices_eq inb_length)

text \<open>Every indexer within the shape lists its linear indices, and its runs expand to them.\<close>

lemma ix_linearised_eq:
  "covers a x \<Longrightarrow> prod_list a < M64 \<Longrightarrow> ix_linearised x a = Inr (Some (ix_elements a x))"
proof (induction x)
  case (SubsetIndexer s)
  then show ?case by (simp add: subset_linearised_eq subset_covered_def)
next
  case (RangesIndexer rs)
  then show ?case by (simp add: subset_linearised_eq subset_covered_def ranges_to_array_subset_eq)
next
  case (IndicesIndexer ids)
  then have "map (ravel_item (ix_dimensionality (IndicesIndexer ids)) a) ids = map (\<lambda>i. Inr (lin a i)) ids"
    by (intro map_cong refl ravel_item_eq) (simp_all add: list_all_iff)
  then show ?case by (simp del: map_eq_conv ix_dimensionality.simps)
next
  case (SliceIndexer xs)
  then have "map (\<lambda>x. ix_linearised x a) xs = map (\<lambda>x. Inr (Some (ix_elements a x))) xs"
    by (intro map_cong refl) (simp add: list_all_iff)
  then show ?case by (simp del: map_eq_conv)
qed

lemma runs_of_concat:
  "list_all2 (runs_of p) rss iss \<Longrightarrow> runs_of p (concat rss) (concat iss)"
  by (induction rule: list_all2_induct) (auto simp: runs_of_def)

lemma ix_contiguous_eq:
  "covers a x \<Longrightarrow> prod_list a < M64 \<Longrightarrow> \<exists>runs. ix_contiguous x a = Inr (Some runs) \<and> runs_of (prod_list a) runs (ix_elements a x)"
proof (induction x)
  case (SubsetIndexer s)
  then show ?case using subset_contiguous_eq[of s a] by (simp add: runs_of_def)
next
  case (RangesIndexer rs)
  then show ?case using subset_contiguous_eq[of "from_ranges rs" a] by (simp add: runs_of_def ranges_to_array_subset_eq)
next
  case (IndicesIndexer ids)
  let ?d = "ix_dimensionality (IndicesIndexer ids)"
  have "map (\<lambda>i. bind_res (ravel_item ?d a i) (\<lambda>n. Inr (n, 1 :: nat))) ids = map (\<lambda>i. Inr (lin a i, 1)) ids"
    using IndicesIndexer by (intro map_cong refl) (simp add: ravel_item_eq list_all_iff del: ix_dimensionality.simps)
  moreover have "runs_of (prod_list a) (map (\<lambda>i. (lin a i, 1)) ids) (map (lin a) ids)"
    using IndicesIndexer lin_less by (auto simp: runs_of_def comp_def list_all_iff Suc_le_eq)
  ultimately show ?case
    by (simp del: map_eq_conv ix_dimensionality.simps One_nat_def)
next
  case (SliceIndexer xs)
  have "\<exists>f. \<forall>x \<in> set xs. ix_contiguous x a = Inr (Some (f x)) \<and> runs_of (prod_list a) (f x) (ix_elements a x)"
    using SliceIndexer by (intro bchoice) (auto simp: list_all_iff)
  then obtain f where f: "\<And>x. x \<in> set xs \<Longrightarrow> ix_contiguous x a = Inr (Some (f x))"
      "\<And>x. x \<in> set xs \<Longrightarrow> runs_of (prod_list a) (f x) (ix_elements a x)" by blast
  have "map (\<lambda>x. ix_contiguous x a) xs = map (\<lambda>x. Inr (Some (f x))) xs" using f(1) by (intro map_cong refl)
  moreover have "runs_of (prod_list a) (concat (map f xs)) (concat (map (ix_elements a) xs))"
    using f(2) by (intro runs_of_concat) (auto simp: list_all2_conv_all_nth)
  ultimately show ?case by (simp del: map_eq_conv)
qed

lemma ix_elements_less: "covers a x \<Longrightarrow> n \<in> set (ix_elements a x) \<Longrightarrow> n < prod_list a"
proof (induction x)
  case (SubsetIndexer s)
  then show ?case using fits_inb[of s a] lin_less by (auto simp: subset_covered_def)
next
  case (RangesIndexer rs)
  then show ?case using fits_inb[of "from_ranges rs" a] lin_less by (auto simp: subset_covered_def)
next
  case (IndicesIndexer ids)
  then show ?case using lin_less by (auto simp: list_all_iff)
next
  case (SliceIndexer xs)
  then show ?case by (auto simp: list_all_iff)
qed

lemma ix_len_eq:
  "covers a x \<Longrightarrow> length (ix_elements a x) < M64 \<Longrightarrow> ix_len x = length (ix_elements a x)"
proof (induction x)
  case (SubsetIndexer s)
  then show ?case
    using wf_subset_length[of s] by (simp add: wprod_eq subset_covered_def fits_def length_box)
next
  case (RangesIndexer rs)
  then show ?case
    by (simp add: wprod_eq from_ranges_def ranges_shape_def length_box saturating_sub_def case_prod_beta)
next
  case (SliceIndexer xs)
  have le: "length (ix_elements a x) \<le> sum_list (map (length \<circ> ix_elements a) xs)" if "x \<in> set xs" for x
    using that member_le_sum_list[of "length (ix_elements a x)" "map (length \<circ> ix_elements a) xs"] by auto
  have eq: "map ix_len xs = map (length \<circ> ix_elements a) xs"
    using SliceIndexer le by (intro map_cong refl) (fastforce simp: list_all_iff length_concat)
  show ?case using SliceIndexer.prems(2) unfolding ix_len.simps eq by (simp add: wsum_eq length_concat comp_def)
qed simp

text \<open>
  Property C38.  Every indexer within an array shape of fewer than \<open>2 ^ 64\<close> elements - subset, ranges,
  explicit indices or a list of indexers - lists the linear index of each of its elements without error
  or panic, all below the number of elements of the array; its contiguous runs expand to the same
  list and stay within the array; \<open>len\<close> is the number of items.
\<close>

theorem indexers_agree:
  assumes "covers a x" and "prod_list a < M64"
  shows "ix_linearised x a = Inr (Some (ix_elements a x)) \<and> (\<forall>n \<in> set (ix_elements a x). n < prod_list a) \<and>
     (\<exists>runs. ix_contiguous x a = Inr (Some runs) \<and> concat (map (\<lambda>(i, n). [i..<i + n]) runs) = ix_elements a x \<and>
        (\<forall>(i, n) \<in> set runs. i + n \<le> prod_list a)) \<and>
     (length (ix_elements a x) < M64 \<longrightarrow> ix_len x = length (ix_elements a x))"
  using ix_linearised_eq[OF assms] ix_contiguous_eq[OF assms] ix_elements_less[OF assms(1)] ix_len_eq[OF assms(1)]
  by (auto simp: runs_of_def)

theorem indexers_agree_witness:
  "ix_linearised (SliceIndexer [SubsetIndexer \<lparr>sub_start = [0, 1], sub_shape = [2, 2]\<rparr>, IndicesIndexer [[1, 0]]]) [2, 3] =
     Inr (Some [1, 2, 4, 5, 3])"
proof -
  let ?x = "SliceIndexer [SubsetIndexer \<lparr>sub_start = [0, 1], sub_shape = [2, 2]\<rparr>, IndicesIndexer [[1, 0]]]"
  have "covers [2, 3] ?x" "prod_list [2, 3] < M64"
    by (simp_all add: M64_def subset_covered_def fits_def wf_subset_def is_empty_def All_less_Suc2)
  from indexers_agree[OF this] show ?thesis by (simp add: upt_rec)
qed

end
