(* ===== verification/Data_Types.thy ===== *)
theory Data_Types
  imports Byte_Range
begin

text \<open>
  Data types as the array code sees them (\<open>zarrs_data_type\<close>): the size of an element and the optional wrapper
  (\<open>optional.rs\<close>); which plain type it is does not matter here.  Fill values (\<open>fill_value.rs\<close>) are their
  bytes.  \<open>slice::align_to::<u128>\<close> may split a value anywhere into a prefix, 16-byte blocks and a suffix, so it
  is a parameter; the lemma shows that the comparison does not depend on it.
\<close>

datatype data_type_size = SizeFixed usize | SizeVariable

datatype data_type = PlainType data_type_size | OptionalType data_type

fun dt_size :: "data_type \<Rightarrow> data_type_size" where
  "dt_size (PlainType s) = s"
| "dt_size (OptionalType t) = dt_size t"

fun as_optional :: "data_type \<Rightarrow> data_type option" where
  "as_optional (PlainType _) = None"
| "as_optional (OptionalType t) = Some t"

definition is_optional :: "data_type \<Rightarrow> bool" where
  "is_optional t \<longleftrightarrow> as_optional t \<noteq> None"

definition fixed_size :: "data_type \<Rightarrow> usize option" where
  "fixed_size t = (case dt_size t of SizeFixed n \<Rightarrow> Some n | SizeVariable \<Rightarrow> None)"

definition is_fixed :: "data_type \<Rightarrow> bool" where
  "is_fixed t = (case dt_size t of SizeFixed n \<Rightarrow> True | SizeVariable \<Rightarrow> False)"

subsection \<open>Fill values\<close>

type_synonym fill_value = bytes

definition fill_optional_null :: fill_value where
  "fill_optional_null = [0]"

definition fill_into_optional :: "fill_value \<Rightarrow> fill_value" where
  "fill_into_optional f = f @ [1]"

definition is_fill_value_null :: "fill_value \<Rightarrow> bool" where
  "is_fill_value_null f \<longleftrightarrow> last_opt f = Some 0"

definition fill_value_inner_bytes :: "fill_value \<Rightarrow> bytes" where
  "fill_value_inner_bytes f = (if f = [] then [] else take (length f - 1) f)"

type_synonym align_to = "bytes \<Rightarrow> bytes \<times> bytes list \<times> bytes"

fun chunks_exact :: "nat \<Rightarrow> 'a list \<Rightarrow> 'a list list" where
  "chunks_exact n xs =
     (if n = 0 \<or> length xs < n then [] else take n xs # chunks_exact n (drop n xs))"

declare chunks_exact.simps [simp del]

text \<open>The branch for a fill value of 2, 4, 8 or 16 bytes.\<close>

definition equals_all_aligned :: "align_to \<Rightarrow> fill_value \<Rightarrow> bytes \<Rightarrow> bool" where
  "equals_all_aligned align_to f bytes =
     (let (pre, aligned, suf) = align_to bytes in
      if pre = [] \<and> suf = []
      then list_all (\<lambda>x. x = concat (replicate (16 div length f) f)) aligned
      else list_all (\<lambda>x. x = f) (chunks_exact (length f) bytes))"

definition equals_all :: "align_to \<Rightarrow> fill_value \<Rightarrow> bytes \<Rightarrow> bool" where
  "equals_all align_to f bytes =
     (if \<not> (if length f = 0 then length bytes = 0 else length bytes mod length f = 0) \<or> length bytes < length f
      then False
      else if length f = 0 then bytes = []
      else if length f = 1
      then let (pre, aligned, suf) = align_to bytes in
           list_all (\<lambda>x. x = f ! 0) pre \<and> list_all (\<lambda>x. x = f ! 0) suf \<and>
           list_all (\<lambda>x. x = replicate 16 (f ! 0)) aligned
      else if length f \<in> {2, 4, 8, 16} then equals_all_aligned align_to f bytes
      else list_all (\<lambda>x. x = f) (chunks_exact (length f) bytes))"

subsection \<open>The comparison with a fill value\<close>

definition align_ok :: "align_to \<Rightarrow> bool" where
  "align_ok align_to \<longleftrightarrow> (\<forall>bytes. case align_to bytes of (pre, aligned, suf) \<Rightarrow>
     bytes = pre @ concat aligned @ suf \<and> list_all (\<lambda>x. length x = 16) aligned)"

lemma chunks_exact_append:
  "length x = n \<Longrightarrow> 0 < n \<Longrightarrow> chunks_exact n (x @ xs) = x # chunks_exact n xs"
  by (subst chunks_exact.simps) simp

lemma chunks_exact_Nil [simp]: "chunks_exact n [] = []"
  by (subst chunks_exact.simps) auto

lemma chunks_exact_concat:
  "list_all (\<lambda>x. length x = n) xss \<Longrightarrow> 0 < n \<Longrightarrow> chunks_exact n (concat xss) = xss"
  by (induction xss) (simp_all add: chunks_exact_append)

lemma length_chunks_exact: "x \<in> set (chunks_exact n xs) \<Longrightarrow> length x = n"
  by (induction n xs rule: chunks_exact.induct) (subst (asm) (2) chunks_exact.simps, auto split: if_splits)

lemma concat_chunks_exact: "0 < n \<Longrightarrow> length xs mod n = 0 \<Longrightarrow> concat (chunks_exact n xs) = xs"
proof (induction n xs rule: chunks_exact.induct)
  case (1 n xs)
  show ?case
  proof (cases "length xs < n")
    case True
    then show ?thesis using "1.prems" by (subst chunks_exact.simps) simp
  next
    case False
    then have "length (drop n xs) mod n = 0" using "1.prems" by (simp add: le_mod_geq)
    then have "concat (chunks_exact n (drop n xs)) = drop n xs" using False "1.prems" by (intro "1.IH") simp_all
    then show ?thesis using False "1.prems" by (subst chunks_exact.simps) simp
  qed
qed

lemma list_all_eq_replicate: "list_all (\<lambda>x. x = a) xs \<longleftrightarrow> xs = replicate (length xs) a"
  by (induction xs) auto

lemma concat_replicate_eq:
  assumes "length f = n" and "0 < n" and "length xs mod n = 0"
  shows "list_all (\<lambda>x. x = f) (chunks_exact n xs) \<longleftrightarrow> (\<exists>k. xs = concat (replicate k f))"
proof
  assume "list_all (\<lambda>x. x = f) (chunks_exact n xs)"
  then show "\<exists>k. xs = concat (replicate k f)"
    using concat_chunks_exact[OF assms(2,3)] by (metis list_all_eq_replicate)
next
  assume "\<exists>k. xs = concat (replicate k f)"
  then obtain k where "xs = concat (replicate k f)" ..
  then have "chunks_exact n xs = replicate k f"
    using assms by (simp add: chunks_exact_concat list_all_iff)
  then show "list_all (\<lambda>x. x = f) (chunks_exact n xs)" by (simp add: list_all_iff)
qed

lemma concat_replicate_mult: "concat (replicate k (concat (replicate m f))) = concat (replicate (k * m) f)"
  by (induction k) (simp_all add: replicate_add)

lemma list_all_chunks_iff:
  assumes "list_all (\<lambda>x. length x = 16) bs" and "length f \<in> {1, 2, 4, 8, 16}"
  shows "list_all (\<lambda>x. x = concat (replicate (16 div length f) f)) bs \<longleftrightarrow> (\<exists>k. concat bs = concat (replicate k f))"
proof -
  define m where "m = 16 div length f"
  have m: "m * length f = 16" "0 < length f" using assms(2) by (auto simp: m_def)
  have len: "length (concat (replicate m f)) = 16" using m by (simp add: length_concat sum_list_replicate)
  show ?thesis
    unfolding m_def[symmetric]
  proof
    assume "list_all (\<lambda>x. x = concat (replicate m f)) bs"
    then have "bs = replicate (length bs) (concat (replicate m f))" by (simp only: list_all_eq_replicate)
    then have "concat bs = concat (replicate (length bs) (concat (replicate m f)))" by metis
    then show "\<exists>k. concat bs = concat (replicate k f)" unfolding concat_replicate_mult by blast
  next
    assume "\<exists>k. concat bs = concat (replicate k f)"
    then obtain k where k: "concat bs = concat (replicate k f)" ..
    have "length (concat bs) = 16 * length bs"
      using assms(1) by (induction bs) simp_all
    moreover have "length (concat (replicate k f)) = k * length f" by (simp add: length_concat sum_list_replicate)
    ultimately have "k * length f = (length bs * m) * length f" using k m by (simp add: mult.assoc mult.commute)
    then have "k = length bs * m" using m(2) by simp
    then have "concat bs = concat (replicate (length bs) (concat (replicate m f)))"
      using k by (simp add: concat_replicate_mult)
    moreover have "list_all (\<lambda>x. length x = 16) (replicate (length bs) (concat (replicate m f)))"
      using len by (simp add: list_all_iff)
    ultimately have "bs = replicate (length bs) (concat (replicate m f))"
      using chunks_exact_concat[OF assms(1)] chunks_exact_concat[of 16 "replicate (length bs) (concat (replicate m f))"]
      by (metis zero_less_numeral)
    then show "list_all (\<lambda>x. x = concat (replicate m f)) bs" by (simp only: list_all_eq_replicate)
  qed
qed

lemma equals_all_iff:
  assumes "align_ok align_to"
  shows "equals_all align_to f bytes \<longleftrightarrow>
     (if f = [] then bytes = [] else \<exists>k > 0. bytes = concat (replicate k f))"
proof (cases "f = [] \<or> length bytes mod length f \<noteq> 0 \<or> length bytes < length f")
  case True
  show ?thesis
  proof (cases "f = []")
    case False
    have len: "length bytes mod length f = 0 \<and> length f \<le> length bytes" if k: "0 < k" "bytes = concat (replicate k f)" for k
    proof -
      have "length bytes = k * length f" unfolding k(2) by (simp add: length_concat sum_list_replicate)
      then show ?thesis using k(1) by (cases k) simp_all
    qed
    have "\<not> (\<exists>k > 0. bytes = concat (replicate k f))"
    proof
      assume "\<exists>k > 0. bytes = concat (replicate k f)"
      then obtain k where "0 < k" "bytes = concat (replicate k f)" by blast
      from len[OF this] show False using True False by simp
    qed
    moreover have "\<not> equals_all align_to f bytes" using True False unfolding equals_all_def by auto
    ultimately show ?thesis using False by simp
  qed (simp add: equals_all_def)
next
  case False
  then have f: "0 < length f" "length bytes mod length f = 0" "bytes \<noteq> []" by auto
  obtain pre aligned suf where a: "align_to bytes = (pre, aligned, suf)" by (metis prod.exhaust)
  have "case align_to bytes of (pre, aligned, suf) \<Rightarrow>
      bytes = pre @ concat aligned @ suf \<and> list_all (\<lambda>x. length x = 16) aligned"
    using assms unfolding align_ok_def by (rule spec)
  then have al: "bytes = pre @ concat aligned @ suf" "list_all (\<lambda>x. length x = 16) aligned"
    unfolding a prod.case by blast+
  have pos: "(\<exists>k > 0. bytes = concat (replicate k f)) \<longleftrightarrow> (\<exists>k. bytes = concat (replicate k f))"
    using f(3) by (metis concat.simps(1) gr0I replicate_0)
  have ex: "list_all (\<lambda>x. x = f) (chunks_exact (length f) bytes) \<longleftrightarrow> (\<exists>k. bytes = concat (replicate k f))"
    using f by (intro concat_replicate_eq) simp_all
  consider "length f = 1" | "length f \<in> {2, 4, 8, 16}" | "length f \<noteq> 1" "length f \<notin> {2, 4, 8, 16}" by blast
  then show ?thesis
  proof cases
    case 1
    then obtain c where c: "f = [c]" by (metis length_Suc_conv length_0_conv One_nat_def)
    have "list_all (\<lambda>x. x = replicate 16 c) aligned \<longleftrightarrow> list_all (\<lambda>x. x = c) (concat aligned)"
    proof -
      have "x = replicate 16 c \<longleftrightarrow> list_all (\<lambda>y. y = c) x" if "length x = 16" for x
        using that by (simp add: list_all_eq_replicate)
      then show ?thesis using al(2) by (induction aligned) simp_all
    qed
    moreover have "concat (replicate k [c]) = replicate k c" for k by (induction k) simp_all
    moreover have "list_all (\<lambda>x. x = c) bytes \<longleftrightarrow> (\<exists>k. bytes = replicate k c)"
      by (metis list_all_eq_replicate length_replicate)
    ultimately show ?thesis
      using 1 f(3) c a al(1) pos by (auto simp add: equals_all_def)
  next
    case 2
    then show ?thesis
      using False a pos ex al list_all_chunks_iff[OF al(2), of f]
      by (auto simp: equals_all_def equals_all_aligned_def)
  next
    case 3
    then show ?thesis using False pos ex by (auto simp: equals_all_def)
  qed
qed

text \<open>
  However \<open>align_to\<close> splits the bytes, \<open>equals_all\<close> is true exactly when the bytes are one or more
  copies of the fill value (or both are empty): the comparison in 128-bit blocks agrees with the
  elementwise one.
\<close>

theorem equals_all_correct:
  assumes "align_ok align_to"
  shows "equals_all align_to f bytes \<longleftrightarrow>
     (if f = [] then bytes = [] else \<exists>k > 0. bytes = concat (replicate k f))"
  using equals_all_iff[OF assms] .

theorem equals_all_correct_witness:
  "equals_all (\<lambda>bs. (bs, [], [])) [1, 2] [1, 2, 1, 2] \<and> \<not> equals_all (\<lambda>bs. (bs, [], [])) [1, 2] [1, 2, 1, 3]"
proof -
  have al: "align_ok (\<lambda>bs. (bs, [], []))" by (simp add: align_ok_def)
  have "\<exists>k > 0. [1, 2, 1, 2 :: u8] = concat (replicate k [1, 2])"
    by (intro exI[of _ 2]) (simp add: numeral_2_eq_2)
  moreover have "[1, 2, 1, 3 :: u8] \<noteq> concat (replicate k [1, 2])" for k
    by (cases k; cases "k - 1"; cases "k - 2") auto
  ultimately show ?thesis using equals_all_correct[OF al, of "[1, 2]"] by simp
qed

end
