(* ===== verification/Array_Bytes.thy ===== *)
theory Array_Bytes
  imports Indexers Data_Types Codec_Base
begin

text \<open>
  Array bytes (\<open>zarrs_codec/src/array_bytes.rs\<close>, \<open>array_bytes/\<close> and
  \<open>array_bytes_fixed_disjoint_view.rs\<close>): the bytes of an array with elements of fixed size, of variable size
  with offsets, or optional with a mask; validation, fill values, extraction and update of a part, and the
  views that write a part of an array in place.  A view shares its buffer with other views; here the buffer
  is an argument and a result of every operation of the view.  \<open>CodecPanic\<close> is a panic.
\<close>

datatype array_bytes =
    FixedBytes bytes
  | VariableBytes bytes "usize list"
  | OptionalBytes array_bytes bytes

subsection \<open>Offsets and variable-length bytes\<close>

datatype offsets_create_error = ZeroLength | NotMonotonicallyIncreasing

definition monotone_offsets :: "usize list \<Rightarrow> bool" where
  "monotone_offsets os \<longleftrightarrow> list_all (\<lambda>(a, b). a \<le> b) (zip os (tl os))"

definition offsets_new :: "usize list \<Rightarrow> offsets_create_error + usize list" where
  "offsets_new os =
     (if os = [] then Inl ZeroLength
      else if monotone_offsets os then Inr os
      else Inl NotMonotonicallyIncreasing)"

definition vlen_new :: "bytes \<Rightarrow> usize list \<Rightarrow> codec_error + array_bytes" where
  "vlen_new b os =
     (if last os \<le> length b then Inr (VariableBytes b os) else Inl (RawBytesOffsetsOutOfBounds (last os) (length b)))"

text \<open>\<open>&bytes[offsets[i]..offsets[i + 1]]\<close>\<close>

definition vlen_item :: "bytes \<Rightarrow> usize list \<Rightarrow> nat \<Rightarrow> codec_error + bytes" where
  "vlen_item b os i =
     (if i + 1 < length os
      then (case slice b (os ! i) (os ! (i + 1)) of None \<Rightarrow> Inl CodecPanic | Some x \<Rightarrow> Inr x)
      else Inl CodecPanic)"

text \<open>Pushing items to new bytes and offsets; the last offset is the length of the bytes.\<close>

fun push_items :: "(codec_error + bytes) list \<Rightarrow> bytes \<Rightarrow> usize list \<Rightarrow> codec_error + (bytes \<times> usize list)" where
  "push_items [] b os = Inr (b, os @ [length b])"
| "push_items (x # xs) b os = bind_res x (\<lambda>item. push_items xs (b @ item) (os @ [length b]))"

subsection \<open>Fill values\<close>

fun new_fill_value :: "data_type \<Rightarrow> u64 \<Rightarrow> fill_value \<Rightarrow> codec_error + array_bytes" where
  "new_fill_value (OptionalType t) n f =
     (if is_fill_value_null f
      then bind_res (new_fill_value t n (case fixed_size t of Some z \<Rightarrow> replicate z 0 | None \<Rightarrow> []))
             (\<lambda>d. Inr (OptionalBytes d (replicate n 0)))
      else bind_res (new_fill_value t n (fill_value_inner_bytes f)) (\<lambda>d. Inr (OptionalBytes d (replicate n 1))))"
| "new_fill_value (PlainType (SizeFixed z)) n f =
     (if length f = z then Inr (FixedBytes (concat (replicate n f))) else Inl (CodecDataTypeFillValue []))"
| "new_fill_value (PlainType SizeVariable) n f =
     Inr (VariableBytes (concat (replicate n f)) (map (\<lambda>i. wmul i (length f)) [0..<n + 1]))"

fun is_fill_value :: "align_to \<Rightarrow> array_bytes \<Rightarrow> fill_value \<Rightarrow> bool" where
  "is_fill_value align_to (FixedBytes b) f \<longleftrightarrow> equals_all align_to f b"
| "is_fill_value align_to (VariableBytes b _) f \<longleftrightarrow> equals_all align_to f b"
| "is_fill_value align_to (OptionalBytes d m) f \<longleftrightarrow>
     (if last_opt f = Some 0 then list_all (\<lambda>b. b = 0) m
      else list_all (\<lambda>b. b = 1) m \<and> is_fill_value align_to d (if f = [] then [] else take (length f - 1) f))"

subsection \<open>Validation\<close>

fun offsets_loop :: "usize list \<Rightarrow> usize \<Rightarrow> usize \<Rightarrow> usize option" where
  "offsets_loop [] len offset_last = Some offset_last"
| "offsets_loop (x # xs) len offset_last =
     (if x < offset_last \<or> len < x then None else offsets_loop xs len x)"

definition validate_bytes_flen :: "bytes \<Rightarrow> usize \<Rightarrow> codec_error + unit" where
  "validate_bytes_flen b array_size =
     (if length b = array_size then Inr () else Inl (UnexpectedChunkDecodedSize (length b) array_size))"

definition validate_bytes_vlen :: "bytes \<Rightarrow> usize list \<Rightarrow> u64 \<Rightarrow> codec_error + unit" where
  "validate_bytes_vlen b os n =
     (if length os \<noteq> wadd n 1 then Inl InvalidVariableSizedArrayOffsets
      else case offsets_loop os (length b) 0 of
          None \<Rightarrow> Inl InvalidVariableSizedArrayOffsets
        | Some offset_last \<Rightarrow> if offset_last = length b then Inr () else Inl InvalidVariableSizedArrayOffsets)"

fun validate_bytes :: "array_bytes \<Rightarrow> u64 \<Rightarrow> data_type \<Rightarrow> codec_error + unit" where
  "validate_bytes (FixedBytes b) n t =
     (if is_optional t then Inl (CodecOther ''Used non-optional array bytes with an optional data type.'')
      else case dt_size t of
          SizeFixed z \<Rightarrow> validate_bytes_flen b (wmul n z)
        | SizeVariable \<Rightarrow> Inl (CodecOther ''Used fixed length array bytes with a variable sized data type.''))"
| "validate_bytes (VariableBytes b os) n t =
     (if is_optional t then Inl (CodecOther ''Used non-optional array bytes with an optional data type.'')
      else case dt_size t of
          SizeVariable \<Rightarrow> validate_bytes_vlen b os n
        | SizeFixed _ \<Rightarrow> Inl (CodecOther ''Used variable length array bytes with a fixed length data type.''))"
| "validate_bytes (OptionalBytes d m) n t =
     (case as_optional t of
        None \<Rightarrow> Inl (CodecOther ''Used optional array bytes with a non-optional data type.'')
      | Some inner \<Rightarrow> validate_bytes d n inner)"

subsection \<open>Extraction\<close>

definition linearised_of :: "indexer \<Rightarrow> array_shape \<Rightarrow> codec_error + u64 list" where
  "linearised_of x a =
     (case ix_linearised x a of
        Inl e \<Rightarrow> Inl (IncompatibleIndexer e) | Inr None \<Rightarrow> Inl CodecPanic | Inr (Some ns) \<Rightarrow> Inr ns)"

definition byte_ranges_of :: "indexer \<Rightarrow> array_shape \<Rightarrow> usize \<Rightarrow> codec_error + range64 list" where
  "byte_ranges_of x a z =
     (case ix_byte_ranges x a z of
        Inl e \<Rightarrow> Inl (IncompatibleIndexer e) | Inr None \<Rightarrow> Inl CodecPanic | Inr (Some rs) \<Rightarrow> Inr rs)"

definition extract_flen :: "bytes \<Rightarrow> indexer \<Rightarrow> array_shape \<Rightarrow> usize \<Rightarrow> codec_error + bytes" where
  "extract_flen b x a z =
     bind_res (byte_ranges_of x a z) (\<lambda>rs.
       case extract_byte_ranges_concat b (map (\<lambda>(s, e). byte_range_new (Included s) (Excluded e)) rs) of
         Inl f \<Rightarrow> Inl (range_failure f) | Inr b \<Rightarrow> Inr b)"

text \<open>The loop before only sums the capacity of the new bytes.\<close>

definition extract_vlen :: "bytes \<Rightarrow> usize list \<Rightarrow> indexer \<Rightarrow> array_shape \<Rightarrow> codec_error + (bytes \<times> usize list)" where
  "extract_vlen b os x a =
     bind_res (linearised_of x a) (\<lambda>indices. push_items (map (vlen_item b os) indices) [] [])"

fun extract_array_subset ::
    "array_bytes \<Rightarrow> indexer \<Rightarrow> array_shape \<Rightarrow> data_type \<Rightarrow> codec_error + array_bytes" where
  "extract_array_subset (VariableBytes b os) x a t =
     bind_res (extract_vlen b os x a) (\<lambda>(b, os). Inr (VariableBytes b os))"
| "extract_array_subset (FixedBytes b) x a t =
     (case fixed_size t of
        None \<Rightarrow> Inl CodecPanic
      | Some z \<Rightarrow> bind_res (extract_flen b x a z) (\<lambda>b. Inr (FixedBytes b)))"
| "extract_array_subset (OptionalBytes d m) x a t =
     (case as_optional t of
        None \<Rightarrow> Inl (CodecOther ''Optional array bytes requires an optional data type'')
      | Some inner \<Rightarrow>
          bind_res (extract_array_subset d x a inner) (\<lambda>d.
          bind_res (extract_flen m x a 1) (\<lambda>m. Inr (OptionalBytes d m))))"

subsection \<open>Disjoint views\<close>

record disjoint_view =
  dv_data_type_size :: usize
  dv_shape :: array_shape
  dv_subset :: array_subset
  dv_bytes_in_subset_len :: usize
  dv_contiguous_indices :: contiguous_indices
  dv_contiguous_linearised :: contiguous_linearised

definition view_new :: "bytes \<Rightarrow> usize \<Rightarrow> array_shape \<Rightarrow> array_subset \<Rightarrow> codec_error + disjoint_view" where
  "view_new b z a s =
     (if \<not> inbounds_shape s a then Inl (SubsetOutOfBounds s (new_with_shape a))
      else
        let bytes_in_array_len = wmul (wprod a) z in
        if length b \<noteq> bytes_in_array_len then Inl (UnexpectedChunkDecodedSize (length b) bytes_in_array_len)
        else
          let bytes_in_subset_len = wmul (num_elements s) z in
          case contiguous_new s a of
            Inl e \<Rightarrow> Inl (IncompatibleIndexer e)
          | Inr contiguous_indices \<Rightarrow>
            (case contiguous_linearised_new s a of
               Inl e \<Rightarrow> Inl (IncompatibleIndexer e)
             | Inr contiguous_linearised \<Rightarrow>
                Inr \<lparr>dv_data_type_size = z, dv_shape = a, dv_subset = s,
                     dv_bytes_in_subset_len = bytes_in_subset_len,
                     dv_contiguous_indices = contiguous_indices,
                     dv_contiguous_linearised = contiguous_linearised\<rparr>))"

definition view_subdivide :: "bytes \<Rightarrow> disjoint_view \<Rightarrow> array_subset \<Rightarrow> codec_error + disjoint_view" where
  "view_subdivide b v s =
     (if \<not> inbounds s (dv_subset v) then Inl (SubsetOutOfBounds s (dv_subset v))
      else view_new b (dv_data_type_size v) (dv_shape v) s)"

definition view_num_elements :: "disjoint_view \<Rightarrow> u64" where
  "view_num_elements v = num_elements (dv_subset v)"

text \<open>\<open>bytes.index_mut(start..start + data.len()).copy_from_slice(data)\<close>\<close>

definition write_at :: "bytes \<Rightarrow> usize \<Rightarrow> bytes \<Rightarrow> codec_error + bytes" where
  "write_at b start data =
     (if start + length data \<le> length b then Inr (take start b @ data @ drop (start + length data) b)
      else Inl CodecPanic)"

fun fill_runs :: "usize \<Rightarrow> bytes \<Rightarrow> (u64 \<times> u64) list \<Rightarrow> bytes \<Rightarrow> codec_error + bytes" where
  "fill_runs z data [] b = Inr b"
| "fill_runs z data ((index, _) # runs) b =
     bind_res (write_at b (wmul index z) data) (\<lambda>b. fill_runs z data runs b)"

definition view_fill :: "disjoint_view \<Rightarrow> bytes \<Rightarrow> bytes \<Rightarrow> codec_error + bytes" where
  "view_fill v f b =
     (if length f \<noteq> dv_data_type_size v then Inl (UnexpectedChunkDecodedSize (length f) (dv_data_type_size v))
      else case contiguous_linearised_collect (dv_contiguous_linearised v) of
          None \<Rightarrow> Inl CodecPanic
        | Some runs \<Rightarrow>
            fill_runs (dv_data_type_size v) (concat (replicate (ci_elements (dv_contiguous_indices v)) f)) runs b)"

fun copy_runs :: "usize \<Rightarrow> bytes \<Rightarrow> (u64 \<times> u64) list \<Rightarrow> usize \<Rightarrow> bytes \<Rightarrow> codec_error + bytes" where
  "copy_runs z subset_bytes [] subset_offset b = Inr b"
| "copy_runs z subset_bytes ((index, n) # runs) subset_offset b =
     (let output_offset = wmul index z; len = wmul n z; subset_offset_end = wadd subset_offset len in
      case slice subset_bytes subset_offset subset_offset_end of
        None \<Rightarrow> Inl CodecPanic
      | Some data \<Rightarrow>
          bind_res (write_at b output_offset data) (\<lambda>b. copy_runs z subset_bytes runs subset_offset_end b))"

definition view_copy_from_slice :: "disjoint_view \<Rightarrow> bytes \<Rightarrow> bytes \<Rightarrow> codec_error + bytes" where
  "view_copy_from_slice v subset_bytes b =
     (if length subset_bytes \<noteq> dv_bytes_in_subset_len v
      then Inl (UnexpectedChunkDecodedSize (length subset_bytes) (dv_bytes_in_subset_len v))
      else case contiguous_linearised_collect (dv_contiguous_linearised v) of
          None \<Rightarrow> Inl CodecPanic
        | Some runs \<Rightarrow> copy_runs (dv_data_type_size v) subset_bytes runs 0 b)"

subsection \<open>Updates\<close>

text \<open>
  \<open>update_bytes_vlen_array_subset\<close>: the sizes of the new and the old items first (\<open>checked_sub\<close> of the new
  length panics below zero), then the items of every element of the array, from the update inside the
  subset and from the input outside.
\<close>

definition window_sum :: "usize list \<Rightarrow> usize" where
  "window_sum os = wsum (map (\<lambda>(curr, next). wsub next curr) (zip os (tl os)))"

definition item_size :: "usize list \<Rightarrow> nat \<Rightarrow> codec_error + usize" where
  "item_size os i = (if i + 1 < length os then Inr (wsub (os ! (i + 1)) (os ! i)) else Inl CodecPanic)"

definition check_new_len :: "usize \<Rightarrow> usize \<Rightarrow> usize \<Rightarrow> codec_error + unit" where
  "check_new_len input_len size_new size_old =
     (if wadd input_len size_new < size_old then Inl CodecPanic else Inr ())"

definition vlen_subset_item ::
    "bytes \<Rightarrow> usize list \<Rightarrow> bytes \<Rightarrow> usize list \<Rightarrow> array_subset \<Rightarrow> nat \<times> array_indices \<Rightarrow> codec_error + bytes" where
  "vlen_subset_item input_bytes input_offsets update_bytes update_offsets s ci =
     (case ci of (chunk_index, indices) \<Rightarrow>
        if contains s indices
        then (case ravel_indices (map (\<lambda>(i, s). wsub i s) (zip indices (sub_start s))) (sub_shape s) of
                None \<Rightarrow> Inl CodecPanic
              | Some subset_index \<Rightarrow> vlen_item update_bytes update_offsets subset_index)
        else vlen_item input_bytes input_offsets chunk_index)"

definition update_vlen_subset ::
    "bytes \<Rightarrow> usize list \<Rightarrow> array_shape \<Rightarrow> bytes \<Rightarrow> usize list \<Rightarrow> array_subset \<Rightarrow> codec_error + (bytes \<times> usize list)" where
  "update_vlen_subset input_bytes input_offsets a update_bytes update_offsets s =
     (if \<not> inbounds_shape s a then Inl (IncompatibleIndexer (OutOfBounds (end_exc s) a))
      else
        case linearised_new s a of
          Inl _ \<Rightarrow> Inl CodecPanic
        | Inr l \<Rightarrow>
            (case linearised_collect l of
               None \<Rightarrow> Inl CodecPanic
             | Some chunk_indices \<Rightarrow>
                bind_res (collect_res (map (item_size input_offsets) chunk_indices)) (\<lambda>sizes.
                bind_res (check_new_len (length input_bytes) (window_sum update_offsets) (wsum sizes)) (\<lambda>_.
                  push_items
                    (map (vlen_subset_item input_bytes input_offsets update_bytes update_offsets s)
                       (enumerate 0 (indices_collect (indices_new (new_with_shape a))))) [] []))))"

text \<open>
  \<open>update_bytes_vlen_indexer\<close>: \<open>element_indices_update\<close> maps an element of the array to the last update of it.
\<close>

fun mark_updates :: "(nat \<times> u64) list \<Rightarrow> nat option list \<Rightarrow> codec_error + nat option list" where
  "mark_updates [] marks = Inr marks"
| "mark_updates ((update_index, input_index) # us) marks =
     (if input_index < length marks then mark_updates us (marks[input_index := Some update_index])
      else Inl CodecPanic)"

definition vlen_marked_item ::
    "bytes \<Rightarrow> usize list \<Rightarrow> bytes \<Rightarrow> usize list \<Rightarrow> nat option list \<Rightarrow> nat \<Rightarrow> codec_error + bytes" where
  "vlen_marked_item input_bytes input_offsets update_bytes update_offsets marks input_index =
     (case marks ! input_index of
        Some update_index \<Rightarrow> vlen_item update_bytes update_offsets update_index
      | None \<Rightarrow> vlen_item input_bytes input_offsets input_index)"

definition update_vlen_indexer ::
    "bytes \<Rightarrow> usize list \<Rightarrow> array_shape \<Rightarrow> bytes \<Rightarrow> usize list \<Rightarrow> indexer \<Rightarrow> codec_error + (bytes \<times> usize list)" where
  "update_vlen_indexer input_bytes input_offsets a update_bytes update_offsets x =
     bind_res (linearised_of x a) (\<lambda>update_indices.
     bind_res (collect_res (map (item_size input_offsets) update_indices)) (\<lambda>sizes.
     bind_res (mark_updates (enumerate 0 update_indices) (replicate (wprod a) None)) (\<lambda>marks.
     bind_res (check_new_len (length input_bytes) (length update_bytes) (wsum sizes)) (\<lambda>_.
       push_items (map (vlen_marked_item input_bytes input_offsets update_bytes update_offsets marks) [0..<wprod a]) [] []))))"

text \<open>The copy of a list of byte ranges, as the loop over \<open>iter_contiguous_byte_ranges\<close> does it.\<close>

fun copy_ranges :: "bytes \<Rightarrow> range64 list \<Rightarrow> usize \<Rightarrow> bytes \<Rightarrow> codec_error + bytes" where
  "copy_ranges update_bytes [] off b = Inr b"
| "copy_ranges update_bytes ((s, e) # rs) off b =
     (let n = saturating_sub e s in
      if \<not> (s \<le> e \<and> e \<le> length b) then Inl CodecPanic
      else case slice update_bytes off (wadd off n) of
        None \<Rightarrow> Inl CodecPanic
      | Some data \<Rightarrow> bind_res (write_at b s data) (\<lambda>b. copy_ranges update_bytes rs (wadd off n) b))"

definition update_flen_subset :: "bytes \<Rightarrow> array_shape \<Rightarrow> array_subset \<Rightarrow> bytes \<Rightarrow> usize \<Rightarrow> codec_error + bytes" where
  "update_flen_subset b a s update_bytes z =
     bind_res (view_new b z a s) (\<lambda>v. view_copy_from_slice v update_bytes b)"

definition update_flen_indexer :: "bytes \<Rightarrow> array_shape \<Rightarrow> indexer \<Rightarrow> bytes \<Rightarrow> usize \<Rightarrow> codec_error + bytes" where
  "update_flen_indexer b a x update_bytes z =
     bind_res (byte_ranges_of x a z) (\<lambda>rs. copy_ranges update_bytes rs 0 b)"

definition kind_error :: "data_type_size \<Rightarrow> codec_error" where
  "kind_error sz = (case sz of SizeVariable \<Rightarrow> ExpectedVariableLengthBytes | SizeFixed _ \<Rightarrow> ExpectedFixedLengthBytes)"

fun update_array_bytes_array_subset ::
    "array_bytes \<Rightarrow> array_shape \<Rightarrow> array_subset \<Rightarrow> array_bytes \<Rightarrow> data_type_size \<Rightarrow> codec_error + array_bytes" where
  "update_array_bytes_array_subset (VariableBytes b os) a s (VariableBytes ub uos) SizeVariable =
     bind_res (update_vlen_subset b os a ub uos s) (\<lambda>(b, os). Inr (VariableBytes b os))"
| "update_array_bytes_array_subset (FixedBytes b) a s (FixedBytes ub) (SizeFixed z) =
     bind_res (update_flen_subset b a s ub z) (\<lambda>b. Inr (FixedBytes b))"
| "update_array_bytes_array_subset (OptionalBytes d m) a s (OptionalBytes ud um) sz =
     bind_res (update_array_bytes_array_subset d a s ud sz) (\<lambda>d.
     bind_res (update_flen_subset m a s um 1) (\<lambda>m. Inr (OptionalBytes d m)))"
| "update_array_bytes_array_subset _ _ _ _ sz = Inl (kind_error sz)"

fun update_array_bytes_indexer ::
    "array_bytes \<Rightarrow> array_shape \<Rightarrow> indexer \<Rightarrow> array_bytes \<Rightarrow> data_type_size \<Rightarrow> codec_error + array_bytes"
  and update_array_bytes ::
    "array_bytes \<Rightarrow> array_shape \<Rightarrow> indexer \<Rightarrow> array_bytes \<Rightarrow> data_type_size \<Rightarrow> codec_error + array_bytes" where
  "update_array_bytes_indexer (VariableBytes b os) a x (VariableBytes ub uos) SizeVariable =
     bind_res (update_vlen_indexer b os a ub uos x) (\<lambda>(b, os). Inr (VariableBytes b os))"
| "update_array_bytes_indexer (FixedBytes b) a x (FixedBytes ub) (SizeFixed z) =
     bind_res (update_flen_indexer b a x ub z) (\<lambda>b. Inr (FixedBytes b))"
| "update_array_bytes_indexer (OptionalBytes d m) a x (OptionalBytes ud um) sz =
     bind_res (update_array_bytes d a x ud sz) (\<lambda>d.
     bind_res (update_flen_indexer m a x um 1) (\<lambda>m. Inr (OptionalBytes d m)))"
| "update_array_bytes_indexer _ _ _ _ sz = Inl (kind_error sz)"
| "update_array_bytes b a x u sz =
     (case ix_as_array_subset x of
        Some s \<Rightarrow> update_array_bytes_array_subset b a s u sz
      | None \<Rightarrow> update_array_bytes_indexer b a x u sz)"

subsection \<open>Targets of a decoding\<close>

text \<open>A target is its views, each with the buffer it writes to.\<close>

datatype decode_target =
    FixedTarget disjoint_view bytes
  | OptionalTarget decode_target disjoint_view bytes

fun target_num_elements :: "decode_target \<Rightarrow> u64" where
  "target_num_elements (FixedTarget v _) = view_num_elements v"
| "target_num_elements (OptionalTarget d _ _) = target_num_elements d"

fun decode_into_target :: "array_bytes \<Rightarrow> decode_target \<Rightarrow> codec_error + decode_target" where
  "decode_into_target (FixedBytes b) (FixedTarget v buf) =
     bind_res (view_copy_from_slice v b buf) (\<lambda>buf. Inr (FixedTarget v buf))"
| "decode_into_target (OptionalBytes d m) (OptionalTarget dt v buf) =
     bind_res (decode_into_target d dt) (\<lambda>dt.
     bind_res (view_copy_from_slice v m buf) (\<lambda>buf. Inr (OptionalTarget dt v buf)))"
| "decode_into_target (VariableBytes _ _) _ = Inl ExpectedFixedLengthBytes"
| "decode_into_target (FixedBytes _) (OptionalTarget _ _ _) = Inl ExpectedOptionalBytes"
| "decode_into_target (OptionalBytes _ _) (FixedTarget _ _) = Inl ExpectedFixedLengthBytes"

definition copy_fill_value_into :: "data_type \<Rightarrow> fill_value \<Rightarrow> decode_target \<Rightarrow> codec_error + decode_target" where
  "copy_fill_value_into t f target =
     bind_res (new_fill_value t (target_num_elements target) f) (\<lambda>b. decode_into_target b target)"

end
