(* ===== verification/Element_Lists.thy ===== *)
theory Element_Lists
  imports Array_Bytes
begin

text \<open>
  Array bytes as lists of elements: lemmas that turn the byte copies of \<open>Array_Bytes\<close> into list updates.
  \<open>scatter E is us\<close> assigns \<open>us\<close> at the positions \<open>is\<close>, in order.
\<close>

subsection \<open>Scatter\<close>

fun scatter :: "'a list \<Rightarrow> nat list \<Rightarrow> 'a list \<Rightarrow> 'a list" where
  "scatter E (i # idx) (u # us) = scatter (E[i := u]) idx us"
| "scatter E _ _ = E"

lemma length_scatter [simp]: "length (scatter E idx us) = length E"
  by (induction E idx us rule: scatter.induct) simp_all

lemma scatter_Nil [simp]: "scatter E [] us = E" "scatter E idx [] = E"
  by (cases us; simp) (cases idx; simp)

lemma scatter_append:
  "length idx = length us \<Longrightarrow> scatter E (idx @ idx') (us @ us') = scatter (scatter E idx us) idx' us'"
  by (induction idx us arbitrary: E rule: list_induct2) simp_all

lemma scatter_other: "j \<notin> set idx \<Longrightarrow> scatter E idx us ! j = E ! j"
  by (induction E idx us rule: scatter.induct) auto

lemma scatter_nth:
  "distinct idx \<Longrightarrow> length us = length idx \<Longrightarrow> k < length idx \<Longrightarrow> idx ! k < length E \<Longrightarrow>
     scatter E idx us ! (idx ! k) = us ! k"
proof (induction E idx us arbitrary: k rule: scatter.induct)
  case (1 E i idx u us)
  then show ?case by (cases k) (auto simp: scatter_other)
qed auto

lemma scatter_same:
  assumes "distinct idx" and "length us = length idx" and "\<forall>i \<in> set idx. i < length E"
  shows "map ((!) (scatter E idx us)) idx = us"
  using assms by (auto intro!: nth_equalityI simp: scatter_nth)

lemma scatter_run:
  "i + length D \<le> length E \<Longrightarrow> scatter E [i..<i + length D] D = take i E @ D @ drop (i + length D) E"
proof (induction D arbitrary: E i)
  case (Cons d D)
  have i: "i < length E" using Cons.prems by simp
  have "scatter E [i..<i + length (d # D)] (d # D) = scatter (E[i := d]) [Suc i..<Suc i + length D] D"
    by (simp add: upt_rec)
  also have "\<dots> = take (Suc i) (E[i := d]) @ D @ drop (Suc i + length D) (E[i := d])"
    using Cons.prems by (intro Cons.IH) simp
  also have "take (Suc i) (E[i := d]) = take i E @ [d]"
    using i by (simp add: take_Suc_conv_app_nth)
  finally show ?case by simp
qed simp

lemma map_scatter: "map f (scatter E idx us) = scatter (map f E) idx (map f us)"
  by (induction E idx us rule: scatter.induct) (simp_all add: map_update)

lemma set_scatter: "set (scatter E idx us) \<subseteq> set E \<union> set us"
proof (induction E idx us rule: scatter.induct)
  case (1 E i idx u us)
  then show ?case using set_update_subset_insert[of E i u] by auto
qed auto

text \<open>Scatter at the items of a marked list, where a later update overrides an earlier one.\<close>

definition marked :: "'a list \<Rightarrow> 'a list \<Rightarrow> nat option list \<Rightarrow> nat \<Rightarrow> 'a" where
  "marked E us marks c = (case marks ! c of Some k \<Rightarrow> us ! k | None \<Rightarrow> E ! c)"

lemma mark_updates_scatter:
  assumes "\<forall>i \<in> set idx. i < length marks" and "k + length idx = length us" and "length marks = length E"
  shows "\<exists>marks'. mark_updates (enumerate k idx) marks = Inr marks' \<and> length marks' = length marks \<and>
     map (marked E us marks') [0..<length E] = scatter (map (marked E us marks) [0..<length E]) idx (drop k us) \<and>
     (\<forall>c < length E. \<forall>j. marks' ! c = Some j \<longrightarrow> marks ! c = Some j \<or> j < length us)"
  using assms
proof (induction idx arbitrary: k marks)
  case (Cons i idx)
  have k: "drop k us = us ! k # drop (Suc k) us" "k < length us"
    using Cons.prems(2) by (simp_all add: Cons_nth_drop_Suc)
  let ?m = "marks[i := Some k]"
  have upd: "map (marked E us ?m) [0..<length E] = (map (marked E us marks) [0..<length E])[i := us ! k]"
    using Cons.prems by (intro nth_equalityI) (auto simp: marked_def nth_list_update)
  obtain marks' where m: "mark_updates (enumerate (Suc k) idx) ?m = Inr marks'" "length marks' = length ?m"
      "map (marked E us marks') [0..<length E] = scatter (map (marked E us ?m) [0..<length E]) idx (drop (Suc k) us)"
      "\<forall>c < length E. \<forall>j. marks' ! c = Some j \<longrightarrow> ?m ! c = Some j \<or> j < length us"
    using Cons.IH[of ?m "Suc k"] Cons.prems by auto
  have "\<forall>c < length E. \<forall>j. marks' ! c = Some j \<longrightarrow> marks ! c = Some j \<or> j < length us"
    using m(4) k(2) Cons.prems by (auto simp: nth_list_update split: if_splits)
  then show ?case using m(1-3) Cons.prems k(1) upd by simp
qed simp

lemma sum_list_distinct_le:
  assumes "distinct idx" and "\<forall>i \<in> set idx. i < length (xs :: nat list)"
  shows "sum_list (map ((!) xs) idx) \<le> sum_list xs"
proof -
  have "sum_list (map ((!) xs) idx) = sum ((!) xs) (set idx)" using assms(1) by (rule sum_list_distinct_conv_sum_set)
  also have "\<dots> \<le> sum ((!) xs) {0..<length xs}" using assms(2) by (intro sum_mono2) auto
  also have "\<dots> = sum_list xs" by (simp add: sum_list_sum_nth)
  finally show ?thesis .
qed

subsection \<open>Elements of fixed size\<close>

definition sized :: "nat \<Rightarrow> bytes list \<Rightarrow> bool" where
  "sized z E \<longleftrightarrow> list_all (\<lambda>e. length e = z) E"

lemma sized_simps [simp]:
  "sized z []" "sized z (e # E) \<longleftrightarrow> length e = z \<and> sized z E" "sized z (E @ E') \<longleftrightarrow> sized z E \<and> sized z E'"
  by (simp_all add: sized_def)

lemma sized_chunks [simp]: "sized z (chunks_exact z b)"
  by (auto simp: sized_def list_all_iff dest: length_chunks_exact)

lemma length_concat_sized: "sized z E \<Longrightarrow> length (concat E) = length E * z"
  by (induction E) simp_all

lemma take_concat_sized: "sized z E \<Longrightarrow> take (i * z) (concat E) = concat (take i E)"
proof (induction E arbitrary: i)
  case (Cons e E)
  then show ?case by (cases i) simp_all
qed simp

lemma drop_concat_sized: "sized z E \<Longrightarrow> drop (i * z) (concat E) = concat (drop i E)"
proof (induction E arbitrary: i)
  case (Cons e E)
  then show ?case by (cases i) simp_all
qed simp

lemma sized_take_drop: "sized z E \<Longrightarrow> sized z (take i E)" "sized z E \<Longrightarrow> sized z (drop i E)"
  by (auto simp: sized_def list_all_iff dest: in_set_takeD in_set_dropD)

lemma chunks_concat: "sized z E \<Longrightarrow> 0 < z \<Longrightarrow> chunks_exact z (concat E) = E"
  by (simp add: sized_def chunks_exact_concat)

lemma length_chunks:
  fixes b :: bytes
  assumes "0 < z" and "length b = n * z"
  shows "concat (chunks_exact z b) = b" and "length (chunks_exact z b) = n"
proof -
  show c: "concat (chunks_exact z b) = b" using assms by (intro concat_chunks_exact) simp_all
  have "length (chunks_exact z b) * z = n * z"
    using length_concat_sized[OF sized_chunks, of z b] unfolding c assms(2) by (rule sym)
  then show "length (chunks_exact z b) = n" using assms(1) by simp
qed

lemma slice_concat:
  assumes "sized z E" and "i + n \<le> length E"
  shows "take (n * z) (drop (i * z) (concat E)) = concat (take n (drop i E))"
  using assms by (simp add: drop_concat_sized take_concat_sized sized_take_drop)

lemma write_at_concat:
  assumes "sized z E" and "sized z D" and "i + length D \<le> length E"
  shows "write_at (concat E) (i * z) (concat D) = Inr (concat (scatter E [i..<i + length D] D))"
proof -
  have "i * z + length D * z \<le> length E * z"
    using mult_le_mono1[OF assms(3), of z] by (simp add: add_mult_distrib)
  moreover have "drop (i * z + length D * z) (concat E) = concat (drop (i + length D) E)"
    using drop_concat_sized[OF assms(1), of "i + length D"] by (simp add: add_mult_distrib)
  ultimately show ?thesis
    using assms by (simp add: write_at_def length_concat_sized scatter_run take_concat_sized)
qed

lemma sized_scatter: "sized z E \<Longrightarrow> sized z us \<Longrightarrow> sized z (scatter E idx us)"
  using set_scatter[of E idx us] by (auto simp: sized_def list_all_iff)

subsection \<open>Elements of variable size\<close>

definition vlen_items :: "bytes \<Rightarrow> usize list \<Rightarrow> bytes list" where
  "vlen_items b os = map (\<lambda>i. take (os ! Suc i - os ! i) (drop (os ! i) b)) [0..<length os - 1]"

fun offsets_of :: "nat \<Rightarrow> bytes list \<Rightarrow> nat list" where
  "offsets_of k [] = [k]"
| "offsets_of k (x # xs) = k # offsets_of (k + length x) xs"

definition vlen_ok :: "nat \<Rightarrow> bytes \<Rightarrow> usize list \<Rightarrow> bool" where
  "vlen_ok n b os \<longleftrightarrow> length os = Suc n \<and> sorted os \<and> last os = length b \<and> length b < M64"

lemma length_vlen_items [simp]: "length (vlen_items b os) = length os - 1"
  by (simp add: vlen_items_def)

lemma length_offsets_of [simp]: "length (offsets_of k xs) = Suc (length xs)"
  by (induction k xs rule: offsets_of.induct) simp_all

lemma offsets_of_ne [simp]: "offsets_of k xs \<noteq> []"
  by (cases xs) simp_all

lemma hd_offsets_of [simp]: "offsets_of k xs ! 0 = k"
  by (cases xs) simp_all

lemma offsets_of_ge: "x \<in> set (offsets_of k xs) \<Longrightarrow> k \<le> x"
  by (induction k xs rule: offsets_of.induct) fastforce+

lemma sorted_offsets_of: "sorted (offsets_of k xs)"
  by (induction k xs rule: offsets_of.induct) (auto dest: offsets_of_ge)

lemma last_offsets_of: "last (offsets_of k xs) = k + length (concat xs)"
  by (induction k xs rule: offsets_of.induct) simp_all

lemma vlen_items_Cons: "vlen_items b (o0 # o1 # os) = take (o1 - o0) (drop o0 b) # vlen_items b (o1 # os)"
  by (simp add: vlen_items_def upt_conv_Cons map_Suc_upt[symmetric] comp_def del: upt_Suc)

lemma vlen_items_offsets: "vlen_items (p @ concat xs) (offsets_of (length p) xs) = xs"
proof (induction xs arbitrary: p)
  case (Cons x xs)
  obtain os where os: "offsets_of (length (p @ x)) xs = length (p @ x) # os"
    by (cases xs) simp_all
  have "vlen_items (p @ concat (x # xs)) (offsets_of (length p) (x # xs)) =
      x # vlen_items ((p @ x) @ concat xs) (offsets_of (length (p @ x)) xs)"
    using os by (simp add: vlen_items_Cons)
  then show ?case using Cons.IH[of "p @ x"] by simp
qed (simp add: vlen_items_def)

lemma push_items_eq: "push_items (map Inr xs) b os = Inr (b @ concat xs, os @ offsets_of (length b) xs)"
  by (induction xs arbitrary: b os) simp_all

lemma pushed_items:
  assumes "length (concat xs) < M64"
  shows "push_items (map Inr xs) [] [] = Inr (concat xs, offsets_of 0 xs)"
    and "vlen_ok (length xs) (concat xs) (offsets_of 0 xs)" and "vlen_items (concat xs) (offsets_of 0 xs) = xs"
  using vlen_items_offsets[of "[]" xs] assms
  by (simp_all add: push_items_eq vlen_ok_def sorted_offsets_of last_offsets_of)

lemma vlen_offsets_le:
  assumes "vlen_ok n b os" and "i < n"
  shows "os ! i \<le> os ! Suc i" and "os ! Suc i \<le> length b"
proof -
  have s: "sorted os" "length os = Suc n" "last os = length b" using assms(1) by (simp_all add: vlen_ok_def)
  show "os ! i \<le> os ! Suc i" using s assms(2) by (simp add: sorted_nth_mono)
  have "os ! Suc i \<le> os ! n" using s assms(2) by (simp add: sorted_nth_mono)
  moreover have "os \<noteq> []" using s(2) by auto
  then have "os ! n = length b" using s by (simp add: last_conv_nth)
  ultimately show "os ! Suc i \<le> length b" by simp
qed

lemma vlen_item_ok:
  assumes "vlen_ok n b os" and "i < n"
  shows "vlen_item b os i = Inr (vlen_items b os ! i)"
    and "item_size os i = Inr (length (vlen_items b os ! i))"
proof -
  note le = vlen_offsets_le[OF assms]
  have len: "length os = Suc n" "length b < M64" using assms(1) by (simp_all add: vlen_ok_def)
  show "vlen_item b os i = Inr (vlen_items b os ! i)"
    using le len assms(2) by (simp add: vlen_item_def slice_def vlen_items_def)
  show "item_size os i = Inr (length (vlen_items b os ! i))"
    using le len assms(2) by (simp add: item_size_def vlen_items_def wsub_eq)
qed

lemma sum_vlen_items:
  "sorted (o0 # os) \<Longrightarrow> last (o0 # os) \<le> length b \<Longrightarrow>
     sum_list (map length (vlen_items b (o0 # os))) = last (o0 # os) - o0"
proof (induction os arbitrary: o0)
  case (Cons o1 os)
  have "o1 \<le> last (o1 # os)" using Cons.prems(1) by (auto simp: last_in_set)
  then show ?case using Cons by (simp add: vlen_items_Cons)
qed (simp add: vlen_items_def)

lemma vlen_items_total: "vlen_ok n b os \<Longrightarrow> sum_list (map length (vlen_items b os)) \<le> length b"
  using sum_vlen_items[of "hd os" "tl os" b] by (cases os) (auto simp: vlen_ok_def)

lemma window_sum_le:
  assumes "vlen_ok n b os"
  shows "window_sum os = sum_list (map length (vlen_items b os))"
proof -
  have len: "length os = Suc n" "length b < M64" using assms by (simp_all add: vlen_ok_def)
  have "map (\<lambda>(curr, next). wsub next curr) (zip os (tl os)) = map length (vlen_items b os)"
  proof (rule nth_equalityI)
    fix i assume "i < length (map (\<lambda>(curr, next). wsub next curr) (zip os (tl os)))"
    then have i: "i < n" using len(1) by simp
    show "map (\<lambda>(curr, next). wsub next curr) (zip os (tl os)) ! i = map length (vlen_items b os) ! i"
      using vlen_offsets_le[OF assms i] i len by (simp add: vlen_items_def nth_tl wsub_eq)
  qed (use len in simp)
  moreover have "sum_list (map length (vlen_items b os)) < M64"
    using vlen_items_total[OF assms] len(2) by simp
  ultimately show ?thesis by (simp add: window_sum_def wsum_eq)
qed

end
