(* ===== verification/Array_Bytes_Laws.thy ===== *)
theory Array_Bytes_Laws
  imports Element_Lists
begin

text \<open>
  What the operations on array bytes do to the elements: extraction selects the elements of the indexer,
  an update assigns them, for fixed, variable and optional elements and on every path of the code.
\<close>

subsection \<open>Fixed size\<close>

definition small_array :: "array_shape \<Rightarrow> nat \<Rightarrow> bool" where
  "small_array a z \<longleftrightarrow> 0 < z \<and> prod_list a * z < M64"

lemma small_array_prod: "small_array a z \<Longrightarrow> prod_list a < M64"
  by (metis small_array_def le_less_trans mult_le_mono2 Suc_leI mult_1_right One_nat_def)

definition run_range :: "nat \<Rightarrow> nat \<times> nat \<Rightarrow> range64" where
  "run_range z run = (case run of (i, n) \<Rightarrow> (i * z, i * z + n * z))"

lemma byte_range_of_run_eq:
  assumes "i + n \<le> p" and "p * z < M64"
  shows "byte_range_of_run z (i, n) = run_range z (i, n)"
proof -
  have "i * z + n * z \<le> p * z" using mult_le_mono1[OF assms(1), of z] by (simp add: add_mult_distrib)
  then show ?thesis using assms(2) by (simp add: byte_range_of_run_def run_range_def wmul_eq wadd_eq Let_def)
qed

lemma byte_ranges_of_eq:
  assumes "covers a x" and "small_array a z"
  shows "\<exists>runs. byte_ranges_of x a z = Inr (map (run_range z) runs) \<and> runs_of (prod_list a) runs (ix_elements a x)"
proof -
  have p: "prod_list a < M64" using assms(2) by (rule small_array_prod)
  obtain runs where r: "ix_contiguous x a = Inr (Some runs)" "runs_of (prod_list a) runs (ix_elements a x)"
    using ix_contiguous_eq[OF assms(1) p] by blast
  have "map (byte_range_of_run z) runs = map (run_range z) runs"
    using r(2) assms(2) byte_range_of_run_eq[of _ _ "prod_list a" z]
    by (intro map_cong refl) (auto simp: runs_of_def small_array_def)
  then show ?thesis using r by (intro exI[of _ runs]) (simp add: byte_ranges_of_def ix_byte_ranges_def)
qed

lemma linearised_of_eq: "covers a x \<Longrightarrow> prod_list a < M64 \<Longrightarrow> linearised_of x a = Inr (ix_elements a x)"
  by (simp add: linearised_of_def ix_linearised_eq)

lemma runs_of_Cons:
  "runs_of p ((i, n) # runs) idx \<longleftrightarrow>
     (\<exists>idx'. idx = [i..<i + n] @ idx' \<and> i + n \<le> p \<and> runs_of p runs idx')"
  by (auto simp: runs_of_def)

lemma concat_runs:
  assumes "runs_of p runs idx" and "sized z E" and "p = length E"
  shows "concat (map (\<lambda>(i, n). take (n * z) (drop (i * z) (concat E))) runs) = concat (map ((!) E) idx)"
  using assms(1)
proof (induction runs arbitrary: idx)
  case (Cons r runs)
  obtain i n where r: "r = (i, n)" by (metis prod.exhaust)
  obtain idx' where idx: "idx = [i..<i + n] @ idx'" "i + n \<le> length E" "runs_of p runs idx'"
    using Cons.prems assms(3) unfolding r runs_of_Cons by blast
  have "take n (drop i E) = map ((!) E) [i..<i + n]"
    using idx(2) by (intro nth_equalityI) simp_all
  then show ?case
    using Cons.IH[OF idx(3)] slice_concat[OF assms(2) idx(2)] by (simp add: r idx(1))
qed (simp add: runs_of_def)

lemma concat_select_length:
  "sized z E \<Longrightarrow> \<forall>i \<in> set idx. i < length E \<Longrightarrow> length (concat (map ((!) E) idx)) = length idx * z"
  by (induction idx) (auto simp: sized_def list_all_iff)

lemma extract_flen_ok:
  assumes "covers a x" and "small_array a z" and "sized z E" and "length E = prod_list a"
    and "length (ix_elements a x) * z < M64"
  shows "extract_flen (concat E) x a z = Inr (concat (map ((!) E) (ix_elements a x)))"
proof -
  obtain runs where r: "byte_ranges_of x a z = Inr (map (run_range z) runs)"
      "runs_of (prod_list a) runs (ix_elements a x)"
    using byte_ranges_of_eq[OF assms(1,2)] by blast
  have lenE: "length (concat E) = prod_list a * z" using assms(3,4) by (simp add: length_concat_sized)
  then have lt: "length (concat E) < M64" using assms(2) by (simp add: small_array_def)
  define br where "br = (\<lambda>(i, n). FromStart (i * z) (Some (n * z)))"
  have bound: "i * z + n * z \<le> prod_list a * z" if "(i, n) \<in> set runs" for i n
    using r(2) that mult_le_mono1[of "i + n" "prod_list a" z] by (auto simp: runs_of_def add_mult_distrib)
  have rs: "map (\<lambda>(s, e). byte_range_new (Included s) (Excluded e)) (map (run_range z) runs) = map br runs"
  proof -
    have "byte_range_new (Included (i * z)) (Excluded (i * z + n * z)) = br (i, n)" if "(i, n) \<in> set runs" for i n
      using bound[OF that] lt lenE by (simp add: br_def wsub_eq)
    then show ?thesis by (auto simp: run_range_def)
  qed
  have fits: "list_all br_fits (map br runs)" "list_all (\<lambda>r. br_in_range r (length (concat E))) (map br runs)"
    using bound lt unfolding lenE by (fastforce simp: list_all_iff br_def)+
  have sel: "concat (map (\<lambda>r. br_selected r (concat E)) (map br runs)) = concat (map ((!) E) (ix_elements a x))"
    using concat_runs[OF r(2) assms(3) assms(4)[symmetric]] by (simp add: br_def comp_def case_prod_beta')
  have "length (concat (map (\<lambda>r. br_selected r (concat E)) (map br runs))) < M64"
    unfolding sel using concat_select_length[OF assms(3)] ix_elements_less[OF assms(1)] assms(4,5) by simp
  then have tot: "sum_list (map (\<lambda>r. length (br_selected r (concat E))) (map br runs)) < M64"
    by (simp add: length_concat comp_def)
  have "find (\<lambda>r. \<not> br_in_range r (length (concat E))) (map br runs) = None"
    using fits(2) by (auto simp: find_None_iff list_all_iff)
  then have "extract_byte_ranges_concat (concat E) (map br runs) = Inr (concat (map ((!) E) (ix_elements a x)))"
    using extract_concat_eq[OF fits(1) lt tot] extract_byte_ranges_eq[OF fits(1) lt] sel by simp
  then show ?thesis by (simp only: extract_flen_def r(1) bind_res_simps rs sum.case)
qed

text \<open>
  One step of the copies: they read the source from \<open>off\<close> on, where it is the concatenation of the elements
  to write, and write the elements of one run.
\<close>

definition copy_ready :: "nat \<Rightarrow> bytes \<Rightarrow> (nat \<times> nat) list \<Rightarrow> nat list \<Rightarrow> bytes list \<Rightarrow> bytes list \<Rightarrow> nat \<Rightarrow> bool" where
  "copy_ready z S runs idx E U off \<longleftrightarrow>
     runs_of (length E) runs idx \<and> sized z E \<and> sized z U \<and> length E * z < M64 \<and> length S < M64 \<and>
     drop off S = concat U \<and> length U = length idx \<and> off \<le> length S"

lemma copy_step:
  assumes "copy_ready z S ((i, n) # runs) idx E U off"
  obtains idx' D U' where
    "slice S off (off + n * z) = Some (concat D)" and "i * z + n * z < M64" and "off + n * z < M64"
    and "i * z + n * z \<le> length (concat E)"
    and "write_at (concat E) (i * z) (concat D) = Inr (concat (scatter E [i..<i + n] D))"
    and "copy_ready z S runs idx' (scatter E [i..<i + n] D) U' (off + n * z)"
    and "scatter (scatter E [i..<i + n] D) idx' U' = scatter E idx U"
proof -
  have a: "sized z E" "sized z U" "length E * z < M64" "length S < M64" "drop off S = concat U"
      "length U = length idx" "off \<le> length S"
    using assms by (simp_all add: copy_ready_def)
  obtain idx' where idx: "idx = [i..<i + n] @ idx'" "i + n \<le> length E" "runs_of (length E) runs idx'"
    using assms unfolding copy_ready_def runs_of_Cons by blast
  define D where "D = take n U"
  define U' where "U' = drop n U"
  have U: "U = D @ U'" "length D = n" "length U' = length idx'"
    using a(6) by (simp_all add: idx(1) D_def U'_def)
  have s: "sized z D" "sized z U'" using a(2) by (simp_all add: D_def U'_def sized_take_drop)
  have lenD: "length (concat D) = n * z" using s(1) U(2) by (simp add: length_concat_sized)
  have "length S = off + length (concat U)" using a(5,7) by (metis le_add_diff_inverse length_drop)
  then have fin: "off + n * z \<le> length S" using U(1) lenD by simp
  have le: "i * z + n * z \<le> length E * z"
    using mult_le_mono1[OF idx(2), of z] by (simp add: add_mult_distrib)
  have sl: "slice S off (off + n * z) = Some (concat D)"
    using fin a(5) lenD by (simp add: slice_def U(1))
  have "drop (off + n * z) S = drop (n * z) (drop off S)" by (simp add: add.commute)
  also have "\<dots> = concat U'" unfolding a(5) U(1) using lenD by simp
  finally have dr: "drop (off + n * z) S = concat U'" .
  have w: "write_at (concat E) (i * z) (concat D) = Inr (concat (scatter E [i..<i + n] D))"
    using write_at_concat[OF a(1) s(1), of i] idx(2) U(2) by simp
  have ready: "copy_ready z S runs idx' (scatter E [i..<i + n] D) U' (off + n * z)"
    using idx(3) a s dr fin U(3) by (simp add: copy_ready_def sized_scatter)
  have "scatter (scatter E [i..<i + n] D) idx' U' = scatter E idx U"
    using U by (simp add: idx(1) scatter_append)
  with sl w ready show thesis
    using that[of D idx' U'] le fin a(1,3,4) by (simp add: length_concat_sized)
qed

lemma copy_runs_ok:
  "copy_ready z S runs idx E U off \<Longrightarrow> copy_runs z S runs off (concat E) = Inr (concat (scatter E idx U))"
proof (induction runs arbitrary: idx E U off)
  case Nil
  then show ?case by (simp add: copy_ready_def runs_of_def)
next
  case (Cons r runs)
  obtain i n where r: "r = (i, n)" by (metis prod.exhaust)
  from Cons.prems obtain idx' D U' where st:
    "slice S off (off + n * z) = Some (concat D)" "i * z + n * z < M64" "off + n * z < M64"
    "write_at (concat E) (i * z) (concat D) = Inr (concat (scatter E [i..<i + n] D))"
    "copy_ready z S runs idx' (scatter E [i..<i + n] D) U' (off + n * z)"
    "scatter (scatter E [i..<i + n] D) idx' U' = scatter E idx U"
    unfolding r by (rule copy_step)
  have "wmul i z = i * z" "wmul n z = n * z" "wadd off (n * z) = off + n * z"
    using st(2,3) by (simp_all add: wmul_eq wadd_eq)
  then show ?case using st(1,4,6) Cons.IH[OF st(5)] by (simp add: r Let_def)
qed

lemma copy_ranges_ok:
  "copy_ready z S runs idx E U off \<Longrightarrow>
     copy_ranges S (map (run_range z) runs) off (concat E) = Inr (concat (scatter E idx U))"
proof (induction runs arbitrary: idx E U off)
  case Nil
  then show ?case by (simp add: copy_ready_def runs_of_def)
next
  case (Cons r runs)
  obtain i n where r: "r = (i, n)" by (metis prod.exhaust)
  from Cons.prems obtain idx' D U' where st:
    "slice S off (off + n * z) = Some (concat D)" "off + n * z < M64" "i * z + n * z \<le> length (concat E)"
    "write_at (concat E) (i * z) (concat D) = Inr (concat (scatter E [i..<i + n] D))"
    "copy_ready z S runs idx' (scatter E [i..<i + n] D) U' (off + n * z)"
    "scatter (scatter E [i..<i + n] D) idx' U' = scatter E idx U"
    unfolding r by (rule copy_step)
  then show ?case
    using Cons.IH[OF st(5)] by (simp add: r run_range_def Let_def saturating_sub_def wadd_eq)
qed

text \<open>The fill writes the fill value at every element of every run.\<close>

lemma fill_runs_ok:
  "runs_of (length E) runs idx \<Longrightarrow> sized z E \<Longrightarrow> length E * z < M64 \<Longrightarrow> length f = z \<Longrightarrow>
     \<forall>(i, n) \<in> set runs. n = m \<Longrightarrow>
     fill_runs z (concat (replicate m f)) runs (concat E) = Inr (concat (scatter E idx (replicate (length idx) f)))"
proof (induction runs arbitrary: idx E)
  case Nil
  then show ?case by (simp add: runs_of_def)
next
  case (Cons r runs)
  obtain i where r: "r = (i, m)" using Cons.prems(5) by auto
  obtain idx' where idx: "idx = [i..<i + m] @ idx'" "i + m \<le> length E" "runs_of (length E) runs idx'"
    using Cons.prems(1) unfolding r runs_of_Cons by blast
  have s: "sized z (replicate m f)" using Cons.prems(4) by (simp add: sized_def list_all_iff)
  have w: "write_at (concat E) (i * z) (concat (replicate m f)) = Inr (concat (scatter E [i..<i + m] (replicate m f)))"
    using write_at_concat[OF Cons.prems(2) s, of i] idx(2) by simp
  have "i * z < M64" using mult_le_mono1[OF idx(2), of z] Cons.prems(3) by (simp add: add_mult_distrib)
  moreover have "fill_runs z (concat (replicate m f)) runs (concat (scatter E [i..<i + m] (replicate m f))) =
      Inr (concat (scatter (scatter E [i..<i + m] (replicate m f)) idx' (replicate (length idx') f)))"
    using Cons.prems idx(3) s by (intro Cons.IH) (simp_all add: sized_scatter)
  ultimately show ?case using w by (simp add: r idx(1) replicate_add scatter_append wmul_eq)
qed

subsection \<open>Views\<close>

abbreviation sub_idx :: "array_shape \<Rightarrow> array_subset \<Rightarrow> nat list" where
  "sub_idx a s \<equiv> ix_elements a (SubsetIndexer s)"

lemma fits_inbounds_shape: "fits s a \<Longrightarrow> inbounds_shape s a"
  by (auto simp: fits_def inbounds_shape_def wf_subset_nth list_all_length wadd_eq)

lemma length_sub_idx: "fits s a \<Longrightarrow> length (sub_idx a s) = prod_list (sub_shape s)"
  by (simp add: fits_def wf_subset_length length_box)

lemma distinct_sub_idx: "fits s a \<Longrightarrow> distinct (sub_idx a s)"
  using sorted_lin_box[of "sub_start s" "sub_shape s" a]
  by (simp add: fits_def wf_subset_length strict_sorted_iff)

lemma mult_less_M64: "m \<le> n \<Longrightarrow> n * z < M64 \<Longrightarrow> m * z < M64"
  by (meson le_less_trans mult_le_mono1)

definition view_ok :: "disjoint_view \<Rightarrow> nat \<Rightarrow> array_shape \<Rightarrow> array_subset \<Rightarrow> bool" where
  "view_ok v z a s \<longleftrightarrow> dv_data_type_size v = z \<and> dv_shape v = a \<and> dv_subset v = s \<and>
     dv_bytes_in_subset_len v = length (sub_idx a s) * z \<and>
     (\<exists>runs. contiguous_linearised_collect (dv_contiguous_linearised v) = Some runs \<and>
        runs_of (prod_list a) runs (sub_idx a s) \<and>
        (\<forall>(i, n) \<in> set runs. n = ci_elements (dv_contiguous_indices v)))"

lemma view_new_ok:
  assumes "subset_covered s a" and "small_array a z" and "length b = prod_list a * z"
  shows "\<exists>v. view_new b z a s = Inr v \<and> view_ok v z a s"
proof -
  have f: "fits s a" using assms(1) by (simp add: subset_covered_def)
  have p: "prod_list a < M64" "prod_list a * z < M64"
    using assms(2) small_array_prod[OF assms(2)] by (simp_all add: small_array_def)
  have "prod_list (sub_shape s) \<le> prod_list a" by (rule fits_prod[OF f])
  then have n: "wprod (sub_shape s) = prod_list (sub_shape s)" "prod_list (sub_shape s) * z < M64"
    using p mult_less_M64[of "prod_list (sub_shape s)" "prod_list a" z] by (simp_all add: wprod_eq)
  obtain ci runs where ci: "contiguous_new s a = Inr ci"
      "contiguous_linearised_collect \<lparr>cl_inner = ci, cl_array_shape = a\<rparr> = Some runs"
      "runs_of (prod_list a) runs (sub_idx a s)" "\<forall>(i, n) \<in> set runs. n = ci_elements ci"
    using contiguous_new_covered[OF assms(1) p(1)] by auto
  then show ?thesis
    using f p n assms(3) length_sub_idx[OF f]
    by (simp add: view_new_def fits_inbounds_shape wprod_eq wmul_eq num_elements_def contiguous_linearised_new_def
        view_ok_def Let_def del: ix_elements.simps)
qed

lemma view_copy_ok:
  assumes "view_ok v z a s" and "sized z E" and "length E = prod_list a" and "prod_list a * z < M64"
    and "sized z U" and "length U = length (sub_idx a s)" and "fits s a"
  shows "view_copy_from_slice v (concat U) (concat E) = Inr (concat (scatter E (sub_idx a s) U))"
proof -
  obtain runs where r: "contiguous_linearised_collect (dv_contiguous_linearised v) = Some runs"
      "runs_of (prod_list a) runs (sub_idx a s)"
    using assms(1) unfolding view_ok_def by blast
  have len: "length (concat U) = length (sub_idx a s) * z" using assms(5,6) by (simp add: length_concat_sized)
  have "length (sub_idx a s) * z < M64"
    by (rule mult_less_M64[OF _ assms(4)]) (simp only: length_sub_idx[OF assms(7)] fits_prod[OF assms(7)])
  then have "copy_ready z (concat U) runs (sub_idx a s) E U 0"
    using assms r(2) len unfolding copy_ready_def by simp
  then show ?thesis
    using copy_runs_ok r(1) len assms(1) by (simp add: view_copy_from_slice_def view_ok_def del: ix_elements.simps)
qed

lemma view_fill_ok:
  assumes "view_ok v z a s" and "sized z E" and "length E = prod_list a" and "prod_list a * z < M64" and "length f = z"
  shows "view_fill v f (concat E) = Inr (concat (scatter E (sub_idx a s) (replicate (length (sub_idx a s)) f)))"
proof -
  obtain runs where r: "contiguous_linearised_collect (dv_contiguous_linearised v) = Some runs"
      "runs_of (prod_list a) runs (sub_idx a s)" "\<forall>(i, n) \<in> set runs. n = ci_elements (dv_contiguous_indices v)"
    using assms(1) unfolding view_ok_def by blast
  have z: "dv_data_type_size v = z" using assms(1) by (simp add: view_ok_def)
  have "fill_runs z (concat (replicate (ci_elements (dv_contiguous_indices v)) f)) runs (concat E) =
      Inr (concat (scatter E (sub_idx a s) (replicate (length (sub_idx a s)) f)))"
    by (rule fill_runs_ok) (use r assms in simp_all)
  then show ?thesis using z r(1) assms(5) by (simp add: view_fill_def del: ix_elements.simps)
qed

subsection \<open>Elements\<close>

text \<open>
  The elements of array bytes: raw bytes, or an element with its mask byte.  \<open>ab_ok t n b\<close> says that
  \<open>b\<close> holds \<open>n\<close> elements of type \<open>t\<close> and is small enough to be addressed.
\<close>

datatype element = Raw bytes | Masked u8 element

fun elems :: "data_type \<Rightarrow> array_bytes \<Rightarrow> element list" where
  "elems (PlainType (SizeFixed z)) (FixedBytes b) = map Raw (chunks_exact z b)"
| "elems (PlainType SizeVariable) (VariableBytes b os) = map Raw (vlen_items b os)"
| "elems (OptionalType t) (OptionalBytes d m) = map2 Masked m (elems t d)"
| "elems _ _ = []"

fun ab_ok :: "data_type \<Rightarrow> nat \<Rightarrow> array_bytes \<Rightarrow> bool" where
  "ab_ok (PlainType (SizeFixed z)) n (FixedBytes b) \<longleftrightarrow> 0 < z \<and> length b = n * z \<and> n * z < M64"
| "ab_ok (PlainType SizeVariable) n (VariableBytes b os) \<longleftrightarrow> vlen_ok n b os"
| "ab_ok (OptionalType t) n (OptionalBytes d m) \<longleftrightarrow> ab_ok t n d \<and> length m = n"
| "ab_ok _ _ _ \<longleftrightarrow> False"

text \<open>The size of an element, for the bounds on what is written.\<close>

fun elem_size :: "element \<Rightarrow> nat" where
  "elem_size (Raw b) = length b"
| "elem_size (Masked _ e) = elem_size e"

lemma length_elems: "ab_ok t n b \<Longrightarrow> length (elems t b) = n"
  by (induction t n b rule: ab_ok.induct) (simp_all add: length_chunks vlen_ok_def)

lemma fixed_elems:
  assumes "ab_ok (PlainType (SizeFixed z)) n (FixedBytes b)"
  obtains E where "sized z E" and "length E = n" and "b = concat E" and "0 < z" and "n * z < M64"
    and "elems (PlainType (SizeFixed z)) (FixedBytes b) = map Raw E"
proof
  show "sized z (chunks_exact z b)" by simp
  show "length (chunks_exact z b) = n" "b = concat (chunks_exact z b)" "0 < z" "n * z < M64"
    using assms by (simp_all add: length_chunks)
  show "elems (PlainType (SizeFixed z)) (FixedBytes b) = map Raw (chunks_exact z b)" by simp
qed

lemma ab_ok_concat:
  assumes "sized z E" and "0 < z" and "length E * z < M64"
  shows "ab_ok (PlainType (SizeFixed z)) (length E) (FixedBytes (concat E))"
    and "elems (PlainType (SizeFixed z)) (FixedBytes (concat E)) = map Raw E"
  using assms by (simp_all add: length_concat_sized chunks_concat)

text \<open>A mask is an array of elements of one byte.\<close>

lemma mask_elems: "concat (map (\<lambda>b. [b]) m) = m" "sized 1 (map (\<lambda>b. [b]) m)"
  by (induction m) (simp_all add: sized_def)

subsection \<open>Variable size\<close>

text \<open>\<open>ArrayBytes::size\<close>\<close>

fun ab_size :: "array_bytes \<Rightarrow> usize" where
  "ab_size (FixedBytes b) = length b"
| "ab_size (VariableBytes b _) = length b"
| "ab_size (OptionalBytes d _) = ab_size d"

definition shape_ok :: "array_shape \<Rightarrow> bool" where
  "shape_ok a \<longleftrightarrow> prod_list a < M64 \<and> list_all (\<lambda>n. n < M64) a"

lemma sum_scatter:
  "sum_list (map f (scatter E idx us)) \<le> sum_list (map f E) + (sum_list (map f us) :: nat)"
proof (induction E idx us rule: scatter.induct)
  case (1 E i idx u us)
  have "sum_list (map f (E[i := u])) \<le> sum_list (map f E) + f u"
    by (cases "i < length E") (simp_all add: map_update sum_list_update not_less list_update_beyond)
  then show ?case using 1 by simp
qed auto

lemma box_nth:
  assumes "length st = length sh" and "inb j sh"
  shows "box st sh ! lin sh j = map (\<lambda>(a, b). a + b) (zip j st)"
proof -
  have "lin sh j < prod_list sh" using assms(2) by (rule lin_less)
  then show ?thesis
    using box_shift[OF assms(1)] box_unlin[of sh] unlin_lin[OF assms(2)] by simp
qed

lemma all_indices:
  assumes "shape_ok a"
  shows "indices_collect (indices_new (new_with_shape a)) = map (unlin a) [0..<prod_list a]"
proof -
  have "wf_subset (new_with_shape a)"
    using assms by (auto simp: new_with_shape_def wf_subset_def shape_ok_def list_all_length)
  then show ?thesis
    using indices_collect_new[of "new_with_shape a"] assms box_unlin[of a]
    by (simp add: new_with_shape_def shape_ok_def)
qed

lemma vlen_subset_item_ok:
  assumes "fits s a" and "prod_list a < M64" and "vlen_ok (prod_list a) b os" and "vlen_ok (length (sub_idx a s)) ub uos"
    and "c < prod_list a"
  shows "vlen_subset_item b os ub uos s (c, unlin a c) =
     Inr (scatter (vlen_items b os) (sub_idx a s) (vlen_items ub uos) ! c)"
proof (cases "unlin a c \<in> set (box (sub_start s) (sub_shape s))")
  case True
  define i where "i = unlin a c"
  have f: "wf_subset s" "length (sub_shape s) = length (sub_start s)" "length a = length (sub_start s)"
    using assms(1) by (simp_all add: fits_def wf_subset_length)
  define j where "j = map (\<lambda>(i, s). wsub i s) (zip i (sub_start s))"
  have mem: "length i = length (sub_start s)"
      "\<And>k. k < length (sub_start s) \<Longrightarrow> sub_start s ! k \<le> i ! k \<and> i ! k < sub_start s ! k + sub_shape s ! k"
    using True f by (auto simp: i_def mem_box)
  have ck: "sub_start s ! k + sub_shape s ! k < M64" if "k < length (sub_start s)" for k
    using f(1) that f(2) by (auto simp: wf_subset_nth)
  have jk: "j ! k = i ! k - sub_start s ! k" if "k < length (sub_start s)" for k
  proof -
    have "i ! k < M64" using mem(2)[OF that] ck[OF that] by linarith
    then show ?thesis using mem(1) mem(2)[OF that] that by (simp add: j_def wsub_eq)
  qed
  have lj: "length j = length (sub_start s)" using mem(1) by (simp add: j_def)
  have "j ! k < sub_shape s ! k" if "k < length (sub_start s)" for k
    unfolding jk[OF that] using mem(2)[OF that] by arith
  then have inb: "inb j (sub_shape s)" using lj f(2) by (simp add: inb_nth)
  have ps: "prod_list (sub_shape s) < M64" using fits_prod[OF assms(1)] assms(2) by simp
  have r: "ravel_indices j (sub_shape s) = Some (lin (sub_shape s) j)"
    using inb ps by (simp add: ravel_indices_eq inb_length)
  have "map (\<lambda>(a, b). a + b) (zip j (sub_start s)) = i"
    using mem jk lj by (intro nth_equalityI) simp_all
  then have "sub_idx a s ! lin (sub_shape s) j = lin a i"
    using box_nth[of "sub_start s", OF _ inb] f(2) lin_less[OF inb] length_box[of "sub_start s" "sub_shape s"] by simp
  then have idx: "sub_idx a s ! lin (sub_shape s) j = c" using assms(5) by (simp add: i_def lin_unlin)
  have k: "lin (sub_shape s) j < length (sub_idx a s)" using lin_less[OF inb] length_sub_idx[OF assms(1)] by simp
  have "scatter (vlen_items b os) (sub_idx a s) (vlen_items ub uos) ! (sub_idx a s ! lin (sub_shape s) j) =
      vlen_items ub uos ! lin (sub_shape s) j"
    using k idx assms(3-5) distinct_sub_idx[OF assms(1)] by (intro scatter_nth) (simp_all add: vlen_ok_def)
  moreover have "contains s i"
    using True f mem(1) set_box[OF f(1)] by (simp add: contains_iff_elements i_def)
  ultimately show ?thesis
    using vlen_item_ok(1)[OF assms(4) k] r idx by (simp add: vlen_subset_item_def j_def i_def)
next
  case False
  have "length (unlin a c) = length (sub_start s)" using assms(1) by (simp add: fits_def)
  then have "\<not> contains s (unlin a c)"
    using False set_box[OF fits_wf[OF assms(1)]] fits_wf[OF assms(1)] by (simp add: contains_iff_elements)
  moreover have "c \<notin> set (sub_idx a s)"
  proof
    assume "c \<in> set (sub_idx a s)"
    then obtain j where "j \<in> set (box (sub_start s) (sub_shape s))" "c = lin a j" by auto
    then show False using False fits_inb[OF assms(1)] unlin_lin by metis
  qed
  ultimately show ?thesis
    using vlen_item_ok(1)[OF assms(3,5)] by (simp add: vlen_subset_item_def scatter_other)
qed

definition vlen_room :: "bytes \<Rightarrow> bytes \<Rightarrow> bool" where
  "vlen_room b ub \<longleftrightarrow> length b + length ub < M64"

text \<open>What the update of variable-size elements must return: the scattered items.\<close>

definition vlen_updated ::
    "bytes \<Rightarrow> usize list \<Rightarrow> nat list \<Rightarrow> bytes \<Rightarrow> usize list \<Rightarrow> codec_error + (bytes \<times> usize list) \<Rightarrow> bool" where
  "vlen_updated b os idx ub uos res \<longleftrightarrow>
     (let xs = scatter (vlen_items b os) idx (vlen_items ub uos)
      in res = Inr (concat xs, offsets_of 0 xs) \<and> vlen_ok (length os - 1) (concat xs) (offsets_of 0 xs) \<and>
         vlen_items (concat xs) (offsets_of 0 xs) = xs)"

lemma vlen_updatedI:
  assumes "vlen_ok n b os" and "vlen_ok m ub uos" and "vlen_room b ub"
    and "res = push_items (map Inr (scatter (vlen_items b os) idx (vlen_items ub uos))) [] []"
  shows "vlen_updated b os idx ub uos res"
proof -
  define xs where "xs = scatter (vlen_items b os) idx (vlen_items ub uos)"
  have "length (concat xs) \<le> length b + length ub"
    using sum_scatter[of length "vlen_items b os" idx "vlen_items ub uos"]
      vlen_items_total[OF assms(1)] vlen_items_total[OF assms(2)]
    by (simp add: xs_def length_concat)
  then have lt: "length (concat xs) < M64" using assms(3) by (simp add: vlen_room_def)
  show ?thesis using pushed_items[OF lt] assms(4) by (simp add: vlen_updated_def Let_def flip: xs_def) (simp add: xs_def)
qed

lemma old_size_ok:
  assumes "vlen_ok n b os" and "distinct idx" and "\<forall>i \<in> set idx. i < n" and "vlen_room b ub" and "new \<le> length ub"
  shows "collect_res (map (item_size os) idx) = Inr (map (\<lambda>i. length (vlen_items b os ! i)) idx)"
    and "check_new_len (length b) new (wsum (map (\<lambda>i. length (vlen_items b os ! i)) idx)) = Inr ()"
proof -
  have "map (item_size os) idx = map (\<lambda>i. Inr (length (vlen_items b os ! i))) idx"
    using assms(3) vlen_item_ok(2)[OF assms(1)] by simp
  then show "collect_res (map (item_size os) idx) = Inr (map (\<lambda>i. length (vlen_items b os ! i)) idx)"
    by (simp del: map_eq_conv)
  have len: "length (vlen_items b os) = n" using assms(1) by (simp add: vlen_ok_def)
  have "sum_list (map ((!) (map length (vlen_items b os))) idx) \<le> length b"
    using sum_list_distinct_le[OF assms(2), of "map length (vlen_items b os)"] assms(3) len
      vlen_items_total[OF assms(1)] by simp
  moreover have "map ((!) (map length (vlen_items b os))) idx = map (\<lambda>i. length (vlen_items b os ! i)) idx"
    using assms(3) len by simp
  ultimately have le: "sum_list (map (\<lambda>i. length (vlen_items b os ! i)) idx) \<le> length b" by simp
  have lt: "length b + length ub < M64" using assms(4) by (simp add: vlen_room_def)
  then have "wsum (map (\<lambda>i. length (vlen_items b os ! i)) idx) = sum_list (map (\<lambda>i. length (vlen_items b os ! i)) idx)"
    using le by (intro wsum_eq) simp
  moreover have "wadd (length b) new = length b + new" using lt assms(5) by (simp add: wadd_eq)
  ultimately show "check_new_len (length b) new (wsum (map (\<lambda>i. length (vlen_items b os ! i)) idx)) = Inr ()"
    using le by (simp add: check_new_len_def)
qed

lemma update_vlen_subset_ok:
  assumes "fits s a" and "shape_ok a" and "vlen_ok (prod_list a) b os" and "vlen_ok (length (sub_idx a s)) ub uos"
    and "vlen_room b ub"
  shows "vlen_updated b os (sub_idx a s) ub uos (update_vlen_subset b os a ub uos s)"
proof (rule vlen_updatedI[OF assms(3-5)])
  have p: "prod_list a < M64" using assms(2) by (simp add: shape_ok_def)
  have l: "linearised_new s a = Inr \<lparr>li_subset = s, li_array_shape = a\<rparr>"
    using assms(1) oob_check_iff[OF fits_wf[OF assms(1)], of a]
    by (auto simp: linearised_new_def dimensionality_def fits_def)
  have c: "linearised_collect \<lparr>li_subset = s, li_array_shape = a\<rparr> = Some (sub_idx a s)"
    using linearised_collect_eq[OF assms(1) p] by simp
  have less: "\<forall>i \<in> set (sub_idx a s). i < prod_list a" using fits_inb[OF assms(1)] lin_less by auto
  have "window_sum uos \<le> length ub" using window_sum_le[OF assms(4)] vlen_items_total[OF assms(4)] by simp
  note sz = old_size_ok[OF assms(3) distinct_sub_idx[OF assms(1)] less assms(5) this]
  have "enumerate 0 (indices_collect (indices_new (new_with_shape a))) = map (\<lambda>c. (c, unlin a c)) [0..<prod_list a]"
    unfolding all_indices[OF assms(2)] by (intro nth_equalityI) (simp_all add: nth_enumerate_eq)
  then have "map (vlen_subset_item b os ub uos s) (enumerate 0 (indices_collect (indices_new (new_with_shape a)))) =
      map (\<lambda>c. Inr (scatter (vlen_items b os) (sub_idx a s) (vlen_items ub uos) ! c)) [0..<prod_list a]"
    using vlen_subset_item_ok[OF assms(1) p assms(3,4)] by (simp del: ix_elements.simps)
  also have "\<dots> = map Inr (scatter (vlen_items b os) (sub_idx a s) (vlen_items ub uos))"
    using assms(3) by (intro nth_equalityI) (simp_all add: vlen_ok_def)
  finally show "update_vlen_subset b os a ub uos s =
      push_items (map Inr (scatter (vlen_items b os) (sub_idx a s) (vlen_items ub uos))) [] []"
    using l c sz fits_inbounds_shape[OF assms(1)] by (simp add: update_vlen_subset_def del: ix_elements.simps)
qed

lemma update_vlen_indexer_ok:
  assumes "covers a x" and "shape_ok a" and "distinct (ix_elements a x)" and "vlen_ok (prod_list a) b os"
    and "vlen_ok (length (ix_elements a x)) ub uos" and "vlen_room b ub"
  shows "vlen_updated b os (ix_elements a x) ub uos (update_vlen_indexer b os a ub uos x)"
proof (rule vlen_updatedI[OF assms(4-6)])
  define idx where "idx = ix_elements a x"
  define E U where "E = vlen_items b os" and "U = vlen_items ub uos"
  have p: "prod_list a < M64" using assms(2) by (simp add: shape_ok_def)
  have less: "\<forall>i \<in> set idx. i < prod_list a" using ix_elements_less[OF assms(1)] by (simp add: idx_def)
  have lin: "linearised_of x a = Inr idx" using linearised_of_eq[OF assms(1) p] by (simp add: idx_def)
  have len: "length E = prod_list a" "length U = length idx" using assms(4,5) by (simp_all add: E_def U_def idx_def vlen_ok_def)
  note sz = old_size_ok[OF assms(4) assms(3)[folded idx_def] less assms(6) order_refl]
  obtain marks where m: "mark_updates (enumerate 0 idx) (replicate (prod_list a) None) = Inr marks"
      "length marks = prod_list a"
      "map (marked E U marks) [0..<length E] = scatter (map (marked E U (replicate (prod_list a) None)) [0..<length E]) idx (drop 0 U)"
      "\<forall>c < length E. \<forall>j. marks ! c = Some j \<longrightarrow> j < length U"
    using mark_updates_scatter[of idx "replicate (prod_list a) None" 0 U E] less len by auto
  have "map (marked E U (replicate (prod_list a) None)) [0..<length E] = E"
    using len by (intro nth_equalityI) (simp_all add: marked_def)
  then have sc: "map (marked E U marks) [0..<prod_list a] = scatter E idx U" using m(3) len by simp
  have item: "vlen_marked_item b os ub uos marks c = Inr (marked E U marks c)" if "c < prod_list a" for c
    using vlen_item_ok(1)[OF assms(4) that] vlen_item_ok(1)[OF assms(5)[folded idx_def]] m(4) len that
    by (auto simp: vlen_marked_item_def marked_def E_def U_def idx_def vlen_ok_def split: option.splits)
  have "map (vlen_marked_item b os ub uos marks) [0..<prod_list a] = map Inr (map (marked E U marks) [0..<prod_list a])"
    using item by simp
  then have items: "map (vlen_marked_item b os ub uos marks) [0..<prod_list a] = map Inr (scatter E idx U)"
    unfolding sc .
  show "update_vlen_indexer b os a ub uos x =
      push_items (map Inr (scatter (vlen_items b os) (ix_elements a x) (vlen_items ub uos))) [] []"
    using lin sz m(1) items p unfolding E_def U_def idx_def
    by (simp add: update_vlen_indexer_def wprod_eq)
qed

subsection \<open>The operations on elements\<close>

lemma small_mask: "prod_list a < M64 \<Longrightarrow> small_array a 1"
  by (simp add: small_array_def)

definition mask_list :: "bytes \<Rightarrow> bytes list" where
  "mask_list m = map (\<lambda>b. [b]) m"

lemma mask_list_simps [simp]: "concat (mask_list m) = m" "sized (Suc 0) (mask_list m)" "length (mask_list m) = length m"
  using mask_elems[of m] by (simp_all add: mask_list_def)

lemma concat_mask_select:
  "\<forall>i \<in> set idx. i < length m \<Longrightarrow> concat (map ((!) (mask_list m)) idx) = map ((!) m) idx"
  by (induction idx) (simp_all add: mask_list_def)

lemma concat_mask_scatter: "concat (scatter (mask_list m) idx (mask_list um)) = scatter m idx um"
  by (simp add: mask_list_def map_scatter[symmetric] mask_elems)

lemma zip_scatter:
  "length E = length M \<Longrightarrow> length us = length ms \<Longrightarrow>
     map2 f (scatter M idx ms) (scatter E idx us) = scatter (map2 f M E) idx (map2 f ms us)"
proof (induction M idx ms arbitrary: E us rule: scatter.induct)
  case (1 M i idx m ms)
  obtain u us' where us: "us = u # us'" using "1.prems"(2) by (cases us) simp_all
  have "map2 f (M[i := m]) (E[i := u]) = (map2 f M E)[i := f m u]"
    by (simp add: zip_update map_update)
  then show ?case using "1.IH"[of "E[i := u]" us'] "1.prems" by (simp add: us)
qed simp_all

text \<open>What is selected must be addressable.\<close>

definition select_fits :: "data_type \<Rightarrow> array_bytes \<Rightarrow> nat list \<Rightarrow> bool" where
  "select_fits t b idx \<longleftrightarrow> length idx < M64 \<and> sum_list (map elem_size (map ((!) (elems t b)) idx)) < M64"

lemma sum_raw: "\<forall>i \<in> set idx. i < length E \<Longrightarrow>
   sum_list (map elem_size (map ((!) (map Raw E)) idx)) = length (concat (map ((!) E) idx))"
  by (induction idx) simp_all

lemma select_fits_optional:
  assumes "ab_ok (OptionalType t) n (OptionalBytes d m)" and "\<forall>i \<in> set idx. i < n"
  shows "select_fits (OptionalType t) (OptionalBytes d m) idx \<longleftrightarrow> select_fits t d idx"
proof -
  have "map elem_size (map ((!) (elems (OptionalType t) (OptionalBytes d m))) idx) =
      map elem_size (map ((!) (elems t d)) idx)"
    using assms length_elems[of t n d] by simp
  then show ?thesis by (simp only: select_fits_def)
qed

lemma extract_elems:
  assumes "covers a x" and "prod_list a < M64" and "ab_ok t (prod_list a) b"
    and "select_fits t b (ix_elements a x)"
  shows "\<exists>b'. extract_array_subset b x a t = Inr b' \<and> ab_ok t (length (ix_elements a x)) b' \<and>
     elems t b' = map ((!) (elems t b)) (ix_elements a x)"
  using assms(3,4)
proof (induction t "prod_list a" b rule: ab_ok.induct)
  case (1 z b)
  define idx where "idx = ix_elements a x"
  have less: "\<forall>i \<in> set idx. i < prod_list a" using ix_elements_less[OF assms(1)] by (simp add: idx_def)
  obtain E where E: "sized z E" "length E = prod_list a" "b = concat E" "0 < z" "prod_list a * z < M64"
      "elems (PlainType (SizeFixed z)) (FixedBytes b) = map Raw E"
    using fixed_elems[OF "1"(1)] by blast
  have sel: "sized z (map ((!) E) idx)" using E(1,2) less by (auto simp: sized_def list_all_iff)
  have "length idx * z < M64"
    using "1"(2) sum_raw[of idx E] less E concat_select_length[OF E(1), of idx]
    by (simp add: select_fits_def flip: idx_def)
  then have "extract_flen (concat E) x a z = Inr (concat (map ((!) E) idx))"
    using extract_flen_ok[OF assms(1) _ E(1,2)] E(4,5) by (simp add: small_array_def idx_def)
  then show ?case
    using ab_ok_concat[OF sel E(4)] \<open>length idx * z < M64\<close> less E(2,6)
    by (simp add: E(3) fixed_size_def flip: idx_def)
next
  case (2 b os)
  define idx where "idx = ix_elements a x"
  have less: "\<forall>i \<in> set idx. i < prod_list a" using ix_elements_less[OF assms(1)] by (simp add: idx_def)
  have ok: "vlen_ok (prod_list a) b os" using "2"(1) by simp
  have len: "length (vlen_items b os) = prod_list a" using ok by (simp add: vlen_ok_def)
  define xs where "xs = map ((!) (vlen_items b os)) idx"
  have "map (vlen_item b os) idx = map Inr xs" using vlen_item_ok(1)[OF ok] less by (simp add: xs_def)
  moreover have "length (concat xs) < M64"
    using "2"(2) sum_raw[of idx "vlen_items b os"] less len by (simp add: select_fits_def xs_def flip: idx_def)
  ultimately show ?case
    using pushed_items[of xs] linearised_of_eq[OF assms(1,2)] less len
    by (simp add: extract_vlen_def flip: idx_def) (simp add: xs_def)
next
  case (3 t d m)
  define idx where "idx = ix_elements a x"
  have less: "\<forall>i \<in> set idx. i < prod_list a" using ix_elements_less[OF assms(1)] by (simp add: idx_def)
  have ok: "ab_ok t (prod_list a) d" "length m = prod_list a" using "3.prems"(1) by simp_all
  have "select_fits t d idx"
    using select_fits_optional[OF "3.prems"(1) less] "3.prems"(2) by (simp add: idx_def)
  then obtain d' where d': "extract_array_subset d x a t = Inr d'" "ab_ok t (length idx) d'"
      "elems t d' = map ((!) (elems t d)) idx"
    using "3.hyps"[OF ok(1)] by (auto simp: idx_def)
  have "length idx < M64" using "3.prems"(2) by (simp add: select_fits_def idx_def)
  then have "extract_flen m x a 1 = Inr (map ((!) m) idx)"
    using extract_flen_ok[OF assms(1) small_mask[OF assms(2)], of "mask_list m"] ok(2) concat_mask_select[of idx m] less
    by (simp add: idx_def)
  moreover have "map2 Masked (map ((!) m) idx) (map ((!) (elems t d)) idx) = map ((!) (map2 Masked m (elems t d))) idx"
    using less ok(2) length_elems[OF ok(1)] by (intro nth_equalityI) simp_all
  ultimately show ?case using d' by (simp flip: idx_def)
qed auto

lemma update_flen_paths:
  assumes "small_array a z" and "sized z E" and "length E = prod_list a" and "sized z U"
  shows "subset_covered s a \<Longrightarrow> length U = length (sub_idx a s) \<Longrightarrow>
      update_flen_subset (concat E) a s (concat U) z = Inr (concat (scatter E (sub_idx a s) U))"
    and "covers a x \<Longrightarrow> length U = length (ix_elements a x) \<Longrightarrow> length U * z < M64 \<Longrightarrow>
      update_flen_indexer (concat E) a x (concat U) z = Inr (concat (scatter E (ix_elements a x) U))"
proof -
  have lt: "prod_list a * z < M64" using assms(1) by (simp add: small_array_def)
  have len: "length (concat E) = prod_list a * z" using assms(2,3) by (simp add: length_concat_sized)
  {
    assume s: "subset_covered s a" and U: "length U = length (sub_idx a s)"
    then have "fits s a" by (simp add: subset_covered_def)
    moreover obtain v where "view_new (concat E) z a s = Inr v" "view_ok v z a s"
      using view_new_ok[OF s assms(1) len] by blast
    ultimately show "update_flen_subset (concat E) a s (concat U) z = Inr (concat (scatter E (sub_idx a s) U))"
      using view_copy_ok[OF _ assms(2,3) lt assms(4) U] by (simp add: update_flen_subset_def)
  }
  assume x: "covers a x" and U: "length U = length (ix_elements a x)" and small: "length U * z < M64"
  obtain runs where r: "byte_ranges_of x a z = Inr (map (run_range z) runs)"
      "runs_of (prod_list a) runs (ix_elements a x)"
    using byte_ranges_of_eq[OF x assms(1)] by blast
  have "copy_ready z (concat U) runs (ix_elements a x) E U 0"
    using assms r(2) U small lt by (simp add: copy_ready_def length_concat_sized)
  from copy_ranges_ok[OF this]
  show "update_flen_indexer (concat E) a x (concat U) z = Inr (concat (scatter E (ix_elements a x) U))"
    by (simp add: update_flen_indexer_def r(1))
qed

text \<open>One lemma for each kind of elements, whatever the path of the update.\<close>

lemma fixed_updated:
  assumes "sized z E" and "sized z U" and "0 < z" and "length E * z < M64"
  shows "ab_ok (PlainType (SizeFixed z)) (length E) (FixedBytes (concat (scatter E idx U))) \<and>
     elems (PlainType (SizeFixed z)) (FixedBytes (concat (scatter E idx U))) = scatter (map Raw E) idx (map Raw U)"
  using ab_ok_concat[of z "scatter E idx U"] assms by (simp add: sized_scatter map_scatter)

lemma vlen_updated_elems:
  assumes "vlen_updated b os idx ub uos res" and "vlen_ok n b os"
  shows "\<exists>b' os'. res = Inr (b', os') \<and> ab_ok (PlainType SizeVariable) n (VariableBytes b' os') \<and>
     elems (PlainType SizeVariable) (VariableBytes b' os') =
       scatter (elems (PlainType SizeVariable) (VariableBytes b os)) idx (elems (PlainType SizeVariable) (VariableBytes ub uos))"
  using assms by (simp add: vlen_updated_def Let_def vlen_ok_def map_scatter)

lemma optional_updated:
  assumes "ab_ok t n d'" and "elems t d' = scatter (elems t d) idx (elems t ud)" and "ab_ok t n d" and "length m = n"
    and "ab_ok t k ud" and "length um = k"
  shows "ab_ok (OptionalType t) n (OptionalBytes d' (scatter m idx um)) \<and>
     elems (OptionalType t) (OptionalBytes d' (scatter m idx um)) =
       scatter (elems (OptionalType t) (OptionalBytes d m)) idx (elems (OptionalType t) (OptionalBytes ud um))"
  using assms zip_scatter[of "elems t d" m "elems t ud" um Masked idx] length_elems[of t n d] length_elems[of t k ud]
  by simp

lemma ab_ok_cases:
  "ab_ok (PlainType (SizeFixed z)) n b \<Longrightarrow> \<exists>bs. b = FixedBytes bs"
  "ab_ok (PlainType SizeVariable) n b \<Longrightarrow> \<exists>bs os. b = VariableBytes bs os"
  "ab_ok (OptionalType t) n b \<Longrightarrow> \<exists>d m. b = OptionalBytes d m"
  by (cases b; simp)+

lemma update_subset_elems:
  assumes "subset_covered s a" and "shape_ok a"
  shows "ab_ok t (prod_list a) b \<Longrightarrow> ab_ok t (length (sub_idx a s)) u \<Longrightarrow> ab_size b + ab_size u < M64 \<Longrightarrow>
     \<exists>b'. update_array_bytes_array_subset b a s u (dt_size t) = Inr b' \<and> ab_ok t (prod_list a) b' \<and>
       elems t b' = scatter (elems t b) (sub_idx a s) (elems t u)"
proof (induction t "prod_list a" b arbitrary: u rule: ab_ok.induct)
  case (1 z b)
  obtain ub where u: "u = FixedBytes ub" using ab_ok_cases(1)[OF "1"(2)] by blast
  obtain E where E: "sized z E" "length E = prod_list a" "b = concat E" "0 < z" "prod_list a * z < M64"
      "elems (PlainType (SizeFixed z)) (FixedBytes b) = map Raw E"
    using fixed_elems[OF "1"(1)] by blast
  obtain U where U: "sized z U" "length U = length (sub_idx a s)" "ub = concat U"
      "elems (PlainType (SizeFixed z)) (FixedBytes ub) = map Raw U"
    using fixed_elems[OF "1"(2)[unfolded u]] by blast
  have "update_flen_subset (concat E) a s (concat U) z = Inr (concat (scatter E (sub_idx a s) U))"
    by (rule update_flen_paths(1)) (use E U assms in \<open>simp_all add: small_array_def\<close>)
  then show ?case
    using fixed_updated[OF E(1) U(1) E(4), of "sub_idx a s"] E U
    by (simp add: u del: ix_elements.simps elems.simps ab_ok.simps)
next
  case (2 b os)
  obtain ub uos where u: "u = VariableBytes ub uos" using ab_ok_cases(2)[OF "2"(2)] by blast
  have "vlen_updated b os (sub_idx a s) ub uos (update_vlen_subset b os a ub uos s)"
    by (rule update_vlen_subset_ok) (use 2 u assms in \<open>simp_all add: subset_covered_def vlen_room_def\<close>)
  then show ?case
    using vlen_updated_elems[of b os "sub_idx a s" ub uos "update_vlen_subset b os a ub uos s" "prod_list a"] "2"(1)
    by (auto simp: u simp del: ix_elements.simps elems.simps)
next
  case (3 t d m)
  obtain ud um where u: "u = OptionalBytes ud um" using ab_ok_cases(3)[OF "3.prems"(2)] by blast
  have ok: "ab_ok t (prod_list a) d" "length m = prod_list a" "ab_ok t (length (sub_idx a s)) ud"
      "length um = length (sub_idx a s)"
    using "3.prems"(1,2) by (simp_all add: u del: ix_elements.simps)
  obtain d' where d': "update_array_bytes_array_subset d a s ud (dt_size t) = Inr d'" "ab_ok t (prod_list a) d'"
      "elems t d' = scatter (elems t d) (sub_idx a s) (elems t ud)"
    using "3.hyps"[OF ok(1,3)] "3.prems"(3) by (auto simp: u simp del: ix_elements.simps)
  have "update_flen_subset m a s um 1 = Inr (scatter m (sub_idx a s) um)"
    using update_flen_paths(1)[of a 1 "mask_list m" "mask_list um" s] small_mask assms ok(2,4)
    by (simp add: concat_mask_scatter shape_ok_def del: ix_elements.simps)
  then show ?case
    using d' optional_updated[OF d'(2,3) ok(1,2,3,4)] by (simp add: u del: ix_elements.simps elems.simps ab_ok.simps)
qed auto

lemma distinct_length_le: "distinct idx \<Longrightarrow> \<forall>i \<in> set idx. i < (n :: nat) \<Longrightarrow> length idx \<le> n"
  using card_mono[of "{..<n}" "set idx"] by (auto simp: distinct_card)

lemma update_indexer_elems:
  assumes "covers a x" and "shape_ok a" and "distinct (ix_elements a x)" and "ix_as_array_subset x = None"
  shows "ab_ok t (prod_list a) b \<Longrightarrow> ab_ok t (length (ix_elements a x)) u \<Longrightarrow> ab_size b + ab_size u < M64 \<Longrightarrow>
     \<exists>b'. update_array_bytes_indexer b a x u (dt_size t) = Inr b' \<and> ab_ok t (prod_list a) b' \<and>
       elems t b' = scatter (elems t b) (ix_elements a x) (elems t u)"
proof (induction t "prod_list a" b arbitrary: u rule: ab_ok.induct)
  case (1 z b)
  obtain ub where u: "u = FixedBytes ub" using ab_ok_cases(1)[OF "1"(2)] by blast
  obtain E where E: "sized z E" "length E = prod_list a" "b = concat E" "0 < z" "prod_list a * z < M64"
      "elems (PlainType (SizeFixed z)) (FixedBytes b) = map Raw E"
    using fixed_elems[OF "1"(1)] by blast
  obtain U where U: "sized z U" "length U = length (ix_elements a x)" "ub = concat U" "length (ix_elements a x) * z < M64"
      "elems (PlainType (SizeFixed z)) (FixedBytes ub) = map Raw U"
    using fixed_elems[OF "1"(2)[unfolded u]] by blast
  have "update_flen_indexer (concat E) a x (concat U) z = Inr (concat (scatter E (ix_elements a x) U))"
    by (rule update_flen_paths(2)) (use E U assms in \<open>simp_all add: small_array_def\<close>)
  then show ?case
    using fixed_updated[OF E(1) U(1) E(4), of "ix_elements a x"] E U
    by (simp add: u del: elems.simps ab_ok.simps)
next
  case (2 b os)
  obtain ub uos where u: "u = VariableBytes ub uos" using ab_ok_cases(2)[OF "2"(2)] by blast
  have "vlen_updated b os (ix_elements a x) ub uos (update_vlen_indexer b os a ub uos x)"
    by (rule update_vlen_indexer_ok) (use 2 u assms in \<open>simp_all add: vlen_room_def\<close>)
  then show ?case
    using vlen_updated_elems[of b os "ix_elements a x" ub uos "update_vlen_indexer b os a ub uos x" "prod_list a"] "2"(1)
    by (auto simp: u simp del: elems.simps)
next
  case (3 t d m)
  obtain ud um where u: "u = OptionalBytes ud um" using ab_ok_cases(3)[OF "3.prems"(2)] by blast
  have ok: "ab_ok t (prod_list a) d" "length m = prod_list a" "ab_ok t (length (ix_elements a x)) ud"
      "length um = length (ix_elements a x)"
    using "3.prems"(1,2) by (simp_all add: u)
  obtain d' where d': "update_array_bytes_indexer d a x ud (dt_size t) = Inr d'" "ab_ok t (prod_list a) d'"
      "elems t d' = scatter (elems t d) (ix_elements a x) (elems t ud)"
    using "3.hyps"[OF ok(1,3)] "3.prems"(3) by (auto simp: u)
  have p: "prod_list a < M64" using assms(2) by (simp add: shape_ok_def)
  have "length (ix_elements a x) \<le> prod_list a"
    using ix_elements_less[OF assms(1)] by (intro distinct_length_le[OF assms(3)]) blast
  then have "update_flen_indexer m a x um 1 = Inr (scatter m (ix_elements a x) um)"
    using update_flen_paths(2)[of a 1 "mask_list m" "mask_list um" x] small_mask[OF p] assms(1) ok(2,4) p
    by (simp add: concat_mask_scatter)
  then show ?case
    using d' optional_updated[OF d'(2,3) ok(1,2,3,4)] assms(4) by (simp add: u del: elems.simps ab_ok.simps)
qed auto

lemma update_elems:
  assumes "covers a x" and "shape_ok a" and "distinct (ix_elements a x)" and "ab_ok t (prod_list a) b"
    and "ab_ok t (length (ix_elements a x)) u" and "ab_size b + ab_size u < M64"
  shows "\<exists>b'. update_array_bytes b a x u (dt_size t) = Inr b' \<and> ab_ok t (prod_list a) b' \<and>
     elems t b' = scatter (elems t b) (ix_elements a x) (elems t u)"
proof (cases x)
  case (SubsetIndexer s)
  then show ?thesis
    using update_subset_elems[of s a t b u] assms by (simp del: ix_elements.simps)
next
  case (RangesIndexer rs)
  then show ?thesis using update_indexer_elems[OF assms(1-3) _ assms(4-6)] by (simp del: ix_elements.simps)
next
  case (IndicesIndexer ids)
  then show ?thesis using update_indexer_elems[OF assms(1-3) _ assms(4-6)] by (simp del: ix_elements.simps)
next
  case (SliceIndexer xs)
  then show ?thesis using update_indexer_elems[OF assms(1-3) _ assms(4-6)] by (simp del: ix_elements.simps)
qed

end
