(* ===== verification/Array_Bytes_Properties.thy ===== *)
theory Array_Bytes_Properties
  imports Array_Bytes_Laws
begin

text \<open>The properties of the operations on array bytes.\<close>

subsection \<open>Extraction and update\<close>

text \<open>
  Property C25.  Extracting with an indexer within the array returns exactly the elements of the indexer, in its
  order, for elements of fixed size, of variable size and (nested) optional ones: extraction succeeds
  and its result holds one element per index.
\<close>

theorem extract_selects_elements:
  assumes "covers a x" and "prod_list a < M64" and "ab_ok t (prod_list a) b"
    and "select_fits t b (ix_elements a x)"
  shows "\<exists>b'. extract_array_subset b x a t = Inr b' \<and> ab_ok t (length (ix_elements a x)) b' \<and>
     elems t b' = map (\<lambda>i. elems t b ! i) (ix_elements a x)"
  using extract_elems[OF assms] .

theorem extract_selects_elements_witness:
  "\<exists>b'. extract_array_subset (VariableBytes [10, 11, 12, 13] [0, 1, 1, 4, 4]) (SubsetIndexer \<lparr>sub_start = [0, 1], sub_shape = [2, 1]\<rparr>)
       [2, 2] (PlainType SizeVariable) = Inr b' \<and> elems (PlainType SizeVariable) b' = [Raw [], Raw []]"
proof -
  let ?b = "VariableBytes [10, 11, 12, 13] [0, 1, 1, 4, 4]" and ?x = "SubsetIndexer \<lparr>sub_start = [0, 1], sub_shape = [2, 1]\<rparr>"
  have a: "covers [2, 2] ?x" "prod_list [2, 2] < M64" "ab_ok (PlainType SizeVariable) (prod_list [2, 2]) ?b"
    by (simp_all add: subset_covered_def fits_def wf_subset_def is_empty_def M64_def All_less_Suc2 vlen_ok_def)
  have i: "ix_elements [2, 2] ?x = [1, 3]" by (simp add: upt_rec)
  have e: "elems (PlainType SizeVariable) ?b = [Raw [10], Raw [], Raw [11, 12, 13], Raw []]"
    by (simp add: vlen_items_def upt_rec)
  have "select_fits (PlainType SizeVariable) ?b (ix_elements [2, 2] ?x)"
    unfolding select_fits_def i e by (simp add: M64_def)
  from extract_selects_elements[OF a this] show ?thesis unfolding i e by (simp del: elems.simps) blast
qed

lemma sum_elem_size: "ab_ok t n b \<Longrightarrow> sum_list (map elem_size (elems t b)) \<le> ab_size b"
proof (induction t n b rule: ab_ok.induct)
  case (1 z n b)
  have "map elem_size (map Raw (chunks_exact z b)) = map length (chunks_exact z b)" by simp
  then show ?case using 1 length_chunks(1)[of z b n] by (metis elems.simps(1) ab_ok.simps(1) ab_size.simps(1) length_concat order_refl)
next
  case (2 n b os)
  then show ?case using vlen_items_total[of n b os] by (simp add: comp_def)
next
  case (3 t n d m)
  then have "map elem_size (map2 Masked m (elems t d)) = map elem_size (elems t d)"
    using length_elems[of t n d] by (intro nth_equalityI) simp_all
  then show ?case using 3 by simp
qed auto

text \<open>
  Property C24.  An update is read back: updating the distinct elements of an indexer, by the in-place view or by
  byte ranges, succeeds, keeps the number of elements, changes no other element, and extracting with the
  same indexer returns the update.
\<close>

theorem update_then_extract:
  assumes "covers a x" and "shape_ok a" and "distinct (ix_elements a x)" and "ab_ok t (prod_list a) b"
    and "ab_ok t (length (ix_elements a x)) u" and "ab_size b + ab_size u < M64"
  shows "\<exists>b' u'. update_array_bytes b a x u (dt_size t) = Inr b' \<and> ab_ok t (prod_list a) b' \<and>
     (\<forall>i < prod_list a. i \<notin> set (ix_elements a x) \<longrightarrow> elems t b' ! i = elems t b ! i) \<and>
     extract_array_subset b' x a t = Inr u' \<and> elems t u' = elems t u"
proof -
  define idx where "idx = ix_elements a x"
  have p: "prod_list a < M64" using assms(2) by (simp add: shape_ok_def)
  have less: "\<forall>i \<in> set idx. i < prod_list a" using ix_elements_less[OF assms(1)] by (simp add: idx_def)
  obtain b' where b': "update_array_bytes b a x u (dt_size t) = Inr b'" "ab_ok t (prod_list a) b'"
      "elems t b' = scatter (elems t b) idx (elems t u)"
    using update_elems[OF assms] by (auto simp: idx_def)
  have len: "length (elems t b) = prod_list a" "length (elems t u) = length idx"
    using length_elems[OF assms(4)] length_elems[OF assms(5)] by (simp_all add: idx_def)
  have sel: "map ((!) (elems t b')) idx = elems t u"
    unfolding b'(3) using assms(3) len less by (intro scatter_same) (simp_all add: idx_def)
  have "select_fits t b' idx"
    using sel sum_elem_size[OF assms(5)] assms(6) distinct_length_le[OF _ less] assms(3) p
    by (simp add: select_fits_def idx_def)
  then obtain u' where "extract_array_subset b' x a t = Inr u'" "elems t u' = elems t u"
    using extract_elems[OF assms(1) p b'(2)] sel by (auto simp: idx_def)
  then show ?thesis
    using b' scatter_other[of _ idx "elems t b" "elems t u"] by (auto simp: idx_def)
qed

theorem update_then_extract_witness:
  "\<exists>b' u'. update_array_bytes (FixedBytes [1, 2, 3, 4]) [2, 2] (IndicesIndexer [[1, 1], [0, 0]]) (FixedBytes [8, 9]) (SizeFixed 1) = Inr b' \<and>
     elems (PlainType (SizeFixed 1)) b' ! 1 = Raw [2] \<and>
     extract_array_subset b' (IndicesIndexer [[1, 1], [0, 0]]) [2, 2] (PlainType (SizeFixed 1)) = Inr u' \<and>
     elems (PlainType (SizeFixed 1)) u' = [Raw [8], Raw [9]]"
proof -
  let ?x = "IndicesIndexer [[1, 1], [0, 0]]"
  have a: "covers [2, 2] ?x" "shape_ok [2, 2]" "distinct (ix_elements [2, 2] ?x)"
    "ab_ok (PlainType (SizeFixed 1)) (prod_list [2, 2]) (FixedBytes [1, 2, 3, 4])"
    "ab_ok (PlainType (SizeFixed 1)) (length (ix_elements [2, 2] ?x)) (FixedBytes [8, 9])"
    "ab_size (FixedBytes [1, 2, 3, 4]) + ab_size (FixedBytes [8, 9]) < M64"
    by (simp_all add: shape_ok_def M64_def)
  have e: "elems (PlainType (SizeFixed 1)) (FixedBytes [1, 2, 3, 4]) ! 1 = Raw [2]"
    "elems (PlainType (SizeFixed 1)) (FixedBytes [8, 9]) = [Raw [8], Raw [9]]"
    by (simp_all add: chunks_exact.simps)
  have i: "1 < prod_list [2, 2 :: nat]" "1 \<notin> set (ix_elements [2, 2] ?x)" by simp_all
  from update_then_extract[OF a] obtain b' u' where
    r: "update_array_bytes (FixedBytes [1, 2, 3, 4]) [2, 2] ?x (FixedBytes [8, 9]) (SizeFixed 1) = Inr b'"
      "\<forall>i < prod_list [2, 2]. i \<notin> set (ix_elements [2, 2] ?x) \<longrightarrow> elems (PlainType (SizeFixed 1)) b' ! i =
         elems (PlainType (SizeFixed 1)) (FixedBytes [1, 2, 3, 4]) ! i"
      "extract_array_subset b' ?x [2, 2] (PlainType (SizeFixed 1)) = Inr u'"
      "elems (PlainType (SizeFixed 1)) u' = [Raw [8], Raw [9]]"
    unfolding e(2) dt_size.simps by blast
  have "elems (PlainType (SizeFixed 1)) b' ! 1 = Raw [2]" using r(2) i e(1) by metis
  with r show ?thesis by blast
qed

subsection \<open>Validation\<close>

fun masks_ok :: "nat \<Rightarrow> array_bytes \<Rightarrow> bool" where
  "masks_ok n (OptionalBytes d m) \<longleftrightarrow> length m = n \<and> masks_ok n d"
| "masks_ok n _ \<longleftrightarrow> True"

definition countable_size :: "data_type \<Rightarrow> nat \<Rightarrow> bool" where
  "countable_size t n \<longleftrightarrow> n + 1 < M64 \<and> (case dt_size t of SizeFixed z \<Rightarrow> 0 < z \<and> n * z < M64 | SizeVariable \<Rightarrow> True)"

lemma offsets_loop_iff:
  "offsets_loop os len x = Some y \<longleftrightarrow> sorted (x # os) \<and> y = last (x # os) \<and> (\<forall>z \<in> set os. z \<le> len)"
  by (induction os arbitrary: x) auto

lemma sorted_le_last: "sorted (os :: nat list) \<Longrightarrow> z \<in> set os \<Longrightarrow> z \<le> last os"
  by (induction os) auto

lemma validate_vlen_iff:
  assumes "n + 1 < M64" and "length b < M64"
  shows "validate_bytes_vlen b os n = Inr () \<longleftrightarrow> vlen_ok n b os"
proof -
  have "validate_bytes_vlen b os n = Inr () \<longleftrightarrow> length os = n + 1 \<and> offsets_loop os (length b) 0 = Some (length b)"
    using assms(1) by (auto simp: validate_bytes_vlen_def wadd_eq split: option.splits)
  also have "\<dots> \<longleftrightarrow> vlen_ok n b os"
  proof (cases "os = []")
    case False
    then show ?thesis using sorted_le_last[of os] assms(2) by (auto simp: offsets_loop_iff vlen_ok_def)
  qed (simp add: vlen_ok_def)
  finally show ?thesis .
qed

lemma validate_iff:
  assumes "countable_size t n" and "ab_size b < M64"
  shows "validate_bytes b n t = Inr () \<and> masks_ok n b \<longleftrightarrow> ab_ok t n b"
  using assms
proof (induction t n b rule: ab_ok.induct)
  case (1 z n b)
  then show ?case by (auto simp: countable_size_def is_optional_def validate_bytes_flen_def wmul_eq)
next
  case (2 n b os)
  then show ?case using validate_vlen_iff[of n b os] by (simp add: countable_size_def is_optional_def)
next
  case (3 t n d m)
  then show ?case by (auto simp: countable_size_def)
qed (auto simp: is_optional_def split: data_type_size.splits)

text \<open>
  \<open>validate_bytes\<close> accepts array bytes exactly when they have the structure of the data type and hold
  the given number of elements - offsets monotone, in range and ending at the length of the bytes -
  provided the masks have one byte per element, which it does not check.
\<close>

theorem validate_bytes_iff:
  assumes "countable_size t n" and "ab_size b < M64"
  shows "validate_bytes b n t = Inr () \<and> masks_ok n b \<longleftrightarrow> ab_ok t n b"
  using validate_iff[OF assms] .

theorem validate_bytes_iff_witness:
  "validate_bytes (OptionalBytes (VariableBytes [1, 2, 3] [0, 2, 3]) [1, 1]) 2 (OptionalType (PlainType SizeVariable)) = Inr ()"
proof -
  let ?t = "OptionalType (PlainType SizeVariable)" and ?b = "OptionalBytes (VariableBytes [1, 2, 3] [0, 2, 3]) [1, 1]"
  have "countable_size ?t 2" "ab_size ?b < M64" by (simp_all add: countable_size_def M64_def)
  moreover have "ab_ok ?t 2 ?b" by (simp add: vlen_ok_def M64_def)
  ultimately show ?thesis using validate_bytes_iff[of ?t 2 ?b] by simp
qed

lemma validate_ignores_masks:
  "validate_bytes (OptionalBytes (FixedBytes [1, 2]) []) 2 (OptionalType (PlainType (SizeFixed 1))) = Inr ()"
  by (simp add: is_optional_def validate_bytes_flen_def wmul_def M64_def)

subsection \<open>Fill values\<close>

fun fill_element :: "data_type \<Rightarrow> fill_value \<Rightarrow> element" where
  "fill_element (PlainType _) f = Raw f"
| "fill_element (OptionalType t) f =
     (if is_fill_value_null f
      then Masked 0 (fill_element t (case fixed_size t of Some z \<Rightarrow> replicate z 0 | None \<Rightarrow> []))
      else Masked 1 (fill_element t (fill_value_inner_bytes f)))"

fun fill_matches :: "data_type \<Rightarrow> fill_value \<Rightarrow> bool" where
  "fill_matches (PlainType (SizeFixed z)) f \<longleftrightarrow> length f = z"
| "fill_matches (PlainType SizeVariable) f \<longleftrightarrow> True"
| "fill_matches (OptionalType t) f \<longleftrightarrow>
     (if is_fill_value_null f
      then fill_matches t (case fixed_size t of Some z \<Rightarrow> replicate z 0 | None \<Rightarrow> [])
      else fill_matches t (fill_value_inner_bytes f))"

lemma offsets_of_replicate:
  "offsets_of k (replicate n f) = map (\<lambda>i. k + i * length f) [0..<n + 1]"
proof (induction n arbitrary: k)
  case (Suc n)
  have "map (\<lambda>i. k + i * length f) [0..<Suc n + 1] = k # map (\<lambda>i. k + length f + i * length f) [0..<n + 1]"
    by (subst upt_conv_Cons) (simp_all add: map_Suc_upt[symmetric] comp_def add.assoc del: upt_Suc)
  then show ?case using Suc[of "k + length f"] by simp
qed simp

lemma concat_replicate_length: "length (concat (replicate n f)) = n * length f"
  by (simp add: length_concat sum_list_replicate)

lemma new_fill_value_vlen:
  assumes "n * length f < M64"
  shows "new_fill_value (PlainType SizeVariable) n f =
     Inr (VariableBytes (concat (replicate n f)) (offsets_of 0 (replicate n f)))"
proof -
  have "wmul i (length f) = i * length f" if "i < n + 1" for i
    using that mult_less_M64[OF _ assms, of i] by (simp add: wmul_eq)
  then show ?thesis by (simp add: offsets_of_replicate del: upt_Suc)
qed

lemma masks_replicate [simp]: "map2 Masked (replicate n b) (replicate n e) = replicate n (Masked b e)"
  by (simp add: zip_replicate)

lemma countable_inner: "countable_size (OptionalType t) n = countable_size t n"
  by (simp add: countable_size_def)

lemma new_fill_value_elems:
  "countable_size t n \<Longrightarrow> fill_matches t f \<Longrightarrow> n * length f < M64 \<Longrightarrow>
     \<exists>b. new_fill_value t n f = Inr b \<and> ab_ok t n b \<and> elems t b = replicate n (fill_element t f)"
proof (induction t n f rule: new_fill_value.induct)
  case (1 t n f)
  show ?case
  proof (cases "is_fill_value_null f")
    case True
    define g :: fill_value where "g = (case fixed_size t of Some z \<Rightarrow> replicate z 0 | None \<Rightarrow> [])"
    have "n * length g < M64"
      using "1.prems"(1) by (auto simp: g_def countable_size_def fixed_size_def mult.commute split: data_type_size.splits)
    moreover have "fill_matches t g" "countable_size t n"
      using "1.prems" True by (simp_all add: g_def countable_inner)
    ultimately obtain d where "new_fill_value t n g = Inr d" "ab_ok t n d" "elems t d = replicate n (fill_element t g)"
      using "1.IH"(1)[OF True, folded g_def] by blast
    then have "new_fill_value (OptionalType t) n f = Inr (OptionalBytes d (replicate n 0))"
        "ab_ok (OptionalType t) n (OptionalBytes d (replicate n 0))"
        "elems (OptionalType t) (OptionalBytes d (replicate n 0)) = replicate n (fill_element (OptionalType t) f)"
      using True by (simp_all add: g_def)
    then show ?thesis by blast
  next
    case False
    have "n * length (fill_value_inner_bytes f) < M64"
      using "1.prems"(3) mult_less_M64[of "length f - 1" "length f" n]
      by (simp add: fill_value_inner_bytes_def mult.commute)
    then show ?thesis using "1.IH"(2)[OF False] "1.prems" False by (auto simp: countable_inner)
  qed
next
  case (2 z n f)
  then have "sized z (replicate n f)" "0 < z" "n * z < M64"
    by (simp_all add: sized_def list_all_iff countable_size_def)
  then show ?case using ab_ok_concat[of z "replicate n f"] 2 by simp
next
  case (3 n f)
  have "length (concat (replicate n f)) < M64" using "3.prems"(3) by (simp only: concat_replicate_length)
  from pushed_items(2,3)[OF this] show ?case
    using new_fill_value_vlen[OF "3.prems"(3)] by simp
qed

lemma new_fill_value_is_fill:
  "align_ok al \<Longrightarrow> 0 < n \<Longrightarrow> fill_matches t f \<Longrightarrow> n * length f < M64 \<Longrightarrow> new_fill_value t n f = Inr b \<Longrightarrow> is_fill_value al b f"
proof (induction t n f arbitrary: b rule: new_fill_value.induct)
  case (1 t n f)
  show ?case
  proof (cases "is_fill_value_null f")
    case True
    then show ?thesis using "1.prems"(5) by (auto simp: bind_res_Inr is_fill_value_null_def list_all_iff)
  next
    case False
    have "n * length (fill_value_inner_bytes f) < M64"
      using "1.prems"(4) mult_less_M64[of "length f - 1" "length f" n]
      by (simp add: fill_value_inner_bytes_def mult.commute)
    then show ?thesis using "1.IH"(2)[OF False "1.prems"(1,2)] "1.prems"(3,5) False
      by (auto simp: bind_res_Inr is_fill_value_null_def list_all_iff fill_value_inner_bytes_def)
  qed
next
  case (2 z n f)
  then have b: "b = FixedBytes (concat (replicate n f))" by (simp split: if_splits)
  have "f = [] \<Longrightarrow> concat (replicate n f) = []" by simp
  then show ?case unfolding b is_fill_value.simps using "2.prems"(1,2) equals_all_iff by (metis (no_types))
next
  case (3 n f)
  then have b: "b = VariableBytes (concat (replicate n f)) (offsets_of 0 (replicate n f))"
    using new_fill_value_vlen by simp
  have "f = [] \<Longrightarrow> concat (replicate n f) = []" by simp
  then show ?case unfolding b is_fill_value.simps using "3.prems"(1,2) equals_all_iff by (metis (no_types))
qed

text \<open>
  \<open>new_fill_value\<close> builds \<open>n\<close> elements equal to the fill value - for an optional type null elements
  with zeroed data, or valid ones - and \<open>is_fill_value\<close> recognises what it built.
\<close>

theorem new_fill_value_correct:
  assumes "countable_size t n" and "fill_matches t f" and "n * length f < M64" and "align_ok al" and "0 < n"
  shows "\<exists>b. new_fill_value t n f = Inr b \<and> ab_ok t n b \<and> elems t b = replicate n (fill_element t f) \<and>
     is_fill_value al b f"
  using new_fill_value_elems[OF assms(1-3)] new_fill_value_is_fill[OF assms(4,5,2,3)] by blast

theorem new_fill_value_correct_witness:
  "\<exists>b. new_fill_value (OptionalType (PlainType (SizeFixed 2))) 3 [7, 8, 1] = Inr b \<and>
     ab_ok (OptionalType (PlainType (SizeFixed 2))) 3 b \<and>
     elems (OptionalType (PlainType (SizeFixed 2))) b = replicate 3 (Masked 1 (Raw [7, 8])) \<and>
     is_fill_value (\<lambda>b. (b, [], [])) b [7, 8, 1]"
proof -
  let ?t = "OptionalType (PlainType (SizeFixed 2))"
  have n: "\<not> is_fill_value_null [7, 8, 1]" "fill_value_inner_bytes [7, 8, 1] = [7, 8]"
    by (simp_all add: is_fill_value_null_def last_opt_def fill_value_inner_bytes_def)
  have "countable_size ?t 3" "fill_matches ?t [7, 8, 1]" "3 * length [7, 8, 1 :: u8] < M64" "align_ok (\<lambda>b. (b, [], []))" "0 < (3 :: nat)"
    using n by (simp_all add: countable_size_def M64_def align_ok_def)
  from new_fill_value_correct[OF this]
  show ?thesis using n by (simp only: fill_element.simps if_False)
qed

text \<open>
  For elements of fixed size, \<open>is_fill_value\<close> is true exactly when every element is the fill value.
  For elements of variable size it compares the concatenated bytes only, so an array that has other
  elements can pass for the fill value: the items \<open>xx\<close> and the empty one, against the fill value \<open>x\<close>.
\<close>

theorem is_fill_value_exact:
  assumes "align_ok al" and "ab_ok (PlainType (SizeFixed z)) n (FixedBytes b)" and "0 < n" and "length f = z"
  shows "(is_fill_value al (FixedBytes b) f \<longleftrightarrow> elems (PlainType (SizeFixed z)) (FixedBytes b) = replicate n (Raw f)) \<and>
     is_fill_value al (VariableBytes [x, x] [0, 2, 2]) [x] \<and>
     elems (PlainType SizeVariable) (VariableBytes [x, x] [0, 2, 2]) = [Raw [x, x], Raw []]"
proof (intro conjI)
  obtain E where E: "sized z E" "length E = n" "b = concat E" "0 < z"
      "elems (PlainType (SizeFixed z)) (FixedBytes b) = map Raw E"
    using fixed_elems[OF assms(2)] by blast
  have s: "sized z (replicate k f)" for k using assms(4) by (simp add: sized_def list_all_iff)
  have *: "E = replicate k f" if "concat E = concat (replicate k f)" for k
    using chunks_concat[OF E(1,4)] chunks_concat[OF s E(4)] that by (simp only:)
  have "f \<noteq> []" using assms(4) E(4) by auto
  then have "equals_all al f b \<longleftrightarrow> (\<exists>k > 0. concat E = concat (replicate k f))"
    using equals_all_iff[OF assms(1), of f b] E(3) by simp
  also have "\<dots> \<longleftrightarrow> E = replicate n f"
  proof
    assume "\<exists>k > 0. concat E = concat (replicate k f)"
    then obtain k where "E = replicate k f" using * by blast
    then show "E = replicate n f" using E(2) by simp
  next
    assume "E = replicate n f"
    then show "\<exists>k > 0. concat E = concat (replicate k f)" using assms(3) by (intro exI[of _ n] conjI) simp_all
  qed
  also have "\<dots> \<longleftrightarrow> map Raw E = replicate n (Raw f)"
    by (metis element.inject(1) inj_map_eq_map injI map_replicate)
  finally show "is_fill_value al (FixedBytes b) f \<longleftrightarrow>
      elems (PlainType (SizeFixed z)) (FixedBytes b) = replicate n (Raw f)"
    using E(5) by simp
  have "[x, x] = concat (replicate 2 [x])" by (simp add: replicate_two)
  then have "equals_all al [x] [x, x]" using equals_all_iff[OF assms(1), of "[x]" "[x, x]"] by (auto intro!: exI[of _ 2])
  then show "is_fill_value al (VariableBytes [x, x] [0, 2, 2]) [x]" by simp
qed (simp add: vlen_items_def upt_rec)

theorem is_fill_value_exact_witness:
  "is_fill_value (\<lambda>b. (b, [], [])) (FixedBytes [3, 4, 3, 4]) [3, 4]"
proof -
  have "align_ok (\<lambda>b. (b, [], []))" "ab_ok (PlainType (SizeFixed 2)) 2 (FixedBytes [3, 4, 3, 4])" "0 < (2 :: nat)" "length [3, 4 :: u8] = 2"
    by (simp_all add: align_ok_def M64_def)
  from is_fill_value_exact[OF this] show ?thesis by (simp add: chunks_exact.simps replicate_two)
qed

end
