(* ===== verification/Array_Codecs.thy ===== *)
theory Array_Codecs
  imports Array_Bytes_Properties
begin

text \<open>
  The codec traits on arrays (\<open>zarrs_codec/src/codec_traits/array_to_bytes.rs\<close>, \<open>array_partial_sync.rs\<close>,
  \<open>options.rs\<close>) and the default partial decoder and encoder of an array-to-bytes codec
  (\<open>codec_partial_default.rs\<close>).  A codec bound to a data type is the record \<open>array_codec\<close> of its methods; the
  contract the array code relies on is the locale \<open>array_to_bytes_codec\<close>.
\<close>

record codec_options =
  validate_checksums :: bool
  store_empty_chunks :: bool
  concurrent_target :: usize
  chunk_concurrent_minimum :: usize
  experimental_partial_encoding :: bool

type_synonym array_decoder = "indexer \<Rightarrow> codec_error + array_bytes"

definition default_partial_decode_into ::
    "array_decoder \<Rightarrow> indexer \<Rightarrow> decode_target \<Rightarrow> codec_error + decode_target" where
  "default_partial_decode_into d x target =
     (if ix_len x \<noteq> target_num_elements target
      then Inl (InvalidNumberOfElements (ix_len x) (target_num_elements target))
      else bind_res (d x) (\<lambda>decoded_value. decode_into_target decoded_value target))"

record array_codec =
  ab_data_type :: data_type
  ab_fill_value :: fill_value
  ab_encoded_representation :: "chunk_shape \<Rightarrow> codec_error + bytes_representation"
  ab_recommended_concurrency :: "chunk_shape \<Rightarrow> codec_error + recommended_concurrency"
  ab_encode :: "codec_options \<Rightarrow> array_bytes \<Rightarrow> chunk_shape \<Rightarrow> codec_error + bytes"
  ab_decode :: "codec_options \<Rightarrow> bytes \<Rightarrow> chunk_shape \<Rightarrow> codec_error + array_bytes"
  ab_compact :: "codec_options \<Rightarrow> bytes \<Rightarrow> chunk_shape \<Rightarrow> codec_error + bytes option"
  ab_decode_into :: "codec_options \<Rightarrow> bytes \<Rightarrow> chunk_shape \<Rightarrow> decode_target \<Rightarrow> codec_error + decode_target"
  ab_partial_decoder :: "codec_options \<Rightarrow> bytes_decoder \<Rightarrow> chunk_shape \<Rightarrow> codec_error + array_decoder"

subsection \<open>Provided methods\<close>

definition default_compact :: "codec_options \<Rightarrow> bytes \<Rightarrow> chunk_shape \<Rightarrow> codec_error + bytes option" where
  "default_compact opt b s = Inr None"

definition default_decode_into ::
    "(bytes \<Rightarrow> chunk_shape \<Rightarrow> codec_error + array_bytes) \<Rightarrow> bytes \<Rightarrow> chunk_shape \<Rightarrow> decode_target \<Rightarrow>
     codec_error + decode_target" where
  "default_decode_into dec b s target = bind_res (dec b s) (\<lambda>b. decode_into_target b target)"

text \<open>\<open>ArrayToBytesCodecPartialDefault\<close>\<close>

definition default_array_partial_decode ::
    "data_type \<Rightarrow> fill_value \<Rightarrow> (bytes \<Rightarrow> chunk_shape \<Rightarrow> codec_error + array_bytes) \<Rightarrow> bytes_decoder \<Rightarrow> chunk_shape \<Rightarrow>
     array_decoder" where
  "default_array_partial_decode t fv dec handle s x =
     bind_res (decode_all handle) (\<lambda>bytes_enc.
       case bytes_enc of
         Some e \<Rightarrow> bind_res (dec e s) (\<lambda>bytes_dec. extract_array_subset bytes_dec x s t)
       | None \<Rightarrow> new_fill_value t (ix_len x) fv)"

text \<open>
  \<open>partial_encode\<close> on a handle whose value is \<open>v\<close>, absent or present: decode or fill, update, erase, and
  write the encoded bytes at offset 0 unless the chunk is empty.
\<close>

definition default_array_partial_encode ::
    "align_to \<Rightarrow> array_codec \<Rightarrow> codec_options \<Rightarrow> chunk_shape \<Rightarrow> bytes_value \<Rightarrow> indexer \<Rightarrow> array_bytes \<Rightarrow>
     codec_error + bytes_value" where
  "default_array_partial_encode al C opt s v x u =
     bind_res (decode_all (mutex_decoder v)) (\<lambda>chunk_bytes.
     bind_res (case chunk_bytes of
         Some e \<Rightarrow> ab_decode C opt e s
       | None \<Rightarrow> new_fill_value (ab_data_type C) (wprod s) (ab_fill_value C)) (\<lambda>chunk_bytes.
     bind_res (validate_bytes chunk_bytes (wprod s) (ab_data_type C)) (\<lambda>_.
     bind_res (validate_bytes u (ix_len x) (ab_data_type C)) (\<lambda>_.
     bind_res (update_array_bytes chunk_bytes s x u (dt_size (ab_data_type C))) (\<lambda>chunk_bytes.
     bind_res (mutex_erase v) (\<lambda>v.
       if \<not> store_empty_chunks opt \<and> is_fill_value al chunk_bytes (ab_fill_value C) then Inr v
       else bind_res (ab_encode C opt chunk_bytes s) (\<lambda>e. mutex_partial_encode_many v [(0, e)])))))))"

subsection \<open>Values\<close>

text \<open>
  The value of an element: the data below a null does not matter.  \<open>vals t b\<close> are the values of array
  bytes; codecs and arrays are specified by them.
\<close>

fun norm :: "element \<Rightarrow> element" where
  "norm (Raw b) = Raw b"
| "norm (Masked m e) = Masked m (if m = 0 then Raw [] else norm e)"

definition vals :: "data_type \<Rightarrow> array_bytes \<Rightarrow> element list" where
  "vals t b = map norm (elems t b)"

definition fill_val :: "data_type \<Rightarrow> fill_value \<Rightarrow> element" where
  "fill_val t f = norm (fill_element t f)"

lemma length_vals: "ab_ok t n b \<Longrightarrow> length (vals t b) = n"
  by (simp add: vals_def length_elems)

lemma ab_ok_size: "ab_ok t n b \<Longrightarrow> ab_size b < M64"
  by (induction t n b rule: ab_ok.induct) (auto simp: vlen_ok_def)

lemma ab_ok_fixed_size: "ab_ok t n b \<Longrightarrow> dt_size t = SizeFixed z \<Longrightarrow> ab_size b = n * z \<and> 0 < z \<and> n * z < M64"
  by (induction t n b rule: ab_ok.induct) auto

lemma select_fits_distinct:
  assumes "ab_ok t n b" and "distinct idx" and "\<forall>i \<in> set idx. i < n" and "n < M64"
  shows "select_fits t b idx"
proof -
  have "sum_list (map elem_size (map ((!) (elems t b)) idx)) \<le> sum_list (map elem_size (elems t b))"
    using sum_list_distinct_le[OF assms(2), of "map elem_size (elems t b)"] assms(3) length_elems[OF assms(1)]
    by (simp add: comp_def cong: map_cong)
  also have "\<dots> \<le> ab_size b" by (rule sum_elem_size[OF assms(1)])
  finally show ?thesis
    using ab_ok_size[OF assms(1)] distinct_length_le[OF assms(2,3)] assms(4) by (simp add: select_fits_def)
qed

lemma extract_vals:
  assumes "covers a x" and "prod_list a < M64" and "ab_ok t (prod_list a) b" and "distinct (ix_elements a x)"
  shows "\<exists>b'. extract_array_subset b x a t = Inr b' \<and> ab_ok t (length (ix_elements a x)) b' \<and>
     vals t b' = map ((!) (vals t b)) (ix_elements a x)"
proof -
  have less: "\<forall>i \<in> set (ix_elements a x). i < prod_list a" using ix_elements_less[OF assms(1)] by blast
  have "select_fits t b (ix_elements a x)" using select_fits_distinct[OF assms(3,4) less assms(2)] .
  then obtain b' where b': "extract_array_subset b x a t = Inr b'" "ab_ok t (length (ix_elements a x)) b'"
      "elems t b' = map ((!) (elems t b)) (ix_elements a x)"
    using extract_elems[OF assms(1-3)] by blast
  then have "vals t b' = map ((!) (vals t b)) (ix_elements a x)"
    using less length_elems[OF assms(3)] by (simp add: vals_def)
  then show ?thesis using b' by blast
qed

lemma update_subset_vals:
  assumes "subset_covered s a" and "shape_ok a" and "ab_ok t (prod_list a) b" and "ab_ok t (length (sub_idx a s)) u"
    and "ab_size b + ab_size u < M64"
  shows "\<exists>b'. update_array_bytes_array_subset b a s u (dt_size t) = Inr b' \<and> ab_ok t (prod_list a) b' \<and>
     vals t b' = scatter (vals t b) (sub_idx a s) (vals t u)"
  using update_subset_elems[OF assms] by (auto simp: vals_def map_scatter simp del: ix_elements.simps)

lemma validate_ok: "countable_size t n \<Longrightarrow> ab_ok t n b \<Longrightarrow> validate_bytes b n t = Inr ()"
  using validate_iff[OF _ ab_ok_size] by blast

subsection \<open>Fill values\<close>

lemma fill_value_null_all: "list_all (\<lambda>b. b = 0) m \<Longrightarrow> length d = length m \<Longrightarrow>
   map norm (map2 Masked m d) = replicate (length m) (Masked 0 (Raw []))"
  by (intro nth_equalityI) (simp_all add: list_all_length)

lemma equals_all_elems:
  assumes "align_ok al" and "ab_ok (PlainType (SizeFixed z)) n (FixedBytes b)" and "length f = z" and "equals_all al f b"
  shows "elems (PlainType (SizeFixed z)) (FixedBytes b) = replicate n (Raw f)"
proof -
  obtain E where E: "sized z E" "length E = n" "b = concat E" "0 < z"
      "elems (PlainType (SizeFixed z)) (FixedBytes b) = map Raw E"
    using fixed_elems[OF assms(2)] by blast
  have f: "f \<noteq> []" using assms(3) E(4) by auto
  then obtain k where k: "concat E = concat (replicate k f)"
    using equals_all_iff[OF assms(1), of f b] assms(4) E(3) by auto
  have s: "sized z (replicate k f)" using assms(3) by (simp add: sized_def list_all_iff)
  have "E = chunks_exact z (concat (replicate k f))" using chunks_concat[OF E(1,4)] unfolding k by (rule sym)
  then have "E = replicate k f" unfolding chunks_concat[OF s E(4)] .
  then show ?thesis using E(2,5) by simp
qed

text \<open>An array of fixed-size elements that passes for the fill value has the value of the fill value everywhere.\<close>

lemma is_fill_value_vals:
  "align_ok al \<Longrightarrow> is_fill_value al b f \<Longrightarrow> ab_ok t n b \<Longrightarrow> fill_matches t f \<Longrightarrow> is_fixed t \<Longrightarrow>
     vals t b = replicate n (fill_val t f)"
proof (induction t n b arbitrary: f rule: ab_ok.induct)
  case (1 z n b)
  then have "elems (PlainType (SizeFixed z)) (FixedBytes b) = replicate n (Raw f)"
    by (intro equals_all_elems) simp_all
  then show ?case by (simp add: vals_def fill_val_def)
next
  case (2 n b os)
  then show ?case by (simp add: is_fixed_def)
next
  case (3 t n d m)
  have ok: "ab_ok t n d" "length m = n" "is_fixed t" using "3.prems" by (simp_all add: is_fixed_def)
  have len: "length (elems t d) = n" using ok(1) by (rule length_elems)
  show ?case
  proof (cases "is_fill_value_null f")
    case True
    then have "list_all (\<lambda>b. b = 0) m" using "3.prems"(2) by (simp add: is_fill_value_null_def)
    then show ?thesis using fill_value_null_all[of m "elems t d"] True len ok(2) by (simp add: vals_def fill_val_def)
  next
    case False
    then have m: "list_all (\<lambda>b. b = 1) m" "is_fill_value al d (fill_value_inner_bytes f)"
      using "3.prems"(2) by (simp_all add: is_fill_value_null_def fill_value_inner_bytes_def)
    have "vals t d = replicate n (fill_val t (fill_value_inner_bytes f))"
      using "3.IH"[OF "3.prems"(1) m(2) ok(1) _ ok(3)] "3.prems"(4) False by simp
    moreover have "m = replicate n 1" using m(1) ok(2) by (simp add: list_all_eq_replicate)
    ultimately have "norm (elems t d ! i) = fill_val t (fill_value_inner_bytes f)" if "i < n" for i
      using that len by (metis nth_map nth_replicate vals_def)
    then show ?thesis
      using False len \<open>m = replicate n 1\<close> by (intro nth_equalityI) (simp_all add: vals_def fill_val_def)
  qed
qed auto

lemma new_fill_value_vals:
  assumes "countable_size t n" and "fill_matches t f" and "n * length f < M64"
  shows "\<exists>b. new_fill_value t n f = Inr b \<and> ab_ok t n b \<and> vals t b = replicate n (fill_val t f)"
  using new_fill_value_elems[OF assms] by (auto simp: vals_def fill_val_def)

subsection \<open>Targets\<close>

text \<open>
  A target whose views all cover one subset of an array is array bytes of that array, and copying decoded bytes into it
  updates the elements of the subset.
\<close>

fun target_bytes :: "decode_target \<Rightarrow> array_bytes" where
  "target_bytes (FixedTarget v b) = FixedBytes b"
| "target_bytes (OptionalTarget d v b) = OptionalBytes (target_bytes d) b"

fun target_ok :: "data_type \<Rightarrow> array_shape \<Rightarrow> array_subset \<Rightarrow> decode_target \<Rightarrow> bool" where
  "target_ok (PlainType (SizeFixed z)) a s (FixedTarget v b) \<longleftrightarrow>
     view_ok v z a s \<and> ab_ok (PlainType (SizeFixed z)) (prod_list a) (FixedBytes b)"
| "target_ok (OptionalType t) a s (OptionalTarget d v b) \<longleftrightarrow>
     target_ok t a s d \<and> view_ok v 1 a s \<and> length b = prod_list a"
| "target_ok _ _ _ _ \<longleftrightarrow> False"

lemma target_ok_bytes: "target_ok t a s T \<Longrightarrow> ab_ok t (prod_list a) (target_bytes T)"
  by (induction t a s T rule: target_ok.induct) auto

lemma target_count: "target_ok t a s T \<Longrightarrow> target_num_elements T = num_elements s"
  by (induction t a s T rule: target_ok.induct) (auto simp: view_num_elements_def view_ok_def)

lemma decode_into_target_elems:
  assumes "fits s a" and "prod_list a < M64"
  shows "target_ok t a s T \<Longrightarrow> ab_ok t (length (sub_idx a s)) u \<Longrightarrow>
     \<exists>T'. decode_into_target u T = Inr T' \<and> target_ok t a s T' \<and>
       elems t (target_bytes T') = scatter (elems t (target_bytes T)) (sub_idx a s) (elems t u)"
  using assms
proof (induction t a s T arbitrary: u rule: target_ok.induct)
  case (1 z a s v b)
  obtain ub where u: "u = FixedBytes ub" using ab_ok_cases(1)[OF "1.prems"(2)] by blast
  have ok: "view_ok v z a s" "ab_ok (PlainType (SizeFixed z)) (prod_list a) (FixedBytes b)"
    using "1.prems"(1) by simp_all
  obtain E where E: "sized z E" "length E = prod_list a" "b = concat E" "0 < z" "prod_list a * z < M64"
      "elems (PlainType (SizeFixed z)) (FixedBytes b) = map Raw E"
    using fixed_elems[OF ok(2)] by blast
  obtain U where U: "sized z U" "length U = length (sub_idx a s)" "ub = concat U"
      "elems (PlainType (SizeFixed z)) (FixedBytes ub) = map Raw U"
    using fixed_elems[OF "1.prems"(2)[unfolded u]] by blast
  have "view_copy_from_slice v ub b = Inr (concat (scatter E (sub_idx a s) U))"
    using view_copy_ok[OF ok(1) E(1,2,5) U(1,2) "1.prems"(3)] E(3) U(3) by simp
  then show ?case
    using fixed_updated[OF E(1) U(1) E(4), of "sub_idx a s"] E U ok(1)
    by (simp add: u del: ix_elements.simps elems.simps ab_ok.simps)
next
  case (2 t a s d v m)
  obtain ud um where u: "u = OptionalBytes ud um" using ab_ok_cases(3)[OF "2.prems"(2)] by blast
  have ok: "target_ok t a s d" "view_ok v 1 a s" "length m = prod_list a" "ab_ok t (length (sub_idx a s)) ud"
      "length um = length (sub_idx a s)"
    using "2.prems"(1,2) by (simp_all add: u del: ix_elements.simps)
  obtain d' where d': "decode_into_target ud d = Inr d'" "target_ok t a s d'"
      "elems t (target_bytes d') = scatter (elems t (target_bytes d)) (sub_idx a s) (elems t ud)"
    using "2.IH"[OF ok(1,4) "2.prems"(3,4)] by blast
  have "view_copy_from_slice v (concat (mask_list um)) (concat (mask_list m)) =
      Inr (concat (scatter (mask_list m) (sub_idx a s) (mask_list um)))"
    by (rule view_copy_ok[where z = 1]) (use ok "2.prems"(3,4) in \<open>simp_all del: ix_elements.simps\<close>)
  then have "view_copy_from_slice v um m = Inr (scatter m (sub_idx a s) um)"
    by (simp add: concat_mask_scatter del: ix_elements.simps)
  moreover have "elems (OptionalType t) (OptionalBytes (target_bytes d') (scatter m (sub_idx a s) um)) =
      scatter (elems (OptionalType t) (OptionalBytes (target_bytes d) m)) (sub_idx a s)
        (elems (OptionalType t) (OptionalBytes ud um))"
    using optional_updated[OF target_ok_bytes[OF d'(2)] d'(3) target_ok_bytes[OF ok(1)] ok(3,4,5)] by blast
  ultimately show ?case
    using d' ok(2,3) by (simp add: u del: ix_elements.simps elems.simps)
qed auto

lemma decode_into_target_vals:
  assumes "fits s a" and "prod_list a < M64" and "target_ok t a s T" and "ab_ok t (length (sub_idx a s)) u"
  shows "\<exists>T'. decode_into_target u T = Inr T' \<and> target_ok t a s T' \<and>
     vals t (target_bytes T') = scatter (vals t (target_bytes T)) (sub_idx a s) (vals t u)"
  using decode_into_target_elems[OF assms] by (auto simp: vals_def map_scatter simp del: ix_elements.simps)

subsection \<open>The contract of an array-to-bytes codec\<close>

text \<open>
  An indexer of distinct elements of a chunk, of its dimensionality, and not an empty list of indices: such a list
  has no dimensionality, and the transpose codec makes one of any other empty indexer that is not a subset.
\<close>

definition indexes :: "chunk_shape \<Rightarrow> indexer \<Rightarrow> bool" where
  "indexes s x \<longleftrightarrow> covers s x \<and> distinct (ix_elements s x) \<and> ix_dimensionality x = length s \<and>
     (ix_as_array_subset x = None \<longrightarrow> ix_elements s x \<noteq> [])"

lemma indexes_subset: "subset_covered s a \<Longrightarrow> indexes a (SubsetIndexer s)"
  by (auto simp: indexes_def subset_covered_def fits_def distinct_sub_idx[unfolded ix_elements.simps] simp del: ix_elements.simps
      intro!: distinct_sub_idx)

text \<open>A target of the subset \<open>q\<close> of an array of shape \<open>a\<close>, and what the default \<open>decode_into\<close> does with it.\<close>

definition target_into :: "data_type \<Rightarrow> array_shape \<Rightarrow> array_subset \<Rightarrow> decode_target \<Rightarrow> bool" where
  "target_into t a q T \<longleftrightarrow> target_ok t a q T \<and> fits q a \<and> prod_list a < M64"

lemma into_target_vals:
  assumes "target_into t a q T" and "sub_shape q = s" and "ab_ok t (prod_list s) b"
  shows "\<exists>T'. decode_into_target b T = Inr T' \<and> target_ok t a q T' \<and>
    vals t (target_bytes T') = scatter (vals t (target_bytes T)) (sub_idx a q) (vals t b)"
proof -
  have f: "fits q a" "prod_list a < M64" "target_ok t a q T" using assms(1) by (simp_all add: target_into_def)
  have "ab_ok t (length (sub_idx a q)) b" using assms(2,3) length_sub_idx[OF f(1)] by (simp del: ix_elements.simps)
  then show ?thesis by (rule decode_into_target_vals[OF f])
qed

lemma default_into_vals:
  assumes "target_into t a q T" and "sub_shape q = s" and "ab_ok t (prod_list s) b" and "dec e s = Inr b"
  shows "\<exists>T'. default_decode_into dec e s T = Inr T' \<and> target_ok t a q T' \<and>
    vals t (target_bytes T') = scatter (vals t (target_bytes T)) (sub_idx a q) (vals t b)"
  using into_target_vals[OF assms(1-3)] assms(4) by (simp add: default_decode_into_def)

text \<open>
  A partial decoder that reads elements with the values \<open>vs\<close>: for every indexer, or for those that select some element, which
  are all that the squeeze and reshape codecs serve, or for the subsets among these, which are all that the sharding codec serves.
\<close>

datatype indexer_class = AnyIndexer | NonemptyIndexers | NonemptySubsets

definition asked :: "indexer_class \<Rightarrow> chunk_shape \<Rightarrow> indexer \<Rightarrow> bool" where
  "asked iclass s x \<longleftrightarrow> indexes s x \<and>
     (iclass = AnyIndexer \<or> ix_elements s x \<noteq> [] \<and> (iclass = NonemptySubsets \<longrightarrow> ix_as_array_subset x \<noteq> None))"

lemma asked_subset: "subset_covered q s \<Longrightarrow> sub_idx s q \<noteq> [] \<Longrightarrow> asked iclass s (SubsetIndexer q)"
  using indexes_subset[of q s] by (simp add: asked_def)

lemma asked_indexes: "asked iclass s x \<Longrightarrow> indexes s x"
  by (simp add: asked_def)

lemma asked_any [simp]: "asked AnyIndexer s x \<longleftrightarrow> indexes s x"
  by (simp add: asked_def)

definition reads_array :: "indexer_class \<Rightarrow> data_type \<Rightarrow> array_decoder \<Rightarrow> chunk_shape \<Rightarrow> element list \<Rightarrow> bool" where
  "reads_array iclass t d s vs \<longleftrightarrow> (\<forall>x. asked iclass s x \<longrightarrow>
     (\<exists>b. d x = Inr b \<and> ab_ok t (length (ix_elements s x)) b \<and> vals t b = map ((!) vs) (ix_elements s x)))"

text \<open>Chunks of a shape can be filled.\<close>

definition fill_ready :: "data_type \<Rightarrow> fill_value \<Rightarrow> chunk_shape \<Rightarrow> bool" where
  "fill_ready t fv s \<longleftrightarrow> fill_matches t fv \<and> prod_list s * length fv < M64 \<and> countable_size t (prod_list s)"

definition fill_vals :: "data_type \<Rightarrow> fill_value \<Rightarrow> chunk_shape \<Rightarrow> element list" where
  "fill_vals t fv s = replicate (prod_list s) (fill_val t fv)"

lemma fill_vals_indexed:
  "indexes s x \<Longrightarrow> map ((!) (fill_vals t fv s)) (ix_elements s x) = replicate (length (ix_elements s x)) (fill_val t fv)"
  using ix_elements_less[of s x] by (intro nth_equalityI) (auto simp: fill_vals_def indexes_def)

lemma length_fill_vals [simp]: "length (fill_vals t fv s) = prod_list s"
  by (simp add: fill_vals_def)

text \<open>
  \<open>acc s b\<close>: the codec encodes \<open>b\<close> for chunks of shape \<open>s\<close>.  Decoding inverts encoding up to the values of
  the elements; decoding into a target updates its elements; the partial decoder over a value of
  the codec returns the elements of the indexer, and fill values when there is no value.  \<open>R\<close> are the ranges it
  asks for, and \<open>iclass\<close> are the indexers it serves.
\<close>

locale array_to_bytes_codec =
  fixes C :: array_codec
    and t :: data_type
    and fv :: fill_value
    and acc :: "chunk_shape \<Rightarrow> array_bytes \<Rightarrow> bool"
    and R :: "byte_range \<Rightarrow> bool"
    and iclass :: indexer_class
  assumes accepted: "acc s b \<Longrightarrow> shape_ok s \<and> ab_ok t (prod_list s) b \<and> (\<exists>rc. ab_recommended_concurrency C s = Inr rc) \<and>
      (\<exists>r. ab_encoded_representation C s = Inr r)"
    and roundtrip: "acc s b \<Longrightarrow> \<exists>e. ab_encode C opt b s = Inr e \<and> length e < M64 \<and>
      (\<forall>opt'. \<exists>b'. ab_decode C opt' e s = Inr b' \<and> acc s b' \<and> vals t b' = vals t b)"
    and into: "acc s b \<Longrightarrow> ab_encode C opt b s = Inr e \<Longrightarrow> target_into t a q T \<Longrightarrow> sub_shape q = s \<Longrightarrow>
      \<exists>T'. ab_decode_into C opt' e s T = Inr T' \<and> target_ok t a q T' \<and>
        vals t (target_bytes T') = scatter (vals t (target_bytes T)) (sub_idx a q) (vals t b)"
    and partial: "acc s b \<Longrightarrow> ab_encode C opt b s = Inr e \<Longrightarrow> reads_on R d e \<Longrightarrow>
      \<exists>dec. ab_partial_decoder C opt' d s = Inr dec \<and> reads_array iclass t dec s (vals t b)"
    and partial_fill: "acc s b \<Longrightarrow> ab_encode C opt b s = Inr e \<Longrightarrow> absent_on R d (length e) \<Longrightarrow> fill_ready t fv s \<Longrightarrow>
      \<exists>dec. ab_partial_decoder C opt' d s = Inr dec \<and> reads_array iclass t dec s (fill_vals t fv s)"
begin

lemma decoded_vals: "acc s b \<Longrightarrow> ab_encode C opt b s = Inr e \<Longrightarrow>
   \<exists>b'. ab_decode C opt' e s = Inr b' \<and> acc s b' \<and> ab_ok t (prod_list s) b' \<and> vals t b' = vals t b"
  using roundtrip[of s b opt] accepted by fastforce

lemma partial_some: "acc s b \<Longrightarrow> ab_encode C opt b s = Inr e \<Longrightarrow> reads_on R d e \<Longrightarrow> asked iclass s x \<Longrightarrow>
   \<exists>dec b'. ab_partial_decoder C opt' d s = Inr dec \<and> dec x = Inr b' \<and> ab_ok t (length (ix_elements s x)) b' \<and>
     vals t b' = map ((!) (vals t b)) (ix_elements s x)"
  using partial[of s b opt e d opt'] by (auto simp: reads_array_def)

lemma partial_none: "acc s b \<Longrightarrow> ab_encode C opt b s = Inr e \<Longrightarrow> absent_on R d (length e) \<Longrightarrow> asked iclass s x \<Longrightarrow>
   fill_matches t fv \<Longrightarrow> prod_list s * length fv < M64 \<Longrightarrow> countable_size t (prod_list s) \<Longrightarrow>
   \<exists>dec b'. ab_partial_decoder C opt' d s = Inr dec \<and> dec x = Inr b' \<and> ab_ok t (length (ix_elements s x)) b' \<and>
     vals t b' = replicate (length (ix_elements s x)) (fill_val t fv)"
  using partial_fill[of s b opt e d opt'] fill_ready_def[of t fv s] fill_vals_indexed[of s x t fv] asked_indexes[of iclass s x]
  by (fastforce simp: reads_array_def)

end

text \<open>The default partial decoder satisfies the laws of the contract for any codec that decodes its values.\<close>

lemma default_partial_some:
  assumes "reads_on R d e" and "R (FromStart 0 None)" and "dec e s = Inr b" and "shape_ok s" and "ab_ok t (prod_list s) b" and "indexes s x"
  shows "\<exists>b'. default_array_partial_decode t fv dec d s x = Inr b' \<and> ab_ok t (length (ix_elements s x)) b' \<and>
     vals t b' = map ((!) (vals t b)) (ix_elements s x)"
  using extract_vals[OF _ _ assms(5), of x] assms(3,4,6)
  by (simp add: default_array_partial_decode_def reads_decode_all[OF assms(1,2)] shape_ok_def indexes_def)

lemma indexed_count:
  assumes "indexes s x" and "shape_ok s"
  shows "length (ix_elements s x) \<le> prod_list s" and "length (ix_elements s x) < M64"
    and "ix_len x = length (ix_elements s x)"
proof -
  have c: "covers s x" "distinct (ix_elements s x)" using assms(1) by (simp_all add: indexes_def)
  show le: "length (ix_elements s x) \<le> prod_list s"
    using ix_elements_less[OF c(1)] by (intro distinct_length_le[OF c(2)]) blast
  then show "length (ix_elements s x) < M64" using assms(2) by (simp add: shape_ok_def)
  then show "ix_len x = length (ix_elements s x)" by (rule ix_len_eq[OF c(1)])
qed

lemma countable_less: "countable_size t n \<Longrightarrow> k \<le> n \<Longrightarrow> countable_size t k"
  by (auto simp: countable_size_def mult_less_M64 split: data_type_size.splits)

text \<open>Fill values for the elements of an indexer.\<close>

lemma fill_indexed:
  assumes "shape_ok s" and "countable_size t (prod_list s)" and "fill_matches t fv" and "prod_list s * length fv < M64"
    and "indexes s x"
  shows "\<exists>b'. new_fill_value t (ix_len x) fv = Inr b' \<and> ab_ok t (length (ix_elements s x)) b' \<and>
     vals t b' = replicate (length (ix_elements s x)) (fill_val t fv)"
proof -
  note c = indexed_count[OF assms(5,1)]
  have "length (ix_elements s x) * length fv < M64" using mult_less_M64[OF c(1) assms(4)] .
  then show ?thesis
    using new_fill_value_vals[OF countable_less[OF assms(2) c(1)] assms(3)] c(3) by simp
qed

lemma default_partial_none:
  assumes "absent_on R d n" and "R (FromStart 0 None)" and "shape_ok s" and "countable_size t (prod_list s)" and "fill_matches t fv"
    and "prod_list s * length fv < M64" and "indexes s x"
  shows "\<exists>b'. default_array_partial_decode t fv dec d s x = Inr b' \<and> ab_ok t (length (ix_elements s x)) b' \<and>
     vals t b' = replicate (length (ix_elements s x)) (fill_val t fv)"
  using fill_indexed[OF assms(3-7)] by (simp add: default_array_partial_decode_def absent_decode_all[OF assms(1,2)])

end
