(* ===== verification/Concurrency.thy ===== *)
theory Concurrency
  imports Array_Codecs
begin

text \<open>
  The split of the concurrency target between chunks and codecs (\<open>zarrs/src/array/concurrency.rs\<close> and
  \<open>zarrs_codec/src/recommended_concurrency.rs\<close>).  A recommended concurrency is the pair of its minimum and its maximum,
  both at least 1.
\<close>

definition calc_concurrency_outer_inner ::
    "usize \<Rightarrow> recommended_concurrency \<Rightarrow> recommended_concurrency \<Rightarrow> usize \<times> usize" where
  "calc_concurrency_outer_inner concurrency_target outer inner =
     (let concurrency_inner = fst inner; concurrency_outer = fst outer;
          concurrency_inner =
            (if wmul concurrency_inner concurrency_outer < concurrency_target
             then min (div_ceil concurrency_target concurrency_outer) (snd inner) else concurrency_inner);
          concurrency_outer =
            (if wmul concurrency_inner concurrency_outer < concurrency_target
             then min (div_ceil concurrency_target concurrency_inner) (snd outer) else concurrency_outer)
      in (concurrency_outer, concurrency_inner))"

definition concurrency_chunks_and_codec ::
    "usize \<Rightarrow> usize \<Rightarrow> codec_options \<Rightarrow> recommended_concurrency \<Rightarrow> usize \<times> codec_options" where
  "concurrency_chunks_and_codec concurrency_target num_chunks opt codec_concurrency =
     (let minimum = chunk_concurrent_minimum opt;
          (self_limit, codec_limit) =
            calc_concurrency_outer_inner concurrency_target
              (recommended_new (min minimum num_chunks) (max minimum num_chunks)) codec_concurrency
      in (self_limit, opt\<lparr>concurrent_target := codec_limit\<rparr>))"

lemma concurrency_keeps_options:
  assumes "concurrency_chunks_and_codec target n opt rc = (limit, opt')"
  shows "validate_checksums opt' = validate_checksums opt \<and> store_empty_chunks opt' = store_empty_chunks opt \<and>
     experimental_partial_encoding opt' = experimental_partial_encoding opt"
  using assms by (auto simp: concurrency_chunks_and_codec_def Let_def split: prod.splits)

definition rc_ok :: "recommended_concurrency \<Rightarrow> bool" where
  "rc_ok rc \<longleftrightarrow> 1 \<le> fst rc \<and> fst rc \<le> snd rc"

lemma div_ceil_cover: "0 < b \<Longrightarrow> a \<le> div_ceil a b * b"
  using div_ceil_bounds[of b a] by simp

lemma div_ceil_tight: "0 < b \<Longrightarrow> 0 < a \<Longrightarrow> (div_ceil a b - 1) * b < a"
  using less_div_ceil_iff[of b "div_ceil a b - 1" a] by (cases "div_ceil a b") auto

definition raised :: "nat \<Rightarrow> nat \<Rightarrow> nat \<Rightarrow> nat \<Rightarrow> nat" where
  "raised target other base cap = (if base * other < target then min (div_ceil target other) cap else base)"

lemma raised_bounds:
  assumes "1 \<le> base" and "base \<le> cap" and "1 \<le> other"
  shows "base \<le> raised target other base cap" and "raised target other base cap \<le> cap"
    and "target \<le> raised target other base cap * other \<or> raised target other base cap = cap"
    and "raised target other base cap = base \<or> (raised target other base cap - 1) * other < target"
proof -
  have o: "0 < other" using assms(3) by simp
  have "base < div_ceil target other" if "base * other < target" using that less_div_ceil_iff[OF o] by simp
  then show "base \<le> raised target other base cap" using assms(2) by (auto simp: raised_def)
  show "raised target other base cap \<le> cap" using assms(2) by (auto simp: raised_def)
  show "target \<le> raised target other base cap * other \<or> raised target other base cap = cap"
    using div_ceil_cover[OF o, of target] by (auto simp: raised_def min_def)
  have "(min (div_ceil target other) cap - 1) * other < target" if "base * other < target"
  proof -
    have "(min (div_ceil target other) cap - 1) * other \<le> (div_ceil target other - 1) * other"
      by (intro mult_le_mono1) simp
    also have "\<dots> < target" using that by (intro div_ceil_tight[OF o]) simp
    finally show ?thesis .
  qed
  then show "raised target other base cap = base \<or> (raised target other base cap - 1) * other < target"
    by (simp add: raised_def)
qed

text \<open>
  Property C39.  The split of a concurrency target: both limits stay within their recommended ranges; the
  product reaches the target unless both are at their maximum; and neither is raised above its minimum further
  than the target needs.
\<close>

theorem concurrency_split_bounds:
  assumes "rc_ok outer" and "rc_ok inner" and "snd outer * snd inner < M64"
    and "calc_concurrency_outer_inner target outer inner = (co, ci)"
  shows "fst outer \<le> co \<and> co \<le> snd outer \<and> fst inner \<le> ci \<and> ci \<le> snd inner \<and>
     (target \<le> co * ci \<or> co = snd outer \<and> ci = snd inner) \<and>
     (co = fst outer \<or> (co - 1) * ci < target) \<and> (ci = fst inner \<or> (ci - 1) * fst outer < target)"
proof -
  define i where "i = raised target (fst outer) (fst inner) (snd inner)"
  define c where "c = raised target i (fst outer) (snd outer)"
  have rc: "1 \<le> fst outer" "fst outer \<le> snd outer" "1 \<le> fst inner" "fst inner \<le> snd inner"
    using assms(1,2) by (simp_all add: rc_ok_def)
  note I = raised_bounds[OF rc(3,4,1), of target, folded i_def]
  have i1: "1 \<le> i" using I(1) rc(3) by simp
  note O = raised_bounds[OF rc(1,2) i1, of target, folded c_def]
  have fits: "fst inner * fst outer < M64" "i * fst outer < M64"
    using assms(3) I(2) rc mult_le_mono[of "fst inner" "snd inner" "fst outer" "snd outer"]
      mult_le_mono[of i "snd inner" "fst outer" "snd outer"] by (simp_all add: mult.commute)
  then have "wmul (fst inner) (fst outer) = fst inner * fst outer" "wmul i (fst outer) = i * fst outer"
    by (simp_all add: wmul_eq)
  then have "calc_concurrency_outer_inner target outer inner = (c, i)"
    by (simp add: calc_concurrency_outer_inner_def Let_def i_def c_def raised_def mult.commute)
  then have e: "co = c" "ci = i" using assms(4) by simp_all
  have "i * fst outer \<le> c * i" using O(1) by (simp add: mult.commute)
  then have "target \<le> c * i \<or> c = snd outer \<and> i = snd inner" using I(3) O(3) by linarith
  then show ?thesis using I(1,2,4) O(1,2,4) unfolding e by blast
qed

theorem concurrency_split_bounds_witness:
  "fst (calc_concurrency_outer_inner 32 (4, 8) (1, 16)) = 4 \<and> snd (calc_concurrency_outer_inner 32 (4, 8) (1, 16)) = 8"
proof -
  obtain co ci where c: "calc_concurrency_outer_inner 32 (4, 8) (1, 16) = (co, ci)" by fastforce
  have "rc_ok (4, 8)" "rc_ok (1, 16)" "snd (4, 8) * snd (1, 16) < M64" by (simp_all add: rc_ok_def M64_def)
  from concurrency_split_bounds[OF this c] show ?thesis
    using c by (simp add: calc_concurrency_outer_inner_def wmul_def M64_def div_ceil_def)
qed

subsection \<open>Bodies that run concurrently\<close>

text \<open>
  \<open>iter_concurrent_limit!(.., try_for_each, ..)\<close>: the bodies run in the order of a list, which a schedule permutes, and stop at the first error.
\<close>

fun try_for_each :: "('c \<Rightarrow> 'a \<Rightarrow> 'e + 'a) \<Rightarrow> 'c list \<Rightarrow> 'a \<Rightarrow> 'e + 'a" where
  "try_for_each f [] s = Inr s"
| "try_for_each f (c # cs) s = bind_res (f c s) (\<lambda>s. try_for_each f cs s)"

text \<open>
  A schedule runs every chunk once: it permutes the list of chunks, which is distinct.  A buffer has the length
  that was asked for.
\<close>

definition schedule :: "('c list \<Rightarrow> 'c list) \<Rightarrow> bool" where
  "schedule sched \<longleftrightarrow> (\<forall>cs. set (sched cs) = set cs \<and> length (sched cs) = length cs)"

definition allocates :: "(usize \<Rightarrow> bytes) \<Rightarrow> bool" where
  "allocates junk \<longleftrightarrow> (\<forall>n. length (junk n) = n)"

lemma schedule_set: "schedule sched \<Longrightarrow> set (sched cs) = set cs"
  by (simp add: schedule_def)

text \<open>An invariant on the set of chunks that are done.\<close>

lemma try_for_each_inv:
  assumes "I {} s"
    and "\<And>D c s. I D s \<Longrightarrow> c \<in> set cs \<Longrightarrow> \<exists>s'. f c s = Inr s' \<and> I (insert c D) s'"
  shows "\<exists>s'. try_for_each f cs s = Inr s' \<and> I (set cs) s'"
proof -
  have "I D s \<Longrightarrow> set ds \<subseteq> set cs \<Longrightarrow> \<exists>s'. try_for_each f ds s = Inr s' \<and> I (D \<union> set ds) s'" for ds D s
  proof (induction ds arbitrary: D s)
    case (Cons d ds)
    then obtain s' where s': "f d s = Inr s'" "I (insert d D) s'" using assms(2)[of D s d] by auto
    from Cons.IH[OF s'(2)] Cons.prems(2) show ?case using s'(1) by simp
  qed simp
  from this[OF assms(1), of cs] show ?thesis by simp
qed

end
