(* ===== verification/Endian_Codec.thy ===== *)
theory Endian_Codec
  imports Array_Codecs Concurrency
begin

text \<open>
  The \<open>bytes\<close> codec (\<open>zarrs/src/array/codec/array_to_bytes/bytes/\<close>): array bytes of fixed-size elements, written with a given
  endianness.  How a data type supports it is one of two implementations (\<open>zarrs_data_type/src/codec_traits/bytes.rs\<close>): it has
  components of one byte, and its bytes are passed through, or of \<open>n\<close> bytes, which are reversed unless the endianness
  is that of the machine, the parameter \<open>native\<close>.
\<close>

datatype endianness = BigEndian | LittleEndian

text \<open>\<open>for chunk in result.as_chunks_mut::<COMPONENT_SIZE>().0 \<lbrace> chunk.reverse() \<rbrace>\<close>\<close>

definition reverse_components :: "usize \<Rightarrow> bytes \<Rightarrow> bytes" where
  "reverse_components n b = concat (map rev (chunks_exact n b)) @ drop (length b div n * n) b"

definition bytes_type_encode :: "endianness \<Rightarrow> usize \<Rightarrow> bytes \<Rightarrow> endianness option \<Rightarrow> codec_error + bytes" where
  "bytes_type_encode native component_size b endian =
     (if component_size = 1 then Inr b
      else case endian of
          None \<Rightarrow> Inl (CodecOther ''endianness must be specified for multi-byte data types'')
        | Some e \<Rightarrow> if e = native then Inr b else Inr (reverse_components component_size b))"

definition bytes_type_decode :: "endianness \<Rightarrow> usize \<Rightarrow> bytes \<Rightarrow> endianness option \<Rightarrow> codec_error + bytes" where
  "bytes_type_decode native component_size b endian = bytes_type_encode native component_size b endian"

fun into_fixed :: "array_bytes \<Rightarrow> codec_error + bytes" where
  "into_fixed (FixedBytes b) = Inr b"
| "into_fixed _ = Inl ExpectedFixedLengthBytes"

subsection \<open>The codec\<close>

record bytes_bound =
  by_native :: endianness
  by_component_size :: usize
  by_endian :: "endianness option"
  by_data_type :: data_type
  by_fill_value :: fill_value

definition bytes_type_unsupported :: codec_error where
  "bytes_type_unsupported = CodecUnsupportedDataType [] ''bytes''"

definition bytes_encode :: "bytes_bound \<Rightarrow> array_bytes \<Rightarrow> chunk_shape \<Rightarrow> codec_error + bytes" where
  "bytes_encode B b s =
     bind_res (validate_bytes b (wprod s) (by_data_type B)) (\<lambda>_.
     bind_res (into_fixed b) (\<lambda>b. bytes_type_encode (by_native B) (by_component_size B) b (by_endian B)))"

definition bytes_decode :: "bytes_bound \<Rightarrow> bytes \<Rightarrow> chunk_shape \<Rightarrow> codec_error + array_bytes" where
  "bytes_decode B b s =
     bind_res (bytes_type_decode (by_native B) (by_component_size B) b (by_endian B)) (\<lambda>b.
     bind_res (validate_bytes (FixedBytes b) (wprod s) (by_data_type B)) (\<lambda>_. Inr (FixedBytes b)))"

definition bytes_partial_decode :: "bytes_bound \<Rightarrow> bytes_decoder \<Rightarrow> chunk_shape \<Rightarrow> array_decoder" where
  "bytes_partial_decode B input_handle s x =
     (case fixed_size (by_data_type B) of
        None \<Rightarrow> Inl bytes_type_unsupported
      | Some z \<Rightarrow>
          if ix_dimensionality x \<noteq> length s
          then Inl (IncompatibleIndexer (IndexerIncompatibleDimensionality (ix_dimensionality x) (length s)))
          else
            bind_res (byte_ranges_of x s z) (\<lambda>rs.
            bind_res (input_handle (map (\<lambda>(st, en). byte_range_new (Included st) (Excluded en)) rs)) (\<lambda>decoded.
              case decoded of
                Some decoded \<Rightarrow>
                  bind_res (bytes_type_decode (by_native B) (by_component_size B) (concat decoded) (by_endian B)) (\<lambda>b.
                    Inr (FixedBytes b))
              | None \<Rightarrow> new_fill_value (by_data_type B) (ix_len x) (by_fill_value B))))"

definition bytes_encoded_representation :: "bytes_bound \<Rightarrow> chunk_shape \<Rightarrow> codec_error + bytes_representation" where
  "bytes_encoded_representation B s =
     (case dt_size (by_data_type B) of
        SizeVariable \<Rightarrow> Inl bytes_type_unsupported
      | SizeFixed z \<Rightarrow> Inr (FixedSize (wmul (wprod s) z)))"

text \<open>\<open>RecommendedConcurrency::new_maximum(1)\<close>\<close>

definition bytes_recommended_concurrency :: "chunk_shape \<Rightarrow> codec_error + recommended_concurrency" where
  "bytes_recommended_concurrency s = Inr (recommended_new 0 1)"

definition bytes_array_codec :: "bytes_bound \<Rightarrow> array_codec" where
  "bytes_array_codec B =
     \<lparr>ab_data_type = by_data_type B,
      ab_fill_value = by_fill_value B,
      ab_encoded_representation = bytes_encoded_representation B,
      ab_recommended_concurrency = bytes_recommended_concurrency,
      ab_encode = (\<lambda>_. bytes_encode B),
      ab_decode = (\<lambda>_. bytes_decode B),
      ab_compact = default_compact,
      ab_decode_into = (\<lambda>_. default_decode_into (bytes_decode B)),
      ab_partial_decoder = (\<lambda>_ d s. Inr (bytes_partial_decode B d s))\<rparr>"

text \<open>
  \<open>with_context\<close>: \<open>component_size_of\<close> is the component size of the data types that the codec is implemented for, which
  their own crates register.
\<close>

definition bytes_with_context ::
    "endianness \<Rightarrow> (data_type \<Rightarrow> usize option) \<Rightarrow> endianness option \<Rightarrow> data_type \<Rightarrow> fill_value \<Rightarrow> codec_error + array_codec" where
  "bytes_with_context native component_size_of endian t fv =
     (if is_optional t then Inl bytes_type_unsupported
      else case component_size_of t of
          None \<Rightarrow> Inl bytes_type_unsupported
        | Some component_size \<Rightarrow>
            Inr (bytes_array_codec \<lparr>by_native = native, by_component_size = component_size, by_endian = endian,
              by_data_type = t, by_fill_value = fv\<rparr>))"

text \<open>
  \<open>partial_encode\<close> on a handle whose value is \<open>v\<close>: over a value the encoded bytes are written at the ranges of the indexer; without
  one a chunk of fill values is updated, encoded and written.
\<close>

fun scan_writes :: "bytes \<Rightarrow> range64 list \<Rightarrow> usize \<Rightarrow> codec_error + (u64 \<times> bytes) list" where
  "scan_writes b [] offset_in = Inr []"
| "scan_writes b ((st, en) # rs) offset_in =
     (let len = wsub en st in
      case slice b offset_in (wadd offset_in len) of
        None \<Rightarrow> Inl CodecPanic
      | Some x \<Rightarrow> bind_res (scan_writes b rs (wadd offset_in len)) (\<lambda>ovs. Inr ((st, x) # ovs)))"

definition bytes_partial_encode :: "bytes_bound \<Rightarrow> chunk_shape \<Rightarrow> bytes_value \<Rightarrow> indexer \<Rightarrow> array_bytes \<Rightarrow> codec_error + bytes_value" where
  "bytes_partial_encode B s v x b =
     (case fixed_size (by_data_type B) of
        None \<Rightarrow> Inl bytes_type_unsupported
      | Some z \<Rightarrow>
          if ix_dimensionality x \<noteq> length s
          then Inl (IncompatibleIndexer (IndexerIncompatibleDimensionality (ix_dimensionality x) (length s)))
          else if v \<noteq> None then
            bind_res (byte_ranges_of x s z) (\<lambda>rs.
            bind_res (into_fixed b) (\<lambda>b.
            bind_res (bytes_type_encode (by_native B) (by_component_size B) b (by_endian B)) (\<lambda>e.
            bind_res (scan_writes e rs 0) (\<lambda>ovs. mutex_partial_encode_many v ovs))))
          else
            bind_res (new_fill_value (by_data_type B) (wprod s) (by_fill_value B)) (\<lambda>chunk_bytes.
            bind_res (update_array_bytes chunk_bytes s x b (dt_size (by_data_type B))) (\<lambda>chunk_bytes.
            bind_res (case into_fixed chunk_bytes of Inl _ \<Rightarrow> Inl CodecPanic | Inr c \<Rightarrow> Inr c) (\<lambda>c.
            bind_res (bytes_type_encode (by_native B) (by_component_size B) c (by_endian B)) (\<lambda>e.
              mutex_partial_encode_many v [(0, e)])))))"

subsection \<open>Endianness\<close>

lemma chunks_exact_append_dvd:
  assumes "0 < n" and "length xs mod n = 0" and "length (ys :: bytes) mod n = 0"
  shows "chunks_exact n (xs @ ys) = chunks_exact n xs @ chunks_exact n ys"
proof -
  have "xs @ ys = concat (chunks_exact n xs @ chunks_exact n ys)"
    using assms by (simp add: concat_chunks_exact)
  then show ?thesis using chunks_concat[of n "chunks_exact n xs @ chunks_exact n ys"] assms(1) by simp
qed

lemma reverse_components_eq:
  "0 < n \<Longrightarrow> length b mod n = 0 \<Longrightarrow> reverse_components n b = concat (map rev (chunks_exact n b))"
  by (simp add: reverse_components_def) (metis div_mult_mod_eq add_0_right order_refl)

lemma length_reverse_components [simp]: "0 < n \<Longrightarrow> length b mod n = 0 \<Longrightarrow> length (reverse_components n b) = length b"
  using arg_cong[OF concat_chunks_exact[of n b], of length] by (simp add: reverse_components_eq length_concat comp_def)

lemma reverse_components_append:
  "0 < n \<Longrightarrow> length xs mod n = 0 \<Longrightarrow> length ys mod n = 0 \<Longrightarrow>
     reverse_components n (xs @ ys) = reverse_components n xs @ reverse_components n ys"
  by (simp add: reverse_components_eq chunks_exact_append_dvd mod_add_eq[of "length xs" n, symmetric])

lemma reverse_components_concat:
  assumes "0 < n" and "n dvd z"
  shows "sized z E \<Longrightarrow> reverse_components n (concat E) = concat (map (reverse_components n) E)"
proof (induction E)
  case (Cons e E)
  then have "length e mod n = 0" "length (concat E) mod n = 0"
    using assms(2) by (simp_all add: length_concat_sized[of z E] dvd_eq_mod_eq_0[symmetric])
  then show ?case using Cons reverse_components_append[OF assms(1)] by simp
qed (simp add: reverse_components_def)

lemma reverse_components_twice:
  assumes "0 < n" and "length b mod n = 0"
  shows "reverse_components n (reverse_components n b) = b"
proof -
  have "sized n (map rev (chunks_exact n b))"
    using sized_chunks[of n b] by (auto simp: sized_def list_all_iff)
  then have "chunks_exact n (reverse_components n b) = map rev (chunks_exact n b)"
    using chunks_concat assms(1) reverse_components_eq[OF assms] by simp
  moreover have "length (reverse_components n b) mod n = 0" using assms by simp
  ultimately show ?thesis
    using assms by (simp add: reverse_components_eq[of n "reverse_components n b"] concat_chunks_exact comp_def)
qed

subsection \<open>The contract for the bytes codec\<close>

text \<open>The conversion of the bytes, in either direction.\<close>

definition swap_bytes :: "bytes_bound \<Rightarrow> bytes \<Rightarrow> bytes" where
  "swap_bytes B b =
     (if by_component_size B = 1 \<or> by_endian B = Some (by_native B) then b else reverse_components (by_component_size B) b)"

definition bytes_ready :: "bytes_bound \<Rightarrow> bool" where
  "bytes_ready B \<longleftrightarrow> (case by_data_type B of
       PlainType (SizeFixed z) \<Rightarrow> 0 < z \<and> by_component_size B dvd z \<and> (by_component_size B = 1 \<or> by_endian B \<noteq> None)
     | _ \<Rightarrow> False)"

lemma bytes_ready_size:
  assumes "bytes_ready B"
  obtains z where "by_data_type B = PlainType (SizeFixed z)" and "0 < z" and "by_component_size B dvd z"
    and "0 < by_component_size B"
  using assms by (auto simp: bytes_ready_def split: data_type.splits data_type_size.splits intro: gr0I)

lemma type_encode_swap: "bytes_ready B \<Longrightarrow>
   bytes_type_encode (by_native B) (by_component_size B) b (by_endian B) = Inr (swap_bytes B b)"
  by (auto simp: bytes_ready_def bytes_type_encode_def swap_bytes_def split: data_type.splits data_type_size.splits option.splits)

lemma swap_concat:
  "0 < by_component_size B \<Longrightarrow> by_component_size B dvd z \<Longrightarrow> sized z E \<Longrightarrow>
     swap_bytes B (concat E) = concat (map (swap_bytes B) E)"
  by (simp add: swap_bytes_def reverse_components_concat[of _ z] map_idI cong: map_cong)

lemma swap_twice:
  "0 < by_component_size B \<Longrightarrow> by_component_size B dvd length b \<Longrightarrow>
     swap_bytes B (swap_bytes B b) = b \<and> length (swap_bytes B b) = length b"
  by (simp add: swap_bytes_def reverse_components_twice)

lemma sized_swap:
  "0 < by_component_size B \<Longrightarrow> by_component_size B dvd z \<Longrightarrow> sized z E \<Longrightarrow> sized z (map (swap_bytes B) E)"
  using swap_twice by (auto simp: sized_def list_all_iff)

lemma swap_elements_twice:
  "0 < by_component_size B \<Longrightarrow> by_component_size B dvd z \<Longrightarrow> sized z E \<Longrightarrow>
     map (swap_bytes B) (map (swap_bytes B) E) = E"
  using swap_twice by (auto simp: sized_def list_all_iff intro!: map_idI)

text \<open>The byte ranges of an indexer select its elements.\<close>

lemma indexed_ranges:
  assumes "covers s x" and "small_array s z" and "sized z E" and "length E = prod_list s"
  obtains rs where "byte_ranges_of x s z = Inr rs"
    and "ranges_on interval_range (prod_list s * z) (map (\<lambda>(st, en). byte_range_new (Included st) (Excluded en)) rs)"
    and "concat (map (\<lambda>r. br_selected r (concat E)) (map (\<lambda>(st, en). byte_range_new (Included st) (Excluded en)) rs)) =
      concat (map ((!) E) (ix_elements s x))"
proof -
  obtain runs where r: "byte_ranges_of x s z = Inr (map (run_range z) runs)" "runs_of (prod_list s) runs (ix_elements s x)"
    using byte_ranges_of_eq[OF assms(1,2)] by blast
  have lt: "prod_list s * z < M64" using assms(2) by (simp add: small_array_def)
  have bound: "i * z + n * z \<le> prod_list s * z" if "(i, n) \<in> set runs" for i n
    using r(2) that mult_le_mono1[of "i + n" "prod_list s" z] by (auto simp: runs_of_def add_mult_distrib)
  define br where "br = (\<lambda>(i, n). FromStart (i * z) (Some (n * z)))"
  have "byte_range_new (Included (i * z)) (Excluded (i * z + n * z)) = br (i, n)" if "(i, n) \<in> set runs" for i n
    using bound[OF that] lt by (simp add: br_def wsub_eq)
  then have rs: "map (\<lambda>(st, en). byte_range_new (Included st) (Excluded en)) (map (run_range z) runs) = map br runs"
    by (auto simp: run_range_def)
  have "ranges_on interval_range (prod_list s * z) (map br runs)"
    using bound lt by (fastforce simp: ranges_on_def list_all_iff br_def)
  moreover have "concat (map (\<lambda>r. br_selected r (concat E)) (map br runs)) = concat (map ((!) E) (ix_elements s x))"
    using concat_runs[OF r(2) assms(3) assms(4)[symmetric]] by (simp add: br_def comp_def case_prod_beta')
  ultimately show ?thesis using that[OF r(1)] unfolding rs by blast
qed

definition bytes_accepts :: "bytes_bound \<Rightarrow> chunk_shape \<Rightarrow> array_bytes \<Rightarrow> bool" where
  "bytes_accepts B s b \<longleftrightarrow> bytes_ready B \<and> shape_ok s \<and> countable_size (by_data_type B) (prod_list s) \<and>
     ab_ok (by_data_type B) (prod_list s) b"

text \<open>What the codec makes of an accepted value: the elements, with their bytes swapped.\<close>

lemma bytes_accepted:
  assumes "bytes_accepts B s b"
  obtains z E where "by_data_type B = PlainType (SizeFixed z)" and "by_component_size B dvd z" and "0 < by_component_size B"
    and "sized z E" and "length E = prod_list s" and "b = FixedBytes (concat E)" and "small_array s z"
    and "bytes_encode B b s = Inr (concat (map (swap_bytes B) E))"
    and "bytes_decode B (concat (map (swap_bytes B) E)) s = Inr b"
proof -
  obtain z where z: "by_data_type B = PlainType (SizeFixed z)" "0 < z" "by_component_size B dvd z" "0 < by_component_size B"
    using bytes_ready_size assms unfolding bytes_accepts_def by blast
  have ok: "ab_ok (PlainType (SizeFixed z)) (prod_list s) b" "countable_size (by_data_type B) (prod_list s)"
    "wprod s = prod_list s" "bytes_ready B"
    using assms z(1) by (simp_all add: bytes_accepts_def shape_ok_def wprod_eq)
  obtain d where d: "b = FixedBytes d" using ab_ok_cases(1)[OF ok(1)] by blast
  obtain E where E: "sized z E" "length E = prod_list s" "d = concat E" "prod_list s * z < M64"
    using fixed_elems[OF ok(1)[unfolded d]] by metis
  have v: "validate_bytes b (wprod s) (by_data_type B) = Inr ()"
    using validate_ok[OF ok(2), of b] ok(1,3) z(1) by simp
  note sw = swap_concat[OF z(4,3)]
  have e: "bytes_encode B b s = Inr (concat (map (swap_bytes B) E))"
    using v sw[OF E(1)] E(3) by (simp add: bytes_encode_def d type_encode_swap[OF ok(4)])
  have "swap_bytes B (concat (map (swap_bytes B) E)) = concat E"
    using sw[OF sized_swap[OF z(4,3) E(1)]] swap_elements_twice[OF z(4,3) E(1)] by simp
  then have "bytes_decode B (concat (map (swap_bytes B) E)) s = Inr b"
    using v E(3) by (simp add: bytes_decode_def bytes_type_decode_def d type_encode_swap[OF ok(4)])
  then show ?thesis using that[OF z(1,3,4) E(1,2) _ _ e] d E(3,4) z(2) by (simp add: small_array_def)
qed

lemma bytes_partial_reads:
  assumes "bytes_accepts B s b" and "bytes_encode B b s = Inr e" and "reads_on interval_range d e" and "indexes s x"
  shows "\<exists>b'. bytes_partial_decode B d s x = Inr b' \<and> ab_ok (by_data_type B) (length (ix_elements s x)) b' \<and>
    vals (by_data_type B) b' = map ((!) (vals (by_data_type B) b)) (ix_elements s x)"
proof -
  obtain z E where E: "by_data_type B = PlainType (SizeFixed z)" "sized z E" "length E = prod_list s" "small_array s z"
      "by_component_size B dvd z" "0 < by_component_size B" "b = FixedBytes (concat E)"
      "Inr (concat (map (swap_bytes B) E)) = bytes_encode B b s"
    by (rule bytes_accepted[OF assms(1)]) simp
  have e: "e = concat (map (swap_bytes B) E)" using E(8) assms(2) by simp
  have r: "bytes_ready B" using assms(1) by (simp add: bytes_accepts_def)
  define F where "F = map (swap_bytes B) E"
  have F: "sized z F" "length F = prod_list s" using sized_swap[OF E(6,5,2)] E(3) by (simp_all add: F_def)
  have x: "covers s x" "ix_dimensionality x = length s" "\<forall>i \<in> set (ix_elements s x). i < length E"
    using assms(4) ix_elements_less[of s x] E(3) by (auto simp: indexes_def)
  obtain rs where rs: "byte_ranges_of x s z = Inr rs"
      "ranges_on interval_range (prod_list s * z) (map (\<lambda>(st, en). byte_range_new (Included st) (Excluded en)) rs)"
      "concat (map (\<lambda>r. br_selected r (concat F)) (map (\<lambda>(st, en). byte_range_new (Included st) (Excluded en)) rs)) =
         concat (map ((!) F) (ix_elements s x))"
    using indexed_ranges[OF x(1) E(4) F] by blast
  have "length e = prod_list s * z" using F by (simp add: e F_def[symmetric] length_concat_sized)
  then have rd: "d (map (\<lambda>(st, en). byte_range_new (Included st) (Excluded en)) rs) =
      Inr (Some (map (\<lambda>r. br_selected r (concat F)) (map (\<lambda>(st, en). byte_range_new (Included st) (Excluded en)) rs)))"
    using assms(3) rs(2) by (simp add: reads_on_def e F_def)
  have sel: "map ((!) F) (ix_elements s x) = map (swap_bytes B) (map ((!) E) (ix_elements s x))"
    using x(3) by (simp add: F_def)
  have sE: "sized z (map ((!) E) (ix_elements s x))"
    using E(2) x(3) by (auto simp: sized_def list_all_iff)
  have "swap_bytes B (concat (map ((!) F) (ix_elements s x))) = concat (map ((!) E) (ix_elements s x))"
    unfolding sel swap_concat[OF E(6,5) sized_swap[OF E(6,5) sE]] swap_elements_twice[OF E(6,5) sE] ..
  then have "bytes_partial_decode B d s x = Inr (FixedBytes (concat (map ((!) E) (ix_elements s x))))"
    using rs(1,3) rd x(2) by (simp add: bytes_partial_decode_def E(1) fixed_size_def bytes_type_decode_def type_encode_swap[OF r])
  moreover have "length (map ((!) E) (ix_elements s x)) * z < M64"
    using mult_less_M64[OF indexed_count(1)[OF assms(4)]] assms(1) E(4) by (simp add: bytes_accepts_def small_array_def)
  moreover have "vals (by_data_type B) b = map norm (map Raw E)"
    using ab_ok_concat(2)[OF E(2)] E(3,4) unfolding E(1,7) vals_def by (simp add: small_array_def)
  ultimately show ?thesis
    using ab_ok_concat[OF sE] E(4) x(3)
    by (simp add: E(1) vals_def small_array_def del: elems.simps ab_ok.simps)
qed

lemma bytes_partial_absent:
  assumes "bytes_accepts B s b" and "bytes_encode B b s = Inr e" and "absent_on interval_range d (length e)" and "indexes s x"
    and "fill_ready (by_data_type B) (by_fill_value B) s"
  shows "\<exists>b'. bytes_partial_decode B d s x = Inr b' \<and> ab_ok (by_data_type B) (length (ix_elements s x)) b' \<and>
    vals (by_data_type B) b' = replicate (length (ix_elements s x)) (fill_val (by_data_type B) (by_fill_value B))"
proof -
  obtain z E where E: "by_data_type B = PlainType (SizeFixed z)" "sized z E" "length E = prod_list s" "small_array s z"
      "by_component_size B dvd z" "0 < by_component_size B"
      "Inr (concat (map (swap_bytes B) E)) = bytes_encode B b s"
    by (rule bytes_accepted[OF assms(1)]) simp
  have e: "e = concat (map (swap_bytes B) E)" using E(7) assms(2) by simp
  have x: "covers s x" "ix_dimensionality x = length s" using assms(4) by (simp_all add: indexes_def)
  obtain rs where rs: "byte_ranges_of x s z = Inr rs"
      "ranges_on interval_range (prod_list s * z) (map (\<lambda>(st, en). byte_range_new (Included st) (Excluded en)) rs)"
      "concat (map (\<lambda>r. br_selected r (concat E)) (map (\<lambda>(st, en). byte_range_new (Included st) (Excluded en)) rs)) =
         concat (map ((!) E) (ix_elements s x))"
    using indexed_ranges[OF x(1) E(4,2,3)] by blast
  have sw: "length e = prod_list s * z"
    using sized_swap[OF E(6,5,2)] E(3) by (simp add: e length_concat_sized)
  have s: "shape_ok s" using assms(1) by (simp add: bytes_accepts_def)
  note c = indexed_count[OF assms(4) s]
  obtain b' where b': "new_fill_value (by_data_type B) (ix_len x) (by_fill_value B) = Inr b'"
      "ab_ok (by_data_type B) (length (ix_elements s x)) b'"
      "vals (by_data_type B) b' = replicate (length (ix_elements s x)) (fill_val (by_data_type B) (by_fill_value B))"
    using fill_indexed[OF s _ _ _ assms(4), of "by_data_type B" "by_fill_value B"] assms(5) by (auto simp: fill_ready_def)
  consider "d (map (\<lambda>(st, en). byte_range_new (Included st) (Excluded en)) rs) = Inr None"
    | "rs = []" "d [] = Inr (Some [])"
    using assms(3) rs(2) unfolding absent_on_def sw by (metis list.map_disc_iff)
  then show ?thesis
  proof cases
    case 1
    then show ?thesis
      using rs(1) x(2) b' by (simp add: bytes_partial_decode_def E(1) fixed_size_def)
  next
    case 2
    then have "concat (map ((!) E) (ix_elements s x)) = []" using rs(3) by (metis concat.simps(1) list.simps(8))
    moreover have "\<forall>i \<in> set (ix_elements s x). i < length E" using ix_elements_less[OF x(1)] E(3) by simp
    ultimately have "length (ix_elements s x) * z = 0"
      using concat_select_length[OF E(2), of "ix_elements s x"] by (metis list.size(3))
    then have "ix_elements s x = []" using E(4) by (simp add: small_array_def)
    moreover have "swap_bytes B [] = []" using swap_concat[OF E(6,5), of "[]"] by simp
    moreover have "bytes_ready B" using assms(1) by (simp add: bytes_accepts_def)
    ultimately show ?thesis
      using rs(1) x(2) 2 E(1,4)
      by (simp add: bytes_partial_decode_def fixed_size_def bytes_type_decode_def type_encode_swap
          vals_def small_array_def)
  qed
qed

interpretation bytes: array_to_bytes_codec "bytes_array_codec B" "by_data_type B" "by_fill_value B" "bytes_accepts B"
  interval_range AnyIndexer for B
proof (unfold_locales, goal_cases)
  case (1 s b)
  then obtain z where "by_data_type B = PlainType (SizeFixed z)" by (rule bytes_accepted[OF _ that]) 
  then show ?case
    using 1 by (simp add: bytes_accepts_def bytes_array_codec_def bytes_recommended_concurrency_def bytes_encoded_representation_def)
next
  case (2 s b opt)
  then obtain z E where E: "sized z E" "length E = prod_list s" "small_array s z" "by_component_size B dvd z"
      "0 < by_component_size B" "bytes_encode B b s = Inr (concat (map (swap_bytes B) E))"
      "bytes_decode B (concat (map (swap_bytes B) E)) s = Inr b"
    by (auto simp: bytes_array_codec_def elim: bytes_accepted)
  have "length (concat (map (swap_bytes B) E)) < M64"
    using length_concat_sized[OF sized_swap[OF E(5,4,1)]] E(2,3) by (simp add: small_array_def)
  then show ?case using E(6,7) 2 by (auto simp: bytes_array_codec_def)
next
  case (3 s b opt e a q T opt')
  then obtain z where z: "bytes_decode B e s = Inr b"
    by (auto simp: bytes_array_codec_def elim: bytes_accepted)
  have "ab_ok (by_data_type B) (prod_list s) b" using 3(1) by (simp add: bytes_accepts_def)
  from default_into_vals[OF 3(3,4) this] z show ?case by (simp add: bytes_array_codec_def)
next
  case (4 s b opt e d opt')
  then show ?case
    using bytes_partial_reads[of B s b e d] by (simp add: bytes_array_codec_def reads_array_def)
next
  case (5 s b opt e d opt')
  then show ?case
    using bytes_partial_absent[of B s b e d] by (simp add: bytes_array_codec_def reads_array_def fill_vals_indexed)
qed

end
