(* ===== verification/Codec_Chain.thy ===== *)
theory Codec_Chain
  imports Endian_Codec Concurrency
begin

text \<open>
  Codec chains (\<open>zarrs/src/array/codec/array_to_bytes/codec_chain.rs\<close>): array-to-array codecs, an array-to-bytes codec
  and bytes-to-bytes codecs, with the caches that the partial decoder of a chain inserts
  (\<open>codec/bytes_partial_decoder_cache.rs\<close>, \<open>codec/array_partial_decoder_cache.rs\<close>).  The array-to-array codec trait
  (\<open>zarrs_codec/src/codec_traits/array_to_array.rs\<close>) is the record \<open>array_array_codec\<close> of its methods.  Subchunk grids are not
  modelled, nor is an error of the query of the local subchunk grids that creates an array cache.
\<close>

record array_array_codec =
  aa_data_type :: data_type
  aa_fill_value :: fill_value
  aa_encoded_data_type :: data_type
  aa_encoded_fill_value :: fill_value
  aa_encoded_shape :: "chunk_shape \<Rightarrow> codec_error + chunk_shape"
  aa_recommended_concurrency :: "chunk_shape \<Rightarrow> codec_error + recommended_concurrency"
  aa_encode :: "codec_options \<Rightarrow> array_bytes \<Rightarrow> chunk_shape \<Rightarrow> codec_error + array_bytes"
  aa_decode :: "codec_options \<Rightarrow> array_bytes \<Rightarrow> chunk_shape \<Rightarrow> codec_error + array_bytes"
  aa_partial_decoder :: "codec_options \<Rightarrow> array_decoder \<Rightarrow> chunk_shape \<Rightarrow> codec_error + array_decoder"

definition default_encoded_shape :: "chunk_shape \<Rightarrow> codec_error + chunk_shape" where
  "default_encoded_shape decoded_shape = Inr decoded_shape"

text \<open>Codecs that are not bound to a data type: how they are bound, and what they can do.\<close>

record unbound_array_array =
  ua_with_context :: "data_type \<Rightarrow> fill_value \<Rightarrow> codec_error + array_array_codec"
  ua_capability :: partial_decoder_capability

record unbound_array_bytes =
  ub_with_context :: "data_type \<Rightarrow> fill_value \<Rightarrow> codec_error + array_codec"
  ub_capability :: partial_decoder_capability

record codec_chain =
  cc_array_to_array :: "unbound_array_array list"
  cc_array_to_bytes :: unbound_array_bytes
  cc_bytes_to_bytes :: "bytes_codec list"

record codec_chain_bound =
  cb_array_to_array :: "array_array_codec list"
  cb_array_to_bytes :: array_codec
  cb_bytes_to_bytes :: "bytes_codec list"
  cb_cache_index :: "usize option"

subsection \<open>Binding a chain\<close>

fun bind_arrays ::
    "unbound_array_array list \<Rightarrow> data_type \<Rightarrow> fill_value \<Rightarrow>
     codec_error + (array_array_codec list \<times> data_type \<times> fill_value)" where
  "bind_arrays [] t fv = Inr ([], t, fv)"
| "bind_arrays (u # us) t fv =
     bind_res (ua_with_context u t fv) (\<lambda>bound.
     bind_res (bind_arrays us (aa_encoded_data_type bound) (aa_encoded_fill_value bound)) (\<lambda>(As, t', fv').
       Inr (bound # As, t', fv')))"

text \<open>The loops over the capabilities, in the order of decoding: the state is (must, should, index).\<close>

fun cache_positions ::
    "partial_decoder_capability list \<Rightarrow> usize option \<times> usize option \<times> usize \<Rightarrow> usize option \<times> usize option \<times> usize" where
  "cache_positions [] st = st"
| "cache_positions (c # cs) (must, should, codec_index) =
     cache_positions cs
       (if can_partial_decode c then must else Some (codec_index + 1),
        if can_partial_read c then should else Some codec_index,
        codec_index + 1)"

definition cache_index_of :: "codec_chain \<Rightarrow> usize option" where
  "cache_index_of K =
     (case cache_positions
         (map bb_capability (rev (cc_bytes_to_bytes K)) @ [ub_capability (cc_array_to_bytes K)] @
          map ua_capability (rev (cc_array_to_array K))) (None, None, 0)
      of (must, should, _) \<Rightarrow>
        (case (must, should) of
           (Some m, Some s) \<Rightarrow> Some (max m s)
         | (Some m, None) \<Rightarrow> Some m
         | (None, Some s) \<Rightarrow> Some s
         | (None, None) \<Rightarrow> None))"

definition chain_with_context :: "codec_chain \<Rightarrow> data_type \<Rightarrow> fill_value \<Rightarrow> codec_error + codec_chain_bound" where
  "chain_with_context K t fv =
     bind_res (bind_arrays (cc_array_to_array K) t fv) (\<lambda>(As, t', fv').
     bind_res (ub_with_context (cc_array_to_bytes K) t' fv') (\<lambda>C.
       Inr \<lparr>cb_array_to_array = As, cb_array_to_bytes = C, cb_bytes_to_bytes = cc_bytes_to_bytes K,
            cb_cache_index = cache_index_of K\<rparr>))"

subsection \<open>Representations\<close>

definition chain_data_type :: "codec_chain_bound \<Rightarrow> data_type" where
  "chain_data_type K = (case cb_array_to_array K of [] \<Rightarrow> ab_data_type (cb_array_to_bytes K) | A # _ \<Rightarrow> aa_data_type A)"

definition chain_fill_value :: "codec_chain_bound \<Rightarrow> fill_value" where
  "chain_fill_value K = (case cb_array_to_array K of [] \<Rightarrow> ab_fill_value (cb_array_to_bytes K) | A # _ \<Rightarrow> aa_fill_value A)"

type_synonym array_representation = "chunk_shape \<times> data_type \<times> fill_value"

fun array_representations_from ::
    "array_array_codec list \<Rightarrow> array_representation \<Rightarrow> codec_error + array_representation list" where
  "array_representations_from [] r = Inr [r]"
| "array_representations_from (A # As) (s, t, fv) =
     bind_res (aa_encoded_shape A s) (\<lambda>s'.
     bind_res (array_representations_from As (s', aa_encoded_data_type A, aa_encoded_fill_value A)) (\<lambda>rs.
       Inr ((s, t, fv) # rs)))"

definition get_array_representations :: "codec_chain_bound \<Rightarrow> chunk_shape \<Rightarrow> codec_error + array_representation list" where
  "get_array_representations K s =
     array_representations_from (cb_array_to_array K) (s, chain_data_type K, chain_fill_value K)"

fun bytes_representations_from :: "bytes_codec list \<Rightarrow> bytes_representation \<Rightarrow> bytes_representation list" where
  "bytes_representations_from [] r = [r]"
| "bytes_representations_from (C # Cs) r = r # bytes_representations_from Cs (bb_encoded_representation C r)"

definition get_bytes_representations :: "codec_chain_bound \<Rightarrow> chunk_shape \<Rightarrow> codec_error + bytes_representation list" where
  "get_bytes_representations K s =
     bind_res (ab_encoded_representation (cb_array_to_bytes K) s) (\<lambda>r.
       Inr (bytes_representations_from (cb_bytes_to_bytes K) r))"

definition get_representations ::
    "codec_chain_bound \<Rightarrow> chunk_shape \<Rightarrow> codec_error + (array_representation list \<times> bytes_representation list)" where
  "get_representations K s =
     bind_res (get_array_representations K s) (\<lambda>ars.
     bind_res (get_bytes_representations K (fst (last ars))) (\<lambda>brs. Inr (ars, brs)))"

definition chain_encoded_representation :: "codec_chain_bound \<Rightarrow> chunk_shape \<Rightarrow> codec_error + bytes_representation" where
  "chain_encoded_representation K s =
     bind_res (get_array_representations K s) (\<lambda>ars.
     bind_res (ab_encoded_representation (cb_array_to_bytes K) (fst (last ars))) (\<lambda>r.
       Inr (foldl (\<lambda>r C. bb_encoded_representation C r) r (cb_bytes_to_bytes K))))"

subsection \<open>Encoding and decoding\<close>

fun encode_arrays ::
    "codec_options \<Rightarrow> array_array_codec list \<Rightarrow> array_bytes \<Rightarrow> chunk_shape \<Rightarrow> codec_error + (array_bytes \<times> chunk_shape)" where
  "encode_arrays opt [] b s = Inr (b, s)"
| "encode_arrays opt (A # As) b s =
     bind_res (aa_encode A opt b s) (\<lambda>b.
     bind_res (aa_encoded_shape A s) (\<lambda>s. encode_arrays opt As b s))"

fun encode_bytes :: "bytes_codec list \<Rightarrow> bytes \<Rightarrow> codec_error + bytes" where
  "encode_bytes [] b = Inr b"
| "encode_bytes (C # Cs) b = bind_res (bb_encode C b) (encode_bytes Cs)"

definition chain_encode :: "codec_chain_bound \<Rightarrow> codec_options \<Rightarrow> array_bytes \<Rightarrow> chunk_shape \<Rightarrow> codec_error + bytes" where
  "chain_encode K opt b s =
     bind_res (validate_bytes b (wprod s) (chain_data_type K)) (\<lambda>_.
     bind_res (encode_arrays opt (cb_array_to_array K) b s) (\<lambda>(b, s).
     bind_res (ab_encode (cb_array_to_bytes K) opt b s) (\<lambda>e.
     bind_res (ab_encoded_representation (cb_array_to_bytes K) s) (\<lambda>_.
       encode_bytes (cb_bytes_to_bytes K) e))))"

text \<open>The pairs of a codec and the representation it decodes to, in the order of decoding.\<close>

definition bytes_stages :: "codec_chain_bound \<Rightarrow> bytes_representation list \<Rightarrow> (bytes_codec \<times> bytes_representation) list" where
  "bytes_stages K brs = zip (rev (cb_bytes_to_bytes K)) (drop 1 (rev brs))"

definition array_stages ::
    "codec_chain_bound \<Rightarrow> array_representation list \<Rightarrow> (array_array_codec \<times> array_representation) list" where
  "array_stages K ars = zip (rev (cb_array_to_array K)) (drop 1 (rev ars))"

fun decode_bytes :: "codec_options \<Rightarrow> (bytes_codec \<times> bytes_representation) list \<Rightarrow> bytes \<Rightarrow> codec_error + bytes" where
  "decode_bytes opt [] b = Inr b"
| "decode_bytes opt ((C, r) # ps) b = bind_res (bb_decode C (validate_checksums opt) r b) (decode_bytes opt ps)"

fun decode_arrays ::
    "codec_options \<Rightarrow> (array_array_codec \<times> array_representation) list \<Rightarrow> array_bytes \<Rightarrow> codec_error + array_bytes" where
  "decode_arrays opt [] b = Inr b"
| "decode_arrays opt ((A, s, _) # ps) b = bind_res (aa_decode A opt b s) (decode_arrays opt ps)"

definition chain_decode :: "codec_chain_bound \<Rightarrow> codec_options \<Rightarrow> bytes \<Rightarrow> chunk_shape \<Rightarrow> codec_error + array_bytes" where
  "chain_decode K opt e s =
     bind_res (get_representations K s) (\<lambda>(ars, brs).
     bind_res (decode_bytes opt (bytes_stages K brs) e) (\<lambda>e.
     bind_res (ab_decode (cb_array_to_bytes K) opt e (fst (last ars))) (\<lambda>b.
     bind_res (decode_arrays opt (array_stages K ars) b) (\<lambda>b.
     bind_res (validate_bytes b (wprod (fst (hd ars))) (fst (snd (hd ars)))) (\<lambda>_. Inr b)))))"

definition chain_decode_into ::
    "codec_chain_bound \<Rightarrow> codec_options \<Rightarrow> bytes \<Rightarrow> chunk_shape \<Rightarrow> decode_target \<Rightarrow> codec_error + decode_target" where
  "chain_decode_into K opt e s target =
     bind_res (get_representations K s) (\<lambda>(ars, brs).
       if cb_bytes_to_bytes K = [] \<and> cb_array_to_array K = []
       then ab_decode_into (cb_array_to_bytes K) opt e (fst (last ars)) target
       else
         bind_res (decode_bytes opt (bytes_stages K brs) e) (\<lambda>e.
           if cb_array_to_array K = []
           then ab_decode_into (cb_array_to_bytes K) opt e (fst (last ars)) target
           else
             bind_res (ab_decode (cb_array_to_bytes K) opt e (fst (last ars))) (\<lambda>b.
             bind_res (decode_arrays opt (array_stages K ars) b) (\<lambda>b.
             bind_res (validate_bytes b (wprod (fst (hd ars))) (fst (snd (hd ars)))) (\<lambda>_.
               decode_into_target b target)))))"

definition chain_compact :: "codec_chain_bound \<Rightarrow> codec_options \<Rightarrow> bytes \<Rightarrow> chunk_shape \<Rightarrow> codec_error + bytes option" where
  "chain_compact K opt e s =
     bind_res (get_representations K s) (\<lambda>(ars, brs).
     bind_res (decode_bytes opt (bytes_stages K brs) e) (\<lambda>e.
     bind_res (ab_compact (cb_array_to_bytes K) opt e (fst (last ars))) (\<lambda>compacted.
       case compacted of
         None \<Rightarrow> Inr None
       | Some e \<Rightarrow> bind_res (encode_bytes (cb_bytes_to_bytes K) e) (\<lambda>e. Inr (Some e)))))"

subsection \<open>Partial decoding\<close>

definition bytes_cache_new :: "bytes_decoder \<Rightarrow> codec_error + bytes option" where
  "bytes_cache_new d = partial_decode d (FromStart 0 None)"

definition bytes_cache_decoder :: "bytes option \<Rightarrow> bytes_decoder" where
  "bytes_cache_decoder cache rs = (case cache of Some b \<Rightarrow> extract_ranges b rs | None \<Rightarrow> Inr None)"

definition array_cache_new :: "array_decoder \<Rightarrow> chunk_shape \<Rightarrow> codec_error + array_bytes" where
  "array_cache_new d s = d (SubsetIndexer (new_with_shape s))"

definition array_cache_decoder :: "array_bytes \<Rightarrow> chunk_shape \<Rightarrow> data_type \<Rightarrow> array_decoder" where
  "array_cache_decoder cache s t x = extract_array_subset cache x s t"

text \<open>A handle behind a cache, when the position is the one of the cache.\<close>

definition with_bytes_cache :: "bool \<Rightarrow> bytes_decoder \<Rightarrow> codec_error + bytes_decoder" where
  "with_bytes_cache here d =
     (if here then bind_res (bytes_cache_new d) (\<lambda>cache. Inr (bytes_cache_decoder cache)) else Inr d)"

definition with_array_cache :: "bool \<Rightarrow> array_decoder \<Rightarrow> chunk_shape \<Rightarrow> data_type \<Rightarrow> codec_error + array_decoder" where
  "with_array_cache here d s t =
     (if here then bind_res (array_cache_new d s) (\<lambda>cache. Inr (array_cache_decoder cache s t)) else Inr d)"

fun partial_bytes ::
    "usize option \<Rightarrow> codec_options \<Rightarrow> (bytes_codec \<times> bytes_representation) list \<Rightarrow> usize \<Rightarrow> bytes_decoder \<Rightarrow>
     codec_error + (bytes_decoder \<times> usize)" where
  "partial_bytes cache_index opt [] codec_index d = Inr (d, codec_index)"
| "partial_bytes cache_index opt ((C, r) # ps) codec_index d =
     bind_res (with_bytes_cache (Some codec_index = cache_index) d) (\<lambda>d.
       partial_bytes cache_index opt ps (codec_index + 1) (bb_partial_decoder C (validate_checksums opt) r d))"

fun partial_arrays ::
    "usize option \<Rightarrow> codec_options \<Rightarrow> (array_array_codec \<times> array_representation) list \<Rightarrow> usize \<Rightarrow> array_decoder \<Rightarrow>
     codec_error + (array_decoder \<times> usize)" where
  "partial_arrays cache_index opt [] codec_index d = Inr (d, codec_index)"
| "partial_arrays cache_index opt ((A, s, t, _) # ps) codec_index d =
     bind_res (with_array_cache (Some codec_index = cache_index) d s t) (\<lambda>d.
     bind_res (aa_partial_decoder A opt d s) (\<lambda>d.
       partial_arrays cache_index opt ps (codec_index + 1) d))"

definition chain_partial_decoder ::
    "codec_chain_bound \<Rightarrow> codec_options \<Rightarrow> bytes_decoder \<Rightarrow> chunk_shape \<Rightarrow> codec_error + array_decoder" where
  "chain_partial_decoder K opt d s =
     bind_res (get_representations K s) (\<lambda>(ars, brs).
     bind_res (partial_bytes (cb_cache_index K) opt (bytes_stages K brs) 0 d) (\<lambda>(d, codec_index).
     bind_res (with_bytes_cache (Some codec_index = cb_cache_index K) d) (\<lambda>d.
     bind_res (ab_partial_decoder (cb_array_to_bytes K) opt d (fst (last ars))) (\<lambda>d.
     bind_res (partial_arrays (cb_cache_index K) opt (array_stages K ars) (codec_index + 1) d) (\<lambda>(d, codec_index).
       with_array_cache (Some codec_index = cb_cache_index K) d (fst (hd ars)) (fst (snd (hd ars))))))))"

subsection \<open>Recommended concurrency\<close>

fun collect_concurrency :: "(codec_error + recommended_concurrency) list \<Rightarrow> usize \<times> usize \<Rightarrow> codec_error + (usize \<times> usize)" where
  "collect_concurrency [] st = Inr st"
| "collect_concurrency (rc # rcs) (concurrency_min, concurrency_max) =
     bind_res rc (\<lambda>rc. collect_concurrency rcs (min concurrency_min (fst rc), max concurrency_max (snd rc)))"

definition chain_recommended_concurrency :: "codec_chain_bound \<Rightarrow> chunk_shape \<Rightarrow> codec_error + recommended_concurrency" where
  "chain_recommended_concurrency K s =
     bind_res (get_array_representations K s) (\<lambda>ars.
     bind_res (get_bytes_representations K (fst (last ars))) (\<lambda>brs.
     bind_res (collect_concurrency
         (map (\<lambda>(C, r). bb_recommended_concurrency C r) (bytes_stages K brs) @
          [ab_recommended_concurrency (cb_array_to_bytes K) (fst (last ars))] @
          map (\<lambda>(A, s, _). aa_recommended_concurrency A s) (array_stages K ars)) (M64 - 1, 0))
       (\<lambda>(concurrency_min, concurrency_max).
         Inr (recommended_new (min concurrency_min concurrency_max) concurrency_max))))"

definition chain_array_codec :: "codec_chain_bound \<Rightarrow> array_codec" where
  "chain_array_codec K =
     \<lparr>ab_data_type = chain_data_type K, ab_fill_value = chain_fill_value K,
      ab_encoded_representation = chain_encoded_representation K,
      ab_recommended_concurrency = chain_recommended_concurrency K,
      ab_encode = chain_encode K, ab_decode = chain_decode K, ab_compact = chain_compact K,
      ab_decode_into = chain_decode_into K, ab_partial_decoder = chain_partial_decoder K\<rparr>"

end
