(* ===== verification/Chunk_Merge.thy ===== *)
theory Chunk_Merge
  imports Array_Codecs
begin

text \<open>
  The internal utilities of the array code for array bytes (\<open>zarrs/src/array/array_bytes_internal.rs\<close>): targets
  of a decoding with nested masks, and merging variable-length chunks into one array.  A view of a target
  comes with the buffer it writes to.
\<close>

fun optional_nesting_depth :: "data_type \<Rightarrow> usize" where
  "optional_nesting_depth t = (case t of OptionalType inner \<Rightarrow> 1 + optional_nesting_depth inner | PlainType _ \<Rightarrow> 0)"

declare optional_nesting_depth.simps [simp del]

lemma optional_nesting_depth_simps [simp]:
  "optional_nesting_depth (PlainType z) = 0"
  "optional_nesting_depth (OptionalType t) = Suc (optional_nesting_depth t)"
  by (simp_all add: optional_nesting_depth.simps)

type_synonym buffered_view = "disjoint_view \<times> bytes"

fun build_nested_optional_target :: "buffered_view \<Rightarrow> buffered_view list \<Rightarrow> decode_target" where
  "build_nested_optional_target (v, b) [] = FixedTarget v b"
| "build_nested_optional_target d ((v, b) # mask_views) = OptionalTarget (build_nested_optional_target d mask_views) v b"

fun extract_target_views :: "decode_target \<Rightarrow> buffered_view \<times> buffered_view list" where
  "extract_target_views (FixedTarget v b) = ((v, b), [])"
| "extract_target_views (OptionalTarget inner v b) =
     (case extract_target_views inner of (data_view, mask_views) \<Rightarrow> (data_view, (v, b) # mask_views))"

lemma extract_build [simp]: "extract_target_views (build_nested_optional_target d ms) = (d, ms)"
  by (induction d ms rule: build_nested_optional_target.induct) simp_all

lemma build_extract [simp]:
  "build_nested_optional_target (fst (extract_target_views t)) (snd (extract_target_views t)) = t"
  by (induction t) (simp_all add: case_prod_beta)

subsection \<open>Variable-length chunks\<close>

text \<open>
  \<open>indices.iter().zip_eq(chunk_offsets.iter().tuple_windows())\<close>: the linear index and the two offsets of every
  element of a chunk; \<open>zip_eq\<close> panics when the lengths differ.
\<close>

definition chunk_windows :: "usize list \<Rightarrow> array_subset \<Rightarrow> array_shape \<Rightarrow> codec_error + (nat \<times> usize \<times> usize) list" where
  "chunk_windows offsets s a =
     (case linearised_new s a of
        Inl _ \<Rightarrow> Inl CodecPanic
      | Inr l \<Rightarrow>
          (case linearised_collect l of
             None \<Rightarrow> Inl CodecPanic
           | Some indices \<Rightarrow>
               if length indices = length offsets - 1 then Inr (zip indices (zip offsets (tl offsets)))
               else Inl CodecPanic))"

fun set_sizes :: "(nat \<times> usize \<times> usize) list \<Rightarrow> usize list \<Rightarrow> codec_error + usize list" where
  "set_sizes [] element_sizes = Inr element_sizes"
| "set_sizes ((i, cur, next) # ws) element_sizes =
     (if i < length element_sizes then set_sizes ws (element_sizes[i := wsub next cur]) else Inl CodecPanic)"

type_synonym vlen_chunk = "(bytes \<times> usize list) \<times> array_subset"

fun merge_sizes :: "vlen_chunk list \<Rightarrow> array_shape \<Rightarrow> usize list \<Rightarrow> codec_error + usize list" where
  "merge_sizes [] a element_sizes = Inr element_sizes"
| "merge_sizes (((_, offsets), s) # chunks) a element_sizes =
     bind_res (chunk_windows offsets s a) (\<lambda>ws.
     bind_res (set_sizes ws element_sizes) (\<lambda>element_sizes. merge_sizes chunks a element_sizes))"

fun cumulative :: "usize \<Rightarrow> usize list \<Rightarrow> usize list" where
  "cumulative acc [] = []"
| "cumulative acc (sz # szs) = wadd acc sz # cumulative (wadd acc sz) szs"

fun copy_items :: "bytes \<Rightarrow> usize list \<Rightarrow> (nat \<times> usize \<times> usize) list \<Rightarrow> bytes \<Rightarrow> codec_error + bytes" where
  "copy_items chunk_bytes offsets [] b = Inr b"
| "copy_items chunk_bytes offsets ((i, chunk_curr, chunk_next) # ws) b =
     (if i + 1 < length offsets then
        let subset_curr = offsets ! i; subset_next = offsets ! (i + 1) in
        (case slice chunk_bytes chunk_curr chunk_next of
           None \<Rightarrow> Inl CodecPanic
         | Some data \<Rightarrow>
             if subset_curr \<le> subset_next \<and> subset_next \<le> length b \<and> length data = subset_next - subset_curr
             then bind_res (write_at b subset_curr data) (\<lambda>b. copy_items chunk_bytes offsets ws b)
             else Inl CodecPanic)
      else Inl CodecPanic)"

fun merge_items :: "vlen_chunk list \<Rightarrow> array_shape \<Rightarrow> usize list \<Rightarrow> bytes \<Rightarrow> codec_error + bytes" where
  "merge_items [] a offsets b = Inr b"
| "merge_items (((chunk_bytes, chunk_offsets), s) # chunks) a offsets b =
     bind_res (chunk_windows chunk_offsets s a) (\<lambda>ws.
     bind_res (copy_items chunk_bytes offsets ws b) (\<lambda>b. merge_items chunks a offsets b))"

definition merge_chunks_vlen :: "vlen_chunk list \<Rightarrow> array_shape \<Rightarrow> codec_error + (bytes \<times> usize list)" where
  "merge_chunks_vlen chunks a =
     bind_res (merge_sizes chunks a (replicate (wprod a) 0)) (\<lambda>element_sizes.
       let offsets = 0 # cumulative 0 element_sizes in
       bind_res (merge_items chunks a offsets (replicate (last offsets) 0)) (\<lambda>b. Inr (b, offsets)))"

subsection \<open>Optional variable-length chunks\<close>

text \<open>Unwrapping \<open>nesting_depth\<close> masks, outermost first.\<close>

fun unwrap_masks :: "nat \<Rightarrow> array_bytes \<Rightarrow> codec_error + (bytes list \<times> array_bytes)" where
  "unwrap_masks 0 b = Inr ([], b)"
| "unwrap_masks (Suc n) (OptionalBytes d m) = bind_res (unwrap_masks n d) (\<lambda>(ms, b). Inr (m # ms, b))"
| "unwrap_masks (Suc n) _ = Inl ExpectedOptionalBytes"

text \<open>\<open>merged_masks[level][array_idx] = chunk_mask[chunk_idx]\<close>\<close>

fun copy_mask :: "nat list \<Rightarrow> bytes \<Rightarrow> nat \<Rightarrow> bytes \<Rightarrow> codec_error + bytes" where
  "copy_mask [] chunk_mask k merged = Inr merged"
| "copy_mask (i # indices) chunk_mask k merged =
     (if k < length chunk_mask \<and> i < length merged then copy_mask indices chunk_mask (k + 1) (merged[i := chunk_mask ! k])
      else Inl CodecPanic)"

fun copy_masks :: "nat list \<Rightarrow> bytes list \<Rightarrow> bytes list \<Rightarrow> codec_error + bytes list" where
  "copy_masks indices (cm # cms) (m # ms) =
     bind_res (copy_mask indices cm 0 m) (\<lambda>m. bind_res (copy_masks indices cms ms) (\<lambda>ms. Inr (m # ms)))"
| "copy_masks indices _ ms = Inr ms"

fun into_variable :: "array_bytes \<Rightarrow> codec_error + (bytes \<times> usize list)" where
  "into_variable (VariableBytes b os) = Inr (b, os)"
| "into_variable _ = Inl ExpectedVariableLengthBytes"

fun into_optional :: "array_bytes \<Rightarrow> codec_error + array_bytes" where
  "into_optional (OptionalBytes d m) = Inr (OptionalBytes d m)"
| "into_optional _ = Inl ExpectedOptionalBytes"

fun merge_masks ::
    "nat \<Rightarrow> (array_bytes \<times> array_subset) list \<Rightarrow> array_shape \<Rightarrow> bytes list \<Rightarrow> codec_error + (bytes list \<times> vlen_chunk list)" where
  "merge_masks depth [] a merged = Inr (merged, [])"
| "merge_masks depth ((b, s) # chunks) a merged =
     bind_res (unwrap_masks depth b) (\<lambda>(chunk_masks, current).
     case linearised_new s a of
       Inl _ \<Rightarrow> Inl CodecPanic
     | Inr l \<Rightarrow>
         (case linearised_collect l of
            None \<Rightarrow> Inl CodecPanic
          | Some indices \<Rightarrow>
              bind_res (copy_masks indices chunk_masks merged) (\<lambda>merged.
              bind_res (into_variable current) (\<lambda>v.
              bind_res (merge_masks depth chunks a merged) (\<lambda>(merged, inner). Inr (merged, (v, s) # inner))))))"

text \<open>\<open>for mask in masks.into_iter().rev() \<lbrace> result = result.with_optional_mask(mask) \<rbrace>\<close>\<close>

definition with_optional_masks :: "array_bytes \<Rightarrow> bytes list \<Rightarrow> array_bytes" where
  "with_optional_masks b masks = foldr (\<lambda>m b. OptionalBytes b m) masks b"

definition merge_chunks_vlen_optional ::
    "(array_bytes \<times> array_subset) list \<Rightarrow> array_shape \<Rightarrow> usize \<Rightarrow> codec_error + array_bytes" where
  "merge_chunks_vlen_optional chunks a nesting_depth =
     bind_res (merge_masks nesting_depth chunks a (replicate nesting_depth (replicate (wprod a) 0))) (\<lambda>(masks, inner).
     bind_res (merge_chunks_vlen inner a) (\<lambda>(b, os).
       into_optional (with_optional_masks (VariableBytes b os) masks)))"

definition extract_decoded_regions_vlen ::
    "bytes \<Rightarrow> usize list \<Rightarrow> indexer \<Rightarrow> chunk_shape \<Rightarrow> codec_error + (bytes \<times> usize list)" where
  "extract_decoded_regions_vlen b offsets x s =
     bind_res (linearised_of x s) (\<lambda>indices. push_items (map (vlen_item b offsets) indices) [] [])"

end
