(* ===== verification/Sharding_Codec.thy ===== *)
theory Sharding_Codec
  imports Codec_Chain Chunk_Merge
begin

text \<open>
  The sharding codec (\<open>zarrs/src/array/codec/array_to_bytes/sharding.rs\<close>, \<open>sharding/sharding_codec.rs\<close>): a shard holds the
  encoded subchunks of a chunk and an index of their offsets and sizes, at its start or at its end.  The inner
  codecs and the index codecs are bound codecs, of which only the methods are used.

  The subchunks are encoded, written and decoded concurrently.  \<open>sched\<close> is the order in which they take their place in
  the shard (the order of the atomic additions to its offset) or in the output; \<open>junk\<close> is the content of memory that
  has been allocated and not been written.  Subchunk grids are not modelled.
\<close>

datatype sharding_index_location = IndexStart | IndexEnd

datatype subchunk_write_order = RandomOrder | COrder | UnorderedOrder

record sharding_bound =
  sh_subchunk_shape :: chunk_shape
  sh_inner_codecs :: array_codec
  sh_index_codecs :: array_codec
  sh_index_location :: sharding_index_location
  sh_write_order :: subchunk_write_order
  sh_native :: endianness

subsection \<open>Words of the machine\<close>

text \<open>\<open>u64::from_ne_bytes\<close> and \<open>transmute_to_bytes_vec\<close>\<close>

fun le_value :: "bytes \<Rightarrow> nat" where
  "le_value [] = 0"
| "le_value (b # bs) = unat b + 256 * le_value bs"

definition le_bytes :: "u64 \<Rightarrow> bytes" where
  "le_bytes n = map (\<lambda>k. word_of_nat (n div 256 ^ k)) [0..<8]"

definition from_ne_bytes :: "endianness \<Rightarrow> bytes \<Rightarrow> u64" where
  "from_ne_bytes native b = (if native = LittleEndian then le_value b else le_value (rev b))"

definition to_ne_bytes :: "endianness \<Rightarrow> u64 \<Rightarrow> bytes" where
  "to_ne_bytes native n = (if native = LittleEndian then le_bytes n else rev (le_bytes n))"

definition transmute_to_bytes :: "endianness \<Rightarrow> u64 list \<Rightarrow> bytes" where
  "transmute_to_bytes native ns = concat (map (to_ne_bytes native) ns)"

definition u64_MAX :: u64 where
  "u64_MAX = M64 - 1"

subsection \<open>The index\<close>

definition calculate_chunks_per_shard :: "chunk_shape \<Rightarrow> chunk_shape \<Rightarrow> codec_error + chunk_shape" where
  "calculate_chunks_per_shard shard_shape subchunk_shape =
     collect_res (map (\<lambda>(s, c). if s mod c = 0 then Inr (s div c)
         else Inl (CodecOther ''invalid subchunk shape, it must evenly divide shard shape''))
       (zip shard_shape subchunk_shape))"

definition sharding_index_shape :: "chunk_shape \<Rightarrow> chunk_shape" where
  "sharding_index_shape chunks_per_shard = chunks_per_shard @ [2]"

definition compute_index_encoded_size :: "array_codec \<Rightarrow> chunk_shape \<Rightarrow> codec_error + u64" where
  "compute_index_encoded_size index_codecs index_shape =
     bind_res (ab_encoded_representation index_codecs index_shape) (\<lambda>r.
       case r of
         FixedSize n \<Rightarrow> Inr n
       | _ \<Rightarrow> Inl (CodecOther ''the array index cannot include a variable size output codec''))"

definition decode_shard_index :: "endianness \<Rightarrow> bytes \<Rightarrow> chunk_shape \<Rightarrow> array_codec \<Rightarrow> codec_options \<Rightarrow> codec_error + u64 list" where
  "decode_shard_index native encoded_shard_index index_shape index_codecs opt =
     bind_res (ab_decode index_codecs opt encoded_shard_index index_shape) (\<lambda>decoded_shard_index.
     bind_res (into_fixed decoded_shard_index) (\<lambda>b. Inr (map (from_ne_bytes native) (chunks_exact 8 b))))"

definition decode_index :: "sharding_bound \<Rightarrow> bytes \<Rightarrow> chunk_shape \<Rightarrow> codec_options \<Rightarrow> codec_error + u64 list" where
  "decode_index S encoded_shard chunks_per_shard opt =
     (let index_shape = sharding_index_shape chunks_per_shard in
      bind_res (compute_index_encoded_size (sh_index_codecs S) index_shape) (\<lambda>index_encoded_size.
        if length encoded_shard < index_encoded_size
        then Inl (CodecOther ''The encoded shard is smaller than the expected size of its index.'')
        else
          decode_shard_index (sh_native S)
            (case sh_index_location S of
               IndexStart \<Rightarrow> take index_encoded_size encoded_shard
             | IndexEnd \<Rightarrow> drop (length encoded_shard - index_encoded_size) encoded_shard)
            index_shape (sh_index_codecs S) opt))"

text \<open>The offset and the size of a subchunk, at two successive positions of the index; reading beyond its end panics.\<close>

definition index_entry :: "u64 list \<Rightarrow> nat \<Rightarrow> codec_error + (u64 \<times> u64)" where
  "index_entry shard_index i =
     (if i * 2 + 1 < length shard_index then Inr (shard_index ! (i * 2), shard_index ! (i * 2 + 1)) else Inl CodecPanic)"

definition set_entry :: "u64 list \<Rightarrow> nat \<Rightarrow> u64 \<Rightarrow> u64 \<Rightarrow> codec_error + u64 list" where
  "set_entry shard_index i off len =
     (if i * 2 + 1 < length shard_index then Inr (shard_index[i * 2 := off, i * 2 + 1 := len]) else Inl CodecPanic)"

definition chunk_index_to_subset :: "sharding_bound \<Rightarrow> u64 \<Rightarrow> chunk_shape \<Rightarrow> array_subset option" where
  "chunk_index_to_subset S chunk_index chunks_per_shard =
     (case unravel_index chunk_index chunks_per_shard of
        None \<Rightarrow> None
      | Some chunk_indices \<Rightarrow>
          let chunk_start = map (\<lambda>(i, c). wmul i c) (zip chunk_indices (sh_subchunk_shape S)) in
          Some (from_ranges (map (\<lambda>(sh, st). (st, wadd st sh)) (zip (sh_subchunk_shape S) chunk_start))))"

definition inbounds_chunk :: "sharding_bound \<Rightarrow> u64 \<Rightarrow> chunk_shape \<Rightarrow> codec_error + array_subset" where
  "inbounds_chunk S chunk_index chunks_per_shard =
     (case chunk_index_to_subset S chunk_index chunks_per_shard of None \<Rightarrow> Inl CodecPanic | Some s \<Rightarrow> Inr s)"

definition encoded_shard_bounded_size :: "u64 \<Rightarrow> u64 \<Rightarrow> chunk_shape \<Rightarrow> u64" where
  "encoded_shard_bounded_size index_encoded_size chunk_encoded_size chunks_per_shard =
     wadd (wmul (wprod chunks_per_shard) chunk_encoded_size) index_encoded_size"

definition sharding_recommended_concurrency :: "sharding_bound \<Rightarrow> chunk_shape \<Rightarrow> codec_error + recommended_concurrency" where
  "sharding_recommended_concurrency S s =
     bind_res (calculate_chunks_per_shard s (sh_subchunk_shape S)) (\<lambda>cps. Inr (recommended_new 0 (wprod cps)))"

definition shard_options :: "sharding_bound \<Rightarrow> codec_options \<Rightarrow> chunk_shape \<Rightarrow> codec_error + codec_options" where
  "shard_options S opt s =
     bind_res (sharding_recommended_concurrency S s) (\<lambda>outer.
     bind_res (ab_recommended_concurrency (sh_inner_codecs S) (sh_subchunk_shape S)) (\<lambda>inner.
       Inr (opt\<lparr>concurrent_target := snd (calc_concurrency_outer_inner (concurrent_target opt) outer inner)\<rparr>)))"

subsection \<open>Encoding\<close>

text \<open>The encoded bytes of a subchunk, nothing when it is all fill value.\<close>

definition encode_inner_by_chunk_index ::
    "align_to \<Rightarrow> sharding_bound \<Rightarrow> codec_options \<Rightarrow> array_bytes \<Rightarrow> chunk_shape \<Rightarrow> chunk_shape \<Rightarrow> usize \<Rightarrow>
     (codec_error + (usize \<times> bytes)) option" where
  "encode_inner_by_chunk_index al S opt decoded_value shard_shape chunks_per_shard chunk_index =
     (let C = sh_inner_codecs S in
      case bind_res (inbounds_chunk S chunk_index chunks_per_shard) (\<lambda>chunk_subset.
             extract_array_subset decoded_value (SubsetIndexer chunk_subset) shard_shape (ab_data_type C)) of
        Inl e \<Rightarrow> Some (Inl e)
      | Inr b \<Rightarrow>
          if is_fill_value al b (ab_fill_value C) then None
          else Some (bind_res (ab_encode C opt b (sh_subchunk_shape S)) (\<lambda>e. Inr (chunk_index, e))))"

text \<open>The state of the writers: the offset, the index and the memory of the shard.\<close>

type_synonym shard_state = "usize \<times> u64 list \<times> bytes"

definition write_chunk :: "usize \<times> bytes \<Rightarrow> shard_state \<Rightarrow> codec_error + shard_state" where
  "write_chunk = (\<lambda>(chunk_index, chunk_encoded) (chunk_offset, shard_index, shard).
     bind_res (set_entry shard_index chunk_index chunk_offset (length chunk_encoded)) (\<lambda>shard_index.
     bind_res (write_at shard chunk_offset chunk_encoded) (\<lambda>shard.
       Inr (wadd chunk_offset (length chunk_encoded), shard_index, shard))))"

definition encode_step ::
    "align_to \<Rightarrow> sharding_bound \<Rightarrow> codec_options \<Rightarrow> array_bytes \<Rightarrow> chunk_shape \<Rightarrow> chunk_shape \<Rightarrow> usize \<Rightarrow> usize \<Rightarrow>
     shard_state \<Rightarrow> codec_error + shard_state" where
  "encode_step al S opt decoded_value shard_shape chunks_per_shard bounded_size chunk_index st =
     (case encode_inner_by_chunk_index al S opt decoded_value shard_shape chunks_per_shard chunk_index of
        None \<Rightarrow> Inr st
      | Some r \<Rightarrow>
          bind_res r (\<lambda>(_, chunk_encoded).
            if bounded_size < wadd (fst st) (length chunk_encoded)
            then Inl (CodecOther ''Sharding did not allocate a large enough buffer'')
            else write_chunk (chunk_index, chunk_encoded) st))"

definition encode_chunks ::
    "align_to \<Rightarrow> sharding_bound \<Rightarrow> codec_options \<Rightarrow> array_bytes \<Rightarrow> chunk_shape \<Rightarrow> chunk_shape \<Rightarrow>
     codec_error + (usize \<times> bytes) list" where
  "encode_chunks al S opt decoded_value shard_shape chunks_per_shard =
     collect_res (List.map_filter (encode_inner_by_chunk_index al S opt decoded_value shard_shape chunks_per_shard)
       [0..<wprod chunks_per_shard])"

text \<open>Encoding the index and writing it to the memory of the shard, of which \<open>shard_length\<close> bytes are kept.\<close>

definition finish_shard ::
    "sharding_bound \<Rightarrow> codec_options \<Rightarrow> chunk_shape \<Rightarrow> usize \<Rightarrow> u64 list \<Rightarrow> bytes \<Rightarrow> codec_error + bytes" where
  "finish_shard S opt index_shape shard_length shard_index shard =
     bind_res (ab_encode (sh_index_codecs S) opt (FixedBytes (transmute_to_bytes (sh_native S) shard_index)) index_shape)
       (\<lambda>encoded_array_index.
     bind_res (case sh_index_location S of
         IndexStart \<Rightarrow> write_at shard 0 encoded_array_index
       | IndexEnd \<Rightarrow>
           if shard_length < length encoded_array_index then Inl CodecPanic
           else write_at shard (shard_length - length encoded_array_index) encoded_array_index) (\<lambda>shard.
       Inr (take shard_length shard)))"

definition data_start :: "sharding_bound \<Rightarrow> usize \<Rightarrow> usize" where
  "data_start S index_encoded_size = (case sh_index_location S of IndexStart \<Rightarrow> index_encoded_size | IndexEnd \<Rightarrow> 0)"

definition encode_bounded ::
    "(nat list \<Rightarrow> nat list) \<Rightarrow> (usize \<Rightarrow> bytes) \<Rightarrow> align_to \<Rightarrow> sharding_bound \<Rightarrow> codec_options \<Rightarrow> array_bytes \<Rightarrow> chunk_shape \<Rightarrow> u64 \<Rightarrow>
     codec_error + bytes" where
  "encode_bounded sched junk al S opt decoded_value shard_shape chunk_size_bounded =
     bind_res (calculate_chunks_per_shard shard_shape (sh_subchunk_shape S)) (\<lambda>cps.
     let index_shape = sharding_index_shape cps in
     bind_res (compute_index_encoded_size (sh_index_codecs S) index_shape) (\<lambda>index_encoded_size.
     let bounded_size = encoded_shard_bounded_size index_encoded_size chunk_size_bounded cps;
         st = (data_start S index_encoded_size, replicate (wprod index_shape) u64_MAX, junk bounded_size) in
     bind_res (shard_options S opt shard_shape) (\<lambda>opt.
     bind_res
       (if sh_write_order S = COrder then
          bind_res (encode_chunks al S opt decoded_value shard_shape cps) (\<lambda>chunks. try_for_each write_chunk chunks st)
        else
          try_for_each (encode_step al S opt decoded_value shard_shape cps bounded_size) (sched [0..<wprod cps]) st)
       (\<lambda>(encoded_shard_offset, shard_index, shard).
         let shard_length = wadd encoded_shard_offset (case sh_index_location S of IndexStart \<Rightarrow> 0 | IndexEnd \<Rightarrow> index_encoded_size) in
         finish_shard S opt index_shape shard_length shard_index shard))))"

definition encode_unbounded ::
    "(nat list \<Rightarrow> nat list) \<Rightarrow> (usize \<Rightarrow> bytes) \<Rightarrow> align_to \<Rightarrow> sharding_bound \<Rightarrow> codec_options \<Rightarrow> array_bytes \<Rightarrow> chunk_shape \<Rightarrow>
     codec_error + bytes" where
  "encode_unbounded sched junk al S opt decoded_value shard_shape =
     bind_res (calculate_chunks_per_shard shard_shape (sh_subchunk_shape S)) (\<lambda>cps.
     let index_shape = sharding_index_shape cps in
     bind_res (compute_index_encoded_size (sh_index_codecs S) index_shape) (\<lambda>index_encoded_size.
     bind_res (shard_options S opt shard_shape) (\<lambda>options_inner.
     bind_res (encode_chunks al S options_inner decoded_value shard_shape cps) (\<lambda>chunks.
     let shard_length = wadd (wsum (map (\<lambda>(_, b). length b) chunks)) index_encoded_size;
         ordered = (if sh_write_order S = COrder then chunks else map ((!) chunks) (sched [0..<length chunks]));
         st = (data_start S index_encoded_size, replicate (wprod index_shape) u64_MAX, junk shard_length) in
     bind_res (try_for_each write_chunk ordered st) (\<lambda>(_, shard_index, shard).
       finish_shard S opt index_shape shard_length shard_index shard)))))"

definition sharding_encode ::
    "(nat list \<Rightarrow> nat list) \<Rightarrow> (usize \<Rightarrow> bytes) \<Rightarrow> align_to \<Rightarrow> sharding_bound \<Rightarrow> codec_options \<Rightarrow> array_bytes \<Rightarrow> chunk_shape \<Rightarrow>
     codec_error + bytes" where
  "sharding_encode sched junk al S opt b s =
     bind_res (validate_bytes b (wprod s) (ab_data_type (sh_inner_codecs S))) (\<lambda>_.
     bind_res (ab_encoded_representation (sh_inner_codecs S) (sh_subchunk_shape S)) (\<lambda>r.
       case r of
         FixedSize n \<Rightarrow> encode_bounded sched junk al S opt b s n
       | BoundedSize n \<Rightarrow> encode_bounded sched junk al S opt b s n
       | UnboundedSize \<Rightarrow> encode_unbounded sched junk al S opt b s))"

subsection \<open>Decoding\<close>

definition corrupted :: codec_error where
  "corrupted = CodecOther ''The shard index references out-of-bounds bytes. The chunk may be corrupted.''"

text \<open>The encoded bytes of a subchunk in a shard: none when its entry says that it is not there.\<close>

definition subchunk_encoded :: "bytes \<Rightarrow> u64 list \<Rightarrow> nat \<Rightarrow> codec_error + bytes option" where
  "subchunk_encoded encoded_shard shard_index chunk_index =
     bind_res (index_entry shard_index chunk_index) (\<lambda>(off, len).
       if off = u64_MAX \<and> len = u64_MAX then Inr None
       else if length encoded_shard < wadd off len then Inl corrupted
       else case slice encoded_shard off (wadd off len) of None \<Rightarrow> Inl CodecPanic | Some e \<Rightarrow> Inr (Some e))"

text \<open>Decoding a subchunk into a view of the output, whose buffer is \<open>output\<close>.\<close>

definition decode_subchunk_into ::
    "sharding_bound \<Rightarrow> codec_options \<Rightarrow> bytes \<Rightarrow> u64 list \<Rightarrow> nat \<Rightarrow> disjoint_view \<Rightarrow> bytes \<Rightarrow> codec_error + bytes" where
  "decode_subchunk_into S opt encoded_shard shard_index chunk_index view output =
     bind_res (subchunk_encoded encoded_shard shard_index chunk_index) (\<lambda>encoded_chunk.
       case encoded_chunk of
         None \<Rightarrow> view_fill view (ab_fill_value (sh_inner_codecs S)) output
       | Some e \<Rightarrow>
           bind_res (ab_decode_into (sh_inner_codecs S) opt e (sh_subchunk_shape S) (FixedTarget view output)) (\<lambda>target.
             Inr (snd (fst (extract_target_views target)))))"

definition decode_fixed_step ::
    "sharding_bound \<Rightarrow> codec_options \<Rightarrow> usize \<Rightarrow> chunk_shape \<Rightarrow> chunk_shape \<Rightarrow> bytes \<Rightarrow> u64 list \<Rightarrow> nat \<Rightarrow> bytes \<Rightarrow> codec_error + bytes" where
  "decode_fixed_step S opt z s chunks_per_shard encoded_shard shard_index chunk_index output =
     bind_res (inbounds_chunk S chunk_index chunks_per_shard) (\<lambda>chunk_subset.
     bind_res (view_new output z s chunk_subset) (\<lambda>view.
       decode_subchunk_into S opt encoded_shard shard_index chunk_index view output))"

definition decode_variable_part ::
    "sharding_bound \<Rightarrow> codec_options \<Rightarrow> chunk_shape \<Rightarrow> bytes \<Rightarrow> u64 list \<Rightarrow> nat \<Rightarrow> codec_error + vlen_chunk" where
  "decode_variable_part S opt chunks_per_shard encoded_shard shard_index chunk_index =
     (let C = sh_inner_codecs S in
      bind_res (inbounds_chunk S chunk_index chunks_per_shard) (\<lambda>chunk_subset.
      bind_res (subchunk_encoded encoded_shard shard_index chunk_index) (\<lambda>encoded_chunk.
      bind_res (case encoded_chunk of
          None \<Rightarrow> new_fill_value (ab_data_type C) (wprod (sh_subchunk_shape S)) (ab_fill_value C)
        | Some e \<Rightarrow> ab_decode C opt e (sh_subchunk_shape S)) (\<lambda>chunk_bytes.
      bind_res (into_variable chunk_bytes) (\<lambda>chunk_bytes. Inr (chunk_bytes, chunk_subset))))))"

definition sharding_decode ::
    "(nat list \<Rightarrow> nat list) \<Rightarrow> (usize \<Rightarrow> bytes) \<Rightarrow> sharding_bound \<Rightarrow> codec_options \<Rightarrow> bytes \<Rightarrow> chunk_shape \<Rightarrow> codec_error + array_bytes" where
  "sharding_decode sched junk S opt encoded_shard s =
     (let t = ab_data_type (sh_inner_codecs S) in
      bind_res (calculate_chunks_per_shard s (sh_subchunk_shape S)) (\<lambda>cps.
      bind_res (decode_index S encoded_shard cps opt) (\<lambda>shard_index.
      bind_res (shard_options S opt s) (\<lambda>opt.
        if is_optional t then Inl (CodecUnsupportedDataType [] ''sharding_indexed'')
        else case dt_size t of
            SizeVariable \<Rightarrow>
              bind_res (collect_res (map (decode_variable_part S opt cps encoded_shard shard_index) [0..<wprod cps])) (\<lambda>parts.
              bind_res (merge_chunks_vlen parts s) (\<lambda>(b, os). Inr (VariableBytes b os)))
          | SizeFixed z \<Rightarrow>
              let size_output = wmul (wprod s) z in
              if size_output = 0 then Inr (FixedBytes [])
              else
                bind_res (try_for_each (decode_fixed_step S opt z s cps encoded_shard shard_index)
                    (sched [0..<wprod cps]) (junk size_output)) (\<lambda>output. Inr (FixedBytes output))))))"

definition decode_into_step ::
    "sharding_bound \<Rightarrow> codec_options \<Rightarrow> chunk_shape \<Rightarrow> bytes \<Rightarrow> u64 list \<Rightarrow> disjoint_view \<Rightarrow> nat \<Rightarrow> bytes \<Rightarrow> codec_error + bytes" where
  "decode_into_step S opt chunks_per_shard encoded_shard shard_index output_view chunk_index output =
     bind_res (inbounds_chunk S chunk_index chunks_per_shard) (\<lambda>chunk_subset.
       let start = map (\<lambda>(o', s). wadd o' s) (zip (sub_start (dv_subset output_view)) (sub_start chunk_subset)) in
       if length start \<noteq> length (sub_shape chunk_subset) then Inl CodecPanic
       else
         bind_res (view_subdivide output output_view \<lparr>sub_start = start, sub_shape = sub_shape chunk_subset\<rparr>) (\<lambda>view.
           decode_subchunk_into S opt encoded_shard shard_index chunk_index view output))"

definition sharding_decode_into ::
    "(nat list \<Rightarrow> nat list) \<Rightarrow> sharding_bound \<Rightarrow> codec_options \<Rightarrow> bytes \<Rightarrow> chunk_shape \<Rightarrow> decode_target \<Rightarrow> codec_error + decode_target" where
  "sharding_decode_into sched S opt encoded_shard s target =
     (case target of
        OptionalTarget _ _ _ \<Rightarrow> Inl (CodecUnsupportedDataType [] ''sharding_indexed'')
      | FixedTarget output_view output \<Rightarrow>
          bind_res (calculate_chunks_per_shard s (sh_subchunk_shape S)) (\<lambda>cps.
          bind_res (decode_index S encoded_shard cps opt) (\<lambda>shard_index.
          bind_res (shard_options S opt s) (\<lambda>opt.
          bind_res (try_for_each (decode_into_step S opt cps encoded_shard shard_index output_view) (sched [0..<wprod cps]) output)
            (\<lambda>output. Inr (FixedTarget output_view output))))))"

subsection \<open>Compaction\<close>

fun index_pairs :: "u64 list \<Rightarrow> (u64 \<times> u64) list" where
  "index_pairs (off # len # ns) = (off, len) # index_pairs ns"
| "index_pairs _ = []"

definition compact_step ::
    "bytes \<Rightarrow> nat \<times> (u64 \<times> u64) \<Rightarrow> usize \<times> u64 list \<times> bytes \<Rightarrow> codec_error + (usize \<times> u64 list \<times> bytes)" where
  "compact_step b = (\<lambda>(i, (old_offset, len)) (write_offset, new_index, compact_shard).
     if old_offset \<noteq> u64_MAX \<and> len \<noteq> u64_MAX then
       if length b < wadd old_offset len then Inl corrupted
       else case slice b old_offset (wadd old_offset len) of
           None \<Rightarrow> Inl CodecPanic
         | Some e \<Rightarrow>
             bind_res (write_at compact_shard write_offset e) (\<lambda>compact_shard.
             bind_res (set_entry new_index i write_offset len) (\<lambda>new_index.
               Inr (wadd write_offset len, new_index, compact_shard)))
     else Inr (write_offset, new_index, compact_shard))"

definition sharding_compact ::
    "sharding_bound \<Rightarrow> codec_options \<Rightarrow> bytes \<Rightarrow> chunk_shape \<Rightarrow> codec_error + bytes option" where
  "sharding_compact S opt b s =
     bind_res (calculate_chunks_per_shard s (sh_subchunk_shape S)) (\<lambda>cps.
     bind_res (decode_index S b cps opt) (\<lambda>shard_index.
     let index_shape = sharding_index_shape cps in
     bind_res (compute_index_encoded_size (sh_index_codecs S) index_shape) (\<lambda>index_encoded_size.
     let pairs = index_pairs shard_index;
         chunks_size = wsum (map snd (filter (\<lambda>(off, len). off \<noteq> u64_MAX \<and> len \<noteq> u64_MAX) pairs)) in
     if chunks_size = length b - index_encoded_size then Inr None
     else
       let data_size = wsum (map snd (filter (\<lambda>(off, _). off \<noteq> u64_MAX) pairs));
           compact_size = wadd data_size index_encoded_size;
           st = (data_start S index_encoded_size, replicate (length shard_index) u64_MAX, replicate compact_size 0) in
       bind_res (try_for_each (compact_step b) (zip [0..<length pairs] pairs) st) (\<lambda>(_, new_index, compact_shard).
       bind_res (ab_encode (sh_index_codecs S) opt (FixedBytes (transmute_to_bytes (sh_native S) new_index)) index_shape)
         (\<lambda>encoded_index.
       bind_res (case sh_index_location S of
           IndexStart \<Rightarrow> write_at compact_shard 0 encoded_index
         | IndexEnd \<Rightarrow>
             if compact_size < length encoded_index then Inl CodecPanic
             else write_at compact_shard (compact_size - length encoded_index) encoded_index) (\<lambda>compact_shard.
         Inr (Some compact_shard)))))))"

subsection \<open>Representation\<close>

text \<open>The inner codecs are asked for their representation of the shape of the shard, not of a subchunk.\<close>

definition sharding_encoded_representation :: "sharding_bound \<Rightarrow> chunk_shape \<Rightarrow> codec_error + bytes_representation" where
  "sharding_encoded_representation S s =
     bind_res (ab_encoded_representation (sh_inner_codecs S) s) (\<lambda>r.
       case bytes_representation_size r of
         None \<Rightarrow> Inr UnboundedSize
       | Some n \<Rightarrow>
           bind_res (calculate_chunks_per_shard s (sh_subchunk_shape S)) (\<lambda>cps.
           bind_res (compute_index_encoded_size (sh_index_codecs S) (sharding_index_shape cps)) (\<lambda>index_encoded_size.
             Inr (BoundedSize (encoded_shard_bounded_size index_encoded_size n cps)))))"

end
