(* ===== verification/Sharding_Partial.thy ===== *)
theory Sharding_Partial
  imports Sharding_Codec Regular_Grids
begin

text \<open>
  The partial decoder of the sharding codec (\<open>sharding/sharding_partial_decoder_sync.rs\<close>), with what it uses of
  \<open>sharding.rs\<close> and the decoder of a byte interval (\<open>zarrs_codec/src/byte_interval_partial_decoder.rs\<close>).  The index of the shard
  is read once, when the decoder is made.  A cache of the decoders of the subchunks is transparent: a decoder
  is a function of its entry of the index, and is made anew here.  Errors of \<open>expect\<close> and \<open>unwrap\<close> are \<open>CodecPanic\<close>.
\<close>

subsection \<open>Byte intervals\<close>

fun byte_interval_range :: "u64 \<Rightarrow> u64 \<Rightarrow> byte_range \<Rightarrow> byte_range" where
  "byte_interval_range byte_offset byte_length (FromStart off None) = FromStart (wadd byte_offset off) (Some byte_length)"
| "byte_interval_range byte_offset byte_length (FromStart off (Some len)) = FromStart (wadd byte_offset off) (Some len)"
| "byte_interval_range byte_offset byte_length (Suffix len) = FromStart (wsub (wadd byte_offset byte_length) len) (Some len)"

definition byte_interval_decoder :: "bytes_decoder \<Rightarrow> u64 \<Rightarrow> u64 \<Rightarrow> bytes_decoder" where
  "byte_interval_decoder handle byte_offset byte_length rs = handle (map (byte_interval_range byte_offset byte_length) rs)"

subsection \<open>The index\<close>

definition get_index_byte_range :: "chunk_shape \<Rightarrow> array_codec \<Rightarrow> sharding_index_location \<Rightarrow> codec_error + byte_range" where
  "get_index_byte_range index_shape index_codecs location =
     bind_res (map_err (\<lambda>e. case e of CodecOther m \<Rightarrow> CodecOther m | CodecPanic \<Rightarrow> CodecPanic | _ \<Rightarrow> CodecOther []) (compute_index_encoded_size index_codecs index_shape)) (\<lambda>n.
       Inr (case location of IndexStart \<Rightarrow> FromStart 0 (Some n) | IndexEnd \<Rightarrow> Suffix n))"

definition decode_shard_index_partial_decoder ::
    "sharding_bound \<Rightarrow> bytes_decoder \<Rightarrow> chunk_shape \<Rightarrow> codec_options \<Rightarrow> codec_error + u64 list option" where
  "decode_shard_index_partial_decoder S handle shard_shape opt =
     bind_res (calculate_chunks_per_shard shard_shape (sh_subchunk_shape S)) (\<lambda>cps.
     let index_shape = sharding_index_shape cps in
     bind_res (get_index_byte_range index_shape (sh_index_codecs S) (sh_index_location S)) (\<lambda>index_byte_range.
     bind_res (partial_decode handle index_byte_range) (\<lambda>encoded_shard_index.
       case encoded_shard_index of
         None \<Rightarrow> Inr None
       | Some e \<Rightarrow>
           bind_res (decode_shard_index (sh_native S) e index_shape (sh_index_codecs S) opt) (\<lambda>shard_index. Inr (Some shard_index)))))"

text \<open>The byte range of a subchunk, for retrieving its encoded bytes.\<close>

definition subchunk_byte_range ::
    "u64 list option \<Rightarrow> chunk_shape \<Rightarrow> chunk_shape \<Rightarrow> u64 list \<Rightarrow> codec_error + byte_range option" where
  "subchunk_byte_range shard_index shard_shape chunk_shape chunk_indices =
     (case shard_index of
        None \<Rightarrow> Inr None
      | Some shard_index \<Rightarrow>
          bind_res (calculate_chunks_per_shard shard_shape chunk_shape) (\<lambda>cps.
            case ravel_indices chunk_indices cps of
              None \<Rightarrow> Inl (CodecOther ''subchunk indices are out of bounds for chunks per shard'')
            | Some i \<Rightarrow>
                bind_res (index_entry shard_index i) (\<lambda>(off, len).
                  if off = u64_MAX \<and> len = u64_MAX then Inr None
                  else Inr (Some (byte_range_new (Included off) (Excluded (wadd off len)))))))"

definition retrieve_subchunk_encoded ::
    "sharding_bound \<Rightarrow> bytes_decoder \<Rightarrow> u64 list option \<Rightarrow> chunk_shape \<Rightarrow> u64 list \<Rightarrow> codec_error + bytes option" where
  "retrieve_subchunk_encoded S handle shard_index shard_shape chunk_indices =
     bind_res (subchunk_byte_range shard_index shard_shape (sh_subchunk_shape S) chunk_indices) (\<lambda>byte_range.
       case byte_range of None \<Rightarrow> Inr None | Some r \<Rightarrow> partial_decode handle r)"

definition partial_decode_empty_shard :: "data_type \<Rightarrow> fill_value \<Rightarrow> indexer \<Rightarrow> codec_error + array_bytes" where
  "partial_decode_empty_shard t fv x = new_fill_value t (ix_len x) fv"

definition partial_options :: "sharding_bound \<Rightarrow> chunk_shape \<Rightarrow> codec_options \<Rightarrow> codec_error + codec_options" where
  "partial_options S chunks_per_shard opt =
     bind_res (ab_recommended_concurrency (sh_inner_codecs S) (sh_subchunk_shape S)) (\<lambda>inner.
       let num_chunks = wprod chunks_per_shard;
           outer = recommended_new 0 (min (concurrent_target opt) num_chunks) in
       Inr (opt\<lparr>concurrent_target := snd (calc_concurrency_outer_inner (concurrent_target opt) outer inner)\<rparr>))"

definition get_subchunk_partial_decoder ::
    "sharding_bound \<Rightarrow> bytes_decoder \<Rightarrow> codec_options \<Rightarrow> u64 \<Rightarrow> u64 \<Rightarrow> codec_error + array_decoder" where
  "get_subchunk_partial_decoder S handle opt byte_offset byte_length =
     map_err (\<lambda>e. case e of CodecInvalidByteRange _ _ \<Rightarrow> corrupted | _ \<Rightarrow> e)
       (ab_partial_decoder (sh_inner_codecs S) opt (byte_interval_decoder handle byte_offset byte_length) (sh_subchunk_shape S))"

subsection \<open>Subsets\<close>

text \<open>Where a subchunk is: its entry of the index, its subset of the shard, and the part that is asked for.\<close>

definition subchunk_of ::
    "regular_chunk_grid \<Rightarrow> chunk_shape \<Rightarrow> u64 list \<Rightarrow> array_subset \<Rightarrow> u64 list \<Rightarrow>
     codec_error + ((u64 \<times> u64) \<times> array_subset \<times> array_subset)" where
  "subchunk_of grid chunks_per_shard shard_index r chunk_indices =
     (case ravel_indices chunk_indices chunks_per_shard of
        None \<Rightarrow> Inl CodecPanic
      | Some i \<Rightarrow>
          bind_res (index_entry shard_index i) (\<lambda>entry.
          bind_res (case regular_subset grid chunk_indices of Inr (Some s) \<Rightarrow> Inr s | _ \<Rightarrow> Inl CodecPanic) (\<lambda>chunk_subset.
          bind_res (map_err CodecArraySubset (overlap r chunk_subset)) (\<lambda>chunk_subset_overlap.
            Inr (entry, chunk_subset, chunk_subset_overlap)))))"

definition within_subchunk :: "array_subset \<Rightarrow> array_subset \<Rightarrow> codec_error + array_subset" where
  "within_subchunk chunk_subset_overlap chunk_subset =
     map_err (\<lambda>_. CodecPanic) (relative_to chunk_subset_overlap (sub_start chunk_subset))"

definition partial_fixed_step ::
    "sharding_bound \<Rightarrow> bytes_decoder \<Rightarrow> codec_options \<Rightarrow> regular_chunk_grid \<Rightarrow> chunk_shape \<Rightarrow> u64 list \<Rightarrow> array_subset \<Rightarrow>
     disjoint_view \<Rightarrow> u64 list \<Rightarrow> bytes \<Rightarrow> codec_error + bytes" where
  "partial_fixed_step S handle opt grid chunks_per_shard shard_index r output_view chunk_indices output =
     bind_res (subchunk_of grid chunks_per_shard shard_index r chunk_indices) (\<lambda>((off, len), chunk_subset, chunk_subset_overlap).
     bind_res (map_err CodecArraySubset (relative_to chunk_subset_overlap (sub_start r))) (\<lambda>chunk_relative.
     bind_res (map_err CodecArraySubset (offset chunk_relative (sub_start (dv_subset output_view)))) (\<lambda>chunk_output_overlap_subset.
     bind_res (view_subdivide output output_view chunk_output_overlap_subset) (\<lambda>subchunk_view.
       if off = u64_MAX \<and> len = u64_MAX then view_fill subchunk_view (ab_fill_value (sh_inner_codecs S)) output
       else
         bind_res (get_subchunk_partial_decoder S handle opt off len) (\<lambda>inner_partial_decoder.
         bind_res (within_subchunk chunk_subset_overlap chunk_subset) (\<lambda>part.
         bind_res (default_partial_decode_into inner_partial_decoder (SubsetIndexer part) (FixedTarget subchunk_view output))
           (\<lambda>target. Inr (snd (fst (extract_target_views target))))))))))"

definition subchunks_of_region :: "regular_chunk_grid \<Rightarrow> array_subset \<Rightarrow> codec_error + u64 list list" where
  "subchunks_of_region grid r =
     bind_res (map_err CodecDimensionality (chunks_in_array_subset (regular_grid grid) r)) (\<lambda>chunks.
       case chunks of None \<Rightarrow> Inl CodecPanic | Some chunks \<Rightarrow> Inr (indices_collect (indices_new chunks)))"

definition partial_decode_fixed_array_subset_into ::
    "(u64 list list \<Rightarrow> u64 list list) \<Rightarrow> sharding_bound \<Rightarrow> bytes_decoder \<Rightarrow> chunk_shape \<Rightarrow> u64 list option \<Rightarrow>
     codec_options \<Rightarrow> array_subset \<Rightarrow> disjoint_view \<Rightarrow> bytes \<Rightarrow> codec_error + bytes" where
  "partial_decode_fixed_array_subset_into sched S handle shard_shape shard_index opt r output_view output =
     (if num_elements r \<noteq> view_num_elements output_view
      then Inl (InvalidNumberOfElements (num_elements r) (view_num_elements output_view))
      else case shard_index of
          None \<Rightarrow> view_fill output_view (ab_fill_value (sh_inner_codecs S)) output
        | Some shard_index \<Rightarrow>
            bind_res (calculate_chunks_per_shard shard_shape (sh_subchunk_shape S)) (\<lambda>cps.
            bind_res (partial_options S cps opt) (\<lambda>opt.
            bind_res (map_err (\<lambda>e. CodecDimensionality (regular_error_dimensionality e)) (regular_new shard_shape (sh_subchunk_shape S)))
              (\<lambda>grid.
            bind_res (subchunks_of_region grid r) (\<lambda>chunks.
              try_for_each (partial_fixed_step S handle opt grid cps shard_index r output_view) (sched chunks) output)))))"

definition partial_variable_part ::
    "sharding_bound \<Rightarrow> bytes_decoder \<Rightarrow> codec_options \<Rightarrow> regular_chunk_grid \<Rightarrow> chunk_shape \<Rightarrow> u64 list \<Rightarrow> array_subset \<Rightarrow>
     u64 list \<Rightarrow> codec_error + vlen_chunk" where
  "partial_variable_part S handle opt grid chunks_per_shard shard_index r chunk_indices =
     (let C = sh_inner_codecs S in
      bind_res (subchunk_of grid chunks_per_shard shard_index r chunk_indices) (\<lambda>((off, len), chunk_subset, chunk_subset_overlap).
      bind_res
        (if off = u64_MAX \<and> len = u64_MAX
         then new_fill_value (ab_data_type C) (num_elements chunk_subset_overlap) (ab_fill_value C)
         else
           bind_res (get_subchunk_partial_decoder S handle opt off len) (\<lambda>inner_partial_decoder.
           bind_res (within_subchunk chunk_subset_overlap chunk_subset) (\<lambda>part. inner_partial_decoder (SubsetIndexer part))))
        (\<lambda>b.
      bind_res (into_variable b) (\<lambda>chunk_subset_bytes.
      bind_res (within_subchunk chunk_subset_overlap r) (\<lambda>chunk_relative. Inr (chunk_subset_bytes, chunk_relative))))))"

definition partial_decode_variable_array_subset ::
    "sharding_bound \<Rightarrow> bytes_decoder \<Rightarrow> chunk_shape \<Rightarrow> u64 list option \<Rightarrow> codec_options \<Rightarrow> array_subset \<Rightarrow>
     codec_error + array_bytes" where
  "partial_decode_variable_array_subset S handle shard_shape shard_index opt r =
     (case shard_index of
        None \<Rightarrow> partial_decode_empty_shard (ab_data_type (sh_inner_codecs S)) (ab_fill_value (sh_inner_codecs S)) (SubsetIndexer r)
      | Some shard_index \<Rightarrow>
          bind_res (calculate_chunks_per_shard shard_shape (sh_subchunk_shape S)) (\<lambda>cps.
          bind_res (partial_options S cps opt) (\<lambda>opt.
          bind_res (map_err (\<lambda>_. CodecPanic) (regular_new shard_shape (sh_subchunk_shape S))) (\<lambda>grid.
          bind_res (subchunks_of_region grid r) (\<lambda>chunks.
          bind_res (collect_res (map (partial_variable_part S handle opt grid cps shard_index r) chunks)) (\<lambda>parts.
          bind_res (merge_chunks_vlen parts (sub_shape r)) (\<lambda>(b, os). Inr (VariableBytes b os))))))))"

subsection \<open>Other indexers\<close>

text \<open>The decoder and the indices within it of an element, for an entry of the index that need not be that of a subchunk.\<close>

definition partial_decode_element ::
    "sharding_bound \<Rightarrow> bytes_decoder \<Rightarrow> codec_options \<Rightarrow> chunk_shape \<Rightarrow> chunk_shape \<Rightarrow> u64 list \<Rightarrow> array_indices \<Rightarrow> codec_error + array_bytes" where
  "partial_decode_element S handle opt shard_shape chunks_per_shard shard_index indices =
     (if length indices \<noteq> length shard_shape
      then Inl (IncompatibleIndexer (IndexerIncompatibleDimensionality (length indices) (length shard_shape)))
      else
        let chunk_index = map (\<lambda>(i, c). i div c) (zip indices (sh_subchunk_shape S)) in
        case ravel_indices chunk_index chunks_per_shard of
          None \<Rightarrow> Inl (IncompatibleIndexer (OutOfBounds chunk_index chunks_per_shard))
        | Some i \<Rightarrow>
            bind_res (index_entry shard_index i) (\<lambda>(off, len).
            bind_res (get_subchunk_partial_decoder S handle opt off len) (\<lambda>inner_partial_decoder.
              inner_partial_decoder (IndicesIndexer [map (\<lambda>(i, c). i mod c) (zip indices (sh_subchunk_shape S))]))))"

fun fixed_elements ::
    "(array_indices \<Rightarrow> codec_error + array_bytes) \<Rightarrow> array_indices list \<Rightarrow> bytes \<Rightarrow> codec_error + bytes" where
  "fixed_elements dec [] output = Inr output"
| "fixed_elements dec (i # ids) output =
     bind_res (dec i) (\<lambda>b.
     bind_res (map_err (\<lambda>_. CodecPanic) (into_fixed b)) (\<lambda>element_bytes. fixed_elements dec ids (output @ element_bytes)))"

fun variable_elements ::
    "(array_indices \<Rightarrow> codec_error + array_bytes) \<Rightarrow> array_indices list \<Rightarrow> bytes \<times> usize list \<Rightarrow>
     codec_error + (bytes \<times> usize list)" where
  "variable_elements dec [] st = Inr st"
| "variable_elements dec (i # ids) (b, os) =
     bind_res (dec i) (\<lambda>v.
     bind_res (into_variable v) (\<lambda>(element_bytes, _).
       let b = b @ element_bytes in variable_elements dec ids (b, os @ [length b])))"

definition partial_decode_fixed_indexer ::
    "sharding_bound \<Rightarrow> bytes_decoder \<Rightarrow> chunk_shape \<Rightarrow> u64 list option \<Rightarrow> codec_options \<Rightarrow> indexer \<Rightarrow> codec_error + array_bytes" where
  "partial_decode_fixed_indexer S handle shard_shape shard_index opt x =
     (case shard_index of
        None \<Rightarrow> partial_decode_empty_shard (ab_data_type (sh_inner_codecs S)) (ab_fill_value (sh_inner_codecs S)) x
      | Some shard_index \<Rightarrow>
          bind_res (calculate_chunks_per_shard shard_shape (sh_subchunk_shape S)) (\<lambda>cps.
          bind_res (case ix_indices x of None \<Rightarrow> Inl CodecPanic | Some ids \<Rightarrow> Inr ids) (\<lambda>ids.
          bind_res (fixed_elements (partial_decode_element S handle opt shard_shape cps shard_index) ids []) (\<lambda>b.
            Inr (FixedBytes b)))))"

definition partial_decode_variable_indexer ::
    "sharding_bound \<Rightarrow> bytes_decoder \<Rightarrow> chunk_shape \<Rightarrow> u64 list option \<Rightarrow> codec_options \<Rightarrow> indexer \<Rightarrow> codec_error + array_bytes" where
  "partial_decode_variable_indexer S handle shard_shape shard_index opt x =
     (case shard_index of
        None \<Rightarrow> partial_decode_empty_shard (ab_data_type (sh_inner_codecs S)) (ab_fill_value (sh_inner_codecs S)) x
      | Some shard_index \<Rightarrow>
          bind_res (calculate_chunks_per_shard shard_shape (sh_subchunk_shape S)) (\<lambda>cps.
          bind_res (case ix_indices x of None \<Rightarrow> Inl CodecPanic | Some ids \<Rightarrow> Inr ids) (\<lambda>ids.
          bind_res (variable_elements (partial_decode_element S handle opt shard_shape cps shard_index) ids ([], [0])) (\<lambda>(b, os).
          bind_res (map_err (\<lambda>_. RawBytesOffsetsCreate) (offsets_new os)) (\<lambda>os. vlen_new b os)))))"

subsection \<open>The partial decoder\<close>

definition sharding_partial_decode ::
    "(u64 list list \<Rightarrow> u64 list list) \<Rightarrow> sharding_bound \<Rightarrow> bytes_decoder \<Rightarrow> chunk_shape \<Rightarrow> u64 list option \<Rightarrow>
     codec_options \<Rightarrow> array_decoder" where
  "sharding_partial_decode sched S handle shard_shape shard_index opt x =
     (let t = ab_data_type (sh_inner_codecs S) in
      if ix_dimensionality x \<noteq> length shard_shape
      then Inl (IncompatibleIndexer (IndexerIncompatibleDimensionality (ix_dimensionality x) (length shard_shape)))
      else if is_optional t then Inl (CodecUnsupportedDataType [] ''sharding_indexed'')
      else case dt_size t of
          SizeFixed z \<Rightarrow>
            (case ix_as_array_subset x of
               Some r \<Rightarrow>
                 let output = replicate (wmul (num_elements r) z) 0 in
                 bind_res (view_new output z (sub_shape r) (new_with_shape (sub_shape r))) (\<lambda>output_view.
                 bind_res (partial_decode_fixed_array_subset_into sched S handle shard_shape shard_index opt r output_view output)
                   (\<lambda>output. Inr (FixedBytes output)))
             | None \<Rightarrow> partial_decode_fixed_indexer S handle shard_shape shard_index opt x)
        | SizeVariable \<Rightarrow>
            (case ix_as_array_subset x of
               Some r \<Rightarrow> partial_decode_variable_array_subset S handle shard_shape shard_index opt r
             | None \<Rightarrow> partial_decode_variable_indexer S handle shard_shape shard_index opt x))"

definition sharding_partial_decode_into ::
    "(u64 list list \<Rightarrow> u64 list list) \<Rightarrow> sharding_bound \<Rightarrow> bytes_decoder \<Rightarrow> chunk_shape \<Rightarrow> u64 list option \<Rightarrow>
     codec_options \<Rightarrow> indexer \<Rightarrow> decode_target \<Rightarrow> codec_error + decode_target" where
  "sharding_partial_decode_into sched S handle shard_shape shard_index opt x target =
     (if ix_len x \<noteq> target_num_elements target
      then Inl (InvalidNumberOfElements (ix_len x) (target_num_elements target))
      else case (dt_size (ab_data_type (sh_inner_codecs S)), ix_as_array_subset x, target) of
          (SizeFixed _, Some r, FixedTarget view output) \<Rightarrow>
            bind_res (partial_decode_fixed_array_subset_into sched S handle shard_shape shard_index opt r view output)
              (\<lambda>output. Inr (FixedTarget view output))
        | _ \<Rightarrow>
            bind_res (sharding_partial_decode sched S handle shard_shape shard_index opt x) (\<lambda>decoded_value.
              decode_into_target decoded_value target))"

text \<open>\<open>ShardingPartialDecoder::new\<close>, and its \<open>partial_decode\<close>.\<close>

definition sharding_partial_decoder ::
    "(u64 list list \<Rightarrow> u64 list list) \<Rightarrow> sharding_bound \<Rightarrow> codec_options \<Rightarrow> bytes_decoder \<Rightarrow> chunk_shape \<Rightarrow>
     codec_error + array_decoder" where
  "sharding_partial_decoder sched S opt handle shard_shape =
     bind_res (decode_shard_index_partial_decoder S handle shard_shape opt) (\<lambda>shard_index.
       Inr (sharding_partial_decode sched S handle shard_shape shard_index opt))"

subsection \<open>The codec\<close>

definition sharding_array_codec ::
    "(nat list \<Rightarrow> nat list) \<Rightarrow> (u64 list list \<Rightarrow> u64 list list) \<Rightarrow> (usize \<Rightarrow> bytes) \<Rightarrow> align_to \<Rightarrow> sharding_bound \<Rightarrow> array_codec" where
  "sharding_array_codec sched sched' junk al S =
     \<lparr>ab_data_type = ab_data_type (sh_inner_codecs S), ab_fill_value = ab_fill_value (sh_inner_codecs S),
      ab_encoded_representation = sharding_encoded_representation S,
      ab_recommended_concurrency = sharding_recommended_concurrency S,
      ab_encode = (\<lambda>opt b s. sharding_encode sched junk al S opt b s),
      ab_decode = (\<lambda>opt e s. sharding_decode sched junk S opt e s),
      ab_compact = sharding_compact S,
      ab_decode_into = (\<lambda>opt e s target. sharding_decode_into sched S opt e s target),
      ab_partial_decoder = (\<lambda>opt d s. sharding_partial_decoder sched' S opt d s)\<rparr>"

end
