(* ===== verification/Sharding_Encoder.thy ===== *)
theory Sharding_Encoder
  imports Sharding_Partial
begin

text \<open>
  The partial encoder of the sharding codec (\<open>sharding/sharding_partial_encoder.rs\<close>).  Its state is the value behind the handle
  it reads and writes, and the decoded index.  The subchunks that are updated are appended to the shard, in the order in which the
  table of updated subchunks is iterated, \<open>sched\<close>; the index is written behind them or at the start.  An
  error leaves a state that is not modelled.
\<close>

definition sharding_encoder_index :: "sharding_bound \<Rightarrow> bytes_decoder \<Rightarrow> chunk_shape \<Rightarrow> codec_options \<Rightarrow> codec_error + u64 list" where
  "sharding_encoder_index S handle shard_shape opt =
     bind_res (calculate_chunks_per_shard shard_shape (sh_subchunk_shape S)) (\<lambda>cps.
     bind_res (decode_shard_index_partial_decoder S handle shard_shape opt) (\<lambda>shard_index.
     let shard_index = (case shard_index of Some ns \<Rightarrow> ns | None \<Rightarrow> replicate (wmul (wprod cps) 2) u64_MAX) in
     bind_res (map_err (\<lambda>_. CodecOther ''incompatible dimensionality'') (regular_new shard_shape (sh_subchunk_shape S)))
       (\<lambda>_. Inr shard_index)))"

definition encoder_partial_decode ::
    "(u64 list list \<Rightarrow> u64 list list) \<Rightarrow> sharding_bound \<Rightarrow> chunk_shape \<Rightarrow> codec_options \<Rightarrow> bytes_value \<times> u64 list \<Rightarrow> array_decoder" where
  "encoder_partial_decode sched S shard_shape opt = (\<lambda>(v, shard_index).
     sharding_partial_decode sched S (mutex_decoder v) shard_shape (Some shard_index) opt)"

text \<open>The end of the data of the shard.\<close>

definition max_data_offset :: "u64 list \<Rightarrow> codec_error + u64" where
  "max_data_offset shard_index =
     (case map (\<lambda>(off, len). if off = u64_MAX \<and> len = u64_MAX then 0 else wadd off len) (index_pairs shard_index) of
        [] \<Rightarrow> Inl CodecPanic
      | x # xs \<Rightarrow> Inr (foldl max x xs))"

text \<open>A subchunk of the region, with its position in the index and its subset of the shard.\<close>

definition encoder_subchunk :: "regular_chunk_grid \<Rightarrow> chunk_shape \<Rightarrow> u64 list \<Rightarrow> codec_error + (nat \<times> array_subset)" where
  "encoder_subchunk grid chunks_per_shard subchunk_indices =
     (case (ravel_indices subchunk_indices chunks_per_shard, regular_subset grid subchunk_indices) of
        (Some i, Inr (Some s)) \<Rightarrow> Inr (i, s)
      | _ \<Rightarrow> Inl CodecPanic)"

definition straddles :: "array_subset \<Rightarrow> array_subset \<Rightarrow> bool" where
  "straddles r subchunk_subset \<longleftrightarrow>
     list_ex (\<lambda>(a, b). a < b) (zip (sub_start subchunk_subset) (sub_start r)) \<or>
     list_ex (\<lambda>(a, b). b < a) (zip (end_exc subchunk_subset) (end_exc r))"

text \<open>The byte ranges of subchunks that are there, sorted.\<close>

definition stored_ranges :: "u64 list \<Rightarrow> nat list \<Rightarrow> codec_error + (nat \<times> u64 \<times> u64) list" where
  "stored_ranges shard_index subchunk_indices =
     bind_res (collect_res (map (\<lambda>i. bind_res (index_entry shard_index i) (\<lambda>(off, len). Inr (i, off, len))) subchunk_indices)) (\<lambda>es.
       Inr (sort_key (\<lambda>(_, off, _). off) (sort_key (\<lambda>(_, _, len). len)
         (filter (\<lambda>(_, off, len). \<not> (off = u64_MAX \<and> len = u64_MAX)) es))))"

definition decode_straddling ::
    "sharding_bound \<Rightarrow> bytes_decoder \<Rightarrow> codec_options \<Rightarrow> (nat \<times> u64 \<times> u64) list \<Rightarrow> codec_error + (nat \<times> array_bytes) list" where
  "decode_straddling S handle opt ranges =
     bind_res (handle (map (\<lambda>(_, off, len). FromStart off (Some len)) ranges)) (\<lambda>subchunks_encoded.
       case subchunks_encoded of
         None \<Rightarrow> Inr []
       | Some es \<Rightarrow>
           collect_res (map (\<lambda>(i, e). bind_res (ab_decode (sh_inner_codecs S) opt e (sh_subchunk_shape S)) (\<lambda>b. Inr (i, b)))
             (zip (map fst ranges) es)))"

definition update_subchunk ::
    "sharding_bound \<Rightarrow> (nat \<times> array_bytes) list \<Rightarrow> array_subset \<Rightarrow> array_bytes \<Rightarrow> nat \<times> array_subset \<Rightarrow>
     codec_error + (nat \<times> array_bytes)" where
  "update_subchunk S subchunks_decoded r chunk_subset_bytes = (\<lambda>(i, subchunk_subset).
     let C = sh_inner_codecs S; t = ab_data_type C in
     bind_res (map_err (\<lambda>_. CodecPanic) (overlap r subchunk_subset)) (\<lambda>subchunk_subset_overlap.
     bind_res (within_subchunk subchunk_subset_overlap r) (\<lambda>part.
     bind_res (extract_array_subset chunk_subset_bytes (SubsetIndexer part) (sub_shape r) t) (\<lambda>subchunk_bytes.
     bind_res (case map_of subchunks_decoded i of
         Some b \<Rightarrow> Inr b
       | None \<Rightarrow> new_fill_value t (wprod (sh_subchunk_shape S)) (ab_fill_value C)) (\<lambda>subchunk_decoded.
     bind_res (within_subchunk subchunk_subset_overlap subchunk_subset) (\<lambda>part.
     bind_res (update_array_bytes subchunk_decoded (sh_subchunk_shape S) (SubsetIndexer part) subchunk_bytes (dt_size t))
       (\<lambda>subchunk_updated. Inr (i, subchunk_updated))))))))"

text \<open>Nothing when the subchunk is all fill value.\<close>

definition encode_updated ::
    "align_to \<Rightarrow> sharding_bound \<Rightarrow> codec_options \<Rightarrow> nat \<times> array_bytes \<Rightarrow> codec_error + (nat \<times> bytes option)" where
  "encode_updated al S opt = (\<lambda>(i, b).
     let C = sh_inner_codecs S in
     if is_fill_value al b (ab_fill_value C) then Inr (i, None)
     else bind_res (ab_encode C opt b (sh_subchunk_shape S)) (\<lambda>e. Inr (i, Some e)))"

definition clear_entry :: "nat \<Rightarrow> u64 list \<Rightarrow> codec_error + u64 list" where
  "clear_entry i shard_index = set_entry shard_index i u64_MAX u64_MAX"

definition append_entry :: "nat \<times> bytes option \<Rightarrow> u64 \<times> u64 list \<Rightarrow> codec_error + (u64 \<times> u64 list)" where
  "append_entry = (\<lambda>(i, e) (offset_append, shard_index).
     case e of
       Some e \<Rightarrow>
         bind_res (set_entry shard_index i offset_append (length e)) (\<lambda>ns. Inr (wadd offset_append (length e), ns))
     | None \<Rightarrow> bind_res (set_entry shard_index i u64_MAX u64_MAX) (\<lambda>ns. Inr (offset_append, ns)))"

text \<open>Writing the subchunks that have been encoded, and the index.\<close>

definition write_updated ::
    "sharding_bound \<Rightarrow> codec_options \<Rightarrow> chunk_shape \<Rightarrow> u64 \<Rightarrow> (nat \<times> bytes option) list \<Rightarrow> u64 list \<Rightarrow> bytes_value \<Rightarrow>
     codec_error + bytes_value" where
  "write_updated S opt index_shape offset_new_chunks updated_subchunks shard_index v =
     (if list_all (\<lambda>n. n = u64_MAX) shard_index then mutex_erase v
      else
        bind_res (ab_encode (sh_index_codecs S) opt (FixedBytes (transmute_to_bytes (sh_native S) shard_index)) index_shape)
          (\<lambda>encoded_array_index.
        let encoded_output = concat (List.map_filter snd updated_subchunks) in
        mutex_partial_encode_many v
          (case sh_index_location S of
             IndexStart \<Rightarrow> [(0, encoded_array_index), (offset_new_chunks, encoded_output)]
           | IndexEnd \<Rightarrow> [(offset_new_chunks, encoded_output @ encoded_array_index)])))"

definition sharding_partial_encode ::
    "(u64 list list \<Rightarrow> u64 list list) \<Rightarrow> align_to \<Rightarrow> sharding_bound \<Rightarrow> chunk_shape \<Rightarrow> codec_options \<Rightarrow> indexer \<Rightarrow> array_bytes \<Rightarrow>
     bytes_value \<times> u64 list \<Rightarrow> codec_error + (bytes_value \<times> u64 list)" where
  "sharding_partial_encode sched al S shard_shape opt x chunk_subset_bytes = (\<lambda>(v, shard_index).
     bind_res (calculate_chunks_per_shard shard_shape (sh_subchunk_shape S)) (\<lambda>cps.
     bind_res (max_data_offset shard_index) (\<lambda>data_offset.
       case ix_as_array_subset x of
         None \<Rightarrow> Inl (CodecOther ''sharding_indexed does not yet support partial encoding with generic indexers'')
       | Some r \<Rightarrow>
           if list_ex (\<lambda>(a, b). b < a) (zip (end_exc r) shard_shape)
           then Inl (IncompatibleIndexer (OutOfBounds (end_exc r) shard_shape))
           else
             bind_res (map_err (\<lambda>_. CodecPanic) (regular_new shard_shape (sh_subchunk_shape S))) (\<lambda>grid.
             bind_res (subchunks_of_region grid r) (\<lambda>subchunks.
             bind_res (collect_res (map (encoder_subchunk grid cps) (sched subchunks))) (\<lambda>intersected.
             bind_res (stored_ranges shard_index (map fst (filter (\<lambda>(_, s). straddles r s) intersected))) (\<lambda>ranges.
             bind_res (decode_straddling S (mutex_decoder v) opt ranges) (\<lambda>subchunks_decoded.
             bind_res (collect_res (map (update_subchunk S subchunks_decoded r chunk_subset_bytes) intersected)) (\<lambda>updated.
             bind_res (collect_res (map (encode_updated al S opt) updated)) (\<lambda>updated_subchunks.
             bind_res (try_for_each clear_entry (map fst intersected) shard_index) (\<lambda>shard_index.
             bind_res (if list_all (\<lambda>n. n = u64_MAX) shard_index
                 then bind_res (mutex_erase v) (\<lambda>v. Inr (v, 0)) else Inr (v, data_offset)) (\<lambda>(v, data_offset).
             bind_res (compute_index_encoded_size (sh_index_codecs S) (sharding_index_shape cps)) (\<lambda>index_encoded_size.
             let offset_new_chunks = (case sh_index_location S of
                 IndexStart \<Rightarrow> max data_offset index_encoded_size | IndexEnd \<Rightarrow> data_offset) in
             bind_res (try_for_each append_entry updated_subchunks (offset_new_chunks, shard_index)) (\<lambda>(_, shard_index).
             bind_res (write_updated S opt (sharding_index_shape cps) offset_new_chunks updated_subchunks shard_index v) (\<lambda>v.
               Inr (v, shard_index))))))))))))))))"

end
