(* ===== verification/Grid_Contract.thy ===== *)
theory Grid_Contract
  imports Chunk_Grid
begin

text \<open>
  What the array operations need of a chunk grid, stated on the trait object alone: \<open>grid_contract\<close>.  Every grid of
  the family satisfies it.
\<close>

text \<open>The subset of a chunk, where there is one.\<close>

definition chunk_area :: "chunk_grid \<Rightarrow> u64 list \<Rightarrow> array_subset" where
  "chunk_area G c = (case cg_subset G c of Inr (Some s) \<Rightarrow> s | _ \<Rightarrow> new_empty 0)"

definition grid_contract :: "chunk_grid \<Rightarrow> bool" where
  "grid_contract G \<longleftrightarrow> grid_lawful G \<and> 0 \<notin> set (cg_array_shape G) \<and>
     cg_dimensionality G = length (cg_array_shape G) \<and> length (cg_grid_shape G) = length (cg_array_shape G) \<and>
     (\<forall>c. inb c (cg_grid_shape G) \<longrightarrow>
        cg_subset G c = Inr (Some (chunk_area G c)) \<and> wf_subset (chunk_area G c) \<and> \<not> is_empty (chunk_area G c) \<and>
        length (sub_start (chunk_area G c)) = length (cg_array_shape G) \<and>
        cg_chunk_shape G c = Inr (Some (sub_shape (chunk_area G c))) \<and>
        cg_chunk_shape_u64 G c = Inr (Some (sub_shape (chunk_area G c)))) \<and>
     (\<forall>c c' i. inb c (cg_grid_shape G) \<and> inb c' (cg_grid_shape G) \<and> i \<in> elements (chunk_area G c) \<and>
        i \<in> elements (chunk_area G c') \<longrightarrow> c = c')"

context chunk_grid_family
begin

lemma contract:
  assumes "wf g" and "0 \<notin> set (cg_array_shape (vt g))"
  shows "grid_contract (vt g)"
proof -
  have area: "chunk_area (vt g) c = chunk_box g c" if "inb c (cg_grid_shape (vt g))" for c
    using subset_eq_box[OF assms that] by (simp add: chunk_area_def)
  show ?thesis
    unfolding grid_contract_def
  proof (intro conjI allI impI)
    show "grid_lawful (vt g)" using assms(1) by (rule grid_is_lawful)
    show "0 \<notin> set (cg_array_shape (vt g))" using assms(2) .
    show "cg_dimensionality (vt g) = length (cg_array_shape (vt g))"
      "length (cg_grid_shape (vt g)) = length (cg_array_shape (vt g))" using dims[OF assms(1)] by simp_all
    fix c assume c: "inb c (cg_grid_shape (vt g))"
    show "cg_subset (vt g) c = Inr (Some (chunk_area (vt g) c))" using subset_eq_box[OF assms c] by (simp add: area[OF c])
    show "wf_subset (chunk_area (vt g) c)" using wf_chunk_box[OF assms c] by (simp add: area[OF c])
    show "\<not> is_empty (chunk_area (vt g) c)"
      using bnd_le_Suc(1)[OF assms c] by (simp add: area[OF c] chunk_box_def is_empty_def list_ex_length)
    show "length (sub_start (chunk_area (vt g) c)) = length (cg_array_shape (vt g))"
      using dims[OF assms(1)] by (simp add: area[OF c] chunk_box_def)
    show "cg_chunk_shape (vt g) c = Inr (Some (sub_shape (chunk_area (vt g) c)))"
      using shp[OF assms c] by (simp add: area[OF c] chunk_box_def)
    then show "cg_chunk_shape_u64 (vt g) c = Inr (Some (sub_shape (chunk_area (vt g) c)))"
      using shp_u64[OF assms(1)] by simp
  next
    fix c c' i
    assume "inb c (cg_grid_shape (vt g)) \<and> inb c' (cg_grid_shape (vt g)) \<and> i \<in> elements (chunk_area (vt g) c) \<and>
      i \<in> elements (chunk_area (vt g) c')"
    then show "c = c'" using chunk_box_unique[OF assms(1)] assms(2) area by (metis (no_types))
  qed
qed

end

end
