(* ===== verification/Subset_Geometry.thy ===== *)
theory Subset_Geometry
  imports Array_Codecs
begin

text \<open>
  The geometry of chunks: a part of a subset, relative to the start of the subset, and where its elements are in the
  linear order of the subset.  These lemmas turn index arithmetic into statements on elements.
\<close>

definition rel :: "nat list \<Rightarrow> nat list \<Rightarrow> nat list" where
  "rel i o1 = map (\<lambda>(a, b). a - b) (zip i o1)"

lemma length_rel [simp]: "length (rel i o1) = min (length i) (length o1)"
  by (simp add: rel_def)

lemma nth_rel [simp]: "k < length i \<Longrightarrow> k < length o1 \<Longrightarrow> rel i o1 ! k = i ! k - o1 ! k"
  by (simp add: rel_def)

text \<open>The position of an element of a subset in its linear order.\<close>

definition pos :: "array_subset \<Rightarrow> nat list \<Rightarrow> nat" where
  "pos s i = lin (sub_shape s) (rel i (sub_start s))"

lemma rel_inb:
  assumes "wf_subset s" and "i \<in> elements s"
  shows "inb (rel i (sub_start s)) (sub_shape s)"
  using assms by (auto simp: inb_nth mem_elements wf_subset_length)

lemma pos_less: "wf_subset s \<Longrightarrow> i \<in> elements s \<Longrightarrow> pos s i < prod_list (sub_shape s)"
  unfolding pos_def by (intro lin_less rel_inb)

lemma pos_inj:
  assumes "wf_subset s" and "i \<in> elements s" and "j \<in> elements s" and "pos s i = pos s j"
  shows "i = j"
proof (rule nth_equalityI)
  have len: "length i = length (sub_start s)" "length j = length (sub_start s)" using assms(2,3) by (simp_all add: mem_elements)
  show "length i = length j" using len by simp
  have u: "unlin (sub_shape s) (pos s i) = rel i (sub_start s)" "unlin (sub_shape s) (pos s j) = rel j (sub_start s)"
    unfolding pos_def by (rule unlin_lin[OF rel_inb[OF assms(1,2)]], rule unlin_lin[OF rel_inb[OF assms(1,3)]])
  have "rel i (sub_start s) = rel j (sub_start s)" unfolding u[symmetric] assms(4) ..
  then have "rel i (sub_start s) ! k = rel j (sub_start s) ! k" for k by simp
  then have *: "i ! k - sub_start s ! k = j ! k - sub_start s ! k" if "k < length (sub_start s)" for k
    using that len nth_rel[of k i "sub_start s"] nth_rel[of k j "sub_start s"] by simp
  fix k assume k: "k < length i"
  then have "sub_start s ! k \<le> i ! k" "sub_start s ! k \<le> j ! k" using assms(2,3) len by (simp_all add: mem_elements)
  then show "i ! k = j ! k" using *[of k] k len by simp
qed

text \<open>The linear order of the subset is that of its list of elements.\<close>

lemma map_pos_box:
  assumes "wf_subset s"
  shows "map (pos s) (box (sub_start s) (sub_shape s)) = [0..<prod_list (sub_shape s)]"
proof -
  have l: "length (sub_start s) = length (sub_shape s)" using assms by (simp add: wf_subset_length)
  have "rel (map (\<lambda>(a, b). a + b) (zip j (sub_start s))) (sub_start s) = j"
    if "j \<in> set (box (replicate (length (sub_shape s)) 0) (sub_shape s))" for j
    using that l by (intro nth_equalityI) (auto simp: mem_box)
  then have "map (pos s) (box (sub_start s) (sub_shape s)) =
      map (lin (sub_shape s)) (box (replicate (length (sub_shape s)) 0) (sub_shape s))"
    unfolding box_shift[OF l] by (simp add: pos_def)
  also have "\<dots> = [0..<prod_list (sub_shape s)]" by (rule map_lin_box_zeros)
  finally show ?thesis .
qed

text \<open>A non-empty part of a subset, relative to its start.\<close>

lemma start_mem: "wf_subset p \<Longrightarrow> \<not> is_empty p \<Longrightarrow> sub_start p \<in> elements p"
  by (auto simp: mem_elements is_empty_def list_ex_length wf_subset_length)

lemma part_length:
  "wf_subset p \<Longrightarrow> elements p \<subseteq> elements s \<Longrightarrow> \<not> is_empty p \<Longrightarrow> length (sub_start s) = length (sub_start p)"
  using subsetD[OF _ start_mem, of p "elements s"] by (simp add: mem_elements)

lemma part_bounds:
  assumes "wf_subset p" and "elements p \<subseteq> elements s" and "\<not> is_empty p" and "k < length (sub_start p)"
  shows "sub_start s ! k \<le> sub_start p ! k"
    and "sub_start p ! k + sub_shape p ! k \<le> sub_start s ! k + sub_shape s ! k"
proof -
  have l: "length (sub_start p) = length (sub_shape p)" using assms(1) by (simp add: wf_subset_length)
  have pos: "0 < sub_shape p ! k" if "k < length (sub_shape p)" for k
    using assms(3) that by (auto simp: is_empty_def list_ex_length)
  have "sub_start p \<in> elements s" using start_mem[OF assms(1,3)] assms(2) by blast
  then show "sub_start s ! k \<le> sub_start p ! k" using assms(4) by (auto simp: mem_elements)
  obtain w where w: "sub_shape p ! k = Suc w" using pos[of k] assms(4) l by (cases "sub_shape p ! k") auto
  define i where "i = (sub_start p)[k := sub_start p ! k + w]"
  have i: "length i = length (sub_start p)" "i ! k = sub_start p ! k + w"
      "\<And>m. m < length (sub_start p) \<Longrightarrow> i ! m = (if m = k then sub_start p ! k + w else sub_start p ! m)"
    using assms(4) by (simp_all add: i_def)
  then have "i \<in> elements p" using l pos w by (simp add: mem_elements)
  then have "i \<in> elements s" using assms(2) by blast
  then show "sub_start p ! k + sub_shape p ! k \<le> sub_start s ! k + sub_shape s ! k"
    using assms(4) w i(1,2) by (auto simp: mem_elements)
qed

lemma relative_part:
  assumes "wf_subset p" and "elements p \<subseteq> elements s" and "\<not> is_empty p"
  shows "relative_to p (sub_start s) = Inr \<lparr>sub_start = rel (sub_start p) (sub_start s), sub_shape = sub_shape p\<rparr>"
proof -
  note b = part_bounds[OF assms] and len = part_length[OF assms]
  have lt: "sub_start p ! k < M64" if "k < length (sub_start p)" for k
    using assms(1) that by (metis add_lessD1 wf_subset_length wf_subset_nth)
  have "map (\<lambda>(a, b). wsub a b) (zip (sub_start p) (sub_start s)) = rel (sub_start p) (sub_start s)"
    using len b(1) lt by (intro nth_equalityI) (simp_all add: wsub_eq)
  moreover have "\<not> list_ex (\<lambda>(a, b). a < b) (zip (sub_start p) (sub_start s))"
    using len b(1) by (simp add: list_ex_zip_nth) (metis leD)
  ultimately show ?thesis
    using len wf_subset_length[OF assms(1)] by (simp add: relative_to_def new_with_start_shape_def)
qed

lemma part_relative:
  assumes "wf_subset p" and "wf_subset s" and "elements p \<subseteq> elements s" and "\<not> is_empty p"
  obtains q where "relative_to p (sub_start s) = Inr q" and "subset_covered q (sub_shape s)"
    and "sub_shape q = sub_shape p"
    and "sub_idx (sub_shape s) q = map (pos s) (box (sub_start p) (sub_shape p))"
proof
  have lp: "length (sub_start p) = length (sub_shape p)" and ls: "length (sub_start s) = length (sub_shape s)"
    using assms(1,2) by (simp_all add: wf_subset_length)
  note b = part_bounds[OF assms(1,3,4)]
  have len: "length (sub_start s) = length (sub_start p)" using part_length[OF assms(1,3,4)] .
  let ?q = "\<lparr>sub_start = rel (sub_start p) (sub_start s), sub_shape = sub_shape p\<rparr>"
  show r: "relative_to p (sub_start s) = Inr ?q" by (rule relative_part[OF assms(1,3,4)])
  have f: "fits ?q (sub_shape s)"
    using assms(1) len lp ls b by (fastforce simp: fits_def wf_subset_nth)
  moreover have "inb (rel (sub_start p) (sub_start s)) (sub_shape s)"
    using start_mem[OF assms(1,4)] assms(3) by (intro rel_inb[OF assms(2)]) blast
  ultimately show "subset_covered ?q (sub_shape s)" by (simp add: subset_covered_def)
  show "sub_shape ?q = sub_shape p" by simp
  have "box (rel (sub_start p) (sub_start s)) (sub_shape p) = map (\<lambda>i. rel i (sub_start s)) (box (sub_start p) (sub_shape p))"
  proof -
    have "map (\<lambda>(a, b). a + b) (zip j (rel (sub_start p) (sub_start s))) =
        rel (map (\<lambda>(a, b). a + b) (zip j (sub_start p))) (sub_start s)"
      if "j \<in> set (box (replicate (length (sub_shape p)) 0) (sub_shape p))" for j
      using that lp len b(1) by (intro nth_equalityI) (auto simp: mem_box)
    then show ?thesis
      using lp len box_shift[of "sub_start p" "sub_shape p"]
        box_shift[of "rel (sub_start p) (sub_start s)" "sub_shape p"] by simp
  qed
  then show "sub_idx (sub_shape s) ?q = map (pos s) (box (sub_start p) (sub_shape p))"
    by (simp add: pos_def)
qed

end
