(* ===== verification/Grid_Regions.thy ===== *)
theory Grid_Regions
  imports Grid_Contract Subset_Geometry Array_Bytes_Laws
begin

text \<open>
  Values on a chunk grid: the values of a function of indices on a subset, and the chunks that meet a region, with the
  part of each chunk in the region.  The array operations and the sharding codec read and write such parts.
\<close>

definition subset_values :: "(u64 list \<Rightarrow> element) \<Rightarrow> array_subset \<Rightarrow> element list" where
  "subset_values f s = map f (box (sub_start s) (sub_shape s))"

subsection \<open>Values of a subset\<close>

lemma length_subset_values: "wf_subset s \<Longrightarrow> length (subset_values f s) = prod_list (sub_shape s)"
  by (simp add: subset_values_def length_box wf_subset_length)

lemma nth_subset_values:
  assumes "wf_subset s" and "i \<in> elements s"
  shows "subset_values f s ! pos s i = f i"
proof -
  let ?B = "box (sub_start s) (sub_shape s)"
  obtain k where k: "k < length ?B" "?B ! k = i" using assms set_box[OF assms(1)] by (metis in_set_conv_nth)
  have n: "length ?B = prod_list (sub_shape s)" using assms(1) by (simp add: length_box wf_subset_length)
  have "map (pos s) ?B ! k = [0..<prod_list (sub_shape s)] ! k" unfolding map_pos_box[OF assms(1)] ..
  then have "pos s i = k" using k n by simp
  then show ?thesis using k by (simp add: subset_values_def)
qed

lemma subset_values_eqI:
  assumes "wf_subset s" and "length V = prod_list (sub_shape s)" and "\<And>i. i \<in> elements s \<Longrightarrow> V ! pos s i = f i"
  shows "V = subset_values f s"
proof -
  let ?B = "box (sub_start s) (sub_shape s)"
  have "map ((!) V) (map (pos s) ?B) = map f ?B"
    using assms(3) set_box[OF assms(1)] by auto
  moreover have "map ((!) V) [0..<prod_list (sub_shape s)] = V" using assms(2) by (metis map_nth)
  ultimately show ?thesis unfolding map_pos_box[OF assms(1)] subset_values_def by simp
qed

lemma subset_values_part:
  assumes "wf_subset p" and "wf_subset s" and "elements p \<subseteq> elements s"
  shows "map ((!) (subset_values f s)) (map (pos s) (box (sub_start p) (sub_shape p))) = subset_values f p"
  using assms(3) set_box[OF assms(1)] nth_subset_values[OF assms(2)] by (auto simp: subset_values_def[of f p])

lemma subset_values_cong:
  "wf_subset s \<Longrightarrow> (\<And>i. i \<in> elements s \<Longrightarrow> f i = g i) \<Longrightarrow> subset_values f s = subset_values g s"
  using set_box by (auto simp: subset_values_def)

text \<open>Scattering a part of a subset.\<close>

lemma scatter_part:
  assumes "wf_subset s" and "wf_subset p" and "elements p \<subseteq> elements s" and "length W = prod_list (sub_shape s)"
    and "i \<in> elements s"
  shows "scatter W (map (pos s) (box (sub_start p) (sub_shape p))) (subset_values f p) ! pos s i =
     (if i \<in> elements p then f i else W ! pos s i)"
proof -
  let ?B = "box (sub_start p) (sub_shape p)"
  have B: "set ?B = elements p" "distinct ?B"
    using assms(2) by (simp_all add: set_box distinct_box wf_subset_length)
  have inj: "inj_on (pos s) (elements s)" using pos_inj[OF assms(1)] by (intro inj_onI) blast
  have d: "distinct (map (pos s) ?B)"
    using B assms(3) inj by (simp add: distinct_map inj_on_subset)
  show ?thesis
  proof (cases "i \<in> elements p")
    case True
    then obtain k where k: "k < length ?B" "?B ! k = i" using B(1) by (metis in_set_conv_nth)
    then have "scatter W (map (pos s) ?B) (subset_values f p) ! (map (pos s) ?B ! k) = subset_values f p ! k"
      using pos_less[OF assms(1,5)] assms(4) d by (intro scatter_nth) (simp_all add: subset_values_def)
    then show ?thesis using k True by (simp add: subset_values_def)
  next
    case False
    have "pos s i \<notin> set (map (pos s) ?B)"
      using False inj assms(3,5) B(1) by (auto dest: inj_onD)
    then show ?thesis using False by (simp add: scatter_other)
  qed
qed

subsection \<open>The chunks of a region\<close>

locale chunked =
  fixes G :: chunk_grid
  assumes contract: "grid_contract G" and few: "prod_list (cg_grid_shape G) < M64"
begin

abbreviation "chunk c \<equiv> inb c (cg_grid_shape G)"
abbreviation "area c \<equiv> chunk_area G c"

lemma parts:
  shows "chunk_partition G" and "region_chunks_exact G" and "chunks_union_exact G"
    and "\<And>c. chunk c \<Longrightarrow> cg_subset G c = Inr (Some (area c))"
    and "\<And>c c' i. chunk c \<Longrightarrow> chunk c' \<Longrightarrow> i \<in> elements (area c) \<Longrightarrow> i \<in> elements (area c') \<Longrightarrow> c = c'"
    and "\<And>c. chunk c \<Longrightarrow> wf_subset (area c)"
    and "\<And>c. chunk c \<Longrightarrow> length (sub_start (area c)) = length (cg_array_shape G)"
  using contract unfolding grid_contract_def grid_lawful_def by blast+

lemma few_chunks:
  assumes "wf_subset cs" and "elements cs \<subseteq> {c. chunk c}"
  shows "prod_list (sub_shape cs) \<le> prod_list (cg_grid_shape G)"
proof -
  let ?n = "cg_grid_shape G" and ?B = "box (sub_start cs) (sub_shape cs)"
  have B: "set ?B \<subseteq> {c. chunk c}" "distinct ?B" "length ?B = prod_list (sub_shape cs)"
    using assms by (simp_all add: set_box distinct_box length_box wf_subset_length)
  have "inj_on (lin ?n) (set ?B)"
    by (rule inj_on_inverseI[where g = "unlin ?n"]) (use B(1) unlin_lin in blast)
  then have "distinct (map (lin ?n) ?B)" using B(2) by (simp add: distinct_map)
  moreover have "\<forall>k \<in> set (map (lin ?n) ?B). k < prod_list ?n" using B(1) lin_less by auto
  ultimately show ?thesis using distinct_length_le B(3) by fastforce
qed

lemma covered:
  assumes "wf_subset r" and "inbounds_shape r (cg_array_shape G)" and "i \<in> elements r"
  shows "\<exists>c. chunk c \<and> i \<in> elements (area c)"
proof -
  have "inb i (cg_array_shape G)" using inbounds_elements_inb[OF assms] .
  then obtain c s where "chunk c" "cg_subset G c = Inr (Some s)" "i \<in> elements s"
    using parts(1) unfolding chunk_partition_def by blast
  then show ?thesis using parts(4) by auto
qed

lemma region_chunks:
  assumes "wf_subset r" and "inbounds_shape r (cg_array_shape G)" and "\<not> is_empty r"
  obtains cs where "chunks_in_array_subset G r = Inr (Some cs)" and "wf_subset cs"
    and "elements cs = {c. chunk c \<and> elements (area c) \<inter> elements r \<noteq> {}}"
    and "indices_collect (indices_new cs) = box (sub_start cs) (sub_shape cs)"
    and "set (box (sub_start cs) (sub_shape cs)) = elements cs"
    and "num_elements cs = length (box (sub_start cs) (sub_shape cs))"
    and "sub_start cs \<in> elements cs"
    and "\<And>i. i \<in> elements r \<Longrightarrow> \<exists>c \<in> elements cs. i \<in> elements (area c)"
proof -
  obtain cs where cs: "chunks_in_array_subset G r = Inr (Some cs)" "wf_subset cs"
      "\<forall>c. c \<in> elements cs \<longleftrightarrow> chunk c \<and> (\<exists>s. cg_subset G c = Inr (Some s) \<and> elements s \<inter> elements r \<noteq> {})"
    using parts(2) assms unfolding region_chunks_exact_def by blast
  have el: "elements cs = {c. chunk c \<and> elements (area c) \<inter> elements r \<noteq> {}}"
    using cs(3) parts(4) by (intro set_eqI) (metis (mono_tags, lifting) mem_Collect_eq option.inject sum.inject(2))
  have n: "prod_list (sub_shape cs) < M64" using few_chunks[OF cs(2)] el few by fastforce
  have B: "set (box (sub_start cs) (sub_shape cs)) = elements cs"
    "num_elements cs = length (box (sub_start cs) (sub_shape cs))"
    using n cs(2) by (simp_all add: set_box length_box wf_subset_length num_elements_def wprod_eq)
  have ex: "\<exists>c \<in> elements cs. i \<in> elements (area c)" if i: "i \<in> elements r" for i
    using covered[OF assms(1,2) i] i el by auto
  have "elements cs \<noteq> {}" using ex elements_start[OF assms(1,3)] by blast
  then have "sub_start cs \<in> elements cs" using elements_start[OF cs(2)] elements_empty_iff[OF cs(2)] by blast
  then show ?thesis using that[OF cs(1,2) el indices_collect_new[OF cs(2) n] B _ ex] by blast
qed

text \<open>The part of a chunk in a region.\<close>

lemma chunk_part:
  assumes "wf_subset r" and "inbounds_shape r (cg_array_shape G)" and "chunk c" and "elements (area c) \<inter> elements r \<noteq> {}"
  obtains p where "overlap (area c) r = Inr p" and "overlap r (area c) = Inr p" and "wf_subset p"
    and "elements p = elements (area c) \<inter> elements r" and "\<not> is_empty p"
proof -
  note wf = parts(6)[OF assms(3)]
  have l: "length (sub_start r) = length (sub_start (area c))"
    using assms(2) parts(7)[OF assms(3)] by (auto simp: inbounds_shape_def dimensionality_def split: if_splits)
  have "length (sub_shape r) = length (sub_shape (area c))" using l assms(1) wf by (simp add: wf_subset_length)
  then have "overlap r (area c) = overlap (area c) r"
    using l by (auto simp: overlap_def max.commute min.commute intro!: arg_cong[where f = from_ranges] nth_equalityI)
  moreover obtain p where p: "overlap (area c) r = Inr p" "wf_subset p" "elements p = elements (area c) \<inter> elements r"
    using overlap_inter[OF wf assms(1)] l by auto
  ultimately show ?thesis using that[of p] assms(4) elements_empty_iff[OF p(2)] by simp
qed

lemma part_in_chunk_and_region:
  assumes "wf_subset r" and "inbounds_shape r (cg_array_shape G)" and "chunk c" and "elements (area c) \<inter> elements r \<noteq> {}"
  obtains p q s where "overlap (area c) r = Inr p" and "overlap r (area c) = Inr p" and "wf_subset p"
    and "elements p = elements (area c) \<inter> elements r"
    and "relative_to p (sub_start r) = Inr q" and "subset_covered q (sub_shape r)"
    and "sub_idx (sub_shape r) q = map (pos r) (box (sub_start p) (sub_shape p))"
    and "relative_to p (sub_start (area c)) = Inr s" and "subset_covered s (sub_shape (area c))"
    and "sub_idx (sub_shape (area c)) s = map (pos (area c)) (box (sub_start p) (sub_shape p))"
proof -
  obtain p where p: "overlap (area c) r = Inr p" "overlap r (area c) = Inr p" "wf_subset p"
      "elements p = elements (area c) \<inter> elements r" "\<not> is_empty p"
    using chunk_part[OF assms] by metis
  have sub: "elements p \<subseteq> elements r" "elements p \<subseteq> elements (area c)" using p(4) by blast+
  obtain q where q: "relative_to p (sub_start r) = Inr q" "subset_covered q (sub_shape r)"
      "sub_idx (sub_shape r) q = map (pos r) (box (sub_start p) (sub_shape p))"
    using part_relative[OF p(3) assms(1) sub(1) p(5)] by metis
  obtain s where s: "relative_to p (sub_start (area c)) = Inr s" "subset_covered s (sub_shape (area c))"
      "sub_idx (sub_shape (area c)) s = map (pos (area c)) (box (sub_start p) (sub_shape p))"
    using part_relative[OF p(3) parts(6)[OF assms(3)] sub(2) p(5)] by metis
  show ?thesis by (rule that[OF p(1-4) q s])
qed

text \<open>Reading the part of a chunk puts its values in place, and keeps the others.\<close>

lemma read_step_values:
  assumes "wf_subset r" and "chunk c" and "wf_subset p"
    and "elements p = elements (area c) \<inter> elements r" and "length W = prod_list (sub_shape r)"
    and "W' = scatter W (map (pos r) (box (sub_start p) (sub_shape p)))
      (map ((!) (subset_values f (area c))) (map (pos (area c)) (box (sub_start p) (sub_shape p))))"
    and "\<forall>i \<in> elements r. (\<exists>c \<in> D. i \<in> elements (area c)) \<longrightarrow> W ! pos r i = f i"
  shows "\<forall>i \<in> elements r. (\<exists>c \<in> insert c D. i \<in> elements (area c)) \<longrightarrow> W' ! pos r i = f i"
proof (intro ballI impI)
  fix i assume i: "i \<in> elements r" "\<exists>c \<in> insert c D. i \<in> elements (area c)"
  have "map ((!) (subset_values f (area c))) (map (pos (area c)) (box (sub_start p) (sub_shape p))) = subset_values f p"
    using assms(4) by (intro subset_values_part[OF assms(3) parts(6)[OF assms(2)]]) blast
  then have "W' ! pos r i = (if i \<in> elements p then f i else W ! pos r i)"
    unfolding assms(6) using assms(4) i(1) by (simp add: scatter_part[OF assms(1,3) _ assms(5)])
  then show "W' ! pos r i = f i" using assms(4,7) i by auto
qed

end

lemma single_chunk:
  assumes "wf_subset cs" and "num_elements cs = 1" and "num_elements cs = length (box (sub_start cs) (sub_shape cs))"
    and "sub_start cs \<in> elements cs"
  shows "elements cs = {sub_start cs}"
proof -
  have "length (box (sub_start cs) (sub_shape cs)) = Suc 0" using assms(2,3) by simp
  then obtain c where "box (sub_start cs) (sub_shape cs) = [c]" unfolding length_Suc_conv length_0_conv by blast
  then have "elements cs = {c}" using set_box[OF assms(1)] by simp
  then show ?thesis using assms(4) by simp
qed

end
