(* ===== verification/Shard_Geometry.thy ===== *)
theory Shard_Geometry
  imports Sharding_Partial Grid_Regions
begin

text \<open>
  The subchunks of a shard: a regular grid whose chunk shape divides the shape of the shard, the order of its subchunks in the
  index, the words of the index as bytes, and writing a part of a region through the positions of the region in a larger array.
\<close>

subsection \<open>Words as bytes\<close>

lemma le_value_map: "le_value (map (\<lambda>k. word_of_nat (n div 256 ^ k)) [a..<a + m]) = n div 256 ^ a mod 256 ^ m"
proof (induction m arbitrary: a)
  case (Suc m)
  have "le_value (map (\<lambda>k. word_of_nat (n div 256 ^ k)) [a..<a + Suc m]) =
      n div 256 ^ a mod 256 + 256 * (n div 256 ^ Suc a mod 256 ^ m)"
    using Suc.IH[of "Suc a"] by (simp add: upt_rec unat_of_nat)
  also have "n div 256 ^ Suc a = n div 256 ^ a div 256" by (simp add: div_mult2_eq mult.commute flip: power_Suc2) (metis div_mult2_eq mult.commute)
  also have "n div 256 ^ a mod 256 + 256 * (n div 256 ^ a div 256 mod 256 ^ m) = n div 256 ^ a mod 256 ^ Suc m"
    by (simp add: mod_mult2_eq)
  finally show ?case .
qed simp

lemma length_ne_bytes [simp]: "length (to_ne_bytes native n) = 8"
  by (simp add: to_ne_bytes_def le_bytes_def)

lemma ne_bytes_inverse: "n < M64 \<Longrightarrow> from_ne_bytes native (to_ne_bytes native n) = n"
  using le_value_map[of n 0 8] by (simp add: from_ne_bytes_def to_ne_bytes_def le_bytes_def M64_def)

lemma length_transmute: "length (transmute_to_bytes native ns) = length ns * 8"
  by (simp add: transmute_to_bytes_def length_concat comp_def sum_list_triv)

lemma transmute_inverse:
  assumes "\<forall>n \<in> set ns. n < M64"
  shows "map (from_ne_bytes native) (chunks_exact 8 (transmute_to_bytes native ns)) = ns"
proof -
  have "sized 8 (map (to_ne_bytes native) ns)" by (simp add: sized_def list_all_iff)
  then show ?thesis
    using assms by (simp add: transmute_to_bytes_def chunks_concat ne_bytes_inverse comp_def map_idI)
qed

subsection \<open>The grid of the subchunks\<close>

definition per_shard :: "chunk_shape \<Rightarrow> chunk_shape \<Rightarrow> chunk_shape" where
  "per_shard s sub = map (\<lambda>(s, c). s div c) (zip s sub)"

definition shard_grid :: "chunk_shape \<Rightarrow> chunk_shape \<Rightarrow> regular_chunk_grid" where
  "shard_grid s sub = \<lparr>rg_array_shape = s, rg_grid_shape = per_shard s sub, rg_chunk_shape = sub\<rparr>"

definition divided :: "chunk_shape \<Rightarrow> chunk_shape \<Rightarrow> bool" where
  "divided s sub \<longleftrightarrow> list_all2 (\<lambda>x y. 0 < x \<and> 0 < y \<and> x mod y = 0 \<and> x + y \<le> M64) s sub \<and> prod_list s < M64"

lemma dividedD:
  assumes "divided s sub"
  shows "length sub = length s" and "\<And>k. k < length s \<Longrightarrow> 0 < s ! k" and "\<And>k. k < length s \<Longrightarrow> 0 < sub ! k"
    and "\<And>k. k < length s \<Longrightarrow> s ! k mod sub ! k = 0" and "prod_list s < M64" and "list_all ((<) 0) s"
  using assms by (auto simp: divided_def list_all2_conv_all_nth list_all_length)

lemma calculate_divided: "divided s sub \<Longrightarrow> calculate_chunks_per_shard s sub = Inr (per_shard s sub)"
proof -
  assume d: "divided s sub"
  have "map (\<lambda>(s, c). if s mod c = 0 then Inr (s div c) else Inl (CodecOther ''invalid subchunk shape, it must evenly divide shard shape''))
      (zip s sub) = map Inr (per_shard s sub)"
    using dividedD[OF d] by (intro nth_equalityI) (simp_all add: per_shard_def)
  then show ?thesis unfolding calculate_chunks_per_shard_def by simp
qed

lemma regular_new_divided:
  assumes "divided s sub"
  shows "regular_new s sub = Inr (shard_grid s sub)"
proof -
  have "div_ceil (s ! k) (sub ! k) = s ! k div sub ! k" if "k < length s" for k
    using dividedD(4)[OF assms that] by (simp add: div_ceil_def)
  then have "map (\<lambda>(x, y). div_ceil x y) (zip s sub) = per_shard s sub"
    using dividedD(1)[OF assms] by (intro nth_equalityI) (simp_all add: per_shard_def)
  then show ?thesis using dividedD(1)[OF assms] by (simp add: regular_new_def shard_grid_def)
qed

lemma wf_shard_grid: "divided s sub \<Longrightarrow> wf_regular (shard_grid s sub)"
  using regular_new_divided[of s sub]
  by (auto simp: wf_regular_def shard_grid_def fits_chunks_def divided_def elim!: list_all2_mono)

lemma per_shard_nth:
  assumes "divided s sub" and "k < length s"
  shows "per_shard s sub ! k = s ! k div sub ! k" and "per_shard s sub ! k * sub ! k = s ! k" and "0 < per_shard s sub ! k"
    and "per_shard s sub ! k \<le> s ! k"
proof -
  show n: "per_shard s sub ! k = s ! k div sub ! k" using dividedD(1)[OF assms(1)] assms(2) by (simp add: per_shard_def)
  show m: "per_shard s sub ! k * sub ! k = s ! k"
    using dividedD(4)[OF assms] n by (metis add.right_neutral div_mult_mod_eq)
  show "0 < per_shard s sub ! k" using m dividedD(2)[OF assms] by (cases "per_shard s sub ! k") auto
  show "per_shard s sub ! k \<le> s ! k" by (simp add: n)
qed

lemma length_per_shard: "divided s sub \<Longrightarrow> length (per_shard s sub) = length s"
  using dividedD(1)[of s sub] by (simp add: per_shard_def)

lemma prod_list_nth_mono:
  "length a = length b \<Longrightarrow> (\<And>k. k < length a \<Longrightarrow> a ! k \<le> (b ! k :: nat)) \<Longrightarrow> prod_list a \<le> prod_list b"
proof (induction a b rule: list_induct2)
  case (Cons x a y b)
  have "x \<le> y" using Cons.prems[of 0] by simp
  moreover have "prod_list a \<le> prod_list b" using Cons.prems[of "Suc _"] by (intro Cons.IH) auto
  ultimately show ?case by (simp add: mult_le_mono)
qed simp

lemma prod_list_nth_times:
  "length a = length b \<Longrightarrow> length c = length b \<Longrightarrow> (\<And>k. k < length b \<Longrightarrow> a ! k * b ! k = (c ! k :: nat)) \<Longrightarrow>
     prod_list a * prod_list b = prod_list c"
proof (induction c arbitrary: a b)
  case (Cons z c)
  then obtain x a' y b' where ab: "a = x # a'" "b = y # b'" by (metis length_Suc_conv)
  have "x * y = z" using Cons.prems(3)[of 0] ab Cons.prems by simp
  moreover have "prod_list a' * prod_list b' = prod_list c"
    using Cons.prems(1,2) Cons.prems(3)[of "Suc _"] by (intro Cons.IH) (auto simp: ab)
  ultimately show ?case by (simp add: ab ac_simps)
qed simp

lemma prod_per_shard:
  assumes "divided s sub"
  shows "prod_list (per_shard s sub) * prod_list sub = prod_list s" and "prod_list (per_shard s sub) < M64"
    and "prod_list sub \<le> prod_list s"
proof -
  note l = length_per_shard[OF assms] dividedD(1,5)[OF assms]
  show p: "prod_list (per_shard s sub) * prod_list sub = prod_list s"
    by (rule prod_list_nth_times) (use l per_shard_nth(2)[OF assms] in simp_all)
  have "prod_list (per_shard s sub) \<le> prod_list s"
    by (rule prod_list_nth_mono) (use l per_shard_nth(4)[OF assms] in simp_all)
  then show "prod_list (per_shard s sub) < M64" using l(3) by simp
  have "prod_list (per_shard s sub) \<noteq> 0"
    using per_shard_nth(3)[OF assms] l(1) by (auto simp: prod_list_eq_0 in_set_conv_nth)
  then show "prod_list sub \<le> prod_list s" unfolding p[symmetric] by simp
qed

lemma subchunk_chunked: "divided s sub \<Longrightarrow> chunked (regular_grid (shard_grid s sub))"
proof (unfold_locales, goal_cases)
  case 1
  have "0 \<notin> set s" using dividedD(6)[OF 1] by (auto simp: list_all_iff)
  then show ?case by (intro chunk_grid_family.contract[OF regular.chunk_grid_family_axioms] wf_shard_grid[OF 1]) (simp add: shard_grid_def)
next
  case 2
  then show ?case using prod_per_shard(2)[OF 2] by (simp add: shard_grid_def)
qed

abbreviation subchunk_area :: "chunk_shape \<Rightarrow> chunk_shape \<Rightarrow> u64 list \<Rightarrow> array_subset" where
  "subchunk_area s sub c \<equiv> chunk_area (regular_grid (shard_grid s sub)) c"

lemma subchunk_area_eq:
  assumes "divided s sub" and "inb c (per_shard s sub)"
  shows "subchunk_area s sub c = \<lparr>sub_start = map (\<lambda>(i, c). i * c) (zip c sub), sub_shape = sub\<rparr>"
    and "regular_subset (shard_grid s sub) c = Inr (Some (subchunk_area s sub c))"
proof -
  have "0 \<notin> set s" using dividedD(6)[OF assms(1)] by (auto simp: list_all_iff)
  then have "cg_subset (regular_grid (shard_grid s sub)) c = Inr (Some (regular.chunk_box (shard_grid s sub) c))"
    using wf_shard_grid[OF assms(1)] assms(2) by (intro regular.subset_eq_box) (simp_all add: shard_grid_def)
  moreover have "regular.chunk_box (shard_grid s sub) c = \<lparr>sub_start = map (\<lambda>(i, c). i * c) (zip c sub), sub_shape = sub\<rparr>"
    using dividedD(1)[OF assms(1)] inb_length[OF assms(2)] length_per_shard[OF assms(1)]
    unfolding regular.chunk_box_def
    by (auto simp: shard_grid_def regular_dimensionality_def regular_bnd_def intro!: nth_equalityI)
  ultimately show "subchunk_area s sub c = \<lparr>sub_start = map (\<lambda>(i, c). i * c) (zip c sub), sub_shape = sub\<rparr>"
    "regular_subset (shard_grid s sub) c = Inr (Some (subchunk_area s sub c))"
    by (simp_all add: chunk_area_def)
qed

lemma inbounds_chunk_eq:
  assumes "divided s (sh_subchunk_shape S)" and "i < prod_list (per_shard s (sh_subchunk_shape S))"
  shows "inbounds_chunk S i (per_shard s (sh_subchunk_shape S)) =
    Inr (subchunk_area s (sh_subchunk_shape S) (unlin (per_shard s (sh_subchunk_shape S)) i))"
proof -
  let ?sub = "sh_subchunk_shape S" and ?p = "per_shard s (sh_subchunk_shape S)"
  let ?c = "unlin ?p i"
  have c: "inb ?c ?p" using assms(2) by (rule inb_unlin)
  have u: "unravel_index i ?p = Some ?c" by (rule unravel_index_Some[OF assms(2) prod_per_shard(2)[OF assms(1)]])
  have len: "length ?c = length s" "length ?sub = length s" "length ?p = length s"
    using inb_length[OF c] dividedD(1)[OF assms(1)] length_per_shard[OF assms(1)] by simp_all
  have w: "wmul (?c ! k) (?sub ! k) = ?c ! k * ?sub ! k \<and> wadd (?c ! k * ?sub ! k) (?sub ! k) = Suc (?c ! k) * ?sub ! k"
    if "k < length s" for k
    using regular_start[OF wf_shard_grid[OF assms(1)], of k "?c ! k"] that c len
    by (auto simp: shard_grid_def regular_dimensionality_def inb_nth)
  have s: "map (\<lambda>(i, c). wmul i c) (zip ?c ?sub) = map (\<lambda>(i, c). i * c) (zip ?c ?sub)"
    using w len by (intro nth_equalityI) simp_all
  have "map (\<lambda>(sh, st). (st, wadd st sh)) (zip ?sub (map (\<lambda>(i, c). i * c) (zip ?c ?sub))) =
      map (\<lambda>k. (?c ! k * ?sub ! k, Suc (?c ! k) * ?sub ! k)) [0..<length s]"
    using w len by (intro nth_equalityI) simp_all
  also have "from_ranges \<dots> = subchunk_area s ?sub ?c"
    unfolding subchunk_area_eq(1)[OF assms(1) c]
    using len by (auto simp: from_ranges_upt intro!: nth_equalityI)
  finally show ?thesis
    using u by (simp add: inbounds_chunk_def chunk_index_to_subset_def Let_def s del: map_eq_conv)
qed

lemma subchunk_area_wf:
  assumes "divided s sub" and "inb c (per_shard s sub)"
  shows "wf_subset (subchunk_area s sub c)" and "sub_shape (subchunk_area s sub c) = sub"
    and "length (sub_start (subchunk_area s sub c)) = length s" and "fits (subchunk_area s sub c) s"
    and "subset_covered (subchunk_area s sub c) s" and "\<not> is_empty (subchunk_area s sub c)"
proof -
  let ?a = "subchunk_area s sub c"
  have c: "inb c (cg_grid_shape (regular_grid (shard_grid s sub)))" using assms(2) by (simp add: shard_grid_def)
  note g = chunked.parts[OF subchunk_chunked[OF assms(1)]]
  show wf: "wf_subset ?a" by (rule g(6)[OF c])
  show sh: "sub_shape ?a = sub" by (simp add: subchunk_area_eq(1)[OF assms])
  show len: "length (sub_start ?a) = length s" using g(7)[OF c] by (simp add: shard_grid_def)
  have "c ! k * sub ! k + sub ! k \<le> s ! k" if "k < length s" for k
  proof -
    have "Suc (c ! k) \<le> per_shard s sub ! k" using assms(2) that length_per_shard[OF assms(1)] by (simp add: inb_nth Suc_le_eq)
    then have "Suc (c ! k) * sub ! k \<le> per_shard s sub ! k * sub ! k" by (rule mult_le_mono1)
    then show ?thesis using per_shard_nth(2)[OF assms(1) that] by simp
  qed
  then show f: "fits ?a s"
    using wf len dividedD(1)[OF assms(1)] inb_length[OF assms(2)] length_per_shard[OF assms(1)]
    by (simp add: fits_def subchunk_area_eq(1)[OF assms])
  show ne: "\<not> is_empty ?a"
    using dividedD(1,3)[OF assms(1)] by (auto simp: is_empty_def sh list_ex_length)
  show "subset_covered ?a s" using f ne by (simp add: subset_covered_def)
qed

subsection \<open>The whole of a shape\<close>

lemma nth_le_prod: "list_all ((<) 0) s \<Longrightarrow> k < length s \<Longrightarrow> s ! k \<le> (prod_list s :: nat)"
proof (induction s arbitrary: k)
  case (Cons x s)
  have "0 < prod_list s" using Cons.prems(1) by (metis gr0I list.pred_inject(2) list_all_iff order_less_irrefl prod_list_eq_0)
  then show ?case
  proof (cases k)
    case (Suc m)
    then have "s ! m \<le> 1 * prod_list s" using Cons by simp
    also have "\<dots> \<le> x * prod_list s" using Cons.prems(1) by (intro mult_le_mono1) simp
    finally show ?thesis using Suc by simp
  qed simp
qed simp

lemma whole_facts:
  assumes "list_all ((<) 0) s" and "prod_list s < M64"
  shows "wf_subset (new_with_shape s)" and "inbounds_shape (new_with_shape s) s" and "\<not> is_empty (new_with_shape s)"
    and "i \<in> elements (new_with_shape s) \<longleftrightarrow> inb i s" and "inb i s \<Longrightarrow> pos (new_with_shape s) i = lin s i"
    and "subset_values f (new_with_shape s) = map (\<lambda>k. f (unlin s k)) [0..<prod_list s]"
    and "sub_idx s (new_with_shape s) = [0..<prod_list s]" and "subset_covered (new_with_shape s) s"
proof -
  have le: "s ! k < M64" if "k < length s" for k
    using nth_le_prod[OF assms(1) that] assms(2) by simp
  show wf: "wf_subset (new_with_shape s)" using le by (simp add: new_with_shape_def wf_subset_nth less_imp_le)
  show ne: "\<not> is_empty (new_with_shape s)"
    using assms(1) by (auto simp: new_with_shape_def is_empty_def list_ex_length list_all_length)
  have f: "fits (new_with_shape s) s" using wf by (simp add: new_with_shape_def fits_def)
  show "inbounds_shape (new_with_shape s) s" by (rule fits_inbounds_shape[OF f])
  show "subset_covered (new_with_shape s) s" using f ne by (simp add: subset_covered_def)
  show "i \<in> elements (new_with_shape s) \<longleftrightarrow> inb i s"
    using wf by (auto simp: mem_elements new_with_shape_def inb_nth)
  show "pos (new_with_shape s) i = lin s i" if "inb i s"
    using inb_length[OF that] unfolding pos_def
    by (intro arg_cong2[where f = lin] nth_equalityI) (simp_all add: new_with_shape_def)
  show "subset_values f (new_with_shape s) = map (\<lambda>k. f (unlin s k)) [0..<prod_list s]"
    by (simp add: subset_values_def new_with_shape_def box_unlin)
  show "sub_idx s (new_with_shape s) = [0..<prod_list s]"
    by (auto simp: new_with_shape_def box_unlin lin_unlin comp_def intro: map_idI)
qed

subsection \<open>Writing through positions\<close>

text \<open>Assigning at some of the positions of an assignment.\<close>

lemma scatter_update_nth:
  "distinct idx \<Longrightarrow> length W = length idx \<Longrightarrow> j < length idx \<Longrightarrow> idx ! j < length E \<Longrightarrow>
     (scatter E idx W)[idx ! j := v] = scatter E idx (W[j := v])"
proof (rule nth_equalityI, goal_cases)
  case (2 k)
  note * = 2(1-4)
  show ?case
  proof (cases "k \<in> set idx")
    case True
    then obtain m where m: "m < length idx" "k = idx ! m" by (metis in_set_conv_nth)
    have "idx ! m < length E" using 2(5) m by simp
    then have "scatter E idx W ! k = W ! m" "scatter E idx (W[j := v]) ! k = W[j := v] ! m"
      using * m by (simp_all add: scatter_nth)
    then show ?thesis using * m nth_eq_iff_index_eq[OF *(1), of m j] by (cases "m = j") auto
  next
    case False
    then have "k \<noteq> idx ! j" using *(3) by auto
    then show ?thesis using False by (simp add: scatter_other)
  qed
qed simp

lemma scatter_within:
  assumes "distinct idx" and "\<forall>i \<in> set idx. i < length E"
  shows "\<forall>j \<in> set js. j < length idx \<Longrightarrow> length W = length idx \<Longrightarrow>
    scatter (scatter E idx W) (map ((!) idx) js) V = scatter E idx (scatter W js V)"
proof (induction js arbitrary: W V)
  case (Cons j js)
  show ?case
  proof (cases V)
    case (Cons v V')
    have j: "j < length idx" "idx ! j < length E" using Cons.prems(1) assms(2) by simp_all
    show ?thesis
      using Cons.IH[of "W[j := v]" V'] Cons.prems scatter_update_nth[OF assms(1) Cons.prems(2) j, of v]
      by (simp add: \<open>V = v # V'\<close>)
  qed simp
qed simp

lemma scatter_id: "scatter E idx (map ((!) E) idx) = E"
  by (induction idx arbitrary: E) (simp_all add: list_update_id)

text \<open>
  A part \<open>p\<close> of a region \<open>r\<close> that is mapped onto the subset \<open>q\<close> of an array of shape \<open>a\<close>: where the part goes, and
  that it is a valid subset of the array there.
\<close>

definition shifted :: "array_subset \<Rightarrow> array_subset \<Rightarrow> array_subset \<Rightarrow> array_subset" where
  "shifted q r p = \<lparr>sub_start = map (\<lambda>(x, y). x + y) (zip (rel (sub_start p) (sub_start r)) (sub_start q)), sub_shape = sub_shape p\<rparr>"

lemma shifted_part:
  assumes "wf_subset p" and "wf_subset r" and "elements p \<subseteq> elements r" and "\<not> is_empty p"
    and "fits q a" and "sub_shape q = sub_shape r"
  shows "subset_covered (shifted q r p) a" and "inbounds (shifted q r p) q"
    and "sub_idx a (shifted q r p) = map ((!) (sub_idx a q)) (map (pos r) (box (sub_start p) (sub_shape p)))"
    and "offset \<lparr>sub_start = rel (sub_start p) (sub_start r), sub_shape = sub_shape p\<rparr> (sub_start q) = Inr (shifted q r p)"
proof -
  have len: "length (sub_start p) = length a" "length (sub_start r) = length a" "length (sub_start q) = length a"
      "length (sub_shape p) = length a" "length (sub_shape r) = length a"
    using part_length[OF assms(1,3,4)] wf_subset_length[OF assms(1)] wf_subset_length[OF assms(2)] assms(6)
      wf_subset_length[OF fits_wf[OF assms(5)]] assms(5) by (simp_all add: fits_def)
  note b = part_bounds[OF assms(1,3,4)]
  have e: "sub_start q ! k + sub_shape r ! k \<le> a ! k" "sub_start q ! k + sub_shape r ! k < M64" if "k < length a" for k
    using assms(5,6) that len by (auto simp: fits_def wf_subset_nth)
  have bb: "sub_start p ! k - sub_start r ! k + sub_start q ! k + sub_shape p ! k \<le> sub_start q ! k + sub_shape r ! k"
    if "k < length a" for k
    using b[of k] that len by simp
  have wf: "wf_subset (shifted q r p)"
    using len bb e by (fastforce simp: wf_subset_nth shifted_def)
  have f: "fits (shifted q r p) a"
    using wf len bb e by (fastforce simp: fits_def shifted_def)
  have ne: "\<not> is_empty (shifted q r p)" using assms(4) by (simp add: is_empty_def shifted_def)
  show "subset_covered (shifted q r p) a" using f ne by (simp add: subset_covered_def)
  have lt: "sub_start p ! k - sub_start r ! k + sub_start q ! k < M64" if "k < length a" for k
    using bb[OF that] e[OF that] by simp
  show "inbounds (shifted q r p) q"
    using len bb e assms(6) by (fastforce simp: inbounds_def shifted_def list_all_length wadd_eq)
  show "offset \<lparr>sub_start = rel (sub_start p) (sub_start r), sub_shape = sub_shape p\<rparr> (sub_start q) = Inr (shifted q r p)"
  proof -
    have "map (\<lambda>(x, y). wadd x y) (zip (rel (sub_start p) (sub_start r)) (sub_start q)) =
        map (\<lambda>(x, y). x + y) (zip (rel (sub_start p) (sub_start r)) (sub_start q))"
      using len lt by (intro nth_equalityI) (simp_all add: wadd_eq)
    then show ?thesis using len by (simp add: offset_def new_with_start_shape_def shifted_def del: map_eq_conv)
  qed
  show "sub_idx a (shifted q r p) = map ((!) (sub_idx a q)) (map (pos r) (box (sub_start p) (sub_shape p)))"
  proof -
    let ?g = "\<lambda>j o'. map (\<lambda>(x, y). x + y) (zip j o')"
    have "?g j (sub_start (shifted q r p)) = box (sub_start q) (sub_shape q) ! pos r (?g j (sub_start p))"
      if "j \<in> set (box (replicate (length (sub_shape p)) 0) (sub_shape p))" for j
    proof -
      have j: "length j = length a" "\<And>k. k < length a \<Longrightarrow> j ! k < sub_shape p ! k" using that len by (auto simp: mem_box)
      have "?g j (sub_start p) \<in> elements p" using j len by (simp add: mem_elements)
      then have m: "?g j (sub_start p) \<in> elements r" using assms(3) by blast
      have "box (sub_start q) (sub_shape q) ! pos r (?g j (sub_start p)) =
          ?g (rel (?g j (sub_start p)) (sub_start r)) (sub_start q)"
        using box_nth[of "sub_start q" "sub_shape q" "rel (?g j (sub_start p)) (sub_start r)"] rel_inb[OF assms(2) m] len assms(6)
        by (simp add: pos_def)
      moreover have "?g j (sub_start (shifted q r p)) = ?g (rel (?g j (sub_start p)) (sub_start r)) (sub_start q)"
      proof (rule nth_equalityI)
        fix k assume "k < length (?g j (sub_start (shifted q r p)))"
        then have k: "k < length a" using len j(1) by (simp add: shifted_def)
        then have "j ! k + (sub_start p ! k - sub_start r ! k + sub_start q ! k) =
            j ! k + sub_start p ! k - sub_start r ! k + sub_start q ! k"
          using b(1)[of k] len by linarith
        then show "?g j (sub_start (shifted q r p)) ! k = ?g (rel (?g j (sub_start p)) (sub_start r)) (sub_start q) ! k"
          using k len j(1) by (simp add: shifted_def)
      qed (use len j(1) in \<open>simp add: shifted_def\<close>)
      ultimately show ?thesis by simp
    qed
    then have B: "map (\<lambda>i. box (sub_start q) (sub_shape q) ! pos r i) (box (sub_start p) (sub_shape p)) =
        box (sub_start (shifted q r p)) (sub_shape p)"
      using len box_shift[of "sub_start p" "sub_shape p"] box_shift[of "sub_start (shifted q r p)" "sub_shape p"]
      by (simp add: shifted_def)
    have "pos r i < length (box (sub_start q) (sub_shape q))" if "i \<in> set (box (sub_start p) (sub_shape p))" for i
      using that set_box[OF assms(1)] assms(3) pos_less[OF assms(2)] len assms(6) by (auto simp: length_box)
    then have "map ((!) (map (lin a) (box (sub_start q) (sub_shape q)))) (map (pos r) (box (sub_start p) (sub_shape p))) =
        map (lin a) (map (\<lambda>i. box (sub_start q) (sub_shape q) ! pos r i) (box (sub_start p) (sub_shape p)))"
      by simp
    then show ?thesis unfolding B by (simp add: shifted_def)
  qed
qed

subsection \<open>A region, chunk by chunk\<close>

text \<open>
  The values of a region \<open>r\<close> go to the subset \<open>q\<close> of an array of values \<open>X0\<close>; so far the chunks \<open>D\<close> have been put in place.
\<close>

context chunked
begin

definition placed ::
    "(u64 list \<Rightarrow> element) \<Rightarrow> array_subset \<Rightarrow> nat list \<Rightarrow> element list \<Rightarrow> u64 list set \<Rightarrow> element list \<Rightarrow> bool" where
  "placed f r idx X0 D X \<longleftrightarrow> (\<exists>W. X = scatter X0 idx W \<and> length W = length idx \<and>
     (\<forall>i \<in> elements r. (\<exists>c \<in> D. i \<in> elements (area c)) \<longrightarrow> W ! pos r i = f i))"

lemma placed_none: "placed f r idx X0 {} X0"
  unfolding placed_def by (rule exI[of _ "map ((!) X0) idx"]) (simp add: scatter_id)

lemma placed_step:
  assumes "placed f r idx X0 D X" and "chunk c" and "wf_subset r" and "wf_subset p"
    and "elements p = elements (area c) \<inter> elements r" and "length idx = prod_list (sub_shape r)" and "distinct idx"
    and "\<forall>i \<in> set idx. i < length X0"
    and "X' = scatter X (map ((!) idx) (map (pos r) (box (sub_start p) (sub_shape p)))) (subset_values f p)"
  shows "placed f r idx X0 (insert c D) X'"
proof -
  obtain W where W: "X = scatter X0 idx W" "length W = length idx"
      "\<forall>i \<in> elements r. (\<exists>c \<in> D. i \<in> elements (area c)) \<longrightarrow> W ! pos r i = f i"
    using assms(1) by (auto simp: placed_def)
  let ?js = "map (pos r) (box (sub_start p) (sub_shape p))"
  have "\<forall>j \<in> set ?js. j < length idx"
    using set_box[OF assms(4)] assms(5,6) pos_less[OF assms(3)] by auto
  then have "X' = scatter X0 idx (scatter W ?js (subset_values f p))"
    unfolding assms(9) W(1) using W(2) by (intro scatter_within[OF assms(7,8)])
  moreover have "subset_values f p = map ((!) (subset_values f (area c))) (map (pos (area c)) (box (sub_start p) (sub_shape p)))"
    using assms(5) by (intro subset_values_part[OF assms(4) parts(6)[OF assms(2)], symmetric]) blast
  note read_step_values[OF assms(3,2,4,5) _ arg_cong[where f = "scatter W ?js", OF this] W(3)]
  ultimately show ?thesis
    unfolding placed_def using W(2) assms(6) by (intro exI[of _ "scatter W ?js (subset_values f p)"]) simp
qed

lemma placed_all:
  assumes "placed f r idx X0 D X" and "wf_subset r" and "length idx = prod_list (sub_shape r)"
    and "\<And>i. i \<in> elements r \<Longrightarrow> \<exists>c \<in> D. i \<in> elements (area c)"
  shows "X = scatter X0 idx (subset_values f r)"
proof -
  obtain W where W: "X = scatter X0 idx W" "length W = length idx"
      "\<forall>i \<in> elements r. (\<exists>c \<in> D. i \<in> elements (area c)) \<longrightarrow> W ! pos r i = f i"
    using assms(1) by (auto simp: placed_def)
  then have "W = subset_values f r" using assms(3,4) by (intro subset_values_eqI[OF assms(2)]) simp_all
  then show ?thesis using W(1) by simp
qed

end

end
