(* ===== verification/Sharding_Laws.thy ===== *)
theory Sharding_Laws
  imports Shard_Geometry
begin

text \<open>
  What a shard holds, and decoding it: \<open>shard_holds s f e\<close> relates the bytes of a shard of shape \<open>s\<close> to a function from indices to
  elements, subchunk by subchunk, for inner and index codecs that keep the contract of array-to-bytes codecs.  The
  shard is decoded as a whole, into a target, and partially for the subsets that are not empty.
\<close>

subsection \<open>Lemmas on bytes\<close>

lemma plain_vals:
  assumes "sized z E" and "0 < z"
  shows "vals (PlainType (SizeFixed z)) (FixedBytes (concat E)) = map Raw E"
  using assms by (simp add: vals_def chunks_concat comp_def)

lemma plain_vals_inj:
  assumes "ab_ok (PlainType (SizeFixed z)) n b" and "ab_ok (PlainType (SizeFixed z)) n b'"
    and "vals (PlainType (SizeFixed z)) b = vals (PlainType (SizeFixed z)) b'"
  shows "b = b'"
proof -
  obtain x y where b: "b = FixedBytes x" "b' = FixedBytes y" using ab_ok_cases(1) assms(1,2) by metis
  obtain E F where E: "sized z E" "x = concat E" "sized z F" "y = concat F" "0 < z"
    using fixed_elems[OF assms(1)[unfolded b]] fixed_elems[OF assms(2)[unfolded b]] by metis
  have "map Raw E = map Raw F" using assms(3) unfolding b E plain_vals[OF E(1,5)] plain_vals[OF E(3,5)] .
  then have "E = F" by (metis element.inject(1) injI inj_map_eq_map)
  then show ?thesis by (simp add: b E)
qed

lemma view_fill_vals:
  assumes "view_ok v z a q" and "fits q a" and "ab_ok (PlainType (SizeFixed z)) (prod_list a) (FixedBytes b)" and "length g = z"
  obtains b' where "view_fill v g b = Inr b'" and "ab_ok (PlainType (SizeFixed z)) (prod_list a) (FixedBytes b')"
    and "vals (PlainType (SizeFixed z)) (FixedBytes b') =
      scatter (vals (PlainType (SizeFixed z)) (FixedBytes b)) (sub_idx a q) (replicate (prod_list (sub_shape q)) (Raw g))"
proof -
  obtain E where E: "sized z E" "length E = prod_list a" "b = concat E" "0 < z" "prod_list a * z < M64"
    using fixed_elems[OF assms(3)] by metis
  have n: "length (sub_idx a q) = prod_list (sub_shape q)" by (rule length_sub_idx[OF assms(2)])
  define F where "F = scatter E (sub_idx a q) (replicate (prod_list (sub_shape q)) g)"
  have s: "sized z F"
    unfolding F_def using assms(4) by (intro sized_scatter E(1)) (simp add: sized_def list_all_iff)
  have "view_fill v g b = Inr (concat F)"
    unfolding E(3) F_def using view_fill_ok[OF assms(1) E(1,2,5) assms(4)] n by simp
  moreover have "ab_ok (PlainType (SizeFixed z)) (prod_list a) (FixedBytes (concat F))"
    using ab_ok_concat(1)[OF s E(4)] E(2,5) by (simp add: F_def)
  moreover have "vals (PlainType (SizeFixed z)) (FixedBytes (concat F)) =
      scatter (vals (PlainType (SizeFixed z)) (FixedBytes b)) (sub_idx a q) (replicate (prod_list (sub_shape q)) (Raw g))"
    unfolding E(3) plain_vals[OF s E(4)] plain_vals[OF E(1,4)] by (simp add: F_def map_scatter)
  ultimately show ?thesis by (rule that)
qed

text \<open>Targets of one plain buffer.\<close>

lemma plain_target:
  assumes "target_ok (PlainType (SizeFixed z)) a q T"
  obtains v b where "T = FixedTarget v b" and "view_ok v z a q" and "ab_ok (PlainType (SizeFixed z)) (prod_list a) (FixedBytes b)"
  using assms by (cases "(PlainType (SizeFixed z), a, q, T)" rule: target_ok.cases) auto

subsection \<open>Byte intervals\<close>

text \<open>The ranges a sharding decoder asks of its handle.\<close>

fun sharding_range :: "sharding_index_location \<Rightarrow> byte_range \<Rightarrow> bool" where
  "sharding_range location (FromStart _ (Some _)) \<longleftrightarrow> True"
| "sharding_range location (FromStart _ None) \<longleftrightarrow> False"
| "sharding_range location (Suffix _) \<longleftrightarrow> location = IndexEnd"

lemma byte_interval_reads:
  assumes "reads_on (sharding_range location) d e" and "off + len \<le> length e"
  shows "reads_on interval_range (byte_interval_decoder d off len) (take len (drop off e))"
proof -
  have e: "length e < M64" using assms(1) by (simp add: reads_on_def)
  have l: "length (take len (drop off e)) = len" using assms(2) by simp
  have r: "ranges_on (sharding_range location) (length e) [byte_interval_range off len r] \<and>
      br_selected (byte_interval_range off len r) e = br_selected r (take len (drop off e))"
    if "ranges_on interval_range len [r]" for r
    using that assms(2) e
    by (cases "(off, len, r)" rule: byte_interval_range.cases)
      (auto simp: ranges_on_def wadd_eq take_drop min_def add.commute)
  have "byte_interval_decoder d off len rs = Inr (Some (map (\<lambda>r. br_selected r (take len (drop off e))) rs))"
    if rs: "ranges_on interval_range len rs" for rs
  proof -
    have "ranges_on (sharding_range location) (length e) (map (byte_interval_range off len) rs)"
      using r rs by (auto simp: ranges_on_def list_all_iff)
    then have "byte_interval_decoder d off len rs =
        Inr (Some (map (\<lambda>r. br_selected r e) (map (byte_interval_range off len) rs)))"
      using assms(1) by (simp add: reads_on_def byte_interval_decoder_def)
    also have "map (\<lambda>r. br_selected r e) (map (byte_interval_range off len) rs) = map (\<lambda>r. br_selected r (take len (drop off e))) rs"
      using r rs by (auto simp: ranges_on_def list_all_iff)
    finally show ?thesis .
  qed
  then show ?thesis using e l by (simp add: reads_on_def)
qed

subsection \<open>Shards\<close>

locale sharding =
  inner: array_to_bytes_codec "sh_inner_codecs S" "PlainType (SizeFixed z)" "ab_fill_value (sh_inner_codecs S)" acc
    interval_range iclass +
  index: array_to_bytes_codec "sh_index_codecs S" "PlainType (SizeFixed 8)" "ab_fill_value (sh_index_codecs S)" iacc R1 iclass1
  for S :: sharding_bound and acc iclass z iacc R1 iclass1 +
  fixes L :: nat
    and sched :: "nat list \<Rightarrow> nat list"
    and sched' :: "u64 list list \<Rightarrow> u64 list list"
    and junk :: "usize \<Rightarrow> bytes"
    and al :: align_to
  assumes data_type: "ab_data_type (sh_inner_codecs S) = PlainType (SizeFixed z)"
    and fill_length: "length (ab_fill_value (sh_inner_codecs S)) = z"
    and short: "acc (sh_subchunk_shape S) b \<Longrightarrow> ab_encode (sh_inner_codecs S) opt b (sh_subchunk_shape S) = Inr e \<Longrightarrow> length e \<le> L"
    and bounded: "acc (sh_subchunk_shape S) b \<Longrightarrow> ab_encode (sh_inner_codecs S) opt b (sh_subchunk_shape S) = Inr e \<Longrightarrow>
      ab_encoded_representation (sh_inner_codecs S) (sh_subchunk_shape S) = Inr r \<Longrightarrow> bytes_representation_size r = Some n \<Longrightarrow>
      length e \<le> n \<and> n \<le> L"
    and schedules: "schedule sched" "schedule sched'"
    and buffers: "allocates junk"
    and aligned: "align_ok al"
begin

abbreviation "sub \<equiv> sh_subchunk_shape S"
abbreviation "C \<equiv> sh_inner_codecs S"
abbreviation "fv \<equiv> ab_fill_value (sh_inner_codecs S)"
abbreviation "t \<equiv> PlainType (SizeFixed z)"
abbreviation "per s \<equiv> per_shard s sub"
abbreviation "many s \<equiv> prod_list (per_shard s sub)"
abbreviation "part s c \<equiv> subchunk_area s sub c"
abbreviation "part_at s i \<equiv> subchunk_area s sub (unlin (per_shard s sub) i)"
abbreviation "index_bytes ns \<equiv> FixedBytes (transmute_to_bytes (sh_native S) ns)"

text \<open>The words of an index, and the shapes of shards that can be encoded, with an index of \<open>N\<close> bytes.\<close>

definition words :: "chunk_shape \<Rightarrow> u64 list \<Rightarrow> bool" where
  "words s ns \<longleftrightarrow> length ns = many s * 2 \<and> (\<forall>n \<in> set ns. n < M64)"

definition index_fits :: "chunk_shape \<Rightarrow> nat \<Rightarrow> bool" where
  "index_fits s N \<longleftrightarrow> compute_index_encoded_size (sh_index_codecs S) (sharding_index_shape (per s)) = Inr N \<and>
     many s * L + N + 1 < M64 \<and>
     (\<forall>ns. words s ns \<longrightarrow> iacc (sharding_index_shape (per s)) (index_bytes ns) \<and>
        (\<forall>opt e. ab_encode (sh_index_codecs S) opt (index_bytes ns) (sharding_index_shape (per s)) = Inr e \<longrightarrow> length e = N))"

definition shard_fits :: "chunk_shape \<Rightarrow> bool" where
  "shard_fits s \<longleftrightarrow> divided s sub \<and> shape_ok s \<and> countable_size t (prod_list s) \<and> (\<exists>N. index_fits s N) \<and>
     (\<exists>r. ab_encoded_representation C s = Inr r) \<and> (\<forall>b. ab_ok t (prod_list sub) b \<longrightarrow> acc sub b)"

definition sharding_accepts :: "chunk_shape \<Rightarrow> array_bytes \<Rightarrow> bool" where
  "sharding_accepts s b \<longleftrightarrow> shard_fits s \<and> ab_ok t (prod_list s) b"

text \<open>The subchunk is not there and all fill value, or it is and encodes its elements.\<close>

definition entry_holds :: "bytes \<Rightarrow> u64 \<Rightarrow> u64 \<Rightarrow> element list \<Rightarrow> bool" where
  "entry_holds e off len V \<longleftrightarrow>
     off = u64_MAX \<and> len = u64_MAX \<and> V = replicate (prod_list sub) (Raw fv) \<or>
     off \<noteq> u64_MAX \<and> len \<noteq> u64_MAX \<and> off + len \<le> length e \<and> len \<le> L \<and>
       (\<exists>opt b. acc sub b \<and> ab_encode C opt b sub = Inr (take len (drop off e)) \<and> vals t b = V)"

definition index_of :: "nat \<Rightarrow> bytes \<Rightarrow> bytes" where
  "index_of N e = (case sh_index_location S of IndexStart \<Rightarrow> take N e | IndexEnd \<Rightarrow> drop (length e - N) e)"

definition index_stored :: "chunk_shape \<Rightarrow> nat \<Rightarrow> bytes \<Rightarrow> u64 list \<Rightarrow> bool" where
  "index_stored s N e ns \<longleftrightarrow> N \<le> length e \<and> words s ns \<and>
     (\<exists>opt. ab_encode (sh_index_codecs S) opt (index_bytes ns) (sharding_index_shape (per s)) = Inr (index_of N e))"

definition shard_holds :: "chunk_shape \<Rightarrow> (u64 list \<Rightarrow> element) \<Rightarrow> bytes \<Rightarrow> bool" where
  "shard_holds s f e \<longleftrightarrow> shard_fits s \<and> length e + 1 < M64 \<and>
     (\<exists>N ns. index_fits s N \<and> index_stored s N e ns \<and>
        (\<forall>i < many s. data_start S N \<le> ns ! (i * 2) \<and>
          entry_holds e (ns ! (i * 2)) (ns ! (i * 2 + 1)) (subset_values f (part_at s i))))"

lemma fits_facts:
  assumes "shard_fits s"
  shows "divided s sub" and "prod_list s < M64" and "0 < z" and "prod_list s * z < M64" and "list_all ((<) 0) s"
    and "calculate_chunks_per_shard s sub = Inr (per s)" and "many s < M64" and "wprod (per s) = many s"
    and "small_array s z" and "wprod s = prod_list s"
  using assms dividedD(6)[of s sub] calculate_divided[of s sub] prod_per_shard(2)[of s sub]
  by (auto simp: shard_fits_def shape_ok_def countable_size_def wprod_eq small_array_def)

lemma sub_facts:
  assumes "shard_fits s"
  shows "prod_list sub * z < M64" and "prod_list sub < M64" and "wprod sub = prod_list sub"
    and "ab_ok t (prod_list sub) b \<Longrightarrow> acc sub b" and "\<exists>rc. ab_recommended_concurrency C sub = Inr rc"
    and "\<exists>r. ab_encoded_representation C sub = Inr r"
proof -
  note f = fits_facts[OF assms]
  have le: "prod_list sub \<le> prod_list s" by (rule prod_per_shard(3)[OF f(1)])
  show m: "prod_list sub * z < M64" by (rule mult_less_M64[OF le f(4)])
  show l: "prod_list sub < M64" using le f(2) by simp
  then show "wprod sub = prod_list sub" by (simp add: wprod_eq)
  show a: "acc sub b" if "ab_ok t (prod_list sub) b" for b using assms that by (simp add: shard_fits_def)
  have "acc sub (FixedBytes (replicate (prod_list sub * z) 0))" using m f(3) by (intro a) simp
  from inner.accepted[OF this] show "\<exists>rc. ab_recommended_concurrency C sub = Inr rc" "\<exists>r. ab_encoded_representation C sub = Inr r"
    by blast+
qed

lemma options_ok:
  assumes "shard_fits s"
  shows "\<exists>opt'. shard_options S opt s = Inr opt'" and "\<exists>opt'. partial_options S (per s) opt = Inr opt'"
  using fits_facts(6)[OF assms] sub_facts(5)[OF assms]
  by (auto simp: shard_options_def sharding_recommended_concurrency_def partial_options_def Let_def)

text \<open>Reading the index.\<close>

lemma index_decoded:
  assumes "index_fits s N" and "index_stored s N e ns"
  shows "decode_shard_index (sh_native S) (index_of N e) (sharding_index_shape (per s)) (sh_index_codecs S) opt = Inr ns"
proof -
  have w: "words s ns" using assms(2) by (simp add: index_stored_def)
  obtain o1 where e: "ab_encode (sh_index_codecs S) o1 (index_bytes ns) (sharding_index_shape (per s)) = Inr (index_of N e)"
    using assms(2) by (auto simp: index_stored_def)
  have acc: "iacc (sharding_index_shape (per s)) (index_bytes ns)" using assms(1) w by (simp add: index_fits_def)
  obtain b' where b': "ab_decode (sh_index_codecs S) opt (index_of N e) (sharding_index_shape (per s)) = Inr b'"
      "ab_ok (PlainType (SizeFixed 8)) (prod_list (sharding_index_shape (per s))) b'"
      "vals (PlainType (SizeFixed 8)) b' = vals (PlainType (SizeFixed 8)) (index_bytes ns)"
    using index.decoded_vals[OF acc e] by metis
  have "b' = index_bytes ns" using plain_vals_inj[OF b'(2) _ b'(3)] index.accepted[OF acc] by blast
  then show ?thesis
    using b'(1) w by (simp add: decode_shard_index_def transmute_inverse words_def)
qed

lemma decode_index_ok:
  assumes "index_fits s N" and "index_stored s N e ns"
  shows "decode_index S e (per s) opt = Inr ns"
  using index_decoded[OF assms, of opt] assms
  by (cases "sh_index_location S") (simp_all add: decode_index_def index_fits_def index_stored_def index_of_def Let_def)

lemma entry_ok:
  assumes "words s ns" and "i < many s"
  shows "index_entry ns i = Inr (ns ! (i * 2), ns ! (i * 2 + 1))" and "ns ! (i * 2) < M64" and "ns ! (i * 2 + 1) < M64"
  using assms by (auto simp: words_def index_entry_def)

lemma subchunk_encoded_ok:
  assumes "words s ns" and "i < many s" and "length e + 1 < M64" and "entry_holds e (ns ! (i * 2)) (ns ! (i * 2 + 1)) V"
  shows "subchunk_encoded e ns i = Inr None \<and> V = replicate (prod_list sub) (Raw fv) \<or>
    (\<exists>e' opt b. subchunk_encoded e ns i = Inr (Some e') \<and> acc sub b \<and> ab_encode C opt b sub = Inr e' \<and> vals t b = V)"
  using assms(3,4) entry_ok[OF assms(1,2)]
  by (auto simp: subchunk_encoded_def entry_holds_def slice_def wadd_eq) blast+

text \<open>Decoding a subchunk into a view of the output.\<close>

lemma decode_subchunk_into_ok:
  assumes "words s ns" and "i < many s" and "length e + 1 < M64" and "entry_holds e (ns ! (i * 2)) (ns ! (i * 2 + 1)) V"
    and "view_ok v z a u" and "ab_ok t (prod_list a) (FixedBytes output)" and "fits u a" and "prod_list a < M64" and "sub_shape u = sub"
  obtains output' where "decode_subchunk_into S opt e ns i v output = Inr output'"
    and "ab_ok t (prod_list a) (FixedBytes output')"
    and "vals t (FixedBytes output') = scatter (vals t (FixedBytes output)) (sub_idx a u) V"
proof -
  consider "subchunk_encoded e ns i = Inr None" "V = replicate (prod_list sub) (Raw fv)"
    | e' o1 b where "subchunk_encoded e ns i = Inr (Some e')" "acc sub b" "ab_encode C o1 b sub = Inr e'" "vals t b = V"
    using subchunk_encoded_ok[OF assms(1-4)] by metis
  then show ?thesis
  proof cases
    case 1
    obtain out where "view_fill v fv output = Inr out" "ab_ok t (prod_list a) (FixedBytes out)"
        "vals t (FixedBytes out) = scatter (vals t (FixedBytes output)) (sub_idx a u) (replicate (prod_list (sub_shape u)) (Raw fv))"
      by (rule view_fill_vals[OF assms(5,7,6) fill_length])
    then show ?thesis using that 1 assms(9) by (simp add: decode_subchunk_into_def)
  next
    case 2
    have "target_into t a u (FixedTarget v output)" using assms(5-8) by (simp add: target_into_def)
    from inner.into[OF 2(2,3) this assms(9), of opt]
    obtain T' where T': "ab_decode_into C opt e' sub (FixedTarget v output) = Inr T'" "target_ok t a u T'"
        "vals t (target_bytes T') = scatter (vals t (FixedBytes output)) (sub_idx a u) (vals t b)"
      unfolding target_bytes.simps by blast
    obtain v' out where out: "T' = FixedTarget v' out" "ab_ok t (prod_list a) (FixedBytes out)" by (rule plain_target[OF T'(2)])
    have "decode_subchunk_into S opt e ns i v output = Inr out"
      using 2(1) T'(1) by (simp add: decode_subchunk_into_def out(1))
    then show ?thesis using that out T'(3) 2(4) by simp
  qed
qed

text \<open>The parts of a shard, in place.\<close>

abbreviation "placed s \<equiv> chunked.placed (regular_grid (shard_grid s sub))"

lemma part_at_facts:
  assumes "shard_fits s" and "i < many s"
  shows "inb (unlin (per s) i) (per s)" and "inbounds_chunk S i (per s) = Inr (part_at s i)"
    and "inb (unlin (per s) i) (cg_grid_shape (regular_grid (shard_grid s sub)))"
    and "wf_subset (part_at s i)" and "sub_shape (part_at s i) = sub" and "fits (part_at s i) s"
    and "subset_covered (part_at s i) s" and "\<not> is_empty (part_at s i)" and "elements (part_at s i) \<subseteq> elements (new_with_shape s)"
proof -
  note d = fits_facts(1)[OF assms(1)]
  show c: "inb (unlin (per s) i) (per s)" using assms(2) by (rule inb_unlin)
  show "inbounds_chunk S i (per s) = Inr (part_at s i)" by (rule inbounds_chunk_eq[OF d assms(2)])
  show "inb (unlin (per s) i) (cg_grid_shape (regular_grid (shard_grid s sub)))" using c by (simp add: shard_grid_def)
  note w = subchunk_area_wf[OF d c]
  show "wf_subset (part_at s i)" "sub_shape (part_at s i) = sub" "fits (part_at s i) s" "subset_covered (part_at s i) s"
    "\<not> is_empty (part_at s i)" by (rule w)+
  show "elements (part_at s i) \<subseteq> elements (new_with_shape s)"
    using fits_inb[OF w(4)] set_box[OF w(1)] whole_facts(4)[OF fits_facts(5,2)[OF assms(1)]] by auto
qed

lemma part_of_index:
  assumes "shard_fits s" and "inb i s"
  shows "\<exists>k < many s. i \<in> elements (part_at s k)"
proof -
  note d = fits_facts(1)[OF assms(1)]
  have w: "wf_subset (new_with_shape s)" "inbounds_shape (new_with_shape s) s" "i \<in> elements (new_with_shape s)"
    using whole_facts(1,2,4)[OF fits_facts(5,2)[OF assms(1)]] assms(2) by simp_all
  obtain c where c: "inb c (per s)" "i \<in> elements (part s c)"
    using chunked.covered[OF subchunk_chunked[OF d] w(1) _ w(3)] w(2) by (auto simp: shard_grid_def)
  then show ?thesis by (intro exI[of _ "lin (per s) c"]) (simp add: lin_less unlin_lin)
qed

lemma in_some_part:
  assumes "shard_fits s" and "wf_subset r" and "fits r s" and "i \<in> elements r"
  shows "\<exists>k < many s. i \<in> elements (part_at s k)"
  using part_of_index[OF assms(1)] fits_inb[OF assms(3), of i] set_box[OF assms(2)] assms(4) by blast

text \<open>
  Loops that put the parts \<open>P k\<close> of a region \<open>r\<close> of the shard in place, where the region goes to the subset \<open>q\<close> of an array of shape
  \<open>a\<close>: the body for a part assigns its elements.
\<close>

lemma parts_in_place:
  assumes "shard_fits s" and "wf_subset r" and "fits q a" and "sub_shape q = sub_shape r"
    and "ab_ok t (prod_list a) (FixedBytes out0)"
    and "\<And>k. k \<in> set ks \<Longrightarrow> inb (\<kappa> k) (per s) \<and> wf_subset (P k) \<and> \<not> is_empty (P k) \<and>
      elements (P k) = elements (part s (\<kappa> k)) \<inter> elements r"
    and "\<And>i. i \<in> elements r \<Longrightarrow> \<exists>k \<in> set ks. i \<in> elements (part s (\<kappa> k))"
    and "\<And>k out. k \<in> set ks \<Longrightarrow> ab_ok t (prod_list a) (FixedBytes out) \<Longrightarrow> subset_covered (shifted q r (P k)) a \<Longrightarrow>
      inbounds (shifted q r (P k)) q \<Longrightarrow>
      \<exists>out'. g k out = Inr out' \<and> ab_ok t (prod_list a) (FixedBytes out') \<and>
        vals t (FixedBytes out') = scatter (vals t (FixedBytes out)) (sub_idx a (shifted q r (P k))) (subset_values f (P k))"
  shows "\<exists>out'. try_for_each g ks out0 = Inr out' \<and> ab_ok t (prod_list a) (FixedBytes out') \<and>
    vals t (FixedBytes out') = scatter (vals t (FixedBytes out0)) (sub_idx a q) (subset_values f r)"
proof -
  let ?X0 = "vals t (FixedBytes out0)"
  let ?I = "\<lambda>D out. ab_ok t (prod_list a) (FixedBytes out) \<and> placed s f r (sub_idx a q) ?X0 (\<kappa> ` D) (vals t (FixedBytes out))"
  note ch = subchunk_chunked[OF fits_facts(1)[OF assms(1)]]
  have idx: "length (sub_idx a q) = prod_list (sub_shape r)" "distinct (sub_idx a q)" "\<forall>i \<in> set (sub_idx a q). i < length ?X0"
    using length_sub_idx[OF assms(3)] distinct_sub_idx[OF assms(3)] assms(4) length_vals[OF assms(5)] fits_inb[OF assms(3)] lin_less
    by auto
  have "\<exists>out'. try_for_each g ks out0 = Inr out' \<and> ?I (set ks) out'"
  proof (rule try_for_each_inv)
    show "?I {} out0" using assms(5) by (simp add: chunked.placed_none[OF ch] del: ix_elements.simps ab_ok.simps)
    fix D k out assume I: "?I D out" and k: "k \<in> set ks"
    have p: "inb (\<kappa> k) (cg_grid_shape (regular_grid (shard_grid s sub)))" "wf_subset (P k)" "\<not> is_empty (P k)"
        "elements (P k) = elements (part s (\<kappa> k)) \<inter> elements r" "elements (P k) \<subseteq> elements r"
      using assms(6)[OF k] by (auto simp: shard_grid_def)
    note sh = shifted_part[OF p(2) assms(2) p(5,3) assms(3,4)]
    obtain out' where out': "g k out = Inr out'" "ab_ok t (prod_list a) (FixedBytes out')"
        "vals t (FixedBytes out') = scatter (vals t (FixedBytes out)) (sub_idx a (shifted q r (P k))) (subset_values f (P k))"
      using assms(8)[OF k conjunct1[OF I] sh(1,2)] by blast
    have "placed s f r (sub_idx a q) ?X0 (insert (\<kappa> k) (\<kappa> ` D)) (vals t (FixedBytes out'))"
      by (rule chunked.placed_step[OF ch conjunct2[OF I] p(1) assms(2) p(2,4) idx out'(3)[unfolded sh(3)]])
    then show "\<exists>out'. g k out = Inr out' \<and> ?I (insert k D) out'" using out'(1,2) by auto
  qed
  then obtain out' where out': "try_for_each g ks out0 = Inr out'" "ab_ok t (prod_list a) (FixedBytes out')"
      "placed s f r (sub_idx a q) ?X0 (\<kappa> ` set ks) (vals t (FixedBytes out'))" by blast
  have "vals t (FixedBytes out') = scatter ?X0 (sub_idx a q) (subset_values f r)"
    by (rule chunked.placed_all[OF ch out'(3) assms(2) idx(1)]) (use assms(7) in blast)
  then show ?thesis using out'(1,2) by blast
qed

lemma shifted_whole: "wf_subset p \<Longrightarrow> length (sub_start p) = length s \<Longrightarrow> shifted (new_with_shape s) (new_with_shape s) p = p"
  by (cases p) (auto simp: shifted_def new_with_shape_def intro!: nth_equalityI)

text \<open>The whole shard goes to \<open>q\<close>: every subchunk is a part, in the order of a schedule of their numbers.\<close>

lemma whole_in_place:
  assumes "shard_fits s" and "fits q a" and "sub_shape q = s" and "ab_ok t (prod_list a) (FixedBytes out0)"
    and "\<And>i out. i < many s \<Longrightarrow> ab_ok t (prod_list a) (FixedBytes out) \<Longrightarrow>
      subset_covered (shifted q (new_with_shape s) (part_at s i)) a \<Longrightarrow> inbounds (shifted q (new_with_shape s) (part_at s i)) q \<Longrightarrow>
      \<exists>out'. g i out = Inr out' \<and> ab_ok t (prod_list a) (FixedBytes out') \<and>
        vals t (FixedBytes out') = scatter (vals t (FixedBytes out)) (sub_idx a (shifted q (new_with_shape s) (part_at s i)))
          (subset_values f (part_at s i))"
  shows "\<exists>out'. try_for_each g (sched [0..<many s]) out0 = Inr out' \<and> ab_ok t (prod_list a) (FixedBytes out') \<and>
    vals t (FixedBytes out') = scatter (vals t (FixedBytes out0)) (sub_idx a q) (subset_values f (new_with_shape s))"
proof (rule parts_in_place[where \<kappa> = "unlin (per s)" and P = "part_at s", OF assms(1) _ assms(2) _ assms(4)])
  note w = whole_facts[OF fits_facts(5,2)[OF assms(1)]]
  show "wf_subset (new_with_shape s)" by (rule w(1))
  show "sub_shape q = sub_shape (new_with_shape s)" using assms(3) by (simp add: new_with_shape_def)
  have ks: "k \<in> set (sched [0..<many s]) \<longleftrightarrow> k < many s" for k using schedule_set[OF schedules(1)] by simp
  show "inb (unlin (per s) k) (per s) \<and> wf_subset (part_at s k) \<and> \<not> is_empty (part_at s k) \<and>
      elements (part_at s k) = elements (part s (unlin (per s) k)) \<inter> elements (new_with_shape s)"
    if "k \<in> set (sched [0..<many s])" for k
    using part_at_facts(1,4,8,9)[OF assms(1), of k] that ks by blast
  show "\<exists>k \<in> set (sched [0..<many s]). i \<in> elements (part s (unlin (per s) k))" if "i \<in> elements (new_with_shape s)" for i
    using part_of_index[OF assms(1), of i] that w(4) ks by blast
  show "\<exists>out'. g k out = Inr out' \<and> ab_ok t (prod_list a) (FixedBytes out') \<and>
      vals t (FixedBytes out') = scatter (vals t (FixedBytes out)) (sub_idx a (shifted q (new_with_shape s) (part_at s k)))
        (subset_values f (part_at s k))"
    if "k \<in> set (sched [0..<many s])" "ab_ok t (prod_list a) (FixedBytes out)"
      "subset_covered (shifted q (new_with_shape s) (part_at s k)) a" "inbounds (shifted q (new_with_shape s) (part_at s k)) q" for k out
    using assms(5)[OF _ that(2-4)] that(1) ks by blast
qed

subsection \<open>Decoding\<close>

lemma sharding_decode_ok:
  assumes "shard_holds s f e"
  shows "\<exists>b'. sharding_decode sched junk S opt e s = Inr b' \<and> ab_ok t (prod_list s) b' \<and>
    vals t b' = subset_values f (new_with_shape s)"
proof -
  obtain N ns where sf: "shard_fits s" and len: "length e + 1 < M64" and N: "index_fits s N" and ns: "index_stored s N e ns"
    and entries: "\<And>i. i < many s \<Longrightarrow> entry_holds e (ns ! (i * 2)) (ns ! (i * 2 + 1)) (subset_values f (part_at s i))"
    using assms by (auto simp: shard_holds_def)
  have w: "words s ns" using ns by (simp add: index_stored_def)
  note f = fits_facts[OF sf] and d = decode_index_ok[OF N ns]
  note whole = whole_facts[OF f(5,2)]
  obtain opt' where o: "shard_options S opt s = Inr opt'" using options_ok(1)[OF sf] by blast
  have ok0: "ab_ok t (prod_list s) (FixedBytes (junk (prod_list s * z)))" using f(3,4) buffers by (simp add: allocates_def)
  have fw: "fits (new_with_shape s) s" "sub_shape (new_with_shape s) = s" using whole(8) by (simp_all add: subset_covered_def new_with_shape_def)
  have "\<exists>out. try_for_each (decode_fixed_step S opt' z s (per s) e ns) (sched [0..<many s]) (junk (prod_list s * z)) = Inr out \<and>
      ab_ok t (prod_list s) (FixedBytes out) \<and>
      vals t (FixedBytes out) = scatter (vals t (FixedBytes (junk (prod_list s * z)))) (sub_idx s (new_with_shape s))
        (subset_values f (new_with_shape s))"
  proof (rule whole_in_place[OF sf fw ok0])
    fix i out assume i: "i < many s" and ok: "ab_ok t (prod_list s) (FixedBytes out)"
    note p = part_at_facts[OF sf i]
    have p': "shifted (new_with_shape s) (new_with_shape s) (part_at s i) = part_at s i"
      using p(4,6) by (intro shifted_whole) (simp_all add: fits_def)
    have "length out = prod_list s * z" using ok by simp
    then obtain v where v: "view_new out z s (part_at s i) = Inr v" "view_ok v z s (part_at s i)"
      using view_new_ok[OF p(7) f(9)] by blast
    obtain out' where "decode_subchunk_into S opt' e ns i v out = Inr out'" "ab_ok t (prod_list s) (FixedBytes out')"
        "vals t (FixedBytes out') = scatter (vals t (FixedBytes out)) (sub_idx s (part_at s i)) (subset_values f (part_at s i))"
      by (rule decode_subchunk_into_ok[OF w i len entries[OF i] v(2) ok p(6) f(2) p(5)])
    then show "\<exists>out'. decode_fixed_step S opt' z s (per s) e ns i out = Inr out' \<and> ab_ok t (prod_list s) (FixedBytes out') \<and>
        vals t (FixedBytes out') = scatter (vals t (FixedBytes out))
          (sub_idx s (shifted (new_with_shape s) (new_with_shape s) (part_at s i))) (subset_values f (part_at s i))"
      using p(2) v(1) unfolding p' by (simp add: decode_fixed_step_def)
  qed
  then obtain out where out: "try_for_each (decode_fixed_step S opt' z s (per s) e ns) (sched [0..<many s]) (junk (prod_list s * z)) = Inr out"
      "ab_ok t (prod_list s) (FixedBytes out)"
      "vals t (FixedBytes out) = scatter (vals t (FixedBytes (junk (prod_list s * z)))) [0..<prod_list s]
         (subset_values f (new_with_shape s))"
    unfolding whole(7) by blast
  have "vals t (FixedBytes out) = subset_values f (new_with_shape s)"
    using scatter_run[of 0 "subset_values f (new_with_shape s)" "vals t (FixedBytes (junk (prod_list s * z)))"]
      length_vals[OF ok0] whole(6) out(3) by simp
  moreover have "prod_list s * z \<noteq> 0" using f(3,5) by (auto simp: prod_list_eq_0 list_all_iff)
  ultimately show ?thesis
    using f o d out unfolding sharding_decode_def
    by (simp add: data_type wmul_eq is_optional_def)
qed

lemma sharding_decode_into_ok:
  assumes "shard_holds s f e" and "target_into t a q T" and "sub_shape q = s"
  shows "\<exists>T'. sharding_decode_into sched S opt e s T = Inr T' \<and> target_ok t a q T' \<and>
    vals t (target_bytes T') = scatter (vals t (target_bytes T)) (sub_idx a q) (subset_values f (new_with_shape s))"
proof -
  obtain N ns where sf: "shard_fits s" and len: "length e + 1 < M64" and N: "index_fits s N" and ns: "index_stored s N e ns"
    and entries: "\<And>i. i < many s \<Longrightarrow> entry_holds e (ns ! (i * 2)) (ns ! (i * 2 + 1)) (subset_values f (part_at s i))"
    using assms(1) by (auto simp: shard_holds_def)
  have w: "words s ns" using ns by (simp add: index_stored_def)
  note f = fits_facts[OF sf] and d = decode_index_ok[OF N ns]
  note whole = whole_facts[OF f(5,2)]
  obtain opt' where o: "shard_options S opt s = Inr opt'" using options_ok(1)[OF sf] by blast
  have T: "target_ok t a q T" "fits q a" "prod_list a < M64" using assms(2) by (simp_all add: target_into_def)
  obtain v buf where eq: "T = FixedTarget v buf" and v: "view_ok v z a q" and ok0: "ab_ok t (prod_list a) (FixedBytes buf)"
    by (rule plain_target[OF T(1)])
  have small: "small_array a z" using ok0 by (simp add: small_array_def)
  have dv: "dv_subset v = q" "dv_shape v = a" "dv_data_type_size v = z" using v by (simp_all add: view_ok_def)
  have "\<exists>out. try_for_each (decode_into_step S opt' (per s) e ns v) (sched [0..<many s]) buf = Inr out \<and>
      ab_ok t (prod_list a) (FixedBytes out) \<and>
      vals t (FixedBytes out) = scatter (vals t (FixedBytes buf)) (sub_idx a q) (subset_values f (new_with_shape s))"
  proof (rule whole_in_place[OF sf T(2) assms(3) ok0])
    fix i out
    assume i: "i < many s" and ok: "ab_ok t (prod_list a) (FixedBytes out)"
      and u: "subset_covered (shifted q (new_with_shape s) (part_at s i)) a" "inbounds (shifted q (new_with_shape s) (part_at s i)) q"
    let ?u = "shifted q (new_with_shape s) (part_at s i)"
    note p = part_at_facts[OF sf i]
    have lp: "length (sub_start (part_at s i)) = length s" "length (sub_start q) = length s" "length sub = length s"
      using p(6) T(2) assms(3) dividedD(1)[OF f(1)] wf_subset_length[OF fits_wf[OF T(2)]] by (simp_all add: fits_def)
    have "sub_start (part_at s i) ! k + sub_start q ! k < M64" if "k < length s" for k
    proof -
      have fu: "fits ?u a" using u(1) by (simp add: subset_covered_def)
      have "sub_start ?u ! k + sub_shape ?u ! k < M64"
        using fits_wf[OF fu] that lp p(5) by (auto simp: wf_subset_nth shifted_def new_with_shape_def)
      then show ?thesis using that lp by (simp add: shifted_def new_with_shape_def)
    qed
    then have st: "map (\<lambda>(o', s). wadd o' s) (zip (sub_start q) (sub_start (part_at s i))) = sub_start ?u"
      using lp by (auto simp: shifted_def new_with_shape_def wadd_eq add.commute intro!: nth_equalityI)
    have us: "\<lparr>sub_start = sub_start ?u, sub_shape = sub_shape (part_at s i)\<rparr> = ?u" by (simp add: shifted_def)
    have "length out = prod_list a * z" using ok by simp
    then obtain v' where v': "view_new out z a ?u = Inr v'" "view_ok v' z a ?u"
      using view_new_ok[OF u(1) small] by blast
    have fu: "fits ?u a" using u(1) by (simp add: subset_covered_def)
    have su: "sub_shape ?u = sub" using p(5) by (simp add: shifted_def)
    obtain out' where "decode_subchunk_into S opt' e ns i v' out = Inr out'" "ab_ok t (prod_list a) (FixedBytes out')"
        "vals t (FixedBytes out') = scatter (vals t (FixedBytes out)) (sub_idx a ?u) (subset_values f (part_at s i))"
      by (rule decode_subchunk_into_ok[OF w i len entries[OF i] v'(2) ok fu T(3) su])
    moreover have "length (sub_shape (part_at s i)) = length s" using lp p(5) by simp
    ultimately show "\<exists>out'. decode_into_step S opt' (per s) e ns v i out = Inr out' \<and> ab_ok t (prod_list a) (FixedBytes out') \<and>
        vals t (FixedBytes out') = scatter (vals t (FixedBytes out)) (sub_idx a ?u) (subset_values f (part_at s i))"
      using p(2) v'(1) u(2) lp(1,2) \<open>length (sub_shape (part_at s i)) = length s\<close>
      by (simp add: decode_into_step_def dv st us view_subdivide_def Let_def)
  qed
  then obtain out where out: "try_for_each (decode_into_step S opt' (per s) e ns v) (sched [0..<many s]) buf = Inr out"
      "ab_ok t (prod_list a) (FixedBytes out)"
      "vals t (FixedBytes out) = scatter (vals t (FixedBytes buf)) (sub_idx a q) (subset_values f (new_with_shape s))" by blast
  have "sharding_decode_into sched S opt e s T = Inr (FixedTarget v out)"
    using f o d out(1) by (simp add: sharding_decode_into_def eq)
  then show ?thesis using out(2,3) v by (simp add: eq del: ix_elements.simps)
qed

end

end
