(* ===== verification/Sharding_Reads.thy ===== *)
theory Sharding_Reads
  imports Sharding_Laws
begin

text \<open>
  The partial decoder of the sharding codec: reading a region of a shard that is not empty, from the index and the byte intervals of
  its subchunks, gives the values of its elements, for any order of the subchunks.
\<close>

context sharding
begin

text \<open>Reading the index through the handle.\<close>

lemma index_range:
  assumes "index_fits s N" and "N \<le> n" and "n < M64"
  obtains r where "get_index_byte_range (sharding_index_shape (per s)) (sh_index_codecs S) (sh_index_location S) = Inr r"
    and "ranges_on (sharding_range (sh_index_location S)) n [r]" and "\<And>e. length e = n \<Longrightarrow> br_selected r e = index_of N e"
  using assms
  by (cases "sh_index_location S") (auto simp: get_index_byte_range_def index_fits_def ranges_on_def index_of_def)

lemma index_read:
  assumes "shard_fits s" and "index_fits s N" and "index_stored s N e ns" and "reads_on (sharding_range (sh_index_location S)) d e"
  shows "decode_shard_index_partial_decoder S d s opt = Inr (Some ns)"
proof -
  have e: "length e < M64" "N \<le> length e" using assms(3,4) by (simp_all add: reads_on_def index_stored_def)
  obtain r where r: "get_index_byte_range (sharding_index_shape (per s)) (sh_index_codecs S) (sh_index_location S) = Inr r"
      "ranges_on (sharding_range (sh_index_location S)) (length e) [r]" "br_selected r e = index_of N e"
    using index_range[OF assms(2) e(2,1)] by metis
  show ?thesis
    using reads_partial_decode[OF assms(4) r(2)] r(1,3) fits_facts(6)[OF assms(1)] index_decoded[OF assms(2,3)]
    by (simp add: decode_shard_index_partial_decoder_def Let_def)
qed

lemma index_absent:
  assumes "shard_fits s" and "index_fits s N" and "N \<le> n" and "n < M64" and "absent_on (sharding_range (sh_index_location S)) d n"
  shows "decode_shard_index_partial_decoder S d s opt = Inr None"
proof -
  obtain r where r: "get_index_byte_range (sharding_index_shape (per s)) (sh_index_codecs S) (sh_index_location S) = Inr r"
      "ranges_on (sharding_range (sh_index_location S)) n [r]"
    using index_range[OF assms(2-4)] by metis
  show ?thesis
    using absent_partial_decode[OF assms(5) r(2)] r(1) fits_facts(6)[OF assms(1)]
    by (simp add: decode_shard_index_partial_decoder_def Let_def)
qed

text \<open>The subchunks of a region.\<close>

definition region :: "chunk_shape \<Rightarrow> array_subset \<Rightarrow> bool" where
  "region s r \<longleftrightarrow> fits r s \<and> \<not> is_empty r"

definition meet :: "chunk_shape \<Rightarrow> array_subset \<Rightarrow> u64 list \<Rightarrow> array_subset" where
  "meet s r c = (case overlap r (part s c) of Inr p \<Rightarrow> p | Inl _ \<Rightarrow> r)"

lemma meet_facts:
  assumes "shard_fits s" and "region s r" and "inb c (per s)" and "elements (part s c) \<inter> elements r \<noteq> {}"
  shows "overlap r (part s c) = Inr (meet s r c)" and "wf_subset (meet s r c)" and "\<not> is_empty (meet s r c)"
    and "elements (meet s r c) = elements (part s c) \<inter> elements r"
proof -
  have f: "fits r s" using assms(2) by (simp add: region_def)
  obtain p where "overlap r (part s c) = Inr p" "wf_subset p" "elements p = elements (part s c) \<inter> elements r" "\<not> is_empty p"
    using chunked.chunk_part[OF subchunk_chunked[OF fits_facts(1)[OF assms(1)]] fits_wf[OF f] _ _ assms(4)]
      fits_inbounds_shape[OF f] assms(3) by (auto simp: shard_grid_def)
  then show "overlap r (part s c) = Inr (meet s r c)" "wf_subset (meet s r c)" "\<not> is_empty (meet s r c)"
    "elements (meet s r c) = elements (part s c) \<inter> elements r"
    by (simp_all add: meet_def)
qed

lemma region_subchunks:
  assumes "shard_fits s" and "region s r"
  obtains cs where "subchunks_of_region (shard_grid s sub) r = Inr cs"
    and "\<And>c. c \<in> set cs \<Longrightarrow> inb c (per s) \<and> elements (part s c) \<inter> elements r \<noteq> {}"
    and "\<And>i. i \<in> elements r \<Longrightarrow> \<exists>c \<in> set cs. i \<in> elements (part s c)" and "distinct cs"
proof -
  have f: "fits r s" "\<not> is_empty r" using assms(2) by (simp_all add: region_def)
  have ib: "inbounds_shape r (cg_array_shape (regular_grid (shard_grid s sub)))"
    using fits_inbounds_shape[OF f(1)] by (simp add: shard_grid_def)
  obtain cs where cs: "chunks_in_array_subset (regular_grid (shard_grid s sub)) r = Inr (Some cs)"
      "elements cs = {c. inb c (cg_grid_shape (regular_grid (shard_grid s sub))) \<and> elements (part s c) \<inter> elements r \<noteq> {}}"
      "indices_collect (indices_new cs) = box (sub_start cs) (sub_shape cs)"
      "set (box (sub_start cs) (sub_shape cs)) = elements cs"
      "\<And>i. i \<in> elements r \<Longrightarrow> \<exists>c \<in> elements cs. i \<in> elements (part s c)" "wf_subset cs"
    by (rule chunked.region_chunks[OF subchunk_chunked[OF fits_facts(1)[OF assms(1)]] fits_wf[OF f(1)] ib f(2)]) blast
  show ?thesis
    by (rule that[of "box (sub_start cs) (sub_shape cs)"])
      (use cs wf_subset_length in \<open>auto simp: subchunks_of_region_def shard_grid_def intro!: distinct_box\<close>)
qed

text \<open>The values of a subchunk, read through the interval of its bytes.\<close>

lemma subchunk_reader:
  assumes "shard_fits s" and "acc sub b" and "ab_encode C o1 b sub = Inr (take len (drop off e))" and "off + len \<le> length e"
    and "reads_on (sharding_range location) d e"
  obtains dec where "get_subchunk_partial_decoder S d opt off len = Inr dec" and "reads_array iclass t dec sub (vals t b)"
  using inner.partial[OF assms(2,3) byte_interval_reads[OF assms(5,4)], of opt] that
  by (auto simp: get_subchunk_partial_decoder_def)

lemma partial_fixed_step_ok:
  assumes "shard_fits s" and "words s ns" and "region s r"
    and "\<And>i. i < many s \<Longrightarrow> entry_holds e (ns ! (i * 2)) (ns ! (i * 2 + 1)) (subset_values f (part_at s i))"
    and "reads_on (sharding_range location) d e" and "inb c (per s)" and "elements (part s c) \<inter> elements r \<noteq> {}"
    and "view_ok v z a q" and "fits q a" and "sub_shape q = sub_shape r" and "ab_ok t (prod_list a) (FixedBytes out)" and "prod_list a < M64"
  shows "\<exists>out'. partial_fixed_step S d opt (shard_grid s sub) (per s) ns r v c out = Inr out' \<and>
    ab_ok t (prod_list a) (FixedBytes out') \<and>
    vals t (FixedBytes out') = scatter (vals t (FixedBytes out)) (sub_idx a (shifted q r (meet s r c))) (subset_values f (meet s r c))"
proof -
  note p = meet_facts[OF assms(1,3,6,7)] and dv = fits_facts(1)[OF assms(1)]
  let ?p = "meet s r c" let ?u = "shifted q r ?p" let ?i = "lin (per s) c"
  have f: "fits r s" "wf_subset r" using assms(3) fits_wf by (auto simp: region_def)
  have sub: "elements ?p \<subseteq> elements r" "elements ?p \<subseteq> elements (part s c)" using p(4) by blast+
  note w = subchunk_area_wf[OF dv assms(6)] and u = shifted_part[OF p(2) f(2) sub(1) p(3) assms(9,10)]
  have i: "?i < many s" "unlin (per s) ?i = c" using assms(6) by (simp_all add: lin_less unlin_lin)
  note en = entry_ok[OF assms(2) i(1)]
  have rav: "ravel_indices c (per s) = Some ?i"
    using ravel_indices_eq[OF inb_length[OF assms(6)] fits_facts(7)[OF assms(1)]] assms(6) by simp
  have sc: "subchunk_of (shard_grid s sub) (per s) ns r c = Inr ((ns ! (?i * 2), ns ! (?i * 2 + 1)), part s c, ?p)"
    using rav en(1) subchunk_area_eq(2)[OF dv assms(6)] p(1) by (simp add: subchunk_of_def)
  have rel: "relative_to ?p (sub_start r) = Inr \<lparr>sub_start = rel (sub_start ?p) (sub_start r), sub_shape = sub_shape ?p\<rparr>"
    by (rule relative_part[OF p(2) sub(1) p(3)])
  have vs: "dv_subset v = q" "dv_shape v = a" "dv_data_type_size v = z" using assms(8) by (simp_all add: view_ok_def)
  have small: "small_array a z" and lo: "length out = prod_list a * z" using assms(11) by (simp_all add: small_array_def)
  obtain v' where v': "view_new out z a ?u = Inr v'" "view_ok v' z a ?u" using view_new_ok[OF u(1) small lo] by blast
  have fu: "fits ?u a" using u(1) by (simp add: subset_covered_def)
  have lu: "length (sub_idx a ?u) = prod_list (sub_shape ?p)" using length_sub_idx[OF fu] by (simp add: shifted_def del: ix_elements.simps)
  have V: "map ((!) (subset_values f (part s c))) (map (pos (part s c)) (box (sub_start ?p) (sub_shape ?p))) = subset_values f ?p"
    by (rule subset_values_part[OF p(2) w(1) sub(2)])
  have entry: "entry_holds e (ns ! (?i * 2)) (ns ! (?i * 2 + 1)) (subset_values f (part s c))"
    using assms(4)[OF i(1)] i(2) by simp
  show ?thesis
  proof (cases "ns ! (?i * 2) = u64_MAX \<and> ns ! (?i * 2 + 1) = u64_MAX")
    case True
    then have "subset_values f (part s c) = replicate (prod_list sub) (Raw fv)" using entry by (auto simp: entry_holds_def)
    then have "subset_values f ?p = map ((!) (replicate (prod_list sub) (Raw fv))) (map (pos (part s c)) (box (sub_start ?p) (sub_shape ?p)))"
      using V by simp
    also have "\<dots> = map (\<lambda>_. Raw fv) (box (sub_start ?p) (sub_shape ?p))"
      using set_box[OF p(2)] sub(2) pos_less[OF w(1)] w(2) by auto
    also have "\<dots> = replicate (prod_list (sub_shape ?p)) (Raw fv)"
      using length_box[of "sub_start ?p" "sub_shape ?p"] wf_subset_length[OF p(2)] by (simp add: map_replicate_const)
    finally have V': "subset_values f ?p = replicate (prod_list (sub_shape ?p)) (Raw fv)" .
    obtain out' where "view_fill v' fv out = Inr out'" "ab_ok t (prod_list a) (FixedBytes out')"
        "vals t (FixedBytes out') = scatter (vals t (FixedBytes out)) (sub_idx a ?u) (replicate (prod_list (sub_shape ?u)) (Raw fv))"
      by (rule view_fill_vals[OF v'(2) fu assms(11) fill_length])
    moreover have "sub_shape ?u = sub_shape ?p" by (simp add: shifted_def)
    ultimately show ?thesis
      using sc rel u(2,4) v'(1) True V' vs by (simp add: partial_fixed_step_def view_subdivide_def del: ix_elements.simps)
  next
    case False
    obtain o1 b where b: "acc sub b" "ab_encode C o1 b sub = Inr (take (ns ! (?i * 2 + 1)) (drop (ns ! (?i * 2)) e))"
        "vals t b = subset_values f (part s c)" "ns ! (?i * 2) + ns ! (?i * 2 + 1) \<le> length e"
      using entry False by (auto simp: entry_holds_def)
    obtain dec where dec: "get_subchunk_partial_decoder S d opt (ns ! (?i * 2)) (ns ! (?i * 2 + 1)) = Inr dec"
        "reads_array iclass t dec sub (vals t b)"
      by (rule subchunk_reader[OF assms(1) b(1,2,4) assms(5)])
    obtain x where x: "relative_to ?p (sub_start (part s c)) = Inr x" "subset_covered x sub" "sub_shape x = sub_shape ?p"
        "sub_idx sub x = map (pos (part s c)) (box (sub_start ?p) (sub_shape ?p))"
      using part_relative[OF p(2) w(1) sub(2) p(3)] w(2) by metis
    have lx: "length (sub_idx sub x) = prod_list (sub_shape ?p)"
      unfolding x(4) using length_box[of "sub_start ?p" "sub_shape ?p"] wf_subset_length[OF p(2)] by simp
    have "sub_idx sub x \<noteq> []"
      unfolding x(4) using set_box[OF p(2)] elements_empty_iff[OF p(2)] p(3) by auto
    from asked_subset[OF x(2) this] obtain b' where b': "dec (SubsetIndexer x) = Inr b'" "ab_ok t (length (sub_idx sub x)) b'"
        "vals t b' = map ((!) (vals t b)) (sub_idx sub x)"
      using dec(2) unfolding reads_array_def by blast
    have b'v: "vals t b' = subset_values f ?p" unfolding b'(3) b(3) x(4) by (rule V)
    have T: "target_ok t a ?u (FixedTarget v' out)" using v'(2) assms(11) by simp
    have "ab_ok t (length (sub_idx a ?u)) b'" using b'(2) lx lu by (simp del: ix_elements.simps)
    from decode_into_target_vals[OF fu assms(12) T this] obtain T' where T': "decode_into_target b' (FixedTarget v' out) = Inr T'"
        "target_ok t a ?u T'" "vals t (target_bytes T') = scatter (vals t (FixedBytes out)) (sub_idx a ?u) (vals t b')"
      unfolding target_bytes.simps by blast
    obtain w out' where out': "T' = FixedTarget w out'" "ab_ok t (prod_list a) (FixedBytes out')" by (rule plain_target[OF T'(2)])
    have n: "ix_len (SubsetIndexer x) = target_num_elements (FixedTarget v' out)"
      using v'(2) x(3) by (simp add: view_num_elements_def view_ok_def num_elements_def shifted_def)
    show ?thesis
      using sc rel u(2,4) v'(1) False vs dec(1) x(1) b'(1) n T'(1,3) out' b'v
      by (auto simp: partial_fixed_step_def view_subdivide_def within_subchunk_def default_partial_decode_into_def
          simp del: ix_elements.simps ix_len.simps target_num_elements.simps)
  qed
qed

text \<open>Reading a region into a view of it, and from a shard that is not there.\<close>

lemma partial_into_ok:
  assumes "shard_fits s" and "words s ns" and "region s r"
    and "\<And>i. i < many s \<Longrightarrow> entry_holds e (ns ! (i * 2)) (ns ! (i * 2 + 1)) (subset_values f (part_at s i))"
    and "reads_on (sharding_range location) d e"
    and "view_ok v z a q" and "fits q a" and "sub_shape q = sub_shape r" and "ab_ok t (prod_list a) (FixedBytes buf)" and "prod_list a < M64"
  shows "\<exists>out'. partial_decode_fixed_array_subset_into sched' S d s (Some ns) opt r v buf = Inr out' \<and>
    ab_ok t (prod_list a) (FixedBytes out') \<and>
    vals t (FixedBytes out') = scatter (vals t (FixedBytes buf)) (sub_idx a q) (subset_values f r)"
proof -
  obtain opt' where o: "partial_options S (per s) opt = Inr opt'" using options_ok(2)[OF assms(1)] by blast
  obtain cs where cs: "subchunks_of_region (shard_grid s sub) r = Inr cs"
      "\<And>c. c \<in> set cs \<Longrightarrow> inb c (per s) \<and> elements (part s c) \<inter> elements r \<noteq> {}"
      "\<And>i. i \<in> elements r \<Longrightarrow> \<exists>c \<in> set cs. i \<in> elements (part s c)"
    by (rule region_subchunks[OF assms(1,3)]) blast
  have sc: "set (sched' cs) = set cs" by (rule schedule_set[OF schedules(2)])
  have wf: "wf_subset r" using assms(3) fits_wf by (auto simp: region_def)
  have "\<exists>out'. try_for_each (partial_fixed_step S d opt' (shard_grid s sub) (per s) ns r v) (sched' cs) buf = Inr out' \<and>
      ab_ok t (prod_list a) (FixedBytes out') \<and>
      vals t (FixedBytes out') = scatter (vals t (FixedBytes buf)) (sub_idx a q) (subset_values f r)"
  proof (rule parts_in_place[where \<kappa> = "\<lambda>c. c" and P = "meet s r", OF assms(1) wf assms(7,8,9)])
    show "inb c (per s) \<and> wf_subset (meet s r c) \<and> \<not> is_empty (meet s r c) \<and>
        elements (meet s r c) = elements (part s c) \<inter> elements r" if "c \<in> set (sched' cs)" for c
      using cs(2)[of c] that meet_facts[OF assms(1,3), of c] unfolding sc by blast
    show "\<exists>c \<in> set (sched' cs). i \<in> elements (part s c)" if "i \<in> elements r" for i
      using cs(3)[OF that] unfolding sc .
    show "\<exists>out'. partial_fixed_step S d opt' (shard_grid s sub) (per s) ns r v c out = Inr out' \<and>
        ab_ok t (prod_list a) (FixedBytes out') \<and>
        vals t (FixedBytes out') = scatter (vals t (FixedBytes out)) (sub_idx a (shifted q r (meet s r c))) (subset_values f (meet s r c))"
      if "c \<in> set (sched' cs)" "ab_ok t (prod_list a) (FixedBytes out)" for c out
      using partial_fixed_step_ok[OF assms(1-5) _ _ assms(6-8) that(2) assms(10), of c opt'] cs(2)[of c] that(1) unfolding sc by blast
  qed
  moreover have "num_elements r = view_num_elements v"
    using assms(6,8) by (simp add: num_elements_def view_num_elements_def view_ok_def)
  ultimately show ?thesis
    using fits_facts(1,6)[OF assms(1)] o cs(1)
    by (simp add: partial_decode_fixed_array_subset_into_def regular_new_divided del: ix_elements.simps)
qed

lemma partial_into_absent:
  assumes "shard_fits s" and "view_ok v z a q" and "fits q a" and "sub_shape q = sub_shape r" and "ab_ok t (prod_list a) (FixedBytes buf)"
  shows "\<exists>out'. partial_decode_fixed_array_subset_into sched' S d s None opt r v buf = Inr out' \<and>
    ab_ok t (prod_list a) (FixedBytes out') \<and>
    vals t (FixedBytes out') = scatter (vals t (FixedBytes buf)) (sub_idx a q) (replicate (prod_list (sub_shape r)) (Raw fv))"
proof -
  obtain out' where "view_fill v fv buf = Inr out'" "ab_ok t (prod_list a) (FixedBytes out')"
      "vals t (FixedBytes out') = scatter (vals t (FixedBytes buf)) (sub_idx a q) (replicate (prod_list (sub_shape q)) (Raw fv))"
    by (rule view_fill_vals[OF assms(2,3,5) fill_length])
  moreover have "num_elements r = view_num_elements v"
    using assms(2,4) by (simp add: num_elements_def view_num_elements_def view_ok_def)
  ultimately show ?thesis using assms(4) by (simp add: partial_decode_fixed_array_subset_into_def)
qed

text \<open>A region read into a buffer of its own: the decoder's answer to a subset.\<close>

lemma region_read:
  assumes "shard_fits s" and "region s r" and "length V = prod_list (sub_shape r)"
    and "\<And>v buf. view_ok v z (sub_shape r) (new_with_shape (sub_shape r)) \<Longrightarrow> ab_ok t (prod_list (sub_shape r)) (FixedBytes buf) \<Longrightarrow>
      \<exists>out'. partial_decode_fixed_array_subset_into sched' S d s index opt r v buf = Inr out' \<and>
        ab_ok t (prod_list (sub_shape r)) (FixedBytes out') \<and>
        vals t (FixedBytes out') = scatter (vals t (FixedBytes buf)) (sub_idx (sub_shape r) (new_with_shape (sub_shape r))) V"
  shows "\<exists>b. sharding_partial_decode sched' S d s index opt (SubsetIndexer r) = Inr b \<and>
    ab_ok t (prod_list (sub_shape r)) b \<and> vals t b = V"
proof -
  let ?n = "prod_list (sub_shape r)"
  note f = fits_facts[OF assms(1)]
  have r: "fits r s" "\<not> is_empty r" using assms(2) by (simp_all add: region_def)
  have le: "?n \<le> prod_list s" by (rule fits_prod[OF r(1)])
  have n: "?n < M64" "?n * z < M64" using le f(2) mult_less_M64[OF le f(4)] by simp_all
  have pos: "list_all ((<) 0) (sub_shape r)" using r(2) by (simp add: is_empty_def list_all_length list_ex_length)
  note w = whole_facts[OF pos n(1)]
  have ok: "ab_ok t ?n (FixedBytes (replicate (?n * z) 0))" using f(3) n(2) by simp
  have small: "small_array (sub_shape r) z" using f(3) n(2) by (simp add: small_array_def)
  obtain v where v: "view_new (replicate (?n * z) 0) z (sub_shape r) (new_with_shape (sub_shape r)) = Inr v"
      "view_ok v z (sub_shape r) (new_with_shape (sub_shape r))"
    using view_new_ok[OF w(8) small, of "replicate (?n * z) 0"] by auto
  obtain out where out: "partial_decode_fixed_array_subset_into sched' S d s index opt r v (replicate (?n * z) 0) = Inr out"
      "ab_ok t ?n (FixedBytes out)"
      "vals t (FixedBytes out) = scatter (vals t (FixedBytes (replicate (?n * z) 0))) [0..<?n] V"
    using assms(4)[OF v(2) ok] unfolding w(7) by blast
  have "vals t (FixedBytes out) = V"
    using scatter_run[of 0 V "vals t (FixedBytes (replicate (?n * z) 0))"] length_vals[OF ok] out(3) assms(3) by simp
  moreover have "length (sub_start r) = length s" using r(1) by (simp add: fits_def)
  ultimately show ?thesis
    using out(1,2) v(1) n
    by (simp add: sharding_partial_decode_def data_type is_optional_def num_elements_def wprod_eq wmul_eq)
qed

lemma asked_region:
  assumes "asked NonemptySubsets s x"
  obtains r where "x = SubsetIndexer r" and "region s r" and "length (ix_elements s x) = prod_list (sub_shape r)"
    and "map ((!) (subset_values f (new_with_shape s))) (ix_elements s x) = subset_values f r"
proof -
  have a: "covers s x" "ix_elements s x \<noteq> []" "ix_as_array_subset x \<noteq> None" using assms by (simp_all add: asked_def indexes_def)
  obtain r where r: "x = SubsetIndexer r" using a(3) by (cases x) simp_all
  have f: "fits r s" using a(1) by (simp add: r subset_covered_def)
  have ne: "\<not> is_empty r" using a(2) set_box[OF fits_wf[OF f]] elements_empty_iff[OF fits_wf[OF f]] by (auto simp: r)
  have B: "inb i s" if "i \<in> set (box (sub_start r) (sub_shape r))" for i using fits_inb[OF f that] .
  have "subset_values f (new_with_shape s) ! lin s i = f i" if "inb i s" for i
    using that lin_less[OF that] by (simp add: subset_values_def new_with_shape_def box_unlin unlin_lin)
  then have "map ((!) (subset_values f (new_with_shape s))) (ix_elements s x) = subset_values f r"
    using B by (auto simp: r subset_values_def[of f r])
  then show ?thesis using that r f ne length_sub_idx[OF f] by (auto simp: region_def simp del: ix_elements.simps)
qed

subsection \<open>The partial decoder\<close>

lemma sharding_partial_some:
  assumes "shard_holds s f e" and "reads_on (sharding_range (sh_index_location S)) d e"
  shows "\<exists>dec. sharding_partial_decoder sched' S opt d s = Inr dec \<and> reads_array NonemptySubsets t dec s (subset_values f (new_with_shape s))"
proof -
  obtain N ns where sf: "shard_fits s" and N: "index_fits s N" and ns: "index_stored s N e ns"
    and entries: "\<And>i. i < many s \<Longrightarrow> entry_holds e (ns ! (i * 2)) (ns ! (i * 2 + 1)) (subset_values f (part_at s i))"
    using assms(1) by (auto simp: shard_holds_def)
  have w: "words s ns" using ns by (simp add: index_stored_def)
  have "reads_array NonemptySubsets t (sharding_partial_decode sched' S d s (Some ns) opt) s (subset_values f (new_with_shape s))"
    unfolding reads_array_def
  proof (intro allI impI)
    fix x assume x: "asked NonemptySubsets s x"
    obtain r where r: "x = SubsetIndexer r" "region s r" "length (ix_elements s x) = prod_list (sub_shape r)"
        "map ((!) (subset_values f (new_with_shape s))) (ix_elements s x) = subset_values f r"
      by (rule asked_region[OF x])
    have fr: "fits r s" "\<not> is_empty r" using r(2) by (simp_all add: region_def)
    have wf: "wf_subset r" using fits_wf[OF fr(1)] .
    have n: "prod_list (sub_shape r) < M64" using fits_prod[OF fr(1)] fits_facts(2)[OF sf] by simp
    have "list_all ((<) 0) (sub_shape r)" using fr(2) by (simp add: is_empty_def list_all_length list_ex_length)
    note w' = whole_facts(8)[OF this n]
    then have fw: "fits (new_with_shape (sub_shape r)) (sub_shape r)" "sub_shape (new_with_shape (sub_shape r)) = sub_shape r"
      by (simp_all add: subset_covered_def new_with_shape_def)
    show "\<exists>b. sharding_partial_decode sched' S d s (Some ns) opt x = Inr b \<and> ab_ok t (length (ix_elements s x)) b \<and>
        vals t b = map ((!) (subset_values f (new_with_shape s))) (ix_elements s x)"
      unfolding r(3,4) unfolding r(1)
      by (rule region_read[OF sf r(2) length_subset_values[OF wf]], rule partial_into_ok[OF sf w r(2) entries assms(2) _ fw _ n])
  qed
  then show ?thesis using index_read[OF sf N ns assms(2)] by (simp add: sharding_partial_decoder_def)
qed

lemma sharding_partial_fill:
  assumes "shard_holds s f e" and "absent_on (sharding_range (sh_index_location S)) d (length e)"
  shows "\<exists>dec. sharding_partial_decoder sched' S opt d s = Inr dec \<and>
    reads_array NonemptySubsets t dec s (fill_vals t fv s)"
proof -
  obtain N ns where sf: "shard_fits s" and len: "length e + 1 < M64" and N: "index_fits s N" and ns: "index_stored s N e ns"
    using assms(1) by (auto simp: shard_holds_def)
  have Ne: "N \<le> length e" "length e < M64" using ns len by (simp_all add: index_stored_def)
  have "reads_array NonemptySubsets t (sharding_partial_decode sched' S d s None opt) s (fill_vals t fv s)"
    unfolding reads_array_def
  proof (intro allI impI)
    fix x assume x: "asked NonemptySubsets s x"
    obtain r where r: "x = SubsetIndexer r" "region s r" "length (ix_elements s x) = prod_list (sub_shape r)"
      by (rule asked_region[OF x])
    have v: "map ((!) (fill_vals t fv s)) (ix_elements s x) = replicate (prod_list (sub_shape r)) (Raw fv)"
      using fill_vals_indexed[OF asked_indexes[OF x]] r(3) by (simp add: fill_val_def)
    have fr: "fits r s" "\<not> is_empty r" using r(2) by (simp_all add: region_def)
    have n: "prod_list (sub_shape r) < M64" using fits_prod[OF fr(1)] fits_facts(2)[OF sf] by simp
    have "list_all ((<) 0) (sub_shape r)" using fr(2) by (simp add: is_empty_def list_all_length list_ex_length)
    note w' = whole_facts(8)[OF this n]
    then have fw: "fits (new_with_shape (sub_shape r)) (sub_shape r)" "sub_shape (new_with_shape (sub_shape r)) = sub_shape r"
      by (simp_all add: subset_covered_def new_with_shape_def)
    show "\<exists>b. sharding_partial_decode sched' S d s None opt x = Inr b \<and> ab_ok t (length (ix_elements s x)) b \<and>
        vals t b = map ((!) (fill_vals t fv s)) (ix_elements s x)"
      unfolding r(3) v unfolding r(1)
      by (rule region_read[OF sf r(2)], simp, rule partial_into_absent[OF sf _ fw])
  qed
  then show ?thesis using index_absent[OF sf N Ne assms(2)] by (simp add: sharding_partial_decoder_def)
qed

text \<open>The override of \<open>partial_decode_into\<close> does what the default would.\<close>

lemma sharding_partial_decode_into_ok:
  assumes "shard_holds s f e" and "reads_on (sharding_range (sh_index_location S)) d e" and "region s r"
    and "target_into t a q T" and "sub_shape q = sub_shape r"
  shows "\<exists>index T'. decode_shard_index_partial_decoder S d s opt = Inr index \<and>
    sharding_partial_decode_into sched' S d s index opt (SubsetIndexer r) T = Inr T' \<and> target_ok t a q T' \<and>
    vals t (target_bytes T') = scatter (vals t (target_bytes T)) (sub_idx a q) (subset_values f r)"
proof -
  obtain N ns where sf: "shard_fits s" and N: "index_fits s N" and ns: "index_stored s N e ns"
    and entries: "\<And>i. i < many s \<Longrightarrow> entry_holds e (ns ! (i * 2)) (ns ! (i * 2 + 1)) (subset_values f (part_at s i))"
    using assms(1) by (auto simp: shard_holds_def)
  have w: "words s ns" using ns by (simp add: index_stored_def)
  have T: "target_ok t a q T" "fits q a" "prod_list a < M64" using assms(4) by (simp_all add: target_into_def)
  obtain v buf where eq: "T = FixedTarget v buf" "view_ok v z a q" "ab_ok t (prod_list a) (FixedBytes buf)" by (rule plain_target[OF T(1)])
  obtain out where out: "partial_decode_fixed_array_subset_into sched' S d s (Some ns) opt r v buf = Inr out"
      "ab_ok t (prod_list a) (FixedBytes out)"
      "vals t (FixedBytes out) = scatter (vals t (FixedBytes buf)) (sub_idx a q) (subset_values f r)"
    using partial_into_ok[OF sf w assms(3) entries assms(2) eq(2) T(2) assms(5) eq(3) T(3)] by blast
  have "ix_len (SubsetIndexer r) = target_num_elements T"
    using target_count[OF T(1)] assms(5) by (simp add: num_elements_def)
  then have "sharding_partial_decode_into sched' S d s (Some ns) opt (SubsetIndexer r) T = Inr (FixedTarget v out)"
    using out(1) by (simp add: sharding_partial_decode_into_def data_type eq(1))
  then show ?thesis
    using index_read[OF sf N ns assms(2)] out(2,3) eq(2) by (auto simp: eq(1) simp del: ix_elements.simps)
qed

end

end
