(* ===== verification/Shard_Writes.thy ===== *)
theory Shard_Writes
  imports Shard_Geometry
begin

text \<open>
  Writing encoded subchunks into a shard: the state of the writers after a list of writes, for the three loops of the encoder and
  for compaction, and the shard that results when its index is written.
\<close>

lemma schedule_distinct: "schedule sched \<Longrightarrow> distinct cs \<Longrightarrow> distinct (sched cs)"
  by (metis card_distinct distinct_card schedule_def)

definition sizes :: "(nat \<times> bytes) list \<Rightarrow> nat" where
  "sizes ps = sum_list (map (\<lambda>(_, e). length e) ps)"

lemma sizes_simps [simp]: "sizes [] = 0" "sizes ((i, e) # ps) = length e + sizes ps" "sizes (ps @ qs) = sizes ps + sizes qs"
  by (simp_all add: sizes_def)

lemma sizes_le: "(\<And>i e. (i, e) \<in> set ps \<Longrightarrow> length e \<le> n) \<Longrightarrow> sizes ps \<le> length ps * n"
proof (induction ps)
  case (Cons p ps)
  obtain i e where p: "p = (i, e)" by fastforce
  have "sizes ps \<le> length ps * n" using Cons.prems by (intro Cons.IH) auto
  moreover have "length e \<le> n" using Cons.prems[of i e] by (simp add: p)
  ultimately show ?case by (simp add: p)
qed simp

lemma sizes_set: "distinct ps \<Longrightarrow> distinct qs \<Longrightarrow> set ps = set qs \<Longrightarrow> sizes ps = sizes qs"
  by (simp add: sizes_def sum_list_distinct_conv_sum_set)

text \<open>
  The chunks \<open>ps\<close> have been written, from the offset \<open>d0\<close> on, to a memory of \<open>B\<close> bytes, with an index of \<open>P\<close> entries.
\<close>

definition written :: "nat \<Rightarrow> nat \<Rightarrow> nat \<Rightarrow> (nat \<times> bytes) list \<Rightarrow> shard_state \<Rightarrow> bool" where
  "written d0 B P ps = (\<lambda>(off, ns, buf).
     off = d0 + sizes ps \<and> off \<le> B \<and> length buf = B \<and> length ns = P * 2 \<and> (\<forall>n \<in> set ns. n < M64) \<and> distinct (map fst ps) \<and>
     (\<forall>(i, e) \<in> set ps. i < P \<and> d0 \<le> ns ! (i * 2) \<and> ns ! (i * 2) + length e \<le> off \<and> ns ! (i * 2 + 1) = length e \<and>
        take (length e) (drop (ns ! (i * 2)) buf) = e) \<and>
     (\<forall>i < P. i \<notin> fst ` set ps \<longrightarrow> ns ! (i * 2) = u64_MAX \<and> ns ! (i * 2 + 1) = u64_MAX))"

lemma written_none: "d0 \<le> B \<Longrightarrow> length buf = B \<Longrightarrow> written d0 B P [] (d0, replicate (P * 2) u64_MAX, buf)"
  by (auto simp: written_def u64_MAX_def M64_def)

lemma take_drop_write:
  assumes "o1 + n \<le> o2" and "length buf = o2 + length e + m"
  shows "take n (drop o1 (take o2 buf @ e @ drop (o2 + length e) buf)) = take n (drop o1 buf)"
  using assms by (simp add: take_drop)

lemma write_chunk_ok:
  assumes "written d0 B P ps st" and "i < P" and "i \<notin> fst ` set ps" and "d0 + sizes ps + length e \<le> B" and "B < M64"
  shows "\<exists>st'. write_chunk (i, e) st = Inr st' \<and> written d0 B P (ps @ [(i, e)]) st' \<and> fst st' = fst st + length e"
proof -
  obtain off ns buf where st: "st = (off, ns, buf)" by (metis prod.exhaust)
  note w = assms(1)[unfolded written_def st, simplified]
  let ?ns = "ns[i * 2 := off, i * 2 + 1 := length e]"
  let ?buf = "take off buf @ e @ drop (off + length e) buf"
  have off: "off = d0 + sizes ps" "off + length e \<le> B" "length buf = B" "length ns = P * 2" using w assms(4) by simp_all
  have i: "i * 2 + 1 < length ns" using off(4) assms(2) by simp
  have nth: "?ns ! (j * 2) = (if j = i then off else ns ! (j * 2)) \<and> ?ns ! (j * 2 + 1) = (if j = i then length e else ns ! (j * 2 + 1))" for j
    using i by (simp add: nth_list_update)
  have old: "take (length e') (drop (ns ! (j * 2)) ?buf) = e'" if "(j, e') \<in> set ps" for j e'
  proof -
    have j: "ns ! (j * 2) + length e' \<le> off" "take (length e') (drop (ns ! (j * 2)) buf) = e'" using w that by auto
    obtain m where "length buf = off + length e + m" using off(2,3) by (metis le_Suc_ex)
    from take_drop_write[OF j(1) this] j(2) show ?thesis by simp
  qed
  have "written d0 B P (ps @ [(i, e)]) (wadd off (length e), ?ns, ?buf)"
    unfolding written_def prod.case
  proof (intro conjI)
    show "wadd off (length e) = d0 + sizes (ps @ [(i, e)])" "wadd off (length e) \<le> B" using off assms(5) by (simp_all add: wadd_eq)
    show "length ?buf = B" "length ?ns = P * 2" using off by simp_all
    have "off < M64" "length e < M64" using off assms(5) by simp_all
    moreover have "set ?ns \<subseteq> insert (length e) (insert off (set ns))"
      by (metis insert_mono order_trans set_update_subset_insert)
    ultimately show "\<forall>n \<in> set ?ns. n < M64" using w by blast
    show "distinct (map fst (ps @ [(i, e)]))" using w assms(3) by auto
    show "\<forall>(j, e') \<in> set (ps @ [(i, e)]). j < P \<and> d0 \<le> ?ns ! (j * 2) \<and> ?ns ! (j * 2) + length e' \<le> wadd off (length e) \<and>
        ?ns ! (j * 2 + 1) = length e' \<and> take (length e') (drop (?ns ! (j * 2)) ?buf) = e'"
    proof safe
      fix j e' assume je: "(j, e') \<in> set (ps @ [(i, e)])"
      have "(j, e') = (i, e) \<or> (j, e') \<in> set ps \<and> j \<noteq> i" using je assms(3) by (force simp: image_iff)
      then show "j < P" "d0 \<le> ?ns ! (j * 2)" "?ns ! (j * 2) + length e' \<le> wadd off (length e)" "?ns ! (j * 2 + 1) = length e'"
        "take (length e') (drop (?ns ! (j * 2)) ?buf) = e'"
        using w nth[of j] old[of j e'] off assms(2,5) by (auto simp: wadd_eq)
    qed
    show "\<forall>j < P. j \<notin> fst ` set (ps @ [(i, e)]) \<longrightarrow> ?ns ! (j * 2) = u64_MAX \<and> ?ns ! (j * 2 + 1) = u64_MAX"
      using w nth by auto
  qed
  then show ?thesis
    using i off assms(5) by (auto simp: st write_chunk_def set_entry_def write_at_def wadd_eq)
qed

lemma writes_ok:
  assumes "B < M64"
  shows "written d0 B P ps0 st \<Longrightarrow> distinct (map fst (ps0 @ ps)) \<Longrightarrow> \<forall>(i, e) \<in> set ps. i < P \<Longrightarrow> d0 + sizes (ps0 @ ps) \<le> B \<Longrightarrow>
    \<exists>st'. try_for_each write_chunk ps st = Inr st' \<and> written d0 B P (ps0 @ ps) st'"
proof (induction ps arbitrary: ps0 st)
  case (Cons p ps)
  obtain i e where p: "p = (i, e)" by fastforce
  have "i \<notin> fst ` set ps0" using Cons.prems(2) by (auto simp: p)
  then obtain st1 where st1: "write_chunk (i, e) st = Inr st1" "written d0 B P (ps0 @ [(i, e)]) st1"
    using write_chunk_ok[OF Cons.prems(1) _ _ _ assms, of i e] Cons.prems(3,4) by (auto simp: p)
  from Cons.IH[OF st1(2)] Cons.prems show ?case using st1(1) by (simp add: p)
qed simp

text \<open>The concurrent loop of the encoder writes the chunks it does not skip.\<close>

lemma encode_steps_eq:
  assumes "\<And>i. i \<in> set is \<Longrightarrow> encode_inner_by_chunk_index al S opt b s cps i = map_option Inr (g i)" and "bounded < M64"
  shows "fst st + sizes (List.map_filter g is) \<le> bounded \<Longrightarrow>
    (\<And>i p. i \<in> set is \<Longrightarrow> g i = Some p \<Longrightarrow> fst p = i) \<Longrightarrow>
    try_for_each (encode_step al S opt b s cps bounded) is st = try_for_each write_chunk (List.map_filter g is) st"
  using assms(1)
proof (induction "is" arbitrary: st)
  case (Cons i "is")
  note IH = Cons.IH[OF _ Cons.prems(2) Cons.prems(3)]
  show ?case
  proof (cases "g i")
    case None
    then have "encode_step al S opt b s cps bounded i st = Inr st"
      using Cons.prems(3)[of i] by (simp add: encode_step_def)
    then show ?thesis using IH Cons.prems(1) None by (simp add: List.map_filter_simps)
  next
    case (Some p)
    then obtain e where p: "p = (i, e)" using Cons.prems(2)[of i p] by (cases p) auto
    have le: "fst st + length e + sizes (List.map_filter g is) \<le> bounded"
      using Cons.prems(1) Some by (simp add: List.map_filter_simps p)
    have "encode_step al S opt b s cps bounded i st = write_chunk (i, e) st"
      using Cons.prems(3)[of i] Some le assms(2) by (simp add: encode_step_def p wadd_eq)
    moreover have "fst st' + sizes (List.map_filter g is) \<le> bounded" if "write_chunk (i, e) st = Inr st'" for st'
    proof -
      have "fst st' = wadd (fst st) (length e)"
        using that by (cases st) (auto simp: write_chunk_def bind_res_Inr)
      then show ?thesis using le assms(2) by (simp add: wadd_eq)
    qed
    ultimately show ?thesis
      using IH Some by (simp add: List.map_filter_simps p bind_res_def split: sum.splits)
  qed
qed (simp add: List.map_filter_simps)

lemma map_filter_pairs:
  assumes "distinct is" and "\<And>i p. i \<in> set is \<Longrightarrow> g i = Some p \<Longrightarrow> fst p = i"
  shows "distinct (map fst (List.map_filter g is))" and "length (List.map_filter g is) \<le> length is"
    and "(i, e) \<in> set (List.map_filter g is) \<longleftrightarrow> i \<in> set is \<and> g i = Some (i, e)"
proof -
  have fst: "fst ` set (List.map_filter g is) \<subseteq> set is" if "\<And>i p. i \<in> set is \<Longrightarrow> g i = Some p \<Longrightarrow> fst p = i" for "is"
    using that by (force simp: List.map_filter_def)
  show "distinct (map fst (List.map_filter g is))"
    using assms
  proof (induction "is")
    case (Cons j "is")
    then show ?case using fst[of "is"] by (cases "g j") (fastforce simp: List.map_filter_simps)+
  qed (simp add: List.map_filter_simps)
  show "length (List.map_filter g is) \<le> length is" by (simp add: List.map_filter_def length_filter_le)
  show "(i, e) \<in> set (List.map_filter g is) \<longleftrightarrow> i \<in> set is \<and> g i = Some (i, e)"
    using assms(2) by (force simp: List.map_filter_def)
qed

end
