(* ===== verification/Sharding_Writes.thy ===== *)
theory Sharding_Writes
  imports Sharding_Reads Shard_Writes
begin

text \<open>
  Encoding and compacting shards: the encoder makes a shard that holds the values it was given, whatever the order in which the subchunks
  are written, and the sharding codec keeps the contract of an array-to-bytes codec; compaction keeps what a shard
  holds and leaves nothing to compact.
\<close>

context sharding
begin

text \<open>A shard from the state of the writers, when the index is written to it.\<close>

definition shard_length :: "nat \<Rightarrow> nat \<Rightarrow> nat" where
  "shard_length N off = (case sh_index_location S of IndexStart \<Rightarrow> off | IndexEnd \<Rightarrow> off + N)"

lemma finished:
  assumes "shard_fits s" and "index_fits s N" and "written (data_start S N) B (many s) ps (off, ns, buf)"
    and "shard_length N off \<le> B" and "B + 1 < M64"
    and "\<And>i e. (i, e) \<in> set ps \<Longrightarrow> \<exists>opt b. acc sub b \<and> ab_encode C opt b sub = Inr e \<and> vals t b = subset_values f (part_at s i)"
    and "\<And>i. i < many s \<Longrightarrow> i \<notin> fst ` set ps \<Longrightarrow> subset_values f (part_at s i) = replicate (prod_list sub) (Raw fv)"
  shows "\<exists>e. finish_shard S opt (sharding_index_shape (per s)) (shard_length N off) ns buf = Inr e \<and>
    shard_holds s f e \<and> length e = shard_length N off \<and> index_stored s N e ns"
proof -
  let ?n = "shard_length N off"
  note w = assms(3)[unfolded written_def, simplified]
  have words: "words s ns" using w by (simp add: words_def)
  have acc: "iacc (sharding_index_shape (per s)) (index_bytes ns)" using assms(2) words by (simp add: index_fits_def)
  obtain eI where eI: "ab_encode (sh_index_codecs S) opt (index_bytes ns) (sharding_index_shape (per s)) = Inr eI"
    using index.roundtrip[OF acc, of opt] by blast
  have N: "length eI = N" using assms(2) words eI by (simp add: index_fits_def)
  define at where "at = (case sh_index_location S of IndexStart \<Rightarrow> 0 | IndexEnd \<Rightarrow> off)"
  define e where "e = take ?n (take at buf @ eI @ drop (at + N) buf)"
  have B: "length buf = B" using w by simp
  have fin: "finish_shard S opt (sharding_index_shape (per s)) ?n ns buf = Inr e"
    using eI N B assms(4) w
    by (cases "sh_index_location S") (auto simp: finish_shard_def shard_length_def at_def e_def write_at_def data_start_def)
  have le: "length e = ?n"
    using assms(4) B w N by (cases "sh_index_location S") (auto simp: e_def at_def shard_length_def data_start_def)
  have ix: "index_of N e = eI" and Nle: "N \<le> length e"
    using assms(4) B w N le
    by (cases "sh_index_location S"; auto simp: index_of_def e_def at_def shard_length_def data_start_def take_drop)+
  have data: "take n (drop o' e) = take n (drop o' buf)"
    if "data_start S N \<le> o'" "o' + n \<le> off" for o' n
  proof (cases "sh_index_location S")
    case IndexStart
    then have "e = take off (eI @ drop N buf)" by (simp add: e_def at_def shard_length_def)
    moreover have "N \<le> off" using w IndexStart by (simp add: data_start_def)
    ultimately have "drop o' e = take (off - o') (drop o' buf)" using IndexStart that(1) N by (simp add: drop_take data_start_def)
    then show ?thesis using that(2) by simp
  next
    case IndexEnd
    then have "e = take off buf @ eI" using B w N assms(4) by (simp add: e_def at_def shard_length_def)
    then show ?thesis using that(2) B w by (simp add: take_drop min_def)
  qed
  have off: "off \<le> length e" using le by (cases "sh_index_location S") (simp_all add: shard_length_def)
  have entry: "entry_holds e (ns ! (i * 2)) (ns ! (i * 2 + 1)) (subset_values f (part_at s i))" if i: "i < many s" for i
  proof (cases "i \<in> fst ` set ps")
    case True
    then obtain e' where e': "(i, e') \<in> set ps" by force
    then have v: "data_start S N \<le> ns ! (i * 2)" "ns ! (i * 2) + length e' \<le> off" "ns ! (i * 2 + 1) = length e'"
      "take (length e') (drop (ns ! (i * 2)) buf) = e'" using w by auto
    obtain o1 b where b: "acc sub b" "ab_encode C o1 b sub = Inr e'" "vals t b = subset_values f (part_at s i)"
      using assms(6)[OF e'] by blast
    have "take (length e') (drop (ns ! (i * 2)) e) = e'" using data[OF v(1,2)] v(4) by simp
    moreover have "length e' \<le> L" using short[OF b(1,2)] .
    moreover have "ns ! (i * 2) < u64_MAX" "length e' < u64_MAX"
      using v(2) off le assms(4,5) by (auto simp: u64_MAX_def)
    ultimately show ?thesis using b v off unfolding entry_holds_def by (metis le_trans less_irrefl)
  next
    case False
    then show ?thesis using w i assms(7)[OF i] by (simp add: entry_holds_def)
  qed
  have start: "data_start S N \<le> ns ! (i * 2)" if i: "i < many s" for i
  proof (cases "i \<in> fst ` set ps")
    case False
    then show ?thesis using w i assms(5) by (auto simp: u64_MAX_def)
  qed (use w in auto)
  have "index_stored s N e ns" using Nle words ix eI by (auto simp: index_stored_def)
  moreover have "shard_holds s f e"
    unfolding shard_holds_def using assms(1,2) le assms(4,5) entry start calculation by auto
  ultimately show ?thesis using fin le by blast
qed

subsection \<open>Encoding\<close>

text \<open>What is written for a subchunk.\<close>

definition subchunk_write :: "codec_options \<Rightarrow> array_bytes \<Rightarrow> chunk_shape \<Rightarrow> nat \<Rightarrow> (nat \<times> bytes) option" where
  "subchunk_write opt b s i =
     (case encode_inner_by_chunk_index al S opt b s (per s) i of Some (Inr p) \<Rightarrow> Some p | _ \<Rightarrow> None)"

lemma subchunk_write_cases:
  assumes "sharding_accepts s b" and "i < many s"
  defines "f \<equiv> \<lambda>k. vals t b ! lin s k"
  obtains "subchunk_write opt b s i = None" and "encode_inner_by_chunk_index al S opt b s (per s) i = None"
    and "subset_values f (part_at s i) = replicate (prod_list sub) (Raw fv)"
  | e b' where "subchunk_write opt b s i = Some (i, e)" and "encode_inner_by_chunk_index al S opt b s (per s) i = Some (Inr (i, e))"
    and "acc sub b'" and "ab_encode C opt b' sub = Inr e" and "vals t b' = subset_values f (part_at s i)"
proof -
  have sf: "shard_fits s" and ok: "ab_ok t (prod_list s) b" using assms(1) by (simp_all add: sharding_accepts_def)
  note p = part_at_facts[OF sf assms(2)]
  have "distinct (sub_idx s (part_at s i))" by (rule distinct_sub_idx[OF p(6)])
  moreover have "covers s (SubsetIndexer (part_at s i))" using p(7) by simp
  ultimately obtain b' where b': "extract_array_subset b (SubsetIndexer (part_at s i)) s t = Inr b'"
      "ab_ok t (length (sub_idx s (part_at s i))) b'" "vals t b' = map ((!) (vals t b)) (sub_idx s (part_at s i))"
    using extract_vals[OF _ fits_facts(2)[OF sf] ok] by blast
  have len: "length (sub_idx s (part_at s i)) = prod_list sub" using length_sub_idx[OF p(6)] p(5) by (simp del: ix_elements.simps)
  have v: "vals t b' = subset_values f (part_at s i)" unfolding b'(3) by (simp add: f_def subset_values_def comp_def)
  have ok': "ab_ok t (prod_list sub) b'" using b'(2) len by simp
  have ac: "acc sub b'" by (rule sub_facts(4)[OF sf ok'])
  obtain e where e: "ab_encode C opt b' sub = Inr e" using inner.roundtrip[OF ac] by blast
  show ?thesis
  proof (cases "is_fill_value al b' fv")
    case True
    have "vals t b' = replicate (prod_list sub) (fill_val t fv)"
      by (rule is_fill_value_vals[OF aligned True ok']) (simp_all add: fill_length is_fixed_def)
    then show ?thesis
      using that(1) p(2) b'(1) True v
      by (simp add: subchunk_write_def encode_inner_by_chunk_index_def data_type fill_val_def Let_def)
  next
    case False
    then show ?thesis
      using that(2)[OF _ _ ac e v] p(2) b'(1) e
      by (simp add: subchunk_write_def encode_inner_by_chunk_index_def data_type Let_def)
  qed
qed

text \<open>A list of writes of all the subchunks that are not fill value, in some order.\<close>

definition all_writes :: "codec_options \<Rightarrow> array_bytes \<Rightarrow> chunk_shape \<Rightarrow> (nat \<times> bytes) list \<Rightarrow> bool" where
  "all_writes opt b s ps \<longleftrightarrow> distinct (map fst ps) \<and> length ps \<le> many s \<and>
     (\<forall>i e. (i, e) \<in> set ps \<longleftrightarrow> i < many s \<and> subchunk_write opt b s i = Some (i, e))"

lemma all_writes_filter:
  assumes "sharding_accepts s b" and "distinct is" and "set is = {0..<many s}"
  shows "all_writes opt b s (List.map_filter (subchunk_write opt b s) is)"
proof -
  have fst: "fst p = i" if "i \<in> set is" "subchunk_write opt b s i = Some p" for i p
    using that assms(3) by (cases rule: subchunk_write_cases[OF assms(1), of i opt]) auto
  have "length is = many s" using assms(2,3) distinct_card[of "is"] by simp
  then show ?thesis
    using map_filter_pairs[OF assms(2) fst] assms(3) by (simp add: all_writes_def)
qed

lemma all_writes_perm:
  assumes "all_writes opt b s ps" and "schedule sched"
  shows "all_writes opt b s (map ((!) ps) (sched [0..<length ps]))" and "sizes (map ((!) ps) (sched [0..<length ps])) = sizes ps"
proof -
  define js where "js = sched [0..<length ps]"
  define qs where "qs = map ((!) ps) js"
  have d: "distinct ps" and df: "inj_on fst (set ps)" using assms(1) by (auto simp: all_writes_def distinct_map)
  have s: "set js = {0..<length ps}" "distinct js" "length js = length ps"
    unfolding js_def using schedule_set[OF assms(2)] schedule_distinct[OF assms(2)] assms(2) by (simp_all add: schedule_def)
  have qs: "set qs = set ps" "distinct qs" "length qs = length ps"
    unfolding qs_def using nth_image[of "length ps" ps] s d by (auto simp: distinct_map inj_on_def nth_eq_iff_index_eq)
  then have "distinct (map fst qs)" using df by (simp add: distinct_map)
  then have "all_writes opt b s qs" using assms(1) qs by (simp add: all_writes_def)
  moreover have "sizes qs = sizes ps" by (rule sizes_set[OF qs(2) d qs(1)])
  ultimately show "all_writes opt b s (map ((!) ps) (sched [0..<length ps]))" "sizes (map ((!) ps) (sched [0..<length ps])) = sizes ps"
    by (simp_all only: qs_def js_def)
qed

lemma all_writes_facts:
  assumes "sharding_accepts s b" and "all_writes opt b s ps"
  defines "f \<equiv> \<lambda>k. vals t b ! lin s k"
  shows "\<And>i e. (i, e) \<in> set ps \<Longrightarrow> \<exists>opt b'. acc sub b' \<and> ab_encode C opt b' sub = Inr e \<and> vals t b' = subset_values f (part_at s i)"
    and "\<And>i. i < many s \<Longrightarrow> i \<notin> fst ` set ps \<Longrightarrow> subset_values f (part_at s i) = replicate (prod_list sub) (Raw fv)"
    and "sizes ps \<le> many s * L"
    and "\<And>r n. ab_encoded_representation C sub = Inr r \<Longrightarrow> bytes_representation_size r = Some n \<Longrightarrow> sizes ps \<le> many s * n"
proof -
  have ps: "(i, e) \<in> set ps \<longleftrightarrow> i < many s \<and> subchunk_write opt b s i = Some (i, e)" for i e
    using assms(2) by (simp add: all_writes_def)
  have w: "\<exists>b'. acc sub b' \<and> ab_encode C opt b' sub = Inr e \<and> vals t b' = subset_values f (part_at s i)" if "(i, e) \<in> set ps" for i e
    using that ps[of i e] unfolding f_def by (cases rule: subchunk_write_cases[OF assms(1), of i opt]) auto
  show "\<exists>opt b'. acc sub b' \<and> ab_encode C opt b' sub = Inr e \<and> vals t b' = subset_values f (part_at s i)" if "(i, e) \<in> set ps" for i e
    using w[OF that] by blast
  show "subset_values f (part_at s i) = replicate (prod_list sub) (Raw fv)" if "i < many s" "i \<notin> fst ` set ps" for i
  proof -
    have "subchunk_write opt b s i \<noteq> Some (i, e)" for e using that ps[of i e] by force
    then show ?thesis
      using that(1) unfolding f_def by (cases rule: subchunk_write_cases[OF assms(1), of i opt]) auto
  qed
  have n: "length ps \<le> many s" using assms(2) by (simp add: all_writes_def)
  have "sizes ps \<le> length ps * L" by (rule sizes_le) (use w short in blast)
  then show "sizes ps \<le> many s * L" using n by (meson le_trans mult_le_mono1)
  show "sizes ps \<le> many s * n" if "ab_encoded_representation C sub = Inr r" "bytes_representation_size r = Some n" for r n
  proof -
    have "sizes ps \<le> length ps * n" by (rule sizes_le) (use w bounded[OF _ _ that] in blast)
    then show ?thesis using n by (meson le_trans mult_le_mono1)
  qed
qed

text \<open>The writes, and then the index.\<close>

lemma written_shard:
  assumes "sharding_accepts s b" and "index_fits s N" and "all_writes opt b s ps" and "sizes ps + N \<le> B" and "B + 1 < M64"
    and "length buf = B"
  defines "f \<equiv> \<lambda>k. vals t b ! lin s k"
  obtains ns buf' e where "try_for_each write_chunk ps (data_start S N, replicate (wprod (sharding_index_shape (per s))) u64_MAX, buf) =
      Inr (data_start S N + sizes ps, ns, buf')"
    and "finish_shard S opt' (sharding_index_shape (per s)) (sizes ps + N) ns buf' = Inr e" and "shard_holds s f e"
proof -
  have sf: "shard_fits s" using assms(1) by (simp add: sharding_accepts_def)
  have "iacc (sharding_index_shape (per s)) (index_bytes (replicate (many s * 2) 0))"
    using assms(2) by (auto simp: index_fits_def words_def M64_def)
  from index.accepted[OF this] have "prod_list (sharding_index_shape (per s)) < M64" by (auto simp: shape_ok_def)
  then have wp: "wprod (sharding_index_shape (per s)) = many s * 2" by (simp add: sharding_index_shape_def wprod_eq)
  have start: "data_start S N + sizes ps \<le> B" "data_start S N \<le> B"
    using assms(4) by (auto simp: data_start_def split: sharding_index_location.splits)
  have ps: "distinct (map fst ps)" "\<forall>(i, e) \<in> set ps. i < many s" using assms(3) by (auto simp: all_writes_def)
  have "written (data_start S N) B (many s) [] (data_start S N, replicate (many s * 2) u64_MAX, buf)"
    by (rule written_none[OF start(2) assms(6)])
  from writes_ok[OF _ this, of ps] assms(5) ps start obtain st' where
    st': "try_for_each write_chunk ps (data_start S N, replicate (many s * 2) u64_MAX, buf) = Inr st'"
      "written (data_start S N) B (many s) ps st'" by auto
  obtain off ns buf' where o: "st' = (off, ns, buf')" by (metis prod.exhaust)
  have off: "off = data_start S N + sizes ps" using st'(2) by (simp add: o written_def)
  have sl: "shard_length N off = sizes ps + N"
    by (cases "sh_index_location S") (simp_all add: shard_length_def off data_start_def)
  note w = all_writes_facts[OF assms(1,3)]
  obtain e where "finish_shard S opt' (sharding_index_shape (per s)) (shard_length N off) ns buf' = Inr e" "shard_holds s f e"
    using finished[OF sf assms(2) st'(2)[unfolded o] _ assms(5), of f opt'] w(1,2) assms(4) unfolding f_def sl by blast
  then show ?thesis using that[of ns buf' e] st'(1) unfolding sl by (simp add: o off wp)
qed

lemma chunks_collected:
  assumes "sharding_accepts s b"
  shows "encode_chunks al S opt b s (per s) = Inr (List.map_filter (subchunk_write opt b s) [0..<many s])"
proof -
  have sf: "shard_fits s" using assms by (simp add: sharding_accepts_def)
  have "List.map_filter (encode_inner_by_chunk_index al S opt b s (per s)) is = map Inr (List.map_filter (subchunk_write opt b s) is)"
    if "\<forall>i \<in> set is. i < many s" for "is"
    using that
  proof (induction "is")
    case (Cons i "is")
    then have i: "i < many s" and IH: "List.map_filter (encode_inner_by_chunk_index al S opt b s (per s)) is =
        map Inr (List.map_filter (subchunk_write opt b s) is)" by simp_all
    show ?case
      by (cases rule: subchunk_write_cases[OF assms i, of opt]) (simp_all add: List.map_filter_simps IH)
  qed (simp add: List.map_filter_simps)
  then show ?thesis using fits_facts(8)[OF sf] by (simp add: encode_chunks_def)
qed

lemma holds_whole:
  assumes "shard_fits s" and "ab_ok t (prod_list s) b"
  shows "subset_values (\<lambda>k. vals t b ! lin s k) (new_with_shape s) = vals t b"
proof -
  have "map (\<lambda>k. vals t b ! lin s (unlin s k)) [0..<prod_list s] = map ((!) (vals t b)) [0..<prod_list s]"
    by (auto simp: lin_unlin)
  also have "\<dots> = vals t b" using length_vals[OF assms(2)] by (metis map_nth)
  finally show ?thesis unfolding whole_facts(6)[OF fits_facts(5,2)[OF assms(1)]] .
qed

lemma sharding_encode_ok:
  assumes "sharding_accepts s b"
  shows "\<exists>e. sharding_encode sched junk al S opt b s = Inr e \<and> shard_holds s (\<lambda>k. vals t b ! lin s k) e"
proof -
  have sf: "shard_fits s" and ok: "ab_ok t (prod_list s) b" using assms by (simp_all add: sharding_accepts_def)
  note f = fits_facts[OF sf]
  obtain N where N: "index_fits s N" using sf by (auto simp: shard_fits_def)
  have NM: "many s * L + N + 1 < M64" using N by (simp add: index_fits_def)
  obtain opt' where o: "shard_options S opt s = Inr opt'" using options_ok(1)[OF sf] by blast
  obtain r where r: "ab_encoded_representation C sub = Inr r" using sub_facts(6)[OF sf] by blast
  have v: "validate_bytes b (wprod s) t = Inr ()"
    using sf ok f(10) by (intro validate_ok) (simp_all add: shard_fits_def)
  have ci: "compute_index_encoded_size (sh_index_codecs S) (sharding_index_shape (per s)) = Inr N" using N by (simp add: index_fits_def)
  let ?chunks = "List.map_filter (subchunk_write opt' b s) [0..<many s]"
  have ch: "all_writes opt' b s ?chunks" by (rule all_writes_filter[OF assms]) simp_all
  have bounded_case: "\<exists>e. encode_bounded sched junk al S opt b s n = Inr e \<and> shard_holds s (\<lambda>k. vals t b ! lin s k) e"
    if size: "bytes_representation_size r = Some n" for n
  proof -
    have "acc sub (FixedBytes (replicate (prod_list sub * z) 0))"
      using sub_facts(1)[OF sf] f(3) by (intro sub_facts(4)[OF sf]) simp
    then have nL: "n \<le> L" using inner.roundtrip bounded[OF _ _ r size] by blast
    let ?B = "many s * n + N"
    have "many s * n \<le> many s * L" using nL by simp
    then have B: "?B + 1 < M64" using NM by linarith
    have bs: "encoded_shard_bounded_size N n (per s) = ?B"
      using B f(8) by (simp add: encoded_shard_bounded_size_def wadd_eq wmul_eq)
    have run: "\<exists>e. bind_res (try_for_each write_chunk ps (data_start S N, replicate (wprod (sharding_index_shape (per s))) u64_MAX, junk ?B))
        (\<lambda>(off, ns, buf). finish_shard S opt' (sharding_index_shape (per s))
          (wadd off (case sh_index_location S of IndexStart \<Rightarrow> 0 | IndexEnd \<Rightarrow> N)) ns buf) = Inr e \<and>
        shard_holds s (\<lambda>k. vals t b ! lin s k) e"
      if ps: "all_writes opt' b s ps" for ps
    proof -
      have le: "sizes ps + N \<le> ?B" using all_writes_facts(4)[OF assms ps r size] by simp
      obtain ns buf e where "try_for_each write_chunk ps
          (data_start S N, replicate (wprod (sharding_index_shape (per s))) u64_MAX, junk ?B) = Inr (data_start S N + sizes ps, ns, buf)"
          "finish_shard S opt' (sharding_index_shape (per s)) (sizes ps + N) ns buf = Inr e" "shard_holds s (\<lambda>k. vals t b ! lin s k) e"
        by (rule written_shard[OF assms N ps le B, of "junk ?B" opt']) (use buffers in \<open>simp add: allocates_def\<close>)
      moreover have "wadd (data_start S N + sizes ps) (case sh_index_location S of IndexStart \<Rightarrow> 0 | IndexEnd \<Rightarrow> N) = sizes ps + N"
        using le B by (cases "sh_index_location S") (simp_all add: data_start_def wadd_eq)
      ultimately show ?thesis by simp
    qed
    show ?thesis
    proof (cases "sh_write_order S = COrder")
      case True
      then show ?thesis
        using run[OF ch] f(6) ci o chunks_collected[OF assms, of opt'] by (simp add: encode_bounded_def Let_def bs)
    next
      case False
      let ?is = "sched [0..<many s]"
      have "is": "distinct ?is" "set ?is = {0..<many s}"
        using schedule_distinct[OF schedules(1)] schedule_set[OF schedules(1)] by simp_all
      have al: "all_writes opt' b s (List.map_filter (subchunk_write opt' b s) ?is)" by (rule all_writes_filter[OF assms "is"])
      have "try_for_each (encode_step al S opt' b s (per s) ?B) ?is (data_start S N, X, Y) =
          try_for_each write_chunk (List.map_filter (subchunk_write opt' b s) ?is) (data_start S N, X, Y)" for X Y
      proof (rule encode_steps_eq)
        show "encode_inner_by_chunk_index al S opt' b s (per s) i = map_option Inr (subchunk_write opt' b s i)" if "i \<in> set ?is" for i
          using that "is"(2) by (cases rule: subchunk_write_cases[OF assms, of i opt']) auto
        show "fst p = i" if "i \<in> set ?is" "subchunk_write opt' b s i = Some p" for i p
          using that "is"(2) by (cases rule: subchunk_write_cases[OF assms, of i opt']) auto
        show "fst (data_start S N, X, Y) + sizes (List.map_filter (subchunk_write opt' b s) ?is) \<le> ?B"
          using all_writes_facts(4)[OF assms al r size] by (cases "sh_index_location S") (simp_all add: data_start_def)
        show "?B < M64" using B by simp
      qed
      then show ?thesis
        using run[OF al] False f(6,8) ci o by (simp add: encode_bounded_def Let_def bs)
    qed
  qed
  have unbounded_case: "\<exists>e. encode_unbounded sched junk al S opt b s = Inr e \<and> shard_holds s (\<lambda>k. vals t b ! lin s k) e"
  proof -
    have le: "sizes ?chunks + N + 1 < M64" using all_writes_facts(3)[OF assms ch] NM by linarith
    have len: "wadd (wsum (map (\<lambda>(_, b). length b) ?chunks)) N = sizes ?chunks + N"
      using le by (simp add: sizes_def[symmetric] wadd_eq wsum_eq)
    have run: "\<exists>e. bind_res (try_for_each write_chunk ps
          (data_start S N, replicate (wprod (sharding_index_shape (per s))) u64_MAX, junk (sizes ?chunks + N)))
        (\<lambda>(_, ns, buf). finish_shard S opt (sharding_index_shape (per s)) (sizes ?chunks + N) ns buf) = Inr e \<and>
        shard_holds s (\<lambda>k. vals t b ! lin s k) e"
      if ps: "all_writes opt' b s ps" and sz: "sizes ps = sizes ?chunks" for ps
    proof -
      obtain ns buf e where "try_for_each write_chunk ps (data_start S N, replicate (wprod (sharding_index_shape (per s))) u64_MAX,
          junk (sizes ?chunks + N)) = Inr (data_start S N + sizes ps, ns, buf)"
          "finish_shard S opt (sharding_index_shape (per s)) (sizes ps + N) ns buf = Inr e" "shard_holds s (\<lambda>k. vals t b ! lin s k) e"
        by (rule written_shard[OF assms N ps _ le, of "junk (sizes ?chunks + N)" opt])
          (use buffers sz in \<open>simp_all add: allocates_def\<close>)
      then show ?thesis by (simp add: sz)
    qed
    have "\<exists>ps. (if sh_write_order S = COrder then ?chunks else map ((!) ?chunks) (sched [0..<length ?chunks])) = ps \<and>
        all_writes opt' b s ps \<and> sizes ps = sizes ?chunks"
      using ch all_writes_perm[OF ch schedules(1)] by simp
    then obtain ps where ps: "(if sh_write_order S = COrder then ?chunks else map ((!) ?chunks) (sched [0..<length ?chunks])) = ps"
      "all_writes opt' b s ps" "sizes ps = sizes ?chunks" by blast
    show ?thesis
      using run[OF ps(2,3)] f(6) ci o chunks_collected[OF assms, of opt'] by (simp add: encode_unbounded_def Let_def len ps(1))
  qed
  show ?thesis
    using v r bounded_case unbounded_case by (cases r) (simp_all add: sharding_encode_def data_type)
qed

end

text \<open>The sharding codec is a lawful array-to-bytes codec.\<close>

sublocale sharding \<subseteq> shard: array_to_bytes_codec "sharding_array_codec sched sched' junk al S" "PlainType (SizeFixed z)"
  "ab_fill_value (sh_inner_codecs S)" sharding_accepts "sharding_range (sh_index_location S)" NonemptySubsets
proof (unfold_locales, goal_cases)
  case (1 s b)
  then have sf: "shard_fits s" and ok: "ab_ok t (prod_list s) b" by (simp_all add: sharding_accepts_def)
  obtain N where "index_fits s N" using sf by (auto simp: shard_fits_def)
  then have "compute_index_encoded_size (sh_index_codecs S) (sharding_index_shape (per s)) = Inr N" by (simp add: index_fits_def)
  moreover obtain r where "ab_encoded_representation C s = Inr r" using sf by (auto simp: shard_fits_def)
  ultimately show ?case
    using sf ok fits_facts(6)[OF sf]
    by (auto simp: sharding_array_codec_def sharding_recommended_concurrency_def sharding_encoded_representation_def
        shard_fits_def split: option.splits)
next
  case (2 s b opt)
  then have ok: "ab_ok t (prod_list s) b" and sf: "shard_fits s" by (simp_all add: sharding_accepts_def)
  obtain e where e: "sharding_encode sched junk al S opt b s = Inr e" "shard_holds s (\<lambda>k. vals t b ! lin s k) e"
    using sharding_encode_ok[OF 2] by blast
  have "\<exists>b'. sharding_decode sched junk S opt' e s = Inr b' \<and> sharding_accepts s b' \<and> vals t b' = vals t b" for opt'
    using sharding_decode_ok[OF e(2), of opt'] sf holds_whole[OF sf ok] by (auto simp: sharding_accepts_def)
  then show ?case using e by (auto simp: sharding_array_codec_def shard_holds_def)
next
  case (3 s b opt e a q T opt')
  have ok: "ab_ok t (prod_list s) b" and sf: "shard_fits s" using 3(1) by (simp_all add: sharding_accepts_def)
  have "shard_holds s (\<lambda>k. vals t b ! lin s k) e"
    using sharding_encode_ok[OF 3(1), of opt] 3(2) by (auto simp: sharding_array_codec_def)
  from sharding_decode_into_ok[OF this 3(3,4), of opt'] show ?case
    by (simp add: sharding_array_codec_def holds_whole[OF sf ok])
next
  case (4 s b opt e d opt')
  have ok: "ab_ok t (prod_list s) b" and sf: "shard_fits s" using 4(1) by (simp_all add: sharding_accepts_def)
  have "shard_holds s (\<lambda>k. vals t b ! lin s k) e"
    using sharding_encode_ok[OF 4(1), of opt] 4(2) by (auto simp: sharding_array_codec_def)
  from sharding_partial_some[OF this 4(3), of opt'] show ?case
    by (simp add: sharding_array_codec_def holds_whole[OF sf ok])
next
  case (5 s b opt e d opt')
  have "shard_holds s (\<lambda>k. vals t b ! lin s k) e"
    using sharding_encode_ok[OF 5(1), of opt] 5(2) by (auto simp: sharding_array_codec_def)
  from sharding_partial_fill[OF this 5(3), of opt'] show ?case by (simp add: sharding_array_codec_def)
qed

end
