(* ===== verification/Sharding_Compact.thy ===== *)
theory Sharding_Compact
  imports Sharding_Writes
begin

text \<open>
  Compaction of shards: what a shard holds is kept, the compacted shard has exactly the size of its subchunks and its index
  (\<open>live_size\<close>), and a shard is left as it is only when it has that size already.
\<close>

text \<open>The bytes of a shard that its index points to, and its index.\<close>

definition live_size :: "usize \<Rightarrow> u64 list \<Rightarrow> nat" where
  "live_size index_encoded_size shard_index =
     index_encoded_size + sum_list (map snd (filter (\<lambda>(off, len). off \<noteq> u64_MAX \<and> len \<noteq> u64_MAX) (index_pairs shard_index)))"

lemma index_pairs_nth:
  "length (index_pairs ns) = length ns div 2 \<and> (\<forall>i < length ns div 2. index_pairs ns ! i = (ns ! (i * 2), ns ! (i * 2 + 1)))"
proof (induction ns rule: index_pairs.induct)
  case (1 a b ns)
  have "index_pairs (a # b # ns) ! i = ((a # b # ns) ! (i * 2), (a # b # ns) ! (i * 2 + 1))"
    if "i < length (a # b # ns) div 2" for i
    using 1 that by (cases i) auto
  then show ?case using 1 by simp
qed simp_all

lemma index_pairs_eq: "length ns = P * 2 \<Longrightarrow> index_pairs ns = map (\<lambda>i. (ns ! (i * 2), ns ! (i * 2 + 1))) [0..<P]"
  using index_pairs_nth[of ns] by (intro nth_equalityI) simp_all

definition present :: "bytes \<Rightarrow> u64 list \<Rightarrow> nat \<Rightarrow> (nat \<times> bytes) option" where
  "present b ns i =
     (if ns ! (i * 2) \<noteq> u64_MAX \<and> ns ! (i * 2 + 1) \<noteq> u64_MAX
      then Some (i, take (ns ! (i * 2 + 1)) (drop (ns ! (i * 2)) b)) else None)"

lemma compact_steps_eq:
  assumes "\<And>i. i \<in> set is \<Longrightarrow> present b ns i \<noteq> None \<Longrightarrow> ns ! (i * 2) + ns ! (i * 2 + 1) \<le> length b" and "length b < M64"
  shows "try_for_each (compact_step b) (map (\<lambda>i. (i, (ns ! (i * 2), ns ! (i * 2 + 1)))) is) st =
    try_for_each write_chunk (List.map_filter (present b ns) is) st"
  using assms(1)
proof (induction "is" arbitrary: st)
  case (Cons i "is")
  note IH = Cons.IH[OF Cons.prems]
  show ?case
  proof (cases "present b ns i")
    case None
    then have "compact_step b (i, (ns ! (i * 2), ns ! (i * 2 + 1))) st = Inr st"
      by (cases st) (auto simp: compact_step_def present_def split: if_splits)
    then show ?thesis using IH None by (simp add: List.map_filter_simps)
  next
    case (Some p)
    then have p: "p = (i, take (ns ! (i * 2 + 1)) (drop (ns ! (i * 2)) b))" "ns ! (i * 2) \<noteq> u64_MAX" "ns ! (i * 2 + 1) \<noteq> u64_MAX"
      by (auto simp: present_def split: if_splits)
    have le: "ns ! (i * 2) + ns ! (i * 2 + 1) \<le> length b" using Cons.prems[of i] Some by simp
    obtain off ms buf where st: "st = (off, ms, buf)" by (metis prod.exhaust)
    have len: "length (take (ns ! (i * 2 + 1)) (drop (ns ! (i * 2)) b)) = ns ! (i * 2 + 1)" using le by simp
    have "compact_step b (i, (ns ! (i * 2), ns ! (i * 2 + 1))) st = write_chunk p st"
      using le assms(2) p(2,3)
      by (auto simp: st p(1) compact_step_def write_chunk_def slice_def wadd_eq bind_res_def set_entry_def write_at_def len[simplified] split: sum.splits)
    then show ?thesis using IH Some by (simp add: List.map_filter_simps bind_res_def split: sum.splits)
  qed
qed (simp add: List.map_filter_simps)

lemma sizes_present:
  assumes "\<And>i. i \<in> set is \<Longrightarrow>
    (if ns ! (i * 2) \<noteq> u64_MAX \<and> ns ! (i * 2 + 1) \<noteq> u64_MAX then Some (ns ! (i * 2 + 1)) else None) = map_option (\<lambda>p. length (snd p)) (g i)"
  shows "sum_list (map snd (filter (\<lambda>(off, len). off \<noteq> u64_MAX \<and> len \<noteq> u64_MAX) (map (\<lambda>i. (ns ! (i * 2), ns ! (i * 2 + 1))) is))) =
    sizes (List.map_filter g is)"
  using assms
proof (induction "is")
  case (Cons i "is")
  have IH: "sum_list (map snd (filter (\<lambda>(off, len). off \<noteq> u64_MAX \<and> len \<noteq> u64_MAX) (map (\<lambda>i. (ns ! (i * 2), ns ! (i * 2 + 1))) is))) =
      sizes (List.map_filter g is)" by (rule Cons.IH) (use Cons.prems in simp)
  show ?case
    using Cons.prems[of i] IH by (cases "g i") (auto simp: List.map_filter_simps split: if_splits)
qed (simp add: List.map_filter_simps)

context sharding
begin

text \<open>The subchunks that are there, for an index whose entries hold.\<close>

abbreviation "stored s e ns \<equiv> List.map_filter (present e ns) [0..<many s]"

lemma present_eq: "present e ns i = Some p \<Longrightarrow> fst p = i"
  by (auto simp: present_def split: if_splits)

lemma stored_mem: "(i, c) \<in> set (stored s e ns) \<longleftrightarrow> i < many s \<and> present e ns i = Some (i, c)"
  and stored_distinct: "distinct (map fst (stored s e ns))" and stored_length: "length (stored s e ns) \<le> many s"
  using map_filter_pairs[of "[0..<many s]" "present e ns", OF _ present_eq] by simp_all

lemma not_stored:
  assumes "i < many s" and "i \<notin> fst ` set (stored s e ns)"
  shows "present e ns i = None"
proof (cases "present e ns i")
  case (Some p)
  then have "(i, snd p) \<in> set (stored s e ns)"
    using stored_mem[where s = s and e = e and ns = ns] assms(1) present_eq[OF Some] by (metis prod.collapse)
  then show ?thesis using assms(2) by (metis fst_conv image_eqI)
qed simp

lemma stored_facts:
  assumes "\<And>i. i < many s \<Longrightarrow> entry_holds e (ns ! (i * 2)) (ns ! (i * 2 + 1)) (subset_values f (part_at s i))"
  shows "\<And>i c. (i, c) \<in> set (stored s e ns) \<Longrightarrow>
      \<exists>opt b. acc sub b \<and> ab_encode C opt b sub = Inr c \<and> vals t b = subset_values f (part_at s i)"
    and "\<And>i. i < many s \<Longrightarrow> i \<notin> fst ` set (stored s e ns) \<Longrightarrow> subset_values f (part_at s i) = replicate (prod_list sub) (Raw fv)"
    and "sizes (stored s e ns) \<le> many s * L"
    and "\<And>i. i \<in> set [0..<many s] \<Longrightarrow> present e ns i \<noteq> None \<Longrightarrow> ns ! (i * 2) + ns ! (i * 2 + 1) \<le> length e"
    and "\<And>i. i \<in> set [0..<many s] \<Longrightarrow>
      (if ns ! (i * 2) \<noteq> u64_MAX \<and> ns ! (i * 2 + 1) \<noteq> u64_MAX then Some (ns ! (i * 2 + 1)) else None) =
      map_option (\<lambda>p. length (snd p)) (present e ns i)"
proof -
  have hold: "\<exists>opt b. acc sub b \<and> ab_encode C opt b sub = Inr c \<and> vals t b = subset_values f (part_at s i)" "length c \<le> L"
    if "(i, c) \<in> set (stored s e ns)" for i c
    using assms[of i] that unfolding stored_mem by (auto simp: present_def entry_holds_def split: if_splits)
  then show "\<exists>opt b. acc sub b \<and> ab_encode C opt b sub = Inr c \<and> vals t b = subset_values f (part_at s i)"
    if "(i, c) \<in> set (stored s e ns)" for i c
    using that by blast
  have "sizes (stored s e ns) \<le> length (stored s e ns) * L" by (rule sizes_le[OF hold(2)])
  then show "sizes (stored s e ns) \<le> many s * L" using stored_length[where s = s and e = e and ns = ns] by (meson le_trans mult_le_mono1)
  show "subset_values f (part_at s i) = replicate (prod_list sub) (Raw fv)" if "i < many s" "i \<notin> fst ` set (stored s e ns)" for i
    using assms[OF that(1)] not_stored[OF that] by (auto simp: entry_holds_def present_def)
  show ok: "ns ! (i * 2) + ns ! (i * 2 + 1) \<le> length e" if "i \<in> set [0..<many s]" "present e ns i \<noteq> None" for i
    using assms[of i] that by (auto simp: present_def entry_holds_def split: if_splits)
  show "(if ns ! (i * 2) \<noteq> u64_MAX \<and> ns ! (i * 2 + 1) \<noteq> u64_MAX then Some (ns ! (i * 2 + 1)) else None) =
      map_option (\<lambda>p. length (snd p)) (present e ns i)" if "i \<in> set [0..<many s]" for i
  proof (cases "present e ns i")
    case (Some p)
    then show ?thesis using ok[OF that] by (simp add: present_def split: if_splits) (auto simp: min_def)
  qed (auto simp: present_def split: if_splits)
qed

text \<open>The payload of a shard, and when it is not compacted.\<close>

abbreviation "payload ns \<equiv> map snd (filter (\<lambda>(off, len). off \<noteq> u64_MAX \<and> len \<noteq> u64_MAX) (index_pairs ns))"

lemma not_compacted:
  assumes "shard_fits s" and "index_fits s N" and "index_stored s N e ns" and "sum_list (payload ns) + N = length e" and "length e < M64"
  shows "sharding_compact S opt e s = Inr None"
proof -
  have "wsum (payload ns) = length e - N" using assms(4,5) by (simp add: wsum_eq)
  then show ?thesis
    using fits_facts(6)[OF assms(1)] decode_index_ok[OF assms(2,3)] assms(2)
    by (simp add: sharding_compact_def Let_def index_fits_def)
qed

lemma written_payload:
  assumes "written d0 B (many s) (stored s e ns) (off, ns', buf)" and "B < u64_MAX"
  shows "sum_list (payload ns') = sizes (stored s e ns)"
proof -
  have w: "length ns' = many s * 2" using assms(1) by (simp add: written_def)
  have "(if ns' ! (i * 2) \<noteq> u64_MAX \<and> ns' ! (i * 2 + 1) \<noteq> u64_MAX then Some (ns' ! (i * 2 + 1)) else None) =
      map_option (\<lambda>p. length (snd p)) (present e ns i)" if "i \<in> set [0..<many s]" for i
  proof (cases "present e ns i")
    case None
    then have "i \<notin> fst ` set (stored s e ns)" using stored_mem by auto
    then show ?thesis using assms(1) that None by (simp add: written_def)
  next
    case (Some p)
    then have "(i, snd p) \<in> set (stored s e ns)"
      using stored_mem[where s = s and e = e and ns = ns] that present_eq[OF Some] by (metis atLeastLessThan_iff prod.collapse set_upt)
    then have "ns' ! (i * 2) + length (snd p) \<le> off" "ns' ! (i * 2 + 1) = length (snd p)" "off \<le> B"
      using assms(1) by (auto simp: written_def)
    then show ?thesis using Some assms(2) by auto
  qed
  then show ?thesis unfolding index_pairs_eq[OF w] by (rule sizes_present)
qed

lemma compacted:
  assumes "shard_fits s" and "index_fits s N" and "length e < M64"
    and "\<And>i. i < many s \<Longrightarrow> entry_holds e (ns ! (i * 2)) (ns ! (i * 2 + 1)) (subset_values f (part_at s i))"
    and "length ns = many s * 2"
  defines "n \<equiv> sizes (stored s e ns) + N"
  obtains off ns' buf e' where
    "try_for_each (compact_step e) (zip [0..<length (index_pairs ns)] (index_pairs ns))
       (data_start S N, replicate (length ns) u64_MAX, replicate n 0) = Inr (off, ns', buf)"
    and "finish_shard S opt (sharding_index_shape (per s)) n ns' buf = Inr e'" and "shard_holds s f e'" and "length e' = n"
    and "length buf = n" and "index_stored s N e' ns'" and "sum_list (payload ns') + N = n" and "n + 1 < M64"
proof -
  let ?ps = "stored s e ns"
  note st = stored_facts[OF assms(4)]
  have small: "n + 1 < M64" using st(3) assms(2) by (simp add: n_def index_fits_def)
  have start: "data_start S N + sizes ?ps \<le> n" "data_start S N \<le> n"
    by (auto simp: n_def data_start_def split: sharding_index_location.splits)
  have "written (data_start S N) n (many s) [] (data_start S N, replicate (many s * 2) u64_MAX, replicate n 0)"
    by (rule written_none[OF start(2)]) simp
  moreover have "\<forall>(i, c) \<in> set ?ps. i < many s" using stored_mem by blast
  ultimately have "\<exists>st'. try_for_each write_chunk ?ps (data_start S N, replicate (many s * 2) u64_MAX, replicate n 0) = Inr st' \<and>
      written (data_start S N) n (many s) ([] @ ?ps) st'"
    using writes_ok[of n "data_start S N" "many s" "[]" _ ?ps] small start stored_distinct by simp
  then obtain off ns' buf where
    st': "try_for_each write_chunk ?ps (data_start S N, replicate (many s * 2) u64_MAX, replicate n 0) = Inr (off, ns', buf)"
      "written (data_start S N) n (many s) ?ps (off, ns', buf)" by auto
  have off: "off = data_start S N + sizes ?ps" and buf: "length buf = n" using st'(2) by (simp_all add: written_def)
  have sl: "shard_length N off = n" by (cases "sh_index_location S") (simp_all add: shard_length_def off data_start_def n_def)
  obtain e' where e': "finish_shard S opt (sharding_index_shape (per s)) n ns' buf = Inr e'" "shard_holds s f e'" "length e' = n"
      "index_stored s N e' ns'"
    using finished[OF assms(1,2) st'(2) _ small st(1,2), of opt] unfolding sl by blast
  have "zip [0..<length (index_pairs ns)] (index_pairs ns) = map (\<lambda>i. (i, (ns ! (i * 2), ns ! (i * 2 + 1)))) [0..<many s]"
    unfolding index_pairs_eq[OF assms(5)] by (simp add: zip_map2 zip_same_conv_map)
  then have run: "try_for_each (compact_step e) (zip [0..<length (index_pairs ns)] (index_pairs ns)) X = try_for_each write_chunk ?ps X" for X
    using compact_steps_eq[of "[0..<many s]", OF st(4)] assms(3) by simp
  have "n < u64_MAX" using small by (simp add: u64_MAX_def)
  then have "sum_list (payload ns') + N = n" using written_payload[OF st'(2)] by (simp add: n_def)
  then show ?thesis
    using that[of off ns' buf e'] st'(1) e' buf small unfolding run assms(5) by blast
qed

lemma compact_holds:
  assumes "shard_holds s f e"
  obtains N ns where "compute_index_encoded_size (sh_index_codecs S) (sharding_index_shape (per s)) = Inr N"
    and "\<And>o'. decode_index S e (per s) o' = Inr ns"
    and "live_size N ns = length e \<Longrightarrow> sharding_compact S opt e s = Inr None"
    and "live_size N ns \<noteq> length e \<Longrightarrow> \<exists>e'. sharding_compact S opt e s = Inr (Some e') \<and> length e' = live_size N ns \<and>
      shard_holds s f e' \<and> (\<forall>o'. sharding_compact S o' e' s = Inr None)"
proof -
  obtain N ns where h: "shard_fits s" "length e + 1 < M64" "index_fits s N" "index_stored s N e ns"
      "\<And>i. i < many s \<Longrightarrow> entry_holds e (ns ! (i * 2)) (ns ! (i * 2 + 1)) (subset_values f (part_at s i))"
    using assms by (auto simp: shard_holds_def)
  have len: "length ns = many s * 2" and le: "N \<le> length e" using h(4) by (simp_all add: index_stored_def words_def)
  let ?n = "sizes (stored s e ns) + N"
  have e: "length e < M64" using h(2) by simp
  obtain off ns' buf e' where c: "try_for_each (compact_step e) (zip [0..<length (index_pairs ns)] (index_pairs ns))
      (data_start S N, replicate (length ns) u64_MAX, replicate ?n 0) = Inr (off, ns', buf)"
      "finish_shard S opt (sharding_index_shape (per s)) ?n ns' buf = Inr e'" "shard_holds s f e'" "length e' = ?n" "length buf = ?n"
      "index_stored s N e' ns'" "sum_list (payload ns') + N = ?n" "?n + 1 < M64"
    by (rule compacted[OF h(1,3) e h(5) len, of opt])
  have "ns ! (i * 2) = u64_MAX \<longleftrightarrow> ns ! Suc (i * 2) = u64_MAX" if "i < many s" for i
    using h(5)[OF that] by (auto simp: entry_holds_def)
  then have sel: "map snd (filter (\<lambda>(off, _). off \<noteq> u64_MAX) (index_pairs ns)) = payload ns"
    by (intro arg_cong[of _ _ "map snd"] filter_cong) (auto simp: index_pairs_eq[OF len])
  have sum: "sum_list (payload ns) = sizes (stored s e ns)"
    unfolding index_pairs_eq[OF len] by (rule sizes_present[OF stored_facts(5)[OF h(5)]])
  have live: "live_size N ns = ?n" using sum by (simp add: live_size_def)
  have none: "sharding_compact S opt e s = Inr None" if "live_size N ns = length e"
    by (rule not_compacted[OF h(1,3,4)]) (use that live sum e in simp_all)
  have some: "\<exists>e'. sharding_compact S opt e s = Inr (Some e') \<and> length e' = live_size N ns \<and> shard_holds s f e' \<and>
      (\<forall>o'. sharding_compact S o' e' s = Inr None)" if "live_size N ns \<noteq> length e"
  proof -
    have "sizes (stored s e ns) \<noteq> length e - N" using that live le by simp
    moreover have "wsum (payload ns) = sizes (stored s e ns)" "wadd (sizes (stored s e ns)) N = ?n"
      using sum c(8) by (simp_all add: wsum_eq wadd_eq)
    ultimately have "sharding_compact S opt e s = Inr (Some e')"
      using fits_facts(6)[OF h(1)] decode_index_ok[OF h(3,4)] h(3) c(1,2,5)
      by (auto simp: sharding_compact_def Let_def sel len index_fits_def finish_shard_def bind_res_def write_at_def
          split: sum.splits if_splits sharding_index_location.splits)
    moreover have "sharding_compact S o' e' s = Inr None" for o'
      by (rule not_compacted[OF h(1,3) c(6)]) (use c in simp_all)
    ultimately show ?thesis using c(3,4) live by simp
  qed
  have "compute_index_encoded_size (sh_index_codecs S) (sharding_index_shape (per s)) = Inr N" using h(3) by (simp add: index_fits_def)
  then show ?thesis using that[of N ns] decode_index_ok[OF h(3,4)] none some by blast
qed

text \<open>A shard with its index at the start holds the same with more bytes at its end.\<close>

lemma entry_holds_padded: "entry_holds e off len V \<Longrightarrow> entry_holds (e @ x) off len V"
proof -
  assume h: "entry_holds e off len V"
  have "take len (drop off (e @ x)) = take len (drop off e)" if "off + len \<le> length e" using that by simp
  then show ?thesis using h unfolding entry_holds_def by (metis length_append trans_le_add1)
qed

lemma shard_holds_padded:
  assumes "shard_holds s f e" and "sh_index_location S = IndexStart" and "length (e @ x) + 1 < M64"
  shows "shard_holds s f (e @ x)"
proof -
  obtain N ns where h: "shard_fits s" "index_fits s N" "index_stored s N e ns"
      "\<And>i. i < many s \<Longrightarrow> data_start S N \<le> ns ! (i * 2) \<and>
        entry_holds e (ns ! (i * 2)) (ns ! (i * 2 + 1)) (subset_values f (part_at s i))"
    using assms(1) by (auto simp: shard_holds_def)
  have "index_of N (e @ x) = index_of N e" using h(3) assms(2) by (simp add: index_of_def index_stored_def)
  then have "index_stored s N (e @ x) ns" using h(3) by (simp add: index_stored_def)
  then show ?thesis
    unfolding shard_holds_def using h(1,2,4) entry_holds_padded assms(3) by blast
qed

text \<open>A shard without gaps, and the same shard with more bytes at its end.\<close>

lemma dense_shard:
  assumes "shard_holds s f e"
  obtains e' N ns where "shard_holds s f e'" and "index_fits s N" and "\<And>o'. decode_index S e' (per s) o' = Inr ns"
    and "live_size N ns = length e'" and "length e' \<le> many s * L + N"
proof -
  obtain N ns where h: "index_fits s N" "index_stored s N e ns" "shard_fits s" "length e + 1 < M64"
      "\<And>i. i < many s \<Longrightarrow> entry_holds e (ns ! (i * 2)) (ns ! (i * 2 + 1)) (subset_values f (part_at s i))"
    using assms by (auto simp: shard_holds_def)
  have len: "length ns = many s * 2" using h(2) by (simp add: index_stored_def words_def)
  have e: "length e < M64" using h(4) by simp
  obtain off ns' buf e' where c: "shard_holds s f e'" "length e' = sizes (stored s e ns) + N" "index_stored s N e' ns'"
      "sum_list (payload ns') + N = sizes (stored s e ns) + N"
    by (rule compacted[OF h(3,1) e h(5) len]) blast
  then show ?thesis
    using that[of e' N ns'] h(1) decode_index_ok[OF h(1) c(3)] stored_facts(3)[OF h(5)] by (simp add: live_size_def)
qed

lemma decode_index_padded:
  assumes "index_fits s N" and "N \<le> length e" and "sh_index_location S = IndexStart"
  shows "decode_index S (e @ x) (per s) opt = decode_index S e (per s) opt"
  using assms by (simp add: decode_index_def index_fits_def Let_def)

end

end
