(* ===== verification/Encoder_Writes.thy ===== *)
theory Encoder_Writes
  imports Sharding_Encoder Sharding_Compact
begin

text \<open>
  Writing the updated subchunks of a shard behind its data: the entries of the index that the partial encoder of the sharding codec makes, and
  the bytes that are behind the handle afterwards.
\<close>

subsection \<open>Patching bytes\<close>

lemma take_overlay:
  assumes "o' + n \<le> off" and "o' + n \<le> length b"
  shows "take n (drop o' (overlay b (off, w))) = take n (drop o' b)"
proof (rule nth_equalityI)
  show "length (take n (drop o' (overlay b (off, w)))) = length (take n (drop o' b))"
    using assms by (simp add: length_overlay)
  fix i assume "i < length (take n (drop o' (overlay b (off, w))))"
  then have "i < n" by simp
  then show "take n (drop o' (overlay b (off, w))) ! i = take n (drop o' b) ! i"
    using assms by (simp add: overlay_def Let_def nth_append length_overlay)
qed

lemma take_overlay_new:
  assumes "k + n \<le> length w"
  shows "take n (drop (off + k) (overlay b (off, w))) = take n (drop k w)"
proof -
  let ?b = "take off (b @ replicate (off + length w - length b) 0)"
  have "length ?b = off" by simp
  then have "drop (off + k) (?b @ w @ c) = drop k (w @ c)" for c by (simp del: append_take_drop_id)
  then show ?thesis using assms by (simp add: overlay_def Let_def)
qed

lemma drop_overlay_end: "length b \<le> off + length w \<Longrightarrow> drop off (overlay b (off, w)) = w"
  by (simp add: overlay_def Let_def)

subsection \<open>The entries\<close>

definition encoded_bytes :: "(nat \<times> bytes option) list \<Rightarrow> bytes" where
  "encoded_bytes ups = concat (List.map_filter snd ups)"

lemma encoded_bytes_simps [simp]:
  "encoded_bytes [] = []" "encoded_bytes ((i, None) # ups) = encoded_bytes ups" "encoded_bytes ((i, Some e) # ups) = e @ encoded_bytes ups"
  by (simp_all add: encoded_bytes_def List.map_filter_simps)

lemma set_entry_ok:
  assumes "length ns = P * 2" and "i < P"
  obtains ns' where "set_entry ns i off len = Inr ns'" and "length ns' = P * 2" and "set ns' \<subseteq> insert len (insert off (set ns))"
    and "ns' ! (i * 2) = off" and "ns' ! (i * 2 + 1) = len"
    and "\<And>j. j \<noteq> i \<Longrightarrow> ns' ! (j * 2) = ns ! (j * 2) \<and> ns' ! (j * 2 + 1) = ns ! (j * 2 + 1)"
proof (rule that[of "ns[i * 2 := off, i * 2 + 1 := len]"])
  have i: "i * 2 + 1 < length ns" using assms by simp
  then show "set_entry ns i off len = Inr (ns[i * 2 := off, i * 2 + 1 := len])" by (simp add: set_entry_def)
  show "set (ns[i * 2 := off, i * 2 + 1 := len]) \<subseteq> insert len (insert off (set ns))"
    by (metis insert_mono order_trans set_update_subset_insert)
  show "ns[i * 2 := off, i * 2 + 1 := len] ! (j * 2) = ns ! (j * 2) \<and> ns[i * 2 := off, i * 2 + 1 := len] ! (j * 2 + 1) = ns ! (j * 2 + 1)"
    if "j \<noteq> i" for j
  proof -
    have "i * 2 \<noteq> j * 2" "i * 2 + 1 \<noteq> j * 2" "i * 2 \<noteq> j * 2 + 1" "i * 2 + 1 \<noteq> j * 2 + 1" using that by presburger+
    then show ?thesis by simp
  qed
qed (use assms in \<open>simp_all add: nth_list_update\<close>)

text \<open>Clearing entries.\<close>

lemma clear_entries:
  assumes "length ns = P * 2" and "\<forall>i \<in> set is. i < P"
  shows "\<exists>ns'. try_for_each clear_entry is ns = Inr ns' \<and> length ns' = P * 2 \<and> set ns' \<subseteq> insert u64_MAX (set ns) \<and>
    (\<forall>i < P. (if i \<in> set is then ns' ! (i * 2) = u64_MAX \<and> ns' ! (i * 2 + 1) = u64_MAX
      else ns' ! (i * 2) = ns ! (i * 2) \<and> ns' ! (i * 2 + 1) = ns ! (i * 2 + 1)))"
  using assms
proof (induction "is" arbitrary: ns)
  case (Cons j "is")
  obtain ns1 where n1: "set_entry ns j u64_MAX u64_MAX = Inr ns1" "length ns1 = P * 2" "set ns1 \<subseteq> insert u64_MAX (insert u64_MAX (set ns))"
      "ns1 ! (j * 2) = u64_MAX" "ns1 ! (j * 2 + 1) = u64_MAX"
      "\<And>i. i \<noteq> j \<Longrightarrow> ns1 ! (i * 2) = ns ! (i * 2) \<and> ns1 ! (i * 2 + 1) = ns ! (i * 2 + 1)"
    by (rule set_entry_ok[OF Cons.prems(1), of j]) (use Cons.prems(2) in auto)
  obtain ns' where n': "try_for_each clear_entry is ns1 = Inr ns'" "length ns' = P * 2" "set ns' \<subseteq> insert u64_MAX (set ns1)"
      "\<And>i. i < P \<Longrightarrow> (if i \<in> set is then ns' ! (i * 2) = u64_MAX \<and> ns' ! (i * 2 + 1) = u64_MAX
        else ns' ! (i * 2) = ns1 ! (i * 2) \<and> ns' ! (i * 2 + 1) = ns1 ! (i * 2 + 1))"
    using Cons.IH[OF n1(2)] Cons.prems(2) by auto
  have "if i \<in> set (j # is) then ns' ! (i * 2) = u64_MAX \<and> ns' ! (i * 2 + 1) = u64_MAX
      else ns' ! (i * 2) = ns ! (i * 2) \<and> ns' ! (i * 2 + 1) = ns ! (i * 2 + 1)" if "i < P" for i
    using n'(4)[OF that] n1(4-6) by (cases "i = j"; cases "i \<in> set is") simp_all
  moreover have "set ns' \<subseteq> insert u64_MAX (set ns)" using n'(3) n1(3) by blast
  moreover have "try_for_each clear_entry (j # is) ns = Inr ns'" using n'(1) n1(1) by (simp add: clear_entry_def)
  ultimately show ?case using n'(2) by blast
qed auto

text \<open>Appending entries for the subchunks \<open>ups\<close> from the offset \<open>off\<close> on.\<close>

definition appended :: "nat \<Rightarrow> nat \<Rightarrow> (nat \<times> bytes option) list \<Rightarrow> u64 list \<Rightarrow> u64 list \<Rightarrow> bool" where
  "appended off P ups ns ns' \<longleftrightarrow> length ns' = P * 2 \<and> (\<forall>n \<in> set ns'. n < M64) \<and>
     (\<forall>i e. (i, Some e) \<in> set ups \<longrightarrow> off \<le> ns' ! (i * 2) \<and> ns' ! (i * 2) + length e \<le> off + length (encoded_bytes ups) \<and>
        ns' ! (i * 2 + 1) = length e \<and> take (length e) (drop (ns' ! (i * 2) - off) (encoded_bytes ups)) = e) \<and>
     (\<forall>i. (i, None) \<in> set ups \<longrightarrow> ns' ! (i * 2) = u64_MAX \<and> ns' ! (i * 2 + 1) = u64_MAX) \<and>
     (\<forall>i < P. i \<notin> fst ` set ups \<longrightarrow> ns' ! (i * 2) = ns ! (i * 2) \<and> ns' ! (i * 2 + 1) = ns ! (i * 2 + 1))"

lemma appendedD:
  assumes "appended off P ups ns ns'"
  shows "length ns' = P * 2" and "\<And>n. n \<in> set ns' \<Longrightarrow> n < M64"
    and "\<And>i e. (i, Some e) \<in> set ups \<Longrightarrow> off \<le> ns' ! (i * 2) \<and> ns' ! (i * 2) + length e \<le> off + length (encoded_bytes ups) \<and>
        ns' ! (i * 2 + 1) = length e \<and> take (length e) (drop (ns' ! (i * 2) - off) (encoded_bytes ups)) = e"
    and "\<And>i. (i, None) \<in> set ups \<Longrightarrow> ns' ! (i * 2) = u64_MAX \<and> ns' ! (i * 2 + 1) = u64_MAX"
    and "\<And>i. i < P \<Longrightarrow> i \<notin> fst ` set ups \<Longrightarrow> ns' ! (i * 2) = ns ! (i * 2) \<and> ns' ! (i * 2 + 1) = ns ! (i * 2 + 1)"
  using assms unfolding appended_def by blast+

lemma append_entries:
  assumes "length ns = P * 2" and "\<forall>n \<in> set ns. n < M64" and "distinct (map fst ups)" and "\<forall>(i, e) \<in> set ups. i < P"
    and "off + length (encoded_bytes ups) < M64"
  shows "\<exists>ns'. try_for_each append_entry ups (off, ns) = Inr (off + length (encoded_bytes ups), ns') \<and> appended off P ups ns ns'"
  using assms
proof (induction ups arbitrary: off ns)
  case Nil
  then show ?case by (simp add: appended_def)
next
  case (Cons p ups)
  obtain i e where p: "p = (i, e)" by fastforce
  have i: "i < P" "i \<notin> fst ` set ups" using Cons.prems(3,4) by (auto simp: p)
  show ?case
  proof (cases e)
    case None
    obtain ns1 where n1: "set_entry ns i u64_MAX u64_MAX = Inr ns1" "length ns1 = P * 2"
        "set ns1 \<subseteq> insert u64_MAX (insert u64_MAX (set ns))" "ns1 ! (i * 2) = u64_MAX" "ns1 ! (i * 2 + 1) = u64_MAX"
        "\<And>j. j \<noteq> i \<Longrightarrow> ns1 ! (j * 2) = ns ! (j * 2) \<and> ns1 ! (j * 2 + 1) = ns ! (j * 2 + 1)"
      by (rule set_entry_ok[OF Cons.prems(1) i(1)]) blast
    have "\<forall>n \<in> set ns1. n < M64" using n1(3) Cons.prems(2) by (auto simp: u64_MAX_def M64_def)
    then obtain ns' where n': "try_for_each append_entry ups (off, ns1) = Inr (off + length (encoded_bytes ups), ns')"
        "appended off P ups ns1 ns'"
      using Cons.IH[OF n1(2), of off] Cons.prems(3-5) by (auto simp: p None)
    note a = appendedD[OF n'(2)]
    have "appended off P (p # ups) ns ns'"
      unfolding appended_def p None encoded_bytes_simps
      using a(1,2,3,4) a(5)[OF i] a(5) n1(4-6) by auto
    then show ?thesis using n1(1) n'(1) by (auto simp: p None append_entry_def)
  next
    case (Some e')
    have small: "off + length e' < M64" "off + length e' + length (encoded_bytes ups) < M64" using Cons.prems(5) by (simp_all add: p Some)
    obtain ns1 where n1: "set_entry ns i off (length e') = Inr ns1" "length ns1 = P * 2"
        "set ns1 \<subseteq> insert (length e') (insert off (set ns))" "ns1 ! (i * 2) = off" "ns1 ! (i * 2 + 1) = length e'"
        "\<And>j. j \<noteq> i \<Longrightarrow> ns1 ! (j * 2) = ns ! (j * 2) \<and> ns1 ! (j * 2 + 1) = ns ! (j * 2 + 1)"
      by (rule set_entry_ok[OF Cons.prems(1) i(1)]) blast
    have "\<forall>n \<in> set ns1. n < M64" using n1(3) Cons.prems(2) small(1) by (auto dest!: subsetD)
    then obtain ns' where n': "try_for_each append_entry ups (off + length e', ns1) =
        Inr (off + length e' + length (encoded_bytes ups), ns')" "appended (off + length e') P ups ns1 ns'"
      using Cons.IH[OF n1(2), of "off + length e'"] Cons.prems(3,4) small(2) by (auto simp: p)
    note a = appendedD[OF n'(2)]
    have new: "off \<le> ns' ! (j * 2) \<and> ns' ! (j * 2) + length x \<le> off + length (e' @ encoded_bytes ups) \<and>
        ns' ! (j * 2 + 1) = length x \<and> take (length x) (drop (ns' ! (j * 2) - off) (e' @ encoded_bytes ups)) = x"
      if "(j, Some x) \<in> set ((i, Some e') # ups)" for j x
    proof (cases "(j, Some x) \<in> set ups")
      case True
      note v = a(3)[OF True]
      have "drop (ns' ! (j * 2) - off) (e' @ encoded_bytes ups) = drop (ns' ! (j * 2) - (off + length e')) (encoded_bytes ups)"
        using conjunct1[OF v] by simp
      then show ?thesis using v by simp
    next
      case False
      then have "j = i" "x = e'" using that by auto
      then show ?thesis using a(5)[OF i] n1(4,5) by simp
    qed
    have "appended off P ((i, Some e') # ups) ns ns'"
      unfolding appended_def encoded_bytes_simps
    proof (intro conjI)
      show "length ns' = P * 2" "\<forall>n \<in> set ns'. n < M64" using a(1,2) by blast+
      show "\<forall>j x. (j, Some x) \<in> set ((i, Some e') # ups) \<longrightarrow> off \<le> ns' ! (j * 2) \<and>
          ns' ! (j * 2) + length x \<le> off + length (e' @ encoded_bytes ups) \<and> ns' ! (j * 2 + 1) = length x \<and>
          take (length x) (drop (ns' ! (j * 2) - off) (e' @ encoded_bytes ups)) = x"
        using new by blast
      show "\<forall>j. (j, None) \<in> set ((i, Some e') # ups) \<longrightarrow> ns' ! (j * 2) = u64_MAX \<and> ns' ! (j * 2 + 1) = u64_MAX" using a(4) by simp
      show "\<forall>j < P. j \<notin> fst ` set ((i, Some e') # ups) \<longrightarrow> ns' ! (j * 2) = ns ! (j * 2) \<and> ns' ! (j * 2 + 1) = ns ! (j * 2 + 1)"
        using a(5) n1(6) by simp
    qed
    then show ?thesis using n1(1) n'(1) small(1) by (auto simp: p Some append_entry_def wadd_eq)
  qed
qed

end
