(* ===== verification/Array_Ops.thy ===== *)
theory Array_Ops
  imports Chunk_Merge Concurrency Node_Path
begin

text \<open>
  The array (\<open>zarrs/src/array/array_ops/\<close>): where a chunk is, and reading, writing and updating chunks and
  subsets of the array.  The array is the record \<open>array\<close>; the state \<open>'s\<close> is that of the storage behind it, whose
  operations, seen through the storage transformers of the array, are the record \<open>storage_ops\<close>.  The data is
  \<open>ArrayBytes\<close>, for which \<open>FromArrayBytes\<close> and \<open>IntoArrayBytes\<close> are the identity.

  Chunks are processed in parallel: \<open>try_for_each\<close> runs its body in the order given by a schedule \<open>sched\<close>, an argument
  of the operations, and stops at the first error.  The buffers an output is decoded into are not initialised:
  their content is the argument \<open>junk\<close>.  \<open>ArrayPanic\<close> is the value of a panic.
\<close>

datatype array_error =
  DisjointViewCreateError codec_error
| ArrayStorageError storage_error
| ArrayCodecError codec_error
| InvalidChunkGridIndicesError "u64 list"
| MissingSubchunkGrid
| ArrayIncompatibleDimensionality dimensionality_error
| ArrayArraySubsetError array_subset_error
| InvalidArraySubset array_subset array_shape
| InvalidChunkSubset array_subset array_indices array_shape
| ArrayPanic

record 's storage_ops =
  so_get :: "'s getter"
  so_get_partial_many :: "'s partial_getter"
  so_set :: "'s setter"
  so_erase :: "'s eraser"

text \<open>
  \<open>ar_partial_encoder\<close> is the partial encoder of the codecs on a chunk, where the codecs have one and the storage
  supports partial writes.
\<close>

record 's array =
  ar_path :: node_path
  ar_encode_key :: "u64 list \<Rightarrow> store_key"
  ar_grid :: chunk_grid
  ar_data_type :: data_type
  ar_fill_value :: fill_value
  ar_codecs :: array_codec
  ar_storage :: "'s storage_ops"
  ar_partial_encoder ::
    "(codec_options \<Rightarrow> 's \<Rightarrow> u64 list \<Rightarrow> array_subset \<Rightarrow> array_bytes \<Rightarrow> codec_error + 's) option"

definition codec_failure :: "codec_error \<Rightarrow> array_error" where
  "codec_failure e = (if e = CodecPanic then ArrayPanic else ArrayCodecError e)"

definition storage_failure :: "storage_error \<Rightarrow> array_error" where
  "storage_failure e = (if e = StoragePanic then ArrayPanic else ArrayStorageError e)"

subsection \<open>Chunks of an array\<close>

definition array_shape_of :: "'s array \<Rightarrow> array_shape" where
  "array_shape_of A = cg_array_shape (ar_grid A)"

definition array_dimensionality :: "'s array \<Rightarrow> usize" where
  "array_dimensionality A = length (array_shape_of A)"

definition chunk_key :: "'s array \<Rightarrow> u64 list \<Rightarrow> store_key" where
  "chunk_key A c = data_key (ar_path A) (ar_encode_key A c)"

definition grid_item :: "u64 list \<Rightarrow> dimensionality_error + 'a option \<Rightarrow> array_error + 'a" where
  "grid_item c r = (case r of Inr (Some x) \<Rightarrow> Inr x | _ \<Rightarrow> Inl (InvalidChunkGridIndicesError c))"

definition array_chunk_origin :: "'s array \<Rightarrow> u64 list \<Rightarrow> array_error + array_indices" where
  "array_chunk_origin A c = grid_item c (cg_chunk_origin (ar_grid A) c)"

definition array_chunk_shape :: "'s array \<Rightarrow> u64 list \<Rightarrow> array_error + chunk_shape" where
  "array_chunk_shape A c = grid_item c (cg_chunk_shape (ar_grid A) c)"

definition array_chunk_subset :: "'s array \<Rightarrow> u64 list \<Rightarrow> array_error + array_subset" where
  "array_chunk_subset A c = grid_item c (cg_subset (ar_grid A) c)"

definition array_subset_all :: "'s array \<Rightarrow> array_subset" where
  "array_subset_all A = new_with_shape (array_shape_of A)"

definition array_chunk_subset_bounded :: "'s array \<Rightarrow> u64 list \<Rightarrow> array_error + array_subset" where
  "array_chunk_subset_bounded A c =
     bind_res (array_chunk_subset A c) (\<lambda>s. map_err ArrayArraySubsetError (bound s (array_shape_of A)))"

definition array_chunks_subset :: "'s array \<Rightarrow> array_subset \<Rightarrow> array_error + array_subset" where
  "array_chunks_subset A chunks =
     (case end_inc chunks of
        Some e \<Rightarrow>
          bind_res (array_chunk_subset A (sub_start chunks)) (\<lambda>chunk0.
          bind_res (array_chunk_subset A e) (\<lambda>chunk1.
            map_err ArrayArraySubsetError (new_with_start_end_exc (sub_start chunk0) (end_exc chunk1))))
      | None \<Rightarrow> Inr (new_empty (dimensionality chunks)))"

definition array_chunks_subset_bounded :: "'s array \<Rightarrow> array_subset \<Rightarrow> array_error + array_subset" where
  "array_chunks_subset_bounded A chunks =
     bind_res (array_chunks_subset A chunks) (\<lambda>s. map_err ArrayArraySubsetError (bound s (array_shape_of A)))"

definition array_chunks_in_array_subset :: "'s array \<Rightarrow> array_subset \<Rightarrow> array_error + array_subset option" where
  "array_chunks_in_array_subset A r =
     map_err ArrayIncompatibleDimensionality (chunks_in_array_subset (ar_grid A) r)"

definition array_relative_to :: "array_subset \<Rightarrow> u64 list \<Rightarrow> array_error + array_subset" where
  "array_relative_to s o1 = map_err ArrayArraySubsetError (relative_to s o1)"

definition array_overlap :: "array_subset \<Rightarrow> array_subset \<Rightarrow> array_error + array_subset" where
  "array_overlap s t = map_err ArrayArraySubsetError (overlap s t)"

definition array_validate :: "'s array \<Rightarrow> array_bytes \<Rightarrow> u64 \<Rightarrow> array_error + unit" where
  "array_validate A b n = map_err codec_failure (validate_bytes b n (ar_data_type A))"

definition array_new_fill_value :: "'s array \<Rightarrow> u64 \<Rightarrow> array_error + array_bytes" where
  "array_new_fill_value A n = map_err codec_failure (new_fill_value (ar_data_type A) n (ar_fill_value A))"

definition recommended_codec_concurrency :: "'s array \<Rightarrow> chunk_shape \<Rightarrow> array_error + recommended_concurrency" where
  "recommended_codec_concurrency A s = map_err codec_failure (ab_recommended_concurrency (ar_codecs A) s)"

text \<open>The concurrency limit of the chunks only bounds how many run at once; the options of the codecs are adjusted.\<close>

definition chunk_options :: "'s array \<Rightarrow> codec_options \<Rightarrow> usize \<Rightarrow> chunk_shape \<Rightarrow> array_error + codec_options" where
  "chunk_options A opt num_chunks chunk_shape =
     bind_res (recommended_codec_concurrency A chunk_shape) (\<lambda>codec_concurrency.
       Inr (snd (concurrency_chunks_and_codec (concurrent_target opt) num_chunks opt codec_concurrency)))"

subsection \<open>Reading chunks\<close>

definition retrieve_encoded_chunk :: "'s array \<Rightarrow> 's \<Rightarrow> u64 list \<Rightarrow> array_error + bytes option" where
  "retrieve_encoded_chunk A st c = map_err storage_failure (so_get (ar_storage A) st (chunk_key A c))"

definition retrieve_encoded_chunks :: "'s array \<Rightarrow> 's \<Rightarrow> array_subset \<Rightarrow> array_error + bytes option list" where
  "retrieve_encoded_chunks A st chunks =
     collect_res (map (retrieve_encoded_chunk A st) (indices_collect (indices_new chunks)))"

definition retrieve_chunk_if_exists ::
    "'s array \<Rightarrow> codec_options \<Rightarrow> 's \<Rightarrow> u64 list \<Rightarrow> array_error + array_bytes option" where
  "retrieve_chunk_if_exists A opt st c =
     (if length c \<noteq> array_dimensionality A then Inl (InvalidChunkGridIndicesError c)
      else
        bind_res (map_err storage_failure (so_get (ar_storage A) st (chunk_key A c))) (\<lambda>chunk_encoded.
          case chunk_encoded of
            Some e \<Rightarrow>
              bind_res (array_chunk_shape A c) (\<lambda>chunk_shape.
              bind_res (map_err codec_failure (ab_decode (ar_codecs A) opt e chunk_shape)) (\<lambda>b. Inr (Some b)))
          | None \<Rightarrow> Inr None))"

definition retrieve_chunk :: "'s array \<Rightarrow> codec_options \<Rightarrow> 's \<Rightarrow> u64 list \<Rightarrow> array_error + array_bytes" where
  "retrieve_chunk A opt st c =
     bind_res (retrieve_chunk_if_exists A opt st c) (\<lambda>chunk.
       case chunk of
         Some b \<Rightarrow> Inr b
       | None \<Rightarrow> bind_res (array_chunk_shape A c) (\<lambda>chunk_shape. array_new_fill_value A (wprod chunk_shape)))"

definition retrieve_chunk_into ::
    "'s array \<Rightarrow> codec_options \<Rightarrow> 's \<Rightarrow> u64 list \<Rightarrow> decode_target \<Rightarrow> array_error + decode_target" where
  "retrieve_chunk_into A opt st c target =
     (if length c \<noteq> array_dimensionality A then Inl (InvalidChunkGridIndicesError c)
      else
        bind_res (map_err storage_failure (so_get (ar_storage A) st (chunk_key A c))) (\<lambda>chunk_encoded.
          case chunk_encoded of
            Some e \<Rightarrow>
              bind_res (array_chunk_shape A c) (\<lambda>chunk_shape.
                map_err codec_failure (ab_decode_into (ar_codecs A) opt e chunk_shape target))
          | None \<Rightarrow>
              map_err codec_failure (copy_fill_value_into (ar_data_type A) (ar_fill_value A) target)))"

definition array_partial_decoder ::
    "'s array \<Rightarrow> codec_options \<Rightarrow> 's \<Rightarrow> u64 list \<Rightarrow> chunk_shape \<Rightarrow> array_error + array_decoder" where
  "array_partial_decoder A opt st c chunk_shape =
     map_err codec_failure
       (ab_partial_decoder (ar_codecs A) opt
         (store_decoder (so_get_partial_many (ar_storage A)) st (chunk_key A c)) chunk_shape)"

definition whole_chunk :: "array_subset \<Rightarrow> chunk_shape \<Rightarrow> bool" where
  "whole_chunk s chunk_shape \<longleftrightarrow> list_all (\<lambda>n. n = 0) (sub_start s) \<and> sub_shape s = chunk_shape"

definition retrieve_chunk_subset ::
    "'s array \<Rightarrow> codec_options \<Rightarrow> 's \<Rightarrow> u64 list \<Rightarrow> array_subset \<Rightarrow> array_error + array_bytes" where
  "retrieve_chunk_subset A opt st c s =
     bind_res (array_chunk_shape A c) (\<lambda>chunk_shape.
       if \<not> inbounds_shape s chunk_shape then Inl (InvalidArraySubset s (array_shape_of A))
       else if whole_chunk s chunk_shape then retrieve_chunk A opt st c
       else
         bind_res (array_partial_decoder A opt st c chunk_shape) (\<lambda>dec.
         bind_res (map_err codec_failure (dec (SubsetIndexer s))) (\<lambda>b.
         bind_res (array_validate A b (num_elements s)) (\<lambda>_. Inr b))))"

definition retrieve_chunk_subset_into ::
    "'s array \<Rightarrow> codec_options \<Rightarrow> 's \<Rightarrow> u64 list \<Rightarrow> array_subset \<Rightarrow> decode_target \<Rightarrow> array_error + decode_target" where
  "retrieve_chunk_subset_into A opt st c s target =
     bind_res (array_chunk_shape A c) (\<lambda>chunk_shape.
       if \<not> inbounds_shape s chunk_shape then Inl (InvalidArraySubset s (array_shape_of A))
       else if whole_chunk s chunk_shape then retrieve_chunk_into A opt st c target
       else
         bind_res (array_partial_decoder A opt st c chunk_shape) (\<lambda>dec.
           map_err codec_failure (default_partial_decode_into dec (SubsetIndexer s) target)))"

subsection \<open>Reading subsets of the array\<close>

text \<open>
  The body of \<open>retrieve_multi_chunk_fixed\<close> for one chunk, on the buffers of the data and of the masks (outermost
  first): views of the part of the chunk, its decoding into them, and the buffers after it.
\<close>

definition retrieve_fixed_step ::
    "'s array \<Rightarrow> codec_options \<Rightarrow> 's \<Rightarrow> array_subset \<Rightarrow> usize \<Rightarrow> u64 list \<Rightarrow> bytes \<times> bytes list \<Rightarrow>
     array_error + (bytes \<times> bytes list)" where
  "retrieve_fixed_step A opt st r z c bufs =
     bind_res (array_chunk_subset A c) (\<lambda>chunk_subset.
     bind_res (array_overlap chunk_subset r) (\<lambda>chunk_subset_overlap.
     bind_res (array_relative_to chunk_subset_overlap (sub_start r)) (\<lambda>chunk_subset_in_array.
     bind_res (map_err DisjointViewCreateError
         (view_new (fst bufs) z (sub_shape r) chunk_subset_in_array)) (\<lambda>data_view.
     bind_res (map_err DisjointViewCreateError
         (collect_res (map (\<lambda>m. view_new m 1 (sub_shape r) chunk_subset_in_array) (snd bufs)))) (\<lambda>mask_views.
     bind_res (array_relative_to chunk_subset_overlap (sub_start chunk_subset)) (\<lambda>s.
     bind_res (retrieve_chunk_subset_into A opt st c s
         (build_nested_optional_target (data_view, fst bufs) (zip mask_views (snd bufs)))) (\<lambda>target.
       case extract_target_views target of ((_, d), ms) \<Rightarrow> Inr (d, map snd ms))))))))"

definition retrieve_multi_chunk_fixed ::
    "(u64 list list \<Rightarrow> u64 list list) \<Rightarrow> (usize \<Rightarrow> bytes) \<Rightarrow> 's array \<Rightarrow> codec_options \<Rightarrow> 's \<Rightarrow> array_subset \<Rightarrow> array_subset \<Rightarrow>
     array_error + array_bytes" where
  "retrieve_multi_chunk_fixed sched junk A opt st r chunks =
     (case fixed_size (ar_data_type A) of
        None \<Rightarrow> Inl ArrayPanic
      | Some z \<Rightarrow>
          bind_res (try_for_each (retrieve_fixed_step A opt st r z)
              (sched (indices_collect (indices_new chunks)))
              (junk (wmul (num_elements r) z),
               replicate (optional_nesting_depth (ar_data_type A)) (junk (num_elements r)))) (\<lambda>(d, ms).
            Inr (with_optional_masks (FixedBytes d) ms)))"

definition retrieve_part ::
    "'s array \<Rightarrow> codec_options \<Rightarrow> 's \<Rightarrow> array_subset \<Rightarrow> (array_bytes \<Rightarrow> array_error + 'a) \<Rightarrow> u64 list \<Rightarrow>
     array_error + ('a \<times> array_subset)" where
  "retrieve_part A opt st r conv c =
     bind_res (array_chunk_subset A c) (\<lambda>chunk_subset.
     bind_res (array_overlap chunk_subset r) (\<lambda>chunk_subset_overlap.
     bind_res (array_relative_to chunk_subset_overlap (sub_start chunk_subset)) (\<lambda>s.
     bind_res (retrieve_chunk_subset A opt st c s) (\<lambda>b.
     bind_res (conv b) (\<lambda>b.
     bind_res (array_relative_to chunk_subset_overlap (sub_start r)) (\<lambda>in_array. Inr (b, in_array)))))))"

definition retrieve_multi_chunk_variable ::
    "'s array \<Rightarrow> codec_options \<Rightarrow> 's \<Rightarrow> array_subset \<Rightarrow> array_subset \<Rightarrow> array_error + array_bytes" where
  "retrieve_multi_chunk_variable A opt st r chunks =
     (let nesting_depth = optional_nesting_depth (ar_data_type A); cs = indices_collect (indices_new chunks) in
      if 0 < nesting_depth then
        bind_res (collect_res (map (retrieve_part A opt st r (\<lambda>b. map_err codec_failure (into_optional b))) cs)) (\<lambda>parts.
          map_err codec_failure (merge_chunks_vlen_optional parts (sub_shape r) nesting_depth))
      else
        bind_res (collect_res (map (retrieve_part A opt st r (\<lambda>b. map_err codec_failure (into_variable b))) cs)) (\<lambda>parts.
        bind_res (map_err codec_failure (merge_chunks_vlen parts (sub_shape r))) (\<lambda>(b, os). Inr (VariableBytes b os))))"

definition retrieve_array_subset ::
    "(u64 list list \<Rightarrow> u64 list list) \<Rightarrow> (usize \<Rightarrow> bytes) \<Rightarrow> 's array \<Rightarrow> codec_options \<Rightarrow> 's \<Rightarrow> array_subset \<Rightarrow>
     array_error + array_bytes" where
  "retrieve_array_subset sched junk A opt st r =
     (if dimensionality r \<noteq> array_dimensionality A then Inl (InvalidArraySubset r (array_shape_of A))
      else
        bind_res (array_chunks_in_array_subset A r) (\<lambda>chunks.
          case chunks of
            None \<Rightarrow> Inl (InvalidArraySubset r (array_shape_of A))
          | Some chunks \<Rightarrow>
              if num_elements chunks = 0 then array_new_fill_value A (num_elements r)
              else if num_elements chunks = 1 then
                bind_res (array_chunk_subset A (sub_start chunks)) (\<lambda>chunk_subset.
                  if chunk_subset = r then retrieve_chunk A opt st (sub_start chunks)
                  else
                    bind_res (array_relative_to r (sub_start chunk_subset)) (\<lambda>s.
                      retrieve_chunk_subset A opt st (sub_start chunks) s))
              else
                bind_res (array_chunk_shape A (sub_start chunks)) (\<lambda>chunk_shape.
                bind_res (chunk_options A opt (num_elements chunks) chunk_shape) (\<lambda>opt.
                bind_res
                  (if is_fixed (ar_data_type A) then retrieve_multi_chunk_fixed sched junk A opt st r chunks
                   else retrieve_multi_chunk_variable A opt st r chunks) (\<lambda>b.
                bind_res (array_validate A b (num_elements r)) (\<lambda>_. Inr b))))))"

definition retrieve_chunks ::
    "(u64 list list \<Rightarrow> u64 list list) \<Rightarrow> (usize \<Rightarrow> bytes) \<Rightarrow> 's array \<Rightarrow> codec_options \<Rightarrow> 's \<Rightarrow> array_subset \<Rightarrow>
     array_error + array_bytes" where
  "retrieve_chunks sched junk A opt st chunks =
     bind_res (array_chunks_subset A chunks) (\<lambda>r. retrieve_array_subset sched junk A opt st r)"

subsection \<open>Reading into a target\<close>

definition retrieve_into_step ::
    "'s array \<Rightarrow> codec_options \<Rightarrow> 's \<Rightarrow> array_subset \<Rightarrow> array_indices \<Rightarrow> u64 list \<Rightarrow> decode_target \<Rightarrow>
     array_error + decode_target" where
  "retrieve_into_step A opt st r parent_start c target =
     (case extract_target_views target of ((data_view, data), mask_views) \<Rightarrow>
       bind_res (array_chunk_subset A c) (\<lambda>chunk_subset.
       bind_res (array_overlap chunk_subset r) (\<lambda>chunk_subset_overlap.
       bind_res (array_relative_to chunk_subset_overlap (sub_start r)) (\<lambda>chunk_subset_in_array.
       bind_res (map_err ArrayArraySubsetError (new_with_start_shape
           (map (\<lambda>(c, p). wadd c p) (zip (sub_start chunk_subset_in_array) parent_start))
           (sub_shape chunk_subset_in_array))) (\<lambda>in_view.
       bind_res (map_err DisjointViewCreateError (view_subdivide data data_view in_view)) (\<lambda>data_sub.
       bind_res (map_err DisjointViewCreateError
           (collect_res (map (\<lambda>(v, m). view_subdivide m v in_view) mask_views))) (\<lambda>mask_subs.
       bind_res (array_relative_to chunk_subset_overlap (sub_start chunk_subset)) (\<lambda>s.
       bind_res (retrieve_chunk_subset_into A opt st c s
           (build_nested_optional_target (data_sub, data) (zip mask_subs (map snd mask_views)))) (\<lambda>sub_target.
         case extract_target_views sub_target of ((_, d), ms) \<Rightarrow>
           Inr (build_nested_optional_target (data_view, d) (zip (map fst mask_views) (map snd ms))))))))))))"

definition retrieve_array_subset_into ::
    "(u64 list list \<Rightarrow> u64 list list) \<Rightarrow> 's array \<Rightarrow> codec_options \<Rightarrow> 's \<Rightarrow> array_subset \<Rightarrow> decode_target \<Rightarrow>
     array_error + decode_target" where
  "retrieve_array_subset_into sched A opt st r target =
     (if dimensionality r \<noteq> array_dimensionality A then Inl (InvalidArraySubset r (array_shape_of A))
      else if \<not> is_fixed (ar_data_type A) then
        Inl (ArrayCodecError (CodecOther ''retrieve_array_subset_into does not support variable-length data types''))
      else if target_num_elements target \<noteq> num_elements r then
        Inl (ArrayCodecError (InvalidNumberOfElements (target_num_elements target) (num_elements r)))
      else
        bind_res (array_chunks_in_array_subset A r) (\<lambda>chunks.
          case chunks of
            None \<Rightarrow> Inl (InvalidArraySubset r (array_shape_of A))
          | Some chunks \<Rightarrow>
              if num_elements chunks = 0
              then map_err codec_failure (copy_fill_value_into (ar_data_type A) (ar_fill_value A) target)
              else if num_elements chunks = 1 then
                bind_res (array_chunk_subset A (sub_start chunks)) (\<lambda>chunk_subset.
                  if chunk_subset = r then retrieve_chunk_into A opt st (sub_start chunks) target
                  else
                    bind_res (array_relative_to r (sub_start chunk_subset)) (\<lambda>s.
                      retrieve_chunk_subset_into A opt st (sub_start chunks) s target))
              else
                bind_res (array_chunk_shape A (sub_start chunks)) (\<lambda>chunk_shape.
                bind_res (chunk_options A opt (num_elements chunks) chunk_shape) (\<lambda>opt.
                  try_for_each
                    (retrieve_into_step A opt st r (sub_start (dv_subset (fst (fst (extract_target_views target))))))
                    (sched (indices_collect (indices_new chunks))) target))))"

subsection \<open>Writing chunks\<close>

definition erase_chunk :: "'s array \<Rightarrow> u64 list \<Rightarrow> 's \<Rightarrow> array_error + 's" where
  "erase_chunk A c st = map_err storage_failure (so_erase (ar_storage A) st (chunk_key A c))"

definition erase_chunks ::
    "(u64 list list \<Rightarrow> u64 list list) \<Rightarrow> 's array \<Rightarrow> array_subset \<Rightarrow> 's \<Rightarrow> array_error + 's" where
  "erase_chunks sched A chunks st = try_for_each (erase_chunk A) (sched (indices_collect (indices_new chunks))) st"

definition store_encoded_chunk :: "'s array \<Rightarrow> u64 list \<Rightarrow> bytes \<Rightarrow> 's \<Rightarrow> array_error + 's" where
  "store_encoded_chunk A c e st = map_err storage_failure (so_set (ar_storage A) st (chunk_key A c) e)"

definition store_chunk ::
    "align_to \<Rightarrow> 's array \<Rightarrow> codec_options \<Rightarrow> u64 list \<Rightarrow> array_bytes \<Rightarrow> 's \<Rightarrow> array_error + 's" where
  "store_chunk al A opt c chunk_bytes st =
     bind_res (array_chunk_shape A c) (\<lambda>chunk_shape.
     bind_res (array_validate A chunk_bytes (wprod chunk_shape)) (\<lambda>_.
       if \<not> store_empty_chunks opt \<and> is_fill_value al chunk_bytes (ar_fill_value A) then erase_chunk A c st
       else
         bind_res (map_err codec_failure (ab_encode (ar_codecs A) opt chunk_bytes chunk_shape)) (\<lambda>e.
           store_encoded_chunk A c e st)))"

definition store_chunks_step ::
    "align_to \<Rightarrow> 's array \<Rightarrow> codec_options \<Rightarrow> array_subset \<Rightarrow> array_bytes \<Rightarrow> u64 list \<Rightarrow> 's \<Rightarrow> array_error + 's" where
  "store_chunks_step al A opt r chunks_bytes c st =
     bind_res (array_chunk_subset A c) (\<lambda>chunk_subset.
     bind_res (array_relative_to chunk_subset (sub_start r)) (\<lambda>s.
     bind_res (map_err codec_failure
         (extract_array_subset chunks_bytes (SubsetIndexer s) (sub_shape r) (ar_data_type A))) (\<lambda>chunk_bytes.
       store_chunk al A opt c chunk_bytes st)))"

definition store_chunks ::
    "(u64 list list \<Rightarrow> u64 list list) \<Rightarrow> align_to \<Rightarrow> 's array \<Rightarrow> codec_options \<Rightarrow> array_subset \<Rightarrow> array_bytes \<Rightarrow> 's \<Rightarrow>
     array_error + 's" where
  "store_chunks sched al A opt chunks chunks_bytes st =
     (if num_elements chunks = 0 then bind_res (array_validate A chunks_bytes 0) (\<lambda>_. Inr st)
      else if num_elements chunks = 1 then store_chunk al A opt (sub_start chunks) chunks_bytes st
      else
        bind_res (array_chunks_subset A chunks) (\<lambda>r.
        bind_res (array_validate A chunks_bytes (num_elements r)) (\<lambda>_.
        bind_res (array_chunk_shape A (replicate (array_dimensionality A) 0)) (\<lambda>chunk_shape.
        bind_res (chunk_options A opt (num_elements chunks) chunk_shape) (\<lambda>opt.
          try_for_each (store_chunks_step al A opt r chunks_bytes) (sched (indices_collect (indices_new chunks))) st)))))"

subsection \<open>Updating\<close>

definition array_chunk_shape_u64 :: "'s array \<Rightarrow> u64 list \<Rightarrow> array_error + array_shape" where
  "array_chunk_shape_u64 A c =
     (case cg_chunk_shape_u64 (ar_grid A) c of
        Inl e \<Rightarrow> Inl (ArrayIncompatibleDimensionality e)
      | Inr None \<Rightarrow> Inl (InvalidChunkGridIndicesError c)
      | Inr (Some s) \<Rightarrow> Inr s)"

definition store_chunk_subset ::
    "align_to \<Rightarrow> 's array \<Rightarrow> codec_options \<Rightarrow> u64 list \<Rightarrow> array_subset \<Rightarrow> array_bytes \<Rightarrow> 's \<Rightarrow> array_error + 's" where
  "store_chunk_subset al A opt c s subset_bytes st =
     bind_res (array_chunk_shape_u64 A c) (\<lambda>chunk_shape.
       if list_ex (\<lambda>(e, n). n < e) (zip (end_exc s) chunk_shape) then Inl (InvalidChunkSubset s c chunk_shape)
       else if whole_chunk s chunk_shape then store_chunk al A opt c subset_bytes st
       else
         bind_res (array_validate A subset_bytes (num_elements s)) (\<lambda>_.
           case (if experimental_partial_encoding opt then ar_partial_encoder A else None) of
             Some partial_encode \<Rightarrow> map_err codec_failure (partial_encode opt st c s subset_bytes)
           | None \<Rightarrow>
               bind_res (retrieve_chunk A opt st c) (\<lambda>chunk_bytes_old.
               bind_res (array_validate A chunk_bytes_old (wprod chunk_shape)) (\<lambda>_.
               bind_res (map_err codec_failure
                   (update_array_bytes chunk_bytes_old chunk_shape (SubsetIndexer s) subset_bytes
                     (dt_size (ar_data_type A)))) (\<lambda>chunk_bytes_new.
                 store_chunk al A opt c chunk_bytes_new st)))))"

definition store_subset_step ::
    "align_to \<Rightarrow> 's array \<Rightarrow> codec_options \<Rightarrow> array_subset \<Rightarrow> array_bytes \<Rightarrow> u64 list \<Rightarrow> 's \<Rightarrow> array_error + 's" where
  "store_subset_step al A opt r subset_bytes c st =
     bind_res (array_chunk_subset A c) (\<lambda>chunk_subset_in_array.
     bind_res (array_overlap r chunk_subset_in_array) (\<lambda>overlap.
     bind_res (array_relative_to overlap (sub_start r)) (\<lambda>chunk_subset_in_array_subset.
     bind_res (map_err codec_failure
         (extract_array_subset subset_bytes (SubsetIndexer chunk_subset_in_array_subset) (sub_shape r)
           (ar_data_type A))) (\<lambda>chunk_subset_bytes.
     bind_res (array_relative_to overlap (sub_start chunk_subset_in_array)) (\<lambda>chunk_subset_in_chunk.
       store_chunk_subset al A opt c chunk_subset_in_chunk chunk_subset_bytes st)))))"

definition store_array_subset ::
    "(u64 list list \<Rightarrow> u64 list list) \<Rightarrow> align_to \<Rightarrow> 's array \<Rightarrow> codec_options \<Rightarrow> array_subset \<Rightarrow> array_bytes \<Rightarrow> 's \<Rightarrow>
     array_error + 's" where
  "store_array_subset sched al A opt r subset_bytes st =
     (if dimensionality r \<noteq> length (array_shape_of A) then Inl (InvalidArraySubset r (array_shape_of A))
      else
        bind_res (array_chunks_in_array_subset A r) (\<lambda>chunks.
          case chunks of
            None \<Rightarrow> Inl (InvalidArraySubset r (array_shape_of A))
          | Some chunks \<Rightarrow>
              if num_elements chunks = 1 then
                bind_res (array_chunk_subset A (sub_start chunks)) (\<lambda>chunk_subset.
                  if r = chunk_subset then store_chunk al A opt (sub_start chunks) subset_bytes st
                  else
                    bind_res (array_relative_to r (sub_start chunk_subset)) (\<lambda>s.
                      store_chunk_subset al A opt (sub_start chunks) s subset_bytes st))
              else
                bind_res (array_validate A subset_bytes (num_elements r)) (\<lambda>_.
                bind_res (array_chunk_shape A (replicate (array_dimensionality A) 0)) (\<lambda>chunk_shape.
                bind_res (chunk_options A opt (num_elements chunks) chunk_shape) (\<lambda>opt.
                  try_for_each (store_subset_step al A opt r subset_bytes) (sched (indices_collect (indices_new chunks)))
                    st)))))"

definition compact_chunk :: "'s array \<Rightarrow> codec_options \<Rightarrow> u64 list \<Rightarrow> 's \<Rightarrow> array_error + ('s \<times> bool)" where
  "compact_chunk A opt c st =
     bind_res (retrieve_encoded_chunk A st c) (\<lambda>chunk_bytes.
       case chunk_bytes of
         None \<Rightarrow> Inr (st, False)
       | Some e \<Rightarrow>
           bind_res (array_chunk_shape A c) (\<lambda>chunk_shape.
           bind_res (map_err codec_failure (ab_compact (ar_codecs A) opt e chunk_shape)) (\<lambda>compacted.
             case compacted of
               None \<Rightarrow> Inr (st, False)
             | Some e \<Rightarrow> bind_res (store_encoded_chunk A c e st) (\<lambda>st. Inr (st, True)))))"

end
