(* ===== verification/Target_Laws.thy ===== *)
theory Target_Laws
  imports Chunk_Merge
begin

text \<open>
  The targets that are made of buffers: the buffers of the data and of the masks of an array, the views of them that cover a
  subset, and the buffers that are taken out again.  The lemmas serve the retrieval of arrays into preallocated,
  possibly uninitialised, buffers.
\<close>

subsection \<open>Buffers\<close>

text \<open>The buffers of the data and of the masks, outermost first, and the target with views of them.\<close>

fun buffers_ok :: "data_type \<Rightarrow> nat \<Rightarrow> bytes \<Rightarrow> bytes list \<Rightarrow> bool" where
  "buffers_ok (PlainType (SizeFixed z)) n b ms \<longleftrightarrow> ms = [] \<and> ab_ok (PlainType (SizeFixed z)) n (FixedBytes b)"
| "buffers_ok (OptionalType t) n b (m # ms) \<longleftrightarrow> buffers_ok t n b ms \<and> length m = n"
| "buffers_ok _ _ _ _ \<longleftrightarrow> False"

lemma with_optional_masks_simps [simp]:
  "with_optional_masks b [] = b" "with_optional_masks b (m # ms) = OptionalBytes (with_optional_masks b ms) m"
  by (simp_all add: with_optional_masks_def)

lemma buffers_ok_bytes: "buffers_ok t n b ms \<Longrightarrow> ab_ok t n (with_optional_masks (FixedBytes b) ms)"
  by (induction t n b ms rule: buffers_ok.induct) auto

lemma buffers_ok_views:
  assumes "subset_covered s a" and "small_array a z"
  shows "buffers_ok t (prod_list a) b ms \<Longrightarrow> dt_size t = SizeFixed z \<Longrightarrow>
     \<exists>v vs. view_new b z a s = Inr v \<and> collect_res (map (\<lambda>m. view_new m 1 a s) ms) = Inr vs \<and> length vs = length ms \<and>
       target_ok t a s (build_nested_optional_target (v, b) (zip vs ms)) \<and>
       target_bytes (build_nested_optional_target (v, b) (zip vs ms)) = with_optional_masks (FixedBytes b) ms"
proof (induction t "prod_list a" b ms rule: buffers_ok.induct)
  case (1 y b ms)
  then have "length b = prod_list a * z" by simp
  then obtain v where "view_new b z a s = Inr v" "view_ok v z a s" using view_new_ok[OF assms] by blast
  then show ?case using 1 by (auto simp del: ab_ok.simps)
next
  case (2 t b m ms)
  obtain v vs where v: "view_new b z a s = Inr v" "collect_res (map (\<lambda>m. view_new m 1 a s) ms) = Inr vs"
      "length vs = length ms" "target_ok t a s (build_nested_optional_target (v, b) (zip vs ms))"
      "target_bytes (build_nested_optional_target (v, b) (zip vs ms)) = with_optional_masks (FixedBytes b) ms"
    using 2 by auto
  have "length m = prod_list a * 1" using "2.prems"(1) by simp
  then obtain w where "view_new m 1 a s = Inr w" "view_ok w 1 a s"
    using view_new_ok[OF assms(1) small_mask[OF small_array_prod[OF assms(2)]]] by blast
  then show ?case using v "2.prems"(1) by (intro exI[of _ v] exI[of _ "w # vs"]) simp
qed auto

lemma target_ok_extract:
  "target_ok t a s T \<Longrightarrow> buffers_ok t (prod_list a) (snd (fst (extract_target_views T))) (map snd (snd (extract_target_views T))) \<and>
     with_optional_masks (FixedBytes (snd (fst (extract_target_views T)))) (map snd (snd (extract_target_views T))) = target_bytes T"
  by (induction t a s T rule: target_ok.induct) (auto simp: case_prod_beta)

end
