(* ===== verification/Array_Laws.thy ===== *)
theory Array_Laws
  imports Array_Ops Target_Laws Grid_Regions
begin

text \<open>
  What an array means: a function from indices to the values of elements.  \<open>array_holds A acc contents st f\<close> relates the
  state of the storage to such a function, chunk by chunk.  The locale \<open>array_on_store\<close> states what the array code
  relies on - a lawful grid, codec and store, chunks that fit in memory, distinct keys - and its lemmas are
  the effects of the operations on one chunk.
\<close>

definition chunk_dims :: "'s array \<Rightarrow> u64 list \<Rightarrow> array_shape" where
  "chunk_dims A c = sub_shape (chunk_area (ar_grid A) c)"

definition array_fill :: "'s array \<Rightarrow> element" where
  "array_fill A = fill_val (ar_data_type A) (ar_fill_value A)"

text \<open>The chunk has no value and holds fill values, or it has a value the codecs encoded.\<close>

definition chunk_holds ::
    "'s array \<Rightarrow> (chunk_shape \<Rightarrow> array_bytes \<Rightarrow> bool) \<Rightarrow> ('s \<Rightarrow> store_key \<Rightarrow> bytes option) \<Rightarrow> 's \<Rightarrow> u64 list \<Rightarrow>
     element list \<Rightarrow> bool" where
  "chunk_holds A acc contents st c V \<longleftrightarrow>
     (case contents st (chunk_key A c) of
        None \<Rightarrow> V = replicate (prod_list (chunk_dims A c)) (array_fill A)
      | Some e \<Rightarrow> \<exists>opt b. acc (chunk_dims A c) b \<and> ab_encode (ar_codecs A) opt b (chunk_dims A c) = Inr e \<and>
          vals (ar_data_type A) b = V)"

definition array_holds ::
    "'s array \<Rightarrow> (chunk_shape \<Rightarrow> array_bytes \<Rightarrow> bool) \<Rightarrow> ('s \<Rightarrow> store_key \<Rightarrow> bytes option) \<Rightarrow> 's \<Rightarrow>
     (u64 list \<Rightarrow> element) \<Rightarrow> bool" where
  "array_holds A acc contents st f \<longleftrightarrow>
     (\<forall>c. inb c (cg_grid_shape (ar_grid A)) \<longrightarrow>
        chunk_holds A acc contents st c (subset_values f (chunk_area (ar_grid A) c)))"

text \<open>Overwriting the elements of a subset.\<close>

definition overwrite :: "(u64 list \<Rightarrow> element) \<Rightarrow> array_subset \<Rightarrow> element list \<Rightarrow> u64 list \<Rightarrow> element" where
  "overwrite f r V i = (if i \<in> elements r then V ! pos r i else f i)"

definition same_elsewhere ::
    "'s array \<Rightarrow> ('s \<Rightarrow> store_key \<Rightarrow> bytes option) \<Rightarrow> 's \<Rightarrow> 's \<Rightarrow> u64 list set \<Rightarrow> bool" where
  "same_elsewhere A contents st st' cs \<longleftrightarrow> (\<forall>k. k \<notin> chunk_key A ` cs \<longrightarrow> contents st' k = contents st k)"

text \<open>No partial encoder is used.\<close>

definition whole_writes :: "'s array \<Rightarrow> codec_options \<Rightarrow> bool" where
  "whole_writes A opt \<longleftrightarrow> experimental_partial_encoding opt \<longrightarrow> ar_partial_encoder A = None"

subsection \<open>The contract of an array on a store\<close>

context key_value_store
begin

lemma store_decoder_reads: "ok s \<Longrightarrow> contents s k = Some e \<Longrightarrow> reads_on R (store_decoder get_partial_many s k) e"
  using value_fits partial_some ranges_on_ok by (auto simp: reads_on_def store_decoder_def ranges_ok_def)

lemma store_decoder_absent: "ok s \<Longrightarrow> contents s k = None \<Longrightarrow> absent_on R (store_decoder get_partial_many s k) n"
  using partial_none by (simp add: absent_on_def store_decoder_def)

end

locale array_on_store =
  codec: array_to_bytes_codec "ar_codecs A" "ar_data_type A" "ar_fill_value A" acc R iclass +
  store: key_value_store ok contents "so_get (ar_storage A)" "so_set (ar_storage A)" "so_erase (ar_storage A)"
    "so_get_partial_many (ar_storage A)"
  for A :: "'s array"
    and acc :: "chunk_shape \<Rightarrow> array_bytes \<Rightarrow> bool"
    and R :: "byte_range \<Rightarrow> bool"
    and iclass :: indexer_class
    and ok :: "'s \<Rightarrow> bool"
    and contents :: "'s \<Rightarrow> store_key \<Rightarrow> bytes option" +
  fixes z :: nat
  assumes grid: "grid_contract (ar_grid A)"
    and grid_small: "prod_list (cg_grid_shape (ar_grid A)) < M64"
    and fixed: "dt_size (ar_data_type A) = SizeFixed z" "0 < z"
    and fill: "fill_matches (ar_data_type A) (ar_fill_value A)"
    and chunk_fits: "inb c (cg_grid_shape (ar_grid A)) \<Longrightarrow> shape_ok (chunk_dims A c)"
      "inb c (cg_grid_shape (ar_grid A)) \<Longrightarrow> prod_list (chunk_dims A c) + 1 < M64"
      "inb c (cg_grid_shape (ar_grid A)) \<Longrightarrow> 2 * (prod_list (chunk_dims A c) * z) < M64"
      "inb c (cg_grid_shape (ar_grid A)) \<Longrightarrow> prod_list (chunk_dims A c) * length (ar_fill_value A) < M64"
    and chunk_accepted: "inb c (cg_grid_shape (ar_grid A)) \<Longrightarrow>
      ab_ok (ar_data_type A) (prod_list (chunk_dims A c)) b \<Longrightarrow> acc (chunk_dims A c) b"
    and keys: "inj_on (chunk_key A) {c. inb c (cg_grid_shape (ar_grid A))}"

sublocale array_on_store \<subseteq> grid: chunked "ar_grid A"
  using grid grid_small by unfold_locales

context array_on_store
begin

abbreviation "chunk c \<equiv> inb c (cg_grid_shape (ar_grid A))"
abbreviation "area c \<equiv> chunk_area (ar_grid A) c"
abbreviation "dims c \<equiv> chunk_dims A c"
abbreviation "dt \<equiv> ar_data_type A"

lemma area_facts:
  assumes "chunk c"
  shows "wf_subset (area c)" and "\<not> is_empty (area c)" and "length c = array_dimensionality A"
    and "array_chunk_shape A c = Inr (dims c)" and "array_chunk_shape_u64 A c = Inr (dims c)"
    and "array_chunk_subset A c = Inr (area c)" and "sub_shape (area c) = dims c"
    and "length (sub_start (area c)) = array_dimensionality A"
  using grid assms
  by (simp_all add: grid_contract_def array_dimensionality_def array_shape_of_def inb_nth array_chunk_shape_def
      array_chunk_shape_u64_def array_chunk_subset_def grid_item_def chunk_dims_def)

lemma countable_chunk: "chunk c \<Longrightarrow> countable_size dt (prod_list (dims c))"
  using chunk_fits fixed by (fastforce simp: countable_size_def)

lemma wprod_dims: "chunk c \<Longrightarrow> wprod (dims c) = prod_list (dims c)"
  using chunk_fits(1) by (simp add: shape_ok_def wprod_eq)

lemma fill_bytes:
  assumes "chunk c" and "k \<le> prod_list (dims c)"
  shows "\<exists>b. new_fill_value dt k (ar_fill_value A) = Inr b \<and> ab_ok dt k b \<and> vals dt b = replicate k (array_fill A)"
  unfolding array_fill_def
  using new_fill_value_vals[OF countable_less[OF countable_chunk[OF assms(1)] assms(2)] fill]
    mult_less_M64[OF assms(2) chunk_fits(4)[OF assms(1)]] by blast

subsection \<open>Reading a chunk\<close>

lemma retrieve_chunk_if_exists_ok:
  assumes "ok st" and "chunk c" and "chunk_holds A acc contents st c V"
  shows "case contents st (chunk_key A c) of
      None \<Rightarrow> retrieve_chunk_if_exists A opt st c = Inr None
    | Some e \<Rightarrow> \<exists>b. retrieve_chunk_if_exists A opt st c = Inr (Some b) \<and> ab_ok dt (prod_list (dims c)) b \<and> vals dt b = V"
proof (cases "contents st (chunk_key A c)")
  case None
  then show ?thesis
    using area_facts[OF assms(2)] store.get_ok[OF assms(1)] by (simp add: retrieve_chunk_if_exists_def)
next
  case (Some e)
  then obtain o1 b where "acc (dims c) b" "ab_encode (ar_codecs A) o1 b (dims c) = Inr e" "vals dt b = V"
    using assms(3) by (auto simp: chunk_holds_def)
  then obtain b' where "ab_decode (ar_codecs A) opt e (dims c) = Inr b'" "ab_ok dt (prod_list (dims c)) b'" "vals dt b' = V"
    using codec.decoded_vals by metis
  then show ?thesis
    using Some area_facts[OF assms(2)] store.get_ok[OF assms(1)] by (simp add: retrieve_chunk_if_exists_def)
qed

lemma retrieve_chunk_ok:
  assumes "ok st" and "chunk c" and "chunk_holds A acc contents st c V"
  shows "\<exists>b. retrieve_chunk A opt st c = Inr b \<and> ab_ok dt (prod_list (dims c)) b \<and> vals dt b = V"
proof (cases "contents st (chunk_key A c)")
  case None
  then have V: "V = replicate (prod_list (dims c)) (array_fill A)" using assms(3) by (simp add: chunk_holds_def)
  show ?thesis
    using retrieve_chunk_if_exists_ok[OF assms, of opt] None fill_bytes[OF assms(2) order_refl] area_facts[OF assms(2)]
    by (auto simp: retrieve_chunk_def array_new_fill_value_def V wprod_dims[OF assms(2)])
next
  case (Some e)
  then show ?thesis using retrieve_chunk_if_exists_ok[OF assms, of opt] by (auto simp: retrieve_chunk_def)
qed

lemma whole_chunk_idx:
  assumes "chunk c" and "whole_chunk s (dims c)" and "fits s (dims c)"
  shows "sub_idx (dims c) s = [0..<prod_list (dims c)]"
proof -
  have "sub_start s = replicate (length (dims c)) 0"
    using assms(2,3) by (simp add: whole_chunk_def fits_def wf_subset_length list_all_eq_replicate)
  then show ?thesis using assms(2) map_lin_box_zeros[of "dims c"] by (simp add: whole_chunk_def)
qed

lemma part_count:
  assumes "chunk c" and "subset_covered s (dims c)"
  shows "num_elements s = length (sub_idx (dims c) s)" and "length (sub_idx (dims c) s) \<le> prod_list (dims c)"
    and "distinct (sub_idx (dims c) s)"
proof -
  have f: "fits s (dims c)" using assms(2) by (simp add: subset_covered_def)
  show d: "distinct (sub_idx (dims c) s)" by (rule distinct_sub_idx[OF f])
  note n = indexed_count[OF indexes_subset[OF assms(2)] chunk_fits(1)[OF assms(1)]]
  show "num_elements s = length (sub_idx (dims c) s)" "length (sub_idx (dims c) s) \<le> prod_list (dims c)"
    using n by (simp_all add: num_elements_def)
qed

lemma nth_all: "length V = n \<Longrightarrow> map ((!) V) [0..<n] = V"
  by (metis map_nth)

lemma holds_length: "chunk c \<Longrightarrow> chunk_holds A acc contents st c V \<Longrightarrow> length V = prod_list (dims c)"
  by (auto simp: chunk_holds_def length_vals dest!: codec.accepted split: option.splits)

text \<open>The partial decoder of a stored chunk.\<close>

lemma partial_decoder_ok:
  assumes "ok st" and "chunk c" and "chunk_holds A acc contents st c V" and "subset_covered s (dims c)"
    and "sub_idx (dims c) s \<noteq> []"
  shows "\<exists>dec b. array_partial_decoder A opt st c (dims c) = Inr dec \<and> dec (SubsetIndexer s) = Inr b \<and>
     ab_ok dt (length (sub_idx (dims c) s)) b \<and> vals dt b = map ((!) V) (sub_idx (dims c) s)"
proof -
  let ?d = "store_decoder (so_get_partial_many (ar_storage A)) st (chunk_key A c)"
  have x: "indexes (dims c) (SubsetIndexer s)" using indexes_subset[OF assms(4)] .
  have sub: "asked iclass (dims c) (SubsetIndexer s)" by (rule asked_subset[OF assms(4,5)])
  show ?thesis
  proof (cases "contents st (chunk_key A c)")
    case None
    then have V: "V = replicate (prod_list (dims c)) (array_fill A)" using assms(3) by (simp add: chunk_holds_def)
    obtain b e where "acc (dims c) b" "ab_encode (ar_codecs A) opt b (dims c) = Inr e"
      using fill_bytes[OF assms(2) order_refl] chunk_accepted[OF assms(2)] codec.roundtrip by metis
    from codec.partial_none[OF this store.store_decoder_absent[OF assms(1) None] sub fill chunk_fits(4)[OF assms(2)]
        countable_chunk[OF assms(2)]]
    obtain dec b' where b: "ab_partial_decoder (ar_codecs A) opt ?d (dims c) = Inr dec" "dec (SubsetIndexer s) = Inr b'"
        "ab_ok dt (length (sub_idx (dims c) s)) b'" "vals dt b' = replicate (length (sub_idx (dims c) s)) (array_fill A)"
      unfolding array_fill_def by blast
    have "map ((!) V) (sub_idx (dims c) s) = replicate (length (sub_idx (dims c) s)) (array_fill A)"
      using x ix_elements_less[of "dims c" "SubsetIndexer s"]
      by (intro nth_equalityI) (simp_all add: V indexes_def del: ix_elements.simps)
    then show ?thesis using b by (simp add: array_partial_decoder_def del: ix_elements.simps)
  next
    case (Some e)
    then obtain o1 b where "acc (dims c) b" "ab_encode (ar_codecs A) o1 b (dims c) = Inr e" "vals dt b = V"
      using assms(3) by (auto simp: chunk_holds_def)
    from codec.partial_some[OF this(1,2) store.store_decoder_reads[OF assms(1) Some] sub, of opt] this(3)
    show ?thesis by (auto simp: array_partial_decoder_def simp del: ix_elements.simps)
  qed
qed

lemma retrieve_chunk_subset_ok:
  assumes "ok st" and "chunk c" and "chunk_holds A acc contents st c V" and "subset_covered s (dims c)"
    and "sub_idx (dims c) s \<noteq> []"
  shows "\<exists>b. retrieve_chunk_subset A opt st c s = Inr b \<and> ab_ok dt (length (sub_idx (dims c) s)) b \<and>
     vals dt b = map ((!) V) (sub_idx (dims c) s)"
proof -
  have f: "fits s (dims c)" using assms(4) by (simp add: subset_covered_def)
  have i: "inbounds_shape s (dims c)" using fits_inbounds_shape[OF f] .
  show ?thesis
  proof (cases "whole_chunk s (dims c)")
    case True
    show ?thesis
      using retrieve_chunk_ok[OF assms(1-3), of opt] holds_length[OF assms(2,3)]
      by (simp add: retrieve_chunk_subset_def area_facts[OF assms(2)] i True whole_chunk_idx[OF assms(2) True f] nth_all
          del: ix_elements.simps)
  next
    case False
    obtain dec b where b: "array_partial_decoder A opt st c (dims c) = Inr dec" "dec (SubsetIndexer s) = Inr b"
        "ab_ok dt (length (sub_idx (dims c) s)) b" "vals dt b = map ((!) V) (sub_idx (dims c) s)"
      using partial_decoder_ok[OF assms] by blast
    have "array_validate A b (num_elements s) = Inr ()"
      using validate_ok[OF countable_less[OF countable_chunk[OF assms(2)] part_count(2)[OF assms(2,4)]] b(3)]
      by (simp add: array_validate_def part_count(1)[OF assms(2,4)] del: ix_elements.simps)
    then show ?thesis
      using b by (simp add: retrieve_chunk_subset_def area_facts[OF assms(2)] i False del: ix_elements.simps)
  qed
qed

lemma array_relative_to_shape: "array_relative_to p o1 = Inr q \<Longrightarrow> sub_shape q = sub_shape p"
  by (auto simp: array_relative_to_def relative_to_def new_with_start_shape_def map_err_def split: if_splits sum.splits)

text \<open>
  Reading into a target whose views cover the subset \<open>p\<close> of an array of shape \<open>a\<close> updates the elements of \<open>p\<close>.
\<close>

lemma retrieve_chunk_into_ok:
  assumes "ok st" and "chunk c" and "chunk_holds A acc contents st c V" and "fits p a" and "prod_list a < M64"
    and "target_ok dt a p T" and "sub_shape p = dims c"
  shows "\<exists>T'. retrieve_chunk_into A opt st c T = Inr T' \<and> target_ok dt a p T' \<and>
     vals dt (target_bytes T') = scatter (vals dt (target_bytes T)) (sub_idx a p) V"
proof (cases "contents st (chunk_key A c)")
  case None
  then have V: "V = replicate (prod_list (dims c)) (array_fill A)" using assms(3) by (simp add: chunk_holds_def)
  have l: "length (sub_idx a p) = prod_list (dims c)"
    using length_sub_idx[OF assms(4)] unfolding assms(7) .
  have n: "target_num_elements T = prod_list (dims c)"
    using target_count[OF assms(6)] assms(7) chunk_fits(1)[OF assms(2)]
    by (simp add: num_elements_def shape_ok_def wprod_eq)
  obtain b where b: "new_fill_value dt (prod_list (dims c)) (ar_fill_value A) = Inr b" "ab_ok dt (prod_list (dims c)) b"
      "vals dt b = V"
    using fill_bytes[OF assms(2) order_refl] V by blast
  have "ab_ok dt (length (sub_idx a p)) b" using b(2) l by (simp del: ix_elements.simps)
  from decode_into_target_vals[OF assms(4-6) this] show ?thesis
    using None area_facts[OF assms(2)] store.get_ok[OF assms(1)] b
    by (auto simp: retrieve_chunk_into_def copy_fill_value_into_def n simp del: ix_elements.simps)
next
  case (Some e)
  then obtain o1 b where b: "acc (dims c) b" "ab_encode (ar_codecs A) o1 b (dims c) = Inr e" "vals dt b = V"
    using assms(3) by (auto simp: chunk_holds_def)
  have "target_into dt a p T" using assms(4-6) by (simp add: target_into_def)
  from codec.into[OF b(1,2) this assms(7), of opt] show ?thesis
    using Some area_facts[OF assms(2)] store.get_ok[OF assms(1)] b(3)
    by (auto simp: retrieve_chunk_into_def simp del: ix_elements.simps)
qed

lemma retrieve_chunk_subset_into_ok:
  assumes "ok st" and "chunk c" and "chunk_holds A acc contents st c V" and "subset_covered s (dims c)"
    and "fits p a" and "prod_list a < M64" and "target_ok dt a p T"
    and "sub_shape p = sub_shape s" and "sub_idx (dims c) s \<noteq> []"
  shows "\<exists>T'. retrieve_chunk_subset_into A opt st c s T = Inr T' \<and> target_ok dt a p T' \<and>
     vals dt (target_bytes T') =
       scatter (vals dt (target_bytes T)) (sub_idx a p) (map ((!) V) (sub_idx (dims c) s))"
proof -
  have f: "fits s (dims c)" using assms(4) by (simp add: subset_covered_def)
  have i: "inbounds_shape s (dims c)" using fits_inbounds_shape[OF f] .
  have l: "length (sub_idx a p) = length (sub_idx (dims c) s)"
    using length_sub_idx[OF assms(5)] length_sub_idx[OF f] assms(8) by (simp del: ix_elements.simps)
  show ?thesis
  proof (cases "whole_chunk s (dims c)")
    case True
    then have "sub_shape p = dims c" using assms(8) by (simp add: whole_chunk_def)
    then show ?thesis
      using retrieve_chunk_into_ok[OF assms(1-3,5-7), of opt] holds_length[OF assms(2,3)] True
      by (simp add: retrieve_chunk_subset_into_def area_facts[OF assms(2)] i whole_chunk_idx[OF assms(2) True f] nth_all
          del: ix_elements.simps)
  next
    case False
    obtain dec b where b: "array_partial_decoder A opt st c (dims c) = Inr dec" "dec (SubsetIndexer s) = Inr b"
        "ab_ok dt (length (sub_idx (dims c) s)) b" "vals dt b = map ((!) V) (sub_idx (dims c) s)"
      using partial_decoder_ok[OF assms(1-4,9)] by blast
    have n: "ix_len (SubsetIndexer s) = target_num_elements T"
      using target_count[OF assms(7)] length_sub_idx[OF assms(5)] l part_count[OF assms(2,4)] chunk_fits(1)[OF assms(2)]
      by (simp add: num_elements_def shape_ok_def wprod_eq)
    have "ab_ok dt (length (sub_idx a p)) b" using b(3) l by (simp del: ix_elements.simps)
    from decode_into_target_vals[OF assms(5-7) this] show ?thesis
      using b n by (auto simp: retrieve_chunk_subset_into_def area_facts[OF assms(2)] i False
          default_partial_decode_into_def simp del: ix_elements.simps ix_len.simps)
  qed
qed

subsection \<open>Writing a chunk\<close>

lemma erase_chunk_ok:
  assumes "ok st"
  shows "\<exists>st'. erase_chunk A c st = Inr st' \<and> ok st' \<and>
     chunk_holds A acc contents st' c (replicate (prod_list (dims c)) (array_fill A)) \<and>
     same_elsewhere A contents st st' {c}"
  using store.erase_ok[OF assms, of "chunk_key A c"]
  by (auto simp: erase_chunk_def chunk_holds_def same_elsewhere_def)

lemma store_chunk_ok:
  assumes "ok st" and "chunk c" and "ab_ok dt (prod_list (dims c)) b" and "align_ok al"
  shows "\<exists>st'. store_chunk al A opt c b st = Inr st' \<and> ok st' \<and> chunk_holds A acc contents st' c (vals dt b) \<and>
     same_elsewhere A contents st st' {c}"
proof -
  have v: "array_validate A b (wprod (dims c)) = Inr ()"
    using validate_ok[OF countable_chunk[OF assms(2)] assms(3)] by (simp add: array_validate_def wprod_dims[OF assms(2)])
  show ?thesis
  proof (cases "\<not> store_empty_chunks opt \<and> is_fill_value al b (ar_fill_value A)")
    case True
    then have "vals dt b = replicate (prod_list (dims c)) (array_fill A)"
      using is_fill_value_vals[OF assms(4) _ assms(3) fill] fixed by (simp add: array_fill_def is_fixed_def)
    then show ?thesis
      using erase_chunk_ok[OF assms(1), of c] True v by (auto simp: store_chunk_def area_facts[OF assms(2)])
  next
    case False
    have acc: "acc (dims c) b" using chunk_accepted[OF assms(2,3)] .
    then obtain e where e: "ab_encode (ar_codecs A) opt b (dims c) = Inr e" "length e < M64"
      using codec.roundtrip by metis
    obtain st' where st': "so_set (ar_storage A) st (chunk_key A c) e = Inr st'" "ok st'"
        "contents st' = (contents st)(chunk_key A c \<mapsto> e)"
      using store.set_ok[OF assms(1) e(2)] by blast
    have "chunk_holds A acc contents st' c (vals dt b)" using acc e(1) st'(3) by (auto simp: chunk_holds_def)
    then show ?thesis
      using st' e(1) False v
      by (auto simp: store_chunk_def area_facts[OF assms(2)] store_encoded_chunk_def same_elsewhere_def)
  qed
qed

lemma scatter_all: "length us = length V \<Longrightarrow> scatter V [0..<length V] us = us"
  using scatter_run[of 0 us V] by simp

lemma fits_end: "fits s a \<Longrightarrow> \<not> list_ex (\<lambda>(e, n). n < e) (zip (end_exc s) a)"
  by (auto simp: fits_def list_ex_zip_nth length_end_exc not_less) (metis end_exc_nth not_le)

lemma store_chunk_subset_ok:
  assumes "ok st" and "chunk c" and "chunk_holds A acc contents st c V" and "subset_covered s (dims c)"
    and "ab_ok dt (length (sub_idx (dims c) s)) u" and "align_ok al" and "whole_writes A opt"
  shows "\<exists>st'. store_chunk_subset al A opt c s u st = Inr st' \<and> ok st' \<and>
     chunk_holds A acc contents st' c (scatter V (sub_idx (dims c) s) (vals dt u)) \<and> same_elsewhere A contents st st' {c}"
proof -
  have f: "fits s (dims c)" using assms(4) by (simp add: subset_covered_def)
  then have i: "\<not> list_ex (\<lambda>(e, n). n < e) (zip (end_exc s) (dims c))" by (rule fits_end)
  have lenV: "length V = prod_list (dims c)" using holds_length[OF assms(2,3)] .
  show ?thesis
  proof (cases "whole_chunk s (dims c)")
    case True
    have "ab_ok dt (prod_list (dims c)) u" using assms(5) unfolding whole_chunk_idx[OF assms(2) True f] by simp
    then have "length (vals dt u) = length V" using length_vals lenV by metis
    from scatter_all[OF this] show ?thesis
      using store_chunk_ok[OF assms(1,2) \<open>ab_ok dt (prod_list (dims c)) u\<close> assms(6), of opt] i True lenV
      by (simp add: store_chunk_subset_def area_facts[OF assms(2)] whole_chunk_idx[OF assms(2) True f]
          del: ix_elements.simps)
  next
    case False
    have v: "array_validate A u (num_elements s) = Inr ()"
      using validate_ok[OF countable_less[OF countable_chunk[OF assms(2)] part_count(2)[OF assms(2,4)]] assms(5)]
      by (simp add: array_validate_def part_count(1)[OF assms(2,4)] del: ix_elements.simps)
    obtain b where b: "retrieve_chunk A opt st c = Inr b" "ab_ok dt (prod_list (dims c)) b" "vals dt b = V"
      using retrieve_chunk_ok[OF assms(1-3)] by blast
    have vb: "array_validate A b (wprod (dims c)) = Inr ()"
      using validate_ok[OF countable_chunk[OF assms(2)] b(2)] by (simp add: array_validate_def wprod_dims[OF assms(2)])
    have "ab_size b + ab_size u = prod_list (dims c) * z + length (sub_idx (dims c) s) * z"
      using ab_ok_fixed_size[OF b(2) fixed(1)] ab_ok_fixed_size[OF assms(5) fixed(1)] by (simp del: ix_elements.simps)
    also have "\<dots> \<le> 2 * (prod_list (dims c) * z)"
      using mult_le_mono1[OF part_count(2)[OF assms(2,4)], of z] by (simp del: ix_elements.simps)
    finally have sz: "ab_size b + ab_size u < M64" using chunk_fits(3)[OF assms(2)] by simp
    obtain b' where b': "update_array_bytes_array_subset b (dims c) s u (dt_size dt) = Inr b'"
        "ab_ok dt (prod_list (dims c)) b'" "vals dt b' = scatter (vals dt b) (sub_idx (dims c) s) (vals dt u)"
      using update_subset_vals[OF assms(4) chunk_fits(1)[OF assms(2)] b(2) assms(5) sz] by blast
    have pe: "(if experimental_partial_encoding opt then ar_partial_encoder A else None) = None"
      using assms(7) by (simp add: whole_writes_def)
    show ?thesis
      using store_chunk_ok[OF assms(1,2) b'(2) assms(6), of opt] b b' vb v pe i False
      by (simp add: store_chunk_subset_def area_facts[OF assms(2)] del: ix_elements.simps)
  qed
qed

subsection \<open>The chunks of a region\<close>

lemma region_chunks:
  assumes "wf_subset r" and "inbounds_shape r (array_shape_of A)" and "\<not> is_empty r"
  obtains cs where "array_chunks_in_array_subset A r = Inr (Some cs)" and "wf_subset cs"
    and "elements cs = {c. chunk c \<and> elements (area c) \<inter> elements r \<noteq> {}}"
    and "indices_collect (indices_new cs) = box (sub_start cs) (sub_shape cs)"
    and "set (box (sub_start cs) (sub_shape cs)) = elements cs"
    and "num_elements cs = length (box (sub_start cs) (sub_shape cs))"
    and "sub_start cs \<in> elements cs"
    and "\<And>i. i \<in> elements r \<Longrightarrow> \<exists>c \<in> elements cs. i \<in> elements (area c)"
proof -
  obtain cs where cs: "chunks_in_array_subset (ar_grid A) r = Inr (Some cs)" "wf_subset cs"
      "elements cs = {c. chunk c \<and> elements (area c) \<inter> elements r \<noteq> {}}"
      "indices_collect (indices_new cs) = box (sub_start cs) (sub_shape cs)"
      "set (box (sub_start cs) (sub_shape cs)) = elements cs"
      "num_elements cs = length (box (sub_start cs) (sub_shape cs))" "sub_start cs \<in> elements cs"
      "\<And>i. i \<in> elements r \<Longrightarrow> \<exists>c \<in> elements cs. i \<in> elements (area c)"
    by (rule grid.region_chunks[OF assms(1) assms(2)[unfolded array_shape_of_def] assms(3)]) blast
  then show ?thesis using that by (simp add: array_chunks_in_array_subset_def)
qed

lemmas grid_parts = grid.parts
lemmas few_chunks = grid.few_chunks

lemma chunk_options_ok:
  assumes "chunk c"
  shows "\<exists>opt'. chunk_options A opt n (dims c) = Inr opt' \<and> (whole_writes A opt' \<longleftrightarrow> whole_writes A opt)"
proof -
  obtain b where "acc (dims c) b" using fill_bytes[OF assms order_refl] chunk_accepted[OF assms] by blast
  then obtain rc where rc: "ab_recommended_concurrency (ar_codecs A) (dims c) = Inr rc" using codec.accepted by blast
  obtain limit opt' where o: "concurrency_chunks_and_codec (concurrent_target opt) n opt rc = (limit, opt')"
    by (metis prod.exhaust)
  then show ?thesis using rc concurrency_keeps_options[OF o]
    by (simp add: chunk_options_def recommended_codec_concurrency_def whole_writes_def)
qed

end

end
