(* ===== verification/Encoder_Laws.thy ===== *)
theory Encoder_Laws
  imports Encoder_Writes Array_Laws
begin

text \<open>
  The partial encoder of the sharding codec: a region of a shard is written, and the shard holds the overwritten values.  The
  subchunks that straddle the region are read and decoded, all of the region's subchunks are updated and encoded, and
  what is behind the handle is patched.
\<close>

lemma straddles_inside:
  assumes "\<not> straddles r q" and "wf_subset q" and "wf_subset r" and "length (sub_start q) = length (sub_start r)"
  shows "elements q \<subseteq> elements r"
proof
  fix i assume i: "i \<in> elements q"
  have l: "length (sub_shape q) = length (sub_start r)" "length (sub_shape r) = length (sub_start r)" "length i = length (sub_start r)"
    using assms(2-4) i by (simp_all add: wf_subset_length mem_elements)
  have e: "end_exc q ! k = sub_start q ! k + sub_shape q ! k" "end_exc r ! k = sub_start r ! k + sub_shape r ! k"
    if "k < length (sub_start r)" for k
    using assms(2-4) that l by (simp_all add: end_exc_def wf_subset_nth wadd_eq)
  have n: "sub_start r ! k \<le> sub_start q ! k" "end_exc q ! k \<le> end_exc r ! k" if "k < length (sub_start r)" for k
    using assms(1,4) that l unfolding straddles_def by (auto simp: list_ex_length end_exc_def not_less dest!: spec[of _ k])
  show "i \<in> elements r"
    using i n e l assms(4) unfolding mem_elements by (metis order_less_le_trans order_trans)
qed

lemma set_filter_pairs:
  "i \<in> set (map fst (filter (\<lambda>(_, x). P x) (map (\<lambda>c. (g c, h c)) cs))) \<longleftrightarrow> (\<exists>c \<in> set cs. i = g c \<and> P (h c))"
  by (induction cs) auto

lemma pairs_all:
  assumes "length ns = P * 2"
  shows "list_all (\<lambda>n. n = a) ns \<longleftrightarrow> (\<forall>i < P. ns ! (i * 2) = a \<and> ns ! (i * 2 + 1) = a)"
proof
  assume "list_all (\<lambda>n. n = a) ns"
  then show "\<forall>i < P. ns ! (i * 2) = a \<and> ns ! (i * 2 + 1) = a" using assms by (simp add: list_all_length)
next
  assume *: "\<forall>i < P. ns ! (i * 2) = a \<and> ns ! (i * 2 + 1) = a"
  have "ns ! k = a" if "k < length ns" for k
  proof -
    have "k div 2 < P" using that assms by simp
    then have "ns ! (k div 2 * 2) = a" "ns ! (k div 2 * 2 + 1) = a" using * by simp_all
    moreover have "k = k div 2 * 2 \<or> k = k div 2 * 2 + 1" by presburger
    ultimately show ?thesis by metis
  qed
  then show "list_all (\<lambda>n. n = a) ns" by (simp add: list_all_length)
qed

lemma encoded_bytes_le:
  "(\<And>i e. (i, Some e) \<in> set ups \<Longrightarrow> length e \<le> n) \<Longrightarrow> length (encoded_bytes ups) \<le> length ups * n"
proof (induction ups)
  case (Cons p ups)
  obtain i x where p: "p = (i, x)" by fastforce
  have "length (encoded_bytes ups) \<le> length ups * n" using Cons.prems by (intro Cons.IH) auto
  moreover have "length e \<le> n" if "x = Some e" for e using Cons.prems[of i e] by (simp add: p that)
  ultimately show ?case by (cases x) (auto simp: p intro: add_mono)
qed simp

text \<open>The bytes behind the handle when the new subchunks \<open>out\<close> and the index \<open>eI\<close> have been written to \<open>B\<close>.\<close>

definition patched :: "sharding_index_location \<Rightarrow> nat \<Rightarrow> bytes \<Rightarrow> bytes \<Rightarrow> bytes \<Rightarrow> bytes" where
  "patched location off B out eI = (case location of
     IndexStart \<Rightarrow> overlay (overlay B (0, eI)) (off, out)
   | IndexEnd \<Rightarrow> overlay B (off, out @ eI))"

lemma patched_end:
  fixes out eI :: bytes
  assumes "D \<le> length B" and "length B \<le> D + length eI"
  defines "e \<equiv> patched IndexEnd D B out eI"
  shows "length e = D + length out + length eI" and "drop (length e - length eI) e = eI"
    and "o' + n \<le> D \<Longrightarrow> take n (drop o' e) = take n (drop o' B)"
    and "D \<le> o' \<Longrightarrow> o' + n \<le> D + length out \<Longrightarrow> take n (drop o' e) = take n (drop (o' - D) out)"
proof -
  show l: "length e = D + length out + length eI" using assms by (simp add: patched_def length_overlay)
  have d: "drop D e = out @ eI" unfolding e_def patched_def using assms(2) by (simp add: drop_overlay_end)
  have "drop (length out) (drop D e) = eI" unfolding d by simp
  then show "drop (length e - length eI) e = eI" unfolding l by (simp add: add.commute)
  show "take n (drop o' e) = take n (drop o' B)" if "o' + n \<le> D"
    unfolding e_def patched_def using that assms(1) by (simp add: take_overlay)
  show "take n (drop o' e) = take n (drop (o' - D) out)" if "D \<le> o'" "o' + n \<le> D + length out"
  proof -
    have "drop o' e = drop (o' - D) (drop D e)" using that(1) by simp
    then show ?thesis unfolding d using that by simp
  qed
qed

lemma patched_start:
  fixes out eI :: bytes
  assumes "D \<le> length B"
  defines "off \<equiv> max D (length eI)"
  defines "e \<equiv> patched IndexStart off B out eI"
  shows "length e \<le> length B + length out + length eI" and "off + length out \<le> length e" and "take (length eI) e = eI"
    and "length eI \<le> o' \<Longrightarrow> o' + n \<le> D \<Longrightarrow> take n (drop o' e) = take n (drop o' B)"
    and "off \<le> o' \<Longrightarrow> o' + n \<le> off + length out \<Longrightarrow> take n (drop o' e) = take n (drop (o' - off) out)"
proof -
  let ?X = "overlay B (0, eI)"
  have X: "?X = eI @ drop (length eI) B" "length ?X = max (length B) (length eI)"
    by (simp_all add: overlay_def Let_def length_overlay)
  have e: "e = overlay ?X (off, out)" by (simp add: e_def patched_def)
  have l: "length e = max (length ?X) (off + length out)" unfolding e by (rule length_overlay)
  show "length e \<le> length B + length out + length eI" "off + length out \<le> length e"
    unfolding l X(2) off_def using assms(1) by simp_all
  have old: "take n (drop o' e) = take n (drop o' ?X)" if "o' + n \<le> off" for o' n
    unfolding e by (rule take_overlay[OF that]) (use that assms(1) in \<open>simp add: X(2) off_def; linarith\<close>)
  show "take (length eI) e = eI" using old[of 0 "length eI"] by (simp add: X(1) off_def)
  show "take n (drop o' e) = take n (drop o' B)" if "length eI \<le> o'" "o' + n \<le> D"
  proof -
    have "take n (drop o' e) = take n (drop o' ?X)" by (rule old) (use that in \<open>simp add: off_def\<close>)
    also have "drop o' ?X = drop o' B" using that(1) by (simp add: X(1))
    finally show ?thesis .
  qed
  show "take n (drop o' e) = take n (drop (o' - off) out)" if "off \<le> o'" "o' + n \<le> off + length out"
    using take_overlay_new[of "o' - off" n out off ?X] that by (simp add: e)
qed

context sharding
begin

subsection \<open>Reading and updating\<close>

lemma shape_ok_sub:
  assumes "shard_fits s"
  shows "shape_ok sub" and "countable_size t (prod_list sub)"
proof -
  have "acc sub (FixedBytes (replicate (prod_list sub * z) 0))"
    using sub_facts(1)[OF assms] fits_facts(3)[OF assms] by (intro sub_facts(4)[OF assms]) simp
  from inner.accepted[OF this] show "shape_ok sub" by blast
  show "countable_size t (prod_list sub)"
    using assms sub_facts(1)[OF assms] prod_per_shard(3)[OF fits_facts(1)[OF assms]] by (simp add: shard_fits_def countable_size_def)
qed

text \<open>What has been decoded of the region's subchunks suffices to update them.\<close>

definition decoded_for :: "chunk_shape \<Rightarrow> array_subset \<Rightarrow> (u64 list \<Rightarrow> element) \<Rightarrow> (nat \<times> array_bytes) list \<Rightarrow> u64 list \<Rightarrow> bool" where
  "decoded_for s r f decs c \<longleftrightarrow>
     (case map_of decs (lin (per s) c) of
        Some b \<Rightarrow> ab_ok t (prod_list sub) b \<and> vals t b = subset_values f (part s c)
      | None \<Rightarrow> \<not> straddles r (part s c) \<or> subset_values f (part s c) = replicate (prod_list sub) (Raw fv))"

lemma update_subchunk_ok:
  assumes "shard_fits s" and "region s r" and "inb c (per s)" and "elements (part s c) \<inter> elements r \<noteq> {}"
    and "ab_ok t (prod_list (sub_shape r)) u" and "2 * (prod_list sub * z) < M64" and "decoded_for s r f decs c"
  shows "\<exists>b. update_subchunk S decs r u (lin (per s) c, part s c) = Inr (lin (per s) c, b) \<and> ab_ok t (prod_list sub) b \<and>
    vals t b = subset_values (overwrite f r (vals t u)) (part s c)"
proof -
  let ?p = "meet s r c" and ?g = "overwrite f r (vals t u)" and ?a = "part s c"
  note p = meet_facts[OF assms(1-4)] and w = subchunk_area_wf[OF fits_facts(1)[OF assms(1)] assms(3)]
  have fr: "fits r s" "wf_subset r" using assms(2) fits_wf by (auto simp: region_def)
  have sub: "elements ?p \<subseteq> elements r" "elements ?p \<subseteq> elements ?a" using p(4) by blast+
  obtain q where q: "relative_to ?p (sub_start r) = Inr q" "subset_covered q (sub_shape r)"
      "sub_idx (sub_shape r) q = map (pos r) (box (sub_start ?p) (sub_shape ?p))"
    using part_relative[OF p(2) fr(2) sub(1) p(3)] by metis
  obtain x where x: "relative_to ?p (sub_start ?a) = Inr x" "subset_covered x sub"
      "sub_idx sub x = map (pos ?a) (box (sub_start ?p) (sub_shape ?p))"
    using part_relative[OF p(2) w(1) sub(2) p(3)] w(2) by metis
  have B: "set (box (sub_start ?p) (sub_shape ?p)) = elements ?p" using set_box[OF p(2)] .
  have n: "prod_list (sub_shape r) < M64" using fits_prod[OF fr(1)] fits_facts(2)[OF assms(1)] by simp
  have "fits q (sub_shape r)" and fx: "fits x sub" using q(2) x(2) by (simp_all add: subset_covered_def)
  then have "distinct (ix_elements (sub_shape r) (SubsetIndexer q))" using distinct_sub_idx by simp
  moreover have "covers (sub_shape r) (SubsetIndexer q)" using q(2) by simp
  ultimately obtain b1 where b1: "extract_array_subset u (SubsetIndexer q) (sub_shape r) t = Inr b1"
      "ab_ok t (length (sub_idx (sub_shape r) q)) b1" "vals t b1 = map ((!) (vals t u)) (sub_idx (sub_shape r) q)"
    using extract_vals[OF _ n assms(5)] by blast
  have v1: "vals t b1 = subset_values ?g ?p"
    unfolding b1(3) q(3) using B sub(1) by (auto simp: subset_values_def overwrite_def)
  obtain base where base: "(case map_of decs (lin (per s) c) of Some b \<Rightarrow> Inr b | None \<Rightarrow> new_fill_value t (wprod sub) fv) = Inr base"
      "ab_ok t (prod_list sub) base" "\<forall>i \<in> elements ?a - elements ?p. vals t base ! pos ?a i = f i"
  proof (cases "map_of decs (lin (per s) c)")
    case (Some b)
    then have "ab_ok t (prod_list sub) b" "vals t b = subset_values f ?a" using assms(7) by (simp_all add: decoded_for_def)
    then show ?thesis using that[of b] Some nth_subset_values[OF w(1)] by simp
  next
    case None
    obtain b where b: "new_fill_value t (prod_list sub) fv = Inr b" "ab_ok t (prod_list sub) b"
        "vals t b = replicate (prod_list sub) (Raw fv)"
      using new_fill_value_vals[OF shape_ok_sub(2)[OF assms(1)], of fv] sub_facts(1)[OF assms(1)] fill_length
      by (auto simp: fill_val_def)
    have "vals t b ! pos ?a i = f i" if i: "i \<in> elements ?a - elements ?p" for i
    proof -
      have "\<not> elements ?a \<subseteq> elements r" using i p(4) by blast
      then have "straddles r ?a" using straddles_inside[OF _ w(1) fr(2)] w(3) fr(1) by (auto simp: fits_def)
      then have "subset_values f ?a = replicate (prod_list sub) (Raw fv)" using assms(7) None by (simp add: decoded_for_def)
      then show ?thesis using nth_subset_values[OF w(1), of i f] i b(3) by simp
    qed
    then show ?thesis using that[of b] None b(1,2) sub_facts(3)[OF assms(1)] by simp
  qed
  have lx: "length (sub_idx (sub_shape r) q) = length (sub_idx sub x)" unfolding q(3) x(3) by simp
  have le: "length (sub_idx sub x) \<le> prod_list sub"
    using length_sub_idx[OF fx] fits_prod[OF fx] by (simp del: ix_elements.simps)
  have "ab_size base + ab_size b1 < M64"
  proof -
    obtain b b' where bb: "base = FixedBytes b" "b1 = FixedBytes b'" using ab_ok_cases(1) base(2) b1(2) by metis
    have "length b = prod_list sub * z" "length b' = length (sub_idx sub x) * z" using base(2) b1(2) lx by (simp_all add: bb del: ix_elements.simps)
    moreover have "length (sub_idx sub x) * z \<le> prod_list sub * z" using le by (rule mult_le_mono1)
    ultimately show ?thesis using assms(6) by (simp only: bb ab_size.simps)
  qed
  then obtain b' where b': "update_array_bytes_array_subset base sub x b1 (dt_size t) = Inr b'" "ab_ok t (prod_list sub) b'"
      "vals t b' = scatter (vals t base) (sub_idx sub x) (vals t b1)"
    using update_subset_vals[OF x(2) shape_ok_sub(1)[OF assms(1)] base(2)] b1(2) lx by metis
  have "vals t b' = subset_values ?g ?a"
  proof (rule subset_values_eqI[OF w(1)])
    show "length (vals t b') = prod_list (sub_shape ?a)" using length_vals[OF b'(2)] w(2) by simp
    fix i assume i: "i \<in> elements ?a"
    have "length (vals t base) = prod_list (sub_shape ?a)" using length_vals[OF base(2)] w(2) by simp
    then have "vals t b' ! pos ?a i = (if i \<in> elements ?p then ?g i else vals t base ! pos ?a i)"
      unfolding b'(3) x(3) v1 by (rule scatter_part[OF w(1) p(2) sub(2) _ i])
    then show "vals t b' ! pos ?a i = ?g i" using base(3) i p(4) by (auto simp: overwrite_def)
  qed
  then show ?thesis
    using p(1) q(1) x(1) b1(1) base(1) b'(1,2)
    by (cases "map_of decs (lin (per s) c)") (auto simp: update_subchunk_def Let_def data_type within_subchunk_def)
qed

text \<open>The subchunks that are there.\<close>

lemma stored_ranges_ok:
  assumes "words s ns" and "\<forall>i \<in> set is. i < many s"
  obtains rs where "stored_ranges ns is = Inr rs"
    and "set rs = {(i, ns ! (i * 2), ns ! (i * 2 + 1)) | i. i \<in> set is \<and> \<not> (ns ! (i * 2) = u64_MAX \<and> ns ! (i * 2 + 1) = u64_MAX)}"
proof -
  have "map (\<lambda>i. bind_res (index_entry ns i) (\<lambda>(off, len). Inr (i, off, len))) is =
      map Inr (map (\<lambda>i. (i, ns ! (i * 2), ns ! (i * 2 + 1))) is)"
    using assms(2) entry_ok(1)[OF assms(1)] by simp
  then have "stored_ranges ns is = Inr (sort_key (\<lambda>(_, off, _). off) (sort_key (\<lambda>(_, _, len). len)
      (filter (\<lambda>(_, off, len). \<not> (off = u64_MAX \<and> len = u64_MAX)) (map (\<lambda>i. (i, ns ! (i * 2), ns ! (i * 2 + 1))) is))))"
    unfolding stored_ranges_def by (simp del: map_map map_eq_conv)
  then show ?thesis by (rule that) (auto simp: image_iff)
qed

lemma decode_straddling_ok:
  assumes "length e < M64" and "\<And>i off len. (i, off, len) \<in> set rs \<Longrightarrow>
      off + len \<le> length e \<and> (\<exists>o1 b. acc sub b \<and> ab_encode C o1 b sub = Inr (take len (drop off e)) \<and> vals t b = V i)"
  shows "\<exists>decs. decode_straddling S (mutex_decoder (Some e)) opt rs = Inr decs \<and> map fst decs = map fst rs \<and>
    (\<forall>(i, b) \<in> set decs. ab_ok t (prod_list sub) b \<and> vals t b = V i)"
proof -
  let ?fs = "map (\<lambda>(_, off, len). FromStart off (Some len)) rs" and ?es = "map (\<lambda>(_, off, len). take len (drop off e)) rs"
  let ?dec = "\<lambda>(i, e). bind_res (ab_decode C opt e sub) (\<lambda>b. Inr (i, b))"
  have "off + len < M64" if "(i, off, len) \<in> set rs" for i off len using assms(2)[OF that] assms(1) by linarith
  then have "ranges_on (\<lambda>_. True) (length e) ?fs"
    using assms(2) by (fastforce simp: ranges_on_def list_all_iff)
  then have "mutex_decoder (Some e) ?fs = Inr (Some (map (\<lambda>r. br_selected r e) ?fs))"
    using reads_mutex[OF assms(1), of "\<lambda>_. True"] unfolding reads_on_def by blast
  moreover have "map (\<lambda>r. br_selected r e) ?fs = ?es" by (auto simp: case_prod_beta)
  ultimately have h: "mutex_decoder (Some e) ?fs = Inr (Some ?es)" by simp
  have "\<exists>decs. collect_res (map ?dec (zip (map fst rs) ?es)) = Inr decs \<and> map fst decs = map fst rs \<and>
      (\<forall>(i, b) \<in> set decs. ab_ok t (prod_list sub) b \<and> vals t b = V i)"
    using assms(2)
  proof (induction rs)
    case (Cons x rs)
    obtain i off len where x: "x = (i, off, len)" by (metis prod.exhaust)
    obtain o1 b where "acc sub b" "ab_encode C o1 b sub = Inr (take len (drop off e))" "vals t b = V i"
      using Cons.prems[of i off len] by (auto simp: x)
    then obtain b' where "ab_decode C opt (take len (drop off e)) sub = Inr b'" "ab_ok t (prod_list sub) b'" "vals t b' = V i"
      using inner.decoded_vals by metis
    moreover obtain decs where "collect_res (map ?dec (zip (map fst rs) (map (\<lambda>(_, off, len). take len (drop off e)) rs))) = Inr decs"
        "map fst decs = map fst rs" "\<forall>(i, b) \<in> set decs. ab_ok t (prod_list sub) b \<and> vals t b = V i"
      using Cons.IH Cons.prems by (meson list.set_intros(2))
    ultimately show ?case by (intro exI[of _ "(i, b') # decs"]) (simp add: x)
  qed simp
  then show ?thesis using h by (simp add: decode_straddling_def)
qed

text \<open>
  The state of an encoder whose shard holds \<open>f\<close>: what is behind the handle, and the index it has decoded.
\<close>

definition encoder_state :: "chunk_shape \<Rightarrow> (u64 list \<Rightarrow> element) \<Rightarrow> bytes_value \<Rightarrow> u64 list \<Rightarrow> bool" where
  "encoder_state s f v ns \<longleftrightarrow> shard_fits s \<and> words s ns \<and>
     (case v of
        None \<Rightarrow> \<forall>i < many s. ns ! (i * 2) = u64_MAX \<and> ns ! (i * 2 + 1) = u64_MAX \<and>
          subset_values f (part_at s i) = replicate (prod_list sub) (Raw fv)
      | Some e \<Rightarrow> length e + 1 < M64 \<and> (\<exists>N. index_fits s N \<and> index_stored s N e ns \<and>
          (\<forall>i < many s. data_start S N \<le> ns ! (i * 2) \<and>
             entry_holds e (ns ! (i * 2)) (ns ! (i * 2 + 1)) (subset_values f (part_at s i)))))"

lemma encoder_state_holds: "encoder_state s f (Some e) ns \<Longrightarrow> shard_holds s f e"
  by (auto simp: encoder_state_def shard_holds_def)

lemma shard_encoder_state: "shard_holds s f e \<Longrightarrow> \<exists>ns. encoder_state s f (Some e) ns"
  by (auto simp: encoder_state_def shard_holds_def index_stored_def)

text \<open>The entry of a subchunk, whether there is a shard or not.\<close>

lemma encoder_entry:
  assumes "encoder_state s f v ns" and "i < many s"
  obtains "ns ! (i * 2) = u64_MAX" and "ns ! (i * 2 + 1) = u64_MAX" and "subset_values f (part_at s i) = replicate (prod_list sub) (Raw fv)"
  | e where "v = Some e" and "ns ! (i * 2) \<noteq> u64_MAX" and "ns ! (i * 2 + 1) \<noteq> u64_MAX"
    and "entry_holds e (ns ! (i * 2)) (ns ! (i * 2 + 1)) (subset_values f (part_at s i))"
  using assms by (cases v) (auto simp: encoder_state_def entry_holds_def)

lemma straddling_decoded:
  assumes "encoder_state s f v ns" and "region s r" and "\<And>c. c \<in> set cs \<Longrightarrow> inb c (per s)"
  obtains rs decs where
    "stored_ranges ns (map fst (filter (\<lambda>(_, s). straddles r s) (map (\<lambda>c. (lin (per s) c, part s c)) cs))) = Inr rs"
    and "decode_straddling S (mutex_decoder v) opt rs = Inr decs" and "\<And>c. c \<in> set cs \<Longrightarrow> decoded_for s r f decs c"
proof -
  define ids where "ids = map fst (filter (\<lambda>(_, s). straddles r s) (map (\<lambda>c. (lin (per s) c, part s c)) cs))"
  have w: "words s ns" using assms(1) by (simp add: encoder_state_def)
  have ids: "i \<in> set ids \<longleftrightarrow> (\<exists>c \<in> set cs. i = lin (per s) c \<and> straddles r (part s c))" for i
    unfolding ids_def by (rule set_filter_pairs)
  have less: "\<forall>i \<in> set ids. i < many s"
  proof
    fix i assume "i \<in> set ids"
    then obtain c where "c \<in> set cs" "i = lin (per s) c" using ids by blast
    then show "i < many s" using assms(3)[of c] lin_less by simp
  qed
  obtain rs where rs: "stored_ranges ns ids = Inr rs"
    "set rs = {(i, ns ! (i * 2), ns ! (i * 2 + 1)) | i. i \<in> set ids \<and> \<not> (ns ! (i * 2) = u64_MAX \<and> ns ! (i * 2 + 1) = u64_MAX)}"
    by (rule stored_ranges_ok[OF w less])
  have "\<exists>decs. decode_straddling S (mutex_decoder v) opt rs = Inr decs \<and> fst ` set decs = fst ` set rs \<and>
      (\<forall>(i, b) \<in> set decs. ab_ok t (prod_list sub) b \<and> vals t b = subset_values f (part_at s i))"
  proof (cases v)
    case None
    then have "rs = []" using rs(2) less assms(1) by (auto simp: encoder_state_def simp flip: set_empty2)
    then show ?thesis by (simp add: None decode_straddling_def mutex_decoder_def)
  next
    case (Some e)
    have e: "length e < M64" using assms(1) by (simp add: encoder_state_def Some)
    have "off + len \<le> length e \<and> (\<exists>o1 b. acc sub b \<and> ab_encode C o1 b sub = Inr (take len (drop off e)) \<and>
        vals t b = subset_values f (part_at s i))" if x: "(i, off, len) \<in> set rs" for i off len
    proof -
      have i: "i < many s" "off = ns ! (i * 2)" "len = ns ! (i * 2 + 1)" "\<not> (off = u64_MAX \<and> len = u64_MAX)"
        using x rs(2) less by auto
      show ?thesis
        by (rule encoder_entry[OF assms(1) i(1)]) (use i Some in \<open>auto simp: entry_holds_def\<close>)
    qed
    with e have "\<exists>decs. decode_straddling S (mutex_decoder (Some e)) opt rs = Inr decs \<and> map fst decs = map fst rs \<and>
        (\<forall>(i, b) \<in> set decs. ab_ok t (prod_list sub) b \<and> vals t b = subset_values f (part_at s i))"
      by (rule decode_straddling_ok)
    then show ?thesis unfolding Some by (metis (no_types, lifting) list.set_map)
  qed
  then obtain decs where decs: "decode_straddling S (mutex_decoder v) opt rs = Inr decs" "fst ` set decs = fst ` set rs"
      and all: "\<forall>(i, b) \<in> set decs. ab_ok t (prod_list sub) b \<and> vals t b = subset_values f (part_at s i)"
    by (elim exE conjE)
  have "decoded_for s r f decs c" if c: "c \<in> set cs" for c
  proof (cases "map_of decs (lin (per s) c)")
    case (Some b)
    have "(lin (per s) c, b) \<in> set decs" using Some by (rule map_of_SomeD)
    then have "ab_ok t (prod_list sub) b \<and> vals t b = subset_values f (part_at s (lin (per s) c))"
      using bspec[OF all] by fastforce
    then show ?thesis using Some assms(3)[OF c] by (simp add: decoded_for_def unlin_lin)
  next
    case None
    have l: "lin (per s) c < many s" "part_at s (lin (per s) c) = part s c" using assms(3)[OF c] by (simp_all add: lin_less unlin_lin)
    have out: "lin (per s) c \<notin> fst ` set rs" using None decs(2) by (metis map_of_eq_None_iff)
    have "subset_values f (part s c) = replicate (prod_list sub) (Raw fv)" if "straddles r (part s c)"
    proof -
      have "lin (per s) c \<in> set ids" using ids c that by blast
      then have "ns ! (lin (per s) c * 2) = u64_MAX \<and> ns ! (lin (per s) c * 2 + 1) = u64_MAX"
        using out unfolding rs(2) by (auto simp: image_iff)
      then show ?thesis by (rule_tac encoder_entry[OF assms(1) l(1)]) (simp_all only: l(2) simp_thms)
    qed
    then show ?thesis using None by (auto simp: decoded_for_def)
  qed
  then show ?thesis using that[of rs decs] rs(1) decs(1) by (simp add: ids_def)
qed

text \<open>What is made of an updated subchunk whose elements are those of \<open>g\<close>.\<close>

definition updated_to :: "chunk_shape \<Rightarrow> (u64 list \<Rightarrow> element) \<Rightarrow> nat \<times> bytes option \<Rightarrow> bool" where
  "updated_to s g = (\<lambda>(i, x). case x of
     None \<Rightarrow> subset_values g (part_at s i) = replicate (prod_list sub) (Raw fv)
   | Some e \<Rightarrow> length e \<le> L \<and> (\<exists>opt b. acc sub b \<and> ab_encode C opt b sub = Inr e \<and> vals t b = subset_values g (part_at s i)))"

lemma encode_updated_ok:
  assumes "shard_fits s" and "ab_ok t (prod_list sub) b" and "vals t b = subset_values g (part_at s i)"
  obtains x where "encode_updated al S opt (i, b) = Inr (i, x)" and "updated_to s g (i, x)"
proof (cases "is_fill_value al b fv")
  case True
  have "vals t b = replicate (prod_list sub) (fill_val t fv)"
    by (rule is_fill_value_vals[OF aligned True assms(2)]) (simp_all add: fill_length is_fixed_def)
  then show ?thesis using that[of None] True assms(3) by (simp add: encode_updated_def updated_to_def fill_val_def Let_def)
next
  case False
  have ac: "acc sub b" by (rule sub_facts(4)[OF assms(1,2)])
  obtain e where e: "ab_encode C opt b sub = Inr e" using inner.roundtrip[OF ac] by blast
  then have "updated_to s g (i, Some e)" using short[OF ac e] ac assms(3) by (auto simp: updated_to_def)
  then show ?thesis using that[of "Some e"] False e by (simp add: encode_updated_def Let_def)
qed

lemma updates_ok:
  assumes "shard_fits s" and "region s r" and "ab_ok t (prod_list (sub_shape r)) u" and "2 * (prod_list sub * z) < M64"
    and "\<And>c. c \<in> set cs \<Longrightarrow> inb c (per s) \<and> elements (part s c) \<inter> elements r \<noteq> {} \<and> decoded_for s r f decs c"
  shows "\<exists>updated ups. collect_res (map (update_subchunk S decs r u) (map (\<lambda>c. (lin (per s) c, part s c)) cs)) = Inr updated \<and>
    collect_res (map (encode_updated al S opt) updated) = Inr ups \<and> map fst ups = map (lin (per s)) cs \<and>
    (\<forall>x \<in> set ups. updated_to s (overwrite f r (vals t u)) x)"
  using assms(5)
proof (induction cs)
  case (Cons c cs)
  let ?g = "overwrite f r (vals t u)"
  have c: "inb c (per s)" "elements (part s c) \<inter> elements r \<noteq> {}" "decoded_for s r f decs c" using Cons.prems[of c] by simp_all
  obtain b where b: "update_subchunk S decs r u (lin (per s) c, part s c) = Inr (lin (per s) c, b)" "ab_ok t (prod_list sub) b"
      "vals t b = subset_values ?g (part_at s (lin (per s) c))"
    using update_subchunk_ok[OF assms(1,2) c(1,2) assms(3,4) c(3)] unlin_lin[OF c(1)] by auto
  obtain x where x: "encode_updated al S opt (lin (per s) c, b) = Inr (lin (per s) c, x)" "updated_to s ?g (lin (per s) c, x)"
    by (rule encode_updated_ok[OF assms(1) b(2,3)])
  obtain updated ups where ups: "collect_res (map (update_subchunk S decs r u) (map (\<lambda>c. (lin (per s) c, part s c)) cs)) = Inr updated"
      "collect_res (map (encode_updated al S opt) updated) = Inr ups" "map fst ups = map (lin (per s)) cs"
      "\<forall>x \<in> set ups. updated_to s ?g x"
    using Cons.IH Cons.prems by (meson list.set_intros(2))
  have "collect_res (map (update_subchunk S decs r u) (map (\<lambda>c. (lin (per s) c, part s c)) (c # cs))) = Inr ((lin (per s) c, b) # updated)"
    using b(1) ups(1) by simp
  moreover have "collect_res (map (encode_updated al S opt) ((lin (per s) c, b) # updated)) = Inr ((lin (per s) c, x) # ups)"
    using x(1) ups(2) by simp
  ultimately show ?case using ups(3,4) x(2) by (intro exI[of _ "(lin (per s) c, b) # updated"] exI[of _ "(lin (per s) c, x) # ups"]) simp
qed simp

subsection \<open>Writing\<close>

lemma max_data_offset_ok:
  assumes "shard_fits s" and "words s ns"
    and "\<And>i. i < many s \<Longrightarrow> \<not> (ns ! (i * 2) = u64_MAX \<and> ns ! (i * 2 + 1) = u64_MAX) \<Longrightarrow> ns ! (i * 2) + ns ! (i * 2 + 1) \<le> n"
    and "n < M64"
  obtains D where "max_data_offset ns = Inr D" and "D \<le> n"
    and "\<And>i. i < many s \<Longrightarrow> \<not> (ns ! (i * 2) = u64_MAX \<and> ns ! (i * 2 + 1) = u64_MAX) \<Longrightarrow> ns ! (i * 2) + ns ! (i * 2 + 1) \<le> D"
proof -
  define h where "h = (\<lambda>i. if ns ! (i * 2) = u64_MAX \<and> ns ! (i * 2 + 1) = u64_MAX then 0 else wadd (ns ! (i * 2)) (ns ! (i * 2 + 1)))"
  have pos: "0 < many s"
    using prod_per_shard(1)[OF fits_facts(1)[OF assms(1)]] fits_facts(5)[OF assms(1)] by (metis gr0I list_all_iff mult_0 order_less_irrefl prod_list_eq_0)
  have len: "length ns = many s * 2" using assms(2) by (simp add: words_def)
  have m: "map (\<lambda>(off, len). if off = u64_MAX \<and> len = u64_MAX then 0 else wadd off len) (index_pairs ns) = map h [0..<many s]"
    unfolding index_pairs_eq[OF len] h_def by simp
  have le: "h i \<le> n" and eq: "\<not> (ns ! (i * 2) = u64_MAX \<and> ns ! (i * 2 + 1) = u64_MAX) \<Longrightarrow> h i = ns ! (i * 2) + ns ! (i * 2 + 1)"
    if "i < many s" for i
    using assms(3)[OF that] assms(4) by (auto simp: h_def wadd_eq)
  obtain x xs where x: "map h [0..<many s] = x # xs" using pos by (cases "map h [0..<many s]") auto
  have "(\<lambda>x y. max y x) = (max :: nat \<Rightarrow> nat \<Rightarrow> nat)" by (intro ext) (rule max.commute)
  then have fold: "foldl max x xs = Max (set (x # xs))" by (simp only: Max.set_eq_fold foldl_conv_fold)
  have mem: "y \<in> set (x # xs) \<longleftrightarrow> (\<exists>i < many s. y = h i)" for y
    unfolding x[symmetric] by (simp only: set_map set_upt image_iff Bex_def) auto
  have D: "max_data_offset ns = Inr (Max (set (x # xs)))"
    unfolding max_data_offset_def m x list.case fold by (rule refl)
  show ?thesis
  proof (rule that[OF D])
    have "y \<le> n" if y: "y \<in> set (x # xs)" for y
    proof -
      from y[unfolded mem] obtain i where "i < many s" "y = h i" by (elim exE conjE)
      then show ?thesis using le by simp
    qed
    then show "Max (set (x # xs)) \<le> n" by (subst Max_le_iff) (rule finite_set, simp, rule ballI)
    show "ns ! (i * 2) + ns ! (i * 2 + 1) \<le> Max (set (x # xs))"
      if i: "i < many s" "\<not> (ns ! (i * 2) = u64_MAX \<and> ns ! (i * 2 + 1) = u64_MAX)" for i
    proof -
      have "h i \<in> set (x # xs)" unfolding mem using i(1) by (intro exI[of _ i] conjI refl)
      then have "h i \<le> Max (set (x # xs))" by (intro Max_ge) (rule finite_set)
      then show ?thesis unfolding eq[OF i] .
    qed
  qed
qed

text \<open>The entries of the updated subchunks \<open>ids\<close> have been cleared; the others are in the first \<open>D\<close> bytes of \<open>B\<close>.\<close>

definition cleared :: "chunk_shape \<Rightarrow> nat \<Rightarrow> (u64 list \<Rightarrow> element) \<Rightarrow> nat set \<Rightarrow> nat \<Rightarrow> bytes \<Rightarrow> u64 list \<Rightarrow> bool" where
  "cleared s N f ids D B ns \<longleftrightarrow> words s ns \<and> D \<le> length B \<and> (sh_index_location S = IndexEnd \<longrightarrow> length B \<le> D + N) \<and>
     (\<forall>i < many s. i \<in> ids \<longrightarrow> ns ! (i * 2) = u64_MAX \<and> ns ! (i * 2 + 1) = u64_MAX) \<and>
     (\<forall>i < many s. i \<notin> ids \<longrightarrow> data_start S N \<le> ns ! (i * 2) \<and>
        entry_holds B (ns ! (i * 2)) (ns ! (i * 2 + 1)) (subset_values f (part_at s i)) \<and>
        (ns ! (i * 2) \<noteq> u64_MAX \<longrightarrow> ns ! (i * 2) + ns ! (i * 2 + 1) \<le> D))"

abbreviation "held v \<equiv> (case v of None \<Rightarrow> [] | Some e \<Rightarrow> e)"

lemma fit_unique: "index_fits s N \<Longrightarrow> index_fits s N' \<Longrightarrow> N' = N"
  by (simp add: index_fits_def)

lemma cleared_ok:
  assumes "encoder_state s f v ns" and "index_fits s N" and "\<forall>i \<in> set is. i < many s" and "D \<le> length (held v)"
    and "sh_index_location S = IndexEnd \<longrightarrow> length (held v) \<le> D + N"
    and "\<And>i. i < many s \<Longrightarrow> \<not> (ns ! (i * 2) = u64_MAX \<and> ns ! (i * 2 + 1) = u64_MAX) \<Longrightarrow> ns ! (i * 2) + ns ! (i * 2 + 1) \<le> D"
  obtains ns1 v1 D1 where "try_for_each clear_entry is ns = Inr ns1"
    and "(if list_all (\<lambda>n. n = u64_MAX) ns1 then bind_res (mutex_erase v) (\<lambda>v. Inr (v, 0)) else Inr (v, D)) = Inr (v1, D1)"
    and "cleared s N f (set is) D1 (held v1) ns1" and "length (held v1) \<le> length (held v)"
proof -
  have w: "length ns = many s * 2" "\<forall>n \<in> set ns. n < M64" using assms(1) by (simp_all add: encoder_state_def words_def)
  from clear_entries[OF w(1) assms(3)] obtain ns1 where ns1: "try_for_each clear_entry is ns = Inr ns1" "length ns1 = many s * 2"
      "set ns1 \<subseteq> insert u64_MAX (set ns)"
      and all_nth: "\<forall>i < many s. (if i \<in> set is then ns1 ! (i * 2) = u64_MAX \<and> ns1 ! (i * 2 + 1) = u64_MAX
        else ns1 ! (i * 2) = ns ! (i * 2) \<and> ns1 ! (i * 2 + 1) = ns ! (i * 2 + 1))" by (elim exE conjE)
  note nth = all_nth[rule_format]
  have ws: "words s ns1" using ns1(2,3) w(2) by (auto simp: words_def u64_MAX_def M64_def)
  have N: "data_start S N \<le> u64_MAX"
    using assms(2) by (auto simp: index_fits_def data_start_def u64_MAX_def split: sharding_index_location.splits)
  note all = pairs_all[OF ns1(2), of u64_MAX]
  show ?thesis
  proof (cases "list_all (\<lambda>n. n = u64_MAX) ns1")
    case True
    have m: "ns1 ! (i * 2) = u64_MAX" "ns1 ! (i * 2 + 1) = u64_MAX" if "i < many s" for i
      using True that unfolding all by simp_all
    have "subset_values f (part_at s i) = replicate (prod_list sub) (Raw fv)" if "i < many s" "i \<notin> set is" for i
      using m[OF that(1)] nth[OF that(1)] that(2) by (rule_tac encoder_entry[OF assms(1) that(1)]) simp_all
    then have "cleared s N f (set is) 0 [] ns1"
      using ws m N by (simp add: cleared_def entry_holds_def)
    then show ?thesis using that[of ns1 None 0] ns1(1) True by (simp add: mutex_erase_def)
  next
    case False
    obtain e where e: "v = Some e"
    proof (cases v)
      case None
      then have "ns1 ! (i * 2) = u64_MAX \<and> ns1 ! (i * 2 + 1) = u64_MAX" if "i < many s" for i
        using assms(1) nth[OF that] that by (simp add: encoder_state_def split: if_splits)
      then show ?thesis using False unfolding all by blast
    qed
    obtain N' where N': "index_fits s N'" "\<forall>i < many s. data_start S N' \<le> ns ! (i * 2) \<and>
        entry_holds e (ns ! (i * 2)) (ns ! (i * 2 + 1)) (subset_values f (part_at s i))"
      using assms(1) by (auto simp: encoder_state_def e)
    have "data_start S N \<le> ns1 ! (i * 2) \<and> entry_holds e (ns1 ! (i * 2)) (ns1 ! (i * 2 + 1)) (subset_values f (part_at s i)) \<and>
        (ns1 ! (i * 2) \<noteq> u64_MAX \<longrightarrow> ns1 ! (i * 2) + ns1 ! (i * 2 + 1) \<le> D)" if i: "i < many s" "i \<notin> set is" for i
      using nth[OF i(1)] i(2) N'(2) i(1) assms(6)[OF i(1)] fit_unique[OF assms(2) N'(1)] by simp
    moreover have "ns1 ! (i * 2) = u64_MAX \<and> ns1 ! (i * 2 + 1) = u64_MAX" if "i < many s" "i \<in> set is" for i
      using nth[OF that(1)] that(2) by simp
    ultimately have "cleared s N f (set is) D e ns1" using ws assms(4,5) by (simp add: cleared_def e)
    then show ?thesis using that[of ns1 v D] ns1(1) False by (simp add: e)
  qed
qed

lemma entries_written:
  assumes "cleared s N f (fst ` set ups) D B ns1" and "appended off (many s) ups ns1 ns2" and "off + length (encoded_bytes ups) < u64_MAX"
    and "\<forall>x \<in> set ups. updated_to s g x" and "\<forall>i < many s. i \<notin> fst ` set ups \<longrightarrow>
      subset_values g (part_at s i) = subset_values f (part_at s i)"
    and "data_start S N \<le> off" and "D \<le> off" and "off + length (encoded_bytes ups) \<le> length e"
    and "\<And>o' n. data_start S N \<le> o' \<Longrightarrow> o' + n \<le> D \<Longrightarrow> take n (drop o' e) = take n (drop o' B)"
    and "\<And>o' n. off \<le> o' \<Longrightarrow> o' + n \<le> off + length (encoded_bytes ups) \<Longrightarrow>
      take n (drop o' e) = take n (drop (o' - off) (encoded_bytes ups))"
    and "i < many s"
  shows "data_start S N \<le> ns2 ! (i * 2) \<and> entry_holds e (ns2 ! (i * 2)) (ns2 ! (i * 2 + 1)) (subset_values g (part_at s i))"
proof (cases "i \<in> fst ` set ups")
  case False
  have same: "ns2 ! (i * 2) = ns1 ! (i * 2)" "ns2 ! (i * 2 + 1) = ns1 ! (i * 2 + 1)"
    using appendedD(5)[OF assms(2,11) False] by simp_all
  have c: "data_start S N \<le> ns1 ! (i * 2)" "entry_holds B (ns1 ! (i * 2)) (ns1 ! (i * 2 + 1)) (subset_values f (part_at s i))"
      "ns1 ! (i * 2) \<noteq> u64_MAX \<longrightarrow> ns1 ! (i * 2) + ns1 ! (i * 2 + 1) \<le> D"
    using assms(1,11) False by (simp_all add: cleared_def)
  have "entry_holds e (ns1 ! (i * 2)) (ns1 ! (i * 2 + 1)) (subset_values f (part_at s i))"
  proof (cases "ns1 ! (i * 2) = u64_MAX")
    case False
    then have "ns1 ! (i * 2) + ns1 ! (i * 2 + 1) \<le> D" using c(3) by simp
    then show ?thesis using c(2) False assms(9)[OF c(1)] assms(7,8) by (auto simp: entry_holds_def)
  qed (use c(2) in \<open>auto simp: entry_holds_def\<close>)
  then show ?thesis using same c(1) assms(5,11) False by simp
next
  case True
  then obtain x where x: "(i, x) \<in> set ups" by force
  then have u: "updated_to s g (i, x)" using assms(4) by blast
  show ?thesis
  proof (cases x)
    case None
    have "data_start S N \<le> u64_MAX" using assms(3,6) by linarith
    then show ?thesis using appendedD(4)[OF assms(2)] x u by (simp add: None entry_holds_def updated_to_def)
  next
    case (Some y)
    note a = appendedD(3)[OF assms(2) x[unfolded Some]]
    have "take (length y) (drop (ns2 ! (i * 2)) e) = y" using assms(10)[of "ns2 ! (i * 2)" "length y"] a by simp
    then show ?thesis using a u assms(3,6,8) by (auto simp: Some updated_to_def entry_holds_def)
  qed
qed

lemma index_encoded:
  assumes "index_fits s N" and "words s ns"
  obtains eI where "ab_encode (sh_index_codecs S) opt (index_bytes ns) (sharding_index_shape (per s)) = Inr eI" and "length eI = N"
  using index.roundtrip[of "sharding_index_shape (per s)" "index_bytes ns" opt] assms by (auto simp: index_fits_def)

lemma write_updated_ok:
  assumes "shard_fits s" and "index_fits s N" and "cleared s N f (fst ` set ups) D (held v) ns1"
    and "distinct (map fst ups)" and "\<forall>(i, x) \<in> set ups. i < many s" and "\<forall>x \<in> set ups. updated_to s g x"
    and "\<forall>i < many s. i \<notin> fst ` set ups \<longrightarrow> subset_values g (part_at s i) = subset_values f (part_at s i)"
    and "length (held v) + many s * L + N + 1 < M64"
  defines "off \<equiv> (case sh_index_location S of IndexStart \<Rightarrow> max D N | IndexEnd \<Rightarrow> D)"
  shows "\<exists>p ns2 v2. try_for_each append_entry ups (off, ns1) = Inr (p, ns2) \<and>
    write_updated S opt (sharding_index_shape (per s)) off ups ns2 v = Inr v2 \<and> encoder_state s g v2 ns2"
proof -
  let ?B = "held v" and ?out = "encoded_bytes ups"
  have c: "words s ns1" "D \<le> length ?B" "sh_index_location S = IndexEnd \<longrightarrow> length ?B \<le> D + N"
    using assms(3) by (simp_all add: cleared_def)
  have w: "length ns1 = many s * 2" "\<forall>n \<in> set ns1. n < M64" using c(1) by (simp_all add: words_def)
  have "length e \<le> L" if "(i, Some e) \<in> set ups" for i e using assms(6) that by (auto simp: updated_to_def)
  then have "length ?out \<le> length ups * L" by (rule encoded_bytes_le)
  moreover have "length ups \<le> many s"
  proof -
    have "fst ` set ups \<subseteq> {0..<many s}" using assms(5) by force
    then have "card (fst ` set ups) \<le> many s" using card_mono[of "{0..<many s}"] by simp
    then show ?thesis using distinct_card[OF assms(4)] by simp
  qed
  ultimately have out: "length ?out \<le> many s * L" by (meson le_trans mult_le_mono1)
  have offD: "D \<le> off" "data_start S N \<le> off" "off \<le> length ?B + N"
    using c(2) by (auto simp: off_def data_start_def split: sharding_index_location.splits)
  have small: "off + length ?out + 1 < M64" using offD(3) out assms(8) by linarith
  then have max: "off + length ?out < u64_MAX" "off + length ?out < M64" by (simp_all add: u64_MAX_def)
  obtain ns2 where ns2: "try_for_each append_entry ups (off, ns1) = Inr (off + length ?out, ns2)" "appended off (many s) ups ns1 ns2"
    using append_entries[OF w assms(4,5) max(2)] by blast
  have w2: "length ns2 = many s * 2" "words s ns2" using appendedD(1,2)[OF ns2(2)] by (simp_all add: words_def)
  note entries = entries_written[OF assms(3) ns2(2) max(1) assms(6,7) offD(2,1)]
  show ?thesis
  proof (cases "list_all (\<lambda>n. n = u64_MAX) ns2")
    case True
    then have m: "ns2 ! (i * 2) = u64_MAX" "ns2 ! (i * 2 + 1) = u64_MAX" if "i < many s" for i
      using that unfolding pairs_all[OF w2(1)] by simp_all
    have "subset_values g (part_at s i) = replicate (prod_list sub) (Raw fv)" if i: "i < many s" for i
    proof (cases "i \<in> fst ` set ups")
      case True
      then obtain x where x: "(i, x) \<in> set ups" by force
      show ?thesis
      proof (cases x)
        case None
        then show ?thesis using bspec[OF assms(6) x] by (simp add: updated_to_def)
      next
        case (Some y)
        then show ?thesis using appendedD(3)[OF ns2(2) x[unfolded Some]] m[OF i] max(1) by simp
      qed
    next
      case False
      then have "ns1 ! (i * 2) = u64_MAX" "ns1 ! (i * 2 + 1) = u64_MAX"
        using appendedD(5)[OF ns2(2) i False] m[OF i] by simp_all
      then show ?thesis using assms(3,7) i False by (auto simp: cleared_def entry_holds_def)
    qed
    then have "encoder_state s g None ns2" using assms(1) w2(2) m by (simp add: encoder_state_def)
    then show ?thesis using ns2(1) True by (simp add: write_updated_def mutex_erase_def)
  next
    case False
    obtain eI where eI: "ab_encode (sh_index_codecs S) opt (index_bytes ns2) (sharding_index_shape (per s)) = Inr eI" "length eI = N"
      by (rule index_encoded[OF assms(2) w2(2)])
    let ?e = "patched (sh_index_location S) off ?B ?out eI"
    have e: "length ?e \<le> length ?B + length ?out + N" "off + length ?out \<le> length ?e" "N \<le> length ?e" "index_of N ?e = eI"
        "\<And>o' n. data_start S N \<le> o' \<Longrightarrow> o' + n \<le> D \<Longrightarrow> take n (drop o' ?e) = take n (drop o' ?B)"
        "\<And>o' n. off \<le> o' \<Longrightarrow> o' + n \<le> off + length ?out \<Longrightarrow> take n (drop o' ?e) = take n (drop (o' - off) ?out)"
      using patched_end[where D = D and B = ?B and eI = eI and out = ?out] patched_start[where D = D and B = ?B and eI = eI and out = ?out] c(2,3) eI(2)
      by (cases "sh_index_location S"; simp add: off_def data_start_def index_of_def)+
    have "index_stored s N ?e ns2" using e(3,4) eI(1) w2(2) by (auto simp: index_stored_def)
    moreover have "length ?e + 1 < M64" using e(1) out assms(8) by linarith
    ultimately have "encoder_state s g (Some ?e) ns2"
      using assms(1,2) w2(2) entries[OF e(2,5,6)] by (auto simp: encoder_state_def intro!: exI[of _ N])
    moreover have "partial_many_loop ?B
        (case sh_index_location S of IndexStart \<Rightarrow> [(0, eI), (off, ?out)] | IndexEnd \<Rightarrow> [(off, ?out @ eI)]) = Some ?e" (is "partial_many_loop _ ?ws = _")
    proof -
      have "list_all write_fits ?ws"
        using small eI(2) assms(8) out c(2) by (cases "sh_index_location S") (simp_all add: write_fits_def off_def)
      moreover have "foldl overlay ?B ?ws = ?e" by (cases "sh_index_location S") (simp_all add: patched_def)
      ultimately show ?thesis by (simp only: partial_many_loop_eq)
    qed
    ultimately show ?thesis
      using ns2(1) False eI(1) by (simp add: write_updated_def mutex_partial_encode_many_def Let_def flip: encoded_bytes_def)
  qed
qed

subsection \<open>The partial encoder\<close>

text \<open>There is room for the new subchunks; with the index at the end, nothing lies between the subchunks and the index.\<close>

definition encoder_room :: "chunk_shape \<Rightarrow> bytes_value \<Rightarrow> u64 list \<Rightarrow> bool" where
  "encoder_room s v ns \<longleftrightarrow> (\<forall>N D. index_fits s N \<longrightarrow> max_data_offset ns = Inr D \<longrightarrow>
     length (held v) + many s * L + N + 1 < M64 \<and> (sh_index_location S = IndexEnd \<longrightarrow> length (held v) \<le> D + N))"

lemma encoder_end:
  assumes "encoder_state s f v ns"
  obtains D where "max_data_offset ns = Inr D" and "D \<le> length (held v)"
    and "\<And>i. i < many s \<Longrightarrow> \<not> (ns ! (i * 2) = u64_MAX \<and> ns ! (i * 2 + 1) = u64_MAX) \<Longrightarrow> ns ! (i * 2) + ns ! (i * 2 + 1) \<le> D"
proof -
  have st: "shard_fits s" "words s ns" using assms by (simp_all add: encoder_state_def)
  have "ns ! (i * 2) + ns ! (i * 2 + 1) \<le> length (held v)"
    if "i < many s" "\<not> (ns ! (i * 2) = u64_MAX \<and> ns ! (i * 2 + 1) = u64_MAX)" for i
    by (rule encoder_entry[OF assms that(1)]) (use that(2) in \<open>auto simp: entry_holds_def\<close>)
  moreover have "length (held v) < M64" using assms by (cases v) (simp_all add: encoder_state_def M64_def)
  ultimately show ?thesis using that by (rule max_data_offset_ok[OF st]) blast
qed

lemma encoder_subchunks:
  assumes "shard_fits s" and "\<And>c. c \<in> set cs \<Longrightarrow> inb c (per s)"
  shows "collect_res (map (encoder_subchunk (shard_grid s sub) (per s)) cs) = Inr (map (\<lambda>c. (lin (per s) c, part s c)) cs)"
proof -
  have "encoder_subchunk (shard_grid s sub) (per s) c = Inr (lin (per s) c, part s c)" if "c \<in> set cs" for c
    using ravel_indices_eq[OF inb_length[OF assms(2)[OF that]] fits_facts(7)[OF assms(1)]] assms(2)[OF that]
      subchunk_area_eq(2)[OF fits_facts(1)[OF assms(1)] assms(2)[OF that]]
    by (simp add: encoder_subchunk_def)
  then have "map (encoder_subchunk (shard_grid s sub) (per s)) cs = map Inr (map (\<lambda>c. (lin (per s) c, part s c)) cs)" by simp
  then show ?thesis by (simp only: collect_res_Inr_iff)
qed

lemma partial_encode_ok:
  assumes "encoder_state s f v ns" and "region s r" and "ab_ok t (prod_list (sub_shape r)) u" and "2 * (prod_list sub * z) < M64"
    and "encoder_room s v ns"
  shows "\<exists>v' ns'. sharding_partial_encode sched' al S s opt (SubsetIndexer r) u (v, ns) = Inr (v', ns') \<and>
    encoder_state s (overwrite f r (vals t u)) v' ns'"
proof -
  let ?g = "overwrite f r (vals t u)"
  have sf: "shard_fits s" using assms(1) by (simp add: encoder_state_def)
  have fr: "fits r s" using assms(2) by (simp add: region_def)
  obtain N where N: "index_fits s N" using sf by (auto simp: shard_fits_def)
  obtain D where D: "max_data_offset ns = Inr D" "D \<le> length (held v)"
      and ends: "\<And>i. i < many s \<Longrightarrow> \<not> (ns ! (i * 2) = u64_MAX \<and> ns ! (i * 2 + 1) = u64_MAX) \<Longrightarrow> ns ! (i * 2) + ns ! (i * 2 + 1) \<le> D"
    using encoder_end[OF assms(1)] by blast
  have room: "length (held v) + many s * L + N + 1 < M64" "sh_index_location S = IndexEnd \<longrightarrow> length (held v) \<le> D + N"
    using assms(5) N D(1) by (simp_all add: encoder_room_def)
  obtain cs0 where cs0: "subchunks_of_region (shard_grid s sub) r = Inr cs0" "distinct cs0"
      and meets0: "\<And>c. c \<in> set cs0 \<Longrightarrow> inb c (per s) \<and> elements (part s c) \<inter> elements r \<noteq> {}"
      and covers: "\<And>i. i \<in> elements r \<Longrightarrow> \<exists>c \<in> set cs0. i \<in> elements (part s c)"
    by (rule region_subchunks[OF sf assms(2)]) blast
  define cs where "cs = sched' cs0"
  have cs: "set cs = set cs0" "distinct cs"
    unfolding cs_def using schedule_set[OF schedules(2)] schedule_distinct[OF schedules(2) cs0(2)] by simp_all
  have meets: "inb c (per s)" "elements (part s c) \<inter> elements r \<noteq> {}" if "c \<in> set cs" for c using meets0[of c] that cs(1) by simp_all
  let ?ids = "map (lin (per s)) cs"
  have less: "\<forall>i \<in> set ?ids. i < many s" using meets(1) lin_less by auto
  obtain rs decs where rs: "stored_ranges ns (map fst (filter (\<lambda>(_, s). straddles r s) (map (\<lambda>c. (lin (per s) c, part s c)) cs))) = Inr rs"
      "decode_straddling S (mutex_decoder v) opt rs = Inr decs" and dec: "\<And>c. c \<in> set cs \<Longrightarrow> decoded_for s r f decs c"
    using straddling_decoded[OF assms(1,2) meets(1)] by blast
  obtain updated ups where ups: "collect_res (map (update_subchunk S decs r u) (map (\<lambda>c. (lin (per s) c, part s c)) cs)) = Inr updated"
      "collect_res (map (encode_updated al S opt) updated) = Inr ups" "map fst ups = ?ids" "\<forall>x \<in> set ups. updated_to s ?g x"
    using updates_ok[OF sf assms(2-4), where cs = cs and decs = decs and f = f and opt = opt] meets dec by blast
  have ids: "fst ` set ups = set ?ids" by (metis list.set_map ups(3))
  obtain ns1 v1 D1 where c: "try_for_each clear_entry ?ids ns = Inr ns1"
      "(if list_all (\<lambda>n. n = u64_MAX) ns1 then bind_res (mutex_erase v) (\<lambda>v. Inr (v, 0)) else Inr (v, D)) = Inr (v1, D1)"
      "cleared s N f (fst ` set ups) D1 (held v1) ns1" "length (held v1) \<le> length (held v)"
    unfolding ids using cleared_ok[OF assms(1) N less D(2) room(2) ends] by blast
  have inj: "inj_on (lin (per s)) (set cs)" using meets(1) unlin_lin by (metis inj_onI)
  then have d: "distinct (map fst ups)" using cs(2) by (simp add: ups(3) distinct_map)
  have same: "\<forall>i < many s. i \<notin> fst ` set ups \<longrightarrow> subset_values ?g (part_at s i) = subset_values f (part_at s i)"
  proof (intro allI impI)
    fix i assume i: "i < many s" "i \<notin> fst ` set ups"
    have "elements (part_at s i) \<inter> elements r = {}"
    proof (rule ccontr)
      assume "elements (part_at s i) \<inter> elements r \<noteq> {}"
      then obtain j where j: "j \<in> elements (part_at s i)" "j \<in> elements r" by blast
      then obtain c where "c \<in> set cs" "j \<in> elements (part s c)" using covers cs(1) by blast
      moreover then have "c = unlin (per s) i"
        using chunked.parts(5)[OF subchunk_chunked[OF fits_facts(1)[OF sf]], of c "unlin (per s) i" j] meets(1)[of c] j(1)
          part_at_facts(3)[OF sf i(1)] by (simp add: shard_grid_def)
      ultimately have "i \<in> set ?ids" using lin_unlin[OF i(1)] by force
      then show False using i(2) ids by simp
    qed
    then show "subset_values ?g (part_at s i) = subset_values f (part_at s i)"
      by (intro subset_values_cong[OF part_at_facts(4)[OF sf i(1)]]) (auto simp: overwrite_def)
  qed
  have lt: "\<forall>(i, x) \<in> set ups. i < many s" using less ids by force
  have room1: "length (held v1) + many s * L + N + 1 < M64" using c(4) room(1) by linarith
  let ?off = "case sh_index_location S of IndexStart \<Rightarrow> max D1 N | IndexEnd \<Rightarrow> D1"
  obtain p ns2 v2 where w: "try_for_each append_entry ups (?off, ns1) = Inr (p, ns2)"
      "write_updated S opt (sharding_index_shape (per s)) ?off ups ns2 v1 = Inr v2" "encoder_state s ?g v2 ns2"
    using write_updated_ok[OF sf N c(3) d lt ups(4) same room1, where opt = opt] by blast
  have le: "\<not> list_ex (\<lambda>(a, b). b < a) (zip (end_exc r) s)"
    using fr by (auto simp: list_ex_length end_exc_def fits_def wf_subset_nth wadd_eq not_less)
  have size: "compute_index_encoded_size (sh_index_codecs S) (sharding_index_shape (per s)) = Inr N" using N by (simp add: index_fits_def)
  have subs: "collect_res (map (encoder_subchunk (shard_grid s sub) (per s)) cs) = Inr (map (\<lambda>c. (lin (per s) c, part s c)) cs)"
    by (rule encoder_subchunks[OF sf]) (rule meets(1))
  have m: "map fst (map (\<lambda>c. (lin (per s) c, part s c)) cs) = ?ids" by simp
  have "sharding_partial_encode sched' al S s opt (SubsetIndexer r) u (v, ns) = Inr (v2, ns2)"
    unfolding sharding_partial_encode_def prod.case fits_facts(6)[OF sf] bind_res_simps D(1) ix_as_array_subset.simps option.case
      if_not_P[OF le] regular_new_divided[OF fits_facts(1)[OF sf]] map_err_simps cs0(1) cs_def[symmetric] subs rs ups(1,2) m c(1,2) size Let_def w(1,2)
    by simp
  then show ?thesis using w(3) by blast
qed

end

end
