(* ===== verification/Chain_Laws.thy ===== *)
theory Chain_Laws
  imports Codec_Chain
begin

text \<open>
  The contract of an array-to-array codec, and the proof that a codec chain over codecs that keep their
  contracts keeps the contract of an array-to-bytes codec: encoding and decoding invert each other, and the
  partial decoders compose, through the caches, to the elements of the indexer.
\<close>

subsection \<open>The contract of an array-to-array codec\<close>

locale array_to_array_codec =
  fixes A :: array_array_codec
    and acc :: "chunk_shape \<Rightarrow> array_bytes \<Rightarrow> bool"
    and iclass :: indexer_class
  assumes accepted: "acc s b \<Longrightarrow> shape_ok s \<and> ab_ok (aa_data_type A) (prod_list s) b \<and>
      (\<exists>rc. aa_recommended_concurrency A s = Inr rc) \<and> (\<exists>s'. aa_encoded_shape A s = Inr s' \<and> shape_ok s')"
    and roundtrip: "acc s b \<Longrightarrow> aa_encoded_shape A s = Inr s' \<Longrightarrow>
      \<exists>e. aa_encode A opt b s = Inr e \<and>
        (\<forall>opt' e'. ab_ok (aa_encoded_data_type A) (prod_list s') e' \<and>
             vals (aa_encoded_data_type A) e' = vals (aa_encoded_data_type A) e \<longrightarrow>
           (\<exists>b'. aa_decode A opt' e' s = Inr b' \<and> ab_ok (aa_data_type A) (prod_list s) b' \<and>
              vals (aa_data_type A) b' = vals (aa_data_type A) b))"
    and partial: "acc s b \<Longrightarrow> aa_encoded_shape A s = Inr s' \<Longrightarrow> aa_encode A opt b s = Inr e \<Longrightarrow>
      reads_array iclass (aa_encoded_data_type A) d s' (vals (aa_encoded_data_type A) e) \<Longrightarrow>
      \<exists>d'. aa_partial_decoder A opt' d s = Inr d' \<and> reads_array iclass (aa_data_type A) d' s (vals (aa_data_type A) b)"
    and fill_encoded: "acc s b \<Longrightarrow> aa_encoded_shape A s = Inr s' \<Longrightarrow> fill_ready (aa_data_type A) (aa_fill_value A) s \<Longrightarrow>
      fill_ready (aa_encoded_data_type A) (aa_encoded_fill_value A) s'"
    and partial_fill: "acc s b \<Longrightarrow> aa_encoded_shape A s = Inr s' \<Longrightarrow> fill_ready (aa_data_type A) (aa_fill_value A) s \<Longrightarrow>
      reads_array iclass (aa_encoded_data_type A) d s' (fill_vals (aa_encoded_data_type A) (aa_encoded_fill_value A) s') \<Longrightarrow>
      \<exists>d'. aa_partial_decoder A opt' d s = Inr d' \<and>
        reads_array iclass (aa_data_type A) d' s (fill_vals (aa_data_type A) (aa_fill_value A) s)"

subsection \<open>Caches\<close>

lemma reads_length: "reads_on R d e \<Longrightarrow> length e < M64"
  by (simp add: reads_on_def)

lemma with_bytes_cache_reads:
  "reads_on R d e \<Longrightarrow> R (FromStart 0 None) \<Longrightarrow> \<exists>d'. with_bytes_cache here d = Inr d' \<and> reads_on R d' e"
proof (cases here)
  case True
  assume r: "reads_on R d e" and all: "R (FromStart 0 None)"
  have "bytes_cache_new d = Inr (Some e)"
    using reads_partial_decode[OF r ranges_on_all[of R, OF all]] by (simp add: bytes_cache_new_def)
  moreover have "bytes_cache_decoder (Some e) = vec_decoder e" by (rule ext) (simp add: bytes_cache_decoder_def vec_decoder_def)
  ultimately show ?thesis using reads_vec[OF reads_length[OF r]] True by (simp add: with_bytes_cache_def)
qed (simp add: with_bytes_cache_def)

lemma with_bytes_cache_absent:
  "absent_on R d n \<Longrightarrow> R (FromStart 0 None) \<Longrightarrow> \<exists>d'. with_bytes_cache here d = Inr d' \<and> absent_on R d' n"
  using absent_partial_decode[OF _ ranges_on_all]
  by (cases here) (auto simp: with_bytes_cache_def bytes_cache_new_def bytes_cache_decoder_def absent_on_def)

text \<open>The whole chunk as an indexer.\<close>

lemma indexes_whole:
  assumes "shape_ok s" and "list_all ((<) 0) s"
  shows "indexes s (SubsetIndexer (new_with_shape s))" and "ix_elements s (SubsetIndexer (new_with_shape s)) = [0..<prod_list s]"
proof -
  have "subset_covered (new_with_shape s) s"
    using assms by (auto simp: subset_covered_def fits_def new_with_shape_def wf_subset_def is_empty_def shape_ok_def
        list_all_length list_ex_length)
  then show "indexes s (SubsetIndexer (new_with_shape s))" by (rule indexes_subset)
  show "ix_elements s (SubsetIndexer (new_with_shape s)) = [0..<prod_list s]"
    using box_unlin[of s] by (auto simp: new_with_shape_def lin_unlin comp_def intro: map_idI)
qed

lemma asked_whole:
  assumes "shape_ok s" and "list_all ((<) 0) s"
  shows "asked iclass s (SubsetIndexer (new_with_shape s))"
proof -
  have "prod_list s \<noteq> 0" using assms(2) by (auto simp: prod_list_eq_0 list_all_iff)
  then show ?thesis using indexes_whole[OF assms] by (simp add: asked_def del: ix_elements.simps)
qed

lemma with_array_cache_reads:
  assumes "reads_array iclass t d s vs" and "length vs = prod_list s" and "shape_ok s" and "list_all ((<) 0) s"
  shows "\<exists>d'. with_array_cache here d s t = Inr d' \<and> reads_array iclass t d' s vs"
proof (cases here)
  case True
  obtain b where b: "d (SubsetIndexer (new_with_shape s)) = Inr b" "ab_ok t (prod_list s) b"
      "vals t b = map ((!) vs) [0..<prod_list s]"
    using assms(1)[unfolded reads_array_def, rule_format, OF asked_whole[OF assms(3,4)]] indexes_whole(2)[OF assms(3,4)]
    by (auto simp del: ix_elements.simps)
  have v: "vals t b = vs" unfolding b(3) assms(2)[symmetric] by (rule map_nth)
  have "reads_array iclass t (array_cache_decoder b s t) s vs"
    unfolding reads_array_def array_cache_decoder_def v[symmetric]
    using extract_vals[OF _ _ b(2)] assms(3) by (auto simp: asked_def indexes_def shape_ok_def)
  then show ?thesis using True b(1) by (simp add: with_array_cache_def array_cache_new_def)
qed (use assms(1) in \<open>simp add: with_array_cache_def\<close>)

subsection \<open>The bytes-to-bytes codecs of a chain\<close>

type_synonym accepting_bytes = "(bytes_codec \<times> (bytes \<Rightarrow> bool)) list"

fun bytes_accept :: "accepting_bytes \<Rightarrow> bytes \<Rightarrow> bool" where
  "bytes_accept [] b \<longleftrightarrow> True"
| "bytes_accept ((C, accepts) # ps) b \<longleftrightarrow> accepts b \<and> (\<forall>e. bb_encode C b = Inr e \<longrightarrow> bytes_accept ps e)"

definition lawful_bytes :: "(byte_range \<Rightarrow> bool) \<Rightarrow> accepting_bytes \<Rightarrow> bool" where
  "lawful_bytes R ps \<longleftrightarrow> (\<forall>(C, accepts) \<in> set ps. bytes_to_bytes_codec C accepts R)"

lemma decode_bytes_append:
  "decode_bytes opt (ps @ qs) b = bind_res (decode_bytes opt ps b) (decode_bytes opt qs)"
  by (induction opt ps b rule: decode_bytes.induct) (simp_all add: bind_res_def split: sum.splits)

lemma partial_bytes_append:
  "partial_bytes ci opt (ps @ qs) i d = bind_res (partial_bytes ci opt ps i d) (\<lambda>(d, i). partial_bytes ci opt qs i d)"
  by (induction ci opt ps i d rule: partial_bytes.induct) (simp_all add: bind_res_def split: sum.splits)

text \<open>What the stages of the decoder make of the encoded value \<open>e\<close> of \<open>b\<close>.\<close>

definition bytes_inverse :: "(byte_range \<Rightarrow> bool) \<Rightarrow> (bytes_codec \<times> bytes_representation) list \<Rightarrow> bytes \<Rightarrow> bytes \<Rightarrow> bool" where
  "bytes_inverse R ps e b \<longleftrightarrow> length e < M64 \<and> (\<forall>opt. decode_bytes opt ps e = Inr b) \<and>
     (\<forall>opt ci i d. reads_on R d e \<longrightarrow> (\<exists>d'. partial_bytes ci opt ps i d = Inr (d', i + length ps) \<and> reads_on R d' b)) \<and>
     (\<forall>opt ci i d. absent_on R d (length e) \<longrightarrow>
        (\<exists>d'. partial_bytes ci opt ps i d = Inr (d', i + length ps) \<and> absent_on R d' (length b)))"

lemma bytes_chain:
  assumes "lawful_bytes R ps" and "bytes_accept ps b" and "length b < M64" and "length rs = length ps"
  shows "\<exists>e. encode_bytes (map fst ps) b = Inr e \<and> bytes_inverse R (rev (zip (map fst ps) rs)) e b"
  using assms
proof (induction ps arbitrary: b rs)
  case Nil
  then show ?case by (simp add: bytes_inverse_def)
next
  case (Cons p ps)
  obtain C accepts where p: "p = (C, accepts)" by fastforce
  obtain r rs' where rs: "rs = r # rs'" "length rs' = length ps" using Cons.prems(4) by (cases rs) auto
  have law: "bytes_to_bytes_codec C accepts R" and ps: "lawful_bytes R ps" and b: "accepts b"
    using Cons.prems(1,2) by (simp_all add: lawful_bytes_def p)
  have all: "R (FromStart 0 None)" by (rule bytes_to_bytes_codec.whole[OF law])
  obtain e1 where e1: "bb_encode C b = Inr e1" "length e1 < M64" "\<forall>validate r. bb_decode C validate r e1 = Inr b"
    using bytes_to_bytes_codec.roundtrip[OF law b] by auto
  have "bytes_accept ps e1" using Cons.prems(2) e1(1) by (simp add: p)
  then obtain e where e: "encode_bytes (map fst ps) e1 = Inr e" and inv: "bytes_inverse R (rev (zip (map fst ps) rs')) e e1"
    using Cons.IH[OF ps _ e1(2) rs(2)] by auto
  have n: "length (rev (zip (map fst ps) rs')) = length ps" using rs(2) by simp
  note inv' = inv[unfolded bytes_inverse_def n]
  have last: "\<exists>d''. partial_bytes ci opt [(C, r)] i d' = Inr (d'', i + 1) \<and> reads_on R d'' b" if r: "reads_on R d' e1" for ci opt i d'
  proof -
    obtain d where d: "with_bytes_cache (Some i = ci) d' = Inr d" "reads_on R d e1" using with_bytes_cache_reads[OF r all] by auto
    then show ?thesis using bytes_to_bytes_codec.partial[OF law b e1(1) d(2)] by simp
  qed
  have last_absent: "\<exists>d''. partial_bytes ci opt [(C, r)] i d' = Inr (d'', i + 1) \<and> absent_on R d'' (length b)"
    if r: "absent_on R d' (length e1)" for ci opt i d'
  proof -
    obtain d where d: "with_bytes_cache (Some i = ci) d' = Inr d" "absent_on R d (length e1)"
      using with_bytes_cache_absent[OF r all] by auto
    then show ?thesis using bytes_to_bytes_codec.partial_absent[OF law b e1(1) d(2)] by simp
  qed
  have "bytes_inverse R (rev (zip (map fst (p # ps)) rs)) e b"
    unfolding bytes_inverse_def
  proof (intro conjI allI impI)
    show "length e < M64" using inv' by simp
    show "decode_bytes opt (rev (zip (map fst (p # ps)) rs)) e = Inr b" for opt
      using inv' e1(3) by (simp add: p rs(1) decode_bytes_append)
    show "\<exists>d'. partial_bytes ci opt (rev (zip (map fst (p # ps)) rs)) i d =
        Inr (d', i + length (rev (zip (map fst (p # ps)) rs))) \<and> reads_on R d' b" if r: "reads_on R d e" for opt ci i d
    proof -
      obtain d' where "partial_bytes ci opt (rev (zip (map fst ps) rs')) i d = Inr (d', i + length ps)" "reads_on R d' e1"
        using inv' r by blast
      then show ?thesis using last[of d' ci opt "i + length ps"] rs(2) by (auto simp: p rs(1) partial_bytes_append)
    qed
    show "\<exists>d'. partial_bytes ci opt (rev (zip (map fst (p # ps)) rs)) i d =
        Inr (d', i + length (rev (zip (map fst (p # ps)) rs))) \<and> absent_on R d' (length b)"
      if r: "absent_on R d (length e)" for opt ci i d
    proof -
      obtain d' where "partial_bytes ci opt (rev (zip (map fst ps) rs')) i d = Inr (d', i + length ps)"
          "absent_on R d' (length e1)"
        using inv' r by blast
      then show ?thesis using last_absent[of d' ci opt "i + length ps"] rs(2) by (auto simp: p rs(1) partial_bytes_append)
    qed
  qed
  then show ?case using e1(1) e by (simp add: p)
qed

subsection \<open>The array-to-array codecs of a chain\<close>

type_synonym accepting_arrays = "(array_array_codec \<times> (chunk_shape \<Rightarrow> array_bytes \<Rightarrow> bool)) list"

text \<open>Every codec accepts what it is given, and \<open>P\<close> holds of what comes out at the end.\<close>

fun arrays_accept ::
    "(chunk_shape \<Rightarrow> array_bytes \<Rightarrow> bool) \<Rightarrow> accepting_arrays \<Rightarrow> chunk_shape \<Rightarrow> array_bytes \<Rightarrow> bool" where
  "arrays_accept P [] s b \<longleftrightarrow> P s b"
| "arrays_accept P ((A, acc) # ps) s b \<longleftrightarrow> acc s b \<and>
     (\<forall>opt e s'. aa_encode A opt b s = Inr e \<longrightarrow> aa_encoded_shape A s = Inr s' \<longrightarrow> arrays_accept P ps s' e)"

definition lawful_arrays :: "indexer_class \<Rightarrow> accepting_arrays \<Rightarrow> bool" where
  "lawful_arrays iclass ps \<longleftrightarrow> (\<forall>(A, acc) \<in> set ps. array_to_array_codec A acc iclass)"

text \<open>Each codec is bound to the data type and fill value that the one before it encodes to.\<close>

fun chained :: "array_array_codec list \<Rightarrow> data_type \<Rightarrow> fill_value \<Rightarrow> data_type \<Rightarrow> fill_value \<Rightarrow> bool" where
  "chained [] t fv t' fv' \<longleftrightarrow> t = t' \<and> fv = fv'"
| "chained (A # As) t fv t' fv' \<longleftrightarrow> aa_data_type A = t \<and> aa_fill_value A = fv \<and>
     chained As (aa_encoded_data_type A) (aa_encoded_fill_value A) t' fv'"

definition no_cache :: "usize option \<Rightarrow> nat \<Rightarrow> nat \<Rightarrow> bool" where
  "no_cache ci i n \<longleftrightarrow> (\<forall>k < n. ci \<noteq> Some (i + k))"

lemma no_cache_add: "no_cache ci i (m + n) \<longleftrightarrow> no_cache ci i m \<and> no_cache ci (i + m) n"
proof
  assume "no_cache ci i m \<and> no_cache ci (i + m) n"
  moreover have "k < m \<or> (\<exists>k' < n. k = m + k')" if "k < m + n" for k using that by presburger
  ultimately show "no_cache ci i (m + n)" by (auto simp: no_cache_def add.assoc)
qed (auto simp: no_cache_def add.assoc)

lemma decode_arrays_append:
  "decode_arrays opt (ps @ qs) b = bind_res (decode_arrays opt ps b) (decode_arrays opt qs)"
  by (induction opt ps b rule: decode_arrays.induct) (simp_all add: bind_res_def split: sum.splits)

lemma partial_arrays_append:
  "partial_arrays ci opt (ps @ qs) i d = bind_res (partial_arrays ci opt ps i d) (\<lambda>(d, i). partial_arrays ci opt qs i d)"
  by (induction ci opt ps i d rule: partial_arrays.induct) (simp_all add: bind_res_def split: sum.splits)

text \<open>What the stages of the decoder make of what \<open>b\<close> is encoded to, and of a decoder of it, when no cache is among them.\<close>

type_synonym array_stage_list = "(array_array_codec \<times> array_representation) list"

definition decodes_arrays :: "array_stage_list \<Rightarrow> chunk_shape \<Rightarrow> data_type \<Rightarrow> element list \<Rightarrow>
    chunk_shape \<Rightarrow> data_type \<Rightarrow> element list \<Rightarrow> bool" where
  "decodes_arrays ps s' t' vs' s t vs \<longleftrightarrow>
     (\<forall>opt e. ab_ok t' (prod_list s') e \<and> vals t' e = vs' \<longrightarrow>
        (\<exists>b. decode_arrays opt ps e = Inr b \<and> ab_ok t (prod_list s) b \<and> vals t b = vs))"

definition reads_arrays :: "indexer_class \<Rightarrow> array_stage_list \<Rightarrow> chunk_shape \<Rightarrow> data_type \<Rightarrow> element list \<Rightarrow>
    chunk_shape \<Rightarrow> data_type \<Rightarrow> element list \<Rightarrow> bool" where
  "reads_arrays iclass ps s' t' vs' s t vs \<longleftrightarrow>
     (\<forall>opt ci i d. no_cache ci i (length ps) \<longrightarrow> reads_array iclass t' d s' vs' \<longrightarrow>
        (\<exists>d'. partial_arrays ci opt ps i d = Inr (d', i + length ps) \<and> reads_array iclass t d' s vs))"

lemma decodes_arrays_append:
  "decodes_arrays ps s2 t2 v2 s1 t1 v1 \<Longrightarrow> decodes_arrays qs s1 t1 v1 s t v \<Longrightarrow> decodes_arrays (ps @ qs) s2 t2 v2 s t v"
  unfolding decodes_arrays_def decode_arrays_append by (metis bind_res_Inr)

lemma reads_arrays_append:
  assumes "reads_arrays iclass ps s2 t2 v2 s1 t1 v1" and "reads_arrays iclass qs s1 t1 v1 s t v"
  shows "reads_arrays iclass (ps @ qs) s2 t2 v2 s t v"
  unfolding reads_arrays_def
proof (intro allI impI)
  fix opt ci i d assume n: "no_cache ci i (length (ps @ qs))" and d: "reads_array iclass t2 d s2 v2"
  have n: "no_cache ci i (length ps)" "no_cache ci (i + length ps) (length qs)" using n by (simp_all add: no_cache_add)
  obtain d1 where d1: "partial_arrays ci opt ps i d = Inr (d1, i + length ps)" "reads_array iclass t1 d1 s1 v1"
    using assms(1)[unfolded reads_arrays_def] n(1) d by blast
  obtain d2 where "partial_arrays ci opt qs (i + length ps) d1 = Inr (d2, i + length ps + length qs)" "reads_array iclass t d2 s v"
    using assms(2)[unfolded reads_arrays_def] n(2) d1(2) by blast
  then show "\<exists>d'. partial_arrays ci opt (ps @ qs) i d = Inr (d', i + length (ps @ qs)) \<and> reads_array iclass t d' s v"
    using d1(1) by (simp add: partial_arrays_append add.assoc)
qed

lemma reads_stage:
  assumes "\<And>opt d. reads_array iclass t' d s' vs' \<Longrightarrow>
      \<exists>d'. aa_partial_decoder A opt d s = Inr d' \<and> reads_array iclass t d' s vs"
  shows "reads_arrays iclass [(A, s, t, fv)] s' t' vs' s t vs"
  unfolding reads_arrays_def
proof (intro allI impI)
  fix opt ci i d assume n: "no_cache ci i (length [(A, s, t, fv)])" and d: "reads_array iclass t' d s' vs'"
  obtain d' where "aa_partial_decoder A opt d s = Inr d'" "reads_array iclass t d' s vs" using assms[OF d, of opt] by blast
  moreover have "Some i \<noteq> ci" using n by (auto simp: no_cache_def)
  ultimately show "\<exists>d'. partial_arrays ci opt [(A, s, t, fv)] i d = Inr (d', i + length [(A, s, t, fv)]) \<and> reads_array iclass t d' s vs"
    by (simp add: with_array_cache_def)
qed

lemma decodes_stage:
  assumes "\<And>opt e. ab_ok t' (prod_list s') e \<Longrightarrow> vals t' e = vs' \<Longrightarrow>
      \<exists>b. aa_decode A opt e s = Inr b \<and> ab_ok t (prod_list s) b \<and> vals t b = vs"
  shows "decodes_arrays [(A, s, r)] s' t' vs' s t vs"
  unfolding decodes_arrays_def
proof (intro allI impI, elim conjE)
  fix opt e assume "ab_ok t' (prod_list s') e" and "vals t' e = vs'"
  from assms[OF this, of opt] show "\<exists>b. decode_arrays opt [(A, s, r)] e = Inr b \<and> ab_ok t (prod_list s) b \<and> vals t b = vs"
    by auto
qed

definition arrays_inverse :: "indexer_class \<Rightarrow> array_stage_list \<Rightarrow> array_representation \<Rightarrow> array_bytes \<Rightarrow> array_representation \<Rightarrow> array_bytes \<Rightarrow> bool" where
  "arrays_inverse iclass ps r' e r b \<longleftrightarrow> (case (r', r) of ((s', t', fv'), (s, t, fv)) \<Rightarrow>
     decodes_arrays ps s' t' (vals t' e) s t (vals t b) \<and> 
     reads_arrays iclass ps s' t' (vals t' e) s t (vals t b) \<and>
     (fill_ready t fv s \<longrightarrow> fill_ready t' fv' s' \<and> reads_arrays iclass ps s' t' (fill_vals t' fv' s') s t (fill_vals t fv s)))"

lemma arrays_inverse_decodes:
  assumes "arrays_inverse iclass ps (s', t', fv') e' (s, t, fv) b" and "ab_ok t' (prod_list s') e" and "vals t' e = vals t' e'"
  obtains b' where "decode_arrays opt ps e = Inr b'" and "ab_ok t (prod_list s) b'" and "vals t b' = vals t b"
proof -
  have "decodes_arrays ps s' t' (vals t' e') s t (vals t b)" using assms(1) by (simp add: arrays_inverse_def)
  then show ?thesis using assms(2,3) that unfolding decodes_arrays_def by blast
qed

lemma arrays_inverse_Nil: "arrays_inverse iclass [] r e r e"
  by (auto simp: arrays_inverse_def decodes_arrays_def reads_arrays_def split: prod.splits)

lemma arrays_inverse_append:
  "arrays_inverse iclass ps r2 e2 r1 e1 \<Longrightarrow> arrays_inverse iclass qs r1 e1 r e \<Longrightarrow> arrays_inverse iclass (ps @ qs) r2 e2 r e"
  unfolding arrays_inverse_def
  by (auto split: prod.splits intro: decodes_arrays_append reads_arrays_append)

lemma arrays_inverse_stage:
  assumes law: "array_to_array_codec A acc iclass" and acc: "acc s b" and s': "aa_encoded_shape A s = Inr s'"
    and e: "aa_encode A opt b s = Inr e"
  shows "arrays_inverse iclass [(A, s, aa_data_type A, aa_fill_value A)]
    (s', aa_encoded_data_type A, aa_encoded_fill_value A) e (s, aa_data_type A, aa_fill_value A) b"
proof -
  note A = array_to_array_codec.roundtrip[OF law acc s', of opt] array_to_array_codec.partial[OF law acc s' e]
    array_to_array_codec.fill_encoded[OF law acc s'] array_to_array_codec.partial_fill[OF law acc s']
  show ?thesis
    unfolding arrays_inverse_def using A
    by (auto simp: e intro!: reads_stage decodes_stage)
qed

lemma arrays_chain:
  assumes "lawful_arrays iclass ps" and "arrays_accept P ps s b" and "chained (map fst ps) t fv t' fv'"
  shows "\<exists>e s' rs. encode_arrays opt (map fst ps) b s = Inr (e, s') \<and> P s' e \<and>
     array_representations_from (map fst ps) (s, t, fv) = Inr rs \<and> length rs = length ps + 1 \<and>
     hd rs = (s, t, fv) \<and> last rs = (s', t', fv') \<and>
     arrays_inverse iclass (rev (zip (map fst ps) rs)) (s', t', fv') e (s, t, fv) b \<and>
     (\<forall>(A, s, _) \<in> set (zip (map fst ps) rs). \<exists>rc. aa_recommended_concurrency A s = Inr rc)"
  using assms
proof (induction ps arbitrary: s b t fv)
  case Nil
  then show ?case by (auto simp: arrays_inverse_Nil)
next
  case (Cons p ps)
  obtain A acc where p: "p = (A, acc)" by fastforce
  have law: "array_to_array_codec A acc iclass" and ps: "lawful_arrays iclass ps" and acc: "acc s b"
    using Cons.prems(1,2) by (simp_all add: lawful_arrays_def p)
  have A: "aa_data_type A = t" "aa_fill_value A = fv"
    and ch: "chained (map fst ps) (aa_encoded_data_type A) (aa_encoded_fill_value A) t' fv'"
    using Cons.prems(3) by (simp_all add: p)
  obtain s1 rc where s1: "aa_encoded_shape A s = Inr s1" and rc: "aa_recommended_concurrency A s = Inr rc"
    using array_to_array_codec.accepted[OF law acc] by blast
  obtain e1 where e1: "aa_encode A opt b s = Inr e1" using array_to_array_codec.roundtrip[OF law acc s1] by blast
  have "arrays_accept P ps s1 e1" using Cons.prems(2) e1 s1 by (auto simp: p)
  from Cons.IH[OF ps this ch] obtain e s' rs where r: "encode_arrays opt (map fst ps) e1 s1 = Inr (e, s')" "P s' e"
      "array_representations_from (map fst ps) (s1, aa_encoded_data_type A, aa_encoded_fill_value A) = Inr rs"
      "length rs = length ps + 1" "hd rs = (s1, aa_encoded_data_type A, aa_encoded_fill_value A)" "last rs = (s', t', fv')"
      "arrays_inverse iclass (rev (zip (map fst ps) rs)) (s', t', fv') e (s1, aa_encoded_data_type A, aa_encoded_fill_value A) e1"
      "\<forall>(A, s, _) \<in> set (zip (map fst ps) rs). \<exists>rc. aa_recommended_concurrency A s = Inr rc"
    by blast
  have "arrays_inverse iclass (rev (zip (map fst (p # ps)) ((s, t, fv) # rs))) (s', t', fv') e (s, t, fv) b"
    using arrays_inverse_append[OF r(7) arrays_inverse_stage[OF law acc s1 e1]] by (simp add: p A)
  moreover have "last ((s, t, fv) # rs) = (s', t', fv')" using r(4,6) by (cases rs) simp_all
  ultimately show ?case
    using r(1-4,8) e1 s1 rc by (intro exI[of _ e] exI[of _ s'] exI[of _ "(s, t, fv) # rs"]) (simp add: p)
qed

subsection \<open>A chain of lawful codecs\<close>

text \<open>
  The position of the cache of the partial decoder counts the decoders before it: the bytes-to-bytes codecs, the array-to-bytes codec, the
  array-to-array codecs.  A cache directly before an array-to-array codec is given the shape and the data type that the codec decodes to,
  not those that it decodes from (\<open>codec_chain.rs\<close>, the loop over the array-to-array codecs of \<open>partial_decoder\<close>).
\<close>

definition array_cache_between :: "codec_chain_bound \<Rightarrow> bool" where
  "array_cache_between K \<longleftrightarrow>
     (\<exists>i. cb_cache_index K = Some i \<and> length (cb_bytes_to_bytes K) < i \<and>
        i \<le> length (cb_bytes_to_bytes K) + length (cb_array_to_array K))"

locale lawful_chain =
  fixes K :: codec_chain_bound
    and as :: accepting_arrays
    and acc0 :: "chunk_shape \<Rightarrow> array_bytes \<Rightarrow> bool"
    and bs :: accepting_bytes
    and R0 R :: "byte_range \<Rightarrow> bool"
    and iclass :: indexer_class
  assumes arrays: "cb_array_to_array K = map fst as" "lawful_arrays iclass as"
    and bytes: "cb_bytes_to_bytes K = map fst bs" "lawful_bytes R bs"
    and array_to_bytes: "array_to_bytes_codec (cb_array_to_bytes K) (ab_data_type (cb_array_to_bytes K))
      (ab_fill_value (cb_array_to_bytes K)) acc0 R0 iclass"
    and ranges: "R0 r \<Longrightarrow> R r" "R (FromStart 0 None)"
    and bound: "chained (map fst as) (chain_data_type K) (chain_fill_value K)
      (ab_data_type (cb_array_to_bytes K)) (ab_fill_value (cb_array_to_bytes K))"
begin

definition final_accepts :: "chunk_shape \<Rightarrow> array_bytes \<Rightarrow> bool" where
  "final_accepts s b \<longleftrightarrow> acc0 s b \<and> (\<forall>opt e. ab_encode (cb_array_to_bytes K) opt b s = Inr e \<longrightarrow> bytes_accept bs e)"

definition chain_accepts :: "chunk_shape \<Rightarrow> array_bytes \<Rightarrow> bool" where
  "chain_accepts s b \<longleftrightarrow> list_all ((<) 0) s \<and> shape_ok s \<and> ab_ok (chain_data_type K) (prod_list s) b \<and>
     countable_size (chain_data_type K) (prod_list s) \<and>
     (\<forall>b'. ab_ok (chain_data_type K) (prod_list s) b' \<and> vals (chain_data_type K) b' = vals (chain_data_type K) b \<longrightarrow>
        arrays_accept final_accepts as s b')"

abbreviation C :: array_codec where "C \<equiv> cb_array_to_bytes K"
abbreviation t :: data_type where "t \<equiv> chain_data_type K"
abbreviation fv :: fill_value where "fv \<equiv> chain_fill_value K"

lemma chain_accepts_vals:
  "chain_accepts s b \<Longrightarrow> ab_ok t (prod_list s) b' \<Longrightarrow> vals t b' = vals t b \<Longrightarrow> chain_accepts s b'"
  by (simp add: chain_accepts_def)

lemma chain_validates:
  "chain_accepts s b \<Longrightarrow> ab_ok t (prod_list s) b' \<Longrightarrow> validate_bytes b' (wprod s) t = Inr ()"
  using validate_ok[of t "prod_list s" b'] by (simp add: chain_accepts_def shape_ok_def wprod_eq)

lemma length_bytes_representations: "length (bytes_representations_from Cs r) = length Cs + 1"
  by (induction Cs arbitrary: r) simp_all

lemma zip_rev_drop:
  assumes "length rs = length xs + 1"
  shows "zip (rev xs) (drop 1 (rev rs)) = rev (zip xs rs)"
proof -
  have "zip xs rs = zip xs (take (length xs) rs)" using zip_append1[of xs "[]" rs] by simp
  moreover have "drop 1 (rev rs) = rev (take (length xs) rs)" using assms by (simp add: rev_take)
  ultimately show ?thesis using assms by (simp add: zip_rev)
qed

lemma chain_encoded:
  assumes acc: "chain_accepts s b"
  obtains e e1 s' e0 ars r brs where
    "chain_encode K opt b s = Inr e" and
    "final_accepts s' e1" and "ab_encode C opt e1 s' = Inr e0" and
    "get_representations K s = Inr (ars, brs)" and "fst (last ars) = s'" and
    "fst (hd ars) = s" and "fst (snd (hd ars)) = t" and
    "get_array_representations K s = Inr ars" and "get_bytes_representations K s' = Inr brs" and
    "ab_encoded_representation C s' = Inr r" and
    "bytes_inverse R (bytes_stages K brs) e e0" and "length (bytes_stages K brs) = length bs" and
    "length (array_stages K ars) = length as" and
    "arrays_inverse iclass (array_stages K ars) (s', ab_data_type C, ab_fill_value C) e1 (s, t, fv) b" and
    "\<forall>(A, s, _) \<in> set (array_stages K ars). \<exists>rc. aa_recommended_concurrency A s = Inr rc"
proof -
  have "arrays_accept final_accepts as s b" and ok: "ab_ok t (prod_list s) b" using acc by (auto simp: chain_accepts_def)
  from arrays_chain[OF arrays(2) this(1) bound, of opt]
  obtain e1 s' ars where a: "encode_arrays opt (map fst as) b s = Inr (e1, s')" "final_accepts s' e1"
      "array_representations_from (map fst as) (s, t, fv) = Inr ars" "length ars = length as + 1" "hd ars = (s, t, fv)"
      "last ars = (s', ab_data_type C, ab_fill_value C)"
      "arrays_inverse iclass (rev (zip (map fst as) ars)) (s', ab_data_type C, ab_fill_value C) e1 (s, t, fv) b"
      "\<forall>(A, s, _) \<in> set (zip (map fst as) ars). \<exists>rc. aa_recommended_concurrency A s = Inr rc"
    by blast
  have acc0: "acc0 s' e1" using a(2) by (simp add: final_accepts_def)
  obtain e0 where e0: "ab_encode C opt e1 s' = Inr e0" "length e0 < M64"
    using array_to_bytes_codec.roundtrip[OF array_to_bytes acc0, of opt] by blast
  obtain r where r: "ab_encoded_representation C s' = Inr r"
    using array_to_bytes_codec.accepted[OF array_to_bytes acc0] by blast
  define brs where "brs = bytes_representations_from (map fst bs) r"
  have lb: "length brs = length bs + 1" by (simp add: brs_def length_bytes_representations)
  obtain rb rbs where rb: "brs = rb # rbs" "length rbs = length bs" using lb by (cases brs) auto
  have ba: "bytes_accept bs e0" using a(2) e0(1) by (auto simp: final_accepts_def)
  have z: "zip (map fst bs) brs = zip (map fst bs) (take (length bs) brs)" using zip_append1[of "map fst bs" "[]" brs] by simp
  obtain e where e: "encode_bytes (map fst bs) e0 = Inr e"
      "bytes_inverse R (rev (zip (map fst bs) (take (length bs) brs))) e e0"
    using bytes_chain[OF bytes(2) ba e0(2), of "take (length bs) brs"] lb by auto
  have st: "bytes_stages K brs = rev (zip (map fst bs) brs)" "array_stages K ars = rev (zip (map fst as) ars)"
    using zip_rev_drop[of brs "map fst bs"] zip_rev_drop[of ars "map fst as"] lb a(4)
    by (simp_all add: bytes_stages_def array_stages_def bytes(1) arrays(1))
  show ?thesis
  proof (rule that)
    show "chain_encode K opt b s = Inr e"
      using chain_validates[OF acc ok] a(1) e0(1) r e(1) by (simp add: chain_encode_def arrays(1) bytes(1))
    show ars: "get_array_representations K s = Inr ars" using a(3) by (simp add: get_array_representations_def arrays(1))
    show brs: "get_bytes_representations K s' = Inr brs" using r by (simp add: get_bytes_representations_def brs_def bytes(1))
    show "get_representations K s = Inr (ars, brs)" using ars brs a(6) by (simp add: get_representations_def)
    show "bytes_inverse R (bytes_stages K brs) e e0" using e(2) by (simp add: st z)
    show "length (bytes_stages K brs) = length bs" "length (array_stages K ars) = length as"
      using lb a(4) by (simp_all add: st)
    show "arrays_inverse iclass (array_stages K ars) (s', ab_data_type C, ab_fill_value C) e1 (s, t, fv) b" using a(7) by (simp add: st)
    show "\<forall>(A, s, _) \<in> set (array_stages K ars). \<exists>rc. aa_recommended_concurrency A s = Inr rc" using a(8) by (simp add: st)
  qed (use a e0 r in simp_all)
qed

lemma chain_decodes:
  assumes "chain_accepts s b" and "chain_encode K opt b s = Inr e"
  shows "length e < M64 \<and> (\<exists>b'. chain_decode K opt' e s = Inr b' \<and> chain_accepts s b' \<and> vals t b' = vals t b)"
proof -
  obtain e1 s' e0 ars brs where c: "final_accepts s' e1" "ab_encode C opt e1 s' = Inr e0"
      "get_representations K s = Inr (ars, brs)" "fst (last ars) = s'" "fst (hd ars) = s" "fst (snd (hd ars)) = t"
      "bytes_inverse R (bytes_stages K brs) e e0"
      "arrays_inverse iclass (array_stages K ars) (s', ab_data_type C, ab_fill_value C) e1 (s, t, fv) b"
    by (rule chain_encoded[OF assms(1), of opt]) (use assms(2) in simp)
  have acc0: "acc0 s' e1" using c(1) by (simp add: final_accepts_def)
  obtain e1' where e1': "ab_decode C opt' e0 s' = Inr e1'" "ab_ok (ab_data_type C) (prod_list s') e1'"
      "vals (ab_data_type C) e1' = vals (ab_data_type C) e1"
    using array_to_bytes_codec.decoded_vals[OF array_to_bytes acc0 c(2), of opt'] by blast
  obtain b' where b': "decode_arrays opt' (array_stages K ars) e1' = Inr b'" "ab_ok t (prod_list s) b'" "vals t b' = vals t b"
    by (rule arrays_inverse_decodes[OF c(8) e1'(2,3)])
  have "chain_decode K opt' e s = Inr b'"
    using c(3-7) e1'(1) b'(1) chain_validates[OF assms(1) b'(2)] by (simp add: chain_decode_def bytes_inverse_def)
  then show ?thesis using chain_accepts_vals[OF assms(1) b'(2,3)] b'(3) c(7) by (simp add: bytes_inverse_def)
qed

lemma chain_decodes_into:
  assumes "chain_accepts s b" and "chain_encode K opt b s = Inr e" and "target_into t a q T" and "sub_shape q = s"
  shows "\<exists>T'. chain_decode_into K opt' e s T = Inr T' \<and> target_ok t a q T' \<and>
    vals t (target_bytes T') = scatter (vals t (target_bytes T)) (sub_idx a q) (vals t b)"
proof -
  obtain e1 s' e0 ars brs where c: "final_accepts s' e1" "ab_encode C opt e1 s' = Inr e0"
      "get_representations K s = Inr (ars, brs)" "fst (last ars) = s'" "fst (hd ars) = s" "fst (snd (hd ars)) = t"
      "bytes_inverse R (bytes_stages K brs) e e0" "length (bytes_stages K brs) = length bs" "length (array_stages K ars) = length as"
      "arrays_inverse iclass (array_stages K ars) (s', ab_data_type C, ab_fill_value C) e1 (s, t, fv) b" "get_array_representations K s = Inr ars"
    by (rule chain_encoded[OF assms(1), of opt]) (use assms(2) in simp)
  have acc0: "acc0 s' e1" using c(1) by (simp add: final_accepts_def)
  have d: "decode_bytes opt' (bytes_stages K brs) e = Inr e0" using c(7) by (simp add: bytes_inverse_def)
  have e: "e = e0" if "bs = []" using d c(8) that by simp
  show ?thesis
  proof (cases "as = []")
    case True
    then have st: "array_stages K ars = []" by (simp add: array_stages_def arrays(1))
    have ta: "t = ab_data_type C" using bound True by simp
    have "s' = s" using c(4,11) True by (auto simp: get_array_representations_def arrays(1))
    moreover have "ab_ok (ab_data_type C) (prod_list s') e1" using array_to_bytes_codec.accepted[OF array_to_bytes acc0] by blast
    ultimately have v: "vals t e1 = vals t b" "s' = s"
      using c(10) st ta by (auto simp: arrays_inverse_def decodes_arrays_def)
    from array_to_bytes_codec.into[OF array_to_bytes acc0 c(2), of a q T opt'] assms(3,4) c(3-6) d e True v ta
    show ?thesis by (cases "bs = []") (auto simp: chain_decode_into_def arrays(1) bytes(1))
  next
    case False
    obtain e1' where e1': "ab_decode C opt' e0 s' = Inr e1'" "ab_ok (ab_data_type C) (prod_list s') e1'"
        "vals (ab_data_type C) e1' = vals (ab_data_type C) e1"
      using array_to_bytes_codec.decoded_vals[OF array_to_bytes acc0 c(2), of opt'] by blast
    obtain b' where b': "decode_arrays opt' (array_stages K ars) e1' = Inr b'" "ab_ok t (prod_list s) b'" "vals t b' = vals t b"
      by (rule arrays_inverse_decodes[OF c(10) e1'(2,3)])
    from into_target_vals[OF assms(3,4) b'(2)] show ?thesis
      using False c(3-6) d e1'(1) b'(1,3) chain_validates[OF assms(1) b'(2)]
      by (simp add: chain_decode_into_def arrays(1) bytes(1))
  qed
qed

lemma no_array_cache: "\<not> array_cache_between K \<Longrightarrow> no_cache (cb_cache_index K) (length bs + 1) (length as)"
  unfolding no_cache_def array_cache_between_def arrays(1) bytes(1) length_map
proof (intro allI impI notI)
  fix k
  assume "\<nexists>i. cb_cache_index K = Some i \<and> length bs < i \<and> i \<le> length bs + length as"
    and "k < length as" and "cb_cache_index K = Some (length bs + 1 + k)"
  then show False by simp
qed

text \<open>From a decoder behind the bytes-to-bytes codecs to the decoder of the chain.\<close>

lemma chain_partial:
  assumes "chain_accepts s b" and "\<not> array_cache_between K"
    and "get_representations K s = Inr (ars, brs)" and "fst (last ars) = s'" and "fst (hd ars) = s" and "fst (snd (hd ars)) = t"
    and "partial_bytes (cb_cache_index K) opt' (bytes_stages K brs) 0 d = Inr (d0, length bs)"
    and "with_bytes_cache (Some (length bs) = cb_cache_index K) d0 = Inr d1"
    and "ab_partial_decoder C opt' d1 s' = Inr d2"
    and "reads_array iclass (ab_data_type C) d2 s' vs'"
    and "length (array_stages K ars) = length as"
    and "reads_arrays iclass (array_stages K ars) s' (ab_data_type C) vs' s t vs" and "length vs = prod_list s"
  shows "\<exists>d'. chain_partial_decoder K opt' d s = Inr d' \<and> reads_array iclass t d' s vs"
proof -
  obtain d3 where d3: "partial_arrays (cb_cache_index K) opt' (array_stages K ars) (length bs + 1) d2 =
      Inr (d3, length bs + 1 + length as)" "reads_array iclass t d3 s vs"
    using assms(12)[unfolded reads_arrays_def] assms(10,11) no_array_cache[OF assms(2)] by metis
  have s: "shape_ok s" "list_all ((<) 0) s" using assms(1) by (simp_all add: chain_accepts_def)
  obtain d4 where "with_array_cache (Some (length bs + 1 + length as) = cb_cache_index K) d3 s t = Inr d4" "reads_array iclass t d4 s vs"
    using with_array_cache_reads[OF d3(2) assms(13) s] by blast
  then show ?thesis using assms(3-9) d3(1) by (simp add: chain_partial_decoder_def)
qed

lemma chain_partial_some:
  assumes "chain_accepts s b" and "chain_encode K opt b s = Inr e" and "reads_on R d e" and "\<not> array_cache_between K"
  shows "\<exists>d'. chain_partial_decoder K opt' d s = Inr d' \<and> reads_array iclass t d' s (vals t b)"
proof -
  obtain e1 s' e0 ars brs where c: "final_accepts s' e1" "ab_encode C opt e1 s' = Inr e0"
      "get_representations K s = Inr (ars, brs)" "fst (last ars) = s'" "fst (hd ars) = s" "fst (snd (hd ars)) = t"
      "bytes_inverse R (bytes_stages K brs) e e0" "length (bytes_stages K brs) = length bs" "length (array_stages K ars) = length as"
      "arrays_inverse iclass (array_stages K ars) (s', ab_data_type C, ab_fill_value C) e1 (s, t, fv) b"
    by (rule chain_encoded[OF assms(1), of opt]) (use assms(2) in simp)
  have acc0: "acc0 s' e1" using c(1) by (simp add: final_accepts_def)
  obtain d0 where d0: "partial_bytes (cb_cache_index K) opt' (bytes_stages K brs) 0 d = Inr (d0, length bs)" "reads_on R d0 e0"
    using c(7,8) assms(3) unfolding bytes_inverse_def by (metis add_0)
  obtain d1 where d1: "with_bytes_cache (Some (length bs) = cb_cache_index K) d0 = Inr d1" "reads_on R d1 e0"
    using with_bytes_cache_reads[OF d0(2) ranges(2)] by blast
  obtain d2 where d2: "ab_partial_decoder C opt' d1 s' = Inr d2" "reads_array iclass (ab_data_type C) d2 s' (vals (ab_data_type C) e1)"
    using array_to_bytes_codec.partial[OF array_to_bytes acc0 c(2) reads_on_mono[OF d1(2) ranges(1)]] by blast
  have "reads_arrays iclass (array_stages K ars) s' (ab_data_type C) (vals (ab_data_type C) e1) s t (vals t b)"
    using c(10) by (simp add: arrays_inverse_def)
  moreover have "length (vals t b) = prod_list s" using assms(1) by (auto simp: chain_accepts_def intro: length_vals)
  ultimately show ?thesis using chain_partial[OF assms(1,4) c(3-6) d0(1) d1(1) d2 c(9)] by blast
qed

lemma chain_partial_fill:
  assumes "chain_accepts s b" and "chain_encode K opt b s = Inr e" and "absent_on R d (length e)" and "fill_ready t fv s"
    and "\<not> array_cache_between K"
  shows "\<exists>d'. chain_partial_decoder K opt' d s = Inr d' \<and> reads_array iclass t d' s (fill_vals t fv s)"
proof -
  obtain e1 s' e0 ars brs where c: "final_accepts s' e1" "ab_encode C opt e1 s' = Inr e0"
      "get_representations K s = Inr (ars, brs)" "fst (last ars) = s'" "fst (hd ars) = s" "fst (snd (hd ars)) = t"
      "bytes_inverse R (bytes_stages K brs) e e0" "length (bytes_stages K brs) = length bs" "length (array_stages K ars) = length as"
      "arrays_inverse iclass (array_stages K ars) (s', ab_data_type C, ab_fill_value C) e1 (s, t, fv) b"
    by (rule chain_encoded[OF assms(1), of opt]) (use assms(2) in simp)
  have acc0: "acc0 s' e1" using c(1) by (simp add: final_accepts_def)
  obtain d0 where d0: "partial_bytes (cb_cache_index K) opt' (bytes_stages K brs) 0 d = Inr (d0, length bs)"
      "absent_on R d0 (length e0)"
    using c(7,8) assms(3) unfolding bytes_inverse_def by (metis add_0)
  obtain d1 where d1: "with_bytes_cache (Some (length bs) = cb_cache_index K) d0 = Inr d1" "absent_on R d1 (length e0)"
    using with_bytes_cache_absent[OF d0(2) ranges(2)] by blast
  have f: "fill_ready (ab_data_type C) (ab_fill_value C) s'"
      "reads_arrays iclass (array_stages K ars) s' (ab_data_type C) (fill_vals (ab_data_type C) (ab_fill_value C) s') s t (fill_vals t fv s)"
    using c(10) assms(4) by (simp_all add: arrays_inverse_def)
  obtain d2 where d2: "ab_partial_decoder C opt' d1 s' = Inr d2"
      "reads_array iclass (ab_data_type C) d2 s' (fill_vals (ab_data_type C) (ab_fill_value C) s')"
    using array_to_bytes_codec.partial_fill[OF array_to_bytes acc0 c(2) absent_on_mono[OF d1(2) ranges(1)] f(1)] by blast
  show ?thesis using chain_partial[OF assms(1,5) c(3-6) d0(1) d1(1) d2 c(9) f(2)] by simp
qed

lemma collect_concurrency_ok:
  "\<forall>rc \<in> set rcs. \<exists>x. rc = Inr x \<Longrightarrow> \<exists>x y. collect_concurrency rcs st = Inr (x, y)"
proof (induction rcs arbitrary: st)
  case Nil
  then show ?case by (cases st) simp
next
  case (Cons rc rcs)
  then show ?case by (cases st) auto
qed

lemma chain_described:
  assumes "chain_accepts s b"
  shows "\<exists>rc. chain_recommended_concurrency K s = Inr rc" and "\<exists>r. chain_encoded_representation K s = Inr r"
proof -
  obtain e e1 s' ars r brs where c: "final_accepts s' e1" "fst (last ars) = s'" "get_array_representations K s = Inr ars"
      "get_bytes_representations K s' = Inr brs" "ab_encoded_representation C s' = Inr r"
      "\<forall>(A, s, _) \<in> set (array_stages K ars). \<exists>rc. aa_recommended_concurrency A s = Inr rc"
    by (rule chain_encoded[OF assms, of undefined]) simp
  have "acc0 s' e1" using c(1) by (simp add: final_accepts_def)
  then have ab: "\<exists>rc. ab_recommended_concurrency C s' = Inr rc" using array_to_bytes_codec.accepted[OF array_to_bytes] by blast
  have "\<exists>rc. bb_recommended_concurrency D r = Inr rc" if "(D, r) \<in> set (bytes_stages K brs)" for D r
  proof -
    have "D \<in> set (map fst bs)" using that by (auto simp: bytes_stages_def bytes(1) dest: set_zip_leftD)
    then obtain accepts where "bytes_to_bytes_codec D accepts R" using bytes(2) by (fastforce simp: lawful_bytes_def)
    then show ?thesis by (rule bytes_to_bytes_codec.concurrency)
  qed
  then have "\<forall>rc \<in> set (map (\<lambda>(C, r). bb_recommended_concurrency C r) (bytes_stages K brs) @
      [ab_recommended_concurrency C s'] @ map (\<lambda>(A, s, _). aa_recommended_concurrency A s) (array_stages K ars)). \<exists>x. rc = Inr x"
    using ab c(6) by fastforce
  from collect_concurrency_ok[OF this, of "(M64 - 1, 0)"] show "\<exists>rc. chain_recommended_concurrency K s = Inr rc"
    using c(2-4) by (auto simp: chain_recommended_concurrency_def)
  show "\<exists>r. chain_encoded_representation K s = Inr r" using c(2,3,5) by (simp add: chain_encoded_representation_def)
qed

end

text \<open>A chain of lawful codecs whose cache is not before an array-to-array codec is a lawful array-to-bytes codec.\<close>

locale served_chain = lawful_chain +
  assumes cache: "\<not> array_cache_between K"

sublocale served_chain \<subseteq> chain: array_to_bytes_codec "chain_array_codec K" "chain_data_type K" "chain_fill_value K" chain_accepts
  R iclass
proof (unfold_locales, goal_cases)
  case (1 s b)
  then show ?case using chain_described by (simp add: chain_array_codec_def) (simp add: chain_accepts_def)
next
  case (2 s b opt)
  obtain e where e: "chain_encode K opt b s = Inr e" by (rule chain_encoded[OF 2])
  then show ?case using chain_decodes[OF 2 e] by (simp add: chain_array_codec_def)
next
  case (3 s b opt e a q T opt')
  then show ?case using chain_decodes_into[OF 3(1) _ 3(3,4)] by (simp add: chain_array_codec_def)
next
  case (4 s b opt e d opt')
  then show ?case using chain_partial_some[OF _ _ _ cache] by (simp add: chain_array_codec_def)
next
  case (5 s b opt e d opt')
  then show ?case using chain_partial_fill[OF _ _ _ _ cache] by (simp add: chain_array_codec_def)
qed

end
