(* ===== verification/Transpose_Codec.thy ===== *)
theory Transpose_Codec
  imports Chain_Laws
begin

text \<open>
  The transpose codec (\<open>zarrs/src/array/codec/array_to_array/transpose.rs\<close>, \<open>transpose/transpose_codec.rs\<close>,
  \<open>transpose/transpose_codec_partial.rs\<close>) and its order (\<open>zarrs_metadata_ext/src/codec/registered/transpose.rs\<close>).

  The transposition itself is done by the \<open>ndarray\<close> crate: the parameter \<open>nd\<close> gives, for a shape and an order of its
  axes, the positions in the array of the elements of the permuted view in its iteration order.  What the code relies
  on is the law of the locale \<open>ndarray\<close> below.
\<close>

subsection \<open>Orders\<close>

definition to_vec_unique :: "nat list \<Rightarrow> nat list" where
  "to_vec_unique v = remdups_adj (sort v)"

definition validate_permutation :: "nat list \<Rightarrow> bool" where
  "validate_permutation permutation =
     (let permutation_unique = to_vec_unique permutation in
      permutation \<noteq> [] \<and> length permutation_unique = length permutation \<and>
      Max (set permutation_unique) = length permutation - 1)"

definition transpose_order_new :: "nat list \<Rightarrow> nat list + nat list" where
  "transpose_order_new order = (if validate_permutation order then Inr order else Inl order)"

definition inverse_permutation :: "nat list \<Rightarrow> codec_error + nat list" where
  "inverse_permutation order =
     (if list_ex (\<lambda>val. length order \<le> val) order then Inl CodecPanic
      else Inr (foldl (\<lambda>inverse (i, val). inverse[val := i]) (replicate (length order) 0) (enumerate 0 order)))"

definition permute :: "'a list \<Rightarrow> nat list \<Rightarrow> codec_error + 'a list option" where
  "permute v order =
     (if length v \<noteq> length order then Inr None
      else if list_ex (\<lambda>axis. length v \<le> axis) order then Inl CodecPanic
      else Inr (Some (map ((!) v) order)))"

definition permute_expect :: "'a list \<Rightarrow> nat list \<Rightarrow> codec_error + 'a list" where
  "permute_expect v order =
     bind_res (permute v order) (\<lambda>p. case p of None \<Rightarrow> Inl CodecPanic | Some p \<Rightarrow> Inr p)"

subsection \<open>Transposing elements\<close>

type_synonym nd_order = "nat list \<Rightarrow> nat list \<Rightarrow> nat list"

definition transpose_array :: "nd_order \<Rightarrow> nat list \<Rightarrow> array_shape \<Rightarrow> usize \<Rightarrow> bytes \<Rightarrow> codec_error + bytes" where
  "transpose_array nd transpose_order untransposed_shape bytes_per_element data =
     (let shape_n = untransposed_shape @ [bytes_per_element] in
      if prod_list shape_n \<le> length data then Inr (map ((!) data) (nd shape_n transpose_order))
      else Inl (CodecOther ''transpose_array error''))"

definition transpose_vlen :: "nd_order \<Rightarrow> bytes \<Rightarrow> usize list \<Rightarrow> array_shape \<Rightarrow> nat list \<Rightarrow> codec_error + (bytes \<times> usize list)" where
  "transpose_vlen nd b os shape order =
     (if prod_list shape < M64 then push_items (map (vlen_item b os) (nd shape order)) [] [] else Inl CodecPanic)"

fun apply_permutation :: "nd_order \<Rightarrow> array_bytes \<Rightarrow> array_shape \<Rightarrow> nat list \<Rightarrow> data_type \<Rightarrow> codec_error + array_bytes" where
  "apply_permutation nd bytes input_shape permutation t =
     (if length input_shape \<noteq> length permutation
      then Inl (IncompatibleIndexer (IndexerIncompatibleDimensionality (length input_shape) (length permutation)))
      else
        bind_res (validate_bytes bytes (wprod input_shape) t) (\<lambda>_.
          case (bytes, dt_size t) of
            (VariableBytes b os, SizeVariable) \<Rightarrow>
              bind_res (transpose_vlen nd b os input_shape permutation) (\<lambda>(b, os). Inr (VariableBytes b os))
          | (FixedBytes b, SizeFixed z) \<Rightarrow>
              bind_res (transpose_array nd (permutation @ [length permutation]) input_shape z b) (\<lambda>b. Inr (FixedBytes b))
          | (OptionalBytes _ _, _) \<Rightarrow> Inl (CodecUnsupportedDataType [] ''transpose'')
          | _ \<Rightarrow> Inl (CodecOther ''dev error: transpose data type mismatch'')))"

subsection \<open>Transposing indexers\<close>

definition get_transposed_array_subset :: "nat list \<Rightarrow> array_subset \<Rightarrow> codec_error + array_subset" where
  "get_transposed_array_subset order decoded_region =
     (if dimensionality decoded_region \<noteq> length order
      then Inl (IncompatibleIndexer (IndexerIncompatibleDimensionality (dimensionality decoded_region) (length order)))
      else
        bind_res (permute_expect (sub_start decoded_region) order) (\<lambda>start.
        bind_res (permute_expect (sub_shape decoded_region) order) (\<lambda>sz.
          Inr (from_ranges (map (\<lambda>(st, si). (st, wadd st si)) (zip start sz))))))"

fun transposed_indices :: "nat list \<Rightarrow> array_indices list \<Rightarrow> codec_error + array_indices list option" where
  "transposed_indices order [] = Inr (Some [])"
| "transposed_indices order (i # is) =
     bind_res (permute i order) (\<lambda>j. case j of
         None \<Rightarrow> Inr None
       | Some j \<Rightarrow> bind_res (transposed_indices order is) (\<lambda>js. Inr (map_option ((#) j) js)))"

definition get_transposed_indexer :: "nat list \<Rightarrow> indexer \<Rightarrow> codec_error + indexer" where
  "get_transposed_indexer order x =
     (case ix_indices x of
        None \<Rightarrow> Inl CodecPanic
      | Some is \<Rightarrow>
          bind_res (transposed_indices order is) (\<lambda>js. case js of
              None \<Rightarrow> Inl (IncompatibleIndexer (IndexerIncompatibleDimensionality (ix_dimensionality x) (length order)))
            | Some js \<Rightarrow> Inr (IndicesIndexer js)))"

subsection \<open>The codec\<close>

record transpose_bound =
  tr_order :: "nat list"
  tr_data_type :: data_type
  tr_fill_value :: fill_value

definition transpose_validate :: "transpose_bound \<Rightarrow> chunk_shape \<Rightarrow> codec_error + unit" where
  "transpose_validate T s =
     (if is_optional (tr_data_type T) then Inl (CodecUnsupportedDataType [] ''transpose'')
      else if length (tr_order T) \<noteq> length s
      then Inl (CodecOther ''Length of transpose codec `order` does not match array dimensionality'')
      else Inr ())"

definition transpose_encoded_shape :: "transpose_bound \<Rightarrow> chunk_shape \<Rightarrow> codec_error + chunk_shape" where
  "transpose_encoded_shape T decoded_shape =
     (if length (tr_order T) \<noteq> length decoded_shape
      then Inl (CodecOther ''Length of transpose codec `order` does not match array dimensionality'')
      else permute_expect decoded_shape (tr_order T))"

definition transpose_encode :: "nd_order \<Rightarrow> transpose_bound \<Rightarrow> array_bytes \<Rightarrow> chunk_shape \<Rightarrow> codec_error + array_bytes" where
  "transpose_encode nd T b s =
     bind_res (transpose_validate T s) (\<lambda>_. apply_permutation nd b s (tr_order T) (tr_data_type T))"

definition transpose_decode :: "nd_order \<Rightarrow> transpose_bound \<Rightarrow> array_bytes \<Rightarrow> chunk_shape \<Rightarrow> codec_error + array_bytes" where
  "transpose_decode nd T b s =
     bind_res (transpose_validate T s) (\<lambda>_.
     bind_res (permute_expect s (tr_order T)) (\<lambda>transposed_shape.
     bind_res (inverse_permutation (tr_order T)) (\<lambda>order_inverse.
       apply_permutation nd b transposed_shape order_inverse (tr_data_type T))))"

text \<open>\<open>TransposeCodecPartial\<close>: its own \<open>decode\<close> does not validate, and the inverse order is computed when it is created.\<close>

definition transpose_partial_decode_bytes ::
    "nd_order \<Rightarrow> transpose_bound \<Rightarrow> nat list \<Rightarrow> array_bytes \<Rightarrow> array_shape \<Rightarrow> codec_error + array_bytes" where
  "transpose_partial_decode_bytes nd T order_inverse b s =
     bind_res (permute_expect s (tr_order T)) (\<lambda>transposed_shape.
       apply_permutation nd b transposed_shape order_inverse (tr_data_type T))"

definition transpose_partial_decode :: "nd_order \<Rightarrow> transpose_bound \<Rightarrow> nat list \<Rightarrow> array_decoder \<Rightarrow> array_decoder" where
  "transpose_partial_decode nd T order_inverse d x =
     (case ix_as_array_subset x of
        Some r \<Rightarrow>
          bind_res (get_transposed_array_subset (tr_order T) r) (\<lambda>array_subset_transposed.
          bind_res (d (SubsetIndexer array_subset_transposed)) (\<lambda>encoded_value.
            transpose_partial_decode_bytes nd T order_inverse encoded_value (sub_shape r)))
      | None \<Rightarrow> bind_res (get_transposed_indexer (tr_order T) x) d)"

text \<open>\<open>partial_encode\<close>, where \<open>enc\<close> is the one of the input/output handle.\<close>

definition transpose_partial_encode ::
    "nd_order \<Rightarrow> transpose_bound \<Rightarrow> (indexer \<Rightarrow> array_bytes \<Rightarrow> codec_error + 'v) \<Rightarrow> indexer \<Rightarrow> array_bytes \<Rightarrow> codec_error + 'v" where
  "transpose_partial_encode nd T enc x b =
     (case ix_as_array_subset x of
        Some r \<Rightarrow>
          bind_res (apply_permutation nd b (sub_shape r) (tr_order T) (tr_data_type T)) (\<lambda>encoded_value.
          bind_res (get_transposed_array_subset (tr_order T) r) (\<lambda>array_subset_transposed.
            enc (SubsetIndexer array_subset_transposed) encoded_value))
      | None \<Rightarrow> bind_res (get_transposed_indexer (tr_order T) x) (\<lambda>x. enc x b))"

definition transpose_codec :: "nd_order \<Rightarrow> transpose_bound \<Rightarrow> array_array_codec" where
  "transpose_codec nd T =
     \<lparr>aa_data_type = tr_data_type T, aa_fill_value = tr_fill_value T,
      aa_encoded_data_type = tr_data_type T, aa_encoded_fill_value = tr_fill_value T,
      aa_encoded_shape = transpose_encoded_shape T,
      aa_recommended_concurrency = (\<lambda>_. Inr (recommended_new 0 1)),
      aa_encode = (\<lambda>_. transpose_encode nd T), aa_decode = (\<lambda>_. transpose_decode nd T),
      aa_partial_decoder = (\<lambda>_ d s. bind_res (inverse_permutation (tr_order T)) (\<lambda>order_inverse.
        Inr (transpose_partial_decode nd T order_inverse d)))\<rparr>"

definition transpose_with_context :: "nd_order \<Rightarrow> nat list \<Rightarrow> data_type \<Rightarrow> fill_value \<Rightarrow> codec_error + array_array_codec" where
  "transpose_with_context nd order t fv =
     (if is_optional t then Inl (CodecUnsupportedDataType [] ''transpose'')
      else Inr (transpose_codec nd \<lparr>tr_order = order, tr_data_type = t, tr_fill_value = fv\<rparr>))"

definition transpose_unbound :: "nd_order \<Rightarrow> nat list \<Rightarrow> unbound_array_array" where
  "transpose_unbound nd order =
     \<lparr>ua_with_context = transpose_with_context nd order,
      ua_capability = \<lparr>can_partial_read = True, can_partial_decode = True\<rparr>\<rparr>"

end
