(* ===== verification/Transpose_Laws.thy ===== *)
theory Transpose_Laws
  imports Transpose_Codec "HOL-Library.Multiset"
begin

text \<open>
  The transpose codec keeps the contract of an array-to-array codec: what an order of axes does to indices and shapes, the
  law of the \<open>ndarray\<close> crate that the codec relies on, and the values that the operations of the codec yield.
\<close>

subsection \<open>Orders of axes\<close>

definition is_order :: "nat list \<Rightarrow> nat \<Rightarrow> bool" where
  "is_order order n \<longleftrightarrow> length order = n \<and> distinct order \<and> set order = {..<n}"

definition permuted :: "nat list \<Rightarrow> 'a list \<Rightarrow> 'a list" where
  "permuted order v = map ((!) v) order"

lemma is_order_iff: "is_order order n \<longleftrightarrow> length order = n \<and> distinct order \<and> list_all (\<lambda>k. k < n) order"
proof
  assume a: "length order = n \<and> distinct order \<and> list_all (\<lambda>k. k < n) order"
  then have "set order \<subseteq> {..<n}" "card (set order) = card {..<n}" by (auto simp: list_all_iff distinct_card)
  then have "set order = {..<n}" by (simp add: card_subset_eq)
  then show "is_order order n" using a by (simp add: is_order_def)
qed (auto simp: is_order_def list_all_iff)

lemma sorted_distinct_adj: "sorted xs \<Longrightarrow> distinct_adj xs \<Longrightarrow> distinct xs" for xs :: "nat list"
proof (induction xs)
  case (Cons x xs)
  then show ?case by (cases xs) (auto simp: distinct_adj_Cons)
qed simp

lemma length_remdups_sort: "length (to_vec_unique v) = card (set v)"
proof -
  have "distinct (remdups_adj (sort v))" by (simp add: sorted_distinct_adj)
  then show ?thesis by (metis distinct_card remdups_adj_set set_sort to_vec_unique_def)
qed

lemma validate_permutation_iff: "validate_permutation order \<longleftrightarrow> order \<noteq> [] \<and> is_order order (length order)"
proof (cases "order = []")
  case False
  then have f: "finite (set order)" "set order \<noteq> {}" by simp_all
  have s: "set (to_vec_unique order) = set order" by (simp add: to_vec_unique_def)
  have "Max (set order) = length order - 1" if "is_order order (length order)"
    using that False by (intro Max_eqI) (auto simp: is_order_def)
  moreover have "is_order order (length order)" if "distinct order" "Max (set order) = length order - 1"
  proof -
    have "k < length order" if "k \<in> set order" for k
      using Max_ge[OF f(1) that] \<open>Max (set order) = length order - 1\<close> False by (cases order) auto
    then show ?thesis using \<open>distinct order\<close> by (simp add: is_order_iff list_all_iff)
  qed
  moreover have "card (set order) = length order \<longleftrightarrow> distinct order" using card_distinct distinct_card by blast
  ultimately show ?thesis
    using False by (auto simp: validate_permutation_def length_remdups_sort s Let_def) (auto simp: is_order_def)
qed (simp add: validate_permutation_def Let_def)

lemma permute_order: "is_order order n \<Longrightarrow> length v = n \<Longrightarrow> permute v order = Inr (Some (permuted order v))"
  by (auto simp: permute_def permuted_def is_order_def list_ex_iff)

lemma permute_expect_order: "is_order order n \<Longrightarrow> length v = n \<Longrightarrow> permute_expect v order = Inr (permuted order v)"
  by (simp add: permute_expect_def permute_order)

lemma length_permuted [simp]: "length (permuted order v) = length order"
  by (simp add: permuted_def)

lemma nth_permuted: "k < length order \<Longrightarrow> permuted order v ! k = v ! (order ! k)"
  by (simp add: permuted_def)

lemma assign_enumerate:
  assumes "distinct xs" and "\<forall>x \<in> set xs. x < length iv"
  shows "length (foldl (\<lambda>inverse (i, val). inverse[val := i]) iv (enumerate k xs)) = length iv"
    and "j < length xs \<Longrightarrow> foldl (\<lambda>inverse (i, val). inverse[val := i]) iv (enumerate k xs) ! (xs ! j) = k + j"
    and "p \<notin> set xs \<Longrightarrow> foldl (\<lambda>inverse (i, val). inverse[val := i]) iv (enumerate k xs) ! p = iv ! p"
  using assms
proof (induction xs arbitrary: iv k j p)
  case (Cons x xs)
  {
    case 1
    then show ?case using Cons.IH(1)[of "iv[x := k]" "Suc k"] by simp
  next
    case 2
    then show ?case
      using Cons.IH(2)[of "j - 1" "iv[x := k]" "Suc k"] Cons.IH(3)[of x "iv[x := k]" "Suc k"] by (cases j) simp_all
  next
    case 3
    then show ?case using Cons.IH(3)[of _ "iv[x := k]" "Suc k"] by simp
  }
qed simp_all

lemma inverse_order:
  assumes "is_order order n"
  obtains iv where "inverse_permutation order = Inr iv" and "is_order iv n" and "\<And>k. k < n \<Longrightarrow> iv ! (order ! k) = k"
    and "\<And>k. k < n \<Longrightarrow> order ! (iv ! k) = k"
proof -
  define iv where "iv = foldl (\<lambda>inverse (i, val). inverse[val := i]) (replicate (length order) 0) (enumerate 0 order)"
  have o: "length order = n" "distinct order" "set order = {..<n}" using assms by (simp_all add: is_order_def)
  have "\<forall>x \<in> set order. x < length (replicate (length order) (0 :: nat))" using o by simp
  note a = this
  have len: "length iv = n" using assign_enumerate(1)[OF o(2) a] o(1) by (simp add: iv_def)
  have nth: "iv ! (order ! k) = k" if k: "k < n" for k
  proof -
    have "k < length order" using k o(1) by simp
    from assign_enumerate(2)[OF o(2) a this] show ?thesis unfolding iv_def by (metis add_0)
  qed
  have nth': "order ! (iv ! k) = k" if "k < n" for k
  proof -
    obtain j where "j < n" "order ! j = k" using \<open>k < n\<close> o by (metis in_set_conv_nth lessThan_iff)
    then show ?thesis using nth[of j] by simp
  qed
  have less: "iv ! k < n" if k: "k < n" for k
  proof -
    obtain j where "j < n" "order ! j = k" using k o by (metis in_set_conv_nth lessThan_iff)
    then show ?thesis using nth[of j] by simp
  qed
  have "distinct iv" unfolding distinct_conv_nth len using nth' by metis
  then have "is_order iv n" using len less by (auto simp: is_order_iff list_all_length)
  moreover have "inverse_permutation order = Inr iv"
    using o by (auto simp: inverse_permutation_def iv_def list_ex_iff)
  ultimately show ?thesis using that nth nth' by blast
qed

lemma permuted_inverse:
  assumes "length v = n" and "length iv = n" and "is_order order n" and "\<And>k. k < n \<Longrightarrow> order ! (iv ! k) = k"
    and "is_order iv n"
  shows "permuted iv (permuted order v) = v"
proof (rule nth_equalityI)
  fix k assume "k < length (permuted iv (permuted order v))"
  then have "k < n" using assms by simp
  moreover have "iv ! k < n" using assms(2,5) \<open>k < n\<close> by (auto simp: is_order_iff list_all_length)
  ultimately show "permuted iv (permuted order v) ! k = v ! k" using assms by (simp add: nth_permuted is_order_def)
qed (use assms in simp)

lemma inb_permuted:
  assumes "is_order order n" and "length i = n" and "length s = n"
  shows "inb (permuted order i) (permuted order s) \<longleftrightarrow> inb i s"
proof -
  have "inb (permuted order i) (permuted order s) \<longleftrightarrow> (\<forall>k \<in> set order. i ! k < s ! k)"
    by (auto simp: inb_def list_all2_conv_all_nth nth_permuted) (metis in_set_conv_nth)
  also have "\<dots> \<longleftrightarrow> inb i s" using assms by (auto simp: is_order_def inb_def list_all2_conv_all_nth)
  finally show ?thesis .
qed

lemma mset_permuted: "is_order order (length v) \<Longrightarrow> mset (permuted order v) = mset v"
proof -
  assume o: "is_order order (length v)"
  then have "mset order = mset [0..<length v]"
    by (metis atLeast_upt distinct_upt is_order_def set_eq_iff_mset_eq_distinct)
  then have "mset (map ((!) v) order) = mset (map ((!) v) [0..<length v])" by simp
  then show ?thesis by (simp add: permuted_def map_nth)
qed

lemma prod_permuted: "is_order order (length s) \<Longrightarrow> prod_list (permuted order s) = prod_list s" for s :: "nat list"
  using mset_permuted[of order s] by (metis prod_mset_prod_list)

lemma set_permuted: "is_order order (length s) \<Longrightarrow> set (permuted order s) = set s"
  using mset_permuted[of order s] by (metis set_mset_mset)

lemma is_order_snoc: "is_order order n \<Longrightarrow> is_order (order @ [n]) (Suc n)"
  by (auto simp: is_order_iff list_all_iff less_Suc_eq)

lemma permuted_snoc: "is_order order (length v) \<Longrightarrow> permuted (order @ [length v]) (v @ [x]) = permuted order v @ [x]"
  by (auto simp: permuted_def is_order_def nth_append)

subsection \<open>The law of the permuted view\<close>

lemma lin_snoc: "length i = length s \<Longrightarrow> lin (s @ [z]) (i @ [k]) = lin s i * z + k"
  by (induction s i rule: list_induct2') (simp_all add: algebra_simps)

lemma nth_concat_sized: "sized z E \<Longrightarrow> p < length E \<Longrightarrow> k < z \<Longrightarrow> concat E ! (p * z + k) = E ! p ! k"
proof (induction E arbitrary: p)
  case (Cons x E)
  then show ?case by (cases p) (auto simp: sized_def nth_append add.assoc)
qed simp

text \<open>
  The view of an array with its axes permuted has the axis \<open>order ! k\<close> of the array as its axis \<open>k\<close>: the element of the array
  at the index \<open>i\<close> is the element of the view at the permuted index, and the view is iterated in row-major order.
\<close>

locale ndarray =
  fixes nd :: nd_order
  assumes view_length: "is_order order (length s) \<Longrightarrow> length (nd s order) = prod_list s"
    and view_nth: "is_order order (length s) \<Longrightarrow> inb i s \<Longrightarrow>
      nd s order ! lin (permuted order s) (permuted order i) = lin s i"
begin

lemma view_position:
  assumes "is_order order (length s)" and "p < prod_list s"
  obtains i where "inb i s" and "p = lin (permuted order s) (permuted order i)"
proof -
  obtain iv where iv: "is_order iv (length s)" "\<And>k. k < length s \<Longrightarrow> iv ! (order ! k) = k"
    using inverse_order[OF assms(1)] by metis
  define j where "j = unlin (permuted order s) p"
  have p: "p < prod_list (permuted order s)" using assms by (simp add: prod_permuted)
  have j: "inb j (permuted order s)" unfolding j_def by (rule inb_unlin[OF p])
  have len: "length order = length s" "length j = length s" using assms(1) inb_length[OF j] by (simp_all add: is_order_def)
  have pj: "permuted order (permuted iv j) = j"
    by (rule permuted_inverse) (use len iv assms(1) in \<open>simp_all add: is_order_def\<close>)
  have "inb (permuted iv j) s"
    using inb_permuted[OF assms(1), of "permuted iv j" s] j iv(1) by (simp add: pj is_order_def)
  moreover have "p = lin (permuted order s) (permuted order (permuted iv j))" unfolding pj using lin_unlin[OF p] by (simp add: j_def)
  ultimately show ?thesis by (rule that)
qed

lemma view_less: "is_order order (length s) \<Longrightarrow> p < prod_list s \<Longrightarrow> nd s order ! p < prod_list s"
  by (metis view_position view_nth lin_less)

lemma set_view: "is_order order (length s) \<Longrightarrow> \<forall>p \<in> set (nd s order). p < prod_list s"
  using view_less view_length by (metis in_set_conv_nth)

text \<open>Permuting back.\<close>

lemma view_inverse:
  assumes "is_order order (length s)" and "is_order iv (length s)" and "\<And>k. k < length s \<Longrightarrow> order ! (iv ! k) = k"
    and "p < prod_list s"
  shows "nd s order ! (nd (permuted order s) iv ! p) = p" and "nd (permuted order s) iv ! p < prod_list s"
proof -
  have s: "permuted iv (permuted order s) = s"
    by (rule permuted_inverse) (use assms in \<open>auto simp: is_order_def\<close>)
  define i where "i = unlin s p"
  have i: "inb i s" "p = lin s i" using assms(4) by (simp_all add: i_def inb_unlin lin_unlin)
  have pi: "permuted iv (permuted order i) = i"
    by (rule permuted_inverse) (use assms inb_length[OF i(1)] in \<open>auto simp: is_order_def\<close>)
  have l: "length order = length s" using assms(1) by (simp add: is_order_def)
  have q: "inb (permuted order i) (permuted order s)"
    using inb_permuted[OF assms(1) _ refl, of i] inb_length[OF i(1)] i(1) by simp
  have "nd (permuted order s) iv ! lin s i = lin (permuted order s) (permuted order i)"
    using view_nth[of iv "permuted order s" "permuted order i"] q assms(2) by (simp add: s pi l)
  then show "nd s order ! (nd (permuted order s) iv ! p) = p" "nd (permuted order s) iv ! p < prod_list s"
    using view_nth[OF assms(1) i(1)] i(2) lin_less[OF q] prod_permuted[OF assms(1)] by simp_all
qed

lemma view_inj: "is_order order (length s) \<Longrightarrow> distinct (nd s order)"
proof -
  assume o: "is_order order (length s)"
  obtain iv where iv: "is_order iv (length s)" "\<And>k. k < length s \<Longrightarrow> order ! (iv ! k) = k"
    using inverse_order[OF o] by metis
  have "{..<prod_list s} \<subseteq> set (nd s order)"
  proof
    fix p assume "p \<in> {..<prod_list s}"
    then show "p \<in> set (nd s order)"
      using view_inverse[OF o iv, of p] view_length[OF o] by (metis lessThan_iff nth_mem)
  qed
  then have "card {..<prod_list s} \<le> card (set (nd s order))" by (rule card_mono[rotated]) simp
  then show ?thesis using view_length[OF o] card_length[of "nd s order"] by (intro card_distinct) simp
qed

text \<open>The bytes of the elements follow the elements: the last axis, of the bytes of an element, stays in place.\<close>

lemma view_bytes:
  assumes "is_order order (length s)" and "sized z E" and "length E = prod_list s"
  shows "map ((!) (concat E)) (nd (s @ [z]) (order @ [length s])) = concat (map ((!) E) (nd s order))"
proof (rule nth_equalityI)
  have o: "is_order (order @ [length s]) (length (s @ [z]))" using is_order_snoc[OF assms(1)] by simp
  have l: "length (nd s order) = prod_list s" by (rule view_length[OF assms(1)])
  have less: "\<forall>p \<in> set (nd s order). p < length E" using set_view[OF assms(1)] assms(3) by simp
  show len: "length (map ((!) (concat E)) (nd (s @ [z]) (order @ [length s]))) = length (concat (map ((!) E) (nd s order)))"
    using view_length[OF o] l concat_select_length[OF assms(2) less] by simp
  fix q assume "q < length (map ((!) (concat E)) (nd (s @ [z]) (order @ [length s])))"
  then have q: "q < prod_list s * z" using view_length[OF o] by simp
  then have z: "0 < z" by (cases z) auto
  define p k where "p = q div z" and "k = q mod z"
  have pk: "q = p * z + k" "k < z" "p < prod_list s"
    using q z by (simp_all add: p_def k_def less_mult_imp_div_less)
  obtain i where i: "inb i s" "p = lin (permuted order s) (permuted order i)" by (rule view_position[OF assms(1) pk(3)])
  have li: "length i = length s" "length order = length s" using inb_length[OF i(1)] assms(1) by (simp_all add: is_order_def)
  have "inb (i @ [k]) (s @ [z])" using i(1) pk(2) by (simp add: inb_def list_all2_appendI)
  from view_nth[OF o this]
  have "nd (s @ [z]) (order @ [length s]) ! (p * z + k) = lin s i * z + k"
    using permuted_snoc[of order s z] permuted_snoc[of order i k] assms(1) li by (simp add: lin_snoc i(2))
  also have "lin s i = nd s order ! p" using view_nth[OF assms(1) i(1)] i(2) by simp
  finally have n: "nd (s @ [z]) (order @ [length s]) ! q = (nd s order ! p) * z + k" by (simp add: pk(1))
  have "map ((!) (concat E)) (nd (s @ [z]) (order @ [length s])) ! q = concat E ! ((nd s order ! p) * z + k)"
    using q view_length[OF o] n by simp
  also have "\<dots> = E ! (nd s order ! p) ! k"
    by (rule nth_concat_sized[OF assms(2) _ pk(2)]) (use less l pk(3) in simp)
  also have "\<dots> = concat (map ((!) E) (nd s order)) ! q"
    unfolding pk(1) using assms(2) less l pk(2,3)
    by (subst nth_concat_sized[where z = z]) (auto simp: sized_def list_all_iff)
  finally show "map ((!) (concat E)) (nd (s @ [z]) (order @ [length s])) ! q = concat (map ((!) E) (nd s order)) ! q" .
qed

lemma apply_permutation_ok:
  assumes "is_order order (length s)" and "shape_ok s" and "countable_size t (prod_list s)" and "ab_ok t (prod_list s) b"
    and "\<not> is_optional t"
  shows "\<exists>b'. apply_permutation nd b s order t = Inr b' \<and> ab_ok t (prod_list s) b' \<and>
    vals t b' = map ((!) (vals t b)) (nd s order)"
proof -
  have s: "prod_list s < M64" "wprod s = prod_list s" using assms(2) by (simp_all add: shape_ok_def wprod_eq)
  have len: "length order = length s" using assms(1) by (simp add: is_order_def)
  have v: "validate_bytes b (wprod s) t = Inr ()" using validate_ok[OF assms(3,4)] s(2) by simp
  have l: "length (nd s order) = prod_list s" by (rule view_length[OF assms(1)])
  have less: "\<forall>p \<in> set (nd s order). p < prod_list s" by (rule set_view[OF assms(1)])
  have fits: "select_fits t b (nd s order)" using select_fits_distinct[OF assms(4) view_inj[OF assms(1)] less s(1)] .
  obtain sz where t: "t = PlainType sz" using assms(5) by (cases t) (simp_all add: is_optional_def)
  have "\<exists>b'. apply_permutation nd b s order t = Inr b' \<and> ab_ok t (prod_list s) b' \<and>
    elems t b' = map ((!) (elems t b)) (nd s order)"
  proof (cases sz)
    case (SizeFixed z)
    obtain d where d: "b = FixedBytes d" using assms(4) ab_ok_cases(1) unfolding t SizeFixed by blast
    obtain E where E: "sized z E" "length E = prod_list s" "d = concat E" "0 < z" "prod_list s * z < M64"
        "elems (PlainType (SizeFixed z)) (FixedBytes d) = map Raw E"
      using fixed_elems assms(4) unfolding t SizeFixed d by metis
    define F where "F = map ((!) E) (nd s order)"
    have F: "sized z F" "length F = prod_list s" using E(1,2) less l by (auto simp: F_def sized_def list_all_iff)
    have "prod_list (s @ [z]) = length d" using E(1-3) by (simp add: length_concat_sized)
    then have "transpose_array nd (order @ [length order]) s z d = Inr (concat F)"
      using view_bytes[OF assms(1) E(1,2)] by (simp add: transpose_array_def F_def len E(3) Let_def)
    then have "apply_permutation nd b s order t = Inr (FixedBytes (concat F))"
      using v by (simp add: d len t SizeFixed)
    moreover have "map Raw F = map ((!) (map Raw E)) (nd s order)" using less E(2) by (simp add: F_def)
    ultimately show ?thesis
      using ab_ok_concat[OF F(1) E(4)] F(2) E(5) E(6) by (simp add: t SizeFixed d del: elems.simps ab_ok.simps apply_permutation.simps)
  next
    case SizeVariable
    obtain d os where d: "b = VariableBytes d os" using assms(4) ab_ok_cases(2) unfolding t SizeVariable by blast
    have ok: "vlen_ok (prod_list s) d os" using assms(4) by (simp add: t SizeVariable d)
    define F where "F = map ((!) (vlen_items d os)) (nd s order)"
    have li: "length (vlen_items d os) = prod_list s" using ok by (simp add: vlen_ok_def)
    have "map (vlen_item d os) (nd s order) = map Inr F" using vlen_item_ok(1)[OF ok] less by (simp add: F_def)
    moreover have "length (concat F) < M64"
      using fits sum_raw[of "nd s order" "vlen_items d os"] less li by (simp add: t SizeVariable d F_def select_fits_def)
    note p = pushed_items[OF this]
    ultimately have "apply_permutation nd b s order t = Inr (VariableBytes (concat F) (offsets_of 0 F))"
      using v s(1) by (simp add: d len t SizeVariable transpose_vlen_def)
    then show ?thesis using p(2,3) l less li by (simp add: t SizeVariable d F_def del: apply_permutation.simps)
  qed
  then obtain b' where b': "apply_permutation nd b s order t = Inr b'" "ab_ok t (prod_list s) b'"
      "elems t b' = map ((!) (elems t b)) (nd s order)" by blast
  have "vals t b' = map ((!) (vals t b)) (nd s order)"
    using b'(3) less length_elems[OF assms(4)] by (simp add: vals_def)
  then show ?thesis using b' by blast
qed

end

end
