(* ===== verification/Transpose_Contract.thy ===== *)
theory Transpose_Contract
  imports Transpose_Laws
begin

text \<open>
  The transpose codec keeps the contract of an array-to-array codec, whatever the order and the plain data type, over the law of
  the permuted view.
\<close>

subsection \<open>Indices of an indexer\<close>

lemma ix_indices_covered:
  assumes "prod_list s < M64"
  shows "covers s x \<Longrightarrow> \<exists>ids. ix_indices x = Some ids \<and> ix_elements s x = map (lin s) ids \<and> (\<forall>i \<in> set ids. inb i s)"
proof (induction x)
  case (SubsetIndexer r)
  then have "fits r s" by (simp add: subset_covered_def)
  then have "indices_collect (indices_new r) = box (sub_start r) (sub_shape r)"
    using indices_collect_new[OF fits_wf] fits_prod[of r s] assms by simp
  then show ?case using \<open>fits r s\<close> by (auto dest: fits_inb)
next
  case (RangesIndexer rs)
  then have "fits (from_ranges rs) s" by (simp add: subset_covered_def)
  then have "indices_collect (indices_new (from_ranges rs)) = box (sub_start (from_ranges rs)) (sub_shape (from_ranges rs))"
    using assms by (intro indices_collect_new[OF fits_wf] le_less_trans[OF fits_prod])
  then show ?case using \<open>fits (from_ranges rs) s\<close> by (auto simp: ranges_to_array_subset_eq dest: fits_inb)
next
  case (IndicesIndexer ids)
  then show ?case by (simp add: list_all_iff)
next
  case (SliceIndexer xs)
  then have "\<forall>x \<in> set xs. \<exists>ids. ix_indices x = Some ids \<and> ix_elements s x = map (lin s) ids \<and> (\<forall>i \<in> set ids. inb i s)"
    by (simp add: list_all_iff)
  then obtain f where f: "\<forall>x \<in> set xs. ix_indices x = Some (f x) \<and> ix_elements s x = map (lin s) (f x) \<and> (\<forall>i \<in> set (f x). inb i s)"
    by metis
  then have "map ix_indices xs = map (\<lambda>x. Some (f x)) xs" "map (ix_elements s) xs = map (\<lambda>x. map (lin s) (f x)) xs"
    by (auto intro: map_cong)
  then show ?case using f by (intro exI[of _ "concat (map f xs)"]) (auto simp: map_concat comp_def simp del: map_eq_conv)
qed


subsection \<open>Transposed indexers\<close>

lemma permuted_inj:
  assumes "is_order order n" and "length i = n" and "length j = n" and "permuted order i = permuted order j"
  shows "i = j"
proof -
  obtain iv where "is_order iv n" "\<And>k. k < n \<Longrightarrow> order ! (iv ! k) = k" using inverse_order[OF assms(1)] by metis
  then show ?thesis using permuted_inverse[of _ n iv order] assms by (metis is_order_def)
qed

lemma permuted_add:
  "is_order order n \<Longrightarrow> length i = n \<Longrightarrow> length j = n \<Longrightarrow>
     permuted order (map (\<lambda>(a, b). a + b) (zip i j)) = map (\<lambda>(a, b). a + b) (zip (permuted order i) (permuted order j))"
  by (intro nth_equalityI) (auto simp: nth_permuted is_order_iff list_all_length)

definition permuted_subset :: "nat list \<Rightarrow> array_subset \<Rightarrow> array_subset" where
  "permuted_subset order r = \<lparr>sub_start = permuted order (sub_start r), sub_shape = permuted order (sub_shape r)\<rparr>"

lemma permuted_subset_fits:
  assumes "fits r s" and "is_order order (length s)"
  shows "fits (permuted_subset order r) (permuted order s)"
  using assms
  by (auto simp: fits_def wf_subset_def permuted_subset_def nth_permuted is_order_iff list_all_length)

lemma permuted_subset_covered:
  assumes "subset_covered r s" and "is_order order (length s)"
  shows "subset_covered (permuted_subset order r) (permuted order s)"
proof -
  have f: "fits r s" using assms(1) by (simp add: subset_covered_def)
  have l: "length (sub_start r) = length s" "length (sub_shape r) = length s" using f by (simp_all add: fits_def wf_subset_length)
  have "is_empty (permuted_subset order r) = is_empty r"
    using set_permuted[of order "sub_shape r"] assms(2) l by (simp add: is_empty_def permuted_subset_def list_ex_iff)
  then show ?thesis
    using assms permuted_subset_fits[OF f assms(2)] inb_permuted[OF assms(2) l(1) refl]
    by (simp add: subset_covered_def permuted_subset_def)
qed

lemma get_transposed_array_subset_ok:
  assumes "fits r s" and "shape_ok s" and "is_order order (length s)"
  shows "get_transposed_array_subset order r = Inr (permuted_subset order r)"
proof -
  have l: "length (sub_start r) = length s" "length (sub_shape r) = length s" using assms(1) by (simp_all add: fits_def wf_subset_length)
  have o: "length order = length s" "\<forall>k \<in> set order. k < length s" using assms(3) by (simp_all add: is_order_def)
  have "sub_start r ! k + sub_shape r ! k < M64" if "k < length s" for k
  proof (rule le_less_trans)
    show "sub_start r ! k + sub_shape r ! k \<le> s ! k" using assms(1) that by (simp add: fits_def)
    show "s ! k < M64" using assms(2) that by (simp add: shape_ok_def list_all_length)
  qed
  then have m: "map (\<lambda>(st, si). (st, wadd st si)) (zip (permuted order (sub_start r)) (permuted order (sub_shape r))) =
      map (\<lambda>k. (sub_start r ! k, sub_start r ! k + sub_shape r ! k)) order"
    using o by (auto simp: permuted_def zip_map_map wadd_eq zip_same_conv_map)
  have "get_transposed_array_subset order r =
      Inr (from_ranges (map (\<lambda>k. (sub_start r ! k, sub_start r ! k + sub_shape r ! k)) order))"
    unfolding get_transposed_array_subset_def dimensionality_def
    using l o(1) permute_expect_order[OF assms(3) l(1)] permute_expect_order[OF assms(3) l(2)] m by simp
  also have "from_ranges (map (\<lambda>k. (sub_start r ! k, sub_start r ! k + sub_shape r ! k)) order) = permuted_subset order r"
    by (simp add: from_ranges_def permuted_subset_def permuted_def saturating_sub_def comp_def)
  finally show ?thesis .
qed

lemma transposed_indices_ok:
  "\<forall>i \<in> set ids. length i = n \<Longrightarrow> is_order order n \<Longrightarrow> transposed_indices order ids = Inr (Some (map (permuted order) ids))"
  by (induction ids) (simp_all add: permute_order)


subsection \<open>The partial decoder\<close>

text \<open>The values \<open>vs'\<close> of the permuted array are the values \<open>vs\<close> at the permuted indices.\<close>

definition transposed_vals :: "nat list \<Rightarrow> chunk_shape \<Rightarrow> element list \<Rightarrow> element list \<Rightarrow> bool" where
  "transposed_vals order s vs vs' \<longleftrightarrow> (\<forall>i. inb i s \<longrightarrow> vs' ! lin (permuted order s) (permuted order i) = vs ! lin s i)"

definition transpose_ready :: "transpose_bound \<Rightarrow> chunk_shape \<Rightarrow> bool" where
  "transpose_ready T s \<longleftrightarrow> is_order (tr_order T) (length s) \<and> shape_ok s \<and> countable_size (tr_data_type T) (prod_list s) \<and>
     \<not> is_optional (tr_data_type T)"

lemma list_partial:
  assumes "transpose_ready T s" and "indexes s x" and "ix_as_array_subset x = None"
    and cl: "iclass \<noteq> NonemptySubsets" and d: "reads_array iclass (tr_data_type T) d (permuted (tr_order T) s) vs'" and vs: "transposed_vals (tr_order T) s vs vs'"
  shows "\<exists>b. transpose_partial_decode nd T iv d x = Inr b \<and> ab_ok (tr_data_type T) (length (ix_elements s x)) b \<and>
    vals (tr_data_type T) b = map ((!) vs) (ix_elements s x)"
proof -
  let ?o = "tr_order T"
  have o: "is_order ?o (length s)" and s: "shape_ok s" using assms(1) by (simp_all add: transpose_ready_def)
  have x: "covers s x" "distinct (ix_elements s x)" "ix_elements s x \<noteq> []" using assms(2,3) by (simp_all add: indexes_def)
  obtain ids where ids: "ix_indices x = Some ids" "ix_elements s x = map (lin s) ids" "\<forall>i \<in> set ids. inb i s"
    using ix_indices_covered[OF _ x(1)] s by (auto simp: shape_ok_def)
  have len: "\<forall>i \<in> set ids. length i = length s" using ids(3) by (auto dest: inb_length)
  have lo: "length ?o = length s" using o by (simp add: is_order_def)
  let ?x = "IndicesIndexer (map (permuted ?o) ids)"
  have inb: "\<forall>i \<in> set ids. inb (permuted ?o i) (permuted ?o s)" using inb_permuted[OF o _ refl] len ids(3) by blast
  have el: "ix_elements (permuted ?o s) ?x = map (\<lambda>i. lin (permuted ?o s) (permuted ?o i)) ids" by (simp add: comp_def)
  have "inj_on (\<lambda>i. lin (permuted ?o s) (permuted ?o i)) (set ids)"
  proof (rule inj_onI)
    fix i j assume ij: "i \<in> set ids" "j \<in> set ids" "lin (permuted ?o s) (permuted ?o i) = lin (permuted ?o s) (permuted ?o j)"
    then have "permuted ?o i = permuted ?o j" using unlin_lin inb by metis
    then show "i = j" using permuted_inj[OF o] len ij(1,2) by blast
  qed
  moreover have "distinct ids" using x(2) by (simp add: ids(2) distinct_map)
  ultimately have dis: "distinct (ix_elements (permuted ?o s) ?x)" unfolding el by (simp add: distinct_map)
  have "ids \<noteq> []" using x(3) by (simp add: ids(2))
  then have "indexes (permuted ?o s) ?x"
    using dis inb lo by (auto simp: indexes_def list_all_iff simp del: ix_elements.simps simp add: el split: list.splits)
  then have "asked iclass (permuted ?o s) ?x" using cl \<open>ids \<noteq> []\<close> by (simp add: asked_def el del: ix_elements.simps)
  then obtain b where b: "d ?x = Inr b" "ab_ok (tr_data_type T) (length (ix_elements (permuted ?o s) ?x)) b"
      "vals (tr_data_type T) b = map ((!) vs') (ix_elements (permuted ?o s) ?x)"
    using d unfolding reads_array_def by blast
  have "map ((!) vs') (ix_elements (permuted ?o s) ?x) = map ((!) vs) (ix_elements s x)"
    using vs ids(3) by (simp add: el ids(2) transposed_vals_def del: ix_elements.simps)
  then show ?thesis
    using b assms(3) ids(1) transposed_indices_ok[OF len o]
    by (simp add: transpose_partial_decode_def get_transposed_indexer_def ids(2) del: ix_elements.simps) (simp add: el)
qed


context ndarray
begin

lemma subset_partial:
  assumes "transpose_ready T s" and "asked iclass s (SubsetIndexer r)"
    and d: "reads_array iclass (tr_data_type T) d (permuted (tr_order T) s) vs'" and vs: "transposed_vals (tr_order T) s vs vs'"
    and iv: "is_order iv (length s)" "\<And>k. k < length s \<Longrightarrow> tr_order T ! (iv ! k) = k"
  shows "\<exists>b. transpose_partial_decode nd T iv d (SubsetIndexer r) = Inr b \<and>
    ab_ok (tr_data_type T) (length (ix_elements s (SubsetIndexer r))) b \<and>
    vals (tr_data_type T) b = map ((!) vs) (ix_elements s (SubsetIndexer r))"
proof -
  let ?o = "tr_order T" and ?t = "tr_data_type T"
  let ?r = "permuted_subset ?o r" and ?rs = "permuted ?o (sub_shape r)"
  have o: "is_order ?o (length s)" and s: "shape_ok s" and cs: "countable_size ?t (prod_list s)" and no: "\<not> is_optional ?t"
    using assms(1) by (simp_all add: transpose_ready_def)
  have r: "subset_covered r s" and f: "fits r s" using assms(2) by (simp_all add: asked_def indexes_def subset_covered_def)
  have lr: "length (sub_start r) = length s" "length (sub_shape r) = length s" using f by (simp_all add: fits_def wf_subset_length)
  have lo: "length ?o = length s" "length iv = length s" using o iv(1) by (simp_all add: is_order_def)
  have ps: "prod_list ?rs = prod_list (sub_shape r)" using prod_permuted[of ?o "sub_shape r"] o lr by simp
  have le: "prod_list (sub_shape r) \<le> prod_list s" by (rule fits_prod[OF f])
  have el: "length (ix_elements (permuted ?o s) (SubsetIndexer ?r)) = prod_list (sub_shape r)"
    "length (ix_elements s (SubsetIndexer r)) = prod_list (sub_shape r)"
    using length_box[of "sub_start ?r" "sub_shape ?r"] length_box[of "sub_start r" "sub_shape r"] lr ps
    by (simp_all add: permuted_subset_def)
  have ask: "asked iclass (permuted ?o s) (SubsetIndexer ?r)"
    using assms(2) indexes_subset[OF permuted_subset_covered[OF r o]] el by (simp add: asked_def flip: length_0_conv del: ix_elements.simps)
  obtain e where e: "d (SubsetIndexer ?r) = Inr e" "ab_ok ?t (prod_list (sub_shape r)) e"
      "vals ?t e = map ((!) vs') (ix_elements (permuted ?o s) (SubsetIndexer ?r))"
    using d ask unfolding reads_array_def el(1)[symmetric] by blast
  have "sub_shape r ! k < M64" if "k < length s" for k
    using f s that by (metis add_leD2 fits_def le_less_trans list_all_length shape_ok_def)
  then have "shape_ok ?rs"
    using le s ps o by (auto simp: shape_ok_def list_all_length nth_permuted is_order_iff)
  from apply_permutation_ok[of iv ?rs ?t e, OF _ this] obtain b where
    b: "apply_permutation nd e ?rs iv ?t = Inr b" "ab_ok ?t (prod_list (sub_shape r)) b" "vals ?t b = map ((!) (vals ?t e)) (nd ?rs iv)"
    using iv(1) countable_less[OF cs le] e(2) no lo(1) ps by auto
  have "vals ?t b = map ((!) vs) (ix_elements s (SubsetIndexer r))"
  proof (rule nth_equalityI)
    show l: "length (vals ?t b) = length (map ((!) vs) (ix_elements s (SubsetIndexer r)))"
      using length_vals[OF b(2)] el(2) by simp
    fix q assume "q < length (vals ?t b)"
    then have q: "q < prod_list (sub_shape r)" using length_vals[OF b(2)] by simp
    define j where "j = unlin (sub_shape r) q"
    have j: "inb j (sub_shape r)" "q = lin (sub_shape r) j" using q by (simp_all add: j_def inb_unlin lin_unlin)
    have lj: "length j = length s" using inb_length[OF j(1)] lr by simp
    have pj: "inb (permuted ?o j) ?rs" using inb_permuted[OF o lj lr(2)] j(1) by simp
    have inverted: "permuted iv ?rs = sub_shape r" "permuted iv (permuted ?o j) = j"
      by (rule permuted_inverse; use lr lj lo o iv in simp)+
    have v: "nd ?rs iv ! q = lin ?rs (permuted ?o j)"
      using view_nth[of iv ?rs "permuted ?o j"] iv(1) pj lo(1) by (simp add: inverted j(2))
    have len: "length (nd ?rs iv) = prod_list (sub_shape r)" using view_length[of iv ?rs] iv(1) lo(1) ps by simp
    define i where "i = map (\<lambda>(a, b). a + b) (zip j (sub_start r))"
    have bx: "box (sub_start r) (sub_shape r) ! q = i" using box_nth[of "sub_start r" "sub_shape r" j] j lr by (simp add: i_def)
    have bx': "box (sub_start ?r) (sub_shape ?r) ! lin ?rs (permuted ?o j) = permuted ?o i"
      using box_nth[of "sub_start ?r" "sub_shape ?r" "permuted ?o j"] pj permuted_add[OF o lj lr(1)]
      by (simp add: i_def permuted_subset_def)
    have "q < length (box (sub_start r) (sub_shape r))" using q length_box[of "sub_start r" "sub_shape r"] lr by simp
    then have i: "inb i s" using fits_inb[OF f, of i] bx nth_mem by metis
    have lp: "lin ?rs (permuted ?o j) < prod_list (sub_shape r)" using lin_less[OF pj] ps by simp
    have "vals ?t b ! q = vals ?t e ! lin ?rs (permuted ?o j)" using b(3) v q len by simp
    also have "\<dots> = vs' ! lin (permuted ?o s) (permuted ?o i)"
      using e(3) lp el(1) bx' by simp
    also have "\<dots> = vs ! lin s i" using vs i by (simp add: transposed_vals_def)
    also have "\<dots> = map ((!) vs) (ix_elements s (SubsetIndexer r)) ! q" using q el(2) bx by simp
    finally show "vals ?t b ! q = map ((!) vs) (ix_elements s (SubsetIndexer r)) ! q" .
  qed
  then show ?thesis
    using e(1) b(1,2) el(2) get_transposed_array_subset_ok[OF f s o] permute_expect_order[OF o lr(2)]
    by (simp add: transpose_partial_decode_def transpose_partial_decode_bytes_def del: ix_elements.simps apply_permutation.simps)
qed

lemma transpose_partial_ok:
  assumes "transpose_ready T s" and "reads_array iclass (tr_data_type T) d (permuted (tr_order T) s) vs'"
    and "transposed_vals (tr_order T) s vs vs'"
  shows "\<exists>d'. aa_partial_decoder (transpose_codec nd T) opt d s = Inr d' \<and> reads_array iclass (tr_data_type T) d' s vs"
proof -
  have o: "is_order (tr_order T) (length s)" using assms(1) by (simp add: transpose_ready_def)
  obtain iv where iv: "inverse_permutation (tr_order T) = Inr iv" "is_order iv (length s)"
      "\<And>k. k < length s \<Longrightarrow> tr_order T ! (iv ! k) = k"
    using inverse_order[OF o] by metis
  have "reads_array iclass (tr_data_type T) (transpose_partial_decode nd T iv d) s vs"
    unfolding reads_array_def
  proof (intro allI impI)
    fix x assume a: "asked iclass s x"
    note x = asked_indexes[OF a]
    show "\<exists>b. transpose_partial_decode nd T iv d x = Inr b \<and> ab_ok (tr_data_type T) (length (ix_elements s x)) b \<and>
        vals (tr_data_type T) b = map ((!) vs) (ix_elements s x)"
    proof (cases "ix_as_array_subset x")
      case None
      then have "iclass \<noteq> NonemptySubsets" using a by (auto simp: asked_def)
      then show ?thesis using list_partial[OF assms(1) x None _ assms(2,3)] by simp
    next
      case (Some r)
      then have "x = SubsetIndexer r" by (cases x) simp_all
      then show ?thesis using subset_partial[OF assms(1) _ assms(2,3) iv(2,3)] a by blast
    qed
  qed
  then show ?thesis using iv(1) by (simp add: transpose_codec_def)
qed

definition transpose_accepts :: "transpose_bound \<Rightarrow> chunk_shape \<Rightarrow> array_bytes \<Rightarrow> bool" where
  "transpose_accepts T s b \<longleftrightarrow> transpose_ready T s \<and> ab_ok (tr_data_type T) (prod_list s) b"

lemma transpose_encoded:
  assumes "transpose_accepts T s b"
  shows "transpose_encoded_shape T s = Inr (permuted (tr_order T) s)" and "shape_ok (permuted (tr_order T) s)"
    and "prod_list (permuted (tr_order T) s) = prod_list s"
    and "\<exists>e. transpose_encode nd T b s = Inr e \<and> ab_ok (tr_data_type T) (prod_list s) e \<and>
      vals (tr_data_type T) e = map ((!) (vals (tr_data_type T) b)) (nd s (tr_order T))"
proof -
  have r: "is_order (tr_order T) (length s)" "shape_ok s" "countable_size (tr_data_type T) (prod_list s)"
      "\<not> is_optional (tr_data_type T)" "ab_ok (tr_data_type T) (prod_list s) b"
    using assms by (simp_all add: transpose_accepts_def transpose_ready_def)
  then show "transpose_encoded_shape T s = Inr (permuted (tr_order T) s)"
    using permute_expect_order[OF r(1) refl] by (simp add: transpose_encoded_shape_def is_order_def)
  show p: "prod_list (permuted (tr_order T) s) = prod_list s" by (rule prod_permuted[OF r(1)])
  show "shape_ok (permuted (tr_order T) s)"
    using r(2) set_permuted[OF r(1)] by (simp add: shape_ok_def p list_all_iff)
  show "\<exists>e. transpose_encode nd T b s = Inr e \<and> ab_ok (tr_data_type T) (prod_list s) e \<and>
      vals (tr_data_type T) e = map ((!) (vals (tr_data_type T) b)) (nd s (tr_order T))"
    using apply_permutation_ok[OF r(1-3,5,4)] r(1,4)
    by (simp add: transpose_encode_def transpose_validate_def is_order_def del: apply_permutation.simps)
qed

lemma transpose_decoded:
  assumes "transpose_accepts T s b" and "ab_ok (tr_data_type T) (prod_list s) e"
    and "vals (tr_data_type T) e = map ((!) (vals (tr_data_type T) b)) (nd s (tr_order T))"
  shows "\<exists>b'. transpose_decode nd T e s = Inr b' \<and> ab_ok (tr_data_type T) (prod_list s) b' \<and>
    vals (tr_data_type T) b' = vals (tr_data_type T) b"
proof -
  let ?o = "tr_order T" and ?t = "tr_data_type T"
  have r: "is_order ?o (length s)" "countable_size ?t (prod_list s)" "\<not> is_optional ?t" "ab_ok ?t (prod_list s) b"
    using assms(1) by (simp_all add: transpose_accepts_def transpose_ready_def)
  note p = transpose_encoded(2,3)[OF assms(1)]
  obtain iv where iv: "inverse_permutation ?o = Inr iv" "is_order iv (length s)" "\<And>k. k < length s \<Longrightarrow> ?o ! (iv ! k) = k"
    using inverse_order[OF r(1)] by metis
  have lo: "length ?o = length s" using r(1) by (simp add: is_order_def)
  obtain b' where b': "apply_permutation nd e (permuted ?o s) iv ?t = Inr b'" "ab_ok ?t (prod_list s) b'"
      "vals ?t b' = map ((!) (vals ?t e)) (nd (permuted ?o s) iv)"
    using apply_permutation_ok[of iv "permuted ?o s" ?t e] iv(2) p r(2,3) assms(2) lo by auto
  have "vals ?t b' = vals ?t b"
  proof (rule nth_equalityI)
    show l: "length (vals ?t b') = length (vals ?t b)" using length_vals[OF b'(2)] length_vals[OF r(4)] by simp
    fix q assume "q < length (vals ?t b')"
    then have q: "q < prod_list s" using length_vals[OF b'(2)] by simp
    have "nd (permuted ?o s) iv ! q < prod_list s" "nd s ?o ! (nd (permuted ?o s) iv ! q) = q"
      using view_inverse[OF r(1) iv(2,3) q] by blast+
    then show "vals ?t b' ! q = vals ?t b ! q"
      using b'(3) assms(3) q view_length[OF r(1)] view_length[of iv "permuted ?o s"] iv(2) lo p(2) by simp
  qed
  then show ?thesis
    using b'(1,2) iv(1) permute_expect_order[OF r(1) refl] r(3) lo
    by (simp add: transpose_decode_def transpose_validate_def del: apply_permutation.simps)
qed

lemma transposed_vals_view:
  assumes "is_order order (length s)"
  shows "transposed_vals order s vs (map ((!) vs) (nd s order))"
  unfolding transposed_vals_def
proof (intro allI impI)
  fix i assume i: "inb i s"
  have "lin (permuted order s) (permuted order i) < length (nd s order)"
    using lin_less[of "permuted order i" "permuted order s"] inb_permuted[OF assms _ refl, of i] i inb_length[OF i]
      view_length[OF assms] prod_permuted[OF assms] by simp
  then show "map ((!) vs) (nd s order) ! lin (permuted order s) (permuted order i) = vs ! lin s i"
    using view_nth[OF assms i] by simp
qed

lemma transposed_vals_fill:
  assumes "is_order order (length s)"
  shows "transposed_vals order s (fill_vals t fv s) (fill_vals t fv (permuted order s))"
  unfolding transposed_vals_def
proof (intro allI impI)
  fix i assume i: "inb i s"
  have "inb (permuted order i) (permuted order s)" using inb_permuted[OF assms inb_length[OF i] refl] i by simp
  then show "fill_vals t fv (permuted order s) ! lin (permuted order s) (permuted order i) = fill_vals t fv s ! lin s i"
    using lin_less[OF i] lin_less[of "permuted order i" "permuted order s"] by (simp add: fill_vals_def)
qed

end

sublocale ndarray \<subseteq> transpose: array_to_array_codec "transpose_codec nd T" "transpose_accepts T" iclass for T iclass
proof (unfold_locales, goal_cases)
  case (1 s b)
  then show ?case
    using transpose_encoded(1,2)[OF 1] by (simp add: transpose_codec_def transpose_accepts_def transpose_ready_def)
next
  case (2 s b s' opt)
  have s': "s' = permuted (tr_order T) s" using transpose_encoded(1)[OF 2(1)] 2(2) by (simp add: transpose_codec_def)
  obtain e where "transpose_encode nd T b s = Inr e"
      "vals (tr_data_type T) e = map ((!) (vals (tr_data_type T) b)) (nd s (tr_order T))"
    using transpose_encoded(4)[OF 2(1)] by blast
  then show ?case
    using transpose_decoded[OF 2(1)] transpose_encoded(3)[OF 2(1)] by (auto simp: transpose_codec_def s')
next
  case (3 s b s' opt e d opt')
  have s': "s' = permuted (tr_order T) s" using transpose_encoded(1)[OF 3(1)] 3(2) by (simp add: transpose_codec_def)
  have r: "transpose_ready T s" using 3(1) by (simp add: transpose_accepts_def)
  then have "transposed_vals (tr_order T) s (vals (tr_data_type T) b) (vals (tr_data_type T) e)"
    using transpose_encoded(4)[OF 3(1)] 3(3) transposed_vals_view[of "tr_order T" s] by (auto simp: transpose_codec_def transpose_ready_def)
  from transpose_partial_ok[OF r _ this] 3(4) show ?case by (simp add: transpose_codec_def s')
next
  case (4 s b s')
  have s': "s' = permuted (tr_order T) s" using transpose_encoded(1)[OF 4(1)] 4(2) by (simp add: transpose_codec_def)
  show ?case using 4(3) transpose_encoded(3)[OF 4(1)] by (simp add: transpose_codec_def s' fill_ready_def)
next
  case (5 s b s' d opt')
  have s': "s' = permuted (tr_order T) s" using transpose_encoded(1)[OF 5(1)] 5(2) by (simp add: transpose_codec_def)
  have r: "transpose_ready T s" using 5(1) by (simp add: transpose_accepts_def)
  have "transposed_vals (tr_order T) s (fill_vals (tr_data_type T) (tr_fill_value T) s)
      (fill_vals (tr_data_type T) (tr_fill_value T) (permuted (tr_order T) s))"
    using r transposed_vals_fill by (simp add: transpose_ready_def)
  from transpose_partial_ok[OF r _ this] 5(4) show ?case by (simp add: transpose_codec_def s')
qed

end
