(* ===== verification/Shuffle_Codec.thy ===== *)
theory Shuffle_Codec
  imports Codec_Base
begin

text \<open>
  The \<open>shuffle\<close> codec (\<open>zarrs/src/array/codec/bytes_to_bytes/shuffle/shuffle_codec.rs\<close>): the bytes of
  the elements are transposed, so that the bytes of equal significance are adjacent.  The loops are the
  nested loops of the code over a mutable copy; an element size of zero panics in \<open>div_ceil\<close> (\<open>CodecPanic\<close>).
\<close>

definition shuffle_error :: string where
  "shuffle_error = ''the shuffle codec expects the input byte length to be an integer multiple of the elementsize''"

definition is_multiple_of :: "usize \<Rightarrow> usize \<Rightarrow> bool" where
  "is_multiple_of n m \<longleftrightarrow> (if m = 0 then n = 0 else n mod m = 0)"

definition shuffle_loop :: "usize \<Rightarrow> usize \<Rightarrow> bytes \<Rightarrow> bytes" where
  "shuffle_loop elementsize count decoded_value =
     foldl (\<lambda>encoded_value i.
         let off = i * elementsize in
         foldl (\<lambda>encoded_value byte_index.
             let j = byte_index * count + i in encoded_value[j := decoded_value ! (off + byte_index)])
           encoded_value [0..<elementsize])
       decoded_value [0..<count]"

definition unshuffle_loop :: "usize \<Rightarrow> usize \<Rightarrow> bytes \<Rightarrow> bytes" where
  "unshuffle_loop elementsize count encoded_value =
     foldl (\<lambda>decoded_value i.
         let off = i * count in
         foldl (\<lambda>decoded_value byte_index.
             let j = byte_index * elementsize + i in decoded_value[j := encoded_value ! (off + byte_index)])
           decoded_value [0..<count])
       encoded_value [0..<elementsize]"

definition shuffle_encode :: "usize \<Rightarrow> bytes \<Rightarrow> codec_error + bytes" where
  "shuffle_encode elementsize decoded_value =
     (if \<not> is_multiple_of (length decoded_value) elementsize then Inl (CodecOther shuffle_error)
      else if elementsize = 0 then Inl CodecPanic
      else Inr (shuffle_loop elementsize (div_ceil (length decoded_value) elementsize) decoded_value))"

definition shuffle_decode :: "usize \<Rightarrow> bytes \<Rightarrow> codec_error + bytes" where
  "shuffle_decode elementsize encoded_value =
     (if \<not> is_multiple_of (length encoded_value) elementsize then Inl (CodecOther shuffle_error)
      else if elementsize = 0 then Inl CodecPanic
      else Inr (unshuffle_loop elementsize (div_ceil (length encoded_value) elementsize) encoded_value))"

definition shuffle_codec :: "usize \<Rightarrow> bytes_codec" where
  "shuffle_codec elementsize =
     \<lparr>bb_encode = shuffle_encode elementsize,
      bb_decode = (\<lambda>_ _. shuffle_decode elementsize),
      bb_partial_decoder = default_partial_decoder (\<lambda>_ _. shuffle_decode elementsize),
      bb_encoded_representation = (\<lambda>r. r),
      bb_capability = \<lparr>can_partial_read = False, can_partial_decode = False\<rparr>,
      bb_recommended_concurrency = (\<lambda>_. Inr (recommended_new 0 1))\<rparr>"

subsection \<open>Loops of assignments\<close>

text \<open>Assigning \<open>g p\<close> at the distinct positions \<open>f p\<close> writes each of them and nothing else.\<close>

lemma length_assign_loop: "length (foldl (\<lambda>xs p. xs[f p := g p]) xs ps) = length xs"
  by (induction ps arbitrary: xs) simp_all

lemma assign_loop_other: "j \<notin> f ` set ps \<Longrightarrow> foldl (\<lambda>xs p. xs[f p := g p]) xs ps ! j = xs ! j"
  by (induction ps arbitrary: xs) simp_all

lemma assign_loop_nth:
  "distinct (map f ps) \<Longrightarrow> p \<in> set ps \<Longrightarrow> f p < length xs \<Longrightarrow>
     foldl (\<lambda>xs p. xs[f p := g p]) xs ps ! f p = g p"
proof (induction ps arbitrary: xs)
  case (Cons q ps)
  show ?case
  proof (cases "p = q")
    case True
    then have "f p \<notin> f ` set ps" using Cons.prems(1) by simp
    then show ?thesis using True Cons.prems(3) by (simp add: assign_loop_other)
  next
    case False
    then show ?thesis using Cons by simp
  qed
qed simp

lemma foldl_product:
  "foldl (\<lambda>acc i. foldl (\<lambda>acc j. h acc i j) acc js) acc is = foldl (\<lambda>acc (i, j). h acc i j) acc (List.product is js)"
proof (induction "is" arbitrary: acc)
  case (Cons i "is")
  have "foldl (\<lambda>acc (i, j). h acc i j) acc (map (Pair i) js) = foldl (\<lambda>acc j. h acc i j) acc js" for acc
    by (induction js arbitrary: acc) simp_all
  then show ?case using Cons by simp
qed simp

text \<open>A transposition of an \<open>m\<close> by \<open>n\<close> matrix of bytes.\<close>

lemma transpose_loop_nth:
  fixes xs :: "'a list"
  assumes "length xs = m * n" and "a < m" and "b < n"
  shows "foldl (\<lambda>acc i. foldl (\<lambda>acc j. acc[j * m + i := xs ! (i * n + j)]) acc [0..<n]) xs [0..<m] ! (b * m + a) =
     xs ! (a * n + b)"
proof -
  let ?f = "\<lambda>(i, j). j * m + i"
  let ?ps = "List.product [0..<m] [0..<n]"
  have uniq: "(i :: nat) = i' \<and> j = j'" if eq: "j * m + i = j' * m + i'" and lt: "i < m" "i' < m" for i j i' j'
    using arg_cong[OF eq, of "\<lambda>x. x div m"] arg_cong[OF eq, of "\<lambda>x. x mod m"] lt by simp
  have "inj_on ?f (set ?ps)"
  proof (rule inj_onI)
    fix p q assume m: "p \<in> set ?ps" "q \<in> set ?ps" and eq: "?f p = ?f q"
    obtain i j i' j' where p: "p = (i, j)" and q: "q = (i', j')" by (metis prod.exhaust)
    have "i = i' \<and> j = j'" by (rule uniq) (use m eq p q in simp_all)
    then show "p = q" by (simp add: p q)
  qed
  then have d: "distinct (map ?f ?ps)" by (simp add: distinct_map distinct_product)
  have "b * m + a < Suc b * m" using assms(2) by simp
  also have "Suc b * m \<le> n * m" using assms(3) by (intro mult_le_mono1) simp
  finally have lt: "?f (a, b) < length xs" using assms(1) by (simp add: mult.commute)
  have "foldl (\<lambda>acc i. foldl (\<lambda>acc j. acc[j * m + i := xs ! (i * n + j)]) acc [0..<n]) xs [0..<m] =
      foldl (\<lambda>acc p. acc[?f p := (\<lambda>(i, j). xs ! (i * n + j)) p]) xs ?ps"
    by (simp add: foldl_product case_prod_beta')
  then show ?thesis using assign_loop_nth[OF d _ lt, of "\<lambda>(i, j). xs ! (i * n + j)"] assms by simp
qed

lemma transpose_loop_length:
  "length (foldl (\<lambda>acc i. foldl (\<lambda>acc j. acc[j * m + i := xs ! (i * n + j)]) acc js) ys is) = length ys"
proof -
  have "length (foldl (\<lambda>acc j. acc[j * m + i := xs ! (i * n + j)]) acc js) = length acc" for acc i
    by (rule length_assign_loop)
  then show ?thesis by (induction "is" arbitrary: ys) simp_all
qed

lemma shuffle_loop_nth:
  assumes "length b = count * es" and "i < count" and "k < es"
  shows "shuffle_loop es count b ! (k * count + i) = b ! (i * es + k)"
  using transpose_loop_nth[OF assms] by (simp add: shuffle_loop_def Let_def)

lemma unshuffle_loop_nth:
  assumes "length b = count * es" and "i < count" and "k < es"
  shows "unshuffle_loop es count b ! (i * es + k) = b ! (k * count + i)"
  using transpose_loop_nth[of b es count k i] assms by (simp add: unshuffle_loop_def Let_def mult.commute)

lemma length_shuffle_loop [simp]:
  "length (shuffle_loop es count b) = length b" "length (unshuffle_loop es count b) = length b"
  by (simp_all add: shuffle_loop_def unshuffle_loop_def Let_def transpose_loop_length)

lemma unshuffle_shuffle:
  assumes "length b = count * es" and "0 < es"
  shows "unshuffle_loop es count (shuffle_loop es count b) = b"
proof (rule nth_equalityI)
  fix j assume j: "j < length (unshuffle_loop es count (shuffle_loop es count b))"
  define i k where "i = j div es" and "k = j mod es"
  have jk: "j = i * es + k" and k: "k < es" using assms(2) by (simp_all add: i_def k_def)
  have i: "i < count" using j assms by (simp add: i_def less_mult_imp_div_less)
  show "unshuffle_loop es count (shuffle_loop es count b) ! j = b ! j"
    unfolding jk using unshuffle_loop_nth[OF _ i k, of "shuffle_loop es count b"] shuffle_loop_nth[OF assms(1) i k] assms(1)
    by simp
qed simp

subsection \<open>The contract\<close>

definition shuffle_accepts :: "usize \<Rightarrow> bytes \<Rightarrow> bool" where
  "shuffle_accepts es b \<longleftrightarrow> 0 < es \<and> length b mod es = 0 \<and> length b < M64"

lemma shuffle_roundtrip:
  assumes "shuffle_accepts es b"
  shows "\<exists>e. shuffle_encode es b = Inr e \<and> length e = length b \<and> shuffle_decode es e = Inr b"
proof -
  have es: "0 < es" "length b mod es = 0" using assms by (simp_all add: shuffle_accepts_def)
  then have c: "div_ceil (length b) es = length b div es" by (simp add: div_ceil_def)
  have "length b = length b div es * es" using es(2) by (metis add.right_neutral div_mult_mod_eq)
  from unshuffle_shuffle[OF this es(1)] show ?thesis
    using es c by (simp add: shuffle_encode_def shuffle_decode_def is_multiple_of_def)
qed

lemma shuffle_lawful:
  assumes "R (FromStart 0 None)"
  shows "bytes_to_bytes_codec (shuffle_codec es) (shuffle_accepts es) R"
proof (unfold_locales, goal_cases)
  case 1
  show ?case by (rule assms)
next
  case (2 b)
  then show ?case using shuffle_roundtrip[OF 2] by (auto simp: shuffle_codec_def shuffle_accepts_def)
next
  case (3 b e n)
  then show ?case using shuffle_roundtrip[OF 3(1)] by (auto simp: shuffle_codec_def)
next
  case (4 b e d validate r)
  then show ?case using shuffle_roundtrip[OF 4(1)] default_partial_decoder_ok[of R d e] assms
    by (auto simp: shuffle_codec_def shuffle_accepts_def)
next
  case (5 b e d validate r)
  then show ?case using assms by (auto simp: shuffle_codec_def intro: default_partial_decoder_absent)
next
  case (6 r)
  then show ?case by (simp add: shuffle_codec_def)
qed

interpretation shuffle: bytes_to_bytes_codec "shuffle_codec es" "shuffle_accepts es" "\<lambda>_. True" for es
  by (rule shuffle_lawful) simp

text \<open>
  Property C36.  The shuffle codec round-trips every value whose length is a multiple of the element
  size: encoding succeeds, byte \<open>k\<close> of element \<open>i\<close> is at position \<open>k * count + i\<close>, decoding restores the
  value; and any other length is an error in both directions.
\<close>

theorem shuffle_correct:
  assumes "0 < es" and "length b < M64"
  shows "(length b mod es = 0 \<longrightarrow>
       (\<exists>e. shuffle_encode es b = Inr e \<and> length e = length b \<and> shuffle_decode es e = Inr b \<and>
          (\<forall>i k. i < length b div es \<and> k < es \<longrightarrow> e ! (k * (length b div es) + i) = b ! (i * es + k)))) \<and>
     (length b mod es \<noteq> 0 \<longrightarrow>
       shuffle_encode es b = Inl (CodecOther shuffle_error) \<and> shuffle_decode es b = Inl (CodecOther shuffle_error))"
proof (intro conjI impI)
  assume m: "length b mod es = 0"
  have c: "div_ceil (length b) es = length b div es" using m by (simp add: div_ceil_def)
  have len: "length b = length b div es * es" using m by (metis add.right_neutral div_mult_mod_eq)
  have enc: "shuffle_encode es b = Inr (shuffle_loop es (length b div es) b)"
    using assms(1) m c by (simp add: shuffle_encode_def is_multiple_of_def)
  have "shuffle_decode es (shuffle_loop es (length b div es) b) = Inr b"
    using unshuffle_shuffle[OF len assms(1)] assms(1) m c by (simp add: shuffle_decode_def is_multiple_of_def)
  then show "\<exists>e. shuffle_encode es b = Inr e \<and> length e = length b \<and> shuffle_decode es e = Inr b \<and>
      (\<forall>i k. i < length b div es \<and> k < es \<longrightarrow> e ! (k * (length b div es) + i) = b ! (i * es + k))"
    using enc shuffle_loop_nth[OF len] by (intro exI[of _ "shuffle_loop es (length b div es) b"]) simp
qed (use assms in \<open>simp_all add: shuffle_encode_def shuffle_decode_def is_multiple_of_def\<close>)

theorem shuffle_correct_witness:
  "shuffle_encode 2 [1, 2, 3, 4, 5, 6] = Inr [1, 3, 5, 2, 4, 6] \<and>
   shuffle_decode 2 [1, 3, 5, 2, 4, 6] = Inr [1, 2, 3, 4, 5, 6]"
proof -
  have e: "shuffle_encode 2 [1, 2, 3, 4, 5, 6] = Inr [1, 3, 5, 2, 4, 6]"
    by (simp add: shuffle_encode_def is_multiple_of_def shuffle_loop_def div_ceil_def upt_rec)
  have "0 < (2::nat)" "length [1, 2, 3, 4, 5, 6::u8] < M64" by (simp_all add: M64_def)
  from shuffle_correct[OF this] e show ?thesis by auto
qed

end
