(* ===== verification/Array_Reads.thy ===== *)
theory Array_Reads
  imports Array_Laws
begin

text \<open>
  Reading a region of an array: \<open>retrieve_array_subset\<close> and \<open>retrieve_array_subset_into\<close> return the values of the array
  at the region, in any order of the chunks and whatever the output buffers hold before.
\<close>

text \<open>A region: within the array, and small enough for its values to be in memory.\<close>

definition region_ok :: "'s array \<Rightarrow> nat \<Rightarrow> array_subset \<Rightarrow> bool" where
  "region_ok A z r \<longleftrightarrow> wf_subset r \<and> inbounds_shape r (array_shape_of A) \<and> prod_list (sub_shape r) + 1 < M64 \<and>
     prod_list (sub_shape r) * z < M64"

context array_on_store
begin

lemma region_facts:
  assumes "region_ok A z r"
  shows "wf_subset r" and "inbounds_shape r (array_shape_of A)" and "dimensionality r = array_dimensionality A"
    and "num_elements r = prod_list (sub_shape r)" and "small_array (sub_shape r) z"
    and "countable_size dt (prod_list (sub_shape r))" and "wmul (num_elements r) z = prod_list (sub_shape r) * z"
  using assms fixed
  by (auto simp: region_ok_def inbounds_shape_def dimensionality_def array_dimensionality_def num_elements_def wprod_eq
      small_array_def countable_size_def wmul_eq split: if_splits)

text \<open>The part of a chunk in a region, as a subset of the chunk and as a subset of the region.\<close>

lemma part_in_chunk_and_region:
  assumes "region_ok A z r" and "chunk c" and "elements (area c) \<inter> elements r \<noteq> {}"
  obtains p q s where "array_overlap (area c) r = Inr p" and "array_overlap r (area c) = Inr p" and "wf_subset p"
    and "elements p = elements (area c) \<inter> elements r"
    and "array_relative_to p (sub_start r) = Inr q" and "subset_covered q (sub_shape r)"
    and "sub_idx (sub_shape r) q = map (pos r) (box (sub_start p) (sub_shape p))"
    and "array_relative_to p (sub_start (area c)) = Inr s" and "subset_covered s (dims c)"
    and "sub_idx (dims c) s = map (pos (area c)) (box (sub_start p) (sub_shape p))"
proof -
  note r = region_facts(1,2)[OF assms(1), unfolded array_shape_of_def]
  show ?thesis
    by (rule grid.part_in_chunk_and_region[OF r assms(2,3)], rule that)
      (simp_all only: array_overlap_def array_relative_to_def map_err_simps area_facts(7)[OF assms(2), symmetric])
qed

definition read_done ::
    "(u64 list \<Rightarrow> element) \<Rightarrow> array_subset \<Rightarrow> u64 list set \<Rightarrow> bytes \<times> bytes list \<Rightarrow> bool" where
  "read_done f r D bufs \<longleftrightarrow> buffers_ok dt (prod_list (sub_shape r)) (fst bufs) (snd bufs) \<and>
     (\<forall>i \<in> elements r. (\<exists>c \<in> D. i \<in> elements (area c)) \<longrightarrow>
        vals dt (with_optional_masks (FixedBytes (fst bufs)) (snd bufs)) ! pos r i = f i)"

lemma retrieve_fixed_step_ok:
  assumes "ok st" and "array_holds A acc contents st f" and "region_ok A z r" and "chunk c"
    and "elements (area c) \<inter> elements r \<noteq> {}" and "read_done f r D bufs"
  shows "\<exists>bufs'. retrieve_fixed_step A opt st r z c bufs = Inr bufs' \<and> read_done f r (insert c D) bufs'"
proof -
  obtain p q s where p: "array_overlap (area c) r = Inr p" "wf_subset p" "elements p = elements (area c) \<inter> elements r"
    and q: "array_relative_to p (sub_start r) = Inr q" "subset_covered q (sub_shape r)"
      "sub_idx (sub_shape r) q = map (pos r) (box (sub_start p) (sub_shape p))"
    and s: "array_relative_to p (sub_start (area c)) = Inr s" "subset_covered s (dims c)"
      "sub_idx (dims c) s = map (pos (area c)) (box (sub_start p) (sub_shape p))"
    using part_in_chunk_and_region[OF assms(3-5)] by metis
  note r = region_facts[OF assms(3)]
  have V: "chunk_holds A acc contents st c (subset_values f (area c))"
    using assms(2,4) by (simp add: array_holds_def)
  obtain v vs where v: "view_new (fst bufs) z (sub_shape r) q = Inr v"
      "collect_res (map (\<lambda>m. view_new m 1 (sub_shape r) q) (snd bufs)) = Inr vs"
      "target_ok dt (sub_shape r) q (build_nested_optional_target (v, fst bufs) (zip vs (snd bufs)))"
      "target_bytes (build_nested_optional_target (v, fst bufs) (zip vs (snd bufs))) =
         with_optional_masks (FixedBytes (fst bufs)) (snd bufs)"
    using buffers_ok_views[OF q(2) r(5) _ fixed(1)] assms(6) unfolding read_done_def by blast
  let ?T = "build_nested_optional_target (v, fst bufs) (zip vs (snd bufs))"
  have f: "fits q (sub_shape r)" using q(2) by (simp add: subset_covered_def)
  have l: "sub_shape q = sub_shape s" using array_relative_to_shape q(1) s(1) by metis
  have ne: "sub_idx (dims c) s \<noteq> []"
    using set_box[OF p(2)] p(3) assms(5) unfolding s(3) by auto
  obtain T' where T': "retrieve_chunk_subset_into A opt st c s ?T = Inr T'" "target_ok dt (sub_shape r) q T'"
      "vals dt (target_bytes T') = scatter (vals dt (target_bytes ?T)) (sub_idx (sub_shape r) q)
         (map ((!) (subset_values f (area c))) (sub_idx (dims c) s))"
    using retrieve_chunk_subset_into_ok[OF assms(1,4) V s(2) f small_array_prod[OF r(5)] v(3) l ne] by blast
  obtain d' ms' v' where e: "extract_target_views T' = ((v', d'), ms')" by (metis prod.exhaust)
  have b: "buffers_ok dt (prod_list (sub_shape r)) d' (map snd ms')"
    "with_optional_masks (FixedBytes d') (map snd ms') = target_bytes T'"
    using target_ok_extract[OF T'(2)] e by simp_all
  have "length (vals dt (with_optional_masks (FixedBytes (fst bufs)) (snd bufs))) = prod_list (sub_shape r)"
    using assms(6) buffers_ok_bytes length_vals unfolding read_done_def by blast
  note step = grid.read_step_values[OF r(1) assms(4) p(2,3) this T'(3)[unfolded q(3) s(3) v(4)]]
  have "read_done f r (insert c D) (d', map snd ms')"
    unfolding read_done_def fst_conv snd_conv b(2)
    using b(1) step[of D] assms(6)[unfolded read_done_def] by blast
  then show ?thesis
    using area_facts(6)[OF assms(4)] p(1) q(1) v(1,2) s(1) T'(1) e
    by (simp add: retrieve_fixed_step_def)
qed

lemma read_done_all:
  assumes "region_ok A z r" and "read_done f r D bufs" and "\<And>i. i \<in> elements r \<Longrightarrow> \<exists>c \<in> D. i \<in> elements (area c)"
  shows "ab_ok dt (prod_list (sub_shape r)) (with_optional_masks (FixedBytes (fst bufs)) (snd bufs)) \<and>
     vals dt (with_optional_masks (FixedBytes (fst bufs)) (snd bufs)) = subset_values f r"
proof
  show a: "ab_ok dt (prod_list (sub_shape r)) (with_optional_masks (FixedBytes (fst bufs)) (snd bufs))"
    using assms(2) buffers_ok_bytes unfolding read_done_def by blast
  show "vals dt (with_optional_masks (FixedBytes (fst bufs)) (snd bufs)) = subset_values f r"
    using assms(2,3) length_vals[OF a] unfolding read_done_def
    by (intro subset_values_eqI[OF region_facts(1)[OF assms(1)]]) blast+
qed

lemma new_buffers:
  assumes "dt_size t = SizeFixed y" and "0 < y" and "n * y < M64" and "length d = n * y" and "length m = n"
  shows "buffers_ok t n d (replicate (optional_nesting_depth t) m)"
  using assms by (induction t) simp_all

lemma retrieve_multi_chunk_fixed_ok:
  assumes "ok st" and "array_holds A acc contents st f" and "region_ok A z r" and "schedule sched" and "allocates junk"
    and "indices_collect (indices_new cs) = box (sub_start cs) (sub_shape cs)"
    and "set (box (sub_start cs) (sub_shape cs)) = {c. chunk c \<and> elements (area c) \<inter> elements r \<noteq> {}}"
    and "\<And>i. i \<in> elements r \<Longrightarrow> \<exists>c \<in> set (box (sub_start cs) (sub_shape cs)). i \<in> elements (area c)"
  shows "\<exists>b. retrieve_multi_chunk_fixed sched junk A opt st r cs = Inr b \<and> ab_ok dt (prod_list (sub_shape r)) b \<and>
     vals dt b = subset_values f r"
proof -
  let ?B = "box (sub_start cs) (sub_shape cs)"
  note r = region_facts[OF assms(3)]
  define bufs where "bufs = (junk (wmul (num_elements r) z), replicate (optional_nesting_depth dt) (junk (num_elements r)))"
  have "buffers_ok dt (prod_list (sub_shape r)) (fst bufs) (snd bufs)"
    using assms(3,5) unfolding bufs_def fst_conv snd_conv r(7) unfolding r(4)
    by (intro new_buffers[OF fixed]) (simp_all add: region_ok_def allocates_def)
  then have "read_done f r {} bufs" by (simp add: read_done_def)
  moreover have "\<exists>bufs'. retrieve_fixed_step A opt st r z c bufs = Inr bufs' \<and> read_done f r (insert c D) bufs'"
    if "read_done f r D bufs" "c \<in> set (sched ?B)" for D c bufs
    using retrieve_fixed_step_ok[OF assms(1-3) _ _ that(1)] that(2) schedule_set[OF assms(4), of ?B] assms(7) by simp
  ultimately obtain bufs' where b: "try_for_each (retrieve_fixed_step A opt st r z) (sched ?B) bufs = Inr bufs'"
      "read_done f r (set (sched ?B)) bufs'"
    using try_for_each_inv[where I = "read_done f r" and cs = "sched ?B" and f = "retrieve_fixed_step A opt st r z"] by meson
  have "fixed_size dt = Some z" using fixed by (simp add: fixed_size_def)
  then show ?thesis
    using read_done_all[OF assms(3) b(2)] assms(8) schedule_set[OF assms(4), of ?B] b(1)
    by (cases bufs') (simp add: retrieve_multi_chunk_fixed_def assms(6) bufs_def[symmetric])
qed

lemma empty_region:
  assumes "wf_subset r" and "inbounds_shape r (array_shape_of A)" and "is_empty r"
  shows "\<exists>cs. array_chunks_in_array_subset A r = Inr (Some cs) \<and> num_elements cs = 0 \<and> indices_collect (indices_new cs) = []" and "prod_list (sub_shape r) = 0"
proof -
  show p: "prod_list (sub_shape r) = 0" using assms(3) by (simp add: is_empty_def list_ex_iff prod_list_eq_0)
  have "array_shape_of A \<noteq> []"
    using p assms(2) by (auto simp: inbounds_shape_def split: if_splits)
  then have d: "cg_dimensionality (ar_grid A) \<noteq> 0" using grid by (simp add: grid_contract_def array_shape_of_def)
  have n: "num_elements (new_empty (cg_dimensionality (ar_grid A))) = 0"
    using d by (auto simp: num_elements_def new_empty_def intro!: wprod_zero)
  have "indices_collect (indices_new (new_empty (cg_dimensionality (ar_grid A)))) = []"
    using indices_collect_eq[of "indices_new (new_empty (cg_dimensionality (ar_grid A)))"] n d
    by (simp add: wf_indices_def indices_new_def wf_subset_nth new_empty_def prod_list_eq_0[THEN iffD2] power_0_left)
  then show "\<exists>cs. array_chunks_in_array_subset A r = Inr (Some cs) \<and> num_elements cs = 0 \<and>
      indices_collect (indices_new cs) = []"
    using assms(3) n
    by (auto simp: array_chunks_in_array_subset_def chunks_in_array_subset_def end_inc_None_iff[THEN iffD2])
qed

lemma holds_chunk: "array_holds A acc contents st f \<Longrightarrow> chunk c \<Longrightarrow>
   chunk_holds A acc contents st c (subset_values f (area c))"
  by (simp add: array_holds_def)

lemma within_chunk:
  assumes "region_ok A z r" and "\<not> is_empty r" and "chunk c" and "elements r \<subseteq> elements (area c)"
  obtains s where "array_relative_to r (sub_start (area c)) = Inr s" and "subset_covered s (dims c)"
    and "sub_idx (dims c) s = map (pos (area c)) (box (sub_start r) (sub_shape r))"
proof -
  obtain s where "relative_to r (sub_start (area c)) = Inr s" "subset_covered s (sub_shape (area c))"
      "sub_idx (sub_shape (area c)) s = map (pos (area c)) (box (sub_start r) (sub_shape r))"
    using part_relative[OF region_facts(1)[OF assms(1)] area_facts(1)[OF assms(3)] assms(4,2)] by metis
  then show ?thesis using that[of s] unfolding area_facts(7)[OF assms(3)] by (simp add: array_relative_to_def)
qed

lemma retrieve_array_subset_ok:
  assumes "ok st" and "array_holds A acc contents st f" and "region_ok A z r" and "schedule sched" and "allocates junk"
  shows "\<exists>b. retrieve_array_subset sched junk A opt st r = Inr b \<and> ab_ok dt (prod_list (sub_shape r)) b \<and>
     vals dt b = subset_values f r"
proof (cases "is_empty r")
  case True
  note r = region_facts[OF assms(3)]
  obtain cs where cs: "array_chunks_in_array_subset A r = Inr (Some cs)" "num_elements cs = 0"
    using empty_region(1)[OF r(1,2) True] by blast
  have p: "prod_list (sub_shape r) = 0" using empty_region(2)[OF r(1,2) True] .
  obtain b where "new_fill_value dt 0 (ar_fill_value A) = Inr b" "ab_ok dt 0 b" "vals dt b = []"
    using new_fill_value_vals[OF _ fill, of 0] fixed by (auto simp: countable_size_def)
  then show ?thesis
    using cs r(3,4) length_subset_values[OF r(1), of f]
    by (simp add: retrieve_array_subset_def array_new_fill_value_def p)
next
  case False
  note r = region_facts[OF assms(3)]
  obtain cs where cs: "array_chunks_in_array_subset A r = Inr (Some cs)" "wf_subset cs"
      "elements cs = {c. chunk c \<and> elements (area c) \<inter> elements r \<noteq> {}}"
      "indices_collect (indices_new cs) = box (sub_start cs) (sub_shape cs)"
      "set (box (sub_start cs) (sub_shape cs)) = elements cs"
      "num_elements cs = length (box (sub_start cs) (sub_shape cs))" "sub_start cs \<in> elements cs"
      "\<And>i. i \<in> elements r \<Longrightarrow> \<exists>c \<in> elements cs. i \<in> elements (area c)"
    by (rule region_chunks[OF r(1,2) False]) blast
  let ?c = "sub_start cs"
  have c: "chunk ?c" using cs(3,7) by simp
  note a = area_facts[OF c]
  have n0: "num_elements cs \<noteq> 0" using cs(5-7) by auto
  show ?thesis
  proof (cases "num_elements cs = 1")
    case True
    have e: "elements cs = {?c}" by (rule single_chunk[OF cs(2) True cs(6,7)])
    have sub: "elements r \<subseteq> elements (area ?c)" using cs(8) unfolding e by (intro subsetI) simp
    show ?thesis
    proof (cases "area ?c = r")
      case True
      have "retrieve_array_subset sched junk A opt st r = retrieve_chunk A opt st ?c"
        unfolding retrieve_array_subset_def by (simp add: r(3) cs(1) a(6) True \<open>num_elements cs = 1\<close>)
      moreover have "dims ?c = sub_shape r" using a(7) unfolding True ..
      ultimately show ?thesis
        using retrieve_chunk_ok[OF assms(1) c holds_chunk[OF assms(2) c], of opt] unfolding True by simp
    next
      case False
      obtain s where s: "array_relative_to r (sub_start (area ?c)) = Inr s" "subset_covered s (dims ?c)"
          "sub_idx (dims ?c) s = map (pos (area ?c)) (box (sub_start r) (sub_shape r))"
        using within_chunk[OF assms(3) \<open>\<not> is_empty r\<close> c sub] by blast
      have "map ((!) (subset_values f (area ?c))) (sub_idx (dims ?c) s) = subset_values f r"
        unfolding s(3) by (rule subset_values_part[OF r(1) a(1) sub])
      moreover have "length (sub_idx (dims ?c) s) = prod_list (sub_shape r)"
        unfolding s(3) using r(1) by (simp add: length_box wf_subset_length)
      moreover have "sub_idx (dims ?c) s \<noteq> []"
        unfolding s(3) using set_box[OF r(1)] elements_empty_iff[OF r(1)] \<open>\<not> is_empty r\<close> by auto
      ultimately show ?thesis
        using retrieve_chunk_subset_ok[OF assms(1) c holds_chunk[OF assms(2) c] s(2), of opt] \<open>num_elements cs = 1\<close>
          False r(3) cs(1) a(6) s(1)
        by (simp add: retrieve_array_subset_def del: ix_elements.simps)
    qed
  next
    case False
    obtain opt' where o: "chunk_options A opt (num_elements cs) (dims ?c) = Inr opt'" using chunk_options_ok[OF c] by blast
    obtain b where b: "retrieve_multi_chunk_fixed sched junk A opt' st r cs = Inr b"
        "ab_ok dt (prod_list (sub_shape r)) b" "vals dt b = subset_values f r"
      using retrieve_multi_chunk_fixed_ok[OF assms cs(4), of opt'] cs(3,5,8) by (auto simp only:)
    have "array_validate A b (num_elements r) = Inr ()"
      using validate_ok[OF r(6) b(2)] by (simp add: array_validate_def r(4))
    then show ?thesis
      using b o n0 False r(3) cs(1) a(4) fixed by (simp add: retrieve_array_subset_def is_fixed_def)
  qed
qed

end

end
