(* ===== verification/Array_Writes.thy ===== *)
theory Array_Writes
  imports Array_Reads
begin

text \<open>
  Writing a region of an array: \<open>store_array_subset\<close> overwrites exactly the elements of the region, in any order of the
  chunks, whether or not empty chunks are stored, and touches the keys of no other chunk.
\<close>

lemma fits_within:
  assumes "fits s a"
  shows "elements s \<subseteq> elements (new_with_shape a)"
proof
  fix i assume i: "i \<in> elements s"
  then have "length i = length a" "\<And>k. k < length a \<Longrightarrow> i ! k < a ! k"
    using assms by (auto simp: elements_def fits_def) (meson less_le_trans)
  then show "i \<in> elements (new_with_shape a)" by (simp add: elements_def new_with_shape_def)
qed

context array_on_store
begin

lemma holds_update:
  assumes "array_holds A acc contents st g" and "chunk c"
    and "chunk_holds A acc contents st' c (subset_values g' (area c))" and "same_elsewhere A contents st st' {c}"
    and "\<And>i. i \<notin> elements (area c) \<Longrightarrow> g' i = g i"
  shows "array_holds A acc contents st' g'"
  unfolding array_holds_def
proof (intro allI impI)
  fix c' assume c': "chunk c'"
  show "chunk_holds A acc contents st' c' (subset_values g' (area c'))"
  proof (cases "c' = c")
    case False
    have "chunk_key A c' \<noteq> chunk_key A c" using False keys assms(2) c' by (auto dest: inj_onD)
    then have "contents st' (chunk_key A c') = contents st (chunk_key A c')"
      using assms(4) by (simp add: same_elsewhere_def)
    moreover have "g' i = g i" if "i \<in> elements (area c')" for i
      using assms(5) grid_parts(5)[OF c' assms(2) that] False by blast
    then have "subset_values g' (area c') = subset_values g (area c')"
      using subset_values_cong[OF area_facts(1)[OF c']] by blast
    ultimately show ?thesis using holds_chunk[OF assms(1) c'] by (simp add: chunk_holds_def)
  qed (use assms(3) in simp)
qed

lemma same_elsewhere_trans:
  "same_elsewhere A contents st st' cs \<Longrightarrow> same_elsewhere A contents st' st'' cs' \<Longrightarrow>
     cs \<subseteq> cs'' \<Longrightarrow> cs' \<subseteq> cs'' \<Longrightarrow> same_elsewhere A contents st st'' cs''"
  unfolding same_elsewhere_def by (metis image_mono subset_iff)

text \<open>Overwriting a part of a chunk.\<close>

lemma subset_values_scatter:
  assumes "wf_subset s" and "wf_subset p" and "elements p \<subseteq> elements s" and "\<And>i. i \<notin> elements p \<Longrightarrow> g' i = g i"
  shows "scatter (subset_values g s) (map (pos s) (box (sub_start p) (sub_shape p))) (subset_values g' p) = subset_values g' s"
proof (rule subset_values_eqI[OF assms(1)])
  fix i assume i: "i \<in> elements s"
  have "scatter (subset_values g s) (map (pos s) (box (sub_start p) (sub_shape p))) (subset_values g' p) ! pos s i =
      (if i \<in> elements p then g' i else subset_values g s ! pos s i)"
    using scatter_part[OF assms(1-3) length_subset_values[OF assms(1)] i] .
  then show "scatter (subset_values g s) (map (pos s) (box (sub_start p) (sub_shape p))) (subset_values g' p) ! pos s i = g' i"
    using assms(4) nth_subset_values[OF assms(1) i] by simp
qed (simp add: length_subset_values[OF assms(1)])

lemma store_part_ok:
  assumes "ok st" and "array_holds A acc contents st g" and "chunk c" and "wf_subset p" and "elements p \<subseteq> elements (area c)"
    and "subset_covered s (dims c)" and "sub_idx (dims c) s = map (pos (area c)) (box (sub_start p) (sub_shape p))"
    and "ab_ok dt (prod_list (sub_shape p)) u" and "vals dt u = subset_values g' p" and "align_ok al" and "whole_writes A opt"
    and "\<And>i. i \<notin> elements p \<Longrightarrow> g' i = g i"
  shows "\<exists>st'. store_chunk_subset al A opt c s u st = Inr st' \<and> ok st' \<and> array_holds A acc contents st' g' \<and>
     same_elsewhere A contents st st' {c}"
proof -
  have "ab_ok dt (length (sub_idx (dims c) s)) u"
    using assms(4,8) unfolding assms(7) by (simp add: length_box wf_subset_length)
  then obtain st' where st': "store_chunk_subset al A opt c s u st = Inr st'" "ok st'"
      "chunk_holds A acc contents st' c (scatter (subset_values g (area c)) (sub_idx (dims c) s) (vals dt u))"
      "same_elsewhere A contents st st' {c}"
    using store_chunk_subset_ok[OF assms(1,3) holds_chunk[OF assms(2,3)] assms(6) _ assms(10,11)] by blast
  have "scatter (subset_values g (area c)) (sub_idx (dims c) s) (vals dt u) = subset_values g' (area c)"
    unfolding assms(7,9) by (rule subset_values_scatter[OF area_facts(1)[OF assms(3)] assms(4,5,12)])
  then have "array_holds A acc contents st' g'"
    using holds_update[OF assms(2,3) _ st'(4), of g'] st'(3) assms(5,12) by fastforce
  then show ?thesis using st' by blast
qed

text \<open>The elements of the region in the chunks that are done are overwritten.\<close>

definition write_done ::
    "'s \<Rightarrow> (u64 list \<Rightarrow> element) \<Rightarrow> array_subset \<Rightarrow> element list \<Rightarrow> u64 list set \<Rightarrow> 's \<Rightarrow> bool" where
  "write_done st0 f r V D st \<longleftrightarrow> ok st \<and> same_elsewhere A contents st0 st D \<and>
     array_holds A acc contents st (\<lambda>i. if i \<in> elements r \<and> (\<exists>c \<in> D. i \<in> elements (area c)) then V ! pos r i else f i)"

lemma store_subset_step_ok:
  assumes "region_ok A z r" and "ab_ok dt (prod_list (sub_shape r)) u" and "align_ok al" and "whole_writes A opt"
    and "chunk c" and "elements (area c) \<inter> elements r \<noteq> {}" and "write_done st0 f r (vals dt u) D st"
  shows "\<exists>st'. store_subset_step al A opt r u c st = Inr st' \<and> write_done st0 f r (vals dt u) (insert c D) st'"
proof -
  let ?g = "\<lambda>D i. if i \<in> elements r \<and> (\<exists>c \<in> D. i \<in> elements (area c)) then vals dt u ! pos r i else f i"
  obtain p q s where p: "array_overlap r (area c) = Inr p" "wf_subset p" "elements p = elements (area c) \<inter> elements r"
    and q: "array_relative_to p (sub_start r) = Inr q" "subset_covered q (sub_shape r)"
      "sub_idx (sub_shape r) q = map (pos r) (box (sub_start p) (sub_shape p))"
    and s: "array_relative_to p (sub_start (area c)) = Inr s" "subset_covered s (dims c)"
      "sub_idx (dims c) s = map (pos (area c)) (box (sub_start p) (sub_shape p))"
    using part_in_chunk_and_region[OF assms(1,5,6)] by metis
  note r = region_facts[OF assms(1)]
  have x: "covers (sub_shape r) (SubsetIndexer q)" "distinct (ix_elements (sub_shape r) (SubsetIndexer q))"
    using q(2) distinct_sub_idx[of q "sub_shape r"] by (simp_all add: subset_covered_def)
  have pn: "length (box (sub_start p) (sub_shape p)) = prod_list (sub_shape p)"
    using p(2) by (simp add: length_box wf_subset_length)
  obtain b where b: "extract_array_subset u (SubsetIndexer q) (sub_shape r) dt = Inr b" "ab_ok dt (prod_list (sub_shape p)) b"
      "vals dt b = map ((!) (vals dt u)) (map (pos r) (box (sub_start p) (sub_shape p)))"
    using extract_vals[OF x(1) small_array_prod[OF r(5)] assms(2) x(2)] unfolding q(3) length_map pn by blast
  have at_p: "?g (insert c D) i = vals dt u ! pos r i" if "i \<in> set (box (sub_start p) (sub_shape p))" for i
    using that unfolding set_box[OF p(2)] p(3) by simp
  have "vals dt b = subset_values (?g (insert c D)) p"
    unfolding b(3) subset_values_def map_map comp_def by (rule map_cong[OF refl at_p[symmetric]])
  moreover have "?g (insert c D) i = ?g D i" if "i \<notin> elements p" for i
    using that unfolding p(3) by (cases "i \<in> elements r") simp_all
  moreover have "elements p \<subseteq> elements (area c)" using p(3) by blast
  moreover have "ok st" "array_holds A acc contents st (?g D)" "same_elsewhere A contents st0 st D"
    using assms(7) unfolding write_done_def by blast+
  ultimately obtain st' where st': "store_chunk_subset al A opt c s b st = Inr st'" "ok st'"
      "array_holds A acc contents st' (?g (insert c D))" "same_elsewhere A contents st st' {c}"
    using store_part_ok[OF _ _ assms(5) p(2) _ s(2,3) b(2) _ assms(3,4)] by blast
  have "same_elsewhere A contents st0 st' (insert c D)"
    using same_elsewhere_trans[OF \<open>same_elsewhere A contents st0 st D\<close> st'(4)] by blast
  then have "write_done st0 f r (vals dt u) (insert c D) st'" using st'(2,3) unfolding write_done_def by blast
  then show ?thesis
    using area_facts(6)[OF assms(5)] p(1) q(1) s(1) b(1) st'(1)
    by (simp add: store_subset_step_def)
qed

lemma first_chunk: "chunk (replicate (array_dimensionality A) 0)"
proof -
  have nz: "0 \<notin> set (array_shape_of A)" using grid by (simp add: grid_contract_def array_shape_of_def)
  then have "inb (replicate (array_dimensionality A) 0) (array_shape_of A)"
    by (auto simp: inb_nth array_dimensionality_def intro!: gr0I) (metis nth_mem)
  then obtain c where c: "chunk c" using grid_parts(1) unfolding chunk_partition_def array_shape_of_def by blast
  then have "0 < cg_grid_shape (ar_grid A) ! k" if "k < array_dimensionality A" for k
    using that area_facts(3)[OF c] unfolding inb_nth by (metis gr_zeroI less_nat_zero_code)
  then show ?thesis using c area_facts(3)[OF c] by (simp add: inb_nth)
qed

lemma overwrite_values:
  assumes "wf_subset r" and "length V = prod_list (sub_shape r)"
  shows "V = subset_values (overwrite f r V) r"
  by (rule subset_values_eqI[OF assms]) (simp add: overwrite_def)

lemma store_chunks_loop:
  assumes "ok st" and "array_holds A acc contents st f" and "region_ok A z r" and "align_ok al" and "whole_writes A opt"
    and "ab_ok dt (prod_list (sub_shape r)) u" and "set cs = {c. chunk c \<and> elements (area c) \<inter> elements r \<noteq> {}}"
    and "\<And>i. i \<in> elements r \<Longrightarrow> \<exists>c \<in> set cs. i \<in> elements (area c)"
  shows "\<exists>st'. try_for_each (store_subset_step al A opt r u) cs st = Inr st' \<and> ok st' \<and>
     array_holds A acc contents st' (overwrite f r (vals dt u)) \<and> same_elsewhere A contents st st' (set cs)"
proof -
  have "write_done st f r (vals dt u) {} st" using assms(1,2) by (simp add: write_done_def same_elsewhere_def)
  moreover have "\<exists>st'. store_subset_step al A opt r u c s = Inr st' \<and> write_done st f r (vals dt u) (insert c D) st'"
    if "write_done st f r (vals dt u) D s" "c \<in> set cs" for D c s
    using store_subset_step_ok[OF assms(3,6,4,5) _ _ that(1)] that(2) unfolding assms(7) by blast
  ultimately obtain st' where st': "try_for_each (store_subset_step al A opt r u) cs st = Inr st'"
      "write_done st f r (vals dt u) (set cs) st'"
    using try_for_each_inv[where I = "write_done st f r (vals dt u)" and cs = cs and f = "store_subset_step al A opt r u"] by meson
  moreover have "(\<lambda>i. if i \<in> elements r \<and> (\<exists>c \<in> set cs. i \<in> elements (area c)) then vals dt u ! pos r i else f i) =
      overwrite f r (vals dt u)"
    using assms(8) by (auto simp: overwrite_def)
  ultimately show ?thesis by (auto simp: write_done_def)
qed

lemma store_array_subset_ok:
  assumes "ok st" and "array_holds A acc contents st f" and "region_ok A z r" and "schedule sched" and "align_ok al"
    and "whole_writes A opt" and "ab_ok dt (prod_list (sub_shape r)) u"
  shows "\<exists>st'. store_array_subset sched al A opt r u st = Inr st' \<and> ok st' \<and>
     array_holds A acc contents st' (overwrite f r (vals dt u)) \<and>
     same_elsewhere A contents st st' {c. chunk c \<and> elements (area c) \<inter> elements r \<noteq> {}}"
proof -
  note r = region_facts[OF assms(3)]
  let ?cs = "{c. chunk c \<and> elements (area c) \<inter> elements r \<noteq> {}}"
  let ?post = "\<lambda>res. \<exists>st'. res = Inr st' \<and> ok st' \<and> array_holds A acc contents st' (overwrite f r (vals dt u)) \<and>
    same_elsewhere A contents st st' ?cs"
  have dim: "dimensionality r = length (array_shape_of A)" using r(3) by (simp add: array_dimensionality_def)
  have v: "array_validate A u (num_elements r) = Inr ()"
    using validate_ok[OF r(6) assms(7)] by (simp add: array_validate_def r(4))
  have V: "vals dt u = subset_values (overwrite f r (vals dt u)) r"
    using overwrite_values[OF r(1) length_vals[OF assms(7)]] .
  have multi: "?post (store_array_subset sched al A opt r u st)"
    if "array_chunks_in_array_subset A r = Inr (Some cs)" "num_elements cs \<noteq> 1"
      "set (indices_collect (indices_new cs)) = ?cs"
      "\<And>i. i \<in> elements r \<Longrightarrow> \<exists>c \<in> ?cs. i \<in> elements (area c)" for cs
  proof -
    obtain opt' where o: "chunk_options A opt (num_elements cs) (dims (replicate (array_dimensionality A) 0)) = Inr opt'"
        "whole_writes A opt'"
      using chunk_options_ok[OF first_chunk] assms(6) by metis
    have s: "set (sched (indices_collect (indices_new cs))) = ?cs" using schedule_set[OF assms(4)] that(3) by simp
    from store_chunks_loop[OF assms(1-3,5) o(2) assms(7) s] that(4)
    have "?post (try_for_each (store_subset_step al A opt' r u) (sched (indices_collect (indices_new cs))) st)"
      unfolding s by blast
    then show ?thesis
      using that(1,2) dim v o(1) area_facts(4)[OF first_chunk] by (simp add: store_array_subset_def)
  qed
  show ?thesis
  proof (cases "is_empty r")
    case True
    then obtain cs where cs: "array_chunks_in_array_subset A r = Inr (Some cs)" "num_elements cs = 0"
        "indices_collect (indices_new cs) = []"
      using empty_region(1)[OF r(1,2)] by blast
    have "elements r = {}" using True elements_empty_iff[OF r(1)] by simp
    then show ?thesis using multi[OF cs(1)] cs(2,3) by simp
  next
    case False
    obtain cs where cs: "array_chunks_in_array_subset A r = Inr (Some cs)" "wf_subset cs" "elements cs = ?cs"
        "indices_collect (indices_new cs) = box (sub_start cs) (sub_shape cs)"
        "set (box (sub_start cs) (sub_shape cs)) = elements cs"
        "num_elements cs = length (box (sub_start cs) (sub_shape cs))" "sub_start cs \<in> elements cs"
        "\<And>i. i \<in> elements r \<Longrightarrow> \<exists>c \<in> elements cs. i \<in> elements (area c)"
      by (rule region_chunks[OF r(1,2) False]) blast
    let ?c = "sub_start cs"
    have c: "chunk ?c" using cs(3,7) by simp
    show ?thesis
    proof (cases "num_elements cs = 1")
      case False
      then show ?thesis using multi[OF cs(1)] cs(3,4,5,8) by simp
    next
      case True
      have e: "elements cs = {?c}" by (rule single_chunk[OF cs(2) True cs(6,7)])
      have sub: "elements r \<subseteq> elements (area ?c)" using cs(8) unfolding e by (intro subsetI) simp
      obtain s where s: "array_relative_to r (sub_start (area ?c)) = Inr s" "subset_covered s (dims ?c)"
          "sub_idx (dims ?c) s = map (pos (area ?c)) (box (sub_start r) (sub_shape r))"
        using within_chunk[OF assms(3) False c sub] by blast
      have fr: "overwrite f r (vals dt u) i = f i" if "i \<notin> elements r" for i using that by (simp add: overwrite_def)
      have "\<exists>st'. store_array_subset sched al A opt r u st = Inr st' \<and> ok st' \<and>
          array_holds A acc contents st' (overwrite f r (vals dt u)) \<and> same_elsewhere A contents st st' {?c}"
      proof (cases "r = area ?c")
        case True
        have "ab_ok dt (prod_list (dims ?c)) u" using assms(7) area_facts(7)[OF c] unfolding True by simp
        then obtain st' where st': "store_chunk al A opt ?c u st = Inr st'" "ok st'"
            "chunk_holds A acc contents st' ?c (vals dt u)" "same_elsewhere A contents st st' {?c}"
          using store_chunk_ok[OF assms(1) c _ assms(5)] by blast
        have "array_holds A acc contents st' (overwrite f r (vals dt u))"
          using st'(3) V fr unfolding True by (intro holds_update[OF assms(2) c _ st'(4)]) simp_all
        moreover have "store_array_subset sched al A opt r u st = store_chunk al A opt ?c u st"
          unfolding store_array_subset_def
          by (simp add: dim cs(1) area_facts(6)[OF c] True[symmetric] \<open>num_elements cs = 1\<close>)
        ultimately show ?thesis using st' by simp
      next
        case False
        have "store_array_subset sched al A opt r u st = store_chunk_subset al A opt ?c s u st"
          unfolding store_array_subset_def
          by (simp add: dim cs(1) area_facts(6)[OF c] False s(1) \<open>num_elements cs = 1\<close>)
        then show ?thesis
          using store_part_ok[OF assms(1,2) c r(1) sub s(2,3) assms(7) V assms(5,6) fr] by simp
      qed
      then show ?thesis unfolding cs(3)[symmetric] e .
    qed
  qed
qed

subsection \<open>Erasing chunks\<close>

lemma erase_chunks_ok:
  assumes "ok st" and "array_holds A acc contents st f" and "schedule sched" and "wf_subset cs"
    and "inbounds_shape cs (cg_grid_shape (ar_grid A))"
  shows "\<exists>st'. erase_chunks sched A cs st = Inr st' \<and> ok st' \<and>
     array_holds A acc contents st' (\<lambda>i. if \<exists>c \<in> elements cs. i \<in> elements (area c) then array_fill A else f i) \<and>
     same_elsewhere A contents st st' (elements cs)"
proof -
  let ?g = "\<lambda>D i. if \<exists>c \<in> D. i \<in> elements (area c) then array_fill A else f i"
  let ?B = "box (sub_start cs) (sub_shape cs)"
  define I where "I = (\<lambda>D s. ok s \<and> same_elsewhere A contents st s D \<and> array_holds A acc contents s (?g D))"
  have chunks: "elements cs \<subseteq> {c. chunk c}" using inbounds_elements_inb[OF assms(4,5)] by blast
  have B: "indices_collect (indices_new cs) = ?B" "set ?B = elements cs"
    using indices_collect_new[OF assms(4)] few_chunks[OF assms(4) chunks] grid_small set_box[OF assms(4)] by simp_all
  have "I {} st" using assms(1,2) by (simp add: I_def same_elsewhere_def)
  moreover have "\<exists>s'. erase_chunk A c s = Inr s' \<and> I (insert c D) s'" if "I D s" "c \<in> set (sched ?B)" for D c s
  proof -
    have c: "chunk c" using that(2) schedule_set[OF assms(3), of ?B] B(2) chunks by blast
    have "ok s" using that(1) by (simp add: I_def)
    then obtain s' where s': "erase_chunk A c s = Inr s'" "ok s'"
        "chunk_holds A acc contents s' c (replicate (prod_list (dims c)) (array_fill A))" "same_elsewhere A contents s s' {c}"
      using erase_chunk_ok by blast
    have "replicate (prod_list (dims c)) (array_fill A) = subset_values (?g (insert c D)) (area c)"
      using pos_less[OF area_facts(1)[OF c]] area_facts(7)[OF c]
      by (intro subset_values_eqI[OF area_facts(1)[OF c]]) simp_all
    then have "array_holds A acc contents s' (?g (insert c D))"
      using that(1) s'(3) by (intro holds_update[OF _ c _ s'(4), where g = "?g D"]) (auto simp: I_def)
    moreover have "same_elsewhere A contents st s' (insert c D)"
      using same_elsewhere_trans[OF _ s'(4)] that(1) unfolding I_def by blast
    ultimately show ?thesis using s'(1,2) unfolding I_def by blast
  qed
  ultimately obtain st' where "try_for_each (erase_chunk A) (sched ?B) st = Inr st'" "I (set (sched ?B)) st'"
    using try_for_each_inv[where I = I and cs = "sched ?B" and f = "erase_chunk A"] by meson
  then show ?thesis
    unfolding I_def erase_chunks_def B(1) schedule_set[OF assms(3)] B(2) by blast
qed

subsection \<open>Rejected calls\<close>

lemma validate_mismatch:
  "ab_ok t n u \<Longrightarrow> dt_size t = SizeFixed y \<Longrightarrow> n \<noteq> k \<Longrightarrow> k * y < M64 \<Longrightarrow>
     validate_bytes u k t = Inl (UnexpectedChunkDecodedSize (ab_size u) (k * y))"
  by (induction t n u rule: ab_ok.induct) (simp_all add: is_optional_def validate_bytes_flen_def wmul_eq)

lemma store_wrong_length:
  assumes "region_ok A z r" and "\<not> is_empty r" and "ab_ok dt n u" and "n \<noteq> prod_list (sub_shape r)"
  shows "store_array_subset sched al A opt r u st =
     Inl (ArrayCodecError (UnexpectedChunkDecodedSize (ab_size u) (prod_list (sub_shape r) * z)))"
proof -
  note r = region_facts[OF assms(1)]
  let ?e = "Inl (ArrayCodecError (UnexpectedChunkDecodedSize (ab_size u) (prod_list (sub_shape r) * z)))"
  have v: "array_validate A u (prod_list (sub_shape r)) = ?e"
    using validate_mismatch[OF assms(3) fixed(1) assms(4)] assms(1)
    by (simp add: array_validate_def codec_failure_def region_ok_def)
  have dim: "dimensionality r = length (array_shape_of A)" using r(3) by (simp add: array_dimensionality_def)
  obtain cs where cs: "array_chunks_in_array_subset A r = Inr (Some cs)" "wf_subset cs"
      "elements cs = {c. chunk c \<and> elements (area c) \<inter> elements r \<noteq> {}}"
      "num_elements cs = length (box (sub_start cs) (sub_shape cs))" "sub_start cs \<in> elements cs"
      "\<And>i. i \<in> elements r \<Longrightarrow> \<exists>c \<in> elements cs. i \<in> elements (area c)"
    by (rule region_chunks[OF r(1,2) assms(2)]) blast
  let ?c = "sub_start cs"
  have c: "chunk ?c" using cs(3,5) by simp
  have chunk_error: "store_chunk al A opt ?c u st = ?e" if "prod_list (dims ?c) = prod_list (sub_shape r)"
    using that v wprod_dims[OF c] by (simp add: store_chunk_def area_facts(4)[OF c])
  show ?thesis
  proof (cases "num_elements cs = 1")
    case False
    then show ?thesis using v r(4) by (simp add: store_array_subset_def dim cs(1))
  next
    case True
    have e: "elements cs = {?c}" by (rule single_chunk[OF cs(2) True cs(4,5)])
    have sub: "elements r \<subseteq> elements (area ?c)" using cs(6) unfolding e by (intro subsetI) simp
    obtain s where s: "array_relative_to r (sub_start (area ?c)) = Inr s" "subset_covered s (dims ?c)"
        "sub_idx (dims ?c) s = map (pos (area ?c)) (box (sub_start r) (sub_shape r))"
      using within_chunk[OF assms(1,2) c sub] by blast
    have n: "length (sub_idx (dims ?c) s) = prod_list (sub_shape r)"
      unfolding s(3) using r(1) by (simp add: length_box wf_subset_length)
    have f: "fits s (dims ?c)" using s(2) by (simp add: subset_covered_def)
    have "store_chunk_subset al A opt ?c s u st = ?e"
    proof (cases "whole_chunk s (dims ?c)")
      case True
      have "prod_list (dims ?c) = prod_list (sub_shape r)" using n unfolding whole_chunk_idx[OF c True f] by simp
      from chunk_error[OF this] show ?thesis
        using True fits_end[OF f] by (simp add: store_chunk_subset_def area_facts(5)[OF c])
    next
      case False
      then show ?thesis
        using fits_end[OF f] v part_count(1)[OF c s(2)] n
        by (simp add: store_chunk_subset_def area_facts(5)[OF c] del: ix_elements.simps)
    qed
    moreover have "store_chunk al A opt ?c u st = ?e" if "r = area ?c"
      using chunk_error area_facts(7)[OF c] unfolding that[symmetric] by simp
    moreover have "store_array_subset sched al A opt r u st =
        (if r = area ?c then store_chunk al A opt ?c u st else store_chunk_subset al A opt ?c s u st)"
      unfolding store_array_subset_def by (simp add: dim cs(1) area_facts(6)[OF c] s(1) True)
    ultimately show ?thesis by simp
  qed
qed

lemma chunk_wrong_length:
  assumes "chunk c" and "ab_ok dt n u" and "n \<noteq> prod_list (dims c)"
  shows "store_chunk al A opt c u st =
     Inl (ArrayCodecError (UnexpectedChunkDecodedSize (ab_size u) (prod_list (dims c) * z)))"
proof -
  have "prod_list (dims c) * z < M64" using chunk_fits(3)[OF assms(1)] by simp
  from validate_mismatch[OF assms(2) fixed(1) assms(3) this] show ?thesis
    by (simp add: store_chunk_def area_facts(4)[OF assms(1)] wprod_dims[OF assms(1)] array_validate_def codec_failure_def)
qed

lemma chunk_subset_misfit:
  assumes "chunk c" and "wf_subset s" and "dimensionality s = array_dimensionality A" and "\<not> fits s (dims c)"
  shows "retrieve_chunk_subset A opt st c s = Inl (InvalidArraySubset s (array_shape_of A))"
    and "retrieve_chunk_subset_into A opt st c s T = Inl (InvalidArraySubset s (array_shape_of A))"
    and "store_chunk_subset al A opt c s u st = Inl (InvalidChunkSubset s c (dims c))"
proof -
  have l: "length (dims c) = length (sub_start s)"
    using wf_subset_length[OF area_facts(1)[OF assms(1)]] area_facts(7,8)[OF assms(1)] assms(3) by (simp add: dimensionality_def)
  obtain k where k: "k < length (dims c)" "dims c ! k < sub_start s ! k + sub_shape s ! k"
    using assms(2,4) l by (auto simp: fits_def not_le)
  have w: "sub_start s ! k + sub_shape s ! k < M64" "length (sub_shape s) = length (sub_start s)"
    using assms(2) k(1) l by (simp_all add: wf_subset_nth)
  have "\<not> inbounds_shape s (dims c)"
    using k w l by (auto simp: inbounds_shape_def list_all_length wadd_eq not_le intro!: exI[of _ k])
  then show "retrieve_chunk_subset A opt st c s = Inl (InvalidArraySubset s (array_shape_of A))"
    "retrieve_chunk_subset_into A opt st c s T = Inl (InvalidArraySubset s (array_shape_of A))"
    by (simp_all add: retrieve_chunk_subset_def retrieve_chunk_subset_into_def area_facts(4)[OF assms(1)])
  have "list_ex (\<lambda>(e, n). n < e) (zip (end_exc s) (dims c))"
    using k w l end_exc_nth[of s k] assms(2) by (auto simp: list_ex_zip_nth length_end_exc intro!: exI[of _ k])
  then show "store_chunk_subset al A opt c s u st = Inl (InvalidChunkSubset s c (dims c))"
    by (simp add: store_chunk_subset_def area_facts(5)[OF assms(1)])
qed

lemma target_wrong_length:
  assumes "region_ok A z r" and "target_num_elements T \<noteq> prod_list (sub_shape r)"
  shows "retrieve_array_subset_into sched A opt st r T =
     Inl (ArrayCodecError (InvalidNumberOfElements (target_num_elements T) (prod_list (sub_shape r))))"
  using region_facts(3,4)[OF assms(1)] fixed assms(2) by (simp add: retrieve_array_subset_into_def is_fixed_def)

text \<open>Reading back what has been written.\<close>

lemma write_read_back:
  assumes "ok st" and "array_holds A acc contents st f" and "region_ok A z r"
    and "schedule sched" and "schedule sched'" and "align_ok al" and "whole_writes A opt" and "allocates junk"
    and "ab_ok dt (prod_list (sub_shape r)) u"
  shows "\<exists>st' b. store_array_subset sched al A opt r u st = Inr st' \<and>
     retrieve_array_subset sched' junk A opt' st' r = Inr b \<and> vals dt b = vals dt u"
proof -
  obtain st' where st': "store_array_subset sched al A opt r u st = Inr st'" "ok st'"
      "array_holds A acc contents st' (overwrite f r (vals dt u))"
    using store_array_subset_ok[OF assms(1-4,6,7,9)] by blast
  obtain b where "retrieve_array_subset sched' junk A opt' st' r = Inr b"
      "vals dt b = subset_values (overwrite f r (vals dt u)) r"
    using retrieve_array_subset_ok[OF st'(2,3) assms(3,5,8)] by blast
  moreover have "wf_subset r" using assms(3) by (simp add: region_ok_def)
  ultimately show ?thesis using st'(1) overwrite_values[of r "vals dt u" f] length_vals[OF assms(9)] by metis
qed

end

end
