(* ===== verification/Array_Properties.thy ===== *)
theory Array_Properties
  imports Array_Writes Endian_Codec Regular_Grids
begin

text \<open>
  The properties of the array operations, and arrays they hold of: any lawful grid and codec on the memory store, with
  the default chunk keys (\<open>memory_array_on_store\<close>).
\<close>

definition memory_storage :: "memory_store storage_ops" where
  "memory_storage = \<lparr>so_get = memory_get, so_get_partial_many = memory_get_partial_many, so_set = memory_set,
     so_erase = memory_erase\<rparr>"

definition memory_array :: "chunk_grid \<Rightarrow> node_path \<Rightarrow> chunk_key_separator \<Rightarrow> array_codec \<Rightarrow> memory_store array" where
  "memory_array G path sep C =
     \<lparr>ar_path = path, ar_encode_key = default_encode decimal sep, ar_grid = G, ar_data_type = ab_data_type C,
      ar_fill_value = ab_fill_value C, ar_codecs = C, ar_storage = memory_storage, ar_partial_encoder = None\<rparr>"

lemma memory_array_on_store:
  assumes "grid_contract G" and "prod_list (cg_grid_shape G) < M64" and "validate_path path"
    and "array_to_bytes_codec C (ab_data_type C) (ab_fill_value C) acc R iclass"
    and "dt_size (ab_data_type C) = SizeFixed z" and "0 < z" and "fill_matches (ab_data_type C) (ab_fill_value C)"
    and "\<And>c. inb c (cg_grid_shape G) \<Longrightarrow> shape_ok (sub_shape (chunk_area G c)) \<and>
      prod_list (sub_shape (chunk_area G c)) + 1 < M64 \<and> 2 * (prod_list (sub_shape (chunk_area G c)) * z) < M64 \<and>
      prod_list (sub_shape (chunk_area G c)) * length (ab_fill_value C) < M64"
    and "\<And>c b. inb c (cg_grid_shape G) \<Longrightarrow> ab_ok (ab_data_type C) (prod_list (sub_shape (chunk_area G c))) b \<Longrightarrow>
      acc (sub_shape (chunk_area G c)) b"
  shows "array_on_store (memory_array G path sep C) acc R iclass memory_inv map_of z"
proof -
  have s: "key_value_store memory_inv map_of (so_get (ar_storage (memory_array G path sep C)))
      (so_set (ar_storage (memory_array G path sep C))) (so_erase (ar_storage (memory_array G path sep C)))
      (so_get_partial_many (ar_storage (memory_array G path sep C)))"
    using memory.key_value_store_axioms by (simp add: memory_array_def memory_storage_def)
  have k: "inj_on (chunk_key (memory_array G path sep C)) cs" for cs
    using default_chunk_keys_decimal[OF assms(3), of sep]
    by (intro inj_onI) (simp add: chunk_key_def memory_array_def)
  show ?thesis
    unfolding array_on_store_def array_on_store_axioms_def
    using s k assms by (simp add: memory_array_def chunk_dims_def)
qed

text \<open>Without any keys, an array has the fill value everywhere.\<close>

lemma empty_array_holds:
  assumes "grid_contract (ar_grid A)" and "\<And>k. contents st k = None"
  shows "array_holds A acc contents st (\<lambda>_. array_fill A)"
  using assms by (simp add: array_holds_def chunk_holds_def subset_values_def grid_contract_def chunk_dims_def length_box
      wf_subset_length map_replicate_const)

text \<open>
  An array of two-byte integers, written big-endian on a little-endian machine, in chunks of two by two elements that overhang
  the array of three by three elements.
\<close>

definition sample_grid :: regular_chunk_grid where
  "sample_grid = \<lparr>rg_array_shape = [3, 3], rg_grid_shape = [2, 2], rg_chunk_shape = [2, 2]\<rparr>"

definition sample_bytes :: bytes_bound where
  "sample_bytes = \<lparr>by_native = LittleEndian, by_component_size = 2, by_endian = Some BigEndian,
     by_data_type = PlainType (SizeFixed 2), by_fill_value = [7, 0]\<rparr>"

definition sample_array :: "memory_store array" where
  "sample_array = memory_array (regular_grid sample_grid) ''/a'' SepSlash (bytes_array_codec sample_bytes)"

lemma sample_grid_contract: "grid_contract (regular_grid sample_grid)"
proof (rule chunk_grid_family.contract[OF regular.chunk_grid_family_axioms])
  show "wf_regular sample_grid"
    by (simp add: wf_regular_def sample_grid_def fits_chunks_def regular_new_def M64_def div_ceil_def)
  show "0 \<notin> set (cg_array_shape (regular_grid sample_grid))" by (simp add: sample_grid_def)
qed

lemma sample_grid_shapes:
  "rg_grid_shape sample_grid = [2, 2]" "rg_array_shape sample_grid = [3, 3]"
  by (simp_all add: sample_grid_def)

lemma sample_chunk_shape: "inb c [2, 2] \<Longrightarrow> sub_shape (chunk_area (regular_grid sample_grid) c) = [2, 2]"
  using sample_grid_contract
  by (auto simp: grid_contract_def regular_chunk_shape_def regular_dimensionality_def sample_grid_def inb_length
      dest!: spec[where x = c])

lemma sample_codec: "ab_data_type (bytes_array_codec sample_bytes) = PlainType (SizeFixed 2)"
  "ab_fill_value (bytes_array_codec sample_bytes) = [7, 0]"
  by (simp_all add: bytes_array_codec_def sample_bytes_def)

interpretation sample: array_on_store sample_array "bytes_accepts sample_bytes" interval_range AnyIndexer memory_inv map_of 2
  unfolding sample_array_def
proof (rule memory_array_on_store)
  show "array_to_bytes_codec (bytes_array_codec sample_bytes) (ab_data_type (bytes_array_codec sample_bytes))
      (ab_fill_value (bytes_array_codec sample_bytes)) (bytes_accepts sample_bytes) interval_range AnyIndexer"
    using bytes.array_to_bytes_codec_axioms[of sample_bytes] by (simp add: bytes_array_codec_def)
  show "bytes_accepts sample_bytes (sub_shape (chunk_area (regular_grid sample_grid) c)) b"
    if "inb c (cg_grid_shape (regular_grid sample_grid))"
      "ab_ok (ab_data_type (bytes_array_codec sample_bytes)) (prod_list (sub_shape (chunk_area (regular_grid sample_grid) c))) b" for c b
    using that sample_chunk_shape[of c]
    by (simp add: bytes_accepts_def sample_codec sample_grid_shapes)
      (simp add: bytes_ready_def shape_ok_def countable_size_def M64_def sample_bytes_def)
  show "validate_path ''/a''"
    by (simp add: validate_path_def ends_with_def validate_component_def validate_name_def)
qed (use sample_chunk_shape in \<open>simp_all add: sample_grid_contract sample_grid_shapes sample_codec shape_ok_def M64_def\<close>)

subsection \<open>Reading and writing regions\<close>

text \<open>
  Property C2.  Reading a region of an array returns the values the array holds there, in row-major order: over any lawful
  chunk grid, codec and store, with chunks absent or present, whole or partial, in any order of the chunks, and
  whatever the output buffers contained.  For elements of a fixed size and a region within the array.
\<close>

theorem retrieve_array_subset_reads:
  assumes "array_on_store A acc R iclass ok contents z" and "ok st" and "array_holds A acc contents st f"
    and "region_ok A z r" and "schedule sched" and "allocates junk"
  shows "\<exists>b. retrieve_array_subset sched junk A opt st r = Inr b \<and> ab_ok (ar_data_type A) (prod_list (sub_shape r)) b \<and>
     vals (ar_data_type A) b = subset_values f r"
  by (rule array_on_store.retrieve_array_subset_ok[OF assms])

text \<open>
  Property C3.  Writing a region overwrites exactly the elements of the region: afterwards the array holds the new values there
  and the old ones elsewhere, and the store is unchanged at every key that is not one of a chunk that meets the
  region.  It holds in any order of the chunks, and whether chunks that are all fill value are erased or stored, for elements of a
  fixed size, a region within the array, and chunks written as a whole (without the experimental partial encoder).
\<close>

theorem store_array_subset_overwrites:
  assumes "array_on_store A acc R iclass ok contents z" and "ok st" and "array_holds A acc contents st f"
    and "region_ok A z r" and "schedule sched" and "align_ok al" and "whole_writes A opt"
    and "ab_ok (ar_data_type A) (prod_list (sub_shape r)) u"
  shows "\<exists>st'. store_array_subset sched al A opt r u st = Inr st' \<and> ok st' \<and>
     array_holds A acc contents st' (overwrite f r (vals (ar_data_type A) u)) \<and>
     same_elsewhere A contents st st'
       {c. inb c (cg_grid_shape (ar_grid A)) \<and> elements (chunk_area (ar_grid A) c) \<inter> elements r \<noteq> {}}"
  by (rule array_on_store.store_array_subset_ok[OF assms])

definition sample_options :: codec_options where
  "sample_options = \<lparr>validate_checksums = True, store_empty_chunks = False, concurrent_target = 4,
     chunk_concurrent_minimum = 4, experimental_partial_encoding = False\<rparr>"

lemma sample_shapes: "ar_grid sample_array = regular_grid sample_grid" "ar_data_type sample_array = PlainType (SizeFixed 2)"
  "array_shape_of sample_array = [3, 3]" "array_fill sample_array = Raw [7, 0]" "ar_partial_encoder sample_array = None"
  by (simp_all add: sample_array_def memory_array_def sample_codec array_shape_of_def sample_grid_shapes array_fill_def
      fill_val_def)

lemma sample_empty: "memory_inv []" "array_holds sample_array (bytes_accepts sample_bytes) map_of [] (\<lambda>_. Raw [7, 0])"
  using empty_array_holds[of sample_array map_of "[]" "bytes_accepts sample_bytes"] sample_grid_contract
  by (simp_all add: sample_shapes memory_inv_def)

lemma sample_region: "region_ok sample_array 2 \<lparr>sub_start = [1, 1], sub_shape = [2, 2]\<rparr>"
  by (simp add: region_ok_def sample_shapes wf_subset_def inbounds_shape_def wadd_def M64_def)

theorem retrieve_array_subset_reads_witness:
  "\<exists>b. retrieve_array_subset rev (\<lambda>n. replicate n 9) sample_array sample_options [] \<lparr>sub_start = [1, 1], sub_shape = [2, 2]\<rparr> = Inr b \<and>
     vals (PlainType (SizeFixed 2)) b = [Raw [7, 0], Raw [7, 0], Raw [7, 0], Raw [7, 0]]"
proof -
  have "schedule rev" "allocates (\<lambda>n. replicate n 9)" by (simp_all add: schedule_def allocates_def)
  from retrieve_array_subset_reads[OF sample.array_on_store_axioms sample_empty sample_region this]
  show ?thesis by (auto simp: sample_shapes subset_values_def upt_rec)
qed

theorem store_array_subset_overwrites_witness:
  "\<exists>st. store_array_subset rev (\<lambda>b. (b, [], [])) sample_array sample_options \<lparr>sub_start = [1, 1], sub_shape = [2, 2]\<rparr>
       (FixedBytes [1, 0, 2, 0, 3, 0, 4, 0]) [] = Inr st \<and>
     array_holds sample_array (bytes_accepts sample_bytes) map_of st
       (overwrite (\<lambda>_. Raw [7, 0]) \<lparr>sub_start = [1, 1], sub_shape = [2, 2]\<rparr>
         [Raw [1, 0], Raw [2, 0], Raw [3, 0], Raw [4, 0]])"
proof -
  let ?u = "FixedBytes [1, 0, 2, 0, 3, 0, 4, 0]"
  have "schedule rev" "align_ok (\<lambda>b. (b, [], []))" "whole_writes sample_array sample_options"
    "ab_ok (ar_data_type sample_array) (prod_list (sub_shape \<lparr>sub_start = [1, 1], sub_shape = [2, 2]\<rparr>)) ?u"
    by (simp_all add: schedule_def align_ok_def whole_writes_def sample_shapes M64_def)
  from store_array_subset_overwrites[OF sample.array_on_store_axioms sample_empty sample_region this]
  have "\<exists>st. store_array_subset rev (\<lambda>b. (b, [], [])) sample_array sample_options \<lparr>sub_start = [1, 1], sub_shape = [2, 2]\<rparr> ?u [] = Inr st \<and>
     array_holds sample_array (bytes_accepts sample_bytes) map_of st
       (overwrite (\<lambda>_. Raw [7, 0]) \<lparr>sub_start = [1, 1], sub_shape = [2, 2]\<rparr> (vals (ar_data_type sample_array) ?u))"
    by blast
  then show ?thesis by (simp add: sample_shapes vals_def chunks_exact.simps)
qed

text \<open>
  Property C4.  Erasing a box of chunks, in any order, resets exactly the elements of those chunks to the fill value and touches no
  other key, for an array of elements of a fixed size.
\<close>

theorem erase_chunks_resets:
  assumes "array_on_store A acc R iclass ok contents z" and "ok st" and "array_holds A acc contents st f" and "schedule sched"
    and "wf_subset cs" and "inbounds_shape cs (cg_grid_shape (ar_grid A))"
  shows "\<exists>st'. erase_chunks sched A cs st = Inr st' \<and> ok st' \<and>
     array_holds A acc contents st'
       (\<lambda>i. if \<exists>c \<in> elements cs. i \<in> elements (chunk_area (ar_grid A) c) then array_fill A else f i) \<and>
     same_elsewhere A contents st st' (elements cs)"
  by (rule array_on_store.erase_chunks_ok[OF assms])

theorem erase_chunks_resets_witness:
  "\<exists>st. erase_chunks rev sample_array \<lparr>sub_start = [0, 1], sub_shape = [2, 1]\<rparr> [] = Inr st \<and>
     array_holds sample_array (bytes_accepts sample_bytes) map_of st (\<lambda>_. Raw [7, 0])"
proof -
  have "schedule rev" "wf_subset \<lparr>sub_start = [0, 1], sub_shape = [2, 1]\<rparr>"
    "inbounds_shape \<lparr>sub_start = [0, 1], sub_shape = [2, 1]\<rparr> (cg_grid_shape (ar_grid sample_array))"
    by (simp_all add: schedule_def wf_subset_def inbounds_shape_def wadd_def M64_def sample_shapes sample_grid_shapes)
  from erase_chunks_resets[OF sample.array_on_store_axioms sample_empty this]
  show ?thesis unfolding sample_shapes if_cancel by blast
qed

text \<open>
  Property C5.  Calls that do not fit are rejected with the error of the failed check.  A region of another dimensionality is an invalid
  subset for every operation on regions, and chunk indices of another dimensionality are invalid for reading a chunk.  A part of a chunk
  that is not within the chunk is rejected by both ways of reading it and by writing it.  Data for a region or a chunk with another
  number of elements, and a target with another number of elements than the region, are rejected with both numbers.  Regions of the
  right dimensionality that reach beyond the array are not among these calls: what they give is left to the chunk grid.
\<close>

theorem misfit_calls_rejected:
  assumes "array_on_store A acc R iclass ok contents z"
  shows "(dimensionality r' \<noteq> array_dimensionality A \<longrightarrow>
       retrieve_array_subset sched junk A opt st r' = Inl (InvalidArraySubset r' (array_shape_of A)) \<and>
       retrieve_array_subset_into sched A opt st r' T = Inl (InvalidArraySubset r' (array_shape_of A)) \<and>
       store_array_subset sched al A opt r' u st = Inl (InvalidArraySubset r' (array_shape_of A))) \<and>
     (length c' \<noteq> array_dimensionality A \<longrightarrow> retrieve_chunk A opt st c' = Inl (InvalidChunkGridIndicesError c')) \<and>
     (inb c (cg_grid_shape (ar_grid A)) \<and> wf_subset s \<and> dimensionality s = array_dimensionality A \<and>
         \<not> elements s \<subseteq> elements (new_with_shape (chunk_dims A c)) \<longrightarrow>
       retrieve_chunk_subset A opt st c s = Inl (InvalidArraySubset s (array_shape_of A)) \<and>
       retrieve_chunk_subset_into A opt st c s T = Inl (InvalidArraySubset s (array_shape_of A)) \<and>
       store_chunk_subset al A opt c s u st = Inl (InvalidChunkSubset s c (chunk_dims A c))) \<and>
     (inb c (cg_grid_shape (ar_grid A)) \<and> ab_ok (ar_data_type A) n u \<and> n \<noteq> prod_list (chunk_dims A c) \<longrightarrow>
       store_chunk al A opt c u st =
         Inl (ArrayCodecError (UnexpectedChunkDecodedSize (ab_size u) (prod_list (chunk_dims A c) * z)))) \<and>
     (region_ok A z r \<and> \<not> is_empty r \<and> ab_ok (ar_data_type A) n u \<and> n \<noteq> prod_list (sub_shape r) \<longrightarrow>
       store_array_subset sched al A opt r u st =
         Inl (ArrayCodecError (UnexpectedChunkDecodedSize (ab_size u) (prod_list (sub_shape r) * z)))) \<and>
     (region_ok A z r \<and> target_num_elements T \<noteq> prod_list (sub_shape r) \<longrightarrow>
       retrieve_array_subset_into sched A opt st r T =
         Inl (ArrayCodecError (InvalidNumberOfElements (target_num_elements T) (prod_list (sub_shape r)))))"
proof (intro conjI impI)
  assume c: "inb c (cg_grid_shape (ar_grid A)) \<and> wf_subset s \<and> dimensionality s = array_dimensionality A \<and>
    \<not> elements s \<subseteq> elements (new_with_shape (chunk_dims A c))"
  have f: "\<not> fits s (chunk_dims A c)" using c fits_within[of s "chunk_dims A c"] by blast
  have c3: "inb c (cg_grid_shape (ar_grid A))" "wf_subset s" "dimensionality s = array_dimensionality A" using c by simp_all
  note m = array_on_store.chunk_subset_misfit[OF assms c3 f]
  show "retrieve_chunk_subset A opt st c s = Inl (InvalidArraySubset s (array_shape_of A))" by (rule m(1))
  show "retrieve_chunk_subset_into A opt st c s T = Inl (InvalidArraySubset s (array_shape_of A))" by (rule m(2))
  show "store_chunk_subset al A opt c s u st = Inl (InvalidChunkSubset s c (chunk_dims A c))" by (rule m(3))
next
  assume "inb c (cg_grid_shape (ar_grid A)) \<and> ab_ok (ar_data_type A) n u \<and> n \<noteq> prod_list (chunk_dims A c)"
  then show "store_chunk al A opt c u st =
      Inl (ArrayCodecError (UnexpectedChunkDecodedSize (ab_size u) (prod_list (chunk_dims A c) * z)))"
    using array_on_store.chunk_wrong_length[OF assms] by blast
next
  assume "region_ok A z r \<and> \<not> is_empty r \<and> ab_ok (ar_data_type A) n u \<and> n \<noteq> prod_list (sub_shape r)"
  then show "store_array_subset sched al A opt r u st =
      Inl (ArrayCodecError (UnexpectedChunkDecodedSize (ab_size u) (prod_list (sub_shape r) * z)))"
    using array_on_store.store_wrong_length[OF assms] by blast
next
  assume "region_ok A z r \<and> target_num_elements T \<noteq> prod_list (sub_shape r)"
  then show "retrieve_array_subset_into sched A opt st r T =
      Inl (ArrayCodecError (InvalidNumberOfElements (target_num_elements T) (prod_list (sub_shape r))))"
    using array_on_store.target_wrong_length[OF assms] by blast
qed (simp_all add: retrieve_array_subset_def retrieve_array_subset_into_def store_array_subset_def array_dimensionality_def
    retrieve_chunk_def retrieve_chunk_if_exists_def)

theorem misfit_calls_rejected_witness:
  "retrieve_array_subset id (\<lambda>n. replicate n 0) sample_array sample_options [] \<lparr>sub_start = [0], sub_shape = [1]\<rparr> =
     Inl (InvalidArraySubset \<lparr>sub_start = [0], sub_shape = [1]\<rparr> [3, 3]) \<and>
   retrieve_chunk_subset sample_array sample_options [] [0, 0] \<lparr>sub_start = [1, 1], sub_shape = [2, 1]\<rparr> =
     Inl (InvalidArraySubset \<lparr>sub_start = [1, 1], sub_shape = [2, 1]\<rparr> [3, 3]) \<and>
   store_chunk (\<lambda>b. (b, [], [])) sample_array sample_options [0, 0] (FixedBytes [1, 2]) [] =
     Inl (ArrayCodecError (UnexpectedChunkDecodedSize 2 8)) \<and>
   store_array_subset id (\<lambda>b. (b, [], [])) sample_array sample_options \<lparr>sub_start = [1, 1], sub_shape = [2, 2]\<rparr>
     (FixedBytes [1, 2]) [] = Inl (ArrayCodecError (UnexpectedChunkDecodedSize 2 8))"
proof -
  let ?r = "\<lparr>sub_start = [1, 1], sub_shape = [2, 2]\<rparr>" and ?r' = "\<lparr>sub_start = [0], sub_shape = [1]\<rparr>"
    and ?s = "\<lparr>sub_start = [1, 1], sub_shape = [2, 1]\<rparr>"
  have d: "dimensionality ?r' \<noteq> array_dimensionality sample_array" "\<not> is_empty ?r" "ab_ok (ar_data_type sample_array) 1 (FixedBytes [1, 2])"
    by (simp_all add: dimensionality_def array_dimensionality_def sample_shapes is_empty_def M64_def)
  have c: "inb [0, 0] (cg_grid_shape (ar_grid sample_array))" "chunk_dims sample_array [0, 0] = [2, 2]"
    using sample_chunk_shape[of "[0, 0]"] by (simp_all add: sample_shapes sample_grid_shapes chunk_dims_def)
  have s: "wf_subset ?s" "dimensionality ?s = array_dimensionality sample_array"
    by (simp_all add: wf_subset_def M64_def dimensionality_def array_dimensionality_def sample_shapes)
  have "[2, 1] \<in> elements ?s" "[2, 1] \<notin> elements (new_with_shape [2, 2])"
    by (simp_all add: elements_def new_with_shape_def less_Suc_eq)
  then have e: "\<not> elements ?s \<subseteq> elements (new_with_shape [2, 2])" by blast
  show ?thesis
    using misfit_calls_rejected[OF sample.array_on_store_axioms, of ?r' id "\<lambda>n. replicate n 0" sample_options "[]" undefined
        "\<lambda>b. (b, [], [])" "FixedBytes [1, 2]" "[]" "[0, 0]" ?s 1 ?r] sample_region d c s e
    by (simp add: sample_shapes)
qed

end
