(* ===== verification/Codec_Properties.thy ===== *)
theory Codec_Properties
  imports Transpose_Contract Shuffle_Codec Checksum_Codecs Array_Properties
begin

text \<open>
  Codec chains that hold their contract, and the properties of codec chains and of the transpose codec.  The law of the permuted
  view is satisfied by the positions that the indices of the permuted shape have in the array.
\<close>

definition nd_positions :: nd_order where
  "nd_positions s order =
     (case inverse_permutation order of
        Inl _ \<Rightarrow> []
      | Inr iv \<Rightarrow> map (\<lambda>j. lin s (permuted iv j)) (box (replicate (length order) 0) (permuted order s)))"

interpretation positions: ndarray nd_positions
proof
  fix s order :: "nat list"
  assume o: "is_order order (length s)"
  obtain iv where iv: "inverse_permutation order = Inr iv" "is_order iv (length s)"
      "\<And>k. k < length s \<Longrightarrow> order ! (iv ! k) = k"
    using inverse_order[OF o] by metis
  have l: "length order = length (permuted order s)" by simp
  show len: "length (nd_positions s order) = prod_list s"
    using length_box[of "replicate (length order) 0" "permuted order s"] prod_permuted[OF o] by (simp add: nd_positions_def iv(1))
  fix i assume i: "inb i s"
  have pi: "permuted iv (permuted order i) = i"
    by (rule permuted_inverse) (use o iv inb_length[OF i] in \<open>auto simp: is_order_def\<close>)
  have q: "inb (permuted order i) (permuted order s)" using inb_permuted[OF o _ refl, of i] inb_length[OF i] i by simp
  have "box (replicate (length order) 0) (permuted order s) ! lin (permuted order s) (permuted order i) = permuted order i"
    using lin_less[OF q] box_unlin[of "permuted order s"] unlin_lin[OF q] by simp
  then show "nd_positions s order ! lin (permuted order s) (permuted order i) = lin s i"
    using lin_less[OF q] length_box[of "replicate (length order) 0" "permuted order s"] by (simp add: nd_positions_def iv(1) pi)
qed

subsection \<open>A chain of lawful codecs\<close>

definition bytes_unbound :: "bytes_bound \<Rightarrow> unbound_array_bytes" where
  "bytes_unbound B =
     \<lparr>ub_with_context = bytes_with_context (by_native B) (\<lambda>_. Some (by_component_size B)) (by_endian B),
      ub_capability = \<lparr>can_partial_read = True, can_partial_decode = True\<rparr>\<rparr>"

definition transposed_chain ::
    "nat list \<Rightarrow> bytes_bound \<Rightarrow> usize \<Rightarrow> (bytes \<Rightarrow> 32 word) \<Rightarrow> codec_chain" where
  "transposed_chain order B es crc =
     \<lparr>cc_array_to_array = [transpose_unbound nd_positions order], cc_array_to_bytes = bytes_unbound B,
      cc_bytes_to_bytes = [shuffle_codec es, crc32c_codec crc LocationEnd]\<rparr>"

definition transpose_of :: "nat list \<Rightarrow> bytes_bound \<Rightarrow> transpose_bound" where
  "transpose_of order B = \<lparr>tr_order = order, tr_data_type = by_data_type B, tr_fill_value = by_fill_value B\<rparr>"

definition transposed_chain_bound ::
    "nat list \<Rightarrow> bytes_bound \<Rightarrow> usize \<Rightarrow> (bytes \<Rightarrow> 32 word) \<Rightarrow> codec_chain_bound" where
  "transposed_chain_bound order B es crc =
     \<lparr>cb_array_to_array = [transpose_codec nd_positions (transpose_of order B)], cb_array_to_bytes = bytes_array_codec B,
      cb_bytes_to_bytes = [shuffle_codec es, crc32c_codec crc LocationEnd], cb_cache_index = Some 2\<rparr>"

lemma transposed_chain_binds:
  assumes "\<not> is_optional (by_data_type B)"
  shows "chain_with_context (transposed_chain order B es crc) (by_data_type B) (by_fill_value B) =
    Inr (transposed_chain_bound order B es crc)"
  using assms
  by (cases B) (simp add: chain_with_context_def transposed_chain_def transpose_unbound_def transpose_with_context_def bytes_unbound_def
      bytes_with_context_def transposed_chain_bound_def transpose_of_def transpose_codec_def shuffle_codec_def crc32c_codec_def
      cache_index_of_def)

interpretation transposed: served_chain "transposed_chain_bound order B es crc"
  "[(transpose_codec nd_positions (transpose_of order B), positions.transpose_accepts (transpose_of order B))]"
  "bytes_accepts B" "[(shuffle_codec es, shuffle_accepts es), (crc32c_codec crc LocationEnd, checksum_accepts)]"
  interval_range from_start_range AnyIndexer
  for order B es crc
proof (rule served_chain.intro[OF lawful_chain.intro served_chain_axioms.intro], goal_cases)
  case 2
  show ?case
    using positions.transpose.array_to_array_codec_axioms by (simp add: lawful_arrays_def)
next
  case 4
  show ?case
    using shuffle_lawful[of from_start_range] crc32c.bytes_to_bytes_codec_axioms by (simp add: lawful_bytes_def)
next
  case 5
  show ?case using bytes.array_to_bytes_codec_axioms[of B] by (simp add: transposed_chain_bound_def bytes_array_codec_def)
qed (simp_all add: interval_from_start array_cache_between_def transposed_chain_bound_def transpose_codec_def chain_data_type_def chain_fill_value_def bytes_array_codec_def
    transpose_of_def)

lemma transposed_chain_parts:
  "ab_encode (cb_array_to_bytes (transposed_chain_bound order B es crc)) opt = bytes_encode B"
  "bb_encode (shuffle_codec es) = shuffle_encode es"
  "chain_data_type (transposed_chain_bound order B es crc) = by_data_type B"
  "chain_fill_value (transposed_chain_bound order B es crc) = by_fill_value B"
  by (simp_all add: transposed_chain_bound_def bytes_array_codec_def shuffle_codec_def chain_data_type_def chain_fill_value_def
      transpose_codec_def transpose_of_def)

text \<open>When the chain above accepts a chunk.\<close>

lemma transposed_accepts:
  assumes "is_order order (length s)" and "bytes_ready B" and "by_data_type B = PlainType (SizeFixed z)"
    and "0 < es" and "es dvd z" and "shape_ok s" and "list_all ((<) 0) s" and "countable_size (by_data_type B) (prod_list s)"
    and "prod_list s * z + 4 < M64" and "ab_ok (by_data_type B) (prod_list s) b"
  shows "transposed.chain_accepts order B es crc s b"
proof -
  let ?T = "transpose_of order B"
  have T: "tr_order ?T = order" "tr_data_type ?T = by_data_type B" by (simp_all add: transpose_of_def)
  have ready: "transpose_ready ?T s" using assms by (simp add: transpose_ready_def T is_optional_def)
  have fin: "transposed.final_accepts order B es crc (permuted order s) e" if e: "ab_ok (by_data_type B) (prod_list s) e" for e
  proof -
    have p: "prod_list (permuted order s) = prod_list s" by (rule prod_permuted[OF assms(1)])
    have "shape_ok (permuted order s)" using assms(6) set_permuted[OF assms(1)] p by (simp add: shape_ok_def list_all_iff)
    then have acc: "bytes_accepts B (permuted order s) e" using assms(2,8) e by (simp add: bytes_accepts_def p)
    obtain E where E: "sized z E" "length E = prod_list s" "by_component_size B dvd z" "0 < by_component_size B"
        "bytes_encode B e (permuted order s) = Inr (concat (map (swap_bytes B) E))"
      by (rule bytes_accepted[OF acc]) (use assms(3) p in auto)
    define c where "c = concat (map (swap_bytes B) E)"
    have lc: "length c = prod_list s * z" using length_concat_sized[OF sized_swap[OF E(4,3,1)]] E(2) by (simp add: c_def)
    then have "shuffle_accepts es c" using assms(4,5,9) by (simp add: shuffle_accepts_def mod_eq_0_iff_dvd)
    moreover have "\<forall>f. shuffle_encode es c = Inr f \<longrightarrow> checksum_accepts f"
      using shuffle_roundtrip[OF \<open>shuffle_accepts es c\<close>] lc assms(9) by (auto simp: checksum_accepts_def CHECKSUM_SIZE_def)
    ultimately show ?thesis
      using acc E(5)[folded c_def] unfolding transposed.final_accepts_def by (simp add: transposed_chain_parts)
  qed
  have "arrays_accept (transposed.final_accepts order B es crc)
      [(transpose_codec nd_positions ?T, positions.transpose_accepts ?T)] s b'"
    if b': "ab_ok (by_data_type B) (prod_list s) b'" for b'
  proof -
    have acc: "positions.transpose_accepts ?T s b'" using ready b' by (simp add: positions.transpose_accepts_def T)
    show ?thesis
      using acc positions.transpose_encoded(1,4)[OF acc] fin by (auto simp: transpose_codec_def T)
  qed
  then show ?thesis
    using assms unfolding transposed.chain_accepts_def by (simp add: transposed_chain_parts del: arrays_accept.simps)
qed

subsection \<open>The position of the cache of a bound chain\<close>

lemma cache_positions_append:
  "cache_positions (cs @ ds) st = cache_positions ds (cache_positions cs st)"
proof (induction cs arbitrary: st)
  case (Cons c cs)
  then show ?case by (cases st) simp
qed simp

lemma cache_positions_capable:
  "\<forall>c \<in> set cs. can_partial_read c \<and> can_partial_decode c \<Longrightarrow> cache_positions cs (must, should, i) = (must, should, i + length cs)"
proof (induction cs arbitrary: i)
  case (Cons c cs)
  then have "cache_positions cs (must, should, i + 1) = (must, should, i + 1 + length cs)" by (meson list.set_intros(2))
  moreover have "can_partial_read c" "can_partial_decode c" using Cons.prems by (meson list.set_intros(1))+
  ultimately show ?case by simp
qed simp

lemma cache_positions_bounded:
  "pred_option (\<lambda>m. m \<le> i) must \<Longrightarrow> pred_option (\<lambda>k. k \<le> i) should \<Longrightarrow>
   \<exists>must' should'. cache_positions cs (must, should, i) = (must', should', i + length cs) \<and>
     pred_option (\<lambda>m. m \<le> i + length cs) must' \<and> pred_option (\<lambda>k. k \<le> i + length cs) should'"
proof (induction cs arbitrary: must should i)
  case (Cons c cs)
  have "pred_option (\<lambda>m. m \<le> i + 1) (if can_partial_decode c then must else Some (i + 1))"
      "pred_option (\<lambda>k. k \<le> i + 1) (if can_partial_read c then should else Some i)"
    using Cons.prems by (cases must; simp) (use Cons.prems in \<open>cases should; simp\<close>)
  from Cons.IH[OF this] show ?case by simp
qed simp

lemma bound_lengths:
  assumes "chain_with_context K t fv = Inr B"
  shows "length (cb_array_to_array B) = length (cc_array_to_array K)" and "cb_bytes_to_bytes B = cc_bytes_to_bytes K"
    and "cb_cache_index B = cache_index_of K"
proof -
  have "bind_arrays us t fv = Inr (As, t', fv') \<Longrightarrow> length As = length us" for us t fv As t' fv'
    by (induction us arbitrary: t fv As) (auto split: sum.splits simp: bind_res_def)
  then show "length (cb_array_to_array B) = length (cc_array_to_array K)" "cb_bytes_to_bytes B = cc_bytes_to_bytes K"
      "cb_cache_index B = cache_index_of K"
    using assms by (auto simp: chain_with_context_def bind_res_def split: sum.splits)
qed

text \<open>
  The cache is not between the array-to-array codecs when they all read and decode partially and so does the array-to-bytes codec, or when the
  first array-to-array codec, the last to decode, cannot decode partially.
\<close>

lemma chain_with_context_cache:
  assumes "chain_with_context K t fv = Inr B"
    and "(\<forall>u \<in> set (cc_array_to_array K). can_partial_read (ua_capability u) \<and> can_partial_decode (ua_capability u)) \<and>
      can_partial_decode (ub_capability (cc_array_to_bytes K)) \<or>
      cc_array_to_array K \<noteq> [] \<and> \<not> can_partial_decode (ua_capability (hd (cc_array_to_array K)))"
  shows "\<not> array_cache_between B"
proof -
  let ?bs = "map bb_capability (rev (cc_bytes_to_bytes K))" and ?c = "ub_capability (cc_array_to_bytes K)"
    and ?as = "map ua_capability (rev (cc_array_to_array K))"
  obtain m k where b: "cache_positions ?bs (None, None, 0) = (m, k, length ?bs)"
      "pred_option (\<lambda>m. m \<le> length ?bs) m" "pred_option (\<lambda>k. k \<le> length ?bs) k"
    using cache_positions_bounded[of 0 None None ?bs] by auto
  note lengths = bound_lengths[OF assms(1)]
  from assms(2) show ?thesis
  proof (elim disjE conjE)
    assume "\<forall>u \<in> set (cc_array_to_array K). can_partial_read (ua_capability u) \<and> can_partial_decode (ua_capability u)"
      and c: "can_partial_decode ?c"
    then have "\<forall>c \<in> set ?as. can_partial_read c \<and> can_partial_decode c" by simp
    from cache_positions_capable[OF this] have i: "cache_index_of K = Some i \<Longrightarrow> i \<le> length ?bs" for i
      using b c by (auto simp: cache_index_of_def cache_positions_append split: option.splits if_splits)
    show ?thesis using i by (fastforce simp: array_cache_between_def lengths)
  next
    assume "cc_array_to_array K \<noteq> []" and c: "\<not> can_partial_decode (ua_capability (hd (cc_array_to_array K)))"
    then obtain u us where u: "cc_array_to_array K = u # us" by (cases "cc_array_to_array K") auto
    have 1: "pred_option (\<lambda>m. m \<le> length ?bs + 1) (if can_partial_decode ?c then m else Some (length ?bs + 1))"
        "pred_option (\<lambda>k. k \<le> length ?bs + 1) (if can_partial_read ?c then k else Some (length ?bs))"
      using b(2,3) by (cases m; simp) (use b(2,3) in \<open>cases k; simp\<close>)
    obtain m' k' where "cache_positions (map ua_capability (rev us))
        (if can_partial_decode ?c then m else Some (length ?bs + 1), if can_partial_read ?c then k else Some (length ?bs), length ?bs + 1) =
        (m', k', length ?bs + 1 + length us)" "pred_option (\<lambda>k. k \<le> length ?bs + 1 + length us) k'"
      using cache_positions_bounded[OF 1, of "map ua_capability (rev us)"] by auto
    then have "\<exists>i. cache_index_of K = Some i \<and> length ?bs + 1 + length us < i"
      using b(1) c u by (auto simp: cache_index_of_def cache_positions_append split: option.splits)
    then show ?thesis by (auto simp: array_cache_between_def lengths u)
  qed
qed

subsection \<open>Properties of codec chains\<close>

text \<open>
  Property C17.  A chain of lawful codecs decodes what it encodes, whatever the options: as a whole, into a target, and, when the
  cache that its partial decoder inserts is not directly before an array-to-array codec, through this cache at the elements of any indexer.
  The condition does not hold of every chain: \<open>chain_with_context_cache\<close> states chains for which it does, and for a transposed chain of
  variable-length elements, whose cache is before the decoder of the transposition, partial decoding fails
  (\<open>Vlen_Properties.cache_before_transpose_fails\<close>).
\<close>

theorem codec_chain_correct:
  assumes "lawful_chain K as acc0 bs R0 R iclass" and "lawful_chain.chain_accepts K as acc0 bs s b"
  shows "\<exists>e. chain_encode K opt b s = Inr e \<and>
     (\<forall>opt'. \<exists>b'. chain_decode K opt' e s = Inr b' \<and> vals (chain_data_type K) b' = vals (chain_data_type K) b) \<and>
     (\<forall>opt' a q T. target_into (chain_data_type K) a q T \<longrightarrow> sub_shape q = s \<longrightarrow>
        (\<exists>T'. chain_decode_into K opt' e s T = Inr T' \<and> vals (chain_data_type K) (target_bytes T') =
           scatter (vals (chain_data_type K) (target_bytes T)) (sub_idx a q) (vals (chain_data_type K) b))) \<and>
     (\<not> array_cache_between K \<longrightarrow> (\<forall>opt' d. reads_on R d e \<longrightarrow>
        (\<exists>d'. chain_partial_decoder K opt' d s = Inr d' \<and>
           reads_array iclass (chain_data_type K) d' s (vals (chain_data_type K) b))))"
proof -
  obtain e where e: "chain_encode K opt b s = Inr e" by (rule lawful_chain.chain_encoded[OF assms, of opt])
  note laws = lawful_chain.chain_decodes[OF assms e] lawful_chain.chain_decodes_into[OF assms e]
    lawful_chain.chain_partial_some[OF assms e]
  show ?thesis by (rule exI[of _ e], intro conjI allI impI) (use e laws in blast)+
qed

definition sample_chain :: codec_chain_bound where
  "sample_chain = transposed_chain_bound [1, 0] sample_bytes 2 (\<lambda>b. of_nat (length b))"

lemma sample_chain_accepts:
  "ab_ok (PlainType (SizeFixed 2)) 6 b \<Longrightarrow> transposed.chain_accepts [1, 0] sample_bytes 2 (\<lambda>b. of_nat (length b)) [2, 3] b"
  by (rule transposed_accepts[where z = 2])
    (auto simp: is_order_def bytes_ready_def sample_bytes_def shape_ok_def countable_size_def M64_def)

theorem codec_chain_correct_witness:
  "\<exists>e. chain_encode sample_chain sample_options (FixedBytes [1, 0, 2, 0, 3, 0, 4, 0, 5, 0, 6, 0]) [2, 3] = Inr e \<and>
     (\<exists>b'. chain_decode sample_chain sample_options e [2, 3] = Inr b' \<and>
       vals (PlainType (SizeFixed 2)) b' = [Raw [1, 0], Raw [2, 0], Raw [3, 0], Raw [4, 0], Raw [5, 0], Raw [6, 0]]) \<and>
     (\<exists>d. chain_partial_decoder sample_chain sample_options (vec_decoder e) [2, 3] = Inr d \<and>
       reads_array AnyIndexer (PlainType (SizeFixed 2)) d [2, 3]
         [Raw [1, 0], Raw [2, 0], Raw [3, 0], Raw [4, 0], Raw [5, 0], Raw [6, 0]])"
proof -
  let ?b = "FixedBytes [1, 0, 2, 0, 3, 0, 4, 0, 5, 0, 6, 0]"
  have "ab_ok (PlainType (SizeFixed 2)) 6 ?b" by (simp add: M64_def)
  note acc = sample_chain_accepts[OF this]
  have t: "chain_data_type sample_chain = PlainType (SizeFixed 2)"
    by (simp add: sample_chain_def transposed_chain_parts) (simp add: sample_bytes_def)
  have v: "vals (PlainType (SizeFixed 2)) ?b = [Raw [1, 0], Raw [2, 0], Raw [3, 0], Raw [4, 0], Raw [5, 0], Raw [6, 0]]"
    by (simp add: vals_def chunks_exact.simps)
  obtain e where e: "chain_encode sample_chain sample_options ?b [2, 3] = Inr e" "length e < M64"
    using transposed.chain.roundtrip[OF acc, of sample_options] by (auto simp: chain_array_codec_def sample_chain_def)
  note correct = codec_chain_correct[OF transposed.lawful_chain_axioms acc, of sample_options, folded sample_chain_def, unfolded t v]
  have "\<not> array_cache_between sample_chain" using transposed.cache by (simp add: sample_chain_def)
  then obtain b' d where "chain_decode sample_chain sample_options e [2, 3] = Inr b'" "vals (PlainType (SizeFixed 2)) b' =
        [Raw [1, 0], Raw [2, 0], Raw [3, 0], Raw [4, 0], Raw [5, 0], Raw [6, 0]]"
      "chain_partial_decoder sample_chain sample_options (vec_decoder e) [2, 3] = Inr d"
      "reads_array AnyIndexer (PlainType (SizeFixed 2)) d [2, 3] [Raw [1, 0], Raw [2, 0], Raw [3, 0], Raw [4, 0], Raw [5, 0], Raw [6, 0]]"
    using correct e(1) reads_vec[OF e(2), of from_start_range] by (elim exE conjE) (simp, blast)
  then show ?thesis using e(1) by blast
qed

text \<open>
  Property C18.  The transpose codec moves the element at an index to the permuted index, of the permuted shape, and its decoder
  moves it back, for any order of the axes and any plain data type.
\<close>

theorem transpose_codec_correct:
  assumes "ndarray nd" and "is_order (tr_order T) (length s)" and "shape_ok s" and "\<not> is_optional (tr_data_type T)"
    and "countable_size (tr_data_type T) (prod_list s)" and "ab_ok (tr_data_type T) (prod_list s) b"
  shows "\<exists>e. transpose_encode nd T b s = Inr e \<and> transpose_encoded_shape T s = Inr (permuted (tr_order T) s) \<and>
     (\<forall>i. inb i s \<longrightarrow> vals (tr_data_type T) e ! lin (permuted (tr_order T) s) (permuted (tr_order T) i) =
        vals (tr_data_type T) b ! lin s i) \<and>
     (\<exists>b'. transpose_decode nd T e s = Inr b' \<and> vals (tr_data_type T) b' = vals (tr_data_type T) b)"
proof -
  have acc: "ndarray.transpose_accepts T s b"
    using assms(2-6) by (simp add: ndarray.transpose_accepts_def[OF assms(1)] transpose_ready_def)
  note enc = ndarray.transpose_encoded[OF assms(1) acc]
  obtain e where e: "transpose_encode nd T b s = Inr e" "ab_ok (tr_data_type T) (prod_list s) e"
      "vals (tr_data_type T) e = map ((!) (vals (tr_data_type T) b)) (nd s (tr_order T))"
    using enc(4) by blast
  show ?thesis
    using e(1) enc(1) ndarray.transposed_vals_view[OF assms(1,2), of "vals (tr_data_type T) b"]
      ndarray.transpose_decoded[OF assms(1) acc e(2,3)]
    by (auto simp: e(3) transposed_vals_def)
qed

theorem transpose_codec_correct_witness:
  "\<exists>e. transpose_encode nd_positions (transpose_of [1, 0] sample_bytes) (FixedBytes [1, 0, 2, 0, 3, 0, 4, 0, 5, 0, 6, 0]) [2, 3] = Inr e \<and>
     vals (PlainType (SizeFixed 2)) e ! 4 = Raw [3, 0]"
proof -
  let ?T = "transpose_of [1, 0] sample_bytes" and ?b = "FixedBytes [1, 0, 2, 0, 3, 0, 4, 0, 5, 0, 6, 0]"
  have "is_order (tr_order ?T) (length [2, 3])" "shape_ok [2, 3]" "\<not> is_optional (tr_data_type ?T)"
      "countable_size (tr_data_type ?T) (prod_list [2, 3])" "ab_ok (tr_data_type ?T) (prod_list [2, 3]) ?b"
    by (auto simp: is_order_def transpose_of_def sample_bytes_def shape_ok_def countable_size_def M64_def is_optional_def)
  from transpose_codec_correct[OF positions.ndarray_axioms this]
  obtain e where e: "transpose_encode nd_positions ?T ?b [2, 3] = Inr e"
      "inb [0, 2] [2, 3] \<longrightarrow> vals (PlainType (SizeFixed 2)) e ! lin (permuted [1, 0] [2, 3]) (permuted [1, 0] [0, 2]) =
        vals (PlainType (SizeFixed 2)) ?b ! lin [2, 3] [0, 2]"
    by (auto simp: transpose_of_def sample_bytes_def)
  then show ?thesis by (simp add: inb_def permuted_def vals_def chunks_exact.simps)
qed

text \<open>
  Property C19.  A transpose order can be created exactly from the permutations of at least one axis.  On such an order, permuting a
  shape or an index of its length never panics, the inverse order exists, and permuting by it gives the shape back.
\<close>

theorem transpose_order_is_permutation:
  "(\<exists>T. transpose_order_new order = Inr T) \<longleftrightarrow>
     order \<noteq> [] \<and> (\<exists>iv. inverse_permutation order = Inr iv \<and>
       (\<forall>v :: nat list. length v = length order \<longrightarrow>
          (\<exists>w. permute_expect v order = Inr w \<and> permute_expect w iv = Inr v)))"
  (is "?l \<longleftrightarrow> ?r")
proof
  assume ?l
  then have "validate_permutation order" by (auto simp: transpose_order_new_def split: if_splits)
  then have o: "order \<noteq> []" "is_order order (length order)" by (simp_all add: validate_permutation_iff)
  obtain iv where iv: "inverse_permutation order = Inr iv" "is_order iv (length order)"
      "\<And>k. k < length order \<Longrightarrow> order ! (iv ! k) = k"
    using inverse_order[OF o(2)] by metis
  have "permute_expect v order = Inr (permuted order v) \<and> permute_expect (permuted order v) iv = Inr v"
    if l: "length v = length order" for v :: "nat list"
    using permute_expect_order[OF o(2) l] permute_expect_order[OF iv(2), of "permuted order v"]
      permuted_inverse[OF l _ o(2) iv(3) iv(2)] iv(2) by (simp add: is_order_def)
  then show ?r using o(1) iv(1) by blast
next
  assume r: ?r
  then obtain iv where iv: "\<And>v :: nat list. length v = length order \<Longrightarrow>
      \<exists>w. permute_expect v order = Inr w \<and> permute_expect w iv = Inr v" by blast
  let ?n = "length order"
  have perm: "(\<forall>k \<in> set p. k < length v) \<and> u = map ((!) v) p" if "permute_expect v p = Inr u" for u v p :: "nat list"
    using that by (auto simp: permute_expect_def permute_def list_ex_iff bind_res_def split: if_splits)
  obtain w where w: "permute_expect [0..<?n] order = Inr w" "permute_expect w iv = Inr [0..<?n]"
    using iv[of "[0..<?n]"] by auto
  have lt: "\<forall>k \<in> set order. k < ?n" using perm[OF w(1)] by simp
  have "w = order" using perm[OF w(1)] lt by (auto intro: map_idI)
  then have i: "\<forall>k \<in> set iv. k < ?n" "[0..<?n] = map ((!) order) iv" using perm[OF w(2)] by simp_all
  have "set [0..<?n] \<subseteq> set order" unfolding i(2) using i(1) by auto
  then have "{..<?n} \<subseteq> set order" by (simp add: atLeast0LessThan)
  then have "card {..<?n} \<le> card (set order)" by (rule card_mono[rotated]) simp
  then have "distinct order" using card_length[of order] by (intro card_distinct) simp
  then have "is_order order ?n" using lt by (simp add: is_order_iff list_all_iff)
  then show ?l using r by (simp add: transpose_order_new_def validate_permutation_iff)
qed

theorem transpose_order_is_permutation_witness:
  "\<exists>iv w. inverse_permutation [2, 0, 1] = Inr iv \<and> permute_expect [5, 6, 7 :: nat] [2, 0, 1] = Inr w \<and>
     permute_expect w iv = Inr [5, 6, 7]"
proof -
  have "transpose_order_new [2, 0, 1] = Inr [2, 0, 1]"
    by (simp add: transpose_order_new_def validate_permutation_def to_vec_unique_def Let_def)
  moreover have "length [5, 6, 7 :: nat] = length [2, 0, 1 :: nat]" by simp
  ultimately show ?thesis using transpose_order_is_permutation[of "[2, 0, 1]"] by blast
qed

subsection \<open>An array behind a chain\<close>

definition chain_array :: "memory_store array" where
  "chain_array = memory_array (regular_grid sample_grid) ''/a'' SepSlash (chain_array_codec sample_chain)"

lemma chain_array_codec_types:
  "ab_data_type (chain_array_codec sample_chain) = PlainType (SizeFixed 2)"
  "ab_fill_value (chain_array_codec sample_chain) = [7, 0]"
  by (simp_all add: chain_array_codec_def sample_chain_def transposed_chain_parts) (simp_all add: sample_bytes_def)

interpretation chain_sample: array_on_store chain_array
  "transposed.chain_accepts [1, 0] sample_bytes 2 (\<lambda>b. of_nat (length b))"
  from_start_range AnyIndexer memory_inv map_of 2
  unfolding chain_array_def
proof (rule memory_array_on_store)
  have "chain_data_type sample_chain = ab_data_type (chain_array_codec sample_chain)"
    "chain_fill_value sample_chain = ab_fill_value (chain_array_codec sample_chain)"
    by (simp_all add: chain_array_codec_def)
  then show "array_to_bytes_codec (chain_array_codec sample_chain) (ab_data_type (chain_array_codec sample_chain))
      (ab_fill_value (chain_array_codec sample_chain)) (transposed.chain_accepts [1, 0] sample_bytes 2 (\<lambda>b. of_nat (length b)))
      from_start_range AnyIndexer"
    using transposed.chain.array_to_bytes_codec_axioms[of "[1, 0]" sample_bytes 2 "\<lambda>b. of_nat (length b)"]
    by (simp add: sample_chain_def)
  show "transposed.chain_accepts [1, 0] sample_bytes 2 (\<lambda>b. of_nat (length b)) (sub_shape (chunk_area (regular_grid sample_grid) c)) b"
    if "inb c (cg_grid_shape (regular_grid sample_grid))"
      "ab_ok (ab_data_type (chain_array_codec sample_chain)) (prod_list (sub_shape (chunk_area (regular_grid sample_grid) c))) b" for c b
  proof -
    have c: "sub_shape (chunk_area (regular_grid sample_grid) c) = [2, 2]"
      using that(1) sample_chunk_shape[of c] by (simp add: sample_grid_shapes)
    show ?thesis
      using that(2) unfolding c chain_array_codec_types
      by (intro transposed_accepts[where z = 2])
        (auto simp: is_order_def bytes_ready_def sample_bytes_def shape_ok_def countable_size_def M64_def)
  qed
  show "validate_path ''/a''"
    by (simp add: validate_path_def ends_with_def validate_component_def validate_name_def)
qed (use sample_chunk_shape in \<open>simp_all add: sample_grid_contract sample_grid_shapes chain_array_codec_types shape_ok_def M64_def\<close>)

text \<open>
  Property C1.  What is written to a region is read back from it: over any lawful grid, store and codec, a chain included,
  with the writes and the reads in any order of the chunks and whatever the array held before.  For elements of a fixed size, a region
  within the array, and chunks written as a whole (without the experimental partial encoder).
\<close>

theorem write_then_read:
  assumes "array_on_store A acc R iclass ok contents z" and "ok st" and "array_holds A acc contents st f" and "region_ok A z r"
    and "schedule sched" and "schedule sched'" and "align_ok al" and "whole_writes A opt" and "allocates junk"
    and "ab_ok (ar_data_type A) (prod_list (sub_shape r)) u"
  shows "\<exists>st' b. store_array_subset sched al A opt r u st = Inr st' \<and>
     retrieve_array_subset sched' junk A opt' st' r = Inr b \<and> vals (ar_data_type A) b = vals (ar_data_type A) u"
  by (rule array_on_store.write_read_back[OF assms])

theorem write_then_read_witness:
  "\<exists>st b. store_array_subset rev (\<lambda>b. (b, [], [])) chain_array sample_options \<lparr>sub_start = [1, 1], sub_shape = [1, 2]\<rparr>
       (FixedBytes [1, 0, 2, 0]) [] = Inr st \<and>
     retrieve_array_subset id (\<lambda>n. replicate n 9) chain_array sample_options st \<lparr>sub_start = [1, 1], sub_shape = [1, 2]\<rparr> = Inr b \<and>
     vals (PlainType (SizeFixed 2)) b = [Raw [1, 0], Raw [2, 0]]"
proof -
  let ?r = "\<lparr>sub_start = [1, 1], sub_shape = [1, 2]\<rparr>" and ?u = "FixedBytes [1, 0, 2, 0]"
  have A: "ar_grid chain_array = regular_grid sample_grid" "ar_data_type chain_array = PlainType (SizeFixed 2)"
    "array_shape_of chain_array = [3, 3]" "ar_partial_encoder chain_array = None"
    by (simp_all add: chain_array_def memory_array_def chain_array_codec_types array_shape_of_def sample_grid_shapes)
  have "memory_inv []" "array_holds chain_array (transposed.chain_accepts [1, 0] sample_bytes 2 (\<lambda>b. of_nat (length b))) map_of []
      (\<lambda>_. array_fill chain_array)"
    using empty_array_holds[of chain_array map_of "[]"] sample_grid_contract by (simp_all add: A memory_inv_def)
  moreover have "region_ok chain_array 2 ?r" "schedule rev" "schedule id" "align_ok (\<lambda>b. (b, [], []))"
      "whole_writes chain_array sample_options" "allocates (\<lambda>n. replicate n 9)"
      "ab_ok (ar_data_type chain_array) (prod_list (sub_shape ?r)) ?u"
    by (simp_all add: region_ok_def A wf_subset_def inbounds_shape_def wadd_def M64_def schedule_def align_ok_def
        whole_writes_def allocates_def)
  moreover have "vals (PlainType (SizeFixed 2)) ?u = [Raw [1, 0], Raw [2, 0]]" by (simp add: vals_def chunks_exact.simps)
  ultimately show ?thesis
    using write_then_read[OF chain_sample.array_on_store_axioms, of "[]" "\<lambda>_. array_fill chain_array" ?r rev id
        "\<lambda>b. (b, [], [])" sample_options "\<lambda>n. replicate n 9" ?u sample_options] unfolding A by metis
qed

end
