(* ===== verification/Sharded_Chain.thy ===== *)
theory Sharded_Chain
  imports Sharding_Compact Codec_Properties
begin

text \<open>
  The sharding codec with codecs of the library: subchunks and the index are encoded by a chain of the bytes codec and the
  checksum codec, and the shards are the chunks of an array in memory.
\<close>

definition checked_chain :: "bytes_bound \<Rightarrow> (bytes \<Rightarrow> 32 word) \<Rightarrow> codec_chain_bound" where
  "checked_chain B crc =
     \<lparr>cb_array_to_array = [], cb_array_to_bytes = bytes_array_codec B, cb_bytes_to_bytes = [crc32c_codec crc LocationEnd],
      cb_cache_index = Some 1\<rparr>"

lemma checked_chain_binds:
  assumes "\<not> is_optional (by_data_type B)"
  shows "chain_with_context \<lparr>cc_array_to_array = [], cc_array_to_bytes = bytes_unbound B,
      cc_bytes_to_bytes = [crc32c_codec crc LocationEnd]\<rparr> (by_data_type B) (by_fill_value B) = Inr (checked_chain B crc)"
  using assms
  by (cases B) (simp add: chain_with_context_def checked_chain_def bytes_unbound_def bytes_with_context_def crc32c_codec_def
      cache_index_of_def)

interpretation checked: served_chain "checked_chain B crc" "[]" "bytes_accepts B" "[(crc32c_codec crc LocationEnd, checksum_accepts)]"
  interval_range interval_range AnyIndexer
  for B crc
proof (rule served_chain.intro[OF lawful_chain.intro served_chain_axioms.intro], goal_cases)
  case 2
  show ?case by (simp add: lawful_arrays_def)
next
  case 4
  show ?case using crc32c_lawful[of interval_range LocationEnd crc] by (simp add: lawful_bytes_def strippable_def)
next
  case 5
  show ?case using bytes.array_to_bytes_codec_axioms[of B] by (simp add: checked_chain_def bytes_array_codec_def)
qed (simp_all add: array_cache_between_def checked_chain_def chain_data_type_def chain_fill_value_def)

lemma checked_chain_parts:
  "cb_array_to_array (checked_chain B crc) = []" "cb_bytes_to_bytes (checked_chain B crc) = [crc32c_codec crc LocationEnd]"
  "ab_encode (cb_array_to_bytes (checked_chain B crc)) opt = bytes_encode B"
  "ab_encoded_representation (cb_array_to_bytes (checked_chain B crc)) = bytes_encoded_representation B"
  "chain_data_type (checked_chain B crc) = by_data_type B" "chain_fill_value (checked_chain B crc) = by_fill_value B"
  by (simp_all add: checked_chain_def bytes_array_codec_def chain_data_type_def chain_fill_value_def)

definition checked_ready :: "bytes_bound \<Rightarrow> chunk_shape \<Rightarrow> bool" where
  "checked_ready B s \<longleftrightarrow> bytes_ready B \<and> shape_ok s \<and> list_all ((<) 0) s \<and> countable_size (by_data_type B) (prod_list s) \<and>
     (\<forall>z. by_data_type B = PlainType (SizeFixed z) \<longrightarrow> prod_list s * z + 4 < M64)"

lemma checked_encoded_bytes:
  assumes "bytes_accepts B s b" and "by_data_type B = PlainType (SizeFixed z)"
  obtains c where "bytes_encode B b s = Inr c" and "length c = prod_list s * z"
proof -
  obtain E where E: "sized z E" "length E = prod_list s" "by_component_size B dvd z" "0 < by_component_size B"
      "bytes_encode B b s = Inr (concat (map (swap_bytes B) E))"
    by (rule bytes_accepted[OF assms(1)]) (use assms(2) in auto)
  then show ?thesis using that length_concat_sized[OF sized_swap[OF E(4,3,1)]] E(2) by simp
qed

lemma checked_accepts:
  assumes "checked_ready B s" and "ab_ok (by_data_type B) (prod_list s) b"
  shows "checked.chain_accepts B crc s b"
proof -
  have acc: "checked.final_accepts B crc s b'" if "ab_ok (by_data_type B) (prod_list s) b'" for b'
  proof -
    have b: "bytes_accepts B s b'" using assms(1) that by (simp add: checked_ready_def bytes_accepts_def)
    obtain z where z: "by_data_type B = PlainType (SizeFixed z)"
      using assms(1) bytes_ready_size[of B] by (auto simp: checked_ready_def)
    obtain c where "bytes_encode B b' s = Inr c" "length c = prod_list s * z" by (rule checked_encoded_bytes[OF b z])
    then show ?thesis
      using b z assms(1)
      by (simp add: checked.final_accepts_def checked_chain_parts checksum_accepts_def CHECKSUM_SIZE_def checked_ready_def)
  qed
  show ?thesis
    using assms acc unfolding checked.chain_accepts_def checked_chain_parts by (simp add: checked_ready_def)
qed

lemma checked_size:
  assumes "checked_ready B s" and "by_data_type B = PlainType (SizeFixed z)"
  shows "chain_encoded_representation (checked_chain B crc) s = Inr (FixedSize (prod_list s * z + 4))"
    and "checked.chain_accepts B crc s b \<Longrightarrow> chain_encode (checked_chain B crc) opt b s = Inr e \<Longrightarrow> length e = prod_list s * z + 4"
proof -
  have r: "wprod s = prod_list s" "prod_list s * z + 4 < M64" using assms by (simp_all add: checked_ready_def shape_ok_def wprod_eq)
  then show "chain_encoded_representation (checked_chain B crc) s = Inr (FixedSize (prod_list s * z + 4))"
    using assms(2) by (simp add: chain_encoded_representation_def get_array_representations_def checked_chain_parts
        bytes_encoded_representation_def crc32c_codec_def wmul_eq wadd_eq CHECKSUM_SIZE_def)
  assume acc: "checked.chain_accepts B crc s b" and e: "chain_encode (checked_chain B crc) opt b s = Inr e"
  have b: "bytes_accepts B s b" using acc by (simp add: checked.chain_accepts_def checked.final_accepts_def)
  obtain c where "bytes_encode B b s = Inr c" "length c = prod_list s * z" by (rule checked_encoded_bytes[OF b assms(2)])
  then show "length e = prod_list s * z + 4"
    using e checked.chain_validates[OF acc]
    by (auto simp: chain_encode_def checked_chain_parts bind_res_Inr crc32c_codec_def crc32c_encode_def CHECKSUM_SIZE_def)
qed

text \<open>The bound codec: subchunks of shape \<open>sub\<close>, with a little-endian index.\<close>

definition index_bound :: "endianness \<Rightarrow> bytes_bound" where
  "index_bound native = \<lparr>by_native = native, by_component_size = 8, by_endian = Some LittleEndian,
     by_data_type = PlainType (SizeFixed 8), by_fill_value = replicate 8 (-1)\<rparr>"

definition checked_sharding ::
    "bytes_bound \<Rightarrow> (bytes \<Rightarrow> 32 word) \<Rightarrow> chunk_shape \<Rightarrow> sharding_index_location \<Rightarrow> subchunk_write_order \<Rightarrow> sharding_bound" where
  "checked_sharding B crc sub location order =
     \<lparr>sh_subchunk_shape = sub, sh_inner_codecs = chain_array_codec (checked_chain B crc),
      sh_index_codecs = chain_array_codec (checked_chain (index_bound (by_native B)) crc),
      sh_index_location = location, sh_write_order = order, sh_native = by_native B\<rparr>"

lemma checked_sharding_parts:
  "sh_subchunk_shape (checked_sharding B crc sub location order) = sub"
  "sh_inner_codecs (checked_sharding B crc sub location order) = chain_array_codec (checked_chain B crc)"
  "sh_index_codecs (checked_sharding B crc sub location order) = chain_array_codec (checked_chain (index_bound (by_native B)) crc)"
  "sh_index_location (checked_sharding B crc sub location order) = location"
  "sh_native (checked_sharding B crc sub location order) = by_native B"
  by (simp_all add: checked_sharding_def)

lemma chain_array_codec_parts:
  "ab_data_type (chain_array_codec K) = chain_data_type K" "ab_fill_value (chain_array_codec K) = chain_fill_value K"
  "ab_encode (chain_array_codec K) = chain_encode K"
  "ab_encoded_representation (chain_array_codec K) = chain_encoded_representation K"
  by (simp_all add: chain_array_codec_def)

lemma index_ready: "bytes_ready (index_bound native)" "by_data_type (index_bound native) = PlainType (SizeFixed 8)"
  by (simp_all add: index_bound_def bytes_ready_def)

lemma checked_sharding_lawful:
  assumes "checked_ready B sub" and "by_data_type B = PlainType (SizeFixed z)" and "length (by_fill_value B) = z"
    and "schedule sched" and "schedule sched'" and "allocates junk" and "align_ok al"
  shows "sharding (checked_sharding B crc sub location order) (checked.chain_accepts B crc) AnyIndexer z
    (checked.chain_accepts (index_bound (by_native B)) crc) interval_range AnyIndexer (prod_list sub * z + 4) sched sched' junk al"
proof (rule sharding.intro)
  show "array_to_bytes_codec (sh_inner_codecs (checked_sharding B crc sub location order)) (PlainType (SizeFixed z))
      (ab_fill_value (sh_inner_codecs (checked_sharding B crc sub location order))) (checked.chain_accepts B crc) interval_range AnyIndexer"
    using checked.chain.array_to_bytes_codec_axioms[of B crc] assms(2)
    by (simp add: checked_sharding_parts chain_array_codec_parts checked_chain_parts)
  show "array_to_bytes_codec (sh_index_codecs (checked_sharding B crc sub location order)) (PlainType (SizeFixed 8))
      (ab_fill_value (sh_index_codecs (checked_sharding B crc sub location order)))
      (checked.chain_accepts (index_bound (by_native B)) crc) interval_range AnyIndexer"
    using checked.chain.array_to_bytes_codec_axioms[of "index_bound (by_native B)" crc] index_ready
    by (simp add: checked_sharding_parts chain_array_codec_parts checked_chain_parts)
  show "sharding_axioms (checked_sharding B crc sub location order) (checked.chain_accepts B crc) z (prod_list sub * z + 4) sched sched' junk al"
    using assms checked_size[OF assms(1,2), of crc]
    by unfold_locales (auto simp: checked_sharding_parts chain_array_codec_parts checked_chain_parts)
qed

text \<open>Shards that can be encoded: whole subchunks, with room for the checksums and the index.\<close>

definition shard_ready :: "bytes_bound \<Rightarrow> chunk_shape \<Rightarrow> chunk_shape \<Rightarrow> bool" where
  "shard_ready B sub s \<longleftrightarrow> divided s sub \<and> shape_ok s \<and> countable_size (by_data_type B) (prod_list s) \<and>
     list_all (\<lambda>n. n < M64) (per_shard s sub) \<and>
     (\<forall>z. by_data_type B = PlainType (SizeFixed z) \<longrightarrow>
        prod_list (per_shard s sub) * (prod_list sub * z + 4) + (prod_list (per_shard s sub) * 16 + 4) + 1 < M64)"

lemma checked_shard_accepts:
  assumes "checked_ready B sub" and "by_data_type B = PlainType (SizeFixed z)" and "length (by_fill_value B) = z"
    and "shard_ready B sub s" and "ab_ok (by_data_type B) (prod_list s) b"
  shows "sharding.sharding_accepts (checked_sharding B crc sub location order) (checked.chain_accepts B crc) z
    (checked.chain_accepts (index_bound (by_native B)) crc) (prod_list sub * z + 4) s b"
proof -
  let ?S = "checked_sharding B crc sub location order" and ?I = "index_bound (by_native B)" and ?P = "prod_list (per_shard s sub)"
  have "schedule (id :: nat list \<Rightarrow> nat list)" "schedule (id :: u64 list list \<Rightarrow> u64 list list)" "allocates (\<lambda>n. replicate n 0)"
      "align_ok (\<lambda>b. (b, [], []))"
    by (simp_all add: schedule_def allocates_def align_ok_def)
  note S = checked_sharding_lawful[OF assms(1-3) this, of crc location order]
  have P: "prod_list (sharding_index_shape (per_shard s sub)) = ?P * 2" by (simp add: sharding_index_shape_def)
  have small: "?P * (prod_list sub * z + 4) + (?P * 16 + 4) + 1 < M64" and d: "divided s sub"
    using assms(2,4) by (simp_all add: shard_ready_def)
  have "list_all ((<) 0) (per_shard s sub)" using dividedD[OF d] by (auto simp: per_shard_def list_all_length mod_eq_0_iff_dvd div_greater_zero_iff dvd_imp_le)
  then have I: "checked_ready ?I (sharding_index_shape (per_shard s sub))"
    using small assms(4) index_ready[of "by_native B"] P
    by (simp add: checked_ready_def shape_ok_def countable_size_def) (simp add: sharding_index_shape_def shard_ready_def M64_def)
  have acc: "checked.chain_accepts ?I crc (sharding_index_shape (per_shard s sub)) (FixedBytes (transmute_to_bytes (by_native B) ns))"
    if "length ns = ?P * 2" for ns
    by (rule checked_accepts[OF I]) (use that small in \<open>simp add: index_ready P length_transmute\<close>)
  have "chain_encode (checked_chain ?I crc) opt (FixedBytes (transmute_to_bytes (by_native B) ns))
      (sharding_index_shape (per_shard s sub)) = Inr e \<Longrightarrow> length e = ?P * 16 + 4" if "length ns = ?P * 2" for ns opt e
    using checked_size(2)[OF I index_ready(2) acc[OF that]] P by simp
  then have "sharding.index_fits ?S (checked.chain_accepts ?I crc) (prod_list sub * z + 4) s (?P * 16 + 4)"
    unfolding sharding.index_fits_def[OF S] sharding.words_def[OF S] checked_sharding_parts chain_array_codec_parts
    using acc small checked_size(1)[OF I index_ready(2), of crc] P
    by (auto simp: compute_index_encoded_size_def chain_array_codec_parts mult.commute)
  moreover have "\<exists>r. ab_encoded_representation (sh_inner_codecs ?S) s = Inr r"
    by (simp add: checked_sharding_parts chain_array_codec_parts chain_encoded_representation_def get_array_representations_def
        checked_chain_parts bytes_encoded_representation_def assms(2))
  moreover have "checked.chain_accepts B crc sub b'" if "ab_ok (PlainType (SizeFixed z)) (prod_list sub) b'" for b'
    by (rule checked_accepts[OF assms(1)]) (use that assms(2) in simp)
  ultimately show ?thesis
    unfolding sharding.sharding_accepts_def[OF S] sharding.shard_fits_def[OF S] checked_sharding_parts
    using assms(2,4,5) by (auto simp: shard_ready_def)
qed

context sharding
begin

lemma shard_codec: "array_to_bytes_codec (sharding_array_codec sched sched' junk al S) (PlainType (SizeFixed z))
   (ab_fill_value (sh_inner_codecs S)) sharding_accepts (sharding_range (sh_index_location S)) NonemptySubsets"
  by (rule shard.array_to_bytes_codec_axioms)

end

context served_chain
begin

lemma chain_codec: "array_to_bytes_codec (chain_array_codec K) (chain_data_type K) (chain_fill_value K) chain_accepts R iclass"
  by (rule chain.array_to_bytes_codec_axioms)

end

text \<open>A chain whose only codec is the sharding codec, and an array with such a chain.\<close>

definition sharded_chain ::
    "(nat list \<Rightarrow> nat list) \<Rightarrow> (u64 list list \<Rightarrow> u64 list list) \<Rightarrow> (usize \<Rightarrow> bytes) \<Rightarrow> align_to \<Rightarrow> sharding_bound \<Rightarrow> codec_chain_bound" where
  "sharded_chain sched sched' junk al S =
     \<lparr>cb_array_to_array = [], cb_array_to_bytes = sharding_array_codec sched sched' junk al S, cb_bytes_to_bytes = [], cb_cache_index = None\<rparr>"

lemma sharded_chain_lawful:
  assumes "sharding S acc iclass z iacc R1 iclass1 L sched sched' junk al"
  shows "served_chain (sharded_chain sched sched' junk al S) [] (sharding.sharding_accepts S acc z iacc L) []
    (sharding_range (sh_index_location S)) (\<lambda>_. True) NonemptySubsets"
proof -
  have t: "ab_data_type (sh_inner_codecs S) = PlainType (SizeFixed z)" using assms by (simp add: sharding_def sharding_axioms_def)
  have "array_to_bytes_codec (sharding_array_codec sched sched' junk al S) (PlainType (SizeFixed z)) (ab_fill_value (sh_inner_codecs S))
      (sharding.sharding_accepts S acc z iacc L) (sharding_range (sh_index_location S)) NonemptySubsets"
    by (rule sharding.shard_codec[OF assms])
  then show ?thesis
    by (intro served_chain.intro lawful_chain.intro served_chain_axioms.intro)
      (simp_all add: sharded_chain_def array_cache_between_def lawful_arrays_def lawful_bytes_def chain_data_type_def chain_fill_value_def sharding_array_codec_def t)
qed

lemma sharded_chain_types:
  "chain_data_type (sharded_chain sched sched' junk al S) = ab_data_type (sh_inner_codecs S)"
  "chain_fill_value (sharded_chain sched sched' junk al S) = ab_fill_value (sh_inner_codecs S)"
  by (simp_all add: sharded_chain_def chain_data_type_def chain_fill_value_def sharding_array_codec_def)

lemma sharded_on_store:
  assumes "sharding S acc iclass z iacc R1 iclass1 L sched sched' junk al"
    and "grid_contract G" and "prod_list (cg_grid_shape G) < M64" and "validate_path path"
    and "\<And>c. inb c (cg_grid_shape G) \<Longrightarrow> sharding.shard_fits S acc z iacc L (sub_shape (chunk_area G c)) \<and>
      2 * (prod_list (sub_shape (chunk_area G c)) * z) < M64 \<and> prod_list (sub_shape (chunk_area G c)) + 1 < M64"
    and "0 < z"
  defines "K \<equiv> sharded_chain sched sched' junk al S"
  shows "array_on_store (memory_array G path sep (chain_array_codec K))
    (lawful_chain.chain_accepts K [] (sharding.sharding_accepts S acc z iacc L) []) (\<lambda>_. True) NonemptySubsets memory_inv map_of z"
proof (rule memory_array_on_store[OF assms(2-4)])
  note K = sharded_chain_lawful[OF assms(1), folded K_def]
  note K' = served_chain.axioms(1)[OF K]
  have t: "ab_data_type (chain_array_codec K) = PlainType (SizeFixed z)" "chain_data_type K = PlainType (SizeFixed z)"
      "length (ab_fill_value (chain_array_codec K)) = z"
    using assms(1) by (simp_all add: K_def chain_array_codec_parts sharded_chain_types sharding_def sharding_axioms_def)
  note fits = sharding.fits_facts[OF assms(1)]
  show "array_to_bytes_codec (chain_array_codec K) (ab_data_type (chain_array_codec K)) (ab_fill_value (chain_array_codec K))
      (lawful_chain.chain_accepts K [] (sharding.sharding_accepts S acc z iacc L) []) (\<lambda>_. True) NonemptySubsets"
    using served_chain.chain_codec[OF K] by (simp add: chain_array_codec_parts)
  show "lawful_chain.chain_accepts K [] (sharding.sharding_accepts S acc z iacc L) [] (sub_shape (chunk_area G c)) b"
    if c: "inb c (cg_grid_shape G)" and b: "ab_ok (ab_data_type (chain_array_codec K)) (prod_list (sub_shape (chunk_area G c))) b" for c b
    using b assms(5)[OF c] fits(5)[of "sub_shape (chunk_area G c)"]
    unfolding lawful_chain.chain_accepts_def[OF K'] t
    by (simp add: lawful_chain.final_accepts_def[OF K'] sharding.sharding_accepts_def[OF assms(1)] sharding.shard_fits_def[OF assms(1)])
  show "shape_ok (sub_shape (chunk_area G c)) \<and> prod_list (sub_shape (chunk_area G c)) + 1 < M64 \<and>
      2 * (prod_list (sub_shape (chunk_area G c)) * z) < M64 \<and>
      prod_list (sub_shape (chunk_area G c)) * length (ab_fill_value (chain_array_codec K)) < M64"
    if c: "inb c (cg_grid_shape G)" for c
    using assms(5)[OF c] t(3) by (simp add: sharding.shard_fits_def[OF assms(1)])
  show "dt_size (ab_data_type (chain_array_codec K)) = SizeFixed z" "0 < z"
    "fill_matches (ab_data_type (chain_array_codec K)) (ab_fill_value (chain_array_codec K))"
    using t assms(6) by simp_all
qed

end
