(* ===== verification/Sharding_Properties.thy ===== *)
theory Sharding_Properties
  imports Sharded_Chain
begin

text \<open>
  The properties of the sharding codec: what is encoded by one run is decoded by another, whatever the orders in which
  the subchunks are written and read; compaction; partial decoding; arrays of shards; and what the partial decoder does not serve.
\<close>

lemma sharding_rescheduled:
  assumes "sharding S acc iclass z iacc R1 iclass1 L sched sched' junk al"
    and "schedule sched2" and "schedule sched2'" and "allocates junk2"
  shows "sharding S acc iclass z iacc R1 iclass1 L sched2 sched2' junk2 al"
  using assms by (simp add: sharding_def sharding_axioms_def)

subsection \<open>A sample\<close>

definition sample_crc :: "bytes \<Rightarrow> 32 word" where
  "sample_crc b = of_nat (length b)"

definition sample_sharding :: sharding_bound where
  "sample_sharding = checked_sharding sample_bytes sample_crc [1, 2] IndexEnd RandomOrder"

lemma sample_checked: "checked_ready sample_bytes [1, 2]" "by_data_type sample_bytes = PlainType (SizeFixed 2)"
  "length (by_fill_value sample_bytes) = 2"
  by (simp_all add: checked_ready_def sample_bytes_def bytes_ready_def shape_ok_def countable_size_def M64_def)

lemma sample_parameters: "schedule rev" "schedule id" "allocates (\<lambda>n. replicate n 9)" "align_ok (\<lambda>b. (b, [], []))"
  by (simp_all add: schedule_def allocates_def align_ok_def)

interpretation shard_sample: sharding sample_sharding "checked.chain_accepts sample_bytes sample_crc" AnyIndexer 2
  "checked.chain_accepts (index_bound LittleEndian) sample_crc" interval_range AnyIndexer 8 rev rev "\<lambda>n. replicate n 9" "\<lambda>b. (b, [], [])"
  using checked_sharding_lawful[OF sample_checked sample_parameters(1,1,3,4), of sample_crc IndexEnd RandomOrder]
  by (simp add: sample_sharding_def) (simp add: sample_bytes_def)

lemma sample_shard_accepts: "ab_ok (PlainType (SizeFixed 2)) 4 b \<Longrightarrow> shard_sample.sharding_accepts [2, 2] b"
proof -
  assume b: "ab_ok (PlainType (SizeFixed 2)) 4 b"
  have "shard_ready sample_bytes [1, 2] [2, 2]"
    by (simp add: shard_ready_def divided_def per_shard_def sample_checked shape_ok_def countable_size_def M64_def)
  from checked_shard_accepts[OF sample_checked this, of b sample_crc IndexEnd RandomOrder]
  show ?thesis using b by (simp add: sample_sharding_def sample_checked) (simp add: sample_bytes_def)
qed

lemma sample_sharding_parts: "sh_index_location sample_sharding = IndexEnd" "sh_subchunk_shape sample_sharding = [1, 2]"
  by (simp_all add: sample_sharding_def checked_sharding_parts)

subsection \<open>The codec\<close>

text \<open>
  Property C6.  Sharding: a chunk that is accepted is encoded, and the shard is decoded to the elements of the chunk, as a whole
  and at any non-empty region through a reader of byte ranges.  The orders in which subchunks are written and read, the
  write order option, the location of the index and what was in allocated memory make no difference.  The elements have a fixed size.
\<close>

theorem sharding_codec_correct:
  assumes "sharding S acc iclass z iacc R1 iclass1 L sched sched' junk al" and "sharding.sharding_accepts S acc z iacc L s b"
    and "schedule sched2" and "schedule sched2'" and "allocates junk2"
  shows "\<exists>e. sharding_encode sched junk al S opt b s = Inr e \<and>
     (\<forall>opt'. \<exists>b'. sharding_decode sched2 junk2 S opt' e s = Inr b' \<and>
        vals (PlainType (SizeFixed z)) b' = vals (PlainType (SizeFixed z)) b) \<and>
     (\<forall>opt' d. reads_on (sharding_range (sh_index_location S)) d e \<longrightarrow>
        (\<exists>dec. sharding_partial_decoder sched2' S opt' d s = Inr dec \<and>
           reads_array NonemptySubsets (PlainType (SizeFixed z)) dec s (vals (PlainType (SizeFixed z)) b)))"
proof -
  let ?t = "PlainType (SizeFixed z)"
  obtain e where e: "sharding_encode sched junk al S opt b s = Inr e"
      "sharding.shard_holds S acc z iacc L s (\<lambda>k. vals ?t b ! lin s k) e"
    using sharding.sharding_encode_ok[OF assms(1,2), of opt] by blast
  note S2 = sharding_rescheduled[OF assms(1,3-5)]
  have w: "subset_values (\<lambda>k. vals ?t b ! lin s k) (new_with_shape s) = vals ?t b"
    using sharding.holds_whole[OF assms(1)] assms(2) by (simp add: sharding.sharding_accepts_def[OF assms(1)])
  show ?thesis
    using e(1) sharding.sharding_decode_ok[OF S2 e(2)] sharding.sharding_partial_some[OF S2 e(2)] unfolding w by blast
qed

theorem sharding_codec_correct_witness:
  "\<exists>e b'. sharding_encode rev (\<lambda>n. replicate n 9) (\<lambda>b. (b, [], [])) sample_sharding sample_options
       (FixedBytes [1, 0, 2, 0, 3, 0, 4, 0]) [2, 2] = Inr e \<and>
     sharding_decode id (\<lambda>n. replicate n 9) sample_sharding sample_options e [2, 2] = Inr b' \<and>
     vals (PlainType (SizeFixed 2)) b' = [Raw [1, 0], Raw [2, 0], Raw [3, 0], Raw [4, 0]]"
proof -
  let ?b = "FixedBytes [1, 0, 2, 0, 3, 0, 4, 0]"
  have "shard_sample.sharding_accepts [2, 2] ?b" by (rule sample_shard_accepts) (simp add: M64_def)
  from sharding_codec_correct[OF shard_sample.sharding_axioms this sample_parameters(2,2,3), of sample_options]
  show ?thesis by (auto simp: vals_def chunks_exact.simps)
qed

text \<open>
  Property C7.  Compaction of a shard, with its subchunks anywhere and space between them.  The shard is left as it is when its length is
  that of its index and of the subchunks that the index points to.  Otherwise it becomes a shard of exactly that length, which
  decodes to the same elements and which a further compaction leaves as it is.
\<close>

theorem sharding_compact_correct:
  assumes "sharding S acc iclass z iacc R1 iclass1 L sched sched' junk al" and "sharding.shard_holds S acc z iacc L s f e"
    and "calculate_chunks_per_shard s (sh_subchunk_shape S) = Inr cps"
  shows "\<exists>N ns. compute_index_encoded_size (sh_index_codecs S) (sharding_index_shape cps) = Inr N \<and>
     decode_index S e cps opt = Inr ns \<and>
     (live_size N ns = length e \<longrightarrow> sharding_compact S opt e s = Inr None) \<and>
     (live_size N ns \<noteq> length e \<longrightarrow> (\<exists>e'. sharding_compact S opt e s = Inr (Some e') \<and> length e' = live_size N ns \<and>
        (\<forall>opt'. sharding_compact S opt' e' s = Inr None) \<and>
        (\<forall>opt'. \<exists>b. sharding_decode sched junk S opt' e' s = Inr b \<and>
           vals (PlainType (SizeFixed z)) b = subset_values f (new_with_shape s))))"
proof -
  have c: "cps = per_shard s (sh_subchunk_shape S)"
    using assms(3) sharding.fits_facts(6)[OF assms(1)] assms(2) by (auto simp: sharding.shard_holds_def[OF assms(1)])
  obtain N ns where h: "compute_index_encoded_size (sh_index_codecs S) (sharding_index_shape cps) = Inr N"
      "\<And>o'. decode_index S e cps o' = Inr ns" "live_size N ns = length e \<Longrightarrow> sharding_compact S opt e s = Inr None"
      "live_size N ns \<noteq> length e \<Longrightarrow> \<exists>e'. sharding_compact S opt e s = Inr (Some e') \<and> length e' = live_size N ns \<and>
         sharding.shard_holds S acc z iacc L s f e' \<and> (\<forall>o'. sharding_compact S o' e' s = Inr None)"
    unfolding c by (rule sharding.compact_holds[OF assms(1,2), where opt = opt]) blast
  then show ?thesis using sharding.sharding_decode_ok[OF assms(1)] by (intro exI[of _ N] exI[of _ ns]) blast
qed

lemma sample_shard: "\<exists>e. sharding_encode rev (\<lambda>n. replicate n 9) (\<lambda>b. (b, [], [])) sample_sharding sample_options
    (FixedBytes [1, 0, 2, 0, 3, 0, 4, 0]) [2, 2] = Inr e \<and> shard_sample.shard_holds [2, 2]
      (\<lambda>k. [Raw [1, 0], Raw [2, 0], Raw [3, 0], Raw [4, 0]] ! lin [2, 2] k) e"
proof -
  let ?b = "FixedBytes [1, 0, 2, 0, 3, 0, 4, 0]"
  have acc: "shard_sample.sharding_accepts [2, 2] ?b" by (rule sample_shard_accepts) (simp add: M64_def)
  have "vals (PlainType (SizeFixed 2)) ?b = [Raw [1, 0], Raw [2, 0], Raw [3, 0], Raw [4, 0]]" by (simp add: vals_def chunks_exact.simps)
  then show ?thesis using shard_sample.sharding_encode_ok[OF acc, of sample_options] by (simp del: lin.simps)
qed

text \<open>The same shards with their index at the start: three bytes at the end of one are removed.\<close>

definition start_sharding :: sharding_bound where
  "start_sharding = checked_sharding sample_bytes sample_crc [1, 2] IndexStart RandomOrder"

interpretation start_sample: sharding start_sharding "checked.chain_accepts sample_bytes sample_crc" AnyIndexer 2
  "checked.chain_accepts (index_bound LittleEndian) sample_crc" interval_range AnyIndexer 8 rev rev "\<lambda>n. replicate n 9" "\<lambda>b. (b, [], [])"
  using checked_sharding_lawful[OF sample_checked sample_parameters(1,1,3,4), of sample_crc IndexStart RandomOrder]
  by (simp add: start_sharding_def) (simp add: sample_bytes_def)

lemma start_sharding_parts: "sh_index_location start_sharding = IndexStart" "sh_subchunk_shape start_sharding = [1, 2]"
  by (simp_all add: start_sharding_def checked_sharding_parts)

lemma start_shard_accepts: "ab_ok (PlainType (SizeFixed 2)) 4 b \<Longrightarrow> start_sample.sharding_accepts [2, 2] b"
proof -
  assume b: "ab_ok (PlainType (SizeFixed 2)) 4 b"
  have "shard_ready sample_bytes [1, 2] [2, 2]"
    by (simp add: shard_ready_def divided_def per_shard_def sample_checked shape_ok_def countable_size_def M64_def)
  from checked_shard_accepts[OF sample_checked this, of b sample_crc IndexStart RandomOrder]
  show ?thesis using b by (simp add: start_sharding_def sample_checked) (simp add: sample_bytes_def)
qed

lemma start_index_size:
  "compute_index_encoded_size (sh_index_codecs start_sharding) (sharding_index_shape (per_shard [2, 2] [1, 2])) = Inr 36"
proof -
  have "checked_ready (index_bound LittleEndian) [2, 1, 2]"
    using index_ready[of LittleEndian] by (simp add: checked_ready_def shape_ok_def countable_size_def M64_def)
  from checked_size(1)[OF this index_ready(2), of sample_crc] show ?thesis
    by (simp add: compute_index_encoded_size_def start_sharding_def checked_sharding_parts chain_array_codec_parts
        sharding_index_shape_def per_shard_def) (simp add: sample_bytes_def)
qed

theorem sharding_compact_correct_witness:
  "\<exists>e e' b. sharding_compact start_sharding sample_options (e @ [1, 2, 3]) [2, 2] = Inr (Some e') \<and> length e' = length e \<and>
     sharding_decode rev (\<lambda>n. replicate n 9) start_sharding sample_options e' [2, 2] = Inr b \<and>
     vals (PlainType (SizeFixed 2)) b = [Raw [1, 0], Raw [2, 0], Raw [3, 0], Raw [4, 0]]"
proof -
  let ?b = "FixedBytes [1, 0, 2, 0, 3, 0, 4, 0]" and ?f = "\<lambda>k. [Raw [1, 0], Raw [2, 0], Raw [3, 0], Raw [4, 0]] ! lin [2, 2] k"
  have acc: "start_sample.sharding_accepts [2, 2] ?b" by (rule start_shard_accepts) (simp add: M64_def)
  have "vals (PlainType (SizeFixed 2)) ?b = [Raw [1, 0], Raw [2, 0], Raw [3, 0], Raw [4, 0]]" by (simp add: vals_def chunks_exact.simps)
  then obtain e0 where "start_sample.shard_holds [2, 2] ?f e0"
    using start_sample.sharding_encode_ok[OF acc, of sample_options] by (auto simp del: lin.simps)
  then obtain e N ns where e: "start_sample.shard_holds [2, 2] ?f e" "start_sample.index_fits [2, 2] N"
      "\<And>o'. decode_index start_sharding e (per_shard [2, 2] (sh_subchunk_shape start_sharding)) o' = Inr ns"
      "live_size N ns = length e" "length e \<le> prod_list (per_shard [2, 2] (sh_subchunk_shape start_sharding)) * 8 + N"
    by (rule start_sample.dense_shard) blast
  have N: "N = 36" using e(2) start_index_size by (simp add: start_sample.index_fits_def start_sharding_parts)
  have small: "length (e @ [1, 2, 3]) + 1 < M64" using e(5) by (simp add: N start_sharding_parts per_shard_def M64_def)
  have le: "N \<le> length e" using e(4) by (simp add: live_size_def)
  have h: "start_sample.shard_holds [2, 2] ?f (e @ [1, 2, 3])"
    by (rule start_sample.shard_holds_padded[OF e(1) start_sharding_parts(1) small])
  have cps: "calculate_chunks_per_shard [2, 2] (sh_subchunk_shape start_sharding) = Inr (per_shard [2, 2] (sh_subchunk_shape start_sharding))"
    using start_sample.fits_facts(6) e(1) by (simp add: start_sample.shard_holds_def)
  have v: "subset_values ?f (new_with_shape [2, 2]) = [Raw [1, 0], Raw [2, 0], Raw [3, 0], Raw [4, 0]]"
    by (simp add: subset_values_def new_with_shape_def upt_rec)
  obtain e' where e': "sharding_compact start_sharding sample_options (e @ [1, 2, 3]) [2, 2] = Inr (Some e')" "length e' = length e"
      "\<And>opt'. \<exists>b. sharding_decode rev (\<lambda>n. replicate n 9) start_sharding opt' e' [2, 2] = Inr b \<and>
         vals (PlainType (SizeFixed 2)) b = subset_values ?f (new_with_shape [2, 2])"
    using sharding_compact_correct[OF start_sample.sharding_axioms h cps, of sample_options] e(2-4) le
      start_sample.decode_index_padded[OF e(2) le start_sharding_parts(1)]
    by (auto simp: start_sample.index_fits_def simp del: lin.simps)
  then show ?thesis using v by (metis (no_types, lifting))
qed

text \<open>
  Property C8.  The sharding codec's own decoding of a region into a target, subchunk by subchunk in any order, updates exactly the
  elements of the target that the region goes to, with the elements of the shard, which have a fixed size.
\<close>

theorem sharding_partial_into_correct:
  assumes "sharding S acc iclass z iacc R1 iclass1 L sched sched' junk al" and "sharding.shard_holds S acc z iacc L s f e"
    and "reads_on (sharding_range (sh_index_location S)) d e" and "fits r s" and "\<not> is_empty r"
    and "target_into (PlainType (SizeFixed z)) a q T" and "sub_shape q = sub_shape r"
  shows "\<exists>index T'. decode_shard_index_partial_decoder S d s opt = Inr index \<and>
     sharding_partial_decode_into sched' S d s index opt (SubsetIndexer r) T = Inr T' \<and>
     vals (PlainType (SizeFixed z)) (target_bytes T') =
       scatter (vals (PlainType (SizeFixed z)) (target_bytes T)) (sub_idx a q) (subset_values f r)"
  using sharding.sharding_partial_decode_into_ok[OF assms(1-3) _ assms(6,7), of opt] assms(4,5)
  unfolding sharding.region_def[OF assms(1)] by blast

theorem sharding_partial_into_correct_witness:
  "\<exists>e v index T'. sharding_encode rev (\<lambda>n. replicate n 9) (\<lambda>b. (b, [], [])) sample_sharding sample_options
       (FixedBytes [1, 0, 2, 0, 3, 0, 4, 0]) [2, 2] = Inr e \<and>
     view_new [0, 0, 0, 0, 0, 0] 2 [3, 1] \<lparr>sub_start = [1, 0], sub_shape = [2, 1]\<rparr> = Inr v \<and>
     sharding_partial_decode_into rev sample_sharding (vec_decoder e) [2, 2] index sample_options
       (SubsetIndexer \<lparr>sub_start = [0, 1], sub_shape = [2, 1]\<rparr>) (FixedTarget v [0, 0, 0, 0, 0, 0]) = Inr T' \<and>
     vals (PlainType (SizeFixed 2)) (target_bytes T') = [Raw [0, 0], Raw [2, 0], Raw [4, 0]]"
proof -
  let ?f = "\<lambda>k. [Raw [1, 0], Raw [2, 0], Raw [3, 0], Raw [4, 0]] ! lin [2, 2] k" and ?q = "\<lparr>sub_start = [1, 0], sub_shape = [2, 1]\<rparr>"
    and ?r = "\<lparr>sub_start = [0, 1], sub_shape = [2, 1]\<rparr>" and ?T = "[0, 0, 0, 0, 0, 0]"
  obtain e where e: "sharding_encode rev (\<lambda>n. replicate n 9) (\<lambda>b. (b, [], [])) sample_sharding sample_options
      (FixedBytes [1, 0, 2, 0, 3, 0, 4, 0]) [2, 2] = Inr e" "shard_sample.shard_holds [2, 2] ?f e"
    using sample_shard by blast
  have "length e < M64" using e(2) by (simp add: shard_sample.shard_holds_def)
  then have d: "reads_on (sharding_range (sh_index_location sample_sharding)) (vec_decoder e) e" by (rule reads_vec)
  have q: "subset_covered ?q [3, 1]" "small_array [3, 1] 2"
    by (simp_all add: subset_covered_def fits_def wf_subset_def small_array_def M64_def less_Suc_eq)
  obtain v where v: "view_new ?T 2 [3, 1] ?q = Inr v" "view_ok v 2 [3, 1] ?q" using view_new_ok[OF q, of ?T] by auto
  have T: "target_into (PlainType (SizeFixed 2)) [3, 1] ?q (FixedTarget v ?T)"
    using v(2) q by (simp add: target_into_def subset_covered_def M64_def)
  have r: "fits ?r [2, 2]" "\<not> is_empty ?r" by (auto simp: fits_def wf_subset_def is_empty_def M64_def less_Suc_eq)
  have "subset_values ?f ?r = [Raw [2, 0], Raw [4, 0]]" "sub_idx [3, 1] ?q = [1, 2]"
    by (simp_all add: subset_values_def upt_rec)
  moreover have "vals (PlainType (SizeFixed 2)) (FixedBytes ?T) = [Raw [0, 0], Raw [0, 0], Raw [0, 0]]"
    by (simp add: vals_def chunks_exact.simps)
  ultimately show ?thesis
    using sharding_partial_into_correct[OF shard_sample.sharding_axioms e(2) d r T, of sample_options] e(1) v(1)
    by fastforce
qed

subsection \<open>Arrays of shards\<close>

definition sharded_array :: "memory_store array" where
  "sharded_array = memory_array (regular_grid sample_grid) ''/a'' SepSlash
     (chain_array_codec (sharded_chain rev rev (\<lambda>n. replicate n 9) (\<lambda>b. (b, [], [])) sample_sharding))"

interpretation shard_chain: served_chain "sharded_chain rev rev (\<lambda>n. replicate n 9) (\<lambda>b. (b, [], [])) sample_sharding" "[]"
  shard_sample.sharding_accepts "[]" "sharding_range (sh_index_location sample_sharding)" "\<lambda>_. True" NonemptySubsets
  by (rule sharded_chain_lawful[OF shard_sample.sharding_axioms])

lemma sample_sharding_types: "ab_data_type (sh_inner_codecs sample_sharding) = PlainType (SizeFixed 2)"
  "ab_fill_value (sh_inner_codecs sample_sharding) = [7, 0]"
  by (simp_all add: sample_sharding_def checked_sharding_parts chain_array_codec_parts checked_chain_parts) (simp_all add: sample_bytes_def)

lemma sharded_array_types:
  "ar_grid sharded_array = regular_grid sample_grid" "ar_data_type sharded_array = PlainType (SizeFixed 2)"
  "array_shape_of sharded_array = [3, 3]" "ar_partial_encoder sharded_array = None"
  by (simp_all add: sharded_array_def memory_array_def chain_array_codec_parts sharded_chain_types sample_sharding_types
      array_shape_of_def sample_grid_shapes)

lemma sample_shard_fits: "shard_sample.shard_fits [2, 2]"
  using sample_shard_accepts[of "FixedBytes [0, 0, 0, 0, 0, 0, 0, 0]"] by (simp add: shard_sample.sharding_accepts_def M64_def)

interpretation sharded_sample: array_on_store sharded_array shard_chain.chain_accepts "\<lambda>_. True" NonemptySubsets memory_inv map_of 2
  unfolding sharded_array_def
proof (rule sharded_on_store[OF shard_sample.sharding_axioms sample_grid_contract])
  show "validate_path ''/a''"
    by (simp add: validate_path_def ends_with_def validate_component_def validate_name_def)
  show "shard_sample.shard_fits (sub_shape (chunk_area (regular_grid sample_grid) c)) \<and>
      2 * (prod_list (sub_shape (chunk_area (regular_grid sample_grid) c)) * 2) < M64 \<and>
      prod_list (sub_shape (chunk_area (regular_grid sample_grid) c)) + 1 < M64"
    if "inb c (cg_grid_shape (regular_grid sample_grid))" for c
    using that sample_chunk_shape[of c] sample_shard_fits by (simp add: sample_grid_shapes) (simp add: M64_def)
qed (simp_all add: sample_grid_shapes M64_def)

text \<open>
  Property C9.  An array whose chunks are shards, over any lawful grid: what is written to a region is read back from it, with the
  partial decoder of the shards, for writes and reads of chunks and subchunks in any order and whatever the array held.
  For elements of a fixed size, a region within the array, and shards written as a whole.
\<close>

theorem sharded_write_then_read:
  assumes "sharding S acc iclass z iacc R1 iclass1 L c_sched c_sched' c_junk c_al"
    and "grid_contract G" and "prod_list (cg_grid_shape G) < M64" and "validate_path path"
    and "\<And>c. inb c (cg_grid_shape G) \<Longrightarrow> sharding.shard_fits S acc z iacc L (sub_shape (chunk_area G c)) \<and>
      2 * (prod_list (sub_shape (chunk_area G c)) * z) < M64 \<and> prod_list (sub_shape (chunk_area G c)) + 1 < M64"
    and "A = memory_array G path sep (chain_array_codec (sharded_chain c_sched c_sched' c_junk c_al S))"
    and "0 < z" and "memory_inv st"
    and "array_holds A (lawful_chain.chain_accepts (sharded_chain c_sched c_sched' c_junk c_al S) [] (sharding.sharding_accepts S acc z iacc L) [])
      map_of st f"
    and "region_ok A z r" and "schedule sched" and "schedule sched'" and "align_ok al" and "whole_writes A opt" and "allocates junk"
    and "ab_ok (PlainType (SizeFixed z)) (prod_list (sub_shape r)) u"
  shows "\<exists>st' b. store_array_subset sched al A opt r u st = Inr st' \<and>
     retrieve_array_subset sched' junk A opt' st' r = Inr b \<and> vals (PlainType (SizeFixed z)) b = vals (PlainType (SizeFixed z)) u"
proof -
  note A = sharded_on_store[OF assms(1-5,7), of sep, folded assms(6)]
  have t: "ar_data_type A = PlainType (SizeFixed z)"
    using sharding.data_type[OF assms(1)] by (simp add: assms(6) memory_array_def chain_array_codec_parts sharded_chain_types)
  show ?thesis
    using array_on_store.write_read_back[OF A assms(8-15), of u opt'] assms(16) unfolding t by blast
qed

theorem sharded_write_then_read_witness:
  "\<exists>st b. store_array_subset rev (\<lambda>b. (b, [], [])) sharded_array sample_options \<lparr>sub_start = [1, 1], sub_shape = [1, 2]\<rparr>
       (FixedBytes [1, 0, 2, 0]) [] = Inr st \<and>
     retrieve_array_subset id (\<lambda>n. replicate n 9) sharded_array sample_options st \<lparr>sub_start = [1, 1], sub_shape = [1, 2]\<rparr> = Inr b \<and>
     vals (PlainType (SizeFixed 2)) b = [Raw [1, 0], Raw [2, 0]]"
proof -
  let ?r = "\<lparr>sub_start = [1, 1], sub_shape = [1, 2]\<rparr>" and ?u = "FixedBytes [1, 0, 2, 0]"
  have G: "shard_sample.shard_fits (sub_shape (chunk_area (regular_grid sample_grid) c)) \<and>
      2 * (prod_list (sub_shape (chunk_area (regular_grid sample_grid) c)) * 2) < M64 \<and>
      prod_list (sub_shape (chunk_area (regular_grid sample_grid) c)) + 1 < M64"
    if "inb c (cg_grid_shape (regular_grid sample_grid))" for c
    using that sample_chunk_shape[of c] sample_shard_fits by (simp add: sample_grid_shapes) (simp add: M64_def)
  have p: "prod_list (cg_grid_shape (regular_grid sample_grid)) < M64" "validate_path ''/a''"
    by (simp_all add: sample_grid_shapes M64_def validate_path_def ends_with_def validate_component_def validate_name_def)
  have st: "memory_inv []" "array_holds sharded_array shard_chain.chain_accepts map_of [] (\<lambda>_. array_fill sharded_array)"
    using empty_array_holds[of sharded_array map_of "[]"] sample_grid_contract by (simp_all add: sharded_array_types memory_inv_def)
  have rest: "region_ok sharded_array 2 ?r" "whole_writes sharded_array sample_options" "ab_ok (PlainType (SizeFixed 2)) (prod_list (sub_shape ?r)) ?u"
    by (simp_all add: region_ok_def sharded_array_types wf_subset_def inbounds_shape_def wadd_def M64_def whole_writes_def)
  have "vals (PlainType (SizeFixed 2)) ?u = [Raw [1, 0], Raw [2, 0]]" by (simp add: vals_def chunks_exact.simps)
  then show ?thesis
    using sharded_write_then_read[OF shard_sample.sharding_axioms sample_grid_contract p G sharded_array_def _ st rest(1)
        sample_parameters(1,2,4) rest(2) sample_parameters(3) rest(3), of sample_options] by (metis zero_less_numeral)
qed

subsection \<open>What the partial decoder does not serve\<close>

text \<open>
  Elements that are asked for one by one are read from the byte interval that the index gives, without the test whether the subchunk
  is there, and a subchunk of fill values is not.
\<close>

lemma missing_interval_decoder:
  assumes "checked_ready B sub" and "by_data_type B = PlainType (SizeFixed z)" and "length e < M64 - 2"
  shows "get_subchunk_partial_decoder (checked_sharding B crc sub location order) (vec_decoder e) opt u64_MAX u64_MAX = Inl corrupted"
proof -
  have "byte_interval_decoder (vec_decoder e) u64_MAX u64_MAX [FromStart 0 None] =
      Inl (CodecInvalidByteRange (FromStart u64_MAX (Some u64_MAX)) (length e))"
    using assms(3)
    by (simp add: byte_interval_decoder_def vec_decoder_def extract_ranges_def extract_byte_ranges_def wadd_def u64_MAX_def
        extract_byte_range_def M64_def range_failure_def)
  then have "partial_decode (strip_suffix_decoder CHECKSUM_SIZE (byte_interval_decoder (vec_decoder e) u64_MAX u64_MAX)) (FromStart 0 None) =
      Inl (CodecInvalidByteRange (FromStart u64_MAX (Some u64_MAX)) (length e))"
    by (simp add: partial_decode_def strip_suffix_decoder_def strip_suffix_item_def)
  then show ?thesis
    using checked_size(1)[OF assms(1,2), of crc] assms(2)
    by (simp add: get_subchunk_partial_decoder_def checked_sharding_parts chain_array_codec_def chain_partial_decoder_def
        checked_chain_def with_bytes_cache_def bytes_cache_new_def get_representations_def get_array_representations_def
        get_bytes_representations_def bytes_array_codec_def bytes_encoded_representation_def bytes_stages_def crc32c_codec_def)
qed

lemma element_of_missing_subchunk:
  assumes "checked_ready B sub" and "by_data_type B = PlainType (SizeFixed z)" and "length e < M64 - 2"
    and "indices \<noteq> []" and "length indices = length s" and "calculate_chunks_per_shard s sub = Inr cps"
    and "ravel_indices (map (\<lambda>(i, c). i div c) (zip indices sub)) cps = Some i" and "index_entry ns i = Inr (u64_MAX, u64_MAX)"
  shows "sharding_partial_decode sched (checked_sharding B crc sub location order) (vec_decoder e) s (Some ns) opt (IndicesIndexer [indices]) =
    Inl corrupted"
  using assms(2,4-8) missing_interval_decoder[OF assms(1-3), of crc location order opt]
  by (simp add: sharding_partial_decode_def checked_sharding_parts chain_array_codec_parts checked_chain_parts is_optional_def Let_def
      partial_decode_fixed_indexer_def partial_decode_element_def)

text \<open>A subset without elements is an error, where the codecs of the subchunks return no elements.\<close>

lemma empty_subset_of_shard:
  assumes "ab_data_type (sh_inner_codecs S) = PlainType (SizeFixed z)" and "wf_subset r" and "is_empty r"
    and "length (sub_shape r) = length s"
  shows "sharding_partial_decode sched S d s index opt (SubsetIndexer r) =
    Inl (IncompatibleIndexer (OutOfBounds (replicate (length s) 0) (sub_shape r)))"
proof -
  have z: "0 \<in> set (sub_shape r)" using assms(3) by (auto simp: is_empty_def list_ex_iff)
  have e: "end_exc (new_with_shape (sub_shape r)) = sub_shape r"
    using assms(2) by (intro nth_equalityI) (fastforce simp: end_exc_def new_with_shape_def wf_subset_def wadd_def list_all_length)+
  have p: "wmul (wprod (sub_shape r)) z = 0" using z by (simp add: wprod_zero wmul_def)
  have n: "\<not> list_ex (\<lambda>(e, n). n < e) (zip (sub_shape r) (sub_shape r))" by (auto simp: list_ex_length)
  have st: "list_ex (\<lambda>(st, n). n \<le> st) (zip (replicate (length (sub_shape r)) 0) (sub_shape r))"
    using z by (auto simp: list_ex_length in_set_conv_nth)
  have w: "dimensionality (new_with_shape (sub_shape r)) = length (sub_shape r)" "is_empty (new_with_shape (sub_shape r))"
      "sub_start (new_with_shape (sub_shape r)) = replicate (length (sub_shape r)) 0"
    using assms(3) by (simp_all add: dimensionality_def new_with_shape_def is_empty_def)
  have i: "inbounds_shape (new_with_shape (sub_shape r)) (sub_shape r)"
    using assms(2) by (fastforce simp: inbounds_shape_def new_with_shape_def wf_subset_def wadd_def list_all_length)
  have "contiguous_new (new_with_shape (sub_shape r)) (sub_shape r) = Inl (OutOfBounds (replicate (length s) 0) (sub_shape r))"
    using n st w e assms(4) by (simp add: contiguous_new_def)
  then have "view_new [] z (sub_shape r) (new_with_shape (sub_shape r)) =
      Inl (IncompatibleIndexer (OutOfBounds (replicate (length s) 0) (sub_shape r)))"
    using i p by (simp add: view_new_def Let_def)
  then show ?thesis
    using assms p by (simp add: sharding_partial_decode_def is_optional_def Let_def num_elements_def wf_subset_def)
qed

end
