(* ===== verification/Encoder_Properties.thy ===== *)
theory Encoder_Properties
  imports Encoder_Laws Sharding_Properties
begin

text \<open>
  The properties of the partial encoder of the sharding codec, from the opening of the encoder on, and what it does when the index is at the
  end and space lies between the subchunks and the index.
\<close>

context sharding
begin

lemma index_words:
  assumes "index_fits s N"
  shows "wmul (wprod (per s)) 2 = many s * 2"
proof -
  have "iacc (sharding_index_shape (per s)) (index_bytes (replicate (many s * 2) 0))"
    using assms by (auto simp: index_fits_def words_def M64_def)
  from index.accepted[OF this] have "prod_list (sharding_index_shape (per s)) < M64" by (auto simp: shape_ok_def)
  then have "many s * 2 < M64" by (simp add: sharding_index_shape_def)
  then show ?thesis by (simp add: wprod_eq wmul_eq)
qed

lemma encoder_opened:
  assumes "case v of None \<Rightarrow> shard_fits s \<and> f = (\<lambda>_. Raw fv) | Some e \<Rightarrow> shard_holds s f e"
  shows "\<exists>ns. sharding_encoder_index S (mutex_decoder v) s opt = Inr ns \<and> encoder_state s f v ns"
proof (cases v)
  case None
  then have sf: "shard_fits s" and f: "f = (\<lambda>_. Raw fv)" using assms by simp_all
  obtain N where N: "index_fits s N" using sf by (auto simp: shard_fits_def)
  have "N < M64" using N by (simp add: index_fits_def)
  then have "decode_shard_index_partial_decoder S (mutex_decoder None) s opt = Inr None"
    by (rule index_absent[OF sf N le_refl _ absent_mutex])
  then have "sharding_encoder_index S (mutex_decoder v) s opt = Inr (replicate (many s * 2) u64_MAX)"
    using fits_facts(6)[OF sf] regular_new_divided[OF fits_facts(1)[OF sf]] index_words[OF N]
    by (simp add: sharding_encoder_index_def None Let_def)
  moreover have "subset_values f (part_at s i) = replicate (prod_list sub) (Raw fv)" if "i < many s" for i
    using length_subset_values[OF part_at_facts(4)[OF sf that], of f] part_at_facts(5)[OF sf that]
    by (simp add: subset_values_def f map_replicate_const)
  then have "encoder_state s f v (replicate (many s * 2) u64_MAX)"
    using sf by (auto simp: encoder_state_def None words_def u64_MAX_def M64_def)
  ultimately show ?thesis by blast
next
  case (Some e)
  then have h: "shard_holds s f e" using assms by simp
  obtain N ns where st: "shard_fits s" "length e + 1 < M64" "index_fits s N" "index_stored s N e ns"
      "\<forall>i < many s. data_start S N \<le> ns ! (i * 2) \<and> entry_holds e (ns ! (i * 2)) (ns ! (i * 2 + 1)) (subset_values f (part_at s i))"
    using h unfolding shard_holds_def by blast
  have "reads_on (sharding_range (sh_index_location S)) (mutex_decoder (Some e)) e" using st(2) by (intro reads_mutex) simp
  then have "sharding_encoder_index S (mutex_decoder v) s opt = Inr ns"
    using fits_facts(6)[OF st(1)] regular_new_divided[OF fits_facts(1)[OF st(1)]] index_read[OF st(1,3,4)]
    by (simp add: sharding_encoder_index_def Some Let_def)
  moreover have "encoder_state s f v ns" using st by (auto simp: encoder_state_def Some index_stored_def)
  ultimately show ?thesis by blast
qed

text \<open>What a reader finds: nothing, when everything is fill value.\<close>

lemma encoder_none:
  assumes "encoder_state s g None ns"
  shows "subset_values g (new_with_shape s) = replicate (prod_list s) (Raw fv)"
proof -
  have sf: "shard_fits s" using assms by (simp add: encoder_state_def)
  note w = whole_facts[OF fits_facts(5,2)[OF sf]]
  have "g i = Raw fv" if i: "i \<in> elements (new_with_shape s)" for i
  proof -
    obtain k where k: "k < many s" "i \<in> elements (part_at s k)" using part_of_index[OF sf, of i] i w(4) by blast
    have "subset_values g (part_at s k) = replicate (prod_list sub) (Raw fv)" using assms k(1) by (simp add: encoder_state_def)
    then show ?thesis
      using nth_subset_values[OF part_at_facts(4)[OF sf k(1)] k(2), of g] pos_less[OF part_at_facts(4)[OF sf k(1)] k(2)]
        part_at_facts(5)[OF sf k(1)] by simp
  qed
  then have "subset_values g (new_with_shape s) = subset_values (\<lambda>_. Raw fv) (new_with_shape s)" by (rule subset_values_cong[OF w(1)])
  then show ?thesis by (simp add: w(6) map_replicate_const)
qed

lemma opened_and_encoded:
  assumes "case v of None \<Rightarrow> shard_fits s \<and> f = (\<lambda>_. Raw fv) | Some e \<Rightarrow> shard_holds s f e"
    and "\<And>ns. sharding_encoder_index S (mutex_decoder v) s opt = Inr ns \<Longrightarrow> encoder_room s v ns"
    and "region s r" and "ab_ok t (prod_list (sub_shape r)) u" and "2 * (prod_list sub * z) < M64"
  shows "\<exists>ns v' ns'. sharding_encoder_index S (mutex_decoder v) s opt = Inr ns \<and>
    sharding_partial_encode sched' al S s opt (SubsetIndexer r) u (v, ns) = Inr (v', ns') \<and>
    (case v' of
       None \<Rightarrow> subset_values (overwrite f r (vals t u)) (new_with_shape s) = replicate (prod_list s) (Raw fv)
     | Some e' \<Rightarrow> shard_holds s (overwrite f r (vals t u)) e')"
proof -
  obtain ns where ns: "sharding_encoder_index S (mutex_decoder v) s opt = Inr ns" "encoder_state s f v ns"
    using encoder_opened[OF assms(1), of opt] by blast
  obtain v' ns' where "sharding_partial_encode sched' al S s opt (SubsetIndexer r) u (v, ns) = Inr (v', ns')"
      "encoder_state s (overwrite f r (vals t u)) v' ns'"
    using partial_encode_ok[OF ns(2) assms(3-5) assms(2)[OF ns(1)], of opt] by blast
  then show ?thesis
    using ns(1) encoder_none[of s "overwrite f r (vals t u)" ns'] encoder_state_holds by (cases v') auto
qed

end

text \<open>
  Property C10.  Partial encoding: on a handle without a value or with a shard, opening the partial encoder and writing a non-empty region
  succeeds, whatever the order in which the subchunks are updated.  Afterwards there is no value and every element is the fill value, or
  the value is a shard that decodes to the old elements with those of the region overwritten.  With the index at
  the end, the shard must not have space between its subchunks and its index.  The elements have a fixed size.
\<close>

theorem sharding_partial_encode_correct:
  assumes "sharding S acc iclass z iacc R1 iclass1 L sched sched' junk al"
    and "case v of None \<Rightarrow> sharding.shard_fits S acc z iacc L s \<and> f = (\<lambda>_. Raw (ab_fill_value (sh_inner_codecs S)))
      | Some e \<Rightarrow> sharding.shard_holds S acc z iacc L s f e"
    and "\<And>ns D N. sharding_encoder_index S (mutex_decoder v) s opt = Inr ns \<Longrightarrow> max_data_offset ns = Inr D \<Longrightarrow>
      compute_index_encoded_size (sh_index_codecs S) (sharding_index_shape (per_shard s (sh_subchunk_shape S))) = Inr N \<Longrightarrow>
      length (case v of None \<Rightarrow> [] | Some e \<Rightarrow> e) + prod_list (per_shard s (sh_subchunk_shape S)) * L + N + 1 < M64 \<and>
      (sh_index_location S = IndexEnd \<longrightarrow> length (case v of None \<Rightarrow> [] | Some e \<Rightarrow> e) \<le> D + N)"
    and "fits r s" and "\<not> is_empty r" and "ab_ok (PlainType (SizeFixed z)) (prod_list (sub_shape r)) u"
    and "2 * (prod_list (sh_subchunk_shape S) * z) < M64"
  shows "\<exists>ns v' ns'. sharding_encoder_index S (mutex_decoder v) s opt = Inr ns \<and>
     sharding_partial_encode sched' al S s opt (SubsetIndexer r) u (v, ns) = Inr (v', ns') \<and>
     (let g = overwrite f r (vals (PlainType (SizeFixed z)) u) in
      case v' of
        None \<Rightarrow> subset_values g (new_with_shape s) = replicate (prod_list s) (Raw (ab_fill_value (sh_inner_codecs S)))
      | Some e' \<Rightarrow> \<forall>opt'. \<exists>b. sharding_decode sched junk S opt' e' s = Inr b \<and>
          vals (PlainType (SizeFixed z)) b = subset_values g (new_with_shape s))"
proof -
  have room: "sharding.encoder_room S iacc L s v ns" if "sharding_encoder_index S (mutex_decoder v) s opt = Inr ns" for ns
    unfolding sharding.encoder_room_def[OF assms(1)] sharding.index_fits_def[OF assms(1)] using assms(3)[OF that] by blast
  have r: "sharding.region s r" using assms(4,5) by (simp add: sharding.region_def[OF assms(1)])
  obtain ns v' ns' where e: "sharding_encoder_index S (mutex_decoder v) s opt = Inr ns"
      "sharding_partial_encode sched' al S s opt (SubsetIndexer r) u (v, ns) = Inr (v', ns')"
      "case v' of None \<Rightarrow> subset_values (overwrite f r (vals (PlainType (SizeFixed z)) u)) (new_with_shape s) =
          replicate (prod_list s) (Raw (ab_fill_value (sh_inner_codecs S)))
        | Some e' \<Rightarrow> sharding.shard_holds S acc z iacc L s (overwrite f r (vals (PlainType (SizeFixed z)) u)) e'"
    using sharding.opened_and_encoded[OF assms(1,2) room r assms(6,7)] by blast
  then show ?thesis using sharding.sharding_decode_ok[OF assms(1)] by (cases v') (fastforce simp: Let_def)+
qed

theorem sharding_partial_encode_correct_witness:
  "\<exists>ns e ns' b. sharding_encoder_index sample_sharding (mutex_decoder None) [2, 2] sample_options = Inr ns \<and>
     sharding_partial_encode rev (\<lambda>b. (b, [], [])) sample_sharding [2, 2] sample_options
       (SubsetIndexer \<lparr>sub_start = [0, 1], sub_shape = [2, 1]\<rparr>) (FixedBytes [1, 0, 2, 0]) (None, ns) = Inr (Some e, ns') \<and>
     sharding_decode rev (\<lambda>n. replicate n 9) sample_sharding sample_options e [2, 2] = Inr b \<and>
     vals (PlainType (SizeFixed 2)) b = [Raw [7, 0], Raw [1, 0], Raw [7, 0], Raw [2, 0]]"
proof -
  let ?r = "\<lparr>sub_start = [0, 1], sub_shape = [2, 1]\<rparr>" and ?u = "FixedBytes [1, 0, 2, 0]" and ?f = "\<lambda>_. Raw [7, 0]"
  let ?g = "overwrite ?f ?r (vals (PlainType (SizeFixed 2)) ?u)"
  obtain N0 where N0: "shard_sample.index_fits [2, 2] N0" using sample_shard_fits by (auto simp: shard_sample.shard_fits_def)
  have sf: "case None of None \<Rightarrow> shard_sample.shard_fits [2, 2] \<and> ?f = (\<lambda>_. Raw (ab_fill_value (sh_inner_codecs sample_sharding)))
      | Some e \<Rightarrow> shard_sample.shard_holds [2, 2] ?f e"
    using sample_shard_fits by (simp add: sample_sharding_types)
  have room: "length (case None of None \<Rightarrow> [] :: bytes | Some e \<Rightarrow> e) + prod_list (per_shard [2, 2] (sh_subchunk_shape sample_sharding)) * 8 + N + 1
      < M64 \<and> (sh_index_location sample_sharding = IndexEnd \<longrightarrow> length (case None of None \<Rightarrow> [] :: bytes | Some e \<Rightarrow> e) \<le> D + N)"
    if "compute_index_encoded_size (sh_index_codecs sample_sharding)
      (sharding_index_shape (per_shard [2, 2] (sh_subchunk_shape sample_sharding))) = Inr N" for D N
    using N0 that by (simp add: shard_sample.index_fits_def)
  have r: "fits ?r [2, 2]" "\<not> is_empty ?r" "ab_ok (PlainType (SizeFixed 2)) (prod_list (sub_shape ?r)) ?u"
      "2 * (prod_list (sh_subchunk_shape sample_sharding) * 2) < M64"
    by (auto simp: fits_def wf_subset_def is_empty_def M64_def less_Suc_eq sample_sharding_parts)
  have g: "subset_values ?g (new_with_shape [2, 2]) = [Raw [7, 0], Raw [1, 0], Raw [7, 0], Raw [2, 0]]"
    by (simp add: subset_values_def new_with_shape_def upt_rec overwrite_def elements_def vals_def chunks_exact.simps pos_def
        rel_def less_Suc_eq all_simps)
  have "replicate (prod_list [2, 2 :: nat]) (Raw [7, 0]) = [Raw [7, 0], Raw [7, 0], Raw [7, 0], Raw [7, 0]]" by (simp add: numeral_eq_Suc)
  then have ne: "subset_values ?g (new_with_shape [2, 2]) \<noteq> replicate (prod_list [2, 2]) (Raw (ab_fill_value (sh_inner_codecs sample_sharding)))"
    unfolding g sample_sharding_types by simp
  from sharding_partial_encode_correct[OF shard_sample.sharding_axioms sf room r, of sample_options] obtain ns v' ns' where
    v': "sharding_encoder_index sample_sharding (mutex_decoder None) [2, 2] sample_options = Inr ns"
      "sharding_partial_encode rev (\<lambda>b. (b, [], [])) sample_sharding [2, 2] sample_options (SubsetIndexer ?r) ?u (None, ns) = Inr (v', ns')"
      "case v' of None \<Rightarrow> subset_values ?g (new_with_shape [2, 2]) =
          replicate (prod_list [2, 2]) (Raw (ab_fill_value (sh_inner_codecs sample_sharding)))
        | Some e' \<Rightarrow> \<forall>opt'. \<exists>b. sharding_decode rev (\<lambda>n. replicate n 9) sample_sharding opt' e' [2, 2] = Inr b \<and>
          vals (PlainType (SizeFixed 2)) b = subset_values ?g (new_with_shape [2, 2])"
    unfolding Let_def by blast
  obtain e where e: "v' = Some e" using v'(3) ne by (cases v') simp_all
  then obtain b where "sharding_decode rev (\<lambda>n. replicate n 9) sample_sharding sample_options e [2, 2] = Inr b"
      "vals (PlainType (SizeFixed 2)) b = [Raw [7, 0], Raw [1, 0], Raw [7, 0], Raw [2, 0]]"
    using v'(3) unfolding g e option.case by blast
  then show ?thesis using v'(1,2) unfolding e by blast
qed

subsection \<open>Space before the index\<close>

text \<open>
  With the index at the end and a value that reaches beyond the new subchunks and two indexes, as after an earlier update that only erased
  the last subchunks, the value is not truncated: a reader, which takes the index from the end, finds the old index.
\<close>

lemma stale_index_at_end:
  assumes "sh_index_location S = IndexEnd" and "\<not> list_all (\<lambda>n. n = u64_MAX) ns"
    and "ab_encode (sh_index_codecs S) opt (FixedBytes (transmute_to_bytes (sh_native S) ns)) index_shape = Inr eI"
    and "off + length (encoded_bytes ups) + 2 * length eI \<le> length B" and "length B < M64"
  shows "\<exists>e. write_updated S opt index_shape off ups ns (Some B) = Inr (Some e) \<and> length e = length B \<and>
    drop (length e - length eI) e = drop (length B - length eI) B"
proof -
  let ?w = "encoded_bytes ups @ eI"
  have fits: "list_all write_fits [(off, ?w)]" using assms(4,5) by (simp add: write_fits_def)
  have "write_updated S opt index_shape off ups ns (Some B) = Inr (Some (overlay B (off, ?w)))"
    using assms(1-3) partial_many_loop_eq[OF fits, of B]
    by (simp add: write_updated_def mutex_partial_encode_many_def Let_def flip: encoded_bytes_def)
  moreover have l: "length (overlay B (off, ?w)) = length B" using assms(4) by (simp add: length_overlay)
  moreover have "drop (off + length ?w) (overlay B (off, ?w)) = drop (off + length ?w) B"
    using assms(4) by (simp add: overlay_def Let_def)
  then have "drop (length B - length eI - (off + length ?w)) (drop (off + length ?w) (overlay B (off, ?w))) =
      drop (length B - length eI - (off + length ?w)) (drop (off + length ?w) B)" by (rule arg_cong)
  then have "drop (length B - length eI) (overlay B (off, ?w)) = drop (length B - length eI) B" using assms(4) by simp
  ultimately show ?thesis unfolding l by (metis l)
qed

end
