(* ===== verification/Vlen_Codecs.thy ===== *)
theory Vlen_Codecs
  imports Sharding_Codec
begin

text \<open>
  The codecs of variable-length elements.  \<open>vlen_v2\<close> (\<open>zarrs/src/array/codec/array_to_bytes/vlen_v2.rs\<close>,
  \<open>vlen_v2/vlen_v2_codec.rs\<close>, \<open>vlen_v2/vlen_v2_partial_decoder.rs\<close>) writes the number of elements and then each
  element behind its length, as 32-bit words.  \<open>vlen\<close> (\<open>vlen.rs\<close>, \<open>vlen/vlen_codec.rs\<close>,
  \<open>vlen/vlen_partial_decoder.rs\<close>) encodes the offsets and the data with codecs of their own, whose methods are used here, and
  writes the length of the encoded offsets beside them.

  Neither codec decodes in part: the partial decoders decode the whole value.
\<close>

abbreviation u32_bound :: nat where
  "u32_bound \<equiv> 4294967296"

text \<open>The bytes of a word of \<open>w\<close> bytes, in little-endian order and in that of the machine.\<close>

definition word_le_bytes :: "nat \<Rightarrow> nat \<Rightarrow> bytes" where
  "word_le_bytes w n = map (\<lambda>k. word_of_nat (n div 256 ^ k)) [0..<w]"

definition word_ne_bytes :: "endianness \<Rightarrow> nat \<Rightarrow> nat \<Rightarrow> bytes" where
  "word_ne_bytes native w n = (if native = LittleEndian then word_le_bytes w n else rev (word_le_bytes w n))"

text \<open>\<open>convert_from_bytes_slice\<close>: a last word that is not whole is filled up with zeros.\<close>

definition words_from_bytes :: "endianness \<Rightarrow> nat \<Rightarrow> bytes \<Rightarrow> nat list" where
  "words_from_bytes native w b =
     (let r = drop (length b div w * w) b in
      map (from_ne_bytes native) (chunks_exact w b @ (if r = [] then [] else [r @ replicate (w - length r) 0])))"

fun into_variable :: "array_bytes \<Rightarrow> codec_error + (bytes \<times> usize list)" where
  "into_variable (VariableBytes b os) = Inr (b, os)"
| "into_variable _ = Inl ExpectedVariableLengthBytes"

text \<open>\<open>ArrayBytesOffsets::new\<close> and \<open>ArrayBytes::new_vlen\<close>\<close>

definition offsets_and_bytes :: "bytes \<times> usize list \<Rightarrow> codec_error + array_bytes" where
  "offsets_and_bytes bo =
     (case bo of (b, offsets) \<Rightarrow>
        case offsets_new offsets of Inl _ \<Rightarrow> Inl RawBytesOffsetsCreate | Inr offsets \<Rightarrow> vlen_new b offsets)"

subsection \<open>\<open>vlen_v2\<close>\<close>

record vlen_v2_bound =
  v2_data_type :: data_type
  v2_fill_value :: fill_value

definition vlen_v2_unsupported :: codec_error where
  "vlen_v2_unsupported = CodecUnsupportedDataType [] ''vlen_v2''"

definition vlen_v2_with_context :: "data_type \<Rightarrow> fill_value \<Rightarrow> codec_error + vlen_v2_bound" where
  "vlen_v2_with_context t fv =
     (if is_optional t \<or> dt_size t \<noteq> SizeVariable then Inl vlen_v2_unsupported
      else Inr \<lparr>v2_data_type = t, v2_fill_value = fv\<rparr>)"

fun interleave_loop :: "bytes \<Rightarrow> (usize \<times> usize) list \<Rightarrow> bytes \<Rightarrow> codec_error + bytes" where
  "interleave_loop b [] data = Inr data"
| "interleave_loop b ((cur, next) # windows) data =
     (case slice b cur next of
        None \<Rightarrow> Inl CodecPanic
      | Some element_bytes \<Rightarrow>
          if length element_bytes < u32_bound
          then interleave_loop b windows (data @ word_le_bytes 4 (length element_bytes) @ element_bytes)
          else Inl CodecPanic)"

definition vlen_v2_encode :: "vlen_v2_bound \<Rightarrow> array_bytes \<Rightarrow> chunk_shape \<Rightarrow> codec_error + bytes" where
  "vlen_v2_encode V b s =
     bind_res (validate_bytes b (wprod s) (v2_data_type V)) (\<lambda>_.
     bind_res (into_variable b) (\<lambda>(b, offsets).
       if wprod s < u32_bound
       then interleave_loop b (zip offsets (tl offsets)) (word_le_bytes 4 (wprod s))
       else Inl (CodecOther ''num_elements exceeds u32::MAX in vlen codec'')))"

fun interleaved_loop :: "nat \<Rightarrow> bytes \<Rightarrow> usize \<Rightarrow> bytes \<Rightarrow> usize list \<Rightarrow> codec_error + (bytes \<times> usize list)" where
  "interleaved_loop 0 b off bytes_out offsets_out = Inr (bytes_out, offsets_out @ [length bytes_out])"
| "interleaved_loop (Suc k) b off bytes_out offsets_out =
     (case slice b off (wadd off 4) of
        None \<Rightarrow> Inl CodecPanic
      | Some l \<Rightarrow>
          (let len = le_value l; off = wadd off 4; offsets_out = offsets_out @ [length bytes_out] in
           if len \<noteq> 0
           then (case slice b off (wadd off len) of
                   None \<Rightarrow> Inl CodecPanic
                 | Some x \<Rightarrow> interleaved_loop k b (wadd off len) (bytes_out @ x) offsets_out)
           else interleaved_loop k b off bytes_out offsets_out))"

definition get_interleaved_bytes_and_offsets :: "usize \<Rightarrow> bytes \<Rightarrow> codec_error + (bytes \<times> usize list)" where
  "get_interleaved_bytes_and_offsets n b =
     (let header_length = wmul 4 (wadd 1 n) in
      if length b < header_length then Inl (UnexpectedChunkDecodedSize (length b) header_length)
      else case slice b 0 4 of
          None \<Rightarrow> Inl CodecPanic
        | Some header \<Rightarrow>
            if \<not> n < u32_bound then Inl CodecPanic
            else if n \<noteq> le_value header
            then Inl (CodecOther ''Expected header with a different number of elements'')
            else interleaved_loop n b 4 [] [])"

definition vlen_v2_decode :: "bytes \<Rightarrow> chunk_shape \<Rightarrow> codec_error + array_bytes" where
  "vlen_v2_decode b s = bind_res (get_interleaved_bytes_and_offsets (wprod s) b) offsets_and_bytes"

definition vlen_v2_partial_decode :: "vlen_v2_bound \<Rightarrow> bytes_decoder \<Rightarrow> chunk_shape \<Rightarrow> array_decoder" where
  "vlen_v2_partial_decode V input_handle s x =
     bind_res (decode_all input_handle) (\<lambda>v.
       case v of
         Some b \<Rightarrow>
           bind_res (get_interleaved_bytes_and_offsets (wprod s) b) (\<lambda>(b, offsets).
           bind_res (extract_decoded_regions_vlen b offsets x s) (\<lambda>(b, offsets). Inr (VariableBytes b offsets)))
       | None \<Rightarrow> new_fill_value (v2_data_type V) (ix_len x) (v2_fill_value V))"

definition vlen_v2_encoded_representation :: "vlen_v2_bound \<Rightarrow> chunk_shape \<Rightarrow> codec_error + bytes_representation" where
  "vlen_v2_encoded_representation V s =
     (case dt_size (v2_data_type V) of SizeVariable \<Rightarrow> Inr UnboundedSize | SizeFixed _ \<Rightarrow> Inl vlen_v2_unsupported)"

definition vlen_recommended_concurrency :: "chunk_shape \<Rightarrow> codec_error + recommended_concurrency" where
  "vlen_recommended_concurrency s = Inr (recommended_new 0 1)"

definition vlen_v2_array_codec :: "vlen_v2_bound \<Rightarrow> array_codec" where
  "vlen_v2_array_codec V =
     \<lparr>ab_data_type = v2_data_type V, ab_fill_value = v2_fill_value V,
      ab_encoded_representation = vlen_v2_encoded_representation V,
      ab_recommended_concurrency = vlen_recommended_concurrency,
      ab_encode = (\<lambda>_. vlen_v2_encode V), ab_decode = (\<lambda>_. vlen_v2_decode), ab_compact = default_compact,
      ab_decode_into = (\<lambda>_. default_decode_into vlen_v2_decode),
      ab_partial_decoder = (\<lambda>_ d s. Inr (vlen_v2_partial_decode V d s))\<rparr>"

subsection \<open>\<open>vlen\<close>\<close>

datatype vlen_index_data_type = VlenUInt32 | VlenUInt64

datatype vlen_index_location = VlenStart | VlenEnd

record vlen_bound =
  vl_index_codecs :: array_codec
  vl_data_codecs :: array_codec
  vl_index_location :: vlen_index_location
  vl_data_type :: data_type
  vl_fill_value :: fill_value
  vl_native :: endianness

text \<open>The data types that \<open>with_context\<close> binds the codecs to.\<close>

definition uint8 :: data_type where "uint8 = PlainType (SizeFixed 1)"
definition uint32 :: data_type where "uint32 = PlainType (SizeFixed 4)"
definition uint64 :: data_type where "uint64 = PlainType (SizeFixed 8)"

definition vlen_unsupported :: codec_error where
  "vlen_unsupported = CodecUnsupportedDataType [] ''vlen''"

text \<open>\<open>index_codecs\<close> and \<open>data_codecs\<close> are the unbound codecs, as the functions that bind them.\<close>

definition vlen_with_context ::
    "endianness \<Rightarrow> (data_type \<Rightarrow> fill_value \<Rightarrow> codec_error + array_codec) \<Rightarrow>
     (data_type \<Rightarrow> fill_value \<Rightarrow> codec_error + array_codec) \<Rightarrow> vlen_index_data_type \<Rightarrow> vlen_index_location \<Rightarrow>
     data_type \<Rightarrow> fill_value \<Rightarrow> codec_error + vlen_bound" where
  "vlen_with_context native index_codecs data_codecs index_data_type index_location t fv =
     (if is_optional t then Inl vlen_unsupported
      else if dt_size t \<noteq> SizeVariable then Inl vlen_unsupported
      else
        bind_res (case index_data_type of
            VlenUInt32 \<Rightarrow> index_codecs uint32 (replicate 4 0)
          | VlenUInt64 \<Rightarrow> index_codecs uint64 (replicate 8 0)) (\<lambda>index_codecs.
        bind_res (data_codecs uint8 [0]) (\<lambda>data_codecs.
          Inr \<lparr>vl_index_codecs = index_codecs, vl_data_codecs = data_codecs, vl_index_location = index_location,
            vl_data_type = t, vl_fill_value = fv, vl_native = native\<rparr>)))"

text \<open>The offsets as words of the index, and the shape of the index.\<close>

definition vlen_index_words :: "vlen_bound \<Rightarrow> usize list \<Rightarrow> codec_error + bytes" where
  "vlen_index_words V offsets =
     (if ab_data_type (vl_index_codecs V) = uint32 then
        if list_all (\<lambda>n. n < u32_bound) offsets then Inr (concat (map (word_ne_bytes (vl_native V) 4) offsets))
        else Inl (CodecOther ''index offsets are too large for a uint32 index_data_type'')
      else if ab_data_type (vl_index_codecs V) = uint64 then Inr (concat (map (word_ne_bytes (vl_native V) 8) offsets))
      else Inl (CodecOther ''unsupported bound vlen index data type, expected uint32 or uint64''))"

definition vlen_encode :: "vlen_bound \<Rightarrow> codec_options \<Rightarrow> array_bytes \<Rightarrow> chunk_shape \<Rightarrow> codec_error + bytes" where
  "vlen_encode V opt b s =
     bind_res (validate_bytes b (wprod s) (vl_data_type V)) (\<lambda>_.
     bind_res (into_variable b) (\<lambda>(data, offsets).
       if length offsets \<noteq> wadd (wprod s) 1 \<or> wadd (wprod s) 1 = 0 then Inl CodecPanic
       else
         bind_res (vlen_index_words V offsets) (\<lambda>words.
         bind_res (ab_encode (vl_index_codecs V) opt (FixedBytes words) [wadd (wprod s) 1]) (\<lambda>offsets.
         bind_res (if length data \<noteq> 0 then ab_encode (vl_data_codecs V) opt (FixedBytes data) [length data] else Inr []) (\<lambda>data.
           Inr (case vl_index_location V of
               VlenStart \<Rightarrow> word_le_bytes 8 (length offsets) @ offsets @ data
             | VlenEnd \<Rightarrow> data @ offsets @ word_le_bytes 8 (length offsets)))))))"

definition split_at :: "bytes \<Rightarrow> usize \<Rightarrow> codec_error + (bytes \<times> bytes)" where
  "split_at b mid = (if mid \<le> length b then Inr (take mid b, drop mid b) else Inl CodecPanic)"

definition vlen_parts :: "vlen_index_location \<Rightarrow> bytes \<Rightarrow> codec_error + (bytes \<times> bytes)" where
  "vlen_parts index_location b =
     (if length b < 8 then Inl (UnexpectedChunkDecodedSize (length b) 8)
      else case index_location of
          VlenStart \<Rightarrow>
            bind_res (split_at b 8) (\<lambda>(bytes_index_len, bytes_main). split_at bytes_main (le_value bytes_index_len))
        | VlenEnd \<Rightarrow>
            bind_res (split_at b (length b - 8)) (\<lambda>(bytes_main, bytes_index_len).
            bind_res (split_at bytes_main (wsub (length bytes_main) (le_value bytes_index_len))) (\<lambda>(bytes_data, bytes_index).
              Inr (bytes_index, bytes_data))))"

definition vlen_index_offsets :: "vlen_bound \<Rightarrow> bytes \<Rightarrow> codec_error + usize list" where
  "vlen_index_offsets V index =
     (let t = ab_data_type (vl_index_codecs V) in
      if vl_native V = BigEndian \<and> fixed_size t = None then Inl CodecPanic
      else
        let index = (if vl_native V = BigEndian then reverse_components (the (fixed_size t)) index else index) in
        if t = uint32 then Inr (words_from_bytes (vl_native V) 4 index)
        else if t = uint64 then Inr (words_from_bytes (vl_native V) 8 index)
        else Inl (CodecOther ''unsupported vlen index data type, expected uint32 or uint64''))"

definition get_vlen_bytes_and_offsets ::
    "vlen_bound \<Rightarrow> codec_options \<Rightarrow> bytes \<Rightarrow> chunk_shape \<Rightarrow> codec_error + (bytes \<times> usize list)" where
  "get_vlen_bytes_and_offsets V opt b s =
     (if wadd (wprod s) 1 = 0 then Inl CodecPanic
      else
        bind_res (vlen_parts (vl_index_location V) b) (\<lambda>(index_enc, data_enc).
        bind_res (ab_decode (vl_index_codecs V) opt index_enc [wadd (wprod s) 1]) (\<lambda>index.
        bind_res (into_fixed index) (\<lambda>index.
        bind_res (vlen_index_offsets V index) (\<lambda>index.
        if index = [] then Inl (CodecOther ''Index is empty? It should have at least one element'')
        else
          let data_len_expected = last index in
          bind_res (if data_len_expected \<noteq> 0
              then bind_res (ab_decode (vl_data_codecs V) opt data_enc [data_len_expected]) into_fixed
              else Inr []) (\<lambda>data.
          if length data \<noteq> data_len_expected then Inl (CodecOther ''Expected data length does not match data length'')
          else if list_ex (\<lambda>(cur, next). next < cur \<or> length data < next) (zip index (tl index))
          then Inl (CodecOther ''Invalid bytes offsets in vlen Offset64 encoded chunk'')
          else Inr (data, index)))))))"

definition vlen_decode :: "vlen_bound \<Rightarrow> codec_options \<Rightarrow> bytes \<Rightarrow> chunk_shape \<Rightarrow> codec_error + array_bytes" where
  "vlen_decode V opt b s = bind_res (get_vlen_bytes_and_offsets V opt b s) offsets_and_bytes"

definition vlen_partial_decode :: "vlen_bound \<Rightarrow> codec_options \<Rightarrow> bytes_decoder \<Rightarrow> chunk_shape \<Rightarrow> array_decoder" where
  "vlen_partial_decode V opt input_handle s x =
     bind_res (decode_all input_handle) (\<lambda>v.
       case v of
         Some b \<Rightarrow>
           bind_res (get_vlen_bytes_and_offsets V opt b s) (\<lambda>(data, index).
           bind_res (extract_decoded_regions_vlen data index x s) (\<lambda>(b, offsets). Inr (VariableBytes b offsets)))
       | None \<Rightarrow> new_fill_value (vl_data_type V) (ix_len x) (vl_fill_value V))"

definition vlen_encoded_representation :: "vlen_bound \<Rightarrow> chunk_shape \<Rightarrow> codec_error + bytes_representation" where
  "vlen_encoded_representation V s =
     (case dt_size (vl_data_type V) of SizeVariable \<Rightarrow> Inr UnboundedSize | SizeFixed _ \<Rightarrow> Inl vlen_unsupported)"

definition vlen_array_codec :: "vlen_bound \<Rightarrow> array_codec" where
  "vlen_array_codec V =
     \<lparr>ab_data_type = vl_data_type V, ab_fill_value = vl_fill_value V,
      ab_encoded_representation = vlen_encoded_representation V,
      ab_recommended_concurrency = vlen_recommended_concurrency,
      ab_encode = vlen_encode V, ab_decode = vlen_decode V, ab_compact = default_compact,
      ab_decode_into = (\<lambda>opt. default_decode_into (vlen_decode V opt)),
      ab_partial_decoder = (\<lambda>opt d s. Inr (vlen_partial_decode V opt d s))\<rparr>"

end
