(* ===== verification/Vlen_Laws.thy ===== *)
theory Vlen_Laws
  imports Vlen_Codecs Sharding_Laws
begin

text \<open>
  The codecs of variable-length elements keep the contract of an array-to-bytes codec: \<open>vlen_v2\<close> for chunks whose number of elements and
  whose elements fit 32-bit lengths, and \<open>vlen\<close> over lawful codecs of the offsets and the data, on a little-endian machine.
\<close>

subsection \<open>Words\<close>

lemma length_word_bytes [simp]: "length (word_le_bytes w n) = w" "length (word_ne_bytes native w n) = w"
  by (simp_all add: word_le_bytes_def word_ne_bytes_def)

lemma word_le_value [simp]: "n < 256 ^ w \<Longrightarrow> le_value (word_le_bytes w n) = n"
  using le_value_map[of n 0 w] by (simp add: word_le_bytes_def)

lemma words_inverse:
  assumes "list_all (\<lambda>n. n < 256 ^ w) ns" and "0 < w"
  shows "words_from_bytes native w (concat (map (word_ne_bytes native w) ns)) = ns"
proof -
  have s: "sized w (map (word_ne_bytes native w) ns)" by (simp add: sized_def list_all_iff)
  have "map (from_ne_bytes native) (map (word_ne_bytes native w) ns) = ns"
    using assms(1) by (auto simp: from_ne_bytes_def word_ne_bytes_def list_all_iff intro!: map_idI)
  then show ?thesis
    using chunks_concat[OF s assms(2)] length_concat_sized[OF s] assms(2) by (simp add: words_from_bytes_def)
qed

lemma monotone_offsets_iff: "monotone_offsets os \<longleftrightarrow> sorted os"
  by (auto simp: monotone_offsets_def list_all_length sorted_iff_nth_Suc nth_tl)

lemma offsets_and_bytes_ok: "vlen_ok n b os \<Longrightarrow> offsets_and_bytes (b, os) = Inr (VariableBytes b os)"
  by (auto simp: offsets_and_bytes_def offsets_new_def vlen_new_def monotone_offsets_iff vlen_ok_def)

subsection \<open>\<open>vlen_v2\<close>\<close>

definition interleaved :: "bytes list \<Rightarrow> bytes" where
  "interleaved xs = concat (map (\<lambda>x. word_le_bytes 4 (length x) @ x) xs)"

lemma length_interleaved: "length (interleaved xs) = 4 * length xs + length (concat xs)"
  by (induction xs) (simp_all add: interleaved_def)

lemma interleave_loop_ok:
  "sorted os \<Longrightarrow> last os \<le> length b \<Longrightarrow> list_all (\<lambda>x. length x < u32_bound) (vlen_items b os) \<Longrightarrow>
     interleave_loop b (zip os (tl os)) data = Inr (data @ interleaved (vlen_items b os))"
proof (induction os arbitrary: data)
  case (Cons o0 os)
  show ?case
  proof (cases os)
    case (Cons o1 os')
    have "o0 \<le> o1" "o1 \<le> last os" using Cons.prems(1) Cons by (auto simp: last_in_set)
    then have "slice b o0 o1 = Some (take (o1 - o0) (drop o0 b))" using Cons.prems(2) Cons by (simp add: slice_def)
    then show ?thesis
      using Cons.IH Cons.prems Cons by (simp add: vlen_items_Cons interleaved_def)
  qed (simp add: vlen_items_def interleaved_def)
qed (simp add: vlen_items_def interleaved_def)

lemma interleaved_loop_ok:
  "length (p @ interleaved xs) < M64 \<Longrightarrow> list_all (\<lambda>x. length x < u32_bound) xs \<Longrightarrow>
     interleaved_loop (length xs) (p @ interleaved xs) (length p) out os =
       Inr (out @ concat xs, os @ offsets_of (length out) xs)"
proof (induction xs arbitrary: p out os)
  case (Cons x xs)
  let ?l = "word_le_bytes 4 (length x)" and ?b = "p @ interleaved (x # xs)"
  have b: "?b = p @ ?l @ x @ interleaved xs" "?b = (p @ ?l @ x) @ interleaved xs" by (simp_all add: interleaved_def)
  have small: "length p + 4 + length x < M64" using Cons.prems(1) unfolding b(1) by simp
  have l: "slice ?b (length p) (wadd (length p) 4) = Some ?l" and v: "le_value ?l = length x"
    using small Cons.prems(2) by (simp_all add: b(1) slice_def wadd_eq)
  have x: "slice ?b (wadd (length p) 4) (wadd (wadd (length p) 4) (length x)) = Some x"
    using small by (simp add: b(1) slice_def wadd_eq)
  have off: "wadd (wadd (length p) 4) (length x) = length (p @ ?l @ x)" using small by (simp add: wadd_eq)
  have IH: "interleaved_loop (length xs) ?b (length (p @ ?l @ x)) out' os' =
      Inr (out' @ concat xs, os' @ offsets_of (length out') xs)" for out' os'
    unfolding b(2) by (rule Cons.IH) (use Cons.prems in \<open>simp_all add: b(1)\<close>)
  show ?case
  proof (cases "x = []")
    case True
    then have "wadd (length p) 4 = length (p @ ?l @ x)" using small by (simp add: wadd_eq)
    then show ?thesis using l v IH True by simp
  next
    case False
    then show ?thesis using l v x off IH by simp
  qed
qed simp

lemma interleaved_decode:
  assumes "length xs < u32_bound" and "4 * (1 + length xs) + length (concat xs) < M64" and "list_all (\<lambda>x. length x < u32_bound) xs"
  shows "get_interleaved_bytes_and_offsets (length xs) (word_le_bytes 4 (length xs) @ interleaved xs) = Inr (concat xs, offsets_of 0 xs)"
proof -
  let ?h = "word_le_bytes 4 (length xs)"
  have h: "wmul 4 (wadd (Suc 0) (length xs)) = 4 * (1 + length xs)" using assms(2) by (simp add: wadd_eq wmul_eq)
  have "interleaved_loop (length xs) (?h @ interleaved xs) (length ?h) [] [] = Inr (concat xs, offsets_of 0 xs)"
    using interleaved_loop_ok[of ?h xs "[]" "[]"] assms(2,3) by (simp add: length_interleaved)
  then show ?thesis
    using assms(1) by (simp add: get_interleaved_bytes_and_offsets_def h length_interleaved slice_def Let_def)
qed

definition vlen_v2_accepts :: "vlen_v2_bound \<Rightarrow> chunk_shape \<Rightarrow> array_bytes \<Rightarrow> bool" where
  "vlen_v2_accepts V s b \<longleftrightarrow> v2_data_type V = PlainType SizeVariable \<and> shape_ok s \<and> prod_list s < u32_bound \<and>
     (case b of VariableBytes d os \<Rightarrow> vlen_ok (prod_list s) d os \<and> list_all (\<lambda>x. length x < u32_bound) (vlen_items d os) \<and>
         4 * (1 + prod_list s) + length d < M64
       | _ \<Rightarrow> False)"

lemma variable_vals: "vals (PlainType SizeVariable) (VariableBytes b os) = map Raw (vlen_items b os)"
  by (simp add: vals_def)

lemma vlen_v2_accepted:
  assumes "vlen_v2_accepts V s b"
  obtains xs where "length xs = prod_list s" and "vals (v2_data_type V) b = map Raw xs" and "ab_ok (v2_data_type V) (prod_list s) b"
    and "vlen_v2_encode V b s = Inr (word_le_bytes 4 (length xs) @ interleaved xs)"
    and "length (word_le_bytes 4 (length xs) @ interleaved xs) < M64"
    and "get_interleaved_bytes_and_offsets (wprod s) (word_le_bytes 4 (length xs) @ interleaved xs) = Inr (concat xs, offsets_of 0 xs)"
    and "vlen_ok (prod_list s) (concat xs) (offsets_of 0 xs)" and "vlen_items (concat xs) (offsets_of 0 xs) = xs"
    and "vlen_v2_accepts V s (VariableBytes (concat xs) (offsets_of 0 xs))"
proof -
  obtain d os where b: "b = VariableBytes d os" using assms by (cases b) (simp_all add: vlen_v2_accepts_def)
  define xs where "xs = vlen_items d os"
  have a: "v2_data_type V = PlainType SizeVariable" "wprod s = prod_list s" "shape_ok s" "prod_list s < u32_bound"
      "vlen_ok (prod_list s) d os" "list_all (\<lambda>x. length x < u32_bound) xs" "4 * (1 + prod_list s) + length d < M64"
    using assms by (simp_all add: vlen_v2_accepts_def b xs_def shape_ok_def wprod_eq)
  have n: "length xs = prod_list s" using a(5) by (simp add: xs_def vlen_ok_def)
  have d: "length (concat xs) \<le> length d" using vlen_items_total[OF a(5)] by (simp add: xs_def length_concat)
  then have small: "4 * (1 + length xs) + length (concat xs) < M64" using le_less_trans[OF add_left_mono[OF d] a(7)] n by simp
  have v: "validate_bytes b (wprod s) (v2_data_type V) = Inr ()"
    using validate_ok[of "PlainType SizeVariable" "prod_list s" b] a by (simp add: b countable_size_def)
  have "sorted os" "last os \<le> length d" using a(5) by (simp_all add: vlen_ok_def)
  from interleave_loop_ok[OF this, of "word_le_bytes 4 (prod_list s)"] a(6)
  have e: "vlen_v2_encode V b s = Inr (word_le_bytes 4 (length xs) @ interleaved xs)"
    using v a(2,4) n by (simp add: vlen_v2_encode_def b xs_def)
  have g: "get_interleaved_bytes_and_offsets (wprod s) (word_le_bytes 4 (length xs) @ interleaved xs) = Inr (concat xs, offsets_of 0 xs)"
    using interleaved_decode[OF _ small a(6)] a(2,4) n by simp
  have p: "vlen_ok (prod_list s) (concat xs) (offsets_of 0 xs)" "vlen_items (concat xs) (offsets_of 0 xs) = xs"
    using pushed_items(2,3)[of xs] small n by simp_all
  have "vlen_v2_accepts V s (VariableBytes (concat xs) (offsets_of 0 xs))"
    using a p n small by (simp add: vlen_v2_accepts_def)
  then show ?thesis
    using that[of xs] n e g p a(1,5) small by (simp add: b xs_def variable_vals length_interleaved)
qed

text \<open>The partial decoder is the default one, over the decoder that does not check the offsets.\<close>

definition plain_decode :: "(bytes \<Rightarrow> chunk_shape \<Rightarrow> codec_error + (bytes \<times> usize list)) \<Rightarrow> bytes \<Rightarrow> chunk_shape \<Rightarrow> codec_error + array_bytes" where
  "plain_decode get b s = bind_res (get b s) (\<lambda>(b, os). Inr (VariableBytes b os))"

lemma extract_plain:
  "bind_res (plain_decode get b s) (\<lambda>d. extract_array_subset d x s t) =
   bind_res (get b s) (\<lambda>(b, os). bind_res (extract_decoded_regions_vlen b os x s) (\<lambda>(b, os). Inr (VariableBytes b os)))"
  by (cases "get b s") (auto simp: plain_decode_def extract_decoded_regions_vlen_def extract_vlen_def)

lemma vlen_v2_partial_default: "vlen_v2_partial_decode V d s x =
   default_array_partial_decode (v2_data_type V) (v2_fill_value V)
     (plain_decode (\<lambda>b s. get_interleaved_bytes_and_offsets (wprod s) b)) d s x"
  by (simp add: vlen_v2_partial_decode_def default_array_partial_decode_def extract_plain cong: option.case_cong)

interpretation vlen_v2: array_to_bytes_codec "vlen_v2_array_codec V" "v2_data_type V" "v2_fill_value V" "vlen_v2_accepts V"
  interval_range AnyIndexer for V
proof (unfold_locales, goal_cases)
  case (1 s b)
  then show ?case
    by (auto simp: vlen_v2_accepts_def vlen_v2_array_codec_def vlen_recommended_concurrency_def vlen_v2_encoded_representation_def
        split: array_bytes.splits)
next
  case (2 s b opt)
  obtain xs where xs: "vals (v2_data_type V) b = map Raw xs" "vlen_v2_encode V b s = Inr (word_le_bytes 4 (length xs) @ interleaved xs)"
      "length (word_le_bytes 4 (length xs) @ interleaved xs) < M64"
      "get_interleaved_bytes_and_offsets (wprod s) (word_le_bytes 4 (length xs) @ interleaved xs) = Inr (concat xs, offsets_of 0 xs)"
      "vlen_ok (prod_list s) (concat xs) (offsets_of 0 xs)" "vlen_items (concat xs) (offsets_of 0 xs) = xs"
      "vlen_v2_accepts V s (VariableBytes (concat xs) (offsets_of 0 xs))"
    by (rule vlen_v2_accepted[OF 2])
  moreover have "v2_data_type V = PlainType SizeVariable" using 2 by (simp add: vlen_v2_accepts_def)
  ultimately show ?case
    by (simp add: vlen_v2_array_codec_def vlen_v2_decode_def offsets_and_bytes_ok variable_vals)
next
  case (3 s b opt e a q T opt')
  obtain xs where xs: "vals (v2_data_type V) b = map Raw xs" "vlen_v2_encode V b s = Inr (word_le_bytes 4 (length xs) @ interleaved xs)"
      "get_interleaved_bytes_and_offsets (wprod s) (word_le_bytes 4 (length xs) @ interleaved xs) = Inr (concat xs, offsets_of 0 xs)"
      "vlen_ok (prod_list s) (concat xs) (offsets_of 0 xs)" "vlen_items (concat xs) (offsets_of 0 xs) = xs"
    by (rule vlen_v2_accepted[OF 3(1)])
  have t: "v2_data_type V = PlainType SizeVariable" using 3(1) by (simp add: vlen_v2_accepts_def)
  have "vlen_v2_decode e s = Inr (VariableBytes (concat xs) (offsets_of 0 xs))"
    using xs(2-4) 3(2) by (simp add: vlen_v2_array_codec_def vlen_v2_decode_def offsets_and_bytes_ok)
  from default_into_vals[where t = "v2_data_type V" and dec = vlen_v2_decode and b = "VariableBytes (concat xs) (offsets_of 0 xs)",
      OF 3(3,4) _ this]
  show ?case using xs(1,4,5) t by (simp add: vlen_v2_array_codec_def variable_vals)
next
  case (4 s b opt e d opt')
  obtain xs where xs: "vals (v2_data_type V) b = map Raw xs" "vlen_v2_encode V b s = Inr (word_le_bytes 4 (length xs) @ interleaved xs)"
      "get_interleaved_bytes_and_offsets (wprod s) (word_le_bytes 4 (length xs) @ interleaved xs) = Inr (concat xs, offsets_of 0 xs)"
      "vlen_ok (prod_list s) (concat xs) (offsets_of 0 xs)" "vlen_items (concat xs) (offsets_of 0 xs) = xs"
    by (rule vlen_v2_accepted[OF 4(1)])
  have t: "v2_data_type V = PlainType SizeVariable" "shape_ok s" using 4(1) by (simp_all add: vlen_v2_accepts_def)
  have "plain_decode (\<lambda>b s. get_interleaved_bytes_and_offsets (wprod s) b) e s = Inr (VariableBytes (concat xs) (offsets_of 0 xs))"
    using xs(2,3) 4(2) by (simp add: vlen_v2_array_codec_def plain_decode_def)
  from default_partial_some[where t = "v2_data_type V" and b = "VariableBytes (concat xs) (offsets_of 0 xs)" and
      dec = "plain_decode (\<lambda>b s. get_interleaved_bytes_and_offsets (wprod s) b)", OF 4(3) _ this t(2)]
  show ?case using xs(1,4,5) t(1) by (simp add: vlen_v2_array_codec_def reads_array_def vlen_v2_partial_default variable_vals)
next
  case (5 s b opt e d opt')
  have s: "shape_ok s" using 5(1) by (simp add: vlen_v2_accepts_def)
  from default_partial_none[OF 5(3) _ s] 5(4) show ?case
    by (simp add: vlen_v2_array_codec_def reads_array_def vlen_v2_partial_default fill_ready_def fill_vals_indexed)
qed

end
