(* ===== verification/Vlen_Properties.thy ===== *)
theory Vlen_Properties
  imports Vlen_Laws Sharded_Chain
begin

text \<open>
  The \<open>vlen\<close> codec over lawful codecs of its offsets and its data keeps the contract of an array-to-bytes codec, on a little-endian machine;
  the properties of both codecs of variable-length elements; what they do with bytes they did not write, and on a big-endian machine.
\<close>

locale vlen_codec =
  index: array_to_bytes_codec "vl_index_codecs V" "PlainType (SizeFixed w)" "ab_fill_value (vl_index_codecs V)" iacc Ri ixi +
  data: array_to_bytes_codec "vl_data_codecs V" uint8 "ab_fill_value (vl_data_codecs V)" dacc Rd ixd
  for V :: vlen_bound
    and w :: nat
    and iacc :: "chunk_shape \<Rightarrow> array_bytes \<Rightarrow> bool"
    and Ri :: "byte_range \<Rightarrow> bool"
    and ixi :: indexer_class
    and dacc :: "chunk_shape \<Rightarrow> array_bytes \<Rightarrow> bool"
    and Rd :: "byte_range \<Rightarrow> bool"
    and ixd :: indexer_class +
  assumes words: "w = 4 \<or> w = 8" "ab_data_type (vl_index_codecs V) = PlainType (SizeFixed w)"
    and variable: "vl_data_type V = PlainType SizeVariable"
    and native: "vl_native V = LittleEndian"
begin

abbreviation "index_words os \<equiv> concat (map (word_ne_bytes LittleEndian w) os)"

definition vlen_accepts :: "chunk_shape \<Rightarrow> array_bytes \<Rightarrow> bool" where
  "vlen_accepts s b \<longleftrightarrow> shape_ok s \<and> prod_list s + 1 < M64 \<and>
     (case b of VariableBytes d os \<Rightarrow> vlen_ok (prod_list s) d os \<and> (w = 4 \<longrightarrow> length d < u32_bound) \<and>
         iacc [prod_list s + 1] (FixedBytes (index_words os)) \<and> (d \<noteq> [] \<longrightarrow> dacc [length d] (FixedBytes d)) \<and>
         (\<forall>opt ei ed. ab_encode (vl_index_codecs V) opt (FixedBytes (index_words os)) [prod_list s + 1] = Inr ei \<longrightarrow>
            (if d = [] then ed = [] else ab_encode (vl_data_codecs V) opt (FixedBytes d) [length d] = Inr ed) \<longrightarrow>
            8 + length ei + length ed < M64)
       | _ \<Rightarrow> False)"

lemma offsets_below:
  assumes "vlen_ok n d os" and "w = 4 \<longrightarrow> length d < u32_bound"
  shows "list_all (\<lambda>k. k < 256 ^ w) os" and "w = 4 \<Longrightarrow> list_all (\<lambda>k. k < u32_bound) os"
proof -
  have "k \<le> length d" if k: "k \<in> set os" for k
  proof -
    obtain i where "k = os ! i" "i < length os" using k by (metis in_set_conv_nth)
    moreover have "sorted os" "os \<noteq> []" using assms(1) by (auto simp: vlen_ok_def)
    moreover from this have "last os = os ! (length os - 1)" by (simp add: last_conv_nth)
    moreover have "last os = length d" using assms(1) by (simp add: vlen_ok_def)
    ultimately show ?thesis using sorted_nth_mono[of os i "length os - 1"] by (simp add: diff_less)
  qed
  moreover have "length d < 256 ^ w" using assms words(1) by (auto simp: vlen_ok_def M64_def)
  ultimately show "list_all (\<lambda>k. k < 256 ^ w) os" and "w = 4 \<Longrightarrow> list_all (\<lambda>k. k < u32_bound) os"
    using assms(2) by (fastforce simp: list_all_iff)+
qed

lemma vlen_parts_ok:
  assumes "8 + length ei + length ed < M64"
  shows "vlen_parts VlenStart (word_le_bytes 8 (length ei) @ ei @ ed) = Inr (ei, ed)"
    and "vlen_parts VlenEnd (ed @ ei @ word_le_bytes 8 (length ei)) = Inr (ei, ed)"
proof -
  have "length ei < 256 ^ 8" using assms by (simp add: M64_def)
  then have v: "le_value (word_le_bytes 8 (length ei)) = length ei" by (rule word_le_value)
  show "vlen_parts VlenStart (word_le_bytes 8 (length ei) @ ei @ ed) = Inr (ei, ed)"
    using v by (simp add: vlen_parts_def split_at_def)
  have "wsub (length (ed @ ei)) (length ei) = length ed" using assms by (simp add: wsub_eq)
  then show "vlen_parts VlenEnd (ed @ ei @ word_le_bytes 8 (length ei)) = Inr (ei, ed)"
    using v by (simp add: vlen_parts_def split_at_def)
qed

lemma vlen_accepted:
  assumes "vlen_accepts s b"
  obtains d os e where "b = VariableBytes d os" and "vlen_ok (prod_list s) d os" and "vlen_encode V opt b s = Inr e"
    and "length e < M64" and "\<And>opt'. get_vlen_bytes_and_offsets V opt' e s = Inr (d, os)"
proof -
  obtain d os where b: "b = VariableBytes d os" using assms by (cases b) (simp_all add: vlen_accepts_def)
  let ?n = "prod_list s + 1" and ?i = "FixedBytes (index_words os)" and ?I = "vl_index_codecs V" and ?D = "vl_data_codecs V"
  have a: "shape_ok s" "?n < M64" "vlen_ok (prod_list s) d os" "w = 4 \<longrightarrow> length d < u32_bound" "iacc [?n] ?i"
      "d \<noteq> [] \<longrightarrow> dacc [length d] (FixedBytes d)" "wprod s = prod_list s"
    using assms by (simp_all add: vlen_accepts_def b shape_ok_def wprod_eq)
  have n: "wadd (wprod s) (Suc 0) = ?n" "?n \<noteq> 0" "length os = ?n" using a(2,3,7) by (simp_all add: wadd_eq vlen_ok_def)
  have v: "validate_bytes b (wprod s) (vl_data_type V) = Inr ()"
    using validate_ok[of "PlainType SizeVariable" "prod_list s" b] a by (simp add: b countable_size_def variable)
  have ws: "vlen_index_words V os = Inr (index_words os)"
    using words native offsets_below[OF a(3,4)] by (auto simp: vlen_index_words_def uint32_def uint64_def)
  obtain ei where ei: "ab_encode ?I opt ?i [?n] = Inr ei" using index.roundtrip[OF a(5)] by blast
  have di: "ab_decode ?I opt' ei [?n] = Inr ?i" for opt'
  proof -
    obtain b' where b': "ab_decode ?I opt' ei [?n] = Inr b'" "ab_ok (PlainType (SizeFixed w)) ?n b'"
        "vals (PlainType (SizeFixed w)) b' = vals (PlainType (SizeFixed w)) ?i"
      using index.decoded_vals[OF a(5) ei] by auto
    moreover have "ab_ok (PlainType (SizeFixed w)) ?n ?i" using index.accepted[OF a(5)] by simp
    ultimately show ?thesis using plain_vals_inj by metis
  qed
  obtain ed where ed: "(if length d \<noteq> 0 then ab_encode ?D opt (FixedBytes d) [length d] else Inr []) = Inr ed"
      "\<And>opt'. (if length d \<noteq> 0 then bind_res (ab_decode ?D opt' ed [length d]) into_fixed else Inr []) = Inr d"
  proof (cases "d = []")
    case True
    then show ?thesis using that[of "[]"] by simp
  next
    case False
    then have acc: "dacc [length d] (FixedBytes d)" using a(6) by simp
    obtain ed where ed: "ab_encode ?D opt (FixedBytes d) [length d] = Inr ed" using data.roundtrip[OF acc] by blast
    have "ab_decode ?D opt' ed [length d] = Inr (FixedBytes d)" for opt'
    proof -
      obtain b' where "ab_decode ?D opt' ed [length d] = Inr b'" "ab_ok uint8 (length d) b'" "vals uint8 b' = vals uint8 (FixedBytes d)"
        using data.decoded_vals[OF acc ed] by auto
      moreover have "ab_ok uint8 (length d) (FixedBytes d)" using data.accepted[OF acc] by simp
      ultimately show ?thesis using plain_vals_inj unfolding uint8_def by metis
    qed
    then show ?thesis using that[of ed] ed False by simp
  qed
  have small: "8 + length ei + length ed < M64"
    using assms ei ed(1) unfolding vlen_accepts_def b by (auto split: if_splits)
  define e where "e = (case vl_index_location V of VlenStart \<Rightarrow> word_le_bytes 8 (length ei) @ ei @ ed
     | VlenEnd \<Rightarrow> ed @ ei @ word_le_bytes 8 (length ei))"
  have enc: "vlen_encode V opt b s = Inr e"
    using v ws ei ed(1) n by (simp add: vlen_encode_def b e_def)
  have parts: "vlen_parts (vl_index_location V) e = Inr (ei, ed)"
    using vlen_parts_ok[OF small] by (cases "vl_index_location V") (simp_all add: e_def)
  have offs: "vlen_index_offsets V (index_words os) = Inr os"
    using words native words_inverse[OF offsets_below(1)[OF a(3,4)]]
    by (auto simp: vlen_index_offsets_def uint32_def uint64_def)
  have os: "os \<noteq> []" "last os = length d" using a(3) by (auto simp: vlen_ok_def)
  have "\<not> list_ex (\<lambda>(cur, next). next < cur \<or> length d < next) (zip os (tl os))"
    using vlen_offsets_le[OF a(3)] n(3)
    by (auto simp: list_ex_length nth_tl not_less not_le[symmetric])
  then have "get_vlen_bytes_and_offsets V opt' e s = Inr (d, os)" for opt'
    using n parts di[of opt'] offs os ed(2)[of opt'] by (simp add: get_vlen_bytes_and_offsets_def)
  moreover have "length e < M64" using small by (cases "vl_index_location V") (simp_all add: e_def)
  ultimately show ?thesis using that[OF b a(3) enc] by blast
qed

lemma vlen_encoded:
  assumes "vlen_accepts s b" and "ab_encode (vlen_array_codec V) opt b s = Inr e"
  obtains d os where "b = VariableBytes d os" and "vlen_ok (prod_list s) d os"
    and "\<And>opt'. get_vlen_bytes_and_offsets V opt' e s = Inr (d, os)"
proof (rule vlen_accepted[OF assms(1), of opt])
  fix d os e'
  assume *: "b = VariableBytes d os" "vlen_ok (prod_list s) d os" "vlen_encode V opt b s = Inr e'"
    "\<And>opt'. get_vlen_bytes_and_offsets V opt' e' s = Inr (d, os)"
  then have "e' = e" using assms(2) by (simp add: vlen_array_codec_def)
  then show thesis using that * by blast
qed

lemma vlen_partial_default: "vlen_partial_decode V opt d s x =
   default_array_partial_decode (vl_data_type V) (vl_fill_value V) (plain_decode (get_vlen_bytes_and_offsets V opt)) d s x"
  by (simp add: vlen_partial_decode_def default_array_partial_decode_def extract_plain cong: option.case_cong)

sublocale vlen: array_to_bytes_codec "vlen_array_codec V" "PlainType SizeVariable" "vl_fill_value V" vlen_accepts interval_range AnyIndexer
proof (unfold_locales, goal_cases)
  case (1 s b)
  then show ?case
    by (auto simp: vlen_accepts_def vlen_array_codec_def vlen_recommended_concurrency_def vlen_encoded_representation_def variable
        split: array_bytes.splits)
next
  case (2 s b opt)
  obtain d os e where "b = VariableBytes d os" "vlen_ok (prod_list s) d os" "vlen_encode V opt b s = Inr e" "length e < M64"
      "\<And>opt'. get_vlen_bytes_and_offsets V opt' e s = Inr (d, os)"
    using vlen_accepted[OF 2] by metis
  then show ?case using 2 by (simp add: vlen_array_codec_def vlen_decode_def offsets_and_bytes_ok)
next
  case (3 s b opt e a q T opt')
  obtain d os where d: "b = VariableBytes d os" "vlen_ok (prod_list s) d os"
      "\<And>opt'. get_vlen_bytes_and_offsets V opt' e s = Inr (d, os)"
    using vlen_encoded[OF 3(1,2)] by metis
  then have "vlen_decode V opt' e s = Inr b" by (simp add: vlen_decode_def offsets_and_bytes_ok)
  from default_into_vals[where t = "PlainType SizeVariable" and dec = "vlen_decode V opt'" and b = b, OF 3(3,4) _ this]
  show ?case using d(1,2) by (simp add: vlen_array_codec_def)
next
  case (4 s b opt e d opt')
  obtain c os where c: "b = VariableBytes c os" "vlen_ok (prod_list s) c os"
      "\<And>opt'. get_vlen_bytes_and_offsets V opt' e s = Inr (c, os)"
    using vlen_encoded[OF 4(1,2)] by metis
  have s: "shape_ok s" using 4(1) by (simp add: vlen_accepts_def)
  have "plain_decode (get_vlen_bytes_and_offsets V opt') e s = Inr b" using c by (simp add: plain_decode_def)
  from default_partial_some[where t = "PlainType SizeVariable" and b = b and
      dec = "plain_decode (get_vlen_bytes_and_offsets V opt')", OF 4(3) _ this s]
  show ?case using c(1,2) by (simp add: vlen_array_codec_def reads_array_def vlen_partial_default variable)
next
  case (5 s b opt e d opt')
  have s: "shape_ok s" using 5(1) by (simp add: vlen_accepts_def)
  from default_partial_none[OF 5(3) _ s] 5(4) show ?case
    by (simp add: vlen_array_codec_def reads_array_def vlen_partial_default fill_ready_def fill_vals_indexed variable)
qed

lemma vlen_correct:
  assumes "vlen_accepts s b"
  shows "\<exists>e. vlen_encode V opt b s = Inr e \<and> (\<forall>opt'. vlen_decode V opt' e s = Inr b) \<and>
     (\<forall>opt' d. reads_on interval_range d e \<longrightarrow>
        reads_array AnyIndexer (PlainType SizeVariable) (vlen_partial_decode V opt' d s) s (vals (PlainType SizeVariable) b))"
proof -
  obtain d os e where e: "b = VariableBytes d os" "vlen_ok (prod_list s) d os" "vlen_encode V opt b s = Inr e"
      "\<And>opt'. get_vlen_bytes_and_offsets V opt' e s = Inr (d, os)"
    using vlen_accepted[OF assms] by metis
  have "ab_encode (vlen_array_codec V) opt b s = Inr e" using e(3) by (simp add: vlen_array_codec_def)
  from vlen.partial[OF assms this]
  have "reads_array AnyIndexer (PlainType SizeVariable) (vlen_partial_decode V opt' d s) s (vals (PlainType SizeVariable) b)"
    if "reads_on interval_range d e" for opt' d using that by (fastforce simp: vlen_array_codec_def)
  then show ?thesis using e by (simp add: vlen_decode_def offsets_and_bytes_ok)
qed

end

subsection \<open>The codec with codecs of the library\<close>

text \<open>Offsets as little-endian words and data as bytes, both with a checksum.\<close>

fun offset_size :: "vlen_index_data_type \<Rightarrow> nat" where
  "offset_size VlenUInt32 = 4"
| "offset_size VlenUInt64 = 8"

definition offset_bound :: "endianness \<Rightarrow> vlen_index_data_type \<Rightarrow> bytes_bound" where
  "offset_bound native it = \<lparr>by_native = native, by_component_size = offset_size it, by_endian = Some LittleEndian,
     by_data_type = PlainType (SizeFixed (offset_size it)), by_fill_value = replicate (offset_size it) 0\<rparr>"

definition byte_bound :: "endianness \<Rightarrow> bytes_bound" where
  "byte_bound native = \<lparr>by_native = native, by_component_size = 1, by_endian = None, by_data_type = uint8, by_fill_value = [0]\<rparr>"

definition checked_vlen ::
    "(bytes \<Rightarrow> 32 word) \<Rightarrow> vlen_index_data_type \<Rightarrow> vlen_index_location \<Rightarrow> fill_value \<Rightarrow> vlen_bound" where
  "checked_vlen crc it location fv =
     \<lparr>vl_index_codecs = chain_array_codec (checked_chain (offset_bound LittleEndian it) crc),
      vl_data_codecs = chain_array_codec (checked_chain (byte_bound LittleEndian) crc),
      vl_index_location = location, vl_data_type = PlainType SizeVariable, vl_fill_value = fv, vl_native = LittleEndian\<rparr>"

definition bind_checked :: "(bytes \<Rightarrow> 32 word) \<Rightarrow> bytes_bound \<Rightarrow> data_type \<Rightarrow> fill_value \<Rightarrow> codec_error + array_codec" where
  "bind_checked crc B t fv =
     bind_res (chain_with_context \<lparr>cc_array_to_array = [], cc_array_to_bytes = bytes_unbound B,
       cc_bytes_to_bytes = [crc32c_codec crc LocationEnd]\<rparr> t fv) (\<lambda>K. Inr (chain_array_codec K))"

lemma checked_vlen_binds:
  "vlen_with_context LittleEndian (bind_checked crc (offset_bound LittleEndian it)) (bind_checked crc (byte_bound LittleEndian))
     it location (PlainType SizeVariable) fv = Inr (checked_vlen crc it location fv)"
proof -
  have "bind_checked crc B (by_data_type B) (by_fill_value B) = Inr (chain_array_codec (checked_chain B crc))"
    if "\<not> is_optional (by_data_type B)" for B
    by (simp add: bind_checked_def checked_chain_binds[OF that])
  from this[of "byte_bound LittleEndian"] this[of "offset_bound LittleEndian it"] show ?thesis
    by (cases it) (simp_all add: vlen_with_context_def checked_vlen_def byte_bound_def offset_bound_def uint8_def uint32_def
        uint64_def is_optional_def eval_nat_numeral)
qed

interpretation checked_vlen: vlen_codec "checked_vlen crc it location fv" "offset_size it"
  "checked.chain_accepts (offset_bound LittleEndian it) crc" interval_range AnyIndexer
  "checked.chain_accepts (byte_bound LittleEndian) crc" interval_range AnyIndexer
  for crc it location fv
proof (rule vlen_codec.intro, goal_cases)
  case 1
  show ?case
    using checked.chain.array_to_bytes_codec_axioms[of "offset_bound LittleEndian it" crc]
    by (simp add: checked_vlen_def chain_array_codec_parts checked_chain_parts offset_bound_def)
next
  case 2
  show ?case
    using checked.chain.array_to_bytes_codec_axioms[of "byte_bound LittleEndian" crc]
    by (simp add: checked_vlen_def chain_array_codec_parts checked_chain_parts byte_bound_def)
next
  case 3
  show ?case
    by unfold_locales (cases it; simp add: checked_vlen_def chain_array_codec_parts checked_chain_parts offset_bound_def)+
qed

subsection \<open>Properties\<close>

text \<open>
  Property C11.  \<open>vlen_v2\<close>: a chunk of variable-length elements whose number and lengths fit 32 bits is encoded, decoded to the same
  elements, and partially decoded to the elements of any indexer, from any reader of byte ranges.
\<close>

theorem vlen_v2_codec_correct:
  assumes "vlen_v2_accepts V s b"
  shows "\<exists>e. vlen_v2_encode V b s = Inr e \<and>
     (\<exists>b'. vlen_v2_decode e s = Inr b' \<and> vals (v2_data_type V) b' = vals (v2_data_type V) b) \<and>
     (\<forall>d. reads_on interval_range d e \<longrightarrow> reads_array AnyIndexer (v2_data_type V) (vlen_v2_partial_decode V d s) s (vals (v2_data_type V) b))"
proof -
  obtain e where e: "ab_encode (vlen_v2_array_codec V) opt b s = Inr e" for opt
    using vlen_v2.roundtrip[OF assms] by (auto simp: vlen_v2_array_codec_def)
  show ?thesis
    using vlen_v2.decoded_vals[OF assms e] vlen_v2.partial[OF assms e] e by (fastforce simp: vlen_v2_array_codec_def)
qed

theorem vlen_v2_codec_correct_witness:
  "\<exists>e b'. vlen_v2_encode \<lparr>v2_data_type = PlainType SizeVariable, v2_fill_value = []\<rparr> (VariableBytes [9, 1, 2, 3] [1, 3, 3, 4]) [3] = Inr e \<and>
     vlen_v2_decode e [3] = Inr b' \<and> vals (PlainType SizeVariable) b' = [Raw [1, 2], Raw [], Raw [3]]"
proof -
  let ?V = "\<lparr>v2_data_type = PlainType SizeVariable, v2_fill_value = []\<rparr>" and ?b = "VariableBytes [9, 1, 2, 3] [1, 3, 3, 4]"
  have "vlen_v2_accepts ?V [3] ?b"
    by (simp add: vlen_v2_accepts_def shape_ok_def vlen_ok_def vlen_items_def M64_def upt_rec)
  moreover have "vals (PlainType SizeVariable) ?b = [Raw [1, 2], Raw [], Raw [3]]"
    by (simp add: variable_vals vlen_items_def upt_rec)
  ultimately show ?thesis using vlen_v2_codec_correct[of ?V "[3]" ?b] by auto
qed



subsection \<open>What the codecs do not handle\<close>

text \<open>An element whose length reaches beyond the bytes, and an index length that does: the decoders panic.\<close>

lemma vlen_v2_short_element_panics: "vlen_v2_decode [1, 0, 0, 0, 5, 0, 0, 0] [1] = Inl CodecPanic"
proof -
  have "wprod [Suc 0] = 1" by (simp add: wprod_eq M64_def)
  then show ?thesis
    by (simp add: vlen_v2_decode_def get_interleaved_bytes_and_offsets_def slice_def wmul_def wadd_def M64_def Let_def)
qed

lemma vlen_index_length_panics: "vl_index_location V = VlenStart \<Longrightarrow> vlen_decode V opt [9, 0, 0, 0, 0, 0, 0, 0] [1] = Inl CodecPanic"
  by (simp add: vlen_decode_def get_vlen_bytes_and_offsets_def vlen_parts_def split_at_def wadd_def wprod_eq M64_def)

text \<open>On a big-endian machine the decoded offsets are reversed although the index codecs have made them native already.\<close>

lemma vlen_big_endian_offsets:
  assumes "vl_native V = BigEndian" and "ab_data_type (vl_index_codecs V) = uint64"
  shows "vlen_index_words V [0, 1] = Inr [0, 0, 0, 0, 0, 0, 0, 0, 0, 0, 0, 0, 0, 0, 0, 1]"
    and "vlen_index_offsets V [0, 0, 0, 0, 0, 0, 0, 0, 0, 0, 0, 0, 0, 0, 0, 1] = Inr [0, 72057594037927936]"
proof -
  show "vlen_index_words V [0, 1] = Inr [0, 0, 0, 0, 0, 0, 0, 0, 0, 0, 0, 0, 0, 0, 0, 1]"
    using assms by (simp add: vlen_index_words_def uint32_def uint64_def word_ne_bytes_def word_le_bytes_def upt_rec)
  have "chunks_exact 8 [0, 0, 0, 0, 0, 0, 0, 0, 0, 0, 0, 0, 0, 0, 0, 1 :: 8 word] =
      [[0, 0, 0, 0, 0, 0, 0, 0], [0, 0, 0, 0, 0, 0, 0, 1]]"
    by (simp add: chunks_exact.simps)
  moreover have "chunks_exact 8 [0, 0, 0, 0, 0, 0, 0, 0, 1, 0, 0, 0, 0, 0, 0, 0 :: 8 word] =
      [[0, 0, 0, 0, 0, 0, 0, 0], [1, 0, 0, 0, 0, 0, 0, 0]]"
    by (simp add: chunks_exact.simps)
  ultimately show "vlen_index_offsets V [0, 0, 0, 0, 0, 0, 0, 0, 0, 0, 0, 0, 0, 0, 0, 1] = Inr [0, 72057594037927936]"
    using assms by (simp add: vlen_index_offsets_def uint32_def uint64_def fixed_size_def reverse_components_def
        words_from_bytes_def from_ne_bytes_def)
qed

subsection \<open>A cache before the decoder of a transposition\<close>

text \<open>
  The codecs of variable-length elements decode as a whole, so the cache of the partial decoder is behind them; in a transposed chain it is
  then directly before the transposition, where it is given the shape of the chunk and not of the transposed chunk: a chunk of shape [1, 2]
  is encoded and decoded, but it has no partial decoder.
\<close>

definition vlen_v2_unbound :: unbound_array_bytes where
  "vlen_v2_unbound =
     \<lparr>ub_with_context = (\<lambda>t fv. bind_res (vlen_v2_with_context t fv) (\<lambda>V. Inr (vlen_v2_array_codec V))),
      ub_capability = \<lparr>can_partial_read = False, can_partial_decode = False\<rparr>\<rparr>"

definition transposed_vlen :: "fill_value \<Rightarrow> codec_chain_bound" where
  "transposed_vlen fv =
     \<lparr>cb_array_to_array = [transpose_codec nd_positions \<lparr>tr_order = [1, 0], tr_data_type = PlainType SizeVariable, tr_fill_value = fv\<rparr>],
      cb_array_to_bytes = vlen_v2_array_codec \<lparr>v2_data_type = PlainType SizeVariable, v2_fill_value = fv\<rparr>, cb_bytes_to_bytes = [],
      cb_cache_index = Some 1\<rparr>"

lemma transposed_vlen_binds:
  "chain_with_context \<lparr>cc_array_to_array = [transpose_unbound nd_positions [1, 0]], cc_array_to_bytes = vlen_v2_unbound, cc_bytes_to_bytes = []\<rparr>
     (PlainType SizeVariable) fv = Inr (transposed_vlen fv)"
  by (simp add: chain_with_context_def vlen_v2_unbound_def transpose_unbound_def transpose_with_context_def vlen_v2_with_context_def
      transposed_vlen_def is_optional_def transpose_codec_def cache_index_of_def)

lemma swapped_pair_positions: "nd_positions [1, 2] [1, 0] = [0, 1]" "nd_positions [2, 1] [1, 0] = [0, 1]"
  by (code_simp, code_simp)
lemma transpose_pair: "transpose_encode nd_positions \<lparr>tr_order = [1, 0], tr_data_type = PlainType SizeVariable, tr_fill_value = fv\<rparr>
     (VariableBytes [7, 8] [0, 1, 2]) [1, 2] = Inr (VariableBytes [7, 8] [0, 1, 2])"
  using swapped_pair_positions by (simp add: transpose_encode_def transpose_validate_def is_optional_def transpose_vlen_def validate_bytes_vlen_def M64_def wprod_def wadd_def
     vlen_item_def wmul_def slice_def)
lemma vlen_v2_pair:
  obtains e where "vlen_v2_encode \<lparr>v2_data_type = PlainType SizeVariable, v2_fill_value = fv\<rparr> (VariableBytes [7, 8] [0, 1, 2]) [2, 1] = Inr e"
    and "get_interleaved_bytes_and_offsets (wprod [2, 1]) e = Inr ([7, 8], [0, 1, 2])" and "length e < M64"
proof -
  have "vlen_v2_accepts \<lparr>v2_data_type = PlainType SizeVariable, v2_fill_value = fv\<rparr> [2, 1] (VariableBytes [7, 8] [0, 1, 2])"
    by (simp add: vlen_v2_accepts_def shape_ok_def vlen_ok_def vlen_items_def M64_def upt_rec)
  from vlen_v2_accepted[OF this] obtain xs where xs:
      "vals (PlainType SizeVariable) (VariableBytes [7, 8] [0, 1, 2]) = map Raw xs"
      "vlen_v2_encode \<lparr>v2_data_type = PlainType SizeVariable, v2_fill_value = fv\<rparr> (VariableBytes [7, 8] [0, 1, 2]) [2, 1] =
         Inr (word_le_bytes 4 (length xs) @ interleaved xs)"
      "length (word_le_bytes 4 (length xs) @ interleaved xs) < M64"
      "get_interleaved_bytes_and_offsets (wprod [2, 1]) (word_le_bytes 4 (length xs) @ interleaved xs) = Inr (concat xs, offsets_of 0 xs)"
    by (metis vlen_v2_bound.select_convs(1))
  have "map Raw xs = map Raw [[7], [8]]" using xs(1) by (simp add: variable_vals vlen_items_def upt_rec)
  then have "xs = [[7], [8]]" by (rule map_injective) (simp add: inj_on_def)
  then show ?thesis using that[OF xs(2) _ xs(3)] xs(4) by simp
qed

lemma transpose_pair_back: "transpose_decode nd_positions \<lparr>tr_order = [1, 0], tr_data_type = PlainType SizeVariable, tr_fill_value = fv\<rparr>
     (VariableBytes [7, 8] [0, 1, 2]) [1, 2] = Inr (VariableBytes [7, 8] [0, 1, 2])"
  using swapped_pair_positions by (simp add: transpose_decode_def transpose_validate_def is_optional_def transpose_vlen_def validate_bytes_vlen_def M64_def wprod_def wadd_def
     vlen_item_def wmul_def slice_def permute_expect_def permute_def inverse_permutation_def enumerate_eq_zip upt_rec)

lemma cache_before_transpose_fails:
  "array_cache_between (transposed_vlen fv)"
  "\<exists>e. chain_encode (transposed_vlen fv) opt (VariableBytes [7, 8] [0, 1, 2]) [1, 2] = Inr e \<and>
     chain_decode (transposed_vlen fv) opt e [1, 2] = Inr (VariableBytes [7, 8] [0, 1, 2]) \<and>
     chain_partial_decoder (transposed_vlen fv) opt (vec_decoder e) [1, 2] = Inl (IncompatibleIndexer (OutOfBounds [1, 2] [2, 1]))"
proof -
  note parts = transposed_vlen_def transpose_codec_def vlen_v2_array_codec_def chain_data_type_def chain_fill_value_def
  have w: "wprod [1, 2] = 2" "wprod [2, 1] = 2" by (simp_all add: wprod_def wmul_def M64_def)
  have v: "validate_bytes (VariableBytes [7, 8] [0, 1, 2]) 2 (PlainType SizeVariable) = Inr ()"
    by (simp add: validate_bytes_vlen_def wadd_def M64_def is_optional_def)
  have s: "transpose_encoded_shape \<lparr>tr_order = [1, 0], tr_data_type = PlainType SizeVariable, tr_fill_value = fv\<rparr> [1, 2] = Inr [2, 1]"
    by (simp add: transpose_encoded_shape_def permute_expect_def permute_def)
  have r: "get_representations (transposed_vlen fv) [1, 2] =
      Inr ([([1, 2], PlainType SizeVariable, fv), ([2, 1], PlainType SizeVariable, fv)], [UnboundedSize])"
    using s by (simp add: get_representations_def get_array_representations_def get_bytes_representations_def parts
        vlen_v2_encoded_representation_def)
  obtain e where e: "vlen_v2_encode \<lparr>v2_data_type = PlainType SizeVariable, v2_fill_value = fv\<rparr> (VariableBytes [7, 8] [0, 1, 2]) [2, 1] = Inr e"
      "get_interleaved_bytes_and_offsets (wprod [2, 1]) e = Inr ([7, 8], [0, 1, 2])" "length e < M64"
    by (rule vlen_v2_pair)
  show "array_cache_between (transposed_vlen fv)" by (simp add: array_cache_between_def transposed_vlen_def)
  have 1: "chain_encode (transposed_vlen fv) opt (VariableBytes [7, 8] [0, 1, 2]) [1, 2] = Inr e"
    using transpose_pair[of fv] e(1) v s w by (simp add: chain_encode_def parts vlen_v2_encoded_representation_def)
  have "offsets_and_bytes ([7, 8], [0, 1, 2]) = Inr (VariableBytes [7, 8] [0, 1, 2])"
    by (rule offsets_and_bytes_ok[of 2]) (simp add: vlen_ok_def M64_def)
  then have 2: "chain_decode (transposed_vlen fv) opt e [1, 2] = Inr (VariableBytes [7, 8] [0, 1, 2])"
    using r transpose_pair_back[of fv] e(2) v w
    by (simp add: chain_decode_def bytes_stages_def array_stages_def parts vlen_v2_decode_def)
  have d: "decode_all (vec_decoder e) = Inr (Some e)"
    by (rule decode_all_vec[OF e(3)])
  have l: "linearised_of (SubsetIndexer (new_with_shape [1, 2])) [2, 1] = Inl (IncompatibleIndexer (OutOfBounds [1, 2] [2, 1]))"
    by (simp add: linearised_of_def subset_linearised_def linearised_new_def new_with_shape_def end_exc_def dimensionality_def wadd_def M64_def)
  have "partial_arrays (Some 1) opt [(transpose_codec nd_positions \<lparr>tr_order = [1, 0], tr_data_type = PlainType SizeVariable, tr_fill_value = fv\<rparr>,
        [1, 2], PlainType SizeVariable, fv)] 1 (vlen_v2_partial_decode \<lparr>v2_data_type = PlainType SizeVariable, v2_fill_value = fv\<rparr> (vec_decoder e) [2, 1]) =
      Inl (IncompatibleIndexer (OutOfBounds [1, 2] [2, 1]))"
    using e(2) d l by (simp add: with_array_cache_def array_cache_new_def vlen_v2_partial_decode_def extract_decoded_regions_vlen_def)
  then have 3: "chain_partial_decoder (transposed_vlen fv) opt (vec_decoder e) [1, 2] = Inl (IncompatibleIndexer (OutOfBounds [1, 2] [2, 1]))"
    using r
    by (simp add: chain_partial_decoder_def bytes_stages_def array_stages_def transposed_vlen_def vlen_v2_array_codec_def with_bytes_cache_def)
  show "\<exists>e. chain_encode (transposed_vlen fv) opt (VariableBytes [7, 8] [0, 1, 2]) [1, 2] = Inr e \<and>
     chain_decode (transposed_vlen fv) opt e [1, 2] = Inr (VariableBytes [7, 8] [0, 1, 2]) \<and>
     chain_partial_decoder (transposed_vlen fv) opt (vec_decoder e) [1, 2] = Inl (IncompatibleIndexer (OutOfBounds [1, 2] [2, 1]))"
    using 1 2 3 by blast
qed

end
