(* ===== verification/Reshape_Codecs.thy ===== *)
theory Reshape_Codecs
  imports Chain_Laws
begin

text \<open>
  The codecs that change the shape of a chunk and keep its bytes: \<open>squeeze\<close> (\<open>zarrs/src/array/codec/array_to_array/squeeze.rs\<close>,
  \<open>squeeze/squeeze_codec.rs\<close>, \<open>squeeze/squeeze_codec_partial.rs\<close>), which drops the dimensions of size 1, and \<open>reshape\<close>
  (\<open>reshape.rs\<close>, \<open>reshape/reshape_codec.rs\<close>, \<open>reshape/reshape_codec_partial.rs\<close>), whose new shape is given by its
  configuration (\<open>zarrs_metadata_ext/src/codec/registered/reshape.rs\<close>).  Subchunk grids are not modelled.
\<close>

subsection \<open>Squeeze\<close>

record squeeze_bound =
  sq_data_type :: data_type
  sq_fill_value :: fill_value

definition squeeze_encoded_shape :: "chunk_shape \<Rightarrow> codec_error + chunk_shape" where
  "squeeze_encoded_shape decoded_shape =
     (let encoded_shape = filter (\<lambda>dim. 1 < dim) decoded_shape in
      if encoded_shape = [] then Inr [1] else Inr encoded_shape)"

definition get_squeezed_array_subset :: "array_subset \<Rightarrow> chunk_shape \<Rightarrow> codec_error + array_subset" where
  "get_squeezed_array_subset decoded_region s =
     (if dimensionality decoded_region \<noteq> length s
      then Inl (IncompatibleIndexer (IndexerIncompatibleDimensionality (dimensionality decoded_region) (length s)))
      else
        Inr (from_ranges (map (\<lambda>(rstart, rshape, _). (rstart, wadd rstart rshape))
          (filter (\<lambda>(_, _, dim). 1 < dim) (zip (sub_start decoded_region) (zip (sub_shape decoded_region) s))))))"

definition squeeze_indices :: "chunk_shape \<Rightarrow> array_indices \<Rightarrow> codec_error + array_indices" where
  "squeeze_indices s indices =
     (if length indices = length s then Inr (map fst (filter (\<lambda>(_, dim). 1 < dim) (zip indices s)))
      else Inl (IncompatibleIndexer (IndexerIncompatibleDimensionality (length indices) (length s))))"

definition get_squeezed_indexer :: "indexer \<Rightarrow> chunk_shape \<Rightarrow> codec_error + indexer" where
  "get_squeezed_indexer x s =
     (case ix_indices x of
        None \<Rightarrow> Inl CodecPanic
      | Some ids \<Rightarrow> bind_res (collect_res (map (squeeze_indices s) ids)) (\<lambda>ids. Inr (IndicesIndexer ids)))"

definition squeezed_indexer :: "chunk_shape \<Rightarrow> indexer \<Rightarrow> codec_error + indexer" where
  "squeezed_indexer s x =
     (case ix_as_array_subset x of
        Some r \<Rightarrow> bind_res (get_squeezed_array_subset r s) (\<lambda>r. Inr (SubsetIndexer r))
      | None \<Rightarrow> get_squeezed_indexer x s)"

definition squeeze_partial_decode :: "chunk_shape \<Rightarrow> array_decoder \<Rightarrow> array_decoder" where
  "squeeze_partial_decode s d x = bind_res (squeezed_indexer s x) d"

text \<open>\<open>partial_encode\<close>, where \<open>enc\<close> is the one of the input/output handle.\<close>

definition squeeze_partial_encode ::
    "chunk_shape \<Rightarrow> (indexer \<Rightarrow> array_bytes \<Rightarrow> codec_error + 'v) \<Rightarrow> indexer \<Rightarrow> array_bytes \<Rightarrow> codec_error + 'v" where
  "squeeze_partial_encode s enc x b = bind_res (squeezed_indexer s x) (\<lambda>x. enc x b)"

definition squeeze_codec :: "squeeze_bound \<Rightarrow> array_array_codec" where
  "squeeze_codec Q =
     \<lparr>aa_data_type = sq_data_type Q, aa_fill_value = sq_fill_value Q,
      aa_encoded_data_type = sq_data_type Q, aa_encoded_fill_value = sq_fill_value Q,
      aa_encoded_shape = squeeze_encoded_shape,
      aa_recommended_concurrency = (\<lambda>_. Inr (recommended_new 0 1)),
      aa_encode = (\<lambda>_ b _. Inr b), aa_decode = (\<lambda>_ b _. Inr b),
      aa_partial_decoder = (\<lambda>_ d s. Inr (squeeze_partial_decode s d))\<rparr>"

definition squeeze_with_context :: "data_type \<Rightarrow> fill_value \<Rightarrow> codec_error + array_array_codec" where
  "squeeze_with_context t fv = Inr (squeeze_codec \<lparr>sq_data_type = t, sq_fill_value = fv\<rparr>)"

subsection \<open>Reshape\<close>

datatype reshape_dim = ReshapeSize u64 | ReshapeInputDims "u64 list" | ReshapeAuto

text \<open>\<open>ReshapeShape::new\<close>: the dimensions of the input are named in increasing order, and at most one is determined automatically.\<close>

fun reshape_inputs_increasing :: "u64 list \<Rightarrow> u64 \<Rightarrow> u64 option" where
  "reshape_inputs_increasing [] dim_idx = Some dim_idx"
| "reshape_inputs_increasing (dim # dims) dim_idx =
     (if dim < dim_idx then None else reshape_inputs_increasing dims (wadd (max dim_idx dim) 1))"

fun validate_shape_loop :: "reshape_dim list \<Rightarrow> u64 \<Rightarrow> bool \<Rightarrow> bool" where
  "validate_shape_loop [] dim_idx has_auto \<longleftrightarrow> True"
| "validate_shape_loop (ReshapeSize _ # dims) dim_idx has_auto \<longleftrightarrow> validate_shape_loop dims (wadd dim_idx 1) has_auto"
| "validate_shape_loop (ReshapeInputDims inputs # dims) dim_idx has_auto \<longleftrightarrow>
     (case reshape_inputs_increasing inputs dim_idx of
        None \<Rightarrow> False
      | Some dim_idx \<Rightarrow> validate_shape_loop dims dim_idx has_auto)"
| "validate_shape_loop (ReshapeAuto # dims) dim_idx has_auto \<longleftrightarrow>
     (if has_auto then False else validate_shape_loop dims (wadd dim_idx 1) True)"

definition reshape_shape_new :: "reshape_dim list \<Rightarrow> reshape_dim list + reshape_dim list" where
  "reshape_shape_new dims = (if validate_shape_loop dims 0 False then Inr dims else Inl dims)"

fun reshape_product :: "chunk_shape \<Rightarrow> u64 list \<Rightarrow> u64 \<Rightarrow> codec_error + u64" where
  "reshape_product decoded_shape [] p = Inr p"
| "reshape_product decoded_shape (input_dim # dims) p =
     (if length decoded_shape \<le> input_dim
      then Inl (CodecOther ''reshape codec shape references a dimension larger than the chunk dimensionality'')
      else case checked_mul p (decoded_shape ! input_dim) of
          None \<Rightarrow> Inl (CodecOther ''reshape codec encoded dimension overflows u64'')
        | Some p \<Rightarrow> reshape_product decoded_shape dims p)"

text \<open>The state of the loop: the encoded shape and the index of the dimension to determine.\<close>

fun reshape_dims ::
    "chunk_shape \<Rightarrow> reshape_dim list \<Rightarrow> chunk_shape \<Rightarrow> usize option \<Rightarrow> codec_error + (chunk_shape \<times> usize option)" where
  "reshape_dims decoded_shape [] encoded_shape fill_index = Inr (encoded_shape, fill_index)"
| "reshape_dims decoded_shape (ReshapeSize sz # dims) encoded_shape fill_index =
     reshape_dims decoded_shape dims (encoded_shape @ [sz]) fill_index"
| "reshape_dims decoded_shape (ReshapeInputDims input_dims # dims) encoded_shape fill_index =
     bind_res (reshape_product decoded_shape input_dims 1) (\<lambda>product.
       reshape_dims decoded_shape dims (encoded_shape @ [product]) fill_index)"
| "reshape_dims decoded_shape (ReshapeAuto # dims) encoded_shape fill_index =
     reshape_dims decoded_shape dims (encoded_shape @ [1]) (Some (length encoded_shape))"

definition reshape_num_elements :: "chunk_shape \<Rightarrow> codec_error + u64" where
  "reshape_num_elements s =
     (case try_product 1 s of
        None \<Rightarrow> Inl (CodecOther ''reshape codec shape element count overflows u64'')
      | Some n \<Rightarrow> Inr n)"

definition get_encoded_shape :: "reshape_dim list \<Rightarrow> chunk_shape \<Rightarrow> codec_error + chunk_shape" where
  "get_encoded_shape reshape_shape decoded_shape =
     bind_res (reshape_dims decoded_shape reshape_shape [] None) (\<lambda>(encoded_shape, fill_index).
     bind_res (reshape_num_elements decoded_shape) (\<lambda>num_elements_input.
     bind_res (reshape_num_elements encoded_shape) (\<lambda>num_elements_output.
       case fill_index of
         Some fill_index \<Rightarrow>
           if num_elements_input mod num_elements_output = 0
           then (let quot = num_elements_input div num_elements_output in
                 if quot = 0 then Inl CodecPanic else Inr (encoded_shape[fill_index := quot]))
           else Inl (CodecOther ''reshape codec no substitution for dim can satisfy decoded_shape == encoded_shape'')
       | None \<Rightarrow>
           if num_elements_input \<noteq> num_elements_output
           then Inl (CodecOther ''reshape codec encoded/decoded number of elements differ'')
           else Inr encoded_shape)))"

definition reshape_index :: "chunk_shape \<Rightarrow> u64 \<Rightarrow> codec_error + array_indices" where
  "reshape_index encoded_shape linear_index =
     (case unravel_index linear_index encoded_shape of
        None \<Rightarrow> Inl (CodecOther ''reshape codec encoded/decoded number of elements differ'')
      | Some i \<Rightarrow> Inr i)"

definition get_reshaped_indexer :: "indexer \<Rightarrow> chunk_shape \<Rightarrow> chunk_shape \<Rightarrow> codec_error + indexer" where
  "get_reshaped_indexer x decoded_shape encoded_shape =
     (if ix_dimensionality x \<noteq> length decoded_shape
      then Inl (IncompatibleIndexer (IndexerIncompatibleDimensionality (ix_dimensionality x) (length decoded_shape)))
      else
        bind_res (linearised_of x decoded_shape) (\<lambda>linear.
        bind_res (collect_res (map (reshape_index encoded_shape) linear)) (\<lambda>ids. Inr (IndicesIndexer ids))))"

record reshape_bound =
  re_shape :: "reshape_dim list"
  re_data_type :: data_type
  re_fill_value :: fill_value

definition reshape_partial_decode :: "chunk_shape \<Rightarrow> chunk_shape \<Rightarrow> array_decoder \<Rightarrow> array_decoder" where
  "reshape_partial_decode decoded_shape encoded_shape d x = bind_res (get_reshaped_indexer x decoded_shape encoded_shape) d"

definition reshape_partial_encode ::
    "chunk_shape \<Rightarrow> chunk_shape \<Rightarrow> (indexer \<Rightarrow> array_bytes \<Rightarrow> codec_error + 'v) \<Rightarrow> indexer \<Rightarrow> array_bytes \<Rightarrow> codec_error + 'v" where
  "reshape_partial_encode decoded_shape encoded_shape enc x b =
     bind_res (get_reshaped_indexer x decoded_shape encoded_shape) (\<lambda>x. enc x b)"

text \<open>\<open>new_partial\<close>\<close>

definition reshape_partial_decoder :: "reshape_bound \<Rightarrow> array_decoder \<Rightarrow> chunk_shape \<Rightarrow> codec_error + array_decoder" where
  "reshape_partial_decoder P d decoded_shape =
     bind_res (get_encoded_shape (re_shape P) decoded_shape) (\<lambda>encoded_shape.
       Inr (reshape_partial_decode decoded_shape encoded_shape d))"

definition reshape_codec :: "reshape_bound \<Rightarrow> array_array_codec" where
  "reshape_codec P =
     \<lparr>aa_data_type = re_data_type P, aa_fill_value = re_fill_value P,
      aa_encoded_data_type = re_data_type P, aa_encoded_fill_value = re_fill_value P,
      aa_encoded_shape = get_encoded_shape (re_shape P),
      aa_recommended_concurrency = (\<lambda>_. Inr (recommended_new 0 1)),
      aa_encode = (\<lambda>_ b _. Inr b), aa_decode = (\<lambda>_ b _. Inr b),
      aa_partial_decoder = (\<lambda>_. reshape_partial_decoder P)\<rparr>"

definition reshape_with_context :: "reshape_dim list \<Rightarrow> data_type \<Rightarrow> fill_value \<Rightarrow> codec_error + array_array_codec" where
  "reshape_with_context dims t fv = Inr (reshape_codec \<lparr>re_shape = dims, re_data_type = t, re_fill_value = fv\<rparr>)"

end
