(* ===== verification/Reshape_Laws.thy ===== *)
theory Reshape_Laws
  imports Reshape_Codecs Transpose_Contract
begin

text \<open>
  The codecs that change the shape of a chunk keep the contract of an array-to-array codec: \<open>squeeze\<close> for chunks with a dimension
  above 1, and \<open>reshape\<close> over decoders that serve lists of indices; both for the indexers that select some element.
\<close>

subsection \<open>Codecs that pass bytes through\<close>

text \<open>
  A codec that keeps the bytes and the number of elements, whose partial decoder asks the inner decoder for the indexer \<open>f s s' x\<close>,
  which selects the same elements.
\<close>

definition redirects :: "indexer_class \<Rightarrow> (indexer \<Rightarrow> codec_error + indexer) \<Rightarrow> chunk_shape \<Rightarrow> chunk_shape \<Rightarrow> bool" where
  "redirects iclass f s s' \<longleftrightarrow> (\<forall>x. asked iclass s x \<longrightarrow>
     (\<exists>x'. f x = Inr x' \<and> asked iclass s' x' \<and> ix_elements s' x' = ix_elements s x))"

lemma redirected_reads:
  assumes "redirects iclass f s s'" and "reads_array iclass t d s' vs"
  shows "reads_array iclass t (\<lambda>x. bind_res (f x) d) s vs"
  using assms unfolding redirects_def reads_array_def by (metis bind_res_Inr)

lemma passthrough_codec:
  assumes "aa_encoded_data_type A = aa_data_type A" and "aa_encoded_fill_value A = aa_fill_value A"
    and "\<And>opt b s. aa_encode A opt b s = Inr b" and "\<And>opt b s. aa_decode A opt b s = Inr b"
    and "\<And>s. \<exists>rc. aa_recommended_concurrency A s = Inr rc"
    and acc: "\<And>s b. acc s b \<Longrightarrow> shape_ok s \<and> ab_ok (aa_data_type A) (prod_list s) b \<and>
      (\<exists>s' f. aa_encoded_shape A s = Inr s' \<and> shape_ok s' \<and> prod_list s' = prod_list s \<and> redirects iclass f s s' \<and>
         (\<forall>opt d. aa_partial_decoder A opt d s = Inr (\<lambda>x. bind_res (f x) d)))"
  shows "array_to_array_codec A acc iclass"
proof (unfold_locales, goal_cases)
  case (1 s b)
  then show ?case using acc assms(5) by blast
next
  case (2 s b s' opt)
  then have "prod_list s' = prod_list s" using acc by fastforce
  then show ?case using assms(1,3,4) by simp
next
  case (3 s b s' opt e d opt')
  obtain f where f: "prod_list s' = prod_list s" "redirects iclass f s s'" "aa_partial_decoder A opt' d s = Inr (\<lambda>x. bind_res (f x) d)"
    using acc[OF 3(1)] 3(2) by auto
  have "e = b" using 3(3) assms(3) by simp
  then show ?case using redirected_reads[OF f(2) 3(4)] f(3) assms(1) by simp
next
  case (4 s b s')
  then have "prod_list s' = prod_list s" using acc by fastforce
  then show ?case using 4(3) assms(1,2) by (simp add: fill_ready_def)
next
  case (5 s b s' d opt')
  obtain f where f: "prod_list s' = prod_list s" "redirects iclass f s s'" "aa_partial_decoder A opt' d s = Inr (\<lambda>x. bind_res (f x) d)"
    using acc[OF 5(1)] 5(2) by auto
  have "fill_vals (aa_encoded_data_type A) (aa_encoded_fill_value A) s' = fill_vals (aa_data_type A) (aa_fill_value A) s"
    using f(1) assms(1,2) by (simp add: fill_vals_def)
  then show ?case using redirected_reads[OF f(2) 5(4)] f(3) assms(1) by simp
qed

text \<open>Lists of indices.\<close>

lemma indices_asked:
  assumes "list_all (\<lambda>i. inb i s) ids" and "distinct (map (lin s) ids)" and "ids \<noteq> []" and "iclass \<noteq> NonemptySubsets"
  shows "asked iclass s (IndicesIndexer ids)"
  using assms by (cases ids) (auto simp: asked_def indexes_def inb_length)

subsection \<open>Squeeze\<close>

fun squeezed :: "chunk_shape \<Rightarrow> 'a list \<Rightarrow> 'a list" where
  "squeezed (n # s) (x # xs) = (if 1 < n then x # squeezed s xs else squeezed s xs)"
| "squeezed _ _ = []"

lemma squeezed_zip: "map fst (filter (\<lambda>(_, dim). 1 < dim) (zip xs s)) = squeezed s xs"
  by (induction s xs rule: squeezed.induct) simp_all

lemma squeezed_self: "squeezed s s = filter (\<lambda>dim. 1 < dim) s"
  by (induction s) simp_all

lemma prod_squeezed: "list_all ((<) 0) s \<Longrightarrow> prod_list (squeezed s s) = prod_list s"
  by (induction s) (auto simp: Suc_lessI)

lemma inb_squeezed: "inb i s \<Longrightarrow> inb (squeezed s i) (squeezed s s)"
  by (induction s arbitrary: i) (auto simp: inb_Cons2)

lemma length_squeezed: "length xs = length s \<Longrightarrow> length (squeezed s xs) = length (squeezed s s)"
  by (induction s xs rule: squeezed.induct) simp_all

lemma lin_squeezed: "inb i s \<Longrightarrow> lin (squeezed s s) (squeezed s i) = lin s i"
proof (induction s arbitrary: i)
  case (Cons n s)
  obtain j js where i: "i = j # js" "j < n" "inb js s" using Cons.prems by (auto simp: inb_Cons2)
  have "list_all ((<) 0) s" using inb_pos[OF i(3)] by (auto simp: list_all_iff intro: gr0I)
  then show ?case using i Cons.IH[OF i(3)] prod_squeezed[of s] by (cases "1 < n") auto
qed simp

lemma box_squeezed:
  "length st = length s \<Longrightarrow> length sh = length s \<Longrightarrow> \<forall>k < length s. st ! k + sh ! k \<le> s ! k \<Longrightarrow> 0 \<notin> set sh \<Longrightarrow>
     map (squeezed s) (box st sh) = box (squeezed s st) (squeezed s sh)"
proof (induction s arbitrary: st sh)
  case (Cons n s)
  obtain a st' m sh' where l: "st = a # st'" "sh = m # sh'" using Cons.prems(1,2) by (cases st; cases sh) auto
  have le: "a + m \<le> n" "0 < m" "\<forall>k < length s. st' ! k + sh' ! k \<le> s ! k" using Cons.prems(3,4) by (auto simp: l)
  have IH: "map (squeezed s) (box st' sh') = box (squeezed s st') (squeezed s sh')"
    using Cons.IH[OF _ _ le(3)] Cons.prems by (simp add: l)
  show ?case
  proof (cases "1 < n")
    case True
    have "map (squeezed (n # s)) (map ((#) i) (box st' sh')) = map ((#) i) (box (squeezed s st') (squeezed s sh'))" for i
      using True IH[symmetric] by simp
    then show ?thesis using True by (simp add: l map_concat comp_def)
  next
    case False
    then have "a = 0" "m = 1" using le by simp_all
    then show ?thesis using False IH by (simp add: l comp_def)
  qed
qed (simp add: inb_Nil)

definition squeezed_subset :: "chunk_shape \<Rightarrow> array_subset \<Rightarrow> array_subset" where
  "squeezed_subset s r = \<lparr>sub_start = squeezed s (sub_start r), sub_shape = squeezed s (sub_shape r)\<rparr>"

lemma squeezed_ranges:
  "length st = length s \<Longrightarrow> length sh = length s \<Longrightarrow> \<forall>k < length s. st ! k + sh ! k < M64 \<Longrightarrow>
     from_ranges (map (\<lambda>(rstart, rshape, _). (rstart, wadd rstart rshape))
       (filter (\<lambda>(_, _, dim). 1 < dim) (zip st (zip sh s)))) = \<lparr>sub_start = squeezed s st, sub_shape = squeezed s sh\<rparr>"
proof (induction s arbitrary: st sh)
  case (Cons n s)
  obtain a st' m sh' where l: "st = a # st'" "sh = m # sh'" using Cons.prems(1,2) by (cases st; cases sh) auto
  have "a + m < M64" "\<forall>k < length s. st' ! k + sh' ! k < M64" using Cons.prems(3) by (auto simp: l)
  then show ?case using Cons.IH[of st' sh'] Cons.prems(1,2) by (simp add: l from_ranges_def wadd_eq saturating_sub_def)
qed (simp add: from_ranges_def)

lemma nth_squeezed_le:
  "length st = length s \<Longrightarrow> length sh = length s \<Longrightarrow> \<forall>k < length s. st ! k + sh ! k \<le> s ! k \<Longrightarrow>
     list_all2 (\<le>) (map2 (+) (squeezed s st) (squeezed s sh)) (squeezed s s)"
proof (induction s arbitrary: st sh)
  case (Cons n s)
  obtain a st' m sh' where l: "st = a # st'" "sh = m # sh'" using Cons.prems(1,2) by (cases st; cases sh) auto
  have "a + m \<le> n" "\<forall>k < length s. st' ! k + sh' ! k \<le> s ! k" using Cons.prems(3) by (auto simp: l)
  then show ?case using Cons.IH[of st' sh'] Cons.prems(1,2) by (simp add: l)
qed simp

lemma squeezed_region:
  assumes "asked iclass s (SubsetIndexer r)" and "iclass \<noteq> AnyIndexer" and "shape_ok s" and "list_ex ((<) 1) s"
  shows "get_squeezed_array_subset r s = Inr (squeezed_subset s r)" and "asked iclass (squeezed s s) (SubsetIndexer (squeezed_subset s r))"
    and "ix_elements (squeezed s s) (SubsetIndexer (squeezed_subset s r)) = ix_elements s (SubsetIndexer r)"
proof -
  have r: "subset_covered r s" "ix_elements s (SubsetIndexer r) \<noteq> []" and f: "fits r s"
    using assms(1,2) by (simp_all add: asked_def indexes_def subset_covered_def)
  have l: "length (sub_start r) = length s" "length (sub_shape r) = length s" and
    le: "\<forall>k < length s. sub_start r ! k + sub_shape r ! k \<le> s ! k"
    using f by (simp_all add: fits_def wf_subset_length)
  then have lt: "\<forall>k < length s. sub_start r ! k + sub_shape r ! k < M64"
    using assms(3) by (metis le_less_trans list_all_length shape_ok_def)
  have nz: "0 \<notin> set (sub_shape r)" using r(2) box_empty[of "sub_shape r" "sub_start r"] l by auto
  show "get_squeezed_array_subset r s = Inr (squeezed_subset s r)"
    using squeezed_ranges[OF l lt] l(1) by (simp add: get_squeezed_array_subset_def squeezed_subset_def dimensionality_def)
  have bx: "box (sub_start (squeezed_subset s r)) (sub_shape (squeezed_subset s r)) = map (squeezed s) (box (sub_start r) (sub_shape r))"
    using box_squeezed[OF l le nz] by (simp add: squeezed_subset_def)
  show el: "ix_elements (squeezed s s) (SubsetIndexer (squeezed_subset s r)) = ix_elements s (SubsetIndexer r)"
    using lin_squeezed fits_inb[OF f] by (simp add: bx)
  have ls: "length (squeezed s (sub_start r)) = length (squeezed s s)" "length (squeezed s (sub_shape r)) = length (squeezed s s)"
    using length_squeezed l by blast+
  have "\<forall>k < length (squeezed s s). squeezed s s ! k < M64"
    using assms(3) nth_mem[of _ "squeezed s s"] by (auto simp: shape_ok_def list_all_iff squeezed_self)
  then have "fits (squeezed_subset s r) (squeezed s s)"
    using nth_squeezed_le[OF l le] ls le_less_trans
    by (fastforce simp: fits_def wf_subset_def squeezed_subset_def list_all2_conv_all_nth list_all_length)
  moreover have "\<not> is_empty (squeezed_subset s r)"
  proof
    assume "is_empty (squeezed_subset s r)"
    then have "0 \<in> set (sub_shape (squeezed_subset s r))" by (auto simp: is_empty_def list_ex_iff)
    then have "box (sub_start (squeezed_subset s r)) (sub_shape (squeezed_subset s r)) = []"
      using box_empty ls by (simp add: squeezed_subset_def)
    then show False using r(2) by (simp add: bx)
  qed
  ultimately have "subset_covered (squeezed_subset s r) (squeezed s s)" by (simp add: subset_covered_def)
  then show "asked iclass (squeezed s s) (SubsetIndexer (squeezed_subset s r))"
    using indexes_subset el r(2) by (simp add: asked_def del: ix_elements.simps)
qed

lemma squeeze_redirects:
  assumes "iclass \<noteq> AnyIndexer" and "shape_ok s" and "list_ex ((<) 1) s"
  shows "redirects iclass (squeezed_indexer s) s (squeezed s s)"
  unfolding redirects_def
proof (intro allI impI)
  fix x assume a: "asked iclass s x"
  show "\<exists>x'. squeezed_indexer s x = Inr x' \<and> asked iclass (squeezed s s) x' \<and> ix_elements (squeezed s s) x' = ix_elements s x"
  proof (cases "ix_as_array_subset x")
    case (Some r)
    then have "x = SubsetIndexer r" by (cases x) simp_all
    then show ?thesis using squeezed_region[OF _ assms] a by (simp add: squeezed_indexer_def del: ix_elements.simps)
  next
    case None
    have c: "iclass \<noteq> NonemptySubsets" and x: "covers s x" "distinct (ix_elements s x)" "ix_elements s x \<noteq> []"
      using a assms(1) None by (auto simp: asked_def indexes_def)
    obtain ids where ids: "ix_indices x = Some ids" "ix_elements s x = map (lin s) ids" "\<forall>i \<in> set ids. inb i s"
      using ix_indices_covered[OF _ x(1)] assms(2) by (auto simp: shape_ok_def)
    have "map (squeeze_indices s) ids = map (\<lambda>i. Inr (squeezed s i)) ids"
      using ids(3) by (auto simp: squeeze_indices_def squeezed_zip[symmetric] inb_length)
    then have "collect_res (map (squeeze_indices s) ids) = Inr (map (squeezed s) ids)" by (simp only: collect_res_map_Inr)
    then have f: "squeezed_indexer s x = Inr (IndicesIndexer (map (squeezed s) ids))"
      using None ids(1) by (simp add: squeezed_indexer_def get_squeezed_indexer_def)
    have el: "map (lin (squeezed s s)) (map (squeezed s) ids) = map (lin s) ids" using lin_squeezed ids(3) by simp
    have "distinct (map (lin (squeezed s s)) (map (squeezed s) ids))" using x(2) unfolding el ids(2) .
    then have "asked iclass (squeezed s s) (IndicesIndexer (map (squeezed s) ids))"
      by (rule indices_asked[rotated]) (use inb_squeezed ids x(3) c in \<open>auto simp: list_all_iff\<close>)
    then show ?thesis using f el ids(2) by simp
  qed
qed

definition squeeze_accepts :: "squeeze_bound \<Rightarrow> chunk_shape \<Rightarrow> array_bytes \<Rightarrow> bool" where
  "squeeze_accepts Q s b \<longleftrightarrow> shape_ok s \<and> list_all ((<) 0) s \<and> list_ex ((<) 1) s \<and> ab_ok (sq_data_type Q) (prod_list s) b"

lemma squeeze_lawful:
  assumes "iclass \<noteq> AnyIndexer"
  shows "array_to_array_codec (squeeze_codec Q) (squeeze_accepts Q) iclass"
proof (rule passthrough_codec)
  fix s b assume a: "squeeze_accepts Q s b"
  then have s: "shape_ok s" "list_all ((<) 0) s" "list_ex ((<) 1) s" by (simp_all add: squeeze_accepts_def)
  have ne: "squeezed s s \<noteq> []" using s(3) by (auto simp: squeezed_self list_ex_iff filter_empty_conv)
  have "shape_ok (squeezed s s)" using s(1) prod_squeezed[OF s(2)] by (auto simp: shape_ok_def list_all_iff squeezed_self)
  then show "shape_ok s \<and> ab_ok (aa_data_type (squeeze_codec Q)) (prod_list s) b \<and>
      (\<exists>s' f. aa_encoded_shape (squeeze_codec Q) s = Inr s' \<and> shape_ok s' \<and> prod_list s' = prod_list s \<and> redirects iclass f s s' \<and>
        (\<forall>opt d. aa_partial_decoder (squeeze_codec Q) opt d s = Inr (\<lambda>x. bind_res (f x) d)))"
    using a ne prod_squeezed[OF s(2)] squeeze_redirects[OF assms s(1,3)]
    by (intro conjI exI[of _ "squeezed s s"] exI[of _ "squeezed_indexer s"])
      (simp_all add: squeeze_accepts_def squeeze_codec_def squeeze_encoded_shape_def squeezed_self squeeze_partial_decode_def[abs_def])
qed (simp_all add: squeeze_codec_def)

subsection \<open>Reshape\<close>

definition reshape_positive :: "reshape_dim list \<Rightarrow> bool" where
  "reshape_positive dims \<longleftrightarrow> (\<forall>n. ReshapeSize n \<in> set dims \<longrightarrow> 0 < n)"

lemma reshape_product_pos:
  "reshape_product s dims p = Inr q \<Longrightarrow> 0 < p \<Longrightarrow> list_all ((<) 0) s \<Longrightarrow> 0 < q"
  by (induction s dims p rule: reshape_product.induct)
    (auto simp: list_all_length checked_mul_def split: if_splits)

lemma reshape_dims_inv:
  assumes "reshape_dims s dims es f = Inr (es', f')" and "list_all ((<) 0) s" and "reshape_positive dims"
    and "list_all ((<) 0) es" and "\<And>k. f = Some k \<Longrightarrow> k < length es \<and> es ! k = 1"
  shows "list_all ((<) 0) es' \<and> (\<forall>k. f' = Some k \<longrightarrow> k < length es' \<and> es' ! k = 1)"
  using assms
proof (induction s dims es f rule: reshape_dims.induct)
  case (2 s sz dims es f)
  then have "0 < sz" "reshape_positive dims" by (auto simp: reshape_positive_def)
  then show ?case using 2 by (auto simp: nth_append less_SucI)
next
  case (3 s ids dims es f)
  obtain p where p: "reshape_product s ids 1 = Inr p" "reshape_dims s dims (es @ [p]) f = Inr (es', f')"
    using "3.prems"(1) by (cases "reshape_product s ids 1") auto
  have "0 < p" using reshape_product_pos[OF p(1) _ "3.prems"(2)] by simp
  moreover have "reshape_positive dims" using "3.prems"(3) by (auto simp: reshape_positive_def)
  ultimately show ?case using "3.IH"[OF p(2) "3.prems"(2)] "3.prems"(4,5) by (auto simp: nth_append less_SucI)
next
  case (4 s dims es f)
  then have "reshape_positive dims" by (auto simp: reshape_positive_def)
  then show ?case using 4 by (auto simp: nth_append)
qed auto

lemma prod_list_update_one: "k < length es \<Longrightarrow> es ! k = 1 \<Longrightarrow> prod_list (es[k := q]) = q * prod_list es" for q :: nat
  by (induction es arbitrary: k) (auto split: nat.splits simp: less_Suc_eq_0_disj)

lemma positive_small_shape_ok: "list_all ((<) 0) s \<Longrightarrow> prod_list s < M64 \<Longrightarrow> shape_ok s"
proof -
  assume p: "list_all ((<) 0) s" and l: "prod_list s < M64"
  have "n \<le> prod_list s" if "n \<in> set s" for n
  proof -
    have "n dvd prod_list s" using that by (induction s) auto
    moreover have "0 < prod_list s" using p by (induction s) auto
    ultimately show ?thesis by (rule dvd_imp_le)
  qed
  then show "shape_ok s" using l by (auto simp: shape_ok_def list_all_iff intro: le_less_trans)
qed

lemma try_product_less: "try_product acc ds = Some p \<Longrightarrow> acc < M64 \<Longrightarrow> p < M64"
  by (induction acc ds rule: try_product.induct) (auto simp: checked_mul_def split: if_splits)

text \<open>The encoded shape has as many elements as the decoded shape.\<close>

lemma get_encoded_shape_ok:
  assumes "get_encoded_shape dims s = Inr s'" and "list_all ((<) 0) s" and "reshape_positive dims"
  shows "prod_list s' = prod_list s" and "shape_ok s'"
proof -
  obtain es f where d: "reshape_dims s dims [] None = Inr (es, f)"
    using assms(1) by (cases "reshape_dims s dims [] None") (auto simp: get_encoded_shape_def)
  obtain m n where mn: "reshape_num_elements s = Inr m" "reshape_num_elements es = Inr n"
    using assms(1) d by (cases "reshape_num_elements s"; cases "reshape_num_elements es") (auto simp: get_encoded_shape_def)
  have inv: "list_all ((<) 0) es" "\<And>k. f = Some k \<Longrightarrow> k < length es \<and> es ! k = 1"
    using reshape_dims_inv[OF d assms(2,3)] by auto
  have pos: "0 \<notin> set s" "0 \<notin> set es" using assms(2) inv(1) by (auto simp: list_all_iff)
  have m: "m = prod_list s" "prod_list s < M64" and n: "n = prod_list es"
    using mn try_product_Some[of 1] try_product_less[of 1 s] by (fastforce simp: reshape_num_elements_def M64_def split: option.splits)+
  show p: "prod_list s' = prod_list s"
    using assms(1) d mn inv(2) m(1) n prod_list_update_one
    by (auto simp: get_encoded_shape_def Let_def split: option.splits if_splits)
  have "list_all ((<) 0) s'"
    using assms(1) d mn inv by (auto simp: get_encoded_shape_def Let_def list_all_iff split: option.splits if_splits dest!: set_update_subset_insert[THEN subsetD])
  then show "shape_ok s'" using positive_small_shape_ok p m(2) by simp
qed

lemma reshape_redirects:
  assumes "shape_ok s" and "prod_list s' = prod_list s"
  shows "redirects NonemptyIndexers (\<lambda>x. get_reshaped_indexer x s s') s s'"
  unfolding redirects_def
proof (intro allI impI)
  fix x assume a: "asked NonemptyIndexers s x"
  have x: "covers s x" "distinct (ix_elements s x)" "ix_elements s x \<noteq> []" "ix_dimensionality x = length s"
    using a by (auto simp: asked_def indexes_def)
  have small: "prod_list s < M64" using assms(1) by (simp add: shape_ok_def)
  have lt: "\<forall>n \<in> set (ix_elements s x). n < prod_list s'" using ix_elements_less[OF x(1)] assms(2) by simp
  have "map (reshape_index s') (ix_elements s x) = map (\<lambda>n. Inr (unlin s' n)) (ix_elements s x)"
    using lt small unravel_index_Some[of _ s'] assms(2) by (simp add: reshape_index_def)
  then have "collect_res (map (reshape_index s') (ix_elements s x)) = Inr (map (unlin s') (ix_elements s x))"
    by (simp only: collect_res_map_Inr)
  then have f: "get_reshaped_indexer x s s' = Inr (IndicesIndexer (map (unlin s') (ix_elements s x)))"
    using x(4) by (simp add: get_reshaped_indexer_def linearised_of_eq[OF x(1) small])
  have el: "map (lin s') (map (unlin s') (ix_elements s x)) = ix_elements s x" using lt by (simp add: lin_unlin map_idI)
  have "distinct (map (lin s') (map (unlin s') (ix_elements s x)))" using x(2) unfolding el .
  then have "asked NonemptyIndexers s' (IndicesIndexer (map (unlin s') (ix_elements s x)))"
    by (rule indices_asked[rotated]) (use inb_unlin lt x(3) in \<open>auto simp: list_all_iff\<close>)
  then show "\<exists>x'. get_reshaped_indexer x s s' = Inr x' \<and> asked NonemptyIndexers s' x' \<and> ix_elements s' x' = ix_elements s x"
    using f el by simp
qed

definition reshape_accepts :: "reshape_bound \<Rightarrow> chunk_shape \<Rightarrow> array_bytes \<Rightarrow> bool" where
  "reshape_accepts P s b \<longleftrightarrow> shape_ok s \<and> list_all ((<) 0) s \<and> reshape_positive (re_shape P) \<and>
     (\<exists>s'. get_encoded_shape (re_shape P) s = Inr s') \<and> ab_ok (re_data_type P) (prod_list s) b"

lemma reshape_lawful: "array_to_array_codec (reshape_codec P) (reshape_accepts P) NonemptyIndexers"
proof (rule passthrough_codec)
  fix s b assume a: "reshape_accepts P s b"
  then obtain s' where s': "get_encoded_shape (re_shape P) s = Inr s'" and s: "shape_ok s" "list_all ((<) 0) s" "reshape_positive (re_shape P)"
    by (auto simp: reshape_accepts_def)
  note ok = get_encoded_shape_ok[OF s' s(2,3)]
  show "shape_ok s \<and> ab_ok (aa_data_type (reshape_codec P)) (prod_list s) b \<and>
      (\<exists>s' f. aa_encoded_shape (reshape_codec P) s = Inr s' \<and> shape_ok s' \<and> prod_list s' = prod_list s \<and>
        redirects NonemptyIndexers f s s' \<and> (\<forall>opt d. aa_partial_decoder (reshape_codec P) opt d s = Inr (\<lambda>x. bind_res (f x) d)))"
    using a s(1) s' ok reshape_redirects[OF s(1) ok(1)]
    by (intro conjI exI[of _ s'] exI[of _ "\<lambda>x. get_reshaped_indexer x s s'"])
      (simp_all add: reshape_accepts_def reshape_codec_def reshape_partial_decoder_def reshape_partial_decode_def[abs_def])
qed (simp_all add: reshape_codec_def)

end
