(* ===== verification/Reshape_Properties.thy ===== *)
theory Reshape_Properties
  imports Reshape_Laws Sharded_Chain
begin

text \<open>
  Codec chains with the codecs that change shapes, the properties of these codecs, and the requests that they do not serve.
\<close>

interpretation squeeze: array_to_array_codec "squeeze_codec Q" "squeeze_accepts Q" NonemptyIndexers for Q
  by (rule squeeze_lawful) simp

interpretation squeeze_subsets: array_to_array_codec "squeeze_codec Q" "squeeze_accepts Q" NonemptySubsets for Q
  by (rule squeeze_lawful) simp

interpretation reshape: array_to_array_codec "reshape_codec P" "reshape_accepts P" NonemptyIndexers for P
  by (rule reshape_lawful)

lemma reads_array_any: "reads_array AnyIndexer t d s vs \<Longrightarrow> reads_array iclass t d s vs"
  by (auto simp: reads_array_def asked_def)

lemma serves_all_serves:
  "array_to_bytes_codec C t fv acc R AnyIndexer \<Longrightarrow> array_to_bytes_codec C t fv acc R iclass"
  unfolding array_to_bytes_codec_def using reads_array_any by meson

subsection \<open>A chain\<close>

text \<open>A chain that reshapes and squeezes chunks, and encodes them with the bytes codec and a checksum.\<close>

definition reshaped_chain :: "reshape_dim list \<Rightarrow> bytes_bound \<Rightarrow> (bytes \<Rightarrow> 32 word) \<Rightarrow> codec_chain" where
  "reshaped_chain dims B crc =
     \<lparr>cc_array_to_array =
        [\<lparr>ua_with_context = reshape_with_context dims, ua_capability = \<lparr>can_partial_read = True, can_partial_decode = True\<rparr>\<rparr>,
         \<lparr>ua_with_context = squeeze_with_context, ua_capability = \<lparr>can_partial_read = True, can_partial_decode = True\<rparr>\<rparr>],
      cc_array_to_bytes = bytes_unbound B, cc_bytes_to_bytes = [crc32c_codec crc LocationEnd]\<rparr>"

definition reshape_of :: "reshape_dim list \<Rightarrow> bytes_bound \<Rightarrow> reshape_bound" where
  "reshape_of dims B = \<lparr>re_shape = dims, re_data_type = by_data_type B, re_fill_value = by_fill_value B\<rparr>"

definition squeeze_of :: "bytes_bound \<Rightarrow> squeeze_bound" where
  "squeeze_of B = \<lparr>sq_data_type = by_data_type B, sq_fill_value = by_fill_value B\<rparr>"

definition reshaped_chain_bound :: "reshape_dim list \<Rightarrow> bytes_bound \<Rightarrow> (bytes \<Rightarrow> 32 word) \<Rightarrow> codec_chain_bound" where
  "reshaped_chain_bound dims B crc =
     \<lparr>cb_array_to_array = [reshape_codec (reshape_of dims B), squeeze_codec (squeeze_of B)],
      cb_array_to_bytes = bytes_array_codec B, cb_bytes_to_bytes = [crc32c_codec crc LocationEnd], cb_cache_index = Some 1\<rparr>"

lemma reshaped_chain_binds:
  assumes "\<not> is_optional (by_data_type B)"
  shows "chain_with_context (reshaped_chain dims B crc) (by_data_type B) (by_fill_value B) = Inr (reshaped_chain_bound dims B crc)"
  using assms
  by (cases B) (simp add: chain_with_context_def reshaped_chain_def reshaped_chain_bound_def reshape_with_context_def
      squeeze_with_context_def bytes_unbound_def bytes_with_context_def crc32c_codec_def cache_index_of_def reshape_of_def
      squeeze_of_def reshape_codec_def squeeze_codec_def)

interpretation reshaped: served_chain "reshaped_chain_bound dims B crc"
  "[(reshape_codec (reshape_of dims B), reshape_accepts (reshape_of dims B)), (squeeze_codec (squeeze_of B), squeeze_accepts (squeeze_of B))]"
  "bytes_accepts B" "[(crc32c_codec crc LocationEnd, checksum_accepts)]" interval_range interval_range NonemptyIndexers
  for dims B crc
proof (rule served_chain.intro[OF lawful_chain.intro served_chain_axioms.intro], goal_cases)
  case 2
  show ?case
    using reshape.array_to_array_codec_axioms squeeze.array_to_array_codec_axioms by (simp add: lawful_arrays_def)
next
  case 4
  show ?case using crc32c_lawful[of interval_range LocationEnd crc] by (simp add: lawful_bytes_def strippable_def)
next
  case 5
  show ?case
    using serves_all_serves[OF bytes.array_to_bytes_codec_axioms[of B]] by (simp add: reshaped_chain_bound_def bytes_array_codec_def)
qed (simp_all add: array_cache_between_def reshaped_chain_bound_def reshape_codec_def squeeze_codec_def chain_data_type_def chain_fill_value_def bytes_array_codec_def
    reshape_of_def squeeze_of_def)

subsection \<open>Properties\<close>

text \<open>
  Property C13.  Reshape: the encoded shape has the number of elements of the chunk, and partial decoding through any decoder of the
  reshaped chunk returns, for any indexer that selects some element, the elements at the same linear positions.
\<close>

theorem reshape_codec_correct:
  assumes "reshape_accepts P s b"
  shows "\<exists>s'. get_encoded_shape (re_shape P) s = Inr s' \<and> prod_list s' = prod_list s \<and>
     (\<forall>d vs. reads_array NonemptyIndexers (re_data_type P) d s' vs \<longrightarrow>
        (\<exists>d'. reshape_partial_decoder P d s = Inr d' \<and> reads_array NonemptyIndexers (re_data_type P) d' s vs))"
proof -
  obtain s' where s': "get_encoded_shape (re_shape P) s = Inr s'" and s: "shape_ok s" "list_all ((<) 0) s" "reshape_positive (re_shape P)"
    using assms by (auto simp: reshape_accepts_def)
  note ok = get_encoded_shape_ok[OF s' s(2,3)]
  show ?thesis
    using s' ok(1) redirected_reads[OF reshape_redirects[OF s(1) ok(1)]]
    by (auto simp: reshape_partial_decoder_def reshape_partial_decode_def[abs_def])
qed

theorem reshape_codec_correct_witness:
  "\<exists>s'. get_encoded_shape [ReshapeInputDims [0, 1], ReshapeAuto] [2, 3, 4] = Inr s' \<and> prod_list s' = 24"
proof -
  let ?P = "\<lparr>re_shape = [ReshapeInputDims [0, 1], ReshapeAuto], re_data_type = PlainType (SizeFixed 1), re_fill_value = [0]\<rparr>"
  have "get_encoded_shape [ReshapeInputDims [0, 1], ReshapeAuto] [2, 3, 4] = Inr [6, 4]"
    by (simp add: get_encoded_shape_def reshape_num_elements_def checked_mul_def M64_def)
  then have "reshape_accepts ?P [2, 3, 4] (FixedBytes (replicate 24 1))"
    by (simp add: reshape_accepts_def shape_ok_def reshape_positive_def M64_def)
  from reshape_codec_correct[OF this] show ?thesis by auto
qed

text \<open>
  Squeeze: a chunk with a dimension above 1 is encoded to the shape of these dimensions, and partial decoding through
  any decoder of it returns the elements of any indexer that selects some element.
\<close>

theorem squeeze_codec_correct:
  assumes "squeeze_accepts Q s b" and "iclass \<noteq> AnyIndexer"
  shows "\<exists>s'. squeeze_encoded_shape s = Inr s' \<and> prod_list s' = prod_list s \<and> list_all ((<) 1) s' \<and>
     (\<forall>d vs. reads_array iclass (sq_data_type Q) d s' vs \<longrightarrow> reads_array iclass (sq_data_type Q) (squeeze_partial_decode s d) s vs)"
proof -
  have s: "shape_ok s" "list_all ((<) 0) s" "list_ex ((<) 1) s" using assms(1) by (simp_all add: squeeze_accepts_def)
  have "squeezed s s \<noteq> []" "list_all ((<) 1) (squeezed s s)" using s(3) by (auto simp: squeezed_self list_ex_iff filter_empty_conv list_all_iff)
  then show ?thesis
    using prod_squeezed[OF s(2)] redirected_reads[OF squeeze_redirects[OF assms(2) s(1,3)]]
    by (intro exI[of _ "squeezed s s"]) (simp add: squeeze_encoded_shape_def squeezed_self squeeze_partial_decode_def[abs_def])
qed

theorem squeeze_codec_correct_witness:
  "\<exists>s'. squeeze_encoded_shape [1, 3, 1, 2] = Inr s' \<and> prod_list s' = 6"
proof -
  have "squeeze_accepts \<lparr>sq_data_type = PlainType (SizeFixed 1), sq_fill_value = [0]\<rparr> [1, 3, 1, 2] (FixedBytes (replicate 6 1))"
    by (simp add: squeeze_accepts_def shape_ok_def M64_def)
  from squeeze_codec_correct[OF this, of NonemptyIndexers] show ?thesis by auto
qed

subsection \<open>What the codecs do not serve\<close>

text \<open>
  A chunk without a dimension above 1 is encoded to the shape \<open>[1]\<close>, but its regions are squeezed to no dimensions: the
  partial decoder of the bytes codec rejects them.
\<close>

lemma squeeze_unit_chunk:
  assumes "fixed_size (by_data_type B) = Some z"
  shows "squeeze_encoded_shape [1, 1] = Inr [1]"
    and "squeeze_partial_decode [1, 1] (bytes_partial_decode B d [1]) (SubsetIndexer (new_with_shape [1, 1])) =
      Inl (IncompatibleIndexer (IndexerIncompatibleDimensionality 0 1))"
  using assms
  by (simp_all add: squeeze_encoded_shape_def squeeze_partial_decode_def squeezed_indexer_def get_squeezed_array_subset_def
      new_with_shape_def dimensionality_def from_ranges_def bytes_partial_decode_def)

text \<open>A region without elements, of length 0 along a dimension of size 1, is squeezed to one with elements.\<close>

lemma squeeze_empty_region:
  "get_squeezed_array_subset \<lparr>sub_start = [0, 0], sub_shape = [0, 2]\<rparr> [1, 4] = Inr \<lparr>sub_start = [0], sub_shape = [2]\<rparr>"
  by (simp add: get_squeezed_array_subset_def dimensionality_def from_ranges_def saturating_sub_def wadd_def M64_def)

text \<open>A region without elements is reshaped to an empty list, which has no dimensionality and is rejected.\<close>

lemma reshape_empty_region:
  assumes "fixed_size (by_data_type B) = Some z"
  shows "reshape_partial_decode [2, 2] [4] (bytes_partial_decode B d [4]) (SubsetIndexer \<lparr>sub_start = [0, 0], sub_shape = [0, 2]\<rparr>) =
    Inl (IncompatibleIndexer (IndexerIncompatibleDimensionality 0 1))"
proof -
  have "covers [2, 2] (SubsetIndexer \<lparr>sub_start = [0, 0], sub_shape = [0, 2]\<rparr>)"
    by (simp add: subset_covered_def fits_def wf_subset_def is_empty_def M64_def less_Suc_eq all_conj_distrib)
  from linearised_of_eq[OF this]
  have "linearised_of (SubsetIndexer \<lparr>sub_start = [0, 0], sub_shape = [0, 2]\<rparr>) [2, 2] = Inr []" by (simp add: M64_def)
  then show ?thesis
    using assms by (simp add: reshape_partial_decode_def get_reshaped_indexer_def bytes_partial_decode_def)
qed

end
