(* ===== verification/Pack_Bits.thy ===== *)
theory Pack_Bits
  imports Endian_Codec
begin

text \<open>
  The \<open>packbits\<close> codec (\<open>zarrs/src/array/codec/array_to_bytes/packbits/packbits_codec.rs\<close>) and its partial decoder
  (\<open>packbits_partial_decoder.rs\<close>): the bits \<open>first_bit\<close> to \<open>last_bit\<close> of each component of each element are packed next to each other.
  How many bits and components an element has, and whether its components are signed, is what its data type registers
  (\<open>zarrs_data_type/src/codec_traits/packbits.rs\<close>); the data types whose components are whole bytes also register the size of the
  components for the \<open>bytes\<close> codec, which packs them when all their bits are kept.
\<close>

unbundle bit_operations_syntax

datatype padding_encoding = PaddingNone | PaddingFirstByte | PaddingLastByte

record packbits_components =
  component_size_bits :: u64
  num_components :: u64
  sign_extension :: bool

record packbits_bound =
  pb_padding :: padding_encoding
  pb_components :: packbits_components
  pb_first_bit :: u64
  pb_last_bit :: u64
  pb_data_type :: data_type
  pb_fill_value :: fill_value
  pb_native :: endianness
  pb_bytes_component :: usize

definition packbits_new :: "padding_encoding \<Rightarrow> u64 option \<Rightarrow> u64 option \<Rightarrow> codec_error + (padding_encoding \<times> u64 option \<times> u64 option)" where
  "packbits_new padding first_bit last_bit =
     (case (first_bit, last_bit) of
        (Some f, Some l) \<Rightarrow>
          if l < f then Inl (CodecCreate ''packbits codec `last_bit` is less than `first_bit`'') else Inr (padding, first_bit, last_bit)
      | _ \<Rightarrow> Inr (padding, first_bit, last_bit))"

text \<open>\<open>components_of\<close> and \<open>bytes_component_of\<close> are what the data types register.\<close>

definition packbits_with_context ::
    "endianness \<Rightarrow> (data_type \<Rightarrow> packbits_components option) \<Rightarrow> (data_type \<Rightarrow> usize) \<Rightarrow>
     (padding_encoding \<times> u64 option \<times> u64 option) \<Rightarrow> data_type \<Rightarrow> fill_value \<Rightarrow> codec_error + packbits_bound" where
  "packbits_with_context native components_of bytes_component_of codec t fv =
     (case components_of t of
        None \<Rightarrow> Inl (CodecUnsupportedDataType [] ''packbits'')
      | Some components \<Rightarrow>
          let (padding, f, l) = codec;
              first_bit = case_option 0 id f; last_bit = case_option (wsub (component_size_bits components) 1) id l in
          if last_bit < first_bit then Inl (CodecCreate ''packbits codec `last_bit` is less than `first_bit`'')
          else if component_size_bits components \<le> last_bit
          then Inl (CodecCreate ''packbits codec `last_bit` is outside the data type component'')
          else Inr \<lparr>pb_padding = padding, pb_components = components, pb_first_bit = first_bit, pb_last_bit = last_bit,
                    pb_data_type = t, pb_fill_value = fv, pb_native = native, pb_bytes_component = bytes_component_of t\<rparr>)"

subsection \<open>Bits\<close>

definition div_rem_8bit :: "u64 \<Rightarrow> u64 \<Rightarrow> u64 \<times> nat" where
  "div_rem_8bit b element_size_bits =
     (let element = b div element_size_bits; element_bit = b mod element_size_bits;
          element_size_bits_padded = wmul 8 (div_ceil element_size_bits 8) in
      (wadd (wmul element element_size_bits_padded) element_bit div 8, element_bit mod 8))"

text \<open>\<open>dst[byte'] |= ((src[byte] >> bit) & 0b1) << bit'\<close>, and \<open>dst[byte] |= 1 << bit\<close>.\<close>

definition get_bit :: "bytes \<Rightarrow> u64 \<times> nat \<Rightarrow> codec_error + u8" where
  "get_bit src pos = (if fst pos < length src then Inr (drop_bit (snd pos) (src ! fst pos) AND 1) else Inl CodecPanic)"

definition or_bit :: "bytes \<Rightarrow> u64 \<times> nat \<Rightarrow> u8 \<Rightarrow> codec_error + bytes" where
  "or_bit dst pos v = (if fst pos < length dst then Inr (dst[fst pos := dst ! fst pos OR push_bit (snd pos) v]) else Inl CodecPanic)"

definition copy_bit :: "bytes \<Rightarrow> u64 \<times> nat \<Rightarrow> bytes \<Rightarrow> u64 \<times> nat \<Rightarrow> codec_error + bytes" where
  "copy_bit src pos dst pos' = bind_res (get_bit src pos) (or_bit dst pos')"

fun set_bits :: "bytes \<Rightarrow> (u64 \<times> nat) list \<Rightarrow> codec_error + bytes" where
  "set_bits dst [] = Inr dst"
| "set_bits dst (pos # ps) = bind_res (or_bit dst pos 1) (\<lambda>dst. set_bits dst ps)"

definition div_rem_8 :: "u64 \<Rightarrow> u64 \<times> nat" where
  "div_rem_8 b = (b div 8, b mod 8)"

subsection \<open>The sizes\<close>

definition bits_extracted :: "packbits_bound \<Rightarrow> u64" where
  "bits_extracted P = wadd (wsub (pb_last_bit P) (pb_first_bit P)) 1"

definition element_size_bits :: "packbits_bound \<Rightarrow> u64" where
  "element_size_bits P = wmul (bits_extracted P) (num_components (pb_components P))"

definition elements_size_bytes :: "packbits_bound \<Rightarrow> u64 \<Rightarrow> usize" where
  "elements_size_bytes P n_elements = div_ceil (wmul n_elements (element_size_bits P)) 8"

definition padding_bits :: "u64 \<Rightarrow> u64 \<Rightarrow> u8" where
  "padding_bits n_elements bits =
     (let r = wmul n_elements bits mod 8 in if r = 0 then 0 else word_of_nat (8 - r))"

fun padding_encoding_byte :: "padding_encoding \<Rightarrow> usize" where
  "padding_encoding_byte PaddingNone = 0"
| "padding_encoding_byte _ = 1"

text \<open>Whether the bytes codec is used, and the one that is.\<close>

definition packbits_whole_bytes :: "packbits_bound \<Rightarrow> bool" where
  "packbits_whole_bytes P \<longleftrightarrow> component_size_bits (pb_components P) mod 8 = 0 \<and> pb_first_bit P = 0 \<and>
     pb_last_bit P = wsub (component_size_bits (pb_components P)) 1"

definition packbits_bytes :: "packbits_bound \<Rightarrow> bytes_bound" where
  "packbits_bytes P = \<lparr>by_native = pb_native P, by_component_size = pb_bytes_component P, by_endian = Some LittleEndian,
     by_data_type = pb_data_type P, by_fill_value = pb_fill_value P\<rparr>"

definition packbits_bytes_codec :: "packbits_bound \<Rightarrow> codec_error + array_codec" where
  "packbits_bytes_codec P =
     map_err (\<lambda>_. CodecOther ''bytes'')
       (bytes_with_context (pb_native P) (\<lambda>_. Some (pb_bytes_component P)) (Some LittleEndian) (pb_data_type P) (pb_fill_value P))"

definition packbits_size_error :: codec_error where
  "packbits_size_error = CodecOther ''data type must have a fixed size for the packbits codec''"

subsection \<open>Encoding\<close>

text \<open>The bits of a component, and the components.\<close>

fun encode_bits :: "u64 \<Rightarrow> bytes \<Rightarrow> u64 \<Rightarrow> u64 \<Rightarrow> u64 list \<Rightarrow> bytes \<Rightarrow> codec_error + bytes" where
  "encode_bits csb b bit_dec0 bit_enc0 [] packed = Inr packed"
| "encode_bits csb b bit_dec0 bit_enc0 (k # ks) packed =
     bind_res (copy_bit b (div_rem_8bit (wadd bit_dec0 k) csb) packed (div_rem_8 (wadd bit_enc0 k))) (\<lambda>packed.
       encode_bits csb b bit_dec0 bit_enc0 ks packed)"

fun encode_components :: "packbits_bound \<Rightarrow> bytes \<Rightarrow> u64 list \<Rightarrow> bytes \<Rightarrow> codec_error + bytes" where
  "encode_components P b [] packed = Inr packed"
| "encode_components P b (component_idx # cs) packed =
     (let csb = component_size_bits (pb_components P) in
      bind_res (encode_bits csb b (wadd (wmul component_idx csb) (pb_first_bit P)) (wmul component_idx (bits_extracted P))
        [0..<bits_extracted P] packed) (\<lambda>packed. encode_components P b cs packed))"

definition packbits_encode :: "packbits_bound \<Rightarrow> codec_options \<Rightarrow> array_bytes \<Rightarrow> chunk_shape \<Rightarrow> codec_error + bytes" where
  "packbits_encode P opt b s =
     (if packbits_whole_bytes P then bind_res (packbits_bytes_codec P) (\<lambda>C. ab_encode C opt b s)
      else
        let n_elements = wprod s; n = elements_size_bytes P n_elements in
        bind_res (into_fixed b) (\<lambda>b.
          case fixed_size (pb_data_type P) of
            None \<Rightarrow> Inl packbits_size_error
          | Some z \<Rightarrow>
              if length b \<noteq> wmul n_elements z then Inl (UnexpectedChunkDecodedSize (length b) (wmul n_elements z))
              else
                bind_res (encode_components P b [0..<wmul n_elements (num_components (pb_components P))] (replicate n 0)) (\<lambda>packed.
                  Inr (case pb_padding P of
                         PaddingNone \<Rightarrow> packed
                       | PaddingFirstByte \<Rightarrow> padding_bits n_elements (element_size_bits P) # packed
                       | PaddingLastByte \<Rightarrow> packed @ [padding_bits n_elements (element_size_bits P)]))))"

subsection \<open>Decoding\<close>

fun decode_bits :: "u64 \<Rightarrow> bytes \<Rightarrow> u64 \<Rightarrow> u64 \<Rightarrow> u64 list \<Rightarrow> bytes \<Rightarrow> codec_error + bytes" where
  "decode_bits csb packed bit_dec0 bit_enc0 [] b = Inr b"
| "decode_bits csb packed bit_dec0 bit_enc0 (k # ks) b =
     bind_res (copy_bit packed (div_rem_8 (wadd bit_enc0 k)) b (div_rem_8bit (wadd bit_dec0 k) csb)) (\<lambda>b.
       decode_bits csb packed bit_dec0 bit_enc0 ks b)"

text \<open>The extension of the sign to the rest of its byte.\<close>

definition extend_sign :: "u64 \<Rightarrow> u64 \<Rightarrow> bytes \<Rightarrow> u64 \<Rightarrow> u64 \<Rightarrow> bytes \<Rightarrow> codec_error + bytes" where
  "extend_sign csb n packed bit_dec0 bit_enc0 b =
     bind_res (get_bit packed (div_rem_8 (wadd bit_enc0 (saturating_sub n 1)))) (\<lambda>v.
       if v = 1
       then (case div_rem_8bit (wadd bit_dec0 (saturating_sub n 1)) csb of
               (byte_dec, bit_dec) \<Rightarrow> set_bits b (map (Pair byte_dec) [bit_dec + 1..<8]))
       else Inr b)"

fun decode_components :: "packbits_bound \<Rightarrow> bytes \<Rightarrow> u64 list \<Rightarrow> bytes \<Rightarrow> codec_error + bytes" where
  "decode_components P packed [] b = Inr b"
| "decode_components P packed (component_idx # cs) b =
     (let csb = component_size_bits (pb_components P); n = bits_extracted P;
          bit_dec0 = wadd (wmul component_idx csb) (pb_first_bit P); bit_enc0 = wmul component_idx n in
      bind_res (decode_bits csb packed bit_dec0 bit_enc0 [0..<n] b) (\<lambda>b.
      bind_res (if sign_extension (pb_components P) then extend_sign csb n packed bit_dec0 bit_enc0 b else Inr b) (\<lambda>b.
        decode_components P packed cs b)))"

definition packbits_packed :: "packbits_bound \<Rightarrow> u64 \<Rightarrow> bytes \<Rightarrow> codec_error + bytes" where
  "packbits_packed P n_elements b =
     (let n = elements_size_bytes P n_elements; padding = padding_bits n_elements (element_size_bits P) in
      case pb_padding P of
        PaddingNone \<Rightarrow> Inr b
      | PaddingFirstByte \<Rightarrow>
          if hd b \<noteq> padding then Inl (CodecOther ''the packbits padding encoding start byte is incorrect'') else Inr (tl b)
      | PaddingLastByte \<Rightarrow>
          if b ! n \<noteq> padding then Inl (CodecOther ''the packbits padding encoding last byte is incorrect'') else Inr (take n b))"

definition packbits_decode :: "packbits_bound \<Rightarrow> codec_options \<Rightarrow> bytes \<Rightarrow> chunk_shape \<Rightarrow> codec_error + array_bytes" where
  "packbits_decode P opt b s =
     (if packbits_whole_bytes P then bind_res (packbits_bytes_codec P) (\<lambda>C. ab_decode C opt b s)
      else
        let n_elements = wprod s; expected = elements_size_bytes P n_elements + padding_encoding_byte (pb_padding P) in
        case fixed_size (pb_data_type P) of
          None \<Rightarrow> Inl packbits_size_error
        | Some z \<Rightarrow>
            if length b \<noteq> expected then Inl (UnexpectedChunkDecodedSize (length b) expected)
            else
              bind_res (packbits_packed P n_elements b) (\<lambda>packed.
              bind_res (decode_components P packed [0..<wmul n_elements (num_components (pb_components P))]
                (replicate (wmul n_elements z) 0)) (\<lambda>b. Inr (FixedBytes b))))"

definition packbits_encoded_representation :: "packbits_bound \<Rightarrow> chunk_shape \<Rightarrow> codec_error + bytes_representation" where
  "packbits_encoded_representation P s =
     Inr (FixedSize (wadd (elements_size_bytes P (wprod s)) (padding_encoding_byte (pb_padding P))))"

subsection \<open>Partial decoding\<close>

text \<open>
  The bits of a component of a range of elements are copied to the first bits of the component in the result, and the sign is extended to
  the bits of the component that were not packed.
\<close>

definition partial_extend_sign :: "u64 \<Rightarrow> u64 \<Rightarrow> u64 \<Rightarrow> bytes \<Rightarrow> codec_error + bytes" where
  "partial_extend_sign csb n bit_dec0 b =
     bind_res (get_bit b (div_rem_8bit (wadd bit_dec0 (saturating_sub n 1)) csb)) (\<lambda>v.
       if v = 1 then set_bits b (map (\<lambda>k. div_rem_8bit (wadd bit_dec0 k) csb) [n..<csb]) else Inr b)"

fun partial_decode_components :: "packbits_bound \<Rightarrow> bytes \<Rightarrow> u64 \<Rightarrow> u64 \<Rightarrow> u64 list \<Rightarrow> bytes \<Rightarrow> codec_error + bytes" where
  "partial_decode_components P packed offset_bits component_idx_outer [] b = Inr b"
| "partial_decode_components P packed offset_bits component_idx_outer (component_idx # cs) b =
     (let csb = component_size_bits (pb_components P); n = bits_extracted P;
          bit_dec0 = wmul (wadd component_idx_outer component_idx) csb; bit_enc0 = wmul component_idx n in
      bind_res (decode_bits csb packed bit_dec0 (wadd bit_enc0 offset_bits) [0..<n] b) (\<lambda>b.
      bind_res (if sign_extension (pb_components P) then partial_extend_sign csb n bit_dec0 b else Inr b) (\<lambda>b.
        partial_decode_components P packed offset_bits component_idx_outer cs b)))"

fun partial_decode_ranges :: "packbits_bound \<Rightarrow> (bytes \<times> range64) list \<Rightarrow> u64 \<Rightarrow> bytes \<Rightarrow> codec_error + bytes" where
  "partial_decode_ranges P [] component_idx_outer b = Inr b"
| "partial_decode_ranges P ((packed, (bit_start, bit_end)) # rs) component_idx_outer b =
     (let n_elements = wsub bit_end bit_start div element_size_bits P;
          n = wmul n_elements (num_components (pb_components P)) in
      bind_res (partial_decode_components P packed (wsub bit_start (wmul 8 (bit_start div 8))) component_idx_outer [0..<n] b) (\<lambda>b.
        partial_decode_ranges P rs (wadd component_idx_outer n) b))"

definition packbits_byte_range :: "packbits_bound \<Rightarrow> range64 \<Rightarrow> byte_range" where
  "packbits_byte_range P r =
     (let offset = (case pb_padding P of PaddingFirstByte \<Rightarrow> 1 | _ \<Rightarrow> 0) in
      byte_range_new (Included (wadd offset (fst r div 8))) (Excluded (wadd offset (div_ceil (snd r) 8))))"

definition packbits_partial_decode :: "packbits_bound \<Rightarrow> bytes_decoder \<Rightarrow> chunk_shape \<Rightarrow> array_decoder" where
  "packbits_partial_decode P input_handle s x =
     (case fixed_size (pb_data_type P) of
        None \<Rightarrow> Inl packbits_size_error
      | Some z \<Rightarrow>
          bind_res (byte_ranges_of x s (element_size_bits P)) (\<lambda>bit_ranges.
          bind_res (input_handle (map (packbits_byte_range P) bit_ranges)) (\<lambda>encoded_bytes.
            case encoded_bytes of
              Some encoded_bytes \<Rightarrow>
                bind_res (partial_decode_ranges P (zip encoded_bytes bit_ranges) 0 (replicate (wmul (ix_len x) z) 0)) (\<lambda>b.
                  Inr (FixedBytes b))
            | None \<Rightarrow> new_fill_value (pb_data_type P) (ix_len x) (pb_fill_value P))))"

definition packbits_array_codec :: "packbits_bound \<Rightarrow> array_codec" where
  "packbits_array_codec P =
     \<lparr>ab_data_type = pb_data_type P,
      ab_fill_value = pb_fill_value P,
      ab_encoded_representation = packbits_encoded_representation P,
      ab_recommended_concurrency = (\<lambda>_. Inr (recommended_new 0 1)),
      ab_encode = packbits_encode P,
      ab_decode = packbits_decode P,
      ab_compact = default_compact,
      ab_decode_into = (\<lambda>opt. default_decode_into (packbits_decode P opt)),
      ab_partial_decoder = (\<lambda>_ d s.
        Inr (if packbits_whole_bytes P then bytes_partial_decode (packbits_bytes P) d s else packbits_partial_decode P d s))\<rparr>"

end
