(* ===== verification/Pack_Laws.thy ===== *)
theory Pack_Laws
  imports Pack_Bits
begin

text \<open>
  What the loops of the \<open>packbits\<close> codec do, bit by bit: bit \<open>k\<close> of some bytes is bit \<open>k mod 8\<close> of byte \<open>k div 8\<close>, and component \<open>c\<close> of
  the elements begins at bit \<open>c * w\<close> of the chunk, where \<open>w\<close> is the size of a component rounded up to bytes.
\<close>

definition bitv :: "bytes \<Rightarrow> nat \<Rightarrow> bool" where
  "bitv b k = bit (b ! (k div 8)) (k mod 8)"

definition at_bit :: "nat \<Rightarrow> u64 \<times> nat" where
  "at_bit k = (k div 8, k mod 8)"

lemma bytes_bits_eq:
  assumes "length a = length b" and "\<And>k. k < 8 * length a \<Longrightarrow> bitv a k = bitv b k"
  shows "a = b"
proof (rule nth_equalityI[OF assms(1)])
  fix i assume i: "i < length a"
  show "a ! i = b ! i"
  proof (rule bit_word_eqI)
    fix n assume "n < LENGTH(8)"
    then have n: "n < 8" by simp
    then have "(8 * i + n) div 8 = i" "(8 * i + n) mod 8 = n" "8 * i + n < 8 * length a" using i by simp_all
    then show "bit (a ! i) n = bit (b ! i) n" using assms(2)[of "8 * i + n"] by (simp add: bitv_def)
  qed
qed

lemma bitv_replicate [simp]: "k < 8 * n \<Longrightarrow> bitv (replicate n 0) k = False"
  by (simp add: bitv_def less_mult_imp_div_less mult.commute)

lemma bitv_drop: "bitv (drop n b) k = bitv b (8 * n + k)" if "n + k div 8 < length b"
  using that by (simp add: bitv_def)

lemma bitv_take: "k < 8 * n \<Longrightarrow> bitv (take n b) k = bitv b k"
  by (simp add: bitv_def less_mult_imp_div_less mult.commute)

lemma get_bit_at: "i < 8 * length b \<Longrightarrow> get_bit b (at_bit i) = Inr (of_bool (bitv b i))"
proof -
  assume "i < 8 * length b"
  moreover have "drop_bit n w AND 1 = of_bool (bit w n)" for n :: nat and w :: u8
    by (rule bit_word_eqI) (auto simp: bit_simps)
  ultimately show ?thesis by (simp add: get_bit_def at_bit_def bitv_def less_mult_imp_div_less mult.commute)
qed

lemma or_bit_at:
  assumes "j < 8 * length dst"
  obtains dst' where "or_bit dst (at_bit j) (of_bool v) = Inr dst'" and "length dst' = length dst"
    and "\<And>k. bitv dst' k = (bitv dst k \<or> (k = j \<and> v))"
proof -
  have j: "j div 8 < length dst" using assms by (simp add: less_mult_imp_div_less mult.commute)
  let ?d = "dst[j div 8 := dst ! (j div 8) OR push_bit (j mod 8) (of_bool v)]"
  have "bitv ?d k = (bitv dst k \<or> (k = j \<and> v))" for k
  proof (cases "k div 8 = j div 8")
    case True
    then have "k = j \<longleftrightarrow> k mod 8 = j mod 8" by (metis div_mult_mod_eq)
    then show ?thesis using True j by (auto simp: bitv_def bit_simps)
  next
    case False
    then show ?thesis by (auto simp: bitv_def)
  qed
  moreover have "or_bit dst (at_bit j) (of_bool v) = Inr ?d" using j by (simp add: or_bit_def at_bit_def)
  ultimately show ?thesis using that[of ?d] by simp
qed

lemma copy_bit_at:
  assumes "i < 8 * length src" and "j < 8 * length dst"
  obtains dst' where "copy_bit src (at_bit i) dst (at_bit j) = Inr dst'" and "length dst' = length dst"
    and "\<And>k. bitv dst' k = (bitv dst k \<or> (k = j \<and> bitv src i))"
  using or_bit_at[OF assms(2), of "bitv src i"] assms(1) by (auto simp: copy_bit_def get_bit_at)

lemma set_bits_at:
  "\<forall>j \<in> set js. j < 8 * length dst \<Longrightarrow>
     \<exists>dst'. set_bits dst (map at_bit js) = Inr dst' \<and> length dst' = length dst \<and> (\<forall>k. bitv dst' k = (bitv dst k \<or> k \<in> set js))"
proof (induction js arbitrary: dst)
  case (Cons j js)
  obtain d where d: "or_bit dst (at_bit j) (of_bool True) = Inr d" "length d = length dst" "\<And>k. bitv d k = (bitv dst k \<or> (k = j \<and> True))"
    by (rule or_bit_at[of j dst True]) (use Cons.prems in auto)
  obtain d' where d': "set_bits d (map at_bit js) = Inr d'" "length d' = length d" "\<forall>k. bitv d' k = (bitv d k \<or> k \<in> set js)"
    using Cons.IH[of d] Cons.prems d(2) by auto
  have "or_bit dst (at_bit j) 1 = Inr d" using d(1) by simp
  then show ?case using d d' by auto
qed simp

subsection \<open>Positions\<close>

text \<open>The number of bits of a component in the chunk.\<close>

definition component_width :: "u64 \<Rightarrow> nat" where
  "component_width csb = 8 * div_ceil csb 8"

lemma component_width_bounds: "csb \<le> component_width csb" "component_width csb < csb + 8" "8 dvd component_width csb"
  using div_ceil_bounds[of 8 csb] by (simp_all add: component_width_def mult.commute)

lemma div_rem_8bit_at:
  assumes "k < csb" and "c * component_width csb + k < M64" and "component_width csb < M64"
  shows "div_rem_8bit (c * csb + k) csb = at_bit (c * component_width csb + k)"
proof -
  have "(c * csb + k) div csb = c" "(c * csb + k) mod csb = k" using assms(1) by simp_all
  moreover have "c * component_width csb < M64" using assms(2) by simp
  moreover have "(c * component_width csb + k) mod 8 = k mod 8"
    using component_width_bounds(3)[of csb] by (metis dvd_imp_mod_0 dvd_mult mod_add_left_eq add_0)
  ultimately show ?thesis
    using assms by (simp add: div_rem_8bit_def component_width_def[symmetric] at_bit_def wmul_eq wadd_eq Let_def)
qed

lemma div_rem_8_at: "div_rem_8 k = at_bit k"
  by (simp add: div_rem_8_def at_bit_def)

subsection \<open>The loops\<close>

lemma encode_bits_at:
  "\<forall>k \<in> set ks. div_rem_8bit (wadd d0 k) csb = at_bit (D k) \<and> D k < 8 * length b \<and> wadd e0 k = E k \<and> E k < 8 * length p \<Longrightarrow>
     \<exists>p'. encode_bits csb b d0 e0 ks p = Inr p' \<and> length p' = length p \<and>
       (\<forall>j. bitv p' j = (bitv p j \<or> (\<exists>k \<in> set ks. j = E k \<and> bitv b (D k))))"
proof (induction ks arbitrary: p)
  case (Cons k ks)
  obtain q where q: "copy_bit b (at_bit (D k)) p (at_bit (E k)) = Inr q" "length q = length p"
      "\<And>j. bitv q j = (bitv p j \<or> (j = E k \<and> bitv b (D k)))"
    by (rule copy_bit_at[of "D k" b "E k" p]) (use Cons.prems in auto)
  obtain p' where "encode_bits csb b d0 e0 ks q = Inr p'" "length p' = length q"
      "\<forall>j. bitv p' j = (bitv q j \<or> (\<exists>k \<in> set ks. j = E k \<and> bitv b (D k)))"
    using Cons.IH[of q] Cons.prems q(2) by auto
  then show ?case using Cons.prems q by (auto simp: div_rem_8_at)
qed simp

lemma decode_bits_at:
  "\<forall>k \<in> set ks. div_rem_8bit (wadd d0 k) csb = at_bit (D k) \<and> D k < 8 * length b \<and> wadd e0 k = E k \<and> E k < 8 * length p \<Longrightarrow>
     \<exists>b'. decode_bits csb p d0 e0 ks b = Inr b' \<and> length b' = length b \<and>
       (\<forall>j. bitv b' j = (bitv b j \<or> (\<exists>k \<in> set ks. j = D k \<and> bitv p (E k))))"
proof (induction ks arbitrary: b)
  case (Cons k ks)
  obtain q where q: "copy_bit p (at_bit (E k)) b (at_bit (D k)) = Inr q" "length q = length b"
      "\<And>j. bitv q j = (bitv b j \<or> (j = D k \<and> bitv p (E k)))"
    by (rule copy_bit_at[of "E k" p "D k" b]) (use Cons.prems in auto)
  obtain b' where "decode_bits csb p d0 e0 ks q = Inr b'" "length b' = length q"
      "\<forall>j. bitv b' j = (bitv q j \<or> (\<exists>k \<in> set ks. j = D k \<and> bitv p (E k)))"
    using Cons.IH[of q] Cons.prems q(2) by auto
  then show ?case using Cons.prems q by (auto simp: div_rem_8_at)
qed simp

text \<open>The bits of the byte of bit \<open>l\<close> after it.\<close>

definition bits_after :: "nat \<Rightarrow> nat \<Rightarrow> bool" where
  "bits_after l j \<longleftrightarrow> l < j \<and> j div 8 = l div 8"

lemma positions_after:
  "map (Pair (l div 8)) [l mod 8 + 1..<8] = map at_bit (map ((+) (8 * (l div 8))) [l mod 8 + 1..<8])"
  "set (map ((+) (8 * (l div 8))) [l mod 8 + 1..<8]) = {j. bits_after l j}"
proof -
  show "map (Pair (l div 8)) [l mod 8 + 1..<8] = map at_bit (map ((+) (8 * (l div 8))) [l mod 8 + 1..<8])"
    by (auto simp: at_bit_def)
  have "j \<in> (+) (8 * (l div 8)) ` {l mod 8 + 1..<8} \<longleftrightarrow> bits_after l j" for j
  proof
    assume "bits_after l j"
    then have "j div 8 = l div 8" "l < j" by (simp_all add: bits_after_def)
    moreover from this have "l mod 8 < j mod 8" using div_mult_mod_eq[of l 8] div_mult_mod_eq[of j 8] by linarith
    ultimately have "j = 8 * (l div 8) + j mod 8" "j mod 8 \<in> {l mod 8 + 1..<8}"
      using div_mult_mod_eq[of j 8] by auto
    then show "j \<in> (+) (8 * (l div 8)) ` {l mod 8 + 1..<8}" by blast
  next
    assume "j \<in> (+) (8 * (l div 8)) ` {l mod 8 + 1..<8}"
    then obtain r where r: "j = 8 * (l div 8) + r" "r \<in> {l mod 8 + 1..<8}" by (rule imageE)
    have "l mod 8 < r" "r < 8" using r(2) by simp_all
    have "l = 8 * (l div 8) + l mod 8" by simp
    also have "\<dots> < j" unfolding r(1) by (rule add_strict_left_mono) fact
    finally have "l < j" .
    moreover note \<open>r < 8\<close>
    ultimately show "bits_after l j" using r(1) by (simp add: bits_after_def)
  qed
  then show "set (map ((+) (8 * (l div 8))) [l mod 8 + 1..<8]) = {j. bits_after l j}"
    unfolding set_map set_upt by blast
qed

lemma extend_sign_at:
  assumes "div_rem_8bit (wadd d0 (n - 1)) csb = at_bit l" and "l < 8 * length b"
    and "wadd e0 (n - 1) = e" and "e < 8 * length p"
  shows "\<exists>b'. extend_sign csb n p d0 e0 b = Inr b' \<and> length b' = length b \<and>
     (\<forall>j. bitv b' j = (bitv b j \<or> (bitv p e \<and> bits_after l j)))"
proof (cases "bitv p e")
  case True
  have "l div 8 < length b" using assms(2) by (simp add: less_mult_imp_div_less mult.commute)
  then have "j < 8 * length b" if "bits_after l j" for j
    using that div_less_iff_less_mult[of 8 j "length b"] by (simp add: bits_after_def mult.commute)
  then have "\<forall>j \<in> set (map ((+) (8 * (l div 8))) [l mod 8 + 1..<8]). j < 8 * length b"
    unfolding positions_after(2) by simp
  from set_bits_at[OF this] obtain b' where "set_bits b (map (Pair (l div 8)) [l mod 8 + 1..<8]) = Inr b'" "length b' = length b"
      "\<forall>j. bitv b' j = (bitv b j \<or> bits_after l j)"
    unfolding positions_after(2) positions_after(1)[symmetric] by blast
  then show ?thesis
    using assms True get_bit_at[OF assms(4)] by (simp add: extend_sign_def saturating_sub_def div_rem_8_at at_bit_def)
next
  case False
  then show ?thesis using assms get_bit_at[OF assms(4)] by (simp add: extend_sign_def saturating_sub_def div_rem_8_at)
qed

subsection \<open>Chunks\<close>

abbreviation "width P \<equiv> component_width (component_size_bits (pb_components P))"

text \<open>The number of components of a chunk, and the conditions on the codec and the chunk.\<close>

definition components_in :: "packbits_bound \<Rightarrow> nat \<Rightarrow> nat" where
  "components_in P N = N * num_components (pb_components P)"

definition packbits_fits :: "packbits_bound \<Rightarrow> nat \<Rightarrow> nat \<Rightarrow> bool" where
  "packbits_fits P N z \<longleftrightarrow> pb_first_bit P \<le> pb_last_bit P \<and> pb_last_bit P < component_size_bits (pb_components P) \<and>
     0 < num_components (pb_components P) \<and> 8 * z = num_components (pb_components P) * width P \<and>
     N * (8 * z) + 16 < M64 \<and> 8 * z < M64"

definition dec_bit :: "packbits_bound \<Rightarrow> nat \<Rightarrow> nat \<Rightarrow> nat" where
  "dec_bit P c k = c * width P + pb_first_bit P + k"

definition enc_bit :: "packbits_bound \<Rightarrow> nat \<Rightarrow> nat \<Rightarrow> nat" where
  "enc_bit P c k = c * bits_extracted P + k"

lemma packbits_sizes:
  assumes "packbits_fits P N z"
  shows "bits_extracted P = pb_last_bit P - pb_first_bit P + 1" and "0 < bits_extracted P" and "bits_extracted P \<le> width P"
    and "pb_first_bit P + bits_extracted P = pb_last_bit P + 1" and "width P < M64"
    and "element_size_bits P = bits_extracted P * num_components (pb_components P)" and "element_size_bits P \<le> 8 * z"
    and "N * element_size_bits P + 16 < M64" and "components_in P N * width P = N * (8 * z)" and "components_in P N * width P < M64"
    and "components_in P N * bits_extracted P = N * element_size_bits P"
    and "wmul N (element_size_bits P) = N * element_size_bits P"
    and "component_size_bits (pb_components P) \<le> width P"
    and "wmul N (num_components (pb_components P)) = components_in P N" and "0 < element_size_bits P"
proof -
  let ?n = "num_components (pb_components P)"
  have a: "pb_first_bit P \<le> pb_last_bit P" "pb_last_bit P < component_size_bits (pb_components P)" "0 < ?n"
      "8 * z = ?n * width P" "N * (8 * z) + 16 < M64" "8 * z < M64"
    using assms unfolding packbits_fits_def by blast+
  show w: "component_size_bits (pb_components P) \<le> width P" by (rule component_width_bounds(1))
  have "1 * width P \<le> ?n * width P" using a(3) by (intro mult_le_mono1) simp
  then have wz: "width P \<le> 8 * z" using a(4) by simp
  then show wM: "width P < M64" using a(6) by simp
  show n: "bits_extracted P = pb_last_bit P - pb_first_bit P + 1"
    using a(1,2) w wM by (simp add: bits_extracted_def wsub_eq wadd_eq)
  then show "0 < bits_extracted P" by simp
  show nw: "bits_extracted P \<le> width P" using n a(1,2) w by simp
  show "pb_first_bit P + bits_extracted P = pb_last_bit P + 1" using n a(1) by simp
  have "bits_extracted P * ?n \<le> width P * ?n" using nw by (rule mult_le_mono1)
  then have e8: "bits_extracted P * ?n \<le> 8 * z" using a(4) by (simp add: mult.commute)
  then show e: "element_size_bits P = bits_extracted P * ?n" using a(6) by (simp add: element_size_bits_def wmul_eq)
  then show le: "element_size_bits P \<le> 8 * z" using e8 by simp
  have "N * element_size_bits P \<le> N * (8 * z)" using le by (rule mult_le_mono2)
  then show Ne: "N * element_size_bits P + 16 < M64" using a(5) by linarith
  then show "wmul N (element_size_bits P) = N * element_size_bits P" by (simp add: wmul_eq)
  show "components_in P N * width P = N * (8 * z)" by (simp add: components_in_def a(4))
  then show "components_in P N * width P < M64" using a(5) by simp
  show "components_in P N * bits_extracted P = N * element_size_bits P" by (simp add: components_in_def e)
  have "?n * 1 \<le> ?n * width P" using nw n by (intro mult_le_mono2) simp
  then have "N * ?n \<le> N * (8 * z)" using a(4) by (intro mult_le_mono2) simp
  then have "N * ?n < M64" using a(5) by linarith
  then show "wmul N ?n = components_in P N" by (simp add: components_in_def wmul_eq)
  show "0 < element_size_bits P" using e n a(3) by simp
qed

lemma block_less: "c < C \<Longrightarrow> k < n \<Longrightarrow> c * n + k < C * (n :: nat)"
proof -
  assume "c < C" "k < n"
  then have "Suc c * n \<le> C * n" by (intro mult_le_mono1) simp
  then show ?thesis using \<open>k < n\<close> by simp
qed

lemma block_unique: "k < n \<Longrightarrow> k' < n \<Longrightarrow> c * n + k = c' * n + k' \<longleftrightarrow> c = c' \<and> k = (k' :: nat)"
proof -
  assume "k < n" "k' < n"
  then have "(c * n + k) div n = c" "(c * n + k) mod n = k" "(c' * n + k') div n = c'" "(c' * n + k') mod n = k'" by simp_all
  then show ?thesis by metis
qed

lemma packbits_positions:
  assumes "packbits_fits P N z" and "c < components_in P N" and "k < bits_extracted P"
  shows "dec_bit P c k < components_in P N * width P"
    and "div_rem_8bit (wadd (wadd (wmul c (component_size_bits (pb_components P))) (pb_first_bit P)) k)
           (component_size_bits (pb_components P)) = at_bit (dec_bit P c k)"
    and "wadd (wmul c (bits_extracted P)) k = enc_bit P c k" and "enc_bit P c k < N * element_size_bits P"
    and "wmul c (bits_extracted P) = c * bits_extracted P"
    and "wadd (wmul c (component_size_bits (pb_components P))) (pb_first_bit P) = c * component_size_bits (pb_components P) + pb_first_bit P"
proof -
  let ?csb = "component_size_bits (pb_components P)"
  note s = packbits_sizes[OF assms(1)]
  have k: "pb_first_bit P + k < ?csb" using assms(1,3) s(4) by (simp add: packbits_fits_def)
  then have kw: "pb_first_bit P + k < width P" using s(13) by simp
  show d: "dec_bit P c k < components_in P N * width P"
    using block_less[OF assms(2) kw] by (simp add: dec_bit_def add.assoc)
  have "c * ?csb \<le> c * width P" using s(13) by (rule mult_le_mono2)
  then have "c * ?csb + pb_first_bit P + k \<le> dec_bit P c k" by (simp add: dec_bit_def)
  then have small: "c * ?csb + pb_first_bit P + k < M64" using d s(10) by linarith
  then have w: "wadd (wmul c ?csb) (pb_first_bit P) = c * ?csb + pb_first_bit P" by (simp add: wmul_eq wadd_eq)
  then show "wadd (wmul c ?csb) (pb_first_bit P) = c * ?csb + pb_first_bit P" .
  have "div_rem_8bit (c * ?csb + (pb_first_bit P + k)) ?csb = at_bit (c * width P + (pb_first_bit P + k))"
    using k d s(5,10) by (intro div_rem_8bit_at) (simp_all add: dec_bit_def add.assoc)
  then show "div_rem_8bit (wadd (wadd (wmul c ?csb) (pb_first_bit P)) k) ?csb = at_bit (dec_bit P c k)"
    using small by (simp add: w wadd_eq dec_bit_def add.assoc)
  show e: "enc_bit P c k < N * element_size_bits P"
    using block_less[OF assms(2,3)] s(11) by (simp add: enc_bit_def)
  then have "c * bits_extracted P + k < M64" using s(8) by (simp add: enc_bit_def)
  then show "wadd (wmul c (bits_extracted P)) k = enc_bit P c k" "wmul c (bits_extracted P) = c * bits_extracted P"
    by (simp_all add: enc_bit_def wmul_eq wadd_eq)
qed

lemma encode_components_at:
  assumes "packbits_fits P N z" and "8 * length b = components_in P N * width P"
  shows "\<forall>c \<in> set cs. c < components_in P N \<Longrightarrow> N * element_size_bits P \<le> 8 * length p \<Longrightarrow>
    \<exists>p'. encode_components P b cs p = Inr p' \<and> length p' = length p \<and>
      (\<forall>j. bitv p' j = (bitv p j \<or> (\<exists>c \<in> set cs. \<exists>k < bits_extracted P. j = enc_bit P c k \<and> bitv b (dec_bit P c k))))"
proof (induction cs arbitrary: p)
  case (Cons c cs)
  note pos = packbits_positions[OF assms(1)]
  have "\<forall>k \<in> set [0..<bits_extracted P].
      div_rem_8bit (wadd (wadd (wmul c (component_size_bits (pb_components P))) (pb_first_bit P)) k)
        (component_size_bits (pb_components P)) = at_bit (dec_bit P c k) \<and> dec_bit P c k < 8 * length b \<and>
      wadd (wmul c (bits_extracted P)) k = enc_bit P c k \<and> enc_bit P c k < 8 * length p"
    using pos[of c] Cons.prems assms(2) by fastforce
  from encode_bits_at[OF this] obtain q where q: "encode_bits (component_size_bits (pb_components P)) b
      (wadd (wmul c (component_size_bits (pb_components P))) (pb_first_bit P)) (wmul c (bits_extracted P)) [0..<bits_extracted P] p = Inr q"
      "length q = length p" "\<forall>j. bitv q j = (bitv p j \<or> (\<exists>k \<in> set [0..<bits_extracted P]. j = enc_bit P c k \<and> bitv b (dec_bit P c k)))"
    by blast
  obtain p' where "encode_components P b cs q = Inr p'" "length p' = length q"
      "\<forall>j. bitv p' j = (bitv q j \<or> (\<exists>c \<in> set cs. \<exists>k < bits_extracted P. j = enc_bit P c k \<and> bitv b (dec_bit P c k)))"
    using Cons.IH[of q] Cons.prems q(2) by auto
  then show ?case using q by (auto simp: Let_def)
qed simp

text \<open>The bits that a component sets when it is decoded.\<close>

definition component_sets :: "packbits_bound \<Rightarrow> bytes \<Rightarrow> nat \<Rightarrow> nat \<Rightarrow> bool" where
  "component_sets P p c j \<longleftrightarrow> (\<exists>k < bits_extracted P. j = dec_bit P c k \<and> bitv p (enc_bit P c k)) \<or>
     (sign_extension (pb_components P) \<and> bitv p (enc_bit P c (bits_extracted P - 1)) \<and>
        bits_after (dec_bit P c (bits_extracted P - 1)) j)"

lemma decode_components_at:
  assumes "packbits_fits P N z" and "N * element_size_bits P \<le> 8 * length p"
  shows "\<forall>c \<in> set cs. c < components_in P N \<Longrightarrow> 8 * length b = components_in P N * width P \<Longrightarrow>
    \<exists>b'. decode_components P p cs b = Inr b' \<and> length b' = length b \<and>
      (\<forall>j. bitv b' j = (bitv b j \<or> (\<exists>c \<in> set cs. component_sets P p c j)))"
proof (induction cs arbitrary: b)
  case (Cons c cs)
  let ?csb = "component_size_bits (pb_components P)" and ?n = "bits_extracted P"
  let ?d0 = "wadd (wmul c ?csb) (pb_first_bit P)" and ?e0 = "wmul c ?n"
  note pos = packbits_positions[OF assms(1)]
  have c: "c < components_in P N" using Cons.prems(1) by simp
  have n: "?n - 1 < ?n" using packbits_sizes(2)[OF assms(1)] by simp
  have "\<forall>k \<in> set [0..<?n]. div_rem_8bit (wadd ?d0 k) ?csb = at_bit (dec_bit P c k) \<and> dec_bit P c k < 8 * length b \<and>
      wadd ?e0 k = enc_bit P c k \<and> enc_bit P c k < 8 * length p"
    using pos[OF c] Cons.prems(2) assms(2) by fastforce
  from decode_bits_at[OF this] obtain q where q: "decode_bits ?csb p ?d0 ?e0 [0..<?n] b = Inr q" "length q = length b"
      "\<forall>j. bitv q j = (bitv b j \<or> (\<exists>k \<in> set [0..<?n]. j = dec_bit P c k \<and> bitv p (enc_bit P c k)))"
    by blast
  have "dec_bit P c (?n - 1) < 8 * length q" "enc_bit P c (?n - 1) < 8 * length p"
    using pos(1,4)[OF c n] Cons.prems(2) assms(2) q(2) by simp_all
  from extend_sign_at[OF pos(2)[OF c n] this(1) pos(3)[OF c n] this(2)]
  obtain r where r: "(if sign_extension (pb_components P) then extend_sign ?csb ?n p ?d0 ?e0 q else Inr q) = Inr r" "length r = length q"
      "\<forall>j. bitv r j = (bitv q j \<or> (sign_extension (pb_components P) \<and> bitv p (enc_bit P c (?n - 1)) \<and> bits_after (dec_bit P c (?n - 1)) j))"
    by (cases "sign_extension (pb_components P)") auto
  obtain b' where "decode_components P p cs r = Inr b'" "length b' = length r"
      "\<forall>j. bitv b' j = (bitv r j \<or> (\<exists>c \<in> set cs. component_sets P p c j))"
    using Cons.IH[of r] Cons.prems q(2) r(2) by auto
  moreover have "bitv r j = (bitv b j \<or> component_sets P p c j)" for j
    using q(3) r(3) by (auto simp: component_sets_def)
  ultimately show ?case using q(1,2) r(1,2) by (auto simp: Let_def)
qed simp

end
