(* ===== verification/Pack_Reads.thy ===== *)
theory Pack_Reads
  imports Pack_Laws Sharding_Laws
begin

text \<open>
  Chunks through the \<open>packbits\<close> codec: what a chunk is after it has been packed and unpacked, which chunks are unchanged, and what the partial
  decoder returns of unsigned components that are packed from their first bit.
\<close>

subsection \<open>Whole chunks\<close>

text \<open>What is kept of a component: its packed bits, and the sign in the rest of the byte of the last one.\<close>

definition kept_bit :: "packbits_bound \<Rightarrow> bytes \<Rightarrow> nat \<Rightarrow> nat \<Rightarrow> bool" where
  "kept_bit P b c r \<longleftrightarrow>
     (if pb_first_bit P \<le> r \<and> r \<le> pb_last_bit P then bitv b (c * width P + r)
      else sign_extension (pb_components P) \<and> bits_after (pb_last_bit P) r \<and> bitv b (c * width P + pb_last_bit P))"

definition packable :: "packbits_bound \<Rightarrow> nat \<Rightarrow> bytes \<Rightarrow> bool" where
  "packable P N b \<longleftrightarrow> list_all (\<lambda>c. list_all (\<lambda>r. bitv b (c * width P + r) = kept_bit P b c r) [0..<width P]) [0..<components_in P N]"

lemma packableD: "packable P N b \<Longrightarrow> c < components_in P N \<Longrightarrow> r < width P \<Longrightarrow> bitv b (c * width P + r) = kept_bit P b c r"
  by (auto simp: packable_def list_all_iff)

lemma elements_size_bytes_ok:
  assumes "packbits_fits P N z"
  shows "N * element_size_bits P \<le> 8 * elements_size_bytes P N" and "8 * elements_size_bytes P N < N * element_size_bits P + 8"
  using div_ceil_bounds[of 8 "N * element_size_bits P"] packbits_sizes(12)[OF assms]
  by (simp_all add: elements_size_bytes_def mult.commute)

text \<open>The packed bits of a chunk.\<close>

definition packs :: "packbits_bound \<Rightarrow> nat \<Rightarrow> bytes \<Rightarrow> bytes \<Rightarrow> bool" where
  "packs P N b p \<longleftrightarrow> length p = elements_size_bytes P N \<and>
     (\<forall>c < components_in P N. \<forall>k < bits_extracted P. bitv p (enc_bit P c k) = bitv b (dec_bit P c k))"

lemma encode_components_packs:
  assumes "packbits_fits P N z" and "length b = N * z"
  obtains p where "encode_components P b [0..<components_in P N] (replicate (elements_size_bytes P N) 0) = Inr p" and "packs P N b p"
proof -
  note s = packbits_sizes[OF assms(1)]
  have b: "8 * length b = components_in P N * width P" using assms(2) s(9) by simp
  have "\<forall>c \<in> set [0..<components_in P N]. c < components_in P N" by simp
  from encode_components_at[OF assms(1) b this, of "replicate (elements_size_bytes P N) 0"] obtain p where
      p: "encode_components P b [0..<components_in P N] (replicate (elements_size_bytes P N) 0) = Inr p" "length p = elements_size_bytes P N"
      "\<forall>j. bitv p j = (bitv (replicate (elements_size_bytes P N) 0) j \<or>
        (\<exists>c \<in> set [0..<components_in P N]. \<exists>k < bits_extracted P. j = enc_bit P c k \<and> bitv b (dec_bit P c k)))"
    using elements_size_bytes_ok(1)[OF assms(1)] by auto
  have "bitv p (enc_bit P c k) = bitv b (dec_bit P c k)" if c: "c < components_in P N" "k < bits_extracted P" for c k
  proof -
    have "enc_bit P c k < 8 * elements_size_bytes P N"
      using packbits_positions(4)[OF assms(1) c] elements_size_bytes_ok(1)[OF assms(1)] by simp
    then have "bitv p (enc_bit P c k) = (\<exists>c' \<in> set [0..<components_in P N]. \<exists>k' < bits_extracted P.
        enc_bit P c k = enc_bit P c' k' \<and> bitv b (dec_bit P c' k'))"
      using p(3) by simp
    also have "\<dots> = bitv b (dec_bit P c k)"
      using c block_unique[OF c(2)] by (auto simp: enc_bit_def)
    finally show ?thesis .
  qed
  then show ?thesis using that p(1,2) by (simp add: packs_def)
qed

lemma bits_after_block:
  assumes "8 dvd w" and "l < w" and "r < (w :: nat)"
  shows "bits_after (c' * w + l) (c * w + r) \<longleftrightarrow> c' = c \<and> bits_after l r"
proof -
  obtain v where w: "w = 8 * v" using assms(1) by (elim dvdE)
  have "0 < v" using assms(2) w by (cases v) simp_all
  have e: "(x * w + y) div 8 = x * v + y div 8" for x y
    using div_mult_self2[of 8 y "x * v"] by (simp add: w mult.left_commute add.commute)
  have lv: "l div 8 < v" "r div 8 < v" using assms(2,3) w by (simp_all add: less_mult_imp_div_less mult.commute)
  show ?thesis
    using block_unique[OF lv(2,1)] by (auto simp: bits_after_def e)
qed

lemma decode_components_kept:
  assumes "packbits_fits P N z" and "packs P N b p"
  obtains b' where "decode_components P p [0..<components_in P N] (replicate (N * z) 0) = Inr b'" and "length b' = N * z"
    and "\<And>c r. c < components_in P N \<Longrightarrow> r < width P \<Longrightarrow> bitv b' (c * width P + r) = kept_bit P b c r"
proof -
  note s = packbits_sizes[OF assms(1)]
  have p: "N * element_size_bits P \<le> 8 * length p" "\<And>c k. c < components_in P N \<Longrightarrow> k < bits_extracted P \<Longrightarrow>
      bitv p (enc_bit P c k) = bitv b (dec_bit P c k)"
    using assms(2) elements_size_bytes_ok(1)[OF assms(1)] by (auto simp: packs_def)
  have "\<forall>c \<in> set [0..<components_in P N]. c < components_in P N" by simp
  from decode_components_at[OF assms(1) p(1) this, of "replicate (N * z) 0"] obtain b' where
      b': "decode_components P p [0..<components_in P N] (replicate (N * z) 0) = Inr b'" "length b' = N * z"
      "\<forall>j. bitv b' j = (bitv (replicate (N * z) 0) j \<or> (\<exists>c \<in> set [0..<components_in P N]. component_sets P p c j))"
    using s(9) by auto
  have "bitv b' (c * width P + r) = kept_bit P b c r" if c: "c < components_in P N" "r < width P" for c r
  proof -
    let ?n = "bits_extracted P"
    have l: "pb_first_bit P + (?n - 1) = pb_last_bit P" "pb_last_bit P < width P"
      using s(2,4,13) assms(1) by (simp_all add: packbits_fits_def)
    have "c * width P + r < components_in P N * width P" by (rule block_less[OF c])
    then have "bitv b' (c * width P + r) = (\<exists>c' < components_in P N. component_sets P p c' (c * width P + r))"
      using b'(3) s(9) by auto
    also have "\<dots> = component_sets P p c (c * width P + r)"
    proof -
      have "c' = c" if sets: "component_sets P p c' (c * width P + r)" for c'
      proof -
        consider k where "k < ?n" "c * width P + r = c' * width P + (pb_first_bit P + k)"
          | "bits_after (c' * width P + pb_last_bit P) (c * width P + r)"
          using sets l(1) by (auto simp: component_sets_def dec_bit_def add.assoc)
        then show ?thesis
        proof cases
          case 1
          then show ?thesis using block_unique[OF c(2), of "pb_first_bit P + k" c c'] s(4) l(2) by simp
        next
          case 2
          then show ?thesis using bits_after_block[OF component_width_bounds(3) l(2) c(2)] by simp
        qed
      qed
      then show ?thesis using c(1) by blast
    qed
    also have "\<dots> = kept_bit P b c r"
    proof -
      have 1: "(\<exists>k < ?n. c * width P + r = dec_bit P c k \<and> bitv p (enc_bit P c k)) \<longleftrightarrow>
          pb_first_bit P \<le> r \<and> r \<le> pb_last_bit P \<and> bitv b (c * width P + r)"
      proof
        assume "\<exists>k < ?n. c * width P + r = dec_bit P c k \<and> bitv p (enc_bit P c k)"
        then obtain k where k: "k < ?n" "r = pb_first_bit P + k" "bitv p (enc_bit P c k)" by (auto simp: dec_bit_def)
        then show "pb_first_bit P \<le> r \<and> r \<le> pb_last_bit P \<and> bitv b (c * width P + r)"
          using p(2)[OF c(1) k(1)] s(4) by (simp add: dec_bit_def add.assoc)
      next
        assume r: "pb_first_bit P \<le> r \<and> r \<le> pb_last_bit P \<and> bitv b (c * width P + r)"
        then have "r - pb_first_bit P < ?n" "c * width P + r = dec_bit P c (r - pb_first_bit P)"
          using s(4) by (linarith, simp add: dec_bit_def)
        then show "\<exists>k < ?n. c * width P + r = dec_bit P c k \<and> bitv p (enc_bit P c k)"
          using p(2)[OF c(1)] r by metis
      qed
      have 2: "bitv p (enc_bit P c (?n - 1)) = bitv b (c * width P + pb_last_bit P)"
        using p(2)[OF c(1), of "?n - 1"] s(2) unfolding dec_bit_def add.assoc l(1) by simp
      have 3: "bits_after (dec_bit P c (?n - 1)) (c * width P + r) = bits_after (pb_last_bit P) r"
        using bits_after_block[OF component_width_bounds(3) l(2) c(2), of c] unfolding dec_bit_def add.assoc l(1) by simp
      have 4: "bits_after (pb_last_bit P) r \<Longrightarrow> \<not> r \<le> pb_last_bit P" by (simp add: bits_after_def)
      show ?thesis unfolding component_sets_def kept_bit_def 1 2 3 using 4 by auto
    qed
    finally show ?thesis .
  qed
  then show ?thesis using that b'(1,2) by blast
qed

lemma packable_unchanged:
  assumes "packbits_fits P N z" and "packable P N b" and "length b = N * z" and "length b' = N * z"
    and "\<And>c r. c < components_in P N \<Longrightarrow> r < width P \<Longrightarrow> bitv b' (c * width P + r) = kept_bit P b c r"
  shows "b' = b"
proof (rule bytes_bits_eq)
  note s = packbits_sizes[OF assms(1)]
  show "length b' = length b" using assms(3,4) by simp
  fix j assume "j < 8 * length b'"
  then have "j < components_in P N * width P" using assms(4) s(9) by simp
  then have "j div width P < components_in P N" "j mod width P < width P" and j: "j div width P * width P + j mod width P = j"
    using s(2,3) by (simp_all add: less_mult_imp_div_less)
  note c = this(1,2)
  show "bitv b' j = bitv b j" using assms(5)[OF c] packableD[OF assms(2) c] unfolding j by simp
qed

subsection \<open>Partial decoding of unsigned components that are packed from their first bit\<close>

definition unsigned_from_first :: "packbits_bound \<Rightarrow> bool" where
  "unsigned_from_first P \<longleftrightarrow> pb_first_bit P = 0 \<and> \<not> sign_extension (pb_components P)"

lemma partial_components_at:
  assumes "packbits_fits P N z" and "unsigned_from_first P" and "D * width P < M64"
  shows "\<forall>c \<in> set cs. outer + c < D \<and> (\<forall>k < bits_extracted P. c * bits_extracted P + k + off < min M64 (8 * length p)) \<Longrightarrow>
      8 * length b = D * width P \<Longrightarrow>
    \<exists>b'. partial_decode_components P p off outer cs b = Inr b' \<and> length b' = length b \<and>
      (\<forall>j. bitv b' j = (bitv b j \<or> (\<exists>c \<in> set cs. \<exists>k < bits_extracted P.
         j = (outer + c) * width P + k \<and> bitv p (c * bits_extracted P + k + off))))"
proof (induction cs arbitrary: b)
  case (Cons c cs)
  let ?csb = "component_size_bits (pb_components P)" and ?n = "bits_extracted P"
  note s = packbits_sizes[OF assms(1)]
  have c: "outer + c < D" "\<And>k. k < ?n \<Longrightarrow> c * ?n + k + off < M64 \<and> c * ?n + k + off < 8 * length p" using Cons.prems(1) by simp_all
  have ncsb: "?n \<le> ?csb" using s(4) assms(1,2) by (simp add: unsigned_from_first_def packbits_fits_def)
  have dec: "div_rem_8bit (wadd (wmul (wadd outer c) ?csb) k) ?csb = at_bit ((outer + c) * width P + k) \<and>
      (outer + c) * width P + k < 8 * length b \<and> wadd (wadd (wmul c ?n) off) k = c * ?n + k + off \<and> c * ?n + k + off < 8 * length p"
    if k: "k < ?n" for k
  proof -
    have "k < width P" using k s(3) by simp
    from block_less[OF c(1) this] have lt: "(outer + c) * width P + k < D * width P" .
    have "D * 1 \<le> D * width P" using s(2,3) by (intro mult_le_mono2) simp
    then have D: "outer + c < M64" using c(1) assms(3) by linarith
    have "(outer + c) * ?csb \<le> (outer + c) * width P" using s(13) by (rule mult_le_mono2)
    then have small: "(outer + c) * ?csb + k < M64" using lt assms(3) by linarith
    have w: "wadd (wmul (wadd outer c) ?csb) k = (outer + c) * ?csb + k" using D small by (simp add: wmul_eq wadd_eq)
    have "div_rem_8bit ((outer + c) * ?csb + k) ?csb = at_bit ((outer + c) * width P + k)"
      using k ncsb lt assms(3) s(5) by (intro div_rem_8bit_at) simp_all
    moreover have "wadd (wadd (wmul c ?n) off) k = c * ?n + k + off" using c(2)[OF k] by (simp add: wmul_eq wadd_eq)
    ultimately show ?thesis using w lt Cons.prems(2) c(2)[OF k] by simp
  qed
  then have "\<forall>k \<in> set [0..<?n]. div_rem_8bit (wadd (wmul (wadd outer c) ?csb) k) ?csb = at_bit ((outer + c) * width P + k) \<and>
      (outer + c) * width P + k < 8 * length b \<and> wadd (wadd (wmul c ?n) off) k = c * ?n + k + off \<and> c * ?n + k + off < 8 * length p"
    by simp
  from decode_bits_at[OF this] obtain q where q: "decode_bits ?csb p (wmul (wadd outer c) ?csb) (wadd (wmul c ?n) off) [0..<?n] b = Inr q"
      "length q = length b" "\<forall>j. bitv q j = (bitv b j \<or> (\<exists>k \<in> set [0..<?n]. j = (outer + c) * width P + k \<and> bitv p (c * ?n + k + off)))"
    by blast
  obtain b' where "partial_decode_components P p off outer cs q = Inr b'" "length b' = length q"
      "\<forall>j. bitv b' j = (bitv q j \<or> (\<exists>c \<in> set cs. \<exists>k < ?n. j = (outer + c) * width P + k \<and> bitv p (c * ?n + k + off)))"
    using Cons.IH[of q] Cons.prems q(2) by auto
  then show ?case using q assms(2) by (auto simp: Let_def unsigned_from_first_def)
qed simp

text \<open>The bits that the elements \<open>idx\<close> set when the first of their components is component \<open>outer\<close> of the result.\<close>

definition elements_set :: "packbits_bound \<Rightarrow> bytes \<Rightarrow> nat \<Rightarrow> nat list \<Rightarrow> nat \<Rightarrow> bool" where
  "elements_set P p outer idx j \<longleftrightarrow> (\<exists>u < length idx. \<exists>q < num_components (pb_components P). \<exists>k < bits_extracted P.
     j = (outer + u * num_components (pb_components P) + q) * width P + k \<and>
     bitv p (enc_bit P (idx ! u * num_components (pb_components P) + q) k))"

lemma elements_set_append:
  "elements_set P p outer (xs @ ys) j \<longleftrightarrow> elements_set P p outer xs j \<or>
     elements_set P p (outer + length xs * num_components (pb_components P)) ys j"
proof -
  let ?m = "num_components (pb_components P)"
  have split: "(\<exists>u < length xs + length ys. Q u) \<longleftrightarrow> (\<exists>u < length xs. Q u) \<or> (\<exists>u < length ys. Q (length xs + u))" for Q
  proof
    assume "\<exists>u < length xs + length ys. Q u"
    then obtain u where u: "u < length xs + length ys" "Q u" by blast
    show "(\<exists>u < length xs. Q u) \<or> (\<exists>u < length ys. Q (length xs + u))"
    proof (cases "u < length xs")
      case False
      then have "Q (length xs + (u - length xs))" "u - length xs < length ys" using u by simp_all
      then show ?thesis by blast
    qed (use u in blast)
  next
    assume "(\<exists>u < length xs. Q u) \<or> (\<exists>u < length ys. Q (length xs + u))"
    then show "\<exists>u < length xs + length ys. Q u" by (meson add_less_cancel_left trans_less_add1)
  qed
  show ?thesis
    unfolding elements_set_def length_append split by (simp add: nth_append add_mult_distrib add.assoc cong: conj_cong)
qed

lemma elements_set_run:
  "elements_set P p outer [i..<i + m] j \<longleftrightarrow> (\<exists>c < m * num_components (pb_components P). \<exists>k < bits_extracted P.
     j = (outer + c) * width P + k \<and> bitv p (enc_bit P (i * num_components (pb_components P) + c) k))"
proof -
  let ?m = "num_components (pb_components P)"
  have blocks: "(\<exists>u < m. \<exists>q < ?m. Q (u * ?m + q)) \<longleftrightarrow> (\<exists>c < m * ?m. Q c)" for Q
  proof
    assume "\<exists>c < m * ?m. Q c"
    then obtain c where c: "c < m * ?m" "Q c" by blast
    then have "0 < ?m" by (cases ?m) simp_all
    then have "c div ?m < m" "c mod ?m < ?m" "Q (c div ?m * ?m + c mod ?m)"
      using c by (simp_all add: less_mult_imp_div_less)
    then show "\<exists>u < m. \<exists>q < ?m. Q (u * ?m + q)" by blast
  qed (use block_less in blast)
  show ?thesis
    unfolding blocks[symmetric] elements_set_def by (simp add: add_mult_distrib add.assoc cong: conj_cong)
qed

text \<open>What is read of the encoded bytes for a run of elements.\<close>

definition run_bytes :: "packbits_bound \<Rightarrow> bytes \<Rightarrow> nat \<times> nat \<Rightarrow> bytes" where
  "run_bytes P p run = (case run of (i, m) \<Rightarrow>
     take (div_ceil (i * element_size_bits P + m * element_size_bits P) 8 - i * element_size_bits P div 8)
       (drop (i * element_size_bits P div 8) p))"

lemma run_bytes_bits:
  assumes "k < m * element_size_bits P" and "div_ceil (i * element_size_bits P + m * element_size_bits P) 8 \<le> length p"
  shows "k + i * element_size_bits P mod 8 < 8 * length (run_bytes P p (i, m))"
    and "bitv (run_bytes P p (i, m)) (k + i * element_size_bits P mod 8) = bitv p (i * element_size_bits P + k)"
proof -
  let ?x = "i * element_size_bits P" and ?y = "div_ceil (i * element_size_bits P + m * element_size_bits P) 8"
  have y: "?x + m * element_size_bits P \<le> 8 * ?y" using div_ceil_bounds(1)[of 8 "?x + m * element_size_bits P"] by (simp add: mult.commute)
  have x: "8 * (?x div 8) + ?x mod 8 = ?x" by simp
  then have lt: "k + ?x mod 8 < 8 * (?y - ?x div 8)" using assms(1) y by linarith
  then have len: "length (run_bytes P p (i, m)) = ?y - ?x div 8" using assms(2) by (simp add: run_bytes_def)
  then show "k + ?x mod 8 < 8 * length (run_bytes P p (i, m))" using lt by simp
  have "(k + ?x mod 8) div 8 < ?y - ?x div 8" using lt by (simp add: less_mult_imp_div_less mult.commute)
  then have "?x div 8 + (k + ?x mod 8) div 8 < length p" using assms(2) by linarith
  then have "bitv (run_bytes P p (i, m)) (k + ?x mod 8) = bitv p (8 * (?x div 8) + (k + ?x mod 8))"
    using lt by (simp add: run_bytes_def bitv_take bitv_drop)
  also have "8 * (?x div 8) + (k + ?x mod 8) = ?x + k" using x by linarith
  finally show "bitv (run_bytes P p (i, m)) (k + ?x mod 8) = bitv p (?x + k)" .
qed

lemma partial_ranges_at:
  assumes fits: "packbits_fits P N z" "unsigned_from_first P" and D: "D * width P < M64"
    and p: "length p = elements_size_bytes P N"
  shows "\<forall>(i, m) \<in> set runs. i + m \<le> N \<Longrightarrow> outer + (\<Sum>(i, m) \<leftarrow> runs. m) * num_components (pb_components P) \<le> D \<Longrightarrow>
      8 * length b = D * width P \<Longrightarrow>
    \<exists>b'. partial_decode_ranges P (zip (map (run_bytes P p) runs) (map (run_range (element_size_bits P)) runs)) outer b = Inr b' \<and>
      length b' = length b \<and> (\<forall>j. bitv b' j = (bitv b j \<or> elements_set P p outer (concat (map (\<lambda>(i, m). [i..<i + m]) runs)) j))"
proof (induction runs arbitrary: outer b)
  case Nil
  then show ?case by (simp add: elements_set_def)
next
  case (Cons r runs)
  obtain i m where r: "r = (i, m)" by (metis prod.exhaust)
  let ?n = "bits_extracted P" and ?m = "num_components (pb_components P)" and ?e = "element_size_bits P"
  note s = packbits_sizes[OF fits(1)]
  have im: "i + m \<le> N" using Cons.prems(1) r by simp
  have "(i + m) * ?e \<le> N * ?e" using im by (rule mult_le_mono1)
  then have eb: "i * ?e + m * ?e \<le> N * ?e" "i * ?e + m * ?e < M64" "i * ?e < M64"
    using s(8) by (simp_all add: add_mult_distrib)
  have "div_ceil (i * ?e + m * ?e) 8 \<le> elements_size_bytes P N"
  proof -
    have "\<not> elements_size_bytes P N < div_ceil (i * ?e + m * ?e) 8"
      using less_div_ceil_iff[of 8 "elements_size_bytes P N" "i * ?e + m * ?e"] elements_size_bytes_ok(1)[OF fits(1)] eb(1) by simp
    then show ?thesis by simp
  qed
  then have len: "div_ceil (i * ?e + m * ?e) 8 \<le> length p" using p by simp
  have me: "m * ?e = m * ?m * ?n" by (simp add: s(6) mult.assoc mult.commute[of ?n])
  have "m * ?m \<le> D" using Cons.prems(2) by (simp add: r add_mult_distrib)
  moreover have "D * 1 \<le> D * width P" using s(2,3) by (intro mult_le_mono2) simp
  ultimately have mM: "m * ?m < M64" using D by linarith
  have num: "wsub (i * ?e + m * ?e) (i * ?e) div ?e = m" "wmul m ?m = m * ?m"
    using eb(2) s(15) mM by (simp_all add: wsub_eq wmul_eq)
  have off: "wsub (i * ?e) (wmul 8 (i * ?e div 8)) = i * ?e mod 8"
    using eb(3) by (simp add: wmul_eq wsub_eq minus_mult_div_eq_mod)
  have cs: "\<forall>c \<in> set [0..<m * ?m]. outer + c < D \<and>
      (\<forall>k < ?n. c * ?n + k + i * ?e mod 8 < min M64 (8 * length (run_bytes P p (i, m))))"
  proof
    fix c assume "c \<in> set [0..<m * ?m]"
    then have c: "c < m * ?m" by simp
    have "c * ?n + k + i * ?e mod 8 < min M64 (8 * length (run_bytes P p (i, m)))" if k: "k < ?n" for k
    proof -
      have "c * ?n + k < m * ?e" using block_less[OF c k] unfolding me .
      moreover from this have "c * ?n + k + i * ?e mod 8 < M64" using eb(1) s(8) mod_less_divisor[of 8 "i * ?e"] by linarith
      ultimately show ?thesis using run_bytes_bits(1)[OF _ len] by simp
    qed
    then show "outer + c < D \<and> (\<forall>k < ?n. c * ?n + k + i * ?e mod 8 < min M64 (8 * length (run_bytes P p (i, m))))"
      using c Cons.prems(2) by (simp add: r add_mult_distrib)
  qed
  from partial_components_at[OF fits D cs Cons.prems(3)] obtain q where
      q: "partial_decode_components P (run_bytes P p (i, m)) (i * ?e mod 8) outer [0..<m * ?m] b = Inr q" "length q = length b"
      "\<forall>j. bitv q j = (bitv b j \<or> (\<exists>c \<in> set [0..<m * ?m]. \<exists>k < ?n.
         j = (outer + c) * width P + k \<and> bitv (run_bytes P p (i, m)) (c * ?n + k + i * ?e mod 8)))"
    by blast
  have bits: "bitv (run_bytes P p (i, m)) (c * ?n + k + i * ?e mod 8) = bitv p (enc_bit P (i * ?m + c) k)"
    if "c < m * ?m" "k < ?n" for c k
  proof -
    have "c * ?n + k < m * ?e" using block_less[OF that] unfolding me .
    from run_bytes_bits(2)[OF this len] show ?thesis
      by (simp add: enc_bit_def s(6) add_mult_distrib mult.assoc mult.commute[of ?n] add.assoc)
  qed
  have qb: "bitv q j = (bitv b j \<or> elements_set P p outer [i..<i + m] j)" for j
    using q(3) bits unfolding elements_set_run by auto
  have "outer + m * ?m \<le> D" using Cons.prems(2) by (simp add: r add_mult_distrib)
  then have "outer + m * ?m < M64" using D \<open>D * 1 \<le> D * width P\<close> by linarith
  then have out: "wadd outer (m * ?m) = outer + m * ?m" by (simp add: wadd_eq)
  obtain b' where b': "partial_decode_ranges P (zip (map (run_bytes P p) runs) (map (run_range ?e) runs)) (outer + m * ?m) q = Inr b'"
      "length b' = length q"
      "\<forall>j. bitv b' j = (bitv q j \<or> elements_set P p (outer + m * ?m) (concat (map (\<lambda>(i, m). [i..<i + m]) runs)) j)"
    using Cons.IH[of "outer + m * ?m" q] Cons.prems q(2) by (auto simp: r add_mult_distrib add.assoc)
  have "bitv b' j = (bitv b j \<or> elements_set P p outer (concat (map (\<lambda>(i, m). [i..<i + m]) (r # runs))) j)" for j
    using b'(3) qb by (simp add: r elements_set_append)
  moreover have "partial_decode_ranges P (zip (map (run_bytes P p) (r # runs)) (map (run_range ?e) (r # runs))) outer b = Inr b'"
    using q(1) b'(1) num off out by (simp add: r run_range_def Let_def)
  ultimately show ?case using b'(2) q(2) by auto
qed

end
