(* ===== verification/Optional_Codec.thy ===== *)
theory Optional_Codec
  imports Vlen_Codecs
begin

text \<open>
  The \<open>optional\<close> codec (\<open>zarrs/src/array/codec/array_to_bytes/optional/optional_codec.rs\<close>): the msk of a chunk of optional elements
  and the data of the elements that are not null are encoded by codecs of their own, of which only the methods are used.  The
  inner type may be optional again.  The codec has no partial decoder of its own, so the default one is used.
\<close>

record optional_bound =
  op_mask_codecs :: array_codec
  op_data_codecs :: array_codec
  op_data_type :: data_type
  op_fill_value :: fill_value

subsection \<open>Sparse and dense data\<close>

text \<open>The loops over the mask; \<open>i\<close> is the index of an element and \<open>sparse_idx\<close> that among the elements that are not null.\<close>

fun sparse_fixed :: "usize \<Rightarrow> bytes \<Rightarrow> nat \<Rightarrow> bytes \<Rightarrow> bytes \<Rightarrow> codec_error + bytes" where
  "sparse_fixed inner_size b i [] sparse_bytes = Inr sparse_bytes"
| "sparse_fixed inner_size b i (mask_byte # msk) sparse_bytes =
     (if mask_byte \<noteq> 0
      then (case slice b (wmul i inner_size) (wadd (wmul i inner_size) inner_size) of
              None \<Rightarrow> Inl CodecPanic
            | Some x \<Rightarrow> sparse_fixed inner_size b (Suc i) msk (sparse_bytes @ x))
      else sparse_fixed inner_size b (Suc i) msk sparse_bytes)"

fun sparse_variable :: "bytes \<Rightarrow> usize list \<Rightarrow> nat \<Rightarrow> bytes \<Rightarrow> bytes \<Rightarrow> usize list \<Rightarrow> codec_error + (bytes \<times> usize list)" where
  "sparse_variable b offsets i [] sparse_bytes sparse_offsets = Inr (sparse_bytes, sparse_offsets)"
| "sparse_variable b offsets i (mask_byte # msk) sparse_bytes sparse_offsets =
     (if mask_byte \<noteq> 0
      then bind_res (vlen_item b offsets i) (\<lambda>x.
        sparse_variable b offsets (Suc i) msk (sparse_bytes @ x) (sparse_offsets @ [length (sparse_bytes @ x)]))
      else sparse_variable b offsets (Suc i) msk sparse_bytes sparse_offsets)"

fun sparse_mask :: "bytes \<Rightarrow> nat \<Rightarrow> bytes \<Rightarrow> bytes \<Rightarrow> codec_error + bytes" where
  "sparse_mask inner_mask i [] sparse_inner_mask = Inr sparse_inner_mask"
| "sparse_mask inner_mask i (mask_byte # msk) sparse_inner_mask =
     (if mask_byte \<noteq> 0
      then (if i < length inner_mask then sparse_mask inner_mask (Suc i) msk (sparse_inner_mask @ [inner_mask ! i]) else Inl CodecPanic)
      else sparse_mask inner_mask (Suc i) msk sparse_inner_mask)"

definition nested_optional_error :: codec_error where
  "nested_optional_error = CodecOther ''nested optional ArrayBytes requires nested optional DataType''"

fun extract_sparse_data :: "array_bytes \<Rightarrow> bytes \<Rightarrow> data_type \<Rightarrow> codec_error + array_bytes" where
  "extract_sparse_data (FixedBytes b) msk inner_type =
     (case fixed_size inner_type of
        None \<Rightarrow> Inl CodecPanic
      | Some inner_size \<Rightarrow> bind_res (sparse_fixed inner_size b 0 msk []) (\<lambda>b. Inr (FixedBytes b)))"
| "extract_sparse_data (VariableBytes b offsets) msk inner_type =
     bind_res (sparse_variable b offsets 0 msk [] [0]) (\<lambda>(b, offsets). Inr (VariableBytes b offsets))"
| "extract_sparse_data (OptionalBytes d inner_mask) msk inner_type =
     bind_res (sparse_mask inner_mask 0 msk []) (\<lambda>sparse_inner_mask.
       case as_optional inner_type of
         None \<Rightarrow> Inl nested_optional_error
       | Some t \<Rightarrow> bind_res (extract_sparse_data d msk t) (\<lambda>d. Inr (OptionalBytes d sparse_inner_mask)))"

fun dense_fixed :: "usize \<Rightarrow> bytes \<Rightarrow> nat \<Rightarrow> nat \<Rightarrow> bytes \<Rightarrow> bytes \<Rightarrow> codec_error + bytes" where
  "dense_fixed inner_size sparse_bytes i sparse_idx [] dense_bytes = Inr dense_bytes"
| "dense_fixed inner_size sparse_bytes i sparse_idx (mask_byte # msk) dense_bytes =
     (if mask_byte \<noteq> 0
      then (case slice sparse_bytes (wmul sparse_idx inner_size) (wadd (wmul sparse_idx inner_size) inner_size) of
              None \<Rightarrow> Inl CodecPanic
            | Some x \<Rightarrow> bind_res (write_at dense_bytes (wmul i inner_size) x) (\<lambda>dense_bytes.
                dense_fixed inner_size sparse_bytes (Suc i) (Suc sparse_idx) msk dense_bytes))
      else dense_fixed inner_size sparse_bytes (Suc i) sparse_idx msk dense_bytes)"

fun dense_variable :: "bytes \<Rightarrow> usize list \<Rightarrow> nat \<Rightarrow> bytes \<Rightarrow> bytes \<Rightarrow> usize list \<Rightarrow> codec_error + (bytes \<times> usize list)" where
  "dense_variable b sparse_offsets sparse_idx [] dense_bytes dense_offsets = Inr (dense_bytes, dense_offsets)"
| "dense_variable b sparse_offsets sparse_idx (mask_byte # msk) dense_bytes dense_offsets =
     (if mask_byte \<noteq> 0
      then bind_res (vlen_item b sparse_offsets sparse_idx) (\<lambda>x.
        dense_variable b sparse_offsets (Suc sparse_idx) msk (dense_bytes @ x) (dense_offsets @ [length (dense_bytes @ x)]))
      else dense_variable b sparse_offsets sparse_idx msk dense_bytes (dense_offsets @ [length dense_bytes]))"

fun dense_mask :: "bytes \<Rightarrow> nat \<Rightarrow> bytes \<Rightarrow> codec_error + bytes" where
  "dense_mask sparse_inner_mask sparse_idx [] = Inr []"
| "dense_mask sparse_inner_mask sparse_idx (mask_byte # msk) =
     (if mask_byte \<noteq> 0
      then (if sparse_idx < length sparse_inner_mask
            then bind_res (dense_mask sparse_inner_mask (Suc sparse_idx) msk) (\<lambda>m. Inr (sparse_inner_mask ! sparse_idx # m))
            else Inl CodecPanic)
      else bind_res (dense_mask sparse_inner_mask sparse_idx msk) (\<lambda>m. Inr (0 # m)))"

fun expand_to_dense :: "array_bytes \<Rightarrow> bytes \<Rightarrow> data_type \<Rightarrow> codec_error + array_bytes" where
  "expand_to_dense (FixedBytes b) msk inner_type =
     (case fixed_size inner_type of
        None \<Rightarrow> Inl CodecPanic
      | Some inner_size \<Rightarrow>
          bind_res (dense_fixed inner_size b 0 0 msk (replicate (wmul (length msk) inner_size) 0)) (\<lambda>b. Inr (FixedBytes b)))"
| "expand_to_dense (VariableBytes b offsets) msk inner_type =
     bind_res (dense_variable b offsets 0 msk [] [0]) (\<lambda>(b, offsets). Inr (VariableBytes b offsets))"
| "expand_to_dense (OptionalBytes d sparse_inner_mask) msk inner_type =
     (case as_optional inner_type of
        None \<Rightarrow> Inl nested_optional_error
      | Some t \<Rightarrow>
          bind_res (expand_to_dense d msk t) (\<lambda>d.
          bind_res (dense_mask sparse_inner_mask 0 msk) (\<lambda>m. Inr (OptionalBytes d m))))"

fun create_empty_dense_data :: "bytes \<Rightarrow> data_type \<Rightarrow> array_bytes" where
  "create_empty_dense_data msk (OptionalType t) = OptionalBytes (create_empty_dense_data msk t) (replicate (length msk) 0)"
| "create_empty_dense_data msk (PlainType (SizeFixed sz)) = FixedBytes (replicate (wmul (length msk) sz) 0)"
| "create_empty_dense_data msk (PlainType SizeVariable) = VariableBytes [] (replicate (wadd (length msk) 1) 0)"

subsection \<open>The codec\<close>

definition create_fill_value_for_inner_type :: "data_type \<Rightarrow> fill_value" where
  "create_fill_value_for_inner_type inner_type =
     (if is_optional inner_type then fill_optional_null
      else case dt_size inner_type of SizeFixed sz \<Rightarrow> replicate sz 0 | SizeVariable \<Rightarrow> [])"

definition optional_with_context ::
    "(data_type \<Rightarrow> fill_value \<Rightarrow> codec_error + array_codec) \<Rightarrow> (data_type \<Rightarrow> fill_value \<Rightarrow> codec_error + array_codec) \<Rightarrow>
     data_type \<Rightarrow> fill_value \<Rightarrow> codec_error + optional_bound" where
  "optional_with_context mask_codecs data_codecs t fv =
     (case as_optional t of
        None \<Rightarrow> Inl (CodecCreate ''optional codec requires an optional data type'')
      | Some inner_type \<Rightarrow>
          bind_res (mask_codecs (PlainType (SizeFixed 1)) [0]) (\<lambda>mask_codecs.
          bind_res (data_codecs inner_type (create_fill_value_for_inner_type inner_type)) (\<lambda>data_codecs.
            Inr \<lparr>op_mask_codecs = mask_codecs, op_data_codecs = data_codecs, op_data_type = t, op_fill_value = fv\<rparr>)))"

definition num_valid :: "bytes \<Rightarrow> nat" where
  "num_valid msk = length (filter (\<lambda>v. v \<noteq> 0) msk)"

definition optional_type_error :: codec_error where
  "optional_type_error = CodecOther ''optional codec requires an optional data type''"

definition optional_encode :: "optional_bound \<Rightarrow> codec_options \<Rightarrow> array_bytes \<Rightarrow> chunk_shape \<Rightarrow> codec_error + bytes" where
  "optional_encode P opt b s =
     (case b of
        OptionalBytes dense_data msk \<Rightarrow>
          if length msk \<noteq> wprod s then Inl (CodecOther ''mask length does not match number of elements'')
          else
            (case as_optional (op_data_type P) of
               None \<Rightarrow> Inl optional_type_error
             | Some t \<Rightarrow>
                 bind_res (ab_encode (op_mask_codecs P) opt (FixedBytes msk) s) (\<lambda>encoded_mask.
                 bind_res (extract_sparse_data dense_data msk t) (\<lambda>sparse_data.
                 bind_res (if 0 < num_valid msk then ab_encode (op_data_codecs P) opt sparse_data [num_valid msk] else Inr []) (\<lambda>encoded_data.
                   Inr (word_le_bytes 8 (length encoded_mask) @ word_le_bytes 8 (length encoded_data) @ encoded_mask @ encoded_data)))))
      | _ \<Rightarrow> Inl (CodecOther ''expected optional array bytes for optional codec''))"

text \<open>The lengths of the parts, and the parts.\<close>

definition optional_parts :: "bytes \<Rightarrow> codec_error + (bytes \<times> bytes)" where
  "optional_parts b =
     (if length b < 16 then Inl (UnexpectedChunkDecodedSize (length b) 16)
      else
        let mask_len = le_value (take 8 b); data_len = le_value (take 8 (drop 8 b)); expected = wadd (wadd 16 mask_len) data_len in
        if length b \<noteq> expected then Inl (UnexpectedChunkDecodedSize (length b) expected)
        else case slice b 16 (wadd 16 mask_len) of
            None \<Rightarrow> Inl CodecPanic
          | Some encoded_mask \<Rightarrow> Inr (encoded_mask, drop (wadd 16 mask_len) b))"

definition optional_decode :: "optional_bound \<Rightarrow> codec_options \<Rightarrow> bytes \<Rightarrow> chunk_shape \<Rightarrow> codec_error + array_bytes" where
  "optional_decode P opt b s =
     bind_res (optional_parts b) (\<lambda>(encoded_mask, encoded_data).
     bind_res (ab_decode (op_mask_codecs P) opt encoded_mask s) (\<lambda>decoded_mask.
     bind_res (into_fixed decoded_mask) (\<lambda>msk.
       case as_optional (op_data_type P) of
         None \<Rightarrow> Inl optional_type_error
       | Some t \<Rightarrow>
           bind_res
             (if 0 < num_valid msk
              then bind_res (ab_decode (op_data_codecs P) opt encoded_data [num_valid msk]) (\<lambda>sparse_data. expand_to_dense sparse_data msk t)
              else Inr (create_empty_dense_data msk t)) (\<lambda>dense_data.
             Inr (OptionalBytes dense_data msk)))))"

definition optional_encoded_representation :: "optional_bound \<Rightarrow> chunk_shape \<Rightarrow> codec_error + bytes_representation" where
  "optional_encoded_representation P s =
     bind_res (ab_encoded_representation (op_mask_codecs P) s) (\<lambda>mask_repr.
     bind_res (ab_encoded_representation (op_data_codecs P) s) (\<lambda>data_repr.
       case (bytes_representation_size mask_repr, bytes_representation_size data_repr) of
         (Some mask_size, Some data_size) \<Rightarrow>
           (case checked_add 16 mask_size of
              None \<Rightarrow> Inr UnboundedSize
            | Some n \<Rightarrow> (case checked_add n data_size of None \<Rightarrow> Inr UnboundedSize | Some n \<Rightarrow> Inr (BoundedSize n)))
       | _ \<Rightarrow> Inr UnboundedSize))"

definition optional_array_codec :: "optional_bound \<Rightarrow> array_codec" where
  "optional_array_codec P =
     \<lparr>ab_data_type = op_data_type P, ab_fill_value = op_fill_value P,
      ab_encoded_representation = optional_encoded_representation P,
      ab_recommended_concurrency = (\<lambda>_. Inr (recommended_new 0 1)),
      ab_encode = optional_encode P, ab_decode = optional_decode P, ab_compact = default_compact,
      ab_decode_into = (\<lambda>opt. default_decode_into (optional_decode P opt)),
      ab_partial_decoder = (\<lambda>opt d s. Inr (default_array_partial_decode (op_data_type P) (op_fill_value P) (optional_decode P opt) d s))\<rparr>"

end
