(* ===== verification/Optional_Laws.thy ===== *)
theory Optional_Laws
  imports Optional_Codec Vlen_Laws
begin

text \<open>
  What the \<open>optional\<close> codec does to the elements of a chunk: the sparse data holds the elements that are not null, and expanding it puts them
  back where the mask has them.
\<close>

subsection \<open>Elements chosen by a mask\<close>

definition chosen :: "bytes \<Rightarrow> 'a list \<Rightarrow> 'a list" where
  "chosen m xs = map snd (filter (\<lambda>(v, _). v \<noteq> 0) (zip m xs))"

fun spread :: "bytes \<Rightarrow> 'a list \<Rightarrow> 'a list \<Rightarrow> 'a list" where
  "spread (v # m) X (d # D) = (if v \<noteq> 0 then hd X # spread m (tl X) D else d # spread m X D)"
| "spread m X D = []"

lemma chosen_simps [simp]:
  "chosen [] xs = []" "chosen m [] = []"
  "chosen (v # m) (x # xs) = (if v \<noteq> 0 then x # chosen m xs else chosen m xs)"
  by (simp_all add: chosen_def)

lemma num_valid_simps [simp]: "num_valid [] = 0" "num_valid (v # m) = (if v \<noteq> 0 then Suc (num_valid m) else num_valid m)"
  by (simp_all add: num_valid_def)

lemma num_valid_le: "num_valid m \<le> length m"
  by (simp add: num_valid_def)

lemma length_chosen: "length xs = length m \<Longrightarrow> length (chosen m xs) = num_valid m"
  by (induction m arbitrary: xs) (auto simp: length_Suc_conv)

lemma chosen_map: "chosen m (map f xs) = map f (chosen m xs)"
  by (induction m xs rule: list_induct2') auto

lemma chosen_map2: "length xs = length ys \<Longrightarrow> length m = length xs \<Longrightarrow> chosen m (map2 f xs ys) = map2 f (chosen m xs) (chosen m ys)"
proof (induction m arbitrary: xs ys)
  case (Cons v m)
  then show ?case by (cases xs; cases ys) auto
qed simp

lemma chosen_all: "list_all P xs \<Longrightarrow> list_all P (chosen m xs)"
  by (induction m xs rule: list_induct2') auto

lemma length_spread [simp]: "length D = length m \<Longrightarrow> length (spread m X D) = length m"
  by (induction m X D rule: spread.induct) auto

lemma chosen_spread: "length D = length m \<Longrightarrow> length X = num_valid m \<Longrightarrow> chosen m (spread m X D) = X"
proof (induction m X D rule: spread.induct)
  case (1 v m X d D)
  then show ?case by (cases X) (auto split: if_splits)
qed auto

lemma spread_all: "list_all P D \<Longrightarrow> list_all P X \<Longrightarrow> length D = length m \<Longrightarrow> num_valid m \<le> length X \<Longrightarrow> list_all P (spread m X D)"
proof (induction m X D rule: spread.induct)
  case (1 v m X d D)
  then show ?case by (cases X) (auto split: if_splits)
qed auto

lemma total_chosen: "length (concat (chosen m xs)) \<le> length (concat xs)"
  by (induction m xs rule: list_induct2') auto

lemma total_spread: "length X = num_valid m \<Longrightarrow> length D = length m \<Longrightarrow> concat D = [] \<Longrightarrow> length (concat (spread m X D)) = length (concat X)"
proof (induction m X D rule: spread.induct)
  case (1 v m X d D)
  then show ?case by (cases X) (auto split: if_splits)
qed auto

lemma sized_chosen: "sized z E \<Longrightarrow> sized z (chosen m E)"
  by (simp add: sized_def chosen_all)

text \<open>The values of optional elements are those of the elements that are not null.\<close>

lemma masked_vals:
  "length xs = length m \<Longrightarrow> length ys = length m \<Longrightarrow>
     map norm (map2 Masked m xs) = map norm (map2 Masked m ys) \<longleftrightarrow> map norm (chosen m xs) = map norm (chosen m ys)"
proof (induction m arbitrary: xs ys)
  case (Cons v m)
  then obtain x xs' y ys' where "xs = x # xs'" "ys = y # ys'" by (metis length_Suc_conv)
  then show ?case using Cons by simp
qed simp

lemma optional_vals_eq:
  assumes "ab_ok t n d" and "ab_ok t n d'" and "length m = n"
  shows "vals (OptionalType t) (OptionalBytes d m) = vals (OptionalType t) (OptionalBytes d' m) \<longleftrightarrow>
     map norm (chosen m (elems t d)) = map norm (chosen m (elems t d'))"
  using masked_vals[of "elems t d" m "elems t d'"] assms by (simp add: vals_def length_elems)

lemma optional_vals_mask:
  assumes "ab_ok (OptionalType t) n (OptionalBytes d m)" and "ab_ok (OptionalType t) n (OptionalBytes d' m')"
    and "vals (OptionalType t) (OptionalBytes d m) = vals (OptionalType t) (OptionalBytes d' m')"
  shows "m = m'"
proof (rule nth_equalityI)
  have e: "length (elems t d) = n" "length (elems t d') = n" "length m = n" "length m' = n"
    using assms(1,2) by (simp_all add: length_elems)
  then show "length m = length m'" by simp
  fix i assume "i < length m"
  then have i: "i < n" using e by simp
  from arg_cong[OF assms(3), of "\<lambda>v. v ! i"] show "m ! i = m' ! i"
    using e i by (simp add: vals_def)
qed

subsection \<open>The loops\<close>

lemma sparse_fixed_ok:
  "sized z E \<Longrightarrow> length E * z < M64 \<Longrightarrow> i + length m = length E \<Longrightarrow>
     sparse_fixed z (concat E) i m acc = Inr (acc @ concat (chosen m (drop i E)))"
proof (induction m arbitrary: i acc)
  case (Cons v m)
  have i: "i < length E" using Cons.prems(3) by simp
  have "Suc i * z \<le> length E * z" using i by (intro mult_le_mono1) simp
  then have w: "wmul i z = i * z" "wadd (i * z) z = i * z + z" "i * z + z \<le> length (concat E)"
    using Cons.prems(1,2) by (simp_all add: wmul_eq wadd_eq length_concat_sized)
  have "take (1 * z) (drop (i * z) (concat E)) = concat (take 1 (drop i E))" using i by (intro slice_concat[OF Cons.prems(1)]) simp
  then have "slice (concat E) (i * z) (i * z + z) = Some (E ! i)"
    using w(3) i by (simp add: slice_def Cons_nth_drop_Suc[symmetric])
  then show ?case
    using Cons.IH[OF Cons.prems(1,2), of "Suc i"] Cons.prems(3) i w(1,2) by (simp add: Cons_nth_drop_Suc[symmetric])
qed simp

lemma offsets_of_snoc: "offsets_of k (xs @ [x]) = offsets_of k xs @ [k + length (concat xs) + length x]"
  by (induction xs arbitrary: k) simp_all

lemma sparse_variable_ok:
  "vlen_ok n b os \<Longrightarrow> i + length m = n \<Longrightarrow>
     sparse_variable b os i m (concat xs) (offsets_of 0 xs) =
       Inr (concat (xs @ chosen m (drop i (vlen_items b os))), offsets_of 0 (xs @ chosen m (drop i (vlen_items b os))))"
proof (induction m arbitrary: i xs)
  case (Cons v m)
  have i: "i < length (vlen_items b os)" "i < n" using Cons.prems by (auto simp: vlen_ok_def)
  let ?x = "vlen_items b os ! i"
  have x: "vlen_item b os i = Inr ?x" by (rule vlen_item_ok(1)[OF Cons.prems(1) i(2)])
  have IH: "sparse_variable b os (Suc i) m (concat ys) (offsets_of 0 ys) =
      Inr (concat (ys @ chosen m (drop (Suc i) (vlen_items b os))), offsets_of 0 (ys @ chosen m (drop (Suc i) (vlen_items b os))))" for ys
    using Cons.IH[OF Cons.prems(1), of "Suc i"] Cons.prems(2) by simp
  have d: "drop i (vlen_items b os) = ?x # drop (Suc i) (vlen_items b os)" using i by (simp add: Cons_nth_drop_Suc)
  show ?case
    using IH[of xs] IH[of "xs @ [?x]"] x by (simp add: d offsets_of_snoc)
qed simp

lemma sparse_mask_ok:
  "i + length m = length im \<Longrightarrow> sparse_mask im i m acc = Inr (acc @ chosen m (drop i im))"
proof (induction m arbitrary: i acc)
  case (Cons v m)
  then show ?case by (simp add: Cons_nth_drop_Suc[symmetric])
qed simp

lemma scatter_one: "i < length D \<Longrightarrow> scatter D [i..<i + length [x]] [x] = D[i := x]"
  by simp

lemma dense_fixed_ok:
  "sized z D \<Longrightarrow> sized z X \<Longrightarrow> length D * z < M64 \<Longrightarrow> i + length m = length D \<Longrightarrow> k + num_valid m = length X \<Longrightarrow> length X \<le> length D \<Longrightarrow>
     dense_fixed z (concat X) i k m (concat D) = Inr (concat (take i D @ spread m (drop k X) (drop i D)))"
proof (induction m arbitrary: i k D)
  case (Cons v m)
  have i: "i < length D" using Cons.prems(4) by simp
  have dr: "drop i D = D ! i # drop (Suc i) D" using i by (simp add: Cons_nth_drop_Suc)
  show ?case
  proof (cases "v = 0")
    case True
    then have "dense_fixed z (concat X) (Suc i) k m (concat D) = Inr (concat (take (Suc i) D @ spread m (drop k X) (drop (Suc i) D)))"
      using Cons.prems by (intro Cons.IH) simp_all
    then show ?thesis using True i by (simp add: dr take_Suc_conv_app_nth)
  next
    case False
    then have k: "k < length X" using Cons.prems(5) by simp
    have le: "Suc k * z \<le> length X * z" "Suc i * z \<le> length D * z" "Suc k * z \<le> length D * z"
      using k i Cons.prems(6) by (intro mult_le_mono1; simp)+
    have "k * z + z < M64" "i * z + z < M64"
      using le_less_trans[OF le(3) Cons.prems(3)] le_less_trans[OF le(2) Cons.prems(3)] by simp_all
    then have w: "wmul k z = k * z" "wadd (k * z) z = k * z + z" "wmul i z = i * z" "k * z + z \<le> length (concat X)"
      using Cons.prems(2) le(1) by (simp_all add: wmul_eq wadd_eq length_concat_sized)
    have "take (1 * z) (drop (k * z) (concat X)) = concat (take 1 (drop k X))" using k by (intro slice_concat[OF Cons.prems(2)]) simp
    then have sl: "slice (concat X) (k * z) (k * z + z) = Some (X ! k)"
      using w(4) k by (simp add: slice_def Cons_nth_drop_Suc[symmetric])
    have sx: "length (X ! k) = z" using Cons.prems(2) k by (simp add: sized_def list_all_length)
    have wr: "write_at (concat D) (i * z) (X ! k) = Inr (concat (D[i := X ! k]))"
      using write_at_concat[OF Cons.prems(1), of "[X ! k]" i] sx i by simp
    have "sized z (D[i := X ! k])" using Cons.prems(1) sx i by (auto simp: sized_def list_all_length nth_list_update)
    then have "dense_fixed z (concat X) (Suc i) (Suc k) m (concat (D[i := X ! k])) =
        Inr (concat (take (Suc i) (D[i := X ! k]) @ spread m (drop (Suc k) X) (drop (Suc i) (D[i := X ! k]))))"
      using Cons.prems False by (intro Cons.IH) simp_all
    then show ?thesis
      using False w sl wr i by (simp add: dr Cons_nth_drop_Suc[OF k, symmetric] take_Suc_conv_app_nth)
  qed
qed simp

lemma dense_variable_ok:
  "vlen_ok (length X) b os \<Longrightarrow> vlen_items b os = X \<Longrightarrow> k + num_valid m = length X \<Longrightarrow>
     dense_variable b os k m (concat xs) (offsets_of 0 xs) =
       Inr (concat (xs @ spread m (drop k X) (replicate (length m) [])), offsets_of 0 (xs @ spread m (drop k X) (replicate (length m) [])))"
proof (induction m arbitrary: k xs)
  case (Cons v m)
  show ?case
  proof (cases "v = 0")
    case True
    then show ?thesis using Cons.IH[OF Cons.prems(1,2), of k "xs @ [[]]"] Cons.prems(3) by (simp add: offsets_of_snoc)
  next
    case False
    then have k: "k < length X" using Cons.prems(3) by simp
    have "vlen_item b os k = Inr (X ! k)" using vlen_item_ok(1)[OF Cons.prems(1) k] Cons.prems(2) by simp
    then show ?thesis
      using Cons.IH[OF Cons.prems(1,2), of "Suc k" "xs @ [X ! k]"] Cons.prems(3) False k
      by (simp add: offsets_of_snoc hd_drop_conv_nth tl_drop drop_Suc)
  qed
qed simp

lemma dense_mask_ok: "k + num_valid m = length X \<Longrightarrow> dense_mask X k m = Inr (spread m (drop k X) (replicate (length m) 0))"
proof (induction m arbitrary: k)
  case (Cons v m)
  then show ?case by (auto simp: hd_drop_conv_nth tl_drop drop_Suc split: if_splits)
qed simp

subsection \<open>Sparse and dense data\<close>

lemma extract_sparse_ok:
  "ab_ok t n d \<Longrightarrow> length m = n \<Longrightarrow>
     \<exists>sp. extract_sparse_data d m t = Inr sp \<and> ab_ok t (num_valid m) sp \<and> elems t sp = chosen m (elems t d)"
proof (induction t n d rule: ab_ok.induct)
  case (1 z n b)
  obtain E where E: "sized z E" "length E = n" "b = concat E" "0 < z" "n * z < M64"
      "elems (PlainType (SizeFixed z)) (FixedBytes b) = map Raw E"
    by (rule fixed_elems) (use 1 in simp)
  have s: "sparse_fixed z (concat E) 0 m [] = Inr (concat (chosen m E))"
    using sparse_fixed_ok[OF E(1), of 0 m "[]"] E 1 by simp
  have c: "sized z (chosen m E)" "length (chosen m E) = num_valid m" using E(1,2) 1(2) by (simp_all add: sized_chosen length_chosen)
  have "num_valid m * z \<le> n * z" using num_valid_le[of m] 1(2) by (intro mult_le_mono1) simp
  then have "num_valid m * z < M64" using E(5) by (rule le_less_trans)
  then show ?case
    using s c E by (simp add: fixed_size_def length_concat_sized chunks_concat chosen_map)
next
  case (2 n b os)
  let ?X = "chosen m (vlen_items b os)"
  have v: "vlen_ok n b os" using 2 by simp
  have "length (concat ?X) \<le> length (concat (vlen_items b os))" by (rule total_chosen)
  then have "length (concat ?X) < M64" using vlen_items_total[OF v] v by (simp add: length_concat vlen_ok_def)
  note p = pushed_items(2,3)[OF this]
  have "length ?X = num_valid m" using v 2(2) by (simp add: length_chosen vlen_ok_def)
  then show ?case
    using sparse_variable_ok[OF v, of 0 m "[]"] 2(2) p by (simp add: chosen_map)
next
  case (3 t n d im)
  obtain sp where sp: "extract_sparse_data d m t = Inr sp" "ab_ok t (num_valid m) sp" "elems t sp = chosen m (elems t d)"
    using 3 by auto
  then show ?case
    using sparse_mask_ok[of 0 m im "[]"] chosen_map2[of im "elems t d" m Masked] length_elems[of t n d] 3 by (simp add: length_chosen)
qed simp_all

lemma expand_to_dense_ok:
  "ab_ok t k sp \<Longrightarrow> k = num_valid m \<Longrightarrow> countable_size t (length m) \<Longrightarrow>
     \<exists>d. expand_to_dense sp m t = Inr d \<and> ab_ok t (length m) d \<and> chosen m (elems t d) = elems t sp"
proof (induction t k sp rule: ab_ok.induct)
  case (1 z n b)
  obtain X where X: "sized z X" "length X = n" "b = concat X" "0 < z" "n * z < M64"
      "elems (PlainType (SizeFixed z)) (FixedBytes b) = map Raw X"
    by (rule fixed_elems[OF 1(1)]) simp
  have c: "length m * z < M64" using 1 by (simp add: countable_size_def)
  let ?D = "replicate (length m) (replicate z (0 :: u8))"
  have "concat (replicate j (replicate z (0 :: u8))) = replicate (j * z) 0" for j
    by (induction j) (simp_all add: replicate_add)
  then have D: "sized z ?D" "length ?D = length m" "concat ?D = replicate (length m * z) 0"
    by (simp_all add: sized_def list_all_length)
  have "dense_fixed z (concat X) 0 0 m (concat ?D) = Inr (concat (spread m X ?D))"
    using dense_fixed_ok[OF D(1) X(1), of 0 m 0] X(2) c 1(2) num_valid_le[of m] by simp
  moreover have "sized z (spread m X ?D)" using D(1) X(1,2) 1(2) by (simp add: sized_def spread_all)
  ultimately show ?case
    using X c 1(2) D(3) by (simp add: fixed_size_def wmul_eq length_concat_sized chunks_concat chosen_map chosen_spread)
next
  case (2 n b os)
  let ?X = "vlen_items b os" and ?D = "replicate (length m) ([] :: bytes)"
  let ?Y = "spread m ?X ?D"
  have v: "vlen_ok n b os" "length ?X = n" using 2 by (simp_all add: vlen_ok_def)
  have s: "dense_variable b os 0 m [] [0] = Inr (concat ?Y, offsets_of 0 ?Y)"
    using dense_variable_ok[of ?X b os 0 m "[]"] v(1) unfolding v(2) 2(2)[symmetric] by simp
  have "length (concat ?Y) = length (concat ?X)" using v(2) 2(2) by (intro total_spread) simp_all
  then have "length (concat ?Y) < M64" using vlen_items_total[OF v(1)] v(1) by (simp add: length_concat vlen_ok_def)
  from pushed_items(2,3)[OF this] show ?case
    using s v(2) 2(2) by (simp add: chosen_map chosen_spread)
next
  case (3 t n d im)
  obtain dd where dd: "expand_to_dense d m t = Inr dd" "ab_ok t (length m) dd" "chosen m (elems t dd) = elems t d"
    using 3 by (auto simp: countable_inner)
  have "dense_mask im 0 m = Inr (spread m im (replicate (length m) 0))" using dense_mask_ok[of 0 m im] 3 by simp
  then show ?case
    using dd 3 by (simp add: chosen_map2 chosen_spread length_elems)
qed simp_all

lemma create_empty_dense_ok: "countable_size t (length m) \<Longrightarrow> ab_ok t (length m) (create_empty_dense_data m t)"
proof (induction m t rule: create_empty_dense_data.induct)
  case (3 m)
  have "sorted (replicate (Suc (length m)) (0 :: nat))" by (simp add: sorted_replicate)
  then show ?case using 3 by (simp add: countable_size_def wadd_eq vlen_ok_def M64_def del: replicate.simps)
qed (simp_all add: countable_inner countable_size_def wmul_eq)

lemma chosen_none: "num_valid m = 0 \<Longrightarrow> chosen m xs = []"
  by (induction m xs rule: list_induct2') (auto split: if_splits)

text \<open>The header and the parts.\<close>

lemma optional_parts_ok:
  assumes "16 + length em + length ed < M64"
  shows "optional_parts (word_le_bytes 8 (length em) @ word_le_bytes 8 (length ed) @ em @ ed) = Inr (em, ed)"
proof -
  have "length em < 256 ^ 8" "length ed < 256 ^ 8" using assms by (simp_all add: M64_def)
  note v = this[THEN word_le_value]
  have w: "wadd 16 (length em) = 16 + length em" "wadd (16 + length em) (length ed) = 16 + length em + length ed"
    using assms by (simp_all add: wadd_eq)
  show ?thesis by (simp add: optional_parts_def v w slice_def Let_def)
qed

end
