(* ===== verification/Optional_Properties.thy ===== *)
theory Optional_Properties
  imports Optional_Laws Sharded_Chain
begin

text \<open>
  The \<open>optional\<close> codec over lawful codecs of its mask and its data keeps the contract of an array-to-bytes codec, and its properties.
\<close>

locale optional_codec =
  msk: array_to_bytes_codec "op_mask_codecs P" "PlainType (SizeFixed 1)" "ab_fill_value (op_mask_codecs P)" macc Rm ixm +
  data: array_to_bytes_codec "op_data_codecs P" t "ab_fill_value (op_data_codecs P)" dacc Rd ixd
  for P :: optional_bound
    and t :: data_type
    and macc :: "chunk_shape \<Rightarrow> array_bytes \<Rightarrow> bool"
    and Rm :: "byte_range \<Rightarrow> bool"
    and ixm :: indexer_class
    and dacc :: "chunk_shape \<Rightarrow> array_bytes \<Rightarrow> bool"
    and Rd :: "byte_range \<Rightarrow> bool"
    and ixd :: indexer_class +
  assumes optional_type: "op_data_type P = OptionalType t"
begin

text \<open>What the codecs of the mask and of the data take of a chunk, and the size of the result.\<close>

definition parts_accepted :: "chunk_shape \<Rightarrow> array_bytes \<Rightarrow> bool" where
  "parts_accepted s b \<longleftrightarrow>
     (\<exists>d m sp. b = OptionalBytes d m \<and> extract_sparse_data d m t = Inr sp \<and> macc s (FixedBytes m) \<and>
        (0 < num_valid m \<longrightarrow> dacc [num_valid m] sp) \<and>
        (\<forall>opt em ed. ab_encode (op_mask_codecs P) opt (FixedBytes m) s = Inr em \<longrightarrow>
           (if 0 < num_valid m then ab_encode (op_data_codecs P) opt sp [num_valid m] = Inr ed else ed = []) \<longrightarrow>
           16 + length em + length ed < M64))"

definition optional_accepts :: "chunk_shape \<Rightarrow> array_bytes \<Rightarrow> bool" where
  "optional_accepts s b \<longleftrightarrow> shape_ok s \<and> countable_size t (prod_list s) \<and> ab_ok (OptionalType t) (prod_list s) b \<and>
     (\<exists>r. ab_encoded_representation (op_data_codecs P) s = Inr r) \<and>
     (\<forall>b'. ab_ok (OptionalType t) (prod_list s) b' \<longrightarrow> vals (OptionalType t) b' = vals (OptionalType t) b \<longrightarrow> parts_accepted s b')"

lemma mask_decoded:
  assumes "macc s (FixedBytes m)" and "ab_encode (op_mask_codecs P) opt (FixedBytes m) s = Inr em"
  shows "ab_decode (op_mask_codecs P) opt' em s = Inr (FixedBytes m)"
  using msk.decoded_vals[OF assms] msk.accepted[OF assms(1)] plain_vals_inj by metis

lemma optional_roundtrip:
  assumes "optional_accepts s b"
  shows "\<exists>e. optional_encode P opt b s = Inr e \<and> length e < M64 \<and>
     (\<forall>opt'. \<exists>b'. optional_decode P opt' e s = Inr b' \<and> optional_accepts s b' \<and> vals (OptionalType t) b' = vals (OptionalType t) b)"
proof -
  have a: "shape_ok s" "countable_size t (prod_list s)" "ab_ok (OptionalType t) (prod_list s) b" "parts_accepted s b"
    using assms by (auto simp: optional_accepts_def)
  obtain d m sp where p: "b = OptionalBytes d m" "extract_sparse_data d m t = Inr sp" "macc s (FixedBytes m)"
      "0 < num_valid m \<longrightarrow> dacc [num_valid m] sp"
      "\<forall>opt em ed. ab_encode (op_mask_codecs P) opt (FixedBytes m) s = Inr em \<longrightarrow>
         (if 0 < num_valid m then ab_encode (op_data_codecs P) opt sp [num_valid m] = Inr ed else ed = []) \<longrightarrow> 16 + length em + length ed < M64"
    using a(4) unfolding parts_accepted_def by (elim exE conjE)
  have m: "ab_ok t (prod_list s) d" "length m = prod_list s" using a(3) unfolding p(1) by simp_all
  moreover have "wprod s = prod_list s" using a(1) by (simp add: shape_ok_def wprod_eq)
  ultimately have n: "ab_ok t (length m) d" "length m = prod_list s" "length m = wprod s" by simp_all
  have sp: "elems t sp = chosen m (elems t d)" using extract_sparse_ok[OF n(1) refl] p(2) by auto
  obtain em where em: "ab_encode (op_mask_codecs P) opt (FixedBytes m) s = Inr em" using msk.roundtrip[OF p(3)] by blast
  obtain ed where ed: "(if 0 < num_valid m then ab_encode (op_data_codecs P) opt sp [num_valid m] else Inr []) = Inr ed"
      "if 0 < num_valid m then ab_encode (op_data_codecs P) opt sp [num_valid m] = Inr ed else ed = []"
  proof (cases "0 < num_valid m")
    case True
    then obtain ed where "ab_encode (op_data_codecs P) opt sp [num_valid m] = Inr ed" using p(4) data.roundtrip by blast
    then show ?thesis using that True by simp
  qed (use that[of "[]"] in simp)
  let ?e = "word_le_bytes 8 (length em) @ word_le_bytes 8 (length ed) @ em @ ed"
  have small: "16 + length em + length ed < M64" by (rule p(5)[rule_format, OF em ed(2)])
  have enc: "optional_encode P opt b s = Inr ?e"
    using p(1,2) n(3) em ed(1) by (simp add: optional_encode_def optional_type)
  have "\<exists>b'. optional_decode P opt' ?e s = Inr b' \<and> optional_accepts s b' \<and> vals (OptionalType t) b' = vals (OptionalType t) b" for opt'
  proof -
    obtain dd where dd: "(if 0 < num_valid m
        then bind_res (ab_decode (op_data_codecs P) opt' ed [num_valid m]) (\<lambda>sparse_data. expand_to_dense sparse_data m t)
        else Inr (create_empty_dense_data m t)) = Inr dd" "ab_ok t (length m) dd"
        "map norm (chosen m (elems t dd)) = map norm (chosen m (elems t d))"
    proof (cases "0 < num_valid m")
      case True
      then have k: "dacc [num_valid m] sp" "ab_encode (op_data_codecs P) opt sp [num_valid m] = Inr ed" using p(4) ed(2) by auto
      obtain sp' where sp': "ab_decode (op_data_codecs P) opt' ed [num_valid m] = Inr sp'" "ab_ok t (num_valid m) sp'" "vals t sp' = vals t sp"
        using data.decoded_vals[OF k, of opt'] by auto
      have "countable_size t (length m)" using a(2) n(2) by simp
      then obtain dd where "expand_to_dense sp' m t = Inr dd" "ab_ok t (length m) dd" "chosen m (elems t dd) = elems t sp'"
        using expand_to_dense_ok[OF sp'(2) refl] by blast
      then show ?thesis using that[of dd] True sp'(1,3) sp by (simp add: vals_def)
    next
      case False
      then show ?thesis
        using that[of "create_empty_dense_data m t"] create_empty_dense_ok[of t m] a(2) n(2) by (simp add: chosen_none)
    qed
    have dec: "optional_decode P opt' ?e s = Inr (OptionalBytes dd m)"
      using optional_parts_ok[OF small] mask_decoded[OF p(3) em, of opt'] dd(1) by (simp add: optional_decode_def optional_type)
    have v: "vals (OptionalType t) (OptionalBytes dd m) = vals (OptionalType t) b"
      using optional_vals_eq[OF dd(2) n(1) refl] dd(3) p(1) by simp
    moreover have "optional_accepts s (OptionalBytes dd m)"
      using assms v dd(2) n(2) by (simp add: optional_accepts_def)
    ultimately show ?thesis using dec by blast
  qed
  then show ?thesis using enc small by (simp add: add.assoc)
qed

sublocale optional: array_to_bytes_codec "optional_array_codec P" "OptionalType t" "op_fill_value P" optional_accepts interval_range AnyIndexer
proof (unfold_locales, goal_cases)
  case (1 s b)
  then obtain m where m: "macc s (FixedBytes m)" "shape_ok s" "ab_ok (OptionalType t) (prod_list s) b"
      "\<exists>r. ab_encoded_representation (op_data_codecs P) s = Inr r"
    by (auto simp: optional_accepts_def parts_accepted_def)
  moreover have "\<exists>r. ab_encoded_representation (op_mask_codecs P) s = Inr r" using msk.accepted[OF m(1)] by blast
  ultimately show ?case
    by (auto simp: optional_array_codec_def optional_encoded_representation_def split: option.splits)
next
  case (2 s b opt)
  then show ?case using optional_roundtrip[OF 2] by (simp add: optional_array_codec_def)
next
  case (3 s b opt e a q T opt')
  obtain b' where b': "optional_decode P opt' e s = Inr b'" "optional_accepts s b'" "vals (OptionalType t) b' = vals (OptionalType t) b"
    using optional_roundtrip[OF 3(1), of opt] 3(2) by (auto simp: optional_array_codec_def)
  have ok: "ab_ok (OptionalType t) (prod_list s) b'" using b'(2) by (simp add: optional_accepts_def)
  from default_into_vals[where t = "OptionalType t" and dec = "optional_decode P opt'" and b = b', OF 3(3,4) _ b'(1)] ok
  show ?case using b'(3) by (simp add: optional_array_codec_def)
next
  case (4 s b opt e d opt')
  obtain b' where b': "optional_decode P opt' e s = Inr b'" "optional_accepts s b'" "vals (OptionalType t) b' = vals (OptionalType t) b"
    using optional_roundtrip[OF 4(1), of opt] 4(2) by (auto simp: optional_array_codec_def)
  have ok: "ab_ok (OptionalType t) (prod_list s) b'" "shape_ok s" using b'(2) by (simp_all add: optional_accepts_def)
  from default_partial_some[where t = "OptionalType t" and b = b' and dec = "optional_decode P opt'", OF 4(3) _ b'(1) ok(2,1)] b'(3)
  show ?case by (simp add: optional_array_codec_def reads_array_def optional_type)
next
  case (5 s b opt e d opt')
  have s: "shape_ok s" using 5(1) by (simp add: optional_accepts_def)
  from default_partial_none[OF 5(3) _ s] 5(4) show ?case
    by (simp add: optional_array_codec_def reads_array_def fill_ready_def fill_vals_indexed optional_type)
qed

lemma optional_correct:
  assumes "optional_accepts s b"
  shows "\<exists>e. optional_encode P opt b s = Inr e \<and>
     (\<forall>opt'. \<exists>b'. optional_decode P opt' e s = Inr b' \<and> vals (OptionalType t) b' = vals (OptionalType t) b) \<and>
     (\<forall>opt' d. reads_on interval_range d e \<longrightarrow>
        (\<exists>dec. ab_partial_decoder (optional_array_codec P) opt' d s = Inr dec \<and>
           reads_array AnyIndexer (OptionalType t) dec s (vals (OptionalType t) b)))"
proof -
  obtain e where e: "optional_encode P opt b s = Inr e"
      "\<forall>opt'. \<exists>b'. optional_decode P opt' e s = Inr b' \<and> vals (OptionalType t) b' = vals (OptionalType t) b"
    using optional_roundtrip[OF assms, of opt] by blast
  have "ab_encode (optional_array_codec P) opt b s = Inr e" using e(1) by (simp add: optional_array_codec_def)
  from optional.partial[OF assms this] e show ?thesis by blast
qed

end

subsection \<open>The codec with codecs of the library\<close>

text \<open>The mask as bytes and the data by a bytes codec, both with a checksum.\<close>

definition mask_bound :: bytes_bound where
  "mask_bound = \<lparr>by_native = LittleEndian, by_component_size = 1, by_endian = None, by_data_type = PlainType (SizeFixed 1), by_fill_value = [0]\<rparr>"

definition checked_optional :: "(bytes \<Rightarrow> 32 word) \<Rightarrow> bytes_bound \<Rightarrow> fill_value \<Rightarrow> optional_bound" where
  "checked_optional crc B fv =
     \<lparr>op_mask_codecs = chain_array_codec (checked_chain mask_bound crc), op_data_codecs = chain_array_codec (checked_chain B crc),
      op_data_type = OptionalType (by_data_type B), op_fill_value = fv\<rparr>"

interpretation checked_optional: optional_codec "checked_optional crc B fv" "by_data_type B"
  "checked.chain_accepts mask_bound crc" interval_range AnyIndexer "checked.chain_accepts B crc" interval_range AnyIndexer
  for crc B fv
proof (rule optional_codec.intro, goal_cases)
  case 1
  show ?case
    using checked.chain.array_to_bytes_codec_axioms[of mask_bound crc]
    by (simp add: checked_optional_def chain_array_codec_parts checked_chain_parts mask_bound_def)
next
  case 2
  show ?case
    using checked.chain.array_to_bytes_codec_axioms[of B crc]
    by (simp add: checked_optional_def chain_array_codec_parts checked_chain_parts)
next
  case 3
  show ?case by unfold_locales (simp add: checked_optional_def)
qed

text \<open>The codec accepts any chunk whose encoded size cannot overflow.\<close>

lemma checked_optional_accepts:
  assumes "bytes_ready B" and z: "by_data_type B = PlainType (SizeFixed z)" and s: "shape_ok s" "list_all ((<) 0) s"
    and small: "prod_list s * (1 + z) + 24 < M64" and b: "ab_ok (OptionalType (by_data_type B)) (prod_list s) b"
  shows "checked_optional.optional_accepts crc B fv s b"
proof -
  let ?n = "prod_list s" and ?t = "PlainType (SizeFixed z)"
  have n: "0 < z" "?n * z + ?n + 24 < M64" using assms(1) small z by (simp_all add: bytes_ready_def algebra_simps)
  have ready: "checked_ready B s" "checked_ready mask_bound s"
    using assms n by (simp_all add: checked_ready_def countable_size_def bytes_ready_def mask_bound_def)
  have parts: "checked_optional.parts_accepted crc B fv s b'" if b': "ab_ok (OptionalType ?t) ?n b'" for b'
  proof -
    obtain d m where d: "b' = OptionalBytes d m" "ab_ok ?t ?n d" "length m = ?n" using b' by (cases b') simp_all
    obtain sp where sp: "extract_sparse_data d m ?t = Inr sp" "ab_ok ?t (num_valid m) sp" using extract_sparse_ok[OF d(2,3)] by blast
    have k: "num_valid m \<le> ?n" "num_valid m * z \<le> ?n * z" using num_valid_le[of m] d(3) by (simp_all add: mult_le_mono1)
    have kz: "num_valid m * z + 4 < M64" using add_le_less_mono[OF k(2), of "4" 24] n(2) by linarith
    have r: "checked_ready B [num_valid m]" if "0 < num_valid m"
      using ready(1) that k(1) kz n z by (simp add: checked_ready_def countable_size_def shape_ok_def)
    have dacc: "checked.chain_accepts B crc [num_valid m] sp" if "0 < num_valid m"
      using checked_accepts[OF r[OF that]] sp(2) z by simp
    have macc: "checked.chain_accepts mask_bound crc s (FixedBytes m)"
      using checked_accepts[OF ready(2)] d(3) n by (simp add: mask_bound_def)
    have "16 + length em + length ed < M64"
      if "chain_encode (checked_chain mask_bound crc) opt (FixedBytes m) s = Inr em"
        "if 0 < num_valid m then chain_encode (checked_chain B crc) opt sp [num_valid m] = Inr ed else ed = []" for opt em ed
    proof -
      have "length em = ?n + 4" using checked_size(2)[OF ready(2) _ macc that(1), of 1] by (simp add: mask_bound_def)
      moreover have "length ed \<le> ?n * z + 4"
      proof (cases "0 < num_valid m")
        case True
        then show ?thesis using checked_size(2)[OF r[OF True] z dacc[OF True]] that(2) k(2) by simp
      qed (use that(2) in simp)
      ultimately show ?thesis using n(2) by simp
    qed
    then show ?thesis
      unfolding checked_optional.parts_accepted_def
      using d(1) sp(1) z macc dacc by (auto simp: checked_optional_def chain_array_codec_parts)
  qed
  show ?thesis
    unfolding checked_optional.optional_accepts_def
    using parts s(1) b z n checked_size(1)[OF ready(1) z]
    by (simp add: countable_size_def checked_optional_def chain_array_codec_parts)
qed

subsection \<open>Properties\<close>

text \<open>
  Property C14.  \<open>optional\<close>: over lawful codecs of the mask and of the data, a chunk of optional elements is decoded to a chunk with the same
  values (the same mask, and the same elements where it is set), whatever the options, and partially decoded to the values of any indexer.
\<close>

theorem optional_codec_correct:
  assumes "optional_codec P t macc Rm ixm dacc Rd ixd" and "optional_codec.optional_accepts P t macc dacc s b"
  shows "\<exists>e. optional_encode P opt b s = Inr e \<and>
     (\<forall>opt'. \<exists>b'. optional_decode P opt' e s = Inr b' \<and> vals (OptionalType t) b' = vals (OptionalType t) b) \<and>
     (\<forall>opt' d. reads_on interval_range d e \<longrightarrow>
        (\<exists>dec. ab_partial_decoder (optional_array_codec P) opt' d s = Inr dec \<and>
           reads_array AnyIndexer (OptionalType t) dec s (vals (OptionalType t) b)))"
  by (rule optional_codec.optional_correct[OF assms])

theorem optional_codec_correct_witness:
  "\<exists>e b'. optional_encode (checked_optional (\<lambda>_. 7) mask_bound [0]) sample_options (OptionalBytes (FixedBytes [5, 6, 7]) [1, 0, 1]) [3] = Inr e \<and>
     optional_decode (checked_optional (\<lambda>_. 7) mask_bound [0]) sample_options e [3] = Inr b' \<and>
     vals (OptionalType (PlainType (SizeFixed 1))) b' = [Masked 1 (Raw [5]), Masked 0 (Raw []), Masked 1 (Raw [7])]"
proof -
  let ?t = "PlainType (SizeFixed 1)" and ?b = "OptionalBytes (FixedBytes [5, 6, 7]) [1, 0, 1]"
  have "bytes_ready mask_bound" and t: "by_data_type mask_bound = ?t" by (simp_all add: bytes_ready_def mask_bound_def)
  moreover have "shape_ok [3]" "ab_ok (OptionalType ?t) (prod_list [3]) ?b" "prod_list [3] * (1 + 1) + 24 < M64"
    by (simp_all add: shape_ok_def M64_def)
  ultimately have "checked_optional.optional_accepts (\<lambda>_. 7) mask_bound [0] [3] ?b"
    by (intro checked_optional_accepts[where z = 1]) simp_all
  moreover have "vals (OptionalType ?t) ?b = [Masked 1 (Raw [5]), Masked 0 (Raw []), Masked 1 (Raw [7])]"
    by (simp add: vals_def chunks_exact.simps)
  ultimately show ?thesis
    using optional_codec_correct[OF checked_optional.optional_codec_axioms[of "\<lambda>_. 7" mask_bound "[0]"], of "[3]" ?b sample_options]
    unfolding t by metis
qed

text \<open>The lengths of the header are added without a check: two lengths whose sum wraps around pass the test of the size, and the decoder panics.\<close>

lemma optional_header_overflow_panics: "optional_decode P opt (word_le_bytes 8 (M64 - 8) @ word_le_bytes 8 8) s = Inl CodecPanic"
proof -
  have "le_value (word_le_bytes 8 (M64 - 8)) = M64 - 8" "le_value (word_le_bytes 8 8) = 8" by (simp_all add: M64_def)
  then show ?thesis by (simp add: optional_decode_def optional_parts_def Let_def wadd_def slice_def M64_def)
qed

end
