(* ===== verification/Pack_Properties.thy ===== *)
theory Pack_Properties
  imports Pack_Reads Optional_Properties
begin

text \<open>
  The \<open>packbits\<close> codec keeps the contract of an array-to-bytes codec for unsigned components that are packed from their first bit; what it
  keeps of any chunk; the mask of the \<open>optional\<close> codec with it; and where its partial decoder differs from the decoder.
\<close>

subsection \<open>Whole chunks\<close>

definition packs_chunk :: "packbits_bound \<Rightarrow> chunk_shape \<Rightarrow> bytes \<Rightarrow> bool" where
  "packs_chunk P s d \<longleftrightarrow> \<not> packbits_whole_bytes P \<and> shape_ok s \<and>
     (case pb_data_type P of
        PlainType (SizeFixed z) \<Rightarrow> 0 < z \<and> packbits_fits P (prod_list s) z \<and> length d = prod_list s * z
      | _ \<Rightarrow> False)"

lemma packs_chunk_size:
  assumes "packs_chunk P s d"
  obtains z where "pb_data_type P = PlainType (SizeFixed z)" and "0 < z" and "packbits_fits P (prod_list s) z"
    and "length d = prod_list s * z" and "wprod s = prod_list s" and "wmul (prod_list s) z = prod_list s * z" and "prod_list s * z < M64"
proof -
  obtain z where z: "pb_data_type P = PlainType (SizeFixed z)" "0 < z" "packbits_fits P (prod_list s) z" "length d = prod_list s * z"
    using assms by (auto simp: packs_chunk_def split: data_type.splits data_type_size.splits)
  have "prod_list s * (8 * z) + 16 < M64" using z(3) unfolding packbits_fits_def by blast
  then have "prod_list s * z < M64" by simp
  moreover have "wprod s = prod_list s" using assms by (simp add: packs_chunk_def shape_ok_def wprod_eq)
  ultimately show ?thesis using that z by (simp add: wmul_eq)
qed

definition with_padding :: "packbits_bound \<Rightarrow> nat \<Rightarrow> bytes \<Rightarrow> bytes" where
  "with_padding P N p =
     (case pb_padding P of
        PaddingNone \<Rightarrow> p | PaddingFirstByte \<Rightarrow> padding_bits N (element_size_bits P) # p
      | PaddingLastByte \<Rightarrow> p @ [padding_bits N (element_size_bits P)])"

lemma packbits_encoded:
  assumes "packs_chunk P s d"
  obtains p where "packs P (prod_list s) d p" and "\<And>opt. packbits_encode P opt (FixedBytes d) s = Inr (with_padding P (prod_list s) p)"
proof -
  obtain z where z: "pb_data_type P = PlainType (SizeFixed z)" "packbits_fits P (prod_list s) z" "length d = prod_list s * z"
      "wprod s = prod_list s" "wmul (prod_list s) z = prod_list s * z"
    using packs_chunk_size[OF assms] by metis
  obtain p where p: "encode_components P d [0..<components_in P (prod_list s)] (replicate (elements_size_bytes P (prod_list s)) 0) = Inr p"
      "packs P (prod_list s) d p"
    by (rule encode_components_packs[OF z(2,3)])
  have "\<not> packbits_whole_bytes P" using assms by (simp add: packs_chunk_def)
  then show ?thesis
    using that[OF p(2)] p(1) z packbits_sizes(14)[OF z(2)]
    by (cases "pb_padding P") (simp_all add: packbits_encode_def with_padding_def fixed_size_def Let_def)
qed

lemma packbits_decoded:
  assumes "packs_chunk P s d" and "packs P (prod_list s) d p"
  obtains b where "packbits_decode P opt (with_padding P (prod_list s) p) s = Inr (FixedBytes b)" and "length b = length d"
    and "\<And>c r. c < components_in P (prod_list s) \<Longrightarrow> r < width P \<Longrightarrow> bitv b (c * width P + r) = kept_bit P d c r"
proof -
  obtain z where z: "pb_data_type P = PlainType (SizeFixed z)" "packbits_fits P (prod_list s) z" "length d = prod_list s * z"
      "wprod s = prod_list s" "wmul (prod_list s) z = prod_list s * z"
    using packs_chunk_size[OF assms(1)] by metis
  obtain b where b: "decode_components P p [0..<components_in P (prod_list s)] (replicate (prod_list s * z) 0) = Inr b"
      "length b = prod_list s * z"
      "\<And>c r. c < components_in P (prod_list s) \<Longrightarrow> r < width P \<Longrightarrow> bitv b (c * width P + r) = kept_bit P d c r"
    using decode_components_kept[OF z(2) assms(2)] by metis
  have "\<not> packbits_whole_bytes P" using assms(1) by (simp add: packs_chunk_def)
  moreover have "length p = elements_size_bytes P (prod_list s)" using assms(2) by (simp add: packs_def)
  ultimately have "packbits_decode P opt (with_padding P (prod_list s) p) s = Inr (FixedBytes b)"
    using b(1) z packbits_sizes(14)[OF z(2)]
    by (cases "pb_padding P") (simp_all add: packbits_decode_def packbits_packed_def with_padding_def fixed_size_def Let_def nth_append)
  then show ?thesis using that b(2,3) z(3) by simp
qed

subsection \<open>Partial decoding\<close>

lemma bitv_concat:
  assumes "sized z E" and "u < length E" and "v < 8 * z"
  shows "bitv (concat E) (u * (8 * z) + v) = bitv (E ! u) v"
proof -
  have v: "v div 8 < z" using assms(3) by (simp add: less_mult_imp_div_less mult.commute)
  have "drop (u * z) (concat E) = E ! u @ concat (drop (Suc u) E)"
    using drop_concat_sized[OF assms(1)] assms(2) by (simp add: Cons_nth_drop_Suc[symmetric])
  moreover have "length (E ! u) = z" using assms(1,2) by (simp add: sized_def list_all_length)
  moreover have "u * z + v div 8 < length (concat E)"
    using block_less[OF assms(2) v] by (simp add: length_concat_sized[OF assms(1)])
  ultimately have "concat E ! (u * z + v div 8) = E ! u ! (v div 8)" using v by (metis nth_drop nth_append add_lessD1 less_imp_le)
  moreover have "(u * (8 * z) + v) div 8 = u * z + v div 8" "(u * (8 * z) + v) mod 8 = v mod 8"
    using div_mult_self2[of 8 v "u * z"] mod_mult_self2[of v 8 "u * z"] by (simp_all add: mult.left_commute add.commute)
  ultimately show ?thesis by (simp add: bitv_def)
qed

lemma selected_elements:
  assumes "packbits_fits P N z" and "unsigned_from_first P" and "packs P N (concat E) p" and "packable P N (concat E)"
    and E: "sized z E" "length E = N" and idx: "\<forall>i \<in> set idx. i < N"
    and b: "length b = length idx * z" "\<forall>j < 8 * length b. bitv b j = elements_set P p 0 idx j"
  shows "b = concat (map ((!) E) idx)"
proof (rule bytes_bits_eq)
  let ?m = "num_components (pb_components P)" and ?n = "bits_extracted P"
  note s = packbits_sizes[OF assms(1)]
  have z8: "8 * z = ?m * width P" using assms(1) by (simp add: packbits_fits_def)
  have sel: "sized z (map ((!) E) idx)" using E idx by (auto simp: sized_def list_all_iff)
  show "length b = length (concat (map ((!) E) idx))" using b(1) length_concat_sized[OF sel] by simp
  fix j assume jb: "j < 8 * length b"
  then have j: "j < length idx * (8 * z)" using b(1) by simp
  define u v where "u = j div (8 * z)" and "v = j mod (8 * z)"
  have uv: "u < length idx" "v < 8 * z" "j = u * (8 * z) + v"
    unfolding u_def v_def using j by (simp_all only: less_mult_imp_div_less div_mult_mod_eq) (rule mod_less_divisor, rule gr0I, simp)
  define q r where "q = v div width P" and "r = v mod width P"
  have qr: "q < ?m" "r < width P" "v = q * width P + r"
    using uv(2) z8 s(2,3) by (auto simp: q_def r_def less_mult_imp_div_less)
  have i: "idx ! u < N" using idx uv(1) by simp
  have c: "idx ! u * ?m + q < components_in P N" using block_less[OF i qr(1)] by (simp add: components_in_def)
  have "bitv (concat (map ((!) E) idx)) j = bitv (E ! (idx ! u)) v"
    using bitv_concat[OF sel, of u v] uv by simp
  also have "\<dots> = bitv (concat E) (idx ! u * (8 * z) + v)" using bitv_concat[OF E(1), of "idx ! u" v] i E(2) uv(2) by simp
  also have "idx ! u * (8 * z) + v = (idx ! u * ?m + q) * width P + r" by (simp add: z8 qr(3) add_mult_distrib mult.assoc)
  finally have 1: "bitv (concat (map ((!) E) idx)) j = bitv (concat E) ((idx ! u * ?m + q) * width P + r)" .
  have j': "j = (u * ?m + q) * width P + r" by (simp add: uv(3) z8 qr(3) add_mult_distrib mult.assoc)
  have kn: "k < width P" if "k < ?n" for k using that s(3) by simp
  have "elements_set P p 0 idx j \<longleftrightarrow> r < ?n \<and> bitv p (enc_bit P (idx ! u * ?m + q) r)"
  proof
    assume "elements_set P p 0 idx j"
    then obtain u' q' k where k: "u' < length idx" "q' < ?m" "k < ?n" "j = (u' * ?m + q') * width P + k"
        "bitv p (enc_bit P (idx ! u' * ?m + q') k)"
      by (auto simp: elements_set_def)
    have "u' * ?m + q' = u * ?m + q \<and> k = r" by (rule iffD1[OF block_unique[OF kn[OF k(3)] qr(2)] trans[OF k(4)[symmetric] j']])
    then have "u' = u" "q' = q" "k = r" using block_unique[OF k(2) qr(1)] by auto
    then show "r < ?n \<and> bitv p (enc_bit P (idx ! u * ?m + q) r)" using k(3,5) by simp
  next
    assume "r < ?n \<and> bitv p (enc_bit P (idx ! u * ?m + q) r)"
    then show "elements_set P p 0 idx j" using uv(1) qr(1) j' by (auto simp: elements_set_def)
  qed
  also have "\<dots> = bitv (concat E) ((idx ! u * ?m + q) * width P + r)"
  proof -
    have f: "pb_first_bit P = 0" "\<not> sign_extension (pb_components P)" using assms(2) by (simp_all add: unsigned_from_first_def)
    have "bitv (concat E) ((idx ! u * ?m + q) * width P + r) = kept_bit P (concat E) (idx ! u * ?m + q) r"
      by (rule packableD[OF assms(4) c qr(2)])
    also have "\<dots> = (r < ?n \<and> bitv (concat E) ((idx ! u * ?m + q) * width P + r))"
      using s(4) f by (auto simp: kept_bit_def)
    finally have "bitv (concat E) ((idx ! u * ?m + q) * width P + r) = (r < ?n \<and> bitv (concat E) ((idx ! u * ?m + q) * width P + r))" .
    moreover have "bitv p (enc_bit P (idx ! u * ?m + q) r) = bitv (concat E) ((idx ! u * ?m + q) * width P + r)" if "r < ?n"
      using assms(3) c that f(1) by (simp add: packs_def dec_bit_def)
    ultimately show ?thesis by blast
  qed
  finally show "bitv b j = bitv (concat (map ((!) E) idx)) j" using b(2) jb 1 by simp
qed

lemma run_read:
  assumes "packbits_fits P N z" and "length p = elements_size_bytes P N" and "i + m \<le> N"
  shows "br_selected (packbits_byte_range P (run_range (element_size_bits P) (i, m))) (with_padding P N p) = run_bytes P p (i, m)"
    and "ranges_on interval_range (length (with_padding P N p)) [packbits_byte_range P (run_range (element_size_bits P) (i, m))]"
proof -
  let ?e = "element_size_bits P" and ?a = "i * element_size_bits P div 8" and ?b = "div_ceil (i * element_size_bits P + m * element_size_bits P) 8"
  let ?off = "case pb_padding P of PaddingFirstByte \<Rightarrow> (1 :: nat) | _ \<Rightarrow> 0"
  note s = packbits_sizes[OF assms(1)]
  have "(i + m) * ?e \<le> N * ?e" using assms(3) by (rule mult_le_mono1)
  then have eb: "i * ?e + m * ?e \<le> N * ?e" by (simp add: add_mult_distrib)
  have "\<not> elements_size_bytes P N < ?b"
    using less_div_ceil_iff[of 8 "elements_size_bytes P N" "i * ?e + m * ?e"] elements_size_bytes_ok(1)[OF assms(1)] eb by simp
  then have b: "?b \<le> length p" using assms(2) by simp
  have "i * ?e + m * ?e \<le> 8 * ?b" using div_ceil_bounds(1)[of 8 "i * ?e + m * ?e"] by (simp add: mult.commute)
  then have ab: "?a \<le> ?b" by linarith
  have pM: "length p + 1 < M64" using elements_size_bytes_ok(2)[OF assms(1)] s(8) assms(2) by linarith
  have r: "packbits_byte_range P (run_range ?e (i, m)) = FromStart (?off + ?a) (Some (?b - ?a))"
    using ab b pM by (cases "pb_padding P") (simp_all add: packbits_byte_range_def run_range_def wadd_eq wsub_eq)
  show "br_selected (packbits_byte_range P (run_range ?e (i, m))) (with_padding P N p) = run_bytes P p (i, m)"
    unfolding r using ab b by (cases "pb_padding P") (simp_all add: with_padding_def run_bytes_def)
  show "ranges_on interval_range (length (with_padding P N p)) [packbits_byte_range P (run_range ?e (i, m))]"
    unfolding r using ab b pM by (cases "pb_padding P") (simp_all add: with_padding_def ranges_on_def)
qed

lemma packbits_partial_reads:
  assumes chunk: "packs_chunk P s d" and u: "unsigned_from_first P" "packable P (prod_list s) d" and p: "packs P (prod_list s) d p"
    and x: "indexes s x" and h: "reads_on interval_range h (with_padding P (prod_list s) p)"
  shows "\<exists>b. packbits_partial_decode P h s x = Inr b \<and> ab_ok (pb_data_type P) (length (ix_elements s x)) b \<and>
    vals (pb_data_type P) b = map ((!) (vals (pb_data_type P) (FixedBytes d))) (ix_elements s x)"
proof -
  let ?N = "prod_list s" and ?e = "element_size_bits P" and ?idx = "ix_elements s x" and ?m = "num_components (pb_components P)"
  obtain z where z: "pb_data_type P = PlainType (SizeFixed z)" "0 < z" "packbits_fits P ?N z" "length d = ?N * z" "?N * z < M64"
    using packs_chunk_size[OF chunk] by metis
  note sz = packbits_sizes[OF z(3)]
  have s: "shape_ok s" using chunk by (simp add: packs_chunk_def)
  have "ab_ok (PlainType (SizeFixed z)) ?N (FixedBytes d)" using z by simp
  then obtain E where E: "sized z E" "length E = ?N" "d = concat E" by (rule fixed_elems) 
  note cnt = indexed_count[OF x s]
  have cov: "covers s x" "small_array s ?e" using x sz(8,15) by (simp_all add: indexes_def small_array_def)
  obtain runs where runs: "byte_ranges_of x s ?e = Inr (map (run_range ?e) runs)" "runs_of ?N runs ?idx"
    using byte_ranges_of_eq[OF cov] by blast
  have im: "\<forall>(i, m) \<in> set runs. i + m \<le> ?N" and idx: "concat (map (\<lambda>(i, m). [i..<i + m]) runs) = ?idx"
    using runs(2) by (simp_all add: runs_of_def)
  have lp: "length p = elements_size_bytes P ?N" using p by (simp add: packs_def)
  have sel: "map (\<lambda>r. br_selected r (with_padding P ?N p)) (map (packbits_byte_range P) (map (run_range ?e) runs)) = map (run_bytes P p) runs"
    using run_read(1)[OF z(3) lp] im by auto
  have "ranges_on interval_range (length (with_padding P ?N p)) (map (packbits_byte_range P) (map (run_range ?e) runs))"
    using run_read(2)[OF z(3) lp] im by (fastforce simp: ranges_on_def list_all_iff)
  then have hd: "h (map (packbits_byte_range P) (map (run_range ?e) runs)) = Inr (Some (map (run_bytes P p) runs))"
    using h sel by (simp add: reads_on_def)
  have z8: "8 * z = ?m * width P" using z(3) by (simp add: packbits_fits_def)
  have "(\<Sum>(i, m) \<leftarrow> runs. m) = length ?idx"
    unfolding idx[symmetric] by (induction runs) auto
  then have D: "0 + (\<Sum>(i, m) \<leftarrow> runs. m) * ?m \<le> length ?idx * ?m" by simp
  have "length ?idx * (8 * z) \<le> ?N * (8 * z)" using cnt(1) by (rule mult_le_mono1)
  then have "length ?idx * (8 * z) < M64" using sz(9,10) by linarith
  then have DM: "length ?idx * ?m * width P < M64" unfolding z8 by (simp add: mult.assoc)
  have zM: "length ?idx * z < M64" using mult_less_M64[OF cnt(1) z(5)] .
  have "8 * length (replicate (length ?idx * z) (0 :: u8)) = length ?idx * ?m * width P" using z8 by (simp add: mult.assoc)
  from partial_ranges_at[OF z(3) u(1) DM lp im D this] obtain b where
      b: "partial_decode_ranges P (zip (map (run_bytes P p) runs) (map (run_range ?e) runs)) 0 (replicate (length ?idx * z) 0) = Inr b"
      "length b = length ?idx * z" "\<forall>j. bitv b j = (bitv (replicate (length ?idx * z) 0) j \<or> elements_set P p 0 ?idx j)"
    unfolding idx by auto
  then have "\<forall>j < 8 * length b. bitv b j = elements_set P p 0 ?idx j" by simp
  then have be: "b = concat (map ((!) E) ?idx)"
    using selected_elements[OF z(3) u(1) _ _ E(1,2) _ b(2)] p u(2) E(3) ix_elements_less[OF cov(1)] by blast
  have sE: "sized z (map ((!) E) ?idx)" using E(1,2) ix_elements_less[OF cov(1)] by (auto simp: sized_def list_all_iff)
  have "packbits_partial_decode P h s x = Inr (FixedBytes b)"
    using z(1) runs(1) hd b(1) cnt(3) zM by (simp add: packbits_partial_decode_def fixed_size_def wmul_eq)
  moreover have "vals (pb_data_type P) (FixedBytes b) = map ((!) (vals (pb_data_type P) (FixedBytes d))) ?idx"
    using ix_elements_less[OF cov(1)] E(2) unfolding z(1) be E(3) plain_vals[OF sE z(2)] plain_vals[OF E(1) z(2)] by simp
  ultimately show ?thesis using z(1,2) b(2) zM by simp
qed

lemma packbits_partial_absent:
  assumes chunk: "packs_chunk P s d" and p: "packs P (prod_list s) d p" and x: "indexes s x"
    and h: "absent_on interval_range h (length (with_padding P (prod_list s) p))" and f: "fill_ready (pb_data_type P) (pb_fill_value P) s"
  shows "\<exists>b. packbits_partial_decode P h s x = Inr b \<and> ab_ok (pb_data_type P) (length (ix_elements s x)) b \<and>
    vals (pb_data_type P) b = replicate (length (ix_elements s x)) (fill_val (pb_data_type P) (pb_fill_value P))"
proof -
  let ?N = "prod_list s" and ?e = "element_size_bits P" and ?idx = "ix_elements s x"
  obtain z where z: "pb_data_type P = PlainType (SizeFixed z)" "0 < z" "packbits_fits P ?N z" "?N * z < M64"
    using packs_chunk_size[OF chunk] by metis
  note sz = packbits_sizes[OF z(3)]
  have s: "shape_ok s" using chunk by (simp add: packs_chunk_def)
  note cnt = indexed_count[OF x s]
  have cov: "covers s x" "small_array s ?e" using x sz(8,15) by (simp_all add: indexes_def small_array_def)
  obtain runs where runs: "byte_ranges_of x s ?e = Inr (map (run_range ?e) runs)" "runs_of ?N runs ?idx"
    using byte_ranges_of_eq[OF cov] by blast
  have im: "\<forall>(i, m) \<in> set runs. i + m \<le> ?N" and idx: "concat (map (\<lambda>(i, m). [i..<i + m]) runs) = ?idx"
    using runs(2) by (simp_all add: runs_of_def)
  have lp: "length p = elements_size_bytes P ?N" using p by (simp add: packs_def)
  have "ranges_on interval_range (length (with_padding P ?N p)) (map (packbits_byte_range P) (map (run_range ?e) runs))"
    using run_read(2)[OF z(3) lp] im by (fastforce simp: ranges_on_def list_all_iff)
  then consider "h (map (packbits_byte_range P) (map (run_range ?e) runs)) = Inr None" | "runs = []" "h [] = Inr (Some [])"
    using h unfolding absent_on_def by (metis list.map_disc_iff)
  then show ?thesis
  proof cases
    case 1
    obtain b where "new_fill_value (pb_data_type P) (ix_len x) (pb_fill_value P) = Inr b" "ab_ok (pb_data_type P) (length ?idx) b"
        "vals (pb_data_type P) b = replicate (length ?idx) (fill_val (pb_data_type P) (pb_fill_value P))"
      using fill_indexed[OF s _ _ _ x, of "pb_data_type P" "pb_fill_value P"] f by (auto simp: fill_ready_def)
    then show ?thesis using z(1) runs(1) 1 by (simp add: packbits_partial_decode_def fixed_size_def)
  next
    case 2
    then have e: "?idx = []" using idx by simp
    then show ?thesis
      using z runs(1) 2 cnt(3) by (simp add: packbits_partial_decode_def fixed_size_def wmul_def vals_def)
  qed
qed

subsection \<open>The contract\<close>

definition packbits_accepts :: "packbits_bound \<Rightarrow> chunk_shape \<Rightarrow> array_bytes \<Rightarrow> bool" where
  "packbits_accepts P s b \<longleftrightarrow>
     (if packbits_whole_bytes P then bytes_accepts (packbits_bytes P) s b
      else case b of
          FixedBytes d \<Rightarrow> packs_chunk P s d \<and> unsigned_from_first P \<and> packable P (prod_list s) d
        | _ \<Rightarrow> False)"

lemma whole_bytes_codec: "bytes_accepts (packbits_bytes P) s b \<Longrightarrow> packbits_bytes_codec P = Inr (bytes_array_codec (packbits_bytes P))"
  by (auto simp: bytes_accepts_def bytes_ready_def packbits_bytes_codec_def bytes_with_context_def packbits_bytes_def is_optional_def
      split: data_type.splits data_type_size.splits)

lemma packed_accepted:
  assumes "packbits_accepts P s b" and "\<not> packbits_whole_bytes P"
  obtains d p where "b = FixedBytes d" and "packs_chunk P s d" and "unsigned_from_first P" and "packable P (prod_list s) d"
    and "packs P (prod_list s) d p" and "\<And>opt. packbits_encode P opt b s = Inr (with_padding P (prod_list s) p)"
    and "length (with_padding P (prod_list s) p) < M64" and "\<And>opt. packbits_decode P opt (with_padding P (prod_list s) p) s = Inr b"
    and "ab_ok (pb_data_type P) (prod_list s) b"
proof -
  let ?N = "prod_list s"
  obtain d where d: "b = FixedBytes d" "packs_chunk P s d" "unsigned_from_first P" "packable P ?N d"
    using assms by (auto simp: packbits_accepts_def split: array_bytes.splits)
  obtain z where z: "pb_data_type P = PlainType (SizeFixed z)" "0 < z" "packbits_fits P ?N z" "length d = ?N * z" "?N * z < M64"
    using packs_chunk_size[OF d(2)] by metis
  obtain p where p: "packs P ?N d p" "\<And>opt. packbits_encode P opt (FixedBytes d) s = Inr (with_padding P ?N p)"
    by (rule packbits_encoded[OF d(2)]) blast
  have lp: "length p = elements_size_bytes P ?N" using p(1) by (simp add: packs_def)
  have "length p + 1 < M64" using elements_size_bytes_ok(2)[OF z(3)] packbits_sizes(8)[OF z(3)] lp by linarith
  then have len: "length (with_padding P ?N p) < M64" by (cases "pb_padding P") (simp_all add: with_padding_def)
  have "packbits_decode P opt (with_padding P ?N p) s = Inr b" for opt
  proof -
    obtain b' where b': "packbits_decode P opt (with_padding P ?N p) s = Inr (FixedBytes b')" "length b' = length d"
        "\<And>c r. c < components_in P ?N \<Longrightarrow> r < width P \<Longrightarrow> bitv b' (c * width P + r) = kept_bit P d c r"
      by (rule packbits_decoded[OF d(2) p(1), where opt = opt]) (rule that)
    have "b' = d" using packable_unchanged[OF z(3) d(4) z(4)] b'(2,3) z(4) by simp
    then show ?thesis using b'(1) d(1) by simp
  qed
  then show ?thesis using that[OF d p(1)] p(2) len z d(1) by simp
qed

interpretation packbits: array_to_bytes_codec "packbits_array_codec P" "pb_data_type P" "pb_fill_value P" "packbits_accepts P"
  interval_range AnyIndexer for P
proof (unfold_locales, goal_cases)
  case (1 s b)
  show ?case
  proof (cases "packbits_whole_bytes P")
    case True
    then show ?thesis
      using 1 bytes.accepted[of "packbits_bytes P" s b]
      by (simp add: packbits_accepts_def packbits_array_codec_def packbits_encoded_representation_def packbits_bytes_def)
  next
    case False
    obtain d where "packs_chunk P s d" "ab_ok (pb_data_type P) (prod_list s) b" by (rule packed_accepted[OF 1 False])
    then show ?thesis by (simp add: packs_chunk_def packbits_array_codec_def packbits_encoded_representation_def)
  qed
next
  case (2 s b opt)
  show ?case
  proof (cases "packbits_whole_bytes P")
    case True
    then have a: "bytes_accepts (packbits_bytes P) s b" using 2 by (simp add: packbits_accepts_def)
    show ?thesis
      using bytes.roundtrip[OF a, of opt] True whole_bytes_codec[OF a]
      by (simp add: packbits_array_codec_def packbits_encode_def packbits_decode_def packbits_accepts_def)
        (simp add: packbits_bytes_def)
  next
    case False
    obtain p where "packbits_encode P opt b s = Inr (with_padding P (prod_list s) p)" "length (with_padding P (prod_list s) p) < M64"
        "\<And>opt'. packbits_decode P opt' (with_padding P (prod_list s) p) s = Inr b"
      by (rule packed_accepted[OF 2 False]) blast
    then show ?thesis using 2 by (simp add: packbits_array_codec_def)
  qed
next
  case (3 s b opt e a q T opt')
  show ?case
  proof (cases "packbits_whole_bytes P")
    case True
    then have acc: "bytes_accepts (packbits_bytes P) s b" using 3(1) by (simp add: packbits_accepts_def)
    have "ab_encode (bytes_array_codec (packbits_bytes P)) opt b s = Inr e"
      using 3(2) True whole_bytes_codec[OF acc] by (simp add: packbits_array_codec_def packbits_encode_def)
    from bytes.decoded_vals[OF acc this, of opt'] obtain b' where
        b': "packbits_decode P opt' e s = Inr b'" "ab_ok (pb_data_type P) (prod_list s) b'" "vals (pb_data_type P) b' = vals (pb_data_type P) b"
      using True whole_bytes_codec[OF acc] by (auto simp: packbits_decode_def) (simp add: packbits_bytes_def)
    from default_into_vals[OF 3(3,4) b'(2), of "packbits_decode P opt'"] b'(1,3) show ?thesis by (simp add: packbits_array_codec_def)
  next
    case False
    obtain p where "packbits_encode P opt b s = Inr (with_padding P (prod_list s) p)" "packbits_decode P opt' (with_padding P (prod_list s) p) s = Inr b"
        "ab_ok (pb_data_type P) (prod_list s) b"
      by (rule packed_accepted[OF 3(1) False]) blast
    then show ?thesis
      using default_into_vals[OF 3(3,4), of b "packbits_decode P opt'"] 3(2) by (simp add: packbits_array_codec_def)
  qed
next
  case (4 s b opt e h opt')
  show ?case
  proof (cases "packbits_whole_bytes P")
    case True
    then have acc: "bytes_accepts (packbits_bytes P) s b" using 4(1) by (simp add: packbits_accepts_def)
    have "ab_encode (bytes_array_codec (packbits_bytes P)) opt b s = Inr e"
      using 4(2) True whole_bytes_codec[OF acc] by (simp add: packbits_array_codec_def packbits_encode_def)
    from bytes.partial[OF acc this 4(3)] show ?thesis
      using True by (simp add: packbits_array_codec_def bytes_array_codec_def) (simp add: packbits_bytes_def)
  next
    case False
    obtain d p where dp: "b = FixedBytes d" "packs_chunk P s d" "unsigned_from_first P" "packable P (prod_list s) d" "packs P (prod_list s) d p"
        "packbits_encode P opt b s = Inr (with_padding P (prod_list s) p)"
      by (rule packed_accepted[OF 4(1) False]) blast
    then have "e = with_padding P (prod_list s) p" using 4(2) by (simp add: packbits_array_codec_def)
    then show ?thesis
      using packbits_partial_reads[OF dp(2-5)] 4(3) False dp(1) by (simp add: packbits_array_codec_def reads_array_def)
  qed
next
  case (5 s b opt e h opt')
  show ?case
  proof (cases "packbits_whole_bytes P")
    case True
    then have acc: "bytes_accepts (packbits_bytes P) s b" using 5(1) by (simp add: packbits_accepts_def)
    have "ab_encode (bytes_array_codec (packbits_bytes P)) opt b s = Inr e"
      using 5(2) True whole_bytes_codec[OF acc] by (simp add: packbits_array_codec_def packbits_encode_def)
    from bytes.partial_fill[OF acc this 5(3)] 5(4) show ?thesis
      using True by (simp add: packbits_array_codec_def bytes_array_codec_def) (simp add: packbits_bytes_def)
  next
    case False
    obtain d p where dp: "packs_chunk P s d" "packs P (prod_list s) d p" "packbits_encode P opt b s = Inr (with_padding P (prod_list s) p)"
      by (rule packed_accepted[OF 5(1) False]) blast
    then have "e = with_padding P (prod_list s) p" using 5(2) by (simp add: packbits_array_codec_def)
    then show ?thesis
      using packbits_partial_absent[OF dp(1,2)] 5(3,4) False by (simp add: packbits_array_codec_def reads_array_def fill_vals_indexed)
  qed
qed

subsection \<open>Properties\<close>

text \<open>
  Property C15.  Packing and unpacking any chunk keeps the bits \<open>first_bit\<close> to \<open>last_bit\<close> of every component, extends the sign of a signed
  component through the byte of its last bit, and clears the others; so a chunk with such components is unchanged.
\<close>

theorem packbits_keeps_bits:
  assumes "packs_chunk P s d"
  shows "\<exists>e. (\<forall>opt. packbits_encode P opt (FixedBytes d) s = Inr e) \<and>
     (\<forall>opt. \<exists>b. packbits_decode P opt e s = Inr (FixedBytes b) \<and> length b = length d \<and>
        (\<forall>c < components_in P (prod_list s). \<forall>r < width P. bitv b (c * width P + r) = kept_bit P d c r) \<and>
        (packable P (prod_list s) d \<longrightarrow> b = d))"
proof -
  obtain p where p: "packs P (prod_list s) d p" "\<And>opt. packbits_encode P opt (FixedBytes d) s = Inr (with_padding P (prod_list s) p)"
    by (rule packbits_encoded[OF assms]) blast
  obtain z where z: "packbits_fits P (prod_list s) z" "length d = prod_list s * z" using packs_chunk_size[OF assms] by metis
  have "\<exists>b. packbits_decode P opt (with_padding P (prod_list s) p) s = Inr (FixedBytes b) \<and> length b = length d \<and>
      (\<forall>c < components_in P (prod_list s). \<forall>r < width P. bitv b (c * width P + r) = kept_bit P d c r) \<and>
      (packable P (prod_list s) d \<longrightarrow> b = d)" for opt
  proof -
    obtain b where b: "packbits_decode P opt (with_padding P (prod_list s) p) s = Inr (FixedBytes b)" "length b = length d"
        "\<And>c r. c < components_in P (prod_list s) \<Longrightarrow> r < width P \<Longrightarrow> bitv b (c * width P + r) = kept_bit P d c r"
      by (rule packbits_decoded[OF assms p(1), where opt = opt]) (rule that)
    moreover have "packable P (prod_list s) d \<longrightarrow> b = d" using packable_unchanged[OF z(1) _ z(2), of b] b(2,3) z(2) by simp
    ultimately show ?thesis by blast
  qed
  then show ?thesis using p(2) by blast
qed

text \<open>Elements of four signed bits.\<close>

definition int4_bound :: packbits_bound where
  "int4_bound = \<lparr>pb_padding = PaddingFirstByte, pb_components = \<lparr>component_size_bits = 4, num_components = 1, sign_extension = True\<rparr>,
     pb_first_bit = 0, pb_last_bit = 3, pb_data_type = PlainType (SizeFixed 1), pb_fill_value = [0], pb_native = LittleEndian,
     pb_bytes_component = 1\<rparr>"

lemma int4_sizes:
  "width int4_bound = 8" "bits_extracted int4_bound = 4" "components_in int4_bound n = n" "element_size_bits int4_bound = 4"
  by (simp_all add: int4_bound_def component_width_def div_ceil_def bits_extracted_def components_in_def element_size_bits_def
      wadd_def wsub_def wmul_def M64_def)

lemma int4_chunk: "packs_chunk int4_bound [3] [0xFD, 5, 0xF8]"
proof -
  have "packbits_fits int4_bound 3 1"
    unfolding packbits_fits_def int4_sizes by (simp add: int4_bound_def M64_def)
  then show ?thesis
    unfolding packs_chunk_def packbits_whole_bytes_def by (simp add: int4_bound_def shape_ok_def M64_def)
qed

theorem packbits_keeps_bits_witness:
  "\<exists>e. packbits_encode int4_bound sample_options (FixedBytes [0xFD, 5, 0xF8]) [3] = Inr e \<and>
     packbits_decode int4_bound sample_options e [3] = Inr (FixedBytes [0xFD, 5, 0xF8])"
proof -
  have "packable int4_bound 3 [0xFD, 5, 0xF8]"
    unfolding packable_def int4_sizes by (simp add: kept_bit_def int4_sizes bitv_def bits_after_def upt_rec) (simp add: int4_bound_def)
  moreover have "prod_list [3] = (3 :: nat)" by simp
  ultimately show ?thesis using packbits_keeps_bits[OF int4_chunk] by metis
qed

text \<open>
  Property C16.  For unsigned components that are packed from their first bit (and for whole bytes, which the bytes codec stores), a chunk
  whose other bits are zero is encoded, decoded to the same values, and partially decoded to the values of any indexer, from any reader of
  byte ranges.
\<close>

theorem packbits_codec_correct:
  assumes "packbits_accepts P s b"
  shows "\<exists>e. packbits_encode P opt b s = Inr e \<and>
     (\<forall>opt'. \<exists>b'. packbits_decode P opt' e s = Inr b' \<and> vals (pb_data_type P) b' = vals (pb_data_type P) b) \<and>
     (\<forall>opt' h. reads_on interval_range h e \<longrightarrow>
        (\<exists>dec. ab_partial_decoder (packbits_array_codec P) opt' h s = Inr dec \<and>
           reads_array AnyIndexer (pb_data_type P) dec s (vals (pb_data_type P) b)))"
proof -
  obtain e where e: "ab_encode (packbits_array_codec P) opt b s = Inr e" using packbits.roundtrip[OF assms] by blast
  from packbits.decoded_vals[OF assms e] packbits.partial[OF assms e] e show ?thesis by (fastforce simp: packbits_array_codec_def)
qed

text \<open>Booleans, as the mask of the \<open>optional\<close> codec has them.\<close>

definition bool_bound :: packbits_bound where
  "bool_bound = \<lparr>pb_padding = PaddingNone, pb_components = \<lparr>component_size_bits = 1, num_components = 1, sign_extension = False\<rparr>,
     pb_first_bit = 0, pb_last_bit = 0, pb_data_type = PlainType (SizeFixed 1), pb_fill_value = [0], pb_native = LittleEndian,
     pb_bytes_component = 1\<rparr>"

lemma bool_sizes:
  "width bool_bound = 8" "bits_extracted bool_bound = 1" "components_in bool_bound n = n" "element_size_bits bool_bound = 1"
  by (simp_all add: bool_bound_def component_width_def div_ceil_def bits_extracted_def components_in_def element_size_bits_def
      wadd_def wsub_def wmul_def M64_def)

lemma bool_accepts:
  assumes "shape_ok s" and "8 * prod_list s + 16 < M64" and "length d = prod_list s" and "list_all (\<lambda>v. v = 0 \<or> v = 1) d"
  shows "packbits_accepts bool_bound s (FixedBytes d)"
proof -
  have "packbits_fits bool_bound (prod_list s) 1"
    using assms(2) unfolding packbits_fits_def bool_sizes by (simp add: bool_bound_def M64_def)
  then have "packs_chunk bool_bound s d" using assms(1,3) by (simp add: packs_chunk_def packbits_whole_bytes_def) (simp add: bool_bound_def)
  moreover have "bitv d (c * 8 + r) = kept_bit bool_bound d c r" if c: "c < prod_list s" "r < 8" for c r
  proof -
    have "d ! c = 0 \<or> d ! c = 1" using assms(3,4) c(1) by (simp add: list_all_length)
    moreover have "(c * 8 + r) div 8 = c" "(c * 8 + r) mod 8 = r" using c(2) by simp_all
    ultimately show ?thesis
      unfolding kept_bit_def bool_sizes by (auto simp: bitv_def bool_bound_def bit_1_iff)
  qed
  ultimately show ?thesis
    using assms(3) unfolding packbits_accepts_def packable_def bool_sizes
    by (auto simp: list_all_iff unsigned_from_first_def packbits_whole_bytes_def) (simp_all add: bool_bound_def)
qed

theorem packbits_codec_correct_witness:
  "\<exists>e b. packbits_encode bool_bound sample_options (FixedBytes [1, 0, 0, 1]) [2, 2] = Inr e \<and>
     packbits_decode bool_bound sample_options e [2, 2] = Inr b \<and>
     vals (PlainType (SizeFixed 1)) b = vals (PlainType (SizeFixed 1)) (FixedBytes [1, 0, 0, 1])"
proof -
  have "packbits_accepts bool_bound [2, 2] (FixedBytes [1, 0, 0, 1])" by (rule bool_accepts) (simp_all add: shape_ok_def M64_def)
  from packbits_codec_correct[OF this, of sample_options] show ?thesis by (auto simp: bool_bound_def)
qed

subsection \<open>Where the partial decoder differs\<close>

text \<open>
  The decoder extends the sign of -1 in four bits to its byte, the partial decoder does not; and it puts components that are not packed from
  their first bit at the first bit.
\<close>

definition nibble_bound :: packbits_bound where
  "nibble_bound = \<lparr>pb_padding = PaddingNone, pb_components = \<lparr>component_size_bits = 8, num_components = 1, sign_extension = False\<rparr>,
     pb_first_bit = 4, pb_last_bit = 7, pb_data_type = PlainType (SizeFixed 1), pb_fill_value = [0], pb_native = LittleEndian,
     pb_bytes_component = 1\<rparr>"

lemma bound_parts:
  "pb_padding int4_bound = PaddingFirstByte" "component_size_bits (pb_components int4_bound) = 4"
  "num_components (pb_components int4_bound) = 1" "sign_extension (pb_components int4_bound)"
  "pb_first_bit int4_bound = 0" "pb_last_bit int4_bound = 3" "pb_data_type int4_bound = PlainType (SizeFixed 1)"
  "pb_padding nibble_bound = PaddingNone" "component_size_bits (pb_components nibble_bound) = 8"
  "num_components (pb_components nibble_bound) = 1" "\<not> sign_extension (pb_components nibble_bound)"
  "pb_first_bit nibble_bound = 4" "pb_last_bit nibble_bound = 7" "pb_data_type nibble_bound = PlainType (SizeFixed 1)"
  "bits_extracted nibble_bound = 4" "element_size_bits nibble_bound = 4"
  by (simp_all add: int4_bound_def nibble_bound_def bits_extracted_def element_size_bits_def wadd_def wsub_def wmul_def M64_def)

lemma one_element: "byte_ranges_of (IndicesIndexer [[0]]) [Suc 0] 4 = Inr [(0, 4)]"
  by (simp add: byte_ranges_of_def ix_byte_ranges_def ravel_item_def ravel_indices_def byte_range_of_run_def wmul_def wadd_def M64_def)

lemma upts: "[0..<4] = [0, 1, 2, 3]" "[4..<8] = [4, 5, 6, 7]" "[0..<Suc 0] = [0]"
  by (simp_all add: upt_rec)

lemmas bit_eval = div_rem_8bit_def div_rem_8_def copy_bit_def get_bit_def or_bit_def wadd_def wmul_def wsub_def M64_def div_ceil_def
  saturating_sub_def upts

text \<open>The loops over the bits of the component.\<close>

lemma one_component:
  "decode_bits 4 [0x0F] 0 0 [0..<4] [0] = Inr [0x0F]" "extend_sign 4 4 [0x0F] 0 0 [0x0F] = Inr [0xFF]"
  "partial_extend_sign 4 4 0 [0x0F] = Inr [0x0F]"
  "decode_bits 8 [0x0A] 4 0 [0..<4] [0] = Inr [0xA0]" "decode_bits 8 [0x0A] 0 0 [0..<4] [0] = Inr [0x0A]"
  by (simp_all add: extend_sign_def partial_extend_sign_def bit_eval)

lemma small_values: "wmul 0 n = 0" "wmul (Suc 0) (Suc 0) = Suc 0" "wmul (Suc 0) 4 = 4" "wadd 0 0 = 0" "wadd 0 4 = 4" "wadd 0 (Suc 0) = Suc 0"
  "wadd (Suc 0) (Suc 0) = 2" "wadd (Suc 0) 0 = 1" "wsub 4 0 = 4" "wsub 0 0 = 0" "wmul 8 0 = 0" "div_ceil 4 8 = 1" "wprod [Suc 0] = 1" "wsub 4 1 = 3" "wsub 8 1 = 7"
  "wsub 2 (Suc 0) = 1" "wsub 1 0 = 1" "wsub (Suc 0) 0 = 1"
  by (simp_all add: wmul_def wadd_def wsub_def M64_def div_ceil_def wprod_def)

lemmas pack_eval = packbits_decode_def packbits_partial_decode_def packbits_whole_bytes_def packbits_packed_def elements_size_bytes_def
  padding_bits_def fixed_size_def packbits_byte_range_def Let_def int4_sizes bound_parts one_element one_component small_values upts(3)

lemma packbits_partial_sign:
  assumes "h = (\<lambda>rs. Inr (Some (map (\<lambda>r. br_selected r [4, 0x0F]) rs)))"
  shows "packbits_decode int4_bound opt [4, 0x0F] [1] = Inr (FixedBytes [0xFF])"
    and "packbits_partial_decode int4_bound h [1] (IndicesIndexer [[0]]) = Inr (FixedBytes [0x0F])"
  using assms by (simp_all add: pack_eval)

lemma packbits_partial_first_bit:
  assumes "h = (\<lambda>rs. Inr (Some (map (\<lambda>r. br_selected r [0x0A]) rs)))"
  shows "packbits_decode nibble_bound opt [0x0A] [1] = Inr (FixedBytes [0xA0])"
    and "packbits_partial_decode nibble_bound h [1] (IndicesIndexer [[0]]) = Inr (FixedBytes [0x0A])"
  using assms by (simp_all add: pack_eval)

end
