(* ===== verification/Spec2Isabelle.thy ===== *)
theory Spec2Isabelle
  imports Repeat_Grid Store_Listing Node_Properties Fletcher_Checksum Concurrency Array_Bytes_Properties Indexers Encoder_Properties Vlen_Properties Reshape_Properties Pack_Properties
begin

text \<open>
  A verification library of \<open>zarrs\<close>, a Rust implementation of the Zarr storage format for chunked, compressed
  N-dimensional arrays.

  An array is stored in a key-value store: its metadata under one key, each of its chunks under a key of its own.  A chunk grid
  says which region a chunk covers, a chunk key encoding where the chunk is stored, and a chain of codecs how its elements become
  bytes.  Reading a region finds the chunks that meet it, decodes them, wholly or partially, and puts the parts together;
  writing a region overwrites whole chunks and updates the others; a chunk that becomes all fill value is erased.  The library
  models this path from the arithmetic of regions up to the array operations, and the nodes and groups that hold arrays.

  \<^bold>\<open>Conventions.\<close>
  \<open>u64\<close>, \<open>usize\<close> and \<open>NonZeroU64\<close> are natural numbers below \<open>M64 = 2 ^ 64\<close>, with the wrap-around written out: \<open>wadd\<close>, \<open>wmul\<close> and
  \<open>wsub\<close> are the operators of the release profile, \<open>checked_\<close> and \<open>saturating_\<close> operations are their own functions, and the
  theorems state the bounds under which nothing wraps.  Bytes are \<open>8 word\<close> lists, and \<open>u32\<close> arithmetic is on \<open>32 word\<close>.  A \<open>Result\<close> is a sum with the error on the
  left, chained by \<open>bind_res\<close>.  A panic is a value of the error type (\<open>StoragePanic\<close>, \<open>CodecPanic\<close>, \<open>ArrayPanic\<close>) or \<open>None\<close>, so
  that a result \<open>Inr\<close> also says that nothing panicked.  A trait object is a record of its methods; a provided method is a
  function of the record (\<open>default_\<close> in its name).  An operation that changes a store takes the state of the
  store and returns the new one.  A loop that the code runs in parallel takes a schedule \<open>sched\<close>, any function that
  permutes the list of tasks; an uninitialised buffer has contents \<open>junk\<close>; the split of \<open>align_to\<close> is a parameter \<open>al\<close>; a hash
  map is iterated in any order.  The theorems quantify over all of them.

  \<^bold>\<open>Geometry\<close> (\<open>zarrs_chunk_grid\<close>).
  \<open>Array_Subset\<close>: boxes of indices and every method of \<open>ArraySubsetTraits\<close>.  \<open>Row_Major\<close>: \<open>ravel_indices\<close> and
  \<open>unravel_index\<close>, inverse to each other.  \<open>Index_Iterators\<close>, \<open>Contiguous_Iterators\<close>: the iterators over the indices of a
  box, over their positions in an array, and over the maximal runs of positions that lie next to each other, with the byte ranges of these.  \<open>Indexers\<close>: the \<open>Indexer\<close> trait and its
  implementations.  \<open>Chunk_Grid\<close>: the trait \<open>ChunkGridTraits\<close> with its provided methods; \<open>Regular_Grids\<close>,
  \<open>Varying_Grids\<close>, \<open>Repeat_Grid\<close>: the grids \<open>regular\<close>, \<open>regular_bounded\<close>, \<open>rectangular\<close>, \<open>rectilinear\<close> and the repeated
  tile.  Each is shown to partition the array: every element is in exactly one chunk.  The locale \<open>grid_contract\<close> of \<open>Grid_Contract\<close> is
  what the array operations use of a grid; \<open>Subset_Geometry\<close> and \<open>Grid_Regions\<close> derive from it how the values of a region
  are assembled from chunks.

  \<^bold>\<open>Storage\<close> (\<open>zarrs_storage\<close>).
  \<open>Byte_Range\<close>: byte ranges and their extraction.  \<open>Store_Key\<close>: keys and prefixes.  \<open>Memory_Store\<close>: the storage
  traits, the in-memory store and the locale \<open>key_value_store\<close>, the finite map that a store implements;
  \<open>Store_Listing\<close>: listing.

  \<^bold>\<open>Nodes\<close> (\<open>zarrs/src/node\<close>, \<open>group.rs\<close>, \<open>hierarchy.rs\<close>).
  \<open>Node_Path\<close>: names, paths, metadata keys and chunk keys.
  \<open>Node_Meta\<close>: metadata documents and reading them, with the JSON parsers and printers as the parameter \<open>serde\<close>.  \<open>Node_Tree\<close>: nodes, listing,
  consolidated metadata, hierarchies.  \<open>Node_Groups\<close>: groups.  \<open>Node_Names\<close> treats paths as lists of names;
  \<open>Node_Listing\<close> and \<open>Node_Laws\<close> show, over the locale \<open>listable_store\<close>, that listing ends and finds exactly the nodes that are
  reached through groups, as a tree and as a flat list alike; \<open>Node_Consolidated\<close> shows that consolidating a tree and building it
  again gives the tree, sorted; \<open>Node_Properties\<close> interprets the locale on the memory store and states the properties, with those of groups.

  \<^bold>\<open>Elements\<close> (\<open>zarrs_codec\<close>, \<open>zarrs_data_type\<close>).
  \<open>Data_Types\<close>: data types as the array code sees them, and fill values.  \<open>Array_Bytes\<close>: the bytes of the elements
  of a chunk, of fixed or variable size, with masks for optional types, and extraction, update and fill values of these;
  \<open>Element_Lists\<close> and \<open>Array_Bytes_Laws\<close> show what these do to the list of elements, \<open>Array_Bytes_Properties\<close> states it.

  \<^bold>\<open>Codecs\<close> (\<open>zarrs_codec\<close>, \<open>zarrs/src/array/codec\<close>).
  \<open>Codec_Base\<close>: the traits of bytes-to-bytes codecs and their default partial decoders, with the locale of a lawful codec;
  \<open>Checksum_Codecs\<close>, \<open>Fletcher_Checksum\<close>, \<open>Shuffle_Codec\<close> are instances.  \<open>Array_Codecs\<close>: the array-to-bytes traits and the locale of a lawful
  codec: what is encoded is decoded, a chunk stays valid, and the partial decoder yields the elements of every indexer of a class.  Which indexers a codec serves is
  part of its contract (\<open>indexer_class\<close>), as is the class of byte ranges that it asks from the codec before it (\<open>interval_range\<close>,
  \<open>from_start_range\<close>, \<open>sharding_range\<close>), since not every codec of the program serves every request.  Instances:
  \<open>Endian_Codec\<close> (\<open>bytes\<close>); \<open>Vlen_Codecs\<close> (\<open>vlen\<close>, \<open>vlen_v2\<close>); \<open>Optional_Codec\<close>; \<open>Pack_Bits\<close> (\<open>packbits\<close>); \<open>Codec_Chain\<close> over lawful codecs, with the decoder
  caches (\<open>Chain_Laws\<close> shows the composition, \<open>Codec_Properties\<close> states it; a cache directly before an array-to-array codec
  is excluded by \<open>array_cache_between\<close>: the code gives it the wrong shape, see \<open>cache_before_transpose_fails\<close>); and \<open>Sharding_Codec\<close> with its partial decoder
  (\<open>Sharding_Partial\<close>), compaction (\<open>Sharding_Compact\<close>) and partial encoder (\<open>Sharding_Encoder\<close>).  Array-to-array codecs have a contract of their own in
  \<open>Chain_Laws\<close>; \<open>Transpose_Codec\<close> and \<open>Reshape_Codecs\<close> (\<open>squeeze\<close>, \<open>reshape\<close>) keep it.  The theories named \<open>_Laws\<close>,
  \<open>_Reads\<close>, \<open>_Writes\<close> and \<open>_Contract\<close> hold the proofs, those named \<open>_Properties\<close> the statements.

  \<^bold>\<open>Arrays\<close> (\<open>zarrs/src/array\<close>).
  \<open>Concurrency\<close>: the split of threads between chunks and codecs.  \<open>Chunk_Merge\<close>, \<open>Target_Laws\<close>: assembling the bytes of
  chunks, in buffers that are not initialised.  \<open>Array_Ops\<close>: reading, writing, updating, erasing and compacting chunks and regions.
  \<open>Array_Laws\<close>: an array in a store means a function from indices to element values (\<open>array_holds\<close>), over any lawful grid, codec, key
  encoding and store (locale \<open>array_on_store\<close>).  \<open>Array_Reads\<close>: a read returns the values of this function; \<open>Array_Writes\<close>: a write
  overwrites it exactly on its region.  \<open>Array_Properties\<close> and \<open>Sharding_Properties\<close> interpret the locale on the memory store, the
  grids and the codecs of the program.  Their theorems on the contents of arrays and shards are for elements of a fixed size.

  \<^bold>\<open>Bounds and fuel.\<close>
  Every loop of the code is structurally recursive here or has a proof of termination, except where the input decides
  how often it runs: the recursion over the groups of a store, which has fuel.  Each level of groups takes a slash of every key below it, so fuel above
  the number of slashes of the keys is enough, and more fuel changes nothing (\<open>finding_nodes_ends\<close>).  The recursion over consolidated metadata
  removes an entry of its map in every call, and is started with the number of entries as its fuel.

  Witnesses apply each theorem to a small concrete program state.  Array operations are modelled with the provided
  \<open>partial_decode_into\<close> of the codec traits; the override of the sharding codec is modelled in \<open>Sharding_Partial\<close> and shown to agree with it.

  \<^bold>\<open>Not modelled.\<close>
  The asynchronous variants of all operations, which repeat the synchronous code with \<open>await\<close>.  JSON and its documents: \<open>serde\<close> is a parameter, and the
  metadata structures of \<open>zarrs_metadata\<close> but for those of nodes and groups that \<open>Node_Meta\<close> and \<open>Node_Groups\<close> use, the plugin registries that turn them into codecs, grids and data types, the conversions between Zarr V2 and V3 array metadata, the builders and the global configuration are left out.
  The codecs that call a compression library (\<open>blosc\<close>, \<open>bz2\<close>, \<open>gdeflate\<close>, \<open>gzip\<close>, \<open>pcodec\<close>, \<open>zfp\<close>, \<open>zlib\<close>, \<open>zstd\<close>), and \<open>bitround\<close>,
  \<open>fixedscaleoffset\<close> and \<open>cast_value\<close>, which rest on floating-point arithmetic.  The concrete data types and the typed \<open>Element\<close>
  interfaces, which only decide sizes and byte orders here.  Stores on files, over HTTP, in zip archives or behind
  \<open>object_store\<close> and \<open>opendal\<close>, and the storage adapters, which are input and output.  The C interface.  Subchunk grids and the mapping of grids through \<open>reshape\<close>.
\<close>

end
